(* ===== verification/Prelude.thy ===== *)
theory Prelude
  imports Main "HOL-Library.List_Lexorder" "HOL-Library.Char_ord"
begin

text \<open>
  Shared vocabulary of the development.

  \<^item> Rust's \<open>Result<T, E>\<close> is the sum type \<open>'e + 'a\<close> (\<open>Inl\<close> is \<open>Err\<close>, \<open>Inr\<close> is \<open>Ok\<close>);
    the operator \<open>?\<close> is \<open>rbind\<close>, the loops \<open>for x in xs { f(x)?; }\<close> and
    \<open>xs.map(f).collect::<Result<_, _>>()\<close> are \<open>try_each\<close>, \<open>try_fold\<close> and \<open>try_map\<close>.
  \<^item> Identifiers (newtypes over \<open>String\<close>) are strings, ordered bytewise as in Rust.
  \<^item> \<open>slice::sort_by\<close> is a stable sort: \<open>sort_by\<close> below, determined by the comparison.
  \<^item> 64-bit counters that saturate or wrap are naturals with the bound written out.
\<close>

named_theorems result_simps "rewriting of results and of the question-mark operator"
named_theorems map_simps "rewriting of ordered-map operations"

subsection \<open>Results\<close>

type_synonym ('e, 'a) result = "'e + 'a"

definition rbind :: "'e + 'a \<Rightarrow> ('a \<Rightarrow> 'e + 'b) \<Rightarrow> 'e + 'b" where
  "rbind r f = (case r of Inl e \<Rightarrow> Inl e | Inr x \<Rightarrow> f x)"

definition map_err :: "('e \<Rightarrow> 'f) \<Rightarrow> 'e + 'a \<Rightarrow> 'f + 'a" where
  "map_err g r = (case r of Inl e \<Rightarrow> Inl (g e) | Inr x \<Rightarrow> Inr x)"

definition ok_or :: "'e \<Rightarrow> 'a option \<Rightarrow> 'e + 'a" where
  "ok_or e x = (case x of None \<Rightarrow> Inl e | Some y \<Rightarrow> Inr y)"

definition is_ok :: "'e + 'a \<Rightarrow> bool" where
  "is_ok r = (case r of Inl _ \<Rightarrow> False | Inr _ \<Rightarrow> True)"

lemma rbind_simps [simp, result_simps]:
  "rbind (Inl e) f = Inl e" "rbind (Inr x) f = f x"
  by (simp_all add: rbind_def)

lemma rbind_eq_Inr [result_simps]: "rbind r f = Inr y \<longleftrightarrow> (\<exists>x. r = Inr x \<and> f x = Inr y)"
  by (cases r) auto

lemma rbind_eq_Inl [result_simps]:
  "rbind r f = Inl e \<longleftrightarrow> r = Inl e \<or> (\<exists>x. r = Inr x \<and> f x = Inl e)"
  by (cases r) auto

lemma rbind_assoc: "rbind (rbind r f) g = rbind r (\<lambda>x. rbind (f x) g)"
  by (cases r) auto

lemma rbind_cong [fundef_cong]:
  "r = r' \<Longrightarrow> (\<And>x. r' = Inr x \<Longrightarrow> f x = f' x) \<Longrightarrow> rbind r f = rbind r' f'"
  by (cases r') auto

lemma map_err_simps [simp, result_simps]:
  "map_err g (Inl e) = Inl (g e)" "map_err g (Inr x) = Inr x"
  by (simp_all add: map_err_def)

lemma map_err_eq_Inr [simp]: "map_err g r = Inr x \<longleftrightarrow> r = Inr x"
  by (cases r) auto

lemma map_err_eq_Inl: "map_err g r = Inl e \<longleftrightarrow> (\<exists>e'. r = Inl e' \<and> e = g e')"
  by (cases r) auto

lemma ok_or_simps [simp, result_simps]: "ok_or e None = Inl e" "ok_or e (Some y) = Inr y"
  by (simp_all add: ok_or_def)

lemma ok_or_eq_Inr [simp]: "ok_or e x = Inr y \<longleftrightarrow> x = Some y"
  by (cases x) auto

lemma ok_or_eq_Inl: "ok_or e x = Inl e' \<longleftrightarrow> x = None \<and> e' = e"
  by (cases x) auto

lemma is_ok_simps [simp]: "\<not> is_ok (Inl e)" "is_ok (Inr x)"
  by (simp_all add: is_ok_def)

lemma is_ok_iff: "is_ok r \<longleftrightarrow> (\<exists>x. r = Inr x)"
  by (cases r) auto

lemma is_ok_rbind: "is_ok (rbind r f) \<longleftrightarrow> (\<exists>x. r = Inr x \<and> is_ok (f x))"
  by (cases r) auto

lemma option_eqI: "(\<And>v. x = Some v \<longleftrightarrow> y = Some v) \<Longrightarrow> x = y"
  by (cases x; cases y) auto

text \<open>Loops that stop at the first error.\<close>

fun try_each :: "('a \<Rightarrow> 'e + unit) \<Rightarrow> 'a list \<Rightarrow> 'e + unit" where
  "try_each f [] = Inr ()"
| "try_each f (x # xs) = rbind (f x) (\<lambda>_. try_each f xs)"

fun try_fold :: "('s \<Rightarrow> 'a \<Rightarrow> 'e + 's) \<Rightarrow> 's \<Rightarrow> 'a list \<Rightarrow> 'e + 's" where
  "try_fold f s [] = Inr s"
| "try_fold f s (x # xs) = rbind (f s x) (\<lambda>s'. try_fold f s' xs)"

fun try_map :: "('a \<Rightarrow> 'e + 'b) \<Rightarrow> 'a list \<Rightarrow> 'e + 'b list" where
  "try_map f [] = Inr []"
| "try_map f (x # xs) = rbind (f x) (\<lambda>y. rbind (try_map f xs) (\<lambda>ys. Inr (y # ys)))"

lemma try_each_ok: "try_each f xs = Inr u \<longleftrightarrow> (\<forall>x\<in>set xs. f x = Inr ())"
proof (induction xs)
  case (Cons x xs)
  then show ?case by (cases "f x") auto
qed simp

lemma try_each_is_ok: "is_ok (try_each f xs) \<longleftrightarrow> (\<forall>x\<in>set xs. is_ok (f x))"
proof (induction xs)
  case (Cons x xs)
  then show ?case by (cases "f x") auto
qed simp

lemma try_each_err: "try_each f xs = Inl e \<Longrightarrow> \<exists>x\<in>set xs. f x = Inl e"
  by (induction xs) (auto simp: rbind_eq_Inl)

lemma try_each_prefix:
  "\<forall>y\<in>set ys. f y = Inr () \<Longrightarrow> try_each f (ys @ zs) = try_each f zs"
  by (induction ys) auto

lemma try_each_first_err:
  "try_each f xs = Inl e \<Longrightarrow>
     \<exists>ys x zs. xs = ys @ x # zs \<and> f x = Inl e \<and> (\<forall>y\<in>set ys. f y = Inr ())"
proof (induction xs)
  case Nil
  then show ?case by simp
next
  case (Cons x xs)
  show ?case
  proof (cases "f x")
    case (Inl e')
    with Cons.prems have "x # xs = [] @ x # xs \<and> f x = Inl e \<and> (\<forall>y\<in>set []. f y = Inr ())"
      by simp
    then show ?thesis by blast
  next
    case (Inr u)
    with Cons obtain ys z zs where
      "xs = ys @ z # zs" "f z = Inl e" "\<forall>y\<in>set ys. f y = Inr ()"
      by auto
    with Inr have "x # xs = (x # ys) @ z # zs \<and> f z = Inl e \<and> (\<forall>y\<in>set (x # ys). f y = Inr ())"
      by simp
    then show ?thesis by blast
  qed
qed

lemma try_each_cong [fundef_cong]:
  "xs = ys \<Longrightarrow> (\<And>x. x \<in> set ys \<Longrightarrow> f x = g x) \<Longrightarrow> try_each f xs = try_each g ys"
  by (induction ys arbitrary: xs) auto

lemma try_fold_append: "try_fold f s (xs @ ys) = rbind (try_fold f s xs) (\<lambda>t. try_fold f t ys)"
  by (induction xs arbitrary: s) (auto simp: rbind_assoc)

lemma try_fold_invariant:
  assumes "try_fold f s xs = Inr t" and "P s"
    and "\<And>s x s'. x \<in> set xs \<Longrightarrow> P s \<Longrightarrow> f s x = Inr s' \<Longrightarrow> P s'"
  shows "P t"
  using assms
proof (induction xs arbitrary: s)
  case Nil
  then show ?case by simp
next
  case (Cons x xs)
  from Cons.prems(1) obtain s' where s': "f s x = Inr s'" "try_fold f s' xs = Inr t"
    by (auto simp: rbind_eq_Inr)
  have "P s'"
    by (rule Cons.prems(3) [OF _ Cons.prems(2) s'(1)]) simp
  with s'(2) show ?case
    by (rule Cons.IH) (auto intro: Cons.prems(3))
qed

lemma try_map_ok: "try_map f xs = Inr ys \<longleftrightarrow> list_all2 (\<lambda>x y. f x = Inr y) xs ys"
proof (induction xs arbitrary: ys)
  case Nil
  then show ?case by auto
next
  case (Cons x xs)
  then show ?case by (auto simp: rbind_eq_Inr list_all2_Cons1)
qed

lemma try_map_cong [fundef_cong]:
  "xs = ys \<Longrightarrow> (\<And>x. x \<in> set ys \<Longrightarrow> f x = g x) \<Longrightarrow> try_map f xs = try_map g ys"
  by (induction ys arbitrary: xs) auto

subsection \<open>Iterator adaptors\<close>

fun filter_map :: "('a \<Rightarrow> 'b option) \<Rightarrow> 'a list \<Rightarrow> 'b list" where
  "filter_map f [] = []"
| "filter_map f (x # xs) = (case f x of None \<Rightarrow> filter_map f xs | Some y \<Rightarrow> y # filter_map f xs)"

lemma filter_map_cong [fundef_cong]:
  "xs = ys \<Longrightarrow> (\<And>x. x \<in> set ys \<Longrightarrow> f x = g x) \<Longrightarrow> filter_map f xs = filter_map g ys"
  by (induction ys arbitrary: xs) (auto split: option.splits)

lemma set_filter_map: "y \<in> set (filter_map f xs) \<longleftrightarrow> (\<exists>x\<in>set xs. f x = Some y)"
  by (induction xs) (auto split: option.splits)

text \<open>\<open>Iterator::reduce\<close>.\<close>

definition reduce :: "('a \<Rightarrow> 'a \<Rightarrow> 'a) \<Rightarrow> 'a list \<Rightarrow> 'a option" where
  "reduce f xs = (case xs of [] \<Rightarrow> None | x # ys \<Rightarrow> Some (foldl f x ys))"

subsection \<open>Integers of fixed width\<close>

definition u64_max :: nat where
  "u64_max = 2 ^ 64 - 1"

definition u32_max :: nat where
  "u32_max = 2 ^ 32 - 1"

text \<open>\<open>u64::saturating_add(1)\<close>, and \<open>AtomicU64::fetch_add(1)\<close>, which wraps.\<close>

definition sat_succ64 :: "nat \<Rightarrow> nat" where
  "sat_succ64 n = (if n < u64_max then Suc n else u64_max)"

definition wrap_succ64 :: "nat \<Rightarrow> nat" where
  "wrap_succ64 n = (if n < u64_max then Suc n else 0)"

lemma u64_max_pos [simp]: "0 < u64_max"
  by (simp add: u64_max_def)

lemma sat_succ64_le [simp]: "sat_succ64 n \<le> u64_max"
  by (simp add: sat_succ64_def)

lemma sat_succ64_ge: "n \<le> u64_max \<Longrightarrow> n \<le> sat_succ64 n"
  by (simp add: sat_succ64_def)

lemma sat_succ64_less: "n < u64_max \<Longrightarrow> sat_succ64 n = Suc n"
  by (simp add: sat_succ64_def)

lemma wrap_succ64_le [simp]: "wrap_succ64 n \<le> u64_max"
  by (simp add: wrap_succ64_def)

text \<open>\<open>Display\<close> for unsigned integers: decimal digits.\<close>

fun show_nat :: "nat \<Rightarrow> string" where
  "show_nat n =
     (if n < 10 then [char_of (48 + n)] else show_nat (n div 10) @ [char_of (48 + n mod 10)])"

declare show_nat.simps [simp del]

subsection \<open>Stable sorting by a comparison\<close>

text \<open>
  \<open>le x y\<close> is the comparison returning \<open>Less\<close> or \<open>Equal\<close>. Insertion from the right keeps the
  order of equal elements, so this is the list \<open>slice::sort_by\<close> returns.
\<close>

fun insert_by :: "('a \<Rightarrow> 'a \<Rightarrow> bool) \<Rightarrow> 'a \<Rightarrow> 'a list \<Rightarrow> 'a list" where
  "insert_by le x [] = [x]"
| "insert_by le x (y # ys) = (if le x y then x # y # ys else y # insert_by le x ys)"

definition sort_by :: "('a \<Rightarrow> 'a \<Rightarrow> bool) \<Rightarrow> 'a list \<Rightarrow> 'a list" where
  "sort_by le xs = foldr (insert_by le) xs []"

lemma sort_by_simps [simp]:
  "sort_by le [] = []" "sort_by le (x # xs) = insert_by le x (sort_by le xs)"
  by (simp_all add: sort_by_def)

lemma set_insert_by [simp]: "set (insert_by le x xs) = insert x (set xs)"
  by (induction xs) auto

lemma set_sort_by [simp]: "set (sort_by le xs) = set xs"
  by (induction xs) auto

lemma length_insert_by [simp]: "length (insert_by le x xs) = Suc (length xs)"
  by (induction xs) auto

lemma length_sort_by [simp]: "length (sort_by le xs) = length xs"
  by (induction xs) auto

lemma distinct_insert_by [simp]: "distinct (insert_by le x xs) \<longleftrightarrow> x \<notin> set xs \<and> distinct xs"
  by (induction xs) auto

lemma distinct_sort_by [simp]: "distinct (sort_by le xs) \<longleftrightarrow> distinct xs"
  by (induction xs) auto

lemma sort_by_eq_Nil [simp]: "sort_by le xs = [] \<longleftrightarrow> xs = []"
  by (metis length_0_conv length_sort_by)

definition total_preorder :: "('a \<Rightarrow> 'a \<Rightarrow> bool) \<Rightarrow> bool" where
  "total_preorder le \<longleftrightarrow> (\<forall>x y. le x y \<or> le y x) \<and> (\<forall>x y z. le x y \<longrightarrow> le y z \<longrightarrow> le x z)"

lemma sorted_insert_by:
  assumes "total_preorder le" "sorted_wrt le xs"
  shows "sorted_wrt le (insert_by le x xs)"
  using assms(2)
proof (induction xs)
  case Nil
  then show ?case by simp
next
  case (Cons y ys)
  show ?case
  proof (cases "le x y")
    case True
    with Cons.prems assms(1) show ?thesis
      by (auto simp: total_preorder_def)
  next
    case False
    with assms(1) have "le y x" by (auto simp: total_preorder_def)
    with Cons False show ?thesis by auto
  qed
qed

lemma sorted_sort_by: "total_preorder le \<Longrightarrow> sorted_wrt le (sort_by le xs)"
  by (induction xs) (auto simp: sorted_insert_by)

text \<open>The first element after sorting is at least as good as every element.\<close>

lemma sort_by_hd_best:
  assumes "total_preorder le" "sort_by le xs = y # ys" "x \<in> set xs"
  shows "le y x"
proof -
  have "x \<in> set (y # ys)"
    using assms(2,3) set_sort_by by metis
  moreover have "sorted_wrt le (y # ys)"
    using sorted_sort_by [OF assms(1), of xs] assms(2) by simp
  moreover have "le y y"
    using assms(1) by (auto simp: total_preorder_def)
  ultimately show ?thesis by auto
qed

end
