(* ===== verification/Btree_Map.thy ===== *)
theory Btree_Map
  imports Prelude "HOL-Library.Multiset"
begin

text \<open>
  \<open>std::collections::BTreeMap\<close> as an association list with strictly ascending keys, so that
  iteration order (which decides which error is reported first) is the code's. \<open>BTreeSet\<close> is
  a HOL set where only membership matters and \<open>sorted_list_of_set\<close> where it is iterated.

  The locale \<open>ordered_map\<close> states what the components rely on; it is interpreted on these
  operations. \<open>bt_index\<close> is the loop, repeated in the registry, the component graph and the event
  bus, that indexes a sequence by identity and fails on the first duplicate.
\<close>

type_synonym ('k, 'v) btree = "('k \<times> 'v) list"

fun bt_get :: "('k::linorder, 'v) btree \<Rightarrow> 'k \<Rightarrow> 'v option" where
  "bt_get [] k = None"
| "bt_get ((k', v) # m) k = (if k = k' then Some v else bt_get m k)"

fun bt_insert :: "'k::linorder \<Rightarrow> 'v \<Rightarrow> ('k, 'v) btree \<Rightarrow> ('k, 'v) btree" where
  "bt_insert k v [] = [(k, v)]"
| "bt_insert k v ((k', v') # m) =
     (if k < k' then (k, v) # (k', v') # m
      else if k = k' then (k, v) # m
      else (k', v') # bt_insert k v m)"

fun bt_remove :: "'k::linorder \<Rightarrow> ('k, 'v) btree \<Rightarrow> ('k, 'v) btree" where
  "bt_remove k [] = []"
| "bt_remove k ((k', v') # m) = (if k = k' then bt_remove k m else (k', v') # bt_remove k m)"

definition bt_keys :: "('k, 'v) btree \<Rightarrow> 'k list" where
  "bt_keys m = map fst m"

definition bt_vals :: "('k, 'v) btree \<Rightarrow> 'v list" where
  "bt_vals m = map snd m"

definition bt_has :: "('k::linorder, 'v) btree \<Rightarrow> 'k \<Rightarrow> bool" where
  "bt_has m k = (bt_get m k \<noteq> None)"

definition bt_ok :: "('k::linorder, 'v) btree \<Rightarrow> bool" where
  "bt_ok m = sorted_wrt (<) (map fst m)"

lemma bt_ok_simps [simp]:
  "bt_ok []" "bt_ok ((k, v) # m) \<longleftrightarrow> (\<forall>k'\<in>set (map fst m). k < k') \<and> bt_ok m"
  by (auto simp: bt_ok_def)

lemma bt_keys_simps [simp]: "bt_keys [] = []" "bt_keys ((k, v) # m) = k # bt_keys m"
  by (simp_all add: bt_keys_def)

lemma bt_vals_simps [simp]: "bt_vals [] = []" "bt_vals ((k, v) # m) = v # bt_vals m"
  by (simp_all add: bt_vals_def)

lemma bt_get_None: "bt_get m k = None \<longleftrightarrow> k \<notin> fst ` set m"
  by (induction m k rule: bt_get.induct) simp_all

lemma bt_get_in: "bt_get m k = Some v \<Longrightarrow> (k, v) \<in> set m"
  by (induction m) (auto split: if_splits)

lemma bt_get_iff: "bt_ok m \<Longrightarrow> bt_get m k = Some v \<longleftrightarrow> (k, v) \<in> set m"
proof (induction m)
  case (Cons p m)
  then show ?case by (cases p) force
qed simp

lemma set_bt_keys: "set (bt_keys m) = {k. bt_get m k \<noteq> None}"
  by (auto simp: bt_keys_def bt_get_None)

lemma bt_keys_get: "k \<in> set (bt_keys m) \<longleftrightarrow> (\<exists>v. bt_get m k = Some v)"
  by (auto simp: set_bt_keys)

lemma bt_has_iff: "bt_has m k \<longleftrightarrow> k \<in> set (bt_keys m)"
  by (simp add: bt_has_def set_bt_keys)

lemma set_bt_vals: "bt_ok m \<Longrightarrow> v \<in> set (bt_vals m) \<longleftrightarrow> (\<exists>k. bt_get m k = Some v)"
  by (force simp: bt_vals_def bt_get_iff image_iff)

lemma distinct_bt_keys: "bt_ok m \<Longrightarrow> distinct (bt_keys m)"
  by (simp add: bt_ok_def bt_keys_def strict_sorted_iff)

lemma bt_get_insert: "bt_get (bt_insert k v m) j = (if j = k then Some v else bt_get m j)"
  by (induction m) auto

lemma bt_get_remove: "bt_get (bt_remove k m) j = (if j = k then None else bt_get m j)"
  by (induction m) auto

lemma keys_bt_insert: "fst ` set (bt_insert k v m) = insert k (fst ` set m)"
  by (induction k v m rule: bt_insert.induct) (simp_all add: insert_commute)

lemma keys_bt_remove: "fst ` set (bt_remove k m) = fst ` set m - {k}"
proof (induction m)
  case (Cons p m)
  then show ?case by (cases p) (auto simp: insert_Diff_if)
qed simp

lemma bt_ok_insert: "bt_ok m \<Longrightarrow> bt_ok (bt_insert k v m)"
proof (induction m)
  case (Cons p m)
  obtain k' v' where p: "p = (k', v')" by (cases p)
  from Cons p have m: "bt_ok m" "\<forall>j\<in>fst ` set m. k' < j" by auto
  show ?case
  proof (cases "k \<le> k'")
    case True
    with m p show ?thesis by (cases "k = k'") force+
  next
    case False
    with m p Cons.IH show ?thesis
      using keys_bt_insert [of k v m] by auto
  qed
qed simp

lemma bt_ok_remove: "bt_ok m \<Longrightarrow> bt_ok (bt_remove k m)"
proof (induction m)
  case (Cons p m)
  then show ?case
    using keys_bt_remove [of k m] by (cases p) auto
qed simp

subsection \<open>The interface\<close>

text \<open>What a client of an ordered map relies on, whatever implements it.\<close>

locale ordered_map =
  fixes empty :: "'m"
    and get :: "'m \<Rightarrow> 'k \<Rightarrow> 'v option"
    and ins :: "'k \<Rightarrow> 'v \<Rightarrow> 'm \<Rightarrow> 'm"
    and del :: "'k \<Rightarrow> 'm \<Rightarrow> 'm"
    and inv :: "'m \<Rightarrow> bool"
  assumes get_empty: "get empty k = None"
    and get_ins: "get (ins k v m) j = (if j = k then Some v else get m j)"
    and get_del: "get (del k m) j = (if j = k then None else get m j)"
    and inv_empty: "inv empty"
    and inv_ins: "inv m \<Longrightarrow> inv (ins k v m)"
    and inv_del: "inv m \<Longrightarrow> inv (del k m)"
    and ext: "inv m \<Longrightarrow> inv n \<Longrightarrow> (\<And>k. get m k = get n k) \<Longrightarrow> m = n"
begin

lemma ins_commute:
  assumes "inv m" "j \<noteq> k"
  shows "ins j x (ins k y m) = ins k y (ins j x m)"
  by (rule ext) (use assms in \<open>auto simp: get_ins intro: inv_ins\<close>)

lemma del_commute:
  assumes "inv m"
  shows "del j (del k m) = del k (del j m)"
  by (rule ext) (use assms in \<open>auto simp: get_del intro: inv_del\<close>)

lemma del_ins:
  assumes "inv m" "get m k = None"
  shows "del k (ins k v m) = m"
  by (rule ext) (use assms in \<open>auto simp: get_ins get_del intro: inv_ins inv_del\<close>)

lemma ins_ins:
  assumes "inv m"
  shows "ins k x (ins k y m) = ins k x m"
  by (rule ext) (use assms in \<open>auto simp: get_ins intro: inv_ins\<close>)

lemma ins_get:
  assumes "inv m" "get m k = Some v"
  shows "ins k v m = m"
  by (rule ext) (use assms in \<open>auto simp: get_ins intro: inv_ins\<close>)

lemma ins_ins_old:
  assumes "inv m" "get m k = Some v"
  shows "ins k v (ins k x m) = m"
  using assms by (simp add: ins_ins ins_get)

lemma del_absent:
  assumes "inv m" "get m k = None"
  shows "del k m = m"
  by (rule ext) (use assms in \<open>auto simp: get_del intro: inv_del\<close>)

lemma ins_del_old:
  assumes "inv m" "get m k = Some v"
  shows "ins k v (del k m) = m"
  by (rule ext) (use assms in \<open>auto simp: get_ins get_del intro: inv_ins inv_del\<close>)

lemma del_del: "inv m \<Longrightarrow> del k (del k m) = del k m"
  by (rule del_absent) (auto simp: get_del intro: inv_del)

lemma fold_del_get: "get (fold del ks m) j = (if j \<in> set ks then None else get m j)"
  by (induction ks arbitrary: m) (auto simp: get_del)

lemma fold_del_inv: "inv m \<Longrightarrow> inv (fold del ks m)"
  by (induction ks arbitrary: m) (auto intro: inv_del)

end

lemma bt_from_keys: "bt_ok m \<Longrightarrow> map (\<lambda>k. (k, the (bt_get m k))) (bt_keys m) = m"
proof -
  assume m: "bt_ok m"
  have "(fst p, the (bt_get m (fst p))) = p" if "p \<in> set m" for p
    using bt_get_iff [OF m, of "fst p" "snd p"] that by simp
  then show ?thesis
    by (simp add: bt_keys_def map_idI)
qed

lemma bt_ext:
  assumes "bt_ok m" "bt_ok n" "\<And>k. bt_get m k = bt_get n k"
  shows "m = n"
proof -
  have "set (bt_keys m) = set (bt_keys n)"
    using assms(3) by (simp add: set_bt_keys)
  then have "bt_keys m = bt_keys n"
    using assms(1,2) by (simp add: bt_ok_def bt_keys_def strict_sorted_equal)
  then have "map (\<lambda>k. (k, the (bt_get m k))) (bt_keys m) = map (\<lambda>k. (k, the (bt_get n k))) (bt_keys n)"
    using assms(3) by simp
  with assms(1,2) show ?thesis
    by (simp add: bt_from_keys)
qed

interpretation bt: ordered_map "[]" bt_get bt_insert bt_remove bt_ok
  by unfold_locales
    (auto simp: bt_get_insert bt_get_remove intro: bt_ok_insert bt_ok_remove bt_ext)

declare bt_get_insert [map_simps] bt_get_remove [map_simps]
declare bt_ok_insert [intro] bt_ok_remove [intro]

subsection \<open>Indexing a sequence by identity\<close>

text \<open>
  \<open>let mut indexed = BTreeMap::new(); for x in xs { let id = x.id.clone();
  if indexed.insert(id.clone(), x).is_some() { return Err(Duplicate(id)) } }\<close>
\<close>

fun bt_index :: "('v \<Rightarrow> 'k::linorder) \<Rightarrow> ('k, 'v) btree \<Rightarrow> 'v list \<Rightarrow> 'k + ('k, 'v) btree" where
  "bt_index key m [] = Inr m"
| "bt_index key m (x # xs) =
     (if bt_has m (key x) then Inl (key x) else bt_index key (bt_insert (key x) x m) xs)"

lemma bt_index_ok_map: "bt_index key m xs = Inr m' \<Longrightarrow> bt_ok m \<Longrightarrow> bt_ok m'"
  by (induction xs arbitrary: m) (auto split: if_splits)

lemma bt_index_get:
  "bt_index key m xs = Inr m' \<Longrightarrow>
     bt_get m' k = Some v \<longleftrightarrow> bt_get m k = Some v \<or> (v \<in> set xs \<and> key v = k)"
proof (induction xs arbitrary: m)
  case (Cons x xs)
  from Cons.prems have h: "bt_get m (key x) = None"
      "bt_index key (bt_insert (key x) x m) xs = Inr m'"
    by (auto simp: bt_has_def split: if_splits)
  from Cons.IH [OF h(2)] h(1) show ?case
    by (auto simp: map_simps)
qed simp

lemma bt_index_success:
  "is_ok (bt_index key m xs) \<longleftrightarrow> distinct (map key xs) \<and> (\<forall>x\<in>set xs. \<not> bt_has m (key x))"
proof (induction xs arbitrary: m)
  case (Cons x xs)
  show ?case
  proof (cases "bt_has m (key x)")
    case False
    then show ?thesis
      using Cons.IH [of "bt_insert (key x) x m"]
      by (force simp: bt_has_def map_simps image_iff)
  qed simp
qed simp

lemma bt_index_dup:
  "bt_index key m xs = Inl k \<Longrightarrow> k \<in> key ` set xs \<and> (bt_has m k \<or> \<not> distinct (map key xs))"
proof (induction xs arbitrary: m)
  case (Cons x xs)
  show ?case
  proof (cases "bt_has m (key x)")
    case False
    with Cons.prems have "bt_index key (bt_insert (key x) x m) xs = Inl k" by simp
    from Cons.IH [OF this] show ?thesis
      by (cases "k = key x") (auto simp: bt_has_def map_simps)
  next
    case True
    with Cons.prems show ?thesis by simp
  qed
qed simp

lemma bt_index_empty:
  assumes "bt_index key [] xs = Inr m"
  shows "bt_ok m" "distinct (map key xs)" "set (bt_vals m) = set xs"
    "bt_get m k = Some v \<longleftrightarrow> v \<in> set xs \<and> key v = k" "bt_keys m = map key (bt_vals m)"
proof -
  show ok: "bt_ok m"
    using bt_index_ok_map [OF assms] by simp
  show "distinct (map key xs)"
    using bt_index_success [of key "[]" xs] assms by simp
  show get: "bt_get m k = Some v \<longleftrightarrow> v \<in> set xs \<and> key v = k" for k v
    using bt_index_get [OF assms] by simp
  show "set (bt_vals m) = set xs"
    by (auto simp: set_bt_vals [OF ok] get)
  have "key (snd p) = fst p" if "p \<in> set m" for p
    using that get [of "fst p" "snd p"] bt_get_iff [OF ok, of "fst p" "snd p"] by simp
  then show "bt_keys m = map key (bt_vals m)"
    by (auto simp: bt_keys_def bt_vals_def)
qed

text \<open>The index does not depend on the order in which the elements were supplied.\<close>

lemma bt_index_perm:
  assumes "bt_index key [] xs = Inr m" "mset xs = mset ys"
  shows "bt_index key [] ys = Inr m"
proof -
  have "distinct (map key ys)"
    using bt_index_empty(2) [OF assms(1)] mset_eq_imp_distinct_iff [of "map key xs" "map key ys"]
      assms(2) by simp
  then have "is_ok (bt_index key [] ys)"
    by (simp add: bt_index_success bt_has_def)
  then obtain n where n: "bt_index key [] ys = Inr n"
    by (auto simp: is_ok_iff)
  have "set xs = set ys" using assms(2) by (rule mset_eq_setD)
  then have "bt_get m k = Some v \<longleftrightarrow> bt_get n k = Some v" for k v
    by (simp add: bt_index_empty(4) [OF n] bt_index_empty(4) [OF assms(1)])
  then have "bt_get m k = bt_get n k" for k
    by (rule option_eqI)
  then have "m = n"
    by (rule bt_ext [OF bt_index_empty(1) [OF assms(1)] bt_index_empty(1) [OF n]])
  with n show ?thesis by simp
qed

subsection \<open>Maps of related values\<close>

definition bt_rel :: "('a \<Rightarrow> 'b \<Rightarrow> bool) \<Rightarrow> ('k, 'a) btree \<Rightarrow> ('k, 'b) btree \<Rightarrow> bool" where
  "bt_rel R m n = list_all2 (\<lambda>p q. fst p = fst q \<and> R (snd p) (snd q)) m n"

lemma bt_rel_Nil [simp]: "bt_rel R [] []" by (simp add: bt_rel_def)

lemma bt_rel_get: "bt_rel R m n \<Longrightarrow> rel_option R (bt_get m k) (bt_get n k)"
  unfolding bt_rel_def by (induction rule: list_all2_induct) auto

lemma bt_rel_insert: "bt_rel R m n \<Longrightarrow> R x y \<Longrightarrow> bt_rel R (bt_insert k x m) (bt_insert k y n)"
  unfolding bt_rel_def by (induction rule: list_all2_induct) auto

lemma bt_rel_vals: "bt_rel R m n \<Longrightarrow> list_all2 R (bt_vals m) (bt_vals n)"
  unfolding bt_rel_def by (induction rule: list_all2_induct) auto

lemma bt_rel_has: "bt_rel R m n \<Longrightarrow> bt_has m k = bt_has n k"
  using bt_rel_get [of R m n k] by (auto simp: bt_has_def elim: option.rel_cases)

text \<open>Indexing related sequences fails on the same key or gives related maps.\<close>

lemma bt_index_rel:
  assumes "list_all2 R xs ys" "\<And>x y. R x y \<Longrightarrow> key x = key' y" "bt_rel R m n"
  shows "rel_sum (=) (bt_rel R) (bt_index key m xs) (bt_index key' n ys)"
  using assms(1,3)
proof (induction xs arbitrary: ys m n)
  case (Cons x xs)
  then obtain y ys' where "ys = y # ys'" "R x y" "list_all2 R xs ys'" by (auto simp: list_all2_Cons1)
  with Cons assms(2) bt_rel_has [OF Cons.prems(2)] bt_rel_insert [OF Cons.prems(2)] show ?case by auto
qed simp

end
