(* ===== verification/Identity.thy ===== *)
theory Identity
  imports Prelude
begin

text \<open>
  Validated identifiers (\<open>phenix-core/src/identity.rs\<close>). Every identifier newtype is a string
  that passed \<open>validate_identifier\<close>; an interface identifier also ends in \<open>@version\<close> with a
  positive 64-bit version. Strings are byte sequences, as the validation reads them.
\<close>

type_synonym plugin_id = string
type_synonym component_id = string
type_synonym service_id = string
type_synonym capability_id = string
type_synonym resource_namespace = string
type_synonym event_type_id = string
type_synonym subscription_id = string
type_synonym runtime_id = string
type_synonym interface_id = string
type_synonym graph_generation_id = string

definition byte_of :: "char \<Rightarrow> nat" where
  "byte_of c = of_char c"

definition is_ascii_digit :: "char \<Rightarrow> bool" where
  "is_ascii_digit c = (48 \<le> byte_of c \<and> byte_of c \<le> 57)"

definition is_ascii_alphanumeric :: "char \<Rightarrow> bool" where
  "is_ascii_alphanumeric c =
     (is_ascii_digit c \<or> (65 \<le> byte_of c \<and> byte_of c \<le> 90) \<or> (97 \<le> byte_of c \<and> byte_of c \<le> 122))"

definition identifier_byte :: "char \<Rightarrow> bool" where
  "identifier_byte c = (is_ascii_alphanumeric c \<or> c \<in> set ''._-/:@'')"

definition validate_identifier :: "string \<Rightarrow> string + unit" where
  "validate_identifier s =
     (if s = [] then Inl ''identifier must not be empty''
      else if \<not> list_all identifier_byte s then Inl ''identifier contains unsupported characters''
      else Inr ())"

text \<open>The \<open>identifier!\<close> macro's \<open>TryFrom<String>\<close>: the string itself, when it is valid.\<close>

definition parse_identifier :: "string \<Rightarrow> string + string" where
  "parse_identifier s = rbind (validate_identifier s) (\<lambda>_. Inr s)"

text \<open>\<open>str::rsplit_once('@')\<close>: split at the last occurrence.\<close>

fun split_once :: "char \<Rightarrow> string \<Rightarrow> (string \<times> string) option" where
  "split_once d [] = None"
| "split_once d (c # cs) =
     (if c = d then Some ([], cs)
      else (case split_once d cs of None \<Rightarrow> None | Some (a, b) \<Rightarrow> Some (c # a, b)))"

definition rsplit_once :: "char \<Rightarrow> string \<Rightarrow> (string \<times> string) option" where
  "rsplit_once d s =
     (case split_once d (rev s) of None \<Rightarrow> None | Some (a, b) \<Rightarrow> Some (rev b, rev a))"

text \<open>
  \<open>u64::from_str\<close>: an optional plus sign, then at least one decimal digit, with overflow checked
  after every digit.
\<close>

fun parse_digits :: "nat \<Rightarrow> string \<Rightarrow> nat option" where
  "parse_digits acc [] = Some acc"
| "parse_digits acc (c # cs) =
     (if is_ascii_digit c then
        (let acc' = acc * 10 + (byte_of c - 48)
         in if acc' \<le> u64_max then parse_digits acc' cs else None)
      else None)"

definition parse_u64 :: "string \<Rightarrow> nat option" where
  "parse_u64 s =
     (let ds = (case s of c # cs \<Rightarrow> if c = CHR ''+'' then cs else s | [] \<Rightarrow> s)
      in if ds = [] then None else parse_digits 0 ds)"

definition parse_interface_id :: "string \<Rightarrow> string + interface_id" where
  "parse_interface_id s =
     rbind (validate_identifier s) (\<lambda>_.
     rbind (ok_or ''interface identifier must include an @version suffix''
        (rsplit_once CHR ''@'' s)) (\<lambda>(identity, version).
     if identity = [] then Inl ''interface identifier identity must not be empty''
     else if CHR ''@'' \<in> set identity
       then Inl ''interface identifier must contain exactly one @version suffix''
     else rbind (ok_or ''interface identifier version must be a positive integer''
       (parse_u64 version)) (\<lambda>v.
     if v = 0 then Inl ''interface identifier version must be a positive integer''
     else Inr s)))"

subsection \<open>What the parsers accept\<close>

lemma parse_identifier_ok:
  "parse_identifier s = Inr t \<longleftrightarrow> t = s \<and> s \<noteq> [] \<and> (\<forall>c\<in>set s. identifier_byte c)"
  by (auto simp: parse_identifier_def validate_identifier_def list_all_iff)

lemma split_once_Some:
  "split_once d s = Some (a, b) \<longleftrightarrow> s = a @ d # b \<and> d \<notin> set a"
proof (induction s arbitrary: a b)
  case (Cons c s)
  show ?case
  proof (cases "c = d")
    case True
    then show ?thesis by (auto simp: Cons_eq_append_conv)
  next
    case False
    have "split_once d (c # s) = Some (a, b) \<longleftrightarrow> (\<exists>a'. a = c # a' \<and> split_once d s = Some (a', b))"
      using False by (cases "split_once d s") auto
    also have "\<dots> \<longleftrightarrow> c # s = a @ d # b \<and> d \<notin> set a"
      using False by (auto simp: Cons.IH Cons_eq_append_conv)
    finally show ?thesis .
  qed
qed simp

lemma rsplit_once_Some:
  "rsplit_once d s = Some (a, b) \<longleftrightarrow> s = a @ d # b \<and> d \<notin> set b"
proof -
  have "rsplit_once d s = Some (a, b) \<longleftrightarrow> split_once d (rev s) = Some (rev b, rev a)"
    by (auto simp: rsplit_once_def split: option.splits)
  also have "\<dots> \<longleftrightarrow> rev s = rev b @ d # rev a \<and> d \<notin> set b"
    by (simp add: split_once_Some)
  also have "rev s = rev b @ d # rev a \<longleftrightarrow> s = a @ d # b"
    by (metis append.assoc append_Cons append_Nil rev.simps(2) rev_append rev_rev_ident)
  finally show ?thesis .
qed

text \<open>The number a digit string denotes, and the parser against it.\<close>

definition dec_value :: "nat \<Rightarrow> string \<Rightarrow> nat" where
  "dec_value acc s = foldl (\<lambda>n c. n * 10 + (byte_of c - 48)) acc s"

lemma dec_value_simps [simp]:
  "dec_value acc [] = acc" "dec_value acc (c # cs) = dec_value (acc * 10 + (byte_of c - 48)) cs"
  by (simp_all add: dec_value_def)

lemma dec_value_ge: "acc \<le> dec_value acc s"
proof (induction s arbitrary: acc)
  case (Cons c s)
  have "acc \<le> acc * 10 + (byte_of c - 48)" by simp
  also have "\<dots> \<le> dec_value acc (c # s)" using Cons.IH by simp
  finally show ?case .
qed simp

lemma parse_digits_Some:
  "acc \<le> u64_max \<Longrightarrow>
     parse_digits acc s = Some n \<longleftrightarrow>
     (\<forall>c\<in>set s. is_ascii_digit c) \<and> dec_value acc s = n \<and> n \<le> u64_max"
proof (induction s arbitrary: acc)
  case (Cons c s)
  let ?acc = "acc * 10 + (byte_of c - 48)"
  show ?case
  proof (cases "is_ascii_digit c \<and> ?acc \<le> u64_max")
    case True
    with Cons.IH [of ?acc] show ?thesis by (auto simp: Let_def)
  next
    case False
    have "?acc \<le> dec_value acc (c # s)"
      using dec_value_ge [of ?acc s] by simp
    with False show ?thesis by (auto simp: Let_def)
  qed
qed auto

lemma plus_not_identifier [simp]: "\<not> identifier_byte CHR ''+''"
  by (simp add: identifier_byte_def is_ascii_alphanumeric_def is_ascii_digit_def byte_of_def)

lemma parse_u64_no_sign:
  assumes "CHR ''+'' \<notin> set s"
  shows "parse_u64 s = Some n \<longleftrightarrow>
     s \<noteq> [] \<and> (\<forall>c\<in>set s. is_ascii_digit c) \<and> dec_value 0 s = n \<and> n \<le> u64_max"
proof (cases s)
  case (Cons c cs)
  with assms have "parse_u64 s = parse_digits 0 s"
    by (auto simp: parse_u64_def)
  moreover have "parse_digits 0 s = Some n \<longleftrightarrow>
      (\<forall>c\<in>set s. is_ascii_digit c) \<and> dec_value 0 s = n \<and> n \<le> u64_max"
    by (rule parse_digits_Some) simp
  moreover have "s \<noteq> []" using Cons by simp
  ultimately show ?thesis by simp
qed (simp add: parse_u64_def)

text \<open>The abstract form of an interface identifier.\<close>

definition interface_form :: "string \<Rightarrow> bool" where
  "interface_form s \<longleftrightarrow>
     (\<forall>c\<in>set s. identifier_byte c) \<and>
     (\<exists>name ver. s = name @ CHR ''@'' # ver \<and> name \<noteq> [] \<and> CHR ''@'' \<notin> set name \<and>
        ver \<noteq> [] \<and> (\<forall>c\<in>set ver. is_ascii_digit c) \<and>
        0 < dec_value 0 ver \<and> dec_value 0 ver \<le> u64_max)"

lemma at_not_digit [simp]: "\<not> is_ascii_digit CHR ''@''"
  by (simp add: is_ascii_digit_def byte_of_def)

lemma parse_interface_id_form: "parse_interface_id s = Inr t \<longleftrightarrow> t = s \<and> interface_form s"
proof
  assume p: "parse_interface_id s = Inr t"
  then obtain name ver v where
    valid: "s \<noteq> []" "\<forall>c\<in>set s. identifier_byte c" and
    split: "rsplit_once CHR ''@'' s = Some (name, ver)" and
    rest: "name \<noteq> []" "CHR ''@'' \<notin> set name" "parse_u64 ver = Some v" "v \<noteq> 0" "t = s"
    by (auto simp: parse_interface_id_def rbind_eq_Inr validate_identifier_def list_all_iff
        split: if_splits)
  from split have s: "s = name @ CHR ''@'' # ver"
    by (simp add: rsplit_once_Some)
  with valid have "CHR ''+'' \<notin> set ver"
    using plus_not_identifier by (auto simp del: plus_not_identifier)
  with rest(3) have "ver \<noteq> [] \<and> (\<forall>c\<in>set ver. is_ascii_digit c) \<and> dec_value 0 ver = v \<and> v \<le> u64_max"
    by (simp add: parse_u64_no_sign)
  with valid s rest show "t = s \<and> interface_form s"
    unfolding interface_form_def by blast
next
  assume "t = s \<and> interface_form s"
  then obtain name ver where
    h: "t = s" "\<forall>c\<in>set s. identifier_byte c" "s = name @ CHR ''@'' # ver" "name \<noteq> []"
      "CHR ''@'' \<notin> set name" "ver \<noteq> []" "\<forall>c\<in>set ver. is_ascii_digit c"
      "0 < dec_value 0 ver" "dec_value 0 ver \<le> u64_max"
    by (auto simp: interface_form_def)
  have "CHR ''@'' \<notin> set ver" using h(7) at_not_digit by blast
  with h(3) have "rsplit_once CHR ''@'' s = Some (name, ver)"
    by (simp add: rsplit_once_Some)
  moreover have "CHR ''+'' \<notin> set ver"
    using h(2,3) plus_not_identifier by (auto simp del: plus_not_identifier)
  then have "parse_u64 ver = Some (dec_value 0 ver)"
    using h by (simp add: parse_u64_no_sign)
  moreover have "validate_identifier s = Inr ()"
    using h by (auto simp: validate_identifier_def list_all_iff)
  ultimately show "parse_interface_id s = Inr t"
    using h by (simp add: parse_interface_id_def)
qed

subsection \<open>The grammar of interface identifiers\<close>

text \<open>An interface identifier is accepted exactly when it consists of identifier bytes, splits at
  its only at-sign into a non-empty identity and a decimal version, and the version is positive and
  fits 64 bits; acceptance returns the text unchanged.\<close>

lemma interface_id_grammar: "parse_interface_id s = Inr t \<longleftrightarrow> t = s \<and> interface_form s"
  by (rule parse_interface_id_form)

end
