(* ===== verification/Values.thy ===== *)
theory Values
  imports Btree_Map Identity "HOL-Library.Word"
begin

text \<open>
  The value model of \<open>phenix-core/src/contract.rs\<close>: structural types, the values they describe,
  and the strict check \<open>Type::parse\<close>. Tables, maps and variants are ordered maps; a 64-bit float
  is its bit pattern, and \<open>value_eq\<close> is the derived \<open>PartialEq\<close>, which is IEEE equality there.
\<close>

type_synonym key = string
type_synonym contract_id = interface_id

datatype type_kind =
  KAny | KNever | KUnit | KBool | KI64 | KU64 | KF64 | KString | KBytes | KOption | KArray | KList
| KMap | KTable | KVariant | KCallable | KObject

fun kind_name :: "type_kind \<Rightarrow> string" where
  "kind_name KAny = ''Any''"
| "kind_name KNever = ''Never''"
| "kind_name KUnit = ''Unit''"
| "kind_name KBool = ''Bool''"
| "kind_name KI64 = ''I64''"
| "kind_name KU64 = ''U64''"
| "kind_name KF64 = ''F64''"
| "kind_name KString = ''String''"
| "kind_name KBytes = ''Bytes''"
| "kind_name KOption = ''Option''"
| "kind_name KArray = ''Array''"
| "kind_name KList = ''List''"
| "kind_name KMap = ''Map''"
| "kind_name KTable = ''Table''"
| "kind_name KVariant = ''Variant''"
| "kind_name KCallable = ''Callable''"
| "kind_name KObject = ''Object''"

datatype phx_type =
  TAny | TNever | TUnit | TBool | TI64 | TU64 | TF64 | TString | TBytes
| TOption phx_type
| TArray phx_type nat
| TList phx_type
| TMap phx_type
| TTable "(key \<times> phx_type) list"
| TVariant "(key \<times> phx_type) list"
| TCallable contract_id phx_type phx_type
| TObject contract_id

datatype capability_owner_id = OwnerPlugin plugin_id | OwnerClient string | OwnerRuntime runtime_id

datatype capability_ref =
  CapabilityRef (ref_contract: contract_id) (ref_owner: capability_owner_id)
    (ref_generation: string) (ref_id: string)

datatype phx_value =
  VUnit | VBool bool | VI64 int | VU64 nat | VF64 "64 word" | VString string | VBytes "8 word list"
| VOption "phx_value option"
| VList "phx_value list"
| VMap "(string \<times> phx_value) list"
| VTable "(key \<times> phx_value) list"
| VVariant key phx_value
| VCallable capability_ref
| VObject capability_ref

datatype value_error =
  TypeMismatch type_kind type_kind
| MissingKey key
| UnexpectedKey key
| UnknownVariant key
| ContractMismatch contract_id contract_id
| InvalidValue string

fun kind_of_type :: "phx_type \<Rightarrow> type_kind" where
  "kind_of_type TAny = KAny"
| "kind_of_type TNever = KNever"
| "kind_of_type TUnit = KUnit"
| "kind_of_type TBool = KBool"
| "kind_of_type TI64 = KI64"
| "kind_of_type TU64 = KU64"
| "kind_of_type TF64 = KF64"
| "kind_of_type TString = KString"
| "kind_of_type TBytes = KBytes"
| "kind_of_type (TOption _) = KOption"
| "kind_of_type (TArray _ _) = KArray"
| "kind_of_type (TList _) = KList"
| "kind_of_type (TMap _) = KMap"
| "kind_of_type (TTable _) = KTable"
| "kind_of_type (TVariant _) = KVariant"
| "kind_of_type (TCallable _ _ _) = KCallable"
| "kind_of_type (TObject _) = KObject"

fun kind_of_value :: "phx_value \<Rightarrow> type_kind" where
  "kind_of_value VUnit = KUnit"
| "kind_of_value (VBool _) = KBool"
| "kind_of_value (VI64 _) = KI64"
| "kind_of_value (VU64 _) = KU64"
| "kind_of_value (VF64 _) = KF64"
| "kind_of_value (VString _) = KString"
| "kind_of_value (VBytes _) = KBytes"
| "kind_of_value (VOption _) = KOption"
| "kind_of_value (VList _) = KList"
| "kind_of_value (VMap _) = KMap"
| "kind_of_value (VTable _) = KTable"
| "kind_of_value (VVariant _ _) = KVariant"
| "kind_of_value (VCallable _) = KCallable"
| "kind_of_value (VObject _) = KObject"

subsection \<open>Structural keys\<close>

text \<open>
  \<open>char::is_control\<close> on UTF-8 bytes: C0 controls and DEL are single bytes, the C1 controls
  U+0080 to U+009F are the byte 194 followed by 128 to 159.
\<close>

fun has_control :: "string \<Rightarrow> bool" where
  "has_control [] = False"
| "has_control (c # cs) =
     (byte_of c < 32 \<or> byte_of c = 127 \<or>
      (byte_of c = 194 \<and> (case cs of d # _ \<Rightarrow> 128 \<le> byte_of d \<and> byte_of d \<le> 159 | [] \<Rightarrow> False)) \<or>
      has_control cs)"

definition parse_key :: "string \<Rightarrow> string + key" where
  "parse_key s =
     (if s = [] then Inl ''structural key must not be empty''
      else if has_control s then Inl ''structural key must not contain control characters''
      else Inr s)"

definition error_key :: "string \<Rightarrow> key" where
  "error_key s = (case parse_key s of Inr k \<Rightarrow> k | Inl _ \<Rightarrow> ''<invalid-key>'')"

definition table_get :: "phx_value \<Rightarrow> string \<Rightarrow> value_error + phx_value" where
  "table_get v k =
     (case v of VTable fields \<Rightarrow> ok_or (MissingKey (error_key k)) (bt_get fields k)
      | _ \<Rightarrow> Inl (TypeMismatch KTable (kind_of_value v)))"

definition value_list :: "phx_value \<Rightarrow> value_error + phx_value list" where
  "value_list v =
     (case v of VList vs \<Rightarrow> Inr vs | _ \<Rightarrow> Inl (TypeMismatch KList (kind_of_value v)))"

definition value_variant :: "phx_value \<Rightarrow> value_error + key \<times> phx_value" where
  "value_variant v =
     (case v of VVariant tag w \<Rightarrow> Inr (tag, w) | _ \<Rightarrow> Inl (TypeMismatch KVariant (kind_of_value v)))"

definition value_callable :: "phx_value \<Rightarrow> value_error + capability_ref" where
  "value_callable v =
     (case v of VCallable r \<Rightarrow> Inr r | _ \<Rightarrow> Inl (TypeMismatch KCallable (kind_of_value v)))"

definition value_object :: "phx_value \<Rightarrow> value_error + capability_ref" where
  "value_object v =
     (case v of VObject r \<Rightarrow> Inr r | _ \<Rightarrow> Inl (TypeMismatch KObject (kind_of_value v)))"

definition parse_reference_id :: "string \<Rightarrow> string + string" where
  "parse_reference_id s =
     (if s = [] then Inl ''reference id must not be empty''
      else if \<not> list_all identifier_byte s then Inl ''reference id contains unsupported characters''
      else Inr s)"

fun show_value_error :: "value_error \<Rightarrow> string" where
  "show_value_error (TypeMismatch e a) = ''expected '' @ kind_name e @ '', got '' @ kind_name a"
| "show_value_error (MissingKey k) = ''missing key '' @ k"
| "show_value_error (UnexpectedKey k) = ''unexpected key '' @ k"
| "show_value_error (UnknownVariant t) = ''unknown variant '' @ t"
| "show_value_error (ContractMismatch e a) = ''expected contract '' @ e @ '', got '' @ a"
| "show_value_error (InvalidValue m) = m"

subsection \<open>The strict check\<close>

definition parse_reference_contract :: "contract_id \<Rightarrow> contract_id \<Rightarrow> value_error + unit" where
  "parse_reference_contract expected actual =
     (if expected = actual then Inr () else Inl (ContractMismatch expected actual))"

lemma bt_get_size: "bt_get m k = Some t \<Longrightarrow> size t < Suc (size_list (size_prod (\<lambda>_. 0) size) m)"
  by (induction m) (auto split: if_splits)

lemma in_set_size: "(k, t) \<in> set m \<Longrightarrow> size t < Suc (size_list (size_prod (\<lambda>_. 0) size) m)"
  by (induction m) auto

text \<open>The last arm of the code's match: the kinds disagree.\<close>

abbreviation type_mismatch :: "phx_type \<Rightarrow> phx_value \<Rightarrow> value_error + unit" where
  "type_mismatch t v \<equiv> Inl (TypeMismatch (kind_of_type t) (kind_of_value v))"

function parse :: "phx_type \<Rightarrow> phx_value \<Rightarrow> value_error + unit" where
  "parse TAny v = Inr ()"
| "parse TNever v = type_mismatch TNever v"
| "parse TUnit v = (case v of VUnit \<Rightarrow> Inr () | _ \<Rightarrow> type_mismatch TUnit v)"
| "parse TBool v = (case v of VBool _ \<Rightarrow> Inr () | _ \<Rightarrow> type_mismatch TBool v)"
| "parse TI64 v = (case v of VI64 _ \<Rightarrow> Inr () | _ \<Rightarrow> type_mismatch TI64 v)"
| "parse TU64 v = (case v of VU64 _ \<Rightarrow> Inr () | _ \<Rightarrow> type_mismatch TU64 v)"
| "parse TF64 v = (case v of VF64 _ \<Rightarrow> Inr () | _ \<Rightarrow> type_mismatch TF64 v)"
| "parse TString v = (case v of VString _ \<Rightarrow> Inr () | _ \<Rightarrow> type_mismatch TString v)"
| "parse TBytes v = (case v of VBytes _ \<Rightarrow> Inr () | _ \<Rightarrow> type_mismatch TBytes v)"
| "parse (TOption t) v =
     (case v of VOption (Some w) \<Rightarrow> parse t w | VOption None \<Rightarrow> Inr ()
      | _ \<Rightarrow> type_mismatch (TOption t) v)"
| "parse (TArray t len) v =
     (case v of VList vs \<Rightarrow>
        if length vs \<noteq> len
        then Inl (InvalidValue (''expected '' @ show_nat len @ '' values, got '' @ show_nat (length vs)))
        else try_each (parse t) vs
      | _ \<Rightarrow> type_mismatch (TArray t len) v)"
| "parse (TList t) v =
     (case v of VList vs \<Rightarrow> try_each (parse t) vs | _ \<Rightarrow> type_mismatch (TList t) v)"
| "parse (TMap t) v =
     (case v of VMap m \<Rightarrow> try_each (parse t) (bt_vals m) | _ \<Rightarrow> type_mismatch (TMap t) v)"
| "parse (TTable expected) v =
     (case v of VTable fields \<Rightarrow>
        rbind (try_each (\<lambda>(k, t). rbind (ok_or (MissingKey k) (bt_get fields k)) (parse t)) expected)
          (\<lambda>_. case find (\<lambda>k. \<not> bt_has expected k) (bt_keys fields) of
             Some k \<Rightarrow> Inl (UnexpectedKey k) | None \<Rightarrow> Inr ())
      | _ \<Rightarrow> type_mismatch (TTable expected) v)"
| "parse (TVariant variants) v =
     (case v of VVariant tag w \<Rightarrow>
        (case bt_get variants tag of None \<Rightarrow> Inl (UnknownVariant tag) | Some t \<Rightarrow> parse t w)
      | _ \<Rightarrow> type_mismatch (TVariant variants) v)"
| "parse (TCallable contract i p) v =
     (case v of VCallable r \<Rightarrow> parse_reference_contract contract (ref_contract r)
      | _ \<Rightarrow> type_mismatch (TCallable contract i p) v)"
| "parse (TObject contract) v =
     (case v of VObject r \<Rightarrow> parse_reference_contract contract (ref_contract r)
      | _ \<Rightarrow> type_mismatch (TObject contract) v)"
  by pat_completeness auto
termination
  by (relation "measure (\<lambda>(t, v). size t)") (auto dest: bt_get_size in_set_size)

lemma find_key_None: "(case find P ks of None \<Rightarrow> Inr () | Some k \<Rightarrow> Inl (f k)) = Inr u \<longleftrightarrow>
    (\<forall>k\<in>set ks. \<not> P k)"
  by (induction ks) auto

lemma parse_table_ok:
  "parse (TTable expected) (VTable fields) = Inr u \<longleftrightarrow>
     (\<forall>(k, t)\<in>set expected. \<exists>v. bt_get fields k = Some v \<and> parse t v = Inr ()) \<and>
     (\<forall>k\<in>set (bt_keys fields). bt_has expected k)"
  by (simp add: rbind_eq_Inr try_each_ok find_key_None case_prod_beta)

text \<open>The shape of a value that a container type accepts.\<close>

lemma parse_shapes:
  "parse (TOption t) v = Inr u \<Longrightarrow> v = VOption None \<or> (\<exists>w. v = VOption (Some w) \<and> parse t w = Inr ())"
  "parse (TArray t n) v = Inr u \<Longrightarrow> \<exists>vs. v = VList vs \<and> length vs = n \<and> (\<forall>w\<in>set vs. parse t w = Inr ())"
  "parse (TList t) v = Inr u \<Longrightarrow> \<exists>vs. v = VList vs \<and> (\<forall>w\<in>set vs. parse t w = Inr ())"
  "parse (TMap t) v = Inr u \<Longrightarrow> \<exists>m. v = VMap m \<and> (\<forall>w\<in>set (bt_vals m). parse t w = Inr ())"
  "parse (TTable fs) v = Inr u \<Longrightarrow> \<exists>m. v = VTable m"
  "parse (TVariant vs) v = Inr u \<Longrightarrow>
     \<exists>tag w t. v = VVariant tag w \<and> bt_get vs tag = Some t \<and> parse t w = Inr ()"
  "parse (TCallable c i p) v = Inr u \<Longrightarrow> \<exists>r. v = VCallable r \<and> ref_contract r = c"
  "parse (TObject c) v = Inr u \<Longrightarrow> \<exists>r. v = VObject r \<and> ref_contract r = c"
  by (auto simp: try_each_ok parse_reference_contract_def
      split: phx_value.splits option.splits if_splits)

lemma parse_never: "parse TNever v \<noteq> Inr u"
  by simp

subsection \<open>Equality of values\<close>

definition f64_is_nan :: "64 word \<Rightarrow> bool" where
  "f64_is_nan w =
     (unat (drop_bit 52 w) mod 2048 = 2047 \<and> unat (take_bit 52 w) \<noteq> 0)"

definition f64_is_zero :: "64 word \<Rightarrow> bool" where
  "f64_is_zero w = (take_bit 63 w = 0)"

definition f64_eq :: "64 word \<Rightarrow> 64 word \<Rightarrow> bool" where
  "f64_eq a b =
     (\<not> f64_is_nan a \<and> \<not> f64_is_nan b \<and> (a = b \<or> (f64_is_zero a \<and> f64_is_zero b)))"

fun value_eq :: "phx_value \<Rightarrow> phx_value \<Rightarrow> bool" where
  "value_eq (VF64 a) w = (case w of VF64 b \<Rightarrow> f64_eq a b | _ \<Rightarrow> False)"
| "value_eq (VOption None) w = (w = VOption None)"
| "value_eq (VOption (Some v)) w = (case w of VOption (Some v') \<Rightarrow> value_eq v v' | _ \<Rightarrow> False)"
| "value_eq (VList vs) w = (case w of VList ws \<Rightarrow> list_all2 value_eq vs ws | _ \<Rightarrow> False)"
| "value_eq (VMap m) w =
     (case w of VMap n \<Rightarrow> list_all2 (\<lambda>(j, v) (k, v'). j = k \<and> value_eq v v') m n | _ \<Rightarrow> False)"
| "value_eq (VTable m) w =
     (case w of VTable n \<Rightarrow> list_all2 (\<lambda>(j, v) (k, v'). j = k \<and> value_eq v v') m n | _ \<Rightarrow> False)"
| "value_eq (VVariant s v) w = (case w of VVariant t v' \<Rightarrow> s = t \<and> value_eq v v' | _ \<Rightarrow> False)"
| "value_eq VUnit w = (w = VUnit)"
| "value_eq (VBool x) w = (w = VBool x)"
| "value_eq (VI64 x) w = (w = VI64 x)"
| "value_eq (VU64 x) w = (w = VU64 x)"
| "value_eq (VString x) w = (w = VString x)"
| "value_eq (VBytes x) w = (w = VBytes x)"
| "value_eq (VCallable x) w = (w = VCallable x)"
| "value_eq (VObject x) w = (w = VObject x)"

fun nan_free :: "phx_value \<Rightarrow> bool" where
  "nan_free (VF64 a) = (\<not> f64_is_nan a)"
| "nan_free (VOption x) = (case x of Some v \<Rightarrow> nan_free v | None \<Rightarrow> True)"
| "nan_free (VList vs) = list_all nan_free vs"
| "nan_free (VMap m) = list_all (\<lambda>(k, v). nan_free v) m"
| "nan_free (VTable m) = list_all (\<lambda>(k, v). nan_free v) m"
| "nan_free (VVariant t v) = nan_free v"
| "nan_free _ = True"

lemma value_eq_refl: "nan_free v \<Longrightarrow> value_eq v v"
proof (induction v rule: nan_free.induct)
  case (2 x)
  then show ?case by (cases x) auto
next
  case (3 vs)
  then show ?case by (auto simp: list_all_iff intro!: list.rel_refl_strong)
next
  case (4 m)
  then show ?case by (fastforce simp: list_all_iff intro!: list.rel_refl_strong)
next
  case (5 m)
  then show ?case by (fastforce simp: list_all_iff intro!: list.rel_refl_strong)
qed (auto simp: f64_eq_def)

subsection \<open>Identifiers as values\<close>

definition identifier_to_value :: "string \<Rightarrow> phx_value" where
  "identifier_to_value s = VString s"

definition identifier_from_value :: "phx_value \<Rightarrow> value_error + string" where
  "identifier_from_value v =
     (case v of
        VString s \<Rightarrow> map_err InvalidValue (parse_identifier s)
      | _ \<Rightarrow> Inl (TypeMismatch KString (kind_of_value v)))"

lemma identifier_from_value_ok:
  "identifier_from_value v = Inr s \<longleftrightarrow> v = identifier_to_value s \<and> parse_identifier s = Inr s"
  by (cases v) (auto simp: identifier_from_value_def identifier_to_value_def parse_identifier_ok)

end
