(* ===== verification/Schema.thy ===== *)
theory Schema
  imports Values
begin

text \<open>
  Structural compatibility of schemas (\<open>phenix-core/src/contract.rs\<close>: \<open>Type::accepts\<close>,
  \<open>schema_compatible\<close>, \<open>join_schema\<close>, \<open>PhenixValue::schema\<close>) and of interfaces
  (\<open>phenix-core/src/typed_component.rs\<close>: \<open>InterfaceSchema::accepts_provider\<close>).

  The specification is declarative: \<open>subtype p a\<close> is the least relation closed under the structural
  rules, \<open>conforms t v\<close> says what a value of a schema looks like to a consumer that may project
  fields away. The checker decides the relation; the relation is a preorder and sound for
  \<open>conforms\<close>; the inferred schema of a value lies below every schema that parses the value.
\<close>

record schema_mismatch =
  mismatch_path :: "string list"
  mismatch_reason :: string

datatype schema_compatibility = Exact | Compatible | Incompatible schema_mismatch

definition mismatch_new :: "string list \<Rightarrow> string \<Rightarrow> schema_mismatch" where
  "mismatch_new path reason = \<lparr>mismatch_path = path, mismatch_reason = reason\<rparr>"

definition nested_path :: "string list \<Rightarrow> string \<Rightarrow> string list" where
  "nested_path path segment = path @ [segment]"

definition kind_mismatch :: "phx_type \<Rightarrow> phx_type \<Rightarrow> string list \<Rightarrow> schema_mismatch + unit" where
  "kind_mismatch p a path = Inl (mismatch_new path
     (''provided '' @ kind_name (kind_of_type p) @ '' does not satisfy required ''
       @ kind_name (kind_of_type a)))"

subsection \<open>The checker\<close>

function schema_compatible ::
    "phx_type \<Rightarrow> phx_type \<Rightarrow> string list \<Rightarrow> schema_mismatch + unit" where
  "schema_compatible p a path =
     (if p = a then Inr ()
      else if p = TNever \<or> a = TAny then Inr ()
      else case p of
        TOption p' \<Rightarrow> (case a of TOption a' \<Rightarrow> schema_compatible p' a' path | _ \<Rightarrow> kind_mismatch p a path)
      | TList p' \<Rightarrow> (case a of TList a' \<Rightarrow> schema_compatible p' a' path | _ \<Rightarrow> kind_mismatch p a path)
      | TMap p' \<Rightarrow> (case a of TMap a' \<Rightarrow> schema_compatible p' a' path | _ \<Rightarrow> kind_mismatch p a path)
      | TArray p' n \<Rightarrow> (case a of
          TArray a' m \<Rightarrow>
            if n \<noteq> m then
              Inl (mismatch_new path (''provided array length '' @ show_nat n @
                '' does not satisfy required length '' @ show_nat m))
            else schema_compatible p' a' path
        | TList a' \<Rightarrow> schema_compatible p' a' path
        | _ \<Rightarrow> kind_mismatch p a path)
      | TTable provided \<Rightarrow> (case a of
          TTable accepted \<Rightarrow>
            try_each (\<lambda>(k, acc).
              rbind (ok_or (mismatch_new (nested_path path k) ''required field is not provided'')
                (bt_get provided k))
                (\<lambda>prov. schema_compatible prov acc (nested_path path k))) accepted
        | _ \<Rightarrow> kind_mismatch p a path)
      | TVariant provided \<Rightarrow> (case a of
          TVariant accepted \<Rightarrow>
            try_each (\<lambda>(k, prov).
              rbind (ok_or (mismatch_new (nested_path path k)
                  ''provider may emit a variant the consumer does not accept'')
                (bt_get accepted k))
                (\<lambda>acc. schema_compatible prov acc (nested_path path k))) provided
        | _ \<Rightarrow> kind_mismatch p a path)
      | TCallable pc pin pout \<Rightarrow> (case a of
          TCallable ac ain aout \<Rightarrow>
            if pc \<noteq> ac then
              Inl (mismatch_new path (''provided contract '' @ pc @ '' does not satisfy '' @ ac))
            else rbind (schema_compatible ain pin (nested_path path ''input''))
              (\<lambda>_. schema_compatible pout aout (nested_path path ''output''))
        | _ \<Rightarrow> kind_mismatch p a path)
      | TObject pc \<Rightarrow> (case a of
          TObject ac \<Rightarrow> if pc = ac then Inr () else kind_mismatch p a path
        | _ \<Rightarrow> kind_mismatch p a path)
      | _ \<Rightarrow> kind_mismatch p a path)"
  by pat_completeness auto
termination
  by (relation "measure (\<lambda>(p, a, path). size p + size a)")
    (auto dest!: bt_get_size in_set_size)

declare schema_compatible.simps [simp del]

definition accepts :: "phx_type \<Rightarrow> phx_type \<Rightarrow> schema_compatibility" where
  "accepts self provided =
     (if self = provided then Exact
      else case schema_compatible provided self [] of
        Inr _ \<Rightarrow> Compatible | Inl e \<Rightarrow> Incompatible e)"

subsection \<open>The specification\<close>

inductive subtype :: "phx_type \<Rightarrow> phx_type \<Rightarrow> bool" where
  sub_refl: "subtype t t"
| sub_never: "subtype TNever t"
| sub_any: "subtype t TAny"
| sub_option: "subtype p a \<Longrightarrow> subtype (TOption p) (TOption a)"
| sub_list: "subtype p a \<Longrightarrow> subtype (TList p) (TList a)"
| sub_map: "subtype p a \<Longrightarrow> subtype (TMap p) (TMap a)"
| sub_array: "subtype p a \<Longrightarrow> subtype (TArray p n) (TArray a n)"
| sub_array_list: "subtype p a \<Longrightarrow> subtype (TArray p n) (TList a)"
| sub_table: "(\<And>k a. (k, a) \<in> set accepted \<Longrightarrow> \<exists>p. bt_get provided k = Some p \<and> subtype p a) \<Longrightarrow>
    subtype (TTable provided) (TTable accepted)"
| sub_variant: "(\<And>k p. (k, p) \<in> set provided \<Longrightarrow> \<exists>a. bt_get accepted k = Some a \<and> subtype p a) \<Longrightarrow>
    subtype (TVariant provided) (TVariant accepted)"
| sub_callable: "subtype ain pin \<Longrightarrow> subtype pout aout \<Longrightarrow>
    subtype (TCallable c pin pout) (TCallable c ain aout)"

inductive_cases sub_optionE: "subtype (TOption p) a"
inductive_cases sub_listE: "subtype (TList p) a"
inductive_cases sub_mapE: "subtype (TMap p) a"
inductive_cases sub_arrayE: "subtype (TArray p n) a"
inductive_cases sub_tableE: "subtype (TTable p) a"
inductive_cases sub_variantE: "subtype (TVariant p) a"
inductive_cases sub_callableE: "subtype (TCallable c i p) a"

inductive_simps sub_never_right [simp]: "subtype p TNever"
inductive_simps sub_any_left: "subtype TAny a"
inductive_simps sub_scalar_left:
  "subtype TUnit a" "subtype TBool a" "subtype TI64 a" "subtype TU64 a" "subtype TF64 a"
  "subtype TString a" "subtype TBytes a" "subtype (TObject c) a"


lemma kind_mismatch_not_ok [simp]: "kind_mismatch p a path \<noteq> Inr u"
  by (simp add: kind_mismatch_def)

lemma subtype_imp_compatible: "subtype p a \<Longrightarrow> schema_compatible p a path = Inr ()"
proof (induction arbitrary: path rule: subtype.induct)
  case (sub_table accepted provided)
  then have "try_each (\<lambda>(k, acc).
      rbind (ok_or (mismatch_new (nested_path path k) ''required field is not provided'')
        (bt_get provided k)) (\<lambda>prov. schema_compatible prov acc (nested_path path k))) accepted = Inr ()"
    by (fastforce simp: try_each_ok rbind_eq_Inr)
  then show ?case by (subst schema_compatible.simps) simp
next
  case (sub_variant provided accepted)
  then have "try_each (\<lambda>(k, prov).
      rbind (ok_or (mismatch_new (nested_path path k)
          ''provider may emit a variant the consumer does not accept'')
        (bt_get accepted k)) (\<lambda>acc. schema_compatible prov acc (nested_path path k))) provided = Inr ()"
    by (fastforce simp: try_each_ok rbind_eq_Inr)
  then show ?case by (subst schema_compatible.simps) simp
qed (subst schema_compatible.simps, simp)+

lemma compatible_imp_subtype:
  "schema_compatible p a path = Inr () \<Longrightarrow> subtype p a"
proof (induction "size p + size a" arbitrary: p a path rule: less_induct)
  case less
  note IH = less.hyps and prem = less.prems [unfolded schema_compatible.simps [of p a]]
  show ?case
  proof (cases "p = a \<or> p = TNever \<or> a = TAny")
    case True
    then show ?thesis by (auto intro: subtype.intros)
  next
    case False
    with prem show ?thesis
    proof (cases p)
      case (TTable provided)
      with prem False obtain accepted where a: "a = TTable accepted"
        by (auto split: phx_type.splits)
      have "\<exists>p. bt_get provided k = Some p \<and> subtype p t" if "(k, t) \<in> set accepted" for k t
      proof -
        from prem False TTable a that obtain q where
          "bt_get provided k = Some q" "schema_compatible q t (nested_path path k) = Inr ()"
          by (fastforce simp: try_each_ok rbind_eq_Inr)
        with IH [of q t] TTable a that show ?thesis
          by (auto dest!: bt_get_size in_set_size)
      qed
      with TTable a show ?thesis by (auto intro: subtype.intros)
    next
      case (TVariant provided)
      with prem False obtain accepted where a: "a = TVariant accepted"
        by (auto split: phx_type.splits)
      have "\<exists>a. bt_get accepted k = Some a \<and> subtype t a" if "(k, t) \<in> set provided" for k t
      proof -
        from prem False TVariant a that obtain q where
          "bt_get accepted k = Some q" "schema_compatible t q (nested_path path k) = Inr ()"
          by (fastforce simp: try_each_ok rbind_eq_Inr)
        with IH [of t q] TVariant a that show ?thesis
          by (auto dest!: bt_get_size in_set_size)
      qed
      with TVariant a show ?thesis by (auto intro: subtype.intros)
    next
      case (TCallable c i out)
      with prem False obtain i' out' where a: "a = TCallable c i' out'"
        "schema_compatible i' i (nested_path path ''input'') = Inr ()"
        "schema_compatible out out' (nested_path path ''output'') = Inr ()"
        by (auto simp: rbind_eq_Inr split: phx_type.splits if_splits)
      with TCallable IH [of i' i] IH [of out out'] show ?thesis
        by (auto intro: subtype.intros)
    qed (auto intro!: subtype.intros IH split: phx_type.splits if_splits)
  qed
qed

lemma schema_compatible_iff: "schema_compatible p a path = Inr u \<longleftrightarrow> subtype p a"
  using subtype_imp_compatible compatible_imp_subtype by (cases u) blast

lemma accepts_iff: "(\<forall>e. accepts self provided \<noteq> Incompatible e) \<longleftrightarrow> subtype provided self"
proof (cases "schema_compatible provided self []")
  case (Inl e)
  then have "\<not> subtype provided self"
    using subtype_imp_compatible [of provided self "[]"] by auto
  with Inl show ?thesis by (auto simp: accepts_def intro: sub_refl)
next
  case (Inr u)
  then have "subtype provided self"
    using schema_compatible_iff by auto
  with Inr show ?thesis by (auto simp: accepts_def)
qed

lemma accepts_exact: "accepts self provided = Exact \<longleftrightarrow> self = provided"
  by (auto simp: accepts_def split: sum.splits)


subsection \<open>The relation is a preorder\<close>

lemma subtype_trans: "subtype p q \<Longrightarrow> subtype q r \<Longrightarrow> subtype p r"
proof (induction q arbitrary: p r)
  case (TOption q)
  from TOption.prems(2) show ?case
  proof (cases rule: subtype.cases)
    case (sub_option a)
    with TOption.prems(1) TOption.IH show ?thesis
      by (cases rule: subtype.cases) (auto intro: subtype.intros)
  qed (use TOption.prems(1) in \<open>auto intro: subtype.intros\<close>)
next
  case (TArray q n)
  from TArray.prems(2) show ?case
  proof (cases rule: subtype.cases)
    case (sub_array a)
    with TArray.prems(1) TArray.IH show ?thesis
      by (cases rule: subtype.cases) (auto intro: subtype.intros)
  next
    case (sub_array_list a)
    with TArray.prems(1) TArray.IH show ?thesis
      by (cases rule: subtype.cases) (auto intro: subtype.intros)
  qed (use TArray.prems(1) in \<open>auto intro: subtype.intros\<close>)
next
  case (TList q)
  from TList.prems(2) show ?case
  proof (cases rule: subtype.cases)
    case (sub_list a)
    with TList.prems(1) TList.IH show ?thesis
      by (cases rule: subtype.cases) (auto intro: subtype.intros)
  qed (use TList.prems(1) in \<open>auto intro: subtype.intros\<close>)
next
  case (TMap q)
  from TMap.prems(2) show ?case
  proof (cases rule: subtype.cases)
    case (sub_map a)
    with TMap.prems(1) TMap.IH show ?thesis
      by (cases rule: subtype.cases) (auto intro: subtype.intros)
  qed (use TMap.prems(1) in \<open>auto intro: subtype.intros\<close>)
next
  case (TTable q)
  from TTable.prems(2) show ?case
  proof (cases rule: subtype.cases)
    case (sub_table acc)
    show ?thesis
    proof (cases "p = TTable q \<or> p = TNever")
      case False
      with TTable.prems(1) obtain pm where p: "p = TTable pm"
        "\<And>k a. (k, a) \<in> set q \<Longrightarrow> \<exists>p. bt_get pm k = Some p \<and> subtype p a"
        by (cases rule: subtype.cases) auto
      show ?thesis unfolding p sub_table(1)
      proof (rule subtype.sub_table)
        fix k a assume "(k, a) \<in> set acc"
        with sub_table(2) obtain b where b: "bt_get q k = Some b" "subtype b a" by blast
        from bt_get_in [OF b(1)] have kb: "(k, b) \<in> set q" .
        with p(2) obtain c where c: "bt_get pm k = Some c" "subtype c b" by blast
        from TTable.IH [OF kb _ c(2) b(2)] c(1) show "\<exists>p. bt_get pm k = Some p \<and> subtype p a"
          by auto
      qed
    qed (use TTable.prems(2) in \<open>auto intro: subtype.intros\<close>)
  qed (use TTable.prems(1) in \<open>auto intro: subtype.intros\<close>)
next
  case (TVariant q)
  from TVariant.prems(2) show ?case
  proof (cases rule: subtype.cases)
    case (sub_variant acc)
    show ?thesis
    proof (cases "p = TVariant q \<or> p = TNever")
      case False
      with TVariant.prems(1) obtain pm where p: "p = TVariant pm"
        "\<And>k a. (k, a) \<in> set pm \<Longrightarrow> \<exists>b. bt_get q k = Some b \<and> subtype a b"
        by (cases rule: subtype.cases) auto
      show ?thesis unfolding p sub_variant(1)
      proof (rule subtype.sub_variant)
        fix k a assume "(k, a) \<in> set pm"
        with p(2) obtain b where b: "bt_get q k = Some b" "subtype a b" by blast
        from bt_get_in [OF b(1)] have kb: "(k, b) \<in> set q" .
        with sub_variant(2) obtain c where c: "bt_get acc k = Some c" "subtype b c" by blast
        from TVariant.IH [OF kb _ b(2) c(2)] c(1) show "\<exists>c. bt_get acc k = Some c \<and> subtype a c"
          by auto
      qed
    qed (use TVariant.prems(2) in \<open>auto intro: subtype.intros\<close>)
  qed (use TVariant.prems(1) in \<open>auto intro: subtype.intros\<close>)
next
  case (TCallable c i out)
  from TCallable.prems(2) show ?case
  proof (cases rule: subtype.cases)
    case (sub_callable ai ao)
    show ?thesis
    proof (cases "p = TCallable c i out \<or> p = TNever")
      case False
      with TCallable.prems(1) obtain pi po where
        "p = TCallable c pi po" "subtype i pi" "subtype po out"
        by (cases rule: subtype.cases) auto
      with sub_callable TCallable.IH show ?thesis
        using subtype.sub_callable by blast
    qed (use TCallable.prems(2) in \<open>auto intro: subtype.intros\<close>)
  qed (use TCallable.prems(1) in \<open>auto intro: subtype.intros\<close>)
qed (auto simp: sub_any_left sub_scalar_left intro: sub_any sub_never)

subsection \<open>What a consumer of a schema may rely on\<close>

text \<open>
  A value conforms to a schema when every position the schema names holds a value of that shape;
  a table may carry further fields, which a consumer projects away.
\<close>

function conforms :: "phx_type \<Rightarrow> phx_value \<Rightarrow> bool" where
  "conforms TAny v = True"
| "conforms TNever v = False"
| "conforms TUnit v = (v = VUnit)"
| "conforms TBool v = (case v of VBool _ \<Rightarrow> True | _ \<Rightarrow> False)"
| "conforms TI64 v = (case v of VI64 _ \<Rightarrow> True | _ \<Rightarrow> False)"
| "conforms TU64 v = (case v of VU64 _ \<Rightarrow> True | _ \<Rightarrow> False)"
| "conforms TF64 v = (case v of VF64 _ \<Rightarrow> True | _ \<Rightarrow> False)"
| "conforms TString v = (case v of VString _ \<Rightarrow> True | _ \<Rightarrow> False)"
| "conforms TBytes v = (case v of VBytes _ \<Rightarrow> True | _ \<Rightarrow> False)"
| "conforms (TOption t) v =
     (case v of VOption (Some w) \<Rightarrow> conforms t w | VOption None \<Rightarrow> True | _ \<Rightarrow> False)"
| "conforms (TArray t n) v =
     (case v of VList vs \<Rightarrow> length vs = n \<and> list_all (conforms t) vs | _ \<Rightarrow> False)"
| "conforms (TList t) v = (case v of VList vs \<Rightarrow> list_all (conforms t) vs | _ \<Rightarrow> False)"
| "conforms (TMap t) v = (case v of VMap m \<Rightarrow> list_all (conforms t) (bt_vals m) | _ \<Rightarrow> False)"
| "conforms (TTable fs) v =
     (case v of VTable m \<Rightarrow>
        list_all (\<lambda>(k, t). case bt_get m k of Some w \<Rightarrow> conforms t w | None \<Rightarrow> False) fs
      | _ \<Rightarrow> False)"
| "conforms (TVariant variants) v =
     (case v of VVariant tag w \<Rightarrow>
        (case bt_get variants tag of Some t \<Rightarrow> conforms t w | None \<Rightarrow> False)
      | _ \<Rightarrow> False)"
| "conforms (TCallable c i out) v = (case v of VCallable r \<Rightarrow> ref_contract r = c | _ \<Rightarrow> False)"
| "conforms (TObject c) v = (case v of VObject r \<Rightarrow> ref_contract r = c | _ \<Rightarrow> False)"
  by pat_completeness auto
termination
  by (relation "measure (\<lambda>(t, v). size t)") (auto dest: bt_get_size in_set_size)

lemma subtype_sound: "subtype p a \<Longrightarrow> conforms p v \<Longrightarrow> conforms a v"
proof (induction arbitrary: v rule: subtype.induct)
  case (sub_table accepted provided)
  then obtain m where m: "v = VTable m" by (cases v) auto
  have "case bt_get m k of Some w \<Rightarrow> conforms t w | None \<Rightarrow> False" if "(k, t) \<in> set accepted" for k t
  proof -
    from sub_table.IH [OF that] obtain q where
      q: "bt_get provided k = Some q" "\<And>v. conforms q v \<Longrightarrow> conforms t v" by blast
    from sub_table.prems m bt_get_in [OF q(1)]
    have "case bt_get m k of Some w \<Rightarrow> conforms q w | None \<Rightarrow> False"
      by (force simp: list_all_iff)
    with q(2) show ?thesis by (auto split: option.splits)
  qed
  with m show ?case by (auto simp: list_all_iff)
next
  case (sub_variant provided accepted)
  then obtain tag w q where v: "v = VVariant tag w" "bt_get provided tag = Some q" "conforms q w"
    by (auto split: phx_value.splits option.splits)
  from sub_variant.IH [OF bt_get_in [OF v(2)]] v show ?case by auto
qed (auto simp: list_all_iff split: phx_value.splits option.splits)

lemma parse_conforms: "parse t v = Inr u \<Longrightarrow> conforms t v"
proof (induction t v arbitrary: u rule: parse.induct)
  case (14 expected v)
  then obtain m where m: "v = VTable m" using parse_shapes(5) by blast
  have "case bt_get m k of Some w \<Rightarrow> conforms t w | None \<Rightarrow> False" if "(k, t) \<in> set expected" for k t
  proof -
    from 14(2) m that parse_table_ok [of expected m u] obtain w where
      "bt_get m k = Some w" "parse t w = Inr ()" by blast
    with 14(1) [OF m that refl] show ?thesis by simp
  qed
  with m show ?case by (auto simp: list_all_iff)
qed (auto simp: list_all_iff try_each_ok parse_reference_contract_def simp del: parse.simps(14)
  split: phx_value.splits option.splits if_splits)


subsection \<open>The schema of a value\<close>

function join_schema :: "phx_type \<Rightarrow> phx_type \<Rightarrow> phx_type" where
  "join_schema l r =
     (if l = r then l
      else if l = TNever then r
      else if r = TNever then l
      else if l = TAny \<or> r = TAny then TAny
      else case l of
        TOption l' \<Rightarrow> (case r of TOption r' \<Rightarrow> TOption (join_schema l' r') | _ \<Rightarrow> TAny)
      | TArray l' n \<Rightarrow> (case r of
          TArray r' m \<Rightarrow>
            if n = m then TArray (join_schema l' r') n else TList (join_schema l' r')
        | TList r' \<Rightarrow> TList (join_schema l' r')
        | _ \<Rightarrow> TAny)
      | TList l' \<Rightarrow> (case r of
          TArray r' m \<Rightarrow> TList (join_schema l' r')
        | TList r' \<Rightarrow> TList (join_schema l' r')
        | _ \<Rightarrow> TAny)
      | TMap l' \<Rightarrow> (case r of TMap r' \<Rightarrow> TMap (join_schema l' r') | _ \<Rightarrow> TAny)
      | TTable lm \<Rightarrow> (case r of
          TTable rm \<Rightarrow>
            TTable (filter_map (\<lambda>(k, l'). case bt_get rm k of
              None \<Rightarrow> None | Some r' \<Rightarrow> Some (k, join_schema l' r')) lm)
        | _ \<Rightarrow> TAny)
      | TVariant lm \<Rightarrow> (case r of
          TVariant rm \<Rightarrow>
            TVariant (foldl (\<lambda>m (k, r'). bt_insert k
              (case bt_get lm k of Some l' \<Rightarrow> join_schema l' r' | None \<Rightarrow> r') m) lm rm)
        | _ \<Rightarrow> TAny)
      | TObject lc \<Rightarrow> (case r of TObject rc \<Rightarrow> if lc = rc then TObject lc else TAny | _ \<Rightarrow> TAny)
      | TCallable lc li lo \<Rightarrow> (case r of
          TCallable rc ri ro \<Rightarrow>
            if lc = rc \<and> li = ri \<and> lo = ro then TCallable lc li lo else TAny
        | _ \<Rightarrow> TAny)
      | _ \<Rightarrow> TAny)"
  by pat_completeness auto
termination
  by (relation "measure (\<lambda>(l, r). size l + size r)") (auto dest!: bt_get_size in_set_size)

declare join_schema.simps [simp del]

definition join_all :: "phx_type list \<Rightarrow> phx_type" where
  "join_all ts = (case reduce join_schema ts of Some t \<Rightarrow> t | None \<Rightarrow> TNever)"

fun schema_of :: "phx_value \<Rightarrow> phx_type" where
  "schema_of VUnit = TUnit"
| "schema_of (VBool _) = TBool"
| "schema_of (VI64 _) = TI64"
| "schema_of (VU64 _) = TU64"
| "schema_of (VF64 _) = TF64"
| "schema_of (VString _) = TString"
| "schema_of (VBytes _) = TBytes"
| "schema_of (VOption None) = TOption TNever"
| "schema_of (VOption (Some v)) = TOption (schema_of v)"
| "schema_of (VList vs) = TArray (join_all (map schema_of vs)) (length vs)"
| "schema_of (VMap m) = TMap (join_all (map (\<lambda>(k, v). schema_of v) m))"
| "schema_of (VTable m) = TTable (map (\<lambda>(k, v). (k, schema_of v)) m)"
| "schema_of (VVariant tag v) = TVariant [(tag, schema_of v)]"
| "schema_of (VCallable r) = TCallable (ref_contract r) TAny TNever"
| "schema_of (VObject r) = TObject (ref_contract r)"

definition satisfies :: "phx_value \<Rightarrow> phx_type \<Rightarrow> schema_compatibility" where
  "satisfies v schema = accepts schema (schema_of v)"

text \<open>
  Schemas that occur as schemas of values: ordered maps, and references typed by their contract
  alone. On these \<open>join_schema\<close> is the least upper bound.
\<close>

fun value_schema :: "phx_type \<Rightarrow> bool" where
  "value_schema (TOption t) = value_schema t"
| "value_schema (TArray t n) = value_schema t"
| "value_schema (TList t) = value_schema t"
| "value_schema (TMap t) = value_schema t"
| "value_schema (TTable m) = (bt_ok m \<and> list_all (\<lambda>(k, t). value_schema t) m)"
| "value_schema (TVariant m) = (bt_ok m \<and> list_all (\<lambda>(k, t). value_schema t) m)"
| "value_schema (TCallable c i p) = (i = TAny \<and> p = TNever)"
| "value_schema _ = True"

lemma bt_ok_filter_map:
  assumes "bt_ok m" "\<And>k v p. f (k, v) = Some p \<Longrightarrow> fst p = k"
  shows "bt_ok (filter_map f m)"
  using assms(1)
proof (induction m)
  case (Cons x m)
  obtain k v where x: "x = (k, v)" by (cases x)
  have sub: "\<forall>q\<in>set (filter_map f m). k < fst q"
  proof
    fix q assume "q \<in> set (filter_map f m)"
    then obtain j w where q: "(j, w) \<in> set m" "f (j, w) = Some q"
      by (auto simp: set_filter_map)
    with assms(2) [of j w q] Cons.prems x show "k < fst q"
      by force
  qed
  show ?case
  proof (cases "f x")
    case (Some p)
    with assms(2) [of k v p] x have "fst p = k" by simp
    with Some sub Cons x show ?thesis
      by (cases p) auto
  qed (use Cons x in auto)
qed simp

text \<open>The two map joins, entry by entry.\<close>

abbreviation table_join :: "(key, phx_type) btree \<Rightarrow> (key, phx_type) btree \<Rightarrow> (key, phx_type) btree" where
  "table_join lm rm \<equiv> filter_map (\<lambda>(k, l'). case bt_get rm k of
     None \<Rightarrow> None | Some r' \<Rightarrow> Some (k, join_schema l' r')) lm"

abbreviation variant_join :: "(key, phx_type) btree \<Rightarrow> (key, phx_type) btree \<Rightarrow> (key, phx_type) btree" where
  "variant_join lm rm \<equiv> foldl (\<lambda>m (k, r'). bt_insert k
     (case bt_get lm k of Some l' \<Rightarrow> join_schema l' r' | None \<Rightarrow> r') m) lm rm"

lemma table_join_ok: "bt_ok lm \<Longrightarrow> bt_ok (table_join lm rm)"
  by (erule bt_ok_filter_map) (auto split: option.splits)

lemma table_join_in:
  "(k, t) \<in> set (table_join lm rm) \<longleftrightarrow>
     (\<exists>l r. (k, l) \<in> set lm \<and> bt_get rm k = Some r \<and> t = join_schema l r)"
  by (force simp: set_filter_map split: option.splits)

lemma foldl_insert_get:
  assumes "distinct (map fst rm)"
  shows "bt_get (foldl (\<lambda>m (k, r). bt_insert k (g k r) m) m0 rm) j =
     (case bt_get rm j of Some r \<Rightarrow> Some (g j r) | None \<Rightarrow> bt_get m0 j)"
  using assms
proof (induction rm arbitrary: m0)
  case (Cons p rm)
  obtain k r where p: "p = (k, r)" by (cases p)
  with Cons.prems have "bt_get rm k = None" by (auto simp: bt_get_None)
  with Cons p show ?case by (auto simp: map_simps split: option.splits)
qed simp

lemma foldl_insert_ok: "bt_ok m0 \<Longrightarrow> bt_ok (foldl (\<lambda>m (k, r). bt_insert k (g k r) m) m0 rm)"
  by (induction rm arbitrary: m0) auto

lemma variant_join_get:
  assumes "bt_ok rm"
  shows "bt_get (variant_join lm rm) k =
     (case bt_get rm k of
        Some r \<Rightarrow> Some (case bt_get lm k of Some l \<Rightarrow> join_schema l r | None \<Rightarrow> r)
      | None \<Rightarrow> bt_get lm k)"
  using assms foldl_insert_get
    [of rm "\<lambda>k r'. case bt_get lm k of Some l' \<Rightarrow> join_schema l' r' | None \<Rightarrow> r'" lm k]
  by (simp add: bt_ok_def strict_sorted_iff)

lemma variant_join_ok: "bt_ok lm \<Longrightarrow> bt_ok (variant_join lm rm)"
  by (rule foldl_insert_ok)


lemma join_eqs:
  "join_schema t t = t"
  "join_schema TNever t = t" "join_schema t TNever = t"
  "join_schema TAny t = TAny" "join_schema t TAny = TAny"
  by (subst join_schema.simps, auto)+

text \<open>What a supertype of a container looks like.\<close>

lemma above:
  "subtype (TOption p) t \<longleftrightarrow> t = TAny \<or> (\<exists>a. t = TOption a \<and> subtype p a)"
  "subtype (TList p) t \<longleftrightarrow> t = TAny \<or> (\<exists>a. t = TList a \<and> subtype p a)"
  "subtype (TMap p) t \<longleftrightarrow> t = TAny \<or> (\<exists>a. t = TMap a \<and> subtype p a)"
  "subtype (TArray p n) t \<longleftrightarrow>
     t = TAny \<or> (\<exists>a. (t = TArray a n \<or> t = TList a) \<and> subtype p a)"
  by (auto elim!: sub_optionE sub_listE sub_mapE sub_arrayE intro: subtype.intros)

lemma above_table:
  assumes "bt_ok m"
  shows "subtype (TTable m) t \<longleftrightarrow> t = TAny \<or>
     (\<exists>acc. t = TTable acc \<and> (\<forall>(k, a)\<in>set acc. \<exists>p. bt_get m k = Some p \<and> subtype p a))"
proof -
  have "\<forall>(k, a)\<in>set m. \<exists>p. bt_get m k = Some p \<and> subtype p a"
    using assms by (auto simp: bt_get_iff intro: sub_refl)
  then show ?thesis
    by (auto elim!: sub_tableE intro: subtype.intros)
qed

lemma above_variant:
  assumes "bt_ok m"
  shows "subtype (TVariant m) t \<longleftrightarrow> t = TAny \<or>
     (\<exists>acc. t = TVariant acc \<and> (\<forall>(k, p)\<in>set m. \<exists>a. bt_get acc k = Some a \<and> subtype p a))"
proof -
  have "\<forall>(k, p)\<in>set m. \<exists>a. bt_get m k = Some a \<and> subtype p a"
    using assms by (auto simp: bt_get_iff intro: sub_refl)
  then show ?thesis
    by (auto elim!: sub_variantE intro: subtype.intros)
qed


lemma table_join_get:
  "bt_get (table_join lm rm) k =
     (case bt_get lm k of
        None \<Rightarrow> None
      | Some l \<Rightarrow> (case bt_get rm k of None \<Rightarrow> None | Some r \<Rightarrow> Some (join_schema l r)))"
  if "bt_ok lm"
  using that
proof (induction lm)
  case (Cons p lm)
  obtain j l where p: "p = (j, l)" by (cases p)
  with Cons.prems have "bt_get lm j = None" by (auto simp: bt_get_None)
  with Cons p show ?case by (auto split: option.splits)
qed simp

definition is_join :: "phx_type \<Rightarrow> phx_type \<Rightarrow> phx_type \<Rightarrow> bool" where
  "is_join a b j \<longleftrightarrow> value_schema j \<and> (\<forall>t. subtype j t \<longleftrightarrow> subtype a t \<and> subtype b t)"

lemma is_join_refl: "value_schema a \<Longrightarrow> is_join a a a"
  by (simp add: is_join_def)

lemma is_join_never:
  "value_schema a \<Longrightarrow> is_join TNever a a" "value_schema a \<Longrightarrow> is_join a TNever a"
  by (auto simp: is_join_def intro: sub_never)

lemma is_join_any: "is_join TAny b TAny" "is_join a TAny TAny"
  by (auto simp: is_join_def sub_any_left intro: sub_any)

lemma join_table:
  assumes lm: "bt_ok lm" and rm: "bt_ok rm"
    and IH: "\<And>k l r. (k, l) \<in> set lm \<Longrightarrow> (k, r) \<in> set rm \<Longrightarrow> is_join l r (join_schema l r)"
  shows "is_join (TTable lm) (TTable rm) (TTable (table_join lm rm))"
proof -
  have "\<forall>(k, t)\<in>set (table_join lm rm). value_schema t"
    using IH rm by (auto simp: table_join_in bt_get_iff is_join_def)
  moreover have "(\<exists>p. bt_get (table_join lm rm) k = Some p \<and> subtype p a) \<longleftrightarrow>
      (\<exists>p. bt_get lm k = Some p \<and> subtype p a) \<and> (\<exists>p. bt_get rm k = Some p \<and> subtype p a)" for k a
  proof (cases "bt_get lm k")
    case (Some l)
    show ?thesis
    proof (cases "bt_get rm k")
      case (Some r)
      with \<open>bt_get lm k = Some l\<close> have "is_join l r (join_schema l r)"
        using IH lm rm by (auto simp: bt_get_iff)
      with Some \<open>bt_get lm k = Some l\<close> show ?thesis
        by (simp add: table_join_get [OF lm] is_join_def)
    qed (simp add: table_join_get [OF lm] Some)
  qed (simp add: table_join_get [OF lm])
  ultimately show ?thesis
    unfolding is_join_def above_table [OF lm] above_table [OF rm]
      above_table [OF table_join_ok [OF lm]]
    by (fastforce simp: table_join_ok [OF lm] list_all_iff)
qed

lemma ball_btree: "bt_ok m \<Longrightarrow> (\<forall>(k, p)\<in>set m. P k p) \<longleftrightarrow> (\<forall>k p. bt_get m k = Some p \<longrightarrow> P k p)"
  by (auto simp: bt_get_iff)

lemma join_variant:
  assumes lm: "bt_ok lm" and rm: "bt_ok rm"
    and vl: "\<And>k l. (k, l) \<in> set lm \<Longrightarrow> value_schema l"
    and vr: "\<And>k r. (k, r) \<in> set rm \<Longrightarrow> value_schema r"
    and IH: "\<And>k l r. (k, l) \<in> set lm \<Longrightarrow> (k, r) \<in> set rm \<Longrightarrow> is_join l r (join_schema l r)"
  shows "is_join (TVariant lm) (TVariant rm) (TVariant (variant_join lm rm))"
proof -
  let ?j = "variant_join lm rm"
  have ok: "bt_ok ?j" using lm by (rule variant_join_ok)
  have entry: "value_schema p" if "bt_get ?j k = Some p" for k p
    using that IH lm rm vl vr
    by (auto simp: variant_join_get [OF rm] bt_get_iff is_join_def split: option.splits)
  have "(\<forall>p. bt_get ?j k = Some p \<longrightarrow> (\<exists>a. bt_get acc k = Some a \<and> subtype p a)) \<longleftrightarrow>
      (\<forall>p. bt_get lm k = Some p \<longrightarrow> (\<exists>a. bt_get acc k = Some a \<and> subtype p a)) \<and>
      (\<forall>p. bt_get rm k = Some p \<longrightarrow> (\<exists>a. bt_get acc k = Some a \<and> subtype p a))" for acc k
  proof (cases "bt_get lm k")
    case (Some l)
    show ?thesis
    proof (cases "bt_get rm k")
      case (Some r)
      with \<open>bt_get lm k = Some l\<close> have "is_join l r (join_schema l r)"
        using IH lm rm by (auto simp: bt_get_iff)
      with Some \<open>bt_get lm k = Some l\<close> show ?thesis
        by (auto simp: variant_join_get [OF rm] is_join_def)
    qed (simp add: variant_join_get [OF rm])
  qed (simp add: variant_join_get [OF rm] split: option.splits)
  then have "(\<forall>(k, p)\<in>set ?j. \<exists>a. bt_get acc k = Some a \<and> subtype p a) \<longleftrightarrow>
      (\<forall>(k, p)\<in>set lm. \<exists>a. bt_get acc k = Some a \<and> subtype p a) \<and>
      (\<forall>(k, p)\<in>set rm. \<exists>a. bt_get acc k = Some a \<and> subtype p a)" for acc
    unfolding ball_btree [OF ok] ball_btree [OF lm] ball_btree [OF rm] by blast
  then show ?thesis
    unfolding is_join_def above_variant [OF lm] above_variant [OF rm] above_variant [OF ok]
    using entry ok by (auto simp: list_all_iff bt_get_iff)
qed


text \<open>Types of different shapes have no common supertype but \<open>Any\<close>.\<close>

definition shape :: "phx_type \<Rightarrow> type_kind" where
  "shape t = (case kind_of_type t of KArray \<Rightarrow> KList | k \<Rightarrow> k)"

lemma shape_simps [simp]:
  "shape TAny = KAny" "shape TNever = KNever" "shape TUnit = KUnit" "shape TBool = KBool"
  "shape TI64 = KI64" "shape TU64 = KU64" "shape TF64 = KF64" "shape TString = KString"
  "shape TBytes = KBytes" "shape (TOption t) = KOption" "shape (TArray t n) = KList"
  "shape (TList t) = KList" "shape (TMap t) = KMap" "shape (TTable m) = KTable"
  "shape (TVariant m) = KVariant" "shape (TCallable c i p) = KCallable" "shape (TObject c) = KObject"
  by (simp_all add: shape_def)

lemma subtype_shape: "subtype a t \<Longrightarrow> a = TNever \<or> t = TAny \<or> shape a = shape t"
  by (cases rule: subtype.cases) auto

lemma join_other_shape:
  assumes "shape a \<noteq> shape b"
  shows "a \<noteq> TNever \<Longrightarrow> b \<noteq> TNever \<Longrightarrow> join_schema a b = TAny"
  using assms by (subst join_schema.simps) (cases a; auto split: phx_type.splits)

lemma is_join_other_shape:
  assumes "shape a \<noteq> shape b" "value_schema a" "value_schema b"
  shows "is_join a b (join_schema a b)"
proof (cases "a = TNever \<or> b = TNever")
  case True
  with assms show ?thesis by (auto simp: join_eqs is_join_never)
next
  case False
  moreover from False assms(1) have "t = TAny" if "subtype a t" "subtype b t" for t
    using subtype_shape [OF that(1)] subtype_shape [OF that(2)] by auto
  ultimately show ?thesis
    using assms by (auto simp: join_other_shape is_join_def sub_any_left intro: sub_any)
qed

lemma is_join_any_pair:
  assumes "\<And>t. subtype a t \<Longrightarrow> subtype b t \<Longrightarrow> t = TAny"
  shows "is_join a b TAny"
  using assms by (auto simp: is_join_def sub_any_left intro: sub_any)

lemma shape_cases:
  "shape b = KOption \<Longrightarrow> \<exists>t. b = TOption t" "shape b = KMap \<Longrightarrow> \<exists>t. b = TMap t"
  "shape b = KList \<Longrightarrow> (\<exists>t n. b = TArray t n) \<or> (\<exists>t. b = TList t)"
  "shape b = KTable \<Longrightarrow> \<exists>m. b = TTable m" "shape b = KVariant \<Longrightarrow> \<exists>m. b = TVariant m"
  "shape b = KCallable \<Longrightarrow> \<exists>c i p. b = TCallable c i p" "shape b = KObject \<Longrightarrow> \<exists>c. b = TObject c"
  "shape b = KAny \<Longrightarrow> b = TAny" "shape b = KNever \<Longrightarrow> b = TNever" "shape b = KUnit \<Longrightarrow> b = TUnit"
  "shape b = KBool \<Longrightarrow> b = TBool" "shape b = KI64 \<Longrightarrow> b = TI64" "shape b = KU64 \<Longrightarrow> b = TU64"
  "shape b = KF64 \<Longrightarrow> b = TF64" "shape b = KString \<Longrightarrow> b = TString" "shape b = KBytes \<Longrightarrow> b = TBytes"
  by (cases b; simp)+

lemma join_containers:
  "join_schema (TOption a) (TOption b) = TOption (join_schema a b)"
  "join_schema (TMap a) (TMap b) = TMap (join_schema a b)"
  "join_schema (TList a) (TList b) = TList (join_schema a b)"
  "join_schema (TList a) (TArray b m) = TList (join_schema a b)"
  "join_schema (TArray a n) (TList b) = TList (join_schema a b)"
  "join_schema (TArray a n) (TArray b m) =
     (if n = m then TArray (join_schema a b) n else TList (join_schema a b))"
  by (subst join_schema.simps, simp add: join_eqs)+

lemma is_join_containers:
  assumes "is_join a b j"
  shows "is_join (TOption a) (TOption b) (TOption j)" "is_join (TMap a) (TMap b) (TMap j)"
    "is_join (TList a) (TList b) (TList j)" "is_join (TList a) (TArray b m) (TList j)"
    "is_join (TArray a n) (TList b) (TList j)" "is_join (TArray a n) (TArray b n) (TArray j n)"
    "n \<noteq> m \<Longrightarrow> is_join (TArray a n) (TArray b m) (TList j)"
  using assms by (auto simp: is_join_def above)

lemma join_scalar:
  assumes "a \<in> {TUnit, TBool, TI64, TU64, TF64, TString, TBytes}" "value_schema b"
  shows "is_join a b (join_schema a b)"
proof (cases "a = b")
  case True
  with assms(2) show ?thesis by (simp add: join_eqs is_join_refl)
next
  case False
  with assms(1) have "shape a \<noteq> shape b" by (cases b) auto
  then show ?thesis using assms by (auto intro: is_join_other_shape)
qed

lemma join_schema_lub: "value_schema a \<Longrightarrow> value_schema b \<Longrightarrow> is_join a b (join_schema a b)"
proof (induction a arbitrary: b)
  case (TTable lm)
  show ?case
  proof (cases "shape b = KTable \<and> b \<noteq> TTable lm")
    case True
    then obtain rm where b: "b = TTable rm" by (auto dest: shape_cases)
    have IH: "is_join l r (join_schema l r)" if "(k, l) \<in> set lm" "(k, r) \<in> set rm" for k l r
      by (rule TTable.IH [OF that(1)]) (use TTable.prems b that in \<open>auto simp: list_all_iff\<close>)
    have "is_join (TTable lm) (TTable rm) (TTable (table_join lm rm))"
      by (rule join_table) (use TTable.prems b IH in \<open>auto simp: list_all_iff\<close>)
    with b True show ?thesis by (subst join_schema.simps) auto
  qed (use TTable.prems is_join_other_shape [of "TTable lm" b] is_join_refl [of b] in \<open>auto simp: join_eqs\<close>)
next
  case (TVariant lm)
  show ?case
  proof (cases "shape b = KVariant \<and> b \<noteq> TVariant lm")
    case True
    then obtain rm where b: "b = TVariant rm" by (auto dest: shape_cases)
    have IH: "is_join l r (join_schema l r)" if "(k, l) \<in> set lm" "(k, r) \<in> set rm" for k l r
      by (rule TVariant.IH [OF that(1)]) (use TVariant.prems b that in \<open>auto simp: list_all_iff\<close>)
    have "is_join (TVariant lm) (TVariant rm) (TVariant (variant_join lm rm))"
      by (rule join_variant) (use TVariant.prems b IH in \<open>auto simp: list_all_iff\<close>)
    with b True show ?thesis by (subst join_schema.simps) auto
  qed (use TVariant.prems is_join_other_shape [of "TVariant lm" b] is_join_refl [of b] in \<open>auto simp: join_eqs\<close>)
next
  case (TCallable c i p)
  show ?case
  proof (cases "shape b = KCallable \<and> b \<noteq> TCallable c i p")
    case True
    then obtain d i' p' where b: "b = TCallable d i' p'" by (auto dest!: shape_cases)
    with TCallable.prems True have "d \<noteq> c" by auto
    with b show ?thesis
      by (subst join_schema.simps)
        (auto intro!: is_join_any_pair elim!: sub_callableE)
  qed (use TCallable.prems is_join_other_shape [of "TCallable c i p" b] is_join_refl [of b]
      in \<open>auto simp: join_eqs\<close>)
next
  case (TObject c)
  show ?case
  proof (cases "shape b = KObject \<and> b \<noteq> TObject c")
    case True
    then obtain d where "b = TObject d" "d \<noteq> c" by (auto dest!: shape_cases)
    then show ?thesis
      by (subst join_schema.simps) (auto intro!: is_join_any_pair simp: sub_scalar_left)
  qed (use TObject.prems is_join_other_shape [of "TObject c" b] is_join_refl [of b]
      in \<open>auto simp: join_eqs\<close>)
next
  case (TOption t)
  show ?case
  proof (cases "shape b = KOption")
    case True
    then obtain u where "b = TOption u" by (auto dest: shape_cases)
    with TOption show ?thesis by (auto simp: join_containers intro: is_join_containers)
  qed (use TOption.prems in \<open>auto intro: is_join_other_shape\<close>)
next
  case (TMap t)
  show ?case
  proof (cases "shape b = KMap")
    case True
    then obtain u where "b = TMap u" by (auto dest: shape_cases)
    with TMap show ?thesis by (auto simp: join_containers intro: is_join_containers)
  qed (use TMap.prems in \<open>auto intro: is_join_other_shape\<close>)
next
  case (TList t)
  show ?case
  proof (cases "shape b = KList")
    case True
    then consider u where "b = TList u" | u m where "b = TArray u m" by (auto dest: shape_cases)
    then show ?thesis
      by cases (use TList in \<open>auto simp: join_containers intro: is_join_containers\<close>)
  qed (use TList.prems in \<open>auto intro: is_join_other_shape\<close>)
next
  case (TArray t n)
  show ?case
  proof (cases "shape b = KList")
    case True
    then consider u where "b = TList u" | u m where "b = TArray u m" by (auto dest: shape_cases)
    then show ?thesis
      by cases (use TArray in \<open>auto simp: join_containers intro: is_join_containers\<close>)
  qed (use TArray.prems in \<open>auto intro: is_join_other_shape\<close>)
next
  case TAny
  show ?case by (simp add: join_eqs is_join_any)
next
  case TNever
  then show ?case by (simp add: join_eqs is_join_never)
qed (auto intro: join_scalar)


lemma join_all_lub:
  "\<forall>t\<in>set ts. value_schema t \<Longrightarrow>
     value_schema (join_all ts) \<and> (\<forall>t. subtype (join_all ts) t \<longleftrightarrow> (\<forall>s\<in>set ts. subtype s t))"
proof (cases ts)
  case Nil
  then show ?thesis by (auto simp: join_all_def reduce_def intro: sub_never)
next
  case (Cons x xs)
  assume "\<forall>t\<in>set ts. value_schema t"
  with Cons have "value_schema x" "\<forall>t\<in>set xs. value_schema t" by auto
  then have "value_schema (foldl join_schema x xs) \<and>
      (\<forall>t. subtype (foldl join_schema x xs) t \<longleftrightarrow> subtype x t \<and> (\<forall>s\<in>set xs. subtype s t))"
  proof (induction xs arbitrary: x)
    case (Cons y ys)
    with join_schema_lub [of x y] Cons.IH [of "join_schema x y"] show ?case
      by (auto simp: is_join_def)
  qed simp
  with Cons show ?thesis by (simp add: join_all_def reduce_def)
qed

text \<open>Values built from ordered maps, which is every value the code can hold.\<close>

fun value_ok :: "phx_value \<Rightarrow> bool" where
  "value_ok (VOption x) = (case x of Some v \<Rightarrow> value_ok v | None \<Rightarrow> True)"
| "value_ok (VList vs) = list_all value_ok vs"
| "value_ok (VMap m) = (bt_ok m \<and> list_all (\<lambda>(k, v). value_ok v) m)"
| "value_ok (VTable m) = (bt_ok m \<and> list_all (\<lambda>(k, v). value_ok v) m)"
| "value_ok (VVariant tag v) = value_ok v"
| "value_ok _ = True"

lemma bt_get_map_val: "bt_get (map (\<lambda>(k, v). (k, f v)) m) k = map_option f (bt_get m k)"
  by (induction m) auto

lemma bt_ok_map_val [simp]: "bt_ok (map (\<lambda>(k, v). (k, f v)) m) = bt_ok m"
  by (simp add: bt_ok_def case_prod_beta comp_def)

lemma schema_of_value_schema: "value_ok v \<Longrightarrow> value_schema (schema_of v)"
proof (induction v rule: schema_of.induct)
  case (10 vs)
  then have "\<forall>t\<in>set (map schema_of vs). value_schema t" by (auto simp: list_all_iff)
  from join_all_lub [OF this] show ?case by simp
next
  case (11 m)
  then have "\<forall>t\<in>set (map (\<lambda>(k, v). schema_of v) m). value_schema t"
    by (auto simp: list_all_iff)
  from join_all_lub [OF this] show ?case by simp
qed (auto simp: list_all_iff)

lemma sub_join_all:
  assumes "\<forall>v\<in>set vs. value_ok v"
  shows "subtype (join_all (map schema_of vs)) t \<longleftrightarrow> (\<forall>v\<in>set vs. subtype (schema_of v) t)"
  using join_all_lub [of "map schema_of vs"] assms schema_of_value_schema by simp

text \<open>The inferred schema decides conformance.\<close>

lemma shape_schema_of: "shape (schema_of v) = kind_of_value v"
  by (cases v rule: schema_of.cases) auto

lemma shape_conforms: "conforms t v \<Longrightarrow> t = TAny \<or> shape t = kind_of_value v"
  by (cases t) (auto split: phx_value.splits)

lemma kind_of_value_cases:
  "kind_of_value v = KOption \<Longrightarrow> v = VOption None \<or> (\<exists>w. v = VOption (Some w))"
  "kind_of_value v = KList \<Longrightarrow> \<exists>vs. v = VList vs" "kind_of_value v = KMap \<Longrightarrow> \<exists>m. v = VMap m"
  "kind_of_value v = KTable \<Longrightarrow> \<exists>m. v = VTable m"
  "kind_of_value v = KVariant \<Longrightarrow> \<exists>k w. v = VVariant k w"
  "kind_of_value v = KCallable \<Longrightarrow> \<exists>r. v = VCallable r"
  "kind_of_value v = KObject \<Longrightarrow> \<exists>r. v = VObject r"
  by (cases v; auto)+

lemma schema_of_other_kind:
  assumes "shape t \<noteq> kind_of_value v" "t \<noteq> TAny"
  shows "subtype (schema_of v) t \<longleftrightarrow> conforms t v"
proof -
  have "schema_of v \<noteq> TNever" by (cases v rule: schema_of.cases) auto
  with assms show ?thesis
    using subtype_shape [of "schema_of v" t] shape_conforms [of t v] shape_schema_of [of v] by auto
qed

lemma schema_of_scalar:
  assumes "t \<in> {TUnit, TBool, TI64, TU64, TF64, TString, TBytes}"
  shows "subtype (schema_of v) t \<longleftrightarrow> conforms t v"
proof (cases "shape t = kind_of_value v")
  case True
  with assms show ?thesis by (cases v) (auto intro: sub_refl)
next
  case False
  with assms show ?thesis by (intro schema_of_other_kind) auto
qed

lemma schema_of_conforms: "value_ok v \<Longrightarrow> subtype (schema_of v) t \<longleftrightarrow> conforms t v"
proof (induction t v rule: conforms.induct)
  case (10 t v)
  show ?case
  proof (cases "kind_of_value v = KOption")
    case True
    with 10 show ?thesis by (auto simp: above intro: sub_never dest!: kind_of_value_cases)
  qed (simp add: schema_of_other_kind del: conforms.simps)
next
  case (11 t n v)
  show ?case
  proof (cases "kind_of_value v = KList")
    case True
    with 11 show ?thesis by (auto simp: above sub_join_all list_all_iff dest!: kind_of_value_cases)
  qed (simp add: schema_of_other_kind del: conforms.simps)
next
  case (12 t v)
  show ?case
  proof (cases "kind_of_value v = KList")
    case True
    with 12 show ?thesis by (auto simp: above sub_join_all list_all_iff dest!: kind_of_value_cases)
  qed (simp add: schema_of_other_kind del: conforms.simps)
next
  case (13 t v)
  show ?case
  proof (cases "kind_of_value v = KMap")
    case True
    then obtain m where m: "v = VMap m" by (auto dest: kind_of_value_cases)
    with 13(2) have ok: "\<forall>v\<in>set (bt_vals m). value_ok v"
      by (auto simp: list_all_iff bt_vals_def)
    with 13(1) [OF m] have "subtype (schema_of w) t \<longleftrightarrow> conforms t w" if "w \<in> set (bt_vals m)" for w
      using that by blast
    moreover have "map (\<lambda>(k, v). schema_of v) m = map schema_of (bt_vals m)"
      by (auto simp: bt_vals_def)
    ultimately show ?thesis
      using sub_join_all [OF ok, of t] by (simp add: m above list_all_iff)
  qed (simp add: schema_of_other_kind del: conforms.simps)
next
  case (14 fs v)
  show ?case
  proof (cases "kind_of_value v = KTable")
    case True
    then obtain m where m: "v = VTable m" by (auto dest: kind_of_value_cases)
    with 14(2) have vm: "bt_ok m" "\<And>k w. bt_get m k = Some w \<Longrightarrow> value_ok w"
      by (auto simp: list_all_iff bt_get_iff)
    have "(\<exists>p. bt_get (map (\<lambda>(k, v). (k, schema_of v)) m) k = Some p \<and> subtype p a) \<longleftrightarrow>
        (case bt_get m k of Some w \<Rightarrow> conforms a w | None \<Rightarrow> False)" if "(k, a) \<in> set fs" for k a
      using 14(1) [OF m that refl] vm(2) by (auto simp: bt_get_map_val split: option.splits)
    then show ?thesis
      by (fastforce simp: m above_table vm(1) list_all_iff)
  qed (simp add: schema_of_other_kind del: conforms.simps)
next
  case (15 variants v)
  show ?case
  proof (cases "kind_of_value v = KVariant")
    case True
    then obtain k w where "v = VVariant k w" by (auto dest: kind_of_value_cases)
    with 15 show ?thesis
      by (auto simp: above_variant split: option.splits)
  qed (simp add: schema_of_other_kind del: conforms.simps)
next
  case (16 c i p v)
  show ?case
  proof (cases "kind_of_value v = KCallable")
    case True
    then show ?thesis
      by (auto elim!: sub_callableE intro!: sub_callable [OF sub_any sub_never] dest!: kind_of_value_cases)
  qed (simp add: schema_of_other_kind del: conforms.simps)
next
  case (17 c v)
  show ?case
  proof (cases "kind_of_value v = KObject")
    case True
    then show ?thesis by (auto simp: sub_scalar_left dest!: kind_of_value_cases)
  qed (simp add: schema_of_other_kind del: conforms.simps)
next
  case (1 v)
  show ?case by (auto intro: sub_any)
next
  case (2 v)
  show ?case by (cases v rule: schema_of.cases) auto
qed (rule schema_of_scalar, simp)+

subsection \<open>Interfaces\<close>

record interface_schema =
  if_request :: phx_type
  if_response :: phx_type
  if_error :: phx_type

record interface_mismatch =
  im_request :: "schema_mismatch option"
  im_response :: "schema_mismatch option"
  im_error :: "schema_mismatch option"

datatype interface_compatibility =
  IfExact | IfCompatible | IfIncompatible interface_mismatch

definition interface_schema_new :: "phx_type \<Rightarrow> phx_type \<Rightarrow> interface_schema" where
  "interface_schema_new req resp = \<lparr>if_request = req, if_response = resp, if_error = TNever\<rparr>"

definition interface_schema_default :: interface_schema where
  "interface_schema_default = interface_schema_new TAny TAny"

definition mismatch_of :: "schema_compatibility \<Rightarrow> schema_mismatch option" where
  "mismatch_of c = (case c of Incompatible e \<Rightarrow> Some e | _ \<Rightarrow> None)"

definition accepts_provider :: "interface_schema \<Rightarrow> interface_schema \<Rightarrow> interface_compatibility" where
  "accepts_provider self provider =
     (let request = accepts (if_request provider) (if_request self);
          response = accepts (if_response self) (if_response provider);
          err = accepts (if_error self) (if_error provider)
      in if mismatch_of request \<noteq> None \<or> mismatch_of response \<noteq> None \<or> mismatch_of err \<noteq> None
         then IfIncompatible \<lparr>im_request = mismatch_of request, im_response = mismatch_of response,
           im_error = mismatch_of err\<rparr>
         else if request = Exact \<and> response = Exact \<and> err = Exact then IfExact
         else IfCompatible)"

lemma mismatch_of_None: "mismatch_of (accepts self provided) = None \<longleftrightarrow> subtype provided self"
  unfolding mismatch_of_def accepts_iff [symmetric] by (auto split: schema_compatibility.splits)

definition substitutable :: "interface_schema \<Rightarrow> interface_schema \<Rightarrow> bool" where
  "substitutable consumer provider \<longleftrightarrow>
     subtype (if_request consumer) (if_request provider) \<and>
     subtype (if_response provider) (if_response consumer) \<and>
     subtype (if_error provider) (if_error consumer)"

lemma accepts_provider_iff:
  "(\<forall>m. accepts_provider consumer provider \<noteq> IfIncompatible m) \<longleftrightarrow> substitutable consumer provider"
  unfolding accepts_provider_def Let_def mismatch_of_None substitutable_def by auto

lemma substitutable_refl: "substitutable i i"
  by (simp add: substitutable_def sub_refl)

lemma substitutable_trans:
  "substitutable a b \<Longrightarrow> substitutable b c \<Longrightarrow> substitutable a c"
  unfolding substitutable_def using subtype_trans by blast

subsection \<open>Properties\<close>

text \<open>C6: the schema checker accepts exactly the pairs related by the declarative subtype relation,
  whatever path it reports errors under.\<close>

theorem checker_decides_subtyping:
  "schema_compatible provided accepted path = Inr () \<longleftrightarrow> subtype provided accepted"
  by (rule schema_compatible_iff)

text \<open>compatibility composes: a schema that accepts a second one accepts everything the second one
  accepts, so a chain of compatible providers is compatible end to end.\<close>

lemma compatibility_is_transitive:
  assumes "\<forall>e. accepts a b \<noteq> Incompatible e" "\<forall>e. accepts b c \<noteq> Incompatible e"
  shows "accepts a c \<noteq> Incompatible e"
  using assms subtype_trans accepts_iff by metis

lemma sample_accepts:
  "accepts (TList TAny) (TArray TBool 2) = Compatible" "accepts TAny (TList TAny) = Compatible"
proof -
  have "subtype (TArray TBool 2) (TList TAny)" "subtype (TList TAny) TAny"
    by (auto intro: subtype.intros)
  then have "schema_compatible (TArray TBool 2) (TList TAny) [] = Inr ()"
    "schema_compatible (TList TAny) TAny [] = Inr ()"
    by (auto intro: subtype_imp_compatible)
  then show "accepts (TList TAny) (TArray TBool 2) = Compatible" "accepts TAny (TList TAny) = Compatible"
    by (simp_all add: accepts_def)
qed

lemma compatibility_is_transitive_witness:
  "accepts TAny (TArray TBool 2) \<noteq> Incompatible (mismatch_new [] [])"
  by (rule compatibility_is_transitive [of TAny "TList TAny"]) (simp_all add: sample_accepts)

text \<open>a provider accepted for a consumer's interface can be used in its place: every request the
  consumer may send is one the provider takes, and every response and error the provider may give
  is one the consumer takes.\<close>

lemma accepted_provider_is_substitutable:
  assumes "\<forall>m. accepts_provider consumer provider \<noteq> IfIncompatible m"
  shows "(conforms (if_request consumer) v \<longrightarrow> conforms (if_request provider) v) \<and>
    (conforms (if_response provider) v \<longrightarrow> conforms (if_response consumer) v) \<and>
    (conforms (if_error provider) v \<longrightarrow> conforms (if_error consumer) v)"
  using assms subtype_sound unfolding accepts_provider_iff substitutable_def by blast

definition sample_consumer :: interface_schema where
  "sample_consumer = interface_schema_new (TTable [(''a'', TU64)]) (TList TBool)"

definition sample_provider :: interface_schema where
  "sample_provider = interface_schema_new (TTable []) (TArray TBool 1)"

lemma sample_substitutable: "substitutable sample_consumer sample_provider"
  unfolding substitutable_def sample_consumer_def sample_provider_def interface_schema_new_def
  by (auto intro: subtype.intros)

lemma accepted_provider_is_substitutable_witness:
  "conforms (if_response sample_provider) (VList [VBool True]) \<and>
   conforms (if_response sample_consumer) (VList [VBool True])"
  using accepted_provider_is_substitutable [of sample_consumer sample_provider "VList [VBool True]"]
    sample_substitutable
  unfolding accepts_provider_iff
  by (simp add: sample_provider_def interface_schema_new_def)

text \<open>the schema inferred from a value satisfies a schema exactly when the value conforms to it; in
  particular a value that the strict check accepts satisfies the schema.\<close>

lemma inferred_schema_decides_conformance:
  assumes "value_ok v"
  shows "((\<forall>e. satisfies v t \<noteq> Incompatible e) \<longleftrightarrow> conforms t v) \<and>
    (parse t v = Inr () \<longrightarrow> (\<forall>e. satisfies v t \<noteq> Incompatible e))"
  using schema_of_conforms [OF assms] parse_conforms [of t v "()"] unfolding satisfies_def accepts_iff by blast

lemma inferred_schema_decides_conformance_witness:
  "\<forall>e. satisfies (VList [VOption None, VOption (Some (VBool True))]) (TList (TOption TBool)) \<noteq> Incompatible e"
  using inferred_schema_decides_conformance
    [of "VList [VOption None, VOption (Some (VBool True))]" "TList (TOption TBool)"] by simp

text \<open>on schemas of values, joining two schemas gives their least upper bound, so the element schema
  inferred for a list or map is the most precise one its elements share.\<close>

lemma join_is_least_upper_bound:
  assumes "value_schema a" "value_schema b"
  shows "subtype a (join_schema a b) \<and> subtype b (join_schema a b) \<and>
    (\<forall>t. subtype a t \<longrightarrow> subtype b t \<longrightarrow> subtype (join_schema a b) t)"
  using join_schema_lub [OF assms] sub_refl [of "join_schema a b"] unfolding is_join_def by blast

lemma join_is_least_upper_bound_witness:
  "subtype (TTable [(''a'', TBool), (''b'', TU64)])
     (join_schema (TTable [(''a'', TBool), (''b'', TU64)]) (TTable [(''a'', TString)]))"
  using join_is_least_upper_bound
    [of "TTable [(''a'', TBool), (''b'', TU64)]" "TTable [(''a'', TString)]"] by simp

end
