(* ===== verification/Capability.thy ===== *)
theory Capability
  imports Schema
begin

text \<open>
  Capability dispatch (\<open>phenix-core/src/capability.rs\<close>). The registry maps an (owner, generation,
  reference) key to a callable schema and a handler. A handler is a token \<open>'h\<close>; what running it
  does is the parameter \<open>run\<close>, which may change the registry itself, because the shared registry
  releases its lock before provider code runs.
\<close>

type_synonym capability_key = "capability_owner_id \<times> string \<times> string"

datatype capability_error =
  UnknownReference capability_ref
| StaleReference capability_ref
| DuplicateReference capability_ref
| SchemaMismatchError string
| ProviderFailed string
| CapCancelled
| CapDisconnected
| CapQueueFull

record 'h registered_capability =
  cap_schema :: phx_type
  cap_handler :: 'h

record 'h capability_registry =
  cap_entries :: "capability_key \<rightharpoonup> 'h registered_capability"
  cap_retired :: "(capability_owner_id \<times> string) set"

record invoke_input =
  inv_callable :: capability_ref
  inv_input :: phx_value

record 'h prepared_invocation =
  prep_schema :: phx_type
  prep_handler :: 'h
  prep_input :: phx_value

definition registry_default :: "'h capability_registry" where
  "registry_default = \<lparr>cap_entries = Map.empty, cap_retired = {}\<rparr>"

definition cap_key :: "capability_ref \<Rightarrow> capability_key" where
  "cap_key r = (ref_owner r, ref_generation r, ref_id r)"

definition owner_generation :: "capability_ref \<Rightarrow> capability_owner_id \<times> string" where
  "owner_generation r = (ref_owner r, ref_generation r)"

subsection \<open>Validation at the boundary\<close>

definition validate_invoke_input :: "invoke_input \<Rightarrow> phx_type \<Rightarrow> value_error + unit" where
  "validate_invoke_input i schema =
     (case schema of
        TCallable contract inp outp \<Rightarrow>
          if ref_contract (inv_callable i) \<noteq> contract then
            Inl (InvalidValue (''callable reference contract '' @ ref_contract (inv_callable i) @
              '' does not match schema contract '' @ contract))
          else parse inp (inv_input i)
      | _ \<Rightarrow> Inl (InvalidValue ''capability invocation requires a callable schema''))"

definition validate_invoke_output :: "phx_value \<Rightarrow> phx_type \<Rightarrow> value_error + unit" where
  "validate_invoke_output out schema =
     (case schema of
        TCallable contract inp outp \<Rightarrow> parse outp out
      | _ \<Rightarrow> Inl (InvalidValue ''capability invocation requires a callable schema''))"

subsection \<open>The registry\<close>

definition cap_register ::
    "capability_ref \<Rightarrow> phx_type \<Rightarrow> 'h \<Rightarrow> 'h capability_registry
     \<Rightarrow> capability_error + 'h capability_registry" where
  "cap_register r schema h reg =
     (case schema of
        TCallable contract inp outp \<Rightarrow>
          if ref_contract r \<noteq> contract then
            Inl (SchemaMismatchError (''reference contract '' @ ref_contract r @
              '' does not match schema contract '' @ contract))
          else if owner_generation r \<in> cap_retired reg then Inl (StaleReference r)
          else if cap_entries reg (cap_key r) \<noteq> None then Inl (DuplicateReference r)
          else Inr (reg\<lparr>cap_entries :=
            (cap_entries reg)(cap_key r \<mapsto> \<lparr>cap_schema = schema, cap_handler = h\<rparr>)\<rparr>)
      | _ \<Rightarrow> Inl (SchemaMismatchError ''registered capability schema is not callable''))"

definition cap_retire ::
    "capability_owner_id \<Rightarrow> string \<Rightarrow> 'h capability_registry \<Rightarrow> 'h capability_registry" where
  "cap_retire owner generation reg = reg\<lparr>
     cap_entries := (\<lambda>(o', g, i). if o' \<noteq> owner \<or> g \<noteq> generation then cap_entries reg (o', g, i) else None),
     cap_retired := insert (owner, generation) (cap_retired reg)\<rparr>"

definition cap_unregister ::
    "capability_ref \<Rightarrow> 'h capability_registry \<Rightarrow> bool \<times> 'h capability_registry" where
  "cap_unregister r reg =
     (if owner_generation r \<in> cap_retired reg then (False, reg)
      else (cap_entries reg (cap_key r) \<noteq> None,
            reg\<lparr>cap_entries := (cap_entries reg)(cap_key r := None)\<rparr>))"

definition cap_prepare ::
    "'h capability_registry \<Rightarrow> invoke_input \<Rightarrow> capability_error + 'h prepared_invocation" where
  "cap_prepare reg i =
     (let r = inv_callable i
      in if owner_generation r \<in> cap_retired reg then Inl (StaleReference r)
         else rbind (ok_or (UnknownReference r) (cap_entries reg (cap_key r))) (\<lambda>entry.
           rbind (map_err (\<lambda>e. SchemaMismatchError (show_value_error e))
               (validate_invoke_input i (cap_schema entry))) (\<lambda>_.
             Inr \<lparr>prep_schema = cap_schema entry, prep_handler = cap_handler entry,
               prep_input = inv_input i\<rparr>)))"

definition cap_schema_of ::
    "'h capability_registry \<Rightarrow> capability_ref \<Rightarrow> capability_error + phx_type" where
  "cap_schema_of reg r =
     (if owner_generation r \<in> cap_retired reg then Inl (StaleReference r)
      else ok_or (UnknownReference r) (map_option cap_schema (cap_entries reg (cap_key r))))"

text \<open>What running a handler does, on the state \<open>'w\<close> that provider code can reach.\<close>

type_synonym ('h, 'w) handler_run = "'h \<Rightarrow> phx_value \<Rightarrow> 'w \<Rightarrow> (capability_error + phx_value) \<times> 'w"

definition prepared_invoke ::
    "('h, 'w) handler_run \<Rightarrow> 'h prepared_invocation \<Rightarrow> 'w \<Rightarrow> (capability_error + phx_value) \<times> 'w" where
  "prepared_invoke run p w =
     (let (result, w') = run (prep_handler p) (prep_input p) w
      in (rbind result (\<lambda>out.
            rbind (map_err (\<lambda>e. SchemaMismatchError (show_value_error e))
                (validate_invoke_output out (prep_schema p))) (\<lambda>_. Inr out)), w'))"

text \<open>
  \<open>SharedCapabilityRegistry::invoke\<close>: the entry is resolved and validated under the lock; the
  handler runs on the registry itself, which it may change.
\<close>

definition shared_invoke ::
    "('h, 'h capability_registry) handler_run \<Rightarrow> invoke_input \<Rightarrow> 'h capability_registry
     \<Rightarrow> (capability_error + phx_value) \<times> 'h capability_registry" where
  "shared_invoke run i reg =
     (case cap_prepare reg i of
        Inl e \<Rightarrow> (Inl e, reg)
      | Inr p \<Rightarrow> prepared_invoke run p reg)"

subsection \<open>Histories\<close>

datatype 'h cap_op =
  OpRegister capability_ref phx_type 'h
| OpRetire capability_owner_id string
| OpUnregister capability_ref

fun cap_apply :: "'h cap_op \<Rightarrow> 'h capability_registry \<Rightarrow> 'h capability_registry" where
  "cap_apply (OpRegister r t h) reg = (case cap_register r t h reg of Inr reg' \<Rightarrow> reg' | Inl _ \<Rightarrow> reg)"
| "cap_apply (OpRetire ow g) reg = cap_retire ow g reg"
| "cap_apply (OpUnregister r) reg = snd (cap_unregister r reg)"

text \<open>No live entry belongs to a retired generation, and every live entry is callable.\<close>

definition cap_inv :: "'h capability_registry \<Rightarrow> bool" where
  "cap_inv reg \<longleftrightarrow>
     (\<forall>ow g i e. cap_entries reg (ow, g, i) = Some e \<longrightarrow>
        (ow, g) \<notin> cap_retired reg \<and> kind_of_type (cap_schema e) = KCallable)"

lemma cap_inv_default: "cap_inv registry_default"
  by (simp add: cap_inv_def registry_default_def)

lemma cap_inv_register: "cap_register r t h reg = Inr reg' \<Longrightarrow> cap_inv reg \<Longrightarrow> cap_inv reg'"
  by (auto simp: cap_register_def cap_inv_def cap_key_def owner_generation_def
      split: phx_type.splits if_splits)

lemma cap_inv_retire: "cap_inv reg \<Longrightarrow> cap_inv (cap_retire ow g reg)"
  by (auto simp: cap_inv_def cap_retire_def split: if_splits)

lemma cap_inv_unregister: "cap_inv reg \<Longrightarrow> cap_inv (snd (cap_unregister r reg))"
  by (auto simp: cap_inv_def cap_unregister_def split: if_splits)

lemma cap_inv_apply: "cap_inv reg \<Longrightarrow> cap_inv (cap_apply op reg)"
  by (cases op) (auto simp: cap_inv_retire cap_inv_unregister
      intro: cap_inv_register split: sum.splits)

lemma cap_retired_apply: "cap_retired reg \<subseteq> cap_retired (cap_apply op reg)"
  by (cases op)
    (auto simp: cap_register_def cap_retire_def cap_unregister_def split: phx_type.splits sum.splits if_splits)

lemma cap_retired_fold: "cap_retired reg \<subseteq> cap_retired (fold cap_apply ops reg)"
proof (induction ops arbitrary: reg)
  case (Cons op ops)
  from Cons.IH [of "cap_apply op reg"] cap_retired_apply [of reg op] show ?case by simp
qed simp

lemma cap_inv_fold: "cap_inv reg \<Longrightarrow> cap_inv (fold cap_apply ops reg)"
  by (induction ops arbitrary: reg) (auto intro: cap_inv_apply)

lemma retired_is_stale:
  assumes "owner_generation r \<in> cap_retired reg"
  shows "cap_prepare reg \<lparr>inv_callable = r, inv_input = v\<rparr> = Inl (StaleReference r)"
    "cap_schema_of reg r = Inl (StaleReference r)" "cap_unregister r reg = (False, reg)"
    "\<not> is_ok (cap_register r t h reg)"
  using assms
  by (auto simp: cap_prepare_def cap_schema_of_def cap_unregister_def cap_register_def is_ok_iff
      split: phx_type.splits)

lemma validate_input_ok:
  "validate_invoke_input i schema = Inr u \<longleftrightarrow>
     (\<exists>inp outp. schema = TCallable (ref_contract (inv_callable i)) inp outp \<and>
        parse inp (inv_input i) = Inr ())"
  by (cases schema) (auto simp: validate_invoke_input_def)

lemma validate_output_ok:
  "validate_invoke_output out schema = Inr u \<longleftrightarrow>
     (\<exists>c inp outp. schema = TCallable c inp outp \<and> parse outp out = Inr ())"
  by (cases schema) (auto simp: validate_invoke_output_def)

lemma prepare_ok:
  "cap_prepare reg i = Inr p \<longleftrightarrow>
     owner_generation (inv_callable i) \<notin> cap_retired reg \<and>
     (\<exists>e. cap_entries reg (cap_key (inv_callable i)) = Some e \<and>
        (\<exists>inp outp. cap_schema e = TCallable (ref_contract (inv_callable i)) inp outp \<and>
           parse inp (inv_input i) = Inr ()) \<and>
        p = \<lparr>prep_schema = cap_schema e, prep_handler = cap_handler e, prep_input = inv_input i\<rparr>)"
  by (auto simp: cap_prepare_def Let_def rbind_eq_Inr validate_input_ok)

lemma prepared_invoke_ok:
  "prepared_invoke run p w = (Inr out, w') \<longleftrightarrow>
     run (prep_handler p) (prep_input p) w = (Inr out, w') \<and>
     (\<exists>c inp outp. prep_schema p = TCallable c inp outp \<and> parse outp out = Inr ())"
  by (auto simp: prepared_invoke_def rbind_eq_Inr validate_output_ok split: prod.splits)

subsection \<open>Properties\<close>

text \<open>C7: once an owner generation is retired, no later history of registrations, retirements and
  removals makes any of its references usable again: invoking or looking it up reports a stale
  reference and registering it is refused.\<close>

theorem retired_generation_stays_stale:
  "let reg' = fold cap_apply ops (cap_retire ow g reg); r = CapabilityRef c ow g i
   in shared_invoke run \<lparr>inv_callable = r, inv_input = v\<rparr> reg' = (Inl (StaleReference r), reg') \<and>
      cap_schema_of reg' r = Inl (StaleReference r) \<and>
      \<not> is_ok (cap_register r t h reg')"
proof -
  let ?reg = "fold cap_apply ops (cap_retire ow g reg)" and ?r = "CapabilityRef c ow g i"
  have "(ow, g) \<in> cap_retired (cap_retire ow g reg)" by (simp add: cap_retire_def)
  then have "owner_generation ?r \<in> cap_retired ?reg"
    using cap_retired_fold by (auto simp: owner_generation_def)
  from retired_is_stale [OF this] show ?thesis
    by (simp add: Let_def shared_invoke_def)
qed

text \<open>a successful invocation ran the handler registered under the reference, on an input that
  parses under the callable's input schema, and the value released to the caller parses under its
  output schema, whatever the handler does to the registry.\<close>

lemma invocation_is_checked_on_both_sides:
  assumes "shared_invoke run i reg = (Inr out, reg')"
  shows "\<exists>e inp outp. cap_entries reg (cap_key (inv_callable i)) = Some e \<and>
    cap_schema e = TCallable (ref_contract (inv_callable i)) inp outp \<and>
    parse inp (inv_input i) = Inr () \<and> parse outp out = Inr () \<and>
    run (cap_handler e) (inv_input i) reg = (Inr out, reg') \<and>
    owner_generation (inv_callable i) \<notin> cap_retired reg"
  using assms
  by (auto simp: shared_invoke_def prepare_ok prepared_invoke_ok split: sum.splits)

definition sample_ref :: capability_ref where
  "sample_ref = CapabilityRef ''c@1'' (OwnerPlugin ''p'') ''g1'' ''r1''"

definition sample_registry :: "nat capability_registry" where
  "sample_registry = cap_apply (OpRegister sample_ref (TCallable ''c@1'' TU64 TBool) 7) registry_default"

text \<open>A handler that retires its own generation while it runs.\<close>

definition sample_run :: "(nat, nat capability_registry) handler_run" where
  "sample_run h v reg = (Inr (VBool (h = 7)), cap_retire (OwnerPlugin ''p'') ''g1'' reg)"

lemmas sample_registry_defs = sample_registry_def sample_ref_def cap_register_def registry_default_def
  owner_generation_def cap_key_def

theorem invocation_is_checked_witness:
  "\<exists>e inp outp. cap_entries sample_registry (cap_key sample_ref) = Some e \<and>
     cap_schema e = TCallable ''c@1'' inp outp \<and> parse inp (VU64 3) = Inr () \<and>
     parse outp (VBool True) = Inr () \<and>
     sample_run (cap_handler e) (VU64 3) sample_registry =
       (Inr (VBool True), cap_retire (OwnerPlugin ''p'') ''g1'' sample_registry) \<and>
     owner_generation sample_ref \<notin> cap_retired sample_registry"
proof -
  have "shared_invoke sample_run \<lparr>inv_callable = sample_ref, inv_input = VU64 3\<rparr> sample_registry =
      (Inr (VBool True), cap_retire (OwnerPlugin ''p'') ''g1'' sample_registry)"
    by (simp add: shared_invoke_def cap_prepare_def Let_def prepared_invoke_def sample_run_def
        validate_invoke_input_def validate_invoke_output_def sample_registry_defs)
  from invocation_is_checked_on_both_sides [OF this] show ?thesis
    by (simp add: sample_ref_def)
qed

text \<open>In every reachable registry no live entry belongs to a retired generation and every entry
  has a callable schema.\<close>

lemma capability_registry_invariant: "cap_inv (fold cap_apply ops registry_default)"
  by (rule cap_inv_fold) (rule cap_inv_default)

end
