(* ===== verification/Authority.thy ===== *)
theory Authority
  imports Identity
begin

text \<open>
  Authority (\<open>phenix-core/src/authority.rs\<close>): a set of capability identifiers. \<open>attenuate\<close> is
  the only operation that derives an authority from another one; the locale \<open>attenuation\<close> states
  the law the component graph, the service chains, the event bus and the task runtime rely on,
  and proves once what any chain of attenuations preserves.
\<close>

type_synonym authority = "capability_id set"

definition authority_new :: "capability_id list \<Rightarrow> authority" where
  "authority_new cs = set cs"

definition permits :: "authority \<Rightarrow> capability_id \<Rightarrow> bool" where
  "permits a c = (c \<in> a)"

definition permits_all :: "authority \<Rightarrow> authority \<Rightarrow> bool" where
  "permits_all a required = (\<forall>c\<in>required. permits a c)"

definition attenuate :: "authority \<Rightarrow> authority \<Rightarrow> authority" where
  "attenuate a requested = a \<inter> requested"

definition capabilities :: "authority \<Rightarrow> capability_id list" where
  "capabilities a = sorted_list_of_set a"

text \<open>Anything that can be narrowed by a request and asked for single rights.\<close>

locale attenuation =
  fixes att :: "'a \<Rightarrow> 'a \<Rightarrow> 'a"
    and may :: "'a \<Rightarrow> 'c \<Rightarrow> bool"
    and may_all :: "'a \<Rightarrow> 'a \<Rightarrow> bool"
  assumes may_att: "may (att a b) c \<longleftrightarrow> may a c \<and> may b c"
    and may_all_def: "may_all a b \<longleftrightarrow> (\<forall>c. may b c \<longrightarrow> may a c)"
begin

lemma chain_may: "may (foldl att root requests) c \<longleftrightarrow> may root c \<and> (\<forall>r\<in>set requests. may r c)"
  by (induction requests arbitrary: root) (auto simp: may_att)

lemma chain_bounded: "may_all root (foldl att root requests)"
  by (simp add: may_all_def chain_may)

lemma chain_bounded_by_request: "r \<in> set requests \<Longrightarrow> may_all r (foldl att root requests)"
  by (simp add: may_all_def chain_may)

lemma chain_permits_all:
  "may_all (foldl att root requests) need \<longleftrightarrow>
     may_all root need \<and> (\<forall>r\<in>set requests. may_all r need)"
  by (auto simp: may_all_def chain_may)

lemma may_all_refl: "may_all a a"
  by (simp add: may_all_def)

lemma may_all_trans: "may_all a b \<Longrightarrow> may_all b c \<Longrightarrow> may_all a c"
  by (simp add: may_all_def)

end

interpretation auth: attenuation attenuate permits permits_all
  by unfold_locales (auto simp: attenuate_def permits_def permits_all_def)

lemma permits_all_subset: "permits_all a r \<longleftrightarrow> r \<subseteq> a"
  by (auto simp: permits_all_def permits_def)

lemma attenuate_le [simp]: "attenuate a r \<subseteq> a" "attenuate a r \<subseteq> r"
  by (auto simp: attenuate_def)

lemma attenuate_mono: "a \<subseteq> b \<Longrightarrow> r \<subseteq> s \<Longrightarrow> attenuate a r \<subseteq> attenuate b s"
  by (auto simp: attenuate_def)

subsection \<open>Chains of delegation\<close>

text \<open>However often an authority is narrowed, the result permits exactly what the root and every
  request on the way permit, so delegation can neither add a right nor regain one.\<close>

lemma delegation_never_regains_authority:
  "permits (foldl attenuate root requests) c \<longleftrightarrow> permits root c \<and> list_all (\<lambda>r. permits r c) requests"
  by (simp add: auth.chain_may list_all_iff)

end
