(* ===== verification/Persistence.thy ===== *)
theory Persistence
  imports Identity
begin

text \<open>
  Durable namespaces (\<open>phenix-core/src/persistence.rs\<close>: \<open>LocalPersistence\<close>). The two SQL tables
  are maps keyed by their primary keys; a statement is a function on them. Whether the engine
  executes a statement or reports an error is the parameter \<open>fault\<close>, asked with the number of
  statements issued so far, so that every theorem holds for a failure at any point. A transaction
  that is dropped without a commit restores the tables (the engine's documented rollback).
\<close>

datatype backend_feature =
  Transactions | UniqueKeys | ForeignKeys | OrderedAppend | IndexedRange | Migrations

type_synonym blob = "nat list"

record durable_schema =
  ds_namespace :: resource_namespace
  ds_version :: nat
  ds_features :: "backend_feature list"

datatype transaction_op =
  OpPut string blob
| OpDelete string
| OpAssert string "blob option"

record namespace_transaction =
  nt_owner :: plugin_id
  nt_namespace :: resource_namespace
  nt_operations :: "transaction_op list"

record schema_migration =
  mig_from :: nat
  mig_to :: nat
  mig_operations :: "transaction_op list"

datatype persistence_error =
  Sql
| NamespaceCollision resource_namespace plugin_id
| IncompatibleSchema resource_namespace nat nat
| MissingMigration resource_namespace nat nat
| UnsupportedFeature resource_namespace backend_feature
| UnregisteredNamespace resource_namespace
| WrongNamespaceOwner resource_namespace plugin_id plugin_id
| AssertionFailed resource_namespace string

record database =
  db_schemas :: "resource_namespace \<rightharpoonup> plugin_id \<times> nat"
  db_records :: "resource_namespace \<times> string \<rightharpoonup> blob"
  db_clock :: nat

type_synonym fault = "nat \<Rightarrow> bool"
type_synonym 'a sql = "database \<Rightarrow> (persistence_error + 'a) \<times> database"

definition sql_bind :: "'a sql \<Rightarrow> ('a \<Rightarrow> 'b sql) \<Rightarrow> 'b sql" where
  "sql_bind m f d = (case m d of (Inl e, d') \<Rightarrow> (Inl e, d') | (Inr x, d') \<Rightarrow> f x d')"

definition sql_return :: "(persistence_error + 'a) \<Rightarrow> 'a sql" where
  "sql_return r d = (r, d)"

definition statement :: "fault \<Rightarrow> (database \<Rightarrow> (persistence_error + 'a) \<times> database) \<Rightarrow> 'a sql" where
  "statement fault f d =
     (if fault (db_clock d) then (Inl Sql, d\<lparr>db_clock := Suc (db_clock d)\<rparr>)
      else f (d\<lparr>db_clock := Suc (db_clock d)\<rparr>))"

fun sql_each :: "('a \<Rightarrow> unit sql) \<Rightarrow> 'a list \<Rightarrow> unit sql" where
  "sql_each f [] = sql_return (Inr ())"
| "sql_each f (x # xs) = sql_bind (f x) (\<lambda>_. sql_each f xs)"

definition rollback :: "database \<Rightarrow> database \<Rightarrow> database" where
  "rollback start d = d\<lparr>db_schemas := db_schemas start, db_records := db_records start\<rparr>"

definition in_transaction :: "fault \<Rightarrow> unit sql \<Rightarrow> unit sql" where
  "in_transaction fault body d =
     (case statement fault (\<lambda>d. (Inr (), d)) d of
        (Inl e, d1) \<Rightarrow> (Inl e, d1)
      | (Inr _, d1) \<Rightarrow>
          (case body d1 of
             (Inl e, d2) \<Rightarrow> (Inl e, rollback d1 d2)
           | (Inr _, d2) \<Rightarrow>
               (case statement fault (\<lambda>d. (Inr (), d)) d2 of
                  (Inl e, d3) \<Rightarrow> (Inl e, rollback d1 d3)
                | (Inr _, d3) \<Rightarrow> (Inr (), d3))))"

subsection \<open>The operations\<close>

definition supported_features :: "backend_feature list" where
  "supported_features = [Transactions, UniqueKeys, Migrations]"

definition require_features :: "durable_schema \<Rightarrow> persistence_error + unit" where
  "require_features schema =
     (case find (\<lambda>f. f \<notin> set supported_features) (ds_features schema) of
        Some f \<Rightarrow> Inl (UnsupportedFeature (ds_namespace schema) f)
      | None \<Rightarrow> Inr ())"

definition stored_owner_and_version ::
    "fault \<Rightarrow> resource_namespace \<Rightarrow> (plugin_id \<times> nat) option sql" where
  "stored_owner_and_version fault ns = statement fault (\<lambda>d. (Inr (db_schemas d ns), d))"

definition require_owner :: "fault \<Rightarrow> plugin_id \<Rightarrow> resource_namespace \<Rightarrow> unit sql" where
  "require_owner fault caller ns =
     sql_bind (statement fault (\<lambda>d. (Inr (map_option fst (db_schemas d ns)), d))) (\<lambda>row.
       sql_return (case row of
         None \<Rightarrow> Inl (UnregisteredNamespace ns)
       | Some owner \<Rightarrow> if owner = caller then Inr () else Inl (WrongNamespaceOwner ns owner caller)))"

definition register_schema :: "fault \<Rightarrow> plugin_id \<Rightarrow> durable_schema \<Rightarrow> unit sql" where
  "register_schema fault owner schema =
     sql_bind (sql_return (require_features schema)) (\<lambda>_.
     sql_bind (stored_owner_and_version fault (ds_namespace schema)) (\<lambda>row.
       case row of
         None \<Rightarrow> statement fault (\<lambda>d.
           if ds_version schema = 0 then (Inl Sql, d)
           else (Inr (), d\<lparr>db_schemas :=
             (db_schemas d)(ds_namespace schema \<mapsto> (owner, ds_version schema))\<rparr>))
       | Some (stored, version) \<Rightarrow> sql_return
           (if stored \<noteq> owner then Inl (NamespaceCollision (ds_namespace schema) stored)
            else if version \<noteq> ds_version schema
              then Inl (IncompatibleSchema (ds_namespace schema) version (ds_version schema))
            else Inr ())))"

definition apply_operation :: "fault \<Rightarrow> resource_namespace \<Rightarrow> transaction_op \<Rightarrow> unit sql" where
  "apply_operation fault ns op =
     (case op of
        OpPut key v \<Rightarrow> statement fault (\<lambda>d.
          if db_schemas d ns = None then (Inl Sql, d)
          else (Inr (), d\<lparr>db_records := (db_records d)((ns, key) \<mapsto> v)\<rparr>))
      | OpDelete key \<Rightarrow> statement fault (\<lambda>d.
          (Inr (), d\<lparr>db_records := (db_records d)((ns, key) := None)\<rparr>))
      | OpAssert key expected \<Rightarrow>
          sql_bind (statement fault (\<lambda>d. (Inr (db_records d (ns, key)), d))) (\<lambda>actual.
            sql_return (if actual \<noteq> expected then Inl (AssertionFailed ns key) else Inr ())))"

definition apply_operations :: "fault \<Rightarrow> resource_namespace \<Rightarrow> transaction_op list \<Rightarrow> unit sql" where
  "apply_operations fault ns ops = sql_each (apply_operation fault ns) ops"

function migration_plan ::
    "durable_schema \<Rightarrow> schema_migration list \<Rightarrow> nat \<Rightarrow> persistence_error + schema_migration list" where
  "migration_plan schema migrations current =
     (if current < ds_version schema then
        (case find (\<lambda>m. mig_from m = current \<and> mig_to m = current + 1) migrations of
           None \<Rightarrow> Inl (MissingMigration (ds_namespace schema) current (current + 1))
         | Some m \<Rightarrow> rbind (migration_plan schema migrations (current + 1)) (\<lambda>rest. Inr (m # rest)))
      else Inr [])"
  by pat_completeness auto
termination
  by (relation "measure (\<lambda>(schema, migrations, current). ds_version schema - current)") auto

declare migration_plan.simps [simp del]

definition migrate_schema ::
    "fault \<Rightarrow> plugin_id \<Rightarrow> durable_schema \<Rightarrow> schema_migration list \<Rightarrow> unit sql" where
  "migrate_schema fault owner schema migrations =
     sql_bind (sql_return (require_features schema)) (\<lambda>_.
     sql_bind (stored_owner_and_version fault (ds_namespace schema)) (\<lambda>row.
       case row of
         None \<Rightarrow> sql_return (Inl (UnregisteredNamespace (ds_namespace schema)))
       | Some (stored_owner, stored_version) \<Rightarrow>
           if stored_owner \<noteq> owner then
             sql_return (Inl (WrongNamespaceOwner (ds_namespace schema) stored_owner owner))
           else if stored_version > ds_version schema then
             sql_return (Inl (IncompatibleSchema (ds_namespace schema) stored_version (ds_version schema)))
           else if stored_version = ds_version schema then sql_return (Inr ())
           else sql_bind (sql_return (migration_plan schema migrations stored_version)) (\<lambda>plan.
             in_transaction fault (sql_bind
               (sql_each (\<lambda>m. apply_operations fault (ds_namespace schema) (mig_operations m)) plan)
               (\<lambda>_. statement fault (\<lambda>d. (Inr (), d\<lparr>db_schemas := (db_schemas d)(ds_namespace schema :=
                  map_option (\<lambda>(ow, v). (ow, ds_version schema)) (db_schemas d (ds_namespace schema)))\<rparr>)))))))"

definition db_read :: "fault \<Rightarrow> plugin_id \<Rightarrow> resource_namespace \<Rightarrow> string \<Rightarrow> blob option sql" where
  "db_read fault caller ns key =
     sql_bind (require_owner fault caller ns) (\<lambda>_.
       statement fault (\<lambda>d. (Inr (db_records d (ns, key)), d)))"

definition transact_many :: "fault \<Rightarrow> namespace_transaction list \<Rightarrow> unit sql" where
  "transact_many fault txs =
     sql_bind (sql_each (\<lambda>t. require_owner fault (nt_owner t) (nt_namespace t)) txs) (\<lambda>_.
       in_transaction fault
         (sql_each (\<lambda>t. apply_operations fault (nt_namespace t) (nt_operations t)) txs))"

definition transact ::
    "fault \<Rightarrow> plugin_id \<Rightarrow> resource_namespace \<Rightarrow> transaction_op list \<Rightarrow> unit sql" where
  "transact fault caller ns ops =
     transact_many fault [\<lparr>nt_owner = caller, nt_namespace = ns, nt_operations = ops\<rparr>]"


subsection \<open>Reading the monad\<close>

type_synonym tables =
  "(resource_namespace \<rightharpoonup> plugin_id \<times> nat) \<times> (resource_namespace \<times> string \<rightharpoonup> blob)"

definition tables :: "database \<Rightarrow> tables" where
  "tables d = (db_schemas d, db_records d)"

lemma tables_eq: "tables d = tables d' \<longleftrightarrow> db_schemas d = db_schemas d' \<and> db_records d = db_records d'"
  by (simp add: tables_def)

lemma sql_bind_Inr:
  "sql_bind m f d = (Inr y, d2) \<longleftrightarrow> (\<exists>x d1. m d = (Inr x, d1) \<and> f x d1 = (Inr y, d2))"
  by (auto simp: sql_bind_def split: prod.splits sum.splits)

lemma sql_bind_Inl:
  "sql_bind m f d = (Inl e, d2) \<longleftrightarrow>
     m d = (Inl e, d2) \<or> (\<exists>x d1. m d = (Inr x, d1) \<and> f x d1 = (Inl e, d2))"
  by (auto simp: sql_bind_def split: prod.splits sum.splits)

lemma sql_return_iff [simp]: "sql_return r d = (r', d') \<longleftrightarrow> r' = r \<and> d' = d"
  by (auto simp: sql_return_def)

lemma tables_clock [simp]: "tables (d\<lparr>db_clock := n\<rparr>) = tables d"
  by (simp add: tables_def)

lemma tables_rollback [simp]: "tables (rollback d0 d) = tables d0"
  by (simp add: tables_def rollback_def)

lemma statement_Inr:
  "statement fault f d = (Inr x, d') \<longleftrightarrow>
     \<not> fault (db_clock d) \<and> f (d\<lparr>db_clock := Suc (db_clock d)\<rparr>) = (Inr x, d')"
  by (auto simp: statement_def)

text \<open>A query leaves the tables alone.\<close>

lemma query_tables:
  "statement fault (\<lambda>d. (g d, d)) d = (r, d') \<Longrightarrow> tables d' = tables d"
  by (auto simp: statement_def split: if_splits)

lemma require_owner_tables: "require_owner fault caller ns d = (r, d') \<Longrightarrow> tables d' = tables d"
  by (cases r) (auto simp: require_owner_def sql_bind_Inl sql_bind_Inr dest!: query_tables)

lemma require_owner_ok:
  "require_owner fault caller ns d = (Inr u, d') \<Longrightarrow> \<exists>v. db_schemas d ns = Some (caller, v)"
  by (auto simp: require_owner_def sql_bind_Inr statement_Inr split: option.splits if_splits)

lemma sql_each_owner:
  "sql_each (\<lambda>t. require_owner fault (nt_owner t) (nt_namespace t)) txs d = (r, d') \<Longrightarrow>
     tables d' = tables d \<and>
     (r = Inr () \<longrightarrow> (\<forall>t\<in>set txs. \<exists>v. db_schemas d (nt_namespace t) = Some (nt_owner t, v)))"
proof (induction txs arbitrary: d)
  case (Cons t txs)
  show ?case
  proof (cases "require_owner fault (nt_owner t) (nt_namespace t) d")
    case (Pair r1 d1)
    note eq = require_owner_tables [OF Pair]
    show ?thesis
    proof (cases r1)
      case (Inl e)
      with Cons.prems Pair eq show ?thesis by (auto simp: sql_bind_def)
    next
      case (Inr u)
      with Cons.prems Pair have "sql_each (\<lambda>t. require_owner fault (nt_owner t) (nt_namespace t)) txs d1 = (r, d')"
        by (simp add: sql_bind_def)
      from Cons.IH [OF this] eq require_owner_ok [of fault "nt_owner t" "nt_namespace t" d u d1] Pair Inr
      show ?thesis by (auto simp: tables_eq)
    qed
  qed
qed simp

lemma in_transaction_cases:
  assumes "in_transaction fault body d = (r, d')"
  shows "(\<exists>e. r = Inl e \<and> tables d' = tables d) \<or>
    (r = Inr () \<and> (\<exists>d1 d2. tables d1 = tables d \<and> body d1 = (Inr (), d2) \<and> tables d' = tables d2))"
proof (cases "statement fault (\<lambda>d. (Inr (), d)) d")
  case (Pair r1 d1)
  note t1 = query_tables [OF Pair]
  show ?thesis
  proof (cases r1)
    case (Inl e)
    with assms Pair t1 show ?thesis by (auto simp: in_transaction_def)
  next
    case (Inr u)
    obtain r2 d2 where b: "body d1 = (r2, d2)" by fastforce
    obtain r3 d3 where c: "statement fault (\<lambda>d. (Inr (), d)) d2 = (r3, d3)" by fastforce
    note t3 = query_tables [OF c]
    show ?thesis
      by (cases r2; cases r3) (use assms Pair Inr b c t1 t3 in \<open>auto simp: in_transaction_def\<close>)
  qed
qed

subsection \<open>The specification of a transaction\<close>

fun op_effect ::
    "resource_namespace \<Rightarrow> transaction_op \<Rightarrow> (resource_namespace \<times> string \<rightharpoonup> blob)
     \<Rightarrow> (resource_namespace \<times> string \<rightharpoonup> blob) option" where
  "op_effect ns (OpPut key v) R = Some (R((ns, key) \<mapsto> v))"
| "op_effect ns (OpDelete key) R = Some (R((ns, key) := None))"
| "op_effect ns (OpAssert key expected) R = (if R (ns, key) = expected then Some R else None)"

fun ops_effect ::
    "resource_namespace \<Rightarrow> transaction_op list \<Rightarrow> (resource_namespace \<times> string \<rightharpoonup> blob)
     \<Rightarrow> (resource_namespace \<times> string \<rightharpoonup> blob) option" where
  "ops_effect ns [] R = Some R"
| "ops_effect ns (op # ops) R = Option.bind (op_effect ns op R) (ops_effect ns ops)"

fun batch_effect ::
    "(resource_namespace \<times> transaction_op list) list \<Rightarrow> (resource_namespace \<times> string \<rightharpoonup> blob)
     \<Rightarrow> (resource_namespace \<times> string \<rightharpoonup> blob) option" where
  "batch_effect [] R = Some R"
| "batch_effect ((ns, ops) # rest) R = Option.bind (ops_effect ns ops R) (batch_effect rest)"

lemma ops_effect_other:
  "ops_effect ns ops R = Some R' \<Longrightarrow> ns' \<noteq> ns \<Longrightarrow> R' (ns', k) = R (ns', k)"
proof (induction ops arbitrary: R)
  case (Cons op ops)
  then obtain R1 where R1: "op_effect ns op R = Some R1" "ops_effect ns ops R1 = Some R'"
    by (auto simp: bind_eq_Some_conv)
  from R1(1) Cons.prems(2) have "R1 (ns', k) = R (ns', k)"
    by (cases op) (auto split: if_splits)
  with Cons.IH [OF R1(2) Cons.prems(2)] show ?case by simp
qed simp

lemma batch_effect_other:
  "batch_effect batch R = Some R' \<Longrightarrow> ns' \<notin> fst ` set batch \<Longrightarrow> R' (ns', k) = R (ns', k)"
proof (induction batch arbitrary: R)
  case (Cons b batch)
  obtain ns ops where b: "b = (ns, ops)" by (cases b)
  with Cons.prems(1) obtain R1 where R1: "ops_effect ns ops R = Some R1" "batch_effect batch R1 = Some R'"
    by (auto simp: bind_eq_Some_conv)
  from Cons.IH [OF R1(2)] ops_effect_other [OF R1(1)] Cons.prems(2) b show ?case by auto
qed simp

lemma apply_operation_ok:
  "apply_operation fault ns op d = (Inr u, d') \<Longrightarrow>
     db_schemas d' = db_schemas d \<and> op_effect ns op (db_records d) = Some (db_records d')"
  by (cases op) (auto simp: apply_operation_def statement_Inr sql_bind_Inr split: if_splits)

lemma apply_operations_ok:
  "apply_operations fault ns ops d = (Inr u, d') \<Longrightarrow>
     db_schemas d' = db_schemas d \<and> ops_effect ns ops (db_records d) = Some (db_records d')"
proof (induction ops arbitrary: d)
  case (Cons op ops)
  then obtain x d1 where "apply_operation fault ns op d = (Inr x, d1)"
    "apply_operations fault ns ops d1 = (Inr u, d')"
    by (auto simp: apply_operations_def sql_bind_Inr)
  with apply_operation_ok Cons.IH show ?case by fastforce
qed (simp add: apply_operations_def)

lemma sql_each_batch_ok:
  "sql_each (\<lambda>b. apply_operations fault (ns b) (ops b)) bs d = (Inr u, d') \<Longrightarrow>
     db_schemas d' = db_schemas d \<and>
     batch_effect (map (\<lambda>b. (ns b, ops b)) bs) (db_records d) = Some (db_records d')"
proof (induction bs arbitrary: d)
  case (Cons b bs)
  then obtain x d1 where "apply_operations fault (ns b) (ops b) d = (Inr x, d1)"
    "sql_each (\<lambda>b. apply_operations fault (ns b) (ops b)) bs d1 = (Inr u, d')"
    by (auto simp: sql_bind_Inr)
  with apply_operations_ok Cons.IH show ?case by fastforce
qed simp


subsection \<open>Without faults the specification is met exactly\<close>

abbreviation no_fault :: fault where "no_fault \<equiv> (\<lambda>_. False)"

lemma statement_no_fault: "statement no_fault f d = f (d\<lparr>db_clock := Suc (db_clock d)\<rparr>)"
  by (simp add: statement_def)

lemma apply_operation_run:
  assumes "db_schemas d ns \<noteq> None" "op_effect ns op (db_records d) = Some R"
  shows "apply_operation no_fault ns op d =
    (Inr (), d\<lparr>db_records := R, db_clock := Suc (db_clock d)\<rparr>)"
  using assms
  by (cases op) (auto simp: apply_operation_def statement_no_fault sql_bind_def sql_return_def split: if_splits)

lemma apply_operations_run:
  "db_schemas d ns \<noteq> None \<Longrightarrow> ops_effect ns ops (db_records d) = Some R \<Longrightarrow>
     \<exists>n. apply_operations no_fault ns ops d = (Inr (), d\<lparr>db_records := R, db_clock := n\<rparr>)"
proof (induction ops arbitrary: d)
  case Nil
  then show ?case by (auto simp: apply_operations_def sql_return_def intro: exI [of _ "db_clock d"])
next
  case (Cons op ops)
  from Cons.prems obtain R1 where R1: "op_effect ns op (db_records d) = Some R1"
    "ops_effect ns ops R1 = Some R" by (auto simp: bind_eq_Some_conv)
  let ?d = "d\<lparr>db_records := R1, db_clock := Suc (db_clock d)\<rparr>"
  have "\<exists>n. apply_operations no_fault ns ops ?d = (Inr (), ?d\<lparr>db_records := R, db_clock := n\<rparr>)"
    by (rule Cons.IH) (use Cons.prems R1 in simp_all)
  then show ?case
    by (auto simp: apply_operations_def sql_bind_def apply_operation_run [OF Cons.prems(1) R1(1)])
qed

lemma sql_each_batch_run:
  "\<forall>b\<in>set bs. db_schemas d (ns b) \<noteq> None \<Longrightarrow>
     batch_effect (map (\<lambda>b. (ns b, ops b)) bs) (db_records d) = Some R \<Longrightarrow>
     \<exists>n. sql_each (\<lambda>b. apply_operations no_fault (ns b) (ops b)) bs d =
       (Inr (), d\<lparr>db_records := R, db_clock := n\<rparr>)"
proof (induction bs arbitrary: d)
  case Nil
  then show ?case by (auto simp: sql_return_def intro: exI [of _ "db_clock d"])
next
  case (Cons b bs)
  from Cons.prems(2) obtain R1 where R1: "ops_effect (ns b) (ops b) (db_records d) = Some R1"
    "batch_effect (map (\<lambda>b. (ns b, ops b)) bs) R1 = Some R" by (auto simp: bind_eq_Some_conv)
  from Cons.prems(1) apply_operations_run [OF _ R1(1)] obtain n where
    n: "apply_operations no_fault (ns b) (ops b) d = (Inr (), d\<lparr>db_records := R1, db_clock := n\<rparr>)"
    by auto
  have "\<exists>m. sql_each (\<lambda>b. apply_operations no_fault (ns b) (ops b)) bs (d\<lparr>db_records := R1, db_clock := n\<rparr>) =
      (Inr (), (d\<lparr>db_records := R1, db_clock := n\<rparr>)\<lparr>db_records := R, db_clock := m\<rparr>)"
    by (rule Cons.IH) (use Cons.prems R1 in simp_all)
  then show ?case by (auto simp: sql_bind_def n)
qed

lemma in_transaction_run:
  assumes "\<And>n. \<exists>m. body (d\<lparr>db_clock := n\<rparr>) = (Inr (), d'\<lparr>db_clock := m\<rparr>)"
  shows "\<exists>n. in_transaction no_fault body d = (Inr (), d'\<lparr>db_clock := n\<rparr>)"
proof -
  obtain m where "body (d\<lparr>db_clock := Suc (db_clock d)\<rparr>) = (Inr (), d'\<lparr>db_clock := m\<rparr>)"
    using assms by blast
  then have "in_transaction no_fault body d = (Inr (), d'\<lparr>db_clock := Suc m\<rparr>)"
    by (simp add: in_transaction_def statement_no_fault)
  then show ?thesis by blast
qed

lemma require_owner_run:
  "db_schemas d ns = Some (caller, v) \<Longrightarrow>
     require_owner no_fault caller ns d = (Inr (), d\<lparr>db_clock := Suc (db_clock d)\<rparr>)"
  by (simp add: require_owner_def sql_bind_def statement_no_fault sql_return_def)

lemma sql_each_owner_run:
  "\<forall>t\<in>set txs. \<exists>v. db_schemas d (nt_namespace t) = Some (nt_owner t, v) \<Longrightarrow>
     \<exists>n. sql_each (\<lambda>t. require_owner no_fault (nt_owner t) (nt_namespace t)) txs d =
       (Inr (), d\<lparr>db_clock := n\<rparr>)"
proof (induction txs arbitrary: d)
  case Nil
  then show ?case by (auto simp: sql_return_def intro: exI [of _ "db_clock d"])
next
  case (Cons t txs)
  then obtain v where v: "db_schemas d (nt_namespace t) = Some (nt_owner t, v)" by auto
  from Cons.IH [of "d\<lparr>db_clock := Suc (db_clock d)\<rparr>"] Cons.prems show ?case
    by (simp add: sql_bind_def require_owner_run [OF v])
qed

definition batch_of :: "namespace_transaction list \<Rightarrow> (resource_namespace \<times> transaction_op list) list" where
  "batch_of txs = map (\<lambda>t. (nt_namespace t, nt_operations t)) txs"

definition owns_all :: "namespace_transaction list \<Rightarrow> database \<Rightarrow> bool" where
  "owns_all txs d \<longleftrightarrow> (\<forall>t\<in>set txs. \<exists>v. db_schemas d (nt_namespace t) = Some (nt_owner t, v))"

lemma transact_many_cases:
  assumes "transact_many fault txs d = (r, d')"
  shows "(\<exists>e. r = Inl e \<and> tables d' = tables d) \<or>
    (r = Inr () \<and> owns_all txs d \<and> db_schemas d' = db_schemas d \<and>
       batch_effect (batch_of txs) (db_records d) = Some (db_records d'))"
proof -
  obtain r1 d1 where o1: "sql_each (\<lambda>t. require_owner fault (nt_owner t) (nt_namespace t)) txs d = (r1, d1)"
    by fastforce
  note o2 = sql_each_owner [OF o1]
  show ?thesis
  proof (cases r1)
    case (Inl e)
    with assms o1 o2 show ?thesis by (auto simp: transact_many_def sql_bind_def)
  next
    case (Inr u)
    with assms o1 have "in_transaction fault
        (sql_each (\<lambda>t. apply_operations fault (nt_namespace t) (nt_operations t)) txs) d1 = (r, d')"
      by (simp add: transact_many_def sql_bind_def)
    from in_transaction_cases [OF this] o2 Inr show ?thesis
      by (auto simp: tables_eq owns_all_def batch_of_def dest!: sql_each_batch_ok)
  qed
qed

lemma transact_many_run:
  assumes "owns_all txs d" "batch_effect (batch_of txs) (db_records d) = Some R"
  shows "\<exists>n. transact_many no_fault txs d = (Inr (), d\<lparr>db_records := R, db_clock := n\<rparr>)"
proof -
  from assms(1) obtain k where
    k: "sql_each (\<lambda>t. require_owner no_fault (nt_owner t) (nt_namespace t)) txs d =
      (Inr (), d\<lparr>db_clock := k\<rparr>)"
    using sql_each_owner_run [of txs d] by (auto simp: owns_all_def)
  let ?body = "sql_each (\<lambda>t. apply_operations no_fault (nt_namespace t) (nt_operations t)) txs"
  have "\<exists>m. ?body ((d\<lparr>db_clock := k\<rparr>)\<lparr>db_clock := n\<rparr>) = (Inr (), (d\<lparr>db_records := R\<rparr>)\<lparr>db_clock := m\<rparr>)" for n
    using sql_each_batch_run [of txs "d\<lparr>db_clock := n\<rparr>" nt_namespace nt_operations R] assms
    by (fastforce simp: owns_all_def batch_of_def)
  then have "\<exists>n. in_transaction no_fault ?body (d\<lparr>db_clock := k\<rparr>) = (Inr (), (d\<lparr>db_records := R\<rparr>)\<lparr>db_clock := n\<rparr>)"
    by (rule in_transaction_run)
  with k show ?thesis by (auto simp: transact_many_def sql_bind_def)
qed

subsection \<open>Migrations\<close>

lemma migration_plan_ok:
  "migration_plan schema migs current = Inr plan \<Longrightarrow>
     set plan \<subseteq> set migs \<and> length plan = ds_version schema - current \<and>
     (\<forall>i<length plan. mig_from (plan ! i) = current + i \<and> mig_to (plan ! i) = current + i + 1)"
proof (induction schema migs current arbitrary: plan rule: migration_plan.induct)
  case (1 schema migs current)
  show ?case
  proof (cases "current < ds_version schema")
    case True
    with 1(2) obtain m rest where m: "find (\<lambda>m. mig_from m = current \<and> mig_to m = current + 1) migs = Some m"
      "migration_plan schema migs (current + 1) = Inr rest" "plan = m # rest"
      by (subst (asm) migration_plan.simps) (auto simp: rbind_eq_Inr split: option.splits)
    from m(1) have mm: "m \<in> set migs" "mig_from m = current" "mig_to m = current + 1"
      by (auto simp: find_Some_iff)
    from 1(1) [OF True m(1,2)] True mm m(3) show ?thesis
      by (auto simp: nth_Cons split: nat.splits)
  next
    case False
    with 1(2) show ?thesis by (subst (asm) migration_plan.simps) simp
  qed
qed

definition migration_batch :: "durable_schema \<Rightarrow> schema_migration list \<Rightarrow>
    (resource_namespace \<times> transaction_op list) list" where
  "migration_batch schema plan = map (\<lambda>m. (ds_namespace schema, mig_operations m)) plan"

lemma migrate_schema_cases:
  assumes "migrate_schema fault owner schema migs d = (r, d')"
  shows "(\<exists>e. r = Inl e \<and> tables d' = tables d) \<or>
    (r = Inr () \<and> (\<exists>v. db_schemas d (ds_namespace schema) = Some (owner, v) \<and>
      (v = ds_version schema \<and> tables d' = tables d \<or>
       v < ds_version schema \<and> (\<exists>plan. migration_plan schema migs v = Inr plan \<and>
         batch_effect (migration_batch schema plan) (db_records d) = Some (db_records d') \<and>
         db_schemas d' = (db_schemas d)(ds_namespace schema \<mapsto> (owner, ds_version schema))))))"
proof (cases "require_features schema")
  case (Inl e)
  with assms have "r = Inl e" "d' = d" by (simp_all add: migrate_schema_def sql_bind_def sql_return_def)
  then show ?thesis by simp
next
  case (Inr u)
  let ?ns = "ds_namespace schema"
  obtain r1 d1 where s: "stored_owner_and_version fault ?ns d = (r1, d1)" by fastforce
  then have t1: "tables d1 = tables d" unfolding stored_owner_and_version_def by (rule query_tables)
  show ?thesis
  proof (cases r1)
    case (Inl e)
    with assms Inr s t1 show ?thesis by (auto simp: migrate_schema_def sql_bind_def sql_return_def)
  next
    case r1: (Inr row)
    with s have row: "row = db_schemas d ?ns"
      by (auto simp: stored_owner_and_version_def statement_Inr)
    show ?thesis
    proof (cases "\<exists>v plan. row = Some (owner, v) \<and> v < ds_version schema \<and> migration_plan schema migs v = Inr plan")
      case True
      then obtain v plan where v: "row = Some (owner, v)" "v < ds_version schema"
        "migration_plan schema migs v = Inr plan" by blast
      let ?body = "sql_bind
         (sql_each (\<lambda>m. apply_operations fault ?ns (mig_operations m)) plan)
         (\<lambda>_. statement fault (\<lambda>d. (Inr (), d\<lparr>db_schemas := (db_schemas d)(?ns :=
            map_option (\<lambda>(ow, v). (ow, ds_version schema)) (db_schemas d ?ns))\<rparr>)))"
      have "in_transaction fault ?body d1 = (r, d')"
        using assms Inr s r1 v by (simp add: migrate_schema_def sql_bind_def sql_return_def)
      from in_transaction_cases [OF this] show ?thesis
      proof (elim disjE exE conjE)
        fix e assume "r = Inl e" "tables d' = tables d1"
        with t1 show ?thesis by simp
      next
        fix a b assume h: "r = Inr ()" "tables a = tables d1" "?body a = (Inr (), b)" "tables d' = tables b"
        from h(3) obtain c where
          c: "sql_each (\<lambda>m. apply_operations fault ?ns (mig_operations m)) plan a = (Inr (), c)"
          "b = c\<lparr>db_clock := Suc (db_clock c), db_schemas := (db_schemas c)(?ns :=
              map_option (\<lambda>(ow, v). (ow, ds_version schema)) (db_schemas c ?ns))\<rparr>"
          by (auto simp: sql_bind_Inr statement_Inr)
        from sql_each_batch_ok [OF c(1)] c(2) h(1,2,4) t1 v row show ?thesis
          by (auto simp: tables_eq migration_batch_def)
      qed
    next
      case False
      with assms Inr s r1 t1 row show ?thesis
        by (auto simp: migrate_schema_def sql_bind_def sql_return_def
            split: option.splits prod.splits if_splits sum.splits)
    qed
  qed
qed


subsection \<open>Registration\<close>

lemma register_schema_cases:
  assumes "register_schema fault owner schema d = (r, d')"
  shows "tables d' = tables d \<and>
      (r = Inr () \<longrightarrow> db_schemas d (ds_namespace schema) = Some (owner, ds_version schema)) \<or>
    r = Inr () \<and> db_schemas d (ds_namespace schema) = None \<and> 0 < ds_version schema \<and>
      db_records d' = db_records d \<and>
      db_schemas d' = (db_schemas d)(ds_namespace schema \<mapsto> (owner, ds_version schema))"
proof (cases "require_features schema")
  case (Inl e)
  with assms show ?thesis by (auto simp: register_schema_def sql_bind_def sql_return_def)
next
  case (Inr u)
  let ?ns = "ds_namespace schema"
  obtain r1 d1 where s: "stored_owner_and_version fault ?ns d = (r1, d1)" by fastforce
  then have t1: "tables d1 = tables d" unfolding stored_owner_and_version_def by (rule query_tables)
  show ?thesis
  proof (cases r1)
    case (Inl e)
    with assms Inr s t1 show ?thesis by (auto simp: register_schema_def sql_bind_def sql_return_def)
  next
    case r1: (Inr row)
    with s have row: "row = db_schemas d ?ns"
      by (auto simp: stored_owner_and_version_def statement_Inr)
    with assms Inr s r1 t1 show ?thesis
      by (auto simp: register_schema_def sql_bind_def sql_return_def statement_def tables_eq
          split: option.splits if_splits)
  qed
qed

subsection \<open>Histories\<close>

datatype db_call =
  CallRegister plugin_id durable_schema
| CallMigrate plugin_id durable_schema "schema_migration list"
| CallTransact "namespace_transaction list"

fun db_call_run :: "fault \<Rightarrow> db_call \<Rightarrow> unit sql" where
  "db_call_run fault (CallRegister owner schema) = register_schema fault owner schema"
| "db_call_run fault (CallMigrate owner schema migs) = migrate_schema fault owner schema migs"
| "db_call_run fault (CallTransact txs) = transact_many fault txs"

definition db_history :: "fault \<Rightarrow> db_call list \<Rightarrow> database \<Rightarrow> database" where
  "db_history fault calls d = fold (\<lambda>c d. snd (db_call_run fault c d)) calls d"

definition db_empty :: database where
  "db_empty = \<lparr>db_schemas = Map.empty, db_records = Map.empty, db_clock = 0\<rparr>"

text \<open>The tables' own constraints: positive versions, and a record only in a registered namespace.\<close>

definition db_inv :: "database \<Rightarrow> bool" where
  "db_inv d \<longleftrightarrow>
     (\<forall>ns ow v. db_schemas d ns = Some (ow, v) \<longrightarrow> 0 < v) \<and>
     (\<forall>ns k. db_records d (ns, k) \<noteq> None \<longrightarrow> db_schemas d ns \<noteq> None)"

lemma db_inv_tables: "tables d' = tables d \<Longrightarrow> db_inv d' = db_inv d"
  by (simp add: db_inv_def tables_eq)

lemma batch_effect_dom:
  assumes "batch_effect batch R = Some R'" "R' (ns, k) \<noteq> None"
  shows "R (ns, k) \<noteq> None \<or> ns \<in> fst ` set batch"
  using batch_effect_other [OF assms(1), of ns k] assms(2) by (cases "ns \<in> fst ` set batch") simp_all

lemma db_inv_call: "db_inv d \<Longrightarrow> db_call_run fault c d = (r, d') \<Longrightarrow> db_inv d'"
proof (cases c)
  case (CallRegister owner schema)
  assume "db_inv d" "db_call_run fault c d = (r, d')"
  with CallRegister register_schema_cases [of fault owner schema d r d'] show ?thesis
    by (fastforce simp: db_inv_def tables_eq)
next
  case (CallMigrate owner schema migs)
  assume inv: "db_inv d" and run: "db_call_run fault c d = (r, d')"
  from run CallMigrate have "migrate_schema fault owner schema migs d = (r, d')" by simp
  from migrate_schema_cases [OF this] show ?thesis
  proof (elim disjE exE conjE)
    fix v plan
    assume h: "db_schemas d (ds_namespace schema) = Some (owner, v)" "v < ds_version schema"
      "batch_effect (migration_batch schema plan) (db_records d) = Some (db_records d')"
      "db_schemas d' = (db_schemas d)(ds_namespace schema \<mapsto> (owner, ds_version schema))"
    have "db_schemas d' ns \<noteq> None" if "db_records d' (ns, k) \<noteq> None" for ns k
      using batch_effect_dom [OF h(3) that] inv h(4) by (fastforce simp: db_inv_def migration_batch_def)
    moreover have "0 < v'" if "db_schemas d' ns = Some (ow, v')" for ns ow v'
      using that inv h(2,4) by (auto simp: db_inv_def split: if_splits)
    ultimately show ?thesis by (simp add: db_inv_def)
  qed (use inv db_inv_tables in blast)+
next
  case (CallTransact txs)
  assume inv: "db_inv d" and run: "db_call_run fault c d = (r, d')"
  from run CallTransact have "transact_many fault txs d = (r, d')" by simp
  from transact_many_cases [OF this] show ?thesis
  proof (elim disjE exE conjE)
    assume h: "owns_all txs d" "db_schemas d' = db_schemas d"
      "batch_effect (batch_of txs) (db_records d) = Some (db_records d')"
    have "db_schemas d ns \<noteq> None" if "db_records d' (ns, k) \<noteq> None" for ns k
      using batch_effect_dom [OF h(3) that] inv h(1)
      by (fastforce simp: db_inv_def batch_of_def owns_all_def)
    with inv h(2) show ?thesis by (auto simp: db_inv_def)
  qed (use inv db_inv_tables in blast)
qed

text \<open>A registered namespace keeps its owner, and its version never goes down.\<close>

definition row_kept :: "database \<Rightarrow> database \<Rightarrow> bool" where
  "row_kept d d' \<longleftrightarrow> (\<forall>ns ow v. db_schemas d ns = Some (ow, v) \<longrightarrow>
     (\<exists>v'\<ge>v. db_schemas d' ns = Some (ow, v')))"

lemma row_kept_trans: "row_kept a b \<Longrightarrow> row_kept b c \<Longrightarrow> row_kept a c"
  unfolding row_kept_def using order_trans by meson

lemma row_kept_call: "db_call_run fault c d = (r, d') \<Longrightarrow> row_kept d d'"
proof (cases c)
  case (CallRegister owner schema)
  assume "db_call_run fault c d = (r, d')"
  with CallRegister register_schema_cases [of fault owner schema d r d'] show ?thesis
    by (auto simp: row_kept_def tables_eq)
next
  case (CallMigrate owner schema migs)
  assume "db_call_run fault c d = (r, d')"
  with CallMigrate migrate_schema_cases [of fault owner schema migs d r d'] show ?thesis
    by (auto simp: row_kept_def tables_eq)
next
  case (CallTransact txs)
  assume "db_call_run fault c d = (r, d')"
  with CallTransact transact_many_cases [of fault txs d r d'] show ?thesis
    by (auto simp: row_kept_def tables_eq)
qed

lemma db_history_kept: "row_kept d (db_history fault calls d) \<and> (db_inv d \<longrightarrow> db_inv (db_history fault calls d))"
proof (induction calls arbitrary: d)
  case (Cons c calls)
  obtain r d' where c: "db_call_run fault c d = (r, d')" by fastforce
  with Cons.IH [of d'] row_kept_call [OF c] db_inv_call [OF _ c] show ?case
    by (auto simp: db_history_def intro: row_kept_trans)
qed (auto simp: db_history_def row_kept_def)


subsection \<open>Reads\<close>

lemma read_tables:
  "case db_read fault caller ns key d of
     (Inl e, d') \<Rightarrow> tables d' = tables d
   | (Inr x, d') \<Rightarrow> tables d' = tables d \<and> x = db_records d (ns, key) \<and>
       (\<exists>v. db_schemas d ns = Some (caller, v))"
proof (cases "require_owner fault caller ns d")
  case (Pair r1 d1)
  from require_owner_tables [OF Pair] have t: "tables d1 = tables d" .
  show ?thesis
  proof (cases r1)
    case (Inl e)
    with Pair t show ?thesis by (simp add: db_read_def sql_bind_def)
  next
    case (Inr u)
    with require_owner_ok Pair have "\<exists>v. db_schemas d ns = Some (caller, v)" by blast
    with Pair Inr t show ?thesis
      by (auto simp: db_read_def sql_bind_def statement_def tables_eq)
  qed
qed

subsection \<open>Properties\<close>

text \<open>C4: a cross-namespace transaction is atomic whatever statement the engine fails: either it
  reports an error and the tables are unchanged, or every participant owns its namespace and the
  records are those of the participants' operations applied in order, every assertion holding.\<close>

theorem transaction_is_atomic:
  "case transact_many fault txs d of
     (Inl e, d') \<Rightarrow> db_schemas d' = db_schemas d \<and> db_records d' = db_records d
   | (Inr _, d') \<Rightarrow> owns_all txs d \<and> db_schemas d' = db_schemas d \<and>
       batch_effect (batch_of txs) (db_records d) = Some (db_records d')"
proof (cases "transact_many fault txs d")
  case (Pair r d')
  from transact_many_cases [OF this] Pair show ?thesis by (auto simp: tables_eq)
qed

text \<open>C12: with no engine fault a transaction commits exactly when every participant owns its
  namespace and every assertion holds at its point in the sequence.\<close>

theorem transaction_commits_iff:
  "fst (transact_many no_fault txs d) = Inr () \<longleftrightarrow>
     owns_all txs d \<and> batch_effect (batch_of txs) (db_records d) \<noteq> None"
proof
  assume "fst (transact_many no_fault txs d) = Inr ()"
  then obtain d' where "transact_many no_fault txs d = (Inr (), d')"
    by (cases "transact_many no_fault txs d") auto
  from transact_many_cases [OF this] show
    "owns_all txs d \<and> batch_effect (batch_of txs) (db_records d) \<noteq> None" by auto
next
  assume "owns_all txs d \<and> batch_effect (batch_of txs) (db_records d) \<noteq> None"
  then obtain R where "owns_all txs d" "batch_effect (batch_of txs) (db_records d) = Some R" by auto
  from transact_many_run [OF this] show "fst (transact_many no_fault txs d) = Inr ()" by auto
qed

text \<open>No transaction, committed or not, changes a record of a namespace whose owner is not one
  of its participants.\<close>

lemma foreign_namespace_untouched:
  assumes "transact_many fault txs d = (r, d')" "db_schemas d ns = Some (ow, v)"
    "ow \<notin> nt_owner ` set txs"
  shows "db_records d' (ns, k) = db_records d (ns, k)"
  using transact_many_cases [OF assms(1)]
proof (elim disjE exE conjE)
  assume "owns_all txs d" "batch_effect (batch_of txs) (db_records d) = Some (db_records d')"
  moreover from this(1) assms(2,3) have "ns \<notin> fst ` set (batch_of txs)"
    by (fastforce simp: owns_all_def batch_of_def)
  ultimately show ?thesis using batch_effect_other by blast
qed (simp add: tables_eq)

definition sample_db :: database where
  "sample_db = \<lparr>db_schemas = [''a/x'' \<mapsto> (''a'', 1), ''b/y'' \<mapsto> (''b'', 1)],
     db_records = [(''b/y'', ''k'') \<mapsto> [1]], db_clock = 0\<rparr>"

lemma foreign_namespace_untouched_witness:
  "db_records (snd (transact no_fault ''a'' ''a/x'' [OpPut ''k'' [2]] sample_db)) (''b/y'', ''k'') = Some [1]"
proof -
  obtain r d' where t: "transact_many no_fault
      [\<lparr>nt_owner = ''a'', nt_namespace = ''a/x'', nt_operations = [OpPut ''k'' [2]]\<rparr>] sample_db = (r, d')"
    by fastforce
  have "db_records d' (''b/y'', ''k'') = db_records sample_db (''b/y'', ''k'')"
    by (rule foreign_namespace_untouched [OF t, of "''b/y''" "''b''" 1]) (simp_all add: sample_db_def)
  with t show ?thesis by (simp add: transact_def sample_db_def)
qed

text \<open>a migration is atomic whatever statement the engine fails: an error leaves the tables
  unchanged; success means the caller owns the namespace and either the stored version is already
  the requested one or the operations of one declared step per version, in ascending order and
  without a gap, were applied and the requested version recorded.\<close>

lemma migration_is_atomic:
  "case migrate_schema fault owner schema migs d of
     (Inl e, d') \<Rightarrow> db_schemas d' = db_schemas d \<and> db_records d' = db_records d
   | (Inr _, d') \<Rightarrow> (\<exists>v. db_schemas d (ds_namespace schema) = Some (owner, v) \<and>
       (v = ds_version schema \<and> db_schemas d' = db_schemas d \<and> db_records d' = db_records d \<or>
        v < ds_version schema \<and>
        (\<exists>plan. set plan \<subseteq> set migs \<and> map mig_from plan = [v..<ds_version schema] \<and>
           map mig_to plan = [Suc v..<Suc (ds_version schema)] \<and>
           batch_effect (migration_batch schema plan) (db_records d) = Some (db_records d') \<and>
           db_schemas d' = (db_schemas d)(ds_namespace schema \<mapsto> (owner, ds_version schema)))))"
proof (cases "migrate_schema fault owner schema migs d")
  case (Pair r d')
  have steps: "set plan \<subseteq> set migs \<and> map mig_from plan = [v..<ds_version schema] \<and>
      map mig_to plan = [Suc v..<Suc (ds_version schema)]"
    if "migration_plan schema migs v = Inr plan" "v < ds_version schema" for v plan
    using migration_plan_ok [OF that(1)] that(2)
    by (auto simp del: upt_Suc intro!: nth_equalityI)
  from migrate_schema_cases [OF Pair] Pair steps show ?thesis
    by (auto simp: tables_eq simp del: upt_Suc; blast)
qed

text \<open>over any history of registrations, migrations and transactions, with the engine failing
  anywhere, a registered namespace keeps its owner and its version never decreases; starting from an
  empty store, versions are positive and every record lies in a registered namespace.\<close>

lemma durable_history_invariant:
  "row_kept d (db_history fault calls d) \<and> db_inv (db_history fault calls db_empty)"
  using db_history_kept [of d fault calls] db_history_kept [of db_empty fault calls]
  by (simp add: db_inv_def db_empty_def)

text \<open>A read answers only the namespace's owner, with the stored value, and changes nothing.\<close>

lemma read_is_owner_only:
  "case db_read fault caller ns key d of
     (Inl e, d') \<Rightarrow> tables d' = tables d
   | (Inr x, d') \<Rightarrow> tables d' = tables d \<and> x = db_records d (ns, key) \<and>
       (\<exists>v. db_schemas d ns = Some (caller, v))"
  by (rule read_tables)

end
