(* ===== verification/Prepared_Mutation.thy ===== *)
theory Prepared_Mutation
  imports Btree_Map Authority Persistence
begin

text \<open>
  Owner-prepared durable mutations (\<open>phenix-core/src/prepared_mutation.rs\<close>). A scope holds the
  prepared transactions under unguessable handles and the stack of coordinating plugins per
  thread. The random bytes are a parameter: the list of results the entropy source will return;
  \<open>None\<close> is a run that is still drawing when the list ends.
\<close>

type_synonym handle = string

definition handle_prefix :: string where "handle_prefix = ''pm:''"
definition handle_hex_length :: nat where "handle_hex_length = 64"

definition hex_digit :: "nat \<Rightarrow> char" where
  "hex_digit n = char_of (if n < 10 then 48 + n else 87 + n)"

definition hex_byte :: "nat \<Rightarrow> string" where
  "hex_byte b = [hex_digit (b div 16), hex_digit (b mod 16)]"

text \<open>\<open>PreparedMutationHandle::generate\<close> on the result of one draw of 32 bytes.\<close>

definition generate_handle :: "string + nat list \<Rightarrow> string + handle" where
  "generate_handle draw =
     (case draw of
        Inl e \<Rightarrow> Inl (''cannot generate prepared mutation handle: '' @ e)
      | Inr bytes \<Rightarrow> Inr (handle_prefix @ concat (map hex_byte bytes)))"

definition strip_prefix :: "string \<Rightarrow> string \<Rightarrow> string option" where
  "strip_prefix p s = (if take (length p) s = p then Some (drop (length p) s) else None)"

definition lower_hex :: "char \<Rightarrow> bool" where
  "lower_hex c = (is_ascii_digit c \<or> (97 \<le> byte_of c \<and> byte_of c \<le> 102))"

definition parse_handle :: "string \<Rightarrow> string + handle" where
  "parse_handle s =
     (case strip_prefix handle_prefix s of
        None \<Rightarrow> Inl ''prepared mutation handle has an invalid prefix''
      | Some digest \<Rightarrow>
          if length digest \<noteq> handle_hex_length \<or> \<not> list_all lower_hex digest
          then Inl ''prepared mutation handle must contain 64 lowercase hexadecimal digits''
          else Inr s)"

record prepared_mutation =
  pm_transaction :: namespace_transaction
  pm_authority :: authority
  pm_coordinator :: plugin_id

record mutation_scope =
  ms_generation :: "graph_generation_id option"
  ms_prepared :: "(handle, prepared_mutation) btree"
  ms_coordinators :: "(nat \<times> plugin_id) list"

definition scope_new :: "graph_generation_id option \<Rightarrow> mutation_scope" where
  "scope_new g = \<lparr>ms_generation = g, ms_prepared = [], ms_coordinators = []\<rparr>"

subsection \<open>The stack of coordinators\<close>

definition push_coordinator :: "nat \<Rightarrow> plugin_id \<Rightarrow> mutation_scope \<Rightarrow> mutation_scope" where
  "push_coordinator thread c s = s\<lparr>ms_coordinators := ms_coordinators s @ [(thread, c)]\<rparr>"

text \<open>Removal of the last frame of the thread; \<open>None\<close> is the panic on a missing frame.\<close>

fun remove_first :: "nat \<Rightarrow> (nat \<times> plugin_id) list \<Rightarrow> (nat \<times> plugin_id) list option" where
  "remove_first t [] = None"
| "remove_first t ((t', c) # fs) =
     (if t' = t then Some fs else map_option (Cons (t', c)) (remove_first t fs))"

definition pop_coordinator :: "nat \<Rightarrow> mutation_scope \<Rightarrow> mutation_scope option" where
  "pop_coordinator thread s =
     map_option (\<lambda>fs. s\<lparr>ms_coordinators := rev fs\<rparr>) (remove_first thread (rev (ms_coordinators s)))"

definition with_coordinator ::
    "nat \<Rightarrow> plugin_id \<Rightarrow> (mutation_scope \<Rightarrow> 'a \<times> mutation_scope) \<Rightarrow> mutation_scope
     \<Rightarrow> ('a \<times> mutation_scope) option" where
  "with_coordinator thread c operation s =
     (let (x, s') = operation (push_coordinator thread c s)
      in map_option (\<lambda>s''. (x, s'')) (pop_coordinator thread s'))"

definition coordinator :: "nat \<Rightarrow> plugin_id \<Rightarrow> mutation_scope \<Rightarrow> plugin_id" where
  "coordinator thread owner s =
     (case find (\<lambda>(t, _). t = thread) (rev (ms_coordinators s)) of
        Some (_, c) \<Rightarrow> c | None \<Rightarrow> owner)"

subsection \<open>Preparing and consuming\<close>

fun prepare_loop ::
    "(string + nat list) list \<Rightarrow> prepared_mutation \<Rightarrow> (handle, prepared_mutation) btree
     \<Rightarrow> (string + handle \<times> (handle, prepared_mutation) btree) option" where
  "prepare_loop [] pm prepared = None"
| "prepare_loop (draw # draws) pm prepared =
     (case generate_handle draw of
        Inl e \<Rightarrow> Some (Inl e)
      | Inr h \<Rightarrow>
          if bt_has prepared h then prepare_loop draws pm prepared
          else Some (Inr (h, bt_insert h pm prepared)))"

definition prepare_mutation ::
    "nat \<Rightarrow> (string + nat list) list \<Rightarrow> plugin_id \<Rightarrow> resource_namespace \<Rightarrow> transaction_op list
     \<Rightarrow> authority \<Rightarrow> mutation_scope \<Rightarrow> ((string + handle) \<times> mutation_scope) option" where
  "prepare_mutation thread draws owner ns ops auth s =
     map_option (\<lambda>r. case r of
         Inl e \<Rightarrow> (Inl e, s)
       | Inr (h, prepared) \<Rightarrow> (Inr h, s\<lparr>ms_prepared := prepared\<rparr>))
       (prepare_loop draws
          \<lparr>pm_transaction = \<lparr>nt_owner = owner, nt_namespace = ns, nt_operations = ops\<rparr>,
            pm_authority = auth, pm_coordinator = coordinator thread owner s\<rparr>
          (ms_prepared s))"

fun consume_loop ::
    "handle list \<Rightarrow> (handle, prepared_mutation) btree \<Rightarrow> prepared_mutation list \<Rightarrow> handle option
     \<Rightarrow> prepared_mutation list \<times> handle option \<times> (handle, prepared_mutation) btree" where
  "consume_loop [] prepared participants missing = (participants, missing, prepared)"
| "consume_loop (h # hs) prepared participants missing =
     (case bt_get prepared h of
        Some p \<Rightarrow> consume_loop hs (bt_remove h prepared) (participants @ [p]) missing
      | None \<Rightarrow> consume_loop hs prepared participants (if missing = None then Some h else missing))"

definition consume ::
    "handle list \<Rightarrow> mutation_scope \<Rightarrow> (handle + prepared_mutation list) \<times> mutation_scope" where
  "consume hs s =
     (let (participants, missing, prepared) = consume_loop hs (ms_prepared s) [] None
      in ((case missing of Some h \<Rightarrow> Inl h | None \<Rightarrow> Inr participants), s\<lparr>ms_prepared := prepared\<rparr>))"

definition scope_clear :: "mutation_scope \<Rightarrow> mutation_scope" where
  "scope_clear s = s\<lparr>ms_prepared := []\<rparr>"

subsection \<open>Lemmas\<close>

lemma bt_has_remove [simp]: "bt_has (bt_remove k m) j \<longleftrightarrow> j \<noteq> k \<and> bt_has m j"
  by (simp add: bt_has_def map_simps)

lemma consume_loop_prepared:
  "consume_loop hs prepared ps missing = (ps', missing', prepared') \<Longrightarrow>
     bt_get prepared' h = (if h \<in> set hs then None else bt_get prepared h)"
proof (induction hs arbitrary: prepared ps missing)
  case (Cons k hs)
  then show ?case by (cases "bt_get prepared k") (auto simp: map_simps split: if_splits)
qed simp

lemma consume_loop_ok:
  "consume_loop hs prepared ps missing = (ps', None, prepared') \<longleftrightarrow>
     missing = None \<and> distinct hs \<and> (\<forall>h\<in>set hs. bt_has prepared h) \<and>
     ps' = ps @ map (\<lambda>h. the (bt_get prepared h)) hs \<and> prepared' = fold bt_remove hs prepared"
proof (induction hs arbitrary: prepared ps missing)
  case (Cons k hs)
  show ?case
  proof (cases "bt_get prepared k")
    case None
    then show ?thesis by (auto simp: Cons.IH bt_has_def)
  next
    case (Some p)
    then show ?thesis
      by (auto simp: Cons.IH bt_has_def map_simps split: if_splits)
  qed
qed auto

lemma consume_ok:
  "fst (consume hs s) = Inr ps \<longleftrightarrow>
     distinct hs \<and> (\<forall>h\<in>set hs. bt_has (ms_prepared s) h) \<and>
     ps = map (\<lambda>h. the (bt_get (ms_prepared s) h)) hs"
proof (cases "consume_loop hs (ms_prepared s) [] None")
  case (fields ps' missing prepared')
  show ?thesis
  proof (cases missing)
    case None
    with fields consume_loop_ok [of hs "ms_prepared s" "[]" None ps' prepared'] show ?thesis
      by (auto simp: consume_def)
  next
    case (Some h)
    with fields have "\<not> (distinct hs \<and> (\<forall>h\<in>set hs. bt_has (ms_prepared s) h))"
      using consume_loop_ok [of hs "ms_prepared s" "[]" None
        "map (\<lambda>h. the (bt_get (ms_prepared s) h)) hs" "fold bt_remove hs (ms_prepared s)"] by auto
    with fields Some show ?thesis by (auto simp: consume_def)
  qed
qed

lemma consume_coordinators: "ms_coordinators (snd (consume hs s)) = ms_coordinators s"
  by (simp add: consume_def case_prod_beta)

lemma consume_rest:
  "bt_get (ms_prepared (snd (consume hs s))) h = (if h \<in> set hs then None else bt_get (ms_prepared s) h)"
  by (cases "consume_loop hs (ms_prepared s) [] None")
    (simp add: consume_def consume_loop_prepared)

definition frames :: "nat \<Rightarrow> (nat \<times> plugin_id) list \<Rightarrow> plugin_id list" where
  "frames t fs = map snd (filter (\<lambda>f. fst f = t) fs)"

lemma remove_first_frames:
  "remove_first t fs = Some gs \<Longrightarrow>
     frames t gs = tl (frames t fs) \<and> (\<forall>u. u \<noteq> t \<longrightarrow> frames u gs = frames u fs)"
proof (induction fs arbitrary: gs)
  case (Cons f fs)
  then show ?case by (cases f) (auto simp: frames_def split: if_splits)
qed simp

lemma remove_first_None: "remove_first t fs = None \<longleftrightarrow> frames t fs = []"
proof (induction fs)
  case (Cons f fs)
  then show ?case by (cases f) (auto simp: frames_def)
qed (simp add: frames_def)

lemma frames_rev: "frames t (rev fs) = rev (frames t fs)"
  by (simp add: frames_def rev_filter rev_map)

lemma pop_coordinator_frames:
  "pop_coordinator t s = Some s' \<Longrightarrow>
     frames t (ms_coordinators s') = butlast (frames t (ms_coordinators s)) \<and>
     (\<forall>u. u \<noteq> t \<longrightarrow> frames u (ms_coordinators s') = frames u (ms_coordinators s))"
  unfolding pop_coordinator_def
  using butlast_rev [of "rev (frames t (ms_coordinators s))"]
  by (auto simp: frames_rev dest!: remove_first_frames)

lemma pop_coordinator_None: "pop_coordinator t s = None \<longleftrightarrow> frames t (ms_coordinators s) = []"
  by (simp add: pop_coordinator_def remove_first_None frames_rev)

lemma coordinator_frames:
  "coordinator t owner s =
     (if frames t (ms_coordinators s) = [] then owner else last (frames t (ms_coordinators s)))"
proof -
  have "(case find (\<lambda>(t', _). t' = t) fs of Some (_, c) \<Rightarrow> c | None \<Rightarrow> owner) =
      (if frames t fs = [] then owner else hd (frames t fs))" for fs
    by (induction fs) (auto simp: frames_def)
  from this [of "rev (ms_coordinators s)"] show ?thesis
    by (auto simp: coordinator_def frames_rev hd_rev)
qed


subsection \<open>Handles\<close>

lemma byte_of_hex_digit: "n < 16 \<Longrightarrow> byte_of (hex_digit n) = (if n < 10 then 48 + n else 87 + n)"
  by (simp add: byte_of_def hex_digit_def)

lemma lower_hex_digit: "n < 16 \<Longrightarrow> lower_hex (hex_digit n)"
  by (auto simp: lower_hex_def is_ascii_digit_def byte_of_hex_digit)

lemma hex_digit_inj:
  assumes "m < 16" "n < 16" "hex_digit m = hex_digit n"
  shows "m = n"
proof -
  have "(if m < 10 then 48 + m else 87 + m) = (if n < 10 then 48 + n else 87 + n)"
    unfolding byte_of_hex_digit [OF assms(1), symmetric] byte_of_hex_digit [OF assms(2), symmetric]
    using assms(3) by (rule arg_cong)
  then show ?thesis by (cases "m < 10"; cases "n < 10"; simp)
qed

lemma hex_byte_inj:
  assumes "a < 256" "b < 256" "hex_byte a = hex_byte b"
  shows "a = b"
proof -
  have d: "hex_digit (a div 16) = hex_digit (b div 16)" "hex_digit (a mod 16) = hex_digit (b mod 16)"
    using assms(3) by (simp_all add: hex_byte_def)
  have lt: "x div 16 < 16" if "x < 256" for x :: nat
    using that less_mult_imp_div_less [of x 16 16] by simp
  have "a div 16 = b div 16"
    by (rule hex_digit_inj [OF lt lt d(1)]) (fact assms)+
  moreover have "a mod 16 = b mod 16"
    by (rule hex_digit_inj [OF _ _ d(2)]) simp_all
  ultimately show ?thesis by (metis div_mult_mod_eq)
qed

lemma length_hex_bytes: "length (concat (map hex_byte bs)) = 2 * length bs"
  by (induction bs) (auto simp: hex_byte_def)

lemma hex_bytes_lower: "\<forall>b\<in>set bs. b < 256 \<Longrightarrow> list_all lower_hex (concat (map hex_byte bs))"
  by (induction bs) (auto simp: hex_byte_def lower_hex_digit)

lemma hex_bytes_inj:
  "\<forall>b\<in>set bs. b < 256 \<Longrightarrow> \<forall>c\<in>set cs. c < 256 \<Longrightarrow> length bs = length cs \<Longrightarrow>
     concat (map hex_byte bs) = concat (map hex_byte cs) \<Longrightarrow> bs = cs"
proof (induction bs arbitrary: cs)
  case (Cons b bs)
  then obtain c cs' where "cs = c # cs'" by (cases cs) auto
  with Cons show ?case
    by (auto simp: hex_byte_def dest: hex_byte_inj [unfolded hex_byte_def, of b c])
qed simp

text \<open>32 bytes, as the entropy source fills them.\<close>

definition random_bytes :: "nat list \<Rightarrow> bool" where
  "random_bytes bs \<longleftrightarrow> length bs = 32 \<and> (\<forall>b\<in>set bs. b < 256)"

lemma generate_handle_inj:
  "random_bytes a \<Longrightarrow> random_bytes b \<Longrightarrow> generate_handle (Inr a) = generate_handle (Inr b) \<Longrightarrow> a = b"
  using hex_bytes_inj [of a b] by (auto simp: random_bytes_def generate_handle_def)

lemma prepare_loop_ok:
  "prepare_loop draws pm prepared = Some (Inr (h, prepared')) \<Longrightarrow>
     \<not> bt_has prepared h \<and> prepared' = bt_insert h pm prepared \<and>
     (\<exists>d\<in>set draws. generate_handle d = Inr h)"
  by (induction draws) (auto split: sum.splits if_splits)

lemma prepare_loop_returns:
  assumes "prepare_loop draws pm prepared = None" "h \<in> set draws"
  shows "\<exists>k. generate_handle h = Inr k \<and> bt_has prepared k"
  using assms by (induction draws) (auto split: sum.splits if_splits)

lemma prepare_mutation_returns:
  assumes "\<forall>b\<in>set bs. random_bytes b" "distinct bs" "length (ms_prepared s) < length bs"
  shows "\<exists>h s'. prepare_mutation thread (map Inr bs) owner ns ops auth s = Some (Inr h, s') \<and>
    \<not> bt_has (ms_prepared s) h \<and>
    s' = s\<lparr>ms_prepared := bt_insert h
      \<lparr>pm_transaction = \<lparr>nt_owner = owner, nt_namespace = ns, nt_operations = ops\<rparr>,
        pm_authority = auth, pm_coordinator = coordinator thread owner s\<rparr> (ms_prepared s)\<rparr>"
proof -
  let ?pm = "\<lparr>pm_transaction = \<lparr>nt_owner = owner, nt_namespace = ns, nt_operations = ops\<rparr>,
    pm_authority = auth, pm_coordinator = coordinator thread owner s\<rparr>"
  let ?r = "prepare_loop (map Inr bs) ?pm (ms_prepared s)"
  let ?g = "\<lambda>b. handle_prefix @ concat (map hex_byte b)"
  have g: "generate_handle (Inr b) = Inr (?g b)" for b by (simp add: generate_handle_def)
  have "?r \<noteq> None"
  proof
    assume "?r = None"
    then have "?g ` set bs \<subseteq> fst ` set (ms_prepared s)"
      using prepare_loop_returns [of "map Inr bs" ?pm "ms_prepared s"] g
      by (force simp: bt_has_def bt_get_None)
    then have "card (?g ` set bs) \<le> card (fst ` set (ms_prepared s))"
      by (intro card_mono) auto
    also have "\<dots> \<le> length (ms_prepared s)"
      by (metis card_length length_map set_map)
    also have "card (?g ` set bs) = length bs"
      using assms(1,2) generate_handle_inj g by (subst card_image) (auto simp: inj_on_def distinct_card)
    finally show False using assms(3) by simp
  qed
  moreover have "?r \<noteq> Some (Inl e)" for e
    by (induction bs) (auto simp: generate_handle_def)
  ultimately obtain h prepared where r: "?r = Some (Inr (h, prepared))"
    by (cases ?r) (auto split: sum.splits, metis old.prod.exhaust old.sum.exhaust)
  with prepare_loop_ok [OF r] show ?thesis
    by (simp add: prepare_mutation_def)
qed

subsection \<open>Properties\<close>

text \<open>every commit attempt is one-shot: consuming takes each named handle out of the scope and
  nothing else, whether it succeeds or not; it succeeds exactly when the handles are distinct and
  all prepared, and then returns their mutations in the order they were named.\<close>

lemma consume_is_one_shot:
  "(\<forall>h. bt_get (ms_prepared (snd (consume hs s))) h =
      (if h \<in> set hs then None else bt_get (ms_prepared s) h)) \<and>
   (\<forall>ps. fst (consume hs s) = Inr ps \<longleftrightarrow>
      distinct hs \<and> (\<forall>h\<in>set hs. bt_has (ms_prepared s) h) \<and>
      ps = map (\<lambda>h. the (bt_get (ms_prepared s) h)) hs) \<and>
   ms_coordinators (snd (consume hs s)) = ms_coordinators s"
  by (simp add: consume_rest consume_ok consume_coordinators)

definition sample_mutation :: prepared_mutation where
  "sample_mutation = \<lparr>pm_transaction = \<lparr>nt_owner = ''p'', nt_namespace = ''p/n'',
     nt_operations = [OpDelete ''k'']\<rparr>, pm_authority = {}, pm_coordinator = ''q''\<rparr>"

definition sample_scope :: mutation_scope where
  "sample_scope = \<lparr>ms_generation = None,
     ms_prepared = [(''h1'', sample_mutation), (''h2'', sample_mutation)], ms_coordinators = []\<rparr>"

lemma consume_is_one_shot_witness:
  "fst (consume [''h1'', ''h2''] sample_scope) = Inr [sample_mutation, sample_mutation] \<and>
   (\<forall>ps. fst (consume [''h1'', ''h1''] sample_scope) \<noteq> Inr ps) \<and>
   bt_get (ms_prepared (snd (consume [''h1'', ''h1''] sample_scope))) ''h1'' = None"
  using consume_is_one_shot [of "[''h1'', ''h2'']" sample_scope]
    consume_is_one_shot [of "[''h1'', ''h1'']" sample_scope]
  by (simp add: sample_scope_def bt_has_def)

text \<open>a generated handle is accepted when it is parsed back, and two different draws of 32
  bytes give two different handles.\<close>

lemma handle_round_trip:
  assumes "random_bytes a" "random_bytes b"
  shows "\<exists>h. generate_handle (Inr a) = Inr h \<and> parse_handle h = Inr h \<and>
    (generate_handle (Inr b) = Inr h \<longleftrightarrow> a = b)"
proof -
  let ?h = "handle_prefix @ concat (map hex_byte a)"
  have "generate_handle (Inr a) = Inr ?h" by (simp add: generate_handle_def)
  moreover have "parse_handle ?h = Inr ?h"
    using assms(1) by (simp add: parse_handle_def strip_prefix_def random_bytes_def handle_hex_length_def
        length_hex_bytes hex_bytes_lower)
  ultimately show ?thesis
    using generate_handle_inj [OF assms] by auto
qed

lemma handle_round_trip_witness:
  "\<exists>h. generate_handle (Inr (replicate 32 171)) = Inr h \<and> parse_handle h = Inr h \<and>
    (generate_handle (Inr (replicate 32 7)) = Inr h \<longleftrightarrow> replicate 32 (171 :: nat) = replicate 32 7)"
  by (rule handle_round_trip) (simp_all add: random_bytes_def)

text \<open>preparing returns once the entropy source delivers more distinct values than there are
  prepared mutations; the handle it returns was not in use, and the stored mutation carries the
  owner, the operations and the coordinator of the calling thread.\<close>

lemma prepare_returns_fresh_handle:
  assumes "\<forall>b\<in>set bs. random_bytes b" "distinct bs" "length (ms_prepared s) < length bs"
  shows "\<exists>h s'. prepare_mutation thread (map Inr bs) owner ns ops auth s = Some (Inr h, s') \<and>
    \<not> bt_has (ms_prepared s) h \<and>
    s' = s\<lparr>ms_prepared := bt_insert h
      \<lparr>pm_transaction = \<lparr>nt_owner = owner, nt_namespace = ns, nt_operations = ops\<rparr>,
        pm_authority = auth, pm_coordinator = coordinator thread owner s\<rparr> (ms_prepared s)\<rparr>"
  by (rule prepare_mutation_returns [OF assms])

lemma prepare_returns_fresh_handle_witness:
  "\<exists>h s'. prepare_mutation 1 (map Inr [replicate 32 0]) ''p'' ''p/n'' [] {} (scope_new None) =
     Some (Inr h, s')"
  using prepare_returns_fresh_handle [of "[replicate 32 0]" "scope_new None" 1 "''p''" "''p/n''" "[]" "{}"]
  by (auto simp: random_bytes_def scope_new_def)

text \<open>a coordinated operation sees its own plugin as coordinator, and when the operation leaves
  its thread's frames balanced (whatever other threads pushed or removed) the frame is removed
  again, without a panic and without touching another thread's frames.\<close>

lemma coordinator_frames_balanced:
  assumes "operation (push_coordinator t c s) = (x, s1)"
    "frames t (ms_coordinators s1) = frames t (ms_coordinators (push_coordinator t c s))"
  shows "coordinator t owner (push_coordinator t c s) = c \<and>
    (\<exists>s'. with_coordinator t c operation s = Some (x, s') \<and>
       frames t (ms_coordinators s') = frames t (ms_coordinators s) \<and>
       (\<forall>u. u \<noteq> t \<longrightarrow> frames u (ms_coordinators s') = frames u (ms_coordinators s1)))"
proof -
  have push: "frames t (ms_coordinators (push_coordinator t c s)) = frames t (ms_coordinators s) @ [c]"
    by (simp add: push_coordinator_def frames_def)
  with assms(2) obtain s' where s': "pop_coordinator t s1 = Some s'"
    using pop_coordinator_None [of t s1] by (cases "pop_coordinator t s1") auto
  with pop_coordinator_frames [OF s'] assms push show ?thesis
    by (simp add: with_coordinator_def coordinator_frames)
qed

lemma coordinator_frames_balanced_witness:
  "coordinator 1 ''o'' (push_coordinator 1 ''a'' (scope_new None)) = ''a'' \<and>
   (\<exists>s'. with_coordinator 1 ''a'' (\<lambda>s. ((), push_coordinator 2 ''b'' s)) (scope_new None) = Some ((), s') \<and>
      frames 2 (ms_coordinators s') = [''b''])"
  using coordinator_frames_balanced [of "\<lambda>s. ((), push_coordinator 2 ''b'' s)" 1 "''a''" "scope_new None" "()"
    "push_coordinator 2 ''b'' (push_coordinator 1 ''a'' (scope_new None))" "''o''"]
  by (auto simp: push_coordinator_def scope_new_def frames_def)

end
