(* ===== verification/Events.thy ===== *)
theory Events
  imports Btree_Map Authority "HOL-Library.Product_Lexorder"
begin

text \<open>
  The event bus (\<open>phenix-core/src/events.rs\<close>): subscriptions with dependencies, their division
  into levels that run concurrently, admission against a bounded number of deliveries in flight,
  and the bookkeeping that keeps a handler from re-entering its own cause. A delivery is a small
  state machine: between the checks at the start and at the end of a level its handlers run, and
  any other operation of the bus may happen. Handlers are tokens; their outcomes are inputs of the
  step that ends a level.
\<close>

datatype event_failure_policy = PolicyIgnore | PolicyWarn | PolicyFailDelivery

record event_envelope =
  ev_type :: event_type_id
  ev_version :: nat
  ev_emitter :: plugin_id
  ev_causality :: nat
  ev_policy_revision :: nat
  ev_payload :: "nat list"

record subscription_spec =
  sub_id :: subscription_id
  sub_owner :: plugin_id
  sub_type :: event_type_id
  sub_version :: nat
  sub_dependencies :: "subscription_id list"
  sub_failure_policy :: event_failure_policy
  sub_required :: authority
  sub_maximum :: authority
  sub_policy_revision :: nat

record 'h event_subscription =
  es_spec :: subscription_spec
  es_handler :: 'h

record dispatch_report =
  rep_delivered :: "subscription_id list"
  rep_failures :: "(subscription_id \<times> string) list"
  rep_warnings :: "(subscription_id \<times> string) list"
  rep_generation :: "graph_generation_id option"

datatype event_error =
  DuplicateSubscription subscription_id
| CrossEventDependency subscription_id subscription_id
| UnknownDependency subscription_id subscription_id
| DependencyCycle subscription_id
| CausalReentry subscription_id
| EventAuthorityDenied subscription_id
| HandlerFailed subscription_id string
| QueueSaturated nat
| QueueUnavailable string
| DeliveryCancelled

datatype delivery_status =
  DsAccepted | DsSucceeded dispatch_report | DsFailed event_error | DsCancelled

type_synonym 'h subscriptions = "(subscription_id, 'h event_subscription) btree"

definition subscription_id_of :: "'h event_subscription \<Rightarrow> subscription_id" where
  "subscription_id_of s = sub_id (es_spec s)"

definition index_subscriptions :: "'h event_subscription list \<Rightarrow> event_error + 'h subscriptions" where
  "index_subscriptions subs = map_err DuplicateSubscription (bt_index subscription_id_of [] subs)"

subsection \<open>Dependency levels\<close>

text \<open>Indexing the map by an identifier of its own, which is always present.\<close>

definition deps_of :: "'h subscriptions \<Rightarrow> subscription_id \<Rightarrow> subscription_id list" where
  "deps_of subs sid = (case bt_get subs sid of Some s \<Rightarrow> sub_dependencies (es_spec s) | None \<Rightarrow> [])"

lemma filter_ready_shorter:
  "filter P xs \<noteq> [] \<Longrightarrow> length (filter (\<lambda>x. x \<notin> set (filter P xs)) xs) < length xs"
proof -
  assume "filter P xs \<noteq> []"
  then obtain x where "x \<in> set xs" "P x" by (auto simp: filter_empty_conv)
  then show ?thesis by (intro length_filter_less [of x]) auto
qed

function level_loop ::
    "'h subscriptions \<Rightarrow> subscription_id list \<Rightarrow> event_error + subscription_id list list" where
  "level_loop subs remaining =
     (if remaining = [] then Inr []
      else let ready = filter (\<lambda>sid. list_all (\<lambda>d. d \<notin> set remaining) (deps_of subs sid)) remaining
           in if ready = [] then Inl (DependencyCycle (hd remaining))
              else rbind (level_loop subs (filter (\<lambda>sid. sid \<notin> set ready) remaining))
                (\<lambda>levels. Inr (ready # levels)))"
  by pat_completeness auto

termination
  by (relation "measure (\<lambda>(subs, remaining). length remaining)") (auto simp: filter_ready_shorter simp del: set_filter)

declare level_loop.simps [simp del]

definition matching_ids :: "'h subscriptions \<Rightarrow> event_type_id \<Rightarrow> nat \<Rightarrow> subscription_id list" where
  "matching_ids subs ty ver = sorted_list_of_set (set (map subscription_id_of
     (filter (\<lambda>s. sub_type (es_spec s) = ty \<and> sub_version (es_spec s) = ver) (bt_vals subs))))"

definition dependency_levels ::
    "'h subscriptions \<Rightarrow> event_type_id \<Rightarrow> nat \<Rightarrow> event_error + subscription_id list list" where
  "dependency_levels subs ty ver = level_loop subs (matching_ids subs ty ver)"

definition dependency_order_events ::
    "'h subscriptions \<Rightarrow> event_type_id \<Rightarrow> nat \<Rightarrow> event_error + subscription_id list" where
  "dependency_order_events subs ty ver = rbind (dependency_levels subs ty ver) (\<lambda>ls. Inr (concat ls))"

definition check_dependency ::
    "'h subscriptions \<Rightarrow> 'h event_subscription \<Rightarrow> subscription_id \<Rightarrow> event_error + unit" where
  "check_dependency subs s d =
     (case bt_get subs d of
        None \<Rightarrow> Inl (UnknownDependency (subscription_id_of s) d)
      | Some target \<Rightarrow>
          if sub_type (es_spec target) \<noteq> sub_type (es_spec s) \<or>
             sub_version (es_spec target) \<noteq> sub_version (es_spec s)
          then Inl (CrossEventDependency (subscription_id_of s) d)
          else Inr ())"

definition event_keys :: "'h subscriptions \<Rightarrow> (event_type_id \<times> nat) list" where
  "event_keys subs = sorted_list_of_set
     (set (map (\<lambda>s. (sub_type (es_spec s), sub_version (es_spec s))) (bt_vals subs)))"

definition validate_dependencies :: "'h subscriptions \<Rightarrow> event_error + unit" where
  "validate_dependencies subs =
     rbind (try_each (\<lambda>s. try_each (check_dependency subs s) (sub_dependencies (es_spec s))) (bt_vals subs))
       (\<lambda>_. try_each (\<lambda>(ty, ver). rbind (dependency_order_events subs ty ver) (\<lambda>_. Inr ())) (event_keys subs))"

definition validate_subscriptions :: "'h event_subscription list \<Rightarrow> event_error + unit" where
  "validate_subscriptions subs = rbind (index_subscriptions subs) validate_dependencies"

subsection \<open>The bus\<close>

record 'h event_bus =
  eb_subscriptions :: "'h subscriptions"
  eb_active :: "nat \<rightharpoonup> subscription_id set"
  eb_next_root :: nat
  eb_next_delivery :: nat
  eb_revision :: nat
  eb_in_flight :: nat
  eb_capacity :: nat

definition bus_with_capacity :: "nat \<Rightarrow> 'h event_bus" where
  "bus_with_capacity n = \<lparr>eb_subscriptions = [], eb_active = Map.empty, eb_next_root = 0,
     eb_next_delivery = 0, eb_revision = 0, eb_in_flight = 0, eb_capacity = n\<rparr>"

definition set_subscriptions :: "'h subscriptions \<Rightarrow> 'h event_bus \<Rightarrow> 'h event_bus" where
  "set_subscriptions subs bus =
     bus\<lparr>eb_subscriptions := subs, eb_revision := wrap_succ64 (eb_revision bus)\<rparr>"

definition replace_subscriptions ::
    "'h event_subscription list \<Rightarrow> 'h event_bus \<Rightarrow> event_error + 'h event_bus" where
  "replace_subscriptions subs bus =
     rbind (index_subscriptions subs) (\<lambda>indexed.
     rbind (validate_dependencies indexed) (\<lambda>_. Inr (set_subscriptions indexed bus)))"

definition install_subscriptions ::
    "'h event_subscription list \<Rightarrow> 'h event_bus \<Rightarrow> event_error + (subscription_id list \<times> 'h event_bus)" where
  "install_subscriptions subs bus =
     rbind (map_err DuplicateSubscription (bt_index subscription_id_of (eb_subscriptions bus) subs))
       (\<lambda>candidate. rbind (validate_dependencies candidate) (\<lambda>_.
          Inr (map subscription_id_of subs, set_subscriptions candidate bus)))"

definition remove_subscriptions ::
    "subscription_id list \<Rightarrow> 'h event_bus \<Rightarrow> event_error + 'h event_bus" where
  "remove_subscriptions ids bus =
     (let candidate = fold bt_remove ids (eb_subscriptions bus)
      in rbind (validate_dependencies candidate) (\<lambda>_. Inr (set_subscriptions candidate bus)))"

text \<open>\<open>fetch_add\<close> wraps; zero is skipped.\<close>

function next_nonzero_id :: "nat \<Rightarrow> nat \<times> nat" where
  "next_nonzero_id counter =
     (let sid = wrap_succ64 counter in if sid \<noteq> 0 then (sid, sid) else next_nonzero_id sid)"
  by pat_completeness auto
termination
  by (relation "measure (\<lambda>c. if u64_max \<le> c then 1 else 0)") (auto simp: wrap_succ64_def split: if_splits)

declare next_nonzero_id.simps [simp del]

definition reserve_delivery :: "'h event_bus \<Rightarrow> event_error + 'h event_bus" where
  "reserve_delivery bus =
     (if eb_in_flight bus \<ge> eb_capacity bus then Inl (QueueSaturated (eb_capacity bus))
      else Inr (bus\<lparr>eb_in_flight := eb_in_flight bus + 1\<rparr>))"

fun enter_loop ::
    "subscription_id list \<Rightarrow> subscription_id set \<Rightarrow> subscription_id list
     \<Rightarrow> (subscription_id \<times> subscription_id set) + subscription_id set" where
  "enter_loop [] active inserted = Inr active"
| "enter_loop (sid # ids) active inserted =
     (if sid \<in> active then Inl (sid, active - set inserted)
      else enter_loop ids (insert sid active) (inserted @ [sid]))"

definition store_active ::
    "nat \<Rightarrow> subscription_id set \<Rightarrow> (nat \<rightharpoonup> subscription_id set) \<Rightarrow> (nat \<rightharpoonup> subscription_id set)" where
  "store_active cause ids active = (if ids = {} then active(cause := None) else active(cause \<mapsto> ids))"

definition active_for :: "(nat \<rightharpoonup> subscription_id set) \<Rightarrow> nat \<Rightarrow> subscription_id set" where
  "active_for active cause = (case active cause of Some ids \<Rightarrow> ids | None \<Rightarrow> {})"

definition enter_causality ::
    "nat \<Rightarrow> subscription_id list \<Rightarrow> 'h event_bus \<Rightarrow> (event_error + unit) \<times> 'h event_bus" where
  "enter_causality cause ids bus =
     (case enter_loop ids (active_for (eb_active bus) cause) [] of
        Inr ids' \<Rightarrow> (Inr (), bus\<lparr>eb_active := (eb_active bus)(cause \<mapsto> ids')\<rparr>)
      | Inl (sid, restored) \<Rightarrow>
          (Inl (CausalReentry sid), bus\<lparr>eb_active := store_active cause restored (eb_active bus)\<rparr>))"

definition leave_causality :: "nat \<Rightarrow> subscription_id list \<Rightarrow> 'h event_bus \<Rightarrow> 'h event_bus" where
  "leave_causality cause ids bus =
     (case eb_active bus cause of
        None \<Rightarrow> bus
      | Some active \<Rightarrow> bus\<lparr>eb_active := store_active cause (active - set ids) (eb_active bus)\<rparr>)"

subsection \<open>Deliveries\<close>

record 'h delivery =
  dl_id :: nat
  dl_event :: event_envelope
  dl_authority :: authority
  dl_subscriptions :: "'h subscriptions"
  dl_levels :: "subscription_id list list"
  dl_ancestry :: "subscription_id set"
  dl_revision :: nat
  dl_report :: dispatch_report
  dl_running :: "subscription_id list option"

definition admission_denied :: "'h subscriptions \<Rightarrow> authority \<Rightarrow> subscription_id list list \<Rightarrow> subscription_id option" where
  "admission_denied subs auth levels =
     find (\<lambda>sid. case bt_get subs sid of
       Some s \<Rightarrow> \<not> permits_all auth (sub_required (es_spec s)) | None \<Rightarrow> False) (concat levels)"

text \<open>
  \<open>admit_in_generation\<close> up to the point where the delivery's thread exists. The counter for root
  causes advances even when admission is refused.
\<close>

definition admit ::
    "event_envelope \<Rightarrow> authority \<Rightarrow> graph_generation_id option \<Rightarrow> 'h event_bus
     \<Rightarrow> (event_error + 'h delivery) \<times> 'h event_bus" where
  "admit event0 auth generation bus0 =
     (let (event, bus) =
        (if ev_causality event0 = 0 then
           (let (cause, counter) = next_nonzero_id (eb_next_root bus0)
            in (event0\<lparr>ev_causality := cause\<rparr>, bus0\<lparr>eb_next_root := counter\<rparr>))
         else (event0, bus0));
        subs = eb_subscriptions bus
      in case dependency_levels subs (ev_type event) (ev_version event) of
           Inl e \<Rightarrow> (Inl e, bus)
         | Inr levels \<Rightarrow>
             (case admission_denied subs auth levels of
                Some sid \<Rightarrow> (Inl (EventAuthorityDenied sid), bus)
              | None \<Rightarrow>
                  (case reserve_delivery bus of
                     Inl e \<Rightarrow> (Inl e, bus)
                   | Inr bus' \<Rightarrow>
                       (let (sid, counter) = next_nonzero_id (eb_next_delivery bus')
                        in (Inr \<lparr>dl_id = sid, dl_event = event, dl_authority = auth,
                              dl_subscriptions = subs, dl_levels = levels,
                              dl_ancestry = active_for (eb_active bus') (ev_causality event),
                              dl_revision = eb_revision bus,
                              dl_report = \<lparr>rep_delivered = [], rep_failures = [], rep_warnings = [],
                                rep_generation = generation\<rparr>,
                              dl_running = None\<rparr>,
                            bus'\<lparr>eb_next_delivery := counter\<rparr>)))))"

definition handler_authority :: "'h delivery \<Rightarrow> subscription_id \<Rightarrow> authority" where
  "handler_authority d sid =
     (case bt_get (dl_subscriptions d) sid of
        Some s \<Rightarrow> attenuate (dl_authority d) (sub_maximum (es_spec s)) | None \<Rightarrow> {})"

text \<open>The start of an iteration of \<open>execute_delivery\<close>'s loop: a terminal status, or the level whose
  handlers now run.\<close>

definition delivery_begin ::
    "'h delivery \<Rightarrow> 'h event_bus \<Rightarrow> (delivery_status + 'h delivery) \<times> 'h event_bus" where
  "delivery_begin d bus =
     (case dl_levels d of
        [] \<Rightarrow> (Inl (DsSucceeded (dl_report d)), bus)
      | level # rest \<Rightarrow>
          if eb_revision bus \<noteq> dl_revision d then (Inl DsCancelled, bus)
          else (case find (\<lambda>sid. sid \<in> dl_ancestry d) level of
              Some sid \<Rightarrow> (Inl (DsFailed (CausalReentry sid)), bus)
            | None \<Rightarrow>
                (case enter_causality (ev_causality (dl_event d)) level bus of
                   (Inl e, bus') \<Rightarrow> (Inl (DsFailed e), bus')
                 | (Inr _, bus') \<Rightarrow>
                     (Inr (d\<lparr>dl_levels := rest, dl_running := Some level\<rparr>), bus'))))"

datatype handler_outcome = HandlerOk | HandlerErr string | HandlerPanic

fun outcome_result :: "handler_outcome \<Rightarrow> string + unit" where
  "outcome_result HandlerOk = Inr ()"
| "outcome_result (HandlerErr m) = Inl m"
| "outcome_result HandlerPanic = Inl ''event listener panicked during delivery''"

definition record_result ::
    "'h subscriptions \<Rightarrow> dispatch_report \<Rightarrow> subscription_id \<times> (string + unit)
     \<Rightarrow> delivery_status + dispatch_report" where
  "record_result subs report item =
     (let (sid, result) = item
      in case result of
           Inr _ \<Rightarrow> Inr (report\<lparr>rep_delivered := rep_delivered report @ [sid]\<rparr>)
         | Inl message \<Rightarrow>
             (let report' = report\<lparr>rep_failures := rep_failures report @ [(sid, message)]\<rparr>
              in case map_option (\<lambda>s. sub_failure_policy (es_spec s)) (bt_get subs sid) of
                   Some PolicyWarn \<Rightarrow>
                     Inr (report'\<lparr>rep_warnings := rep_warnings report' @ [(sid, message)]\<rparr>)
                 | Some PolicyFailDelivery \<Rightarrow> Inl (DsFailed (HandlerFailed sid message))
                 | _ \<Rightarrow> Inr report'))"

text \<open>The end of the iteration, given what the handlers of the level returned.\<close>

definition delivery_end ::
    "handler_outcome list \<Rightarrow> subscription_id list \<Rightarrow> 'h delivery \<Rightarrow> 'h event_bus
     \<Rightarrow> (delivery_status + 'h delivery) \<times> 'h event_bus" where
  "delivery_end outcomes level d bus =
     (let bus' = leave_causality (ev_causality (dl_event d)) level bus
      in if eb_revision bus' \<noteq> dl_revision d then (Inl DsCancelled, bus')
         else case try_fold (record_result (dl_subscriptions d)) (dl_report d)
             (zip level (map outcome_result outcomes)) of
           Inl status \<Rightarrow> (Inl status, bus')
         | Inr report \<Rightarrow> (Inr (d\<lparr>dl_report := report, dl_running := None\<rparr>), bus'))"

text \<open>The thread ends: its place in flight is given back.\<close>

definition delivery_done :: "'h event_bus \<Rightarrow> 'h event_bus" where
  "delivery_done bus = bus\<lparr>eb_in_flight := eb_in_flight bus - 1\<rparr>"


subsection \<open>Levels respect dependencies\<close>

text \<open>A set of subscriptions each of which waits for another member of the set.\<close>

definition blocked :: "'h subscriptions \<Rightarrow> subscription_id set \<Rightarrow> bool" where
  "blocked subs S \<longleftrightarrow> S \<noteq> {} \<and> (\<forall>x\<in>S. \<exists>d\<in>set (deps_of subs x). d \<in> S)"

fun ordered_levels ::
    "'h subscriptions \<Rightarrow> subscription_id set \<Rightarrow> subscription_id list list \<Rightarrow> bool" where
  "ordered_levels subs R [] = True"
| "ordered_levels subs R (l # ls) =
     (l \<noteq> [] \<and> (\<forall>x\<in>set l. \<forall>d\<in>set (deps_of subs x). d \<notin> R) \<and> ordered_levels subs (R - set l) ls)"

lemma level_loop_ok:
  "level_loop subs R = Inr ls \<Longrightarrow> distinct R \<Longrightarrow>
     set (concat ls) = set R \<and> distinct (concat ls) \<and> ordered_levels subs (set R) ls"
proof (induction "length R" arbitrary: R ls rule: less_induct)
  case less
  show ?case
  proof (cases "R = []")
    case True
    with less.prems show ?thesis by (simp add: level_loop.simps)
  next
    case False
    define ready where "ready = filter (\<lambda>x. list_all (\<lambda>d. d \<notin> set R) (deps_of subs x)) R"
    define rest where "rest = filter (\<lambda>x. x \<notin> set ready) R"
    from less.prems(1) False obtain ls' where ls': "ready \<noteq> []" "level_loop subs rest = Inr ls'" "ls = ready # ls'"
      by (subst (asm) level_loop.simps)
        (auto simp: Let_def ready_def rest_def rbind_eq_Inr split: if_splits)
    have sets: "set rest = set R - set ready" "set ready \<subseteq> set R" "distinct ready" "distinct rest"
      using less.prems(2) by (auto simp: ready_def rest_def)
    have ready: "\<forall>x\<in>set ready. \<forall>d\<in>set (deps_of subs x). d \<notin> set R"
      by (auto simp: ready_def list_all_iff)
    have "length rest < length R"
      using ls'(1) filter_ready_shorter unfolding rest_def ready_def by blast
    from less.hyps [OF this ls'(2) sets(4)] ls' sets ready show ?thesis by auto
  qed
qed

lemma level_loop_blocked:
  "level_loop subs R = Inl e \<Longrightarrow> \<exists>S\<subseteq>set R. blocked subs S \<and> (\<exists>x\<in>S. e = DependencyCycle x)"
proof (induction "length R" arbitrary: R rule: less_induct)
  case less
  define ready where "ready = filter (\<lambda>x. list_all (\<lambda>d. d \<notin> set R) (deps_of subs x)) R"
  define rest where "rest = filter (\<lambda>x. x \<notin> set ready) R"
  from less.prems have ne: "R \<noteq> []" by (auto simp: level_loop.simps)
  show ?case
  proof (cases "ready = []")
    case True
    with less.prems ne have "e = DependencyCycle (hd R)"
      by (subst (asm) level_loop.simps) (simp add: Let_def ready_def)
    moreover have "blocked subs (set R)"
      using True ne by (auto simp: blocked_def ready_def filter_empty_conv list_all_iff)
    ultimately show ?thesis using ne by (intro exI [of _ "set R"]) auto
  next
    case False
    with less.prems ne have "level_loop subs rest = Inl e"
      by (subst (asm) level_loop.simps) (simp add: Let_def ready_def rest_def rbind_eq_Inl)
    moreover have "length rest < length R"
      using False filter_ready_shorter unfolding rest_def ready_def by blast
    ultimately obtain S where "S \<subseteq> set rest" "blocked subs S" "\<exists>x\<in>S. e = DependencyCycle x"
      using less.hyps by blast
    moreover have "set rest \<subseteq> set R" by (auto simp: rest_def)
    ultimately show ?thesis by blast
  qed
qed

lemma ordered_levels_not_blocked:
  "ordered_levels subs R ls \<Longrightarrow> S \<subseteq> R \<Longrightarrow> R \<subseteq> set (concat ls) \<Longrightarrow> \<not> blocked subs S"
proof (induction ls arbitrary: R)
  case Nil
  then show ?case by (auto simp: blocked_def)
next
  case (Cons l ls)
  show ?case
  proof
    assume b: "blocked subs S"
    have "S \<inter> set l = {}"
    proof (rule ccontr)
      assume "S \<inter> set l \<noteq> {}"
      then obtain x where "x \<in> S" "x \<in> set l" by blast
      with b Cons.prems show False by (fastforce simp: blocked_def)
    qed
    with Cons.prems have "S \<subseteq> R - set l" by blast
    with Cons.IH [of "R - set l"] Cons.prems b show False by auto
  qed
qed

lemma distinct_matching: "distinct (matching_ids subs ty ver)"
  by (simp add: matching_ids_def)

definition matching :: "'h subscriptions \<Rightarrow> event_type_id \<Rightarrow> nat \<Rightarrow> subscription_id set" where
  "matching subs ty ver = subscription_id_of `
     {s \<in> set (bt_vals subs). sub_type (es_spec s) = ty \<and> sub_version (es_spec s) = ver}"

lemma set_matching_ids: "set (matching_ids subs ty ver) = matching subs ty ver"
  by (auto simp: matching_ids_def matching_def)

lemma dependency_levels_ok_iff:
  "is_ok (dependency_levels subs ty ver) \<longleftrightarrow> (\<forall>S. S \<subseteq> matching subs ty ver \<longrightarrow> \<not> blocked subs S)"
proof (cases "dependency_levels subs ty ver")
  case (Inl e)
  then obtain S where "S \<subseteq> matching subs ty ver" "blocked subs S"
    using level_loop_blocked set_matching_ids unfolding dependency_levels_def by metis
  with Inl show ?thesis by auto
next
  case (Inr ls)
  then have "set (concat ls) = matching subs ty ver" "ordered_levels subs (matching subs ty ver) ls"
    using level_loop_ok [of subs "matching_ids subs ty ver" ls] distinct_matching [of subs ty ver]
    by (simp_all add: dependency_levels_def set_matching_ids)
  with Inr ordered_levels_not_blocked [of subs "matching subs ty ver" ls] show ?thesis by auto
qed


subsection \<open>Validated subscription maps\<close>

definition keyed :: "'h subscriptions \<Rightarrow> bool" where
  "keyed subs \<longleftrightarrow> bt_ok subs \<and> (\<forall>k s. bt_get subs k = Some s \<longrightarrow> subscription_id_of s = k)"

definition subs_valid :: "'h subscriptions \<Rightarrow> bool" where
  "subs_valid subs \<longleftrightarrow> keyed subs \<and> validate_dependencies subs = Inr ()"

lemma keyed_index:
  "bt_index subscription_id_of m subs = Inr m' \<Longrightarrow> keyed m \<Longrightarrow> keyed m'"
  by (auto simp: keyed_def bt_index_get intro: bt_index_ok_map)

lemma keyed_remove: "keyed m \<Longrightarrow> keyed (fold bt_remove ks m)"
  unfolding keyed_def using bt.fold_del_get [of ks m] bt.fold_del_inv [of m ks] by auto

lemma validate_ok:
  "validate_dependencies subs = Inr u \<longleftrightarrow>
     (\<forall>s\<in>set (bt_vals subs). \<forall>d\<in>set (sub_dependencies (es_spec s)). check_dependency subs s d = Inr ()) \<and>
     (\<forall>(ty, ver)\<in>set (event_keys subs). is_ok (dependency_levels subs ty ver))"
  by (auto simp: validate_dependencies_def rbind_eq_Inr try_each_ok dependency_order_events_def is_ok_iff)

lemma valid_levels:
  assumes "subs_valid subs"
  shows "is_ok (dependency_levels subs ty ver)"
proof (cases "(ty, ver) \<in> set (event_keys subs)")
  case True
  with assms show ?thesis by (auto simp: subs_valid_def validate_ok)
next
  case False
  then have "matching subs ty ver = {}" by (auto simp: event_keys_def matching_def)
  then show ?thesis unfolding dependency_levels_ok_iff by (simp add: blocked_def)
qed

text \<open>In a validated map a dependency is a subscription to the same event.\<close>

lemma valid_dependency:
  assumes "subs_valid subs" "x \<in> matching subs ty ver" "d \<in> set (deps_of subs x)"
  shows "d \<in> matching subs ty ver"
proof -
  from assms(1) have k: "bt_ok subs" "\<And>k s. bt_get subs k = Some s \<Longrightarrow> subscription_id_of s = k"
    by (auto simp: subs_valid_def keyed_def)
  from assms(2) obtain s where s: "s \<in> set (bt_vals subs)" "x = subscription_id_of s"
    "sub_type (es_spec s) = ty" "sub_version (es_spec s) = ver"
    by (auto simp: matching_def)
  then have "bt_get subs x = Some s" using k by (auto simp: set_bt_vals)
  with assms(3) have "d \<in> set (sub_dependencies (es_spec s))" by (simp add: deps_of_def)
  with assms(1) s have "check_dependency subs s d = Inr ()"
    by (auto simp: subs_valid_def validate_ok)
  then obtain t where "bt_get subs d = Some t" "sub_type (es_spec t) = ty" "sub_version (es_spec t) = ver"
    using s by (auto simp: check_dependency_def split: option.splits if_splits)
  moreover from this k have "subscription_id_of t = d" "t \<in> set (bt_vals subs)"
    by (auto simp: set_bt_vals)
  ultimately show ?thesis by (auto simp: matching_def)
qed

lemma keyed_Nil [simp]: "keyed []"
  by (simp add: keyed_def)

lemma replace_valid:
  "replace_subscriptions subs bus = Inr bus' \<Longrightarrow> subs_valid (eb_subscriptions bus')"
  using keyed_index [OF _ keyed_Nil, of subs]
  by (auto simp: replace_subscriptions_def rbind_eq_Inr index_subscriptions_def set_subscriptions_def
      subs_valid_def)

lemma install_valid:
  "install_subscriptions subs bus = Inr (ids, bus') \<Longrightarrow> subs_valid (eb_subscriptions bus) \<Longrightarrow>
     subs_valid (eb_subscriptions bus')"
  by (auto simp: install_subscriptions_def rbind_eq_Inr set_subscriptions_def subs_valid_def
      intro: keyed_index)

lemma remove_valid:
  "remove_subscriptions ids bus = Inr bus' \<Longrightarrow> subs_valid (eb_subscriptions bus) \<Longrightarrow>
     subs_valid (eb_subscriptions bus')"
  by (auto simp: remove_subscriptions_def Let_def rbind_eq_Inr set_subscriptions_def subs_valid_def
      intro: keyed_remove)

subsection \<open>Causality\<close>

lemma enter_loop_ok:
  "enter_loop sids active inserted = Inr active' \<longleftrightarrow>
     distinct sids \<and> set sids \<inter> active = {} \<and> active' = active \<union> set sids"
  by (induction sids arbitrary: active inserted) auto

lemma enter_loop_restores:
  "enter_loop sids (A \<union> set inserted) inserted = Inl (x, R) \<Longrightarrow> A \<inter> set inserted = {} \<Longrightarrow>
     R = A \<and> (x \<in> A \<or> \<not> distinct (inserted @ sids))"
proof (induction sids arbitrary: inserted)
  case (Cons y ys)
  show ?case
  proof (cases "y \<in> A \<union> set inserted")
    case True
    with Cons.prems show ?thesis by auto
  next
    case False
    with Cons.prems have "enter_loop ys (A \<union> set (inserted @ [y])) (inserted @ [y]) = Inl (x, R)"
      by (simp add: insert_commute Un_commute)
    from Cons.IH [OF this] Cons.prems(2) False show ?thesis by auto
  qed
qed simp

lemma active_for_store: "active_for (store_active c S a) c' = (if c' = c then S else active_for a c')"
  by (simp add: active_for_def store_active_def)

lemma enter_causality_fail:
  "enter_causality c sids bus = (Inl e, bus') \<Longrightarrow>
     active_for (eb_active bus') = active_for (eb_active bus) \<and> bus' = bus\<lparr>eb_active := eb_active bus'\<rparr>"
  using enter_loop_restores [of sids "active_for (eb_active bus) c" "[]"]
  by (auto simp: enter_causality_def active_for_store fun_eq_iff split: sum.splits if_splits)

lemma enter_causality_ok:
  "enter_causality c sids bus = (Inr u, bus') \<Longrightarrow>
     distinct sids \<and> set sids \<inter> active_for (eb_active bus) c = {} \<and>
     active_for (eb_active bus') = (active_for (eb_active bus))(c := active_for (eb_active bus) c \<union> set sids) \<and>
     bus' = bus\<lparr>eb_active := eb_active bus'\<rparr>"
  by (auto simp: enter_causality_def enter_loop_ok active_for_def fun_eq_iff split: sum.splits)

lemma leave_causality_active:
  "active_for (eb_active (leave_causality c sids bus)) =
     (active_for (eb_active bus))(c := active_for (eb_active bus) c - set sids) \<and>
   leave_causality c sids bus = bus\<lparr>eb_active := eb_active (leave_causality c sids bus)\<rparr>"
proof (cases "eb_active bus c")
  case None
  then show ?thesis by (simp add: leave_causality_def active_for_def fun_eq_iff)
next
  case (Some A)
  then have "active_for (eb_active bus) c = A" by (simp add: active_for_def)
  with Some show ?thesis by (simp add: leave_causality_def active_for_store fun_eq_iff)
qed


subsection \<open>Interleavings\<close>

text \<open>
  The bus with the deliveries in flight. Every operation is one step, in any order; a level is two
  steps with anything in between. A change of subscriptions that falls between an admission's
  snapshot and its first level is caught by the revision check of that level.
\<close>

type_synonym 'h bus_state = "'h event_bus \<times> 'h delivery list"

inductive bus_step :: "'h bus_state \<Rightarrow> 'h bus_state \<Rightarrow> bool" where
  step_replace: "replace_subscriptions subs bus = Inr bus' \<Longrightarrow> bus_step (bus, ds) (bus', ds)"
| step_install: "install_subscriptions subs bus = Inr (sids, bus') \<Longrightarrow> bus_step (bus, ds) (bus', ds)"
| step_remove: "remove_subscriptions sids bus = Inr bus' \<Longrightarrow> bus_step (bus, ds) (bus', ds)"
| step_admit: "admit ev auth g bus = (Inr d, bus') \<Longrightarrow> bus_step (bus, ds) (bus', ds @ [d])"
| step_refuse: "admit ev auth g bus = (Inl e, bus') \<Longrightarrow> bus_step (bus, ds) (bus', ds)"
| step_spawn_failed: "admit ev auth g bus = (Inr d, bus') \<Longrightarrow> bus_step (bus, ds) (delivery_done bus', ds)"
| step_begin: "dl_running d = None \<Longrightarrow> delivery_begin d bus = (Inr d', bus') \<Longrightarrow>
    bus_step (bus, xs @ d # ys) (bus', xs @ d' # ys)"
| step_begin_done: "dl_running d = None \<Longrightarrow> delivery_begin d bus = (Inl st, bus') \<Longrightarrow>
    bus_step (bus, xs @ d # ys) (delivery_done bus', xs @ ys)"
| step_end: "dl_running d = Some level \<Longrightarrow> length outcomes = length level \<Longrightarrow>
    delivery_end outcomes level d bus = (Inr d', bus') \<Longrightarrow>
    bus_step (bus, xs @ d # ys) (bus', xs @ d' # ys)"
| step_end_done: "dl_running d = Some level \<Longrightarrow> length outcomes = length level \<Longrightarrow>
    delivery_end outcomes level d bus = (Inl st, bus') \<Longrightarrow>
    bus_step (bus, xs @ d # ys) (delivery_done bus', xs @ ys)"

inductive bus_reach :: "nat \<Rightarrow> 'h bus_state \<Rightarrow> bool" for n :: nat where
  bus_start: "bus_reach n (bus_with_capacity n, [])"
| bus_next: "bus_reach n s \<Longrightarrow> bus_step s s' \<Longrightarrow> bus_reach n s'"

text \<open>The handlers a delivery is running for a cause.\<close>

definition running_for :: "nat \<Rightarrow> 'h delivery \<Rightarrow> subscription_id list" where
  "running_for cause d =
     (case dl_running d of
        Some level \<Rightarrow> if ev_causality (dl_event d) = cause then level else []
      | None \<Rightarrow> [])"

definition running_all :: "nat \<Rightarrow> 'h delivery list \<Rightarrow> subscription_id list" where
  "running_all cause ds = concat (map (running_for cause) ds)"

definition bus_inv :: "'h bus_state \<Rightarrow> bool" where
  "bus_inv s \<longleftrightarrow> (case s of (bus, ds) \<Rightarrow>
     subs_valid (eb_subscriptions bus) \<and>
     eb_in_flight bus = length ds \<and> length ds \<le> eb_capacity bus \<and>
     (\<forall>c. distinct (running_all c ds) \<and> active_for (eb_active bus) c = set (running_all c ds)))"

lemma running_all_simps [simp]:
  "running_all c [] = []" "running_all c (d # ds) = running_for c d @ running_all c ds"
  "running_all c (xs @ ys) = running_all c xs @ running_all c ys"
  by (simp_all add: running_all_def)

lemma running_for_None [simp]: "dl_running d = None \<Longrightarrow> running_for c d = []"
  by (simp add: running_for_def)

lemma running_for_Some:
  "dl_running d = Some level \<Longrightarrow>
     running_for c d = (if c = ev_causality (dl_event d) then level else [])"
  by (auto simp: running_for_def)

lemma set_subscriptions_simps [simp]:
  "eb_active (set_subscriptions subs bus) = eb_active bus"
  "eb_in_flight (set_subscriptions subs bus) = eb_in_flight bus"
  "eb_capacity (set_subscriptions subs bus) = eb_capacity bus"
  by (simp_all add: set_subscriptions_def)

lemma subscription_ops_frame:
  "replace_subscriptions subs bus = Inr bus' \<Longrightarrow>
     eb_active bus' = eb_active bus \<and> eb_in_flight bus' = eb_in_flight bus \<and> eb_capacity bus' = eb_capacity bus"
  "install_subscriptions subs bus = Inr (sids, bus') \<Longrightarrow>
     eb_active bus' = eb_active bus \<and> eb_in_flight bus' = eb_in_flight bus \<and> eb_capacity bus' = eb_capacity bus"
  "remove_subscriptions rids bus = Inr bus' \<Longrightarrow>
     eb_active bus' = eb_active bus \<and> eb_in_flight bus' = eb_in_flight bus \<and> eb_capacity bus' = eb_capacity bus"
  by (auto simp: replace_subscriptions_def install_subscriptions_def remove_subscriptions_def Let_def
      rbind_eq_Inr)

lemma admit_frame:
  "admit ev auth g bus = (r, bus') \<Longrightarrow>
     eb_active bus' = eb_active bus \<and> eb_subscriptions bus' = eb_subscriptions bus \<and>
     eb_capacity bus' = eb_capacity bus \<and>
     (case r of
        Inl e \<Rightarrow> eb_in_flight bus' = eb_in_flight bus
      | Inr d \<Rightarrow> eb_in_flight bus' = Suc (eb_in_flight bus) \<and> eb_in_flight bus < eb_capacity bus \<and>
          dl_running d = None)"
  by (auto simp: admit_def Let_def reserve_delivery_def split: prod.splits sum.splits option.splits if_splits)

lemma delivery_begin_ok:
  assumes "delivery_begin d bus = (Inr d', bus')"
  shows "\<exists>level rest. dl_levels d = level # rest \<and> d' = d\<lparr>dl_levels := rest, dl_running := Some level\<rparr> \<and>
    eb_revision bus = dl_revision d \<and> set level \<inter> dl_ancestry d = {} \<and>
    enter_causality (ev_causality (dl_event d)) level bus = (Inr (), bus')"
  using assms
  by (auto simp: delivery_begin_def find_None_iff split: list.splits if_splits option.splits prod.splits sum.splits)

lemma delivery_begin_done:
  assumes "delivery_begin d bus = (Inl st, bus')"
  shows "active_for (eb_active bus') = active_for (eb_active bus) \<and> bus' = bus\<lparr>eb_active := eb_active bus'\<rparr>"
  using assms
  by (auto simp: delivery_begin_def dest: enter_causality_fail
      split: list.splits if_splits option.splits prod.splits sum.splits)

lemma delivery_end_bus:
  "delivery_end outcomes level d bus = (r, bus') \<Longrightarrow>
     bus' = leave_causality (ev_causality (dl_event d)) level bus \<and>
     (case r of Inl st \<Rightarrow> True | Inr d' \<Rightarrow> dl_running d' = None \<and> dl_event d' = dl_event d)"
  by (auto simp: delivery_end_def Let_def split: if_splits sum.splits)

lemma bus_field_eq:
  assumes "bus' = bus\<lparr>eb_active := a\<rparr>"
  shows "eb_subscriptions bus' = eb_subscriptions bus" "eb_in_flight bus' = eb_in_flight bus"
    "eb_capacity bus' = eb_capacity bus"
  using assms by simp_all

lemma bus_inv_step: "bus_step s s' \<Longrightarrow> bus_inv s \<Longrightarrow> bus_inv s'"
proof (induction rule: bus_step.induct)
  case (step_replace subs bus bus' ds)
  then show ?case
    using replace_valid subscription_ops_frame(1) by (fastforce simp: bus_inv_def)
next
  case (step_install subs bus sids bus' ds)
  then show ?case
    using install_valid subscription_ops_frame(2) by (fastforce simp: bus_inv_def)
next
  case (step_remove sids bus bus' ds)
  then show ?case
    using remove_valid subscription_ops_frame(3) by (fastforce simp: bus_inv_def)
next
  case (step_admit ev auth g bus d bus' ds)
  from admit_frame [OF step_admit(1)] step_admit(2) show ?case by (auto simp: bus_inv_def)
next
  case (step_refuse ev auth g bus e bus' ds)
  from admit_frame [OF step_refuse(1)] step_refuse(2) show ?case by (auto simp: bus_inv_def)
next
  case (step_spawn_failed ev auth g bus d bus' ds)
  from admit_frame [OF step_spawn_failed(1)] step_spawn_failed(2) show ?case
    by (auto simp: bus_inv_def delivery_done_def)
next
  case (step_begin d bus d' bus' xs ys)
  from delivery_begin_ok [OF step_begin(2)] obtain level rest where
    h: "d' = d\<lparr>dl_levels := rest, dl_running := Some level\<rparr>"
      "enter_causality (ev_causality (dl_event d)) level bus = (Inr (), bus')" by blast
  let ?c = "ev_causality (dl_event d)"
  from enter_causality_ok [OF h(2)] have
    e: "distinct level" "set level \<inter> active_for (eb_active bus) ?c = {}"
      "active_for (eb_active bus') = (active_for (eb_active bus))(?c := active_for (eb_active bus) ?c \<union> set level)"
      "bus' = bus\<lparr>eb_active := eb_active bus'\<rparr>" by auto
  have r: "running_for c d' = (if c = ?c then level else [])" for c
    by (simp add: h(1) running_for_def)
  show ?case
    using step_begin(1,3) e(1,2) unfolding bus_inv_def
    by (auto simp: r e(3) bus_field_eq [OF e(4)])
next
  case (step_begin_done d bus st bus' xs ys)
  from delivery_begin_done [OF step_begin_done(2)] have
    e: "active_for (eb_active bus') = active_for (eb_active bus)" "bus' = bus\<lparr>eb_active := eb_active bus'\<rparr>"
    by auto
  show ?case
    using step_begin_done(1,3) unfolding bus_inv_def
    by (auto simp: e(1) bus_field_eq [OF e(2)] delivery_done_def)
next
  case (step_end d level outcomes bus d' bus' xs ys)
  let ?c = "ev_causality (dl_event d)"
  from delivery_end_bus [OF step_end(3)] have
    e: "bus' = leave_causality ?c level bus" "dl_running d' = None" by auto
  note l = leave_causality_active [of ?c level bus, folded e(1)]
  show ?case
    using step_end(4) l unfolding bus_inv_def
    by (auto simp: e(2) running_for_Some [OF step_end(1)] bus_field_eq [OF conjunct2 [OF l]] split: if_splits)
next
  case (step_end_done d level outcomes bus st bus' xs ys)
  let ?c = "ev_causality (dl_event d)"
  from delivery_end_bus [OF step_end_done(3)] have
    e: "bus' = leave_causality ?c level bus" by auto
  note l = leave_causality_active [of ?c level bus, folded e(1)]
  show ?case
    using step_end_done(4) l unfolding bus_inv_def
    by (auto simp: running_for_Some [OF step_end_done(1)] bus_field_eq [OF conjunct2 [OF l]] delivery_done_def
        split: if_splits)
qed

lemma bus_inv_start: "bus_inv (bus_with_capacity n, [])"
  by (simp add: bus_inv_def bus_with_capacity_def active_for_def subs_valid_def validate_dependencies_def
      event_keys_def)

lemma bus_reach_inv: "bus_reach n s \<Longrightarrow> bus_inv s"
  by (induction rule: bus_reach.induct) (auto intro: bus_inv_start bus_inv_step)


subsection \<open>A delivery without interference\<close>

lemma delivery_end_levels:
  "delivery_end outcomes level d bus = (Inr d', bus') \<Longrightarrow> dl_levels d' = dl_levels d"
  by (auto simp: delivery_end_def Let_def split: if_splits sum.splits)

text \<open>\<open>execute_delivery\<close> as one run, when no other operation of the bus happens in between; \<open>h\<close>
  gives the outcome of each handler.\<close>

function execute_delivery ::
    "(subscription_id \<Rightarrow> handler_outcome) \<Rightarrow> 'h delivery \<Rightarrow> 'h event_bus \<Rightarrow> delivery_status \<times> 'h event_bus" where
  "execute_delivery h d bus =
     (case delivery_begin d bus of
        (Inl status, bus1) \<Rightarrow> (status, bus1)
      | (Inr d1, bus1) \<Rightarrow>
          (case dl_running d1 of
             None \<Rightarrow> (DsAccepted, bus1)
           | Some level \<Rightarrow>
               (case delivery_end (map h level) level d1 bus1 of
                  (Inl status, bus2) \<Rightarrow> (status, bus2)
                | (Inr d2, bus2) \<Rightarrow> execute_delivery h d2 bus2)))"
  by pat_completeness auto

termination
proof (relation "measure (\<lambda>(h, d, bus). length (dl_levels d))", goal_cases)
  case (2 h d bus x y d1 level z bus2 d2)
  then show ?case
    by (auto dest!: delivery_end_levels delivery_begin_ok [of d bus] sym [of _ "delivery_begin d bus"]
        sym [of _ "delivery_end (map h level) level d1 y"])
qed simp

declare execute_delivery.simps [simp del]

definition tolerated :: "'h subscriptions \<Rightarrow> (subscription_id \<Rightarrow> handler_outcome) \<Rightarrow> subscription_id \<Rightarrow> bool" where
  "tolerated subs h sid \<longleftrightarrow>
     h sid = HandlerOk \<or>
     map_option (\<lambda>s. sub_failure_policy (es_spec s)) (bt_get subs sid) \<noteq> Some PolicyFailDelivery"

lemma record_one:
  assumes "tolerated subs h x"
  shows "\<exists>rep. record_result subs report (x, outcome_result (h x)) = Inr rep \<and>
    rep_delivered rep = rep_delivered report @ filter (\<lambda>i. h i = HandlerOk) [x] \<and>
    map fst (rep_failures rep) = map fst (rep_failures report) @ filter (\<lambda>i. h i \<noteq> HandlerOk) [x]"
proof (cases "outcome_result (h x)")
  case (Inr u)
  then have "h x = HandlerOk" by (cases "h x") auto
  then show ?thesis by (simp add: record_result_def)
next
  case (Inl m)
  then have "h x \<noteq> HandlerOk" by auto
  moreover from this assms have
    p: "map_option (\<lambda>s. sub_failure_policy (es_spec s)) (bt_get subs x) \<noteq> Some PolicyFailDelivery"
    by (simp add: tolerated_def)
  ultimately show ?thesis
    by (cases "map_option (\<lambda>s. sub_failure_policy (es_spec s)) (bt_get subs x)")
      (auto simp: record_result_def Let_def Inl split: event_failure_policy.splits)
qed

lemma record_results:
  "list_all (tolerated subs h) level \<Longrightarrow>
     \<exists>rep. try_fold (record_result subs) report (zip level (map outcome_result (map h level))) = Inr rep \<and>
       rep_delivered rep = rep_delivered report @ filter (\<lambda>i. h i = HandlerOk) level \<and>
       map fst (rep_failures rep) = map fst (rep_failures report) @ filter (\<lambda>i. h i \<noteq> HandlerOk) level"
proof (induction level arbitrary: report)
  case (Cons x xs)
  from Cons.prems have t: "tolerated subs h x" "list_all (tolerated subs h) xs" by simp_all
  obtain rep1 where r: "record_result subs report (x, outcome_result (h x)) = Inr rep1"
    "rep_delivered rep1 = rep_delivered report @ filter (\<lambda>i. h i = HandlerOk) [x]"
    "map fst (rep_failures rep1) = map fst (rep_failures report) @ filter (\<lambda>i. h i \<noteq> HandlerOk) [x]"
    using record_one [OF t(1)] by blast
  obtain rep where
    "try_fold (record_result subs) rep1 (zip xs (map outcome_result (map h xs))) = Inr rep"
    "rep_delivered rep = rep_delivered rep1 @ filter (\<lambda>i. h i = HandlerOk) xs"
    "map fst (rep_failures rep) = map fst (rep_failures rep1) @ filter (\<lambda>i. h i \<noteq> HandlerOk) xs"
    using Cons.IH [OF t(2)] by blast
  with r show ?case by (intro exI [of _ rep]) auto
qed auto

lemma execute_delivery_run:
  assumes "eb_revision bus = dl_revision d" "distinct (concat (dl_levels d))"
    "set (concat (dl_levels d)) \<inter> dl_ancestry d = {}"
    "set (concat (dl_levels d)) \<inter> active_for (eb_active bus) (ev_causality (dl_event d)) = {}"
    "list_all (tolerated (dl_subscriptions d) h) (concat (dl_levels d))"
  shows "\<exists>rep bus'. execute_delivery h d bus = (DsSucceeded rep, bus') \<and>
     rep_delivered rep = rep_delivered (dl_report d) @ filter (\<lambda>i. h i = HandlerOk) (concat (dl_levels d)) \<and>
     map fst (rep_failures rep) =
       map fst (rep_failures (dl_report d)) @ filter (\<lambda>i. h i \<noteq> HandlerOk) (concat (dl_levels d)) \<and>
     active_for (eb_active bus') = active_for (eb_active bus)"
  using assms
proof (induction "dl_levels d" arbitrary: d bus)
  case Nil
  then show ?case by (subst execute_delivery.simps) (simp add: delivery_begin_def)
next
  case (Cons level rest)
  let ?c = "ev_causality (dl_event d)"
  let ?A = "active_for (eb_active bus) ?c"
  note lv = Cons.hyps(2) [symmetric]
  have dj: "distinct level" "set level \<inter> ?A = {}" "set level \<inter> dl_ancestry d = {}"
    using Cons.prems by (auto simp: lv)
  have "enter_loop level ?A [] = Inr (?A \<union> set level)"
    using dj by (simp add: enter_loop_ok)
  then obtain bus1 where b1: "enter_causality ?c level bus = (Inr (), bus1)"
    by (simp add: enter_causality_def)
  let ?d1 = "d\<lparr>dl_levels := rest, dl_running := Some level\<rparr>"
  have "find (\<lambda>i. i \<in> dl_ancestry d) level = None" using dj(3) by (auto simp: find_None_iff)
  then have start: "delivery_begin d bus = (Inr ?d1, bus1)"
    using Cons.prems(1) b1 by (simp add: delivery_begin_def lv)
  have e1: "active_for (eb_active bus1) = (active_for (eb_active bus))(?c := ?A \<union> set level)"
    "eb_revision bus1 = eb_revision bus"
    using enter_causality_ok [OF b1] by (simp, metis event_bus.select_convs(5) event_bus.surjective event_bus.update_convs(2))
  define bus2 where "bus2 = leave_causality ?c level bus1"
  have e2: "active_for (eb_active bus2) = active_for (eb_active bus)" "eb_revision bus2 = eb_revision bus"
    using leave_causality_active [of ?c level bus1] dj(2) e1
    by (auto simp: bus2_def fun_eq_iff, metis event_bus.select_convs(5) event_bus.surjective event_bus.update_convs(2))
  obtain rep where rep:
    "try_fold (record_result (dl_subscriptions d)) (dl_report d) (zip level (map outcome_result (map h level))) = Inr rep"
    "rep_delivered rep = rep_delivered (dl_report d) @ filter (\<lambda>i. h i = HandlerOk) level"
    "map fst (rep_failures rep) = map fst (rep_failures (dl_report d)) @ filter (\<lambda>i. h i \<noteq> HandlerOk) level"
    using record_results [of "dl_subscriptions d" h level "dl_report d"] Cons.prems(5) by (auto simp: lv)
  let ?d2 = "?d1\<lparr>dl_report := rep, dl_running := None\<rparr>"
  have fin: "delivery_end (map h level) level ?d1 bus1 = (Inr ?d2, bus2)"
    using rep(1) e2(2) Cons.prems(1) by (simp add: delivery_end_def bus2_def [symmetric])
  have run: "execute_delivery h d bus = execute_delivery h ?d2 bus2"
    by (subst execute_delivery.simps) (simp add: start fin)
  have "\<exists>rep' bus'. execute_delivery h ?d2 bus2 = (DsSucceeded rep', bus') \<and>
     rep_delivered rep' = rep_delivered (dl_report ?d2) @ filter (\<lambda>i. h i = HandlerOk) (concat (dl_levels ?d2)) \<and>
     map fst (rep_failures rep') =
       map fst (rep_failures (dl_report ?d2)) @ filter (\<lambda>i. h i \<noteq> HandlerOk) (concat (dl_levels ?d2)) \<and>
     active_for (eb_active bus') = active_for (eb_active bus2)"
    by (rule Cons.hyps(1)) (use Cons.prems e2 in \<open>auto simp: lv\<close>)
  then show ?case using run rep e2 by (auto simp: lv)
qed


subsection \<open>Properties\<close>

lemma ordered_levels_nth:
  "ordered_levels subs R ls \<Longrightarrow> R \<subseteq> set (concat ls) \<Longrightarrow> j < length ls \<Longrightarrow> x \<in> set (ls ! j) \<Longrightarrow>
     e \<in> set (deps_of subs x) \<Longrightarrow> e \<in> R \<Longrightarrow> \<exists>i<j. e \<in> set (ls ! i)"
proof (induction ls arbitrary: R j)
  case (Cons l ls)
  show ?case
  proof (cases j)
    case 0
    with Cons.prems show ?thesis by auto
  next
    case (Suc j')
    show ?thesis
    proof (cases "e \<in> set l")
      case True
      with Suc show ?thesis by (intro exI [of _ 0]) simp
    next
      case False
      with Cons.prems Suc have "\<exists>i<j'. e \<in> set (ls ! i)"
        by (intro Cons.IH [of "R - set l"]) auto
      with Suc show ?thesis by (auto intro: exI [of _ "Suc i" for i])
    qed
  qed
qed simp

text \<open>the levels of an event list every matching subscription exactly once, and no subscription
  waits for one of its own level or a later one; when there are no levels, the error names a
  member of a set of subscriptions that wait for each other.\<close>

lemma levels_are_a_schedule:
  "case dependency_levels subs ty ver of
     Inr ls \<Rightarrow> distinct (concat ls) \<and> set (concat ls) = matching subs ty ver \<and>
       ordered_levels subs (matching subs ty ver) ls
   | Inl e \<Rightarrow> (\<exists>S x. S \<subseteq> matching subs ty ver \<and> x \<in> S \<and> blocked subs S \<and> e = DependencyCycle x)"
proof (cases "dependency_levels subs ty ver")
  case (Inl e)
  with level_loop_blocked [of subs "matching_ids subs ty ver" e] show ?thesis
    by (auto simp: dependency_levels_def set_matching_ids)
next
  case (Inr ls)
  with level_loop_ok [of subs "matching_ids subs ty ver" ls] show ?thesis
    by (simp add: dependency_levels_def set_matching_ids distinct_matching)
qed

text \<open>for a validated set of subscriptions every event has levels, and each dependency of a
  subscription is delivered in a strictly earlier level.\<close>

lemma validated_levels_run_dependencies_first:
  assumes "subs_valid subs"
  shows "\<exists>ls. dependency_levels subs ty ver = Inr ls \<and>
    (\<forall>j x e. j < length ls \<longrightarrow> x \<in> set (ls ! j) \<longrightarrow> e \<in> set (deps_of subs x) \<longrightarrow>
       (\<exists>i<j. e \<in> set (ls ! i)))"
proof -
  obtain ls where ls: "dependency_levels subs ty ver = Inr ls"
    using valid_levels [OF assms] by (auto simp: is_ok_iff)
  then have l: "set (concat ls) = matching subs ty ver" "ordered_levels subs (matching subs ty ver) ls"
    using level_loop_ok [of subs "matching_ids subs ty ver" ls] distinct_matching [of subs ty ver]
    by (simp_all add: dependency_levels_def set_matching_ids)
  have "\<exists>i<j. e \<in> set (ls ! i)" if "j < length ls" "x \<in> set (ls ! j)" "e \<in> set (deps_of subs x)" for j x e
  proof (rule ordered_levels_nth [OF l(2) _ that])
    have "x \<in> matching subs ty ver" using that(1,2) l(1) nth_mem by fastforce
    then show "e \<in> matching subs ty ver" by (rule valid_dependency [OF assms _ that(3)])
  qed (use l(1) in simp)
  with ls show ?thesis by blast
qed

definition sample_subscription :: "subscription_id \<Rightarrow> subscription_id list \<Rightarrow> unit event_subscription" where
  "sample_subscription i deps = \<lparr>es_spec = \<lparr>sub_id = i, sub_owner = ''p'', sub_type = ''t'', sub_version = 1,
     sub_dependencies = deps, sub_failure_policy = PolicyFailDelivery, sub_required = {}, sub_maximum = {},
     sub_policy_revision = 0\<rparr>, es_handler = ()\<rparr>"

definition sample_subscriptions :: "unit event_subscription list" where
  "sample_subscriptions = [sample_subscription ''a'' [''b''], sample_subscription ''b'' []]"

definition sample_index :: "unit subscriptions" where
  "sample_index = [(''a'', sample_subscription ''a'' [''b'']), (''b'', sample_subscription ''b'' [])]"

lemma sample_levels: "dependency_levels sample_index ''t'' 1 = Inr [[''b''], [''a'']]"
proof -
  have m: "matching_ids sample_index ''t'' 1 = [''a'', ''b'']"
    by (simp add: matching_ids_def sample_index_def sample_subscription_def subscription_id_of_def)
  show ?thesis
    unfolding dependency_levels_def m
    by (subst level_loop.simps, subst level_loop.simps, subst level_loop.simps)
      (simp add: deps_of_def sample_index_def sample_subscription_def)
qed

lemma sample_index_valid:
  "index_subscriptions sample_subscriptions = Inr sample_index \<and> validate_dependencies sample_index = Inr ()"
proof
  show "index_subscriptions sample_subscriptions = Inr sample_index"
    by (simp add: index_subscriptions_def sample_subscriptions_def sample_index_def sample_subscription_def
        subscription_id_of_def bt_has_def)
  have "event_keys sample_index = [(''t'', 1)]"
    by (simp add: event_keys_def sample_index_def sample_subscription_def)
  with sample_levels show "validate_dependencies sample_index = Inr ()"
    by (simp add: validate_dependencies_def dependency_order_events_def)
      (simp add: sample_index_def sample_subscription_def check_dependency_def)
qed

lemma sample_subs_valid: "subs_valid sample_index"
  using sample_index_valid keyed_index [OF _ keyed_Nil, of sample_subscriptions sample_index]
  by (auto simp: subs_valid_def index_subscriptions_def)

lemma validated_levels_run_dependencies_first_witness:
  "\<exists>ls. dependency_levels sample_index ''t'' 1 = Inr ls \<and>
    (\<forall>j x e. j < length ls \<longrightarrow> x \<in> set (ls ! j) \<longrightarrow> e \<in> set (deps_of sample_index x) \<longrightarrow>
       (\<exists>i<j. e \<in> set (ls ! i)))"
  by (rule validated_levels_run_dependencies_first [OF sample_subs_valid])


lemma capacity_step: "bus_step s s' \<Longrightarrow> eb_capacity (fst s') = eb_capacity (fst s)"
proof (induction rule: bus_step.induct)
  case (step_begin d bus d' bus' xs ys)
  then show ?case
    by (auto dest!: delivery_begin_ok enter_causality_ok conjunct2 [THEN conjunct2, THEN conjunct2]
        bus_field_eq(3))
next
  case (step_begin_done d bus st bus' xs ys)
  from delivery_begin_done [OF step_begin_done(2)] show ?case
    by (auto simp: delivery_done_def dest!: bus_field_eq(3))
next
  case (step_end d level outcomes bus d' bus' xs ys)
  from delivery_end_bus [OF step_end(3)] leave_causality_active [of "ev_causality (dl_event d)" level bus]
  show ?case by (auto dest!: bus_field_eq(3))
next
  case (step_end_done d level outcomes bus st bus' xs ys)
  from delivery_end_bus [OF step_end_done(3)] leave_causality_active [of "ev_causality (dl_event d)" level bus]
  show ?case by (auto simp: delivery_done_def dest!: bus_field_eq(3))
qed (auto simp: delivery_done_def dest!: subscription_ops_frame admit_frame)

lemma capacity_reach: "bus_reach n s \<Longrightarrow> eb_capacity (fst s) = n"
proof (induction rule: bus_reach.induct)
  case bus_start
  show ?case by (simp add: bus_with_capacity_def)
next
  case (bus_next s s')
  with capacity_step [of s s'] show ?case by simp
qed

text \<open>C5: in every interleaving of subscription changes, admissions and levels of deliveries, the
  deliveries in flight are exactly counted and never exceed the capacity, no handler runs twice at
  the same time for one cause, the record of running handlers is exact, and the installed
  subscriptions are validated.\<close>

theorem bus_interleavings_are_safe:
  assumes "bus_reach n (bus, ds)"
  shows "eb_in_flight bus = length ds \<and> length ds \<le> n \<and> subs_valid (eb_subscriptions bus) \<and>
    (\<forall>c. distinct (running_all c ds) \<and> active_for (eb_active bus) c = set (running_all c ds))"
  using bus_reach_inv [OF assms] capacity_reach [OF assms] by (auto simp: bus_inv_def)

definition sample_bus :: "unit event_bus" where
  "sample_bus = set_subscriptions sample_index (bus_with_capacity 2)"

definition sample_event :: event_envelope where
  "sample_event = \<lparr>ev_type = ''t'', ev_version = 1, ev_emitter = ''p'', ev_causality = 5,
     ev_policy_revision = 0, ev_payload = []\<rparr>"

definition sample_delivery :: "unit delivery" where
  "sample_delivery = \<lparr>dl_id = 1, dl_event = sample_event, dl_authority = {},
     dl_subscriptions = sample_index, dl_levels = [[''b''], [''a'']], dl_ancestry = {}, dl_revision = 1,
     dl_report = \<lparr>rep_delivered = [], rep_failures = [], rep_warnings = [], rep_generation = None\<rparr>,
     dl_running = None\<rparr>"

lemma sample_admit: "admit sample_event {} None sample_bus =
    (Inr sample_delivery, sample_bus\<lparr>eb_in_flight := 1, eb_next_delivery := 1\<rparr>)"
proof -
  have id: "next_nonzero_id 0 = (1, 1)"
    by (subst next_nonzero_id.simps) (simp add: wrap_succ64_def)
  have perm: "admission_denied sample_index {} [[''b''], [''a'']] = None"
    by (simp add: admission_denied_def sample_index_def sample_subscription_def permits_all_def)
  have bus: "eb_subscriptions sample_bus = sample_index" "eb_in_flight sample_bus = 0"
    "eb_capacity sample_bus = 2" "eb_next_delivery sample_bus = 0" "eb_revision sample_bus = 1"
    "active_for (eb_active sample_bus) c = {}" for c
    by (simp_all add: sample_bus_def set_subscriptions_def bus_with_capacity_def active_for_def wrap_succ64_def)
  have "dependency_levels sample_index (ev_type sample_event) (ev_version sample_event) = Inr [[''b''], [''a'']]"
    using sample_levels by (simp add: sample_event_def)
  moreover have "ev_causality sample_event \<noteq> 0" by (simp add: sample_event_def)
  ultimately show ?thesis
    by (simp add: admit_def bus perm id reserve_delivery_def sample_delivery_def)
qed

lemma sample_reach: "bus_reach 2 (sample_bus\<lparr>eb_in_flight := 1, eb_next_delivery := 1\<rparr>, [sample_delivery])"
proof -
  have "replace_subscriptions sample_subscriptions (bus_with_capacity 2) = Inr sample_bus"
    using sample_index_valid by (simp add: replace_subscriptions_def sample_bus_def)
  from bus_next [OF bus_start step_replace [OF this]] have "bus_reach 2 (sample_bus, [])" .
  from bus_next [OF this step_admit [OF sample_admit]] show ?thesis by simp
qed

theorem bus_interleavings_are_safe_witness:
  "eb_in_flight (sample_bus\<lparr>eb_in_flight := 1, eb_next_delivery := 1\<rparr>) = length [sample_delivery] \<and>
   subs_valid (eb_subscriptions sample_bus)"
  using bus_interleavings_are_safe [OF sample_reach] by simp

text \<open>an admitted event reached a bus with a free place; its delivery carries the emitter's
  authority, which permits everything each matching subscription requires, and the levels of the
  installed subscriptions; each handler then runs with a part of that authority that its
  subscription allows.\<close>

lemma admission_is_authorised:
  assumes "admit ev auth g bus = (Inr d, bus')"
  shows "eb_in_flight bus < eb_capacity bus \<and> eb_in_flight bus' = Suc (eb_in_flight bus) \<and>
    dl_authority d = auth \<and> dl_subscriptions d = eb_subscriptions bus \<and> ev_causality (dl_event d) \<noteq> 0 \<and>
    dependency_levels (eb_subscriptions bus) (ev_type ev) (ev_version ev) = Inr (dl_levels d) \<and>
    (\<forall>sid s. sid \<in> set (concat (dl_levels d)) \<longrightarrow> bt_get (eb_subscriptions bus) sid = Some s \<longrightarrow>
       permits_all auth (sub_required (es_spec s)) \<and>
       permits_all auth (handler_authority d sid) \<and>
       permits_all (sub_maximum (es_spec s)) (handler_authority d sid))"
proof -
  have nz: "fst (next_nonzero_id c) \<noteq> 0" for c
  proof (induction c rule: next_nonzero_id.induct)
    case (1 c)
    then show ?case by (subst next_nonzero_id.simps) (auto simp: Let_def)
  qed
  obtain cause where cause: "ev_causality (dl_event d) = cause" "cause \<noteq> 0"
    using assms nz [of "eb_next_root bus"]
    by (auto simp: admit_def Let_def split: prod.splits sum.splits option.splits if_splits)
  have d: "dl_authority d = auth" "dl_subscriptions d = eb_subscriptions bus"
    "dependency_levels (eb_subscriptions bus) (ev_type ev) (ev_version ev) = Inr (dl_levels d)"
    "admission_denied (eb_subscriptions bus) auth (dl_levels d) = None"
    using assms by (auto simp: admit_def Let_def reserve_delivery_def
        split: prod.splits sum.splits option.splits if_splits)
  have "permits_all auth (sub_required (es_spec s))"
    if "sid \<in> set (concat (dl_levels d))" "bt_get (eb_subscriptions bus) sid = Some s" for sid s
    using d(4) that by (fastforce simp: admission_denied_def find_None_iff split: option.splits)
  moreover have "permits_all auth (handler_authority d sid) \<and>
      permits_all (sub_maximum (es_spec s)) (handler_authority d sid)"
    if "bt_get (eb_subscriptions bus) sid = Some s" for sid s
    using d(1,2) that by (simp add: handler_authority_def permits_all_subset)
  ultimately show ?thesis
    using admit_frame [OF assms] d cause by simp
qed

lemma admission_is_authorised_witness:
  "eb_in_flight sample_bus < eb_capacity sample_bus \<and> dl_subscriptions sample_delivery = sample_index"
  using admission_is_authorised [OF sample_admit] by (simp add: sample_delivery_def)

text \<open>without interference a delivery whose failing handlers are all tolerated runs every level
  in order and succeeds; the report lists exactly the handlers that returned and those that
  failed, in schedule order, and the record of running handlers is as before.\<close>

lemma delivery_report_is_exact:
  assumes "eb_revision bus = dl_revision d" "distinct (concat (dl_levels d))"
    "set (concat (dl_levels d)) \<inter> dl_ancestry d = {}"
    "set (concat (dl_levels d)) \<inter> active_for (eb_active bus) (ev_causality (dl_event d)) = {}"
    "list_all (tolerated (dl_subscriptions d) h) (concat (dl_levels d))"
    "rep_delivered (dl_report d) = []" "rep_failures (dl_report d) = []"
  shows "\<exists>rep bus'. execute_delivery h d bus = (DsSucceeded rep, bus') \<and>
     rep_delivered rep = filter (\<lambda>i. h i = HandlerOk) (concat (dl_levels d)) \<and>
     map fst (rep_failures rep) = filter (\<lambda>i. h i \<noteq> HandlerOk) (concat (dl_levels d)) \<and>
     active_for (eb_active bus') = active_for (eb_active bus)"
  using execute_delivery_run [OF assms(1-5)] assms(6,7) by simp

lemma delivery_report_is_exact_witness:
  "\<exists>rep bus'. execute_delivery (\<lambda>_. HandlerOk) sample_delivery sample_bus = (DsSucceeded rep, bus') \<and>
     rep_delivered rep = [''b'', ''a''] \<and> map fst (rep_failures rep) = [] \<and>
     active_for (eb_active bus') = active_for (eb_active sample_bus)"
  using delivery_report_is_exact [of sample_bus sample_delivery "\<lambda>_. HandlerOk"]
  by (simp add: sample_bus_def sample_delivery_def set_subscriptions_def bus_with_capacity_def
      active_for_def wrap_succ64_def tolerated_def)

end
