(* ===== verification/Manifest.thy ===== *)
theory Manifest
  imports Btree_Map Authority Schema Events
begin

text \<open>
  Plugin and component manifests (\<open>phenix-core/src/manifest.rs\<close>): what a plugin and a component
  declare. Priorities are \<open>i32\<close> values, kept as integers because they are only compared; a
  revision of an artifact is the string it renders as. The locale \<open>ranking\<close> is the interface of the
  comparisons by which the registry and the component graph choose among candidates.
\<close>

record plugin_artifact =
  art_locator :: string
  art_revision :: string
  art_configuration :: "(string, phx_value) btree"

datatype plugin_execution = Embedded | Runtime runtime_id plugin_artifact | ResourceOnly

datatype service_role = Terminal | Layer

record service_contribution =
  sc_service :: service_id
  sc_role :: service_role
  sc_priority :: int
  sc_required :: authority

record component_import =
  ci_interface :: interface_id
  ci_schema :: interface_schema
  ci_required :: bool
  ci_authority :: authority

record component_export =
  ce_interface :: interface_id
  ce_schema :: interface_schema
  ce_priority :: int
  ce_required :: authority

datatype listener_projection = ProjectListener | ExactListener

record component_listener =
  cl_id :: subscription_id
  cl_event :: event_type_id
  cl_event_version :: nat
  cl_method :: string
  cl_payload_schema :: phx_type
  cl_projection :: listener_projection
  cl_dependencies :: "subscription_id list"
  cl_failure_policy :: event_failure_policy
  cl_required :: authority

record component_manifest =
  cm_id :: component_id
  cm_owner :: plugin_id
  cm_imports :: "component_import list"
  cm_exports :: "component_export list"
  cm_listeners :: "component_listener list"
  cm_maximum :: authority

text \<open>The life cycle of a configured plugin (\<open>PluginState\<close> of \<open>runtime.rs\<close>).\<close>

datatype plugin_state = Registered | Active | Stopped

record plugin_manifest =
  pm_id :: plugin_id
  pm_version :: nat
  pm_execution :: plugin_execution
  pm_dependencies :: "plugin_id list"
  pm_services :: "service_contribution list"
  pm_namespaces :: "resource_namespace list"
  pm_maximum :: authority

definition resource_only_manifest :: "plugin_id \<Rightarrow> plugin_manifest" where
  "resource_only_manifest i = \<lparr>pm_id = i, pm_version = 1, pm_execution = ResourceOnly,
     pm_dependencies = [], pm_services = [], pm_namespaces = [], pm_maximum = {}\<rparr>"

type_synonym manifests = "(plugin_id, plugin_manifest) btree"

text \<open>A comparison by which candidates are ranked; the best candidate comes first.\<close>

locale ranking =
  fixes le :: "'a \<Rightarrow> 'a \<Rightarrow> bool"
  assumes total: "le x y \<or> le y x"
    and trans: "le x y \<Longrightarrow> le y z \<Longrightarrow> le x z"
begin

lemma preorder: "total_preorder le"
  using total trans unfolding total_preorder_def by blast

lemma best_first: "sort_by le xs = y # ys \<Longrightarrow> x \<in> set xs \<Longrightarrow> le y x"
  by (rule sort_by_hd_best [OF preorder])

lemma head_in: "sort_by le xs = y # ys \<Longrightarrow> y \<in> set xs"
  using set_sort_by [of le xs] by auto

lemma ranked: "sorted_wrt le (sort_by le xs)"
  by (rule sorted_sort_by [OF preorder])

lemma sorted_unique:
  "sorted_wrt le xs \<Longrightarrow> sorted_wrt le ys \<Longrightarrow> distinct xs \<Longrightarrow> distinct ys \<Longrightarrow> set xs = set ys \<Longrightarrow>
     (\<And>x y. x \<in> set xs \<Longrightarrow> y \<in> set xs \<Longrightarrow> le x y \<Longrightarrow> le y x \<Longrightarrow> x = y) \<Longrightarrow> xs = ys"
proof (induction xs arbitrary: ys)
  case (Cons x xs)
  then obtain y ys' where ys: "ys = y # ys'" by (cases ys) auto
  have "x = y"
  proof (rule ccontr)
    assume "x \<noteq> y"
    moreover have "y \<in> set (x # xs)" "x \<in> set (y # ys')"
      using Cons.prems(5) ys by (metis list.set_intros(1))+
    ultimately have "le y x" "le x y" using Cons.prems(1,2) ys by auto
    moreover have "y \<in> set (x # xs)" by fact
    ultimately show False using Cons.prems(6) [of x y] \<open>x \<noteq> y\<close> by simp
  qed
  moreover have "xs = ys'"
  proof (rule Cons.IH)
    show "set xs = set ys'" using Cons.prems(3,4,5) ys \<open>x = y\<close> by (auto simp: insert_eq_iff)
    show "\<And>u v. u \<in> set xs \<Longrightarrow> v \<in> set xs \<Longrightarrow> le u v \<Longrightarrow> le v u \<Longrightarrow> u = v"
      by (rule Cons.prems(6)) simp_all
  qed (use Cons.prems ys in auto)
  ultimately show ?case using ys by simp
qed simp

text \<open>The ranking does not depend on the order in which distinct candidates were found.\<close>

lemma order_independent:
  assumes "distinct xs" "distinct ys" "set xs = set ys"
    and "\<And>x y. x \<in> set xs \<Longrightarrow> y \<in> set xs \<Longrightarrow> le x y \<Longrightarrow> le y x \<Longrightarrow> x = y"
  shows "sort_by le xs = sort_by le ys"
  by (rule sorted_unique [OF ranked ranked]) (use assms in auto)

end

end
