(* ===== verification/Dfs.thy ===== *)
theory Dfs
  imports Main
begin

text \<open>
  Depth-first search with a stack of the nodes being visited and the list of finished nodes. The
  plugin registry and the component graph each run this search with their own bookkeeping; their
  models are shown to compute this function, so that order, cycles and termination are proved once.
  The recursion is bounded by fuel; more fuel than nodes is enough.
\<close>

function (sequential) dfs ::
    "nat \<Rightarrow> ('k \<Rightarrow> 'k list) \<Rightarrow> 'k list \<Rightarrow> 'k list \<Rightarrow> 'k \<Rightarrow> ('k list + 'k list) option"
  and dfs_list ::
    "nat \<Rightarrow> ('k \<Rightarrow> 'k list) \<Rightarrow> 'k list \<Rightarrow> 'k list \<Rightarrow> 'k list \<Rightarrow> ('k list + 'k list) option" where
  "dfs 0 succ stack finished k = None"
| "dfs (Suc n) succ stack finished k =
     (if k \<in> set stack then Some (Inl (dropWhile (\<lambda>j. j \<noteq> k) stack @ [k]))
      else if k \<in> set finished then Some (Inr finished)
      else case dfs_list n succ (stack @ [k]) finished (succ k) of
          None \<Rightarrow> None
        | Some (Inl path) \<Rightarrow> Some (Inl path)
        | Some (Inr finished') \<Rightarrow> Some (Inr (finished' @ [k])))"
| "dfs_list n succ stack finished [] = Some (Inr finished)"
| "dfs_list n succ stack finished (k # ks) =
     (case dfs n succ stack finished k of
        None \<Rightarrow> None
      | Some (Inl path) \<Rightarrow> Some (Inl path)
      | Some (Inr finished') \<Rightarrow> dfs_list n succ stack finished' ks)"
  by pat_completeness auto
termination
  by (relation "inv_image (less_than <*lex*> less_than)
      (\<lambda>x. case x of Inl (n, _, _, _, _) \<Rightarrow> (n, 0) | Inr (n, _, _, _, ks) \<Rightarrow> (n, Suc (length ks)))") auto

text \<open>The whole search: every root in turn.\<close>

definition dfs_all :: "nat \<Rightarrow> ('k \<Rightarrow> 'k list) \<Rightarrow> 'k list \<Rightarrow> ('k list + 'k list) option" where
  "dfs_all n succ roots = dfs_list n succ [] [] roots"

subsection \<open>What the search returns\<close>

text \<open>Every finished node comes once, after all its successors.\<close>

definition closed_order :: "('k \<Rightarrow> 'k list) \<Rightarrow> 'k list \<Rightarrow> bool" where
  "closed_order succ xs \<longleftrightarrow>
     (\<forall>i<length xs. set (succ (xs ! i)) \<subseteq> set (take i xs) \<and> xs ! i \<notin> set (take i xs))"

fun chain :: "('k \<Rightarrow> 'k list) \<Rightarrow> 'k list \<Rightarrow> bool" where
  "chain succ [] = True"
| "chain succ [x] = True"
| "chain succ (x # y # zs) = (y \<in> set (succ x) \<and> chain succ (y # zs))"

definition is_cycle :: "('k \<Rightarrow> 'k list) \<Rightarrow> 'k list \<Rightarrow> bool" where
  "is_cycle succ p \<longleftrightarrow> 2 \<le> length p \<and> hd p = last p \<and> chain succ p"

lemma closed_order_snoc:
  "closed_order succ xs \<Longrightarrow> k \<notin> set xs \<Longrightarrow> set (succ k) \<subseteq> set xs \<Longrightarrow> closed_order succ (xs @ [k])"
  by (auto simp: closed_order_def nth_append less_Suc_eq)

lemma chain_snoc: "chain succ (xs @ [x, y]) \<longleftrightarrow> chain succ (xs @ [x]) \<and> y \<in> set (succ x)"
proof (induction xs)
  case (Cons a xs)
  then show ?case by (cases xs) auto
qed simp

lemma chain_append_single:
  "chain succ (xs @ [y]) \<longleftrightarrow> chain succ xs \<and> (xs = [] \<or> y \<in> set (succ (last xs)))"
proof (cases xs rule: rev_cases)
  case (snoc zs z)
  then show ?thesis using chain_snoc [of succ zs z y] by auto
qed simp

lemma chain_tail: "chain succ (xs @ ys) \<Longrightarrow> chain succ ys"
proof (induction xs)
  case (Cons x xs)
  then show ?case by (cases "xs @ ys") auto
qed simp

lemma cycle_found:
  assumes "k \<in> set stack" "chain succ (stack @ [k])"
  shows "is_cycle succ (dropWhile (\<lambda>j. j \<noteq> k) stack @ [k])"
proof -
  let ?d = "dropWhile (\<lambda>j. j \<noteq> k) stack"
  have "?d \<noteq> []" using assms(1) by (auto simp: dropWhile_eq_Nil_conv)
  moreover from this have "hd ?d = k" using hd_dropWhile by blast
  moreover have "chain succ (takeWhile (\<lambda>j. j \<noteq> k) stack @ ?d @ [k])"
    using assms(2) by (metis append.assoc takeWhile_dropWhile_id)
  then have "chain succ (?d @ [k])" by (rule chain_tail)
  ultimately show ?thesis by (cases ?d) (auto simp: is_cycle_def)
qed

text \<open>
  The invariant of a visit: the stack is a path to the node, finished nodes are in order, and the
  two are disjoint.
\<close>

lemma dfs_sound:
  "dfs n succ stack finished k = Some r \<Longrightarrow> chain succ (stack @ [k]) \<Longrightarrow> closed_order succ finished \<Longrightarrow>
     set stack \<inter> set finished = {} \<Longrightarrow>
     (case r of
        Inl p \<Rightarrow> is_cycle succ p
      | Inr fin' \<Rightarrow> closed_order succ fin' \<and> set finished \<subseteq> set fin' \<and> k \<in> set fin' \<and>
          set stack \<inter> set fin' = {})"
  "dfs_list n succ stack finished ks = Some r \<Longrightarrow>
     (\<forall>k\<in>set ks. chain succ (stack @ [k])) \<Longrightarrow> closed_order succ finished \<Longrightarrow>
     set stack \<inter> set finished = {} \<Longrightarrow>
     (case r of
        Inl p \<Rightarrow> is_cycle succ p
      | Inr fin' \<Rightarrow> closed_order succ fin' \<and> set finished \<subseteq> set fin' \<and> set ks \<subseteq> set fin' \<and>
          set stack \<inter> set fin' = {})"
proof (induction n succ stack finished k and n succ stack finished ks arbitrary: r and r rule: dfs_dfs_list.induct)
  case (1 succ stack finished k)
  then show ?case by simp
next
  case (2 n succ stack finished k)
  show ?case
  proof (cases "k \<in> set stack \<or> k \<in> set finished")
    case True
    show ?thesis
    proof (cases "k \<in> set stack")
      case True
      with 2(2) have "r = Inl (dropWhile (\<lambda>j. j \<noteq> k) stack @ [k])" by simp
      with cycle_found [OF True 2(3)] show ?thesis by simp
    next
      case False
      with True 2(2) have "r = Inr finished" by simp
      with True False 2(4,5) show ?thesis by simp
    qed
  next
    case False
    then obtain r1 where r1: "dfs_list n succ (stack @ [k]) finished (succ k) = Some r1"
      using 2(2) by (auto split: option.splits)
    have "\<forall>j\<in>set (succ k). chain succ ((stack @ [k]) @ [j])"
      using 2(3) by (simp add: chain_snoc)
    with 2(1) [OF _ _ r1] False 2(4,5)
    have r1': "case r1 of
        Inl p \<Rightarrow> is_cycle succ p
      | Inr fin' \<Rightarrow> closed_order succ fin' \<and> set finished \<subseteq> set fin' \<and> set (succ k) \<subseteq> set fin' \<and>
          set (stack @ [k]) \<inter> set fin' = {}"
      by simp
    show ?thesis
    proof (cases r1)
      case (Inl p)
      with 2(2) False r1 r1' show ?thesis by auto
    next
      case (Inr fin')
      with 2(2) False r1 have "r = Inr (fin' @ [k])" by simp
      with Inr r1' False show ?thesis by (auto intro: closed_order_snoc)
    qed
  qed
next
  case (3 n succ stack finished)
  from 3(1) have "r = Inr finished" by simp
  with 3 show ?case by simp
next
  case (4 n succ stack finished k ks)
  then obtain r1 where r1: "dfs n succ stack finished k = Some r1"
    by (auto split: option.splits)
  show ?case
  proof (cases r1)
    case (Inl p)
    with 4 r1 show ?thesis by auto
  next
    case (Inr fin1)
    with 4(1) [OF r1] 4(4-6) have f1: "closed_order succ fin1" "set finished \<subseteq> set fin1" "k \<in> set fin1"
      "set stack \<inter> set fin1 = {}" by auto
    from 4(3) r1 Inr have "dfs_list n succ stack fin1 ks = Some r" by simp
    from 4(2) [OF r1 Inr this] 4(4) f1 show ?thesis by (auto split: sum.splits)
  qed
qed

lemma dfs_returns:
  "finite N \<Longrightarrow> \<forall>j\<in>N. set (succ j) \<subseteq> N \<Longrightarrow> k \<in> N \<Longrightarrow> card (N - set stack) < n \<Longrightarrow>
     dfs n succ stack finished k \<noteq> None"
  "finite N \<Longrightarrow> \<forall>j\<in>N. set (succ j) \<subseteq> N \<Longrightarrow> set ks \<subseteq> N \<Longrightarrow> card (N - set stack) < n \<Longrightarrow>
     dfs_list n succ stack finished ks \<noteq> None"
proof (induction n succ stack finished k and n succ stack finished ks rule: dfs_dfs_list.induct)
  case (2 n succ stack finished k)
  show ?case
  proof (cases "k \<in> set stack \<or> k \<in> set finished")
    case False
    then have "N - set (stack @ [k]) \<subset> N - set stack" using 2(4) by auto
    then have "card (N - set (stack @ [k])) < card (N - set stack)"
      using 2(2) by (intro psubset_card_mono) auto
    with 2(5) have "card (N - set (stack @ [k])) < n" by simp
    with 2 False have "dfs_list n succ (stack @ [k]) finished (succ k) \<noteq> None" by simp
    with False show ?thesis by (auto split: sum.splits)
  qed auto
next
  case (4 n succ stack finished k ks)
  then have "dfs n succ stack finished k \<noteq> None" by simp
  then obtain r1 where r1: "dfs n succ stack finished k = Some r1" by auto
  show ?case
  proof (cases r1)
    case (Inr fin1)
    with 4 r1 show ?thesis by simp
  qed (simp add: r1)
qed auto

lemma dfs_within:
  "dfs n succ stack finished k = Some (Inr fin') \<Longrightarrow> \<forall>j\<in>N. set (succ j) \<subseteq> N \<Longrightarrow> k \<in> N \<Longrightarrow>
     set finished \<subseteq> N \<Longrightarrow> set fin' \<subseteq> N"
  "dfs_list n succ stack finished ks = Some (Inr fin') \<Longrightarrow> \<forall>j\<in>N. set (succ j) \<subseteq> N \<Longrightarrow> set ks \<subseteq> N \<Longrightarrow>
     set finished \<subseteq> N \<Longrightarrow> set fin' \<subseteq> N"
proof (induction n succ stack finished k and n succ stack finished ks arbitrary: fin' and fin'
    rule: dfs_dfs_list.induct)
  case (2 n succ stack finished k)
  then show ?case by (auto split: if_splits option.splits sum.splits)
next
  case (4 n succ stack finished k ks)
  then show ?case by (auto split: option.splits sum.splits)
qed auto


subsection \<open>An order excludes cycles\<close>

lemma closed_order_distinct: "closed_order succ xs \<Longrightarrow> distinct xs"
proof (induction xs rule: rev_induct)
  case (snoc x xs)
  have "closed_order succ xs"
    unfolding closed_order_def
  proof (intro allI impI)
    fix i assume "i < length xs"
    with snoc.prems show "set (succ (xs ! i)) \<subseteq> set (take i xs) \<and> xs ! i \<notin> set (take i xs)"
      by (auto simp: closed_order_def nth_append dest!: spec [of _ i])
  qed
  moreover have "x \<notin> set xs"
    using snoc.prems by (auto simp: closed_order_def dest!: spec [of _ "length xs"])
  ultimately show ?case using snoc.IH by simp
qed simp

lemma closed_order_succ:
  assumes "closed_order succ xs" "i < length xs" "j \<in> set (succ (xs ! i))"
  shows "\<exists>i'<i. xs ! i' = j"
  using assms by (fastforce simp: closed_order_def in_set_conv_nth)

lemma closed_order_chain:
  "closed_order succ xs \<Longrightarrow> chain succ (x # p) \<Longrightarrow> i < length xs \<Longrightarrow> xs ! i = x \<Longrightarrow> p \<noteq> [] \<Longrightarrow>
     \<exists>i'<i. xs ! i' = last p"
proof (induction p arbitrary: x i)
  case (Cons y p)
  then obtain i' where i': "i' < i" "xs ! i' = y"
    using closed_order_succ [of succ xs i y] by auto
  show ?case
  proof (cases "p = []")
    case True
    with i' show ?thesis by auto
  next
    case False
    have "\<exists>i''<i'. xs ! i'' = last p"
      by (rule Cons.IH) (use Cons.prems i' False in auto)
    then obtain i'' where "i'' < i'" "xs ! i'' = last p" by blast
    with i' False show ?thesis by (auto intro: exI [of _ i''])
  qed
qed simp

lemma closed_order_acyclic:
  assumes "closed_order succ xs" "is_cycle succ p"
  shows "hd p \<notin> set xs"
proof
  assume "hd p \<in> set xs"
  then obtain i where i: "i < length xs" "xs ! i = hd p" by (auto simp: in_set_conv_nth)
  from assms(2) obtain q where q: "p = hd p # q" "q \<noteq> []" "last q = hd p" "chain succ p"
    by (cases p; cases "tl p") (auto simp: is_cycle_def)
  then have "chain succ (hd p # q)" by metis
  from closed_order_chain [OF assms(1) this i q(2)] q(3) obtain i' where
    "i' < i" "xs ! i' = hd p" by auto
  with i closed_order_distinct [OF assms(1)] show False
    by (metis less_trans nat_less_le nth_eq_iff_index_eq)
qed

text \<open>The whole search over a finite closed set of roots.\<close>

lemma dfs_all_ok:
  assumes "dfs_all n succ roots = Some (Inr xs)" "\<forall>j\<in>set roots. set (succ j) \<subseteq> set roots"
  shows "closed_order succ xs" "set xs = set roots" "distinct xs"
proof -
  have "case Inr xs of Inl p \<Rightarrow> is_cycle succ p
      | Inr fin' \<Rightarrow> closed_order succ fin' \<and> set [] \<subseteq> set fin' \<and> set roots \<subseteq> set fin' \<and> set [] \<inter> set fin' = {}"
    by (rule dfs_sound(2) [OF assms(1) [unfolded dfs_all_def]]) (auto simp: closed_order_def)
  then have "closed_order succ xs" "set roots \<subseteq> set xs" by auto
  moreover have "set xs \<subseteq> set roots"
    by (rule dfs_within(2) [OF assms(1) [unfolded dfs_all_def]]) (use assms(2) in auto)
  ultimately show "closed_order succ xs" "set xs = set roots" "distinct xs"
    by (auto intro: closed_order_distinct)
qed

lemma dfs_all_cycle: "dfs_all n succ roots = Some (Inl p) \<Longrightarrow> is_cycle succ p"
  using dfs_sound(2) [of n succ "[]" "[]" roots "Inl p"]
  by (auto simp: dfs_all_def closed_order_def)

lemma dfs_all_returns:
  assumes "\<forall>j\<in>set roots. set (succ j) \<subseteq> set roots" "length roots < n"
  shows "dfs_all n succ roots \<noteq> None"
  unfolding dfs_all_def
  by (rule dfs_returns(2) [of "set roots"])
    (use assms card_length [of roots] in \<open>auto intro: le_less_trans\<close>)

end
