(* ===== verification/Registry.thy ===== *)
theory Registry
  imports Manifest Dfs
begin

text \<open>
  The plugin registry (\<open>phenix-core/src/registry.rs\<close>): validation of a set of plugin manifests into
  a kernel configuration (namespace owners, runtime providers and bindings, activation order) and
  resolution of service chains (authority-filtered terminal, configured layers).
\<close>

datatype kernel_error =
  DuplicatePlugin plugin_id
| UnknownDependency plugin_id plugin_id
| DependencyCycle plugin_id
| DuplicateResourceNamespace resource_namespace
| DuplicateServiceContribution plugin_id service_id
| ResourceOnlyService plugin_id
| UnknownPlugin plugin_id
| NoEligibleProvider service_id
| BoundProviderUnavailable service_id plugin_id
| DuplicateLayerPolicy service_id plugin_id
| RequiredLayerUnavailable service_id plugin_id
| PluginNotActive plugin_id
| HostOperationDenied plugin_id string
| PersistenceFailed plugin_id string
| WrongExecutionKind plugin_id
| RuntimeProviderUnavailable runtime_id
| DuplicateRuntimeProvider runtime_id plugin_id plugin_id
| ReservedRuntimeProvider plugin_id
| RuntimeProviderNotExecutable runtime_id plugin_id

record runtime_binding =
  rb_guest :: plugin_id
  rb_runtime :: runtime_id
  rb_provider :: plugin_id
  rb_revision :: string

definition embedded_runtime :: string where "embedded_runtime = ''embedded''"
definition provider_prefix :: string where "provider_prefix = ''phenix.kernel.runtime-provider/''"
definition provider_version :: string where "provider_version = ''@1''"

definition runtime_provider_service :: "runtime_id \<Rightarrow> service_id" where
  "runtime_provider_service runtime = provider_prefix @ runtime @ provider_version"

definition strip_prefix_opt :: "string \<Rightarrow> string \<Rightarrow> string option" where
  "strip_prefix_opt p s = (if take (length p) s = p then Some (drop (length p) s) else None)"

definition strip_suffix_opt :: "string \<Rightarrow> string \<Rightarrow> string option" where
  "strip_suffix_opt x s = map_option rev (strip_prefix_opt (rev x) (rev s))"

definition runtime_provider_runtime :: "service_id \<Rightarrow> runtime_id option" where
  "runtime_provider_runtime service =
     Option.bind (strip_prefix_opt provider_prefix service) (\<lambda>rest.
     Option.bind (strip_suffix_opt provider_version rest) (\<lambda>runtime.
       case parse_identifier runtime of Inr r \<Rightarrow> Some r | Inl _ \<Rightarrow> None))"

record provider_binding =
  pb_service :: service_id
  pb_plugin :: plugin_id
  pb_priority :: int

record service_chain =
  ch_policy :: nat
  ch_service :: service_id
  ch_layers :: "provider_binding list"
  ch_terminal :: provider_binding

record layer_policy =
  lp_plugin :: plugin_id
  lp_priority :: int
  lp_required :: bool
  lp_enabled :: bool

record kernel_config =
  kc_manifests :: manifests
  kc_activation :: "plugin_id list"
  kc_namespaces :: "(resource_namespace, plugin_id) btree"
  kc_layers :: "(service_id, layer_policy list) btree"
  kc_providers :: "(runtime_id, plugin_id) btree"
  kc_bindings :: "(plugin_id, runtime_binding) btree"
  kc_policy :: nat

subsection \<open>Validation of manifests\<close>

fun claim_namespaces ::
    "plugin_id \<Rightarrow> (resource_namespace, plugin_id) btree \<Rightarrow> resource_namespace list
     \<Rightarrow> kernel_error + (resource_namespace, plugin_id) btree" where
  "claim_namespaces plugin owners [] = Inr owners"
| "claim_namespaces plugin owners (ns # rest) =
     (if bt_has owners ns then Inl (DuplicateResourceNamespace ns)
      else claim_namespaces plugin (bt_insert ns plugin owners) rest)"

definition validate_namespaces :: "manifests \<Rightarrow> kernel_error + (resource_namespace, plugin_id) btree" where
  "validate_namespaces ms =
     try_fold (\<lambda>owners m. claim_namespaces (pm_id m) owners (pm_namespaces m)) [] (bt_vals ms)"

fun check_contributions ::
    "plugin_id \<Rightarrow> service_id set \<Rightarrow> service_contribution list \<Rightarrow> kernel_error + unit" where
  "check_contributions plugin seen [] = Inr ()"
| "check_contributions plugin seen (c # cs) =
     (if sc_service c \<in> seen then Inl (DuplicateServiceContribution plugin (sc_service c))
      else check_contributions plugin (insert (sc_service c) seen) cs)"

definition validate_contributions :: "manifests \<Rightarrow> kernel_error + unit" where
  "validate_contributions ms = try_each (\<lambda>m.
     if pm_execution m = ResourceOnly \<and> pm_services m \<noteq> [] then Inl (ResourceOnlyService (pm_id m))
     else check_contributions (pm_id m) {} (pm_services m)) (bt_vals ms)"

definition add_runtime_provider ::
    "plugin_manifest \<Rightarrow> (runtime_id, plugin_id) btree \<Rightarrow> service_contribution
     \<Rightarrow> kernel_error + (runtime_id, plugin_id) btree" where
  "add_runtime_provider m providers c =
     (case runtime_provider_runtime (sc_service c) of
        None \<Rightarrow> Inr providers
      | Some runtime \<Rightarrow>
          if runtime = embedded_runtime then Inl (ReservedRuntimeProvider (pm_id m))
          else if sc_role c \<noteq> Terminal \<or> pm_execution m = ResourceOnly
            then Inl (RuntimeProviderNotExecutable runtime (pm_id m))
          else (case bt_get providers runtime of
              Some first \<Rightarrow> Inl (DuplicateRuntimeProvider runtime first (pm_id m))
            | None \<Rightarrow> Inr (bt_insert runtime (pm_id m) providers)))"

definition resolve_runtime_providers :: "manifests \<Rightarrow> kernel_error + (runtime_id, plugin_id) btree" where
  "resolve_runtime_providers ms =
     try_fold (\<lambda>providers m. try_fold (add_runtime_provider m) providers (pm_services m)) [] (bt_vals ms)"

definition add_runtime_binding ::
    "(runtime_id, plugin_id) btree \<Rightarrow> (plugin_id, runtime_binding) btree \<Rightarrow> plugin_manifest
     \<Rightarrow> kernel_error + (plugin_id, runtime_binding) btree" where
  "add_runtime_binding providers bindings m =
     (case pm_execution m of
        Runtime runtime artifact \<Rightarrow>
          if runtime = embedded_runtime then Inl (RuntimeProviderUnavailable runtime)
          else rbind (ok_or (RuntimeProviderUnavailable runtime) (bt_get providers runtime)) (\<lambda>provider.
            Inr (bt_insert (pm_id m) \<lparr>rb_guest = pm_id m, rb_runtime = runtime, rb_provider = provider,
              rb_revision = art_revision artifact\<rparr> bindings))
      | _ \<Rightarrow> Inr bindings)"

definition resolve_runtime_bindings ::
    "manifests \<Rightarrow> (runtime_id, plugin_id) btree \<Rightarrow> kernel_error + (plugin_id, runtime_binding) btree" where
  "resolve_runtime_bindings ms providers = try_fold (add_runtime_binding providers) [] (bt_vals ms)"

subsection \<open>Activation order\<close>

datatype visit_mark = Visiting | Done

text \<open>What a visit goes on to: the declared dependencies, then the provider of the plugin's runtime.\<close>

definition plugin_succ ::
    "manifests \<Rightarrow> (plugin_id, runtime_binding) btree \<Rightarrow> plugin_id \<Rightarrow> plugin_id list" where
  "plugin_succ ms bindings p =
     (case bt_get ms p of Some m \<Rightarrow> pm_dependencies m | None \<Rightarrow> []) @
     (case bt_get bindings p of Some b \<Rightarrow> [rb_provider b] | None \<Rightarrow> [])"

text \<open>
  The recursive \<open>visit\<close>. \<open>None\<close> stands for a recursion deeper than the fuel and for the panic of
  indexing an unknown plugin; neither happens in \<open>dependency_order\<close>.
\<close>

type_synonym visit_state = "(plugin_id, visit_mark) btree \<times> plugin_id list"

function (sequential) visit ::
    "nat \<Rightarrow> manifests \<Rightarrow> (plugin_id, runtime_binding) btree \<Rightarrow> visit_state \<Rightarrow> plugin_id
     \<Rightarrow> (kernel_error + visit_state) option"
  and visit_each ::
    "nat \<Rightarrow> manifests \<Rightarrow> (plugin_id, runtime_binding) btree \<Rightarrow> visit_state \<Rightarrow> plugin_id list
     \<Rightarrow> (kernel_error + visit_state) option" where
  "visit 0 ms bindings st p = None"
| "visit (Suc n) ms bindings (visits, order) p =
     (case bt_get visits p of
        Some Done \<Rightarrow> Some (Inr (visits, order))
      | Some Visiting \<Rightarrow> Some (Inl (DependencyCycle p))
      | None \<Rightarrow>
          if bt_get ms p = None then None
          else (case visit_each n ms bindings (bt_insert p Visiting visits, order) (plugin_succ ms bindings p) of
              None \<Rightarrow> None
            | Some (Inl e) \<Rightarrow> Some (Inl e)
            | Some (Inr (visits', order')) \<Rightarrow> Some (Inr (bt_insert p Done visits', order' @ [p]))))"
| "visit_each n ms bindings st [] = Some (Inr st)"
| "visit_each n ms bindings st (p # ps) =
     (case visit n ms bindings st p of
        None \<Rightarrow> None
      | Some (Inl e) \<Rightarrow> Some (Inl e)
      | Some (Inr st') \<Rightarrow> visit_each n ms bindings st' ps)"
  by pat_completeness auto
termination
  by (relation "inv_image (less_than <*lex*> less_than)
      (\<lambda>x. case x of Inl (n, _, _, _, _) \<Rightarrow> (n, 0) | Inr (n, _, _, _, ps) \<Rightarrow> (n, Suc (length ps)))") auto

definition check_known :: "manifests \<Rightarrow> plugin_manifest \<Rightarrow> kernel_error + unit" where
  "check_known ms m = try_each (\<lambda>d.
     if bt_has ms d then Inr () else Inl (UnknownDependency (pm_id m) d)) (pm_dependencies m)"

definition dependency_order ::
    "manifests \<Rightarrow> (plugin_id, runtime_binding) btree \<Rightarrow> (kernel_error + plugin_id list) option" where
  "dependency_order ms bindings =
     (case try_each (check_known ms) (bt_vals ms) of
        Inl e \<Rightarrow> Some (Inl e)
      | Inr _ \<Rightarrow>
          map_option (map_sum (\<lambda>e. e) snd)
            (visit_each (Suc (length ms)) ms bindings ([], []) (bt_keys ms)))"


subsection \<open>The configuration\<close>

text \<open>
  \<open>KernelConfig::new\<close>; the policy identity is drawn from a global counter, an argument here. The
  outer \<open>None\<close> would be a panic.
\<close>

definition prepare_config ::
    "plugin_manifest list \<Rightarrow> kernel_error + (manifests \<times> (resource_namespace, plugin_id) btree \<times>
       (runtime_id, plugin_id) btree \<times> (plugin_id, runtime_binding) btree)" where
  "prepare_config manifests =
     rbind (map_err DuplicatePlugin (bt_index pm_id [] manifests)) (\<lambda>indexed.
     rbind (validate_namespaces indexed) (\<lambda>owners.
     rbind (validate_contributions indexed) (\<lambda>_.
     rbind (resolve_runtime_providers indexed) (\<lambda>providers.
     rbind (resolve_runtime_bindings indexed providers) (\<lambda>bindings.
       Inr (indexed, owners, providers, bindings))))))"

definition config_new :: "nat \<Rightarrow> plugin_manifest list \<Rightarrow> (kernel_error + kernel_config) option" where
  "config_new identity manifests =
     (case prepare_config manifests of
        Inl e \<Rightarrow> Some (Inl e)
      | Inr (indexed, owners, providers, bindings) \<Rightarrow>
          map_option (map_sum (\<lambda>e. e) (\<lambda>order.
            \<lparr>kc_manifests = indexed, kc_activation = order, kc_namespaces = owners, kc_layers = [],
              kc_providers = providers, kc_bindings = bindings, kc_policy = identity\<rparr>))
            (dependency_order indexed bindings))"

definition resource_owner :: "kernel_config \<Rightarrow> resource_namespace \<Rightarrow> plugin_id option" where
  "resource_owner c ns = bt_get (kc_namespaces c) ns"

fun check_layers :: "service_id \<Rightarrow> plugin_id set \<Rightarrow> layer_policy list \<Rightarrow> kernel_error + unit" where
  "check_layers service seen [] = Inr ()"
| "check_layers service seen (l # ls) =
     (if lp_plugin l \<in> seen then Inl (DuplicateLayerPolicy service (lp_plugin l))
      else check_layers service (insert (lp_plugin l) seen) ls)"

definition with_layer_policy ::
    "nat \<Rightarrow> service_id \<Rightarrow> layer_policy list \<Rightarrow> kernel_config \<Rightarrow> kernel_error + kernel_config" where
  "with_layer_policy identity service layers c =
     rbind (check_layers service {} layers) (\<lambda>_.
       Inr (c\<lparr>kc_layers := bt_insert service layers (kc_layers c), kc_policy := identity\<rparr>))"

definition layer_policies :: "kernel_config \<Rightarrow> service_id \<Rightarrow> layer_policy list" where
  "layer_policies c service = (case bt_get (kc_layers c) service of Some ls \<Rightarrow> ls | None \<Rightarrow> [])"

definition can_execute :: "kernel_config \<Rightarrow> plugin_id \<Rightarrow> kernel_error + bool" where
  "can_execute c p = rbind (ok_or (UnknownPlugin p) (bt_get (kc_manifests c) p)) (\<lambda>m.
     Inr (pm_execution m \<noteq> ResourceOnly))"

subsection \<open>Service chains\<close>

text \<open>Higher priority first, then plugin identity.\<close>

definition binding_le :: "provider_binding \<Rightarrow> provider_binding \<Rightarrow> bool" where
  "binding_le l r \<longleftrightarrow>
     (pb_priority l > pb_priority r \<or> (pb_priority l = pb_priority r \<and> pb_plugin l \<le> pb_plugin r))"

definition candidate_terminals ::
    "kernel_config \<Rightarrow> service_id \<Rightarrow> authority \<Rightarrow> plugin_id option \<Rightarrow> provider_binding list" where
  "candidate_terminals c service auth binding = concat (map (\<lambda>m. filter_map (\<lambda>k.
     if sc_role k \<noteq> Terminal \<or> sc_service k \<noteq> service \<or> \<not> permits_all auth (sc_required k) then None
     else if binding = None \<or> binding = Some (pm_id m)
       then Some \<lparr>pb_service = service, pb_plugin = pm_id m, pb_priority = sc_priority k\<rparr>
     else None) (pm_services m)) (bt_vals (kc_manifests c)))"

definition layer_contribution :: "kernel_config \<Rightarrow> service_id \<Rightarrow> plugin_id \<Rightarrow> service_contribution option" where
  "layer_contribution c service p =
     Option.bind (bt_get (kc_manifests c) p) (\<lambda>m.
       find (\<lambda>k. sc_role k = Layer \<and> sc_service k = service) (pm_services m))"

definition add_layer ::
    "kernel_config \<Rightarrow> service_id \<Rightarrow> authority \<Rightarrow> provider_binding list \<Rightarrow> layer_policy
     \<Rightarrow> kernel_error + provider_binding list" where
  "add_layer c service auth layers policy =
     (if \<not> lp_enabled policy then
        (if lp_required policy then Inl (RequiredLayerUnavailable service (lp_plugin policy)) else Inr layers)
      else case layer_contribution c service (lp_plugin policy) of
          Some k \<Rightarrow>
            if permits_all auth (sc_required k) then
              Inr (layers @ [\<lparr>pb_service = service, pb_plugin = lp_plugin policy,
                pb_priority = lp_priority policy\<rparr>])
            else if lp_required policy then Inl (RequiredLayerUnavailable service (lp_plugin policy))
            else Inr layers
        | None \<Rightarrow>
            if lp_required policy then Inl (RequiredLayerUnavailable service (lp_plugin policy))
            else Inr layers)"

definition resolve_layers ::
    "kernel_config \<Rightarrow> service_id \<Rightarrow> authority \<Rightarrow> kernel_error + provider_binding list" where
  "resolve_layers c service auth =
     rbind (try_fold (add_layer c service auth) [] (layer_policies c service))
       (\<lambda>layers. Inr (sort_by binding_le layers))"

definition resolve_chain ::
    "kernel_config \<Rightarrow> service_id \<Rightarrow> authority \<Rightarrow> plugin_id option \<Rightarrow> kernel_error + service_chain" where
  "resolve_chain c service auth binding =
     (let terminals = candidate_terminals c service auth binding
      in rbind (resolve_layers c service auth) (\<lambda>layers.
         case sort_by binding_le terminals of
           terminal # _ \<Rightarrow> Inr \<lparr>ch_policy = kc_policy c, ch_service = service, ch_layers = layers,
             ch_terminal = terminal\<rparr>
         | [] \<Rightarrow> (case binding of
             Some p \<Rightarrow> Inl (BoundProviderUnavailable service p)
           | None \<Rightarrow> Inl (NoEligibleProvider service))))"

definition resolve_component_chain ::
    "kernel_config \<Rightarrow> service_id \<Rightarrow> authority \<Rightarrow> plugin_id \<Rightarrow> kernel_error + service_chain" where
  "resolve_component_chain c service auth p =
     rbind (ok_or (UnknownPlugin p) (bt_get (kc_manifests c) p)) (\<lambda>m.
       if pm_execution m = ResourceOnly then Inl (WrongExecutionKind p)
       else rbind (resolve_layers c service auth) (\<lambda>layers.
         Inr \<lparr>ch_policy = kc_policy c, ch_service = service, ch_layers = layers,
           ch_terminal = \<lparr>pb_service = service, pb_plugin = p, pb_priority = 0\<rparr>\<rparr>))"

definition resolve_service ::
    "kernel_config \<Rightarrow> service_id \<Rightarrow> authority \<Rightarrow> plugin_id option \<Rightarrow> kernel_error + provider_binding" where
  "resolve_service c service auth binding =
     rbind (resolve_chain c service auth binding) (\<lambda>ch. Inr (ch_terminal ch))"

interpretation bind_rank: ranking binding_le
  by unfold_locales (auto simp: binding_le_def)

subsection \<open>The search computes the generic depth-first search\<close>

definition marks :: "(plugin_id, visit_mark) btree \<Rightarrow> plugin_id list \<Rightarrow> plugin_id list \<Rightarrow> bool" where
  "marks visits stack finished \<longleftrightarrow> (\<forall>k. bt_get visits k =
     (if k \<in> set stack then Some Visiting else if k \<in> set finished then Some Done else None))"

fun agrees ::
    "plugin_id list \<Rightarrow> (kernel_error + visit_state) option \<Rightarrow> (plugin_id list + plugin_id list) option \<Rightarrow> bool" where
  "agrees stack None None = True"
| "agrees stack (Some (Inl e)) (Some (Inl p)) = (e = DependencyCycle (last p))"
| "agrees stack (Some (Inr (visits, order))) (Some (Inr finished)) =
     (order = finished \<and> marks visits stack finished)"
| "agrees stack _ _ = False"

lemma agrees_None [simp]: "agrees stack None r \<longleftrightarrow> r = None" "agrees stack v None \<longleftrightarrow> v = None"
  by (cases r; auto split: sum.splits; metis agrees.simps sum.exhaust)
    (cases v; auto; metis agrees.simps surj_pair sum.exhaust)


lemma agrees_cases:
  assumes "agrees stack v r"
  obtains (stuck) "v = None" "r = None"
  | (cycle) p where "v = Some (Inl (DependencyCycle (last p)))" "r = Some (Inl p)"
  | (finish) visits finished where "v = Some (Inr (visits, finished))" "r = Some (Inr finished)"
      "marks visits stack finished"
  using assms by (cases "(stack, v, r)" rule: agrees.cases) auto

definition known :: "manifests \<Rightarrow> (plugin_id, runtime_binding) btree \<Rightarrow> bool" where
  "known ms bindings \<longleftrightarrow> (\<forall>p. bt_has ms p \<longrightarrow> (\<forall>q\<in>set (plugin_succ ms bindings p). bt_has ms q))"

lemma visit_agrees:
  "known ms bindings \<Longrightarrow> bt_has ms p \<Longrightarrow> marks (fst st) stack (snd st) \<Longrightarrow>
     agrees stack (visit n ms bindings st p) (dfs n (plugin_succ ms bindings) stack (snd st) p)"
  "known ms bindings \<Longrightarrow> \<forall>p\<in>set ps. bt_has ms p \<Longrightarrow> marks (fst st) stack (snd st) \<Longrightarrow>
     agrees stack (visit_each n ms bindings st ps) (dfs_list n (plugin_succ ms bindings) stack (snd st) ps)"
proof (induction n ms bindings st p and n ms bindings st ps arbitrary: stack and stack rule: visit_visit_each.induct)
  case (1 ms bindings st p)
  then show ?case by simp
next
  case (2 n ms bindings visits order p)
  from 2(4) have m: "bt_get visits p =
      (if p \<in> set stack then Some Visiting else if p \<in> set order then Some Done else None)"
    by (simp add: marks_def)
  show ?case
  proof (cases "p \<in> set stack \<or> p \<in> set order")
    case True
    with m 2(4) show ?thesis by auto
  next
    case False
    with m have none: "bt_get visits p = None" by simp
    from 2(3) have some: "bt_get ms p \<noteq> None" by (simp add: bt_has_def)
    have "marks (bt_insert p Visiting visits) (stack @ [p]) order"
      using 2(4) by (auto simp: marks_def map_simps)
    moreover have "\<forall>q\<in>set (plugin_succ ms bindings p). bt_has ms q"
      using 2(2,3) by (simp add: known_def)
    ultimately have "agrees (stack @ [p])
        (visit_each n ms bindings (bt_insert p Visiting visits, order) (plugin_succ ms bindings p))
        (dfs_list n (plugin_succ ms bindings) (stack @ [p]) order (plugin_succ ms bindings p))"
      using 2(1) [OF none some 2(2)] by simp
    then show ?thesis
    proof (cases rule: agrees_cases)
      case (finish visits' finished)
      then have "marks (bt_insert p Done visits') stack (finished @ [p])"
        using False by (auto simp: marks_def map_simps)
      with finish none some False show ?thesis by simp
    qed (use none some False in auto)
  qed
next
  case (3 n ms bindings st)
  then show ?case by (cases st) simp
next
  case (4 n ms bindings st p ps)
  have "agrees stack (visit n ms bindings st p) (dfs n (plugin_succ ms bindings) stack (snd st) p)"
    by (rule 4(1)) (use 4 in auto)
  then show ?case
  proof (cases rule: agrees_cases)
    case (finish visits finished)
    have "agrees stack (visit_each n ms bindings (visits, finished) ps)
        (dfs_list n (plugin_succ ms bindings) stack (snd (visits, finished)) ps)"
      by (rule 4(2) [OF finish(1) refl]) (use 4 finish in auto)
    with finish show ?thesis by simp
  qed auto
qed

text \<open>Dependency order against the specification.\<close>

lemma dependency_order_search:
  assumes "known ms bindings"
  shows "dependency_order ms bindings =
    (case try_each (check_known ms) (bt_vals ms) of
       Inl e \<Rightarrow> Some (Inl e)
     | Inr _ \<Rightarrow> map_option (map_sum (\<lambda>p. DependencyCycle (last p)) (\<lambda>xs. xs))
         (dfs_all (Suc (length ms)) (plugin_succ ms bindings) (bt_keys ms)))"
proof (cases "try_each (check_known ms) (bt_vals ms)")
  case (Inr u)
  have "agrees [] (visit_each (Suc (length ms)) ms bindings ([], []) (bt_keys ms))
      (dfs_list (Suc (length ms)) (plugin_succ ms bindings) [] [] (bt_keys ms))"
    using visit_agrees(2) [OF assms, of "bt_keys ms" "([], [])" "[]" "Suc (length ms)"]
    by (simp add: bt_has_iff marks_def)
  then show ?thesis
    by (cases rule: agrees_cases) (auto simp: dependency_order_def Inr dfs_all_def)
qed (simp add: dependency_order_def)

text \<open>A list of plugins in which every plugin comes after what it depends on.\<close>

definition activation_ok ::
    "manifests \<Rightarrow> (plugin_id, runtime_binding) btree \<Rightarrow> plugin_id list \<Rightarrow> bool" where
  "activation_ok ms bindings order \<longleftrightarrow>
     closed_order (plugin_succ ms bindings) order \<and> set order = set (bt_keys ms) \<and> distinct order"

lemma known_closed: "known ms bindings \<Longrightarrow>
    \<forall>j\<in>set (bt_keys ms). set (plugin_succ ms bindings j) \<subseteq> set (bt_keys ms)"
  by (auto simp: known_def bt_has_iff)

lemma dependency_order_cases:
  assumes "known ms bindings"
  shows "(\<exists>e. dependency_order ms bindings = Some (Inl e) \<and>
      (\<forall>p. e = DependencyCycle p \<longrightarrow>
        (\<exists>path. is_cycle (plugin_succ ms bindings) path \<and> last path = p))) \<or>
    (\<exists>order. dependency_order ms bindings = Some (Inr order) \<and> activation_ok ms bindings order)"
proof (cases "try_each (check_known ms) (bt_vals ms)")
  case (Inl e)
  then have "\<forall>p. e \<noteq> DependencyCycle p"
    by (auto simp: check_known_def dest!: try_each_err split: if_splits)
  with Inl show ?thesis by (simp add: dependency_order_def)
next
  case (Inr u)
  let ?r = "dfs_all (Suc (length ms)) (plugin_succ ms bindings) (bt_keys ms)"
  have d: "dependency_order ms bindings = map_option (map_sum (\<lambda>p. DependencyCycle (last p)) (\<lambda>xs. xs)) ?r"
    by (simp add: dependency_order_search [OF assms] Inr)
  have "?r \<noteq> None"
    by (rule dfs_all_returns) (use known_closed [OF assms] in \<open>simp_all add: bt_keys_def\<close>)
  then consider p where "?r = Some (Inl p)" | order where "?r = Some (Inr order)"
    by (cases ?r; cases "the ?r") auto
  then show ?thesis
  proof cases
    case (1 p)
    with dfs_all_cycle [OF 1] d show ?thesis by auto
  next
    case (2 order)
    from dfs_all_ok [OF 2 known_closed [OF assms]] d 2 show ?thesis
      by (auto simp: activation_ok_def)
  qed
qed


subsection \<open>What validation establishes\<close>

definition indexed_manifests :: "manifests \<Rightarrow> bool" where
  "indexed_manifests ms \<longleftrightarrow> bt_ok ms \<and> (\<forall>k m. bt_get ms k = Some m \<longrightarrow> pm_id m = k)"

lemma indexed_has: "indexed_manifests ms \<Longrightarrow> m \<in> set (bt_vals ms) \<Longrightarrow> bt_get ms (pm_id m) = Some m"
  by (auto simp: indexed_manifests_def set_bt_vals)

lemma index_indexed: "bt_index pm_id [] manifests = Inr ms \<Longrightarrow> indexed_manifests ms"
  unfolding indexed_manifests_def using bt_index_empty by fastforce

lemma claim_namespaces_ok:
  "claim_namespaces p owners nss = Inr owners' \<Longrightarrow>
     distinct nss \<and> (\<forall>ns\<in>set nss. \<not> bt_has owners ns) \<and>
     (\<forall>ns. bt_get owners' ns = (if ns \<in> set nss then Some p else bt_get owners ns))"
proof (induction nss arbitrary: owners)
  case (Cons ns nss)
  from Cons.prems have h: "\<not> bt_has owners ns"
    "claim_namespaces p (bt_insert ns p owners) nss = Inr owners'" by (auto split: if_splits)
  from Cons.IH [OF h(2)] h(1) show ?case
    by (auto simp: bt_has_def map_simps split: if_splits)
qed simp

lemma validate_namespaces_fold:
  "try_fold (\<lambda>owners m. claim_namespaces (pm_id m) owners (pm_namespaces m)) owners ms = Inr owners' \<Longrightarrow>
     bt_get owners' ns = Some p \<longleftrightarrow>
       bt_get owners ns = Some p \<or> (\<exists>m\<in>set ms. pm_id m = p \<and> ns \<in> set (pm_namespaces m))"
proof (induction ms arbitrary: owners)
  case (Cons m ms)
  then obtain o1 where o1: "claim_namespaces (pm_id m) owners (pm_namespaces m) = Inr o1"
    "try_fold (\<lambda>owners m. claim_namespaces (pm_id m) owners (pm_namespaces m)) o1 ms = Inr owners'"
    by (auto simp: rbind_eq_Inr)
  from Cons.IH [OF o1(2)] claim_namespaces_ok [OF o1(1)] show ?case
    by (auto simp: bt_has_def)
qed simp

lemma runtime_providers_known:
  assumes "indexed_manifests ms" "resolve_runtime_providers ms = Inr providers" "bt_get providers r = Some p"
  shows "\<exists>m k. bt_get ms p = Some m \<and> pm_execution m \<noteq> ResourceOnly \<and> k \<in> set (pm_services m) \<and>
    sc_role k = Terminal \<and> runtime_provider_runtime (sc_service k) = Some r"
proof -
  let ?P = "\<lambda>prov. \<forall>r p. bt_get prov r = Some p \<longrightarrow>
    (\<exists>m k. bt_get ms p = Some m \<and> pm_execution m \<noteq> ResourceOnly \<and> k \<in> set (pm_services m) \<and>
      sc_role k = Terminal \<and> runtime_provider_runtime (sc_service k) = Some r)"
  have inner: "?P prov'" if "try_fold (add_runtime_provider m) prov (pm_services m) = Inr prov'" "?P prov"
    "m \<in> set (bt_vals ms)" for prov prov' m
  proof (rule try_fold_invariant [OF that(1), of ?P])
    show "?P prov" by (rule that(2))
  next
    fix s x s' assume "x \<in> set (pm_services m)" "?P s" "add_runtime_provider m s x = Inr s'"
    with indexed_has [OF assms(1) that(3)] show "?P s'"
      by (auto simp: add_runtime_provider_def map_simps split: option.splits if_splits)
  qed
  have "?P providers"
  proof (rule try_fold_invariant [OF assms(2) [unfolded resolve_runtime_providers_def], of ?P])
    show "?P []" by simp
  qed (rule inner)
  with assms(3) show ?thesis by blast
qed

lemma runtime_bindings_known:
  assumes "resolve_runtime_bindings ms providers = Inr bindings" "bt_get bindings p = Some b"
  shows "\<exists>m a. m \<in> set (bt_vals ms) \<and> pm_id m = p \<and> pm_execution m = Runtime (rb_runtime b) a \<and>
    bt_get providers (rb_runtime b) = Some (rb_provider b)"
proof -
  let ?P = "\<lambda>bs. \<forall>p b. bt_get bs p = Some b \<longrightarrow>
    (\<exists>m a. m \<in> set (bt_vals ms) \<and> pm_id m = p \<and> pm_execution m = Runtime (rb_runtime b) a \<and>
      bt_get providers (rb_runtime b) = Some (rb_provider b))"
  have "?P bindings"
  proof (rule try_fold_invariant [OF assms(1) [unfolded resolve_runtime_bindings_def], of ?P])
    fix s x s' assume "x \<in> set (bt_vals ms)" "?P s" "add_runtime_binding providers s x = Inr s'"
    then show "?P s'"
      by (fastforce simp: add_runtime_binding_def rbind_eq_Inr map_simps split: plugin_execution.splits if_splits)
  qed simp
  with assms(2) show ?thesis by blast
qed

lemma runtime_bindings_complete:
  "try_fold (add_runtime_binding providers) bs ms = Inr bindings \<Longrightarrow>
     m \<in> set ms \<Longrightarrow> pm_execution m = Runtime r a \<Longrightarrow> bt_has bindings (pm_id m)"
proof (induction ms arbitrary: bs)
  case (Cons x ms)
  then obtain b1 where b1: "add_runtime_binding providers bs x = Inr b1"
    "try_fold (add_runtime_binding providers) b1 ms = Inr bindings" by (auto simp: rbind_eq_Inr)
  have keep: "bt_has bindings k" if "bt_has b1 k" for k
    by (rule try_fold_invariant [OF b1(2), of "\<lambda>s. bt_has s k"])
      (use that in \<open>auto simp: add_runtime_binding_def rbind_eq_Inr bt_has_def map_simps
         split: plugin_execution.splits if_splits\<close>)
  show ?case
  proof (cases "m = x")
    case True
    with b1(1) Cons.prems(3) have "bt_has b1 (pm_id m)"
      by (auto simp: add_runtime_binding_def rbind_eq_Inr bt_has_def map_simps split: if_splits)
    then show ?thesis by (rule keep)
  next
    case False
    with Cons b1 show ?thesis by auto
  qed
qed simp

lemma resolved_known:
  assumes "indexed_manifests ms" "resolve_runtime_providers ms = Inr providers"
    "resolve_runtime_bindings ms providers = Inr bindings" "try_each (check_known ms) (bt_vals ms) = Inr u"
  shows "known ms bindings"
proof -
  have "bt_has ms q" if "bt_get ms p = Some m" "q \<in> set (pm_dependencies m)" for p m q
  proof -
    have "m \<in> set (bt_vals ms)" using assms(1) that(1) by (auto simp: indexed_manifests_def set_bt_vals)
    with assms(4) that(2) show ?thesis
      by (force simp: try_each_ok check_known_def split: if_splits)
  qed
  moreover have "bt_has ms (rb_provider b)" if b: "bt_get bindings p = Some b" for p b
  proof -
    obtain r where "bt_get providers r = Some (rb_provider b)"
      using runtime_bindings_known [OF assms(3) b] by blast
    from runtime_providers_known [OF assms(1,2) this] show ?thesis by (auto simp: bt_has_def)
  qed
  ultimately show ?thesis
    by (auto simp: known_def plugin_succ_def bt_has_def split: option.splits)
qed


subsection \<open>A valid configuration\<close>

definition config_ok :: "plugin_manifest list \<Rightarrow> kernel_config \<Rightarrow> bool" where
  "config_ok manifests c \<longleftrightarrow>
     indexed_manifests (kc_manifests c) \<and> set (bt_vals (kc_manifests c)) = set manifests \<and>
     activation_ok (kc_manifests c) (kc_bindings c) (kc_activation c) \<and>
     (\<forall>ns p. resource_owner c ns = Some p \<longleftrightarrow> (\<exists>m\<in>set manifests. pm_id m = p \<and> ns \<in> set (pm_namespaces m))) \<and>
     (\<forall>m\<in>set manifests. \<forall>r a. pm_execution m = Runtime r a \<longrightarrow>
        (\<exists>b pm. bt_get (kc_bindings c) (pm_id m) = Some b \<and>
           bt_get (kc_manifests c) (rb_provider b) = Some pm \<and> pm_execution pm \<noteq> ResourceOnly))"

text \<open>The error \<open>config_new\<close> may report about a cycle, against the declared dependencies.\<close>

definition genuine_cycle :: "plugin_manifest list \<Rightarrow> plugin_id \<Rightarrow> bool" where
  "genuine_cycle manifests p \<longleftrightarrow> (\<exists>ms owners providers bindings path.
     prepare_config manifests = Inr (ms, owners, providers, bindings) \<and>
     is_cycle (plugin_succ ms bindings) path \<and> last path = p)"

lemma try_fold_err: "try_fold f s xs = Inl e \<Longrightarrow> \<exists>s x. f s x = Inl e"
  by (induction xs arbitrary: s) (auto simp: rbind_eq_Inl)

definition is_cycle_error :: "kernel_error \<Rightarrow> bool" where
  "is_cycle_error e \<longleftrightarrow> (\<exists>p. e = DependencyCycle p)"

lemma no_cycle_errors:
  "claim_namespaces q owners nss = Inl e \<Longrightarrow> \<not> is_cycle_error e"
  "check_contributions q seen cs = Inl e \<Longrightarrow> \<not> is_cycle_error e"
  "add_runtime_provider m prov k = Inl e \<Longrightarrow> \<not> is_cycle_error e"
  "add_runtime_binding provs bs m = Inl e \<Longrightarrow> \<not> is_cycle_error e"
  "check_known ms m = Inl e \<Longrightarrow> \<not> is_cycle_error e"
proof -
  show "claim_namespaces q owners nss = Inl e \<Longrightarrow> \<not> is_cycle_error e"
    by (induction q owners nss rule: claim_namespaces.induct) (auto simp: is_cycle_error_def split: if_splits)
  show "check_contributions q seen cs = Inl e \<Longrightarrow> \<not> is_cycle_error e"
    by (induction q seen cs rule: check_contributions.induct) (auto simp: is_cycle_error_def split: if_splits)
qed (auto simp: is_cycle_error_def add_runtime_provider_def add_runtime_binding_def check_known_def
      rbind_eq_Inl ok_or_eq_Inl dest!: try_each_err
      split: option.splits if_splits plugin_execution.splits)

lemma prepare_config_err:
  assumes "prepare_config manifests = Inl e"
  shows "\<not> is_cycle_error e"
proof -
  have "validate_contributions ms = Inl e \<Longrightarrow> \<not> is_cycle_error e" for ms
    by (auto simp: validate_contributions_def dest!: try_each_err split: if_splits)
      (auto dest: no_cycle_errors(2), auto simp: is_cycle_error_def)
  moreover have "validate_namespaces ms = Inl e \<Longrightarrow> \<not> is_cycle_error e" for ms
    unfolding validate_namespaces_def using no_cycle_errors(1) by (blast dest: try_fold_err)
  moreover have "resolve_runtime_providers ms = Inl e \<Longrightarrow> \<not> is_cycle_error e" for ms
    unfolding resolve_runtime_providers_def using no_cycle_errors(3) by (blast dest: try_fold_err)
  moreover have "resolve_runtime_bindings ms provs = Inl e \<Longrightarrow> \<not> is_cycle_error e" for ms provs
    unfolding resolve_runtime_bindings_def using no_cycle_errors(4) by (blast dest: try_fold_err)
  ultimately show ?thesis
    using assms by (auto simp: prepare_config_def rbind_eq_Inl map_err_eq_Inl)
      (auto simp: is_cycle_error_def)
qed

lemma prepare_config_ok:
  assumes "prepare_config manifests = Inr (ms, owners, providers, bindings)"
  shows "indexed_manifests ms" "set (bt_vals ms) = set manifests"
    "bt_get owners ns = Some p \<longleftrightarrow> (\<exists>m\<in>set manifests. pm_id m = p \<and> ns \<in> set (pm_namespaces m))"
    "try_each (check_known ms) (bt_vals ms) = Inr () \<Longrightarrow> known ms bindings"
    "m \<in> set manifests \<Longrightarrow> pm_execution m = Runtime r a \<Longrightarrow>
       \<exists>b pm. bt_get bindings (pm_id m) = Some b \<and> bt_get ms (rb_provider b) = Some pm \<and>
         pm_execution pm \<noteq> ResourceOnly"
proof -
  from assms have h: "bt_index pm_id [] manifests = Inr ms" "validate_namespaces ms = Inr owners"
    "resolve_runtime_providers ms = Inr providers" "resolve_runtime_bindings ms providers = Inr bindings"
    by (auto simp: prepare_config_def rbind_eq_Inr)
  note im = index_indexed [OF h(1)] and sm = bt_index_empty(3) [OF h(1)]
  show "indexed_manifests ms" "set (bt_vals ms) = set manifests" by (fact im sm)+
  show "bt_get owners ns = Some p \<longleftrightarrow> (\<exists>m\<in>set manifests. pm_id m = p \<and> ns \<in> set (pm_namespaces m))"
    using validate_namespaces_fold [OF h(2) [unfolded validate_namespaces_def]] sm by simp
  show "known ms bindings" if "try_each (check_known ms) (bt_vals ms) = Inr ()"
    by (rule resolved_known [OF im h(3,4) that])
  show "\<exists>b pm. bt_get bindings (pm_id m) = Some b \<and> bt_get ms (rb_provider b) = Some pm \<and>
      pm_execution pm \<noteq> ResourceOnly" if m: "m \<in> set manifests" "pm_execution m = Runtime r a"
  proof -
    have "bt_has bindings (pm_id m)"
      using runtime_bindings_complete [OF h(4) [unfolded resolve_runtime_bindings_def], of m r a] m sm by simp
    then obtain b where b: "bt_get bindings (pm_id m) = Some b" by (auto simp: bt_has_def)
    from runtime_bindings_known [OF h(4) b] obtain r' where
      "bt_get providers r' = Some (rb_provider b)" by blast
    from runtime_providers_known [OF im h(3) this] b show ?thesis by blast
  qed
qed

lemma config_new_cases:
  "(\<exists>e. config_new i manifests = Some (Inl e) \<and> (\<forall>p. e = DependencyCycle p \<longrightarrow> genuine_cycle manifests p)) \<or>
   (\<exists>c. config_new i manifests = Some (Inr c) \<and> config_ok manifests c \<and> kc_policy c = i)"
proof (cases "prepare_config manifests")
  case (Inl e)
  with prepare_config_err [OF Inl] show ?thesis by (auto simp: config_new_def is_cycle_error_def)
next
  case (Inr t)
  then obtain ms owners providers bindings where
    prep: "prepare_config manifests = Inr (ms, owners, providers, bindings)" by (cases t) auto
  note ok = prepare_config_ok [OF prep]
  show ?thesis
  proof (cases "try_each (check_known ms) (bt_vals ms)")
    case (Inl e)
    then have "\<not> is_cycle_error e" using no_cycle_errors(5) by (blast dest: try_each_err)
    with prep Inl show ?thesis by (auto simp: config_new_def dependency_order_def is_cycle_error_def)
  next
    case (Inr v)
    then have "known ms bindings" using ok(4) by simp
    from dependency_order_cases [OF this] show ?thesis
    proof (elim disjE exE conjE)
      fix e assume h: "dependency_order ms bindings = Some (Inl e)"
        "\<forall>p. e = DependencyCycle p \<longrightarrow> (\<exists>path. is_cycle (plugin_succ ms bindings) path \<and> last path = p)"
      with prep have "\<forall>p. e = DependencyCycle p \<longrightarrow> genuine_cycle manifests p"
        unfolding genuine_cycle_def by blast
      with prep h show ?thesis by (simp add: config_new_def)
    next
      fix order assume h: "dependency_order ms bindings = Some (Inr order)" "activation_ok ms bindings order"
      with prep show ?thesis
        using ok(1,2,3,5) by (auto simp: config_new_def config_ok_def resource_owner_def)
    qed
  qed
qed


subsection \<open>Chains\<close>

definition layer_usable :: "kernel_config \<Rightarrow> service_id \<Rightarrow> authority \<Rightarrow> layer_policy \<Rightarrow> bool" where
  "layer_usable c service auth policy \<longleftrightarrow> lp_enabled policy \<and>
     (\<exists>k. layer_contribution c service (lp_plugin policy) = Some k \<and> permits_all auth (sc_required k))"

definition layer_binding :: "service_id \<Rightarrow> layer_policy \<Rightarrow> provider_binding" where
  "layer_binding service policy =
     \<lparr>pb_service = service, pb_plugin = lp_plugin policy, pb_priority = lp_priority policy\<rparr>"

lemma add_layer_ok:
  "add_layer c service auth layers policy = Inr layers' \<longleftrightarrow>
     (lp_required policy \<longrightarrow> layer_usable c service auth policy) \<and>
     layers' = layers @ (if layer_usable c service auth policy then [layer_binding service policy] else [])"
  by (auto simp: add_layer_def layer_usable_def layer_binding_def split: option.splits)

lemma add_layers_ok:
  "try_fold (add_layer c service auth) layers policies = Inr layers' \<longleftrightarrow>
     (\<forall>p\<in>set policies. lp_required p \<longrightarrow> layer_usable c service auth p) \<and>
     layers' = layers @ map (layer_binding service) (filter (layer_usable c service auth) policies)"
  by (induction policies arbitrary: layers) (auto simp: rbind_eq_Inr add_layer_ok)

lemma resolve_layers_ok:
  "resolve_layers c service auth = Inr layers \<longleftrightarrow>
     (\<forall>p\<in>set (layer_policies c service). lp_required p \<longrightarrow> layer_usable c service auth p) \<and>
     layers = sort_by binding_le (map (layer_binding service)
       (filter (layer_usable c service auth) (layer_policies c service)))"
  by (auto simp: resolve_layers_def rbind_eq_Inr add_layers_ok)

text \<open>A contribution of a plugin that may answer a call for the service with the given authority.\<close>

definition eligible_terminal ::
    "kernel_config \<Rightarrow> service_id \<Rightarrow> authority \<Rightarrow> plugin_id option \<Rightarrow> provider_binding \<Rightarrow> bool" where
  "eligible_terminal c service auth binding b \<longleftrightarrow>
     (\<exists>m\<in>set (bt_vals (kc_manifests c)). \<exists>k\<in>set (pm_services m).
        sc_role k = Terminal \<and> sc_service k = service \<and> permits_all auth (sc_required k) \<and>
        (binding = None \<or> binding = Some (pm_id m)) \<and>
        b = \<lparr>pb_service = service, pb_plugin = pm_id m, pb_priority = sc_priority k\<rparr>)"

lemma candidate_terminals_set:
  "b \<in> set (candidate_terminals c service auth binding) \<longleftrightarrow> eligible_terminal c service auth binding b"
  by (force simp: candidate_terminals_def eligible_terminal_def set_filter_map split: if_splits)

lemma resolve_chain_ok:
  "resolve_chain c service auth binding = Inr ch \<longleftrightarrow>
     resolve_layers c service auth = Inr (ch_layers ch) \<and>
     (\<exists>rest. sort_by binding_le (candidate_terminals c service auth binding) = ch_terminal ch # rest) \<and>
     ch_policy ch = kc_policy c \<and> ch_service ch = service"
proof (cases "sort_by binding_le (candidate_terminals c service auth binding)")
  case Nil
  then show ?thesis
    by (auto simp: resolve_chain_def Let_def rbind_eq_Inr simp del: sort_by_eq_Nil split: option.splits)
next
  case (Cons t rest)
  then show ?thesis by (cases ch) (auto simp: resolve_chain_def Let_def rbind_eq_Inr)
qed

lemma layer_usable_mono: "auth \<subseteq> auth' \<Longrightarrow> layer_usable c s auth p \<Longrightarrow> layer_usable c s auth' p"
  by (auto simp: layer_usable_def permits_all_subset)

lemma eligible_terminal_mono:
  "auth \<subseteq> auth' \<Longrightarrow> eligible_terminal c s auth b x \<Longrightarrow> eligible_terminal c s auth' b x"
  unfolding eligible_terminal_def permits_all_subset by blast

lemma resolve_chain_is_ok:
  "is_ok (resolve_chain c service auth binding) \<longleftrightarrow>
     (\<forall>p\<in>set (layer_policies c service). lp_required p \<longrightarrow> layer_usable c service auth p) \<and>
     (\<exists>b. eligible_terminal c service auth binding b)"
proof -
  have "is_ok (resolve_chain c service auth binding) \<longleftrightarrow>
      is_ok (resolve_layers c service auth) \<and> sort_by binding_le (candidate_terminals c service auth binding) \<noteq> []"
    by (cases "sort_by binding_le (candidate_terminals c service auth binding)"; cases "resolve_layers c service auth")
      (simp_all add: resolve_chain_def Let_def split: option.splits del: sort_by_eq_Nil)
  also have "\<dots> \<longleftrightarrow> is_ok (resolve_layers c service auth) \<and> (\<exists>b. eligible_terminal c service auth binding b)"
    unfolding candidate_terminals_set [symmetric] sort_by_eq_Nil by (auto simp: ex_in_conv)
  finally show ?thesis by (auto simp: is_ok_iff resolve_layers_ok)
qed

subsection \<open>Runtime provider names\<close>

lemma strip_prefix_opt_Some: "strip_prefix_opt p s = Some t \<longleftrightarrow> s = p @ t"
  by (auto simp: strip_prefix_opt_def) (metis append_take_drop_id)

lemma strip_suffix_opt_Some: "strip_suffix_opt x s = Some t \<longleftrightarrow> s = t @ x"
proof -
  have "strip_suffix_opt x s = Some t \<longleftrightarrow> strip_prefix_opt (rev x) (rev s) = Some (rev t)"
    by (auto simp: strip_suffix_opt_def)
  also have "\<dots> \<longleftrightarrow> rev s = rev (t @ x)" by (simp add: strip_prefix_opt_Some)
  finally show ?thesis by (simp only: rev_is_rev_conv)
qed

lemma parsed_identifier:
  "(case parse_identifier s of Inl e \<Rightarrow> None | Inr t \<Rightarrow> Some t) = Some r \<longleftrightarrow>
     s = r \<and> parse_identifier r = Inr r"
proof (cases "parse_identifier s")
  case (Inl e)
  then show ?thesis by auto
next
  case (Inr t)
  then have "t = s" by (simp add: parse_identifier_ok)
  with Inr show ?thesis by auto
qed

subsection \<open>Properties\<close>

text \<open>C3: building a configuration never panics; it either reports an error, and then an error about
  a cycle names a plugin on a cycle of the declared dependencies and runtime bindings, or yields a
  configuration whose activation order lists every plugin once, after everything it depends on,
  whose namespaces have the one owner that declares them and whose guests are bound to executable
  providers.\<close>

theorem configuration_is_total_and_valid:
  "\<exists>r. config_new i manifests = Some r \<and>
     (case r of
        Inl e \<Rightarrow> is_cycle_error e \<longrightarrow> (\<exists>p. e = DependencyCycle p \<and> genuine_cycle manifests p)
      | Inr c \<Rightarrow> config_ok manifests c)"
  using config_new_cases [of i manifests] by (auto simp: is_cycle_error_def)

definition sample_manifest :: "plugin_id \<Rightarrow> plugin_id list \<Rightarrow> service_contribution list \<Rightarrow> plugin_manifest" where
  "sample_manifest i deps services = \<lparr>pm_id = i, pm_version = 1, pm_execution = Embedded, pm_dependencies = deps,
     pm_services = services, pm_namespaces = [i @ ''/ns''], pm_maximum = {}\<rparr>"

theorem configuration_is_total_and_valid_witness:
  "\<exists>r. config_new 1 [sample_manifest ''a'' [''b''] [], sample_manifest ''b'' [] []] = Some r \<and>
     (case r of
        Inl e \<Rightarrow> is_cycle_error e \<longrightarrow> (\<exists>p. e = DependencyCycle p \<and>
          genuine_cycle [sample_manifest ''a'' [''b''] [], sample_manifest ''b'' [] []] p)
      | Inr c \<Rightarrow> config_ok [sample_manifest ''a'' [''b''] [], sample_manifest ''b'' [] []] c)"
  by (rule configuration_is_total_and_valid)

text \<open>an accepted configuration does not depend on the order in which the manifests were
  supplied.\<close>

lemma configuration_is_order_independent:
  assumes "config_new i manifests = Some (Inr c)" "mset manifests' = mset manifests"
  shows "config_new i manifests' = Some (Inr c)"
proof -
  obtain ms where ms: "bt_index pm_id [] manifests = Inr ms"
    using assms(1) by (cases "bt_index pm_id [] manifests") (auto simp: config_new_def prepare_config_def)
  then have "bt_index pm_id [] manifests' = Inr ms"
    by (rule bt_index_perm) (simp add: assms(2))
  with ms have "prepare_config manifests' = prepare_config manifests"
    by (simp add: prepare_config_def)
  with assms(1) show ?thesis by (simp add: config_new_def)
qed

text \<open>C8: a resolved chain ends in the best plugin (highest priority, then identity) among all those
  that contribute the service as terminal, require no more than the caller's authority and match
  the binding; its layers are exactly the usable ones of the policy, best first, and no required
  layer is missing.\<close>

theorem resolved_chain_is_best_and_complete:
  assumes "resolve_chain c service auth binding = Inr ch"
  shows "eligible_terminal c service auth binding (ch_terminal ch) \<and>
    (\<forall>b. eligible_terminal c service auth binding b \<longrightarrow> binding_le (ch_terminal ch) b) \<and>
    sorted_wrt binding_le (ch_layers ch) \<and>
    set (ch_layers ch) = layer_binding service ` {p \<in> set (layer_policies c service). layer_usable c service auth p} \<and>
    (\<forall>p. p \<in> set (layer_policies c service) \<longrightarrow> lp_required p \<longrightarrow> layer_usable c service auth p)"
proof -
  from assms obtain rest where r: "resolve_layers c service auth = Inr (ch_layers ch)"
    "sort_by binding_le (candidate_terminals c service auth binding) = ch_terminal ch # rest"
    by (auto simp: resolve_chain_ok)
  from bind_rank.best_first [OF r(2)] bind_rank.head_in [OF r(2)] r(1) show ?thesis
    by (auto simp: candidate_terminals_set resolve_layers_ok bind_rank.ranked)
qed

definition sample_contribution :: "int \<Rightarrow> authority \<Rightarrow> service_contribution" where
  "sample_contribution pr auth = \<lparr>sc_service = ''svc@1'', sc_role = Terminal, sc_priority = pr, sc_required = auth\<rparr>"

definition sample_config :: kernel_config where
  "sample_config = \<lparr>kc_manifests =
       [(''a'', sample_manifest ''a'' [] [sample_contribution 1 {}]),
        (''b'', sample_manifest ''b'' [] [sample_contribution 5 {''root''}])],
     kc_activation = [''a'', ''b''], kc_namespaces = [], kc_layers = [], kc_providers = [], kc_bindings = [],
     kc_policy = 1\<rparr>"

lemmas sample_config_defs = sample_config_def sample_manifest_def sample_contribution_def

lemma sample_chain:
  "resolve_chain sample_config ''svc@1'' {''root''} None =
     Inr \<lparr>ch_policy = 1, ch_service = ''svc@1'', ch_layers = [],
       ch_terminal = \<lparr>pb_service = ''svc@1'', pb_plugin = ''b'', pb_priority = 5\<rparr>\<rparr>"
  by (simp add: resolve_chain_def candidate_terminals_def resolve_layers_def layer_policies_def
      sample_config_defs permits_all_def permits_def binding_le_def)

theorem resolved_chain_is_best_and_complete_witness:
  "eligible_terminal sample_config ''svc@1'' {''root''} None
     \<lparr>pb_service = ''svc@1'', pb_plugin = ''b'', pb_priority = 5\<rparr>"
  using resolved_chain_is_best_and_complete [OF sample_chain] by simp

lemma configuration_is_order_independent_witness:
  "\<exists>c. config_new 1 [] = Some (Inr c)"
proof -
  have "config_new 1 [] = Some (Inr \<lparr>kc_manifests = [], kc_activation = [], kc_namespaces = [], kc_layers = [],
      kc_providers = [], kc_bindings = [], kc_policy = 1\<rparr>)"
    by (simp add: config_new_def prepare_config_def validate_namespaces_def validate_contributions_def
        resolve_runtime_providers_def resolve_runtime_bindings_def dependency_order_def)
  from configuration_is_order_independent [OF this, of "[]"] show ?thesis by auto
qed

text \<open>A caller that is given more authority can still resolve every service it could resolve.\<close>

lemma more_authority_still_resolves:
  assumes "is_ok (resolve_chain c service auth binding)" "auth \<subseteq> auth'"
  shows "is_ok (resolve_chain c service auth' binding)"
  using assms(1) layer_usable_mono [OF assms(2)] eligible_terminal_mono [OF assms(2)]
  unfolding resolve_chain_is_ok by blast

lemma more_authority_still_resolves_witness:
  "is_ok (resolve_chain sample_config ''svc@1'' {''root'', ''x''} None)"
  by (rule more_authority_still_resolves [of _ _ "{''root''}"]) (simp_all add: sample_chain)

text \<open>The reserved service names of runtime providers and runtime identifiers correspond: a
  service is the provider contract of a runtime exactly when it is the name derived from it.\<close>

lemma runtime_provider_names_round_trip:
  "runtime_provider_runtime service = Some r \<longleftrightarrow>
     service = runtime_provider_service r \<and> parse_identifier r = Inr r"
  unfolding runtime_provider_runtime_def runtime_provider_service_def bind_eq_Some_conv
    strip_prefix_opt_Some strip_suffix_opt_Some parsed_identifier by auto

end
