(* ===== verification/Component_Graph.thy ===== *)
theory Component_Graph
  imports Manifest Dfs
begin

text \<open>
  Provider policy and the component graph (\<open>phenix-core/src/provider_resolution.rs\<close>,
  \<open>phenix-core/src/component.rs\<close>): indexing of component manifests, selection of a provider and of
  fallbacks for every import, attenuation of authority along the binding, the check that required
  imports are acyclic and the check of the listener topology against the event bus.
\<close>

subsection \<open>Provider policy\<close>

datatype selection_reason = ExplicitBinding | PriorityReason | StableIdentity

record interface_policy =
  ip_explicit :: "component_id option"
  ip_priorities :: "(component_id, int) btree"
  ip_disabled :: "component_id set"
  ip_allows_fallback :: bool
  ip_fallback_enabled :: bool

type_synonym provider_policy = "(interface_id, interface_policy) btree"

definition interface_policy_default :: interface_policy where
  "interface_policy_default = \<lparr>ip_explicit = None, ip_priorities = [], ip_disabled = {},
     ip_allows_fallback = False, ip_fallback_enabled = False\<rparr>"

definition update_policy ::
    "(interface_policy \<Rightarrow> interface_policy) \<Rightarrow> interface_id \<Rightarrow> provider_policy \<Rightarrow> provider_policy" where
  "update_policy f i p =
     bt_insert i (f (case bt_get p i of Some ip \<Rightarrow> ip | None \<Rightarrow> interface_policy_default)) p"

definition with_priority :: "interface_id \<Rightarrow> component_id \<Rightarrow> int \<Rightarrow> provider_policy \<Rightarrow> provider_policy" where
  "with_priority i c n = update_policy (\<lambda>ip. ip\<lparr>ip_priorities := bt_insert c n (ip_priorities ip)\<rparr>) i"

definition with_explicit_binding :: "interface_id \<Rightarrow> component_id \<Rightarrow> provider_policy \<Rightarrow> provider_policy" where
  "with_explicit_binding i c = update_policy (\<lambda>ip. ip\<lparr>ip_explicit := Some c\<rparr>) i"

definition with_disabled_provider :: "interface_id \<Rightarrow> component_id \<Rightarrow> provider_policy \<Rightarrow> provider_policy" where
  "with_disabled_provider i c = update_policy (\<lambda>ip. ip\<lparr>ip_disabled := insert c (ip_disabled ip)\<rparr>) i"

definition with_interface_fallback :: "interface_id \<Rightarrow> provider_policy \<Rightarrow> provider_policy" where
  "with_interface_fallback = update_policy (\<lambda>ip. ip\<lparr>ip_allows_fallback := True\<rparr>)"

definition with_fallback_enabled :: "interface_id \<Rightarrow> provider_policy \<Rightarrow> provider_policy" where
  "with_fallback_enabled = update_policy (\<lambda>ip. ip\<lparr>ip_fallback_enabled := True\<rparr>)"

definition explicit_binding :: "provider_policy \<Rightarrow> interface_id \<Rightarrow> component_id option" where
  "explicit_binding p i = Option.bind (bt_get p i) ip_explicit"

definition provider_enabled :: "provider_policy \<Rightarrow> interface_id \<Rightarrow> component_id \<Rightarrow> bool" where
  "provider_enabled p i c = (case bt_get p i of Some ip \<Rightarrow> c \<notin> ip_disabled ip | None \<Rightarrow> True)"

definition effective_priority :: "provider_policy \<Rightarrow> interface_id \<Rightarrow> component_id \<Rightarrow> int" where
  "effective_priority p i c =
     (case Option.bind (bt_get p i) (\<lambda>ip. bt_get (ip_priorities ip) c) of Some n \<Rightarrow> n | None \<Rightarrow> 0)"

definition has_priority :: "provider_policy \<Rightarrow> interface_id \<Rightarrow> component_id \<Rightarrow> bool" where
  "has_priority p i c = (case bt_get p i of Some ip \<Rightarrow> bt_has (ip_priorities ip) c | None \<Rightarrow> False)"

definition fallback_enabled :: "provider_policy \<Rightarrow> interface_id \<Rightarrow> bool" where
  "fallback_enabled p i =
     (case bt_get p i of Some ip \<Rightarrow> ip_allows_fallback ip \<and> ip_fallback_enabled ip | None \<Rightarrow> False)"

subsection \<open>The resolved graph\<close>

datatype component_graph_error =
  CgDuplicatePlugin plugin_id
| DuplicateComponent component_id
| UnknownOwningPlugin component_id plugin_id
| ResourceOnlyComponentOwner component_id plugin_id
| DuplicateImport component_id interface_id
| DuplicateExport component_id interface_id
| MissingRequiredImport component_id interface_id
| IncompatibleRequiredImport component_id interface_id component_id interface_mismatch
| ImportNotDeclared component_id interface_id
| RequiredImportCycle "component_id list"
| ListenerTopology event_error
| UnknownComponent component_id

record import_handle =
  ih_importer :: component_id
  ih_interface :: interface_id
  ih_exporter :: component_id
  ih_plugin :: plugin_id
  ih_execution :: plugin_execution
  ih_authority :: authority

record provider_plan =
  pp_primary :: import_handle
  pp_fallbacks :: "import_handle list"
  pp_reason :: selection_reason

record resolved_import =
  ri_interface :: interface_id
  ri_required :: bool
  ri_binding :: "import_handle option"
  ri_fallbacks :: "import_handle list"
  ri_reason :: "selection_reason option"

record resolved_component =
  rc_id :: component_id
  rc_plugin :: plugin_id
  rc_execution :: plugin_execution
  rc_imports :: "resolved_import list"
  rc_maximum :: authority

record resolved_listener =
  rl_component :: component_id
  rl_plugin :: plugin_id
  rl_declaration :: component_listener
  rl_maximum :: authority

record component_graph =
  cg_components :: "(component_id, resolved_component) btree"
  cg_listeners :: "resolved_listener list"

record eligible_provider =
  el_component :: component_manifest
  el_authority :: authority
  el_priority :: int
  el_explicit :: bool

definition graph_empty :: component_graph where
  "graph_empty = \<lparr>cg_components = [], cg_listeners = []\<rparr>"

definition listener_spec :: "nat \<Rightarrow> resolved_listener \<Rightarrow> subscription_spec" where
  "listener_spec revision l = \<lparr>sub_id = cl_id (rl_declaration l), sub_owner = rl_plugin l,
     sub_type = cl_event (rl_declaration l), sub_version = cl_event_version (rl_declaration l),
     sub_dependencies = cl_dependencies (rl_declaration l),
     sub_failure_policy = cl_failure_policy (rl_declaration l),
     sub_required = cl_required (rl_declaration l), sub_maximum = rl_maximum l,
     sub_policy_revision = revision\<rparr>"

subsection \<open>Indexing component manifests\<close>

fun check_imports :: "component_id \<Rightarrow> interface_id set \<Rightarrow> component_import list \<Rightarrow> component_graph_error + unit" where
  "check_imports c seen [] = Inr ()"
| "check_imports c seen (i # is) =
     (if ci_interface i \<in> seen then Inl (DuplicateImport c (ci_interface i))
      else check_imports c (insert (ci_interface i) seen) is)"

fun check_exports :: "component_id \<Rightarrow> interface_id set \<Rightarrow> component_export list \<Rightarrow> component_graph_error + unit" where
  "check_exports c seen [] = Inr ()"
| "check_exports c seen (e # es) =
     (if ce_interface e \<in> seen then Inl (DuplicateExport c (ce_interface e))
      else check_exports c (insert (ce_interface e) seen) es)"

definition validate_component_manifest :: "component_manifest \<Rightarrow> component_graph_error + unit" where
  "validate_component_manifest m =
     rbind (check_imports (cm_id m) {} (cm_imports m)) (\<lambda>_. check_exports (cm_id m) {} (cm_exports m))"

type_synonym components = "(component_id, component_manifest) btree"

definition add_component ::
    "manifests \<Rightarrow> components \<Rightarrow> component_manifest \<Rightarrow> component_graph_error + components" where
  "add_component plugins components m =
     rbind (validate_component_manifest m) (\<lambda>_.
     rbind (ok_or (UnknownOwningPlugin (cm_id m) (cm_owner m)) (bt_get plugins (cm_owner m))) (\<lambda>owner.
       if pm_execution owner = ResourceOnly then Inl (ResourceOnlyComponentOwner (cm_id m) (cm_owner m))
       else if bt_has components (cm_id m) then Inl (DuplicateComponent (cm_id m))
       else Inr (bt_insert (cm_id m) m components)))"

text \<open>Indexing by the owner of an indexed component, which was checked to be present.\<close>

definition owner_of :: "manifests \<Rightarrow> component_manifest \<Rightarrow> plugin_manifest" where
  "owner_of plugins m =
     (case bt_get plugins (cm_owner m) of Some p \<Rightarrow> p | None \<Rightarrow> resource_only_manifest (cm_owner m))"

definition exporters_for :: "components \<Rightarrow> interface_id \<Rightarrow> (component_manifest \<times> component_export) list" where
  "exporters_for components i =
     sort_by (\<lambda>(l, _) (r, _). cm_id l \<le> cm_id r)
       (concat (map (\<lambda>m. map (Pair m) (filter (\<lambda>e. ce_interface e = i) (cm_exports m))) (bt_vals components)))"

subsection \<open>Selection of providers\<close>

definition component_authority :: "authority \<Rightarrow> manifests \<Rightarrow> component_manifest \<Rightarrow> authority" where
  "component_authority harness plugins m =
     attenuate (attenuate harness (pm_maximum (owner_of plugins m))) (cm_maximum m)"

definition binding_authority ::
    "authority \<Rightarrow> manifests \<Rightarrow> component_import \<Rightarrow> component_manifest \<Rightarrow> authority" where
  "binding_authority comp_auth plugins i candidate =
     attenuate (attenuate (attenuate comp_auth (ci_authority i)) (pm_maximum (owner_of plugins candidate)))
       (cm_maximum candidate)"

definition consider_candidate ::
    "authority \<Rightarrow> manifests \<Rightarrow> provider_policy option \<Rightarrow> component_import
     \<Rightarrow> eligible_provider list \<times> (component_id \<times> interface_mismatch) option
     \<Rightarrow> component_manifest \<times> component_export
     \<Rightarrow> eligible_provider list \<times> (component_id \<times> interface_mismatch) option" where
  "consider_candidate comp_auth plugins policy i acc cand =
     (let (eligible, incompatible) = acc; (candidate, export) = cand;
          auth = binding_authority comp_auth plugins i candidate
      in if (case policy of Some p \<Rightarrow> \<not> provider_enabled p (ci_interface i) (cm_id candidate) | None \<Rightarrow> False)
         then acc
         else if \<not> permits_all auth (ce_required export) then acc
         else case accepts_provider (ci_schema i) (ce_schema export) of
             IfIncompatible mismatch \<Rightarrow>
               (eligible, case incompatible of
                  None \<Rightarrow> Some (cm_id candidate, mismatch) | Some x \<Rightarrow> Some x)
           | _ \<Rightarrow>
               (eligible @ [\<lparr>el_component = candidate, el_authority = auth,
                  el_priority = (case policy of
                      Some p \<Rightarrow> effective_priority p (ci_interface i) (cm_id candidate)
                    | None \<Rightarrow> ce_priority export),
                  el_explicit = (Option.bind policy (\<lambda>p. explicit_binding p (ci_interface i)) =
                    Some (cm_id candidate))\<rparr>], incompatible))"

definition eligible_le :: "eligible_provider \<Rightarrow> eligible_provider \<Rightarrow> bool" where
  "eligible_le l r \<longleftrightarrow>
     (if el_explicit l \<noteq> el_explicit r then el_explicit l
      else if el_priority l \<noteq> el_priority r then el_priority l > el_priority r
      else cm_id (el_component l) \<le> cm_id (el_component r))"

interpretation elig_rank: ranking eligible_le
  by unfold_locales (auto simp: eligible_le_def split: if_splits)

definition selection_reason_of ::
    "provider_policy option \<Rightarrow> interface_id \<Rightarrow> eligible_provider list \<Rightarrow> selection_reason option" where
  "selection_reason_of policy i eligible =
     (case eligible of
        [] \<Rightarrow> None
      | primary # rest \<Rightarrow> Some
          (if el_explicit primary then ExplicitBinding
           else if (case rest of next # _ \<Rightarrow> el_priority next \<noteq> el_priority primary | [] \<Rightarrow> False) \<or>
               (case policy of
                  Some p \<Rightarrow> list_ex (\<lambda>c. has_priority p i (cm_id (el_component c))) eligible
                | None \<Rightarrow> False)
             then PriorityReason
           else StableIdentity))"

definition handle_of ::
    "manifests \<Rightarrow> component_manifest \<Rightarrow> component_import \<Rightarrow> eligible_provider \<Rightarrow> import_handle" where
  "handle_of plugins m i c = \<lparr>ih_importer = cm_id m, ih_interface = ci_interface i,
     ih_exporter = cm_id (el_component c), ih_plugin = cm_owner (el_component c),
     ih_execution = pm_execution (owner_of plugins (el_component c)), ih_authority = el_authority c\<rparr>"

definition resolve_import ::
    "authority \<Rightarrow> manifests \<Rightarrow> components \<Rightarrow> provider_policy option \<Rightarrow> component_manifest \<Rightarrow> component_import
     \<Rightarrow> component_graph_error + resolved_import" where
  "resolve_import harness plugins components policy m i =
     (let (found, incompatible) = foldl
            (consider_candidate (component_authority harness plugins m) plugins policy i) ([], None)
            (exporters_for components (ci_interface i));
          eligible = sort_by eligible_le found;
          handles = map (handle_of plugins m i) eligible;
          fallback = (case policy of Some p \<Rightarrow> fallback_enabled p (ci_interface i) | None \<Rightarrow> False)
      in case handles of
           [] \<Rightarrow>
             if ci_required i then
               (case incompatible of
                  Some (exporter, mismatch) \<Rightarrow>
                    Inl (IncompatibleRequiredImport (cm_id m) (ci_interface i) exporter mismatch)
                | None \<Rightarrow> Inl (MissingRequiredImport (cm_id m) (ci_interface i)))
             else Inr \<lparr>ri_interface = ci_interface i, ri_required = False, ri_binding = None,
               ri_fallbacks = [], ri_reason = None\<rparr>
         | primary # others \<Rightarrow>
             Inr \<lparr>ri_interface = ci_interface i, ri_required = ci_required i, ri_binding = Some primary,
               ri_fallbacks = (if fallback then others else []),
               ri_reason = selection_reason_of policy (ci_interface i) eligible\<rparr>)"

definition resolve_component ::
    "authority \<Rightarrow> manifests \<Rightarrow> components \<Rightarrow> provider_policy option \<Rightarrow> component_manifest
     \<Rightarrow> component_graph_error + resolved_component" where
  "resolve_component harness plugins components policy m =
     rbind (try_map (resolve_import harness plugins components policy m) (cm_imports m)) (\<lambda>imports.
       Inr \<lparr>rc_id = cm_id m, rc_plugin = cm_owner m, rc_execution = pm_execution (owner_of plugins m),
         rc_imports = imports, rc_maximum = component_authority harness plugins m\<rparr>)"

definition component_listeners ::
    "authority \<Rightarrow> manifests \<Rightarrow> component_manifest \<Rightarrow> resolved_listener list" where
  "component_listeners harness plugins m = map (\<lambda>d.
     \<lparr>rl_component = cm_id m, rl_plugin = cm_owner m, rl_declaration = d,
       rl_maximum = component_authority harness plugins m\<rparr>) (cm_listeners m)"

subsection \<open>The check of required imports\<close>

text \<open>The exporters a component's required imports may reach: the binding, then the fallbacks.\<close>

definition required_targets :: "(component_id, resolved_component) btree \<Rightarrow> component_id \<Rightarrow> component_id list" where
  "required_targets components c =
     (case bt_get components c of
        None \<Rightarrow> []
      | Some rc \<Rightarrow> concat (map (\<lambda>i.
          if ri_required i then
            map ih_exporter ((case ri_binding i of Some b \<Rightarrow> [b] | None \<Rightarrow> []) @ ri_fallbacks i)
          else []) (rc_imports rc)))"

function (sequential) visit_import ::
    "nat \<Rightarrow> (component_id, resolved_component) btree \<Rightarrow> component_id list \<Rightarrow> component_id set \<Rightarrow> component_id
     \<Rightarrow> (component_graph_error + component_id set) option"
  and visit_imports ::
    "nat \<Rightarrow> (component_id, resolved_component) btree \<Rightarrow> component_id list \<Rightarrow> component_id set
     \<Rightarrow> component_id list \<Rightarrow> (component_graph_error + component_id set) option" where
  "visit_import 0 components visiting visited c = None"
| "visit_import (Suc n) components visiting visited c =
     (if c \<in> set visiting then
        Some (Inl (RequiredImportCycle (dropWhile (\<lambda>x. x \<noteq> c) visiting @ [c])))
      else if c \<in> visited then Some (Inr visited)
      else case visit_imports n components (visiting @ [c]) visited (required_targets components c) of
          None \<Rightarrow> None
        | Some (Inl e) \<Rightarrow> Some (Inl e)
        | Some (Inr visited') \<Rightarrow> Some (Inr (insert c visited')))"
| "visit_imports n components visiting visited [] = Some (Inr visited)"
| "visit_imports n components visiting visited (c # cs) =
     (case visit_import n components visiting visited c of
        None \<Rightarrow> None
      | Some (Inl e) \<Rightarrow> Some (Inl e)
      | Some (Inr visited') \<Rightarrow> visit_imports n components visiting visited' cs)"
  by pat_completeness auto
termination
  by (relation "inv_image (less_than <*lex*> less_than)
      (\<lambda>x. case x of Inl (n, _, _, _, _) \<Rightarrow> (n, 0) | Inr (n, _, _, _, cs) \<Rightarrow> (n, Suc (length cs)))") auto

definition validate_required_import_dag ::
    "(component_id, resolved_component) btree \<Rightarrow> (component_graph_error + unit) option" where
  "validate_required_import_dag components =
     map_option (map_sum (\<lambda>e. e) (\<lambda>_. ()))
       (visit_imports (Suc (length components)) components [] {} (bt_keys components))"

subsection \<open>Compilation\<close>

definition resolve_all ::
    "authority \<Rightarrow> manifests \<Rightarrow> components \<Rightarrow> provider_policy option
     \<Rightarrow> component_graph_error + ((component_id, resolved_component) btree \<times> resolved_listener list)" where
  "resolve_all harness plugins components policy =
     try_fold (\<lambda>(resolved, listeners) m.
       rbind (resolve_component harness plugins components policy m) (\<lambda>rc.
         Inr (bt_insert (cm_id m) rc resolved, listeners @ component_listeners harness plugins m)))
       ([], []) (bt_vals components)"

text \<open>\<open>compile_inner\<close>; the outer \<open>None\<close> would be a search deeper than the number of components.\<close>

definition compile_graph ::
    "plugin_manifest list \<Rightarrow> component_manifest list \<Rightarrow> authority \<Rightarrow> provider_policy option
     \<Rightarrow> (component_graph_error + component_graph) option" where
  "compile_graph plugin_manifests component_manifests harness policy =
     (case rbind (map_err CgDuplicatePlugin (bt_index pm_id [] plugin_manifests)) (\<lambda>plugins.
           rbind (try_fold (add_component plugins) [] component_manifests) (\<lambda>components.
             resolve_all harness plugins components policy)) of
        Inl e \<Rightarrow> Some (Inl e)
      | Inr (resolved, listeners) \<Rightarrow>
          (case validate_required_import_dag resolved of
             None \<Rightarrow> None
           | Some (Inl e) \<Rightarrow> Some (Inl e)
           | Some (Inr _) \<Rightarrow> Some
               (rbind (map_err ListenerTopology (validate_subscriptions
                   (map (\<lambda>l. \<lparr>es_spec = listener_spec 0 l, es_handler = ()\<rparr>) listeners)))
                 (\<lambda>_. Inr \<lparr>cg_components = resolved, cg_listeners = listeners\<rparr>))))"

definition resolved_import_of ::
    "component_graph \<Rightarrow> component_id \<Rightarrow> interface_id \<Rightarrow> component_graph_error + resolved_import" where
  "resolved_import_of g c i =
     rbind (ok_or (UnknownComponent c) (bt_get (cg_components g) c)) (\<lambda>rc.
       ok_or (ImportNotDeclared c i) (find (\<lambda>im. ri_interface im = i) (rc_imports rc)))"

definition graph_import_handle ::
    "component_graph \<Rightarrow> component_id \<Rightarrow> interface_id \<Rightarrow> component_graph_error + import_handle option" where
  "graph_import_handle g c i = rbind (resolved_import_of g c i) (\<lambda>im. Inr (ri_binding im))"

text \<open>The reason of a bound import is always present; \<open>None\<close> inside would be the \<open>expect\<close> panic.\<close>

definition plan_of_import :: "resolved_import \<Rightarrow> provider_plan option" where
  "plan_of_import im =
     (case (ri_binding im, ri_reason im) of
        (Some primary, Some reason) \<Rightarrow>
          Some \<lparr>pp_primary = primary, pp_fallbacks = ri_fallbacks im, pp_reason = reason\<rparr>
      | _ \<Rightarrow> None)"

definition graph_provider_plan ::
    "component_graph \<Rightarrow> component_id \<Rightarrow> interface_id \<Rightarrow> component_graph_error + provider_plan option" where
  "graph_provider_plan g c i = rbind (resolved_import_of g c i) (\<lambda>im. Inr (plan_of_import im))"

subsection \<open>Candidates\<close>

text \<open>What a candidate becomes when it is eligible, and the exporters that are.\<close>

definition eligible_of ::
    "authority \<Rightarrow> manifests \<Rightarrow> provider_policy option \<Rightarrow> component_import
     \<Rightarrow> component_manifest \<times> component_export \<Rightarrow> eligible_provider option" where
  "eligible_of comp_auth plugins policy i cand =
     (let (candidate, export) = cand; auth = binding_authority comp_auth plugins i candidate
      in if (\<forall>p. policy = Some p \<longrightarrow> provider_enabled p (ci_interface i) (cm_id candidate)) \<and>
            permits_all auth (ce_required export) \<and>
            (\<forall>mismatch. accepts_provider (ci_schema i) (ce_schema export) \<noteq> IfIncompatible mismatch)
         then Some \<lparr>el_component = candidate, el_authority = auth,
           el_priority = (case policy of
               Some p \<Rightarrow> effective_priority p (ci_interface i) (cm_id candidate)
             | None \<Rightarrow> ce_priority export),
           el_explicit = (Option.bind policy (\<lambda>p. explicit_binding p (ci_interface i)) = Some (cm_id candidate))\<rparr>
         else None)"

definition eligible ::
    "authority \<Rightarrow> manifests \<Rightarrow> components \<Rightarrow> provider_policy option \<Rightarrow> component_manifest \<Rightarrow> component_import
     \<Rightarrow> eligible_provider \<Rightarrow> bool" where
  "eligible harness plugins components policy m i e \<longleftrightarrow>
     (\<exists>c\<in>set (bt_vals components). \<exists>x\<in>set (cm_exports c). ce_interface x = ci_interface i \<and>
        eligible_of (component_authority harness plugins m) plugins policy i (c, x) = Some e)"

lemma consider_candidate_found:
  "fst (consider_candidate auth plugins policy i acc cand) =
     fst acc @ (case eligible_of auth plugins policy i cand of Some e \<Rightarrow> [e] | None \<Rightarrow> [])"
  by (cases acc; cases cand)
    (auto simp: consider_candidate_def eligible_of_def Let_def split: option.splits interface_compatibility.splits)

lemma foldl_consider:
  "fst (foldl (consider_candidate auth plugins policy i) acc cands) =
     fst acc @ filter_map (eligible_of auth plugins policy i) cands"
  by (induction cands arbitrary: acc) (simp_all add: consider_candidate_found split: option.splits)

lemma set_exporters_for:
  "(c, x) \<in> set (exporters_for components i) \<longleftrightarrow>
     c \<in> set (bt_vals components) \<and> x \<in> set (cm_exports c) \<and> ce_interface x = i"
  by (auto simp: exporters_for_def)

definition ranked_providers ::
    "authority \<Rightarrow> manifests \<Rightarrow> components \<Rightarrow> provider_policy option \<Rightarrow> component_manifest \<Rightarrow> component_import
     \<Rightarrow> eligible_provider list" where
  "ranked_providers harness plugins components policy m i =
     sort_by eligible_le (filter_map (eligible_of (component_authority harness plugins m) plugins policy i)
       (exporters_for components (ci_interface i)))"

lemma set_ranked: "set (ranked_providers h ps cs policy m i) = {e. eligible h ps cs policy m i e}"
proof (rule set_eqI)
  fix e
  have "e \<in> set (ranked_providers h ps cs policy m i) \<longleftrightarrow>
      (\<exists>p\<in>set (exporters_for cs (ci_interface i)).
        eligible_of (component_authority h ps m) ps policy i p = Some e)"
    by (simp add: ranked_providers_def set_filter_map)
  also have "\<dots> \<longleftrightarrow> e \<in> {e. eligible h ps cs policy m i e}"
    by (auto simp: eligible_def set_exporters_for; force simp: set_exporters_for)
  finally show "e \<in> set (ranked_providers h ps cs policy m i) \<longleftrightarrow> e \<in> {e. eligible h ps cs policy m i e}" .
qed

lemma ranked_best: "ranked_providers h ps cs policy m i = e # rest \<Longrightarrow>
    eligible h ps cs policy m i e \<and> (\<forall>e'. eligible h ps cs policy m i e' \<longrightarrow> eligible_le e e')"
  using set_ranked [of h ps cs policy m i] elig_rank.best_first
  by (metis list.set_intros(1) mem_Collect_eq ranked_providers_def set_sort_by)

text \<open>The outcome of resolving an import, in terms of the ranked eligible providers.\<close>

lemma resolve_import_ok:
  "resolve_import h ps cs policy m i = Inr ri \<Longrightarrow>
     ri_interface ri = ci_interface i \<and> ri_required ri = ci_required i \<and>
     (case ranked_providers h ps cs policy m i of
        [] \<Rightarrow> \<not> ci_required i \<and> ri_binding ri = None \<and> ri_fallbacks ri = [] \<and> ri_reason ri = None
      | e # rest \<Rightarrow> ri_binding ri = Some (handle_of ps m i e) \<and> ri_reason ri \<noteq> None \<and>
          ri_fallbacks ri = (if \<exists>p. policy = Some p \<and> fallback_enabled p (ci_interface i)
            then map (handle_of ps m i) rest else []))"
  using foldl_consider [of "component_authority h ps m" ps policy i "([], None)" "exporters_for cs (ci_interface i)"]
  by (auto simp: resolve_import_def ranked_providers_def Let_def selection_reason_of_def
      split: prod.splits list.splits option.splits if_splits)

lemma resolve_import_is_ok:
  "is_ok (resolve_import h ps cs policy m i) \<longleftrightarrow>
     (ci_required i \<longrightarrow> (\<exists>e. eligible h ps cs policy m i e))"
proof -
  have "is_ok (resolve_import h ps cs policy m i) \<longleftrightarrow>
      (ci_required i \<longrightarrow> ranked_providers h ps cs policy m i \<noteq> [])"
    using foldl_consider [of "component_authority h ps m" ps policy i "([], None)" "exporters_for cs (ci_interface i)"]
    by (auto simp: resolve_import_def ranked_providers_def Let_def simp del: sort_by_eq_Nil
        split: prod.splits list.splits option.splits)
  also have "\<dots> \<longleftrightarrow> (ci_required i \<longrightarrow> (\<exists>e. eligible h ps cs policy m i e))"
    using set_ranked [of h ps cs policy m i] by (cases "ranked_providers h ps cs policy m i") auto
  finally show ?thesis .
qed

lemma eligible_authority:
  assumes "eligible h ps cs policy m i e"
  shows "el_authority e \<subseteq> component_authority h ps m" "el_authority e \<subseteq> ci_authority i"
    "el_authority e \<subseteq> pm_maximum (owner_of ps (el_component e))" "el_authority e \<subseteq> cm_maximum (el_component e)"
    "el_component e \<in> set (bt_vals cs)"
    "\<forall>p. policy = Some p \<longrightarrow> provider_enabled p (ci_interface i) (cm_id (el_component e))"
    "\<exists>x\<in>set (cm_exports (el_component e)). ce_interface x = ci_interface i \<and> ce_required x \<subseteq> el_authority e \<and>
       (\<forall>mismatch. accepts_provider (ci_schema i) (ce_schema x) \<noteq> IfIncompatible mismatch)"
  using assms
  by (auto simp: eligible_def eligible_of_def Let_def binding_authority_def attenuate_def permits_all_subset
      split: if_splits)

lemma resolved_handles:
  assumes "resolve_import h ps cs policy m i = Inr ri"
    "x \<in> set ((case ri_binding ri of Some b \<Rightarrow> [b] | None \<Rightarrow> []) @ ri_fallbacks ri)"
  shows "\<exists>e. eligible h ps cs policy m i e \<and> x = handle_of ps m i e"
  using resolve_import_ok [OF assms(1)] assms(2) set_ranked [of h ps cs policy m i]
  by (cases "ranked_providers h ps cs policy m i") (auto split: if_splits)

subsection \<open>The check of required imports is the generic search\<close>

definition as_graph_result ::
    "(component_id list + component_id list) option \<Rightarrow> (component_graph_error + component_id set) option" where
  "as_graph_result = map_option (map_sum RequiredImportCycle set)"

lemma as_graph_result_simps [simp]:
  "as_graph_result None = None"
  "as_graph_result (Some (Inl p)) = Some (Inl (RequiredImportCycle p))"
  "as_graph_result (Some (Inr xs)) = Some (Inr (set xs))"
  by (simp_all add: as_graph_result_def)

lemma visit_import_search:
  "visit_import n cs stack (set finished) c = as_graph_result (dfs n (required_targets cs) stack finished c)"
  "visit_imports n cs stack (set finished) ks = as_graph_result (dfs_list n (required_targets cs) stack finished ks)"
proof (induction n "required_targets cs" stack finished c and n "required_targets cs" stack finished ks
    rule: dfs_dfs_list.induct)
  case (2 n stack finished k)
  then show ?case by (auto split: option.splits sum.splits)
next
  case (4 n stack finished k ks)
  then show ?case by (auto split: option.splits sum.splits)
qed simp_all

lemma validate_dag_search:
  "validate_required_import_dag cs =
     map_option (map_sum RequiredImportCycle (\<lambda>_. ()))
       (dfs_all (Suc (length cs)) (required_targets cs) (bt_keys cs))"
  using visit_import_search(2) [of "Suc (length cs)" cs "[]" "[]" "bt_keys cs"]
  by (simp add: validate_required_import_dag_def dfs_all_def as_graph_result_def option.map_comp
      comp_def sum.map_comp)

text \<open>Required imports that stay within the graph.\<close>

definition targets_known :: "(component_id, resolved_component) btree \<Rightarrow> bool" where
  "targets_known cs \<longleftrightarrow> (\<forall>c\<in>set (bt_keys cs). set (required_targets cs c) \<subseteq> set (bt_keys cs))"

lemma validate_dag_cases:
  assumes "targets_known cs"
  shows "(\<exists>path. validate_required_import_dag cs = Some (Inl (RequiredImportCycle path)) \<and>
      is_cycle (required_targets cs) path) \<or>
    (validate_required_import_dag cs = Some (Inr ()) \<and> (\<nexists>path. is_cycle (required_targets cs) path))"
proof -
  let ?r = "dfs_all (Suc (length cs)) (required_targets cs) (bt_keys cs)"
  have closed: "\<forall>j\<in>set (bt_keys cs). set (required_targets cs j) \<subseteq> set (bt_keys cs)"
    using assms by (simp add: targets_known_def)
  have "?r \<noteq> None" by (rule dfs_all_returns [OF closed]) (simp add: bt_keys_def)
  then consider p where "?r = Some (Inl p)" | order where "?r = Some (Inr order)"
    by (cases ?r; cases "the ?r") auto
  then show ?thesis
  proof cases
    case (1 p)
    with dfs_all_cycle [OF 1] show ?thesis by (simp add: validate_dag_search)
  next
    case (2 order)
    note ok = dfs_all_ok [OF 2 closed]
    have "\<not> is_cycle (required_targets cs) path" for path
    proof
      assume cyc: "is_cycle (required_targets cs) path"
      then obtain x y zs where "path = x # y # zs" "y \<in> set (required_targets cs x)"
        by (cases path; cases "tl path") (auto simp: is_cycle_def)
      then have "x \<in> set (bt_keys cs)"
        by (cases "bt_get cs x") (auto simp: required_targets_def bt_keys_get)
      with closed_order_acyclic [OF ok(1) cyc] ok(2) \<open>path = x # y # zs\<close> show False by simp
    qed
    with 2 show ?thesis by (simp add: validate_dag_search)
  qed
qed

subsection \<open>The indexed components\<close>

definition components_ok :: "manifests \<Rightarrow> components \<Rightarrow> bool" where
  "components_ok plugins cs \<longleftrightarrow> bt_ok cs \<and> (\<forall>k m. bt_get cs k = Some m \<longrightarrow> cm_id m = k \<and>
     is_ok (validate_component_manifest m) \<and>
     (\<exists>owner. bt_get plugins (cm_owner m) = Some owner \<and> pm_execution owner \<noteq> ResourceOnly))"

definition addable :: "manifests \<Rightarrow> component_manifest \<Rightarrow> bool" where
  "addable plugins m \<longleftrightarrow> is_ok (validate_component_manifest m) \<and>
     (\<exists>owner. bt_get plugins (cm_owner m) = Some owner \<and> pm_execution owner \<noteq> ResourceOnly)"

lemma add_component_ok:
  "add_component plugins cs m = Inr cs' \<longleftrightarrow>
     addable plugins m \<and> \<not> bt_has cs (cm_id m) \<and> cs' = bt_insert (cm_id m) m cs"
  by (auto simp: add_component_def addable_def rbind_eq_Inr is_ok_iff)

text \<open>Adding every component is indexing them by identity, with each of them acceptable.\<close>

lemma add_components_ok:
  "try_fold (add_component plugins) cs ms = Inr cs' \<longleftrightarrow>
     (\<forall>m\<in>set ms. addable plugins m) \<and> bt_index cm_id cs ms = Inr cs'"
  by (induction ms arbitrary: cs) (auto simp: rbind_eq_Inr add_component_ok)

lemma indexed_components_ok:
  assumes "try_fold (add_component plugins) [] ms = Inr cs"
  shows "components_ok plugins cs" "set (bt_vals cs) = set ms" "distinct (map cm_id (bt_vals cs))"
proof -
  from assms have h: "bt_index cm_id [] ms = Inr cs" "\<forall>m\<in>set ms. addable plugins m"
    by (auto simp: add_components_ok)
  note ix = bt_index_empty [OF h(1)]
  from ix(1,4) h(2) show "components_ok plugins cs"
    by (auto simp: components_ok_def addable_def)
  show "set (bt_vals cs) = set ms" by (fact ix(3))
  have "map cm_id (bt_vals cs) = bt_keys cs" using ix(5) by simp
  with distinct_bt_keys [OF ix(1)] show "distinct (map cm_id (bt_vals cs))" by simp
qed

lemma check_imports_ok:
  "is_ok (check_imports c seen is) \<longleftrightarrow> distinct (map ci_interface is) \<and> ci_interface ` set is \<inter> seen = {}"
  by (induction c seen "is" rule: check_imports.induct) auto

lemma check_exports_ok:
  "is_ok (check_exports c seen es) \<longleftrightarrow> distinct (map ce_interface es) \<and> ce_interface ` set es \<inter> seen = {}"
  by (induction c seen es rule: check_exports.induct) auto

lemma validate_component_manifest_ok:
  "is_ok (validate_component_manifest m) \<longleftrightarrow>
     distinct (map ci_interface (cm_imports m)) \<and> distinct (map ce_interface (cm_exports m))"
proof -
  have "is_ok (validate_component_manifest m) \<longleftrightarrow>
      is_ok (check_imports (cm_id m) {} (cm_imports m)) \<and> is_ok (check_exports (cm_id m) {} (cm_exports m))"
    by (auto simp: validate_component_manifest_def is_ok_iff rbind_eq_Inr)
  then show ?thesis by (simp add: check_imports_ok check_exports_ok)
qed

subsection \<open>The resolved components\<close>

lemma resolve_component_ok:
  "resolve_component h ps cs policy m = Inr rc \<longleftrightarrow>
     list_all2 (\<lambda>i ri. resolve_import h ps cs policy m i = Inr ri) (cm_imports m) (rc_imports rc) \<and>
     rc_id rc = cm_id m \<and> rc_plugin rc = cm_owner m \<and> rc_execution rc = pm_execution (owner_of ps m) \<and>
     rc_maximum rc = component_authority h ps m"
  by (cases rc) (auto simp: resolve_component_def rbind_eq_Inr try_map_ok)

lemma resolve_all_fold:
  "try_fold (\<lambda>(resolved, listeners) m.
       rbind (resolve_component h ps cs policy m) (\<lambda>rc.
         Inr (bt_insert (cm_id m) rc resolved, listeners @ component_listeners h ps m)))
     (res, ls) ms = Inr (res', ls') \<Longrightarrow> distinct (map cm_id ms) \<Longrightarrow>
     (bt_ok res \<longrightarrow> bt_ok res') \<and> ls' = ls @ concat (map (component_listeners h ps) ms) \<and>
     (\<forall>m\<in>set ms. \<exists>rc. resolve_component h ps cs policy m = Inr rc \<and> bt_get res' (cm_id m) = Some rc) \<and>
     (\<forall>k. k \<notin> cm_id ` set ms \<longrightarrow> bt_get res' k = bt_get res k)"
proof (induction ms arbitrary: res ls)
  case (Cons m ms)
  then obtain rc where rc: "resolve_component h ps cs policy m = Inr rc"
    "try_fold (\<lambda>(resolved, listeners) m.
       rbind (resolve_component h ps cs policy m) (\<lambda>rc.
         Inr (bt_insert (cm_id m) rc resolved, listeners @ component_listeners h ps m)))
     (bt_insert (cm_id m) rc res, ls @ component_listeners h ps m) ms = Inr (res', ls')"
    by (auto simp: rbind_eq_Inr)
  note ih = Cons.IH [OF rc(2)]
  from Cons.prems(2) have d: "distinct (map cm_id ms)" "cm_id m \<notin> cm_id ` set ms" by auto
  with ih rc(1) show ?case by (auto simp: map_simps intro: bt_ok_insert)
qed simp

lemma resolve_all_ok:
  assumes "resolve_all h ps cs policy = Inr (res, ls)" "distinct (map cm_id (bt_vals cs))"
  shows "bt_ok res" "ls = concat (map (component_listeners h ps) (bt_vals cs))"
    "bt_get res k = Some rc \<longleftrightarrow>
       (\<exists>m\<in>set (bt_vals cs). cm_id m = k \<and> resolve_component h ps cs policy m = Inr rc)"
proof -
  note f = resolve_all_fold [OF assms(1) [unfolded resolve_all_def] assms(2)]
  from f show "bt_ok res" "ls = concat (map (component_listeners h ps) (bt_vals cs))" by auto
  have unique: "m = m'" if "m \<in> set (bt_vals cs)" "m' \<in> set (bt_vals cs)" "cm_id m = cm_id m'" for m m'
    using assms(2) that by (auto simp: distinct_map dest: inj_onD)
  show "bt_get res k = Some rc \<longleftrightarrow>
       (\<exists>m\<in>set (bt_vals cs). cm_id m = k \<and> resolve_component h ps cs policy m = Inr rc)"
  proof (cases "k \<in> cm_id ` set (bt_vals cs)")
    case True
    then obtain m where m: "m \<in> set (bt_vals cs)" "cm_id m = k" by auto
    with f obtain rc' where rc': "resolve_component h ps cs policy m = Inr rc'" "bt_get res k = Some rc'" by blast
    show ?thesis
    proof
      assume "bt_get res k = Some rc"
      with rc' m show "\<exists>m\<in>set (bt_vals cs). cm_id m = k \<and> resolve_component h ps cs policy m = Inr rc" by auto
    next
      assume "\<exists>m\<in>set (bt_vals cs). cm_id m = k \<and> resolve_component h ps cs policy m = Inr rc"
      then obtain m' where "m' \<in> set (bt_vals cs)" "cm_id m' = k"
        "resolve_component h ps cs policy m' = Inr rc" by blast
      moreover from this(1,2) m have "m' = m" by (intro unique) simp_all
      ultimately show "bt_get res k = Some rc" using rc' by simp
    qed
  next
    case False
    with f have "bt_get res k = None" by simp
    with False show ?thesis by auto
  qed
qed

text \<open>The indexed manifests and the components that the inputs of a compilation give.\<close>

definition graph_inputs ::
    "plugin_manifest list \<Rightarrow> component_manifest list \<Rightarrow> manifests \<Rightarrow> components \<Rightarrow> bool" where
  "graph_inputs plugin_manifests component_manifests ps cs \<longleftrightarrow>
     bt_index pm_id [] plugin_manifests = Inr ps \<and>
     try_fold (add_component ps) [] component_manifests = Inr cs"

lemma graph_inputs_unique:
  "graph_inputs pms cms ps cs \<Longrightarrow> graph_inputs pms cms ps' cs' \<Longrightarrow> ps' = ps \<and> cs' = cs"
  by (auto simp: graph_inputs_def)

lemma resolved_targets_known:
  assumes "components_ok ps cs" "distinct (map cm_id (bt_vals cs))" "resolve_all h ps cs policy = Inr (res, ls)"
  shows "targets_known res"
  unfolding targets_known_def
proof (intro ballI subsetI)
  fix k t assume k: "k \<in> set (bt_keys res)" and t: "t \<in> set (required_targets res k)"
  from k obtain rc where rc: "bt_get res k = Some rc" by (auto simp: bt_keys_get)
  with t obtain ri x where ri: "ri \<in> set (rc_imports rc)"
    "x \<in> set ((case ri_binding ri of Some b \<Rightarrow> [b] | None \<Rightarrow> []) @ ri_fallbacks ri)" "t = ih_exporter x"
    by (fastforce simp: required_targets_def split: if_splits)
  from rc obtain m where m: "m \<in> set (bt_vals cs)" "resolve_component h ps cs policy m = Inr rc"
    by (auto simp: resolve_all_ok(3) [OF assms(3,2)])
  from m(2) ri(1) obtain i where "resolve_import h ps cs policy m i = Inr ri"
    by (auto simp: resolve_component_ok list_all2_conv_all_nth in_set_conv_nth)
  from resolved_handles [OF this ri(2)] obtain e where
    e: "eligible h ps cs policy m i e" "x = handle_of ps m i e" by blast
  with ri(3) eligible_authority(5) [OF e(1)] have
    "t = cm_id (el_component e)" "el_component e \<in> set (bt_vals cs)" by (simp_all add: handle_of_def)
  moreover obtain rc' where "resolve_component h ps cs policy (el_component e) = Inr rc'"
    using resolve_all_fold [OF assms(3) [unfolded resolve_all_def] assms(2)] calculation(2) by blast
  ultimately show "t \<in> set (bt_keys res)"
    unfolding bt_keys_get resolve_all_ok(3) [OF assms(3,2)] by blast
qed

text \<open>The outcomes of a compilation.\<close>

definition graph_listener_subscriptions :: "nat \<Rightarrow> resolved_listener list \<Rightarrow> unit event_subscription list" where
  "graph_listener_subscriptions revision ls = map (\<lambda>l. \<lparr>es_spec = listener_spec revision l, es_handler = ()\<rparr>) ls"

lemma compile_graph_ok:
  assumes "compile_graph pms cms h policy = Some (Inr g)"
  obtains ps cs where "graph_inputs pms cms ps cs"
    "resolve_all h ps cs policy = Inr (cg_components g, cg_listeners g)"
    "validate_required_import_dag (cg_components g) = Some (Inr ())"
    "is_ok (validate_subscriptions (graph_listener_subscriptions 0 (cg_listeners g)))"
  using assms
  by (cases "bt_index pm_id [] pms")
    (force simp: compile_graph_def rbind_eq_Inr graph_inputs_def graph_listener_subscriptions_def is_ok_iff
       split: sum.splits option.splits)+

lemma graph_inputs_facts:
  assumes "graph_inputs pms cms ps cs"
  shows "components_ok ps cs" "set (bt_vals cs) = set cms" "distinct (map cm_id (bt_vals cs))"
    "set (bt_vals ps) = set pms" "bt_get ps k = Some p \<longleftrightarrow> p \<in> set pms \<and> pm_id p = k"
proof -
  from assms have h: "bt_index pm_id [] pms = Inr ps" "try_fold (add_component ps) [] cms = Inr cs"
    by (auto simp: graph_inputs_def)
  show "components_ok ps cs" "set (bt_vals cs) = set cms" "distinct (map cm_id (bt_vals cs))"
    by (fact indexed_components_ok [OF h(2)])+
  show "set (bt_vals ps) = set pms" "bt_get ps k = Some p \<longleftrightarrow> p \<in> set pms \<and> pm_id p = k"
    by (fact bt_index_empty(3,4) [OF h(1)])+
qed

text \<open>An error that names a cycle names a cycle of required imports of the components resolved so far.\<close>

definition genuine_import_cycle ::
    "plugin_manifest list \<Rightarrow> component_manifest list \<Rightarrow> authority \<Rightarrow> provider_policy option
     \<Rightarrow> component_id list \<Rightarrow> bool" where
  "genuine_import_cycle pms cms h policy path \<longleftrightarrow> (\<exists>ps cs res ls.
     graph_inputs pms cms ps cs \<and> resolve_all h ps cs policy = Inr (res, ls) \<and>
     is_cycle (required_targets res) path)"

definition is_import_cycle :: "component_graph_error \<Rightarrow> bool" where
  "is_import_cycle e \<longleftrightarrow> (\<exists>path. e = RequiredImportCycle path)"

lemma no_import_cycle_errors:
  "add_component ps cs m = Inl e \<Longrightarrow> \<not> is_import_cycle e"
  "resolve_import h ps cs policy m i = Inl e \<Longrightarrow> \<not> is_import_cycle e"
proof -
  have i: "check_imports c seen is = Inl e \<Longrightarrow> \<not> is_import_cycle e" for c seen "is"
    by (induction c seen "is" rule: check_imports.induct) (auto simp: is_import_cycle_def split: if_splits)
  have x: "check_exports c seen es = Inl e \<Longrightarrow> \<not> is_import_cycle e" for c seen es
    by (induction c seen es rule: check_exports.induct) (auto simp: is_import_cycle_def split: if_splits)
  show "add_component ps cs m = Inl e \<Longrightarrow> \<not> is_import_cycle e"
  proof -
    assume "add_component ps cs m = Inl e"
    then consider "validate_component_manifest m = Inl e"
      | "e = UnknownOwningPlugin (cm_id m) (cm_owner m)" | "e = ResourceOnlyComponentOwner (cm_id m) (cm_owner m)"
      | "e = DuplicateComponent (cm_id m)"
      by (auto simp: add_component_def rbind_eq_Inl ok_or_eq_Inl split: if_splits)
    then show "\<not> is_import_cycle e"
    proof cases
      case 1
      then consider "check_imports (cm_id m) {} (cm_imports m) = Inl e"
        | "check_exports (cm_id m) {} (cm_exports m) = Inl e"
        by (auto simp: validate_component_manifest_def rbind_eq_Inl)
      then show ?thesis by cases (rule i, assumption, rule x)
    qed (simp_all add: is_import_cycle_def)
  qed
  show "resolve_import h ps cs policy m i = Inl e \<Longrightarrow> \<not> is_import_cycle e"
    by (auto simp: resolve_import_def Let_def is_import_cycle_def
        split: prod.splits list.splits option.splits if_splits)
qed

lemma try_map_err: "try_map f xs = Inl e \<Longrightarrow> \<exists>x\<in>set xs. f x = Inl e"
  by (induction xs) (auto simp: rbind_eq_Inl)

lemma try_fold_error: "try_fold f s xs = Inl e \<Longrightarrow> \<exists>s x. f s x = Inl e"
  by (induction xs arbitrary: s) (auto simp: rbind_eq_Inl)

lemma resolve_all_err:
  assumes "resolve_all h ps cs policy = Inl e"
  shows "\<not> is_import_cycle e"
proof -
  from assms obtain m where "resolve_component h ps cs policy m = Inl e"
    unfolding resolve_all_def by (auto simp: rbind_eq_Inl dest!: try_fold_error)
  then obtain i where "resolve_import h ps cs policy m i = Inl e"
    by (auto simp: resolve_component_def rbind_eq_Inl dest!: try_map_err)
  then show ?thesis by (rule no_import_cycle_errors)
qed

lemma graph_listener_subscriptions_unfold:
  "map (\<lambda>l. \<lparr>es_spec = listener_spec 0 l, es_handler = ()\<rparr>) ls = graph_listener_subscriptions 0 ls"
  by (simp add: graph_listener_subscriptions_def)

lemma compile_graph_cases:
  "(\<exists>e. compile_graph pms cms h policy = Some (Inl e) \<and>
      (is_import_cycle e \<longrightarrow> (\<exists>path. e = RequiredImportCycle path \<and> genuine_import_cycle pms cms h policy path))) \<or>
   (\<exists>g. compile_graph pms cms h policy = Some (Inr g) \<and>
      (\<nexists>path. is_cycle (required_targets (cg_components g)) path))"
proof (cases "rbind (map_err CgDuplicatePlugin (bt_index pm_id [] pms)) (\<lambda>ps.
      rbind (try_fold (add_component ps) [] cms) (\<lambda>cs. resolve_all h ps cs policy))")
  case (Inl e)
  then have "\<not> is_import_cycle e"
    by (auto simp: rbind_eq_Inl map_err_eq_Inl dest!: resolve_all_err try_fold_error no_import_cycle_errors(1))
      (simp add: is_import_cycle_def)
  with Inl show ?thesis by (simp add: compile_graph_def)
next
  case (Inr t)
  then obtain ps cs res ls where h: "graph_inputs pms cms ps cs" "resolve_all h ps cs policy = Inr (res, ls)"
    "t = (res, ls)" by (cases t) (auto simp: rbind_eq_Inr graph_inputs_def)
  note known = resolved_targets_known [OF graph_inputs_facts(1,3) [OF h(1)] h(2)]
  from validate_dag_cases [OF known] show ?thesis
  proof (elim disjE exE conjE)
    fix path assume "validate_required_import_dag res = Some (Inl (RequiredImportCycle path))"
      "is_cycle (required_targets res) path"
    with Inr h show ?thesis by (auto simp: compile_graph_def genuine_import_cycle_def)
  next
    assume "validate_required_import_dag res = Some (Inr ())" "\<nexists>path. is_cycle (required_targets res) path"
    with Inr h(3) show ?thesis
      by (cases "validate_subscriptions (graph_listener_subscriptions 0 ls)")
        (auto simp: compile_graph_def is_import_cycle_def graph_listener_subscriptions_unfold)
  qed
qed

text \<open>What the accessors return for a declared import of an indexed component.\<close>

lemma resolved_import_of_compiled:
  assumes "compile_graph pms cms h policy = Some (Inr g)" "graph_inputs pms cms ps cs"
    "m \<in> set cms" "i \<in> set (cm_imports m)"
  obtains ri where "resolved_import_of g (cm_id m) (ci_interface i) = Inr ri"
    "resolve_import h ps cs policy m i = Inr ri"
proof -
  from assms(1) obtain ps' cs' where "graph_inputs pms cms ps' cs'"
    "resolve_all h ps' cs' policy = Inr (cg_components g, cg_listeners g)" by (rule compile_graph_ok)
  with graph_inputs_unique [OF assms(2)] have ra: "resolve_all h ps cs policy = Inr (cg_components g, cg_listeners g)"
    by blast
  note facts = graph_inputs_facts [OF assms(2)]
  have m: "m \<in> set (bt_vals cs)" using assms(3) facts(2) by simp
  obtain rc where rc: "resolve_component h ps cs policy m = Inr rc" "bt_get (cg_components g) (cm_id m) = Some rc"
    using resolve_all_fold [OF ra [unfolded resolve_all_def] facts(3)] m by blast
  from rc(1) have la: "list_all2 (\<lambda>i ri. resolve_import h ps cs policy m i = Inr ri) (cm_imports m) (rc_imports rc)"
    by (simp add: resolve_component_ok)
  have "distinct (map ci_interface (cm_imports m))"
    using facts(1) m by (auto simp: components_ok_def set_bt_vals validate_component_manifest_ok)
  from la assms(4) this have "\<exists>ri. find (\<lambda>im. ri_interface im = ci_interface i) (rc_imports rc) = Some ri \<and>
      resolve_import h ps cs policy m i = Inr ri"
  proof (induction rule: list_all2_induct)
    case (Cons i' decls ri ris)
    then show ?case by (auto dest: resolve_import_ok)
  qed simp
  with rc(2) that show ?thesis by (auto simp: resolved_import_of_def)
qed

lemma compiled_component:
  assumes "compile_graph pms cms h policy = Some (Inr g)" "graph_inputs pms cms ps cs"
    "bt_get (cg_components g) c = Some rc"
  obtains m where "m \<in> set cms" "cm_id m = c" "resolve_component h ps cs policy m = Inr rc"
proof -
  from assms(1) obtain ps' cs' where "graph_inputs pms cms ps' cs'"
    "resolve_all h ps' cs' policy = Inr (cg_components g, cg_listeners g)" by (rule compile_graph_ok)
  with graph_inputs_unique [OF assms(2)] have ra: "resolve_all h ps cs policy = Inr (cg_components g, cg_listeners g)"
    by blast
  note facts = graph_inputs_facts [OF assms(2)]
  from assms(3) facts(2) that show ?thesis unfolding resolve_all_ok(3) [OF ra facts(3)] by blast
qed

subsection \<open>The listener topology\<close>

text \<open>What the validation of subscriptions looks at; handlers, owners and revisions do not matter.\<close>

definition same_topology :: "'a event_subscription \<Rightarrow> 'b event_subscription \<Rightarrow> bool" where
  "same_topology s t \<longleftrightarrow> sub_id (es_spec s) = sub_id (es_spec t) \<and> sub_type (es_spec s) = sub_type (es_spec t) \<and>
     sub_version (es_spec s) = sub_version (es_spec t) \<and>
     sub_dependencies (es_spec s) = sub_dependencies (es_spec t)"

lemma same_topology_deps: "bt_rel same_topology m n \<Longrightarrow> deps_of m k = deps_of n k"
  using bt_rel_get [of same_topology m n k] by (auto simp: deps_of_def same_topology_def elim!: option.rel_cases)

lemma same_topology_levels: "bt_rel same_topology m n \<Longrightarrow> level_loop m ids = level_loop n ids"
proof (induction m ids rule: level_loop.induct)
  case (1 m ids)
  have d: "deps_of m = deps_of n" using same_topology_deps [OF 1(2)] by (simp add: fun_eq_iff)
  let ?ready = "filter (\<lambda>sid. list_all (\<lambda>d. d \<notin> set ids) (deps_of n sid)) ids"
  have "level_loop m (filter (\<lambda>sid. sid \<notin> set ?ready) ids) = level_loop n (filter (\<lambda>sid. sid \<notin> set ?ready) ids)"
    if "ids \<noteq> []" "?ready \<noteq> []"
    using 1(1) [OF that(1) _ _ 1(2)] that(2) unfolding d by blast
  then show ?case
    unfolding level_loop.simps [of m ids] level_loop.simps [of n ids] d Let_def
    by (cases "ids = []"; cases "?ready = []") (simp_all del: set_filter)
qed

lemma list_all2_image: "list_all2 R xs ys \<Longrightarrow> (\<And>x y. R x y \<Longrightarrow> f x = g y) \<Longrightarrow> map f xs = map g ys"
  by (induction rule: list_all2_induct) auto

lemma same_topology_matching: "bt_rel same_topology m n \<Longrightarrow> matching_ids m ty ver = matching_ids n ty ver"
proof -
  assume "bt_rel same_topology m n"
  then have "list_all2 same_topology (bt_vals m) (bt_vals n)" by (rule bt_rel_vals)
  then have "map subscription_id_of (filter (\<lambda>s. sub_type (es_spec s) = ty \<and> sub_version (es_spec s) = ver) (bt_vals m)) =
      map subscription_id_of (filter (\<lambda>s. sub_type (es_spec s) = ty \<and> sub_version (es_spec s) = ver) (bt_vals n))"
    by (induction rule: list_all2_induct) (auto simp: same_topology_def subscription_id_of_def)
  then show ?thesis by (simp add: matching_ids_def)
qed

lemma same_topology_keys: "bt_rel same_topology m n \<Longrightarrow> event_keys m = event_keys n"
  using list_all2_image [OF bt_rel_vals, of same_topology m n "\<lambda>s. (sub_type (es_spec s), sub_version (es_spec s))"
      "\<lambda>s. (sub_type (es_spec s), sub_version (es_spec s))"]
  by (simp add: event_keys_def same_topology_def)

lemma same_topology_check:
  assumes "bt_rel same_topology m n" "same_topology s t"
  shows "check_dependency m s d = check_dependency n t d"
  using bt_rel_get [OF assms(1), of d] assms(2)
  by (auto simp: check_dependency_def same_topology_def subscription_id_of_def elim!: option.rel_cases)

lemma same_topology_validate:
  assumes "bt_rel same_topology m n"
  shows "validate_dependencies m = validate_dependencies n"
proof -
  have "try_each (\<lambda>s. try_each (check_dependency m s) (sub_dependencies (es_spec s))) xs =
      try_each (\<lambda>s. try_each (check_dependency n s) (sub_dependencies (es_spec s))) ys"
    if "list_all2 same_topology xs ys" for xs ys
    using that
  proof (induction rule: list_all2_induct)
    case (Cons x xs y ys)
    then have "check_dependency m x = check_dependency n y" "sub_dependencies (es_spec x) = sub_dependencies (es_spec y)"
      using same_topology_check [OF assms] by (auto simp: same_topology_def)
    with Cons show ?case by simp
  qed simp
  then show ?thesis
    using bt_rel_vals [OF assms] same_topology_keys [OF assms] same_topology_levels [OF assms]
      same_topology_matching [OF assms]
    by (simp add: validate_dependencies_def dependency_order_events_def dependency_levels_def)
qed

lemma same_topology_replace:
  assumes "list_all2 same_topology ss ts" "is_ok (validate_subscriptions ss)"
  shows "is_ok (replace_subscriptions ts bus)"
proof -
  have "rel_sum (=) (bt_rel same_topology) (bt_index subscription_id_of [] ss) (bt_index subscription_id_of [] ts)"
    by (rule bt_index_rel [OF assms(1)]) (auto simp: same_topology_def subscription_id_of_def)
  then show ?thesis
  proof (cases rule: rel_sum.cases)
    case (2 m n)
    then show ?thesis
      using assms(2) same_topology_validate [of m n]
      by (simp add: replace_subscriptions_def validate_subscriptions_def index_subscriptions_def is_ok_rbind)
        (auto simp: is_ok_iff)
  qed (use assms(2) in \<open>simp add: validate_subscriptions_def index_subscriptions_def\<close>)
qed

text \<open>The bounds of a handle in a compiled graph.\<close>

lemma resolved_handle_bounds:
  assumes "compile_graph pms cms h policy = Some (Inr g)"
    "bt_get (cg_components g) c = Some rc" "ri \<in> set (rc_imports rc)"
    "x \<in> set ((case ri_binding ri of Some b \<Rightarrow> [b] | None \<Rightarrow> []) @ ri_fallbacks ri)"
  shows "rc_plugin rc \<in> cm_owner ` {m \<in> set cms. rc_maximum rc \<subseteq> cm_maximum m} \<and> ih_authority x \<subseteq> rc_maximum rc \<and> rc_maximum rc \<subseteq> h \<and>
    (\<exists>exporter\<in>set cms. \<exists>owner\<in>set pms. \<exists>export\<in>set (cm_exports exporter).
       ih_exporter x = cm_id exporter \<and> ih_plugin x = cm_owner exporter \<and> pm_id owner = cm_owner exporter \<and>
       ce_interface export = ri_interface ri \<and> ce_required export \<subseteq> ih_authority x \<and>
       ih_authority x \<subseteq> cm_maximum exporter \<and> ih_authority x \<subseteq> pm_maximum owner)"
proof -
  from assms(1) obtain ps cs where inp: "graph_inputs pms cms ps cs" by (rule compile_graph_ok)
  note facts = graph_inputs_facts [OF inp]
  from assms(1) inp assms(2) obtain m where m: "m \<in> set cms" "resolve_component h ps cs policy m = Inr rc"
    by (rule compiled_component)
  from m(2) assms(3) obtain i where i: "resolve_import h ps cs policy m i = Inr ri"
    by (auto simp: resolve_component_ok list_all2_conv_all_nth in_set_conv_nth)
  from resolved_handles [OF i assms(4)] obtain e where
    e: "eligible h ps cs policy m i e" "x = handle_of ps m i e" by blast
  note el = eligible_authority [OF e(1)]
  obtain owner where owner: "bt_get ps (cm_owner (el_component e)) = Some owner"
    using facts(1) el(5) by (auto simp: components_ok_def set_bt_vals)
  then have "owner_of ps (el_component e) = owner" by (simp add: owner_of_def)
  moreover have "owner \<in> set pms" "pm_id owner = cm_owner (el_component e)"
    using facts(5) owner by simp_all
  moreover have "rc_maximum rc = component_authority h ps m" "ri_interface ri = ci_interface i"
    using m(2) resolve_import_ok [OF i] by (simp_all add: resolve_component_ok)
  moreover have "rc_plugin rc \<in> cm_owner ` {m \<in> set cms. rc_maximum rc \<subseteq> cm_maximum m}"
    using m by (auto simp: resolve_component_ok component_authority_def attenuate_def)
  moreover have "component_authority h ps m \<subseteq> h" by (auto simp: component_authority_def attenuate_def)
  ultimately show ?thesis using el facts(2) e(2) by (auto simp: handle_of_def)
qed

text \<open>A component of a compiled graph has no more authority than the plugin that owns it.\<close>

lemma resolved_component_bounds:
  assumes "compile_graph pms cms h policy = Some (Inr g)" "bt_get (cg_components g) c = Some rc"
  shows "\<exists>owner\<in>set pms. pm_id owner = rc_plugin rc \<and> rc_maximum rc \<subseteq> pm_maximum owner"
proof -
  from assms(1) obtain ps cs where inp: "graph_inputs pms cms ps cs" by (rule compile_graph_ok)
  note facts = graph_inputs_facts [OF inp]
  from assms(1) inp assms(2) obtain m where m: "m \<in> set cms" "resolve_component h ps cs policy m = Inr rc"
    by (rule compiled_component)
  from m(1) facts(2) have "m \<in> set (bt_vals cs)" by simp
  then obtain owner where owner: "bt_get ps (cm_owner m) = Some owner"
    using facts(1) by (auto simp: components_ok_def set_bt_vals)
  moreover have "owner \<in> set pms" "pm_id owner = cm_owner m" using facts(5) owner by simp_all
  moreover have "rc_maximum rc = component_authority h ps m" "rc_plugin rc = cm_owner m"
    using m(2) by (simp_all add: resolve_component_ok)
  moreover have "component_authority h ps m \<subseteq> pm_maximum (owner_of ps m)" by (auto simp: component_authority_def attenuate_def)
  ultimately show ?thesis by (auto simp: owner_of_def)
qed

subsection \<open>Properties\<close>

text \<open>C9: compiling a graph always returns. When it fails with an import cycle, the reported path is a
  cycle of required imports; when it succeeds, no cycle of required imports (through the bound
  provider or a fallback) exists, so activating providers before their importers is possible.\<close>

theorem compilation_is_total_and_acyclic:
  "\<exists>r. compile_graph pms cms h policy = Some r \<and>
     (case r of
        Inl e \<Rightarrow> \<not> is_import_cycle e \<or> (\<exists>path. e = RequiredImportCycle path \<and> genuine_import_cycle pms cms h policy path)
      | Inr g \<Rightarrow> (\<nexists>path. is_cycle (required_targets (cg_components g)) path))"
  using compile_graph_cases [of pms cms h policy] by (elim disjE exE conjE) auto

text \<open>C10: in a compiled graph every declared import is bound to the best eligible provider (the explicitly
  bound one, then by priority, then by identity), where an exporter is eligible exactly when it
  exports the interface compatibly, policy does not disable it and the authority left along the
  binding suffices; fallbacks are the other eligible providers in order, and only when policy both
  allows and enables them; an import is unbound only when it is optional and nothing is eligible.\<close>

theorem bound_provider_is_best_eligible:
  assumes "compile_graph pms cms h policy = Some (Inr g)" "graph_inputs pms cms ps cs"
    "m \<in> set cms" "i \<in> set (cm_imports m)"
  shows "\<exists>ri. resolved_import_of g (cm_id m) (ci_interface i) = Inr ri \<and>
    (case ri_binding ri of
       None \<Rightarrow> \<not> ci_required i \<and> ri_fallbacks ri = [] \<and> (\<nexists>e. eligible h ps cs policy m i e)
     | Some b \<Rightarrow> \<exists>e rest. b = handle_of ps m i e \<and> sorted_wrt eligible_le (e # rest) \<and>
         set (e # rest) = {e. eligible h ps cs policy m i e} \<and>
         ri_fallbacks ri = (if \<exists>p. policy = Some p \<and> fallback_enabled p (ci_interface i)
           then map (handle_of ps m i) rest else []))"
proof -
  from assms obtain ri where ri: "resolved_import_of g (cm_id m) (ci_interface i) = Inr ri"
    "resolve_import h ps cs policy m i = Inr ri" by (rule resolved_import_of_compiled)
  have "sorted_wrt eligible_le (ranked_providers h ps cs policy m i)"
    by (simp add: ranked_providers_def elig_rank.ranked)
  with resolve_import_ok [OF ri(2)] set_ranked [of h ps cs policy m i] ri(1) show ?thesis
    by (cases "ranked_providers h ps cs policy m i") auto
qed

text \<open>whatever handle a compiled graph gives to a component, as binding or as fallback, its authority
  covers what the exporter asks for that interface and exceeds neither the importing component's
  maximum, nor the harness authority, nor the maxima of the exporter and of the plugin owning it.\<close>

lemma handle_authority_is_bounded:
  assumes "compile_graph pms cms h policy = Some (Inr g)"
    "bt_get (cg_components g) c = Some rc" "ri \<in> set (rc_imports rc)"
    "x \<in> set ((case ri_binding ri of Some b \<Rightarrow> [b] | None \<Rightarrow> []) @ ri_fallbacks ri)"
  shows "ih_authority x \<subseteq> rc_maximum rc \<and> rc_maximum rc \<subseteq> h \<and>
    (\<exists>exporter\<in>set cms. \<exists>owner\<in>set pms. \<exists>export\<in>set (cm_exports exporter).
       ih_exporter x = cm_id exporter \<and> pm_id owner = cm_owner exporter \<and>
       ce_interface export = ri_interface ri \<and> ce_required export \<subseteq> ih_authority x \<and>
       ih_authority x \<subseteq> cm_maximum exporter \<and> ih_authority x \<subseteq> pm_maximum owner)"
  using resolved_handle_bounds [OF assms] by blast

text \<open>the explicitly bound provider of an interface is the one an import is bound to, whenever it is
  eligible, whatever the priorities are.\<close>

lemma explicit_binding_wins:
  assumes "resolve_import h ps cs (Some p) m i = Inr ri" "explicit_binding p (ci_interface i) = Some k"
    "eligible h ps cs (Some p) m i e" "cm_id (el_component e) = k"
  shows "\<exists>b. ri_binding ri = Some b \<and> ih_exporter b = k \<and> ri_reason ri = Some ExplicitBinding"
proof -
  have flag: "el_explicit e' \<longleftrightarrow> cm_id (el_component e') = k" if "eligible h ps cs (Some p) m i e'" for e'
    using that assms(2) by (auto simp: eligible_def eligible_of_def Let_def split: if_splits)
  from assms(3) set_ranked [of h ps cs "Some p" m i] obtain e1 rest where
    r: "ranked_providers h ps cs (Some p) m i = e1 # rest"
    by (cases "ranked_providers h ps cs (Some p) m i") auto
  from ranked_best [OF r] assms(3) flag assms(4) have e1: "el_explicit e1" "cm_id (el_component e1) = k"
    by (auto simp: eligible_le_def split: if_splits)
  have "ri_reason ri = selection_reason_of (Some p) (ci_interface i) (e1 # rest)"
    using assms(1) foldl_consider [of "component_authority h ps m" ps "Some p" i "([], None)"
        "exporters_for cs (ci_interface i)"] r
    by (auto simp: resolve_import_def ranked_providers_def Let_def split: prod.splits if_splits option.splits)
  with resolve_import_ok [OF assms(1)] r e1 show ?thesis
    by (auto simp: selection_reason_of_def handle_of_def)
qed

text \<open>In a compiled graph the provider plan of an import agrees with its handle, so a bound import
  always has a selection reason and asking for the plan never panics.\<close>

lemma provider_plan_matches_handle:
  assumes "compile_graph pms cms h policy = Some (Inr g)"
  shows "map_sum (\<lambda>e. e) (map_option pp_primary) (graph_provider_plan g c i) = graph_import_handle g c i"
proof (cases "resolved_import_of g c i")
  case (Inr ri)
  from assms obtain ps cs where inp: "graph_inputs pms cms ps cs" by (rule compile_graph_ok)
  from Inr obtain rc where rc: "bt_get (cg_components g) c = Some rc"
    "find (\<lambda>im. ri_interface im = i) (rc_imports rc) = Some ri"
    by (auto simp: resolved_import_of_def rbind_eq_Inr)
  then have "ri \<in> set (rc_imports rc)" by (auto simp: find_Some_iff)
  moreover from assms inp rc(1) obtain m where "resolve_component h ps cs policy m = Inr rc"
    by (rule compiled_component)
  ultimately obtain i' where "resolve_import h ps cs policy m i' = Inr ri"
    by (auto simp: resolve_component_ok list_all2_conv_all_nth in_set_conv_nth)
  from resolve_import_ok [OF this] have "ri_binding ri = None \<longleftrightarrow> ri_reason ri = None"
    by (auto split: list.splits)
  with Inr show ?thesis
    by (auto simp: graph_provider_plan_def graph_import_handle_def plan_of_import_def split: option.splits)
qed (simp add: graph_provider_plan_def graph_import_handle_def)

text \<open>a compiled graph does not depend on the order in which plugins and components were supplied.\<close>

lemma compilation_is_order_independent:
  assumes "compile_graph pms cms h policy = Some (Inr g)" "mset pms' = mset pms" "mset cms' = mset cms"
  shows "compile_graph pms' cms' h policy = Some (Inr g)"
proof -
  from assms(1) obtain ps cs where "graph_inputs pms cms ps cs" by (rule compile_graph_ok)
  then have h: "bt_index pm_id [] pms = Inr ps" "bt_index cm_id [] cms = Inr cs"
    "\<forall>m\<in>set cms. addable ps m" "try_fold (add_component ps) [] cms = Inr cs"
    by (auto simp: graph_inputs_def add_components_ok)
  have "bt_index pm_id [] pms' = Inr ps" by (rule bt_index_perm [OF h(1)]) (simp add: assms(2))
  moreover have "bt_index cm_id [] cms' = Inr cs" by (rule bt_index_perm [OF h(2)]) (simp add: assms(3))
  moreover have "set cms' = set cms" using assms(3) by (rule mset_eq_setD)
  ultimately have "try_fold (add_component ps) [] cms' = Inr cs" using h(3) by (simp add: add_components_ok)
  with h \<open>bt_index pm_id [] pms' = Inr ps\<close> have "compile_graph pms' cms' h policy = compile_graph pms cms h policy"
    by (simp add: compile_graph_def)
  with assms(1) show ?thesis by simp
qed

text \<open>the listeners of a compiled graph can always be installed on the event bus, whatever the
  policy revision and the handlers bound to them, so activation cannot fail on their topology.\<close>

lemma compiled_listeners_install:
  assumes "compile_graph pms cms h policy = Some (Inr g)"
  shows "is_ok (replace_subscriptions
    (map (\<lambda>l. \<lparr>es_spec = listener_spec revision l, es_handler = handler l\<rparr>) (cg_listeners g)) bus)"
proof (rule same_topology_replace)
  from assms obtain ps cs where "graph_inputs pms cms ps cs"
    "is_ok (validate_subscriptions (graph_listener_subscriptions 0 (cg_listeners g)))"
    by (rule compile_graph_ok)
  then show "is_ok (validate_subscriptions (graph_listener_subscriptions 0 (cg_listeners g)))" by simp
qed (simp add: graph_listener_subscriptions_def list_all2_conv_all_nth same_topology_def listener_spec_def)

subsection \<open>An instance\<close>

definition demo_plugin :: plugin_manifest where
  "demo_plugin = \<lparr>pm_id = ''p'', pm_version = 1, pm_execution = Embedded, pm_dependencies = [],
     pm_services = [], pm_namespaces = [], pm_maximum = {''net''}\<rparr>"

definition demo_import :: component_import where
  "demo_import = \<lparr>ci_interface = ''i@1'', ci_schema = interface_schema_default, ci_required = True,
     ci_authority = {''net''}\<rparr>"

definition demo_importer :: component_manifest where
  "demo_importer = \<lparr>cm_id = ''a'', cm_owner = ''p'', cm_imports = [demo_import], cm_exports = [],
     cm_listeners = [], cm_maximum = {''net''}\<rparr>"

definition demo_exporter :: component_manifest where
  "demo_exporter = \<lparr>cm_id = ''b'', cm_owner = ''p'', cm_imports = [], cm_exports = [\<lparr>ce_interface = ''i@1'',
       ce_schema = interface_schema_default, ce_priority = 0, ce_required = {''net''}\<rparr>],
     cm_listeners = [], cm_maximum = {''net''}\<rparr>"

definition demo_handle :: import_handle where
  "demo_handle = \<lparr>ih_importer = ''a'', ih_interface = ''i@1'', ih_exporter = ''b'', ih_plugin = ''p'',
     ih_execution = Embedded, ih_authority = {''net''}\<rparr>"

definition demo_resolved :: "selection_reason \<Rightarrow> resolved_import" where
  "demo_resolved reason = \<lparr>ri_interface = ''i@1'', ri_required = True, ri_binding = Some demo_handle,
     ri_fallbacks = [], ri_reason = Some reason\<rparr>"

definition demo_graph :: "selection_reason \<Rightarrow> component_graph" where
  "demo_graph reason = \<lparr>cg_components = [
     (''a'', \<lparr>rc_id = ''a'', rc_plugin = ''p'', rc_execution = Embedded,
        rc_imports = [demo_resolved reason], rc_maximum = {''net''}\<rparr>),
     (''b'', \<lparr>rc_id = ''b'', rc_plugin = ''p'', rc_execution = Embedded, rc_imports = [], rc_maximum = {''net''}\<rparr>)],
     cg_listeners = []\<rparr>"

lemmas demo_defs = demo_plugin_def demo_import_def demo_importer_def demo_exporter_def demo_handle_def
  demo_resolved_def demo_graph_def

lemma demo_inputs:
  "graph_inputs [demo_plugin] [demo_importer, demo_exporter] [(''p'', demo_plugin)]
     [(''a'', demo_importer), (''b'', demo_exporter)]"
  by (simp add: graph_inputs_def demo_defs bt_has_def add_component_def validate_component_manifest_def)

lemma demo_accepts [simp]:
  "accepts_provider interface_schema_default interface_schema_default = IfExact"
  by code_simp

lemma demo_resolve:
  assumes "policy = None \<and> reason = StableIdentity \<or>
    policy = Some (with_explicit_binding ''i@1'' ''b'' []) \<and> reason = ExplicitBinding"
  shows "resolve_import {''net''} [(''p'', demo_plugin)] [(''a'', demo_importer), (''b'', demo_exporter)] policy
    demo_importer demo_import = Inr (demo_resolved reason)"
  using assms
  by (auto simp: resolve_import_def exporters_for_def consider_candidate_def demo_defs component_authority_def
      binding_authority_def attenuate_def owner_of_def permits_all_def permits_def handle_of_def
      selection_reason_of_def with_explicit_binding_def update_policy_def provider_enabled_def
      explicit_binding_def effective_priority_def has_priority_def fallback_enabled_def
      interface_policy_default_def bt_has_def Let_def)

lemma demo_resolve_all:
  "resolve_all {''net''} [(''p'', demo_plugin)] [(''a'', demo_importer), (''b'', demo_exporter)] None =
     Inr (cg_components (demo_graph StableIdentity), [])"
  using demo_resolve [of None StableIdentity]
  by (simp add: resolve_all_def resolve_component_def demo_defs component_listeners_def owner_of_def
      component_authority_def attenuate_def)

lemma validate_no_subscriptions: "validate_subscriptions ([] :: unit event_subscription list) = Inr ()"
  by code_simp

lemma demo_compiled:
  "compile_graph [demo_plugin] [demo_importer, demo_exporter] {''net''} None = Some (Inr (demo_graph StableIdentity))"
proof -
  have "validate_required_import_dag (cg_components (demo_graph StableIdentity)) = Some (Inr ())"
    by (simp add: validate_required_import_dag_def demo_defs required_targets_def)
  with demo_inputs demo_resolve_all show ?thesis
    by (simp add: compile_graph_def graph_inputs_def)
      (simp add: demo_graph_def validate_no_subscriptions)
qed

theorem compilation_is_total_and_acyclic_witness:
  "\<nexists>path. is_cycle (required_targets (cg_components (demo_graph StableIdentity))) path"
  using compilation_is_total_and_acyclic [of "[demo_plugin]" "[demo_importer, demo_exporter]" "{''net''}" None]
  by (simp add: demo_compiled)

theorem bound_provider_is_best_eligible_witness:
  "\<exists>ri. resolved_import_of (demo_graph StableIdentity) ''a'' ''i@1'' = Inr ri \<and>
     (case ri_binding ri of None \<Rightarrow> False | Some b \<Rightarrow> True)"
proof -
  have "demo_importer \<in> set [demo_importer, demo_exporter]" "demo_import \<in> set (cm_imports demo_importer)"
    by (simp_all add: demo_importer_def)
  from bound_provider_is_best_eligible [OF demo_compiled demo_inputs this] show ?thesis
    by (auto simp: demo_importer_def demo_import_def split: option.splits)
qed

lemma handle_authority_is_bounded_witness:
  "{''net''} \<subseteq> ih_authority demo_handle \<and> ih_authority demo_handle \<subseteq> {''net''}"
  using handle_authority_is_bounded [OF demo_compiled, of "''a''" _ "demo_resolved StableIdentity" demo_handle]
  by (simp add: demo_graph_def demo_resolved_def demo_exporter_def demo_importer_def)

lemma explicit_binding_wins_witness:
  "\<exists>b. ri_binding (demo_resolved ExplicitBinding) = Some b \<and> ih_exporter b = ''b'' \<and>
     ri_reason (demo_resolved ExplicitBinding) = Some ExplicitBinding"
proof -
  let ?e = "\<lparr>el_component = demo_exporter, el_authority = {''net''}, el_priority = 0, el_explicit = True\<rparr>"
  have e: "eligible {''net''} [(''p'', demo_plugin)] [(''a'', demo_importer), (''b'', demo_exporter)]
      (Some (with_explicit_binding ''i@1'' ''b'' [])) demo_importer demo_import ?e"
    by (simp add: eligible_def eligible_of_def demo_defs component_authority_def binding_authority_def
        attenuate_def owner_of_def permits_all_def permits_def with_explicit_binding_def update_policy_def
        provider_enabled_def explicit_binding_def effective_priority_def interface_policy_default_def Let_def)
  have "explicit_binding (with_explicit_binding ''i@1'' ''b'' []) (ci_interface demo_import) = Some ''b''"
    by (simp add: explicit_binding_def with_explicit_binding_def update_policy_def demo_import_def)
  from explicit_binding_wins [OF demo_resolve this e] show ?thesis by (simp add: demo_exporter_def)
qed

lemma provider_plan_matches_handle_demo:
  "map_sum (\<lambda>e. e) (map_option pp_primary) (graph_provider_plan (demo_graph StableIdentity) ''a'' ''i@1'') =
     graph_import_handle (demo_graph StableIdentity) ''a'' ''i@1''"
  by (rule provider_plan_matches_handle [OF demo_compiled])

lemma compilation_is_order_independent_witness:
  "compile_graph [demo_plugin] [demo_exporter, demo_importer] {''net''} None = Some (Inr (demo_graph StableIdentity))"
  by (rule compilation_is_order_independent [OF demo_compiled]) simp_all

lemma compiled_listeners_install_witness:
  "is_ok (replace_subscriptions ([] :: unit event_subscription list) (bus_with_capacity 4))"
  using compiled_listeners_install [OF demo_compiled, of 7 "\<lambda>_. ()" "bus_with_capacity 4"]
  by (simp add: demo_graph_def)

end
