(* ===== verification/Durable_Host.thy ===== *)
theory Durable_Host
  imports Prepared_Mutation Registry Component_Graph
begin

text \<open>
  The durable operations a plugin reaches through its host (\<open>phenix-core/src/runtime/host.rs\<close>,
  \<open>runtime/owned_transactions.rs\<close>): schemas, reads, direct and multi-namespace transactions, and the
  protocol by which an owner prepares a mutation that another plugin commits. The host is the record
  of what the invocation fixes; the state is the prepared mutations, the database and the trace of data
  mutations handed to the event bus (whose admission result the code discards). Where the code stores
  the rendering of an error in a trace, the model keeps the error. Whether the call was cancelled is
  what the cancellation token answers while the operation runs. \<open>ph_engine\<close> is the message of the SQL
  engine, which only appears inside rendered errors.
\<close>

record plugin_host =
  ph_generation :: "graph_generation_id option"
  ph_graph :: component_graph
  ph_config :: kernel_config
  ph_states :: "(plugin_id, plugin_state) btree"
  ph_instances :: "plugin_id set"
  ph_plugin :: plugin_id
  ph_authority :: authority
  ph_cancelled :: bool
  ph_thread :: nat
  ph_fault :: fault
  ph_engine :: string

record data_mutation =
  dm_resource :: string
  dm_stage :: string
  dm_count :: nat
  dm_outcome :: string
  dm_error :: "kernel_error option"

record host_state =
  hs_scope :: mutation_scope
  hs_db :: database
  hs_trace :: "data_mutation list"

type_synonym 'a host_op = "host_state \<Rightarrow> (kernel_error + 'a) \<times> host_state"

definition persistence_schema :: string where "persistence_schema = ''kernel.persistence.schema''"
definition persistence_read :: string where "persistence_read = ''kernel.persistence.read''"
definition persistence_write :: string where "persistence_write = ''kernel.persistence.write''"

definition hbind :: "'a host_op \<Rightarrow> ('a \<Rightarrow> 'b host_op) \<Rightarrow> 'b host_op" where
  "hbind f g hs = (case f hs of (Inl e, hs') \<Rightarrow> (Inl e, hs') | (Inr x, hs') \<Rightarrow> g x hs')"

text \<open>A check that leaves the state alone.\<close>

definition hcheck :: "(kernel_error + 'a) \<Rightarrow> 'a host_op" where
  "hcheck r hs = (r, hs)"

subsection \<open>Rendering of persistence errors\<close>

definition show_feature :: "backend_feature \<Rightarrow> string" where
  "show_feature f = (case f of
     Transactions \<Rightarrow> ''Transactions'' | UniqueKeys \<Rightarrow> ''UniqueKeys'' | ForeignKeys \<Rightarrow> ''ForeignKeys''
   | OrderedAppend \<Rightarrow> ''OrderedAppend'' | IndexedRange \<Rightarrow> ''IndexedRange'' | Migrations \<Rightarrow> ''Migrations'')"

definition show_persistence_error :: "string \<Rightarrow> persistence_error \<Rightarrow> string" where
  "show_persistence_error engine e = (case e of
     Sql \<Rightarrow> ''local persistence: '' @ engine
   | NamespaceCollision ns owner \<Rightarrow> ''durable namespace '' @ ns @ '' is owned by '' @ owner
   | IncompatibleSchema ns stored requested \<Rightarrow>
       ''durable namespace '' @ ns @ '' has schema '' @ show_nat stored @ '', requested '' @ show_nat requested
   | MissingMigration ns from_version to_version \<Rightarrow>
       ''durable namespace '' @ ns @ '' is missing migration '' @ show_nat from_version @ ''->'' @ show_nat to_version
   | UnsupportedFeature ns feature \<Rightarrow>
       ''durable namespace '' @ ns @ '' requires unsupported backend feature '' @ show_feature feature
   | UnregisteredNamespace ns \<Rightarrow> ''durable namespace is not registered: '' @ ns
   | WrongNamespaceOwner ns owner caller \<Rightarrow>
       ''plugin '' @ caller @ '' cannot mutate namespace '' @ ns @ '' owned by '' @ owner
   | AssertionFailed ns key \<Rightarrow> ''transaction assertion failed for '' @ ns @ ''/'' @ key)"

definition on_persistence :: "plugin_host \<Rightarrow> 'a sql \<Rightarrow> 'a host_op" where
  "on_persistence h f hs =
     (let (r, db) = f (hs_db hs)
      in (map_err (\<lambda>e. PersistenceFailed (ph_plugin h) (show_persistence_error (ph_engine h) e)) r,
          hs\<lparr>hs_db := db\<rparr>))"

subsection \<open>Gates\<close>

definition denied :: "plugin_host \<Rightarrow> string \<Rightarrow> kernel_error" where
  "denied h operation = HostOperationDenied (ph_plugin h) operation"

definition require_capability :: "plugin_host \<Rightarrow> string \<Rightarrow> kernel_error + unit" where
  "require_capability h c = (if permits (ph_authority h) c then Inr () else Inl (denied h c))"

definition require_persistence_operation ::
    "plugin_host \<Rightarrow> string \<Rightarrow> resource_namespace \<Rightarrow> kernel_error + unit" where
  "require_persistence_operation h c ns =
     rbind (require_capability h c) (\<lambda>_.
       if resource_owner (ph_config h) ns = Some (ph_plugin h) then Inr ()
       else Inl (denied h (c @ '':'' @ ns)))"

definition plugin_active :: "plugin_host \<Rightarrow> plugin_id \<Rightarrow> bool" where
  "plugin_active h p \<longleftrightarrow> bt_get (ph_states h) p = Some Active \<and> p \<in> ph_instances h"

definition require_active_plugin :: "plugin_host \<Rightarrow> plugin_id \<Rightarrow> kernel_error + unit" where
  "require_active_plugin h p = (if plugin_active h p then Inr () else Inl (PluginNotActive p))"

definition clear_prepared :: "host_state \<Rightarrow> host_state" where
  "clear_prepared hs = hs\<lparr>hs_scope := scope_clear (hs_scope hs)\<rparr>"

definition require_not_cancelled :: "plugin_host \<Rightarrow> string \<Rightarrow> unit host_op" where
  "require_not_cancelled h operation hs =
     (if \<not> ph_cancelled h then (Inr (), hs)
      else (Inl (denied h (operation @ '' after call cancellation'')), clear_prepared hs))"

definition require_prepared_scope_generation :: "plugin_host \<Rightarrow> unit host_op" where
  "require_prepared_scope_generation h hs =
     (if ms_generation (hs_scope hs) = ph_generation h then (Inr (), hs)
      else (Inl (denied h ''prepared mutation scope belongs to another graph generation''), clear_prepared hs))"

subsection \<open>Schemas and reads\<close>

definition trace_data_mutation ::
    "string \<Rightarrow> string \<Rightarrow> nat \<Rightarrow> string \<Rightarrow> kernel_error option \<Rightarrow> host_state \<Rightarrow> host_state" where
  "trace_data_mutation resource stage n outcome err hs =
     hs\<lparr>hs_trace := hs_trace hs @ [\<lparr>dm_resource = resource, dm_stage = stage, dm_count = n,
       dm_outcome = outcome, dm_error = err\<rparr>]\<rparr>"

definition register_durable_schema :: "plugin_host \<Rightarrow> durable_schema \<Rightarrow> unit host_op" where
  "register_durable_schema h schema =
     hbind (hcheck (require_persistence_operation h persistence_schema (ds_namespace schema))) (\<lambda>_.
       on_persistence h (register_schema (ph_fault h) (ph_plugin h) schema))"

definition migrate_durable_schema ::
    "plugin_host \<Rightarrow> durable_schema \<Rightarrow> schema_migration list \<Rightarrow> unit host_op" where
  "migrate_durable_schema h schema migrations =
     hbind (hcheck (require_persistence_operation h persistence_schema (ds_namespace schema))) (\<lambda>_.
     hbind (hcheck (require_capability h persistence_write)) (\<lambda>_.
       on_persistence h (migrate_schema (ph_fault h) (ph_plugin h) schema migrations)))"

definition read_durable :: "plugin_host \<Rightarrow> resource_namespace \<Rightarrow> string \<Rightarrow> blob option host_op" where
  "read_durable h ns key =
     hbind (hcheck (require_persistence_operation h persistence_read ns)) (\<lambda>_.
       on_persistence h (db_read (ph_fault h) (ph_plugin h) ns key))"

subsection \<open>Transactions\<close>

text \<open>The trace an operation ends with.\<close>

definition trace_result ::
    "string \<Rightarrow> string \<Rightarrow> nat \<Rightarrow> string \<Rightarrow> (kernel_error + 'a) \<times> host_state \<Rightarrow> (kernel_error + 'a) \<times> host_state" where
  "trace_result resource stage n success r =
     (case r of
        (Inr x, hs) \<Rightarrow> (Inr x, trace_data_mutation resource stage n success None hs)
      | (Inl e, hs) \<Rightarrow> (Inl e, trace_data_mutation resource stage n ''failed'' (Some e) hs))"

definition transact_durable :: "plugin_host \<Rightarrow> resource_namespace \<Rightarrow> transaction_op list \<Rightarrow> unit host_op" where
  "transact_durable h ns ops hs =
     (let n = length ops
      in case require_persistence_operation h persistence_write ns of
           Inl e \<Rightarrow> (Inl e, trace_data_mutation ns ''authorization'' n ''denied'' (Some e) hs)
         | Inr _ \<Rightarrow>
             (case require_not_cancelled h ''durable transaction''
                 (trace_data_mutation ns ''authorization'' n ''allowed'' None hs) of
                (Inl e, hs') \<Rightarrow> (Inl e, trace_data_mutation ns ''cancellation_gate'' n ''denied'' (Some e) hs')
              | (Inr _, hs') \<Rightarrow>
                  trace_result ns ''commit'' n ''committed''
                    (on_persistence h (transact (ph_fault h) (ph_plugin h) ns ops)
                      (trace_data_mutation ns ''commit'' n ''started'' None hs'))))"

definition prepare_gates :: "plugin_host \<Rightarrow> resource_namespace \<Rightarrow> unit host_op" where
  "prepare_gates h ns =
     hbind (hcheck (require_persistence_operation h persistence_write ns)) (\<lambda>_.
     hbind (hcheck (require_active_plugin h (ph_plugin h))) (\<lambda>_.
     hbind (require_not_cancelled h ''prepare durable transaction'') (\<lambda>_.
       require_prepared_scope_generation h)))"

text \<open>\<open>draws\<close> is what the entropy source returns; \<open>None\<close> is a run still drawing when it ends.\<close>

definition prepare_durable_transaction ::
    "plugin_host \<Rightarrow> (string + nat list) list \<Rightarrow> resource_namespace \<Rightarrow> transaction_op list \<Rightarrow> host_state
     \<Rightarrow> ((kernel_error + handle) \<times> host_state) option" where
  "prepare_durable_transaction h draws ns ops hs =
     map_option (trace_result ns ''prepare'' (length ops) ''prepared'')
       (case prepare_gates h ns (trace_data_mutation ns ''prepare'' (length ops) ''started'' None hs) of
          (Inl e, hs') \<Rightarrow> Some (Inl e, hs')
        | (Inr _, hs') \<Rightarrow>
            map_option (\<lambda>(r, scope). (map_err (PersistenceFailed (ph_plugin h)) r, hs'\<lparr>hs_scope := scope\<rparr>))
              (prepare_mutation (ph_thread h) draws (ph_plugin h) ns ops (ph_authority h) (hs_scope hs')))"

text \<open>The handles that the components of the host's plugin hold, as bindings and as fallbacks.\<close>

definition held_imports :: "plugin_host \<Rightarrow> import_handle list" where
  "held_imports h = concat (map (\<lambda>rc. concat (map (\<lambda>i.
       (case ri_binding i of Some b \<Rightarrow> [b] | None \<Rightarrow> []) @ ri_fallbacks i) (rc_imports rc)))
     (filter (\<lambda>rc. rc_plugin rc = ph_plugin h) (bt_vals (cg_components (ph_graph h)))))"

definition authorized_import :: "plugin_host \<Rightarrow> plugin_id \<Rightarrow> bool" where
  "authorized_import h owner \<longleftrightarrow>
     list_ex (\<lambda>b. ih_plugin b = owner \<and> permits (ih_authority b) persistence_write) (held_imports h)"

definition check_participant :: "plugin_host \<Rightarrow> prepared_mutation \<Rightarrow> kernel_error + unit" where
  "check_participant h p =
     (let t = pm_transaction p
      in if \<not> permits (pm_authority p) persistence_write then
           Inl (denied h (''prepared mutation from '' @ nt_owner t @ '' lacks attenuated persistence write authority''))
         else if resource_owner (ph_config h) (nt_namespace t) \<noteq> Some (nt_owner t) then
           Inl (denied h (persistence_write @ '':'' @ nt_owner t @ '':'' @ nt_namespace t))
         else if nt_owner t = ph_plugin h then Inr ()
         else rbind (require_active_plugin h (nt_owner t)) (\<lambda>_.
           if authorized_import h (nt_owner t) then Inr ()
           else Inl (denied h
             (persistence_write @ '':'' @ nt_owner t @ '':'' @ nt_namespace t @ '' without authorized typed import''))))"

definition check_participants :: "plugin_host \<Rightarrow> prepared_mutation list \<Rightarrow> kernel_error + unit" where
  "check_participants h ps =
     (if list_ex (\<lambda>p. pm_coordinator p \<noteq> ph_plugin h) ps then
        Inl (denied h ''prepared mutation was issued to another coordinator'')
      else if \<not> list_ex (\<lambda>p. nt_owner (pm_transaction p) = ph_plugin h) ps then
        Inl (denied h ''prepared commit requires a caller-owned participant'')
      else try_each (check_participant h) ps)"

definition consume_handles :: "plugin_host \<Rightarrow> handle list \<Rightarrow> prepared_mutation list host_op" where
  "consume_handles h handles hs =
     (let (r, scope) = consume handles (hs_scope hs)
      in (map_err (\<lambda>_. denied h ''prepared mutation is unavailable in this invocation scope'') r,
          hs\<lparr>hs_scope := scope\<rparr>))"

definition commit_prepared :: "plugin_host \<Rightarrow> handle list \<Rightarrow> unit host_op" where
  "commit_prepared h handles =
     hbind (hcheck (require_capability h persistence_write)) (\<lambda>_.
     hbind (require_not_cancelled h ''commit prepared durable transactions'') (\<lambda>_.
     hbind (require_prepared_scope_generation h) (\<lambda>_.
       if handles = [] then
         hcheck (Inl (denied h ''commit prepared durable transactions without participants''))
       else hbind (consume_handles h handles) (\<lambda>participants.
         hbind (hcheck (check_participants h participants)) (\<lambda>_.
           on_persistence h (transact_many (ph_fault h) (map pm_transaction participants)))))))"

definition transact_prepared :: "plugin_host \<Rightarrow> handle list \<Rightarrow> unit host_op" where
  "transact_prepared h handles hs =
     trace_result ''prepared-multi'' ''prepared_commit'' (length handles) ''committed''
       (commit_prepared h handles
         (trace_data_mutation ''prepared-multi'' ''prepared_commit'' (length handles) ''started'' None hs))"

definition owned_transaction ::
    "plugin_host \<Rightarrow> resource_namespace \<times> transaction_op list \<Rightarrow> kernel_error + namespace_transaction" where
  "owned_transaction h p =
     (if resource_owner (ph_config h) (fst p) \<noteq> Some (ph_plugin h) then
        Inl (denied h (persistence_write @ '':'' @ fst p))
      else Inr \<lparr>nt_owner = ph_plugin h, nt_namespace = fst p, nt_operations = snd p\<rparr>)"

fun join_names :: "string list \<Rightarrow> string" where
  "join_names [] = []"
| "join_names [x] = x"
| "join_names (x # y # zs) = x @ '','' @ join_names (y # zs)"

definition commit_owned :: "plugin_host \<Rightarrow> (resource_namespace \<times> transaction_op list) list \<Rightarrow> unit host_op" where
  "commit_owned h participants =
     hbind (hcheck (require_capability h persistence_write)) (\<lambda>_.
     hbind (require_not_cancelled h ''durable multi-namespace transaction'') (\<lambda>_.
       if participants = [] then
         hcheck (Inl (denied h ''durable multi-namespace transaction without participants''))
       else hbind (hcheck (try_map (owned_transaction h) participants)) (\<lambda>txs.
         on_persistence h (transact_many (ph_fault h) txs))))"

definition transact_owned_durable_many ::
    "plugin_host \<Rightarrow> (resource_namespace \<times> transaction_op list) list \<Rightarrow> unit host_op" where
  "transact_owned_durable_many h participants hs =
     (let n = sum_list (map (\<lambda>p. length (snd p)) participants); resource = join_names (map fst participants)
      in trace_result resource ''atomic_commit'' n ''committed''
        (commit_owned h participants (trace_data_mutation resource ''atomic_commit'' n ''started'' None hs)))"

subsection \<open>Reading the host monad\<close>

lemma hbind_cases:
  "hbind f g hs = (r, hs2) \<longleftrightarrow>
     (\<exists>e. f hs = (Inl e, hs2) \<and> r = Inl e) \<or> (\<exists>x hs1. f hs = (Inr x, hs1) \<and> g x hs1 = (r, hs2))"
  by (auto simp: hbind_def split: prod.splits sum.splits)

lemma hcheck_iff [simp]: "hcheck r hs = (r', hs') \<longleftrightarrow> r' = r \<and> hs' = hs"
  by (auto simp: hcheck_def)

lemma trace_fields [simp]:
  "hs_scope (trace_data_mutation a b n d e hs) = hs_scope hs"
  "hs_db (trace_data_mutation a b n d e hs) = hs_db hs"
  "hs_trace (trace_data_mutation a b n d e hs) =
     hs_trace hs @ [\<lparr>dm_resource = a, dm_stage = b, dm_count = n, dm_outcome = d, dm_error = e\<rparr>]"
  by (simp_all add: trace_data_mutation_def)

lemma clear_fields [simp]:
  "hs_scope (clear_prepared hs) = scope_clear (hs_scope hs)" "hs_db (clear_prepared hs) = hs_db hs"
  "hs_trace (clear_prepared hs) = hs_trace hs"
  by (simp_all add: clear_prepared_def)

lemma trace_result_cases:
  "trace_result a b n d (r, hs) = (r', hs') \<longleftrightarrow> r' = r \<and>
     hs' = (case r of Inr x \<Rightarrow> trace_data_mutation a b n d None hs
       | Inl e \<Rightarrow> trace_data_mutation a b n ''failed'' (Some e) hs)"
  by (cases r) (auto simp: trace_result_def)

lemma trace_result_fields:
  "fst (trace_result a b n d q) = fst q" "hs_scope (snd (trace_result a b n d q)) = hs_scope (snd q)"
  "hs_db (snd (trace_result a b n d q)) = hs_db (snd q)"
  by (cases q; cases "fst q"; simp add: trace_result_def)+

lemma on_persistence_cases:
  "on_persistence h f hs = (r, hs') \<longleftrightarrow> (\<exists>q db. f (hs_db hs) = (q, db) \<and> hs' = hs\<lparr>hs_db := db\<rparr> \<and>
     r = map_err (\<lambda>e. PersistenceFailed (ph_plugin h) (show_persistence_error (ph_engine h) e)) q)"
  by (auto simp: on_persistence_def split: prod.splits)

lemma require_capability_ok [simp]: "require_capability h c = Inr u \<longleftrightarrow> permits (ph_authority h) c"
  by (simp add: require_capability_def)

lemma require_persistence_operation_ok [simp]:
  "require_persistence_operation h c ns = Inr u \<longleftrightarrow>
     permits (ph_authority h) c \<and> resource_owner (ph_config h) ns = Some (ph_plugin h)"
  by (auto simp: require_persistence_operation_def rbind_eq_Inr)

lemma require_active_plugin_ok [simp]: "require_active_plugin h p = Inr u \<longleftrightarrow> plugin_active h p"
  by (simp add: require_active_plugin_def)

lemma require_not_cancelled_cases:
  "require_not_cancelled h operation hs = (r, hs') \<longleftrightarrow>
     (if ph_cancelled h then r = Inl (denied h (operation @ '' after call cancellation'')) \<and> hs' = clear_prepared hs
      else r = Inr () \<and> hs' = hs)"
  by (auto simp: require_not_cancelled_def)

lemma require_prepared_scope_generation_cases:
  "require_prepared_scope_generation h hs = (r, hs') \<longleftrightarrow>
     (if ms_generation (hs_scope hs) = ph_generation h then r = Inr () \<and> hs' = hs
      else r = Inl (denied h ''prepared mutation scope belongs to another graph generation'') \<and>
        hs' = clear_prepared hs)"
  by (auto simp: require_prepared_scope_generation_def)

lemmas gate_cases = hbind_cases require_not_cancelled_cases require_prepared_scope_generation_cases

subsection \<open>What a commit checks\<close>

definition participant_ok :: "plugin_host \<Rightarrow> prepared_mutation \<Rightarrow> bool" where
  "participant_ok h p \<longleftrightarrow>
     permits (pm_authority p) persistence_write \<and>
     resource_owner (ph_config h) (nt_namespace (pm_transaction p)) = Some (nt_owner (pm_transaction p)) \<and>
     (nt_owner (pm_transaction p) = ph_plugin h \<or>
      plugin_active h (nt_owner (pm_transaction p)) \<and> authorized_import h (nt_owner (pm_transaction p)))"

lemma check_participant_ok [simp]: "check_participant h p = Inr () \<longleftrightarrow> participant_ok h p"
  by (auto simp: check_participant_def participant_ok_def Let_def rbind_eq_Inr)

lemma check_participants_ok:
  "check_participants h ps = Inr u \<longleftrightarrow>
     (\<forall>p\<in>set ps. pm_coordinator p = ph_plugin h \<and> participant_ok h p) \<and>
     (\<exists>p\<in>set ps. nt_owner (pm_transaction p) = ph_plugin h)"
  by (auto simp: check_participants_def list_ex_iff try_each_ok)

definition named_mutations :: "handle list \<Rightarrow> host_state \<Rightarrow> prepared_mutation list" where
  "named_mutations handles hs = map (\<lambda>k. the (bt_get (ms_prepared (hs_scope hs)) k)) handles"

definition all_prepared :: "handle list \<Rightarrow> host_state \<Rightarrow> bool" where
  "all_prepared handles hs \<longleftrightarrow> distinct handles \<and> (\<forall>k\<in>set handles. bt_has (ms_prepared (hs_scope hs)) k)"

lemma consume_handles_cases:
  "consume_handles h handles hs = (r, hs') \<Longrightarrow>
     hs' = hs\<lparr>hs_scope := snd (consume handles (hs_scope hs))\<rparr> \<and>
     (if all_prepared handles hs then r = Inr (named_mutations handles hs)
      else r = Inl (denied h ''prepared mutation is unavailable in this invocation scope''))"
proof -
  assume a: "consume_handles h handles hs = (r, hs')"
  obtain q scope where q: "consume handles (hs_scope hs) = (q, scope)" by fastforce
  with a have r: "r = map_err (\<lambda>_. denied h ''prepared mutation is unavailable in this invocation scope'') q"
    "hs' = hs\<lparr>hs_scope := scope\<rparr>" by (auto simp: consume_handles_def)
  have "q = Inr ps \<longleftrightarrow> all_prepared handles hs \<and> ps = named_mutations handles hs" for ps
    using consume_ok [of handles "hs_scope hs" ps] q by (auto simp: all_prepared_def named_mutations_def)
  with r q show ?thesis by (cases q) auto
qed

definition taken :: "handle list \<Rightarrow> host_state \<Rightarrow> host_state" where
  "taken handles hs = hs\<lparr>hs_scope := snd (consume handles (hs_scope hs))\<rparr>"

lemma taken_fields [simp]:
  "hs_db (taken handles hs) = hs_db hs" "hs_scope (taken handles hs) = snd (consume handles (hs_scope hs))"
  "hs_trace (taken handles hs) = hs_trace hs"
  by (simp_all add: taken_def)

lemma consume_handles_eq:
  "consume_handles h handles hs =
     ((if all_prepared handles hs then Inr (named_mutations handles hs)
       else Inl (denied h ''prepared mutation is unavailable in this invocation scope'')), taken handles hs)"
  using consume_handles_cases [of h handles hs] by (cases "consume_handles h handles hs") (simp add: taken_def)

text \<open>The outcomes of a commit attempt, one per gate.\<close>

lemma commit_prepared_eq:
  "commit_prepared h handles hs =
     (if \<not> permits (ph_authority h) persistence_write then (Inl (denied h persistence_write), hs)
      else if ph_cancelled h then
        (Inl (denied h ''commit prepared durable transactions after call cancellation''), clear_prepared hs)
      else if ms_generation (hs_scope hs) \<noteq> ph_generation h then
        (Inl (denied h ''prepared mutation scope belongs to another graph generation''), clear_prepared hs)
      else if handles = [] then
        (Inl (denied h ''commit prepared durable transactions without participants''), hs)
      else if \<not> all_prepared handles hs then
        (Inl (denied h ''prepared mutation is unavailable in this invocation scope''), taken handles hs)
      else case check_participants h (named_mutations handles hs) of
          Inl e \<Rightarrow> (Inl e, taken handles hs)
        | Inr _ \<Rightarrow> on_persistence h
            (transact_many (ph_fault h) (map pm_transaction (named_mutations handles hs))) (taken handles hs))"
  by (simp add: commit_prepared_def hbind_def hcheck_def require_capability_def require_not_cancelled_def
      require_prepared_scope_generation_def consume_handles_eq split: sum.splits)

lemma on_persistence_fields:
  "hs_scope (snd (on_persistence h f hs)) = hs_scope hs" "hs_trace (snd (on_persistence h f hs)) = hs_trace hs"
  "hs_db (snd (on_persistence h f hs)) = snd (f (hs_db hs))"
  "is_ok (fst (on_persistence h f hs)) \<longleftrightarrow> is_ok (fst (f (hs_db hs)))"
  by (auto simp: on_persistence_def is_ok_iff split: prod.splits)

lemma commit_prepared_ok:
  assumes "is_ok (fst (commit_prepared h handles hs))"
  shows "permits (ph_authority h) persistence_write \<and> \<not> ph_cancelled h \<and>
    ms_generation (hs_scope hs) = ph_generation h \<and> handles \<noteq> [] \<and> all_prepared handles hs \<and>
    check_participants h (named_mutations handles hs) = Inr () \<and>
    commit_prepared h handles hs = on_persistence h
      (transact_many (ph_fault h) (map pm_transaction (named_mutations handles hs))) (taken handles hs)"
  using assms by (auto simp: commit_prepared_eq split: if_splits sum.splits)

text \<open>Whatever the outcome of a commit, with write authority the named handles are gone.\<close>

lemma commit_prepared_scope:
  "bt_get (ms_prepared (hs_scope (snd (commit_prepared h handles hs)))) k \<in>
     {bt_get (ms_prepared (hs_scope hs)) k, None}"
  "permits (ph_authority h) persistence_write \<Longrightarrow> k \<in> set handles \<Longrightarrow>
     bt_get (ms_prepared (hs_scope (snd (commit_prepared h handles hs)))) k = None"
  by (auto simp: commit_prepared_eq on_persistence_fields consume_rest scope_clear_def split: sum.splits)

lemma transact_many_failed: "\<not> is_ok (fst (transact_many fault txs d)) \<Longrightarrow>
    tables (snd (transact_many fault txs d)) = tables d"
  using transact_many_cases [of fault txs d] by (cases "transact_many fault txs d") fastforce

lemma commit_prepared_failed:
  "\<not> is_ok (fst (commit_prepared h handles hs)) \<Longrightarrow>
     tables (hs_db (snd (commit_prepared h handles hs))) = tables (hs_db hs)"
  by (auto simp: commit_prepared_eq on_persistence_fields transact_many_failed split: sum.splits if_splits)

lemma transact_prepared_fields:
  "fst (transact_prepared h handles hs) = fst (commit_prepared h handles hs')"
  "hs_scope (snd (transact_prepared h handles hs)) = hs_scope (snd (commit_prepared h handles hs'))"
  "hs_db (snd (transact_prepared h handles hs)) = hs_db (snd (commit_prepared h handles hs'))"
  if "hs' = trace_data_mutation ''prepared-multi'' ''prepared_commit'' (length handles) ''started'' None hs"
  using that by (simp_all add: transact_prepared_def trace_result_fields)

subsection \<open>What an operation may change\<close>

text \<open>One namespace of the database is as before: its registration and its records.\<close>

definition ns_same :: "resource_namespace \<Rightarrow> database \<Rightarrow> database \<Rightarrow> bool" where
  "ns_same ns d d' \<longleftrightarrow> db_schemas d' ns = db_schemas d ns \<and> (\<forall>k. db_records d' (ns, k) = db_records d (ns, k))"

lemma ns_same_refl [simp]: "ns_same ns d d" by (simp add: ns_same_def)

lemma ns_same_trans: "ns_same ns a b \<Longrightarrow> ns_same ns b c \<Longrightarrow> ns_same ns a c" by (simp add: ns_same_def)

lemma ns_same_tables: "tables d' = tables d \<Longrightarrow> ns_same ns d d'" by (simp add: ns_same_def tables_eq)

lemma transact_many_elsewhere:
  "ns \<notin> nt_namespace ` set txs \<Longrightarrow> ns_same ns d (snd (transact_many fault txs d))"
  using transact_many_cases [of fault txs d] batch_effect_other [of "batch_of txs" "db_records d" _ ns]
  by (cases "transact_many fault txs d") (fastforce simp: ns_same_def tables_eq batch_of_def)

lemma register_schema_elsewhere:
  "ns \<noteq> ds_namespace schema \<Longrightarrow> ns_same ns d (snd (register_schema fault owner schema d))"
  using register_schema_cases [of fault owner schema d]
  by (cases "register_schema fault owner schema d") (auto simp: ns_same_def tables_eq)

lemma migrate_schema_elsewhere:
  "ns \<noteq> ds_namespace schema \<Longrightarrow> ns_same ns d (snd (migrate_schema fault owner schema migs d))"
proof (cases "migrate_schema fault owner schema migs d")
  case (Pair r d')
  assume ns: "ns \<noteq> ds_namespace schema"
  from migrate_schema_cases [OF Pair] show ?thesis
  proof (elim disjE exE conjE)
    fix v plan
    assume "batch_effect (migration_batch schema plan) (db_records d) = Some (db_records d')"
      "db_schemas d' = (db_schemas d)(ds_namespace schema \<mapsto> (owner, ds_version schema))"
    with ns Pair show ?thesis
      using batch_effect_other [of "migration_batch schema plan" "db_records d" "db_records d'" ns]
      by (fastforce simp: ns_same_def migration_batch_def)
  qed (use Pair in \<open>auto simp: ns_same_tables tables_eq\<close>)
qed

lemma db_read_tables: "tables (snd (db_read fault caller ns key d)) = tables d"
  using read_tables [where fault = fault and caller = caller and ns = ns and key = key and d = d] by (simp add: case_prod_beta split: sum.splits)

lemma hcheck_then: "hbind (hcheck r) f hs = (case r of Inl e \<Rightarrow> (Inl e, hs) | Inr x \<Rightarrow> f x hs)"
  by (simp add: hbind_def hcheck_def)

text \<open>The direct operations, one outcome per gate.\<close>

lemma transact_durable_fields:
  "hs_db (snd (transact_durable h ns ops hs)) =
     (if permits (ph_authority h) persistence_write \<and> resource_owner (ph_config h) ns = Some (ph_plugin h) \<and>
         \<not> ph_cancelled h
      then snd (transact (ph_fault h) (ph_plugin h) ns ops (hs_db hs)) else hs_db hs)"
  "ms_prepared (hs_scope (snd (transact_durable h ns ops hs))) \<in> {ms_prepared (hs_scope hs), []}"
  by (auto simp: transact_durable_def Let_def require_persistence_operation_def require_capability_def
      require_not_cancelled_def trace_result_fields on_persistence_fields scope_clear_def split: sum.splits)

lemma owned_transactions:
  "try_map (owned_transaction h) ps = Inr txs \<Longrightarrow>
     (\<forall>p\<in>set ps. resource_owner (ph_config h) (fst p) = Some (ph_plugin h)) \<and>
     txs = map (\<lambda>p. \<lparr>nt_owner = ph_plugin h, nt_namespace = fst p, nt_operations = snd p\<rparr>) ps"
  by (induction ps arbitrary: txs) (auto simp: rbind_eq_Inr owned_transaction_def split: if_splits)

lemma commit_owned_eq:
  "commit_owned h ps hs =
     (if \<not> permits (ph_authority h) persistence_write then (Inl (denied h persistence_write), hs)
      else if ph_cancelled h then
        (Inl (denied h ''durable multi-namespace transaction after call cancellation''), clear_prepared hs)
      else if ps = [] then
        (Inl (denied h ''durable multi-namespace transaction without participants''), hs)
      else case try_map (owned_transaction h) ps of
          Inl e \<Rightarrow> (Inl e, hs)
        | Inr txs \<Rightarrow> on_persistence h (transact_many (ph_fault h) txs) hs)"
  by (simp add: commit_owned_def hbind_def hcheck_def require_capability_def require_not_cancelled_def
      split: sum.splits)

subsection \<open>Preparing\<close>

definition prepare_allowed :: "plugin_host \<Rightarrow> resource_namespace \<Rightarrow> host_state \<Rightarrow> bool" where
  "prepare_allowed h ns hs \<longleftrightarrow> permits (ph_authority h) persistence_write \<and>
     resource_owner (ph_config h) ns = Some (ph_plugin h) \<and> plugin_active h (ph_plugin h) \<and>
     \<not> ph_cancelled h \<and> ms_generation (hs_scope hs) = ph_generation h"

lemma prepare_gates_cases:
  "prepare_gates h ns hs = (r, hs') \<Longrightarrow>
     (if prepare_allowed h ns hs then r = Inr () \<and> hs' = hs
      else \<not> is_ok r \<and> hs' \<in> {hs, clear_prepared hs})"
  by (auto simp: prepare_gates_def hcheck_def hbind_def require_not_cancelled_def prepare_allowed_def
      require_prepared_scope_generation_def require_active_plugin_def require_persistence_operation_def
      require_capability_def split: sum.splits if_splits)

lemma prepare_mutation_cases:
  "prepare_mutation t draws owner ns ops auth s = Some (r, s') \<Longrightarrow>
     (\<exists>e. r = Inl e \<and> s' = s) \<or>
     (\<exists>k. r = Inr k \<and> \<not> bt_has (ms_prepared s) k \<and>
        s' = s\<lparr>ms_prepared := bt_insert k \<lparr>pm_transaction = \<lparr>nt_owner = owner, nt_namespace = ns,
          nt_operations = ops\<rparr>, pm_authority = auth, pm_coordinator = coordinator t owner s\<rparr> (ms_prepared s)\<rparr>)"
  unfolding prepare_mutation_def map_option_eq_Some
  by (elim exE conjE) (auto split: sum.splits prod.splits dest: prepare_loop_ok)

definition mutation_of :: "plugin_host \<Rightarrow> resource_namespace \<Rightarrow> transaction_op list \<Rightarrow> host_state \<Rightarrow> prepared_mutation" where
  "mutation_of h ns ops hs = \<lparr>pm_transaction = \<lparr>nt_owner = ph_plugin h, nt_namespace = ns, nt_operations = ops\<rparr>,
     pm_authority = ph_authority h, pm_coordinator = coordinator (ph_thread h) (ph_plugin h) (hs_scope hs)\<rparr>"

lemma prepare_durable_cases:
  assumes "prepare_durable_transaction h draws ns ops hs = Some (r, hs')"
  shows "hs_db hs' = hs_db hs"
    "(\<exists>e. r = Inl e \<and> hs_scope hs' \<in> {hs_scope hs, scope_clear (hs_scope hs)}) \<or>
     (\<exists>k. r = Inr k \<and> prepare_allowed h ns hs \<and> \<not> bt_has (ms_prepared (hs_scope hs)) k \<and>
        hs_scope hs' = (hs_scope hs)\<lparr>ms_prepared := bt_insert k (mutation_of h ns ops hs) (ms_prepared (hs_scope hs))\<rparr>)"
proof -
  let ?hs = "trace_data_mutation ns ''prepare'' (length ops) ''started'' None hs"
  obtain g hs1 where g: "prepare_gates h ns ?hs = (g, hs1)" by fastforce
  note c = prepare_gates_cases [OF g]
  have same: "prepare_allowed h ns ?hs = prepare_allowed h ns hs" by (simp add: prepare_allowed_def)
  have goal: "hs_db hs' = hs_db hs \<and>
    ((\<exists>e. r = Inl e \<and> hs_scope hs' \<in> {hs_scope hs, scope_clear (hs_scope hs)}) \<or>
     (\<exists>k. r = Inr k \<and> prepare_allowed h ns hs \<and> \<not> bt_has (ms_prepared (hs_scope hs)) k \<and>
        hs_scope hs' = (hs_scope hs)\<lparr>ms_prepared := bt_insert k (mutation_of h ns ops hs) (ms_prepared (hs_scope hs))\<rparr>))"
  proof (cases g)
    case (Inl e)
    with assms g c show ?thesis
      by (auto simp: prepare_durable_transaction_def trace_result_cases split: if_splits)
  next
    case (Inr u)
    with c same have ok: "prepare_allowed h ns hs" "hs1 = ?hs" by (auto split: if_splits)
    from assms g Inr ok obtain q scope where
      q: "prepare_mutation (ph_thread h) draws (ph_plugin h) ns ops (ph_authority h) (hs_scope hs) = Some (q, scope)"
        "trace_result ns ''prepare'' (length ops) ''prepared''
           (map_err (PersistenceFailed (ph_plugin h)) q, ?hs\<lparr>hs_scope := scope\<rparr>) = (r, hs')"
      by (auto simp: prepare_durable_transaction_def)
    from prepare_mutation_cases [OF q(1)] q(2) ok(1) show ?thesis
      by (auto simp: trace_result_cases mutation_of_def)
  qed
  then show "hs_db hs' = hs_db hs"
    "(\<exists>e. r = Inl e \<and> hs_scope hs' \<in> {hs_scope hs, scope_clear (hs_scope hs)}) \<or>
     (\<exists>k. r = Inr k \<and> prepare_allowed h ns hs \<and> \<not> bt_has (ms_prepared (hs_scope hs)) k \<and>
        hs_scope hs' = (hs_scope hs)\<lparr>ms_prepared := bt_insert k (mutation_of h ns ops hs) (ms_prepared (hs_scope hs))\<rparr>)"
    by blast+
qed

text \<open>The result of a persistence call depends on the database alone.\<close>

lemma on_persistence_db:
  "hs_db a = hs_db b \<Longrightarrow> fst (on_persistence h f a) = fst (on_persistence h f b) \<and>
     hs_db (snd (on_persistence h f a)) = hs_db (snd (on_persistence h f b))"
  by (simp add: on_persistence_def split: prod.splits)

lemma transact_durable_run:
  assumes "prepare_allowed h ns hs"
  shows "\<exists>a. hs_db a = hs_db hs \<and>
    fst (transact_durable h ns ops hs) = fst (on_persistence h (transact (ph_fault h) (ph_plugin h) ns ops) a) \<and>
    hs_db (snd (transact_durable h ns ops hs)) =
      hs_db (snd (on_persistence h (transact (ph_fault h) (ph_plugin h) ns ops) a))"
proof -
  let ?a = "trace_data_mutation ns ''commit'' (length ops) ''started'' None
    (trace_data_mutation ns ''authorization'' (length ops) ''allowed'' None hs)"
  have "transact_durable h ns ops hs = trace_result ns ''commit'' (length ops) ''committed''
      (on_persistence h (transact (ph_fault h) (ph_plugin h) ns ops) ?a)"
    using assms by (simp add: transact_durable_def Let_def require_persistence_operation_def
        require_capability_def require_not_cancelled_def prepare_allowed_def)
  then have "hs_db ?a = hs_db hs \<and>
    fst (transact_durable h ns ops hs) = fst (on_persistence h (transact (ph_fault h) (ph_plugin h) ns ops) ?a) \<and>
    hs_db (snd (transact_durable h ns ops hs)) =
      hs_db (snd (on_persistence h (transact (ph_fault h) (ph_plugin h) ns ops) ?a))"
    by (simp add: trace_result_fields)
  then show ?thesis by blast
qed

subsection \<open>Steps of several hosts\<close>

text \<open>
  The durable operations of hosts of any plugins but \<open>p\<close>, on one configuration, in any order, together
  with changes of the coordinator frames by calls in between.
\<close>

inductive durable_step :: "kernel_config \<Rightarrow> plugin_id \<Rightarrow> host_state \<Rightarrow> host_state \<Rightarrow> bool" for c p where
  register: "ph_config h = c \<Longrightarrow> ph_plugin h \<noteq> p \<Longrightarrow>
    durable_step c p hs (snd (register_durable_schema h schema hs))"
| migrate: "ph_config h = c \<Longrightarrow> ph_plugin h \<noteq> p \<Longrightarrow>
    durable_step c p hs (snd (migrate_durable_schema h schema migs hs))"
| read: "ph_config h = c \<Longrightarrow> ph_plugin h \<noteq> p \<Longrightarrow> durable_step c p hs (snd (read_durable h ns key hs))"
| transact: "ph_config h = c \<Longrightarrow> ph_plugin h \<noteq> p \<Longrightarrow> durable_step c p hs (snd (transact_durable h ns ops hs))"
| owned: "ph_config h = c \<Longrightarrow> ph_plugin h \<noteq> p \<Longrightarrow>
    durable_step c p hs (snd (transact_owned_durable_many h ps hs))"
| prepare: "ph_config h = c \<Longrightarrow> ph_plugin h \<noteq> p \<Longrightarrow>
    prepare_durable_transaction h draws ns ops hs = Some (r, hs') \<Longrightarrow> durable_step c p hs hs'"
| commit: "ph_config h = c \<Longrightarrow> ph_plugin h \<noteq> p \<Longrightarrow> durable_step c p hs (snd (transact_prepared h handles hs))"
| frames: "durable_step c p hs (hs\<lparr>hs_scope := (hs_scope hs)\<lparr>ms_coordinators := fs\<rparr>\<rparr>)"

text \<open>No prepared mutation belongs to the plugin.\<close>

definition none_prepared_by :: "plugin_id \<Rightarrow> host_state \<Rightarrow> bool" where
  "none_prepared_by p hs \<longleftrightarrow>
     (\<forall>k m. bt_get (ms_prepared (hs_scope hs)) k = Some m \<longrightarrow> nt_owner (pm_transaction m) \<noteq> p)"

text \<open>A step of the others leaves the plugin's namespaces alone.\<close>

lemma durable_step_elsewhere:
  assumes "durable_step c p hs hs'" "resource_owner c ns = Some p" "none_prepared_by p hs"
  shows "ns_same ns (hs_db hs) (hs_db hs')"
  using assms
proof (induction rule: durable_step.induct)
  case (register h hs schema)
  then show ?case
    by (auto simp: register_durable_schema_def hcheck_then on_persistence_fields split: sum.splits
        intro!: register_schema_elsewhere)
next
  case (migrate h hs schema migs)
  then show ?case
    by (auto simp: migrate_durable_schema_def hcheck_then on_persistence_fields split: sum.splits
        intro!: migrate_schema_elsewhere)
next
  case (read h hs ns' key)
  then show ?case
    by (auto simp: read_durable_def hcheck_then on_persistence_fields db_read_tables split: sum.splits
        intro!: ns_same_tables)
next
  case (transact h hs ns' ops)
  then show ?case
    by (auto simp: transact_durable_fields transact_def intro!: transact_many_elsewhere)
next
  case (owned h hs ps)
  have "ns \<notin> nt_namespace ` set txs" if "try_map (owned_transaction h) ps = Inr txs" for txs
    using owned_transactions [OF that] owned by auto
  then show ?case
    by (auto simp: transact_owned_durable_many_def Let_def trace_result_fields commit_owned_eq
        on_persistence_fields split: sum.splits intro!: transact_many_elsewhere)
next
  case (prepare h draws ns' ops hs r hs')
  from prepare_durable_cases(1) [OF prepare(3)] show ?case by simp
next
  case (commit h hs handles)
  let ?hs = "trace_data_mutation ''prepared-multi'' ''prepared_commit'' (length handles) ''started'' None hs"
  have "ns \<notin> nt_namespace ` set (map pm_transaction (named_mutations handles ?hs))"
    if "all_prepared handles ?hs" "check_participants h (named_mutations handles ?hs) = Inr ()"
    using that commit
    by (fastforce simp: check_participants_ok participant_ok_def named_mutations_def all_prepared_def
        none_prepared_by_def bt_has_def)
  then show ?case
    unfolding transact_prepared_fields [OF refl]
    by (auto simp: commit_prepared_eq on_persistence_fields split: sum.splits intro!: transact_many_elsewhere)
qed simp

lemma durable_step_prepared:
  assumes "durable_step c p hs hs'" "none_prepared_by p hs"
  shows "none_prepared_by p hs'"
  using assms
proof (induction rule: durable_step.induct)
  case (prepare h draws ns ops hs r hs')
  from prepare_durable_cases(2) [OF prepare(3)] prepare(2,4) show ?case
    by (fastforce simp: none_prepared_by_def scope_clear_def map_simps mutation_of_def split: if_splits)
next
  case (commit h hs handles)
  let ?hs = "trace_data_mutation ''prepared-multi'' ''prepared_commit'' (length handles) ''started'' None hs"
  have "bt_get (ms_prepared (hs_scope (snd (commit_prepared h handles ?hs)))) k = Some m \<Longrightarrow>
      bt_get (ms_prepared (hs_scope hs)) k = Some m" for k m
    using commit_prepared_scope(1) [of h handles ?hs k] by auto
  with commit show ?case
    unfolding none_prepared_by_def transact_prepared_fields [OF refl] by blast
next
  case (transact h hs ns ops)
  then show ?case
    using transact_durable_fields(2) [of h ns ops hs] by (fastforce simp: none_prepared_by_def)
next
  case (owned h hs ps)
  then show ?case
    by (auto simp: none_prepared_by_def transact_owned_durable_many_def Let_def trace_result_fields
        commit_owned_eq on_persistence_fields scope_clear_def split: sum.splits)
qed (auto simp: none_prepared_by_def register_durable_schema_def migrate_durable_schema_def read_durable_def
    hcheck_then on_persistence_fields split: sum.splits)

text \<open>What a successful commit went through.\<close>

lemma prepared_commit_facts:
  assumes "transact_prepared h handles hs = (Inr (), hs')"
  shows "permits (ph_authority h) persistence_write \<and> \<not> ph_cancelled h \<and>
    ms_generation (hs_scope hs) = ph_generation h \<and> all_prepared handles hs \<and>
    (\<forall>p\<in>set (named_mutations handles hs). pm_coordinator p = ph_plugin h \<and> participant_ok h p) \<and>
    (\<exists>p\<in>set (named_mutations handles hs). nt_owner (pm_transaction p) = ph_plugin h) \<and>
    owns_all (map pm_transaction (named_mutations handles hs)) (hs_db hs) \<and>
    db_schemas (hs_db hs') = db_schemas (hs_db hs) \<and>
    batch_effect (batch_of (map pm_transaction (named_mutations handles hs))) (db_records (hs_db hs)) =
      Some (db_records (hs_db hs'))"
proof -
  let ?hs = "trace_data_mutation ''prepared-multi'' ''prepared_commit'' (length handles) ''started'' None hs"
  note f = transact_prepared_fields [OF refl, of h handles hs]
  have same: "named_mutations handles ?hs = named_mutations handles hs" "all_prepared handles ?hs = all_prepared handles hs"
    by (simp_all add: named_mutations_def all_prepared_def)
  have ok: "is_ok (fst (commit_prepared h handles ?hs))" using f(1) assms by (metis fst_conv is_ok_simps(2))
  from commit_prepared_ok [OF ok] same have c: "permits (ph_authority h) persistence_write" "\<not> ph_cancelled h"
    "ms_generation (hs_scope hs) = ph_generation h" "all_prepared handles hs"
    "check_participants h (named_mutations handles hs) = Inr ()"
    "commit_prepared h handles ?hs = on_persistence h
       (transact_many (ph_fault h) (map pm_transaction (named_mutations handles hs))) (taken handles ?hs)" by simp_all
  obtain r d where t: "transact_many (ph_fault h) (map pm_transaction (named_mutations handles hs)) (hs_db hs) = (r, d)"
    by fastforce
  have "is_ok r" using ok c(6) t by (simp add: on_persistence_fields)
  moreover have "hs_db hs' = d" using f(3) assms c(6) t by (simp add: on_persistence_fields)
  ultimately show ?thesis
    using transact_many_cases [OF t] c by (auto simp: check_participants_ok)
qed

subsection \<open>Properties\<close>

text \<open>C2: a prepared commit succeeds only for a caller with write authority in the scope's graph
  generation, on distinct prepared handles that were all issued to it as coordinator, at least one of
  them its own; each participant was prepared with write authority by the plugin that the
  configuration names as owner of the namespace, and the others are active and reached through an
  import of the caller that carries write authority. The participants' operations are then applied in
  order, as one transaction, every assertion holding.\<close>

theorem prepared_commit_is_authorized:
  assumes "transact_prepared h handles hs = (Inr (), hs')"
  shows "permits (ph_authority h) persistence_write \<and> \<not> ph_cancelled h \<and>
    ms_generation (hs_scope hs) = ph_generation h \<and> all_prepared handles hs \<and>
    (\<forall>p\<in>set (named_mutations handles hs). pm_coordinator p = ph_plugin h \<and> participant_ok h p) \<and>
    (\<exists>p\<in>set (named_mutations handles hs). nt_owner (pm_transaction p) = ph_plugin h) \<and>
    owns_all (map pm_transaction (named_mutations handles hs)) (hs_db hs) \<and>
    db_schemas (hs_db hs') = db_schemas (hs_db hs) \<and>
    batch_effect (batch_of (map pm_transaction (named_mutations handles hs))) (db_records (hs_db hs)) =
      Some (db_records (hs_db hs'))"
  by (rule prepared_commit_facts [OF assms])

text \<open>a commit attempt is one-shot: with write authority every named handle is gone afterwards,
  whatever the outcome, no prepared mutation appears, and an attempt that fails leaves the tables as
  they were. So a handle can never be committed twice.\<close>

lemma commit_attempt_is_one_shot:
  assumes "permits (ph_authority h) persistence_write" "transact_prepared h handles hs = (r, hs')"
  shows "(\<forall>k\<in>set handles. bt_get (ms_prepared (hs_scope hs')) k = None) \<and>
    (\<forall>k. bt_get (ms_prepared (hs_scope hs')) k \<in> {bt_get (ms_prepared (hs_scope hs)) k, None}) \<and>
    (is_ok r \<or> tables (hs_db hs') = tables (hs_db hs)) \<and>
    (\<forall>h' again. set again \<inter> set handles = {} \<or> \<not> is_ok (fst (transact_prepared h' again hs')))"
proof -
  let ?hs = "trace_data_mutation ''prepared-multi'' ''prepared_commit'' (length handles) ''started'' None hs"
  note f = transact_prepared_fields [OF refl, of h handles hs]
  have gone: "\<forall>k\<in>set handles. bt_get (ms_prepared (hs_scope hs')) k = None"
    using commit_prepared_scope(2) [OF assms(1), of _ handles ?hs] f(2) assms(2) by simp
  have fails: "\<not> is_ok (fst (transact_prepared h' again hs'))" if "k \<in> set again \<inter> set handles" for k h' again
  proof
    assume "is_ok (fst (transact_prepared h' again hs'))"
    then have "all_prepared again (trace_data_mutation ''prepared-multi'' ''prepared_commit'' (length again) ''started'' None hs')"
      unfolding transact_prepared_fields(1) [OF refl] by (blast dest: commit_prepared_ok)
    with that gone show False by (auto simp: all_prepared_def bt_has_def)
  qed
  have "is_ok r \<or> tables (hs_db hs') = tables (hs_db hs)"
    using commit_prepared_failed [of h handles ?hs] f(1,3) assms(2) by auto
  moreover have "\<forall>k. bt_get (ms_prepared (hs_scope hs')) k \<in> {bt_get (ms_prepared (hs_scope hs)) k, None}"
    using commit_prepared_scope(1) [of h handles ?hs] f(2) assms(2) by simp
  ultimately show ?thesis using gone fails by blast
qed

text \<open>C11: whatever the plugins other than \<open>p\<close> do through their hosts, directly, prepared or in commits,
  in any order and with the engine failing anywhere, the namespaces that the configuration assigns to
  \<open>p\<close> keep their registration and their records, as long as no mutation prepared by \<open>p\<close> is pending.\<close>

theorem durable_noninterference:
  assumes "(durable_step c p)\<^sup>*\<^sup>* hs hs'" "resource_owner c ns = Some p" "none_prepared_by p hs"
  shows "ns_same ns (hs_db hs) (hs_db hs') \<and> none_prepared_by p hs'"
  using assms(1)
proof (induction rule: rtranclp_induct)
  case base
  with assms(3) show ?case by simp
next
  case (step a b)
  then show ?case
    using durable_step_elsewhere [OF step(2) assms(2)] durable_step_prepared [OF step(2)]
    by (blast intro: ns_same_trans)
qed

text \<open>preparing a transaction and committing the handle alone is the direct transaction: same result,
  same tables, for the plugin that coordinates itself.\<close>

lemma prepare_then_commit_is_direct:
  assumes "prepare_durable_transaction h draws ns ops hs = Some (Inr k, hs1)"
    "coordinator (ph_thread h) (ph_plugin h) (hs_scope hs) = ph_plugin h"
  shows "fst (transact_prepared h [k] hs1) = fst (transact_durable h ns ops hs) \<and>
    hs_db (snd (transact_prepared h [k] hs1)) = hs_db (snd (transact_durable h ns ops hs))"
proof -
  let ?hs = "trace_data_mutation ''prepared-multi'' ''prepared_commit'' (length [k]) ''started'' None hs1"
  note f = transact_prepared_fields [OF refl, of h "[k]" hs1]
  from prepare_durable_cases [OF assms(1)] have p: "hs_db hs1 = hs_db hs" "prepare_allowed h ns hs"
    "hs_scope hs1 = (hs_scope hs)\<lparr>ms_prepared := bt_insert k (mutation_of h ns ops hs) (ms_prepared (hs_scope hs))\<rparr>"
    by auto
  have nm: "named_mutations [k] ?hs = [mutation_of h ns ops hs]" "all_prepared [k] ?hs"
    using p(3) by (simp_all add: named_mutations_def all_prepared_def bt_has_def map_simps)
  have "check_participants h [mutation_of h ns ops hs] = Inr ()"
    using p(2) assms(2) by (simp add: check_participants_ok participant_ok_def mutation_of_def prepare_allowed_def)
  then have "commit_prepared h [k] ?hs =
      on_persistence h (transact_many (ph_fault h) [pm_transaction (mutation_of h ns ops hs)]) (taken [k] ?hs)"
    using nm p(2,3) by (simp add: commit_prepared_eq prepare_allowed_def)
  moreover have "transact_many (ph_fault h) [pm_transaction (mutation_of h ns ops hs)] =
      transact (ph_fault h) (ph_plugin h) ns ops"
    by (simp add: transact_def mutation_of_def fun_eq_iff)
  moreover obtain a where "hs_db a = hs_db hs"
    "fst (transact_durable h ns ops hs) = fst (on_persistence h (transact (ph_fault h) (ph_plugin h) ns ops) a)"
    "hs_db (snd (transact_durable h ns ops hs)) =
       hs_db (snd (on_persistence h (transact (ph_fault h) (ph_plugin h) ns ops) a))"
    using transact_durable_run [OF p(2), of ops] by blast
  moreover have "hs_db (taken [k] ?hs) = hs_db hs" using p(1) by simp
  ultimately show ?thesis
    using f(1,3) on_persistence_db [of "taken [k] ?hs" a h] by simp
qed

text \<open>An outcome that is on record: the trace grows, ends with what happened, and an error means that
  nothing was written.\<close>

definition audited :: "host_state \<Rightarrow> (kernel_error + unit) \<times> host_state \<Rightarrow> bool" where
  "audited hs out \<longleftrightarrow> (\<exists>pre e. hs_trace (snd out) = hs_trace hs @ pre @ [e] \<and>
     (case fst out of
        Inr _ \<Rightarrow> dm_outcome e = ''committed'' \<and> dm_error e = None
      | Inl err \<Rightarrow> dm_outcome e \<in> {''failed'', ''denied''} \<and> dm_error e = Some err \<and>
          tables (hs_db (snd out)) = tables (hs_db hs)))"

lemma audited_trace_result:
  assumes "hs_trace (snd q) = hs_trace hs @ pre" "is_ok (fst q) \<or> tables (hs_db (snd q)) = tables (hs_db hs)"
  shows "audited hs (trace_result a b n ''committed'' q)"
  using assms by (cases q; cases "fst q") (auto simp: audited_def trace_result_def)

lemma on_persistence_transact:
  "is_ok (fst (on_persistence h (transact_many (ph_fault h) txs) hs)) \<or>
     tables (hs_db (snd (on_persistence h (transact_many (ph_fault h) txs) hs))) = tables (hs_db hs)"
  using transact_many_failed by (auto simp: on_persistence_fields)

lemma commit_traces:
  "hs_trace (snd (commit_prepared h handles hs)) = hs_trace hs"
  "hs_trace (snd (commit_owned h ps hs)) = hs_trace hs"
  by (simp_all add: commit_prepared_eq commit_owned_eq on_persistence_fields split: sum.splits)

lemma commit_owned_failed:
  "is_ok (fst (commit_owned h ps hs)) \<or> tables (hs_db (snd (commit_owned h ps hs))) = tables (hs_db hs)"
  using on_persistence_transact [of h _ hs] by (auto simp: commit_owned_eq split: sum.splits)

text \<open>every attempt to commit data, direct, prepared or over several own namespaces, is on record:
  its last trace says committed exactly when it succeeded, and otherwise carries the error, and then
  the tables are unchanged.\<close>

lemma data_mutations_are_audited:
  "audited hs (transact_durable h ns ops hs) \<and> audited hs (transact_prepared h handles hs) \<and>
   audited hs (transact_owned_durable_many h ps hs)"
proof (intro conjI)
  show "audited hs (transact_prepared h handles hs)"
    unfolding transact_prepared_def
    by (rule audited_trace_result) (use commit_prepared_failed in \<open>fastforce simp: commit_traces\<close>)+
  show "audited hs (transact_owned_durable_many h ps hs)"
    unfolding transact_owned_durable_many_def Let_def
    by (rule audited_trace_result) (simp add: commit_traces, metis commit_owned_failed trace_fields(2))
  show "audited hs (transact_durable h ns ops hs)"
  proof (cases "require_persistence_operation h persistence_write ns")
    case (Inl e)
    then show ?thesis by (simp add: transact_durable_def audited_def)
  next
    case (Inr u)
    let ?q = "on_persistence h (transact (ph_fault h) (ph_plugin h) ns ops)
      (trace_data_mutation ns ''commit'' (length ops) ''started'' None
        (trace_data_mutation ns ''authorization'' (length ops) ''allowed'' None hs))"
    have "audited hs (trace_result ns ''commit'' (length ops) ''committed'' ?q)"
    proof (rule audited_trace_result)
      show "is_ok (fst ?q) \<or> tables (hs_db (snd ?q)) = tables (hs_db hs)"
        using on_persistence_transact by (fastforce simp: transact_def)
    qed (simp add: on_persistence_fields)
    moreover have "audited hs (Inl e, trace_data_mutation ns ''cancellation_gate'' (length ops) ''denied'' (Some e)
        (clear_prepared (trace_data_mutation ns ''authorization'' (length ops) ''allowed'' None hs)))" for e
      by (simp add: audited_def)
    ultimately show ?thesis
      unfolding transact_durable_def Let_def Inr by (simp add: require_not_cancelled_def)
  qed
qed

subsection \<open>An instance\<close>

definition demo_config :: kernel_config where
  "demo_config = \<lparr>kc_manifests = [], kc_activation = [], kc_namespaces = [(''a/x'', ''a''), (''b/y'', ''b'')],
     kc_layers = [], kc_providers = [], kc_bindings = [], kc_policy = 1\<rparr>"

definition demo_host :: plugin_host where
  "demo_host = \<lparr>ph_generation = None, ph_graph = graph_empty, ph_config = demo_config,
     ph_states = [(''a'', Active)], ph_instances = {''a''}, ph_plugin = ''a'',
     ph_authority = {persistence_write}, ph_cancelled = False, ph_thread = 1, ph_fault = no_fault, ph_engine = []\<rparr>"

definition demo_mutation :: prepared_mutation where
  "demo_mutation = \<lparr>pm_transaction = \<lparr>nt_owner = ''a'', nt_namespace = ''a/x'', nt_operations = [OpPut ''k'' [2]]\<rparr>,
     pm_authority = {persistence_write}, pm_coordinator = ''a''\<rparr>"

definition demo_state :: host_state where
  "demo_state = \<lparr>hs_scope = \<lparr>ms_generation = None, ms_prepared = [(''h'', demo_mutation)], ms_coordinators = []\<rparr>,
     hs_db = sample_db, hs_trace = []\<rparr>"

lemmas demo_host_defs = demo_config_def demo_host_def demo_mutation_def demo_state_def

lemma demo_transact_ok:
  "is_ok (fst (transact_many no_fault [pm_transaction demo_mutation] sample_db))"
  by (simp add: transact_many_def demo_mutation_def sample_db_def sql_bind_def require_owner_def statement_def
      sql_return_def in_transaction_def apply_operations_def apply_operation_def)

lemma demo_commit: "\<exists>hs'. transact_prepared demo_host [''h''] demo_state = (Inr (), hs')"
proof -
  let ?hs = "trace_data_mutation ''prepared-multi'' ''prepared_commit'' (length [''h'']) ''started'' None demo_state"
  have n: "named_mutations [''h''] ?hs = [demo_mutation]" "all_prepared [''h''] ?hs"
    by (simp_all add: named_mutations_def all_prepared_def demo_state_def bt_has_def)
  have "check_participants demo_host [demo_mutation] = Inr ()"
    by (simp add: check_participants_ok participant_ok_def demo_host_defs permits_def resource_owner_def)
  with n have "commit_prepared demo_host [''h''] ?hs =
      on_persistence demo_host (transact_many no_fault [pm_transaction demo_mutation]) (taken [''h''] ?hs)"
    by (simp add: commit_prepared_eq) (simp add: demo_host_defs permits_def)
  then have "is_ok (fst (transact_prepared demo_host [''h''] demo_state))"
    unfolding transact_prepared_fields [OF refl]
    using demo_transact_ok by (simp add: on_persistence_fields) (simp add: demo_state_def)
  then show ?thesis by (cases "transact_prepared demo_host [''h''] demo_state") (auto simp: is_ok_iff)
qed

theorem prepared_commit_is_authorized_witness:
  "permits (ph_authority demo_host) persistence_write \<and> all_prepared [''h''] demo_state"
  using demo_commit prepared_commit_is_authorized by blast

lemma commit_attempt_is_one_shot_witness:
  "\<exists>r hs'. transact_prepared demo_host [''h''] demo_state = (r, hs') \<and>
     bt_get (ms_prepared (hs_scope hs')) ''h'' = None \<and>
     \<not> is_ok (fst (transact_prepared demo_host [''h''] hs'))"
proof -
  obtain r hs' where t: "transact_prepared demo_host [''h''] demo_state = (r, hs')" by fastforce
  have "permits (ph_authority demo_host) persistence_write" by (simp add: demo_host_def permits_def)
  note c = commit_attempt_is_one_shot [OF this t]
  then have "bt_get (ms_prepared (hs_scope hs')) ''h'' = None" by (meson list.set_intros(1))
  moreover from c have "set [''h''] \<inter> set [''h''] = {} \<or> \<not> is_ok (fst (transact_prepared demo_host [''h''] hs'))"
    by blast
  ultimately show ?thesis using t by force
qed

theorem durable_noninterference_witness:
  "ns_same ''b/y'' sample_db (hs_db (snd (transact_prepared demo_host [''h''] demo_state)))"
proof -
  have s: "(durable_step demo_config ''b'')\<^sup>*\<^sup>* demo_state (snd (transact_prepared demo_host [''h''] demo_state))"
    by (rule r_into_rtranclp, rule durable_step.commit) (simp_all add: demo_host_def)
  have "resource_owner demo_config ''b/y'' = Some ''b''" by (simp add: demo_config_def resource_owner_def)
  moreover have "none_prepared_by ''b'' demo_state"
    by (simp add: demo_state_def demo_mutation_def none_prepared_by_def)
  ultimately have "ns_same ''b/y'' (hs_db demo_state) (hs_db (snd (transact_prepared demo_host [''h''] demo_state)))"
    using durable_noninterference [OF s] by blast
  moreover have "hs_db demo_state = sample_db" by (simp add: demo_state_def)
  ultimately show ?thesis by simp
qed

lemma demo_prepare:
  "\<exists>k hs1. prepare_durable_transaction demo_host (map Inr [replicate 32 0]) ''a/x'' [OpPut ''k'' [2]]
     (demo_state\<lparr>hs_scope := scope_new None\<rparr>) = Some (Inr k, hs1)"
proof -
  obtain k s' where "prepare_mutation 1 (map Inr [replicate 32 0]) ''a'' ''a/x'' [OpPut ''k'' [2]]
      {persistence_write} (scope_new None) = Some (Inr k, s')"
    using prepare_mutation_returns [of "[replicate 32 0]" "scope_new None" 1 "''a''" "''a/x''" "[OpPut ''k'' [2]]"
      "{persistence_write}"]
    by (simp add: random_bytes_def scope_new_def) blast
  then show ?thesis
    by (simp add: prepare_durable_transaction_def prepare_gates_def hbind_def hcheck_def demo_host_defs
        require_persistence_operation_def require_capability_def permits_def resource_owner_def
        require_active_plugin_def plugin_active_def require_not_cancelled_def scope_new_def
        require_prepared_scope_generation_def trace_data_mutation_def trace_result_def)
qed

lemma prepare_then_commit_is_direct_witness:
  "\<exists>k hs1. prepare_durable_transaction demo_host (map Inr [replicate 32 0]) ''a/x'' [OpPut ''k'' [2]]
       (demo_state\<lparr>hs_scope := scope_new None\<rparr>) = Some (Inr k, hs1) \<and>
     hs_db (snd (transact_prepared demo_host [k] hs1)) =
     hs_db (snd (transact_durable demo_host ''a/x'' [OpPut ''k'' [2]] (demo_state\<lparr>hs_scope := scope_new None\<rparr>)))"
proof -
  obtain k hs1 where p: "prepare_durable_transaction demo_host (map Inr [replicate 32 0]) ''a/x'' [OpPut ''k'' [2]]
     (demo_state\<lparr>hs_scope := scope_new None\<rparr>) = Some (Inr k, hs1)" using demo_prepare by blast
  have "coordinator (ph_thread demo_host) (ph_plugin demo_host) (hs_scope (demo_state\<lparr>hs_scope := scope_new None\<rparr>)) =
      ph_plugin demo_host"
    by (simp add: coordinator_def scope_new_def)
  from prepare_then_commit_is_direct [OF p this] p show ?thesis by blast
qed

end
