(* ===== verification/Observable_Value.thy ===== *)
theory Observable_Value
  imports Schema "HOL-Library.Product_Lexorder"
begin

text \<open>
  Paths into structural values (\<open>phenix-core/src/observable/model.rs\<close>, \<open>observable/helpers.rs\<close>):
  the schema and the value a path addresses, and the in-place edits of the observable store with
  the edits that undo them. A function that takes \<open>&mut PhenixValue\<close> returns the changed value. The
  code's error strings are the constructors of \<open>path_fault\<close>.
\<close>

datatype path_segment =
  Field key | MapKey string | Index nat | VariantPayload | OptionPayload

type_synonym path = "path_segment list"

text \<open>The derived \<open>Ord\<close>: by constructor, then by content.\<close>

fun segment_rank :: "path_segment \<Rightarrow> nat \<times> string \<times> nat" where
  "segment_rank (Field k) = (0, k, 0)"
| "segment_rank (MapKey k) = (1, k, 0)"
| "segment_rank (Index i) = (2, [], i)"
| "segment_rank VariantPayload = (3, [], 0)"
| "segment_rank OptionPayload = (4, [], 0)"

lemma segment_rank_inj: "segment_rank a = segment_rank b \<Longrightarrow> a = b"
  by (cases a; cases b) simp_all

instantiation path_segment :: linorder
begin

definition less_eq_path_segment :: "path_segment \<Rightarrow> path_segment \<Rightarrow> bool" where
  "a \<le> b \<longleftrightarrow> segment_rank a \<le> segment_rank b"

definition less_path_segment :: "path_segment \<Rightarrow> path_segment \<Rightarrow> bool" where
  "a < b \<longleftrightarrow> segment_rank a < segment_rank b"

instance
  by standard (auto simp: less_eq_path_segment_def less_path_segment_def intro: segment_rank_inj)

end

text \<open>\<open>starts_with\<close> and \<open>relative_to\<close>.\<close>

fun starts_with :: "path \<Rightarrow> path \<Rightarrow> bool" where
  "starts_with p [] = True"
| "starts_with [] (s # q) = False"
| "starts_with (t # p) (s # q) = (t = s \<and> starts_with p q)"

definition relative_to :: "path \<Rightarrow> path \<Rightarrow> path option" where
  "relative_to p prefix = (if starts_with p prefix then Some (drop (length prefix) p) else None)"

lemma starts_with_iff: "starts_with p q \<longleftrightarrow> (\<exists>r. p = q @ r)"
  by (induction p q rule: starts_with.induct) auto

lemma starts_with_refl [simp]: "starts_with p p"
  by (simp add: starts_with_iff)

lemma starts_with_trans: "starts_with p q \<Longrightarrow> starts_with q r \<Longrightarrow> starts_with p r"
  by (auto simp: starts_with_iff)

lemma relative_to_eq: "relative_to p q = Some r \<longleftrightarrow> p = q @ r"
  by (auto simp: relative_to_def starts_with_iff)

datatype path_fault =
  NoField key
| ArrayIndex nat nat
| PayloadsDiffer
| NoPayload
| BadSegment path_segment type_kind
| AbsentValue
| AbsentField key
| AbsentKey string
| AbsentIndex nat
| SegmentMismatch path_segment
| RootRemoval
| NotRemovable path_segment
| RollbackRoot
| RollbackIndex nat
| RollbackSegment path_segment
| RollbackValue string
| RollbackSplice
| FixedMember
| SpliceTarget
| NotAListValue
| SpliceOverflow
| SpliceRange nat nat nat
| FixedLength nat nat
| NotConforming value_error
| NotDeclared

subsection \<open>The schema at a path\<close>

definition schema_step :: "phx_type option \<Rightarrow> phx_type \<Rightarrow> path_fault + phx_type option" where
  "schema_step resolved candidate =
     (case resolved of
        Some previous \<Rightarrow> if previous \<noteq> candidate then Inl PayloadsDiffer else Inr resolved
      | None \<Rightarrow> Inr (Some candidate))"

fun schema_at_path :: "phx_type \<Rightarrow> path \<Rightarrow> path_fault + phx_type" where
  "schema_at_path t [] = Inr t"
| "schema_at_path t (s # p) =
     (case (t, s) of
        (TTable fs, Field k) \<Rightarrow> rbind (ok_or (NoField k) (bt_get fs k)) (\<lambda>t'. schema_at_path t' p)
      | (TMap item, MapKey _) \<Rightarrow> schema_at_path item p
      | (TList item, Index _) \<Rightarrow> schema_at_path item p
      | (TArray item len, Index i) \<Rightarrow>
          if i \<ge> len then Inl (ArrayIndex i len) else schema_at_path item p
      | (TOption item, OptionPayload) \<Rightarrow> schema_at_path item p
      | (TVariant vs, VariantPayload) \<Rightarrow>
          rbind (try_fold (\<lambda>r v. rbind (schema_at_path v p) (schema_step r)) None (bt_vals vs))
            (ok_or NoPayload)
      | _ \<Rightarrow> Inl (BadSegment s (kind_of_type t)))"

subsection \<open>The value at a path\<close>

fun child_at :: "phx_value \<Rightarrow> path_segment \<Rightarrow> phx_value option" where
  "child_at (VTable m) (Field k) = bt_get m k"
| "child_at (VMap m) (MapKey k) = bt_get m k"
| "child_at (VList vs) (Index i) = (if i < length vs then Some (vs ! i) else None)"
| "child_at (VOption (Some v)) OptionPayload = Some v"
| "child_at (VVariant t v) VariantPayload = Some v"
| "child_at _ _ = None"

fun value_at_optional :: "phx_value \<Rightarrow> path \<Rightarrow> phx_value option" where
  "value_at_optional v [] = Some v"
| "value_at_optional v (s # p) =
     (case child_at v s of None \<Rightarrow> None | Some w \<Rightarrow> value_at_optional w p)"

definition value_at :: "phx_value \<Rightarrow> path \<Rightarrow> path_fault + phx_value" where
  "value_at v p = ok_or AbsentValue (value_at_optional v p)"

text \<open>
  \<open>value_at_mut\<close> lends the place at a path. The model returns the value there, and \<open>put_at\<close> is the
  assignment through the borrowed place.
\<close>

fun child_fault :: "phx_value \<Rightarrow> path_segment \<Rightarrow> path_fault" where
  "child_fault (VTable m) (Field k) = AbsentField k"
| "child_fault (VMap m) (MapKey k) = AbsentKey k"
| "child_fault (VList vs) (Index i) = AbsentIndex i"
| "child_fault _ s = SegmentMismatch s"

fun value_at_mut :: "phx_value \<Rightarrow> path \<Rightarrow> path_fault + phx_value" where
  "value_at_mut v [] = Inr v"
| "value_at_mut v (s # p) = rbind (ok_or (child_fault v s) (child_at v s)) (\<lambda>w. value_at_mut w p)"

fun put_child :: "phx_value \<Rightarrow> path_segment \<Rightarrow> phx_value \<Rightarrow> phx_value" where
  "put_child (VTable m) (Field k) w = VTable (bt_insert k w m)"
| "put_child (VMap m) (MapKey k) w = VMap (bt_insert k w m)"
| "put_child (VList vs) (Index i) w = VList (vs[i := w])"
| "put_child (VOption (Some v)) OptionPayload w = VOption (Some w)"
| "put_child (VVariant t v) VariantPayload w = VVariant t w"
| "put_child v _ w = v"

fun put_at :: "phx_value \<Rightarrow> path \<Rightarrow> phx_value \<Rightarrow> phx_value" where
  "put_at v [] n = n"
| "put_at v (s # p) n =
     (case child_at v s of None \<Rightarrow> v | Some w \<Rightarrow> put_child v s (put_at w p n))"

subsection \<open>Edits\<close>

text \<open>The last segment of \<open>replace_at\<close>: the previous value and the container after the write.\<close>

fun replace_child :: "phx_value \<Rightarrow> path_segment \<Rightarrow> phx_value \<Rightarrow> path_fault + phx_value option \<times> phx_value" where
  "replace_child (VTable m) (Field k) n =
     (case bt_get m k of Some old \<Rightarrow> Inr (Some old, VTable (bt_insert k n m)) | None \<Rightarrow> Inl (AbsentField k))"
| "replace_child (VMap m) (MapKey k) n = Inr (bt_get m k, VMap (bt_insert k n m))"
| "replace_child (VList vs) (Index i) n =
     (if i < length vs then Inr (Some (vs ! i), VList (vs[i := n])) else Inl (AbsentIndex i))"
| "replace_child (VOption old) OptionPayload n = Inr (old, VOption (Some n))"
| "replace_child (VVariant t old) VariantPayload n = Inr (Some old, VVariant t n)"
| "replace_child _ s n = Inl (SegmentMismatch s)"

text \<open>An edit below the first segment: the place is borrowed with \<open>value_at_mut\<close>.\<close>

definition within ::
  "phx_value \<Rightarrow> path_segment \<Rightarrow> (phx_value \<Rightarrow> path_fault + 'r \<times> phx_value) \<Rightarrow> path_fault + 'r \<times> phx_value" where
  "within v s edit =
     rbind (value_at_mut v [s]) (\<lambda>w. rbind (edit w) (\<lambda>(r, w'). Inr (r, put_at v [s] w')))"

lemma within_cong [fundef_cong]:
  "v = v' \<Longrightarrow> s = s' \<Longrightarrow> (\<And>w. f w = g w) \<Longrightarrow> within v s f = within v' s' g"
  by (simp add: within_def)

fun replace_at :: "phx_value \<Rightarrow> path \<Rightarrow> phx_value \<Rightarrow> path_fault + phx_value option \<times> phx_value" where
  "replace_at v [] n = Inr (Some v, n)"
| "replace_at v [s] n = replace_child v s n"
| "replace_at v (s # t # p) n = within v s (\<lambda>w. replace_at w (t # p) n)"

fun remove_child :: "phx_value \<Rightarrow> path_segment \<Rightarrow> path_fault + phx_value option \<times> phx_value" where
  "remove_child (VMap m) (MapKey k) = Inr (bt_get m k, VMap (bt_remove k m))"
| "remove_child (VOption old) OptionPayload = Inr (old, VOption None)"
| "remove_child _ s = Inl (NotRemovable s)"

fun remove_at :: "phx_value \<Rightarrow> path \<Rightarrow> path_fault + phx_value option \<times> phx_value" where
  "remove_at v [] = Inl RootRemoval"
| "remove_at v [s] = remove_child v s"
| "remove_at v (s # t # p) = within v s (\<lambda>w. remove_at w (t # p))"

definition restore_child :: "phx_value \<Rightarrow> path_segment \<Rightarrow> phx_value option \<Rightarrow> path_fault + unit \<times> phx_value" where
  "restore_child v s old =
     (case (v, s) of
        (VTable m, Field k) \<Rightarrow>
          (case old of Some w \<Rightarrow> Inr ((), VTable (bt_insert k w m)) | None \<Rightarrow> Inl (RollbackSegment s))
      | (VMap m, MapKey k) \<Rightarrow>
          (case old of Some w \<Rightarrow> Inr ((), VMap (bt_insert k w m)) | None \<Rightarrow> Inr ((), VMap (bt_remove k m)))
      | (VList vs, Index i) \<Rightarrow>
          (case old of
             Some w \<Rightarrow> if i < length vs then Inr ((), VList (vs[i := w])) else Inl (RollbackIndex i)
           | None \<Rightarrow> Inl (RollbackSegment s))
      | (VOption _, OptionPayload) \<Rightarrow> Inr ((), VOption old)
      | (VVariant t _, VariantPayload) \<Rightarrow>
          (case old of Some w \<Rightarrow> Inr ((), VVariant t w) | None \<Rightarrow> Inl (RollbackSegment s))
      | _ \<Rightarrow> Inl (RollbackSegment s))"

fun restore_optional :: "phx_value \<Rightarrow> path \<Rightarrow> phx_value option \<Rightarrow> path_fault + unit \<times> phx_value" where
  "restore_optional v [] old = (case old of Some w \<Rightarrow> Inr ((), w) | None \<Rightarrow> Inl RollbackRoot)"
| "restore_optional v [s] old = restore_child v s old"
| "restore_optional v (s # t # p) old = within v s (\<lambda>w. restore_optional w (t # p) old)"

text \<open>\<open>Vec::splice\<close> over \<open>i..j\<close>: the removed elements and the list after it.\<close>

definition splice_list :: "'a list \<Rightarrow> nat \<Rightarrow> nat \<Rightarrow> 'a list \<Rightarrow> 'a list \<times> 'a list" where
  "splice_list xs i j ins = (take (j - i) (drop i xs), take i xs @ ins @ drop j xs)"


subsection \<open>Places and edits\<close>

lemma within_ok:
  "within v s f = Inr (r, v') \<longleftrightarrow>
     (\<exists>w w'. child_at v s = Some w \<and> f w = Inr (r, w') \<and> v' = put_child v s w')"
  by (auto simp: within_def rbind_eq_Inr)

lemma value_at_mut_ok: "value_at_mut v p = Inr w \<longleftrightarrow> value_at_optional v p = Some w"
  by (induction v p rule: value_at_mut.induct) (auto simp: rbind_eq_Inr split: option.splits)

lemma value_at_append:
  "value_at_optional v (p @ q) =
     (case value_at_optional v p of None \<Rightarrow> None | Some w \<Rightarrow> value_at_optional w q)"
  by (induction p arbitrary: v) (auto split: option.splits)

lemma child_put: "child_at v s = Some w \<Longrightarrow> child_at (put_child v s x) s = Some x"
  by (induction v s rule: child_at.induct) (auto simp: map_simps split: if_splits)

lemma put_put_child:
  "child_at v s = Some w \<Longrightarrow> value_ok v \<Longrightarrow> put_child (put_child v s x) s w = v"
  by (induction v s rule: child_at.induct)
    (auto simp: bt.ins_ins_old split: if_splits)

lemma child_ok: "child_at v s = Some w \<Longrightarrow> value_ok v \<Longrightarrow> value_ok w"
  by (induction v s rule: child_at.induct)
    (auto simp: list_all_iff dest: bt_get_in split: if_splits)

lemma list_all_bt_insert:
  "list_all (\<lambda>(k, v). P v) m \<Longrightarrow> P w \<Longrightarrow> list_all (\<lambda>(k, v). P v) (bt_insert k w m)"
  by (induction k w m rule: bt_insert.induct) auto

lemma list_all_bt_remove:
  "list_all (\<lambda>(k, v). P v) m \<Longrightarrow> list_all (\<lambda>(k, v). P v) (bt_remove k m)"
  by (induction m) auto

lemma list_all_update: "list_all P xs \<Longrightarrow> P x \<Longrightarrow> list_all P (xs[i := x])"
  by (auto simp: list_all_iff dest!: set_update_subset_insert [THEN subsetD])

lemmas list_all_edits = list_all_bt_insert list_all_bt_remove list_all_update

lemma put_child_ok: "value_ok v \<Longrightarrow> value_ok w \<Longrightarrow> value_ok (put_child v s w)"
  by (induction v s w rule: put_child.induct) (auto intro: list_all_edits)

lemma replace_child_facts:
  "replace_child v s n = Inr (old, v') \<Longrightarrow> value_ok v \<Longrightarrow>
     restore_child v' s old = Inr ((), v) \<and> (value_ok n \<longrightarrow> value_ok v')"
  by (induction v s n rule: replace_child.induct)
    (auto simp: restore_child_def bt.ins_ins_old bt.del_ins
      intro: list_all_edits dest!: sym [of "Some _"] split: option.splits if_splits)

lemma remove_child_facts:
  "remove_child v s = Inr (old, v') \<Longrightarrow> value_ok v \<Longrightarrow>
     restore_child v' s old = Inr ((), v) \<and> value_ok v'"
  by (induction v s rule: remove_child.induct)
    (auto simp: restore_child_def bt.ins_del_old bt.del_absent bt.del_del intro: list_all_edits
      split: option.splits)

text \<open>An edit inside a place is undone by the inverse edit there.\<close>

lemma within_undo:
  assumes "within v s f = Inr (r, v')" "value_ok v"
    and "\<And>w w'. f w = Inr (r, w') \<Longrightarrow> value_ok w \<Longrightarrow> g w' = Inr ((), w) \<and> value_ok w'"
  shows "within v' s g = Inr ((), v) \<and> value_ok v'"
proof -
  from assms(1) obtain w w' where w: "child_at v s = Some w" "f w = Inr (r, w')" "v' = put_child v s w'"
    by (auto simp: within_ok)
  with assms(3) child_ok [OF w(1) assms(2)] have "g w' = Inr ((), w)" "value_ok w'" by auto
  with w assms(2) show ?thesis
    by (auto simp: within_ok child_put put_put_child intro: put_child_ok)
qed

lemma replace_at_undo:
  "replace_at v p n = Inr (old, v') \<Longrightarrow> value_ok v \<Longrightarrow> value_ok n \<Longrightarrow>
     restore_optional v' p old = Inr ((), v) \<and> value_ok v'"
proof (induction v p n arbitrary: v' rule: replace_at.induct)
  case (2 v s n)
  then show ?case using replace_child_facts [of v s n old v'] by simp
next
  case (3 v s t p n)
  show ?case
    unfolding restore_optional.simps
    by (rule within_undo [OF 3(2) [simplified] 3(3)]) (use 3(1,4) in blast)
qed auto

lemma remove_at_undo:
  "remove_at v p = Inr (old, v') \<Longrightarrow> value_ok v \<Longrightarrow>
     restore_optional v' p old = Inr ((), v) \<and> value_ok v'"
proof (induction v p arbitrary: v' rule: remove_at.induct)
  case (2 v s)
  then show ?case using remove_child_facts [of v s old v'] by simp
next
  case (3 v s t p)
  show ?case
    unfolding restore_optional.simps
    by (rule within_undo [OF 3(2) [simplified] 3(3)]) (use 3(1) in blast)
qed simp

text \<open>The place lent by \<open>value_at_mut\<close> holds what was assigned, and assigning the old value undoes it.\<close>

lemma put_at_facts:
  "value_at_optional v p = Some w \<Longrightarrow> value_ok v \<Longrightarrow> value_ok x \<Longrightarrow>
     value_at_optional (put_at v p x) p = Some x \<and> put_at (put_at v p x) p w = v \<and>
     value_ok (put_at v p x) \<and> value_ok w"
proof (induction v p rule: value_at_optional.induct)
  case (2 v s p)
  then obtain u where u: "child_at v s = Some u" "value_at_optional u p = Some w"
    by (auto split: option.splits)
  with 2 child_ok [OF u(1)] have "value_at_optional (put_at u p x) p = Some x"
      "put_at (put_at u p x) p w = u" "value_ok (put_at u p x)" "value_ok w"
    by auto
  with 2(3) u(1) show ?case
    by (simp add: child_put put_put_child put_child_ok)
qed simp

lemma splice_list_undo:
  assumes "splice_list xs i j ins = (removed, ys)" "i \<le> j" "j \<le> length xs"
  shows "splice_list ys i (min (i + length ins) (length ys)) removed = (ins, xs)"
proof -
  from assms have ys: "ys = take i xs @ ins @ drop j xs" "removed = take (j - i) (drop i xs)"
    by (auto simp: splice_list_def)
  have e: "min (i + length ins) (length ys) = i + length ins" "length (take i xs) = i"
    using assms ys by auto
  have "removed @ drop j xs = drop i xs"
    using ys assms(2) by (metis append_take_drop_id drop_drop le_add_diff_inverse2)
  then show ?thesis
    using e ys by (simp add: splice_list_def)
qed

lemma splice_list_parts:
  "splice_list xs i j ins = (removed, ys) \<Longrightarrow> set removed \<subseteq> set xs \<and> set ys \<subseteq> set xs \<union> set ins"
  by (auto simp: splice_list_def dest: in_set_takeD in_set_dropD)

subsection \<open>Edits keep the schema\<close>

text \<open>Types built from ordered maps, which is every type the code can hold.\<close>

fun type_ok :: "phx_type \<Rightarrow> bool" where
  "type_ok (TOption t) = type_ok t"
| "type_ok (TArray t n) = type_ok t"
| "type_ok (TList t) = type_ok t"
| "type_ok (TMap t) = type_ok t"
| "type_ok (TTable fs) = (bt_ok fs \<and> list_all (\<lambda>(k, t). type_ok t) fs)"
| "type_ok (TVariant vs) = (bt_ok vs \<and> list_all (\<lambda>(k, t). type_ok t) vs)"
| "type_ok (TCallable c i p) = (type_ok i \<and> type_ok p)"
| "type_ok _ = True"

lemma schema_fold:
  "try_fold (\<lambda>r v. rbind (f v) (schema_step r)) r0 vs = Inr r \<Longrightarrow> r = Some t \<Longrightarrow>
     (\<forall>v\<in>set vs. f v = Inr t) \<and> (r0 = None \<or> r0 = Some t)"
proof (induction vs arbitrary: r0)
  case (Cons v vs)
  then obtain t' r1 where "f v = Inr t'" "schema_step r0 t' = Inr r1"
      "try_fold (\<lambda>r v. rbind (f v) (schema_step r)) r1 vs = Inr r"
    by (auto simp: rbind_eq_Inr)
  with Cons.IH [of r1] Cons.prems(2) have "(\<forall>v\<in>set vs. f v = Inr t)" "r1 = None \<or> r1 = Some t"
    by auto
  with \<open>f v = Inr t'\<close> \<open>schema_step r0 t' = Inr r1\<close> show ?case
    by (cases r0) (auto simp: schema_step_def split: if_splits)
qed simp

lemma bt_get_vals: "bt_get m k = Some v \<Longrightarrow> v \<in> set (bt_vals m)"
  by (force simp: bt_vals_def dest: bt_get_in)

lemma set_bt_vals_insert: "set (bt_vals (bt_insert k w m)) \<subseteq> insert w (set (bt_vals m))"
  by (induction k w m rule: bt_insert.induct) auto

lemma set_bt_vals_remove: "set (bt_vals (bt_remove k m)) \<subseteq> set (bt_vals m)"
  by (induction m) (auto split: if_splits)

lemma parse_table_insert:
  assumes "parse (TTable fs) (VTable m) = Inr ()" "bt_ok fs" "bt_get fs k = Some t"
    and "parse t w = Inr ()"
  shows "parse (TTable fs) (VTable (bt_insert k w m)) = Inr ()"
proof -
  have "\<exists>v. bt_get (bt_insert k w m) j = Some v \<and> parse T v = Inr ()" if "(j, T) \<in> set fs" for j T
    using assms that bt_get_iff [OF assms(2), of j T]
    by (cases "j = k") (auto simp: parse_table_ok map_simps simp del: parse.simps)
  moreover have "bt_has fs j" if "j \<in> set (bt_keys (bt_insert k w m))" for j
    using that assms(1,3)
    by (cases "j = k") (auto simp: parse_table_ok bt_keys_get bt_has_def map_simps simp del: parse.simps)
  ultimately show ?thesis
    unfolding parse_table_ok by auto
qed

text \<open>One step of a path: the child conforms, and a conforming child may be put in its place.\<close>

lemma child_conforms:
  assumes "schema_at_path S (s # p) = Inr t" "type_ok S" "parse S v = Inr ()" "child_at v s = Some w"
  obtains S' where "schema_at_path S' p = Inr t" "type_ok S'" "parse S' w = Inr ()"
    "\<forall>w'. parse S' w' = Inr () \<longrightarrow> parse S (put_child v s w') = Inr ()"
proof (cases S)
  case (TTable fs)
  with assms obtain k T m where k: "s = Field k" "bt_get fs k = Some T" "schema_at_path T p = Inr t"
      "v = VTable m" "bt_get m k = Some w" "bt_ok fs"
    by (cases s; cases v) (auto simp: rbind_eq_Inr)
  then have T: "(k, T) \<in> set fs" by (simp add: bt_get_iff)
  with assms(3) TTable k have "parse T w = Inr ()"
    by (auto simp: parse_table_ok simp del: parse.simps)
  moreover from T assms(2) TTable have "type_ok T" by (auto simp: list_all_iff)
  ultimately show ?thesis
    using that [of T] k assms(3) TTable
    by (auto intro: parse_table_insert simp del: parse.simps)
next
  case (TVariant vs)
  with assms obtain tag where k: "s = VariantPayload" "v = VVariant tag w"
    by (cases s; cases v) (auto simp: rbind_eq_Inr)
  with assms(3) TVariant obtain T where T: "bt_get vs tag = Some T" "parse T w = Inr ()"
    by (auto split: option.splits)
  with assms(1) k TVariant have "schema_at_path T p = Inr t"
    by (auto simp: rbind_eq_Inr dest!: schema_fold dest: bt_get_vals)
  with T k TVariant assms(2) show ?thesis
    by (intro that [of T]) (auto simp: list_all_iff dest: bt_get_in)
next
  case (TMap T)
  with assms obtain k m where k: "s = MapKey k" "v = VMap m" "bt_get m k = Some w"
    by (cases s; cases v) auto
  with assms TMap set_bt_vals_insert [of k _ m] show ?thesis
    by (intro that [of T]) (auto simp: try_each_ok dest: bt_get_vals)
next
  case (TList T)
  with assms obtain i vs where i: "s = Index i" "v = VList vs" "i < length vs" "w = vs ! i"
    by (cases s; cases v) (auto split: if_splits)
  with assms TList show ?thesis
    by (intro that [of T]) (auto simp: try_each_ok dest!: set_update_subset_insert [THEN subsetD])
next
  case (TArray T n)
  with assms obtain i vs where i: "s = Index i" "v = VList vs" "i < length vs" "w = vs ! i"
    by (cases s; cases v) (auto split: if_splits)
  with assms TArray show ?thesis
    by (intro that [of T])
      (auto simp: try_each_ok dest!: set_update_subset_insert [THEN subsetD] split: if_splits)
next
  case (TOption T)
  with assms have "s = OptionPayload" "v = VOption (Some w)"
    by (cases s; cases v; force split: option.splits)+
  with assms TOption show ?thesis
    by (intro that [of T]) auto
qed (use assms in \<open>cases s; simp\<close>)+

lemma within_conforms:
  assumes "within v s f = Inr (r, v')" "schema_at_path S (s # p) = Inr t" "type_ok S" "parse S v = Inr ()"
    and "\<And>S' w w'. f w = Inr (r, w') \<Longrightarrow> schema_at_path S' p = Inr t \<Longrightarrow> type_ok S' \<Longrightarrow>
           parse S' w = Inr () \<Longrightarrow> parse S' w' = Inr ()"
  shows "parse S v' = Inr ()"
proof -
  from assms(1) obtain w w' where w: "child_at v s = Some w" "f w = Inr (r, w')" "v' = put_child v s w'"
    by (auto simp: within_ok)
  from child_conforms [OF assms(2-4) w(1)] obtain S' where
      "schema_at_path S' p = Inr t" "type_ok S'" "parse S' w = Inr ()"
      "\<forall>w'. parse S' w' = Inr () \<longrightarrow> parse S (put_child v s w') = Inr ()" .
  with w assms(5) show ?thesis by auto
qed

lemma replace_child_conforms:
  assumes "replace_child v s n = Inr (old, v')" "schema_at_path S [s] = Inr t" "type_ok S"
    and "parse S v = Inr ()" "parse t n = Inr ()"
  shows "parse S v' = Inr ()"
proof (cases "child_at v s")
  case (Some w)
  with assms(1) have "v' = put_child v s n"
  proof (induction v s n rule: replace_child.induct)
    case (4 before n)
    then show ?case by (cases before) auto
  qed (auto split: option.splits if_splits)
  moreover from child_conforms [OF assms(2-4) Some] assms(5) have "parse S (put_child v s n) = Inr ()"
    by auto
  ultimately show ?thesis by simp
next
  case None
  with assms(1) consider k m where "s = MapKey k" "v = VMap m" "v' = VMap (bt_insert k n m)"
    | "s = OptionPayload" "v = VOption None" "v' = VOption (Some n)"
  proof (induction v s n rule: replace_child.induct)
    case (4 before n)
    then show ?case by (cases before) auto
  qed (auto split: option.splits if_splits)
  then show ?thesis
  proof cases
    case 1
    with assms(2,4,5) set_bt_vals_insert [of k n m] show ?thesis
      by (cases S) (auto simp: try_each_ok)
  next
    case 2
    with assms(2,4,5) show ?thesis by (cases S) auto
  qed
qed

lemma remove_child_conforms:
  assumes "remove_child v s = Inr (old, v')" "schema_at_path S [s] = Inr t" "parse S v = Inr ()"
  shows "parse S v' = Inr ()"
  using assms
proof (induction v s rule: remove_child.induct)
  case (1 m k)
  then show ?case using set_bt_vals_remove [of k m] by (cases S) (auto simp: try_each_ok subset_iff)
next
  case 2
  then show ?case by (cases S) auto
qed auto

lemma replace_at_conforms:
  "replace_at v p n = Inr (old, v') \<Longrightarrow> schema_at_path S p = Inr t \<Longrightarrow> type_ok S \<Longrightarrow>
     parse S v = Inr () \<Longrightarrow> parse t n = Inr () \<Longrightarrow> parse S v' = Inr ()"
proof (induction v p n arbitrary: S v' rule: replace_at.induct)
  case (2 v s n)
  then show ?case using replace_child_conforms [of v s n old v' S t] by simp
next
  case (3 v s u p n)
  show ?case
    by (rule within_conforms [OF 3(2) [simplified] 3(3-5)]) (use 3(1,6) in blast)
qed simp

lemma remove_at_conforms:
  "remove_at v p = Inr (old, v') \<Longrightarrow> schema_at_path S p = Inr t \<Longrightarrow> type_ok S \<Longrightarrow>
     parse S v = Inr () \<Longrightarrow> parse S v' = Inr ()"
proof (induction v p arbitrary: S v' rule: remove_at.induct)
  case (2 v s)
  then show ?case using remove_child_conforms [of v s old v' S t] by simp
next
  case (3 v s u p)
  show ?case
    by (rule within_conforms [OF 3(2) [simplified] 3(3-5)]) (use 3(1) in blast)
qed simp

lemma put_at_conforms:
  "value_at_optional v p = Some w \<Longrightarrow> schema_at_path S p = Inr t \<Longrightarrow> type_ok S \<Longrightarrow> parse S v = Inr () \<Longrightarrow>
     parse t w = Inr () \<and> (parse t x = Inr () \<longrightarrow> parse S (put_at v p x) = Inr ())"
proof (induction v p arbitrary: S rule: value_at_optional.induct)
  case (2 v s p)
  then obtain u where u: "child_at v s = Some u" "value_at_optional u p = Some w"
    by (auto split: option.splits)
  from child_conforms [OF 2(3-5) u(1)] obtain S' where S':
      "schema_at_path S' p = Inr t" "type_ok S'" "parse S' u = Inr ()"
      "\<forall>w'. parse S' w' = Inr () \<longrightarrow> parse S (put_child v s w') = Inr ()" .
  from 2(1) [OF u S'(1-3)] S'(4) u(1) show ?case by simp
qed simp

lemmas edit_undo = replace_at_undo remove_at_undo
lemmas edit_conforms = replace_at_conforms remove_at_conforms

end
