(* ===== verification/Observable_Index.thy ===== *)
theory Observable_Index
  imports Observable_Value
begin

text \<open>
  The path index of the observable store (\<open>SubscriptionNode\<close> of
  \<open>phenix-core/src/observable/model.rs\<close>): a tree over path segments holding, at each path, the
  subscriptions of either scope. The collecting functions push into an output vector without
  repeating an identifier. The lemmas say which subscriptions a change reaches.
\<close>

datatype observation_scope = ScopeExact | ScopeRecursive

datatype node =
  Node (node_exact: "nat list") (node_recursive: "nat list") (node_children: "(path_segment, node) btree")

abbreviation empty_node :: node where
  "empty_node \<equiv> Node [] [] []"

definition scope_ids :: "node \<Rightarrow> observation_scope \<Rightarrow> nat list" where
  "scope_ids n sc = (case sc of ScopeExact \<Rightarrow> node_exact n | ScopeRecursive \<Rightarrow> node_recursive n)"

text \<open>\<open>entry(..).or_default()\<close>.\<close>

definition or_empty :: "node option \<Rightarrow> node" where
  "or_empty n = (case n of Some m \<Rightarrow> m | None \<Rightarrow> empty_node)"

fun node_insert :: "path \<Rightarrow> nat \<Rightarrow> observation_scope \<Rightarrow> node \<Rightarrow> node" where
  "node_insert [] i sc (Node e r c) =
     (case sc of ScopeExact \<Rightarrow> Node (e @ [i]) r c | ScopeRecursive \<Rightarrow> Node e (r @ [i]) c)"
| "node_insert (s # p) i sc (Node e r c) =
     Node e r (bt_insert s (node_insert p i sc (or_empty (bt_get c s))) c)"

definition node_is_empty :: "node \<Rightarrow> bool" where
  "node_is_empty n = (node_exact n = [] \<and> node_recursive n = [] \<and> node_children n = [])"

fun node_remove :: "path \<Rightarrow> nat \<Rightarrow> observation_scope \<Rightarrow> node \<Rightarrow> node" where
  "node_remove [] i sc (Node e r c) =
     (case sc of
        ScopeExact \<Rightarrow> Node (filter (\<lambda>j. j \<noteq> i) e) r c
      | ScopeRecursive \<Rightarrow> Node e (filter (\<lambda>j. j \<noteq> i) r) c)"
| "node_remove (s # p) i sc (Node e r c) =
     (case bt_get c s of
        None \<Rightarrow> Node e r c
      | Some child \<Rightarrow>
          (let child' = node_remove p i sc child
           in Node e r (if node_is_empty child' then bt_remove s c else bt_insert s child' c)))"

fun extend_unique :: "'a list \<Rightarrow> 'a list \<Rightarrow> 'a list" where
  "extend_unique out [] = out"
| "extend_unique out (x # xs) = extend_unique (if x \<in> set out then out else out @ [x]) xs"

fun collect_all :: "node \<Rightarrow> nat list \<Rightarrow> nat list" where
  "collect_all (Node e r c) out =
     fold (\<lambda>(s, child). collect_all child) c (extend_unique (extend_unique out e) r)"

fun collect_for_path :: "node \<Rightarrow> path \<Rightarrow> nat list \<Rightarrow> nat list" where
  "collect_for_path n [] out =
     collect_all n (extend_unique (extend_unique out (node_recursive n)) (node_exact n))"
| "collect_for_path n (s # p) out =
     (let out = extend_unique out (node_recursive n)
      in case bt_get (node_children n) s of Some child \<Rightarrow> collect_for_path child p out | None \<Rightarrow> out)"

text \<open>\<open>u32::saturating_add\<close>.\<close>

definition sat_add32 :: "nat \<Rightarrow> nat \<Rightarrow> nat" where
  "sat_add32 a b = min (a + b) u32_max"

definition splice_affects :: "nat \<Rightarrow> nat \<Rightarrow> nat \<Rightarrow> nat \<Rightarrow> bool" where
  "splice_affects start deleted inserted i =
     (if inserted = deleted then start \<le> i \<and> i < sat_add32 start deleted else start \<le> i)"

definition collect_affected :: "nat \<Rightarrow> nat \<Rightarrow> nat \<Rightarrow> path_segment \<times> node \<Rightarrow> nat list \<Rightarrow> nat list" where
  "collect_affected start deleted inserted sc out =
     (case sc of
        (Index i, child) \<Rightarrow>
          if splice_affects start deleted inserted i then collect_all child out else out
      | _ \<Rightarrow> out)"

fun collect_for_splice :: "node \<Rightarrow> path \<Rightarrow> nat \<Rightarrow> nat \<Rightarrow> nat \<Rightarrow> nat list \<Rightarrow> nat list" where
  "collect_for_splice n [] start deleted inserted out =
     (let out = extend_unique out (node_recursive n);
          out = extend_unique out (node_exact n);
          out = extend_unique out (node_recursive n)
      in fold (collect_affected start deleted inserted) (node_children n) out)"
| "collect_for_splice n (s # p) start deleted inserted out =
     (let out = extend_unique out (node_recursive n)
      in case bt_get (node_children n) s of
           Some child \<Rightarrow> collect_for_splice child p start deleted inserted out
         | None \<Rightarrow> out)"

subsection \<open>The index as a relation\<close>

text \<open>The identifiers stored at a path.\<close>

fun ids_at :: "node \<Rightarrow> path \<Rightarrow> observation_scope \<Rightarrow> nat list" where
  "ids_at n [] sc = scope_ids n sc"
| "ids_at n (s # p) sc =
     (case bt_get (node_children n) s of Some child \<Rightarrow> ids_at child p sc | None \<Rightarrow> [])"

fun node_ok :: "node \<Rightarrow> bool" where
  "node_ok (Node e r c) = (bt_ok c \<and> list_all (\<lambda>(s, n). node_ok n) c)"

lemma node_ok_child: "node_ok n \<Longrightarrow> bt_get (node_children n) s = Some m \<Longrightarrow> node_ok m"
  by (cases n) (auto simp: list_all_iff dest!: bt_get_in)

lemma ids_at_empty [simp]: "ids_at empty_node p sc = []"
  by (cases p; cases sc) (auto simp: scope_ids_def)

lemma node_ok_or_empty: "node_ok n \<Longrightarrow> node_ok (or_empty (bt_get (node_children n) s))"
  by (auto simp: or_empty_def dest: node_ok_child split: option.splits)

lemma node_ok_insert: "node_ok n \<Longrightarrow> node_ok (node_insert p i sc n)"
proof (induction p i sc n rule: node_insert.induct)
  case (2 s p i sc e r c)
  then show ?case
    using node_ok_or_empty [OF 2(2), of s] by (auto intro: list_all_edits)
qed (auto split: observation_scope.splits)

lemma node_ok_remove: "node_ok n \<Longrightarrow> node_ok (node_remove p i sc n)"
proof (induction p i sc n rule: node_remove.induct)
  case (2 s p i sc e r c)
  show ?case
  proof (cases "bt_get c s")
    case (Some child)
    with 2(2) node_ok_child [OF 2(2), of s child] 2(1) [OF Some] show ?thesis
      by (auto simp: Let_def intro: list_all_edits)
  qed (use 2 in simp)
qed (auto split: observation_scope.splits)

lemma ids_at_insert:
  "set (ids_at (node_insert p i sc n) q sd) =
     (if p = q \<and> sc = sd then insert i (set (ids_at n q sd)) else set (ids_at n q sd))"
proof (induction p i sc n arbitrary: q rule: node_insert.induct)
  case (1 i sc e r c)
  then show ?case by (cases q; cases sc; cases sd) (auto simp: scope_ids_def)
next
  case (2 s p i sc e r c)
  show ?case
  proof (cases q)
    case (Cons t q')
    with 2 show ?thesis
      by (cases "bt_get c s") (auto simp: map_simps or_empty_def)
  qed (cases sd; simp add: scope_ids_def)
qed

lemma ids_at_is_empty: "node_is_empty n \<Longrightarrow> ids_at n p sc = []"
  by (cases n) (auto simp: node_is_empty_def)

lemma ids_at_remove:
  "set (ids_at (node_remove p i sc n) q sd) =
     (if p = q \<and> sc = sd then set (ids_at n q sd) - {i} else set (ids_at n q sd))"
proof (induction p i sc n arbitrary: q rule: node_remove.induct)
  case (1 i sc e r c)
  then show ?case by (cases q; cases sc; cases sd) (auto simp: scope_ids_def)
next
  case (2 s p i sc e r c)
  show ?case
  proof (cases "bt_get c s")
    case None
    then show ?thesis by (cases q; cases sd) (auto simp: scope_ids_def)
  next
    case (Some child)
    let ?child = "node_remove p i sc child"
    have IH: "set (ids_at ?child q' sd) =
        (if p = q' \<and> sc = sd then set (ids_at child q' sd) - {i} else set (ids_at child q' sd))" for q'
      using 2(1) [OF Some] .
    show ?thesis
    proof (cases q)
      case Nil
      then show ?thesis using Some by (cases sd) (auto simp: scope_ids_def Let_def)
    next
      case (Cons t q')
      show ?thesis
      proof (cases "t = s \<and> node_is_empty ?child")
        case True
        then have "ids_at ?child q' sd = []" by (auto intro: ids_at_is_empty)
        with IH [of q'] True Cons Some show ?thesis
          by (auto simp: Let_def map_simps split: if_splits)
      next
        case False
        with IH [of q'] Cons Some show ?thesis
          by (auto simp: Let_def map_simps)
      qed
    qed
  qed
qed

subsection \<open>What the collecting functions return\<close>

lemma set_extend_unique [simp]: "set (extend_unique out xs) = set out \<union> set xs"
  by (induction xs arbitrary: out) auto

lemma distinct_extend_unique [simp]: "distinct out \<Longrightarrow> distinct (extend_unique out xs)"
  by (induction xs arbitrary: out) auto

lemma fold_distinct:
  "distinct out \<Longrightarrow> (\<And>x out. x \<in> set xs \<Longrightarrow> distinct out \<Longrightarrow> distinct (f x out)) \<Longrightarrow> distinct (fold f xs out)"
  by (induction xs arbitrary: out) auto

lemma fold_set_Un:
  "(\<And>x out. x \<in> set xs \<Longrightarrow> set (f x out) = set out \<union> A x) \<Longrightarrow>
     set (fold f xs out) = set out \<union> (\<Union>x\<in>set xs. A x)"
  by (induction xs arbitrary: out) auto

lemma distinct_collect_all: "distinct out \<Longrightarrow> distinct (collect_all n out)"
proof (induction n out rule: collect_all.induct)
  case (1 e r c out)
  then show ?case by (auto intro!: fold_distinct)
qed

lemma distinct_collect_for_path: "distinct out \<Longrightarrow> distinct (collect_for_path n p out)"
  by (induction n p out rule: collect_for_path.induct)
    (auto simp: Let_def intro: distinct_collect_all split: option.splits)

lemma distinct_collect_for_splice: "distinct out \<Longrightarrow> distinct (collect_for_splice n p a d k out)"
  by (induction n p a d k out rule: collect_for_splice.induct)
    (auto simp: Let_def collect_affected_def intro!: fold_distinct
      intro: distinct_collect_all split: option.splits path_segment.splits)

text \<open>Everything stored in a tree.\<close>

definition node_ids :: "node \<Rightarrow> nat set" where
  "node_ids n = {i. \<exists>p sc. i \<in> set (ids_at n p sc)}"

text \<open>The identifiers at the paths and scopes that satisfy a predicate, root and children apart.\<close>

definition ids_where :: "node \<Rightarrow> (path \<Rightarrow> observation_scope \<Rightarrow> bool) \<Rightarrow> nat set" where
  "ids_where n R = {i. \<exists>p sc. i \<in> set (ids_at n p sc) \<and> R p sc}"

lemma ids_whereI: "i \<in> set (ids_at n p sc) \<Longrightarrow> R p sc \<Longrightarrow> i \<in> ids_where n R"
  by (auto simp: ids_where_def)

lemma ids_where_split:
  "ids_where n R =
     (if R [] ScopeExact then set (node_exact n) else {}) \<union>
     (if R [] ScopeRecursive then set (node_recursive n) else {}) \<union>
     {i. \<exists>s m. bt_get (node_children n) s = Some m \<and> i \<in> ids_where m (\<lambda>q. R (s # q))}"
  (is "_ = ?A \<union> ?B \<union> ?C")
proof
  show "ids_where n R \<subseteq> ?A \<union> ?B \<union> ?C"
  proof
    fix i
    assume "i \<in> ids_where n R"
    then obtain p sc where i: "i \<in> set (ids_at n p sc)" "R p sc" by (auto simp: ids_where_def)
    show "i \<in> ?A \<union> ?B \<union> ?C"
    proof (cases p)
      case Nil
      with i show ?thesis by (cases sc) (auto simp: scope_ids_def)
    next
      case (Cons s q)
      with i(1) obtain m where m: "bt_get (node_children n) s = Some m" "i \<in> set (ids_at m q sc)"
        by (cases "bt_get (node_children n) s") auto
      from m(2) i(2) Cons have "i \<in> ids_where m (\<lambda>q. R (s # q))" by (simp add: ids_whereI)
      with m(1) show ?thesis by blast
    qed
  qed
  have "?A \<subseteq> ids_where n R"
    by (auto intro: ids_whereI [of _ n "[]" ScopeExact] simp: scope_ids_def)
  moreover have "?B \<subseteq> ids_where n R"
    by (auto intro: ids_whereI [of _ n "[]" ScopeRecursive] simp: scope_ids_def)
  moreover have "?C \<subseteq> ids_where n R"
  proof
    fix i
    assume "i \<in> ?C"
    then obtain s m q sc where "bt_get (node_children n) s = Some m" "i \<in> set (ids_at m q sc)" "R (s # q) sc"
      by (auto simp: ids_where_def)
    then show "i \<in> ids_where n R" by (intro ids_whereI [of i n "s # q" sc]) auto
  qed
  ultimately show "?A \<union> ?B \<union> ?C \<subseteq> ids_where n R" by blast
qed

lemma node_ids_where: "node_ids n = ids_where n (\<lambda>_ _. True)"
  by (auto simp: node_ids_def ids_where_def)

lemma node_ids_simps:
  assumes "bt_ok c"
  shows "node_ids (Node e r c) = set e \<union> set r \<union> (\<Union>(s, n)\<in>set c. node_ids n)"
  unfolding node_ids_where by (subst ids_where_split) (auto simp: bt_get_iff [OF assms])

lemma set_collect_all: "node_ok n \<Longrightarrow> set (collect_all n out) = set out \<union> node_ids n"
proof (induction n out rule: collect_all.induct)
  case (1 e r c out)
  have "set (fold (\<lambda>(s, n). collect_all n) c out') = set out' \<union> (\<Union>x\<in>set c. node_ids (snd x))" for out'
    by (rule fold_set_Un) (use 1 in \<open>auto simp: list_all_iff\<close>)
  with 1(2) show ?case by (auto simp: node_ids_simps case_prod_beta)
qed

text \<open>
  A replacement or removal at a path reaches the subscriptions of every path below it, and the
  recursive ones of the paths above it.
\<close>

definition path_reaches :: "path \<Rightarrow> path \<Rightarrow> observation_scope \<Rightarrow> bool" where
  "path_reaches change q sc \<longleftrightarrow> starts_with q change \<or> (sc = ScopeRecursive \<and> starts_with change q)"

lemma path_reaches_Cons [simp]:
  "path_reaches [] q sc" "path_reaches (s # p) [] sc \<longleftrightarrow> sc = ScopeRecursive"
  "path_reaches (s # p) (t # q) sc \<longleftrightarrow> s = t \<and> path_reaches p q sc"
  by (auto simp: path_reaches_def)

lemma set_collect_for_path:
  "node_ok n \<Longrightarrow> set (collect_for_path n p out) = set out \<union> ids_where n (path_reaches p)"
proof (induction n p out rule: collect_for_path.induct)
  case (1 n out)
  have "path_reaches [] = (\<lambda>_ _. True)" by (simp add: fun_eq_iff)
  with 1 ids_where_split [of n "\<lambda>_ _. True"] show ?case
    by (auto simp: set_collect_all node_ids_where)
next
  case (2 n s p out)
  show ?case
  proof (cases "bt_get (node_children n) s")
    case None
    then show ?thesis
      by (subst ids_where_split) (auto simp: ids_where_def)
  next
    case (Some m)
    with 2(1) [OF _ Some] node_ok_child [OF 2(2) Some] have
      "set (collect_for_path n (s # p) out) = set out \<union> set (node_recursive n) \<union> ids_where m (path_reaches p)"
      by simp
    with Some show ?thesis
      by (subst ids_where_split) (auto simp: ids_where_def)
  qed
qed

text \<open>A splice reaches the list itself, its recursive ancestors and the affected indices.\<close>

fun splice_reaches :: "path \<Rightarrow> (nat \<Rightarrow> bool) \<Rightarrow> path \<Rightarrow> observation_scope \<Rightarrow> bool" where
  "splice_reaches [] affected [] sc = True"
| "splice_reaches [] affected (s # q) sc = (case s of Index i \<Rightarrow> affected i | _ \<Rightarrow> False)"
| "splice_reaches (s # p) affected [] sc = (sc = ScopeRecursive)"
| "splice_reaches (s # p) affected (t # q) sc = (s = t \<and> splice_reaches p affected q sc)"

lemma set_collect_affected:
  assumes "bt_ok c" "list_all (\<lambda>(s, n). node_ok n) c"
  shows "set (fold (collect_affected a d k) c out) =
     set out \<union> {j. \<exists>i n. bt_get c (Index i) = Some n \<and> splice_affects a d k i \<and> j \<in> node_ids n}"
proof -
  let ?A = "\<lambda>x. {j. \<exists>i n. x = (Index i, n) \<and> splice_affects a d k i \<and> j \<in> node_ids n}"
  have "set (collect_affected a d k x out) = set out \<union> ?A x" if "x \<in> set c" for x out
  proof -
    obtain s n where x: "x = (s, n)" by (cases x)
    with assms(2) that have "node_ok n" by (auto simp: list_all_iff)
    with x show ?thesis by (cases s) (auto simp: collect_affected_def set_collect_all)
  qed
  then have "set (fold (collect_affected a d k) c out) = set out \<union> (\<Union>x\<in>set c. ?A x)"
    by (rule fold_set_Un)
  then show ?thesis by (auto simp: bt_get_iff [OF assms(1)])
qed

lemma set_collect_for_splice:
  "node_ok n \<Longrightarrow>
     set (collect_for_splice n p a d k out) = set out \<union> ids_where n (splice_reaches p (splice_affects a d k))"
proof (induction n p a d k out rule: collect_for_splice.induct)
  case (1 n a d k out)
  have "bt_ok (node_children n)" "list_all (\<lambda>(s, n). node_ok n) (node_children n)"
    using 1 by (cases n; simp)+
  note collected = set_collect_affected [OF this, of a d k]
  have "ids_where n (splice_reaches [] (splice_affects a d k)) = set (node_exact n) \<union> set (node_recursive n) \<union>
      {j. \<exists>i m. bt_get (node_children n) (Index i) = Some m \<and> splice_affects a d k i \<and> j \<in> node_ids m}"
    (is "_ = _ \<union> ?R")
  proof -
    have "{j. \<exists>s m. bt_get (node_children n) s = Some m \<and>
        j \<in> ids_where m (\<lambda>q. splice_reaches [] (splice_affects a d k) (s # q))} = ?R" (is "?L = _")
    proof
      show "?L \<subseteq> ?R"
      proof
        fix j assume "j \<in> ?L"
        then obtain s m where s: "bt_get (node_children n) s = Some m"
            "j \<in> ids_where m (\<lambda>q. splice_reaches [] (splice_affects a d k) (s # q))" by blast
        then show "j \<in> ?R" by (cases s) (auto simp: ids_where_def node_ids_def)
      qed
    next
      show "?R \<subseteq> ?L" by (force simp: ids_where_def node_ids_def)
    qed
    then show ?thesis by (subst ids_where_split) simp
  qed
  with collected show ?case by (auto simp: Let_def)
next
  case (2 n s p a d k out)
  show ?case
  proof (cases "bt_get (node_children n) s")
    case None
    then show ?thesis
      by (subst ids_where_split) (auto simp: ids_where_def)
  next
    case (Some m)
    with 2(1) [OF _ Some] node_ok_child [OF 2(2) Some] have
      "set (collect_for_splice n (s # p) a d k out) =
         set out \<union> set (node_recursive n) \<union> ids_where m (splice_reaches p (splice_affects a d k))"
      by simp
    with Some show ?thesis
      by (subst ids_where_split) (auto simp: ids_where_def)
  qed
qed

end
