(* ===== verification/Observable_Store.thy ===== *)
theory Observable_Store
  imports Observable_Index
begin

text \<open>
  The observable store (\<open>phenix-core/src/observable/store.rs\<close>): registered values, subscriptions and
  the index over their paths, behind one lock, so each operation is one step on the state. A
  handler is a token; a call of a handler is a delivery in the output of the operation, in the
  order of the calls, which the code makes after it has released the lock.
\<close>

type_synonym value_id = string

text \<open>\<open>ValueId::parse\<close>.\<close>

definition parse_value_id :: "string \<Rightarrow> string + value_id" where
  "parse_value_id s =
     (if s = [] then Inl ''observable value id must not be empty''
      else if \<not> list_all (\<lambda>c. is_ascii_alphanumeric c \<or> c \<in> set ''._-/:@'') s
      then Inl ''observable value id contains unsupported characters''
      else Inr s)"

datatype observation_mode = ModeDiff | ModeFull
datatype snapshot_policy = CurrentOnly | CopyOnChange
datatype initial_observation = InitialNone | InitialFull

record value_address =
  addr_value :: value_id
  addr_path :: path

record observation_spec =
  spec_address :: value_address
  spec_scope :: observation_scope
  spec_mode :: observation_mode
  spec_initial :: initial_observation

datatype value_change =
  Replace path phx_value
| Remove path
| Splice path nat nat "phx_value list"

fun change_path :: "value_change \<Rightarrow> path" where
  "change_path (Replace p v) = p"
| "change_path (Remove p) = p"
| "change_path (Splice p s d ins) = p"

record observation_delivery =
  del_commit :: "nat option"
  del_value :: value_id
  del_from :: nat
  del_version :: nat
  del_address :: value_address
  del_observation :: nat
  del_generation :: nat
  del_changes :: "value_change list"
  del_snapshot :: "phx_value option"

datatype observable_error =
  UnknownValue value_id
| DuplicateValue value_id
| InvalidPath value_id path path_fault
| StoreMismatch value_id path path_fault
| StaleReference value_id
| UnsupportedSnapshotPolicy value_id snapshot_policy observation_mode initial_observation
| TransactionConflict value_id path_fault
| SubscriptionCapacity
| StoreClosed

record registered_value =
  rv_owner :: plugin_id
  rv_schema :: phx_type
  rv_version :: nat
  rv_policy :: snapshot_policy
  rv_current :: phx_value

record 'h subscription_entry =
  ent_id :: nat
  ent_spec :: observation_spec
  ent_generation :: nat
  ent_handler :: 'h

record 'h store_state =
  st_values :: "(value_id, registered_value) btree"
  st_subscriptions :: "(nat, 'h subscription_entry) btree"
  st_indexes :: "(value_id, node) btree"
  st_next_commit :: nat
  st_next_observation :: nat
  st_next_generation :: nat
  st_closed :: bool

definition store_default :: "'h store_state" where
  "store_default =
     \<lparr>st_values = [], st_subscriptions = [], st_indexes = [], st_next_commit = 1,
      st_next_observation = 1, st_next_generation = 1, st_closed = False\<rparr>"

definition ensure_open :: "'h store_state \<Rightarrow> observable_error + unit" where
  "ensure_open s = (if st_closed s then Inl StoreClosed else Inr ())"

definition validate_path :: "value_id \<Rightarrow> phx_type \<Rightarrow> path \<Rightarrow> observable_error + phx_type" where
  "validate_path v t p = map_err (InvalidPath v p) (schema_at_path t p)"

text \<open>\<open>ObservationDelivery::full_value\<close>.\<close>

definition full_value :: "observation_delivery \<Rightarrow> observable_error + phx_value option" where
  "full_value d =
     (case del_snapshot d of
        None \<Rightarrow> Inr None
      | Some snapshot \<Rightarrow>
          map_err (TransactionConflict (del_value d))
            (rbind (value_at snapshot (addr_path (del_address d))) (\<lambda>v. Inr (Some v))))"

subsection \<open>Values\<close>

record registration =
  reg_id :: value_id
  reg_owner :: plugin_id
  reg_schema :: phx_type
  reg_policy :: snapshot_policy
  reg_initial :: phx_value

definition obs_register :: "registration \<Rightarrow> 'h store_state \<Rightarrow> (observable_error + unit) \<times> 'h store_state" where
  "obs_register r s =
     (case rbind (map_err (\<lambda>e. StoreMismatch (reg_id r) [] (NotConforming e)) (parse (reg_schema r) (reg_initial r)))
             (\<lambda>_. rbind (ensure_open s)
             (\<lambda>_. if bt_has (st_values s) (reg_id r) then Inl (DuplicateValue (reg_id r)) else Inr ())) of
        Inl e \<Rightarrow> (Inl e, s)
      | Inr _ \<Rightarrow>
          (Inr (), s\<lparr>st_values := bt_insert (reg_id r)
             \<lparr>rv_owner = reg_owner r, rv_schema = reg_schema r, rv_version = 0,
              rv_policy = reg_policy r, rv_current = reg_initial r\<rparr> (st_values s)\<rparr>))"

definition obs_unregister :: "value_id \<Rightarrow> 'h store_state \<Rightarrow> (observable_error + unit) \<times> 'h store_state" where
  "obs_unregister v s =
     (case ensure_open s of
        Inl e \<Rightarrow> (Inl e, s)
      | Inr _ \<Rightarrow>
          (case bt_get (st_values s) v of
             None \<Rightarrow> (Inl (UnknownValue v), s)
           | Some _ \<Rightarrow>
               (let s = s\<lparr>st_values := bt_remove v (st_values s)\<rparr>
                in case bt_get (st_indexes s) v of
                     None \<Rightarrow> (Inr (), s)
                   | Some index \<Rightarrow>
                       (Inr (), s\<lparr>st_indexes := bt_remove v (st_indexes s),
                          st_subscriptions := fold bt_remove (collect_all index []) (st_subscriptions s)\<rparr>))))"

text \<open>The read operations; the metadata is the registered value without its contents.\<close>

record value_metadata =
  md_id :: value_id
  md_owner :: plugin_id
  md_schema :: phx_type
  md_version :: nat
  md_policy :: snapshot_policy

definition metadata_of :: "value_id \<Rightarrow> registered_value \<Rightarrow> value_metadata" where
  "metadata_of v rv =
     \<lparr>md_id = v, md_owner = rv_owner rv, md_schema = rv_schema rv, md_version = rv_version rv,
      md_policy = rv_policy rv\<rparr>"

definition registered :: "'h store_state \<Rightarrow> value_id \<Rightarrow> observable_error + registered_value" where
  "registered s v = ok_or (UnknownValue v) (bt_get (st_values s) v)"

definition obs_metadata :: "value_id \<Rightarrow> 'h store_state \<Rightarrow> observable_error + value_metadata" where
  "obs_metadata v s =
     rbind (ensure_open s) (\<lambda>_. rbind (registered s v) (\<lambda>rv. Inr (metadata_of v rv)))"

definition obs_metadata_all :: "'h store_state \<Rightarrow> observable_error + value_metadata list" where
  "obs_metadata_all s = rbind (ensure_open s) (\<lambda>_. Inr (map (\<lambda>(v, rv). metadata_of v rv) (st_values s)))"

definition obs_schema :: "value_address \<Rightarrow> 'h store_state \<Rightarrow> observable_error + phx_type" where
  "obs_schema a s =
     rbind (ensure_open s) (\<lambda>_. rbind (registered s (addr_value a))
       (\<lambda>rv. validate_path (addr_value a) (rv_schema rv) (addr_path a)))"

definition obs_get :: "value_address \<Rightarrow> 'h store_state \<Rightarrow> observable_error + nat \<times> phx_value" where
  "obs_get a s =
     rbind (ensure_open s) (\<lambda>_. rbind (registered s (addr_value a))
       (\<lambda>rv. rbind (validate_path (addr_value a) (rv_schema rv) (addr_path a))
       (\<lambda>_. rbind (map_err (TransactionConflict (addr_value a)) (value_at (rv_current rv) (addr_path a)))
       (\<lambda>v. Inr (rv_version rv, v)))))"

subsection \<open>Subscriptions\<close>

definition check_subscription :: "observation_spec \<Rightarrow> 'h store_state \<Rightarrow> observable_error + registered_value" where
  "check_subscription spec s =
     (let a = spec_address spec
      in rbind (ensure_open s) (\<lambda>_. rbind (registered s (addr_value a))
       (\<lambda>rv. rbind (validate_path (addr_value a) (rv_schema rv) (addr_path a))
       (\<lambda>_. if rv_policy rv = CurrentOnly \<and> (spec_mode spec = ModeFull \<or> spec_initial spec = InitialFull)
            then Inl (UnsupportedSnapshotPolicy (addr_value a) (rv_policy rv) (spec_mode spec) (spec_initial spec))
            else Inr rv))))"

text \<open>The result carries the identifier and the generation; the output is the initial delivery.\<close>

definition obs_subscribe ::
  "observation_spec \<Rightarrow> 'h \<Rightarrow> 'h store_state \<Rightarrow>
     (observable_error + nat \<times> nat) \<times> ('h \<times> observation_delivery) list \<times> 'h store_state" where
  "obs_subscribe spec handler s =
     (case check_subscription spec s of
        Inl e \<Rightarrow> (Inl e, [], s)
      | Inr rv \<Rightarrow>
          (let a = spec_address spec;
               i = st_next_observation s;
               generation = st_next_generation s;
               initial =
                 (if spec_initial spec = InitialFull
                  then [(handler, \<lparr>del_commit = None, del_value = addr_value a, del_from = rv_version rv,
                          del_version = rv_version rv, del_address = a, del_observation = i,
                          del_generation = generation, del_changes = [], del_snapshot = Some (rv_current rv)\<rparr>)]
                  else []);
               index = node_insert (addr_path a) i (spec_scope spec) (or_empty (bt_get (st_indexes s) (addr_value a)));
               entry = \<lparr>ent_id = i, ent_spec = spec, ent_generation = generation, ent_handler = handler\<rparr>
           in (Inr (i, generation), initial,
               s\<lparr>st_next_observation := sat_succ64 i, st_next_generation := sat_succ64 generation,
                 st_indexes := bt_insert (addr_value a) index (st_indexes s),
                 st_subscriptions := bt_insert i entry (st_subscriptions s)\<rparr>)))"

definition obs_unsubscribe :: "nat \<Rightarrow> nat \<Rightarrow> 'h store_state \<Rightarrow> (observable_error + bool) \<times> 'h store_state" where
  "obs_unsubscribe i generation s =
     (case ensure_open s of
        Inl e \<Rightarrow> (Inl e, s)
      | Inr _ \<Rightarrow>
          (case bt_get (st_subscriptions s) i of
             None \<Rightarrow> (Inr False, s)
           | Some entry \<Rightarrow>
               if ent_generation entry \<noteq> generation then (Inr False, s)
               else
                 (let s = s\<lparr>st_subscriptions := bt_remove i (st_subscriptions s)\<rparr>;
                      v = addr_value (spec_address (ent_spec entry))
                  in case bt_get (st_indexes s) v of
                       None \<Rightarrow> (Inr True, s)
                     | Some index \<Rightarrow>
                         (let index = node_remove (addr_path (spec_address (ent_spec entry))) i
                                        (spec_scope (ent_spec entry)) index
                          in (Inr True, s\<lparr>st_indexes :=
                                if node_is_empty index then bt_remove v (st_indexes s)
                                else bt_insert v index (st_indexes s)\<rparr>)))))"

definition obs_close :: "'h store_state \<Rightarrow> 'h store_state" where
  "obs_close s = s\<lparr>st_closed := True, st_subscriptions := [], st_indexes := []\<rparr>"

end
