(* ===== verification/Observable_Transaction.thy ===== *)
theory Observable_Transaction
  imports Observable_Store
begin

text \<open>
  Transactions of the observable store (\<open>observable/transaction_types.rs\<close>,
  \<open>transaction_mutate.rs\<close>, \<open>transaction_finish.rs\<close>, \<open>transaction_canonical.rs\<close> and
  \<open>ObservableStore::transaction\<close>). The closure the caller passes is a program: it returns, or it
  calls a mutation and continues with the result. An operation that hits an \<open>expect\<close> is \<open>None\<close>.
\<close>

datatype undo_record =
  UndoReplace value_id path "phx_value option"
| UndoSplice value_id path nat nat "phx_value list"

datatype touched_kind = TouchedReplace | TouchedRemove | TouchedSplice nat nat "phx_value list"

record touched_mutation =
  tm_value :: value_id
  tm_path :: path
  tm_kind :: touched_kind

record 'h transaction =
  tx_state :: "'h store_state"
  tx_declared :: "value_id list"
  tx_undo :: "undo_record list"
  tx_touched :: "touched_mutation list"

subsection \<open>Mutations\<close>

definition ensure_declared :: "'h transaction \<Rightarrow> value_id \<Rightarrow> observable_error + unit" where
  "ensure_declared tx v =
     (if v \<in> set (tx_declared tx) then Inr () else Inl (TransactionConflict v NotDeclared))"

definition set_current :: "value_id \<Rightarrow> registered_value \<Rightarrow> phx_value \<Rightarrow> 'h store_state \<Rightarrow> 'h store_state" where
  "set_current v rv x s = s\<lparr>st_values := bt_insert v (rv\<lparr>rv_current := x\<rparr>) (st_values s)\<rparr>"

text \<open>The write through the borrowed value and the two records pushed after it.\<close>

definition mutated ::
  "value_id \<Rightarrow> registered_value \<Rightarrow> phx_value \<Rightarrow> undo_record \<Rightarrow> path \<Rightarrow> touched_kind \<Rightarrow>
     'h transaction \<Rightarrow> 'h transaction" where
  "mutated v rv x undo p kind tx =
     tx\<lparr>tx_state := set_current v rv x (tx_state tx), tx_undo := tx_undo tx @ [undo],
        tx_touched := tx_touched tx @ [\<lparr>tm_value = v, tm_path = p, tm_kind = kind\<rparr>]\<rparr>"

text \<open>A mutation of a declared value; a declared value that is not registered is the panic.\<close>

definition with_declared ::
  "value_id \<Rightarrow> 'h transaction \<Rightarrow> (registered_value \<Rightarrow> (observable_error + unit) \<times> 'h transaction) \<Rightarrow>
     ((observable_error + unit) \<times> 'h transaction) option" where
  "with_declared v tx f =
     (case ensure_declared tx v of
        Inl e \<Rightarrow> Some (Inl e, tx)
      | Inr _ \<Rightarrow> map_option f (bt_get (st_values (tx_state tx)) v))"

definition check_replace :: "value_id \<Rightarrow> path \<Rightarrow> phx_value \<Rightarrow> registered_value \<Rightarrow>
    observable_error + phx_value option \<times> phx_value" where
  "check_replace v p n rv =
     rbind (validate_path v (rv_schema rv) p)
       (\<lambda>t. rbind (map_err (\<lambda>e. StoreMismatch v p (NotConforming e)) (parse t n))
       (\<lambda>_. map_err (TransactionConflict v) (replace_at (rv_current rv) p n)))"

definition tx_replace :: "value_id \<Rightarrow> path \<Rightarrow> phx_value \<Rightarrow> 'h transaction \<Rightarrow>
    ((observable_error + unit) \<times> 'h transaction) option" where
  "tx_replace v p n tx =
     with_declared v tx (\<lambda>rv.
       case check_replace v p n rv of
         Inl e \<Rightarrow> (Inl e, tx)
       | Inr (old, x) \<Rightarrow> (Inr (), mutated v rv x (UndoReplace v p old) p TouchedReplace tx))"

definition splice_item :: "value_id \<Rightarrow> path \<Rightarrow> phx_type \<Rightarrow> observable_error + phx_type \<times> nat option" where
  "splice_item v p t =
     (case t of
        TList item \<Rightarrow> Inr (item, None)
      | TArray item len \<Rightarrow> Inr (item, Some len)
      | _ \<Rightarrow> Inl (InvalidPath v p SpliceTarget))"

text \<open>
  \<open>u32\<close> indices convert to the 64-bit \<open>usize\<close> without loss; \<open>checked_add\<close> is on \<open>usize\<close>.
\<close>

definition check_range :: "value_id \<Rightarrow> nat \<Rightarrow> nat \<Rightarrow> nat \<Rightarrow> observable_error + nat" where
  "check_range v start deleted len =
     (if start + deleted > u64_max then Inl (TransactionConflict v SpliceOverflow)
      else if start > len \<or> start + deleted > len
      then Inl (TransactionConflict v (SpliceRange start (start + deleted) len))
      else Inr (start + deleted))"

definition check_length :: "value_id \<Rightarrow> path \<Rightarrow> nat option \<Rightarrow> nat \<Rightarrow> observable_error + unit" where
  "check_length v p fixed final =
     (case fixed of
        None \<Rightarrow> Inr ()
      | Some len \<Rightarrow> if final \<noteq> len then Inl (StoreMismatch v p (FixedLength len final)) else Inr ())"

definition splice_items ::
  "value_id \<Rightarrow> path \<Rightarrow> nat \<Rightarrow> nat \<Rightarrow> phx_value list \<Rightarrow> nat option \<Rightarrow> phx_value \<Rightarrow>
     observable_error + phx_value list \<times> phx_value list" where
  "splice_items v p start deleted ins fixed list =
     (case list of
        VList items \<Rightarrow>
          rbind (check_range v start deleted (length items))
            (\<lambda>stop. rbind (check_length v p fixed (length items - deleted + length ins))
            (\<lambda>_. Inr (splice_list items start stop ins)))
      | _ \<Rightarrow> Inl (TransactionConflict v NotAListValue))"

definition check_splice :: "value_id \<Rightarrow> path \<Rightarrow> nat \<Rightarrow> nat \<Rightarrow> phx_value list \<Rightarrow> registered_value \<Rightarrow>
    observable_error + phx_value list \<times> phx_value" where
  "check_splice v p start deleted ins rv =
     rbind (validate_path v (rv_schema rv) p)
       (\<lambda>t. rbind (splice_item v p t)
       (\<lambda>(item, fixed). rbind (try_each (\<lambda>x. map_err (\<lambda>e. StoreMismatch v p (NotConforming e)) (parse item x)) ins)
       (\<lambda>_. rbind (map_err (TransactionConflict v) (value_at_mut (rv_current rv) p))
       (\<lambda>list. rbind (splice_items v p start deleted ins fixed list)
       (\<lambda>(removed, items). Inr (removed, put_at (rv_current rv) p (VList items)))))))"

definition tx_splice :: "value_id \<Rightarrow> path \<Rightarrow> nat \<Rightarrow> nat \<Rightarrow> phx_value list \<Rightarrow> 'h transaction \<Rightarrow>
    ((observable_error + unit) \<times> 'h transaction) option" where
  "tx_splice v p start deleted ins tx =
     with_declared v tx (\<lambda>rv.
       case check_splice v p start deleted ins rv of
         Inl e \<Rightarrow> (Inl e, tx)
       | Inr (removed, x) \<Rightarrow>
           (Inr (), mutated v rv x (UndoSplice v p start (length ins) removed) p
              (TouchedSplice start deleted ins) tx))"

definition check_remove :: "value_id \<Rightarrow> path \<Rightarrow> registered_value \<Rightarrow>
    observable_error + phx_value option \<times> phx_value" where
  "check_remove v p rv =
     rbind (validate_path v (rv_schema rv) p)
       (\<lambda>_. case last p of
           MapKey _ \<Rightarrow> map_err (TransactionConflict v) (remove_at (rv_current rv) p)
         | OptionPayload \<Rightarrow> map_err (TransactionConflict v) (remove_at (rv_current rv) p)
         | _ \<Rightarrow> Inl (InvalidPath v p FixedMember))"

definition tx_remove_member :: "value_id \<Rightarrow> path \<Rightarrow> 'h transaction \<Rightarrow>
    ((observable_error + unit) \<times> 'h transaction) option" where
  "tx_remove_member v p tx =
     with_declared v tx (\<lambda>rv.
       case check_remove v p rv of
         Inl e \<Rightarrow> (Inl e, tx)
       | Inr (old, x) \<Rightarrow> (Inr (), mutated v rv x (UndoReplace v p old) p TouchedRemove tx))"

definition tx_remove :: "value_id \<Rightarrow> path \<Rightarrow> 'h transaction \<Rightarrow>
    ((observable_error + unit) \<times> 'h transaction) option" where
  "tx_remove v p tx =
     (case ensure_declared tx v of
        Inl e \<Rightarrow> Some (Inl e, tx)
      | Inr _ \<Rightarrow>
          if p = [] then Some (Inl (InvalidPath v p RootRemoval), tx)
          else
            (case last p of
               Index i \<Rightarrow> tx_splice v (butlast p) i 1 [] tx
             | _ \<Rightarrow> tx_remove_member v p tx))"

subsection \<open>Rollback\<close>

definition undo_value :: "undo_record \<Rightarrow> value_id" where
  "undo_value u = (case u of UndoReplace v p old \<Rightarrow> v | UndoSplice v p i k removed \<Rightarrow> v)"

definition undo_current :: "undo_record \<Rightarrow> phx_value \<Rightarrow> path_fault + unit \<times> phx_value" where
  "undo_current u x =
     (case u of
        UndoReplace v p old \<Rightarrow> restore_optional x p old
      | UndoSplice v p start inserted removed \<Rightarrow>
          rbind (value_at_mut x p)
            (\<lambda>list. case list of
               VList items \<Rightarrow>
                 Inr ((), put_at x p (VList (snd (splice_list items start
                   (min (start + inserted) (length items)) removed))))
             | _ \<Rightarrow> Inl RollbackSplice))"

definition apply_undo :: "undo_record \<Rightarrow> 'h store_state \<Rightarrow> (path_fault + unit) \<times> 'h store_state" where
  "apply_undo u s =
     (case bt_get (st_values s) (undo_value u) of
        None \<Rightarrow> (Inl (RollbackValue (undo_value u)), s)
      | Some rv \<Rightarrow>
          (case undo_current u (rv_current rv) of
             Inl e \<Rightarrow> (Inl e, s)
           | Inr (_, x) \<Rightarrow> (Inr (), set_current (undo_value u) rv x s)))"

text \<open>The loop pops the undo records and ignores their errors.\<close>

definition rollback :: "'h transaction \<Rightarrow> 'h transaction" where
  "rollback tx =
     tx\<lparr>tx_state := fold (\<lambda>u s. snd (apply_undo u s)) (rev (tx_undo tx)) (tx_state tx),
        tx_undo := [], tx_touched := []\<rparr>"

subsection \<open>The closure of a transaction\<close>

datatype mutation_call =
  CallReplace value_id path phx_value
| CallRemove value_id path
| CallSplice value_id path nat nat "phx_value list"

definition apply_call :: "mutation_call \<Rightarrow> 'h transaction \<Rightarrow> ((observable_error + unit) \<times> 'h transaction) option" where
  "apply_call c tx =
     (case c of
        CallReplace v p n \<Rightarrow> tx_replace v p n tx
      | CallRemove v p \<Rightarrow> tx_remove v p tx
      | CallSplice v p start deleted ins \<Rightarrow> tx_splice v p start deleted ins tx)"

datatype 'r program =
  Return "observable_error + 'r"
| Call mutation_call "observable_error + unit \<Rightarrow> 'r program"

primrec run_program :: "'r program \<Rightarrow> 'h transaction \<Rightarrow> ((observable_error + 'r) \<times> 'h transaction) option" where
  "run_program (Return r) = (\<lambda>tx. Some (r, tx))"
| "run_program (Call c k) =
     (\<lambda>tx. case apply_call c tx of None \<Rightarrow> None | Some (r, tx') \<Rightarrow> run_program (k r) tx')"

subsection \<open>Mutations keep the values well formed and record their inverse\<close>

definition value_wf :: "registered_value \<Rightarrow> bool" where
  "value_wf rv \<longleftrightarrow>
     type_ok (rv_schema rv) \<and> value_ok (rv_current rv) \<and> parse (rv_schema rv) (rv_current rv) = Inr ()"

definition values_ok :: "(value_id, registered_value) btree \<Rightarrow> bool" where
  "values_ok m \<longleftrightarrow> bt_ok m \<and> (\<forall>v rv. bt_get m v = Some rv \<longrightarrow> value_wf rv)"

definition call_ok :: "mutation_call \<Rightarrow> bool" where
  "call_ok c =
     (case c of CallReplace v p n \<Rightarrow> value_ok n | CallRemove v p \<Rightarrow> True
      | CallSplice v p i d ins \<Rightarrow> list_all value_ok ins)"

primrec program_ok :: "'r program \<Rightarrow> bool" where
  "program_ok (Return r) = True"
| "program_ok (Call c k) = (call_ok c \<and> (\<forall>r. program_ok (k r)))"

lemma values_okD: "values_ok m \<Longrightarrow> bt_get m v = Some rv \<Longrightarrow> value_wf rv"
  by (simp add: values_ok_def)

lemma values_ok_insert: "values_ok m \<Longrightarrow> value_wf rv \<Longrightarrow> values_ok (bt_insert v rv m)"
  by (auto simp: values_ok_def map_simps split: if_splits)

text \<open>An accepted edit: the value stays well formed and the undo record gives the old one back.\<close>

definition good_edit :: "value_id \<Rightarrow> registered_value \<Rightarrow> phx_value \<Rightarrow> undo_record \<Rightarrow> bool" where
  "good_edit v rv x u \<longleftrightarrow>
     value_wf (rv\<lparr>rv_current := x\<rparr>) \<and> undo_value u = v \<and> undo_current u x = Inr ((), rv_current rv)"

lemma check_replace_good:
  assumes "check_replace v p n rv = Inr (old, x)" "value_wf rv" "value_ok n"
  shows "good_edit v rv x (UndoReplace v p old)"
proof -
  from assms(1) obtain t where t: "schema_at_path (rv_schema rv) p = Inr t" "parse t n = Inr ()"
      "replace_at (rv_current rv) p n = Inr (old, x)"
    by (auto simp: check_replace_def validate_path_def rbind_eq_Inr)
  with assms(2,3) replace_at_undo [OF t(3)] replace_at_conforms [OF t(3,1) _ _ t(2)] show ?thesis
    by (simp add: good_edit_def value_wf_def undo_value_def undo_current_def)
qed

lemma check_remove_good:
  assumes "check_remove v p rv = Inr (old, x)" "value_wf rv"
  shows "good_edit v rv x (UndoReplace v p old)"
proof -
  from assms(1) obtain t where t: "schema_at_path (rv_schema rv) p = Inr t"
      "remove_at (rv_current rv) p = Inr (old, x)"
    by (auto simp: check_remove_def validate_path_def rbind_eq_Inr split: path_segment.splits)
  with assms(2) remove_at_undo [OF t(2)] remove_at_conforms [OF t(2,1)] show ?thesis
    by (simp add: good_edit_def value_wf_def undo_value_def undo_current_def)
qed

lemma check_splice_ok:
  assumes "check_splice v p i d ins rv = Inr (removed, x)"
  obtains t item fixed items where "schema_at_path (rv_schema rv) p = Inr t"
    "splice_item v p t = Inr (item, fixed)" "\<forall>y\<in>set ins. parse item y = Inr ()"
    "value_at_optional (rv_current rv) p = Some (VList items)" "i + d \<le> length items"
    "\<forall>n. fixed = Some n \<longrightarrow> length items - d + length ins = n"
    "removed = fst (splice_list items i (i + d) ins)"
    "x = put_at (rv_current rv) p (VList (snd (splice_list items i (i + d) ins)))"
proof -
  from assms obtain t item fixed list items' where t: "schema_at_path (rv_schema rv) p = Inr t"
      "splice_item v p t = Inr (item, fixed)" "\<forall>y\<in>set ins. parse item y = Inr ()"
      "value_at_optional (rv_current rv) p = Some list"
      "splice_items v p i d ins fixed list = Inr (removed, items')" "x = put_at (rv_current rv) p (VList items')"
    by (auto simp: check_splice_def rbind_eq_Inr validate_path_def value_at_mut_ok try_each_ok)
  from t(5) obtain items stop where i: "list = VList items"
      "check_range v i d (length items) = Inr stop"
      "check_length v p fixed (length items - d + length ins) = Inr ()"
      "splice_list items i stop ins = (removed, items')"
    by (cases list) (auto simp: splice_items_def rbind_eq_Inr)
  from i(2,3) have "stop = i + d" "i + d \<le> length items"
      "\<forall>n. fixed = Some n \<longrightarrow> length items - d + length ins = n"
    by (auto simp: check_range_def check_length_def split: if_splits option.splits)
  with t i show ?thesis by (intro that [of t item fixed items]) auto
qed

lemma splice_item_parse:
  assumes "splice_item v p t = Inr (item, fixed)" "parse t (VList items) = Inr ()"
    and "\<forall>y\<in>set ins. parse item y = Inr ()" "i + d \<le> length items"
    and "\<forall>n. fixed = Some n \<longrightarrow> length items - d + length ins = n"
  shows "parse t (VList (snd (splice_list items i (i + d) ins))) = Inr ()"
proof -
  have len: "length (snd (splice_list items i (i + d) ins)) = length items - d + length ins"
    using assms(4) by (simp add: splice_list_def)
  have "set (snd (splice_list items i (i + d) ins)) \<subseteq> set items \<union> set ins"
    using splice_list_parts [of items i "i + d" ins] by (metis prod.collapse)
  with assms len show ?thesis
    by (auto simp: splice_item_def try_each_ok split: phx_type.splits if_splits)
qed

lemma check_splice_good:
  assumes "check_splice v p i d ins rv = Inr (removed, x)" "value_wf rv" "list_all value_ok ins"
  shows "good_edit v rv x (UndoSplice v p i (length ins) removed)"
proof -
  from assms(1) obtain t item fixed items where t: "schema_at_path (rv_schema rv) p = Inr t"
    "splice_item v p t = Inr (item, fixed)" "\<forall>y\<in>set ins. parse item y = Inr ()"
    "value_at_optional (rv_current rv) p = Some (VList items)" "i + d \<le> length items"
    "\<forall>n. fixed = Some n \<longrightarrow> length items - d + length ins = n"
    "removed = fst (splice_list items i (i + d) ins)"
    "x = put_at (rv_current rv) p (VList (snd (splice_list items i (i + d) ins)))"
    by (rule check_splice_ok)
  let ?ys = "snd (splice_list items i (i + d) ins)"
  from assms(2) have wf: "type_ok (rv_schema rv)" "value_ok (rv_current rv)"
      "parse (rv_schema rv) (rv_current rv) = Inr ()"
    by (auto simp: value_wf_def)
  have sub: "set ?ys \<subseteq> set items \<union> set ins"
    using splice_list_parts [of items i "i + d" ins] by (metis prod.collapse)
  have "value_ok (VList items)"
    using put_at_facts [OF t(4) wf(2), of "VList items"] put_at_facts [OF t(4) wf(2), of VUnit] by simp
  with sub assms(3) have ok: "value_ok (VList ?ys)" by (auto simp: list_all_iff)
  note put = put_at_facts [OF t(4) wf(2) ok] and con = put_at_conforms [OF t(4,1) wf(1,3)]
  have "parse t (VList ?ys) = Inr ()"
    using con splice_item_parse [OF t(2) _ t(3,5,6)] by blast
  moreover have "snd (splice_list ?ys i (min (i + length ins) (length ?ys)) removed) = items"
    using splice_list_undo [of items i "i + d" ins removed ?ys] t(5,7) by simp
  ultimately show ?thesis
    using put con wf t(8) by (simp add: good_edit_def value_wf_def undo_value_def undo_current_def value_at_mut_ok rbind_eq_Inr del: parse.simps)
qed

text \<open>
  What holds of a transaction on the store \<open>s0\<close> at every moment: undoing what is recorded gives
  \<open>s0\<close> back, and only the contents of values differ from it.
\<close>

definition undone :: "'h store_state \<Rightarrow> undo_record list \<Rightarrow> 'h store_state" where
  "undone s us = fold (\<lambda>u s. snd (apply_undo u s)) (rev us) s"

definition static :: "registered_value \<Rightarrow> registered_value" where
  "static rv = rv\<lparr>rv_current := VUnit\<rparr>"

definition same_static :: "'h store_state \<Rightarrow> 'h store_state \<Rightarrow> bool" where
  "same_static s t \<longleftrightarrow>
     s\<lparr>st_values := []\<rparr> = t\<lparr>st_values := []\<rparr> \<and>
     (\<forall>v. map_option static (bt_get (st_values s) v) = map_option static (bt_get (st_values t) v))"

definition tx_wf :: "'h store_state \<Rightarrow> 'h transaction \<Rightarrow> bool" where
  "tx_wf s0 tx \<longleftrightarrow>
     values_ok (st_values (tx_state tx)) \<and> undone (tx_state tx) (tx_undo tx) = s0 \<and>
     same_static (tx_state tx) s0 \<and> (\<forall>v\<in>set (tx_declared tx). bt_has (st_values s0) v) \<and>
     tm_value ` set (tx_touched tx) \<subseteq> set (tx_declared tx) \<and>
     (\<forall>v. v \<notin> set (tx_declared tx) \<longrightarrow> bt_get (st_values (tx_state tx)) v = bt_get (st_values s0) v)"

lemma same_static_has: "same_static s t \<Longrightarrow> bt_has (st_values s) v = bt_has (st_values t) v"
proof -
  assume "same_static s t"
  then have "map_option static (bt_get (st_values s) v) = map_option static (bt_get (st_values t) v)"
    by (simp add: same_static_def)
  from arg_cong [OF this, of "\<lambda>x. x = None"] show ?thesis by (simp add: bt_has_def)
qed

lemma same_static_set:
  assumes "same_static s t" "bt_get (st_values s) v = Some rv"
  shows "same_static (set_current v rv x s) t"
proof -
  have "map_option static (bt_get (st_values (set_current v rv x s)) w) = map_option static (bt_get (st_values s) w)" for w
    using assms(2) by (simp add: set_current_def map_simps static_def)
  moreover have "(set_current v rv x s)\<lparr>st_values := []\<rparr> = s\<lparr>st_values := []\<rparr>"
    by (simp add: set_current_def)
  ultimately show ?thesis
    using assms(1) by (simp add: same_static_def)
qed

lemma undo_good_edit:
  assumes "bt_ok (st_values s)" "bt_get (st_values s) v = Some rv" "good_edit v rv x u"
  shows "apply_undo u (set_current v rv x s) = (Inr (), s)"
  using assms by (simp add: apply_undo_def set_current_def good_edit_def map_simps bt.ins_ins_old)

lemma tx_wf_mutated:
  assumes "tx_wf s0 tx" "v \<in> set (tx_declared tx)" "bt_get (st_values (tx_state tx)) v = Some rv" "good_edit v rv x u"
  shows "tx_wf s0 (mutated v rv x u p kind tx)"
proof -
  from assms(1) have ok: "values_ok (st_values (tx_state tx))" "same_static (tx_state tx) s0"
    by (auto simp: tx_wf_def)
  have "\<forall>w. w \<notin> set (tx_declared tx) \<longrightarrow>
      bt_get (st_values (set_current v rv x (tx_state tx))) w = bt_get (st_values s0) w"
    using assms(1,2) by (auto simp: set_current_def map_simps tx_wf_def)
  moreover have "values_ok (st_values (set_current v rv x (tx_state tx)))"
    using ok(1) assms(4) by (simp add: set_current_def good_edit_def values_ok_insert)
  moreover have "apply_undo u (set_current v rv x (tx_state tx)) = (Inr (), tx_state tx)"
    using ok(1) assms(3,4) by (intro undo_good_edit) (simp_all add: values_ok_def)
  ultimately show ?thesis
    using assms(1,2) same_static_set [OF ok(2) assms(3)]
    by (simp add: tx_wf_def mutated_def undone_def)
qed

lemma declared_mutated [simp]: "tx_declared (mutated v rv x u p kind tx) = tx_declared tx"
  by (simp add: mutated_def)

text \<open>A call either fails and changes nothing or makes one good edit.\<close>

lemma with_declared_cases:
  assumes "with_declared v tx f = Some (r, tx')"
    and "\<And>rv r tx'. v \<in> set (tx_declared tx) \<Longrightarrow> bt_get (st_values (tx_state tx)) v = Some rv \<Longrightarrow>
           f rv = (r, tx') \<Longrightarrow> P r tx'"
    and "\<And>e. P (Inl e) tx"
  shows "P r tx'"
proof (cases "ensure_declared tx v")
  case (Inl e)
  with assms(1) have "r = Inl e" "tx' = tx" by (simp_all add: with_declared_def)
  with assms(3) show ?thesis by simp
next
  case (Inr u)
  then have "v \<in> set (tx_declared tx)" by (auto simp: ensure_declared_def split: if_splits)
  with Inr assms(1,2) show ?thesis by (auto simp: with_declared_def)
qed

definition call_outcome :: "'h transaction \<Rightarrow> observable_error + unit \<Rightarrow> 'h transaction \<Rightarrow> bool" where
  "call_outcome tx r tx' \<longleftrightarrow>
     (tx' = tx \<and> \<not> is_ok r) \<or>
     (\<exists>v rv x u p kind. r = Inr () \<and> v \<in> set (tx_declared tx) \<and> bt_get (st_values (tx_state tx)) v = Some rv \<and> good_edit v rv x u \<and>
        tx' = mutated v rv x u p kind tx)"

lemma call_outcome_same [simp]: "call_outcome tx (Inl e) tx"
  by (simp add: call_outcome_def)

lemma call_outcome_mutated:
  "v \<in> set (tx_declared tx) \<Longrightarrow> bt_get (st_values (tx_state tx)) v = Some rv \<Longrightarrow> good_edit v rv x u \<Longrightarrow>
     call_outcome tx (Inr ()) (mutated v rv x u p kind tx)"
  unfolding call_outcome_def by blast

lemma tx_splice_outcome:
  assumes "tx_splice v p i d ins tx = Some (r, tx')" "values_ok (st_values (tx_state tx))" "list_all value_ok ins"
  shows "call_outcome tx r tx'"
  using assms(1) unfolding tx_splice_def
  by (rule with_declared_cases) (use assms(2,3) in \<open>auto intro!: call_outcome_mutated check_splice_good
      dest: values_okD split: sum.splits\<close>)

lemma apply_call_outcome:
  assumes "apply_call c tx = Some (r, tx')" "values_ok (st_values (tx_state tx))" "call_ok c"
  shows "call_outcome tx r tx'"
proof (cases c)
  case (CallReplace v p n)
  with assms(1) have "tx_replace v p n tx = Some (r, tx')" by (simp add: apply_call_def)
  then show ?thesis unfolding tx_replace_def
    by (rule with_declared_cases) (use assms(2,3) CallReplace in \<open>auto simp: call_ok_def
        intro!: call_outcome_mutated check_replace_good dest: values_okD split: sum.splits\<close>)
next
  case (CallSplice v p i d ins)
  with assms show ?thesis by (auto simp: apply_call_def call_ok_def intro: tx_splice_outcome)
next
  case (CallRemove v p)
  have "call_outcome tx r tx'" if "tx_remove_member v p tx = Some (r, tx')"
    using that unfolding tx_remove_member_def
    by (rule with_declared_cases) (use assms(2) in \<open>auto intro!: call_outcome_mutated check_remove_good
        dest: values_okD split: sum.splits\<close>)
  moreover have "call_outcome tx r tx'" if "tx_splice v (butlast p) i 1 [] tx = Some (r, tx')" for i
    using tx_splice_outcome [OF that assms(2)] by simp
  moreover have rem: "tx_remove v p tx = Some (r, tx')" using assms(1) CallRemove by (simp add: apply_call_def)
  ultimately show ?thesis
  proof (cases "ensure_declared tx v")
    case (Inl e)
    with rem have "r = Inl e \<and> tx' = tx" by (simp add: tx_remove_def)
    then show ?thesis by simp
  next
    case (Inr u)
    with rem \<open>\<And>i. tx_splice v (butlast p) i 1 [] tx = Some (r, tx') \<Longrightarrow> call_outcome tx r tx'\<close>
      \<open>tx_remove_member v p tx = Some (r, tx') \<Longrightarrow> call_outcome tx r tx'\<close> show ?thesis
      by (auto simp: tx_remove_def split: if_splits path_segment.splits)
  qed
qed

lemma with_declared_total:
  "\<forall>v\<in>set (tx_declared tx). bt_has (st_values (tx_state tx)) v \<Longrightarrow> with_declared v tx f \<noteq> None"
  by (auto simp: with_declared_def ensure_declared_def bt_has_def)

lemma apply_call_total:
  assumes "\<forall>v\<in>set (tx_declared tx). bt_has (st_values (tx_state tx)) v"
  shows "apply_call c tx \<noteq> None"
  using with_declared_total [OF assms]
  by (cases c) (simp_all add: apply_call_def tx_replace_def tx_splice_def tx_remove_def
      tx_remove_member_def split: sum.splits path_segment.splits)

lemma tx_wf_call:
  assumes "tx_wf s0 tx" "call_ok c"
  shows "\<exists>r tx'. apply_call c tx = Some (r, tx') \<and> tx_wf s0 tx' \<and> tx_declared tx' = tx_declared tx"
proof -
  from assms(1) have ok: "values_ok (st_values (tx_state tx))" "same_static (tx_state tx) s0"
      "\<forall>v\<in>set (tx_declared tx). bt_has (st_values (tx_state tx)) v"
    by (auto simp: tx_wf_def same_static_has)
  from apply_call_total [OF ok(3), of c] obtain r tx' where c: "apply_call c tx = Some (r, tx')" by auto
  from apply_call_outcome [OF c ok(1) assms(2)] have "tx_wf s0 tx'" "tx_declared tx' = tx_declared tx"
    unfolding call_outcome_def
    using assms(1) tx_wf_mutated [OF assms(1)] by (auto simp: declared_mutated)
  with c show ?thesis by blast
qed

lemma tx_wf_run:
  "tx_wf s0 tx \<Longrightarrow> program_ok prog \<Longrightarrow>
     \<exists>r tx'. run_program prog tx = Some (r, tx') \<and> tx_wf s0 tx' \<and> tx_declared tx' = tx_declared tx"
proof (induction prog arbitrary: tx)
  case (Call c k)
  from Call.prems tx_wf_call [of s0 tx c] obtain r tx' where
    "apply_call c tx = Some (r, tx')" "tx_wf s0 tx'" "tx_declared tx' = tx_declared tx" by auto
  with Call.IH [of "k r" tx'] Call.prems(2) show ?case by auto
qed simp

lemma tx_wf_rollback: "tx_wf s0 tx \<Longrightarrow> tx_state (rollback tx) = s0"
  by (simp add: tx_wf_def rollback_def undone_def)

end
