(* ===== verification/Observable_Commit.thy ===== *)
theory Observable_Commit
  imports Observable_Transaction
begin

text \<open>
  The end of a transaction: the canonical change list of every touched value, versions and
  snapshots, the subscriptions the changes reach, what each of them is told, and the whole of
  \<open>ObservableStore::transaction\<close>.
\<close>

subsection \<open>Canonical changes\<close>

definition is_splice :: "touched_mutation \<Rightarrow> bool" where
  "is_splice t = (case tm_kind t of TouchedSplice _ _ _ \<Rightarrow> True | _ \<Rightarrow> False)"

text \<open>A mutation below a path that is already replaced as a whole adds nothing.\<close>

definition covered :: "touched_mutation list \<Rightarrow> touched_mutation \<Rightarrow> bool" where
  "covered selected t =
     list_ex (\<lambda>e. starts_with (tm_path t) (tm_path e) \<and> \<not> is_splice e) selected"

definition select_touched :: "touched_mutation \<Rightarrow> touched_mutation list \<Rightarrow> touched_mutation list" where
  "select_touched t selected =
     (if covered selected t then selected
      else if is_splice t then selected @ [t]
      else filter (\<lambda>e. \<not> starts_with (tm_path e) (tm_path t)) selected @ [t])"

definition selected_touched :: "value_id \<Rightarrow> touched_mutation list \<Rightarrow> touched_mutation list" where
  "selected_touched v touched =
     sort_by (\<lambda>a b. tm_path a \<le> tm_path b)
       (fold select_touched (filter (\<lambda>t. tm_value t = v) touched) [])"

definition unsplice :: "phx_value \<Rightarrow> nat \<Rightarrow> nat \<Rightarrow> phx_value list \<Rightarrow> phx_value" where
  "unsplice x start inserted removed =
     (case x of
        VList items \<Rightarrow> VList (snd (splice_list items start (min (start + inserted) (length items)) removed))
      | _ \<Rightarrow> x)"

text \<open>One step of the reconstruction of the value a path had before the transaction.\<close>

definition probe_replace ::
  "value_id \<Rightarrow> path \<Rightarrow> path \<Rightarrow> phx_value option \<Rightarrow> phx_value option \<Rightarrow> observable_error + phx_value option" where
  "probe_replace v p u old probe =
     (if u = p then Inr old
      else if starts_with u p then
        (case probe of
           None \<Rightarrow> Inr None
         | Some x \<Rightarrow>
             map_err (TransactionConflict v)
               (rbind (restore_optional x (drop (length p) u) old) (\<lambda>(_, x'). Inr (Some x'))))
      else if starts_with p u then
        Inr (case old of Some w \<Rightarrow> value_at_optional w (drop (length u) p) | None \<Rightarrow> None)
      else Inr probe)"

definition probe_splice ::
  "phx_value \<Rightarrow> path \<Rightarrow> path \<Rightarrow> nat \<Rightarrow> nat \<Rightarrow> phx_value list \<Rightarrow> phx_value option \<Rightarrow> phx_value option" where
  "probe_splice current p u start inserted removed probe =
     (if u = p then map_option (\<lambda>x. unsplice x start inserted removed) probe
      else if starts_with u p then
        map_option (\<lambda>x.
          case value_at_optional x (drop (length p) u) of
            Some (VList items) \<Rightarrow>
              put_at x (drop (length p) u) (unsplice (VList items) start inserted removed)
          | _ \<Rightarrow> x) probe
      else if starts_with p u then
        (case value_at_optional current u of
           Some (VList items) \<Rightarrow>
             value_at_optional (unsplice (VList items) start inserted removed) (drop (length u) p)
         | _ \<Rightarrow> probe)
      else probe)"

definition probe_step ::
  "value_id \<Rightarrow> phx_value \<Rightarrow> path \<Rightarrow> phx_value option \<Rightarrow> undo_record \<Rightarrow> observable_error + phx_value option" where
  "probe_step v current p probe undo =
     (if undo_value undo \<noteq> v then Inr probe
      else case undo of
        UndoReplace _ u old \<Rightarrow> probe_replace v p u old probe
      | UndoSplice _ u start inserted removed \<Rightarrow>
          Inr (probe_splice current p u start inserted removed probe))"

definition original_at ::
  "value_id \<Rightarrow> phx_value \<Rightarrow> undo_record list \<Rightarrow> path \<Rightarrow> observable_error + phx_value option" where
  "original_at v current undo p =
     try_fold (probe_step v current p) (value_at_optional current p) (rev undo)"

definition option_value_eq :: "phx_value option \<Rightarrow> phx_value option \<Rightarrow> bool" where
  "option_value_eq x y =
     (case (x, y) of (None, None) \<Rightarrow> True | (Some a, Some b) \<Rightarrow> value_eq a b | _ \<Rightarrow> False)"

definition change_of :: "touched_mutation \<Rightarrow> phx_value option \<Rightarrow> value_change" where
  "change_of t now =
     (case tm_kind t of
        TouchedSplice start deleted ins \<Rightarrow> Splice (tm_path t) start deleted ins
      | _ \<Rightarrow> (case now of Some x \<Rightarrow> Replace (tm_path t) x | None \<Rightarrow> Remove (tm_path t)))"

definition canonical_step ::
  "value_id \<Rightarrow> phx_value \<Rightarrow> undo_record list \<Rightarrow> value_change list \<Rightarrow> touched_mutation \<Rightarrow>
     observable_error + value_change list" where
  "canonical_step v current undo changes t =
     rbind (original_at v current undo (tm_path t))
       (\<lambda>original.
          let now = value_at_optional current (tm_path t)
          in if option_value_eq now original then Inr changes
             else Inr (changes @ [change_of t now]))"

definition canonicalize_root :: "'h transaction \<Rightarrow> value_id \<Rightarrow> (observable_error + value_change list) option" where
  "canonicalize_root tx v =
     map_option (\<lambda>rv. try_fold (canonical_step v (rv_current rv) (tx_undo tx)) []
         (selected_touched v (tx_touched tx)))
       (bt_get (st_values (tx_state tx)) v)"

subsection \<open>What a subscription is told\<close>

definition rebase_change :: "value_change \<Rightarrow> path \<Rightarrow> value_change" where
  "rebase_change c p =
     (case c of
        Replace _ x \<Rightarrow> Replace p x
      | Remove _ \<Rightarrow> Remove p
      | Splice _ start deleted ins \<Rightarrow> Splice p start deleted ins)"

definition change_matches :: "observation_spec \<Rightarrow> path \<Rightarrow> bool" where
  "change_matches spec p =
     (let q = addr_path (spec_address spec)
      in case spec_scope spec of
           ScopeExact \<Rightarrow> p = q \<or> starts_with q p
         | ScopeRecursive \<Rightarrow> starts_with p q \<or> starts_with q p)"

text \<open>The loop over the changes: the rebased ones, and whether an ancestor changed.\<close>

definition subscription_step ::
  "observation_spec \<Rightarrow> value_change \<Rightarrow> value_change list \<times> bool \<Rightarrow> value_change list \<times> bool" where
  "subscription_step spec c st =
     (let p = change_path c; q = addr_path (spec_address spec); (out, ancestor) = st
      in if \<not> change_matches spec p then st
         else if starts_with q p \<and> p \<noteq> q then (out, True)
         else (case relative_to p q of Some r \<Rightarrow> (out @ [rebase_change c r], ancestor) | None \<Rightarrow> st))"

definition changes_for_subscription ::
  "observation_spec \<Rightarrow> value_change list \<Rightarrow> phx_value \<Rightarrow> value_change list" where
  "changes_for_subscription spec changes current =
     (let (out, ancestor) = fold (subscription_step spec) changes ([], False)
      in if ancestor
         then (case value_at_optional current (addr_path (spec_address spec)) of
                 Some x \<Rightarrow> [Replace [] x]
               | None \<Rightarrow> [Remove []])
         else out)"

subsection \<open>Finish\<close>

record 'h prepared_root =
  pr_commit :: nat
  pr_value :: value_id
  pr_from :: nat
  pr_version :: nat
  pr_snapshot :: "phx_value option"
  pr_deliveries :: "('h subscription_entry \<times> value_change list) list"

definition collect_change :: "node \<Rightarrow> value_change \<Rightarrow> nat list \<Rightarrow> nat list" where
  "collect_change index c matched =
     (case c of
        Splice p start deleted ins \<Rightarrow> collect_for_splice index p start deleted (length ins mod 2 ^ 32) matched
      | _ \<Rightarrow> collect_for_path index (change_path c) matched)"

definition matched_ids :: "'h store_state \<Rightarrow> value_id \<Rightarrow> value_change list \<Rightarrow> nat list" where
  "matched_ids s v changes =
     (case bt_get (st_indexes s) v of
        None \<Rightarrow> []
      | Some index \<Rightarrow> fold (collect_change index) changes [])"

definition prepare_delivery ::
  "'h store_state \<Rightarrow> value_id \<Rightarrow> registered_value \<Rightarrow> value_change list \<Rightarrow>
     ('h subscription_entry \<times> value_change list) list \<Rightarrow> nat \<Rightarrow>
     observable_error + ('h subscription_entry \<times> value_change list) list" where
  "prepare_delivery s v rv changes deliveries i =
     (case bt_get (st_subscriptions s) i of
        None \<Rightarrow> Inr deliveries
      | Some entry \<Rightarrow>
          (let relative = changes_for_subscription (ent_spec entry) changes (rv_current rv)
           in if relative = [] then Inr deliveries
              else if spec_mode (ent_spec entry) = ModeFull \<and> rv_policy rv \<noteq> CopyOnChange
              then Inl (UnsupportedSnapshotPolicy v (rv_policy rv) (spec_mode (ent_spec entry))
                     (spec_initial (ent_spec entry)))
              else Inr (deliveries @ [(entry, relative)])))"

definition bump_version :: "value_id \<Rightarrow> registered_value \<Rightarrow> 'h store_state \<Rightarrow> 'h store_state" where
  "bump_version v rv s =
     s\<lparr>st_values := bt_insert v (rv\<lparr>rv_version := sat_succ64 (rv_version rv)\<rparr>) (st_values s)\<rparr>"

text \<open>One iteration per changed value; the version stays bumped when a delivery is refused.\<close>

definition finish_root ::
  "nat \<Rightarrow> value_id \<Rightarrow> value_change list \<Rightarrow> 'h store_state \<Rightarrow>
     ((observable_error + 'h prepared_root) \<times> 'h store_state) option" where
  "finish_root commit v changes s =
     (case bt_get (st_values s) v of
        None \<Rightarrow> None
      | Some rv \<Rightarrow>
          (let s' = bump_version v rv s
           in Some (rbind (try_fold (prepare_delivery s' v rv changes) [] (matched_ids s' v changes))
                (\<lambda>deliveries. Inr
                   \<lparr>pr_commit = commit, pr_value = v, pr_from = rv_version rv,
                    pr_version = sat_succ64 (rv_version rv),
                    pr_snapshot = (if rv_policy rv = CopyOnChange then Some (rv_current rv) else None),
                    pr_deliveries = deliveries\<rparr>), s')))"

fun finish_roots ::
  "nat \<Rightarrow> (value_id \<times> value_change list) list \<Rightarrow> 'h store_state \<Rightarrow>
     ((observable_error + 'h prepared_root list) \<times> 'h store_state) option" where
  "finish_roots commit [] s = Some (Inr [], s)"
| "finish_roots commit ((v, changes) # rest) s =
     (case finish_root commit v changes s of
        None \<Rightarrow> None
      | Some (Inl e, s') \<Rightarrow> Some (Inl e, s')
      | Some (Inr root, s') \<Rightarrow>
          map_option (\<lambda>(r, s''). (rbind r (\<lambda>roots. Inr (root # roots)), s'')) (finish_roots commit rest s'))"

text \<open>The changed values in identifier order, with their changes.\<close>

definition touched_roots :: "touched_mutation list \<Rightarrow> value_id list" where
  "touched_roots touched = sort (extend_unique [] (map tm_value touched))"

fun canonical_roots ::
  "'h transaction \<Rightarrow> value_id list \<Rightarrow> (observable_error + (value_id \<times> value_change list) list) option" where
  "canonical_roots tx [] = Some (Inr [])"
| "canonical_roots tx (v # vs) =
     (case canonicalize_root tx v of
        None \<Rightarrow> None
      | Some (Inl e) \<Rightarrow> Some (Inl e)
      | Some (Inr changes) \<Rightarrow>
          map_option (\<lambda>r. rbind r (\<lambda>rest. Inr (if changes = [] then rest else (v, changes) # rest)))
            (canonical_roots tx vs))"

definition finish ::
  "'h transaction \<Rightarrow> ((observable_error + 'h prepared_root list) \<times> 'h transaction) option" where
  "finish tx =
     (case canonical_roots tx (touched_roots (tx_touched tx)) of
        None \<Rightarrow> None
      | Some (Inl e) \<Rightarrow> Some (Inl e, tx)
      | Some (Inr canonical) \<Rightarrow>
          if canonical = [] then Some (Inr [], tx)
          else
            (let s = tx_state tx; commit = st_next_commit s
             in map_option (\<lambda>(r, s'). (r, tx\<lparr>tx_state := s'\<rparr>))
                  (finish_roots commit canonical (s\<lparr>st_next_commit := sat_succ64 commit\<rparr>))))"

subsection \<open>The transaction\<close>

definition delivery_of ::
  "'h prepared_root \<Rightarrow> 'h subscription_entry \<times> value_change list \<Rightarrow> 'h \<times> observation_delivery" where
  "delivery_of root d =
     (let entry = fst d
      in (ent_handler entry,
          \<lparr>del_commit = Some (pr_commit root), del_value = pr_value root, del_from = pr_from root,
           del_version = pr_version root, del_address = spec_address (ent_spec entry),
           del_observation = ent_id entry, del_generation = ent_generation entry,
           del_changes = snd d,
           del_snapshot = (if spec_mode (ent_spec entry) = ModeFull then pr_snapshot root else None)\<rparr>))"

definition deliveries :: "'h prepared_root list \<Rightarrow> ('h \<times> observation_delivery) list" where
  "deliveries roots = concat (map (\<lambda>root. map (delivery_of root) (pr_deliveries root)) roots)"

definition tx_begin :: "value_id list \<Rightarrow> 'h store_state \<Rightarrow> 'h transaction" where
  "tx_begin declared s = \<lparr>tx_state = s, tx_declared = declared, tx_undo = [], tx_touched = []\<rparr>"

definition obs_transaction ::
  "value_id list \<Rightarrow> 'r program \<Rightarrow> 'h store_state \<Rightarrow>
     ((observable_error + 'r) \<times> ('h \<times> observation_delivery) list \<times> 'h store_state) option" where
  "obs_transaction roots prog s =
     (let declared = sort (extend_unique [] roots)
      in case rbind (ensure_open s) (\<lambda>_.
             case find (\<lambda>v. \<not> bt_has (st_values s) v) declared of
               Some v \<Rightarrow> Inl (UnknownValue v)
             | None \<Rightarrow> Inr ()) of
           Inl e \<Rightarrow> Some (Inl e, [], s)
         | Inr _ \<Rightarrow>
             (case run_program prog (tx_begin declared s) of
                None \<Rightarrow> None
              | Some (Inl e, tx) \<Rightarrow> Some (Inl e, [], tx_state (rollback tx))
              | Some (Inr output, tx) \<Rightarrow>
                  (case finish tx of
                     None \<Rightarrow> None
                   | Some (Inl e, tx') \<Rightarrow> Some (Inl e, [], tx_state (rollback tx'))
                   | Some (Inr prepared, tx') \<Rightarrow> Some (Inr output, deliveries prepared, tx_state tx'))))"

end
