(* ===== verification/Observable_Safety.thy ===== *)
theory Observable_Safety
  imports Observable_Commit
begin

text \<open>
  Correctness of the observable store: the invariant of every history of operations, atomicity of
  transactions, and who is told what.
\<close>

subsection \<open>The invariant\<close>

definition listed :: "'h store_state \<Rightarrow> value_id \<Rightarrow> path \<Rightarrow> observation_scope \<Rightarrow> nat set" where
  "listed s v p sc = set (ids_at (or_empty (bt_get (st_indexes s) v)) p sc)"

abbreviation ent_value :: "'h subscription_entry \<Rightarrow> value_id" where
  "ent_value e \<equiv> addr_value (spec_address (ent_spec e))"

abbreviation ent_path :: "'h subscription_entry \<Rightarrow> path" where
  "ent_path e \<equiv> addr_path (spec_address (ent_spec e))"

abbreviation ent_scope :: "'h subscription_entry \<Rightarrow> observation_scope" where
  "ent_scope e \<equiv> spec_scope (ent_spec e)"

abbreviation ent_mode :: "'h subscription_entry \<Rightarrow> observation_mode" where
  "ent_mode e \<equiv> spec_mode (ent_spec e)"

text \<open>A subscription belongs to a registered value whose snapshot policy can serve it.\<close>

definition entry_ok :: "'h store_state \<Rightarrow> nat \<Rightarrow> 'h subscription_entry \<Rightarrow> bool" where
  "entry_ok s i e \<longleftrightarrow>
     ent_id e = i \<and> i < st_next_observation s \<and>
     (\<exists>rv. bt_get (st_values s) (ent_value e) = Some rv \<and> (ent_mode e = ModeFull \<longrightarrow> rv_policy rv = CopyOnChange))"

definition subscriptions_ok :: "'h store_state \<Rightarrow> bool" where
  "subscriptions_ok s \<longleftrightarrow>
     bt_ok (st_subscriptions s) \<and> bt_ok (st_indexes s) \<and>
     (\<forall>v n. bt_get (st_indexes s) v = Some n \<longrightarrow> node_ok n) \<and>
     (\<forall>i e. bt_get (st_subscriptions s) i = Some e \<longrightarrow> entry_ok s i e) \<and>
     (\<forall>v p sc i. i \<in> listed s v p sc \<longleftrightarrow>
        (\<exists>e. bt_get (st_subscriptions s) i = Some e \<and> ent_value e = v \<and> ent_path e = p \<and> ent_scope e = sc))"

definition store_ok :: "'h store_state \<Rightarrow> bool" where
  "store_ok s \<longleftrightarrow> values_ok (st_values s) \<and> subscriptions_ok s"

lemma subscriptions_okD:
  assumes "subscriptions_ok s"
  shows "bt_ok (st_subscriptions s)" "bt_ok (st_indexes s)"
    "bt_get (st_indexes s) v = Some n \<Longrightarrow> node_ok n"
    "bt_get (st_subscriptions s) i = Some e \<Longrightarrow> entry_ok s i e"
    "i \<in> listed s v p sc \<longleftrightarrow>
        (\<exists>e. bt_get (st_subscriptions s) i = Some e \<and> ent_value e = v \<and> ent_path e = p \<and> ent_scope e = sc)"
  using assms unfolding subscriptions_ok_def by blast+

text \<open>The invariant does not depend on the contents and versions of the values.\<close>

lemma subscriptions_ok_cong:
  assumes "subscriptions_ok s" "st_subscriptions t = st_subscriptions s" "st_indexes t = st_indexes s"
    and "st_next_observation s \<le> st_next_observation t"
    and "\<And>v rv. bt_get (st_values s) v = Some rv \<Longrightarrow>
           \<exists>rv'. bt_get (st_values t) v = Some rv' \<and> rv_policy rv' = rv_policy rv"
  shows "subscriptions_ok t"
proof -
  have "entry_ok t i e" if "entry_ok s i e" for i e
    using that assms(4,5) unfolding entry_ok_def by fastforce
  with assms(1-3) show ?thesis
    by (simp add: subscriptions_ok_def listed_def)
qed

subsection \<open>The subscriptions a commit reaches\<close>

definition change_reaches :: "value_change \<Rightarrow> path \<Rightarrow> observation_scope \<Rightarrow> bool" where
  "change_reaches c q sc =
     (case c of
        Splice p start deleted ins \<Rightarrow> splice_reaches p (splice_affects start deleted (length ins mod 2 ^ 32)) q sc
      | _ \<Rightarrow> path_reaches (change_path c) q sc)"

lemma set_collect_change: "node_ok n \<Longrightarrow> set (collect_change n c out) = set out \<union> ids_where n (change_reaches c)"
  by (cases c) (simp_all add: collect_change_def change_reaches_def set_collect_for_path
      set_collect_for_splice ids_where_def)

lemma matched_ids_exact:
  assumes "subscriptions_ok s"
  shows "distinct (matched_ids s v changes)"
    "i \<in> set (matched_ids s v changes) \<longleftrightarrow>
       (\<exists>e. bt_get (st_subscriptions s) i = Some e \<and> ent_value e = v \<and>
          (\<exists>c\<in>set changes. change_reaches c (ent_path e) (ent_scope e)))"
proof -
  show "distinct (matched_ids s v changes)"
    by (auto simp: matched_ids_def collect_change_def intro!: fold_distinct
        intro: distinct_collect_for_path distinct_collect_for_splice split: option.splits value_change.splits)
  have "set (matched_ids s v changes) = (\<Union>c\<in>set changes. ids_where (or_empty (bt_get (st_indexes s) v)) (change_reaches c))"
  proof (cases "bt_get (st_indexes s) v")
    case None
    then show ?thesis by (auto simp: matched_ids_def or_empty_def ids_where_def)
  next
    case (Some n)
    have "set (fold (collect_change n) changes []) = set [] \<union> (\<Union>c\<in>set changes. ids_where n (change_reaches c))"
      by (rule fold_set_Un) (simp add: set_collect_change subscriptions_okD(3) [OF assms Some])
    with Some show ?thesis by (simp add: matched_ids_def or_empty_def)
  qed
  then have "i \<in> set (matched_ids s v changes) \<longleftrightarrow>
      (\<exists>c\<in>set changes. \<exists>q sc. i \<in> listed s v q sc \<and> change_reaches c q sc)"
    by (auto simp: ids_where_def listed_def)
  then show "i \<in> set (matched_ids s v changes) \<longleftrightarrow>
       (\<exists>e. bt_get (st_subscriptions s) i = Some e \<and> ent_value e = v \<and>
          (\<exists>c\<in>set changes. change_reaches c (ent_path e) (ent_scope e)))"
    by (auto simp: subscriptions_okD(5) [OF assms])
qed

text \<open>Preparing the deliveries never fails: the policy was checked when the subscription was made.\<close>

definition delivery_for ::
  "'h store_state \<Rightarrow> registered_value \<Rightarrow> value_change list \<Rightarrow> nat \<Rightarrow>
     ('h subscription_entry \<times> value_change list) option" where
  "delivery_for s rv changes i =
     (case bt_get (st_subscriptions s) i of
        None \<Rightarrow> None
      | Some e \<Rightarrow>
          (let r = changes_for_subscription (ent_spec e) changes (rv_current rv)
           in if r = [] then None else Some (e, r)))"

lemma prepare_deliveries:
  assumes "\<And>i e. i \<in> set ids \<Longrightarrow> bt_get (st_subscriptions s) i = Some e \<Longrightarrow>
             ent_mode e = ModeFull \<Longrightarrow> rv_policy rv = CopyOnChange"
  shows "try_fold (prepare_delivery s v rv changes) out ids = Inr (out @ filter_map (delivery_for s rv changes) ids)"
  using assms
proof (induction ids arbitrary: out)
  case (Cons i ids)
  have IH: "try_fold (prepare_delivery s v rv changes) out ids =
      Inr (out @ filter_map (delivery_for s rv changes) ids)" for out
    by (rule Cons.IH) (use Cons.prems in auto)
  have "prepare_delivery s v rv changes out i =
      Inr (out @ (case delivery_for s rv changes i of None \<Rightarrow> [] | Some d \<Rightarrow> [d]))"
    using Cons.prems [of i]
    by (auto simp: prepare_delivery_def delivery_for_def Let_def split: option.splits)
  with IH show ?case by (auto split: option.splits)
qed simp

lemma bump_version_ok: "subscriptions_ok s \<Longrightarrow> bt_get (st_values s) v = Some rv \<Longrightarrow> subscriptions_ok (bump_version v rv s)"
  by (rule subscriptions_ok_cong) (auto simp: bump_version_def map_simps)

lemma bump_version_values:
  "values_ok (st_values s) \<Longrightarrow> bt_get (st_values s) v = Some rv \<Longrightarrow> values_ok (st_values (bump_version v rv s))"
  using values_okD [of "st_values s" v rv]
  by (auto simp: bump_version_def value_wf_def intro!: values_ok_insert)

definition root_of :: "nat \<Rightarrow> value_id \<Rightarrow> registered_value \<Rightarrow> value_change list \<Rightarrow> 'h store_state \<Rightarrow> 'h prepared_root" where
  "root_of commit v rv changes s =
     \<lparr>pr_commit = commit, pr_value = v, pr_from = rv_version rv, pr_version = sat_succ64 (rv_version rv),
      pr_snapshot = (if rv_policy rv = CopyOnChange then Some (rv_current rv) else None),
      pr_deliveries = filter_map (delivery_for s rv changes) (matched_ids s v changes)\<rparr>"

lemma finish_root_eq:
  assumes "subscriptions_ok s" "bt_get (st_values s) v = Some rv"
  shows "finish_root commit v changes s = Some (Inr (root_of commit v rv changes s), bump_version v rv s)"
proof -
  let ?s = "bump_version v rv s"
  have same: "st_subscriptions ?s = st_subscriptions s" "matched_ids ?s v changes = matched_ids s v changes"
      "delivery_for ?s = delivery_for s"
    by (simp_all add: bump_version_def matched_ids_def delivery_for_def fun_eq_iff)
  have "try_fold (prepare_delivery ?s v rv changes) [] (matched_ids ?s v changes) =
      Inr ([] @ filter_map (delivery_for ?s rv changes) (matched_ids ?s v changes))"
  proof (rule prepare_deliveries)
    fix i e
    assume "i \<in> set (matched_ids ?s v changes)" "bt_get (st_subscriptions ?s) i = Some e" "ent_mode e = ModeFull"
    with same matched_ids_exact(2) [OF assms(1)] subscriptions_okD(4) [OF assms(1), of i e] assms(2)
    show "rv_policy rv = CopyOnChange" by (auto simp: entry_ok_def)
  qed
  with assms(2) same show ?thesis by (simp add: finish_root_def root_of_def Let_def)
qed

definition value_of :: "'h store_state \<Rightarrow> value_id \<Rightarrow> registered_value" where
  "value_of s v = the (bt_get (st_values s) v)"

definition bump_all :: "value_id list \<Rightarrow> 'h store_state \<Rightarrow> 'h store_state" where
  "bump_all vs s = fold (\<lambda>v s. bump_version v (value_of s v) s) vs s"

lemma bump_all_simps [simp]:
  "bump_all [] s = s" "bump_all (v # vs) s = bump_all vs (bump_version v (value_of s v) s)"
  by (simp_all add: bump_all_def)

lemma root_of_bump: "root_of commit w rv' changes (bump_version v rv s) = root_of commit w rv' changes s"
  by (simp add: root_of_def bump_version_def matched_ids_def delivery_for_def [abs_def])

lemma bump_all_values:
  "distinct vs \<Longrightarrow>
     bt_get (st_values (bump_all vs s)) v =
       (if v \<in> set vs then Some ((value_of s v)\<lparr>rv_version := sat_succ64 (rv_version (value_of s v))\<rparr>)
        else bt_get (st_values s) v)"
proof (induction vs arbitrary: s)
  case (Cons w vs)
  have "v \<noteq> w \<Longrightarrow> value_of (bump_version w (value_of s w) s) v = value_of s v"
    by (simp add: value_of_def bump_version_def map_simps)
  with Cons show ?case
    by (cases "v = w") (auto simp: bump_version_def map_simps)
qed simp

lemma bump_all_frame: "(bump_all vs s)\<lparr>st_values := []\<rparr> = s\<lparr>st_values := []\<rparr>"
  by (induction vs arbitrary: s) (simp_all add: bump_version_def)

lemma bump_all_next [simp]: "st_next_observation (bump_all vs s) = st_next_observation s"
  using arg_cong [OF bump_all_frame [of vs s], of st_next_observation] by simp

lemma bump_all_ok:
  "store_ok s \<Longrightarrow> \<forall>v\<in>set vs. bt_has (st_values s) v \<Longrightarrow> store_ok (bump_all vs s)"
proof (induction vs arbitrary: s)
  case (Cons v vs)
  then have v: "bt_get (st_values s) v = Some (value_of s v)"
    by (auto simp: bt_has_def value_of_def)
  with Cons.prems have "store_ok (bump_version v (value_of s v) s)"
    by (auto simp: store_ok_def bump_version_ok bump_version_values)
  moreover have "\<forall>w\<in>set vs. bt_has (st_values (bump_version v (value_of s v) s)) w"
    using Cons.prems by (auto simp: bump_version_def bt_has_def map_simps)
  ultimately show ?case using Cons.IH by simp
qed simp

lemma finish_roots_eq:
  assumes "subscriptions_ok s" "distinct (map fst cs)" "\<forall>v\<in>fst ` set cs. bt_has (st_values s) v"
  shows "finish_roots commit cs s =
     Some (Inr (map (\<lambda>(v, changes). root_of commit v (value_of s v) changes s) cs), bump_all (map fst cs) s)"
  using assms
proof (induction cs arbitrary: s)
  case (Cons c cs)
  obtain v changes where c: "c = (v, changes)" by (cases c)
  with Cons.prems(3) have v: "bt_get (st_values s) v = Some (value_of s v)"
    by (auto simp: bt_has_def value_of_def)
  let ?s = "bump_version v (value_of s v) s"
  have vals: "value_of ?s w = value_of s w" if "w \<in> fst ` set cs" for w
    using that Cons.prems(2) c by (auto simp: value_of_def bump_version_def map_simps)
  have "finish_roots commit cs ?s =
      Some (Inr (map (\<lambda>(w, ch). root_of commit w (value_of ?s w) ch ?s) cs), bump_all (map fst cs) ?s)"
    by (rule Cons.IH) (use Cons.prems c v bump_version_ok in
        \<open>auto simp: bump_version_def bt_has_def map_simps\<close>)
  moreover have "map (\<lambda>(w, ch). root_of commit w (value_of ?s w) ch ?s) cs =
      map (\<lambda>(w, ch). root_of commit w (value_of s w) ch s) cs"
  proof (rule map_cong)
    fix x
    assume "x \<in> set cs"
    then have "value_of ?s (fst x) = value_of s (fst x)" by (simp add: vals)
    then show "(case x of (w, ch) \<Rightarrow> root_of commit w (value_of ?s w) ch ?s) =
        (case x of (w, ch) \<Rightarrow> root_of commit w (value_of s w) ch s)"
      by (simp add: root_of_bump case_prod_beta)
  qed simp
  ultimately show ?case
    using finish_root_eq [OF Cons.prems(1) v] c by simp
qed simp

lemma canonical_roots_total:
  "\<forall>v\<in>set vs. bt_has (st_values (tx_state tx)) v \<Longrightarrow> canonical_roots tx vs \<noteq> None"
  by (induction vs)
    (auto simp: canonicalize_root_def bt_has_def split: option.splits sum.splits)

lemma canonical_roots_subset:
  "canonical_roots tx vs = Some (Inr cs) \<Longrightarrow>
     set (map fst cs) \<subseteq> set vs \<and> (distinct vs \<longrightarrow> distinct (map fst cs)) \<and> (\<forall>c\<in>set cs. snd c \<noteq> [])"
proof (induction vs arbitrary: cs)
  case (Cons v vs)
  then obtain changes rest where "canonical_roots tx vs = Some (Inr rest)"
      "cs = (if changes = [] then rest else (v, changes) # rest)"
    by (auto simp: rbind_eq_Inr split: option.splits sum.splits)
  with Cons.IH [of rest] show ?case by auto
qed simp

lemma touched_roots_facts:
  "distinct (touched_roots touched)" "set (touched_roots touched) = tm_value ` set touched"
  by (auto simp: touched_roots_def)

definition bump_commit :: "'h store_state \<Rightarrow> 'h store_state" where
  "bump_commit s = s\<lparr>st_next_commit := sat_succ64 (st_next_commit s)\<rparr>"

text \<open>The ways a transaction on a well-formed store can finish.\<close>

lemma finish_cases:
  assumes "subscriptions_ok (tx_state tx)" "\<forall>t\<in>set (tx_touched tx). bt_has (st_values (tx_state tx)) (tm_value t)"
  obtains e where "finish tx = Some (Inl e, tx)"
  | cs where "canonical_roots tx (touched_roots (tx_touched tx)) = Some (Inr cs)"
    "distinct (map fst cs)" "\<forall>v\<in>fst ` set cs. bt_has (st_values (tx_state tx)) v" "\<forall>c\<in>set cs. snd c \<noteq> []"
    "finish tx = Some (Inr (map (\<lambda>(v, changes). root_of (st_next_commit (tx_state tx)) v
        (value_of (tx_state tx) v) changes (tx_state tx)) cs),
        if cs = [] then tx else tx\<lparr>tx_state := bump_all (map fst cs) (bump_commit (tx_state tx))\<rparr>)"
proof -
  let ?s = "tx_state tx" let ?vs = "touched_roots (tx_touched tx)"
  have reg: "\<forall>v\<in>set ?vs. bt_has (st_values ?s) v"
    using assms(2) by (simp add: touched_roots_facts)
  from canonical_roots_total [OF this] obtain r where r: "canonical_roots tx ?vs = Some r" by blast
  show ?thesis
  proof (cases r)
    case (Inl e)
    with r that(1) show ?thesis by (simp add: finish_def)
  next
    case (Inr cs)
    from canonical_roots_subset [OF r [unfolded Inr]] reg have cs: "distinct (map fst cs)"
        "\<forall>v\<in>fst ` set cs. bt_has (st_values ?s) v" "\<forall>c\<in>set cs. snd c \<noteq> []"
      by (auto simp: touched_roots_facts)
    have "subscriptions_ok (bump_commit ?s)"
      by (rule subscriptions_ok_cong [OF assms(1)]) (simp_all add: bump_commit_def)
    from finish_roots_eq [OF this cs(1), of "st_next_commit ?s"] cs(2) r Inr
    have "finish tx = Some (Inr (map (\<lambda>(v, changes). root_of (st_next_commit ?s) v
        (value_of ?s v) changes ?s) cs),
        if cs = [] then tx else tx\<lparr>tx_state := bump_all (map fst cs) (bump_commit ?s)\<rparr>)"
      by (simp add: finish_def Let_def bump_commit_def root_of_def matched_ids_def delivery_for_def [abs_def]
          value_of_def cong: map_cong)
    with that(2) r Inr cs show ?thesis by blast
  qed
qed

subsection \<open>Every operation keeps the invariant\<close>

lemma listed_indexed: "bt_get (st_indexes s) v = Some n \<Longrightarrow> listed s v p sc = set (ids_at n p sc)"
  by (simp add: listed_def or_empty_def)

lemma listed_unindexed: "bt_get (st_indexes s) v = None \<Longrightarrow> listed s v p sc = {}"
  by (simp add: listed_def or_empty_def)

lemma store_ok_default: "store_ok store_default"
  by (simp add: store_ok_def store_default_def values_ok_def subscriptions_ok_def listed_def or_empty_def)

definition registration_ok :: "registration \<Rightarrow> bool" where
  "registration_ok r \<longleftrightarrow> type_ok (reg_schema r) \<and> value_ok (reg_initial r)"

lemma register_ok:
  assumes "store_ok s" "registration_ok r" "obs_register r s = (res, s')"
  shows "store_ok s'"
proof (cases "s' = s")
  case False
  with assms(3) have p: "parse (reg_schema r) (reg_initial r) = Inr ()"
      "\<not> bt_has (st_values s) (reg_id r)" and
    s': "s' = s\<lparr>st_values := bt_insert (reg_id r)
             \<lparr>rv_owner = reg_owner r, rv_schema = reg_schema r, rv_version = 0,
              rv_policy = reg_policy r, rv_current = reg_initial r\<rparr> (st_values s)\<rparr>"
    by (auto simp: obs_register_def rbind_eq_Inr split: sum.splits if_splits)
  have "subscriptions_ok s'"
    by (rule subscriptions_ok_cong [of s]) (use assms(1) p(2) s' in
        \<open>auto simp: store_ok_def map_simps bt_has_def\<close>)
  moreover have "values_ok (st_values s')"
    using assms(1,2) p s' by (auto simp: store_ok_def registration_ok_def value_wf_def intro!: values_ok_insert)
  ultimately show ?thesis by (simp add: store_ok_def)
qed (use assms in simp)

lemma subscribe_ok:
  assumes "store_ok s" "st_next_observation s < u64_max" "obs_subscribe spec h s = (res, out, s')"
  shows "store_ok s'"
proof (cases "check_subscription spec s")
  case (Inl e)
  with assms show ?thesis by (simp add: obs_subscribe_def)
next
  case (Inr rv)
  let ?v = "addr_value (spec_address spec)" and ?p = "addr_path (spec_address spec)" and ?i = "st_next_observation s"
  let ?old = "or_empty (bt_get (st_indexes s) ?v)"
  from assms(1) have sub: "subscriptions_ok s" by (simp add: store_ok_def)
  from Inr have rv: "bt_get (st_values s) ?v = Some rv" "spec_mode spec = ModeFull \<longrightarrow> rv_policy rv = CopyOnChange"
    by (auto simp: check_subscription_def registered_def rbind_eq_Inr Let_def split: if_splits)
      (metis snapshot_policy.exhaust)
  have fresh: "bt_get (st_subscriptions s) ?i = None"
    using subscriptions_okD(4) [OF sub, of ?i] by (cases "bt_get (st_subscriptions s) ?i") (auto simp: entry_ok_def)
  have old: "node_ok ?old"
    using subscriptions_okD(3) [OF sub, of ?v] by (auto simp: or_empty_def split: option.splits)
  have s': "st_values s' = st_values s" "st_next_observation s' = Suc ?i"
      "st_indexes s' = bt_insert ?v (node_insert ?p ?i (spec_scope spec) ?old) (st_indexes s)"
      "\<exists>g. st_subscriptions s' = bt_insert ?i \<lparr>ent_id = ?i, ent_spec = spec, ent_generation = g, ent_handler = h\<rparr>
         (st_subscriptions s)"
    using assms(2,3) Inr by (auto simp: obs_subscribe_def Let_def sat_succ64_less)
  have listed: "listed s' w q sc =
      (if w = ?v \<and> q = ?p \<and> sc = spec_scope spec then insert ?i (listed s w q sc) else listed s w q sc)" for w q sc
    by (auto simp: listed_def s' map_simps or_empty_def [of "Some _"] ids_at_insert)
  have entry: "entry_ok s' j e" if "entry_ok s j e" for j e
    using that s' by (auto simp: entry_ok_def)
  from s'(4) obtain g where g: "st_subscriptions s' =
      bt_insert ?i \<lparr>ent_id = ?i, ent_spec = spec, ent_generation = g, ent_handler = h\<rparr> (st_subscriptions s)" by blast
  have "subscriptions_ok s'"
    unfolding subscriptions_ok_def
  proof (intro conjI allI)
    show "bt_ok (st_subscriptions s')" "bt_ok (st_indexes s')"
      using subscriptions_okD(1,2) [OF sub] s' g by auto
    show "bt_get (st_indexes s') w = Some n \<longrightarrow> node_ok n" for w n
      using subscriptions_okD(3) [OF sub, of w n] node_ok_insert [OF old] s' by (auto simp: map_simps)
    show "bt_get (st_subscriptions s') j = Some e \<longrightarrow> entry_ok s' j e" for j e
      using subscriptions_okD(4) [OF sub, of j e] entry g rv s'(1,2) by (auto simp: map_simps entry_ok_def)
    show "(j \<in> listed s' w q sc) = (\<exists>e. bt_get (st_subscriptions s') j = Some e \<and>
        ent_value e = w \<and> ent_path e = q \<and> ent_scope e = sc)" for w q sc j
      using subscriptions_okD(5) [OF sub, of j w q sc] fresh
      by (cases "j = ?i") (auto simp: listed g map_simps)
  qed
  with assms(1) s'(1) show ?thesis by (simp add: store_ok_def)
qed

lemma unsubscribe_ok:
  assumes "store_ok s" "obs_unsubscribe i g s = (res, s')"
  shows "store_ok s'"
proof (cases "s' = s")
  case False
  from assms(1) have sub: "subscriptions_ok s" by (simp add: store_ok_def)
  from False assms(2) obtain e where e: "bt_get (st_subscriptions s) i = Some e"
    by (auto simp: obs_unsubscribe_def split: sum.splits option.splits)
  let ?v = "ent_value e"
  have "i \<in> listed s ?v (ent_path e) (ent_scope e)"
    using e by (auto simp: subscriptions_okD(5) [OF sub])
  then obtain n where n: "bt_get (st_indexes s) ?v = Some n"
    by (cases "bt_get (st_indexes s) ?v") (auto simp: listed_unindexed)
  let ?n = "node_remove (ent_path e) i (ent_scope e) n"
  have s': "s' = s\<lparr>st_subscriptions := bt_remove i (st_subscriptions s), st_indexes :=
      if node_is_empty ?n then bt_remove ?v (st_indexes s) else bt_insert ?v ?n (st_indexes s)\<rparr>"
    using False assms(2) e n by (auto simp: obs_unsubscribe_def Let_def split: sum.splits if_splits)
  have st: "st_values s' = st_values s" "st_next_observation s' = st_next_observation s"
      "st_subscriptions s' = bt_remove i (st_subscriptions s)"
      "st_indexes s' = (if node_is_empty ?n then bt_remove ?v (st_indexes s) else bt_insert ?v ?n (st_indexes s))"
    by (simp_all add: s')
  have node: "node_ok ?n"
    using node_ok_remove subscriptions_okD(3) [OF sub n] by blast
  have listed: "listed s' w q sc =
      (if w = ?v \<and> q = ent_path e \<and> sc = ent_scope e then listed s w q sc - {i} else listed s w q sc)" for w q sc
  proof (cases "w = ?v")
    case True
    have "set (ids_at ?n q sc) =
        (if ent_path e = q \<and> ent_scope e = sc then listed s ?v q sc - {i} else listed s ?v q sc)"
      using n by (simp add: ids_at_remove listed_indexed)
    moreover have "listed s' ?v q sc = set (ids_at ?n q sc)"
      by (auto simp: listed_def st map_simps or_empty_def ids_at_is_empty)
    ultimately show ?thesis using True by auto
  qed (auto simp: listed_def st map_simps)
  have "subscriptions_ok s'"
    unfolding subscriptions_ok_def
  proof (intro conjI allI)
    show "bt_ok (st_subscriptions s')" "bt_ok (st_indexes s')"
      using subscriptions_okD(1,2) [OF sub] by (auto simp: st)
    show "bt_get (st_indexes s') w = Some m \<longrightarrow> node_ok m" for w m
      using subscriptions_okD(3) [OF sub, of w m] node by (auto simp: st map_simps split: if_splits)
    show "bt_get (st_subscriptions s') j = Some d \<longrightarrow> entry_ok s' j d" for j d
      using subscriptions_okD(4) [OF sub, of j d] by (auto simp: st map_simps entry_ok_def)
    show "(j \<in> listed s' w q sc) = (\<exists>d. bt_get (st_subscriptions s') j = Some d \<and>
        ent_value d = w \<and> ent_path d = q \<and> ent_scope d = sc)" for w q sc j
      using subscriptions_okD(5) [OF sub, of j w q sc] e
      by (cases "j = i") (auto simp: listed st map_simps)
  qed
  with assms(1) st(1) show ?thesis by (simp add: store_ok_def)
qed (use assms in simp)

lemma unregister_ok:
  assumes "store_ok s" "obs_unregister v s = (res, s')"
  shows "store_ok s'"
proof (cases "s' = s")
  case False
  from assms(1) have sub: "subscriptions_ok s" and vals: "values_ok (st_values s)" by (auto simp: store_ok_def)
  define gone where "gone = (case bt_get (st_indexes s) v of None \<Rightarrow> [] | Some n \<Rightarrow> collect_all n [])"
  have s': "st_values s' = bt_remove v (st_values s)" "st_next_observation s' = st_next_observation s"
      "st_subscriptions s' = fold bt_remove gone (st_subscriptions s)"
      "st_indexes s' = bt_remove v (st_indexes s)"
    using False assms(2) bt.del_absent [OF subscriptions_okD(2) [OF sub], of v]
    by (auto simp: obs_unregister_def Let_def gone_def split: sum.splits option.splits)
  have gone: "j \<in> set gone \<longleftrightarrow> (\<exists>e. bt_get (st_subscriptions s) j = Some e \<and> ent_value e = v)" for j
  proof -
    have "j \<in> set gone \<longleftrightarrow> (\<exists>q sc. j \<in> listed s v q sc)"
      using set_collect_all [OF subscriptions_okD(3) [OF sub, of v]]
      by (auto simp: gone_def listed_def or_empty_def node_ids_def split: option.splits)
    then show ?thesis by (simp add: subscriptions_okD(5) [OF sub])
  qed
  have subs: "bt_get (st_subscriptions s') j = Some e \<longleftrightarrow> bt_get (st_subscriptions s) j = Some e \<and> ent_value e \<noteq> v" for j e
    using gone [of j] by (auto simp: s' bt.fold_del_get)
  have "subscriptions_ok s'"
    unfolding subscriptions_ok_def
  proof (intro conjI allI)
    show "bt_ok (st_subscriptions s')" "bt_ok (st_indexes s')"
      using subscriptions_okD(1,2) [OF sub] s' bt.fold_del_inv by auto
    show "bt_get (st_indexes s') w = Some m \<longrightarrow> node_ok m" for w m
      using subscriptions_okD(3) [OF sub, of w m] s' by (auto simp: map_simps)
    show "bt_get (st_subscriptions s') j = Some d \<longrightarrow> entry_ok s' j d" for j d
      using subscriptions_okD(4) [OF sub, of j d] s'(1,2) by (auto simp: subs map_simps entry_ok_def)
    have "listed s' w q sc = (if w = v then {} else listed s w q sc)" for w q sc
      by (auto simp: listed_def s' map_simps or_empty_def)
    then show "(j \<in> listed s' w q sc) = (\<exists>d. bt_get (st_subscriptions s') j = Some d \<and>
        ent_value d = w \<and> ent_path d = q \<and> ent_scope d = sc)" for w q sc j
      using subscriptions_okD(5) [OF sub, of j w q sc] by (auto simp: subs)
  qed
  moreover have "values_ok (st_values s')"
    using vals s'(1) by (auto simp: values_ok_def map_simps)
  ultimately show ?thesis by (simp add: store_ok_def)
qed (use assms in simp)

lemma close_ok: "store_ok s \<Longrightarrow> store_ok (obs_close s)"
  by (simp add: store_ok_def obs_close_def subscriptions_ok_def listed_def or_empty_def)

subsection \<open>Transactions\<close>

lemma tx_wf_begin:
  assumes "store_ok s" "\<forall>v\<in>set declared. bt_has (st_values s) v"
  shows "tx_wf s (tx_begin declared s)"
  using assms by (simp add: tx_wf_def tx_begin_def store_ok_def undone_def same_static_def)

lemma tx_wf_subscriptions:
  assumes "tx_wf s tx" "subscriptions_ok s"
  shows "subscriptions_ok (tx_state tx)"
proof (rule subscriptions_ok_cong [OF assms(2)])
  from assms(1) have st: "same_static (tx_state tx) s" by (simp add: tx_wf_def)
  then have "(tx_state tx)\<lparr>st_values := []\<rparr> = s\<lparr>st_values := []\<rparr>" by (simp add: same_static_def)
  then show "st_subscriptions (tx_state tx) = st_subscriptions s" "st_indexes (tx_state tx) = st_indexes s"
    "st_next_observation s \<le> st_next_observation (tx_state tx)"
    by (cases "tx_state tx"; cases s; simp)+
  fix v rv
  assume "bt_get (st_values s) v = Some rv"
  with st have "map_option static (bt_get (st_values (tx_state tx)) v) = Some (static rv)"
    by (simp add: same_static_def)
  then show "\<exists>rv'. bt_get (st_values (tx_state tx)) v = Some rv' \<and> rv_policy rv' = rv_policy rv"
    by (auto simp: static_def) (metis registered_value.ext_inject registered_value.surjective
        registered_value.update_convs(5))
qed

text \<open>How a transaction on a well-formed store ends.\<close>

lemma transaction_cases:
  assumes "store_ok s" "program_ok prog"
  obtains e where "obs_transaction roots prog s = Some (Inl e, [], s)"
  | r tx cs where
    "\<not> st_closed s" "tx_declared tx = sort (extend_unique [] roots)" "\<forall>v\<in>set roots. bt_has (st_values s) v"
    "run_program prog (tx_begin (sort (extend_unique [] roots)) s) = Some (Inr r, tx)" "tx_wf s tx"
    "canonical_roots tx (touched_roots (tx_touched tx)) = Some (Inr cs)"
    "distinct (map fst cs)" "\<forall>v\<in>fst ` set cs. bt_has (st_values (tx_state tx)) v" "\<forall>c\<in>set cs. snd c \<noteq> []"
    "obs_transaction roots prog s = Some (Inr r,
       deliveries (map (\<lambda>(v, changes). root_of (st_next_commit (tx_state tx)) v
          (value_of (tx_state tx) v) changes (tx_state tx)) cs),
       if cs = [] then tx_state tx else bump_all (map fst cs) (bump_commit (tx_state tx)))"
proof -
  let ?declared = "sort (extend_unique [] roots)"
  show ?thesis
  proof (cases "\<not> st_closed s \<and> (\<forall>v\<in>set roots. bt_has (st_values s) v)")
    case False
    then have "\<exists>e. rbind (ensure_open s) (\<lambda>_. case find (\<lambda>v. \<not> bt_has (st_values s) v) ?declared of
        Some v \<Rightarrow> Inl (UnknownValue v) | None \<Rightarrow> Inr ()) = Inl e"
      by (auto simp: ensure_open_def find_None_iff split: option.splits)
    with that(1) show ?thesis by (auto simp: obs_transaction_def Let_def)
  next
    case True
    then have "find (\<lambda>v. \<not> bt_has (st_values s) v) ?declared = None"
      by (simp add: find_None_iff)
    with True have pre: "rbind (ensure_open s) (\<lambda>_. case find (\<lambda>v. \<not> bt_has (st_values s) v) ?declared of
        Some v \<Rightarrow> Inl (UnknownValue v) | None \<Rightarrow> Inr ()) = Inr ()"
      by (simp add: ensure_open_def)
    have "tx_wf s (tx_begin ?declared s)"
      by (rule tx_wf_begin) (use assms(1) True in auto)
    from tx_wf_run [OF this assms(2)] obtain r tx where
      run: "run_program prog (tx_begin ?declared s) = Some (r, tx)" "tx_wf s tx"
        "tx_declared tx = ?declared" by (auto simp: tx_begin_def)
    show ?thesis
    proof (cases r)
      case (Inl e)
      with run pre that(1) show ?thesis
        by (simp add: obs_transaction_def Let_def tx_wf_rollback)
    next
      case (Inr answer)
      have touched: "\<forall>t\<in>set (tx_touched tx). bt_has (st_values (tx_state tx)) (tm_value t)"
        using run(2) same_static_has [of "tx_state tx" s] by (auto simp: tx_wf_def image_subset_iff)
      have "subscriptions_ok s" using assms(1) by (simp add: store_ok_def)
      from tx_wf_subscriptions [OF run(2) this] touched show ?thesis
      proof (cases rule: finish_cases)
        case (1 e)
        with run pre Inr that(1) show ?thesis
          by (simp add: obs_transaction_def Let_def tx_wf_rollback)
      next
        case (2 cs)
        have "obs_transaction roots prog s = Some (Inr answer,
            deliveries (map (\<lambda>(v, changes). root_of (st_next_commit (tx_state tx)) v
              (value_of (tx_state tx) v) changes (tx_state tx)) cs),
            if cs = [] then tx_state tx else bump_all (map fst cs) (bump_commit (tx_state tx)))"
          using run pre Inr 2(5) by (simp add: obs_transaction_def Let_def)
        with run Inr True that(2) [OF _ run(3) _ _ run(2) 2(1-4)] show ?thesis by auto
      qed
    qed
  qed
qed

lemma transaction_summary:
  assumes "store_ok s" "program_ok prog"
  shows "\<exists>r out s'. obs_transaction roots prog s = Some (r, out, s') \<and> store_ok s' \<and>
     (is_ok r \<or> (out = [] \<and> s' = s)) \<and>
     (\<forall>v. v \<in> set roots \<or> bt_get (st_values s') v = bt_get (st_values s) v) \<and>
     st_next_observation s' = st_next_observation s"
  using assms
proof (cases rule: transaction_cases [of s prog roots])
  case (2 r tx cs)
  from 2(5) assms(1) have ok: "store_ok (tx_state tx)"
    using tx_wf_subscriptions by (auto simp: store_ok_def tx_wf_def)
  then have ok': "store_ok (bump_commit (tx_state tx))"
    by (auto simp: store_ok_def bump_commit_def intro: subscriptions_ok_cong)
  then have "store_ok (bump_all (map fst cs) (bump_commit (tx_state tx)))"
    by (rule bump_all_ok) (use 2(8) in \<open>auto simp: bump_commit_def\<close>)
  moreover have "fst ` set cs \<subseteq> set roots"
    using canonical_roots_subset [OF 2(6)] 2(2,5)
    by (simp add: touched_roots_facts tx_wf_def) blast
  moreover have "bt_get (st_values (tx_state tx)) v = bt_get (st_values s) v" if "v \<notin> set roots" for v
    using 2(2,5) that by (simp add: tx_wf_def)
  moreover have "st_next_observation (tx_state tx) = st_next_observation s"
    using 2(5) unfolding tx_wf_def same_static_def
    by (metis store_state.select_convs(5) store_state.surjective store_state.update_convs(1))
  ultimately show ?thesis
    using 2(10) ok bump_all_values [OF 2(7), of "bump_commit (tx_state tx)"]
    by (auto simp: bump_commit_def)
qed (use assms in auto)

text \<open>C13: a transaction is all or nothing. It always returns; when it fails, whether in the
  closure or on the way to the commit, no handler is called and the store is exactly what it was;
  when it succeeds, the store is well formed again and only declared values changed.\<close>

theorem transaction_is_all_or_nothing:
  assumes "store_ok s" "program_ok prog"
  shows "\<exists>r out s'. obs_transaction roots prog s = Some (r, out, s') \<and> store_ok s' \<and>
     (is_ok r \<or> (out = [] \<and> s' = s)) \<and>
     (\<forall>v. v \<in> set roots \<or> bt_get (st_values s') v = bt_get (st_values s) v)"
  using transaction_summary [OF assms, of roots] by blast


subsection \<open>Histories\<close>

datatype 'h store_op =
  OpRegister registration
| OpUnregister value_id
| OpSubscribe observation_spec 'h
| OpUnsubscribe nat nat
| OpClose
| OpTransaction "value_id list" "unit program"

fun store_step :: "'h store_op \<Rightarrow> 'h store_state \<Rightarrow> 'h store_state option" where
  "store_step (OpRegister r) s = Some (snd (obs_register r s))"
| "store_step (OpUnregister v) s = Some (snd (obs_unregister v s))"
| "store_step (OpSubscribe spec h) s = Some (snd (snd (obs_subscribe spec h s)))"
| "store_step (OpUnsubscribe i g) s = Some (snd (obs_unsubscribe i g s))"
| "store_step OpClose s = Some (obs_close s)"
| "store_step (OpTransaction roots prog) s = map_option (\<lambda>r. snd (snd r)) (obs_transaction roots prog s)"

fun store_run :: "'h store_op list \<Rightarrow> 'h store_state \<Rightarrow> 'h store_state option" where
  "store_run [] s = Some s"
| "store_run (op # ops) s = (case store_step op s of None \<Rightarrow> None | Some s' \<Rightarrow> store_run ops s')"

text \<open>The arguments are values and types of the language.\<close>

definition op_ok :: "'h store_op \<Rightarrow> bool" where
  "op_ok op =
     (case op of OpRegister r \<Rightarrow> registration_ok r | OpTransaction roots prog \<Rightarrow> program_ok prog | _ \<Rightarrow> True)"

lemma store_step_ok:
  assumes "store_ok s" "op_ok op" "st_next_observation s < u64_max"
  shows "\<exists>s'. store_step op s = Some s' \<and> store_ok s' \<and> st_next_observation s' \<le> Suc (st_next_observation s)"
proof (cases op)
  case (OpRegister r)
  have "st_next_observation (snd (obs_register r s)) = st_next_observation s"
    by (auto simp: obs_register_def split: sum.splits)
  with OpRegister assms show ?thesis
    using register_ok [of s r] by (cases "obs_register r s") (auto simp: op_ok_def)
next
  case (OpUnregister v)
  have "st_next_observation (snd (obs_unregister v s)) = st_next_observation s"
    by (auto simp: obs_unregister_def Let_def split: sum.splits option.splits)
  with OpUnregister assms show ?thesis
    using unregister_ok [of s v] by (cases "obs_unregister v s") auto
next
  case (OpSubscribe spec h)
  have "st_next_observation (snd (snd (obs_subscribe spec h s))) \<le> Suc (st_next_observation s)"
    by (auto simp: obs_subscribe_def Let_def sat_succ64_def split: sum.splits)
  with OpSubscribe assms show ?thesis
    using subscribe_ok [of s spec h] by (cases "obs_subscribe spec h s") auto
next
  case (OpUnsubscribe i g)
  have "st_next_observation (snd (obs_unsubscribe i g s)) = st_next_observation s"
    by (auto simp: obs_unsubscribe_def Let_def split: sum.splits option.splits)
  with OpUnsubscribe assms show ?thesis
    using unsubscribe_ok [of s i g] by (cases "obs_unsubscribe i g s") auto
next
  case OpClose
  with assms show ?thesis by (simp add: close_ok) (simp add: obs_close_def)
next
  case (OpTransaction roots prog)
  with assms transaction_summary [of s prog roots] show ?thesis
    by (auto simp: op_ok_def)
qed

lemma store_run_ok:
  "store_ok s \<Longrightarrow> list_all op_ok ops \<Longrightarrow> st_next_observation s + length ops \<le> u64_max \<Longrightarrow>
     \<exists>s'. store_run ops s = Some s' \<and> store_ok s'"
proof (induction ops arbitrary: s)
  case (Cons op ops)
  from Cons.prems store_step_ok [of s op] obtain s' where
    "store_step op s = Some s'" "store_ok s'" "st_next_observation s' \<le> Suc (st_next_observation s)" by auto
  with Cons show ?case by auto
qed simp

text \<open>C14: in every history of operations on the store, whatever the closures do, no operation
  panics, every registered value conforms to its schema, every subscription watches a registered
  value, and the path index lists exactly the live subscriptions. The bound keeps the
  subscription counter from saturating.\<close>

theorem store_history_is_well_typed:
  assumes "list_all op_ok ops" "length ops < u64_max"
  shows "\<exists>s. store_run ops store_default = Some s \<and>
     (\<forall>v. case bt_get (st_values s) v of None \<Rightarrow> True | Some rv \<Rightarrow> parse (rv_schema rv) (rv_current rv) = Inr ()) \<and>
     (\<forall>i. case bt_get (st_subscriptions s) i of None \<Rightarrow> True
        | Some e \<Rightarrow> ent_id e = i \<and> bt_has (st_values s) (ent_value e)) \<and>
     (\<forall>v p sc i. i \<in> listed s v p sc \<longleftrightarrow>
        (\<exists>e. bt_get (st_subscriptions s) i = Some e \<and> ent_value e = v \<and> ent_path e = p \<and> ent_scope e = sc))"
proof -
  have "st_next_observation store_default + length ops \<le> u64_max"
    using assms(2) by (simp add: store_default_def)
  with store_run_ok [OF store_ok_default assms(1)] obtain s where
    s: "store_run ops store_default = Some s" "store_ok s" by blast
  then have sub: "subscriptions_ok s" and vals: "values_ok (st_values s)" by (auto simp: store_ok_def)
  show ?thesis
    using s(1) values_okD [OF vals] subscriptions_okD(4,5) [OF sub]
    by (fastforce simp: value_wf_def entry_ok_def bt_has_def split: option.splits)
qed

subsection \<open>Deliveries\<close>

lemma filter_map_delivery:
  "d \<in> set (filter_map (delivery_for s rv changes) ids) \<longleftrightarrow>
     (\<exists>i\<in>set ids. bt_get (st_subscriptions s) i = Some (fst d) \<and>
        snd d = changes_for_subscription (ent_spec (fst d)) changes (rv_current rv) \<and> snd d \<noteq> [])"
  by (cases d) (auto simp: set_filter_map delivery_for_def Let_def split: option.splits if_splits)

lemma distinct_filter_map:
  assumes "subscriptions_ok s" "distinct ids"
  shows "distinct (map (\<lambda>d. ent_id (fst d)) (filter_map (delivery_for s rv changes) ids))"
  using assms(2)
proof (induction ids)
  case (Cons i ids)
  have ent: "bt_get (st_subscriptions s) j = Some e \<Longrightarrow> ent_id e = j" for j e
    using subscriptions_okD(4) [OF assms(1), of j e] by (simp add: entry_ok_def)
  have "ent_id (fst d) \<in> set ids" if "d \<in> set (filter_map (delivery_for s rv changes) ids)" for d
    using that ent by (auto simp: filter_map_delivery)
  moreover have "ent_id (fst d) = i" if "delivery_for s rv changes i = Some d" for d
    using that ent by (auto simp: delivery_for_def Let_def split: option.splits if_splits)
  ultimately show ?case using Cons by (auto split: option.splits)
qed simp

text \<open>The deliveries of one changed value.\<close>

definition root_deliveries ::
  "'h store_state \<Rightarrow> nat \<Rightarrow> value_id \<times> value_change list \<Rightarrow> ('h \<times> observation_delivery) list" where
  "root_deliveries s commit c =
     (let root = root_of commit (fst c) (value_of s (fst c)) (snd c) s
      in map (delivery_of root) (pr_deliveries root))"

lemma deliveries_eq:
  "deliveries (map (\<lambda>(v, changes). root_of commit v (value_of s v) changes s) cs) =
     concat (map (root_deliveries s commit) cs)"
  by (simp add: deliveries_def root_deliveries_def [abs_def] case_prod_beta comp_def Let_def)

lemma root_deliveries_entry:
  assumes "subscriptions_ok s" "(h, d) \<in> set (root_deliveries s commit (v, changes))"
  obtains e where "bt_get (st_subscriptions s) (del_observation d) = Some e" "ent_value e = v" "h = ent_handler e"
    "d = \<lparr>del_commit = Some commit, del_value = v, del_from = rv_version (value_of s v),
          del_version = sat_succ64 (rv_version (value_of s v)), del_address = spec_address (ent_spec e),
          del_observation = ent_id e, del_generation = ent_generation e,
          del_changes = changes_for_subscription (ent_spec e) changes (rv_current (value_of s v)),
          del_snapshot = (if ent_mode e = ModeFull then Some (rv_current (value_of s v)) else None)\<rparr>"
    "del_changes d \<noteq> []"
proof -
  let ?root = "root_of commit v (value_of s v) changes s"
  from assms(2) obtain p where p: "p \<in> set (pr_deliveries ?root)" "(h, d) = delivery_of ?root p"
    by (auto simp: root_deliveries_def Let_def)
  then obtain i where i: "i \<in> set (matched_ids s v changes)" "bt_get (st_subscriptions s) i = Some (fst p)"
      "snd p = changes_for_subscription (ent_spec (fst p)) changes (rv_current (value_of s v))" "snd p \<noteq> []"
    by (auto simp: root_of_def filter_map_delivery)
  from i(1,2) have v: "ent_value (fst p) = v"
    by (auto simp: matched_ids_exact(2) [OF assms(1)])
  from subscriptions_okD(4) [OF assms(1) i(2)] v have e: "ent_id (fst p) = i"
      "ent_mode (fst p) = ModeFull \<longrightarrow> rv_policy (value_of s v) = CopyOnChange"
    by (auto simp: entry_ok_def value_of_def)
  show ?thesis
    by (rule that [of "fst p"]) (use p(2) i v e in \<open>auto simp: delivery_of_def root_of_def Let_def\<close>)
qed

lemma root_deliveries_value:
  assumes "subscriptions_ok s" "x \<in> set (root_deliveries s commit c)"
  shows "map_option ent_value (bt_get (st_subscriptions s) ((\<lambda>(h, d). del_observation d) x)) = Some (fst c)"
proof -
  obtain h d v changes where xc: "x = (h, d)" "c = (v, changes)" by (cases x; cases c) blast
  from assms(2) [unfolded xc] show ?thesis
    by (rule root_deliveries_entry [OF assms(1)]) (simp add: xc)
qed

lemma distinct_deliveries:
  assumes "subscriptions_ok s" "distinct (map fst cs)"
  shows "distinct (map (\<lambda>(h, d). del_observation d) (concat (map (root_deliveries s commit) cs)))"
  using assms(2)
proof (induction cs)
  case (Cons c cs)
  obtain v changes where c: "c = (v, changes)" by (cases c)
  let ?obs = "\<lambda>(h, d). del_observation d"
  let ?root = "root_of commit v (value_of s v) changes s"
  have obs: "?obs (delivery_of ?root p) = ent_id (fst p)" for p
    by (simp add: delivery_of_def Let_def case_prod_beta)
  have "map ?obs (root_deliveries s commit c) = map (\<lambda>p. ent_id (fst p)) (pr_deliveries ?root)"
    unfolding root_deliveries_def c Let_def by (simp add: delivery_of_def Let_def)
  then have "distinct (map ?obs (root_deliveries s commit c))"
    using distinct_filter_map [OF assms(1) matched_ids_exact(1) [OF assms(1)], of "value_of s v" changes v changes]
    by (simp add: root_of_def)
  moreover have "?obs x \<noteq> ?obs y" if x: "x \<in> set (root_deliveries s commit c)"
      and y: "c' \<in> set cs" "y \<in> set (root_deliveries s commit c')" for x y c'
    using root_deliveries_value [OF assms(1), of x commit c] root_deliveries_value [OF assms(1), of y commit c']
      x y Cons.prems by auto
  ultimately show ?case using Cons by (fastforce simp: c)
qed simp

text \<open>What a delivery says about the store before and after the transaction.\<close>

definition delivery_faithful ::
  "'h store_state \<Rightarrow> 'h store_state \<Rightarrow> 'h \<Rightarrow> observation_delivery \<Rightarrow> bool" where
  "delivery_faithful s s' h d \<longleftrightarrow>
     (\<exists>e before after.
        bt_get (st_subscriptions s) (del_observation d) = Some e \<and> h = ent_handler e \<and>
        del_address d = spec_address (ent_spec e) \<and> del_generation d = ent_generation e \<and>
        del_value d = ent_value e \<and> bt_get (st_values s) (del_value d) = Some before \<and>
        bt_get (st_values s') (del_value d) = Some after \<and> del_from d = rv_version before \<and>
        del_version d = rv_version after \<and> rv_version after = sat_succ64 (rv_version before) \<and>
        del_changes d \<noteq> [] \<and>
        del_snapshot d = (if ent_mode e = ModeFull then Some (rv_current after) else None))"

lemma same_static_version:
  assumes "same_static s t" "bt_has (st_values t) v"
  shows "bt_get (st_values s) v = Some (value_of s v)" "bt_get (st_values t) v = Some (value_of t v)"
    "rv_version (value_of s v) = rv_version (value_of t v)"
proof -
  show v: "bt_get (st_values s) v = Some (value_of s v)" "bt_get (st_values t) v = Some (value_of t v)"
    using assms same_static_has [OF assms(1), of v] by (auto simp: bt_has_def value_of_def)
  have "map_option static (bt_get (st_values s) v) = map_option static (bt_get (st_values t) v)"
    using assms(1) by (simp add: same_static_def)
  with v have "static (value_of s v) = static (value_of t v)" by simp
  from arg_cong [OF this, of rv_version] show "rv_version (value_of s v) = rv_version (value_of t v)"
    by (simp add: static_def)
qed

lemma committed_delivery_faithful:
  assumes "store_ok s" "tx_wf s tx" "distinct (map fst cs)"
    and "\<forall>v\<in>fst ` set cs. bt_has (st_values (tx_state tx)) v"
    and "(h, d) \<in> set (concat (map (root_deliveries (tx_state tx) commit) cs))"
  shows "delivery_faithful s (bump_all (map fst cs) (bump_commit (tx_state tx))) h d"
proof -
  let ?t = "tx_state tx" and ?s' = "bump_all (map fst cs) (bump_commit (tx_state tx))"
  have st: "same_static ?t s" and sub: "subscriptions_ok ?t"
    using assms(1,2) tx_wf_subscriptions by (auto simp: tx_wf_def store_ok_def)
  from st have frame: "?t\<lparr>st_values := []\<rparr> = s\<lparr>st_values := []\<rparr>" by (simp add: same_static_def)
  have subs: "st_subscriptions ?t = st_subscriptions s"
    using arg_cong [OF frame, of st_subscriptions] by simp
  from assms(5) obtain v changes where c: "(v, changes) \<in> set cs" "(h, d) \<in> set (root_deliveries ?t commit (v, changes))"
    by auto
  have "bt_has (st_values s) v"
    using assms(4) c(1) same_static_has [OF st, of v] by force
  note v = same_static_version [OF st this]
  have "bt_get (st_values ?s') v =
      Some ((value_of ?t v)\<lparr>rv_version := sat_succ64 (rv_version (value_of ?t v))\<rparr>)"
    using bump_all_values [OF assms(3), of "bump_commit ?t" v] c(1)
    by (force simp: bump_commit_def value_of_def)
  with root_deliveries_entry [OF sub c(2)] v subs show ?thesis
    unfolding delivery_faithful_def by (smt (verit) observation_delivery.select_convs
        registered_value.select_convs registered_value.surjective registered_value.update_convs)
qed

text \<open>C15: the handlers called for a committed transaction are those of live subscriptions, each at
  most once; a delivery carries the version before and the one after, which is one more, at least
  one change, and to a full subscription the value as committed.\<close>

theorem deliveries_are_faithful:
  assumes "store_ok s" "program_ok prog" "obs_transaction roots prog s = Some (r, out, s')"
  shows "distinct (map (\<lambda>(h, d). del_observation d) out) \<and> (\<forall>(h, d)\<in>set out. delivery_faithful s s' h d)"
  using assms(1,2)
proof (cases rule: transaction_cases [of s prog roots])
  case (2 r' tx cs)
  have sub: "subscriptions_ok (tx_state tx)"
    using tx_wf_subscriptions [OF 2(5)] assms(1) by (simp add: store_ok_def)
  from 2(10) assms(3) have out: "out = concat (map (root_deliveries (tx_state tx) (st_next_commit (tx_state tx))) cs)"
      "cs \<noteq> [] \<longrightarrow> s' = bump_all (map fst cs) (bump_commit (tx_state tx))"
    by (auto simp: deliveries_eq)
  have "delivery_faithful s s' h d" if "(h, d) \<in> set out" for h d
    using committed_delivery_faithful [OF assms(1) 2(5,7,8)] that out by auto
  with distinct_deliveries [OF sub 2(7)] show ?thesis
    by (auto simp: out(1))
qed (use assms in auto)

subsection \<open>The index decides who is told\<close>

lemma starts_with_antisym: "starts_with p q \<Longrightarrow> starts_with q p \<Longrightarrow> p = q"
  by (auto simp: starts_with_iff)

lemma subscription_fold:
  "let st = fold (subscription_step spec) changes (out, anc)
   in fst st \<noteq> [] \<or> snd st \<longleftrightarrow> out \<noteq> [] \<or> anc \<or> (\<exists>c\<in>set changes. change_matches spec (change_path c))"
proof (induction changes arbitrary: out anc)
  case (Cons c changes)
  obtain out' anc' where step: "subscription_step spec c (out, anc) = (out', anc')"
    by (cases "subscription_step spec c (out, anc)")
  then have "out' \<noteq> [] \<or> anc' \<longleftrightarrow> out \<noteq> [] \<or> anc \<or> change_matches spec (change_path c)"
    using starts_with_antisym [of "change_path c" "addr_path (spec_address spec)"]
    by (auto simp: subscription_step_def change_matches_def relative_to_def Let_def
        split: if_splits observation_scope.splits)
  with Cons [of out' anc'] step show ?case by (auto simp: Let_def)
qed (simp add: Let_def)

lemma changes_for_subscription_empty:
  "changes_for_subscription spec changes current = [] \<longleftrightarrow>
     (\<forall>c\<in>set changes. \<not> change_matches spec (change_path c))"
  using subscription_fold [of spec changes "[]" False]
  by (auto simp: changes_for_subscription_def Let_def case_prod_beta split: option.splits)

lemma path_reaches_matches: "path_reaches p (addr_path (spec_address spec)) (spec_scope spec) \<longleftrightarrow> change_matches spec p"
  by (cases "spec_scope spec") (auto simp: path_reaches_def change_matches_def Let_def)

lemma splice_reaches_path: "splice_reaches p affected q sc \<Longrightarrow> path_reaches p q sc"
  by (induction p affected q sc rule: splice_reaches.induct) auto

lemma change_reaches_matches:
  "change_reaches c (addr_path (spec_address spec)) (spec_scope spec) \<Longrightarrow> change_matches spec (change_path c)"
  by (cases c) (auto simp: change_reaches_def path_reaches_matches [symmetric] dest: splice_reaches_path)

definition replaces :: "value_change \<Rightarrow> bool" where
  "replaces c = (case c of Splice p i d ins \<Rightarrow> False | _ \<Rightarrow> True)"

text \<open>walking the path index finds the same subscriptions as asking every subscription whether
  the changes concern it, when the changes replace or remove; and whatever the changes, each
  subscription the index finds has something to be told.\<close>

lemma index_finds_the_concerned:
  assumes "store_ok s"
  shows "(\<forall>i\<in>set (matched_ids s v changes). delivery_for s rv changes i \<noteq> None) \<and>
     ((\<exists>c\<in>set changes. \<not> replaces c) \<or>
      set (matched_ids s v changes) =
        {i. \<exists>e. bt_get (st_subscriptions s) i = Some e \<and> ent_value e = v \<and>
              changes_for_subscription (ent_spec e) changes (rv_current rv) \<noteq> []})"
proof -
  from assms have sub: "subscriptions_ok s" by (simp add: store_ok_def)
  have "change_reaches c q sc = path_reaches (change_path c) q sc" if "replaces c" for c q sc
    using that by (cases c) (auto simp: change_reaches_def replaces_def)
  then have "(\<forall>c\<in>set changes. replaces c) \<longrightarrow> set (matched_ids s v changes) =
        {i. \<exists>e. bt_get (st_subscriptions s) i = Some e \<and> ent_value e = v \<and>
              (\<exists>c\<in>set changes. change_matches (ent_spec e) (change_path c))}"
    by (auto simp: matched_ids_exact(2) [OF sub] path_reaches_matches)
  moreover have "delivery_for s rv changes i \<noteq> None" if "i \<in> set (matched_ids s v changes)" for i
    using that change_reaches_matches
    by (fastforce simp: matched_ids_exact(2) [OF sub] delivery_for_def changes_for_subscription_empty Let_def)
  ultimately show ?thesis
    by (auto simp: changes_for_subscription_empty)
qed

subsection \<open>An example\<close>

text \<open>A store with one list of integers and one subscriber to all of it.\<close>

definition list_store :: "nat store_state" where
  "list_store =
     (let s = snd (obs_register \<lparr>reg_id = ''v'', reg_owner = ''p'', reg_schema = TList TI64, reg_policy = CurrentOnly,
                     reg_initial = VList [VI64 1, VI64 2]\<rparr> store_default)
      in snd (snd (obs_subscribe \<lparr>spec_address = \<lparr>addr_value = ''v'', addr_path = []\<rparr>, spec_scope = ScopeRecursive,
                     spec_mode = ModeDiff, spec_initial = InitialNone\<rparr> 0 s)))"

lemmas evaluation =
  list_store_def store_default_def obs_register_def obs_subscribe_def
  check_subscription_def ensure_open_def registered_def validate_path_def bt_has_def Let_def or_empty_def
  sat_succ64_def u64_max_def obs_transaction_def tx_begin_def apply_call_def tx_replace_def tx_splice_def
  with_declared_def ensure_declared_def check_replace_def check_splice_def splice_item_def splice_items_def
  check_range_def check_length_def splice_list_def mutated_def set_current_def finish_def touched_roots_def
  canonicalize_root_def selected_touched_def select_touched_def covered_def is_splice_def canonical_step_def
  original_at_def probe_step_def undo_value_def probe_replace_def probe_splice_def unsplice_def
  option_value_eq_def change_of_def finish_root_def bump_version_def matched_ids_def collect_change_def
  prepare_delivery_def changes_for_subscription_def subscription_step_def change_matches_def relative_to_def
  rebase_change_def deliveries_def delivery_of_def value_of_def
  less_eq_path_segment_def less_path_segment_def restore_child_def

lemma list_store_ok: "store_ok list_store"
proof -
  let ?r = "\<lparr>reg_id = ''v'', reg_owner = ''p'', reg_schema = TList TI64, reg_policy = CurrentOnly,
      reg_initial = VList [VI64 1, VI64 2]\<rparr>"
  have "store_ok (snd (obs_register ?r store_default))"
    by (rule register_ok [OF store_ok_default]) (auto simp: registration_ok_def prod_eq_iff)
  then show ?thesis
    unfolding list_store_def Let_def
    by (rule subscribe_ok) (auto simp: prod_eq_iff obs_register_def ensure_open_def store_default_def u64_max_def bt_has_def)
qed

text \<open>A transaction that replaces the first element and then tries to remove the whole value.\<close>

definition failing :: "unit program" where
  "failing = Call (CallReplace ''v'' [Index 0] (VI64 9)) (\<lambda>_. Call (CallRemove ''v'' []) Return)"

theorem transaction_is_all_or_nothing_witness:
  "\<exists>r out s'. obs_transaction [''v''] failing list_store = Some (r, out, s') \<and> \<not> is_ok r \<and> out = [] \<and> s' = list_store"
proof -
  have "program_ok failing" by (simp add: failing_def call_ok_def)
  from transaction_is_all_or_nothing [OF list_store_ok this, of "[''v'']"] obtain r out s' where
    t: "obs_transaction [''v''] failing list_store = Some (r, out, s')" "is_ok r \<or> (out = [] \<and> s' = list_store)" by blast
  have "map_option fst (obs_transaction [''v''] failing list_store) = Some (Inl (InvalidPath ''v'' [] RootRemoval))"
    by (simp add: evaluation failing_def tx_remove_def)
  with t show ?thesis by auto
qed

definition example_ops :: "nat store_op list" where
  "example_ops =
     [OpRegister \<lparr>reg_id = ''v'', reg_owner = ''p'', reg_schema = TList TI64, reg_policy = CurrentOnly,
        reg_initial = VList [VI64 1, VI64 2]\<rparr>,
      OpSubscribe \<lparr>spec_address = \<lparr>addr_value = ''v'', addr_path = []\<rparr>, spec_scope = ScopeRecursive,
        spec_mode = ModeDiff, spec_initial = InitialNone\<rparr> 0,
      OpTransaction [''v''] failing]"

theorem store_history_is_well_typed_witness:
  "\<exists>s. store_run example_ops store_default = Some s \<and>
     (\<forall>v. case bt_get (st_values s) v of None \<Rightarrow> True | Some rv \<Rightarrow> parse (rv_schema rv) (rv_current rv) = Inr ())"
proof -
  have ops: "list_all op_ok example_ops" "length example_ops < u64_max"
    by (simp_all add: example_ops_def op_ok_def registration_ok_def failing_def call_ok_def u64_max_def)
  show ?thesis using store_history_is_well_typed [OF ops] by blast
qed

definition replace_one :: "unit program" where
  "replace_one = Call (CallReplace ''v'' [Index 0] (VI64 9)) Return"

theorem deliveries_are_faithful_witness:
  "\<exists>r out s'. obs_transaction [''v''] replace_one list_store = Some (r, out, s') \<and> length out = 1 \<and>
     (\<forall>(h, d)\<in>set out. delivery_faithful list_store s' h d)"
proof -
  have "program_ok replace_one" by (simp add: replace_one_def call_ok_def)
  obtain r out s' where run: "obs_transaction [''v''] replace_one list_store = Some (r, out, s')" "length out = 1"
    by (simp add: evaluation replace_one_def)
  from deliveries_are_faithful [OF list_store_ok \<open>program_ok replace_one\<close> run(1)] run show ?thesis by blast
qed

lemma index_finds_the_concerned_witness:
  "set (matched_ids list_store ''v'' [Replace [Index 0] (VI64 9)]) =
     {i. \<exists>e. bt_get (st_subscriptions list_store) i = Some e \<and> ent_value e = ''v'' \<and>
        changes_for_subscription (ent_spec e) [Replace [Index 0] (VI64 9)] (rv_current (value_of list_store ''v'')) \<noteq> []}"
  using index_finds_the_concerned [OF list_store_ok, of "''v''" "[Replace [Index 0] (VI64 9)]" "value_of list_store ''v''"]
  by (simp add: replaces_def)

end
