(* ===== verification/Observable_Changes.thy ===== *)
theory Observable_Changes
  imports Observable_Safety
begin

text \<open>
  What the change lists mean: a subscriber that applies the changes it is told to the value it had
  gets the value as committed. It holds of every transaction with a single mutation; it fails for
  some with two, which the last section exhibits.
\<close>

subsection \<open>Replaying changes\<close>

text \<open>A subscriber's copy of the value at its address; \<open>None\<close> while the value is absent.\<close>

definition replay_splice :: "phx_value \<Rightarrow> path \<Rightarrow> nat \<Rightarrow> nat \<Rightarrow> phx_value list \<Rightarrow> phx_value option" where
  "replay_splice x p start deleted ins =
     (case value_at_optional x p of
        Some (VList items) \<Rightarrow> Some (put_at x p (VList (snd (splice_list items start (start + deleted) ins))))
      | _ \<Rightarrow> None)"

fun replay_change :: "value_change \<Rightarrow> phx_value option \<Rightarrow> phx_value option" where
  "replay_change (Replace p n) x =
     (if p = [] then Some n
      else case x of None \<Rightarrow> None | Some v \<Rightarrow> (case replace_at v p n of Inr (old, v') \<Rightarrow> Some v' | Inl e \<Rightarrow> None))"
| "replay_change (Remove p) x =
     (if p = [] then None
      else case x of None \<Rightarrow> None | Some v \<Rightarrow> (case remove_at v p of Inr (old, v') \<Rightarrow> Some v' | Inl e \<Rightarrow> None))"
| "replay_change (Splice p start deleted ins) x =
     (case x of None \<Rightarrow> None | Some v \<Rightarrow> replay_splice v p start deleted ins)"

definition replay :: "value_change list \<Rightarrow> phx_value option \<Rightarrow> phx_value option" where
  "replay changes x = fold replay_change changes x"

subsection \<open>Edits seen from a place above them\<close>

lemma within_place:
  assumes "within v s f = Inr (r, v')"
  obtains w w' where "child_at v s = Some w" "f w = Inr (r, w')" "child_at v' s = Some w'"
  using assms child_put by (auto simp: within_ok)

lemma replace_at_place:
  "replace_at v (q @ t # r) n = Inr (old, v') \<Longrightarrow>
     \<exists>w w'. value_at_optional v q = Some w \<and> replace_at w (t # r) n = Inr (old, w') \<and>
       value_at_optional v' q = Some w'"
proof (induction q arbitrary: v v')
  case (Cons s q)
  then obtain w w' where "child_at v s = Some w" "replace_at w (q @ t # r) n = Inr (old, w')" "child_at v' s = Some w'"
    by (cases q) (auto elim: within_place)
  with Cons.IH [of w w'] show ?case by auto
qed simp

lemma remove_at_place:
  "remove_at v (q @ t # r) = Inr (old, v') \<Longrightarrow>
     \<exists>w w'. value_at_optional v q = Some w \<and> remove_at w (t # r) = Inr (old, w') \<and>
       value_at_optional v' q = Some w'"
proof (induction q arbitrary: v v')
  case (Cons s q)
  then obtain w w' where "child_at v s = Some w" "remove_at w (q @ t # r) = Inr (old, w')" "child_at v' s = Some w'"
    by (cases q) (auto elim: within_place)
  with Cons.IH [of w w'] show ?case by auto
qed simp

lemma put_at_place:
  "value_at_optional v (q @ r) = Some y \<Longrightarrow>
     \<exists>w. value_at_optional v q = Some w \<and> value_at_optional w r = Some y \<and>
       value_at_optional (put_at v (q @ r) x) q = Some (put_at w r x)"
proof (induction q arbitrary: v)
  case (Cons s q)
  then obtain u where "child_at v s = Some u" "value_at_optional u (q @ r) = Some y"
    by (auto split: option.splits)
  with Cons.IH [of u] show ?case by (auto simp: child_put)
qed simp

lemma replace_child_place:
  "replace_child v s n = Inr (old, v') \<Longrightarrow> child_at v s = old \<and> child_at v' s = Some n"
proof (induction v s n rule: replace_child.induct)
  case (4 x n)
  then show ?case by (cases x) auto
qed (auto simp: map_simps split: option.splits if_splits)

lemma remove_child_place: "remove_child v s = Inr (old, v') \<Longrightarrow> child_at v s = old \<and> child_at v' s = None"
proof (induction v s rule: remove_child.induct)
  case (2 x)
  then show ?case by (cases x) auto
qed (auto simp: map_simps)

lemma replace_at_value:
  assumes "replace_at v p n = Inr (old, v')"
  shows "value_at_optional v p = old" "value_at_optional v' p = Some n"
proof -
  have "value_at_optional v p = old \<and> value_at_optional v' p = Some n"
  proof (cases p rule: rev_cases)
    case (snoc q s)
    with assms replace_at_place [of v q s "[]" n old v'] obtain w w' where
      "value_at_optional v q = Some w" "replace_child w s n = Inr (old, w')" "value_at_optional v' q = Some w'"
      by auto
    with snoc replace_child_place [of w s n old w'] show ?thesis
      by (auto simp: value_at_append split: option.splits)
  qed (use assms in auto)
  then show "value_at_optional v p = old" "value_at_optional v' p = Some n" by auto
qed

lemma remove_at_value:
  assumes "remove_at v p = Inr (old, v')"
  shows "value_at_optional v p = old" "value_at_optional v' p = None"
proof -
  have "value_at_optional v p = old \<and> value_at_optional v' p = None"
  proof (cases p rule: rev_cases)
    case (snoc q s)
    with assms remove_at_place [of v q s "[]" old v'] obtain w w' where
      "value_at_optional v q = Some w" "remove_child w s = Inr (old, w')" "value_at_optional v' q = Some w'"
      by auto
    with snoc remove_child_place [of w s old w'] show ?thesis
      by (auto simp: value_at_append split: option.splits)
  qed (use assms in auto)
  then show "value_at_optional v p = old" "value_at_optional v' p = None" by auto
qed

text \<open>A change that takes \<open>v\<close> to \<open>v'\<close>, as one call of a transaction makes it.\<close>

definition makes :: "value_change \<Rightarrow> phx_value \<Rightarrow> phx_value \<Rightarrow> bool" where
  "makes c v v' =
     (case c of
        Replace p n \<Rightarrow> (\<exists>old. replace_at v p n = Inr (old, v'))
      | Remove p \<Rightarrow> (\<exists>old. remove_at v p = Inr (old, v'))
      | Splice p start deleted ins \<Rightarrow> replay_splice v p start deleted ins = Some v')"

lemma makes_below:
  assumes "makes c v v'" "change_path c = q @ r"
  shows "replay_change (rebase_change c r) (value_at_optional v q) = value_at_optional v' q"
proof (cases c)
  case (Replace p n)
  with assms obtain old where old: "replace_at v (q @ r) n = Inr (old, v')" by (auto simp: makes_def)
  show ?thesis
  proof (cases r)
    case Nil
    with Replace old replace_at_value(2) [of v q n old v'] show ?thesis by (simp add: rebase_change_def)
  next
    case (Cons t r')
    with Replace old replace_at_place [of v q t r' n old v'] show ?thesis by (auto simp: rebase_change_def)
  qed
next
  case (Remove p)
  with assms obtain old where old: "remove_at v (q @ r) = Inr (old, v')" by (auto simp: makes_def)
  show ?thesis
  proof (cases r)
    case Nil
    with Remove old remove_at_value(2) [of v q old v'] show ?thesis by (simp add: rebase_change_def)
  next
    case (Cons t r')
    with Remove old remove_at_place [of v q t r' old v'] show ?thesis by (auto simp: rebase_change_def)
  qed
next
  case (Splice p i d ins)
  with assms obtain items where items: "value_at_optional v (q @ r) = Some (VList items)"
      "v' = put_at v (q @ r) (VList (snd (splice_list items i (i + d) ins)))"
    by (auto simp: makes_def replay_splice_def split: option.splits phx_value.splits)
  from put_at_place [OF items(1), of "VList (snd (splice_list items i (i + d) ins))"] items(2) Splice show ?thesis
    by (auto simp: rebase_change_def replay_splice_def)
qed

text \<open>What a subscription is told of one change brings its copy up to date.\<close>

lemma changes_for_one:
  assumes "makes c v v'" "change_matches spec (change_path c)"
  shows "replay (changes_for_subscription spec [c] v') (value_at_optional v (addr_path (spec_address spec))) =
     value_at_optional v' (addr_path (spec_address spec))"
proof -
  let ?q = "addr_path (spec_address spec)"
  show ?thesis
  proof (cases "starts_with ?q (change_path c) \<and> change_path c \<noteq> ?q")
    case True
    with assms(2) show ?thesis
      by (auto simp: changes_for_subscription_def subscription_step_def Let_def replay_def split: option.splits)
  next
    case False
    with assms(2) have "starts_with (change_path c) ?q"
      by (auto simp: change_matches_def Let_def split: observation_scope.splits)
    then obtain r where r: "change_path c = ?q @ r" by (auto simp: starts_with_iff)
    with False assms(2) have "changes_for_subscription spec [c] v' = [rebase_change c r]"
      by (auto simp: changes_for_subscription_def subscription_step_def Let_def relative_to_eq
          split: option.splits)
    with makes_below [OF assms(1) r] show ?thesis by (simp add: replay_def)
  qed
qed

subsection \<open>Transactions with one mutation\<close>

text \<open>The canonical change list after the first call of a transaction.\<close>

definition canonical_one :: "value_change \<Rightarrow> phx_value \<Rightarrow> phx_value \<Rightarrow> value_change list" where
  "canonical_one c v v' =
     (if option_value_eq (value_at_optional v' (change_path c)) (value_at_optional v (change_path c)) then [] else [c])"

definition first_call ::
  "value_id \<Rightarrow> registered_value \<Rightarrow> value_change \<Rightarrow> phx_value \<Rightarrow> 'h transaction \<Rightarrow> 'h transaction \<Rightarrow> bool" where
  "first_call v rv ch x tx tx' \<longleftrightarrow>
     bt_get (st_values (tx_state tx)) v = Some rv \<and> makes ch (rv_current rv) x \<and>
     tx_state tx' = set_current v rv x (tx_state tx) \<and> map tm_value (tx_touched tx') = [v] \<and>
     canonicalize_root tx' v = Some (Inr (canonical_one ch (rv_current rv) x))"

lemma selected_one: "tm_value t = v \<Longrightarrow> selected_touched v [t] = [t]"
  by (simp add: selected_touched_def select_touched_def covered_def)

lemma first_call_replace:
  assumes "tx_undo tx = []" "tx_touched tx = []" "bt_get (st_values (tx_state tx)) v = Some rv"
    and "kind = TouchedReplace \<and> replace_at (rv_current rv) p n = Inr (old, x) \<and> ch = Replace p n \<or>
         kind = TouchedRemove \<and> remove_at (rv_current rv) p = Inr (old, x) \<and> ch = Remove p"
  shows "first_call v rv ch x tx (mutated v rv x (UndoReplace v p old) p kind tx)"
proof -
  have "value_at_optional (rv_current rv) p = old"
    using assms(4) replace_at_value(1) remove_at_value(1) by blast
  moreover have "change_of \<lparr>tm_value = v, tm_path = p, tm_kind = kind\<rparr> (value_at_optional x p) = ch"
    "change_path ch = p" "makes ch (rv_current rv) x"
    using assms(4) replace_at_value(2) remove_at_value(2) by (fastforce simp: change_of_def makes_def)+
  ultimately show ?thesis
    using assms(1-3)
    by (simp add: first_call_def mutated_def set_current_def canonicalize_root_def map_simps selected_one
        canonical_step_def original_at_def probe_step_def undo_value_def probe_replace_def canonical_one_def)
qed

lemma first_call_splice:
  assumes "tx_undo tx = []" "tx_touched tx = []" "bt_get (st_values (tx_state tx)) v = Some rv"
    and "check_splice v p i d ins rv = Inr (removed, x)"
  shows "first_call v rv (Splice p i d ins) x tx
     (mutated v rv x (UndoSplice v p i (length ins) removed) p (TouchedSplice i d ins) tx)"
proof -
  from assms(4) obtain items where
    "value_at_optional (rv_current rv) p = Some (VList items)" "i + d \<le> length items"
    "removed = fst (splice_list items i (i + d) ins)"
    "x = put_at (rv_current rv) p (VList (snd (splice_list items i (i + d) ins)))"
    by (rule check_splice_ok)
  moreover from this have "value_at_optional x p = Some (VList (snd (splice_list items i (i + d) ins)))"
    using put_at_place [of "rv_current rv" p "[]"] by simp
  moreover have "snd (splice_list (snd (splice_list items i (i + d) ins)) i
      (min (i + length ins) (length (snd (splice_list items i (i + d) ins)))) removed) = items"
    using splice_list_undo [of items i "i + d" ins removed] calculation(2,3)
    by (metis add_leD1 le_add1 prod.collapse snd_conv)
  ultimately show ?thesis
    using assms(1-3)
    by (simp add: first_call_def mutated_def set_current_def canonicalize_root_def map_simps selected_one
        canonical_step_def original_at_def probe_step_def undo_value_def probe_splice_def canonical_one_def
        change_of_def makes_def replay_splice_def unsplice_def)
qed

lemma with_checked:
  assumes "with_declared v tx (\<lambda>rv. case chk rv of Inl e \<Rightarrow> (Inl e, tx) | Inr (a, b) \<Rightarrow> (Inr (), g rv a b)) =
     Some (Inr u, tx')"
  shows "\<exists>rv a b. v \<in> set (tx_declared tx) \<and> bt_get (st_values (tx_state tx)) v = Some rv \<and>
     chk rv = Inr (a, b) \<and> tx' = g rv a b"
proof -
  from assms obtain rv where rv: "v \<in> set (tx_declared tx)" "bt_get (st_values (tx_state tx)) v = Some rv"
      "(case chk rv of Inl e \<Rightarrow> (Inl e, tx) | Inr (a, b) \<Rightarrow> (Inr (), g rv a b)) = (Inr u, tx')"
    by (auto simp: with_declared_def ensure_declared_def split: if_splits)
  then show ?thesis by (cases "chk rv") (auto simp: case_prod_beta)
qed

lemma first_call_exists:
  assumes "tx_undo tx = []" "tx_touched tx = []" "apply_call c tx = Some (Inr (), tx')"
  shows "\<exists>v rv ch x. v \<in> set (tx_declared tx) \<and> first_call v rv ch x tx tx'"
proof -
  have splice: "\<exists>v rv ch x. v \<in> set (tx_declared tx) \<and> first_call v rv ch x tx tx'"
    if "tx_splice v p i d ins tx = Some (Inr (), tx')" for v p i d ins
    using with_checked [OF that [unfolded tx_splice_def]] first_call_splice [OF assms(1,2)]
    by blast
  show ?thesis
  proof (cases c)
    case (CallReplace v p n)
    with assms(3) have "tx_replace v p n tx = Some (Inr (), tx')" by (simp add: apply_call_def)
    from with_checked [OF this [unfolded tx_replace_def]] obtain rv old x where
      v: "v \<in> set (tx_declared tx)" "bt_get (st_values (tx_state tx)) v = Some rv"
      "check_replace v p n rv = Inr (old, x)" "tx' = mutated v rv x (UndoReplace v p old) p TouchedReplace tx"
      by blast
    from v(3) have "replace_at (rv_current rv) p n = Inr (old, x)"
      by (auto simp: check_replace_def rbind_eq_Inr)
    with v first_call_replace [OF assms(1,2) v(2)] show ?thesis by blast
  next
    case (CallSplice v p i d ins)
    with assms(3) splice show ?thesis by (simp add: apply_call_def)
  next
    case (CallRemove v p)
    with assms(3) have "tx_remove v p tx = Some (Inr (), tx')" by (simp add: apply_call_def)
    then consider i where "tx_splice v (butlast p) i 1 [] tx = Some (Inr (), tx')"
      | "tx_remove_member v p tx = Some (Inr (), tx')"
      by (auto simp: tx_remove_def split: sum.splits if_splits path_segment.splits)
    then show ?thesis
    proof cases
      case 2
      from with_checked [OF 2 [unfolded tx_remove_member_def]] obtain rv old x where
        v: "v \<in> set (tx_declared tx)" "bt_get (st_values (tx_state tx)) v = Some rv"
        "check_remove v p rv = Inr (old, x)" "tx' = mutated v rv x (UndoReplace v p old) p TouchedRemove tx"
        by blast
      from v(3) have "remove_at (rv_current rv) p = Inr (old, x)"
        by (auto simp: check_remove_def rbind_eq_Inr split: path_segment.splits)
      with v first_call_replace [OF assms(1,2) v(2)] show ?thesis by blast
    qed (rule splice)
  qed
qed

lemma single_call_deliveries:
  assumes "store_ok s" "call_ok c" "obs_transaction roots (Call c Return) s = Some (r, out, s')" "(h, d) \<in> set out"
  obtains spec ch v x where "del_address d = spec_address spec" "addr_value (del_address d) = v" "del_value d = v"
    "makes ch (rv_current (value_of s v)) x" "rv_current (value_of s' v) = x"
    "del_changes d = changes_for_subscription spec [ch] x" "del_changes d \<noteq> []"
proof -
  have prog: "program_ok (Call c Return)" using assms(2) by simp
  show ?thesis
    using assms(1) prog
  proof (cases rule: transaction_cases [of s "Call c Return" roots])
    case (1 e)
    with assms(3,4) show ?thesis by simp
  next
    case (2 r' tx cs)
    let ?tx = "tx_begin (sort (extend_unique [] roots)) s"
    from 2(4) have call: "apply_call c ?tx = Some (Inr (), tx)"
      by (auto split: option.splits)
    from first_call_exists [OF _ _ call] obtain v rv ch x where
      "first_call v rv ch x ?tx tx" by (auto simp: tx_begin_def)
    then have f: "bt_get (st_values s) v = Some rv" "makes ch (rv_current rv) x" "tx_state tx = set_current v rv x s"
        "touched_roots (tx_touched tx) = [v]" "canonicalize_root tx v = Some (Inr (canonical_one ch (rv_current rv) x))"
      by (auto simp: first_call_def tx_begin_def touched_roots_def)
    have sub: "subscriptions_ok (tx_state tx)"
      using tx_wf_subscriptions [OF 2(5)] assms(1) by (simp add: store_ok_def)
    from 2(10) assms(3) have out: "out = concat (map (root_deliveries (tx_state tx) (st_next_commit (tx_state tx))) cs)"
        "cs \<noteq> [] \<longrightarrow> s' = bump_all (map fst cs) (bump_commit (tx_state tx))"
      by (auto simp: deliveries_eq)
    from 2(6) f(4,5) assms(4) out have cs: "cs = [(v, [ch])]"
      by (auto simp: canonical_one_def split: if_splits)
    have x: "value_of (tx_state tx) v = rv\<lparr>rv_current := x\<rparr>"
      using f(3) by (simp add: value_of_def set_current_def map_simps)
    have s': "rv_current (value_of s' v) = x"
      using out cs bump_all_values [of "[v]" "bump_commit (tx_state tx)" v] x
      by (simp add: value_of_def bump_commit_def bump_version_def map_simps)
    from out cs assms(4) have member: "(h, d) \<in> set (root_deliveries (tx_state tx) (st_next_commit (tx_state tx)) (v, [ch]))"
      by simp
    show ?thesis
    proof (rule root_deliveries_entry [OF sub member], goal_cases)
      case (1 e)
      then show ?case
        using that [of "ent_spec e" v ch x] f(1,2) x s' by (simp add: value_of_def)
    qed
  qed
qed

text \<open>when a transaction makes one mutation, every subscriber that applies the changes it is
  told to the value it saw before gets the value after, at whatever path and scope it listens.\<close>

lemma single_mutation_diffs_replay:
  assumes "store_ok s" "call_ok c" "obs_transaction roots (Call c Return) s = Some (r, out, s')" "(h, d) \<in> set out"
  shows "replay (del_changes d) (value_at_optional (rv_current (value_of s (del_value d))) (addr_path (del_address d))) =
     value_at_optional (rv_current (value_of s' (del_value d))) (addr_path (del_address d))"
proof -
  from single_call_deliveries [OF assms] obtain spec ch v x where
    d: "del_address d = spec_address spec" "del_value d = v" "makes ch (rv_current (value_of s v)) x"
    "rv_current (value_of s' v) = x" "del_changes d = changes_for_subscription spec [ch] x" "del_changes d \<noteq> []"
    by metis
  then have "change_matches spec (change_path ch)"
    by (auto simp: changes_for_subscription_empty)
  from changes_for_one [OF d(3) this] d show ?thesis by simp
qed

definition replace_first :: "int \<Rightarrow> mutation_call" where
  "replace_first k = CallReplace ''v'' [Index 0] (VI64 k)"

lemma single_mutation_diffs_replay_witness:
  "\<exists>d :: observation_delivery. del_changes d = [Replace [Index 0] (VI64 9)] \<and>
     replay (del_changes d) (value_at_optional (rv_current (value_of list_store (del_value d))) (addr_path (del_address d))) =
       Some (VList [VI64 9, VI64 2])"
proof -
  obtain r h d s' where run: "obs_transaction [''v''] (Call (replace_first 9) Return) list_store = Some (r, [(h, d)], s')"
    "del_changes d = [Replace [Index 0] (VI64 9)]" "del_value d = ''v''" "addr_path (del_address d) = []"
    "rv_current (value_of s' ''v'') = VList [VI64 9, VI64 2]"
    by (simp add: evaluation replace_first_def)
  have "call_ok (replace_first 9)" by (simp add: replace_first_def call_ok_def)
  from single_mutation_diffs_replay [OF list_store_ok this run(1), of h d] run(2-) show ?thesis
    by (intro exI [of _ d]) simp
qed

subsection \<open>Two mutations\<close>

text \<open>
  The store \<open>list_store\<close> has one list and one subscriber to all of it. Replacing an element and then inserting in
  front of it leaves \<open>[1, 9, 2]\<close>; the subscriber is told of the insertion alone, because the
  replaced path now holds what the replaced element held before, and its copy becomes
  \<open>[1, 1, 2]\<close>. In the other example the replacement is reported after the splice, at the index it
  had before it, with the inserted value.
\<close>

definition replace_then_insert :: "int \<Rightarrow> unit program" where
  "replace_then_insert k =
     Call (CallReplace ''v'' [Index 0] (VI64 9)) (\<lambda>_. Call (CallSplice ''v'' [] 0 0 [VI64 k]) Return)"

definition told :: "unit program \<Rightarrow> nat store_state \<Rightarrow> (value_change list list \<times> phx_value) option" where
  "told prog s =
     map_option (\<lambda>(r, out, s'). (map (\<lambda>(h, d). del_changes d) out, rv_current (value_of s' ''v'')))
       (obs_transaction [''v''] prog s)"

lemma replaced_element_is_lost:
  "told (replace_then_insert 1) list_store =
     Some ([[Splice [] 0 0 [VI64 1]]], VList [VI64 1, VI64 9, VI64 2]) \<and>
   replay [Splice [] 0 0 [VI64 1]] (Some (VList [VI64 1, VI64 2])) = Some (VList [VI64 1, VI64 1, VI64 2])"
  by (simp add: evaluation told_def replace_then_insert_def replay_def replay_splice_def)

lemma replaced_element_is_misplaced:
  "told (replace_then_insert 7) list_store =
     Some ([[Splice [] 0 0 [VI64 7], Replace [Index 0] (VI64 7)]], VList [VI64 7, VI64 9, VI64 2]) \<and>
   replay [Splice [] 0 0 [VI64 7], Replace [Index 0] (VI64 7)] (Some (VList [VI64 1, VI64 2])) =
     Some (VList [VI64 7, VI64 1, VI64 2])"
  by (simp add: evaluation told_def replace_then_insert_def replay_def replay_splice_def)

end
