(* ===== verification/Dispatch.thy ===== *)
theory Dispatch
  imports Registry Component_Graph
begin

text \<open>
  Service dispatch (\<open>phenix-core/src/runtime/dispatch.rs\<close>, the invoking operations of
  \<open>runtime/host.rs\<close> and \<open>runtime/kernel.rs\<close>, the invocation trace of \<open>runtime.rs\<close>): a call resolves a
  chain of layers and a terminal, each participant runs with its authority narrowed, and what a
  participant runs may call services and imports again or, in a layer, the rest of its own chain.

  What a plugin runs is a program: it finishes, or it makes a call on its host and goes on with the
  result. It may depend on everything that happened, since the environment is asked with the number of
  invocations so far; the operations of a host that dispatch nothing are part of the program.
  Its last node says whether the call had been cancelled by then. \<open>dv_shared\<close> says which
  instances offer an endpoint that can be entered again. Events go to the bus, whose admission result
  the code discards; the model keeps them as a list, with errors where the code keeps their rendering.
\<close>

type_synonym bytes = "8 word list"

datatype dispatch_error =
  Registry_Error kernel_error
| Graph_Error component_graph_error
| CausalServiceReentry service_id
| ContinuationUnavailable
| ContinuationAlreadyUsed service_id
| ServiceDenied plugin_id service_id string
| ServiceCancelled plugin_id service_id
| ServiceInvoke plugin_id service_id string

datatype invocation_error =
  Unbound_Import component_id interface_id
| Import_Graph component_graph_error
| Invalid_Interface interface_id string
| Encode_Failed string
| Kernel_Failed dispatch_error
| Decode_Failed string

subsection \<open>Provenance\<close>

datatype participant_outcome = OutHandled | OutDelegated | OutDenied | OutFailed | OutSucceeded

record endpoint_provenance =
  ep_component :: component_id
  ep_plugin :: plugin_id
  ep_runtime :: "runtime_id option"
  ep_revision :: "string option"

definition endpoint_of :: "import_handle \<Rightarrow> endpoint_provenance" where
  "endpoint_of h =
     (case ih_execution h of
        Runtime runtime artifact \<Rightarrow>
          \<lparr>ep_component = ih_exporter h, ep_plugin = ih_plugin h, ep_runtime = Some runtime,
           ep_revision = Some (art_revision artifact)\<rparr>
      | _ \<Rightarrow> \<lparr>ep_component = ih_exporter h, ep_plugin = ih_plugin h, ep_runtime = None, ep_revision = None\<rparr>)"

datatype fallback_reason = PrimaryUnavailable

record provider_provenance =
  pv_interface :: interface_id
  pv_primary :: endpoint_provenance
  pv_fallbacks :: "endpoint_provenance list"
  pv_reason :: selection_reason
  pv_executed :: endpoint_provenance
  pv_fallback_reason :: "fallback_reason option"
  pv_authority :: authority

definition provenance_of_plan ::
  "interface_id \<Rightarrow> provider_plan \<Rightarrow> import_handle \<Rightarrow> fallback_reason option \<Rightarrow> authority \<Rightarrow> provider_provenance" where
  "provenance_of_plan i plan executed reason auth =
     \<lparr>pv_interface = i, pv_primary = endpoint_of (pp_primary plan), pv_fallbacks = map endpoint_of (pp_fallbacks plan),
      pv_reason = pp_reason plan, pv_executed = endpoint_of executed, pv_fallback_reason = reason,
      pv_authority = auth\<rparr>"

record participant =
  pt_plugin :: plugin_id
  pt_role :: service_role
  pt_authority :: authority
  pt_outcome :: participant_outcome

record pending_participant =
  pd_plugin :: plugin_id
  pd_role :: service_role
  pd_authority :: authority
  pd_outcome :: "participant_outcome option"

record invocation_provenance =
  iv_generation :: "graph_generation_id option"
  iv_policy :: nat
  iv_service :: service_id
  iv_chain :: service_chain
  iv_provider :: "provider_provenance option"
  iv_caller :: authority
  iv_participants :: "participant list"
  iv_terminal :: bool

record invocation_trace =
  it_generation :: "graph_generation_id option"
  it_service :: service_id
  it_chain :: service_chain
  it_provider :: "provider_provenance option"
  it_caller :: authority
  it_participants :: "pending_participant list"
  it_terminal :: bool

definition trace_new ::
  "service_chain \<Rightarrow> authority \<Rightarrow> graph_generation_id option \<Rightarrow> provider_provenance option \<Rightarrow> invocation_trace" where
  "trace_new ch caller generation provider =
     \<lparr>it_generation = generation, it_service = ch_service ch, it_chain = ch, it_provider = provider,
      it_caller = caller, it_participants = [], it_terminal = False\<rparr>"

definition trace_enter ::
  "plugin_id \<Rightarrow> service_role \<Rightarrow> authority \<Rightarrow> invocation_trace \<Rightarrow> nat \<times> invocation_trace" where
  "trace_enter p role auth tr =
     (length (it_participants tr),
      tr\<lparr>it_terminal := (role = Terminal \<or> it_terminal tr),
         it_participants := it_participants tr @
           [\<lparr>pd_plugin = p, pd_role = role, pd_authority = auth, pd_outcome = None\<rparr>]\<rparr>)"

text \<open>An index past the end is a panic in the code; \<open>trace_enter\<close> gave the index.\<close>

definition set_outcome :: "nat \<Rightarrow> participant_outcome \<Rightarrow> invocation_trace \<Rightarrow> invocation_trace" where
  "set_outcome i out tr =
     tr\<lparr>it_participants := (it_participants tr)[i := (it_participants tr ! i)\<lparr>pd_outcome := Some out\<rparr>]\<rparr>"

definition finish_participant :: "pending_participant \<Rightarrow> participant" where
  "finish_participant pd =
     \<lparr>pt_plugin = pd_plugin pd, pt_role = pd_role pd, pt_authority = pd_authority pd,
      pt_outcome = (case pd_outcome pd of Some out \<Rightarrow> out | None \<Rightarrow> OutFailed)\<rparr>"

definition trace_finish :: "invocation_trace \<Rightarrow> invocation_provenance" where
  "trace_finish tr =
     \<lparr>iv_generation = it_generation tr, iv_policy = ch_policy (it_chain tr), iv_service = it_service tr,
      iv_chain = it_chain tr, iv_provider = it_provider tr, iv_caller = it_caller tr,
      iv_participants = map finish_participant (it_participants tr), iv_terminal = it_terminal tr\<rparr>"

subsection \<open>Events\<close>

datatype trace_event =
  Policy_Stage string string string "(string \<times> string option) option" "(string + kernel_error) option"
| Service_Invocation service_id nat "nat option" bool "dispatch_error option" bool "participant list"

record dispatch_state =
  dp_entered :: nat
  dp_events :: "trace_event list"
  dp_provenance :: "invocation_provenance list"

definition emit_policy_stage ::
  "string \<Rightarrow> string \<Rightarrow> string \<Rightarrow> (string \<times> string option) option \<Rightarrow> (string + kernel_error) option \<Rightarrow>
     dispatch_state \<Rightarrow> dispatch_state" where
  "emit_policy_stage policy stage outcome subject reason st =
     st\<lparr>dp_events := dp_events st @ [Policy_Stage policy stage outcome subject reason]\<rparr>"

definition emit_runtime_trace ::
  "invocation_provenance \<Rightarrow> nat \<Rightarrow> dispatch_error + bytes \<Rightarrow> dispatch_state \<Rightarrow> dispatch_state" where
  "emit_runtime_trace pv input_bytes r st =
     st\<lparr>dp_events := dp_events st @
       [Service_Invocation (iv_service pv) input_bytes
          (case r of Inr out \<Rightarrow> Some (length out) | Inl _ \<Rightarrow> None) (is_ok r)
          (case r of Inl e \<Rightarrow> Some e | Inr _ \<Rightarrow> None) (iv_terminal pv) (iv_participants pv)]\<rparr>"

subsection \<open>The environment\<close>

datatype layer_result = Handled bytes | Denied string

datatype 'o verdict = Returned "string + 'o" | Panicked

datatype 'o body =
  Finish "'o verdict" bool
| Invoke_Service service_id bytes authority "plugin_id option" "dispatch_error + bytes \<Rightarrow> 'o body"
| Invoke_Import component_id interface_id phx_value "invocation_error + phx_value \<Rightarrow> 'o body"
| Continue_Service bytes authority "dispatch_error + bytes \<Rightarrow> 'o body"

record dispatch_env =
  dv_generation :: "graph_generation_id option"
  dv_graph :: component_graph
  dv_config :: kernel_config
  dv_states :: "(plugin_id, plugin_state) btree"
  dv_instances :: "plugin_id set"
  dv_shared :: "plugin_id \<Rightarrow> bool"
  dv_invoke :: "nat \<Rightarrow> plugin_id \<Rightarrow> component_id option \<Rightarrow> service_id \<Rightarrow> bytes \<Rightarrow> bytes body"
  dv_layer :: "nat \<Rightarrow> plugin_id \<Rightarrow> service_id \<Rightarrow> bytes \<Rightarrow> layer_result body"
  dv_encode :: "phx_value \<Rightarrow> string + bytes"
  dv_decode :: "bytes \<Rightarrow> string + phx_value"

record guards =
  gd_stack :: "plugin_id set"
  gd_services :: "service_id set"
  gd_endpoints :: "(component_id \<times> service_id) set"
  gd_terminal :: "component_id option"

definition is_active :: "dispatch_env \<Rightarrow> plugin_id \<Rightarrow> bool" where
  "is_active env p \<longleftrightarrow> bt_get (dv_states env) p = Some Active"

subsection \<open>Preparing a chain\<close>

text \<open>The subject of a policy stage is rendered \<open>service\<close> or \<open>service:plugin\<close>.\<close>

definition layer_required :: "dispatch_env \<Rightarrow> service_id \<Rightarrow> plugin_id \<Rightarrow> bool" where
  "layer_required env service p =
     (case find (\<lambda>l. lp_plugin l = p) (layer_policies (dv_config env) service) of
        Some l \<Rightarrow> lp_required l | None \<Rightarrow> False)"

definition chain_stage ::
  "string \<Rightarrow> string \<Rightarrow> service_id \<Rightarrow> plugin_id option \<Rightarrow> (string + kernel_error) option \<Rightarrow>
     dispatch_state \<Rightarrow> dispatch_state" where
  "chain_stage stage outcome service p reason =
     emit_policy_stage ''kernel.service_chain'' stage outcome (Some (service, p)) reason"

fun prepare_layers ::
  "dispatch_env \<Rightarrow> service_id \<Rightarrow> provider_binding list \<Rightarrow> provider_binding list \<Rightarrow> dispatch_state \<Rightarrow>
     (dispatch_error + provider_binding list) \<times> dispatch_state" where
  "prepare_layers env service kept [] st = (Inr kept, st)"
| "prepare_layers env service kept (l # ls) st =
     (if is_active env (pb_plugin l) then
        prepare_layers env service (kept @ [l]) ls
          (chain_stage ''layer_availability'' ''allowed'' service (Some (pb_plugin l)) None st)
      else if layer_required env service (pb_plugin l) then
        (Inl (Registry_Error (RequiredLayerUnavailable service (pb_plugin l))),
         chain_stage ''layer_availability'' ''denied'' service (Some (pb_plugin l))
           (Some (Inl ''required layer is inactive'')) st)
      else
        prepare_layers env service kept ls
          (chain_stage ''layer_availability'' ''skipped'' service (Some (pb_plugin l))
            (Some (Inl ''optional layer is inactive'')) st))"

definition prepare_active_chain ::
  "dispatch_env \<Rightarrow> service_chain \<Rightarrow> dispatch_state \<Rightarrow> (dispatch_error + service_chain) \<times> dispatch_state" where
  "prepare_active_chain env ch st =
     (case prepare_layers env (ch_service ch) [] (ch_layers ch) st of
        (Inl e, st) \<Rightarrow> (Inl e, st)
      | (Inr layers, st) \<Rightarrow>
          (let p = pb_plugin (ch_terminal ch)
           in if \<not> is_active env p then
                (Inl (Registry_Error (PluginNotActive p)),
                 chain_stage ''terminal_availability'' ''denied'' (ch_service ch) (Some p)
                   (Some (Inl ''terminal provider is inactive'')) st)
              else
                (Inr (ch\<lparr>ch_layers := layers\<rparr>),
                 chain_stage ''terminal_availability'' ''allowed'' (ch_service ch) (Some p) None st)))"

subsection \<open>Running a chain\<close>

text \<open>
  The runner of a chain from a position: the result, the trace it extended and the state. \<open>None\<close>
  is a call deeper than the fuel of \<open>run_chain\<close>, or the panic on an unregistered provider.
\<close>

type_synonym chain_runner =
  "service_chain \<Rightarrow> nat \<Rightarrow> bytes \<Rightarrow> authority \<Rightarrow> guards \<Rightarrow> invocation_trace \<Rightarrow> dispatch_state \<Rightarrow>
     ((dispatch_error + bytes) \<times> invocation_trace \<times> dispatch_state) option"

text \<open>The common end of the two entry points: a new trace, the chain, its provenance and its event.\<close>

definition traced_run ::
  "dispatch_env \<Rightarrow> chain_runner \<Rightarrow> service_chain \<Rightarrow> bytes \<Rightarrow> authority \<Rightarrow> guards \<Rightarrow> provider_provenance option \<Rightarrow>
     dispatch_state \<Rightarrow> ((dispatch_error + bytes) \<times> dispatch_state) option" where
  "traced_run env run ch input caller g provider st =
     map_option (\<lambda>(r, tr, st).
         let completed = trace_finish tr
         in (r, emit_runtime_trace completed (length input) r
                  (st\<lparr>dp_provenance := dp_provenance st @ [completed]\<rparr>)))
       (run ch 0 input caller g (trace_new ch caller (dv_generation env) provider) st)"

definition resolved_stage ::
  "string \<Rightarrow> service_id \<Rightarrow> kernel_error + service_chain \<Rightarrow> dispatch_state \<Rightarrow> dispatch_state" where
  "resolved_stage stage service r st =
     (case r of
        Inr _ \<Rightarrow> chain_stage stage ''allowed'' service None None st
      | Inl e \<Rightarrow> chain_stage stage ''denied'' service None (Some (Inr e)) st)"

definition invoke_service_with ::
  "dispatch_env \<Rightarrow> chain_runner \<Rightarrow> service_id \<Rightarrow> bytes \<Rightarrow> authority \<Rightarrow> plugin_id option \<Rightarrow> guards \<Rightarrow>
     dispatch_state \<Rightarrow> ((dispatch_error + bytes) \<times> dispatch_state) option" where
  "invoke_service_with env run service input caller binding g st =
     (if service \<in> gd_services g then Some (Inl (CausalServiceReentry service), st)
      else
        (let r = resolve_chain (dv_config env) service caller binding;
             st = resolved_stage ''service_resolution'' service r st
         in case r of
              Inl e \<Rightarrow> Some (Inl (Registry_Error e), st)
            | Inr ch \<Rightarrow>
                (case prepare_active_chain env ch st of
                   (Inl e, st) \<Rightarrow> Some (Inl e, st)
                 | (Inr ch, st) \<Rightarrow>
                     traced_run env run ch input caller
                       (g\<lparr>gd_services := insert service (gd_services g), gd_terminal := None\<rparr>) None st)))"

definition invoke_component_service_with ::
  "dispatch_env \<Rightarrow> chain_runner \<Rightarrow> service_id \<Rightarrow> component_id \<Rightarrow> plugin_id \<Rightarrow> provider_provenance option \<Rightarrow>
     bytes \<Rightarrow> authority \<Rightarrow> guards \<Rightarrow> dispatch_state \<Rightarrow> ((dispatch_error + bytes) \<times> dispatch_state) option" where
  "invoke_component_service_with env run service component binding provider input caller g st =
     (if (component, service) \<in> gd_endpoints g then Some (Inl (CausalServiceReentry service), st)
      else case bt_get (cg_components (dv_graph env)) component of
        None \<Rightarrow> Some (Inl (Graph_Error (UnknownComponent component)), st)
      | Some rc \<Rightarrow>
          if rc_plugin rc \<noteq> binding then
            Some (Inl (Registry_Error (HostOperationDenied binding
              (''resolved component '' @ component @ '' belongs to '' @ rc_plugin rc @ '', not '' @ binding))), st)
          else
            (let r = resolve_component_chain (dv_config env) service caller binding;
                 st = resolved_stage ''component_resolution'' service r st
             in case r of
                  Inl e \<Rightarrow> Some (Inl (Registry_Error e), st)
                | Inr ch \<Rightarrow>
                    (case prepare_active_chain env ch st of
                       (Inl e, st) \<Rightarrow> Some (Inl e, st)
                     | (Inr ch, st) \<Rightarrow>
                         traced_run env run ch input caller
                           (g\<lparr>gd_services := insert service (gd_services g),
                              gd_endpoints := insert (component, service) (gd_endpoints g),
                              gd_terminal := Some component\<rparr>) provider st)))"

subsection \<open>The host of an invocation\<close>

text \<open>What the host fixes; a layer has the rest of its chain as continuation.\<close>

record invocation_host =
  hv_plugin :: plugin_id
  hv_authority :: authority
  hv_guards :: guards
  hv_rest :: "(service_chain \<times> nat) option"

definition provider_available :: "dispatch_env \<Rightarrow> import_handle \<Rightarrow> bool" where
  "provider_available env h \<longleftrightarrow> is_active env (ih_plugin h) \<and> ih_plugin h \<in> dv_instances env"

definition choose_provider ::
  "dispatch_env \<Rightarrow> provider_plan \<Rightarrow> kernel_error + import_handle \<times> fallback_reason option" where
  "choose_provider env plan =
     (if provider_available env (pp_primary plan) then Inr (pp_primary plan, None)
      else case find (provider_available env) (pp_fallbacks plan) of
        Some h \<Rightarrow> Inr (h, Some PrimaryUnavailable)
      | None \<Rightarrow> Inl (PluginNotActive (ih_plugin (pp_primary plan))))"

text \<open>The checks of an import before its call: provider, service name, input and plan.\<close>

definition import_target ::
  "dispatch_env \<Rightarrow> invocation_host \<Rightarrow> component_id \<Rightarrow> interface_id \<Rightarrow> phx_value \<Rightarrow>
     invocation_error + provider_plan \<times> import_handle \<times> fallback_reason option \<times> service_id \<times> bytes" where
  "import_target env h component i request =
     rbind (ok_or (Import_Graph (UnknownComponent component)) (bt_get (cg_components (dv_graph env)) component)) (\<lambda>rc.
     if rc_plugin rc \<noteq> hv_plugin h then
       Inl (Kernel_Failed (Registry_Error (HostOperationDenied (hv_plugin h)
         (''component import owned by '' @ rc_plugin rc))))
     else
     rbind (map_err Import_Graph (graph_provider_plan (dv_graph env) component i)) (\<lambda>plan.
     rbind (ok_or (Unbound_Import component i) plan) (\<lambda>plan.
     rbind (map_err (\<lambda>e. Kernel_Failed (Registry_Error e)) (choose_provider env plan)) (\<lambda>(handle, reason).
     rbind (map_err (Invalid_Interface i) (parse_identifier i)) (\<lambda>service.
     rbind (map_err Encode_Failed (dv_encode env request)) (\<lambda>input.
       Inr (plan, handle, reason, service, input)))))))"

definition invoke_import ::
  "dispatch_env \<Rightarrow> chain_runner \<Rightarrow> invocation_host \<Rightarrow> component_id \<Rightarrow> interface_id \<Rightarrow> phx_value \<Rightarrow>
     dispatch_state \<Rightarrow> ((invocation_error + phx_value) \<times> dispatch_state) option" where
  "invoke_import env run h component i request st =
     (case import_target env h component i request of
        Inl e \<Rightarrow> Some (Inl e, st)
      | Inr (plan, handle, reason, service, input) \<Rightarrow>
          (let delegated = attenuate (hv_authority h) (ih_authority handle)
           in map_option (\<lambda>(r, st). (rbind (map_err Kernel_Failed r) (\<lambda>out. map_err Decode_Failed (dv_decode env out)), st))
                (invoke_component_service_with env run service (ih_exporter handle) (ih_plugin handle)
                   (Some (provenance_of_plan i plan handle reason delegated)) input delegated
                   ((hv_guards h)\<lparr>gd_terminal := Some (ih_exporter handle)\<rparr>) st)))"

definition invoke_service_abi ::
  "dispatch_env \<Rightarrow> chain_runner \<Rightarrow> invocation_host \<Rightarrow> service_id \<Rightarrow> bytes \<Rightarrow> authority \<Rightarrow> plugin_id option \<Rightarrow>
     dispatch_state \<Rightarrow> ((dispatch_error + bytes) \<times> dispatch_state) option" where
  "invoke_service_abi env run h service input requested binding st =
     invoke_service_with env run service input (attenuate (hv_authority h) requested) binding
       ((hv_guards h)\<lparr>gd_terminal := None\<rparr>) st"

text \<open>The flag \<open>used\<close> of the continuation is set by the first call, whatever comes of it.\<close>

definition continue_service ::
  "chain_runner \<Rightarrow> invocation_host \<Rightarrow> bytes \<Rightarrow> authority \<Rightarrow> bool \<times> invocation_trace \<times> dispatch_state \<Rightarrow>
     ((dispatch_error + bytes) \<times> bool \<times> invocation_trace \<times> dispatch_state) option" where
  "continue_service run h input requested s =
     (let (used, tr, st) = s
      in case hv_rest h of
           None \<Rightarrow> Some (Inl ContinuationUnavailable, used, tr, st)
         | Some (ch, next) \<Rightarrow>
             if used then Some (Inl (ContinuationAlreadyUsed (ch_service ch)), True, tr, st)
             else map_option (\<lambda>(r, tr, st). (r, True, tr, st))
                    (run ch next input (attenuate (hv_authority h) requested) (hv_guards h) tr st))"

primrec run_body ::
  "dispatch_env \<Rightarrow> chain_runner \<Rightarrow> invocation_host \<Rightarrow> 'o body \<Rightarrow> bool \<times> invocation_trace \<times> dispatch_state \<Rightarrow>
     (('o verdict \<times> bool) \<times> bool \<times> invocation_trace \<times> dispatch_state) option" where
  "run_body env run h (Finish v cancelled) = (\<lambda>s. Some ((v, cancelled), s))"
| "run_body env run h (Invoke_Service service input requested binding k) =
     (\<lambda>(used, tr, st). case invoke_service_abi env run h service input requested binding st of
        None \<Rightarrow> None | Some (r, st) \<Rightarrow> run_body env run h (k r) (used, tr, st))"
| "run_body env run h (Invoke_Import component i request k) =
     (\<lambda>(used, tr, st). case invoke_import env run h component i request st of
        None \<Rightarrow> None | Some (r, st) \<Rightarrow> run_body env run h (k r) (used, tr, st))"
| "run_body env run h (Continue_Service input requested k) =
     (\<lambda>s. case continue_service run h input requested s of
        None \<Rightarrow> None | Some (r, s) \<Rightarrow> run_body env run h (k r) s)"

subsection \<open>One participant\<close>

text \<open>What a finished body means for the caller and for the trace.\<close>

definition layer_verdict ::
  "plugin_id \<Rightarrow> service_id \<Rightarrow> layer_result verdict \<Rightarrow> bool \<Rightarrow> bool \<Rightarrow> (dispatch_error + bytes) \<times> participant_outcome" where
  "layer_verdict p service v cancelled used =
     (case v of
        Panicked \<Rightarrow> (Inl (ServiceInvoke p service ''plugin invocation panicked''), OutFailed)
      | Returned r \<Rightarrow>
          if cancelled then (Inl (ServiceCancelled p service), OutFailed)
          else case r of
            Inr (Handled out) \<Rightarrow> (Inr out, if used then OutDelegated else OutHandled)
          | Inr (Denied message) \<Rightarrow> (Inl (ServiceDenied p service message), OutDenied)
          | Inl message \<Rightarrow> (Inl (ServiceInvoke p service message), OutFailed))"

definition terminal_verdict ::
  "plugin_id \<Rightarrow> service_id \<Rightarrow> bytes verdict \<Rightarrow> bool \<Rightarrow> (dispatch_error + bytes) \<times> participant_outcome" where
  "terminal_verdict p service v cancelled =
     (case v of
        Panicked \<Rightarrow> (Inl (ServiceInvoke p service ''plugin invocation panicked''), OutFailed)
      | Returned r \<Rightarrow>
          if cancelled then (Inl (ServiceCancelled p service), OutFailed)
          else case r of
            Inr out \<Rightarrow> (Inr out, OutSucceeded)
          | Inl message \<Rightarrow> (Inl (ServiceInvoke p service message), OutFailed))"

definition provider_at :: "service_chain \<Rightarrow> nat \<Rightarrow> provider_binding" where
  "provider_at ch pos = (if pos < length (ch_layers ch) then ch_layers ch ! pos else ch_terminal ch)"

definition admit_participant :: "dispatch_env \<Rightarrow> service_chain \<Rightarrow> plugin_id \<Rightarrow> guards \<Rightarrow> kernel_error + unit" where
  "admit_participant env ch p g =
     (if \<not> is_active env p then Inl (PluginNotActive p)
      else if p \<notin> dv_instances env then Inl (WrongExecutionKind p)
      else if p \<in> gd_stack g \<and> \<not> dv_shared env p
      then Inl (HostOperationDenied p (''causal plugin re-entry:'' @ ch_service ch))
      else Inr ())"

definition record_verdict ::
  "nat \<Rightarrow> (dispatch_error + bytes) \<times> participant_outcome \<Rightarrow> invocation_trace \<times> dispatch_state \<Rightarrow>
     (dispatch_error + bytes) \<times> invocation_trace \<times> dispatch_state" where
  "record_verdict i v s = (fst v, set_outcome i (snd v) (fst s), snd s)"

definition chain_step :: "dispatch_env \<Rightarrow> chain_runner \<Rightarrow> chain_runner" where
  "chain_step env run ch pos input caller g tr st =
     (let p = pb_plugin (provider_at ch pos); layer = (pos < length (ch_layers ch))
      in case admit_participant env ch p g of
           Inl e \<Rightarrow> Some (Inl (Registry_Error e), tr, st)
         | Inr _ \<Rightarrow>
             (case bt_get (kc_manifests (dv_config env)) p of
                None \<Rightarrow> None
              | Some m \<Rightarrow>
                  (let effective = attenuate caller (pm_maximum m);
                       st = emit_policy_stage ''kernel.authority'' ''provider_attenuation'' ''allowed''
                              (Some (ch_service ch, Some p)) None st;
                       (i, tr) = trace_enter p (if layer then Layer else Terminal) effective tr;
                       h = \<lparr>hv_plugin = p, hv_authority = effective,
                            hv_guards = g\<lparr>gd_stack := insert p (gd_stack g)\<rparr>,
                            hv_rest = (if layer then Some (ch, Suc pos) else None)\<rparr>;
                       n = dp_entered st;
                       st = st\<lparr>dp_entered := Suc n\<rparr>
                   in if layer then
                        map_option (\<lambda>((v, cancelled), used, s).
                            record_verdict i (layer_verdict p (ch_service ch) v cancelled used) s)
                          (run_body env run h (dv_layer env n p (ch_service ch) input) (False, tr, st))
                      else
                        map_option (\<lambda>((v, cancelled), used, s).
                            record_verdict i (terminal_verdict p (ch_service ch) v cancelled) s)
                          (run_body env run h (dv_invoke env n p (gd_terminal g) (ch_service ch) input)
                             (False, tr, st)))))"

primrec run_chain :: "dispatch_env \<Rightarrow> nat \<Rightarrow> chain_runner" where
  "run_chain env 0 = (\<lambda>ch pos input caller g tr st. None)"
| "run_chain env (Suc n) = chain_step env (run_chain env n)"

text \<open>The entry points of the kernel: no guard is set yet.\<close>

definition no_guards :: "component_id option \<Rightarrow> guards" where
  "no_guards terminal = \<lparr>gd_stack = {}, gd_services = {}, gd_endpoints = {}, gd_terminal = terminal\<rparr>"

definition kernel_invoke ::
  "dispatch_env \<Rightarrow> nat \<Rightarrow> service_id \<Rightarrow> bytes \<Rightarrow> authority \<Rightarrow> plugin_id option \<Rightarrow> dispatch_state \<Rightarrow>
     ((dispatch_error + bytes) \<times> dispatch_state) option" where
  "kernel_invoke env n service input caller binding st =
     invoke_service_with env (run_chain env n) service input caller binding (no_guards None) st"

definition kernel_invoke_component ::
  "dispatch_env \<Rightarrow> nat \<Rightarrow> component_id \<Rightarrow> service_id \<Rightarrow> bytes \<Rightarrow> authority \<Rightarrow> plugin_id \<Rightarrow> dispatch_state \<Rightarrow>
     ((dispatch_error + bytes) \<times> dispatch_state) option" where
  "kernel_invoke_component env n component service input caller binding st =
     invoke_component_service_with env (run_chain env n) service component binding None input caller
       (no_guards (Some component)) st"

end
