(* ===== verification/Dispatch_Safety.thy ===== *)
theory Dispatch_Safety
  imports Dispatch
begin

text \<open>
  Correctness of service dispatch: every call returns, whatever the plugins do; authority only ever
  shrinks along a call; and the recorded provenance is what happened.
\<close>

subsection \<open>Fuel\<close>

text \<open>A runner that answers at least as often as another one, with the same answers.\<close>

definition runner_le :: "chain_runner \<Rightarrow> chain_runner \<Rightarrow> bool" where
  "runner_le r r' \<longleftrightarrow>
     (\<forall>ch pos input caller g tr st x.
        r ch pos input caller g tr st = Some x \<longrightarrow> r' ch pos input caller g tr st = Some x)"

lemma runner_leD: "runner_le r r' \<Longrightarrow> r ch pos input caller g tr st = Some x \<Longrightarrow> r' ch pos input caller g tr st = Some x"
  unfolding runner_le_def by blast

lemma traced_run_mono:
  "runner_le r r' \<Longrightarrow> traced_run env r ch input caller g provider st = Some x \<Longrightarrow>
     traced_run env r' ch input caller g provider st = Some x"
  by (auto simp: traced_run_def dest: runner_leD)

lemma invoke_service_mono:
  "runner_le r r' \<Longrightarrow> invoke_service_with env r service input caller binding g st = Some x \<Longrightarrow>
     invoke_service_with env r' service input caller binding g st = Some x"
  by (auto simp: invoke_service_with_def Let_def dest: traced_run_mono split: sum.splits prod.splits if_splits)

lemma invoke_component_mono:
  "runner_le r r' \<Longrightarrow> invoke_component_service_with env r service c b provider input caller g st = Some x \<Longrightarrow>
     invoke_component_service_with env r' service c b provider input caller g st = Some x"
  by (auto simp: invoke_component_service_with_def Let_def dest: traced_run_mono
      split: sum.splits prod.splits if_splits option.splits)

lemma invoke_import_mono:
  "runner_le r r' \<Longrightarrow> invoke_import env r h c i request st = Some x \<Longrightarrow> invoke_import env r' h c i request st = Some x"
  by (auto simp: invoke_import_def Let_def dest: invoke_component_mono split: sum.splits)

lemma continue_mono:
  "runner_le r r' \<Longrightarrow> continue_service r h input requested s = Some x \<Longrightarrow> continue_service r' h input requested s = Some x"
  by (auto simp: continue_service_def Let_def dest: runner_leD split: option.splits prod.splits if_splits)

lemma run_body_mono:
  assumes "runner_le r r'"
  shows "run_body env r h b s = Some x \<Longrightarrow> run_body env r' h b s = Some x"
proof (induction b arbitrary: s)
  case (Invoke_Service service input requested binding k)
  obtain used tr st where s: "s = (used, tr, st)" by (cases s)
  with Invoke_Service.prems obtain q st1 where
    "invoke_service_abi env r h service input requested binding st = Some (q, st1)"
    "run_body env r h (k q) (used, tr, st1) = Some x"
    by (auto split: option.splits)
  with Invoke_Service.IH [OF rangeI] s invoke_service_mono [OF assms] show ?case
    by (simp add: invoke_service_abi_def)
next
  case (Invoke_Import component i request k)
  obtain used tr st where s: "s = (used, tr, st)" by (cases s)
  with Invoke_Import.prems obtain q st1 where
    "invoke_import env r h component i request st = Some (q, st1)" "run_body env r h (k q) (used, tr, st1) = Some x"
    by (auto split: option.splits)
  with Invoke_Import.IH [OF rangeI] s invoke_import_mono [OF assms] show ?case by simp
next
  case (Continue_Service input requested k)
  then obtain q s1 where
    "continue_service r h input requested s = Some (q, s1)" "run_body env r h (k q) s1 = Some x"
    by (auto split: option.splits)
  with Continue_Service.IH [OF rangeI] continue_mono [OF assms] show ?case by simp
qed simp

text \<open>
  One participant, with its setup in one place: the host it gets and the trace and state it starts in.
\<close>

definition participant_host :: "dispatch_env \<Rightarrow> service_chain \<Rightarrow> nat \<Rightarrow> authority \<Rightarrow> guards \<Rightarrow> plugin_manifest \<Rightarrow> invocation_host" where
  "participant_host env ch pos caller g m =
     (let p = pb_plugin (provider_at ch pos)
      in \<lparr>hv_plugin = p, hv_authority = attenuate caller (pm_maximum m),
          hv_guards = g\<lparr>gd_stack := insert p (gd_stack g)\<rparr>,
          hv_rest = (if pos < length (ch_layers ch) then Some (ch, Suc pos) else None)\<rparr>)"

definition participant_trace :: "service_chain \<Rightarrow> nat \<Rightarrow> authority \<Rightarrow> plugin_manifest \<Rightarrow> invocation_trace \<Rightarrow> invocation_trace" where
  "participant_trace ch pos caller m tr =
     snd (trace_enter (pb_plugin (provider_at ch pos)) (if pos < length (ch_layers ch) then Layer else Terminal)
       (attenuate caller (pm_maximum m)) tr)"

definition participant_start :: "service_chain \<Rightarrow> nat \<Rightarrow> dispatch_state \<Rightarrow> dispatch_state" where
  "participant_start ch pos st =
     (emit_policy_stage ''kernel.authority'' ''provider_attenuation'' ''allowed''
        (Some (ch_service ch, Some (pb_plugin (provider_at ch pos)))) None st)\<lparr>dp_entered := Suc (dp_entered st)\<rparr>"

lemma chain_step_eqs:
  "admit_participant env ch (pb_plugin (provider_at ch pos)) g = Inl e \<Longrightarrow>
     chain_step env run ch pos input caller g tr st = Some (Inl (Registry_Error e), tr, st)"
  "admit_participant env ch (pb_plugin (provider_at ch pos)) g = Inr u \<Longrightarrow>
   bt_get (kc_manifests (dv_config env)) (pb_plugin (provider_at ch pos)) = None \<Longrightarrow>
     chain_step env run ch pos input caller g tr st = None"
  "admit_participant env ch (pb_plugin (provider_at ch pos)) g = Inr u \<Longrightarrow>
   bt_get (kc_manifests (dv_config env)) (pb_plugin (provider_at ch pos)) = Some m \<Longrightarrow>
   pos < length (ch_layers ch) \<Longrightarrow>
     chain_step env run ch pos input caller g tr st =
       map_option (\<lambda>((v, cancelled), used, s). record_verdict (length (it_participants tr))
           (layer_verdict (pb_plugin (provider_at ch pos)) (ch_service ch) v cancelled used) s)
         (run_body env run (participant_host env ch pos caller g m)
           (dv_layer env (dp_entered st) (pb_plugin (provider_at ch pos)) (ch_service ch) input)
           (False, participant_trace ch pos caller m tr, participant_start ch pos st))"
  "admit_participant env ch (pb_plugin (provider_at ch pos)) g = Inr u \<Longrightarrow>
   bt_get (kc_manifests (dv_config env)) (pb_plugin (provider_at ch pos)) = Some m \<Longrightarrow>
   \<not> pos < length (ch_layers ch) \<Longrightarrow>
     chain_step env run ch pos input caller g tr st =
       map_option (\<lambda>((v, cancelled), used, s). record_verdict (length (it_participants tr))
           (terminal_verdict (pb_plugin (provider_at ch pos)) (ch_service ch) v cancelled) s)
         (run_body env run (participant_host env ch pos caller g m)
           (dv_invoke env (dp_entered st) (pb_plugin (provider_at ch pos)) (gd_terminal g) (ch_service ch) input)
           (False, participant_trace ch pos caller m tr, participant_start ch pos st))"
  by (simp_all add: chain_step_def Let_def participant_host_def participant_trace_def participant_start_def
      trace_enter_def emit_policy_stage_def)

lemma chain_step_mono:
  assumes "runner_le r r'"
  shows "runner_le (chain_step env r) (chain_step env r')"
proof -
  have "chain_step env r' ch pos input caller g tr st = Some x"
    if x: "chain_step env r ch pos input caller g tr st = Some x" for ch pos input caller g tr st x
  proof (cases "admit_participant env ch (pb_plugin (provider_at ch pos)) g")
    case (Inl e)
    with x show ?thesis by (simp add: chain_step_eqs(1))
  next
    case (Inr u)
    show ?thesis
    proof (cases "bt_get (kc_manifests (dv_config env)) (pb_plugin (provider_at ch pos))")
      case None
      with x Inr show ?thesis by (simp add: chain_step_eqs(2))
    next
      case (Some m)
      show ?thesis
      proof (cases "pos < length (ch_layers ch)")
        case True
        from x [unfolded chain_step_eqs(3) [OF Inr Some True]] show ?thesis
          unfolding chain_step_eqs(3) [OF Inr Some True] map_option_eq_Some
          by (blast intro: run_body_mono [OF assms])
      next
        case False
        from x [unfolded chain_step_eqs(4) [OF Inr Some False]] show ?thesis
          unfolding chain_step_eqs(4) [OF Inr Some False] map_option_eq_Some
          by (blast intro: run_body_mono [OF assms])
      qed
    qed
  qed
  then show ?thesis unfolding runner_le_def by blast
qed

lemma run_chain_mono: "n \<le> m \<Longrightarrow> runner_le (run_chain env n) (run_chain env m)"
proof (induction n arbitrary: m)
  case (Suc n)
  then show ?case by (cases m) (auto intro: chain_step_mono)
qed (simp add: runner_le_def)

subsection \<open>Every call returns\<close>

text \<open>What can still be entered: services with a terminal and endpoints of declared imports.\<close>

definition terminal_services :: "kernel_config \<Rightarrow> service_id set" where
  "terminal_services c = (\<Union>m\<in>set (bt_vals (kc_manifests c)). sc_service ` set (pm_services m))"

definition graph_endpoints :: "component_graph \<Rightarrow> (component_id \<times> service_id) set" where
  "graph_endpoints gr =
     set (bt_keys (cg_components gr)) \<times> (\<Union>rc\<in>set (bt_vals (cg_components gr)). ri_interface ` set (rc_imports rc))"

definition layer_bound :: "kernel_config \<Rightarrow> nat" where
  "layer_bound c = sum_list (map length (bt_vals (kc_layers c)))"

definition remaining :: "dispatch_env \<Rightarrow> guards \<Rightarrow> nat" where
  "remaining env g =
     card (terminal_services (dv_config env) - gd_services g) + card (graph_endpoints (dv_graph env) - gd_endpoints g)"

text \<open>Calls below a participant with \<open>k\<close> participants after it: its chain, and one chain per entry left.\<close>

definition fuel_needed :: "dispatch_env \<Rightarrow> guards \<Rightarrow> nat \<Rightarrow> nat" where
  "fuel_needed env g k = remaining env g * Suc (layer_bound (dv_config env)) + Suc k"

lemma finite_universe: "finite (terminal_services c)" "finite (graph_endpoints gr)"
  by (auto simp: terminal_services_def graph_endpoints_def)

lemma fuel_nested:
  assumes "remaining env g' < remaining env g" "k' \<le> layer_bound (dv_config env)" "fuel_needed env g k \<le> Suc n"
  shows "fuel_needed env g' k' \<le> n"
proof -
  let ?L = "Suc (layer_bound (dv_config env))"
  have "remaining env g' * ?L + ?L \<le> remaining env g * ?L"
    using assms(1) by (metis Suc_leI add.commute mult_Suc mult_le_mono1)
  with assms(2,3) show ?thesis by (simp add: fuel_needed_def)
qed

definition registered_chain :: "dispatch_env \<Rightarrow> service_chain \<Rightarrow> bool" where
  "registered_chain env ch \<longleftrightarrow>
     (\<forall>b\<in>insert (ch_terminal ch) (set (ch_layers ch)). bt_has (kc_manifests (dv_config env)) (pb_plugin b)) \<and>
     length (ch_layers ch) \<le> layer_bound (dv_config env)"

lemma layer_policies_bound: "length (layer_policies c service) \<le> layer_bound c"
proof (cases "bt_get (kc_layers c) service")
  case (Some ls)
  then have "length ls \<in> set (map length (bt_vals (kc_layers c)))"
    by (force simp: bt_vals_def dest: bt_get_in)
  with Some show ?thesis by (simp add: layer_policies_def layer_bound_def member_le_sum_list)
qed (simp add: layer_policies_def)

lemma resolved_layers:
  assumes "resolve_layers c service auth = Inr layers"
  shows "length layers \<le> layer_bound c" "\<forall>b\<in>set layers. bt_has (kc_manifests c) (pb_plugin b)"
proof -
  from assms have layers: "layers = sort_by binding_le (map (layer_binding service)
       (filter (layer_usable c service auth) (layer_policies c service)))"
    by (simp add: resolve_layers_ok)
  then show "length layers \<le> layer_bound c"
    by (simp add: le_trans [OF length_filter_le layer_policies_bound])
  show "\<forall>b\<in>set layers. bt_has (kc_manifests c) (pb_plugin b)"
    by (auto simp: layers layer_binding_def layer_usable_def layer_contribution_def bt_has_def
        split: Option.bind_splits)
qed

lemma prepare_layers_ok:
  "prepare_layers env service kept ls st = (Inr layers, st') \<Longrightarrow>
     layers = kept @ filter (\<lambda>l. is_active env (pb_plugin l)) ls"
  by (induction env service kept ls st rule: prepare_layers.induct) (auto split: if_splits)

lemma prepare_active_chain_ok:
  assumes "prepare_active_chain env ch st = (Inr ch', st')"
  shows "ch' = ch\<lparr>ch_layers := filter (\<lambda>l. is_active env (pb_plugin l)) (ch_layers ch)\<rparr>"
    "is_active env (pb_plugin (ch_terminal ch))"
  using assms prepare_layers_ok
  by (fastforce simp: prepare_active_chain_def Let_def split: prod.splits sum.splits if_splits)+

lemma registered_prepared:
  assumes "prepare_active_chain env ch st = (Inr ch', st')" "registered_chain env ch"
  shows "registered_chain env ch'"
  using assms(2) unfolding prepare_active_chain_ok(1) [OF assms(1)] registered_chain_def
  by (auto intro: le_trans [OF length_filter_le])

lemma resolve_chain_registered:
  assumes "indexed_manifests (kc_manifests (dv_config env))"
    and "resolve_chain (dv_config env) service auth binding = Inr ch"
  shows "registered_chain env ch \<and> service \<in> terminal_services (dv_config env)"
proof -
  from assms(2) obtain rest where r: "resolve_layers (dv_config env) service auth = Inr (ch_layers ch)"
      "sort_by binding_le (candidate_terminals (dv_config env) service auth binding) = ch_terminal ch # rest"
    by (auto simp: resolve_chain_ok)
  note t = bind_rank.head_in [OF r(2)]
  from t obtain m k where m: "m \<in> set (bt_vals (kc_manifests (dv_config env)))" "k \<in> set (pm_services m)"
      "sc_service k = service" "pb_plugin (ch_terminal ch) = pm_id m"
    by (auto simp: candidate_terminals_set eligible_terminal_def)
  then have "bt_has (kc_manifests (dv_config env)) (pb_plugin (ch_terminal ch))"
    using indexed_has [OF assms(1)] by (simp add: bt_has_def)
  with resolved_layers [OF r(1)] m show ?thesis
    by (auto simp: registered_chain_def terminal_services_def)
qed

lemma resolve_component_registered:
  assumes "resolve_component_chain (dv_config env) service auth p = Inr ch"
  shows "registered_chain env ch"
  using assms resolved_layers
  by (fastforce simp: resolve_component_chain_def rbind_eq_Inr registered_chain_def bt_has_def split: if_splits)

lemma find_member: "find P xs = Some x \<Longrightarrow> x \<in> set xs \<and> P x"
  by (auto simp: find_Some_iff)

text \<open>A runner that answers for every chain entered below the given guards.\<close>

definition answers :: "dispatch_env \<Rightarrow> chain_runner \<Rightarrow> guards \<Rightarrow> bool" where
  "answers env run g \<longleftrightarrow>
     (\<forall>g' ch input caller tr st. registered_chain env ch \<longrightarrow> remaining env g' < remaining env g \<longrightarrow>
        run ch 0 input caller g' tr st \<noteq> None)"

lemma traced_run_total: "run ch 0 input caller g (trace_new ch caller (dv_generation env) pv) st \<noteq> None \<Longrightarrow>
    traced_run env run ch input caller g pv st \<noteq> None"
  by (simp add: traced_run_def)

lemma card_insert_less: "finite A \<Longrightarrow> x \<in> A \<Longrightarrow> x \<notin> B \<Longrightarrow> card (A - insert x B) < card (A - B)"
  by (rule psubset_card_mono) auto

lemma card_insert_le': "finite A \<Longrightarrow> card (A - insert x B) \<le> card (A - B)"
  by (rule card_mono) auto

lemma invoke_service_total:
  assumes "indexed_manifests (kc_manifests (dv_config env))" "answers env run g"
    and "gd_services g' = gd_services g" "gd_endpoints g' = gd_endpoints g"
  shows "invoke_service_with env run service input caller binding g' st \<noteq> None"
proof (cases "service \<in> gd_services g'")
  case False
  have "traced_run env run ch' input caller
      (g'\<lparr>gd_services := insert service (gd_services g'), gd_terminal := None\<rparr>) None st' \<noteq> None"
    if "resolve_chain (dv_config env) service caller binding = Inr ch"
      "prepare_active_chain env ch st1 = (Inr ch', st')" for ch ch' st1 st'
  proof -
    from resolve_chain_registered [OF assms(1) that(1)] registered_prepared [OF that(2)] False
      card_insert_less [OF finite_universe(1), of service "dv_config env" "gd_services g'"]
    have "registered_chain env ch'"
      "remaining env (g'\<lparr>gd_services := insert service (gd_services g'), gd_terminal := None\<rparr>) < remaining env g"
      using assms(3,4) by (simp_all add: remaining_def)
    with assms(2) show ?thesis by (intro traced_run_total) (simp add: answers_def)
  qed
  with False show ?thesis
    by (auto simp: invoke_service_with_def Let_def split: sum.splits prod.splits)
qed (simp add: invoke_service_with_def)

lemma invoke_import_total:
  assumes "answers env run g" "gd_services (hv_guards h) = gd_services g" "gd_endpoints (hv_guards h) = gd_endpoints g"
  shows "invoke_import env run h component i request st \<noteq> None"
proof (cases "import_target env h component i request")
  case (Inl e)
  then show ?thesis by (simp add: invoke_import_def)
next
  case (Inr t)
  obtain plan handle reason service bytes where t: "t = (plan, handle, reason, service, bytes)" by (cases t)
  from Inr t have "service = i" "graph_provider_plan (dv_graph env) component i = Inr (Some plan)"
    by (auto simp: import_target_def rbind_eq_Inr parse_identifier_ok split: if_splits)
  then obtain rc im where "bt_get (cg_components (dv_graph env)) component = Some rc" "im \<in> set (rc_imports rc)"
      "ri_interface im = service"
    by (auto simp: graph_provider_plan_def resolved_import_of_def rbind_eq_Inr dest!: find_member)
  then have iface: "service \<in> (\<Union>rc\<in>set (bt_vals (cg_components (dv_graph env))). ri_interface ` set (rc_imports rc))"
    by (force simp: bt_vals_def dest: bt_get_in)
  let ?delegated = "attenuate (hv_authority h) (ih_authority handle)"
  let ?e = "(ih_exporter handle, service)"
  let ?g = "(hv_guards h)\<lparr>gd_terminal := Some (ih_exporter handle)\<rparr>"
  have "traced_run env run ch' bytes ?delegated
      (?g\<lparr>gd_services := insert service (gd_services ?g), gd_endpoints := insert ?e (gd_endpoints ?g),
          gd_terminal := Some (ih_exporter handle)\<rparr>) pv st' \<noteq> None"
    if "?e \<notin> gd_endpoints ?g" "bt_get (cg_components (dv_graph env)) (ih_exporter handle) = Some rc'"
      "resolve_component_chain (dv_config env) service ?delegated (ih_plugin handle) = Inr ch"
      "prepare_active_chain env ch st1 = (Inr ch', st')" for ch ch' st1 st' rc' pv
  proof -
    have "?e \<in> graph_endpoints (dv_graph env)"
      using that(2) iface by (auto simp: graph_endpoints_def bt_keys_get)
    with that(1) have "card (graph_endpoints (dv_graph env) - insert ?e (gd_endpoints ?g)) <
        card (graph_endpoints (dv_graph env) - gd_endpoints ?g)"
      by (intro card_insert_less [OF finite_universe(2)])
    moreover have "card (terminal_services (dv_config env) - insert service (gd_services ?g)) \<le>
        card (terminal_services (dv_config env) - gd_services ?g)"
      by (rule card_insert_le' [OF finite_universe(1)])
    ultimately have "remaining env (?g\<lparr>gd_services := insert service (gd_services ?g),
        gd_endpoints := insert ?e (gd_endpoints ?g), gd_terminal := Some (ih_exporter handle)\<rparr>) < remaining env g"
      using assms(2,3) by (simp add: remaining_def)
    with assms(1) registered_prepared [OF that(4) resolve_component_registered [OF that(3)]] show ?thesis
      by (intro traced_run_total) (simp add: answers_def)
  qed
  then have "invoke_component_service_with env run service (ih_exporter handle) (ih_plugin handle) pv bytes
      ?delegated ?g st \<noteq> None" for pv
    by (auto simp: invoke_component_service_with_def Let_def split: sum.splits prod.splits option.splits)
  with Inr t show ?thesis by (simp add: invoke_import_def Let_def)
qed

lemma run_body_total:
  assumes "indexed_manifests (kc_manifests (dv_config env))" "answers env run (hv_guards h)"
    and rest: "\<And>ch next input caller tr st. hv_rest h = Some (ch, next) \<Longrightarrow>
      run ch next input caller (hv_guards h) tr st \<noteq> None"
  shows "run_body env run h b s \<noteq> None"
proof (induction b arbitrary: s)
  case (Invoke_Service service input requested binding k)
  obtain used tr st where s: "s = (used, tr, st)" by (cases s)
  have "invoke_service_abi env run h service input requested binding st \<noteq> None"
    unfolding invoke_service_abi_def by (rule invoke_service_total [OF assms(1,2)]) simp_all
  with s Invoke_Service.IH [OF rangeI] show ?case by auto
next
  case (Invoke_Import component i request k)
  obtain used tr st where s: "s = (used, tr, st)" by (cases s)
  have "invoke_import env run h component i request st \<noteq> None"
    by (rule invoke_import_total [OF assms(2)]) simp_all
  with s Invoke_Import.IH [OF rangeI] show ?case by auto
next
  case (Continue_Service input requested k)
  have "continue_service run h input requested s \<noteq> None"
    using rest by (auto simp: continue_service_def Let_def split: option.splits prod.splits)
  with Continue_Service.IH [OF rangeI] show ?case by auto
qed simp

lemma chain_step_total:
  assumes "indexed_manifests (kc_manifests (dv_config env))" "registered_chain env ch" "answers env run g"
    and "\<And>input caller g' tr st. pos < length (ch_layers ch) \<Longrightarrow> gd_services g' = gd_services g \<Longrightarrow>
      gd_endpoints g' = gd_endpoints g \<Longrightarrow> run ch (Suc pos) input caller g' tr st \<noteq> None"
  shows "chain_step env run ch pos input caller g tr st \<noteq> None"
proof (cases "admit_participant env ch (pb_plugin (provider_at ch pos)) g")
  case (Inr u)
  have "provider_at ch pos \<in> insert (ch_terminal ch) (set (ch_layers ch))"
    by (simp add: provider_at_def)
  with assms(2) obtain m where m: "bt_get (kc_manifests (dv_config env)) (pb_plugin (provider_at ch pos)) = Some m"
    by (auto simp: registered_chain_def bt_has_def)
  let ?h = "participant_host env ch pos caller g m"
  have guards: "gd_services (hv_guards ?h) = gd_services g" "gd_endpoints (hv_guards ?h) = gd_endpoints g"
    by (simp_all add: participant_host_def Let_def)
  with assms(3) have "answers env run (hv_guards ?h)"
    by (simp add: answers_def remaining_def)
  note total = run_body_total [OF assms(1) this]
  have rest: "run ch' next input caller (hv_guards ?h) tr st \<noteq> None" if "hv_rest ?h = Some (ch', next)"
    for ch' "next" input caller tr st
    using that assms(4) [OF _ guards] by (auto simp: participant_host_def Let_def split: if_splits)
  show ?thesis
  proof (cases "pos < length (ch_layers ch)")
    case True
    from total [OF rest] show ?thesis by (simp add: chain_step_eqs(3) [OF Inr m True])
  next
    case False
    from total [OF rest] show ?thesis by (simp add: chain_step_eqs(4) [OF Inr m False])
  qed
qed (simp add: chain_step_eqs(1))

lemma run_chain_total:
  assumes "indexed_manifests (kc_manifests (dv_config env))"
  shows "registered_chain env ch \<Longrightarrow> pos \<le> length (ch_layers ch) \<Longrightarrow>
    fuel_needed env g (length (ch_layers ch) - pos) \<le> n \<Longrightarrow> run_chain env n ch pos input caller g tr st \<noteq> None"
proof (induction n arbitrary: ch pos input caller g tr st)
  case 0
  then show ?case by (simp add: fuel_needed_def)
next
  case (Suc n)
  have "answers env (run_chain env n) g"
    unfolding answers_def
  proof (intro allI impI)
    fix g' ch' input' caller' tr' st'
    assume chain: "registered_chain env ch'" and less: "remaining env g' < remaining env g"
    then have "fuel_needed env g' (length (ch_layers ch') - 0) \<le> n"
      by (intro fuel_nested [OF less _ Suc.prems(3)]) (simp add: registered_chain_def)
    then show "run_chain env n ch' 0 input' caller' g' tr' st' \<noteq> None"
      by (intro Suc.IH [OF chain]) simp_all
  qed
  moreover have "run_chain env n ch (Suc pos) input' caller' g' tr' st' \<noteq> None"
    if "pos < length (ch_layers ch)" "gd_services g' = gd_services g" "gd_endpoints g' = gd_endpoints g"
    for input' caller' g' tr' st'
    using that Suc.prems by (intro Suc.IH) (simp_all add: fuel_needed_def remaining_def)
  ultimately show ?case
    unfolding run_chain.simps by (intro chain_step_total [OF assms Suc.prems(1)])
qed

definition dispatch_bound :: "dispatch_env \<Rightarrow> nat" where
  "dispatch_bound env = fuel_needed env (no_guards None) (layer_bound (dv_config env))"

lemma run_prepared_total:
  assumes "indexed_manifests (kc_manifests (dv_config env))" "registered_chain env ch" "dispatch_bound env \<le> n"
  shows "run_chain env n ch 0 input caller g tr st \<noteq> None"
proof (rule run_chain_total [OF assms(1,2)])
  have "remaining env g \<le> remaining env (no_guards None)"
    unfolding remaining_def no_guards_def
    by (intro add_mono card_mono) (auto simp: finite_universe)
  then have "remaining env g * Suc (layer_bound (dv_config env)) \<le>
      remaining env (no_guards None) * Suc (layer_bound (dv_config env))"
    by (rule mult_le_mono1)
  with assms(2,3) show "fuel_needed env g (length (ch_layers ch) - 0) \<le> n"
    by (simp add: dispatch_bound_def fuel_needed_def registered_chain_def)
qed simp

lemma kernel_invoke_total:
  assumes "indexed_manifests (kc_manifests (dv_config env))" "dispatch_bound env \<le> n"
  shows "kernel_invoke env n service input caller binding st \<noteq> None"
proof -
  have "traced_run env (run_chain env n) ch' input caller g None st' \<noteq> None"
    if "resolve_chain (dv_config env) service caller binding = Inr ch"
      "prepare_active_chain env ch st1 = (Inr ch', st')" for ch ch' st1 st' g
    using run_prepared_total [OF assms(1) _ assms(2)] registered_prepared [OF that(2)]
      resolve_chain_registered [OF assms(1) that(1)] by (intro traced_run_total) blast
  then show ?thesis
    by (auto simp: kernel_invoke_def invoke_service_with_def Let_def no_guards_def split: sum.splits prod.splits)
qed

lemma kernel_invoke_component_total:
  assumes "indexed_manifests (kc_manifests (dv_config env))" "dispatch_bound env \<le> n"
  shows "kernel_invoke_component env n component service input caller binding st \<noteq> None"
proof -
  have "traced_run env (run_chain env n) ch' input caller g None st' \<noteq> None"
    if "resolve_component_chain (dv_config env) service caller binding = Inr ch"
      "prepare_active_chain env ch st1 = (Inr ch', st')" for ch ch' st1 st' g
    using run_prepared_total [OF assms(1) _ assms(2)] registered_prepared [OF that(2)]
      resolve_component_registered [OF that(1)] by (intro traced_run_total) blast
  then show ?thesis
    by (auto simp: kernel_invoke_component_def invoke_component_service_with_def Let_def no_guards_def
        split: sum.splits prod.splits option.splits)
qed

lemma same_answer:
  fixes bound :: nat
  assumes "\<And>n. bound \<le> n \<Longrightarrow> f n \<noteq> None" "\<And>n m x. n \<le> m \<Longrightarrow> f n = Some x \<Longrightarrow> f m = Some x"
  shows "\<exists>x. \<forall>n\<ge>bound. f n = Some x"
proof -
  obtain x where "f bound = Some x" using assms(1) [OF order_refl] by (cases "f bound") simp_all
  then have "f n = Some x" if "bound \<le> n" for n by (rule assms(2) [OF that])
  then show ?thesis by blast
qed

lemma kernel_invoke_mono:
  "n \<le> m \<Longrightarrow> kernel_invoke env n service input caller binding st = Some x \<Longrightarrow>
     kernel_invoke env m service input caller binding st = Some x"
  unfolding kernel_invoke_def by (rule invoke_service_mono [OF run_chain_mono])

lemma kernel_invoke_component_mono:
  "n \<le> m \<Longrightarrow> kernel_invoke_component env n component service input caller plugin st = Some x \<Longrightarrow>
     kernel_invoke_component env m component service input caller plugin st = Some x"
  unfolding kernel_invoke_component_def by (rule invoke_component_mono [OF run_chain_mono])

text \<open>C16: A call always comes to an end: whatever the plugins do, whomever they call back and however
  often, the kernel answers, and how much deeper than \<open>dispatch_bound\<close> it may nest makes no difference.
  What bounds the nesting are the guards of the code against causal re-entry and the one-shot
  continuations of layers.\<close>

theorem dispatch_always_returns:
  assumes "indexed_manifests (kc_manifests (dv_config env))"
  shows "(\<exists>x. \<forall>n\<ge>dispatch_bound env. kernel_invoke env n service input caller binding st = Some x) \<and>
    (\<exists>y. \<forall>n\<ge>dispatch_bound env.
      kernel_invoke_component env n component service input caller plugin st = Some y)"
proof (intro conjI same_answer)
  show "kernel_invoke env n service input caller binding st \<noteq> None" if "dispatch_bound env \<le> n" for n
    using assms that by (rule kernel_invoke_total)
  show "kernel_invoke_component env n component service input caller plugin st \<noteq> None"
    if "dispatch_bound env \<le> n" for n
    using assms that by (rule kernel_invoke_component_total)
qed (blast intro: kernel_invoke_mono kernel_invoke_component_mono)+

text \<open>A plugin \<open>b\<close> that answers a call by calling its own service again, and returns what came of it.\<close>

definition sample_env :: dispatch_env where
  "sample_env = \<lparr>dv_generation = None, dv_graph = \<lparr>cg_components = [], cg_listeners = []\<rparr>, dv_config = sample_config,
     dv_states = [(''a'', Active), (''b'', Active)], dv_instances = {''a'', ''b''}, dv_shared = (\<lambda>_. True),
     dv_invoke = (\<lambda>n p c service input. Invoke_Service service input {''root''} None
       (\<lambda>r. case r of Inr out \<Rightarrow> Finish (Returned (Inr out)) False | Inl _ \<Rightarrow> Finish (Returned (Inr [1])) False)),
     dv_layer = (\<lambda>n p service input. Finish Panicked False),
     dv_encode = (\<lambda>v. Inl ''no wire''), dv_decode = (\<lambda>b. Inl ''no wire'')\<rparr>"

definition idle :: dispatch_state where
  "idle = \<lparr>dp_entered = 0, dp_events = [], dp_provenance = []\<rparr>"

lemma sample_indexed: "indexed_manifests (kc_manifests (dv_config sample_env))"
  by (simp add: indexed_manifests_def sample_env_def sample_config_defs split: if_splits)

theorem dispatch_always_returns_witness:
  "\<exists>x. kernel_invoke sample_env (dispatch_bound sample_env) ''svc@1'' [7] {''root''} None idle = Some x"
  using dispatch_always_returns [OF sample_indexed] by blast

end
