(* ===== verification/Dispatch_Provenance.thy ===== *)
theory Dispatch_Provenance
  imports Dispatch_Safety
begin

text \<open>
  What a dispatch records. Each run of a chain leaves one provenance; the participants it lists are the
  ones that were run, in the order of the chain, each with the authority it really had and with its
  outcome; the records of the calls a participant makes come before the record of the call it takes part in. The contract of
  a runner says what the run of a chain from a position adds to the
  trace and to the state; one induction on the depth of nesting shows that \<open>run_chain\<close> keeps it.
\<close>

subsection \<open>Well-formed lists of participants\<close>

definition plugin_bounded :: "dispatch_env \<Rightarrow> plugin_id \<Rightarrow> authority \<Rightarrow> bool" where
  "plugin_bounded env p auth \<longleftrightarrow> (case bt_get (kc_manifests (dv_config env)) p of
     Some m \<Rightarrow> auth \<subseteq> pm_maximum m | None \<Rightarrow> False)"

text \<open>
  Participants entered from a position on, with the caller's authority: a layer that did not hand the
  call on is the last one, and so is the terminal.
\<close>

fun participants_ok ::
  "dispatch_env \<Rightarrow> service_chain \<Rightarrow> nat \<Rightarrow> authority \<Rightarrow> participant list \<Rightarrow> bool" where
  "participants_ok env ch pos caller [] \<longleftrightarrow> True"
| "participants_ok env ch pos caller (pt # pts) \<longleftrightarrow>
     pt_plugin pt = pb_plugin (provider_at ch pos) \<and> is_active env (pt_plugin pt) \<and>
     pt_authority pt \<subseteq> caller \<and> plugin_bounded env (pt_plugin pt) (pt_authority pt) \<and>
     (if pos < length (ch_layers ch)
      then pt_role pt = Layer \<and> pt_outcome pt \<noteq> OutSucceeded \<and> (pt_outcome pt = OutHandled \<longrightarrow> pts = [])
      else pt_role pt = Terminal \<and> pt_outcome pt \<in> {OutSucceeded, OutFailed} \<and> pts = []) \<and>
     participants_ok env ch (Suc pos) (pt_authority pt) pts"

text \<open>
  What the first participant of a run is recorded with is what the run answered: it denied, failed (or was cancelled) or
  succeeded. A run without participants was refused by the kernel.
\<close>

definition error_of :: "'e + 'a \<Rightarrow> 'e option" where
  "error_of r = (case r of Inl e \<Rightarrow> Some e | Inr _ \<Rightarrow> None)"

definition outcome_fits :: "service_id \<Rightarrow> plugin_id \<Rightarrow> participant_outcome \<Rightarrow> dispatch_error option \<Rightarrow> bool" where
  "outcome_fits service p out err \<longleftrightarrow> (case out of
     OutDenied \<Rightarrow> \<exists>m. err = Some (ServiceDenied p service m)
   | OutFailed \<Rightarrow> err = Some (ServiceCancelled p service) \<or> (\<exists>m. err = Some (ServiceInvoke p service m))
   | _ \<Rightarrow> err = None)"

definition answer_fits :: "service_id \<Rightarrow> participant list \<Rightarrow> dispatch_error option \<Rightarrow> bool" where
  "answer_fits service pts err \<longleftrightarrow> (case pts of
     [] \<Rightarrow> \<exists>e. err = Some (Registry_Error e) | pt # _ \<Rightarrow> outcome_fits service (pt_plugin pt) (pt_outcome pt) err)"

text \<open>
  Moreover a run without participants is one whose first was not admitted, and a layer that is recorded to have delegated, with nobody
  after it, did hand the call on: the next was not admitted.
\<close>

definition refused_at :: "dispatch_env \<Rightarrow> service_chain \<Rightarrow> nat \<Rightarrow> guards \<Rightarrow> bool" where
  "refused_at env ch pos g \<longleftrightarrow> \<not> is_ok (admit_participant env ch (pb_plugin (provider_at ch pos)) g)"

definition run_fits ::
    "dispatch_env \<Rightarrow> service_chain \<Rightarrow> nat \<Rightarrow> guards \<Rightarrow> participant list \<Rightarrow> dispatch_error option \<Rightarrow> bool" where
  "run_fits env ch pos g pts err \<longleftrightarrow> answer_fits (ch_service ch) pts err \<and> (pts = [] \<longrightarrow> refused_at env ch pos g) \<and>
     (\<forall>pt. pts = [pt] \<longrightarrow> pt_outcome pt = OutDelegated \<longrightarrow>
        refused_at env ch (Suc pos) (g\<lparr>gd_stack := insert (pt_plugin pt) (gd_stack g)\<rparr>))"

definition reached_terminal :: "participant list \<Rightarrow> bool" where
  "reached_terminal pts \<longleftrightarrow> (\<exists>pt\<in>set pts. pt_role pt = Terminal)"

definition completed :: "participant \<Rightarrow> pending_participant" where
  "completed pt = \<lparr>pd_plugin = pt_plugin pt, pd_role = pt_role pt, pd_authority = pt_authority pt,
     pd_outcome = Some (pt_outcome pt)\<rparr>"

lemma finish_completed [simp]: "finish_participant (completed pt) = pt"
  by (simp add: finish_participant_def completed_def)

definition trace_extends ::
  "dispatch_env \<Rightarrow> service_chain \<Rightarrow> nat \<Rightarrow> authority \<Rightarrow> invocation_trace \<Rightarrow> invocation_trace \<Rightarrow> participant list \<Rightarrow> bool" where
  "trace_extends env ch pos caller tr tr' pts \<longleftrightarrow>
     tr' = tr\<lparr>it_participants := it_participants tr @ map completed pts,
              it_terminal := it_terminal tr \<or> reached_terminal pts\<rparr> \<and>
     participants_ok env ch pos caller pts"

subsection \<open>Records of completed chains\<close>

definition provenance_ok :: "dispatch_env \<Rightarrow> authority \<Rightarrow> invocation_provenance \<Rightarrow> bool" where
  "provenance_ok env caller pv \<longleftrightarrow>
     iv_generation pv = dv_generation env \<and> iv_service pv = ch_service (iv_chain pv) \<and>
     iv_policy pv = ch_policy (iv_chain pv) \<and> iv_caller pv \<subseteq> caller \<and>
     participants_ok env (iv_chain pv) 0 (iv_caller pv) (iv_participants pv) \<and>
     iv_terminal pv = reached_terminal (iv_participants pv)"

text \<open>
  The records of calls made under an authority: each call was made with no more than that, and before its own record
  come the records of the calls that its participants made, each with no more than its own authority. A participant
  calls before and after what the rest of the chain does.
\<close>

inductive calls_of :: "authority \<Rightarrow> invocation_provenance list \<Rightarrow> bool"
  and ran_with :: "participant list \<Rightarrow> invocation_provenance list \<Rightarrow> bool" where
  no_calls: "calls_of a []"
| one_more_call: "ran_with (iv_participants pv) nested \<Longrightarrow> iv_caller pv \<subseteq> a \<Longrightarrow> calls_of a later \<Longrightarrow>
    calls_of a (nested @ pv # later)"
| nobody_ran: "ran_with [] []"
| one_ran: "calls_of (pt_authority pt) before \<Longrightarrow> ran_with pts rest \<Longrightarrow> calls_of (pt_authority pt) after \<Longrightarrow>
    ran_with (pt # pts) (before @ rest @ after)"

text \<open>The records of one call: none if it was refused, else its own record, after those of its participants.\<close>

definition call_recorded :: "authority \<Rightarrow> invocation_provenance list \<Rightarrow> bool" where
  "call_recorded caller new \<longleftrightarrow> new = [] \<or>
     (\<exists>nested pv. new = nested @ [pv] \<and> iv_caller pv = caller \<and> ran_with (iv_participants pv) nested)"

lemma calls_of_append: "calls_of a xs \<Longrightarrow> calls_of a ys \<Longrightarrow> calls_of a (xs @ ys)"
proof (induction rule: calls_of_ran_with.inducts(1) [where ?P2.0 = "\<lambda>_ _. True"])
  case (one_more_call pv nested a later)
  from calls_of_ran_with.one_more_call [OF one_more_call(1,3) one_more_call(5) [OF one_more_call(6)]] show ?case by simp
qed simp_all

lemma calls_of_mono: "calls_of a xs \<Longrightarrow> a \<subseteq> b \<Longrightarrow> calls_of b xs"
proof (induction rule: calls_of_ran_with.inducts(1) [where ?P2.0 = "\<lambda>_ _. True"])
  case (one_more_call pv nested a later)
  then show ?case using calls_of_ran_with.one_more_call [OF one_more_call(1)] by blast
qed (simp_all add: no_calls)

lemma call_is_calls: "call_recorded caller new \<Longrightarrow> caller \<subseteq> a \<Longrightarrow> calls_of a new"
  by (auto simp: call_recorded_def intro: no_calls one_more_call [OF _ _ no_calls])

text \<open>The events of the bus that report a completed call say what its record says, and what it answered.\<close>

fun is_invocation :: "trace_event \<Rightarrow> bool" where
  "is_invocation (Service_Invocation _ _ _ _ _ _ _) = True"
| "is_invocation (Policy_Stage _ _ _ _ _) = False"

fun reports :: "invocation_provenance \<Rightarrow> trace_event \<Rightarrow> bool" where
  "reports pv (Service_Invocation service _ out success err terminal pts) \<longleftrightarrow> service = iv_service pv \<and>
     terminal = iv_terminal pv \<and> pts = iv_participants pv \<and> answer_fits service pts err \<and>
     (success \<longleftrightarrow> err = None) \<and> (out \<noteq> None \<longleftrightarrow> success)"
| "reports pv (Policy_Stage _ _ _ _ _) \<longleftrightarrow> False"

definition recorded ::
  "dispatch_env \<Rightarrow> authority \<Rightarrow> dispatch_state \<Rightarrow> dispatch_state \<Rightarrow> invocation_provenance list \<Rightarrow> bool" where
  "recorded env caller st st' new \<longleftrightarrow> dp_provenance st' = dp_provenance st @ new \<and> (\<forall>pv\<in>set new. provenance_ok env caller pv) \<and>
     (\<exists>es. dp_events st' = dp_events st @ es \<and> list_all2 reports new (filter is_invocation es))"

definition records :: "dispatch_env \<Rightarrow> authority \<Rightarrow> dispatch_state \<Rightarrow> dispatch_state \<Rightarrow> bool" where
  "records env caller st st' \<longleftrightarrow> (\<exists>new. recorded env caller st st' new \<and> calls_of caller new)"

lemma recorded_refl [simp]: "recorded env caller st st []"
  by (auto simp: recorded_def intro: exI [of _ "[]"])

lemma recorded_trans:
  assumes "recorded env caller st st1 new" "recorded env caller st1 st2 new'"
  shows "recorded env caller st st2 (new @ new')"
proof -
  from assms obtain es es' where "dp_events st1 = dp_events st @ es" "list_all2 reports new (filter is_invocation es)"
    "dp_events st2 = dp_events st1 @ es'" "list_all2 reports new' (filter is_invocation es')"
    unfolding recorded_def by blast
  then have "dp_events st2 = dp_events st @ (es @ es')" "list_all2 reports (new @ new') (filter is_invocation (es @ es'))"
    by (simp_all add: list_all2_appendI)
  with assms show ?thesis unfolding recorded_def by (metis UnE append_assoc set_append)
qed

lemma recorded_mono: "recorded env a st st' new \<Longrightarrow> a \<subseteq> b \<Longrightarrow> recorded env b st st' new"
  unfolding recorded_def provenance_ok_def by blast

lemma records_refl [simp]: "records env caller st st"
  unfolding records_def using recorded_refl no_calls by blast

lemma records_trans: "records env caller st st1 \<Longrightarrow> records env caller st1 st2 \<Longrightarrow> records env caller st st2"
  unfolding records_def using recorded_trans calls_of_append by blast

lemma records_mono: "records env a st st' \<Longrightarrow> a \<subseteq> b \<Longrightarrow> records env b st st'"
  unfolding records_def using recorded_mono calls_of_mono by blast

text \<open>Policy stages and entering a participant record nothing.\<close>

lemma recorded_stage:
  "recorded env a st (emit_policy_stage p s out sub rs st) []" "recorded env a st (chain_stage s out service p' rs st) []"
  "recorded env a st (participant_start ch pos st) []" "recorded env a st (resolved_stage s service r st) []"
  by (auto simp: recorded_def emit_policy_stage_def chain_stage_def participant_start_def resolved_stage_def split: sum.splits)

lemma recorded_after: "recorded env a st st1 [] \<Longrightarrow> recorded env a st1 st2 new \<Longrightarrow> recorded env a st st2 new"
  using recorded_trans [of env a st st1 "[]" st2 new] by simp

lemma recorded_layers: "prepare_layers env service kept ls st = (r, st') \<Longrightarrow> recorded env a st st' []"
proof (induction env service kept ls st rule: prepare_layers.induct)
  case (2 env service kept l ls st)
  then show ?case by (auto simp: recorded_stage split: if_splits intro: recorded_after [OF recorded_stage(2)])
qed simp

lemma recorded_chain:
  assumes "prepare_active_chain env ch st = (r, st')"
  shows "recorded env a st st' []"
proof -
  obtain q st1 where q: "prepare_layers env (ch_service ch) [] (ch_layers ch) st = (q, st1)" by fastforce
  from assms q have "recorded env a st1 st' []"
    by (auto simp: prepare_active_chain_def Let_def recorded_stage split: sum.splits if_splits)
  with recorded_layers [OF q] show ?thesis by (rule recorded_after)
qed

subsection \<open>The contract of a runner\<close>

definition runner_records :: "dispatch_env \<Rightarrow> chain_runner \<Rightarrow> bool" where
  "runner_records env run \<longleftrightarrow>
     (\<forall>ch pos input caller g tr st r tr' st'. run ch pos input caller g tr st = Some (r, tr', st') \<longrightarrow>
        (\<exists>pts new. trace_extends env ch pos caller tr tr' pts \<and> run_fits env ch pos g pts (error_of r) \<and>
           recorded env caller st st' new \<and> ran_with pts new))"

lemma runner_recordsD:
  assumes "runner_records env run" "run ch pos input caller g tr st = Some (r, tr', st')"
  obtains pts new where "trace_extends env ch pos caller tr tr' pts" "run_fits env ch pos g pts (error_of r)"
    "recorded env caller st st' new" "ran_with pts new"
  using assms unfolding runner_records_def by blast

text \<open>A call leaves the records of one call, the last of which says what it answered.\<close>

definition call_records ::
  "dispatch_env \<Rightarrow> authority \<Rightarrow> dispatch_error + bytes \<Rightarrow> dispatch_state \<Rightarrow> dispatch_state \<Rightarrow> bool" where
  "call_records env caller r st st' \<longleftrightarrow> (\<exists>new. recorded env caller st st' new \<and> call_recorded caller new \<and>
     (new \<noteq> [] \<longrightarrow> answer_fits (iv_service (last new)) (iv_participants (last new)) (error_of r)))"

lemma call_records_after: "recorded env a st st1 [] \<Longrightarrow> call_records env a r st1 st2 \<Longrightarrow> call_records env a r st st2"
  unfolding call_records_def using recorded_after by blast

lemma call_records_none: "recorded env a st st' [] \<Longrightarrow> call_records env a r st st'"
  unfolding call_records_def call_recorded_def by blast

lemma call_records_records: "call_records env caller r st st' \<Longrightarrow> caller \<subseteq> a \<Longrightarrow> records env a st st'"
  unfolding call_records_def records_def using recorded_mono call_is_calls by blast

lemma traced_run_records:
  assumes "runner_records env run" "traced_run env run ch input caller g provider st = Some (r, st')"
  shows "call_records env caller r st st'"
proof -
  from assms(2) obtain tr st1 where run: "run ch 0 input caller g (trace_new ch caller (dv_generation env) provider) st = Some (r, tr, st1)"
    and st': "st' = emit_runtime_trace (trace_finish tr) (length input) r
      (st1\<lparr>dp_provenance := dp_provenance st1 @ [trace_finish tr]\<rparr>)"
    by (auto simp: traced_run_def Let_def)
  from runner_recordsD [OF assms(1) run] obtain pts new where pts: "answer_fits (ch_service ch) pts (error_of r)"
      "recorded env caller st st1 new" "ran_with pts new"
      "trace_extends env ch 0 caller (trace_new ch caller (dv_generation env) provider) tr pts" unfolding run_fits_def by metis
  then have pv: "trace_finish tr = \<lparr>iv_generation = dv_generation env, iv_policy = ch_policy ch,
      iv_service = ch_service ch, iv_chain = ch, iv_provider = provider, iv_caller = caller,
      iv_participants = pts, iv_terminal = reached_terminal pts\<rparr>"
    by (simp add: trace_extends_def trace_finish_def trace_new_def o_def)
  with pts(1,4) have "recorded env caller st1 st' [trace_finish tr]"
    unfolding st' recorded_def trace_extends_def emit_runtime_trace_def
    by (auto simp: provenance_ok_def error_of_def split: sum.splits)
  from recorded_trans [OF pts(2) this] show ?thesis unfolding call_records_def call_recorded_def
    using pts(1,3) pv by (intro exI [of _ "new @ [trace_finish tr]"]) simp
qed

lemma invoke_service_records:
  assumes "runner_records env run" "invoke_service_with env run service input caller binding g st = Some (r, st')"
  shows "call_records env caller r st st'"
proof (cases "service \<in> gd_services g")
  case False
  let ?r = "resolve_chain (dv_config env) service caller binding"
  let ?st = "resolved_stage ''service_resolution'' service ?r st"
  have "call_records env caller r ?st st'"
  proof (cases ?r)
    case (Inr ch)
    obtain q st1 where q: "prepare_active_chain env ch ?st = (q, st1)" by fastforce
    with assms(2) False Inr have "call_records env caller r st1 st'"
      by (auto simp: invoke_service_with_def intro: traced_run_records [OF assms(1)] call_records_none split: sum.splits)
    with recorded_chain [OF q] show ?thesis by (rule call_records_after)
  qed (use assms(2) False in \<open>simp add: invoke_service_with_def call_records_none\<close>)
  then show ?thesis by (rule call_records_after [OF recorded_stage(4)])
qed (use assms(2) in \<open>simp add: invoke_service_with_def call_records_none\<close>)

lemma invoke_component_records:
  assumes "runner_records env run"
    and "invoke_component_service_with env run service c b provider input caller g st = Some (r, st')"
  shows "call_records env caller r st st'"
proof (cases "(c, service) \<in> gd_endpoints g")
  case False
  let ?r = "resolve_component_chain (dv_config env) service caller b"
  let ?st = "resolved_stage ''component_resolution'' service ?r st"
  have "st' = st \<or> call_records env caller r ?st st'"
  proof (cases ?r)
    case (Inr ch)
    obtain q st1 where q: "prepare_active_chain env ch ?st = (q, st1)" by fastforce
    with assms(2) False Inr have "st' = st \<or> call_records env caller r st1 st'"
      by (auto simp: invoke_component_service_with_def intro: traced_run_records [OF assms(1)] call_records_none
          split: sum.splits option.splits if_splits)
    with recorded_chain [OF q] show ?thesis by (blast intro: call_records_after)
  qed (use assms(2) False in \<open>auto simp: invoke_component_service_with_def call_records_none split: option.splits if_splits\<close>)
  then show ?thesis by (auto intro: call_records_after [OF recorded_stage(4)] call_records_none)
qed (use assms(2) in \<open>simp add: invoke_component_service_with_def call_records_none\<close>)

lemma invoke_import_records:
  assumes "runner_records env run" "invoke_import env run h component i request st = Some (r, st')"
  shows "records env (hv_authority h) st st'"
proof (cases "import_target env h component i request")
  case (Inr t)
  with assms(2) obtain c b pv input auth g r1 service where
    "invoke_component_service_with env run service c b pv input (attenuate (hv_authority h) auth) g st = Some (r1, st')"
    by (cases t) (auto simp: invoke_import_def Let_def)
  from call_records_records [OF invoke_component_records [OF assms(1) this] attenuate_le(1)] show ?thesis .
qed (use assms(2) in \<open>simp add: invoke_import_def\<close>)

lemma participants_mono: "participants_ok env ch pos a pts \<Longrightarrow> a \<subseteq> b \<Longrightarrow> participants_ok env ch pos b pts"
  by (cases pts) auto

text \<open>
  What a body leaves behind: the records of its calls, and, as it went on with its chain at most once, between them those of the
  rest of the chain.
\<close>

definition body_extends ::
  "dispatch_env \<Rightarrow> invocation_host \<Rightarrow> bool \<times> invocation_trace \<times> dispatch_state \<Rightarrow>
     bool \<times> invocation_trace \<times> dispatch_state \<Rightarrow> bool" where
  "body_extends env h s s' \<longleftrightarrow> (case (s, s') of ((used, tr, st), (used', tr', st')) \<Rightarrow>
     used' = used \<and> tr' = tr \<and> records env (hv_authority h) st st' \<or>
     \<not> used \<and> used' \<and> (\<exists>ch next pts bs ms as. hv_rest h = Some (ch, next) \<and>
        trace_extends env ch next (hv_authority h) tr tr' pts \<and> recorded env (hv_authority h) st st' (bs @ ms @ as) \<and>
        calls_of (hv_authority h) bs \<and> ran_with pts ms \<and> calls_of (hv_authority h) as \<and>
        (pts = [] \<longrightarrow> refused_at env ch next (hv_guards h))))"

lemma body_extends_calls: "records env (hv_authority h) st st' \<Longrightarrow> body_extends env h (used, tr, st) (used, tr, st')"
  by (simp add: body_extends_def)

lemma body_extends_trans:
  assumes "body_extends env h s s1" "body_extends env h s1 s2"
  shows "body_extends env h s s2"
proof -
  obtain u tr st u1 tr1 st1 u2 tr2 st2 where s: "s = (u, tr, st)" "s1 = (u1, tr1, st1)" "s2 = (u2, tr2, st2)"
    by (metis prod_cases3)
  let ?a = "hv_authority h"
  consider (calls) "u1 = u" "tr1 = tr" "records env ?a st st1" | (went_on) "\<not> u" "u1" "u2 = u1" "tr2 = tr1" "records env ?a st1 st2"
    using assms unfolding s body_extends_def by auto
  then show ?thesis
  proof cases
    case calls
    then obtain new where new: "recorded env ?a st st1 new" "calls_of ?a new" unfolding records_def by blast
    from assms(2) show ?thesis unfolding s body_extends_def prod.case
    proof (elim disjE conjE exE)
      fix ch nxt pts bs ms as
      assume a: "\<not> u1" "u2" "hv_rest h = Some (ch, nxt)" "trace_extends env ch nxt ?a tr1 tr2 pts"
        "recorded env ?a st1 st2 (bs @ ms @ as)" "calls_of ?a bs" "ran_with pts ms" "calls_of ?a as"
        "pts = [] \<longrightarrow> refused_at env ch nxt (hv_guards h)"
      from recorded_trans [OF new(1) a(5)] have "recorded env ?a st st2 ((new @ bs) @ ms @ as)" by simp
      with a calls calls_of_append [OF new(2) a(6)]
      show "u2 = u \<and> tr2 = tr \<and> records env ?a st st2 \<or> \<not> u \<and> u2 \<and> (\<exists>ch next pts bs ms as. hv_rest h = Some (ch, next) \<and>
        trace_extends env ch next ?a tr tr2 pts \<and> recorded env ?a st st2 (bs @ ms @ as) \<and>
        calls_of ?a bs \<and> ran_with pts ms \<and> calls_of ?a as \<and> (pts = [] \<longrightarrow> refused_at env ch next (hv_guards h)))" by blast
    qed (use calls records_trans in blast)
  next
    case went_on
    from went_on(5) obtain new where new: "recorded env ?a st1 st2 new" "calls_of ?a new" unfolding records_def by blast
    from assms(1) went_on(1,2) obtain ch nxt pts bs ms as where a: "hv_rest h = Some (ch, nxt)"
      "trace_extends env ch nxt ?a tr tr1 pts" "recorded env ?a st st1 (bs @ ms @ as)" "calls_of ?a bs" "ran_with pts ms"
      "calls_of ?a as" "pts = [] \<longrightarrow> refused_at env ch nxt (hv_guards h)" unfolding s body_extends_def by auto
    from recorded_trans [OF a(3) new(1)] have "recorded env ?a st st2 (bs @ ms @ (as @ new))" by simp
    with a went_on(1-4) calls_of_append [OF a(6) new(2)] show ?thesis unfolding s body_extends_def by auto
  qed
qed

lemma continue_records:
  assumes "runner_records env run" "continue_service run h input requested s = Some (r, s')"
  shows "body_extends env h s s'"
proof -
  obtain used tr st used' tr' st' where s: "s = (used, tr, st)" "s' = (used', tr', st')" by (metis prod_cases3)
  let ?a = "hv_authority h"
  show ?thesis
  proof (cases "\<exists>ch nxt. hv_rest h = Some (ch, nxt) \<and> \<not> used")
    case True
    then obtain ch nxt where rest: "hv_rest h = Some (ch, nxt)" and unused: "\<not> used" by blast
    with assms(2) s have
      "run ch nxt input (attenuate ?a requested) (hv_guards h) tr st = Some (r, tr', st')" and used'
      by (auto simp: continue_service_def)
    from runner_recordsD [OF assms(1) this(1)] obtain pts new where pts:
      "trace_extends env ch nxt (attenuate ?a requested) tr tr' pts" "recorded env (attenuate ?a requested) st st' new"
      "ran_with pts new" "pts = [] \<longrightarrow> refused_at env ch nxt (hv_guards h)" unfolding run_fits_def by metis
    from pts(1) have "trace_extends env ch nxt ?a tr tr' pts"
      using participants_mono [OF _ attenuate_le(1)] unfolding trace_extends_def by blast
    moreover have "recorded env ?a st st' ([] @ new @ [])" using recorded_mono [OF pts(2) attenuate_le(1)] by simp
    ultimately show ?thesis using rest unused \<open>used'\<close> pts(3,4) no_calls unfolding s body_extends_def prod.case by blast
  qed (use assms(2) s in \<open>auto simp: continue_service_def body_extends_calls split: option.splits\<close>)
qed

lemma run_body_records:
  assumes "runner_records env run"
  shows "run_body env run h b s = Some (v, s') \<Longrightarrow> body_extends env h s s'"
proof (induction b arbitrary: s)
  case (Finish v cancelled)
  then have "s' = s" by simp
  then show ?case by (cases s) (simp add: body_extends_calls)
next
  case (Invoke_Service service input requested binding k)
  then obtain used tr st q st1 where q: "s = (used, tr, st)"
    "invoke_service_abi env run h service input requested binding st = Some (q, st1)"
    "run_body env run h (k q) (used, tr, st1) = Some (v, s')"
    by (cases s) (auto split: option.splits)
  from q(2) have "call_records env (attenuate (hv_authority h) requested) q st st1"
    unfolding invoke_service_abi_def by (rule invoke_service_records [OF assms])
  from body_extends_trans [OF body_extends_calls [OF call_records_records [OF this attenuate_le(1)]] Invoke_Service.IH [OF rangeI q(3)]]
  show ?case by (simp add: q(1))
next
  case (Invoke_Import component i request k)
  then obtain used tr st q st1 where q: "s = (used, tr, st)" "invoke_import env run h component i request st = Some (q, st1)"
    "run_body env run h (k q) (used, tr, st1) = Some (v, s')"
    by (cases s) (auto split: option.splits)
  from body_extends_trans [OF body_extends_calls [OF invoke_import_records [OF assms q(2)]] Invoke_Import.IH [OF rangeI q(3)]]
  show ?case by (simp add: q(1))
next
  case (Continue_Service input requested k)
  then obtain q s1 where q: "continue_service run h input requested s = Some (q, s1)" "run_body env run h (k q) s1 = Some (v, s')"
    by (auto split: option.splits)
  from continue_records [OF assms q(1)] Continue_Service.IH [OF rangeI q(2)] show ?case by (rule body_extends_trans)
qed

lemma admitted_active: "admit_participant env ch p g = Inr u \<Longrightarrow> is_active env p"
  by (simp add: admit_participant_def split: if_splits)

text \<open>
  A participant that was entered and whose body returned: its own record in front of the ones its
  continuation added, and the records of its calls around those of the rest of the chain.
\<close>

lemma participant_records:
  assumes "runner_records env run" "admit_participant env ch (pb_plugin (provider_at ch pos)) g = Inr u"
    and m: "bt_get (kc_manifests (dv_config env)) (pb_plugin (provider_at ch pos)) = Some m"
    and run: "run_body env run (participant_host env ch pos caller g m) b
      (False, participant_trace ch pos caller m tr, participant_start ch pos st) = Some (v, used, tr1, st')"
    and out: "if pos < length (ch_layers ch) then out \<noteq> OutSucceeded \<and> (out = OutHandled \<longrightarrow> \<not> used) \<and> (out = OutDelegated \<longrightarrow> used)
      else out \<in> {OutSucceeded, OutFailed}"
    and fits: "outcome_fits (ch_service ch) (pb_plugin (provider_at ch pos)) out err"
  shows "\<exists>pts new. trace_extends env ch pos caller tr (set_outcome (length (it_participants tr)) out tr1) pts \<and>
    run_fits env ch pos g pts err \<and> recorded env caller st st' new \<and> ran_with pts new"
proof -
  let ?h = "participant_host env ch pos caller g m" and ?a = "attenuate caller (pm_maximum m)"
  let ?me = "\<lparr>pt_plugin = pb_plugin (provider_at ch pos),
    pt_role = (if pos < length (ch_layers ch) then Layer else Terminal), pt_authority = ?a, pt_outcome = out\<rparr>"
  have h: "hv_authority ?h = ?a" "hv_rest ?h = (if pos < length (ch_layers ch) then Some (ch, Suc pos) else None)"
    "hv_guards ?h = g\<lparr>gd_stack := insert (pb_plugin (provider_at ch pos)) (gd_stack g)\<rparr>"
    by (simp_all add: participant_host_def Let_def)
  from run_body_records [OF assms(1) run] have "\<exists>pts bs ms as. (\<not> used \<and> pts = [] \<and> tr1 = participant_trace ch pos caller m tr \<or>
      used \<and> pos < length (ch_layers ch) \<and> trace_extends env ch (Suc pos) ?a (participant_trace ch pos caller m tr) tr1 pts \<and>
        (pts = [] \<longrightarrow> refused_at env ch (Suc pos) (hv_guards ?h))) \<and>
      recorded env ?a (participant_start ch pos st) st' (bs @ ms @ as) \<and> calls_of ?a bs \<and> ran_with pts ms \<and> calls_of ?a as"
    unfolding body_extends_def records_def prod.case h(1) h(2)
  proof (elim disjE conjE exE)
    fix new assume "used = False" "tr1 = participant_trace ch pos caller m tr"
      "recorded env ?a (participant_start ch pos st) st' new" "calls_of ?a new"
    then show ?thesis using no_calls nobody_ran
      by (intro exI [of _ "[]"] exI [of _ new]) auto
  qed (auto split: if_splits)
  then obtain pts bs ms as where body: "\<not> used \<and> pts = [] \<and> tr1 = participant_trace ch pos caller m tr \<or>
      used \<and> pos < length (ch_layers ch) \<and> trace_extends env ch (Suc pos) ?a (participant_trace ch pos caller m tr) tr1 pts \<and>
        (pts = [] \<longrightarrow> refused_at env ch (Suc pos) (hv_guards ?h))"
    and rec: "recorded env ?a (participant_start ch pos st) st' (bs @ ms @ as)" "calls_of ?a bs" "ran_with pts ms" "calls_of ?a as"
    by blast
  have "plugin_bounded env (pb_plugin (provider_at ch pos)) ?a" using m by (simp add: plugin_bounded_def)
  moreover have "is_active env (pb_plugin (provider_at ch pos))" using assms(2) by (rule admitted_active)
  ultimately have "trace_extends env ch pos caller tr (set_outcome (length (it_participants tr)) out tr1) (?me # pts)"
    using body out by (auto simp: trace_extends_def participant_trace_def trace_enter_def set_outcome_def completed_def
        reached_terminal_def list_update_append)
  moreover have "run_fits env ch pos g (?me # pts) err"
    using fits body out h(3) by (auto simp: run_fits_def answer_fits_def split: if_splits)
  moreover have "recorded env caller st st' (bs @ ms @ as)"
    by (rule recorded_after [OF recorded_stage(3) recorded_mono [OF rec(1) attenuate_le(1)]])
  moreover have "ran_with (?me # pts) (bs @ ms @ as)" using one_ran [of ?me] rec(2-4) by simp
  ultimately show ?thesis by blast
qed

lemma layer_outcomes:
  assumes "layer_verdict p service v cancelled used = (r, out)"
  shows "out \<noteq> OutSucceeded \<and> (out = OutHandled \<longrightarrow> \<not> used) \<and> (out = OutDelegated \<longrightarrow> used)" "outcome_fits service p out (error_of r)"
  using assms by (auto simp: layer_verdict_def outcome_fits_def error_of_def split: verdict.splits sum.splits layer_result.splits if_splits)

lemma terminal_outcomes:
  assumes "terminal_verdict p service v cancelled = (r, out)"
  shows "out \<in> {OutSucceeded, OutFailed}" "outcome_fits service p out (error_of r)"
  using assms by (auto simp: terminal_verdict_def outcome_fits_def error_of_def split: verdict.splits sum.splits if_splits)

lemma chain_step_records:
  assumes "runner_records env run"
  shows "runner_records env (chain_step env run)"
  unfolding runner_records_def
proof (intro allI impI)
  fix ch pos input caller g tr st r tr' st'
  assume step: "chain_step env run ch pos input caller g tr st = Some (r, tr', st')"
  show "\<exists>pts new. trace_extends env ch pos caller tr tr' pts \<and> run_fits env ch pos g pts (error_of r) \<and>
    recorded env caller st st' new \<and> ran_with pts new"
  proof (cases "admit_participant env ch (pb_plugin (provider_at ch pos)) g")
    case (Inl e)
    with step have eqs: "r = Inl (Registry_Error e)" "tr' = tr" "st' = st" by (simp_all add: chain_step_eqs(1))
    have "trace_extends env ch pos caller tr tr []" "run_fits env ch pos g [] (Some (Registry_Error e))"
      using Inl by (simp_all add: trace_extends_def reached_terminal_def run_fits_def answer_fits_def refused_at_def)
    then show ?thesis unfolding eqs error_of_def sum.case using recorded_refl nobody_ran by blast
  next
    case (Inr u)
    with step obtain m where m: "bt_get (kc_manifests (dv_config env)) (pb_plugin (provider_at ch pos)) = Some m"
      by (cases "bt_get (kc_manifests (dv_config env)) (pb_plugin (provider_at ch pos))") (auto simp: chain_step_eqs(2))
    note participant = participant_records [OF assms Inr m]
    show ?thesis
    proof (cases "pos < length (ch_layers ch)")
      case True
      from step [unfolded chain_step_eqs(3) [OF Inr m True]] obtain v cancelled used tr1 out where body:
        "run_body env run (participant_host env ch pos caller g m)
          (dv_layer env (dp_entered st) (pb_plugin (provider_at ch pos)) (ch_service ch) input)
          (False, participant_trace ch pos caller m tr, participant_start ch pos st) = Some ((v, cancelled), used, tr1, st')"
        and out: "layer_verdict (pb_plugin (provider_at ch pos)) (ch_service ch) v cancelled used = (r, out)"
        and tr': "tr' = set_outcome (length (it_participants tr)) out tr1"
        by (auto simp: record_verdict_def prod_eq_iff)
      from participant [OF body, of out "error_of r"] layer_outcomes [OF out] True show ?thesis unfolding tr' by simp
    next
      case False
      from step [unfolded chain_step_eqs(4) [OF Inr m False]] obtain v cancelled used tr1 out where body:
        "run_body env run (participant_host env ch pos caller g m)
          (dv_invoke env (dp_entered st) (pb_plugin (provider_at ch pos)) (gd_terminal g) (ch_service ch) input)
          (False, participant_trace ch pos caller m tr, participant_start ch pos st) = Some ((v, cancelled), used, tr1, st')"
        and out: "terminal_verdict (pb_plugin (provider_at ch pos)) (ch_service ch) v cancelled = (r, out)"
        and tr': "tr' = set_outcome (length (it_participants tr)) out tr1"
        by (auto simp: record_verdict_def prod_eq_iff)
      from participant [OF body, of out "error_of r"] terminal_outcomes [OF out] False show ?thesis unfolding tr' by simp
    qed
  qed
qed

lemma run_chain_records: "runner_records env (run_chain env n)"
proof (induction n)
  case (Suc n)
  then show ?case by (simp add: chain_step_records)
qed (simp add: runner_records_def)

lemma kernel_invoke_records:
  "kernel_invoke env n service input caller binding st = Some (r, st') \<Longrightarrow> call_records env caller r st st'"
  unfolding kernel_invoke_def by (rule invoke_service_records [OF run_chain_records])

subsection \<open>The properties\<close>

lemma participants_bounded:
  "participants_ok env ch pos caller pts \<Longrightarrow> pt \<in> set pts \<Longrightarrow>
     pt_authority pt \<subseteq> caller \<and> plugin_bounded env (pt_plugin pt) (pt_authority pt) \<and> is_active env (pt_plugin pt)"
  by (induction env ch pos caller pts rule: participants_ok.induct) auto

lemma participants_shrink:
  "participants_ok env ch pos caller pts \<Longrightarrow> sorted_wrt (\<lambda>a b. b \<subseteq> a) (caller # map pt_authority pts)"
proof (induction env ch pos caller pts rule: participants_ok.induct)
  case (2 env ch pos caller pt pts)
  then show ?case by (fastforce dest: participants_bounded)
qed simp

lemma participants_in_order:
  "participants_ok env ch pos caller pts \<Longrightarrow> pos \<le> length (ch_layers ch) \<Longrightarrow>
     map pt_plugin pts = take (length pts) (drop pos (map pb_plugin (ch_layers ch @ [ch_terminal ch])))"
proof (induction env ch pos caller pts rule: participants_ok.induct)
  case (2 env ch pos caller pt pts)
  have "drop pos (map pb_plugin (ch_layers ch @ [ch_terminal ch])) =
      pb_plugin (provider_at ch pos) # drop (Suc pos) (map pb_plugin (ch_layers ch @ [ch_terminal ch]))"
    using 2(3) by (subst Cons_nth_drop_Suc [symmetric]) (auto simp: provider_at_def nth_append)
  with 2 show ?case by (cases "pos < length (ch_layers ch)") auto
qed simp

lemma participants_terminal:
  "participants_ok env ch pos caller pts \<Longrightarrow> pos \<le> length (ch_layers ch) \<Longrightarrow>
     length pts \<le> Suc (length (ch_layers ch)) - pos \<and>
     (reached_terminal pts \<longleftrightarrow> length pts = Suc (length (ch_layers ch)) - pos)"
proof (induction env ch pos caller pts rule: participants_ok.induct)
  case (2 env ch pos caller pt pts)
  then show ?case by (cases "pos < length (ch_layers ch)") (auto simp: reached_terminal_def)
qed (simp add: reached_terminal_def)

lemma participants_handed_on:
  "participants_ok env ch pos caller pts \<Longrightarrow> Suc i < length pts \<Longrightarrow> pt_outcome (pts ! i) \<notin> {OutHandled, OutSucceeded}"
proof (induction env ch pos caller pts arbitrary: i rule: participants_ok.induct)
  case (2 env ch pos caller pt pts)
  then show ?case by (cases i) (auto split: if_splits)
qed simp

text \<open>C17: Authority only ever shrinks along a call. Of any call of a service, by the kernel or made anywhere below it, the last record is that of
  the call itself, made with just the caller's authority; before it come the records of the calls its participants made, each
  made with no more than the authority its participant is recorded with, and so on for the calls below those; along one chain each participant has
  no more than the one before it; and none has more than its plugin's maximum, or is inactive.\<close>

theorem calls_never_gain_authority:
  assumes "invoke_service_with env (run_chain env n) service input caller binding g st = Some (r, st') \<or>
    invoke_component_service_with env (run_chain env n) service component plugin provider input caller g st = Some (r, st')"
  shows "\<exists>new. dp_provenance st' = dp_provenance st @ new \<and> call_recorded caller new \<and>
    (\<forall>pv\<in>set new. sorted_wrt (\<lambda>a b. b \<subseteq> a) (caller # iv_caller pv # map pt_authority (iv_participants pv)) \<and>
      (\<forall>pt\<in>set (iv_participants pv). is_active env (pt_plugin pt) \<and>
        (\<exists>m. bt_get (kc_manifests (dv_config env)) (pt_plugin pt) = Some m \<and> pt_authority pt \<subseteq> pm_maximum m)))"
proof -
  from assms have "call_records env caller r st st'"
    by (elim disjE) (rule invoke_service_records [OF run_chain_records], assumption,
      rule invoke_component_records [OF run_chain_records], assumption)
  then obtain new where new: "dp_provenance st' = dp_provenance st @ new" "\<forall>pv\<in>set new. provenance_ok env caller pv"
      "call_recorded caller new"
    unfolding call_records_def recorded_def by blast
  have "sorted_wrt (\<lambda>a b. b \<subseteq> a) (caller # iv_caller pv # map pt_authority (iv_participants pv)) \<and>
      (\<forall>pt\<in>set (iv_participants pv). is_active env (pt_plugin pt) \<and>
        (\<exists>m. bt_get (kc_manifests (dv_config env)) (pt_plugin pt) = Some m \<and> pt_authority pt \<subseteq> pm_maximum m))"
    if "pv \<in> set new" for pv
  proof -
    from new(2) that have ok: "iv_caller pv \<subseteq> caller"
        "participants_ok env (iv_chain pv) 0 (iv_caller pv) (iv_participants pv)"
      by (auto simp: provenance_ok_def)
    from participants_shrink [OF ok(2)] ok(1) have
      "sorted_wrt (\<lambda>a b. b \<subseteq> a) (caller # iv_caller pv # map pt_authority (iv_participants pv))" by auto
    moreover have "is_active env (pt_plugin pt) \<and>
        (\<exists>m. bt_get (kc_manifests (dv_config env)) (pt_plugin pt) = Some m \<and> pt_authority pt \<subseteq> pm_maximum m)"
      if "pt \<in> set (iv_participants pv)" for pt
      using participants_bounded [OF ok(2) that] by (auto simp: plugin_bounded_def split: option.splits)
    ultimately show ?thesis by blast
  qed
  with new(1,3) show ?thesis by blast
qed

text \<open>What a run of a chain from any position adds to the trace tells what it answered to the participant before that position.\<close>

definition runs_tell_truth :: "dispatch_env \<Rightarrow> nat \<Rightarrow> bool" where
  "runs_tell_truth env n \<longleftrightarrow> (\<forall>ch pos input caller g tr st r tr' st'.
     run_chain env n ch pos input caller g tr st = Some (r, tr', st') \<longrightarrow>
     (\<exists>pts. it_participants tr' = it_participants tr @ map completed pts \<and> run_fits env ch pos g pts (error_of r)))"

text \<open>C18: The record of a call is what happened. The participants of a record are an initial part of
  its chain, in order, each layer at most once, and the terminal is among them exactly when
  the record says so; only the last one can have handled the call itself. The outcomes are the true ones: from every position of a chain,
  the participant there is recorded to have denied, failed or succeeded just when that is what the run from there answered, its error
  naming the participant, and to have delegated with nobody after it only if the next was refused; so for the first participant and the answer to the caller. The events on the bus report the
  same participants, in the same order of calls, with the error that fits their outcome.\<close>

theorem provenance_is_what_ran:
  assumes "kernel_invoke env n service input caller binding st = Some (r, st')"
  shows "runs_tell_truth env n \<and> (\<exists>new es. dp_provenance st' = dp_provenance st @ new \<and> dp_events st' = dp_events st @ es \<and>
    list_all2 reports new (filter is_invocation es) \<and>
    (new \<noteq> [] \<longrightarrow> answer_fits (iv_service (last new)) (iv_participants (last new)) (error_of r)) \<and>
    (\<forall>pv\<in>set new. let plugins = map pb_plugin (ch_layers (iv_chain pv) @ [ch_terminal (iv_chain pv)]); pts = iv_participants pv in
      map pt_plugin pts = take (length pts) plugins \<and> length pts \<le> length plugins \<and>
      (iv_terminal pv \<longleftrightarrow> length pts = length plugins) \<and>
      (\<forall>i. Suc i < length pts \<longrightarrow> pt_outcome (pts ! i) \<notin> {OutHandled, OutSucceeded})))"
proof -
  have truth: "runs_tell_truth env n"
    using run_chain_records [of env n] unfolding runs_tell_truth_def runner_records_def trace_extends_def by fastforce
  from kernel_invoke_records [OF assms] obtain new es where new: "dp_provenance st' = dp_provenance st @ new"
      "dp_events st' = dp_events st @ es" "list_all2 reports new (filter is_invocation es)"
      "new \<noteq> [] \<longrightarrow> answer_fits (iv_service (last new)) (iv_participants (last new)) (error_of r)"
      "\<forall>pv\<in>set new. provenance_ok env caller pv"
    unfolding call_records_def recorded_def by blast
  have "let plugins = map pb_plugin (ch_layers (iv_chain pv) @ [ch_terminal (iv_chain pv)]); pts = iv_participants pv in
      map pt_plugin pts = take (length pts) plugins \<and> length pts \<le> length plugins \<and>
      (iv_terminal pv \<longleftrightarrow> length pts = length plugins) \<and>
      (\<forall>i. Suc i < length pts \<longrightarrow> pt_outcome (pts ! i) \<notin> {OutHandled, OutSucceeded})" if "pv \<in> set new" for pv
  proof -
    from new(5) that have ok: "participants_ok env (iv_chain pv) 0 (iv_caller pv) (iv_participants pv)"
        "iv_terminal pv = reached_terminal (iv_participants pv)"
      by (auto simp: provenance_ok_def)
    from participants_in_order [OF ok(1)] participants_terminal [OF ok(1)] participants_handed_on [OF ok(1)] ok(2)
    show ?thesis by (simp add: Let_def)
  qed
  with truth new(1-4) show ?thesis by blast
qed

subsection \<open>An instance\<close>

text \<open>The provider \<open>b\<close>, which may have \<open>x\<close> only, is called with more and calls the service of \<open>a\<close> with all it can.\<close>

definition nested_manifest :: "plugin_id \<Rightarrow> service_id \<Rightarrow> plugin_manifest" where
  "nested_manifest p service = \<lparr>pm_id = p, pm_version = 1, pm_execution = Embedded, pm_dependencies = [],
     pm_services = [\<lparr>sc_service = service, sc_role = Terminal, sc_priority = 1, sc_required = {}\<rparr>], pm_namespaces = [],
     pm_maximum = {''x''}\<rparr>"

definition nested_env :: dispatch_env where
  "nested_env = sample_env\<lparr>dv_config := \<lparr>kc_manifests = [(''a'', nested_manifest ''a'' ''inner@1''), (''b'', nested_manifest ''b'' ''outer@1'')],
       kc_activation = [''a'', ''b''], kc_namespaces = [], kc_layers = [], kc_providers = [], kc_bindings = [], kc_policy = 1\<rparr>,
     dv_invoke := (\<lambda>n p c service input. if p = ''a'' then Finish (Returned (Inl ''no'')) False
       else Invoke_Service ''inner@1'' input {''x'', ''y''} None (\<lambda>_. Finish (Returned (Inr [1])) False))\<rparr>"

lemma nested_call:
  "map_option (\<lambda>(r, st). (r, map (\<lambda>pv. (iv_caller pv, map (\<lambda>pt. (pt_plugin pt, pt_authority pt, pt_outcome pt)) (iv_participants pv)))
       (dp_provenance st))) (kernel_invoke nested_env 2 ''outer@1'' [7] {''x'', ''y''} None idle) =
   Some (Inr [1], [({''x''}, [(''a'', {''x''}, OutFailed)]), ({''x'', ''y''}, [(''b'', {''x''}, OutSucceeded)])])"
  by code_simp

theorem calls_never_gain_authority_witness:
  "\<exists>r st' inner outer. kernel_invoke nested_env 2 ''outer@1'' [7] {''x'', ''y''} None idle = Some (r, st') \<and>
     dp_provenance st' = [inner, outer] \<and> call_recorded {''x'', ''y''} [inner, outer] \<and> iv_caller inner = {''x''}"
proof -
  from nested_call obtain r st' where call: "kernel_invoke nested_env 2 ''outer@1'' [7] {''x'', ''y''} None idle = Some (r, st')"
    and pvs: "map iv_caller (dp_provenance st') = [{''x''}, {''x'', ''y''}]" by (auto simp: map_eq_Cons_conv)
  from pvs obtain inner outer where two: "dp_provenance st' = [inner, outer]" "iv_caller inner = {''x''}" by (auto simp: map_eq_Cons_conv)
  from call have "invoke_service_with nested_env (run_chain nested_env 2) ''outer@1'' [7] {''x'', ''y''} None (no_guards None) idle = Some (r, st')"
    by (simp add: kernel_invoke_def)
  with calls_never_gain_authority [of nested_env 2 "''outer@1''" "[7]" "{''x'', ''y''}" None "no_guards None" idle r st']
  have "call_recorded {''x'', ''y''} (dp_provenance st')" by (auto simp: idle_def)
  with call two show ?thesis by auto
qed

theorem provenance_is_what_ran_witness:
  "\<exists>r st' inner outer. kernel_invoke nested_env 2 ''outer@1'' [7] {''x'', ''y''} None idle = Some (r, st') \<and>
     dp_provenance st' = [inner, outer] \<and> list_all2 reports [inner, outer] (filter is_invocation (dp_events st'))"
proof -
  from nested_call obtain r st' where call: "kernel_invoke nested_env 2 ''outer@1'' [7] {''x'', ''y''} None idle = Some (r, st')"
    and pvs: "map iv_caller (dp_provenance st') = [{''x''}, {''x'', ''y''}]" by (auto simp: map_eq_Cons_conv)
  from pvs obtain inner outer where two: "dp_provenance st' = [inner, outer]" by (auto simp: map_eq_Cons_conv)
  from provenance_is_what_ran [OF call] have "list_all2 reports (dp_provenance st') (filter is_invocation (dp_events st'))"
    by (auto simp: idle_def)
  with call two show ?thesis by auto
qed

end
