(* ===== verification/Tasks.thy ===== *)
theory Tasks
  imports Component_Graph "HOL-Library.Multiset" "HOL-Library.Word"
begin

text \<open>
  Tasks and live calls (\<open>phenix-core/src/tasks.rs\<close>). Every task and every call has a flag that says it
  was cancelled. A flag of a task is shared by the handle and by the tokens of its worker; the runtime
  keeps a weak reference to it, so the model keeps the flags in an arena with their strong counts, and
  the position of a task in the arena is the order in which it was spawned. A flag of a call is
  kept by the runtime until the call's scope ends.

  The operations are functions on \<open>task_runtime\<close>. \<open>cancel_plugin\<close> and \<open>cancel_plugin_generation\<close> take the
  tasks out of the table under its lock and cancel them afterwards, one by one, while other threads go on: the
  step relation \<open>task_step\<close> keeps each such cancellation as an agent with the tasks it has left.
\<close>

subsection \<open>Data\<close>

record flag =
  fl_cancelled :: bool
  fl_strong :: nat

record owned_task =
  ot_id :: "64 word"
  ot_generation :: graph_generation_id
  ot_cell :: nat

record owned_call =
  oc_id :: "64 word"
  oc_generation :: "graph_generation_id option"
  oc_cell :: nat

record task_runtime =
  tr_next :: "64 word"
  tr_next_call :: "64 word"
  tr_owned :: "(plugin_id, owned_task list) btree"
  tr_calls :: "(plugin_id, owned_call list) btree"
  tr_flags :: "flag list"
  tr_call_flags :: "bool list"
  tr_published :: "64 word list"

record cancellation_token =
  ck_cell :: nat
  ck_authority :: authority
  ck_generation :: graph_generation_id

record task_handle =
  th_id :: "64 word"
  th_generation :: graph_generation_id
  th_cell :: nat

record call_scope =
  lc_plugin :: plugin_id
  lc_id :: "64 word"
  lc_cell :: nat

definition task_runtime_default :: task_runtime where
  "task_runtime_default = \<lparr>tr_next = 0, tr_next_call = 0, tr_owned = [], tr_calls = [], tr_flags = [],
     tr_call_flags = [], tr_published = []\<rparr>"

subsection \<open>Flags\<close>

definition on_flag :: "nat \<Rightarrow> (flag \<Rightarrow> flag) \<Rightarrow> task_runtime \<Rightarrow> task_runtime" where
  "on_flag c f rt = rt\<lparr>tr_flags := (tr_flags rt)[c := f (tr_flags rt ! c)]\<rparr>"

definition strong_count :: "task_runtime \<Rightarrow> nat \<Rightarrow> nat" where
  "strong_count rt c = fl_strong (tr_flags rt ! c)"

definition is_cancelled :: "task_runtime \<Rightarrow> nat \<Rightarrow> bool" where
  "is_cancelled rt c = fl_cancelled (tr_flags rt ! c)"

definition share :: "nat \<Rightarrow> task_runtime \<Rightarrow> task_runtime" where
  "share c = on_flag c (\<lambda>f. f\<lparr>fl_strong := Suc (fl_strong f)\<rparr>)"

definition release :: "nat \<Rightarrow> task_runtime \<Rightarrow> task_runtime" where
  "release c = on_flag c (\<lambda>f. f\<lparr>fl_strong := fl_strong f - 1\<rparr>)"

definition swap_true :: "nat \<Rightarrow> task_runtime \<Rightarrow> bool \<times> task_runtime" where
  "swap_true c rt = (is_cancelled rt c, on_flag c (\<lambda>f. f\<lparr>fl_cancelled := True\<rparr>) rt)"

definition announce :: "64 word \<Rightarrow> task_runtime \<Rightarrow> task_runtime" where
  "announce i rt = rt\<lparr>tr_published := tr_published rt @ [i]\<rparr>"

subsection \<open>Tasks\<close>

text \<open>The new flag is held by the handle and by the token of the worker.\<close>

definition spawn_scoped ::
  "plugin_id option \<Rightarrow> graph_generation_id \<Rightarrow> authority \<Rightarrow> authority \<Rightarrow> task_runtime \<Rightarrow>
     cancellation_token \<times> task_handle \<times> task_runtime" where
  "spawn_scoped owner generation parent requested rt =
     (let i = tr_next rt + 1; c = length (tr_flags rt);
          owned = (case owner of
              None \<Rightarrow> tr_owned rt
            | Some p \<Rightarrow>
                (let tasks = (case bt_get (tr_owned rt) p of Some ts \<Rightarrow> ts | None \<Rightarrow> [])
                 in bt_insert p (filter (\<lambda>t. strong_count rt (ot_cell t) \<noteq> 0) tasks @
                      [\<lparr>ot_id = i, ot_generation = generation, ot_cell = c\<rparr>]) (tr_owned rt)))
      in (\<lparr>ck_cell = c, ck_authority = attenuate parent requested, ck_generation = generation\<rparr>,
          \<lparr>th_id = i, th_generation = generation, th_cell = c\<rparr>,
          rt\<lparr>tr_next := i, tr_owned := owned, tr_flags := tr_flags rt @ [\<lparr>fl_cancelled = False, fl_strong = 2\<rparr>]\<rparr>))"

text \<open>\<open>TaskHandle::cancel\<close> without interference.\<close>

definition handle_cancel :: "task_handle \<Rightarrow> task_runtime \<Rightarrow> task_runtime" where
  "handle_cancel h rt =
     (let (old, rt) = swap_true (th_cell h) rt in if old then rt else announce (th_id h) rt)"

text \<open>Taking tasks out of the table, under its lock.\<close>

definition take_owned :: "plugin_id \<Rightarrow> task_runtime \<Rightarrow> owned_task list \<times> task_runtime" where
  "take_owned p rt =
     (case bt_get (tr_owned rt) p of Some ts \<Rightarrow> ts | None \<Rightarrow> [], rt\<lparr>tr_owned := bt_remove p (tr_owned rt)\<rparr>)"

definition take_generation ::
  "plugin_id \<Rightarrow> graph_generation_id option \<Rightarrow> task_runtime \<Rightarrow> owned_task list \<times> task_runtime" where
  "take_generation p generation rt =
     (case generation of
        None \<Rightarrow> ([], rt)
      | Some g \<Rightarrow>
          (case bt_get (tr_owned rt) p of
             None \<Rightarrow> ([], rt)
           | Some ts \<Rightarrow>
               (let live = filter (\<lambda>t. strong_count rt (ot_cell t) \<noteq> 0) ts;
                    retained = filter (\<lambda>t. ot_generation t \<noteq> g) live
                in (filter (\<lambda>t. ot_generation t = g) live,
                    rt\<lparr>tr_owned := (if retained = [] then bt_remove p (tr_owned rt)
                                    else bt_insert p retained (tr_owned rt))\<rparr>))))"

fun cancel_tasks :: "owned_task list \<Rightarrow> task_runtime \<Rightarrow> nat \<times> task_runtime" where
  "cancel_tasks [] rt = (0, rt)"
| "cancel_tasks (t # ts) rt =
     (if strong_count rt (ot_cell t) = 0 then cancel_tasks ts rt
      else
        (let (old, rt) = swap_true (ot_cell t) (share (ot_cell t) rt);
             rt = (if old then rt else announce (ot_id t) rt);
             (n, rt) = cancel_tasks ts (release (ot_cell t) rt)
         in (if old then n else Suc n, rt)))"

definition cancel_plugin :: "plugin_id \<Rightarrow> task_runtime \<Rightarrow> nat \<times> task_runtime" where
  "cancel_plugin p rt = (let (ts, rt) = take_owned p rt in cancel_tasks ts rt)"

definition cancel_plugin_generation ::
  "plugin_id \<Rightarrow> graph_generation_id option \<Rightarrow> task_runtime \<Rightarrow> nat \<times> task_runtime" where
  "cancel_plugin_generation p g rt = (let (ts, rt) = take_generation p g rt in cancel_tasks ts rt)"

subsection \<open>Live calls\<close>

definition begin_call :: "plugin_id \<Rightarrow> graph_generation_id option \<Rightarrow> task_runtime \<Rightarrow> call_scope \<times> task_runtime" where
  "begin_call p generation rt =
     (let i = tr_next_call rt + 1; c = length (tr_call_flags rt);
          calls = (case bt_get (tr_calls rt) p of Some cs \<Rightarrow> cs | None \<Rightarrow> [])
      in (\<lparr>lc_plugin = p, lc_id = i, lc_cell = c\<rparr>,
          rt\<lparr>tr_next_call := i, tr_call_flags := tr_call_flags rt @ [False],
             tr_calls := bt_insert p (calls @ [\<lparr>oc_id = i, oc_generation = generation, oc_cell = c\<rparr>]) (tr_calls rt)\<rparr>))"

definition finish_call :: "plugin_id \<Rightarrow> 64 word \<Rightarrow> task_runtime \<Rightarrow> task_runtime" where
  "finish_call p i rt =
     (case bt_get (tr_calls rt) p of
        None \<Rightarrow> rt
      | Some cs \<Rightarrow>
          (let kept = filter (\<lambda>c. oc_id c \<noteq> i) cs
           in rt\<lparr>tr_calls := (if kept = [] then bt_remove p (tr_calls rt) else bt_insert p kept (tr_calls rt))\<rparr>))"

fun swap_each :: "nat list \<Rightarrow> bool list \<Rightarrow> nat \<times> bool list" where
  "swap_each [] fs = (0, fs)"
| "swap_each (c # cs) fs =
     (let (n, fs') = swap_each cs (fs[c := True]) in (if fs ! c then n else Suc n, fs'))"

definition cancel_calls :: "plugin_id \<Rightarrow> graph_generation_id option \<Rightarrow> task_runtime \<Rightarrow> nat \<times> task_runtime" where
  "cancel_calls p generation rt =
     (let calls = (case bt_get (tr_calls rt) p of Some cs \<Rightarrow> cs | None \<Rightarrow> []);
          (n, fs) = swap_each (map oc_cell (filter (\<lambda>c. oc_generation c = generation) calls)) (tr_call_flags rt)
      in (n, rt\<lparr>tr_call_flags := fs\<rparr>))"

subsection \<open>Interleavings\<close>

text \<open>
  A cancellation under way: the tasks left; the one whose weak reference was upgraded and whose flag
  comes next; the one whose flag it set and that it has yet to announce, with the reference it holds.
\<close>

datatype agent =
  Todo "owned_task list"
| Swapping "64 word" nat "owned_task list"
| Announcing "64 word" "nat option" "owned_task list"

fun agent_step :: "agent \<Rightarrow> task_runtime \<Rightarrow> (agent \<times> task_runtime) option" where
  "agent_step (Todo []) rt = None"
| "agent_step (Todo (t # ts)) rt =
     (if strong_count rt (ot_cell t) = 0 then Some (Todo ts, rt)
      else Some (Swapping (ot_id t) (ot_cell t) ts, share (ot_cell t) rt))"
| "agent_step (Swapping i c ts) rt =
     (let (old, rt) = swap_true c rt
      in Some (if old then (Todo ts, release c rt) else (Announcing i (Some c) ts, rt)))"
| "agent_step (Announcing i held ts) rt =
     Some (Todo ts, case held of Some c \<Rightarrow> release c (announce i rt) | None \<Rightarrow> announce i rt)"

text \<open>Who asked for a cancellation.\<close>

datatype request = Ask_Handle nat | Ask_Plugin plugin_id | Ask_Generation plugin_id graph_generation_id

text \<open>
  The system: the runtime and, for the statements only, the owner and generation of every
  task in the order of spawning, the requests with the number of tasks there were, and the scopes of live calls.
\<close>

record task_system =
  sy_rt :: task_runtime
  sy_agents :: "agent multiset"
  sy_births :: "(plugin_id option \<times> graph_generation_id) list"
  sy_handles :: "task_handle list"
  sy_requests :: "(request \<times> nat) list"
  sy_scopes :: "(call_scope \<times> graph_generation_id option) list"

definition holds :: "nat \<Rightarrow> agent \<Rightarrow> bool" where
  "holds c a = (case a of Todo _ \<Rightarrow> False | Swapping _ d _ \<Rightarrow> d = c | Announcing _ held _ \<Rightarrow> held = Some c)"

definition held :: "nat \<Rightarrow> agent multiset \<Rightarrow> nat" where
  "held c as = size (filter_mset (holds c) as)"

inductive task_step :: "task_system \<Rightarrow> task_system \<Rightarrow> bool" where
  Spawn: "spawn_scoped owner g parent requested (sy_rt s) = (token, handle, rt) \<Longrightarrow>
    task_step s (s\<lparr>sy_rt := rt, sy_births := sy_births s @ [(owner, g)], sy_handles := sy_handles s @ [handle]\<rparr>)"
| Share: "c < length (tr_flags (sy_rt s)) \<Longrightarrow> strong_count (sy_rt s) c \<noteq> 0 \<Longrightarrow>
    task_step s (s\<lparr>sy_rt := share c (sy_rt s)\<rparr>)"
| Release: "c < length (tr_flags (sy_rt s)) \<Longrightarrow> held c (sy_agents s) < strong_count (sy_rt s) c \<Longrightarrow>
    task_step s (s\<lparr>sy_rt := release c (sy_rt s)\<rparr>)"
| Cancel_Handle: "h \<in> set (sy_handles s) \<Longrightarrow> strong_count (sy_rt s) (th_cell h) \<noteq> 0 \<Longrightarrow>
    swap_true (th_cell h) (sy_rt s) = (old, rt) \<Longrightarrow>
    task_step s (s\<lparr>sy_rt := rt, sy_requests := sy_requests s @ [(Ask_Handle (th_cell h), length (sy_births s))],
      sy_agents := (if old then sy_agents s else add_mset (Announcing (th_id h) None []) (sy_agents s))\<rparr>)"
| Cancel_Plugin: "take_owned p (sy_rt s) = (ts, rt) \<Longrightarrow>
    task_step s (s\<lparr>sy_rt := rt, sy_requests := sy_requests s @ [(Ask_Plugin p, length (sy_births s))],
      sy_agents := add_mset (Todo ts) (sy_agents s)\<rparr>)"
| Cancel_Generation: "take_generation p (Some g) (sy_rt s) = (ts, rt) \<Longrightarrow>
    task_step s (s\<lparr>sy_rt := rt, sy_requests := sy_requests s @ [(Ask_Generation p g, length (sy_births s))],
      sy_agents := add_mset (Todo ts) (sy_agents s)\<rparr>)"
| Work: "sy_agents s = add_mset a rest \<Longrightarrow> agent_step a (sy_rt s) = Some (a', rt) \<Longrightarrow>
    task_step s (s\<lparr>sy_rt := rt, sy_agents := add_mset a' rest\<rparr>)"
| Begin_Call: "begin_call p g (sy_rt s) = (scope, rt) \<Longrightarrow>
    task_step s (s\<lparr>sy_rt := rt, sy_scopes := sy_scopes s @ [(scope, g)]\<rparr>)"
| Finish_Call: "(scope, g) \<in> set (sy_scopes s) \<Longrightarrow>
    task_step s (s\<lparr>sy_rt := finish_call (lc_plugin scope) (lc_id scope) (sy_rt s),
      sy_scopes := remove1 (scope, g) (sy_scopes s)\<rparr>)"
| Cancel_Calls: "cancel_calls p g (sy_rt s) = (n, rt) \<Longrightarrow> task_step s (s\<lparr>sy_rt := rt\<rparr>)"

definition task_start :: task_system where
  "task_start = \<lparr>sy_rt = task_runtime_default, sy_agents = {#}, sy_births = [], sy_handles = [], sy_requests = [], sy_scopes = []\<rparr>"

definition task_reachable :: "task_system \<Rightarrow> bool" where
  "task_reachable s \<longleftrightarrow> task_step\<^sup>*\<^sup>* task_start s"

end
