(* ===== verification/Tasks_Safety.thy ===== *)
theory Tasks_Safety
  imports Tasks
begin

text \<open>
  Correctness of cancellation over every interleaving of spawning, cancelling, finishing and dropping:
  who is cancelled was asked for, everybody who was asked for and is still alive is reached, and each
  cancellation is announced once.
\<close>

subsection \<open>Flags\<close>

lemma flags_on_flag [simp]:
  "length (tr_flags (on_flag c f rt)) = length (tr_flags rt)" "tr_next (on_flag c f rt) = tr_next rt"
  "tr_owned (on_flag c f rt) = tr_owned rt" "tr_published (on_flag c f rt) = tr_published rt"
  "tr_calls (on_flag c f rt) = tr_calls rt" "tr_call_flags (on_flag c f rt) = tr_call_flags rt"
  "tr_next_call (on_flag c f rt) = tr_next_call rt"
  by (simp_all add: on_flag_def)

lemma on_flag_cancelled: "c < length (tr_flags rt) \<Longrightarrow> is_cancelled (on_flag c f rt) d =
    (if d = c then fl_cancelled (f (tr_flags rt ! c)) else is_cancelled rt d)"
  by (auto simp: on_flag_def is_cancelled_def nth_list_update)

lemma on_flag_strong: "c < length (tr_flags rt) \<Longrightarrow> strong_count (on_flag c f rt) d =
    (if d = c then fl_strong (f (tr_flags rt ! c)) else strong_count rt d)"
  by (auto simp: on_flag_def strong_count_def nth_list_update)

lemma share_simps [simp]:
  "length (tr_flags (share c rt)) = length (tr_flags rt)" "tr_next (share c rt) = tr_next rt"
  "tr_owned (share c rt) = tr_owned rt" "tr_published (share c rt) = tr_published rt"
  "tr_calls (share c rt) = tr_calls rt" "tr_call_flags (share c rt) = tr_call_flags rt"
  "tr_next_call (share c rt) = tr_next_call rt"
  "c < length (tr_flags rt) \<Longrightarrow> is_cancelled (share c rt) d = is_cancelled rt d"
  "c < length (tr_flags rt) \<Longrightarrow> strong_count (share c rt) d = strong_count rt d + of_bool (d = c)"
  by (auto simp: share_def on_flag_cancelled on_flag_strong) (simp_all add: is_cancelled_def strong_count_def)

lemma release_simps [simp]:
  "length (tr_flags (release c rt)) = length (tr_flags rt)" "tr_next (release c rt) = tr_next rt"
  "tr_owned (release c rt) = tr_owned rt" "tr_published (release c rt) = tr_published rt"
  "tr_calls (release c rt) = tr_calls rt" "tr_call_flags (release c rt) = tr_call_flags rt"
  "tr_next_call (release c rt) = tr_next_call rt"
  "c < length (tr_flags rt) \<Longrightarrow> is_cancelled (release c rt) d = is_cancelled rt d"
  "c < length (tr_flags rt) \<Longrightarrow> strong_count (release c rt) d = strong_count rt d - of_bool (d = c)"
  by (auto simp: release_def on_flag_cancelled on_flag_strong) (simp_all add: is_cancelled_def strong_count_def)

lemma swap_true_simps:
  assumes "swap_true c rt = (old, rt')"
  shows "old = is_cancelled rt c" "length (tr_flags rt') = length (tr_flags rt)" "tr_next rt' = tr_next rt"
    "tr_owned rt' = tr_owned rt" "tr_published rt' = tr_published rt" "tr_calls rt' = tr_calls rt"
    "tr_call_flags rt' = tr_call_flags rt" "tr_next_call rt' = tr_next_call rt"
    "c < length (tr_flags rt) \<Longrightarrow> is_cancelled rt' d = (d = c \<or> is_cancelled rt d)"
    "c < length (tr_flags rt) \<Longrightarrow> strong_count rt' d = strong_count rt d"
proof -
  have eqs: "old = is_cancelled rt c" "rt' = on_flag c (\<lambda>f. f\<lparr>fl_cancelled := True\<rparr>) rt"
    using assms by (simp_all add: swap_true_def)
  show "old = is_cancelled rt c" "length (tr_flags rt') = length (tr_flags rt)" "tr_next rt' = tr_next rt"
    "tr_owned rt' = tr_owned rt" "tr_published rt' = tr_published rt" "tr_calls rt' = tr_calls rt"
    "tr_call_flags rt' = tr_call_flags rt" "tr_next_call rt' = tr_next_call rt"
    unfolding eqs by simp_all
  show "c < length (tr_flags rt) \<Longrightarrow> is_cancelled rt' d = (d = c \<or> is_cancelled rt d)"
    unfolding eqs by (simp add: on_flag_cancelled)
  show "c < length (tr_flags rt) \<Longrightarrow> strong_count rt' d = strong_count rt d"
    unfolding eqs by (simp add: on_flag_strong) (simp add: strong_count_def)
qed

lemma announce_simps [simp]:
  "tr_flags (announce i rt) = tr_flags rt" "tr_next (announce i rt) = tr_next rt" "tr_owned (announce i rt) = tr_owned rt"
  "tr_published (announce i rt) = tr_published rt @ [i]" "tr_calls (announce i rt) = tr_calls rt"
  "tr_call_flags (announce i rt) = tr_call_flags rt" "tr_next_call (announce i rt) = tr_next_call rt"
  "is_cancelled (announce i rt) = is_cancelled rt" "strong_count (announce i rt) = strong_count rt"
  by (simp_all add: announce_def is_cancelled_def [abs_def] strong_count_def [abs_def])

text \<open>An agent that is not disturbed does what \<open>cancel_tasks\<close> does.\<close>

definition agent_moves :: "agent \<times> task_runtime \<Rightarrow> agent \<times> task_runtime \<Rightarrow> bool" where
  "agent_moves x y \<longleftrightarrow> agent_step (fst x) (snd x) = Some y"

lemma undisturbed_agent:
  "list_all (\<lambda>t. ot_cell t < length (tr_flags rt)) ts \<Longrightarrow>
     agent_moves\<^sup>*\<^sup>* (Todo ts, rt) (Todo [], snd (cancel_tasks ts rt))"
proof (induction ts rt rule: cancel_tasks.induct)
  case (2 t ts rt)
  show ?case
  proof (cases "strong_count rt (ot_cell t) = 0")
    case True
    then have "agent_moves (Todo (t # ts), rt) (Todo ts, rt)" by (simp add: agent_moves_def)
    with True 2(1) 2(3) show ?thesis by (simp add: converse_rtranclp_into_rtranclp)
  next
    case False
    obtain old rt' where swap: "swap_true (ot_cell t) (share (ot_cell t) rt) = (old, rt')" by fastforce
    define rt'' where "rt'' = release (ot_cell t) (if old then rt' else announce (ot_id t) rt')"
    have "agent_moves\<^sup>*\<^sup>* (Todo ts, rt'') (Todo [], snd (cancel_tasks ts rt''))"
      using 2(2) [OF False swap [symmetric] refl refl] 2(3) swap_true_simps(2) [OF swap]
      unfolding rt''_def by simp
    moreover have "agent_moves\<^sup>*\<^sup>* (Todo (t # ts), rt) (Todo ts, rt'')"
    proof -
      have "agent_moves (Todo (t # ts), rt) (Swapping (ot_id t) (ot_cell t) ts, share (ot_cell t) rt)"
        using False by (simp add: agent_moves_def)
      also have "agent_moves\<^sup>*\<^sup>* \<dots> (Todo ts, rt'')"
      proof (cases old)
        case True
        with swap show ?thesis by (auto simp: agent_moves_def rt''_def)
      next
        case False
        with swap have "agent_moves (Swapping (ot_id t) (ot_cell t) ts, share (ot_cell t) rt)
            (Announcing (ot_id t) (Some (ot_cell t)) ts, rt')"
          by (simp add: agent_moves_def)
        moreover have "agent_moves (Announcing (ot_id t) (Some (ot_cell t)) ts, rt') (Todo ts, rt'')"
          using False by (simp add: agent_moves_def rt''_def)
        ultimately show ?thesis by (meson converse_rtranclp_into_rtranclp r_into_rtranclp)
      qed
      finally show ?thesis .
    qed
    ultimately have "agent_moves\<^sup>*\<^sup>* (Todo (t # ts), rt) (Todo [], snd (cancel_tasks ts rt''))" by simp
    with False swap show ?thesis by (cases old) (simp_all add: rt''_def Let_def case_prod_unfold)
  qed
qed simp

subsection \<open>The invariant\<close>

definition task_id :: "nat \<Rightarrow> 64 word" where
  "task_id c = of_nat (Suc c)"

definition genuine :: "task_system \<Rightarrow> plugin_id \<Rightarrow> owned_task \<Rightarrow> bool" where
  "genuine s p t \<longleftrightarrow> ot_cell t < length (sy_births s) \<and> sy_births s ! ot_cell t = (Some p, ot_generation t) \<and>
     ot_id t = task_id (ot_cell t)"

fun concerns :: "request \<Rightarrow> nat \<Rightarrow> plugin_id option \<times> graph_generation_id \<Rightarrow> bool" where
  "concerns (Ask_Handle d) c birth \<longleftrightarrow> d = c"
| "concerns (Ask_Plugin p) c birth \<longleftrightarrow> fst birth = Some p"
| "concerns (Ask_Generation p g) c birth \<longleftrightarrow> birth = (Some p, g)"

definition asked :: "task_system \<Rightarrow> nat \<Rightarrow> bool" where
  "asked s c \<longleftrightarrow> (\<exists>(r, k)\<in>set (sy_requests s). c < k \<and> concerns r c (sy_births s ! c))"

fun agent_tasks :: "agent \<Rightarrow> owned_task list" where
  "agent_tasks (Todo ts) = ts"
| "agent_tasks (Swapping i c ts) = ts"
| "agent_tasks (Announcing i h ts) = ts"

definition agent_ok :: "task_system \<Rightarrow> agent \<Rightarrow> bool" where
  "agent_ok s a \<longleftrightarrow> (\<forall>t\<in>set (agent_tasks a). (\<exists>p. genuine s p t) \<and> asked s (ot_cell t)) \<and>
     (case a of
        Todo _ \<Rightarrow> True
      | Swapping i c _ \<Rightarrow> c < length (sy_births s) \<and> i = task_id c \<and> asked s c
      | Announcing i h _ \<Rightarrow> (\<exists>c<length (sy_births s). i = task_id c \<and> is_cancelled (sy_rt s) c \<and> h \<in> {None, Some c}))"

definition tasks_ok :: "task_system \<Rightarrow> bool" where
  "tasks_ok s \<longleftrightarrow> length (tr_flags (sy_rt s)) = length (sy_births s) \<and>
     tr_next (sy_rt s) = of_nat (length (sy_births s)) \<and>
     bt_ok (tr_owned (sy_rt s)) \<and>
     (\<forall>p ts. bt_get (tr_owned (sy_rt s)) p = Some ts \<longrightarrow> list_all (genuine s p) ts) \<and>
     (\<forall>a\<in>#sy_agents s. agent_ok s a) \<and>
     (\<forall>c<length (sy_births s). held c (sy_agents s) \<le> strong_count (sy_rt s) c) \<and>
     (\<forall>h\<in>set (sy_handles s). th_cell h < length (sy_births s) \<and> th_id h = task_id (th_cell h)) \<and>
     (\<forall>(r, k)\<in>set (sy_requests s). k \<le> length (sy_births s)) \<and>
     (\<forall>c<length (sy_births s). is_cancelled (sy_rt s) c \<longrightarrow> asked s c)"

text \<open>What later steps leave as it is: births and requests are only ever added.\<close>

definition grows :: "task_system \<Rightarrow> task_system \<Rightarrow> bool" where
  "grows s s' \<longleftrightarrow> (\<exists>bs rs. sy_births s' = sy_births s @ bs \<and> sy_requests s' = sy_requests s @ rs) \<and>
     (\<forall>c<length (sy_births s). is_cancelled (sy_rt s) c \<longrightarrow> is_cancelled (sy_rt s') c)"

lemma grows_genuine: "grows s s' \<Longrightarrow> genuine s p t \<Longrightarrow> genuine s' p t"
  by (auto simp: grows_def genuine_def nth_append)

lemma grows_asked: "grows s s' \<Longrightarrow> asked s c \<Longrightarrow> c < length (sy_births s) \<Longrightarrow> asked s' c"
  by (fastforce simp: grows_def asked_def nth_append)

lemma grows_agent: "grows s s' \<Longrightarrow> agent_ok s a \<Longrightarrow> agent_ok s' a"
proof -
  assume g: "grows s s'" and a: "agent_ok s a"
  have longer: "c < length (sy_births s')" if "c < length (sy_births s)" for c
    using g that by (auto simp: grows_def)
  have tasks: "(\<exists>p. genuine s' p t) \<and> asked s' (ot_cell t)" if "t \<in> set (agent_tasks a)" for t
    using a that grows_genuine [OF g] grows_asked [OF g, of "ot_cell t"]
    unfolding agent_ok_def genuine_def by blast
  show "agent_ok s' a"
  proof (cases a)
    case (Announcing i h ts)
    with a obtain c where "c < length (sy_births s)" "i = task_id c" "is_cancelled (sy_rt s) c" "h \<in> {None, Some c}"
      by (auto simp: agent_ok_def)
    with g longer have "c < length (sy_births s') \<and> i = task_id c \<and> is_cancelled (sy_rt s') c \<and> h \<in> {None, Some c}"
      by (auto simp: grows_def)
    with Announcing tasks show ?thesis unfolding agent_ok_def by auto
  qed (use a tasks longer grows_asked [OF g] in \<open>auto simp: agent_ok_def\<close>)
qed

lemma held_add [simp]: "held c (add_mset a as) = held c as + of_bool (holds c a)"
  by (simp add: held_def)

text \<open>One agent at work.\<close>

lemma agent_step_cases:
  assumes "agent_step a rt = Some (a', rt')"
  obtains (Skip) t ts where "a = Todo (t # ts)" "strong_count rt (ot_cell t) = 0" "a' = Todo ts" "rt' = rt"
  | (Upgrade) t ts where "a = Todo (t # ts)" "strong_count rt (ot_cell t) \<noteq> 0"
      "a' = Swapping (ot_id t) (ot_cell t) ts" "rt' = share (ot_cell t) rt"
  | (Late) i c ts r where "a = Swapping i c ts" "is_cancelled rt c" "a' = Todo ts"
      "swap_true c rt = (True, r)" "rt' = release c r"
  | (First) i c ts where "a = Swapping i c ts" "\<not> is_cancelled rt c" "a' = Announcing i (Some c) ts"
      "swap_true c rt = (False, rt')"
  | (Announce) i h ts where "a = Announcing i h ts" "a' = Todo ts"
      "rt' = (case h of Some c \<Rightarrow> release c (announce i rt) | None \<Rightarrow> announce i rt)"
proof (cases a)
  case (Todo ts)
  with assms that(1,2) show ?thesis by (cases ts) (auto split: if_splits)
next
  case (Swapping i c ts)
  obtain old r where swap: "swap_true c rt = (old, r)" by fastforce
  with swap_true_simps(1) [OF swap] Swapping assms that(3,4) show ?thesis by (cases old) auto
next
  case (Announcing i h ts)
  with assms that(5) show ?thesis by auto
qed

lemma asked_same [simp]: "asked (s\<lparr>sy_rt := rt\<rparr>) = asked s" "asked (s\<lparr>sy_agents := as\<rparr>) = asked s"
    "asked (s\<lparr>sy_scopes := sc\<rparr>) = asked s"
  "genuine (s\<lparr>sy_rt := rt\<rparr>) = genuine s" "genuine (s\<lparr>sy_agents := as\<rparr>) = genuine s"
    "genuine (s\<lparr>sy_scopes := sc\<rparr>) = genuine s" "genuine (s\<lparr>sy_requests := rs\<rparr>) = genuine s"
  by (intro ext, simp add: asked_def genuine_def)+

lemma work_ok:
  assumes ok: "tasks_ok s" and a: "sy_agents s = add_mset a rest" and step: "agent_step a (sy_rt s) = Some (a', rt)"
  shows "grows s (s\<lparr>sy_rt := rt, sy_agents := add_mset a' rest\<rparr>) \<and> tasks_ok (s\<lparr>sy_rt := rt, sy_agents := add_mset a' rest\<rparr>)"
proof -
  let ?s = "s\<lparr>sy_rt := rt, sy_agents := add_mset a' rest\<rparr>"
  let ?n = "length (sy_births s)"
  from ok a have len: "length (tr_flags (sy_rt s)) = ?n" and agent: "agent_ok s a"
    and strong: "\<And>c. c < ?n \<Longrightarrow> held c (add_mset a rest) \<le> strong_count (sy_rt s) c"
    and cancelled: "\<And>c. c < ?n \<Longrightarrow> is_cancelled (sy_rt s) c \<Longrightarrow> asked s c"
    unfolding tasks_ok_def by auto
  have effect: "length (tr_flags rt) = ?n \<and> tr_next rt = tr_next (sy_rt s) \<and> tr_owned rt = tr_owned (sy_rt s) \<and>
      (\<forall>c<?n. (is_cancelled (sy_rt s) c \<longrightarrow> is_cancelled rt c) \<and> (is_cancelled rt c \<longrightarrow> asked s c)) \<and>
      (\<forall>c<?n. held c (add_mset a' rest) \<le> strong_count rt c) \<and> agent_ok ?s a'"
    using step
  proof (cases rule: agent_step_cases)
    case (Upgrade t ts)
    with agent have t: "ot_cell t < ?n" "\<exists>p. genuine s p t" by (auto simp: agent_ok_def genuine_def)
    with Upgrade len cancelled strong agent show ?thesis
      by (fastforce simp: agent_ok_def holds_def genuine_def)
  next
    case (Late i c ts r)
    with agent have "c < ?n" by (simp add: agent_ok_def)
    with Late swap_true_simps [OF Late(4)] len cancelled strong agent show ?thesis
      by (fastforce simp: agent_ok_def holds_def)
  next
    case (First i c ts)
    with agent have "c < ?n" by (simp add: agent_ok_def)
    with First swap_true_simps [OF First(4)] len cancelled strong agent show ?thesis
      by (fastforce simp: agent_ok_def holds_def)
  next
    case (Announce i h ts)
    with agent obtain c where "c < ?n" "h \<in> {None, Some c}" by (auto simp: agent_ok_def)
    with Announce len cancelled strong agent show ?thesis
      by (fastforce simp: agent_ok_def holds_def split: option.splits)
  qed (use len cancelled strong agent in \<open>auto simp: agent_ok_def holds_def\<close>)
  then have grows: "grows s ?s" by (auto simp: grows_def)
  have "agent_ok ?s b" if "b \<in># rest" for b
    using ok that a grows_agent [OF grows] unfolding tasks_ok_def by auto
  with ok effect show ?thesis using grows unfolding tasks_ok_def by auto
qed

text \<open>A step of anything else: what it has to leave alone for the invariant to go on holding.\<close>

lemma frame_ok:
  assumes ok: "tasks_ok s" and grows: "grows s s'"
    and "length (tr_flags (sy_rt s')) = length (sy_births s')" "tr_next (sy_rt s') = of_nat (length (sy_births s'))"
    and "bt_ok (tr_owned (sy_rt s'))"
    and "\<And>p ts. bt_get (tr_owned (sy_rt s')) p = Some ts \<Longrightarrow> list_all (genuine s' p) ts"
    and "\<And>a. a \<in># sy_agents s' \<Longrightarrow> a \<in># sy_agents s \<or> agent_ok s' a"
    and "\<And>c. c < length (sy_births s') \<Longrightarrow> held c (sy_agents s') \<le> strong_count (sy_rt s') c"
    and "\<And>h. h \<in> set (sy_handles s') \<Longrightarrow> h \<in> set (sy_handles s) \<or>
      th_cell h < length (sy_births s') \<and> th_id h = task_id (th_cell h)"
    and "\<And>r k. (r, k) \<in> set (sy_requests s') \<Longrightarrow> k \<le> length (sy_births s')"
    and "\<And>c. c < length (sy_births s') \<Longrightarrow> is_cancelled (sy_rt s') c \<Longrightarrow>
      c < length (sy_births s) \<and> is_cancelled (sy_rt s) c \<or> asked s' c"
  shows "tasks_ok s'"
proof -
  have longer: "length (sy_births s) \<le> length (sy_births s')"
    using grows by (auto simp: grows_def)
  have "agent_ok s' a" if "a \<in># sy_agents s'" for a
    using assms(7) [OF that] ok grows_agent [OF grows] by (auto simp: tasks_ok_def)
  moreover have "th_cell h < length (sy_births s') \<and> th_id h = task_id (th_cell h)" if "h \<in> set (sy_handles s')" for h
    using assms(9) [OF that] ok longer by (fastforce simp: tasks_ok_def)
  moreover have "asked s' c" if "c < length (sy_births s')" "is_cancelled (sy_rt s') c" for c
    using assms(11) [OF that] ok grows_asked [OF grows] by (auto simp: tasks_ok_def)
  ultimately show ?thesis
    using assms(3-6,8,10) by (auto simp: tasks_ok_def)
qed

lemma owned_genuine: "tasks_ok s \<Longrightarrow> bt_get (tr_owned (sy_rt s)) p = Some ts \<Longrightarrow> list_all (genuine s p) ts"
  by (simp add: tasks_ok_def)

lemma spawn_flags:
  assumes "spawn_scoped owner g parent requested rt = (token, handle, rt')"
  shows "tr_flags rt' = tr_flags rt @ [\<lparr>fl_cancelled = False, fl_strong = 2\<rparr>]" "tr_next rt' = tr_next rt + 1"
    "tr_published rt' = tr_published rt" "tr_calls rt' = tr_calls rt" "tr_call_flags rt' = tr_call_flags rt"
    "tr_next_call rt' = tr_next_call rt"
    "th_id handle = tr_next rt + 1" "th_cell handle = length (tr_flags rt)"
    "c < length (tr_flags rt) \<Longrightarrow> is_cancelled rt' c = is_cancelled rt c"
    "c < length (tr_flags rt) \<Longrightarrow> strong_count rt' c = strong_count rt c"
    "\<not> is_cancelled rt' (length (tr_flags rt))" "strong_count rt' (length (tr_flags rt)) = 2"
  using assms by (auto simp: spawn_scoped_def Let_def is_cancelled_def strong_count_def nth_append)

lemma spawn_owned:
  assumes "spawn_scoped owner g parent requested rt = (token, handle, rt')"
  shows "bt_get (tr_owned rt') p = (if owner = Some p then
      Some (filter (\<lambda>t. strong_count rt (ot_cell t) \<noteq> 0) (case bt_get (tr_owned rt) p of Some ts \<Rightarrow> ts | None \<Rightarrow> []) @
        [\<lparr>ot_id = tr_next rt + 1, ot_generation = g, ot_cell = length (tr_flags rt)\<rparr>])
    else bt_get (tr_owned rt) p)" "bt_ok (tr_owned rt) \<Longrightarrow> bt_ok (tr_owned rt')"
  using assms by (auto simp: spawn_scoped_def Let_def bt_get_insert bt_ok_insert split: option.splits)

lemma spawn_ok:
  assumes ok: "tasks_ok s" and step: "spawn_scoped owner g parent requested (sy_rt s) = (token, handle, rt)"
  shows "grows s (s\<lparr>sy_rt := rt, sy_births := sy_births s @ [(owner, g)], sy_handles := sy_handles s @ [handle]\<rparr>) \<and>
    tasks_ok (s\<lparr>sy_rt := rt, sy_births := sy_births s @ [(owner, g)], sy_handles := sy_handles s @ [handle]\<rparr>)"
proof -
  let ?s = "s\<lparr>sy_rt := rt, sy_births := sy_births s @ [(owner, g)], sy_handles := sy_handles s @ [handle]\<rparr>"
  let ?n = "length (sy_births s)"
  from ok have len: "length (tr_flags (sy_rt s)) = ?n" and "next": "tr_next (sy_rt s) = of_nat ?n"
    and strong: "\<And>c. c < ?n \<Longrightarrow> held c (sy_agents s) \<le> strong_count (sy_rt s) c"
    by (auto simp: tasks_ok_def)
  note eqs = spawn_flags [OF step, unfolded len "next"]
  have grows: "grows s ?s" using eqs(9) by (simp add: grows_def)
  have new: "tr_next (sy_rt s) + 1 = task_id ?n" by (simp add: task_id_def "next" add.commute)
  have unheld: "held ?n (sy_agents s) = 0"
  proof -
    have "\<not> holds ?n a" if "a \<in># sy_agents s" for a
      using ok that unfolding tasks_ok_def agent_ok_def holds_def by (auto split: agent.splits)
    then show ?thesis by (simp add: held_def filter_mset_eq_conv)
  qed
  have "list_all (genuine ?s p) ts" if "bt_get (tr_owned rt) p = Some ts" for p ts
  proof (cases "owner = Some p")
    case True
    define old where "old = (case bt_get (tr_owned (sy_rt s)) p of Some ts \<Rightarrow> ts | None \<Rightarrow> [])"
    have "list_all (genuine s p) old"
      using owned_genuine [OF ok, of p] by (simp add: old_def split: option.splits)
    then have "list_all (genuine ?s p) old"
      using grows_genuine [OF grows] by (simp add: list_all_iff)
    moreover have "genuine ?s p \<lparr>ot_id = tr_next (sy_rt s) + 1, ot_generation = g, ot_cell = ?n\<rparr>"
      using True new by (simp add: genuine_def)
    ultimately show ?thesis
      using that True unfolding spawn_owned(1) [OF step] len by (auto simp: list_all_iff simp flip: old_def)
  next
    case False
    with that owned_genuine [OF ok] grows_genuine [OF grows] show ?thesis
      by (auto simp: spawn_owned(1) [OF step] list_all_iff)
  qed
  moreover have "held c (sy_agents s) \<le> strong_count rt c" if "c < Suc ?n" for c
    using that strong eqs(10,12) unheld by (cases "c = ?n") auto
  ultimately have "tasks_ok ?s"
    using ok eqs grows spawn_owned(2) [OF step] new
    by (intro frame_ok [OF ok grows]) (auto simp: tasks_ok_def less_Suc_eq task_id_def add.commute)
  with grows show ?thesis ..
qed

lemma take_owned_effect:
  assumes "take_owned p rt = (ts, rt')"
  shows "ts = (case bt_get (tr_owned rt) p of Some ts \<Rightarrow> ts | None \<Rightarrow> [])"
    "rt' = rt\<lparr>tr_owned := bt_remove p (tr_owned rt)\<rparr>"
  using assms by (simp_all add: take_owned_def)

lemma take_generation_effect:
  assumes "take_generation p (Some g) rt = (ts, rt')"
  defines "live \<equiv> filter (\<lambda>t. strong_count rt (ot_cell t) \<noteq> 0) (case bt_get (tr_owned rt) p of Some ts \<Rightarrow> ts | None \<Rightarrow> [])"
  shows "ts = filter (\<lambda>t. ot_generation t = g) live"
    "\<exists>owned. rt' = rt\<lparr>tr_owned := owned\<rparr> \<and> (bt_ok (tr_owned rt) \<longrightarrow> bt_ok owned) \<and>
       (\<forall>q. q \<noteq> p \<longrightarrow> bt_get owned q = bt_get (tr_owned rt) q) \<and>
       bt_get owned p = (case filter (\<lambda>t. ot_generation t \<noteq> g) live of [] \<Rightarrow> None | xs \<Rightarrow> Some xs)"
  using assms(1) unfolding live_def take_generation_def
  by (auto simp: bt_get_insert bt_get_remove bt_ok_insert bt_ok_remove Let_def
      intro: exI [of _ "tr_owned rt"] exI [of _ "bt_remove p (tr_owned rt)"] split: option.splits list.splits if_splits)

lemma taken_ok:
  assumes ok: "tasks_ok s" and rt: "rt = (sy_rt s)\<lparr>tr_owned := owned\<rparr>" "bt_ok owned"
    and owned: "\<And>q us. bt_get owned q = Some us \<Longrightarrow> list_all (genuine s q) us"
    and taken: "\<And>t. t \<in> set ts \<Longrightarrow> genuine s p t \<and> concerns r (ot_cell t) (Some p, ot_generation t)"
  shows "grows s (s\<lparr>sy_rt := rt, sy_requests := sy_requests s @ [(r, length (sy_births s))],
      sy_agents := add_mset (Todo ts) (sy_agents s)\<rparr>) \<and>
    tasks_ok (s\<lparr>sy_rt := rt, sy_requests := sy_requests s @ [(r, length (sy_births s))],
      sy_agents := add_mset (Todo ts) (sy_agents s)\<rparr>)"
proof -
  let ?s = "s\<lparr>sy_rt := rt, sy_requests := sy_requests s @ [(r, length (sy_births s))],
      sy_agents := add_mset (Todo ts) (sy_agents s)\<rparr>"
  have same: "is_cancelled rt = is_cancelled (sy_rt s)" "strong_count rt = strong_count (sy_rt s)"
    using rt(1) by (simp_all add: is_cancelled_def [abs_def] strong_count_def [abs_def])
  have grows: "grows s ?s" by (simp add: grows_def same)
  have genuine_s: "genuine ?s q t = genuine s q t" for q t by (simp add: genuine_def)
  have "agent_ok ?s (Todo ts)"
    using taken by (auto simp: agent_ok_def genuine_s asked_def genuine_def intro!: bexI [of _ "(r, length (sy_births s))"])
  then have "tasks_ok ?s"
    using ok same rt owned
    by (intro frame_ok [OF ok grows]) (auto simp: tasks_ok_def list_all_iff genuine_s holds_def)
  with grows show ?thesis ..
qed

lemma calls_ok:
  assumes "tasks_ok s" "tr_flags rt = tr_flags (sy_rt s)" "tr_next rt = tr_next (sy_rt s)" "tr_owned rt = tr_owned (sy_rt s)"
  shows "grows s (s\<lparr>sy_rt := rt, sy_scopes := sc\<rparr>) \<and> tasks_ok (s\<lparr>sy_rt := rt, sy_scopes := sc\<rparr>)"
proof -
  from assms(2) have same: "is_cancelled rt = is_cancelled (sy_rt s)" "strong_count rt = strong_count (sy_rt s)"
    by (simp_all add: is_cancelled_def [abs_def] strong_count_def [abs_def])
  have grows: "grows s (s\<lparr>sy_rt := rt, sy_scopes := sc\<rparr>)" by (simp add: grows_def same)
  with assms same show ?thesis
    by (intro conjI frame_ok [OF assms(1)]) (auto simp: tasks_ok_def list_all_iff)
qed

lemma task_step_ok: "task_step s s' \<Longrightarrow> tasks_ok s \<Longrightarrow> grows s s' \<and> tasks_ok s'"
proof (induction rule: task_step.induct)
  case (Spawn owner g parent requested s token handle rt)
  from spawn_ok [OF Spawn(2,1)] show ?case .
next
  case (Share c s)
  then have "grows s (s\<lparr>sy_rt := share c (sy_rt s)\<rparr>)" by (auto simp: grows_def tasks_ok_def)
  moreover from this Share have "tasks_ok (s\<lparr>sy_rt := share c (sy_rt s)\<rparr>)"
    by (intro frame_ok [OF Share(3)]) (auto simp: tasks_ok_def trans_le_add1)
  ultimately show ?case ..
next
  case (Release c s)
  then have "grows s (s\<lparr>sy_rt := release c (sy_rt s)\<rparr>)" by (auto simp: grows_def tasks_ok_def)
  moreover from this Release have "tasks_ok (s\<lparr>sy_rt := release c (sy_rt s)\<rparr>)"
    by (intro frame_ok [OF Release(3)]) (auto simp: tasks_ok_def)
  ultimately show ?case ..
next
  case (Cancel_Handle h s old rt)
  let ?s = "s\<lparr>sy_rt := rt, sy_requests := sy_requests s @ [(Ask_Handle (th_cell h), length (sy_births s))],
      sy_agents := (if old then sy_agents s else add_mset (Announcing (th_id h) None []) (sy_agents s))\<rparr>"
  from Cancel_Handle have h: "th_cell h < length (sy_births s)" "th_id h = task_id (th_cell h)"
      "th_cell h < length (tr_flags (sy_rt s))"
    by (auto simp: tasks_ok_def)
  note effect = swap_true_simps(1-8) [OF Cancel_Handle(3)] swap_true_simps(9,10) [OF Cancel_Handle(3) h(3)]
  have grows: "grows s ?s" using effect by (simp add: grows_def)
  have genuine_s: "genuine ?s q t = genuine s q t" for q t by (simp add: genuine_def)
  have asked: "asked ?s (th_cell h)" using h by (auto simp: asked_def)
  have "tasks_ok ?s"
    using Cancel_Handle(4) effect h asked
    by (intro frame_ok [OF Cancel_Handle(4) grows])
      (auto simp: tasks_ok_def genuine_s list_all_iff agent_ok_def holds_def split: if_splits)
  with grows show ?case ..
next
  case (Cancel_Plugin p s ts rt)
  note effect = take_owned_effect [OF Cancel_Plugin(1)]
  have "list_all (genuine s p) ts"
    using owned_genuine [OF Cancel_Plugin(2)] effect(1) by (auto split: option.splits)
  with Cancel_Plugin(2) effect(2) show ?case
    by (intro taken_ok [where p = p]) (auto simp: tasks_ok_def list_all_iff bt_ok_remove bt_get_remove split: if_splits)
next
  case (Cancel_Generation p g s ts rt)
  from take_generation_effect [OF Cancel_Generation(1)] obtain owned where effect:
    "rt = (sy_rt s)\<lparr>tr_owned := owned\<rparr>" "bt_ok (tr_owned (sy_rt s)) \<longrightarrow> bt_ok owned"
    "\<And>q. q \<noteq> p \<Longrightarrow> bt_get owned q = bt_get (tr_owned (sy_rt s)) q"
    "bt_get owned p = (case filter (\<lambda>t. ot_generation t \<noteq> g) (filter (\<lambda>t. strong_count (sy_rt s) (ot_cell t) \<noteq> 0)
        (case bt_get (tr_owned (sy_rt s)) p of Some ts \<Rightarrow> ts | None \<Rightarrow> [])) of [] \<Rightarrow> None | xs \<Rightarrow> Some xs)"
    "ts = filter (\<lambda>t. ot_generation t = g) (filter (\<lambda>t. strong_count (sy_rt s) (ot_cell t) \<noteq> 0)
        (case bt_get (tr_owned (sy_rt s)) p of Some ts \<Rightarrow> ts | None \<Rightarrow> []))"
    by blast
  have all: "list_all (genuine s p) (case bt_get (tr_owned (sy_rt s)) p of Some ts \<Rightarrow> ts | None \<Rightarrow> [])"
    using owned_genuine [OF Cancel_Generation(2)] by (auto split: option.splits)
  have "list_all (genuine s q) us" if "bt_get owned q = Some us" for q us
  proof (cases "q = p")
    case True
    with that effect(4) have "set us \<subseteq> set (case bt_get (tr_owned (sy_rt s)) p of Some ts \<Rightarrow> ts | None \<Rightarrow> [])"
      by (auto split: list.splits)
    with all True show ?thesis unfolding list_all_iff by blast
  qed (use that effect(3) owned_genuine [OF Cancel_Generation(2)] in auto)
  with Cancel_Generation(2) effect(1,2,5) all show ?case
    by (intro taken_ok [where p = p]) (auto simp: tasks_ok_def list_all_iff)
next
  case (Work s a rest a' rt)
  from work_ok [OF Work(3,1,2)] show ?case .
next
  case (Begin_Call p g s scope rt)
  then show ?case by (intro calls_ok) (auto simp: begin_call_def Let_def)
next
  case (Finish_Call scope g s)
  then show ?case by (intro calls_ok) (auto simp: finish_call_def Let_def split: option.splits)
next
  case (Cancel_Calls p g s n rt)
  then have "grows s (s\<lparr>sy_rt := rt, sy_scopes := sy_scopes s\<rparr>) \<and> tasks_ok (s\<lparr>sy_rt := rt, sy_scopes := sy_scopes s\<rparr>)"
    by (intro calls_ok) (auto simp: cancel_calls_def Let_def split: prod.splits)
  then show ?case by simp
qed

lemma task_reachable_ok: "task_reachable s \<Longrightarrow> tasks_ok s"
proof -
  assume "task_reachable s"
  then have "task_step\<^sup>*\<^sup>* task_start s" by (simp add: task_reachable_def)
  then show ?thesis
  proof (induction rule: rtranclp_induct)
    case base
    show ?case by (simp add: tasks_ok_def task_start_def task_runtime_default_def)
  qed (use task_step_ok in blast)
qed

subsection \<open>Announcements\<close>

text \<open>While fewer than 2 to the 64 tasks were spawned, each set flag was announced or will be by one agent.\<close>

fun announcing :: "64 word \<Rightarrow> agent \<Rightarrow> bool" where
  "announcing i (Announcing j h ts) \<longleftrightarrow> j = i"
| "announcing i a \<longleftrightarrow> False"

definition announcements :: "task_system \<Rightarrow> 64 word \<Rightarrow> nat" where
  "announcements s i = count_list (tr_published (sy_rt s)) i + size (filter_mset (announcing i) (sy_agents s))"

definition announced_ok :: "task_system \<Rightarrow> bool" where
  "announced_ok s \<longleftrightarrow> (length (sy_births s) < 2 ^ 64 \<longrightarrow>
     (\<forall>c<length (sy_births s). announcements s (task_id c) = of_bool (is_cancelled (sy_rt s) c)) \<and>
     set (tr_published (sy_rt s)) \<subseteq> task_id ` {..<length (sy_births s)})"

lemma task_id_inj:
  assumes "n < 2 ^ 64" "c < n" "d < n"
  shows "task_id c = task_id d \<longleftrightarrow> c = d"
proof -
  have "unat (of_nat (Suc m) :: 64 word) = Suc m" if "m < n" for m
    using assms(1) that by (simp add: unsigned_of_nat take_bit_nat_eq_self del: of_nat_Suc)
  from this [OF assms(2)] this [OF assms(3)] show ?thesis unfolding task_id_def by (metis nat.inject)
qed

lemma announced_same:
  assumes "announced_ok s" "sy_births s' = sy_births s" "tr_published (sy_rt s') = tr_published (sy_rt s)"
    and "is_cancelled (sy_rt s') = is_cancelled (sy_rt s)" "filter_mset (\<lambda>a. \<exists>i. announcing i a) (sy_agents s') =
      filter_mset (\<lambda>a. \<exists>i. announcing i a) (sy_agents s)"
  shows "announced_ok s'"
proof -
  have "filter_mset (announcing i) A = filter_mset (announcing i) (filter_mset (\<lambda>a. \<exists>i. announcing i a) A)" for i A
    by (auto simp: filter_filter_mset intro!: filter_mset_cong)
  with assms show ?thesis unfolding announced_ok_def announcements_def by metis
qed

text \<open>A flag is set for the first time, and an agent goes on to announce it.\<close>

lemma announced_set:
  assumes ok: "announced_ok s" and c: "c < length (sy_births s)" "\<not> is_cancelled (sy_rt s) c"
    and same: "sy_births s' = sy_births s" "tr_published (sy_rt s') = tr_published (sy_rt s)"
    and set: "\<And>d. is_cancelled (sy_rt s') d \<longleftrightarrow> d = c \<or> is_cancelled (sy_rt s) d"
    and agents: "\<And>i. size (filter_mset (announcing i) (sy_agents s')) =
      size (filter_mset (announcing i) (sy_agents s)) + of_bool (i = task_id c)"
  shows "announced_ok s'"
  unfolding announced_ok_def same(1)
proof (intro impI conjI allI)
  assume small: "length (sy_births s) < 2 ^ 64"
  with ok show "set (tr_published (sy_rt s')) \<subseteq> task_id ` {..<length (sy_births s)}"
    by (simp add: announced_ok_def same(2))
  show "announcements s' (task_id d) = of_bool (is_cancelled (sy_rt s') d)" if "d < length (sy_births s)" for d
    using ok small that c task_id_inj [OF small that c(1)]
    by (auto simp: announced_ok_def announcements_def same(2) agents set)
qed

lemma agents_ok: "tasks_ok s \<Longrightarrow> a \<in># sy_agents s \<Longrightarrow> agent_ok s a"
  by (simp add: tasks_ok_def)

lemma announced_spawn:
  assumes tasks: "tasks_ok s" and ok: "announced_ok s"
    and births: "sy_births s' = sy_births s @ [b]" and agents: "sy_agents s' = sy_agents s"
    and published: "tr_published (sy_rt s') = tr_published (sy_rt s)"
    and flags: "\<And>c. c < length (sy_births s) \<Longrightarrow> is_cancelled (sy_rt s') c = is_cancelled (sy_rt s) c"
      "\<not> is_cancelled (sy_rt s') (length (sy_births s))"
  shows "announced_ok s'"
  unfolding announced_ok_def
proof (intro impI conjI allI)
  let ?n = "length (sy_births s)"
  assume "length (sy_births s') < 2 ^ 64"
  then have small: "Suc ?n < 2 ^ 64" "?n < 2 ^ 64" by (simp_all add: births)
  from ok small(2) have all: "\<And>c. c < ?n \<Longrightarrow> announcements s (task_id c) = of_bool (is_cancelled (sy_rt s) c)"
      "set (tr_published (sy_rt s)) \<subseteq> task_id ` {..<?n}"
    by (auto simp: announced_ok_def)
  then show "set (tr_published (sy_rt s')) \<subseteq> task_id ` {..<length (sy_births s')}"
    by (auto simp: published births)
  have fresh: "task_id ?n \<noteq> task_id c" if "c < ?n" for c
    using task_id_inj [OF small(1), of ?n c] that by simp
  have "\<not> announcing (task_id ?n) a" if "a \<in># sy_agents s" for a
  proof (cases a)
    case (Announcing i h ts)
    with agents_ok [OF tasks that] obtain c where "c < ?n" "i = task_id c" by (auto simp: agent_ok_def)
    with fresh Announcing show ?thesis by fastforce
  qed simp_all
  moreover have "task_id ?n \<notin> set (tr_published (sy_rt s))" using all(2) fresh by auto
  ultimately have "announcements s (task_id ?n) = 0"
    by (simp add: announcements_def filter_mset_eq_conv count_list_0_iff)
  moreover have "announcements s' i = announcements s i" for i
    by (simp add: announcements_def published agents)
  ultimately show "announcements s' (task_id c) = of_bool (is_cancelled (sy_rt s') c)" if "c < length (sy_births s')" for c
    using that all(1) flags by (cases "c = ?n") (auto simp: births less_Suc_eq)
qed

lemma announced_publish:
  assumes "announced_ok s" "agent_ok s (Announcing i h ts)" "sy_agents s = add_mset (Announcing i h ts) rest"
    and "sy_births s' = sy_births s" "tr_published (sy_rt s') = tr_published (sy_rt s) @ [i]"
    and "\<And>c. c < length (sy_births s) \<Longrightarrow> is_cancelled (sy_rt s') c = is_cancelled (sy_rt s) c"
    and "sy_agents s' = add_mset (Todo ts) rest"
  shows "announced_ok s'"
  using assms by (auto simp: announced_ok_def announcements_def agent_ok_def)

lemma announced_work:
  assumes tasks: "tasks_ok s" and ok: "announced_ok s" and a: "sy_agents s = add_mset a rest"
    and step: "agent_step a (sy_rt s) = Some (a', rt)"
  shows "announced_ok (s\<lparr>sy_rt := rt, sy_agents := add_mset a' rest\<rparr>)"
proof -
  from tasks a have agent: "agent_ok s a" and len: "length (tr_flags (sy_rt s)) = length (sy_births s)"
    by (auto simp: tasks_ok_def)
  from step show ?thesis
  proof (cases rule: agent_step_cases)
    case (Skip t ts)
    with a show ?thesis by (intro announced_same [OF ok]) simp_all
  next
    case (Upgrade t ts)
    with agent len have "ot_cell t < length (tr_flags (sy_rt s))" by (auto simp: agent_ok_def genuine_def)
    with Upgrade a show ?thesis by (intro announced_same [OF ok]) (simp_all add: fun_eq_iff)
  next
    case (Late i c ts r)
    with agent len have "c < length (tr_flags (sy_rt s))" by (simp add: agent_ok_def)
    with Late a swap_true_simps [OF Late(4)] show ?thesis
      by (intro announced_same [OF ok]) (auto simp: fun_eq_iff)
  next
    case (First i c ts)
    with agent have c: "c < length (sy_births s)" "i = task_id c" by (simp_all add: agent_ok_def)
    with First a swap_true_simps [OF First(4)] len show ?thesis
      by (intro announced_set [OF ok c(1) First(2)]) auto
  next
    case (Announce i h ts)
    with agent len have "\<And>d. h = Some d \<Longrightarrow> d < length (tr_flags (sy_rt s))" by (auto simp: agent_ok_def)
    with Announce a agent show ?thesis
      by (intro announced_publish [OF ok, of i h ts rest]) (auto split: option.splits)
  qed
qed

lemma announced_step: "task_step s s' \<Longrightarrow> tasks_ok s \<Longrightarrow> announced_ok s \<Longrightarrow> announced_ok s'"
proof (induction rule: task_step.induct)
  case (Spawn owner g parent requested s token handle rt)
  note eqs = spawn_flags [OF Spawn(1)]
  from Spawn eqs show ?case
    by (intro announced_spawn [OF Spawn(2,3)]) (auto simp: tasks_ok_def)
next
  case (Share c s)
  then show ?case by (intro announced_same [OF Share(4)]) (simp_all add: fun_eq_iff)
next
  case (Release c s)
  then show ?case by (intro announced_same [OF Release(4)]) (simp_all add: fun_eq_iff)
next
  case (Cancel_Handle h s old rt)
  from Cancel_Handle have h: "th_cell h < length (sy_births s)" "th_id h = task_id (th_cell h)"
      "th_cell h < length (tr_flags (sy_rt s))"
    by (auto simp: tasks_ok_def)
  note effect = swap_true_simps(1-8) [OF Cancel_Handle(3)] swap_true_simps(9,10) [OF Cancel_Handle(3) h(3)]
  show ?case
  proof (cases old)
    case True
    with effect show ?thesis by (intro announced_same [OF Cancel_Handle(5)]) (auto simp: fun_eq_iff)
  next
    case False
    with effect h show ?thesis by (intro announced_set [OF Cancel_Handle(5) h(1)]) auto
  qed
next
  case (Cancel_Plugin p s ts rt)
  with take_owned_effect [OF Cancel_Plugin(1)] show ?case
    by (intro announced_same [OF Cancel_Plugin(3)]) (simp_all add: fun_eq_iff is_cancelled_def)
next
  case (Cancel_Generation p g s ts rt)
  with take_generation_effect(2) [OF Cancel_Generation(1)] show ?case
    by (intro announced_same [OF Cancel_Generation(3)]) (auto simp: fun_eq_iff is_cancelled_def)
next
  case (Work s a rest a' rt)
  from announced_work [OF Work(3,4,1,2)] show ?case .
next
  case (Begin_Call p g s scope rt)
  then show ?case
    by (intro announced_same [OF Begin_Call(3)]) (auto simp: begin_call_def Let_def fun_eq_iff is_cancelled_def)
next
  case (Finish_Call scope g s)
  then show ?case
    by (intro announced_same [OF Finish_Call(3)])
      (auto simp: finish_call_def Let_def fun_eq_iff is_cancelled_def split: option.splits)
next
  case (Cancel_Calls p g s n rt)
  then show ?case
    by (intro announced_same [OF Cancel_Calls(3)])
      (auto simp: cancel_calls_def Let_def fun_eq_iff is_cancelled_def split: prod.splits)
qed

subsection \<open>Nobody is forgotten\<close>

definition pending :: "task_system \<Rightarrow> nat \<Rightarrow> bool" where
  "pending s c \<longleftrightarrow> (\<exists>a\<in>#sy_agents s. c \<in> ot_cell ` set (agent_tasks a) \<or> (\<exists>i ts. a = Swapping i c ts))"

definition reached :: "task_system \<Rightarrow> nat \<Rightarrow> bool" where
  "reached s c \<longleftrightarrow> is_cancelled (sy_rt s) c \<or> pending s c"

definition listed :: "task_system \<Rightarrow> plugin_id \<Rightarrow> nat \<Rightarrow> bool" where
  "listed s p c \<longleftrightarrow> (\<exists>ts. bt_get (tr_owned (sy_rt s)) p = Some ts \<and> c \<in> ot_cell ` set ts)"

definition tracked :: "task_system \<Rightarrow> bool" where
  "tracked s \<longleftrightarrow>
     (\<forall>c p g. c < length (sy_births s) \<longrightarrow> sy_births s ! c = (Some p, g) \<longrightarrow> strong_count (sy_rt s) c \<noteq> 0 \<longrightarrow>
        listed s p c \<or> reached s c) \<and>
     (\<forall>r k c. (r, k) \<in> set (sy_requests s) \<longrightarrow> c < k \<longrightarrow> concerns r c (sy_births s ! c) \<longrightarrow>
        strong_count (sy_rt s) c \<noteq> 0 \<longrightarrow> reached s c)"

lemma tracked_frame:
  assumes ok: "tasks_ok s" "tracked s"
    and same: "sy_births s' = sy_births s" "sy_requests s' = sy_requests s @ rs"
    and kept: "\<And>c. c < length (sy_births s) \<Longrightarrow> strong_count (sy_rt s') c \<noteq> 0 \<Longrightarrow>
      strong_count (sy_rt s) c \<noteq> 0 \<and> (reached s c \<longrightarrow> reached s' c)"
    and listed: "\<And>p c g. c < length (sy_births s) \<Longrightarrow> strong_count (sy_rt s') c \<noteq> 0 \<Longrightarrow> listed s p c \<Longrightarrow>
      sy_births s ! c = (Some p, g) \<Longrightarrow> listed s' p c \<or> reached s' c"
    and new: "\<And>r k c. (r, k) \<in> set rs \<Longrightarrow> c < k \<Longrightarrow> concerns r c (sy_births s ! c) \<Longrightarrow>
      strong_count (sy_rt s') c \<noteq> 0 \<Longrightarrow> reached s' c"
  shows "tracked s'"
proof -
  have "k \<le> length (sy_births s)" if "(r, k) \<in> set (sy_requests s)" for r k
    using ok(1) that by (auto simp: tasks_ok_def)
  with ok(2) kept listed new show ?thesis
    unfolding tracked_def same set_append by (meson UnE order_less_le_trans)
qed

lemma work_reached:
  assumes tasks: "tasks_ok s" and a: "sy_agents s = add_mset a rest" and step: "agent_step a (sy_rt s) = Some (a', rt)"
    and c: "c < length (sy_births s)" "strong_count rt c \<noteq> 0"
  shows "strong_count (sy_rt s) c \<noteq> 0 \<and> (reached s c \<longrightarrow> reached (s\<lparr>sy_rt := rt, sy_agents := add_mset a' rest\<rparr>) c)"
proof -
  from tasks a have agent: "agent_ok s a" and len: "length (tr_flags (sy_rt s)) = length (sy_births s)"
    by (auto simp: tasks_ok_def)
  from step show ?thesis
  proof (cases rule: agent_step_cases)
    case (Skip t ts)
    with c a show ?thesis by (auto simp: reached_def pending_def)
  next
    case (Upgrade t ts)
    with agent len have "ot_cell t < length (tr_flags (sy_rt s))" by (auto simp: agent_ok_def genuine_def)
    with Upgrade a c show ?thesis by (auto simp: reached_def pending_def split: if_splits)
  next
    case (Late i d ts r)
    with agent len have "d < length (tr_flags (sy_rt s))" by (simp add: agent_ok_def)
    with Late a c swap_true_simps [OF Late(4)] show ?thesis
      by (auto simp: reached_def pending_def split: if_splits)
  next
    case (First i d ts)
    with agent len have "d < length (tr_flags (sy_rt s))" by (simp add: agent_ok_def)
    with First a c swap_true_simps [OF First(4)] show ?thesis
      by (auto simp: reached_def pending_def)
  next
    case (Announce i h ts)
    with agent len have "\<And>d. h = Some d \<Longrightarrow> d < length (tr_flags (sy_rt s))" by (auto simp: agent_ok_def)
    with Announce a c show ?thesis
      by (auto simp: reached_def pending_def split: option.splits if_splits)
  qed
qed

lemma tracked_spawn:
  assumes tasks: "tasks_ok s" and ok: "tracked s"
    and step: "spawn_scoped owner g parent requested (sy_rt s) = (token, handle, rt)"
  shows "tracked (s\<lparr>sy_rt := rt, sy_births := sy_births s @ [(owner, g)], sy_handles := sy_handles s @ [handle]\<rparr>)"
proof -
  let ?s = "s\<lparr>sy_rt := rt, sy_births := sy_births s @ [(owner, g)], sy_handles := sy_handles s @ [handle]\<rparr>"
  let ?n = "length (sy_births s)"
  from tasks have len: "length (tr_flags (sy_rt s)) = ?n" by (simp add: tasks_ok_def)
  note flags = spawn_flags [OF step, unfolded len]
  have reached: "reached s c \<Longrightarrow> reached ?s c" if "c < ?n" for c
    using that flags(9) by (simp add: reached_def pending_def)
  have listed: "listed ?s p c" if "listed s p c" "c < ?n" "strong_count (sy_rt s) c \<noteq> 0" for p c
    using that unfolding listed_def by (auto simp: spawn_owned(1) [OF step])
  have fresh: "listed ?s p ?n" if "owner = Some p" for p
    using that unfolding listed_def by (simp add: spawn_owned(1) [OF step] len)
  have small: "k \<le> ?n" if "(r, k) \<in> set (sy_requests s)" for r k
    using tasks that by (auto simp: tasks_ok_def)
  show ?thesis
    unfolding tracked_def
  proof (intro conjI allI impI)
    fix c p g'
    assume c: "c < length (sy_births ?s)" "sy_births ?s ! c = (Some p, g')" "strong_count (sy_rt ?s) c \<noteq> 0"
    show "listed ?s p c \<or> reached ?s c"
    proof (cases "c = ?n")
      case True
      with c fresh show ?thesis by simp
    next
      case False
      with c flags(10) have "c < ?n" "sy_births s ! c = (Some p, g')" "strong_count (sy_rt s) c \<noteq> 0"
        by (simp_all add: nth_append)
      with ok listed reached show ?thesis unfolding tracked_def by blast
    qed
  next
    fix r k c
    assume "(r, k) \<in> set (sy_requests ?s)" and c: "c < k" "concerns r c (sy_births ?s ! c)" "strong_count (sy_rt ?s) c \<noteq> 0"
    then have r: "(r, k) \<in> set (sy_requests s)" by simp
    from small [OF this] c have "c < ?n" by simp
    with c flags(10) ok r reached show "reached ?s c" unfolding tracked_def by (auto simp: nth_append)
  qed
qed

lemma tracked_take:
  assumes tasks: "tasks_ok s" and ok: "tracked s" and rt: "rt = (sy_rt s)\<lparr>tr_owned := owned\<rparr>"
    and others: "\<And>q us. q \<noteq> p \<Longrightarrow> bt_get owned q = bt_get (tr_owned (sy_rt s)) q"
    and taken: "\<And>t. t \<in> set (case bt_get (tr_owned (sy_rt s)) p of Some ts \<Rightarrow> ts | None \<Rightarrow> []) \<Longrightarrow>
      strong_count (sy_rt s) (ot_cell t) \<noteq> 0 \<Longrightarrow> t \<in> set ts \<or>
      \<not> concerns r (ot_cell t) (Some p, ot_generation t) \<and> (\<exists>us. bt_get owned p = Some us \<and> t \<in> set us)"
    and concerns: "\<And>c b. concerns r c b \<Longrightarrow> fst b = Some p"
  shows "tracked (s\<lparr>sy_rt := rt, sy_requests := sy_requests s @ [(r, length (sy_births s))],
      sy_agents := add_mset (Todo ts) (sy_agents s)\<rparr>)"
proof -
  let ?s = "s\<lparr>sy_rt := rt, sy_requests := sy_requests s @ [(r, length (sy_births s))],
      sy_agents := add_mset (Todo ts) (sy_agents s)\<rparr>"
  have same: "is_cancelled rt = is_cancelled (sy_rt s)" "strong_count rt = strong_count (sy_rt s)"
    using rt(1) by (simp_all add: is_cancelled_def [abs_def] strong_count_def [abs_def])
  have keep: "reached ?s c" if "reached s c" for c using that same by (auto simp: reached_def pending_def)
  have task: "c \<in> ot_cell ` set ts \<or> \<not> concerns r c (sy_births s ! c) \<and> listed ?s p c"
    if "listed s p c" "strong_count (sy_rt s) c \<noteq> 0" for c
  proof -
    from that(1) obtain us t where us: "bt_get (tr_owned (sy_rt s)) p = Some us" "t \<in> set us" "c = ot_cell t"
      by (auto simp: listed_def)
    then have "genuine s p t" using owned_genuine [OF tasks us(1)] by (simp add: list_all_iff)
    with taken [of t] us that(2) show ?thesis by (auto simp: genuine_def listed_def rt)
  qed
  have taken_reached: "reached ?s c" if "c \<in> ot_cell ` set ts" for c
    using that by (auto simp: reached_def pending_def)
  show ?thesis
  proof (rule tracked_frame [OF tasks ok])
    show "listed ?s q c \<or> reached ?s c" if "listed s q c" "strong_count (sy_rt ?s) c \<noteq> 0" for q c
      using task [of c] taken_reached that same others [of q] by (cases "q = p") (auto simp: listed_def rt)
    show "reached ?s c" if "(r', k) \<in> set [(r, length (sy_births s))]" "c < k" "concerns r' c (sy_births s ! c)"
      "strong_count (sy_rt ?s) c \<noteq> 0" for r' k c
    proof -
      from that have c: "c < length (sy_births s)" "concerns r c (sy_births s ! c)" "strong_count (sy_rt s) c \<noteq> 0"
        by (simp_all add: same)
      then obtain g where "sy_births s ! c = (Some p, g)" using concerns by (metis prod.collapse)
      with ok c have "listed s p c \<or> reached s c" unfolding tracked_def by blast
      with task [of c] c keep taken_reached show ?thesis by blast
    qed
  qed (use keep same in simp_all)
qed

lemma tracked_calls:
  assumes "tasks_ok s" "tracked s" "tr_flags rt = tr_flags (sy_rt s)" "tr_owned rt = tr_owned (sy_rt s)"
  shows "tracked (s\<lparr>sy_rt := rt, sy_scopes := sc\<rparr>)"
proof -
  from assms(3) have "is_cancelled rt = is_cancelled (sy_rt s)" "strong_count rt = strong_count (sy_rt s)"
    by (simp_all add: is_cancelled_def [abs_def] strong_count_def [abs_def])
  with assms(4) show ?thesis
    by (intro tracked_frame [OF assms(1,2), where rs = "[]"]) (simp_all add: reached_def pending_def listed_def)
qed

lemma tracked_step: "task_step s s' \<Longrightarrow> tasks_ok s \<Longrightarrow> tracked s \<Longrightarrow> tracked s'"
proof (induction rule: task_step.induct)
  case (Spawn owner g parent requested s token handle rt)
  from tracked_spawn [OF Spawn(2,3,1)] show ?case .
next
  case (Share c s)
  then show ?case
    by (intro tracked_frame [OF Share(3,4), where rs = "[]"])
      (auto simp: reached_def pending_def listed_def tasks_ok_def split: if_splits)
next
  case (Release c s)
  then show ?case
    by (intro tracked_frame [OF Release(3,4), where rs = "[]"])
      (auto simp: reached_def pending_def listed_def split: if_splits)
next
  case (Cancel_Handle h s old rt)
  from Cancel_Handle have h: "th_cell h < length (tr_flags (sy_rt s))"
    by (auto simp: tasks_ok_def)
  note effect = swap_true_simps(1-8) [OF Cancel_Handle(3)] swap_true_simps(9,10) [OF Cancel_Handle(3) h]
  then show ?case
    by (intro tracked_frame [OF Cancel_Handle(4,5)]) (auto simp: reached_def pending_def listed_def)
next
  case (Cancel_Plugin p s ts rt)
  from take_owned_effect [OF Cancel_Plugin(1)] show ?case
    by (intro tracked_take [OF Cancel_Plugin(2,3), where p = p and owned = "bt_remove p (tr_owned (sy_rt s))"])
      (auto simp: bt_get_remove)
next
  case (Cancel_Generation p g s ts rt)
  from take_generation_effect [OF Cancel_Generation(1)] obtain owned where effect:
    "rt = (sy_rt s)\<lparr>tr_owned := owned\<rparr>" "\<And>q. q \<noteq> p \<Longrightarrow> bt_get owned q = bt_get (tr_owned (sy_rt s)) q"
    "bt_get owned p = (case filter (\<lambda>t. ot_generation t \<noteq> g) (filter (\<lambda>t. strong_count (sy_rt s) (ot_cell t) \<noteq> 0)
        (case bt_get (tr_owned (sy_rt s)) p of Some ts \<Rightarrow> ts | None \<Rightarrow> [])) of [] \<Rightarrow> None | xs \<Rightarrow> Some xs)"
    "ts = filter (\<lambda>t. ot_generation t = g) (filter (\<lambda>t. strong_count (sy_rt s) (ot_cell t) \<noteq> 0)
        (case bt_get (tr_owned (sy_rt s)) p of Some ts \<Rightarrow> ts | None \<Rightarrow> []))"
    by blast
  define old where "old = (case bt_get (tr_owned (sy_rt s)) p of Some ts \<Rightarrow> ts | None \<Rightarrow> [])"
  have "t \<in> set ts \<or> ot_generation t \<noteq> g \<and> (\<exists>us. bt_get owned p = Some us \<and> t \<in> set us)"
    if "t \<in> set old" "strong_count (sy_rt s) (ot_cell t) \<noteq> 0" for t
  proof (cases "ot_generation t = g")
    case False
    define kept where "kept = filter (\<lambda>t. ot_generation t \<noteq> g) (filter (\<lambda>t. strong_count (sy_rt s) (ot_cell t) \<noteq> 0) old)"
    from False that have t: "t \<in> set kept" by (simp add: kept_def)
    with effect(3) [folded old_def, folded kept_def] have "bt_get owned p = Some kept" by (cases kept) auto
    with t False show ?thesis by blast
  qed (use that effect(4) [folded old_def] in simp)
  then show ?case
    using effect(1,2) unfolding old_def
    by (intro tracked_take [OF Cancel_Generation(2,3), where p = p and owned = owned]) auto
next
  case (Work s a rest a' rt)
  have "tr_owned rt = tr_owned (sy_rt s)"
    using Work(2) by (cases rule: agent_step_cases) (auto dest: swap_true_simps split: option.splits)
  with Work work_reached [OF Work(3,1,2)] show ?case
    by (intro tracked_frame [OF Work(3,4), where rs = "[]"]) (auto simp: listed_def)
next
  case (Begin_Call p g s scope rt)
  then show ?case by (intro tracked_calls) (auto simp: begin_call_def Let_def)
next
  case (Finish_Call scope g s)
  then show ?case by (intro tracked_calls) (auto simp: finish_call_def Let_def split: option.splits)
next
  case (Cancel_Calls p g s n rt)
  then have "tracked (s\<lparr>sy_rt := rt, sy_scopes := sy_scopes s\<rparr>)"
    by (intro tracked_calls) (auto simp: cancel_calls_def Let_def split: prod.splits)
  then show ?case by simp
qed

lemma task_reachable_all: "task_reachable s \<Longrightarrow> tasks_ok s \<and> announced_ok s \<and> tracked s"
proof -
  assume "task_reachable s"
  then have "task_step\<^sup>*\<^sup>* task_start s" by (simp add: task_reachable_def)
  then show ?thesis
  proof (induction rule: rtranclp_induct)
    case base
    show ?case
      by (simp add: tasks_ok_def announced_ok_def tracked_def task_start_def task_runtime_default_def)
  qed (use task_step_ok announced_step tracked_step in blast)
qed

subsection \<open>The properties\<close>

lemma count_list_distinct: "(\<And>i. count_list xs i \<le> 1) \<Longrightarrow> distinct xs"
proof (induction xs)
  case (Cons x xs)
  from Cons.prems [of x] have "x \<notin> set xs" by (simp add: count_list_0_iff)
  moreover have "count_list xs i \<le> 1" for i
    using Cons.prems [of i] by (simp split: if_splits)
  ultimately show ?case using Cons.IH by simp
qed simp

definition no_agents :: "task_system \<Rightarrow> bool" where
  "no_agents s \<longleftrightarrow> (\<forall>a\<in>#sy_agents s. a = Todo [])"

lemma unannounced: "no_agents s \<Longrightarrow> size (filter_mset (announcing i) (sy_agents s)) = 0"
  by (auto simp: no_agents_def filter_mset_eq_conv)

text \<open>C20: In every interleaving, as long as fewer than 2 to the 64 tasks were spawned, all tasks have
  different identifiers and no cancellation is announced twice; only cancelled tasks are
  announced, and once the cancellations under way are done, all of them were.\<close>

theorem cancellation_is_announced_once:
  assumes "task_reachable s" "length (sy_births s) < 2 ^ 64"
  shows "inj_on task_id {..<length (sy_births s)} \<and> distinct (tr_published (sy_rt s)) \<and>
    set (tr_published (sy_rt s)) \<subseteq> {task_id c | c. c < length (sy_births s) \<and> is_cancelled (sy_rt s) c} \<and>
    (no_agents s \<longrightarrow>
       set (tr_published (sy_rt s)) = {task_id c | c. c < length (sy_births s) \<and> is_cancelled (sy_rt s) c})"
proof -
  let ?n = "length (sy_births s)"
  from task_reachable_all [OF assms(1)] assms(2) have
    once: "\<And>c. c < ?n \<Longrightarrow> announcements s (task_id c) = of_bool (is_cancelled (sy_rt s) c)"
    and known: "set (tr_published (sy_rt s)) \<subseteq> task_id ` {..<?n}"
    by (auto simp: announced_ok_def)
  have published: "count_list (tr_published (sy_rt s)) (task_id c) \<le> of_bool (is_cancelled (sy_rt s) c)" if "c < ?n" for c
    using once [OF that] by (simp add: announcements_def)
  have "count_list (tr_published (sy_rt s)) i \<le> 1" for i
  proof (cases "i \<in> set (tr_published (sy_rt s))")
    case True
    with known obtain c where "c < ?n" "i = task_id c" by auto
    with published [of c] show ?thesis by (cases "is_cancelled (sy_rt s) c") simp_all
  qed (simp add: count_list_0_iff)
  then have "distinct (tr_published (sy_rt s))" by (rule count_list_distinct)
  moreover have "is_cancelled (sy_rt s) c" if "c < ?n" "task_id c \<in> set (tr_published (sy_rt s))" for c
    using published [OF that(1)] that(2) by (cases "is_cancelled (sy_rt s) c") (auto simp: count_list_0_iff)
  moreover have "task_id c \<in> set (tr_published (sy_rt s))" if "no_agents s" "c < ?n" "is_cancelled (sy_rt s) c" for c
  proof (rule ccontr)
    assume "task_id c \<notin> set (tr_published (sy_rt s))"
    then have "count_list (tr_published (sy_rt s)) (task_id c) = 0" by (simp add: count_list_0_iff)
    with once [OF that(2)] that(3) unannounced [OF that(1), of "task_id c"] show False
      by (simp add: announcements_def del: size_eq_0_iff_empty)
  qed
  moreover have "inj_on task_id {..<?n}"
    using task_id_inj [OF assms(2)] by (auto intro!: inj_onI)
  ultimately show ?thesis using known by blast
qed

text \<open>A task is cancelled only if somebody asked for it: through its handle, or by stopping the plugin that
  owns it, in its generation if one was named, after it was spawned.\<close>

lemma only_the_asked_are_cancelled:
  assumes "task_reachable s" "c < length (sy_births s)" "is_cancelled (sy_rt s) c"
  shows "\<exists>r k. (r, k) \<in> set (sy_requests s) \<and> c < k \<and>
    (r = Ask_Handle c \<or> (\<exists>p. fst (sy_births s ! c) = Some p \<and>
       (r = Ask_Plugin p \<or> r = Ask_Generation p (snd (sy_births s ! c)))))"
proof -
  from task_reachable_all [OF assms(1)] assms(2,3) have "asked s c" by (simp add: tasks_ok_def)
  then obtain r k where "(r, k) \<in> set (sy_requests s)" "c < k" "concerns r c (sy_births s ! c)"
    by (auto simp: asked_def)
  then show ?thesis by (cases r) (auto intro!: exI)
qed

text \<open>C19: Nobody is forgotten: when the cancellations under way are done, every task that was alive in the
  scope of a request when it was made is cancelled, or nobody holds it any more.\<close>

theorem every_living_task_is_reached:
  assumes "task_reachable s" "no_agents s" "(r, k) \<in> set (sy_requests s)" "c < k" "concerns r c (sy_births s ! c)"
  shows "is_cancelled (sy_rt s) c \<or> strong_count (sy_rt s) c = 0"
proof -
  have "\<not> pending s c" using assms(2) by (auto simp: no_agents_def pending_def)
  with task_reachable_all [OF assms(1)] assms(3-5) show ?thesis
    unfolding tracked_def reached_def by blast
qed

text \<open>A plugin spawns a task and is stopped.\<close>

definition sample_births :: "(plugin_id option \<times> graph_generation_id) list" where
  "sample_births = [(Some ''p'', ''g'')]"

definition sample_flagged :: task_system where
  "sample_flagged = \<lparr>sy_rt = task_runtime_default\<lparr>tr_next := 1,
       tr_flags := [\<lparr>fl_cancelled = True, fl_strong = 2\<rparr>], tr_published := [1]\<rparr>,
     sy_agents = {#Todo []#}, sy_births = sample_births,
     sy_handles = [\<lparr>th_id = 1, th_generation = ''g'', th_cell = 0\<rparr>],
     sy_requests = [(Ask_Plugin ''p'', 1)], sy_scopes = []\<rparr>"

lemma sample_flagged_reachable: "task_reachable sample_flagged"
proof -
  define s1 where "s1 = task_start\<lparr>sy_rt := task_runtime_default\<lparr>tr_next := 1,
      tr_owned := [(''p'', [\<lparr>ot_id = 1, ot_generation = ''g'', ot_cell = 0\<rparr>])],
      tr_flags := [\<lparr>fl_cancelled = False, fl_strong = 2\<rparr>]\<rparr>,
    sy_births := sample_births, sy_handles := [\<lparr>th_id = 1, th_generation = ''g'', th_cell = 0\<rparr>]\<rparr>"
  define rt2 where "rt2 = task_runtime_default\<lparr>tr_next := 1, tr_flags := [\<lparr>fl_cancelled = False, fl_strong = 2\<rparr>]\<rparr>"
  define s2 where "s2 = s1\<lparr>sy_rt := rt2, sy_requests := [(Ask_Plugin ''p'', 1)],
    sy_agents := {#Todo [\<lparr>ot_id = 1, ot_generation = ''g'', ot_cell = 0\<rparr>]#}\<rparr>"
  define rt3 where "rt3 = rt2\<lparr>tr_flags := [\<lparr>fl_cancelled = False, fl_strong = 3\<rparr>]\<rparr>"
  define rt4 where "rt4 = rt2\<lparr>tr_flags := [\<lparr>fl_cancelled = True, fl_strong = 3\<rparr>]\<rparr>"
  define s3 where "s3 = s2\<lparr>sy_rt := rt3, sy_agents := {#Swapping 1 0 []#}\<rparr>"
  define s4 where "s4 = s3\<lparr>sy_rt := rt4, sy_agents := {#Announcing 1 (Some 0) []#}\<rparr>"
  note defs = task_start_def task_runtime_default_def sample_births_def
  have "task_step task_start s1"
    using Spawn [of "Some ''p''" "''g''" "{}" "{}" task_start] unfolding s1_def
    by (simp add: defs spawn_scoped_def)
  moreover have "task_step s1 s2"
    using Cancel_Plugin [of "''p''" s1] unfolding s1_def s2_def rt2_def
    by (simp add: defs take_owned_def)
  moreover have "task_step s2 s3"
    using Work [of s2 _ "{#}"] unfolding s1_def s2_def s3_def rt2_def rt3_def
    by (simp add: defs strong_count_def share_def on_flag_def)
  moreover have "task_step s3 s4"
    using Work [of s3 _ "{#}"] unfolding s1_def s2_def s3_def s4_def rt2_def rt3_def rt4_def
    by (simp add: defs swap_true_def on_flag_def is_cancelled_def)
  moreover have "task_step s4 sample_flagged"
    using Work [of s4 _ "{#}"] unfolding s1_def s2_def s3_def s4_def rt2_def rt3_def rt4_def sample_flagged_def
    by (simp add: defs announce_def release_def on_flag_def)
  ultimately show ?thesis
    unfolding task_reachable_def by (meson rtranclp.rtrancl_into_rtrancl rtranclp.rtrancl_refl)
qed

theorem cancellation_is_announced_once_witness:
  "distinct (tr_published (sy_rt sample_flagged))"
  using cancellation_is_announced_once [OF sample_flagged_reachable] by (simp add: sample_flagged_def sample_births_def)

lemma only_the_asked_are_cancelled_witness:
  "\<exists>r k. (r, k) \<in> set (sy_requests sample_flagged) \<and> 0 < k"
  using only_the_asked_are_cancelled [OF sample_flagged_reachable, of 0]
  by (auto simp: sample_flagged_def sample_births_def is_cancelled_def)

theorem every_living_task_is_reached_witness:
  "is_cancelled (sy_rt sample_flagged) 0 \<or> strong_count (sy_rt sample_flagged) 0 = 0"
  by (rule every_living_task_is_reached [OF sample_flagged_reachable, of "Ask_Plugin ''p''" 1])
    (simp_all add: no_agents_def sample_flagged_def sample_births_def)

subsection \<open>Live calls\<close>

definition live_calls :: "task_system \<Rightarrow> plugin_id \<Rightarrow> owned_call list" where
  "live_calls s p = map (\<lambda>(sc, g). \<lparr>oc_id = lc_id sc, oc_generation = g, oc_cell = lc_cell sc\<rparr>)
     (filter (\<lambda>(sc, g). lc_plugin sc = p) (sy_scopes s))"

definition calls_listed :: "task_system \<Rightarrow> bool" where
  "calls_listed s \<longleftrightarrow> length (tr_call_flags (sy_rt s)) < 2 ^ 64 \<longrightarrow>
     bt_ok (tr_calls (sy_rt s)) \<and> tr_next_call (sy_rt s) = of_nat (length (tr_call_flags (sy_rt s))) \<and>
     distinct (map (lc_cell \<circ> fst) (sy_scopes s)) \<and>
     (\<forall>(sc, g)\<in>set (sy_scopes s). lc_cell sc < length (tr_call_flags (sy_rt s)) \<and> lc_id sc = task_id (lc_cell sc)) \<and>
     (\<forall>p. bt_get (tr_calls (sy_rt s)) p = (if live_calls s p = [] then None else Some (live_calls s p)))"

lemma swap_each_count:
  "distinct cs \<Longrightarrow> list_all (\<lambda>c. c < length fs) cs \<Longrightarrow>
     swap_each cs fs = (length (filter (\<lambda>c. \<not> fs ! c) cs), map (\<lambda>c. fs ! c \<or> c \<in> set cs) [0..<length fs])"
proof (induction cs arbitrary: fs)
  case Nil
  then show ?case by (simp add: map_nth)
next
  case (Cons c cs)
  have "filter (\<lambda>d. \<not> fs[c := True] ! d) cs = filter (\<lambda>d. \<not> fs ! d) cs"
  proof (rule filter_cong [OF refl])
    fix d
    assume "d \<in> set cs"
    with Cons.prems(1) have "c \<noteq> d" by auto
    then show "(\<not> fs[c := True] ! d) = (\<not> fs ! d)" by simp
  qed
  moreover have "map (\<lambda>d. fs[c := True] ! d \<or> d \<in> set cs) [0..<length fs] =
      map (\<lambda>d. fs ! d \<or> d \<in> set (c # cs)) [0..<length fs]"
    using Cons.prems by (auto simp: nth_list_update)
  ultimately show ?case using Cons by simp
qed

lemma calls_same:
  assumes "calls_listed s" "tr_calls rt = tr_calls (sy_rt s)" "tr_next_call rt = tr_next_call (sy_rt s)"
    "length (tr_call_flags rt) = length (tr_call_flags (sy_rt s))" "sy_rt s' = rt" "sy_scopes s' = sy_scopes s"
  shows "calls_listed s'"
  using assms unfolding calls_listed_def live_calls_def by simp

lemma begin_call_listed:
  assumes ok: "calls_listed s" and step: "begin_call p g (sy_rt s) = (scope, rt)"
  shows "calls_listed (s\<lparr>sy_rt := rt, sy_scopes := sy_scopes s @ [(scope, g)]\<rparr>)"
  unfolding calls_listed_def
proof (intro impI)
  let ?s = "s\<lparr>sy_rt := rt, sy_scopes := sy_scopes s @ [(scope, g)]\<rparr>"
  let ?n = "length (tr_call_flags (sy_rt s))"
  assume "length (tr_call_flags (sy_rt ?s)) < 2 ^ 64"
  moreover from step have len: "length (tr_call_flags rt) = Suc ?n"
    by (auto simp: begin_call_def Let_def)
  ultimately have all: "bt_ok (tr_calls (sy_rt s))" "tr_next_call (sy_rt s) = of_nat ?n"
      "distinct (map (lc_cell \<circ> fst) (sy_scopes s))"
      "\<forall>(sc, g)\<in>set (sy_scopes s). lc_cell sc < ?n \<and> lc_id sc = task_id (lc_cell sc)"
      "\<And>q. bt_get (tr_calls (sy_rt s)) q = (if live_calls s q = [] then None else Some (live_calls s q))"
    using ok unfolding calls_listed_def by auto
  define calls where "calls = (case bt_get (tr_calls (sy_rt s)) p of Some cs \<Rightarrow> cs | None \<Rightarrow> [])"
  have calls: "calls = live_calls s p" by (simp add: calls_def all(5))
  from step have eqs: "scope = \<lparr>lc_plugin = p, lc_id = of_nat (Suc ?n), lc_cell = ?n\<rparr>"
    "tr_next_call rt = of_nat (Suc ?n)" "tr_calls rt = bt_insert p (calls @
       [\<lparr>oc_id = of_nat (Suc ?n), oc_generation = g, oc_cell = ?n\<rparr>]) (tr_calls (sy_rt s))"
    unfolding calls_def by (auto simp: begin_call_def Let_def all(2) add.commute)
  have live: "live_calls ?s q = live_calls s q @ (if q = p then
      [\<lparr>oc_id = of_nat (Suc ?n), oc_generation = g, oc_cell = ?n\<rparr>] else [])" for q
    by (simp add: live_calls_def eqs(1))
  show "bt_ok (tr_calls (sy_rt ?s)) \<and> tr_next_call (sy_rt ?s) = of_nat (length (tr_call_flags (sy_rt ?s))) \<and>
     distinct (map (lc_cell \<circ> fst) (sy_scopes ?s)) \<and>
     (\<forall>(sc, g)\<in>set (sy_scopes ?s). lc_cell sc < length (tr_call_flags (sy_rt ?s)) \<and> lc_id sc = task_id (lc_cell sc)) \<and>
     (\<forall>p. bt_get (tr_calls (sy_rt ?s)) p = (if live_calls ?s p = [] then None else Some (live_calls ?s p)))"
    unfolding live using all(1,3,4) len eqs calls
    by (auto simp: bt_ok_insert bt_get_insert all(5) task_id_def simp del: of_nat_Suc)
qed

lemma finish_call_listed:
  assumes ok: "calls_listed s" and scope: "(scope, g) \<in> set (sy_scopes s)"
  shows "calls_listed (s\<lparr>sy_rt := finish_call (lc_plugin scope) (lc_id scope) (sy_rt s),
    sy_scopes := remove1 (scope, g) (sy_scopes s)\<rparr>)"
  unfolding calls_listed_def
proof (intro impI)
  let ?s = "s\<lparr>sy_rt := finish_call (lc_plugin scope) (lc_id scope) (sy_rt s), sy_scopes := remove1 (scope, g) (sy_scopes s)\<rparr>"
  let ?n = "length (tr_call_flags (sy_rt s))"
  assume "length (tr_call_flags (sy_rt ?s)) < 2 ^ 64"
  moreover have flags: "tr_call_flags (sy_rt ?s) = tr_call_flags (sy_rt s)" "tr_next_call (sy_rt ?s) = tr_next_call (sy_rt s)"
    by (auto simp: finish_call_def Let_def split: option.splits)
  ultimately have small: "?n < 2 ^ 64" by simp
  with ok have all: "bt_ok (tr_calls (sy_rt s))" "tr_next_call (sy_rt s) = of_nat ?n"
      "distinct (map (lc_cell \<circ> fst) (sy_scopes s))"
      "\<And>sc g. (sc, g) \<in> set (sy_scopes s) \<Longrightarrow> lc_cell sc < ?n \<and> lc_id sc = task_id (lc_cell sc)"
      "\<And>q. bt_get (tr_calls (sy_rt s)) q = (if live_calls s q = [] then None else Some (live_calls s q))"
    unfolding calls_listed_def by auto
  have inj: "inj_on (lc_cell \<circ> fst) (set (sy_scopes s))" using all(3) by (simp add: distinct_map)
  have "distinct (sy_scopes s)" using all(3) by (simp add: distinct_map)
  have other: "lc_id sc = lc_id scope \<longleftrightarrow> (sc, g') = (scope, g)" if "(sc, g') \<in> set (sy_scopes s)" for sc g'
  proof -
    have "lc_id sc = lc_id scope \<longleftrightarrow> lc_cell sc = lc_cell scope"
      using all(4) [OF that] all(4) [OF scope] task_id_inj [OF small] by metis
    also have "\<dots> \<longleftrightarrow> (sc, g') = (scope, g)"
      using inj_onD [OF inj _ that scope] by auto
    finally show ?thesis .
  qed
  have removed: "remove1 (scope, g) (sy_scopes s) = filter (\<lambda>(sc, g'). lc_id sc \<noteq> lc_id scope) (sy_scopes s)"
    using other by (auto simp: distinct_remove1_removeAll [OF \<open>distinct (sy_scopes s)\<close>] removeAll_filter_not_eq
        intro!: filter_cong)
  have live: "live_calls ?s q = filter (\<lambda>c. oc_id c \<noteq> lc_id scope) (live_calls s q)" for q
    by (auto simp: live_calls_def removed filter_map o_def case_prod_unfold intro!: arg_cong [where f = "map _"] filter_cong)
  have unaffected: "live_calls ?s q = live_calls s q" if "q \<noteq> lc_plugin scope" for q
    unfolding live by (rule filter_True) (use other that in \<open>auto simp: live_calls_def\<close>)
  define left where "left = live_calls ?s"
  have "bt_get (tr_calls (finish_call (lc_plugin scope) (lc_id scope) (sy_rt s))) q =
      (if left q = [] then None else Some (left q))" for q
    using unaffected [of q, folded left_def] live [of q, folded left_def] unfolding finish_call_def Let_def
    by (cases "q = lc_plugin scope")
      (simp_all add: all(5) bt_get_insert bt_get_remove split: option.splits)
  then have "bt_get (tr_calls (sy_rt ?s)) q = (if live_calls ?s q = [] then None else Some (live_calls ?s q))" for q
    by (simp add: left_def)
  moreover have "bt_ok (tr_calls (sy_rt ?s))"
    using all(1) by (auto simp: finish_call_def Let_def bt_ok_insert bt_ok_remove split: option.splits)
  ultimately show "bt_ok (tr_calls (sy_rt ?s)) \<and> tr_next_call (sy_rt ?s) = of_nat (length (tr_call_flags (sy_rt ?s))) \<and>
     distinct (map (lc_cell \<circ> fst) (sy_scopes ?s)) \<and>
     (\<forall>(sc, g)\<in>set (sy_scopes ?s). lc_cell sc < length (tr_call_flags (sy_rt ?s)) \<and> lc_id sc = task_id (lc_cell sc)) \<and>
     (\<forall>p. bt_get (tr_calls (sy_rt ?s)) p = (if live_calls ?s p = [] then None else Some (live_calls ?s p)))"
    unfolding flags using all(2-4) by (auto simp: removed distinct_map_filter)
qed

lemma calls_step: "task_step s s' \<Longrightarrow> calls_listed s \<Longrightarrow> calls_listed s'"
proof (induction rule: task_step.induct)
  case (Spawn owner g parent requested s token handle rt)
  from spawn_flags [OF Spawn(1)] show ?case by (intro calls_same [OF Spawn(2)]) simp_all
next
  case (Share c s)
  show ?case by (intro calls_same [OF Share(3)]) simp_all
next
  case (Release c s)
  show ?case by (intro calls_same [OF Release(3)]) simp_all
next
  case (Cancel_Handle h s old rt)
  from swap_true_simps(5-8) [OF Cancel_Handle(3)] show ?case by (intro calls_same [OF Cancel_Handle(4)]) simp_all
next
  case (Cancel_Plugin p s ts rt)
  from take_owned_effect [OF Cancel_Plugin(1)] show ?case by (intro calls_same [OF Cancel_Plugin(2)]) simp_all
next
  case (Cancel_Generation p g s ts rt)
  from take_generation_effect(2) [OF Cancel_Generation(1)] show ?case by (intro calls_same [OF Cancel_Generation(2)]) auto
next
  case (Work s a rest a' rt)
  have "tr_calls rt = tr_calls (sy_rt s) \<and> tr_next_call rt = tr_next_call (sy_rt s) \<and> tr_call_flags rt = tr_call_flags (sy_rt s)"
    using Work(2) by (cases rule: agent_step_cases) (auto dest: swap_true_simps split: option.splits)
  then show ?case by (intro calls_same [OF Work(3)]) simp_all
next
  case (Begin_Call p g s scope rt)
  from begin_call_listed [OF Begin_Call(2,1)] show ?case .
next
  case (Finish_Call scope g s)
  from finish_call_listed [OF Finish_Call(2,1)] show ?case .
next
  case (Cancel_Calls p g s n rt)
  have same: "length (snd (swap_each cs fs)) = length fs" for cs fs
    by (induction cs fs rule: swap_each.induct) (simp_all add: case_prod_unfold Let_def)
  from Cancel_Calls(1) same show ?case
    by (intro calls_same [OF Cancel_Calls(2)]) (auto simp: cancel_calls_def case_prod_unfold Let_def)
qed

lemma calls_reachable: "task_reachable s \<Longrightarrow> calls_listed s"
  unfolding task_reachable_def
proof (induction rule: rtranclp_induct)
  case base
  show ?case by (simp add: calls_listed_def live_calls_def task_start_def task_runtime_default_def)
qed (use calls_step in blast)

text \<open>Cancelling the calls of a plugin in a generation, at any moment of any interleaving in
  which fewer than 2 to the 64 calls were begun, sets the flags of exactly the calls of that plugin
  and generation whose scope is still alive, and counts those that were not cancelled before.\<close>

lemma cancel_calls_is_exact:
  assumes "task_reachable s" "length (tr_call_flags (sy_rt s)) < 2 ^ 64" "cancel_calls p g (sy_rt s) = (n, rt)"
  shows "n = length (filter (\<lambda>(sc, g'). lc_plugin sc = p \<and> g' = g \<and> \<not> tr_call_flags (sy_rt s) ! lc_cell sc) (sy_scopes s)) \<and>
    (\<forall>c<length (tr_call_flags (sy_rt s)). tr_call_flags rt ! c \<longleftrightarrow> tr_call_flags (sy_rt s) ! c \<or>
       (\<exists>sc. (sc, g) \<in> set (sy_scopes s) \<and> lc_plugin sc = p \<and> lc_cell sc = c))"
proof -
  let ?mine = "filter (\<lambda>(sc, g'). lc_plugin sc = p \<and> g' = g) (sy_scopes s)"
  from calls_reachable [OF assms(1)] assms(2) have all: "distinct (map (lc_cell \<circ> fst) (sy_scopes s))"
      "\<And>sc g. (sc, g) \<in> set (sy_scopes s) \<Longrightarrow> lc_cell sc < length (tr_call_flags (sy_rt s))"
      "bt_get (tr_calls (sy_rt s)) p = (if live_calls s p = [] then None else Some (live_calls s p))"
    unfolding calls_listed_def by auto
  have "map oc_cell (filter (\<lambda>c. oc_generation c = g) (live_calls s p)) = map (lc_cell \<circ> fst) ?mine"
    by (auto simp: live_calls_def filter_map o_def case_prod_unfold intro!: arg_cong [where f = "map _"] filter_cong)
  moreover have "(case bt_get (tr_calls (sy_rt s)) p of Some cs \<Rightarrow> cs | None \<Rightarrow> []) = live_calls s p"
    by (simp add: all(3))
  ultimately have cells: "cancel_calls p g (sy_rt s) =
      (let (n, fs) = swap_each (map (lc_cell \<circ> fst) ?mine) (tr_call_flags (sy_rt s)) in (n, (sy_rt s)\<lparr>tr_call_flags := fs\<rparr>))"
    by (simp add: cancel_calls_def Let_def)
  have "swap_each (map (lc_cell \<circ> fst) ?mine) (tr_call_flags (sy_rt s)) =
      (length (filter (\<lambda>c. \<not> tr_call_flags (sy_rt s) ! c) (map (lc_cell \<circ> fst) ?mine)),
       map (\<lambda>c. tr_call_flags (sy_rt s) ! c \<or> c \<in> set (map (lc_cell \<circ> fst) ?mine)) [0..<length (tr_call_flags (sy_rt s))])"
    using all(1,2) by (intro swap_each_count) (auto simp: distinct_map_filter list_all_iff)
  with cells assms(3) have n: "n = length (filter (\<lambda>c. \<not> tr_call_flags (sy_rt s) ! c) (map (lc_cell \<circ> fst) ?mine))"
    and fs: "tr_call_flags rt = map (\<lambda>c. tr_call_flags (sy_rt s) ! c \<or> c \<in> set (map (lc_cell \<circ> fst) ?mine))
      [0..<length (tr_call_flags (sy_rt s))]"
    by auto
  have "n = length (filter (\<lambda>(sc, g'). lc_plugin sc = p \<and> g' = g \<and> \<not> tr_call_flags (sy_rt s) ! lc_cell sc) (sy_scopes s))"
    unfolding n by (auto simp: filter_map o_def case_prod_unfold conj_ac intro!: arg_cong [where f = length] filter_cong)
  then show ?thesis by (force simp: fs image_iff)
qed

lemma cancel_calls_is_exact_witness:
  "\<exists>s rt. task_reachable s \<and> cancel_calls ''p'' None (sy_rt s) = (1, rt) \<and> tr_call_flags rt ! 0"
proof -
  define scope where "scope = \<lparr>lc_plugin = ''p'', lc_id = 1, lc_cell = 0\<rparr>"
  define s where "s = task_start\<lparr>sy_rt := task_runtime_default\<lparr>tr_next_call := 1, tr_call_flags := [False],
    tr_calls := [(''p'', [\<lparr>oc_id = 1, oc_generation = None, oc_cell = 0\<rparr>])]\<rparr>, sy_scopes := [(scope, None)]\<rparr>"
  have "task_step task_start s"
    using Begin_Call [of "''p''" None task_start] unfolding s_def scope_def
    by (simp add: task_start_def task_runtime_default_def begin_call_def)
  then have reach: "task_reachable s" unfolding task_reachable_def by blast
  obtain n rt where c: "cancel_calls ''p'' None (sy_rt s) = (n, rt)" by fastforce
  have small: "length (tr_call_flags (sy_rt s)) < 2 ^ 64" by (simp add: s_def task_runtime_default_def)
  from cancel_calls_is_exact [OF reach small c] have "n = 1 \<and> tr_call_flags rt ! 0"
    by (simp add: s_def scope_def task_runtime_default_def)
  with reach c show ?thesis by blast
qed

end
