(* ===== verification/Configuration.thy ===== *)
theory Configuration
  imports Values Authority "HOL-Library.Product_Lexorder"
begin

text \<open>
  Configuration contributions (\<open>phenix-core/src/configuration.rs\<close>): what a frontend offers is lowered
  into a contribution, and the contributions of all frontends are merged. For each namespace and contract
  version the contributions of the highest precedence win; if they differ in value or in the
  authority they are granted, the merge fails.

  A contract version is a 64-bit natural, a precedence an \<open>i32\<close>; the order of contributions is the lexicographic
  order of the key the code compares, which ends with the capabilities in ascending order.
\<close>

type_synonym config_namespace = string
type_synonym frontend_id = string

definition namespace_byte :: "char \<Rightarrow> bool" where
  "namespace_byte c \<longleftrightarrow> is_ascii_alphanumeric c \<or> c \<in> set ''._-:@''"

definition parse_namespace :: "string \<Rightarrow> string + config_namespace" where
  "parse_namespace s =
     (if s = [] then Inl ''configuration namespace must not be empty''
      else if \<not> list_all namespace_byte s then Inl ''configuration namespace contains unsupported characters''
      else Inr s)"

text \<open>
  \<open>s.trim().is_empty()\<close>: only white space, in UTF-8: the ASCII controls and space, and U+0085, U+00A0, U+1680,
  U+2000 to U+200A, U+2028, U+2029, U+202F, U+205F and U+3000.
\<close>

definition wide_space :: "nat \<Rightarrow> nat \<Rightarrow> nat \<Rightarrow> bool" where
  "wide_space a b c \<longleftrightarrow>
     a = 0xE1 \<and> b = 0x9A \<and> c = 0x80 \<or>
     a = 0xE2 \<and> b = 0x80 \<and> (0x80 \<le> c \<and> c \<le> 0x8A \<or> c \<in> {0xA8, 0xA9, 0xAF}) \<or>
     a = 0xE2 \<and> b = 0x81 \<and> c = 0x9F \<or>
     a = 0xE3 \<and> b = 0x80 \<and> c = 0x80"

fun is_blank :: "string \<Rightarrow> bool" where
  "is_blank [] \<longleftrightarrow> True"
| "is_blank [a] \<longleftrightarrow> byte_of a \<in> {9..13} \<union> {32}"
| "is_blank [a, b] \<longleftrightarrow> byte_of a = 0xC2 \<and> byte_of b \<in> {0x85, 0xA0} \<or> byte_of a \<in> {9..13} \<union> {32} \<and> is_blank [b]"
| "is_blank (a # b # c # s) \<longleftrightarrow>
     wide_space (byte_of a) (byte_of b) (byte_of c) \<and> is_blank s \<or>
     byte_of a = 0xC2 \<and> byte_of b \<in> {0x85, 0xA0} \<and> is_blank (c # s) \<or>
     byte_of a \<in> {9..13} \<union> {32} \<and> is_blank (b # c # s)"

subsection \<open>Contributions\<close>

record config_source =
  sr_frontend :: frontend_id
  sr_identity :: string
  sr_revision :: string

record config_contribution =
  cc_source :: config_source
  cc_namespace :: config_namespace
  cc_version :: nat
  cc_precedence :: int
  cc_value :: phx_value
  cc_requested :: authority

datatype source_class = Materialized | EnvironmentBinding

record frontend_metadata =
  fm_id :: frontend_id
  fm_version :: nat
  fm_kinds :: "string set"
  fm_namespaces :: "config_namespace set"
  fm_watch :: bool
  fm_required :: authority

record frontend_contribution =
  fc_kind :: string
  fc_identity :: string
  fc_revision :: string
  fc_class :: source_class
  fc_namespace :: config_namespace
  fc_version :: nat
  fc_precedence :: int
  fc_value :: phx_value
  fc_requested :: authority

datatype frontend_error =
  InvalidMetadataVersion
| InvalidContractVersion
| UnsupportedSourceKind string
| NamespaceNotExposed config_namespace
| MissingSourceIdentity
| MissingSourceRevision
| SourceAuthorityDenied
| EnvironmentBindingChangesSemantics

datatype merge_error =
  MergeContractVersion config_namespace
| MergeSourceIdentity config_namespace
| MergeSourceRevision config_namespace
| ConflictingContributions config_namespace nat int

definition lower_contribution ::
  "frontend_contribution \<Rightarrow> frontend_metadata \<Rightarrow> authority \<Rightarrow> frontend_error + config_contribution" where
  "lower_contribution c m ceiling =
     (if fm_version m = 0 then Inl InvalidMetadataVersion
      else if fc_version c = 0 then Inl InvalidContractVersion
      else if fc_kind c \<notin> fm_kinds m then Inl (UnsupportedSourceKind (fc_kind c))
      else if fc_namespace c \<notin> fm_namespaces m then Inl (NamespaceNotExposed (fc_namespace c))
      else if is_blank (fc_identity c) then Inl MissingSourceIdentity
      else if is_blank (fc_revision c) then Inl MissingSourceRevision
      else if \<not> permits_all ceiling (fm_required m) then Inl SourceAuthorityDenied
      else if fc_class c = EnvironmentBinding then Inl EnvironmentBindingChangesSemantics
      else Inr \<lparr>cc_source = \<lparr>sr_frontend = fm_id m, sr_identity = fc_identity c, sr_revision = fc_revision c\<rparr>,
             cc_namespace = fc_namespace c, cc_version = fc_version c, cc_precedence = fc_precedence c,
             cc_value = fc_value c, cc_requested = fc_requested c\<rparr>)"

subsection \<open>The merge\<close>

record attribution =
  at_source :: config_source
  at_requested :: authority

record resolved_contribution =
  rs_namespace :: config_namespace
  rs_version :: nat
  rs_value :: phx_value
  rs_attributions :: "attribution list"
  rs_granted :: authority

definition attribution_key :: "attribution \<Rightarrow> frontend_id \<times> string \<times> string \<times> capability_id list" where
  "attribution_key a =
     (sr_frontend (at_source a), sr_identity (at_source a), sr_revision (at_source a), capabilities (at_requested a))"

definition attribution_of :: "config_contribution \<Rightarrow> attribution" where
  "attribution_of c = \<lparr>at_source = cc_source c, at_requested = cc_requested c\<rparr>"

definition contribution_key ::
  "config_contribution \<Rightarrow> config_namespace \<times> nat \<times> int \<times> frontend_id \<times> string \<times> string \<times> capability_id list" where
  "contribution_key c = (cc_namespace c, cc_version c, - cc_precedence c, attribution_key (attribution_of c))"

definition validate_contribution :: "config_contribution \<Rightarrow> merge_error + unit" where
  "validate_contribution c =
     (if cc_version c = 0 then Inl (MergeContractVersion (cc_namespace c))
      else if is_blank (sr_identity (cc_source c)) then Inl (MergeSourceIdentity (cc_namespace c))
      else if is_blank (sr_revision (cc_source c)) then Inl (MergeSourceRevision (cc_namespace c))
      else Inr ())"

type_synonym merged = "(config_namespace \<times> nat, int \<times> resolved_contribution) btree"

definition entry_of :: "authority \<Rightarrow> config_contribution \<Rightarrow> resolved_contribution" where
  "entry_of ceiling c =
     \<lparr>rs_namespace = cc_namespace c, rs_version = cc_version c, rs_value = cc_value c,
      rs_attributions = [attribution_of c], rs_granted = attenuate ceiling (cc_requested c)\<rparr>"

definition merge_contribution :: "authority \<Rightarrow> merged \<Rightarrow> config_contribution \<Rightarrow> merge_error + merged" where
  "merge_contribution ceiling m c =
     (let k = (cc_namespace c, cc_version c); candidate = entry_of ceiling c
      in case bt_get m k of
           None \<Rightarrow> Inr (bt_insert k (cc_precedence c, candidate) m)
         | Some (current, e) \<Rightarrow>
             if cc_precedence c > current then Inr (bt_insert k (cc_precedence c, candidate) m)
             else if cc_precedence c = current then
               if \<not> value_eq (rs_value e) (rs_value candidate) \<or> rs_granted e \<noteq> rs_granted candidate then
                 Inl (ConflictingContributions (fst k) (snd k) (cc_precedence c))
               else if attribution_of c \<in> set (rs_attributions e) then Inr m
               else Inr (bt_insert k (current, e\<lparr>rs_attributions :=
                      sort_key attribution_key (rs_attributions e @ [attribution_of c])\<rparr>) m)
             else Inr m)"

definition try_resolve ::
  "config_contribution list \<Rightarrow> authority \<Rightarrow> merge_error + resolved_contribution list" where
  "try_resolve cs ceiling =
     rbind (try_each validate_contribution cs) (\<lambda>_.
     rbind (try_fold (merge_contribution ceiling) [] (sort_key contribution_key cs)) (\<lambda>m.
       Inr (map snd (bt_vals m))))"

text \<open>What the generation of a harness depends on: everything but the attributions.\<close>

definition semantic_payload ::
  "resolved_contribution list \<Rightarrow> (config_namespace \<times> nat \<times> phx_value \<times> authority) list" where
  "semantic_payload es = map (\<lambda>e. (rs_namespace e, rs_version e, rs_value e, rs_granted e)) es"

definition by_namespace ::
  "resolved_contribution list \<Rightarrow> (config_namespace, resolved_contribution list) btree" where
  "by_namespace es = foldl (\<lambda>m e. bt_insert (rs_namespace e)
     ((case bt_get m (rs_namespace e) of Some xs \<Rightarrow> xs | None \<Rightarrow> []) @ [e]) m) [] es"

subsection \<open>The contributions that win\<close>

definition group_key :: "config_contribution \<Rightarrow> config_namespace \<times> nat" where
  "group_key c = (cc_namespace c, cc_version c)"

definition winners :: "config_contribution set \<Rightarrow> config_namespace \<times> nat \<Rightarrow> config_contribution set" where
  "winners C k = {c \<in> C. group_key c = k \<and> (\<forall>d\<in>C. group_key d = k \<longrightarrow> cc_precedence d \<le> cc_precedence c)}"

text \<open>What the code's comparison of values means equality: no float that is a NaN or a zero of either sign.\<close>

definition exact_values :: "config_contribution set \<Rightarrow> bool" where
  "exact_values C \<longleftrightarrow> (\<forall>c\<in>C. \<forall>d\<in>C. value_eq (cc_value c) (cc_value d) \<longleftrightarrow> cc_value c = cc_value d)"

definition consistent :: "authority \<Rightarrow> config_contribution set \<Rightarrow> bool" where
  "consistent ceiling C \<longleftrightarrow> (\<forall>k. \<forall>c\<in>winners C k. \<forall>d\<in>winners C k. cc_value c = cc_value d \<and>
     attenuate ceiling (cc_requested c) = attenuate ceiling (cc_requested d))"

lemma consistentD: "consistent ceiling C \<Longrightarrow> c \<in> winners C k \<Longrightarrow> d \<in> winners C k \<Longrightarrow>
    cc_value c = cc_value d \<and> attenuate ceiling (cc_requested c) = attenuate ceiling (cc_requested d)"
  unfolding consistent_def by blast

definition describes :: "authority \<Rightarrow> config_contribution set \<Rightarrow> resolved_contribution \<Rightarrow> bool" where
  "describes ceiling W e \<longleftrightarrow>
     (\<forall>c\<in>W. rs_namespace e = cc_namespace c \<and> rs_version e = cc_version c \<and>
        rs_value e = cc_value c \<and> rs_granted e = attenuate ceiling (cc_requested c)) \<and>
     set (rs_attributions e) = attribution_of ` W \<and> distinct (rs_attributions e) \<and>
     sorted (map attribution_key (rs_attributions e))"

definition entry_ok ::
  "authority \<Rightarrow> config_contribution set \<Rightarrow> config_namespace \<times> nat \<Rightarrow> (int \<times> resolved_contribution) option \<Rightarrow> bool" where
  "entry_ok ceiling C k v \<longleftrightarrow> (case v of
     None \<Rightarrow> k \<notin> group_key ` C
   | Some (p, e) \<Rightarrow> winners C k \<noteq> {} \<and> (\<forall>c\<in>winners C k. cc_precedence c = p) \<and> describes ceiling (winners C k) e)"

definition merged_ok :: "authority \<Rightarrow> config_contribution set \<Rightarrow> merged \<Rightarrow> bool" where
  "merged_ok ceiling C m \<longleftrightarrow> bt_ok m \<and> (\<forall>k. entry_ok ceiling C k (bt_get m k))"

lemma winners_other: "k \<noteq> group_key c \<Longrightarrow> winners (insert c C) k = winners C k"
  by (auto simp: winners_def)

lemma winners_first:
  assumes "group_key c \<notin> group_key ` C"
  shows "winners (insert c C) (group_key c) = {c}"
proof -
  from assms have "group_key d \<noteq> group_key c" if "d \<in> C" for d using that by (metis imageI)
  then show ?thesis by (auto simp: winners_def)
qed

lemma winners_more:
  assumes "\<And>d. d \<in> C \<Longrightarrow> group_key d = group_key c \<Longrightarrow> cc_precedence c \<le> cc_precedence d"
    "d \<in> winners C (group_key c)"
  shows "winners (insert c C) (group_key c) =
    (if cc_precedence c = cc_precedence d then insert c (winners C (group_key c)) else winners C (group_key c))"
proof -
  from assms(2) have d: "d \<in> C" "group_key d = group_key c"
    "\<And>b. b \<in> C \<Longrightarrow> group_key b = group_key c \<Longrightarrow> cc_precedence b \<le> cc_precedence d"
    by (auto simp: winners_def)
  from assms(1) [OF d(1,2)] have le: "cc_precedence c \<le> cc_precedence d" .
  show ?thesis
  proof (cases "cc_precedence c = cc_precedence d")
    case True
    with d show ?thesis by (auto simp: winners_def)
  next
    case False
    with le have "cc_precedence c < cc_precedence d" by simp
    with d(1,2) assms(1) show ?thesis by (auto simp: winners_def dest: leD)
  qed
qed

lemma describes_one: "describes ceiling {c} (entry_of ceiling c)"
  by (simp add: describes_def entry_of_def)

lemma describes_more:
  assumes "describes ceiling W e" "d \<in> W" "cc_value c = rs_value e" "attenuate ceiling (cc_requested c) = rs_granted e"
    "group_key c = group_key d"
  shows "attribution_of c \<in> set (rs_attributions e) \<Longrightarrow> describes ceiling (insert c W) e"
    "attribution_of c \<notin> set (rs_attributions e) \<Longrightarrow> describes ceiling (insert c W) (e\<lparr>rs_attributions :=
       sort_key attribution_key (rs_attributions e @ [attribution_of c])\<rparr>)"
proof -
  have g: "cc_namespace c = cc_namespace d" "cc_version c = cc_version d" using assms(5) by (simp_all add: group_key_def)
  have ns: "rs_namespace e = cc_namespace d" "rs_version e = cc_version d" using assms(1,2) by (simp_all add: describes_def)
  show "attribution_of c \<in> set (rs_attributions e) \<Longrightarrow> describes ceiling (insert c W) e"
    using assms(1) g ns assms(3,4) [symmetric] by (simp add: describes_def insert_absorb)
  show "attribution_of c \<notin> set (rs_attributions e) \<Longrightarrow> describes ceiling (insert c W) (e\<lparr>rs_attributions :=
       sort_key attribution_key (rs_attributions e @ [attribution_of c])\<rparr>)"
    using assms(1) g ns assms(3,4) [symmetric] by (simp add: describes_def)
qed

lemma entry_ok_other: "k \<noteq> group_key c \<Longrightarrow> entry_ok ceiling (insert c C) k v = entry_ok ceiling C k v"
  by (simp add: entry_ok_def winners_other split: option.splits)

lemma merged_ok_entry: "merged_ok ceiling C m \<Longrightarrow> entry_ok ceiling C k (bt_get m k)"
  unfolding merged_ok_def by blast

lemma merged_ok_put:
  "merged_ok ceiling C m \<Longrightarrow> entry_ok ceiling (insert c C) (group_key c) (Some v) \<Longrightarrow>
     merged_ok ceiling (insert c C) (bt_insert (group_key c) v m)"
  by (auto simp: merged_ok_def bt_ok_insert bt_get_insert entry_ok_other)

lemma merged_ok_keep:
  "merged_ok ceiling C m \<Longrightarrow> entry_ok ceiling (insert c C) (group_key c) (bt_get m (group_key c)) \<Longrightarrow>
     merged_ok ceiling (insert c C) m"
  by (metis merged_ok_def entry_ok_other)

text \<open>One step, when no contribution seen so far is below the new one: it agrees with the winners of its group,
  or loses to them, or the merge stops.\<close>

lemma merge_step:
  assumes ok: "merged_ok ceiling C m" and exact: "exact_values (insert c C)"
    and below: "\<And>d. d \<in> C \<Longrightarrow> group_key d = group_key c \<Longrightarrow> cc_precedence c \<le> cc_precedence d"
  shows "case merge_contribution ceiling m c of Inr m' \<Rightarrow> merged_ok ceiling (insert c C) m'
    | Inl e \<Rightarrow> \<exists>d\<in>winners C (group_key c). cc_precedence d = cc_precedence c \<and>
        (cc_value c \<noteq> cc_value d \<or> attenuate ceiling (cc_requested c) \<noteq> attenuate ceiling (cc_requested d))"
proof (cases "bt_get m (group_key c)")
  case None
  moreover from ok have "entry_ok ceiling C (group_key c) (bt_get m (group_key c))" by (rule merged_ok_entry)
  ultimately have "group_key c \<notin> group_key ` C" by (simp add: entry_ok_def)
  then have "entry_ok ceiling (insert c C) (group_key c) (Some (cc_precedence c, entry_of ceiling c))"
    by (simp add: entry_ok_def winners_first describes_one)
  with merged_ok_put [OF ok this] None show ?thesis
    by (simp add: merge_contribution_def group_key_def Let_def)
next
  case (Some pe)
  obtain p e where pe: "pe = (p, e)" by force
  from ok have "entry_ok ceiling C (group_key c) (bt_get m (group_key c))" by (rule merged_ok_entry)
  with Some pe have w: "winners C (group_key c) \<noteq> {}" "\<forall>d\<in>winners C (group_key c). cc_precedence d = p"
    "describes ceiling (winners C (group_key c)) e"
    by (simp_all add: entry_ok_def)
  then obtain d where d: "d \<in> winners C (group_key c)" "cc_precedence d = p" by blast
  then have dC: "d \<in> C" "group_key d = group_key c" by (auto simp: winners_def)
  from below [OF dC] d(2) have le: "cc_precedence c \<le> p" by simp
  from w(3) d(1) have e: "rs_value e = cc_value d" "rs_granted e = attenuate ceiling (cc_requested d)"
    by (auto simp: describes_def)
  from exact dC(1) have veq: "value_eq (cc_value d) (cc_value c) \<longleftrightarrow> cc_value d = cc_value c"
    by (simp add: exact_values_def)
  have more: "winners (insert c C) (group_key c) =
      (if cc_precedence c = p then insert c (winners C (group_key c)) else winners C (group_key c))"
    using winners_more [OF below d(1)] d(2) by simp
  have step: "merge_contribution ceiling m c =
      (if cc_precedence c = p then
         if cc_value d \<noteq> cc_value c \<or> attenuate ceiling (cc_requested d) \<noteq> attenuate ceiling (cc_requested c) then
           Inl (ConflictingContributions (cc_namespace c) (cc_version c) (cc_precedence c))
         else if attribution_of c \<in> set (rs_attributions e) then Inr m
         else Inr (bt_insert (group_key c) (p, e\<lparr>rs_attributions :=
                      sort_key attribution_key (rs_attributions e @ [attribution_of c])\<rparr>) m)
       else Inr m)"
    using Some pe le veq e by (simp add: merge_contribution_def group_key_def Let_def entry_of_def)
  have keep: "entry_ok ceiling (insert c C) (group_key c) (Some v) \<Longrightarrow> v = (p, e) \<Longrightarrow> merged_ok ceiling (insert c C) m" for v
    using merged_ok_keep [OF ok] Some pe by simp
  note desc = describes_more [OF w(3) d(1), of c, unfolded e]
  show ?thesis
  proof (cases "cc_precedence c = p \<and> (cc_value d \<noteq> cc_value c \<or> attenuate ceiling (cc_requested d) \<noteq> attenuate ceiling (cc_requested c))")
    case True
    with step d show ?thesis by auto
  next
    case False
    then show ?thesis
      using step w more desc dC(2) keep [of "(p, e)"] merged_ok_put [OF ok, of c]
      by (cases "cc_precedence c = p") (simp_all add: entry_ok_def)
  qed
qed

definition no_higher :: "config_contribution \<Rightarrow> config_contribution \<Rightarrow> bool" where
  "no_higher d c \<longleftrightarrow> (group_key d = group_key c \<longrightarrow> cc_precedence c \<le> cc_precedence d)"

lemma sorted_no_higher: "sorted_wrt no_higher (sort_key contribution_key cs)"
proof -
  have "sorted_wrt (\<lambda>c d. contribution_key c \<le> contribution_key d) (sort_key contribution_key cs)"
    using sorted_sort_key [of contribution_key cs] by (simp add: sorted_map)
  then show ?thesis
    by (rule sorted_wrt_mono_rel [rotated]) (auto simp: no_higher_def contribution_key_def group_key_def less_eq_prod_def)
qed

lemma winners_last:
  assumes "d \<in> winners C (group_key c)" "cc_precedence d = cc_precedence c" "\<forall>x\<in>D. no_higher c x"
  shows "d \<in> winners (insert c C \<union> D) (group_key c)" "c \<in> winners (insert c C \<union> D) (group_key c)"
  using assms by (auto simp: winners_def no_higher_def)

lemma merge_fold:
  assumes "merged_ok ceiling C m" "sorted_wrt no_higher cs" "\<forall>d\<in>C. \<forall>c\<in>set cs. no_higher d c"
    "exact_values (C \<union> set cs)"
  shows "case try_fold (merge_contribution ceiling) m cs of
    Inr m' \<Rightarrow> merged_ok ceiling (C \<union> set cs) m' | Inl e \<Rightarrow> \<not> consistent ceiling (C \<union> set cs)"
  using assms
proof (induction cs arbitrary: C m)
  case Nil
  then show ?case by simp
next
  case (Cons c cs)
  have "exact_values (insert c C)" using Cons.prems(4) by (auto simp: exact_values_def)
  from merge_step [OF Cons.prems(1) this] Cons.prems(3)
  have step: "case merge_contribution ceiling m c of Inr m' \<Rightarrow> merged_ok ceiling (insert c C) m'
    | Inl e \<Rightarrow> \<exists>d\<in>winners C (group_key c). cc_precedence d = cc_precedence c \<and>
        (cc_value c \<noteq> cc_value d \<or> attenuate ceiling (cc_requested c) \<noteq> attenuate ceiling (cc_requested d))"
    by (simp add: no_higher_def)
  show ?case
  proof (cases "merge_contribution ceiling m c")
    case (Inl e)
    with step obtain d where d: "d \<in> winners C (group_key c)" "cc_precedence d = cc_precedence c"
      "cc_value c \<noteq> cc_value d \<or> attenuate ceiling (cc_requested c) \<noteq> attenuate ceiling (cc_requested d)"
      by auto
    from winners_last [OF d(1,2), of "set cs"] Cons.prems(2)
    have "\<not> consistent ceiling (insert c C \<union> set cs)" using d(3) consistentD by simp blast
    with Inl show ?thesis by simp
  next
    case (Inr m')
    with step have "merged_ok ceiling (insert c C) m'" by simp
    from Cons.IH [OF this] Cons.prems(2-4) Inr show ?thesis
      by (cases "try_fold (merge_contribution ceiling) m' cs") simp_all
  qed
qed

lemma merged_consistent: "merged_ok ceiling C m \<Longrightarrow> consistent ceiling C"
proof -
  assume ok: "merged_ok ceiling C m"
  have "cc_value c = cc_value d \<and> attenuate ceiling (cc_requested c) = attenuate ceiling (cc_requested d)"
    if "c \<in> winners C k" "d \<in> winners C k" for c d k
  proof -
    from that have "k \<in> group_key ` C" by (auto simp: winners_def)
    with merged_ok_entry [OF ok, of k] obtain e where "describes ceiling (winners C k) e"
      by (auto simp: entry_ok_def split: option.splits)
    with that show ?thesis by (metis describes_def)
  qed
  then show ?thesis unfolding consistent_def by blast
qed

definition valid_contribution :: "config_contribution \<Rightarrow> bool" where
  "valid_contribution c \<longleftrightarrow>
     cc_version c \<noteq> 0 \<and> \<not> is_blank (sr_identity (cc_source c)) \<and> \<not> is_blank (sr_revision (cc_source c))"

lemma validate_contribution_ok: "is_ok (validate_contribution c) \<longleftrightarrow> valid_contribution c"
  by (simp add: validate_contribution_def valid_contribution_def)

text \<open>The entries of a merge: one for each group, in ascending order of namespace and version.\<close>

definition resolution :: "authority \<Rightarrow> config_contribution set \<Rightarrow> resolved_contribution list \<Rightarrow> bool" where
  "resolution ceiling C es \<longleftrightarrow>
     map (\<lambda>e. (rs_namespace e, rs_version e)) es = sorted_list_of_set (group_key ` C) \<and>
     (\<forall>e\<in>set es. describes ceiling (winners C (rs_namespace e, rs_version e)) e)"

lemma merged_entries:
  assumes ok: "merged_ok ceiling C m" and fin: "finite C"
  shows "resolution ceiling C (map snd (bt_vals m))"
proof -
  have entry: "winners C k \<noteq> {} \<and> describes ceiling (winners C k) e \<and> (rs_namespace e, rs_version e) = k"
    if "(k, p, e) \<in> set m" for k p e
  proof -
    from ok that have "bt_get m k = Some (p, e)" by (simp add: merged_ok_def bt_get_iff)
    with merged_ok_entry [OF ok, of k] have w: "winners C k \<noteq> {}" "describes ceiling (winners C k) e"
      by (simp_all add: entry_ok_def)
    then obtain c where "c \<in> winners C k" by blast
    with w show ?thesis by (auto simp: describes_def winners_def group_key_def)
  qed
  have "map (\<lambda>e. (rs_namespace e, rs_version e)) (map snd (bt_vals m)) = map fst m"
    using entry by (auto simp: bt_vals_def)
  moreover have "set (map fst m) = group_key ` C"
  proof (rule set_eqI)
    fix k
    have "k \<in> set (map fst m) \<longleftrightarrow> bt_get m k \<noteq> None" by (simp add: bt_get_None)
    moreover have "winners C k \<noteq> {} \<Longrightarrow> k \<in> group_key ` C" by (auto simp: winners_def)
    ultimately show "k \<in> set (map fst m) \<longleftrightarrow> k \<in> group_key ` C"
      using merged_ok_entry [OF ok, of k]
      by (cases "bt_get m k") (auto simp: entry_ok_def)
  qed
  moreover have "sorted_wrt (<) (map fst m)" using ok by (simp add: merged_ok_def bt_ok_def)
  ultimately show ?thesis
    using entry sorted_list_of_set.idem_if_sorted_distinct [of "map fst m"]
    by (auto simp: resolution_def bt_vals_def strict_sorted_iff)
qed

lemma highest_precedence_set:
  assumes "exact_values (set cs)"
  shows "case try_resolve cs ceiling of
    Inr es \<Rightarrow> list_all valid_contribution cs \<and> consistent ceiling (set cs) \<and> resolution ceiling (set cs) es
  | Inl e \<Rightarrow> \<not> (list_all valid_contribution cs \<and> consistent ceiling (set cs))"
proof (cases "try_each validate_contribution cs")
  case (Inl e)
  then have "\<not> list_all valid_contribution cs"
    by (metis is_ok_simps(1) list_all_iff try_each_is_ok validate_contribution_ok)
  with Inl show ?thesis by (simp add: try_resolve_def)
next
  case (Inr u)
  then have valid: "list_all valid_contribution cs"
    by (metis is_ok_simps(2) list_all_iff try_each_is_ok validate_contribution_ok)
  have "merged_ok ceiling {} []" by (simp add: merged_ok_def entry_ok_def)
  from merge_fold [OF this sorted_no_higher, of cs] assms
  have fold: "case try_fold (merge_contribution ceiling) [] (sort_key contribution_key cs) of
      Inr m' \<Rightarrow> merged_ok ceiling (set cs) m' | Inl e \<Rightarrow> \<not> consistent ceiling (set cs)"
    by (simp cong: sum.case_cong)
  then show ?thesis
    using Inr valid merged_consistent merged_entries [of ceiling "set cs"]
    by (cases "try_fold (merge_contribution ceiling) [] (sort_key contribution_key cs)") (auto simp: try_resolve_def)
qed

text \<open>C21: the merge of the contributions of all frontends succeeds exactly when each is valid and, for every
  namespace and contract version, those of the highest precedence agree in value and in the authority they
  are granted. Its entries are then one for each namespace and version, in ascending order: the value and the
  granted authority of the contributions that win, attributed to exactly these, sorted and without duplicates.\<close>

theorem highest_precedence_wins:
  assumes "exact_values (set cs)"
  shows "case try_resolve cs ceiling of
    Inr es \<Rightarrow> list_all valid_contribution cs \<and> consistent ceiling (set cs) \<and> resolution ceiling (set cs) es
  | Inl e \<Rightarrow> \<not> (list_all valid_contribution cs \<and> consistent ceiling (set cs))"
  using highest_precedence_set [OF assms] .

definition sample_setting :: "string \<Rightarrow> int \<Rightarrow> phx_value \<Rightarrow> config_contribution" where
  "sample_setting frontend p v =
     \<lparr>cc_source = \<lparr>sr_frontend = frontend, sr_identity = ''a'', sr_revision = ''1''\<rparr>, cc_namespace = ''n'', cc_version = 1,
      cc_precedence = p, cc_value = v, cc_requested = {''x''}\<rparr>"

theorem highest_precedence_wins_witness:
  "\<exists>es. try_resolve [sample_setting ''f'' 0 VUnit, sample_setting ''g'' 1 (VBool True)] {''x'', ''y''} = Inr es"
proof -
  let ?cs = "[sample_setting ''f'' 0 VUnit, sample_setting ''g'' 1 (VBool True)]"
  have "exact_values (set ?cs)" by (simp add: exact_values_def sample_setting_def)
  moreover have "winners (set ?cs) k \<subseteq> {sample_setting ''g'' 1 (VBool True)}" for k
    by (auto simp: winners_def sample_setting_def group_key_def)
  then have "consistent {''x'', ''y''} (set ?cs)" unfolding consistent_def by blast
  moreover have "list_all valid_contribution ?cs"
    by (simp add: valid_contribution_def sample_setting_def byte_of_def)
  ultimately show ?thesis
    using highest_precedence_wins [of ?cs "{''x'', ''y''}"] by (auto split: sum.splits)
qed

subsection \<open>The order of the frontends does not matter\<close>

lemma attribution_key_inj:
  assumes "attribution_key a = attribution_key b" "finite (at_requested a)" "finite (at_requested b)"
  shows "a = b"
proof -
  from assms have "at_requested a = at_requested b"
    by (simp add: attribution_key_def capabilities_def) (metis set_sorted_list_of_set)
  moreover have "at_source a = at_source b"
    using assms(1) by (auto simp: attribution_key_def intro: config_source.equality)
  ultimately show ?thesis by (auto intro: attribution.equality)
qed

definition finite_requests :: "config_contribution set \<Rightarrow> bool" where
  "finite_requests C \<longleftrightarrow> (\<forall>c\<in>C. finite (cc_requested c))"

lemma describes_unique:
  assumes "describes ceiling W d" "describes ceiling W e" "W \<noteq> {}" "finite_requests W"
  shows "d = e"
proof -
  let ?a = "rs_attributions d" and ?b = "rs_attributions e"
  from assms(1,2) have attr: "set ?a = set ?b" "distinct ?a" "distinct ?b" "sorted (map attribution_key ?a)"
    "sorted (map attribution_key ?b)" "set ?a = attribution_of ` W"
    by (simp_all add: describes_def)
  have "finite (at_requested a)" if "a \<in> set ?a" for a
    using that assms(4) unfolding attr(6) by (auto simp: finite_requests_def attribution_of_def)
  with attr(1) have inj: "inj_on attribution_key (set ?a \<union> set ?b)"
    by (simp add: inj_on_def attribution_key_inj)
  from attr inj have "map attribution_key ?a = map attribution_key ?b"
    by (intro sorted_distinct_set_unique) (auto simp: distinct_map intro: inj_on_subset)
  from map_inj_on [OF this inj] have "?a = ?b" .
  moreover from assms(3) obtain c where "c \<in> W" by blast
  ultimately show ?thesis
    using assms(1,2) by (auto simp: describes_def intro!: resolved_contribution.equality)
qed

lemma group_has_winner: "finite C \<Longrightarrow> k \<in> group_key ` C \<Longrightarrow> winners C k \<noteq> {}"
proof -
  assume "finite C" "k \<in> group_key ` C"
  then have g: "finite {c \<in> C. group_key c = k}" "{c \<in> C. group_key c = k} \<noteq> {}" by auto
  define best where "best = Max (cc_precedence ` {c \<in> C. group_key c = k})"
  from g have "best \<in> cc_precedence ` {c \<in> C. group_key c = k}" unfolding best_def by simp
  then obtain c where c: "c \<in> C" "group_key c = k" "cc_precedence c = best" by auto
  have "cc_precedence d \<le> best" if "d \<in> C" "group_key d = k" for d
    using g(1) that by (auto simp: best_def intro: Max_ge)
  with c have "c \<in> winners C k" by (simp add: winners_def)
  then show ?thesis by blast
qed

lemma resolution_unique:
  assumes "resolution ceiling C es" "resolution ceiling C fs" "finite_requests C" "finite C"
  shows "es = fs"
proof (rule nth_equalityI)
  let ?key = "\<lambda>e. (rs_namespace e, rs_version e)"
  from assms(1,2) have keys: "map ?key es = map ?key fs" by (simp add: resolution_def)
  then show len: "length es = length fs" by (metis length_map)
  fix i assume i: "i < length es"
  with len keys have k: "?key (es ! i) = ?key (fs ! i)" by (metis (no_types, lifting) nth_map)
  have "?key (es ! i) \<in> set (map ?key es)" using i by auto
  with assms(1,4) have "?key (es ! i) \<in> group_key ` C" by (simp add: resolution_def)
  with assms(4) have "winners C (?key (es ! i)) \<noteq> {}" by (intro group_has_winner)
  moreover have "finite_requests (winners C (?key (es ! i)))"
    using assms(3) by (auto simp: finite_requests_def winners_def)
  moreover have "describes ceiling (winners C (?key (es ! i))) (es ! i)" using assms(1) i by (auto simp: resolution_def)
  moreover have "describes ceiling (winners C (?key (es ! i))) (fs ! i)"
    using assms(2) i len k by (auto simp: resolution_def)
  ultimately show "es ! i = fs ! i" by (metis describes_unique)
qed

lemma try_resolve_set:
  assumes "set cs = set ds" "exact_values (set cs)" "finite_requests (set cs)" "try_resolve cs ceiling = Inr es"
  shows "try_resolve ds ceiling = Inr es"
proof -
  from highest_precedence_set [OF assms(2), of ceiling] assms(4)
  have cs: "list_all valid_contribution cs \<and> consistent ceiling (set cs) \<and> resolution ceiling (set cs) es" by simp
  with assms(1) have "list_all valid_contribution ds" "consistent ceiling (set ds)" by (simp_all add: list_all_iff)
  with highest_precedence_set [of ds ceiling] assms(1,2)
  obtain fs where "try_resolve ds ceiling = Inr fs" "resolution ceiling (set ds) fs" by (auto split: sum.splits)
  moreover from this cs assms(1,3) have "es = fs" by (auto intro: resolution_unique)
  ultimately show ?thesis by simp
qed

text \<open>neither the order in which the frontends are asked nor a contribution offered twice changes the
  outcome: two lists of the same contributions resolve to the same entries or both fail.\<close>

lemma same_contributions_same_configuration:
  assumes "set cs = set ds" "exact_values (set cs)" "finite_requests (set cs)"
  shows "try_resolve cs ceiling = Inr es \<longleftrightarrow> try_resolve ds ceiling = Inr es"
  using try_resolve_set [of cs ds ceiling es] try_resolve_set [of ds cs ceiling es] assms by metis

lemma same_contributions_same_configuration_witness:
  "\<forall>es. try_resolve [sample_setting ''f'' 0 VUnit, sample_setting ''g'' 1 (VBool True)] {''x''} = Inr es \<longleftrightarrow>
   try_resolve [sample_setting ''g'' 1 (VBool True), sample_setting ''f'' 0 VUnit,
     sample_setting ''g'' 1 (VBool True)] {''x''} = Inr es"
proof (intro allI, rule same_contributions_same_configuration)
  show "exact_values (set [sample_setting ''f'' 0 VUnit, sample_setting ''g'' 1 (VBool True)])"
    by (simp add: exact_values_def sample_setting_def)
  show "finite_requests (set [sample_setting ''f'' 0 VUnit, sample_setting ''g'' 1 (VBool True)])"
    by (simp add: finite_requests_def sample_setting_def)
qed (simp add: insert_commute)

subsection \<open>What a frontend may contribute\<close>

lemma lower_contribution_ok:
  "lower_contribution c m ceiling = Inr r \<longleftrightarrow>
     fm_version m \<noteq> 0 \<and> fc_kind c \<in> fm_kinds m \<and> fc_namespace c \<in> fm_namespaces m \<and>
     permits_all ceiling (fm_required m) \<and> fc_class c = Materialized \<and> valid_contribution r \<and>
     r = \<lparr>cc_source = \<lparr>sr_frontend = fm_id m, sr_identity = fc_identity c, sr_revision = fc_revision c\<rparr>,
          cc_namespace = fc_namespace c, cc_version = fc_version c, cc_precedence = fc_precedence c,
          cc_value = fc_value c, cc_requested = fc_requested c\<rparr>"
  by (cases "fc_class c") (auto simp: lower_contribution_def valid_contribution_def)

text \<open>Whatever a frontend contributes lies in a namespace it exposes, comes from a source kind it accepts and is
  attributed to it; it is valid for the merge, and its share of a resolved entry never exceeds the ceiling.\<close>

lemma frontends_stay_in_their_namespaces:
  assumes "\<forall>c\<in>set cs. \<exists>f m. m \<in> set ms \<and> lower_contribution f m ceiling = Inr c" "exact_values (set cs)"
    "try_resolve cs ceiling = Inr es" "e \<in> set es" "a \<in> set (rs_attributions e)"
  shows "rs_granted e \<subseteq> ceiling \<and> rs_granted e \<subseteq> at_requested a \<and>
    (\<exists>m\<in>set ms. sr_frontend (at_source a) = fm_id m \<and> rs_namespace e \<in> fm_namespaces m \<and> fm_required m \<subseteq> ceiling)"
proof -
  from highest_precedence_set [OF assms(2), of ceiling] assms(3,4)
  have "describes ceiling (winners (set cs) (rs_namespace e, rs_version e)) e" by (simp add: resolution_def)
  with assms(5) obtain c where c: "c \<in> winners (set cs) (rs_namespace e, rs_version e)" "a = attribution_of c"
    "rs_granted e = attenuate ceiling (cc_requested c)" "rs_namespace e = cc_namespace c"
    unfolding describes_def by blast
  then have "c \<in> set cs" by (simp add: winners_def)
  with assms(1) obtain f m where "m \<in> set ms" "lower_contribution f m ceiling = Inr c" by blast
  with c show ?thesis
    by (auto simp: lower_contribution_ok attribution_of_def permits_all_subset)
qed

definition sample_frontend :: frontend_metadata where
  "sample_frontend = \<lparr>fm_id = ''f'', fm_version = 1, fm_kinds = {''file''}, fm_namespaces = {''n''}, fm_watch = False,
     fm_required = {}\<rparr>"

definition sample_offer :: frontend_contribution where
  "sample_offer = \<lparr>fc_kind = ''file'', fc_identity = ''a'', fc_revision = ''1'', fc_class = Materialized,
     fc_namespace = ''n'', fc_version = 1, fc_precedence = 0, fc_value = VUnit, fc_requested = {''x''}\<rparr>"

lemma frontends_stay_in_their_namespaces_witness:
  "\<exists>e. try_resolve [sample_setting ''f'' 0 VUnit] {''x'', ''y''} = Inr [e] \<and> rs_granted e \<subseteq> {''x'', ''y''}"
proof -
  let ?c = "sample_setting ''f'' 0 VUnit" and ?ceiling = "{''x'', ''y''}"
  define e where "e = entry_of ?ceiling ?c"
  have low: "lower_contribution sample_offer sample_frontend ?ceiling = Inr ?c"
    by (simp add: lower_contribution_def sample_offer_def sample_frontend_def sample_setting_def byte_of_def
        permits_all_subset)
  have run: "try_resolve [?c] ?ceiling = Inr [e]"
    by (simp add: try_resolve_def validate_contribution_def sample_setting_def byte_of_def merge_contribution_def
        bt_vals_def e_def Let_def)
  have "attribution_of ?c \<in> set (rs_attributions e)" by (simp add: e_def entry_of_def)
  moreover have "exact_values (set [?c])" by (simp add: exact_values_def sample_setting_def)
  ultimately have "rs_granted e \<subseteq> ?ceiling"
    using frontends_stay_in_their_namespaces [of "[?c]" "[sample_frontend]" ?ceiling "[e]" e] low run by auto
  with run show ?thesis by blast
qed

end
