(* ===== verification/Metadata.thy ===== *)
theory Metadata
  imports Manifest Configuration
begin

text \<open>
  Composition metadata (\<open>phenix-core/src/composition_metadata.rs\<close>): what a plugin package, a component and a
  skill or resource declare before anything is activated, and the checks each of them must pass on its own.

  A \<open>BTreeSet\<close> is a set; where the code walks one to report the first offender the model walks its elements in
  ascending order. \<open>Metadata_Input\<close> holds the checks across packages, components and resources.
\<close>

type_synonym skill_id = string
type_synonym callable_id = string

definition kernel_compatibility_version :: nat where
  "kernel_compatibility_version = 1"

datatype host_kind = EmbeddedRust | EmbeddedLua | ExternalIpc | Wasm | Remote

datatype state_class = Stateless | Ephemeral | Durable

datatype reload_policy = Retain | Restart | DrainAndRestart | MigrationRequired

record compatibility =
  co_minimum :: nat
  co_maximum :: "nat option"

record migration_metadata =
  mm_namespace :: resource_namespace
  mm_from :: nat
  mm_to :: nat

record package_metadata =
  pk_manifest :: plugin_manifest
  pk_components :: "component_id set"
  pk_resources :: "string set"
  pk_skills :: "skill_id set"
  pk_compatibility :: compatibility
  pk_namespaces :: "resource_namespace set"
  pk_migrations :: "migration_metadata list"
  pk_frontends :: "frontend_id set"
  pk_hosts :: "host_kind set"
  pk_reload :: reload_policy

record component_metadata =
  cx_manifest :: component_manifest
  cx_version :: nat
  cx_contracts :: "config_namespace set"
  cx_requested :: "capability_id set"
  cx_state :: state_class
  cx_reload :: reload_policy
  cx_interposition :: "interface_id set"
  cx_events :: "event_type_id set"
  cx_controllers :: "string set"

record resource_metadata =
  rm_identity :: string
  rm_version :: nat
  rm_content :: string
  rm_dependencies :: "string set"
  rm_conflicts :: "string set"
  rm_triggers :: "string set"
  rm_scope :: string
  rm_priority :: int
  rm_tools :: "callable_id set"
  rm_interfaces :: "interface_id set"
  rm_capabilities :: "capability_id set"
  rm_compatibility :: compatibility
  rm_invalidation :: "string set"
  rm_reload :: reload_policy

datatype metadata_error =
  ZeroVersion
| InvalidCompatibilityRange
| IncompatibleKernelVersion nat nat "nat option"
| DurableNamespaceOutsideRuntimeManifest resource_namespace
| MigrationOutsideDeclaredNamespace resource_namespace
| InvalidMigrationRange resource_namespace
| MissingComponentHost
| ResourceOnlyPackageHasComponents
| EmptyPackagedResource
| RequestedCapabilityExceedsMaximum capability_id
| EmptyControllerContribution
| MissingIdentity
| MissingContentIdentity
| MissingScope
| EmptyDependency
| EmptyConflict
| EmptyTrigger
| EmptyInvalidationTarget
| ResourceIdentityMismatch string string
| DependencyConflict string
| DuplicateComponentImport interface_id
| DuplicateComponentExport interface_id

subsection \<open>The checks\<close>

definition validate_compatibility :: "compatibility \<Rightarrow> metadata_error + unit" where
  "validate_compatibility c =
     (if co_minimum c = 0 then Inl ZeroVersion
      else if (\<exists>m. co_maximum c = Some m \<and> m < co_minimum c) then Inl InvalidCompatibilityRange
      else if kernel_compatibility_version < co_minimum c \<or>
          (\<exists>m. co_maximum c = Some m \<and> kernel_compatibility_version > m) then
        Inl (IncompatibleKernelVersion kernel_compatibility_version (co_minimum c) (co_maximum c))
      else Inr ())"

definition validate_migration :: "package_metadata \<Rightarrow> migration_metadata \<Rightarrow> metadata_error + unit" where
  "validate_migration p m =
     (if mm_namespace m \<notin> pk_namespaces p then Inl (MigrationOutsideDeclaredNamespace (mm_namespace m))
      else if mm_from m \<ge> mm_to m then Inl (InvalidMigrationRange (mm_namespace m))
      else Inr ())"

definition validate_package :: "package_metadata \<Rightarrow> metadata_error + unit" where
  "validate_package p =
     (if pm_version (pk_manifest p) = 0 then Inl ZeroVersion
      else rbind (validate_compatibility (pk_compatibility p)) (\<lambda>_.
        if pm_execution (pk_manifest p) = ResourceOnly \<and> pk_components p \<noteq> {} then
          Inl ResourceOnlyPackageHasComponents
        else if pk_components p \<noteq> {} \<and> pk_hosts p = {} then Inl MissingComponentHost
        else if [] \<in> pk_resources p then Inl EmptyPackagedResource
        else rbind (try_each (\<lambda>ns.
            if ns \<notin> set (pm_namespaces (pk_manifest p)) then Inl (DurableNamespaceOutsideRuntimeManifest ns)
            else Inr ()) (sorted_list_of_set (pk_namespaces p))) (\<lambda>_.
          try_each (validate_migration p) (pk_migrations p))))"

fun first_repeated :: "('a \<Rightarrow> 'e) \<Rightarrow> 'a set \<Rightarrow> 'a list \<Rightarrow> 'e + unit" where
  "first_repeated err seen [] = Inr ()"
| "first_repeated err seen (x # xs) =
     (if x \<in> seen then Inl (err x) else first_repeated err (insert x seen) xs)"

definition validate_component :: "component_metadata \<Rightarrow> metadata_error + unit" where
  "validate_component c =
     (if cx_version c = 0 then Inl ZeroVersion
      else rbind (try_each (\<lambda>cap.
          if \<not> permits (cm_maximum (cx_manifest c)) cap then Inl (RequestedCapabilityExceedsMaximum cap)
          else Inr ()) (sorted_list_of_set (cx_requested c))) (\<lambda>_.
        if [] \<in> cx_controllers c then Inl EmptyControllerContribution
        else rbind (first_repeated DuplicateComponentImport {} (map ci_interface (cm_imports (cx_manifest c)))) (\<lambda>_.
          first_repeated DuplicateComponentExport {} (map ce_interface (cm_exports (cx_manifest c))))))"

definition validate_resource :: "resource_metadata \<Rightarrow> metadata_error + unit" where
  "validate_resource r =
     (if rm_identity r = [] then Inl MissingIdentity
      else if rm_version r = 0 then Inl ZeroVersion
      else rbind (validate_compatibility (rm_compatibility r)) (\<lambda>_.
        if rm_content r = [] then Inl MissingContentIdentity
        else if rm_scope r = [] then Inl MissingScope
        else if [] \<in> rm_dependencies r then Inl EmptyDependency
        else if [] \<in> rm_conflicts r then Inl EmptyConflict
        else if [] \<in> rm_triggers r then Inl EmptyTrigger
        else if [] \<in> rm_invalidation r then Inl EmptyInvalidationTarget
        else case sorted_list_of_set (rm_dependencies r \<inter> rm_conflicts r) of
               conflict # _ \<Rightarrow> Inl (DependencyConflict conflict)
             | [] \<Rightarrow> Inr ()))"

definition invalidation_for_change :: "resource_metadata \<Rightarrow> resource_metadata \<Rightarrow> metadata_error + string set" where
  "invalidation_for_change r s =
     rbind (validate_resource r) (\<lambda>_.
     rbind (validate_resource s) (\<lambda>_.
       if rm_identity r \<noteq> rm_identity s then Inl (ResourceIdentityMismatch (rm_identity r) (rm_identity s))
       else if rm_content r = rm_content s then Inr {}
       else Inr (rm_invalidation r \<union> rm_invalidation s)))"

subsection \<open>What passes the checks\<close>

lemma first_repeated_ok: "first_repeated err seen xs = Inr u \<longleftrightarrow> distinct xs \<and> set xs \<inter> seen = {}"
  by (induction err seen xs rule: first_repeated.induct) auto

lemma validate_compatibility_ok:
  "validate_compatibility c = Inr u \<longleftrightarrow>
     0 < co_minimum c \<and> co_minimum c \<le> kernel_compatibility_version \<and>
     (case co_maximum c of Some m \<Rightarrow> kernel_compatibility_version \<le> m | None \<Rightarrow> True)"
  by (cases "co_maximum c") (auto simp: validate_compatibility_def)

lemma validate_package_ok:
  assumes "finite (pk_namespaces p)"
  shows "validate_package p = Inr u \<longleftrightarrow>
     0 < pm_version (pk_manifest p) \<and> is_ok (validate_compatibility (pk_compatibility p)) \<and>
     (pk_components p \<noteq> {} \<longrightarrow> pm_execution (pk_manifest p) \<noteq> ResourceOnly \<and> pk_hosts p \<noteq> {}) \<and>
     [] \<notin> pk_resources p \<and> pk_namespaces p \<subseteq> set (pm_namespaces (pk_manifest p)) \<and>
     (\<forall>m\<in>set (pk_migrations p). mm_namespace m \<in> pk_namespaces p \<and> mm_from m < mm_to m)"
  using assms
  by (auto simp: validate_package_def validate_migration_def rbind_eq_Inr try_each_ok is_ok_iff split: if_splits)

lemma validate_component_ok:
  assumes "finite (cx_requested c)"
  shows "validate_component c = Inr u \<longleftrightarrow>
     0 < cx_version c \<and> cx_requested c \<subseteq> cm_maximum (cx_manifest c) \<and> [] \<notin> cx_controllers c \<and>
     distinct (map ci_interface (cm_imports (cx_manifest c))) \<and>
     distinct (map ce_interface (cm_exports (cx_manifest c)))"
  using assms
  by (auto simp: validate_component_def rbind_eq_Inr try_each_ok first_repeated_ok permits_def split: if_splits)

lemma validate_resource_ok:
  assumes "finite (rm_dependencies r)"
  shows "validate_resource r = Inr u \<longleftrightarrow>
     rm_identity r \<noteq> [] \<and> 0 < rm_version r \<and> is_ok (validate_compatibility (rm_compatibility r)) \<and>
     rm_content r \<noteq> [] \<and> rm_scope r \<noteq> [] \<and>
     [] \<notin> rm_dependencies r \<union> rm_conflicts r \<union> rm_triggers r \<union> rm_invalidation r \<and>
     rm_dependencies r \<inter> rm_conflicts r = {}"
proof -
  have "sorted_list_of_set (rm_dependencies r \<inter> rm_conflicts r) = [] \<longleftrightarrow> rm_dependencies r \<inter> rm_conflicts r = {}"
    using assms by (intro sorted_list_of_set_eq_Nil_iff) simp
  then show ?thesis
    by (cases "sorted_list_of_set (rm_dependencies r \<inter> rm_conflicts r)")
      (auto simp: validate_resource_def rbind_eq_Inr is_ok_iff split: if_splits)
qed

end
