(* ===== verification/Store_Preparation.thy ===== *)
theory Store_Preparation
  imports Durable_Host Dfs Configuration
begin

text \<open>
  Before a store is used (\<open>phenix-core/src/persistence_bootstrap.rs\<close>, \<open>persistence_provider.rs\<close> and
  \<open>runtime/persistence_bootstrap.rs\<close>): choosing the provider that opens it, with the check that no plugin the
  provider needs depends on that very store, the rules for changing provider or format, and bringing the declared
  schemas of a composition to their versions.

  The recursion over bootstrap dependencies is bounded by fuel; more fuel than providers is enough. The backend
  whose schemas are prepared is the local one (\<open>Persistence\<close>), with its faults.
\<close>

record schema_registration =
  sg_owner :: plugin_id
  sg_schema :: durable_schema
  sg_migrations :: "schema_migration list"

definition parse_store_binding_id :: "string \<Rightarrow> unit + string" where
  "parse_store_binding_id s = (if is_blank s then Inl () else Inr s)"

record store_binding =
  sb_id :: string
  sb_format :: string

datatype bootstrap_dependency = DependsOn plugin_id | TargetStore

record provider_descriptor =
  pd_plugin :: plugin_id
  pd_features :: "backend_feature set"
  pd_formats :: "string set"
  pd_dependencies :: "bootstrap_dependency list"

datatype provider_transition = CompatibleFormat | Migration string | ExportImport string

record bootstrap_plan =
  bp_provider :: provider_descriptor
  bp_binding :: store_binding
  bp_features :: "backend_feature set"
  bp_transition :: "provider_transition option"

datatype bootstrap_error =
  EmptyStorageFormat
| DuplicateProvider plugin_id
| ProviderUnavailable plugin_id
| BootstrapDependencyUnavailable plugin_id plugin_id
| BootstrapCycle "plugin_id list"
| TargetStoreBootstrapCycle plugin_id
| UnsupportedFeatures plugin_id "backend_feature set"
| StorageFormatUnsupported plugin_id string
| ProviderChangeRequiresTransition string plugin_id plugin_id
| StorageFormatChangeRequiresTransition string string string
| CompatibleFormatMismatch string string
| EmptyTransitionOperation

definition store_binding_new :: "string \<Rightarrow> string \<Rightarrow> bootstrap_error + store_binding" where
  "store_binding_new binding_id format =
     (if is_blank format then Inl EmptyStorageFormat else Inr \<lparr>sb_id = binding_id, sb_format = format\<rparr>)"

type_synonym providers = "(plugin_id, provider_descriptor) btree"

subsection \<open>Bootstrap dependencies\<close>

function (sequential) visit_provider ::
    "nat \<Rightarrow> providers \<Rightarrow> plugin_id set \<Rightarrow> plugin_id list \<Rightarrow> plugin_id set \<Rightarrow> plugin_id
     \<Rightarrow> (bootstrap_error + plugin_id set) option"
  and visit_dependencies ::
    "nat \<Rightarrow> providers \<Rightarrow> plugin_id set \<Rightarrow> plugin_id list \<Rightarrow> plugin_id \<Rightarrow> plugin_id set
     \<Rightarrow> bootstrap_dependency list \<Rightarrow> (bootstrap_error + plugin_id set) option" where
  "visit_provider 0 ps pre visiting complete p = None"
| "visit_provider (Suc n) ps pre visiting complete p =
     (if p \<in> complete then Some (Inr complete)
      else if p \<in> set visiting then Some (Inl (BootstrapCycle (dropWhile (\<lambda>q. q \<noteq> p) visiting @ [p])))
      else case bt_get ps p of
        None \<Rightarrow> Some (Inr complete)
      | Some d \<Rightarrow>
          (case visit_dependencies n ps pre (visiting @ [p]) p complete (pd_dependencies d) of
             None \<Rightarrow> None
           | Some (Inl e) \<Rightarrow> Some (Inl e)
           | Some (Inr complete') \<Rightarrow> Some (Inr (insert p complete'))))"
| "visit_dependencies n ps pre visiting p complete [] = Some (Inr complete)"
| "visit_dependencies n ps pre visiting p complete (TargetStore # ds) = Some (Inl (TargetStoreBootstrapCycle p))"
| "visit_dependencies n ps pre visiting p complete (DependsOn q # ds) =
     (if q \<notin> pre \<and> \<not> bt_has ps q then Some (Inl (BootstrapDependencyUnavailable p q))
      else case visit_provider n ps pre visiting complete q of
        None \<Rightarrow> None
      | Some (Inl e) \<Rightarrow> Some (Inl e)
      | Some (Inr complete') \<Rightarrow> visit_dependencies n ps pre visiting p complete' ds)"
  by pat_completeness auto
termination
  by (relation "inv_image (less_than <*lex*> less_than)
      (\<lambda>x. case x of Inl (n, _, _, _, _, _) \<Rightarrow> (n, 0) | Inr (n, _, _, _, _, _, ds) \<Rightarrow> (n, Suc (length ds)))") auto

definition validate_bootstrap_dependencies ::
    "plugin_id \<Rightarrow> providers \<Rightarrow> plugin_id set \<Rightarrow> (bootstrap_error + plugin_id set) option" where
  "validate_bootstrap_dependencies selected ps pre = visit_provider (Suc (length ps)) ps pre [] {} selected"

subsection \<open>Transitions\<close>

definition validate_transition ::
    "bootstrap_plan option \<Rightarrow> provider_descriptor \<Rightarrow> store_binding \<Rightarrow> provider_transition option
     \<Rightarrow> bootstrap_error + unit" where
  "validate_transition active provider binding transition =
     (case active of
        None \<Rightarrow> Inr ()
      | Some a \<Rightarrow>
          if sb_id (bp_binding a) \<noteq> sb_id binding then Inr ()
          else if pd_plugin (bp_provider a) \<noteq> pd_plugin provider \<and> transition = None then
            Inl (ProviderChangeRequiresTransition (sb_id binding) (pd_plugin (bp_provider a)) (pd_plugin provider))
          else if sb_format (bp_binding a) \<noteq> sb_format binding \<and> transition = None then
            Inl (StorageFormatChangeRequiresTransition (sb_id binding) (sb_format (bp_binding a)) (sb_format binding))
          else if transition = Some CompatibleFormat \<and> sb_format (bp_binding a) \<noteq> sb_format binding then
            Inl (CompatibleFormatMismatch (sb_format (bp_binding a)) (sb_format binding))
          else Inr ())"

definition validate_transition_operation :: "provider_transition option \<Rightarrow> bootstrap_error + unit" where
  "validate_transition_operation transition =
     (let operation = (case transition of Some (Migration s) \<Rightarrow> Some s | Some (ExportImport s) \<Rightarrow> Some s | _ \<Rightarrow> None)
      in if (\<exists>s. operation = Some s \<and> is_blank s) then Inl EmptyTransitionOperation else Inr ())"

definition bootstrap_features :: "schema_registration list \<Rightarrow> backend_feature set" where
  "bootstrap_features schemas = (\<Union>r\<in>set schemas. set (ds_features (sg_schema r))) \<union>
     (if list_ex (\<lambda>r. sg_migrations r \<noteq> []) schemas then {Migrations} else {})"

definition check_plan ::
    "provider_descriptor \<Rightarrow> store_binding \<Rightarrow> schema_registration list \<Rightarrow> bootstrap_plan option
     \<Rightarrow> provider_transition option \<Rightarrow> bootstrap_error + bootstrap_plan" where
  "check_plan provider binding schemas active transition =
     (let missing = bootstrap_features schemas - pd_features provider
      in if missing \<noteq> {} then Inl (UnsupportedFeatures (pd_plugin provider) missing)
      else if sb_format binding \<notin> pd_formats provider then
        Inl (StorageFormatUnsupported (pd_plugin provider) (sb_format binding))
      else rbind (validate_transition active provider binding transition) (\<lambda>_.
        rbind (validate_transition_operation transition) (\<lambda>_.
          Inr \<lparr>bp_provider = provider, bp_binding = binding, bp_features = bootstrap_features schemas,
            bp_transition = transition\<rparr>)))"

text \<open>The outer \<open>None\<close> would be a recursion deeper than the number of providers.\<close>

definition resolve_persistence_bootstrap ::
    "plugin_id \<Rightarrow> provider_descriptor list \<Rightarrow> plugin_id set \<Rightarrow> store_binding \<Rightarrow> schema_registration list
     \<Rightarrow> bootstrap_plan option \<Rightarrow> provider_transition option \<Rightarrow> (bootstrap_error + bootstrap_plan) option" where
  "resolve_persistence_bootstrap selected descriptors pre binding schemas active transition =
     (case map_err DuplicateProvider (bt_index pd_plugin [] descriptors) of
        Inl e \<Rightarrow> Some (Inl e)
      | Inr ps \<Rightarrow>
          (case bt_get ps selected of
             None \<Rightarrow> Some (Inl (ProviderUnavailable selected))
           | Some provider \<Rightarrow>
               (case validate_bootstrap_dependencies (pd_plugin provider) ps pre of
                  None \<Rightarrow> None
                | Some (Inl e) \<Rightarrow> Some (Inl e)
                | Some (Inr _) \<Rightarrow> Some (check_plan provider binding schemas active transition))))"

subsection \<open>Preparing the schemas\<close>

definition negotiate_features :: "schema_registration \<Rightarrow> (plugin_id \<times> persistence_error) + unit" where
  "negotiate_features r =
     rbind (try_each (\<lambda>f.
         if f \<notin> set supported_features
         then Inl (sg_owner r, UnsupportedFeature (ds_namespace (sg_schema r)) f) else Inr ())
       (ds_features (sg_schema r))) (\<lambda>_.
     if sg_migrations r \<noteq> [] \<and> Migrations \<notin> set supported_features
     then Inl (sg_owner r, UnsupportedFeature (ds_namespace (sg_schema r)) Migrations) else Inr ())"

definition materialize_schema :: "fault \<Rightarrow> schema_registration \<Rightarrow> unit sql" where
  "materialize_schema fault r d =
     (case register_schema fault (sg_owner r) (sg_schema r) d of
        (Inl (IncompatibleSchema ns stored requested), d1) \<Rightarrow>
          if stored < requested then
            sql_bind (migrate_schema fault (sg_owner r) (sg_schema r) (sg_migrations r)) (\<lambda>_.
              register_schema fault (sg_owner r) (sg_schema r)) d1
          else (Inl (IncompatibleSchema ns stored requested), d1)
      | out \<Rightarrow> out)"

fun materialize_schemas ::
    "fault \<Rightarrow> schema_registration list \<Rightarrow> database \<Rightarrow> ((plugin_id \<times> persistence_error) + unit) \<times> database" where
  "materialize_schemas fault [] d = (Inr (), d)"
| "materialize_schemas fault (r # rs) d =
     (case materialize_schema fault r d of
        (Inl e, d') \<Rightarrow> (Inl (sg_owner r, e), d')
      | (Inr _, d') \<Rightarrow> materialize_schemas fault rs d')"

definition prepare_schema_set ::
    "fault \<Rightarrow> schema_registration list \<Rightarrow> database \<Rightarrow> ((plugin_id \<times> persistence_error) + unit) \<times> database" where
  "prepare_schema_set fault rs d =
     (case try_each negotiate_features rs of
        Inl e \<Rightarrow> (Inl e, d)
      | Inr _ \<Rightarrow> materialize_schemas fault rs d)"

fun check_declarations ::
    "kernel_config \<Rightarrow> resource_namespace set \<Rightarrow> schema_registration list \<Rightarrow> kernel_error + unit" where
  "check_declarations c seen [] = Inr ()"
| "check_declarations c seen (r # rs) =
     (let ns = ds_namespace (sg_schema r)
      in if ns \<in> seen then
           Inl (PersistenceFailed (sg_owner r) (''durable schema is declared more than once: '' @ ns))
         else case resource_owner c ns of
           Some owner \<Rightarrow>
             if owner = sg_owner r then check_declarations c (insert ns seen) rs
             else Inl (PersistenceFailed (sg_owner r)
               (''durable namespace '' @ ns @ '' is owned by '' @ owner @ '', not '' @ sg_owner r))
         | None \<Rightarrow> Inl (PersistenceFailed (sg_owner r)
               (''durable namespace '' @ ns @ '' is not declared by the resolved composition'')))"

definition prepare_durable_schemas ::
    "string \<Rightarrow> fault \<Rightarrow> kernel_config \<Rightarrow> schema_registration list \<Rightarrow> database \<Rightarrow> (kernel_error + unit) \<times> database" where
  "prepare_durable_schemas engine fault c rs d =
     (case check_declarations c {} rs of
        Inl e \<Rightarrow> (Inl e, d)
      | Inr _ \<Rightarrow>
          (let (r, d') = prepare_schema_set fault rs d
           in (map_err (\<lambda>(p, e). PersistenceFailed p (show_persistence_error engine e)) r, d')))"

subsection \<open>The visit is the generic search\<close>

text \<open>What a bootstrap provider waits for: the plugins it names, when it is a provider at all.\<close>

definition awaited :: "providers \<Rightarrow> plugin_id \<Rightarrow> plugin_id list" where
  "awaited ps p = (case bt_get ps p of None \<Rightarrow> []
     | Some d \<Rightarrow> filter_map (\<lambda>x. case x of DependsOn q \<Rightarrow> Some q | TargetStore \<Rightarrow> None) (pd_dependencies d))"

definition settled :: "providers \<Rightarrow> plugin_id set \<Rightarrow> plugin_id \<Rightarrow> bool" where
  "settled ps pre p \<longleftrightarrow> (\<forall>d. bt_get ps p = Some d \<longrightarrow> TargetStore \<notin> set (pd_dependencies d) \<and>
     (\<forall>q. DependsOn q \<in> set (pd_dependencies d) \<longrightarrow> q \<in> pre \<or> bt_has ps q))"

definition is_bootstrap_cycle :: "bootstrap_error \<Rightarrow> bool" where
  "is_bootstrap_cycle e \<longleftrightarrow> (\<exists>p. e = BootstrapCycle p)"

definition provider_set :: "providers \<Rightarrow> plugin_id set" where
  "provider_set ps = {p. bt_has ps p}"

lemma finite_provider_set: "finite (provider_set ps)" "card (provider_set ps) \<le> length ps"
proof -
  have "provider_set ps = set (bt_keys ps)" by (auto simp: provider_set_def bt_has_iff)
  moreover have "card (set (bt_keys ps)) \<le> length ps" using card_length [of "bt_keys ps"] by (simp add: bt_keys_def)
  ultimately show "finite (provider_set ps)" "card (provider_set ps) \<le> length ps" by simp_all
qed

lemma dfs_disjoint:
  "dfs n succ stack finished k = Some (Inr fin') \<Longrightarrow> set stack \<inter> set finished = {} \<Longrightarrow>
     set stack \<inter> set fin' = {} \<and> set finished \<subseteq> set fin'"
  "dfs_list n succ stack finished ks = Some (Inr fin') \<Longrightarrow> set stack \<inter> set finished = {} \<Longrightarrow>
     set stack \<inter> set fin' = {} \<and> set finished \<subseteq> set fin'"
proof (induction n succ stack finished k and n succ stack finished ks arbitrary: fin' and fin' rule: dfs_dfs_list.induct)
  case (2 n succ stack finished k)
  then show ?case by (fastforce split: if_splits option.splits sum.splits)
next
  case (4 n succ stack finished k ks)
  then show ?case by (fastforce split: option.splits sum.splits)
qed simp_all

definition named :: "bootstrap_dependency list \<Rightarrow> plugin_id list" where
  "named ds = filter_map (\<lambda>x. case x of DependsOn q \<Rightarrow> Some q | TargetStore \<Rightarrow> None) ds"

lemma named_simps [simp]: "named [] = []" "named (DependsOn q # ds) = q # named ds" "named (TargetStore # ds) = named ds"
  by (simp_all add: named_def)

definition obtainable :: "providers \<Rightarrow> plugin_id set \<Rightarrow> bootstrap_dependency \<Rightarrow> bool" where
  "obtainable ps pre x = (case x of TargetStore \<Rightarrow> False | DependsOn q \<Rightarrow> q \<in> pre \<or> bt_has ps q)"

lemma settled_obtainable:
  "settled ps pre p \<longleftrightarrow> (\<forall>d. bt_get ps p = Some d \<longrightarrow> (\<forall>x\<in>set (pd_dependencies d). obtainable ps pre x))"
  by (auto simp: settled_def obtainable_def split: bootstrap_dependency.splits)

definition visit_matches ::
    "providers \<Rightarrow> plugin_id set \<Rightarrow> plugin_id set \<Rightarrow> (plugin_id list + plugin_id list) option
     \<Rightarrow> bootstrap_error + plugin_id set \<Rightarrow> bool" where
  "visit_matches ps pre finished r v = (case v of
     Inr complete \<Rightarrow> (\<exists>fin'. r = Some (Inr fin') \<and> complete = set fin' \<inter> provider_set ps \<and>
       (\<forall>p\<in>set fin' - finished. settled ps pre p))
   | Inl e \<Rightarrow> is_bootstrap_cycle e \<longrightarrow> (\<exists>p. r = Some (Inl p) \<and> e = BootstrapCycle p))"

lemma visit_is_dfs:
  "visit_provider n ps pre stack complete p = Some v \<Longrightarrow> complete = set finished \<inter> provider_set ps \<Longrightarrow>
     set stack \<inter> set finished = {} \<Longrightarrow>
     visit_matches ps pre (set finished) (dfs n (awaited ps) stack finished p) v"
  "visit_dependencies n ps pre stack p complete ds = Some v \<Longrightarrow> complete = set finished \<inter> provider_set ps \<Longrightarrow>
     set stack \<inter> set finished = {} \<Longrightarrow>
     visit_matches ps pre (set finished) (dfs_list n (awaited ps) stack finished (named ds)) v \<and>
     (\<forall>c. v = Inr c \<longrightarrow> (\<forall>x\<in>set ds. obtainable ps pre x))"
proof (induction n ps pre stack complete p and n ps pre stack p complete ds arbitrary: finished v and finished v
    rule: visit_provider_visit_dependencies.induct)
  case (2 n ps pre visiting complete p)
  show ?case
  proof (cases "p \<in> set visiting")
    case True
    with 2(3,4) have "p \<notin> complete" by auto
    with True 2(2) show ?thesis by (auto simp: visit_matches_def is_bootstrap_cycle_def)
  next
    case not_visiting: False
    show ?thesis
    proof (cases "p \<in> set finished")
      case True
      show ?thesis
      proof (cases "bt_get ps p")
        case None
        with 2(2-4) not_visiting True show ?thesis
          by (auto simp: visit_matches_def provider_set_def bt_has_def)
      next
        case (Some d)
        with True 2(3) have "p \<in> complete" by (simp add: provider_set_def bt_has_def)
        with 2(2-4) not_visiting True show ?thesis by (auto simp: visit_matches_def)
      qed
    next
      case fresh: False
      then have "p \<notin> complete" using 2(3) by simp
      show ?thesis
      proof (cases "bt_get ps p")
        case None
        with 2(2-4) not_visiting fresh \<open>p \<notin> complete\<close> show ?thesis
          by (cases n) (auto simp: visit_matches_def awaited_def settled_def provider_set_def bt_has_def)
      next
        case (Some d)
        with 2(2) not_visiting \<open>p \<notin> complete\<close> obtain v1 where
          v1: "visit_dependencies n ps pre (visiting @ [p]) p complete (pd_dependencies d) = Some v1"
          "v = (case v1 of Inl e \<Rightarrow> Inl e | Inr c \<Rightarrow> Inr (insert p c))"
          by (auto split: option.splits sum.splits)
        have aw: "awaited ps p = named (pd_dependencies d)" using Some by (simp add: awaited_def named_def)
        from 2(1) [OF \<open>p \<notin> complete\<close> not_visiting Some v1(1) 2(3)] 2(4) fresh
        have ih: "visit_matches ps pre (set finished) (dfs_list n (awaited ps) (visiting @ [p]) finished (awaited ps p)) v1"
          "\<forall>c. v1 = Inr c \<longrightarrow> (\<forall>x\<in>set (pd_dependencies d). obtainable ps pre x)"
          by (auto simp: aw)
        show ?thesis
        proof (cases v1)
          case (Inl e)
          with ih(1) v1(2) not_visiting fresh show ?thesis by (auto simp: visit_matches_def)
        next
          case (Inr c)
          with ih obtain fin' where "dfs_list n (awaited ps) (visiting @ [p]) finished (awaited ps p) = Some (Inr fin')"
            "c = set fin' \<inter> provider_set ps" "\<forall>q\<in>set fin' - set finished. settled ps pre q" "settled ps pre p"
            using Some by (auto simp: visit_matches_def settled_obtainable)
          with Inr v1(2) not_visiting fresh Some show ?thesis
            by (auto simp: visit_matches_def provider_set_def bt_has_def)
        qed
      qed
    qed
  qed
next
  case (5 n ps pre visiting p complete q ds)
  show ?case
  proof (cases "q \<notin> pre \<and> \<not> bt_has ps q")
    case True
    with 5(3) show ?thesis by (auto simp: visit_matches_def is_bootstrap_cycle_def)
  next
    case ok: False
    with 5(3) obtain v1 where v1: "visit_provider n ps pre visiting complete q = Some v1"
      by (auto split: option.splits if_splits)
    note m = 5(1) [OF ok v1 5(4,5)]
    show ?thesis
    proof (cases v1)
      case (Inl e)
      with m v1 ok 5(3) show ?thesis by (auto simp: visit_matches_def split: option.splits sum.splits)
    next
      case (Inr c)
      with m obtain fin1 where f: "dfs n (awaited ps) visiting finished q = Some (Inr fin1)"
        "c = set fin1 \<inter> provider_set ps" "\<forall>q\<in>set fin1 - set finished. settled ps pre q"
        by (auto simp: visit_matches_def)
      note dj = dfs_disjoint(1) [OF f(1) 5(5)]
      from ok v1 Inr 5(3) have "visit_dependencies n ps pre visiting p c ds = Some v" by auto
      from 5(2) [OF ok v1 Inr this f(2)] dj
      have rest: "visit_matches ps pre (set fin1) (dfs_list n (awaited ps) visiting fin1 (named ds)) v"
        "\<forall>c. v = Inr c \<longrightarrow> (\<forall>x\<in>set ds. obtainable ps pre x)" by blast+
      show ?thesis
      proof (cases v)
        case (Inl e)
        with rest f ok show ?thesis by (auto simp: visit_matches_def)
      next
        case (Inr c')
        with rest(1) obtain fin' where fin': "dfs_list n (awaited ps) visiting fin1 (named ds) = Some (Inr fin')"
          "c' = set fin' \<inter> provider_set ps" "\<forall>q\<in>set fin' - set fin1. settled ps pre q"
          by (auto simp: visit_matches_def)
        with f(3) have "\<forall>q\<in>set fin' - set finished. settled ps pre q" by blast
        with Inr rest(2) f fin' ok show ?thesis by (simp add: visit_matches_def obtainable_def)
      qed
    qed
  qed
qed (auto simp: visit_matches_def is_bootstrap_cycle_def)

lemma visit_returns:
  "card (provider_set ps - set stack) < n \<Longrightarrow> visit_provider n ps pre stack complete p \<noteq> None"
  "card (provider_set ps - set stack) < n \<Longrightarrow> visit_dependencies n ps pre stack p complete ds \<noteq> None"
proof (induction n ps pre stack complete p and n ps pre stack p complete ds
    rule: visit_provider_visit_dependencies.induct)
  case (2 n ps pre visiting complete p)
  show ?case
  proof (cases "p \<in> complete \<or> p \<in> set visiting \<or> bt_get ps p = None")
    case False
    then obtain d where d: "bt_get ps p = Some d" "p \<notin> complete" "p \<notin> set visiting" by auto
    then have "provider_set ps - set (visiting @ [p]) \<subset> provider_set ps - set visiting"
      by (auto simp: provider_set_def bt_has_def)
    then have "card (provider_set ps - set (visiting @ [p])) < card (provider_set ps - set visiting)"
      using finite_provider_set(1) by (intro psubset_card_mono) auto
    with 2 d show ?thesis by (auto split: sum.splits)
  qed auto
next
  case (5 n ps pre visiting p complete q ds)
  show ?case
  proof (cases "q \<notin> pre \<and> \<not> bt_has ps q")
    case False
    with 5(1,3) obtain v where v: "visit_provider n ps pre visiting complete q = Some v" by blast
    with False 5(2,3) show ?thesis by (cases v) auto
  qed auto
qed auto

lemma bootstrap_returns: "validate_bootstrap_dependencies p ps pre \<noteq> None"
proof -
  have "card (provider_set ps - set []) < Suc (length ps)" using finite_provider_set(2) [of ps] by simp
  then show ?thesis unfolding validate_bootstrap_dependencies_def by (rule visit_returns(1))
qed

definition waits :: "providers \<Rightarrow> (plugin_id \<times> plugin_id) set" where
  "waits ps = {(p, q). q \<in> set (awaited ps p)}"

lemma bootstrap_valid:
  assumes "validate_bootstrap_dependencies selected ps pre = Some (Inr c)" "(selected, p) \<in> (waits ps)\<^sup>*"
  shows "settled ps pre p" "\<not> is_cycle (awaited ps) (p # path)"
proof -
  from visit_is_dfs(1) [OF assms(1) [unfolded validate_bootstrap_dependencies_def], of "[]"]
  obtain fin' where f: "dfs (Suc (length ps)) (awaited ps) [] [] selected = Some (Inr fin')"
    "\<forall>p\<in>set fin'. settled ps pre p"
    by (auto simp: visit_matches_def)
  from dfs_sound(1) [OF f(1)] have co: "closed_order (awaited ps) fin'" "selected \<in> set fin'"
    by (auto simp: closed_order_def)
  have "p \<in> set fin'"
    using assms(2) co(2)
  proof (induction rule: rtrancl_induct)
    case (step y z)
    then obtain i where "i < length fin'" "fin' ! i = y" by (auto simp: in_set_conv_nth)
    with step(2) co(1) show ?case by (auto simp: closed_order_def waits_def dest!: spec [of _ i] in_set_takeD)
  qed
  with f(2) show "settled ps pre p" by blast
  show "\<not> is_cycle (awaited ps) (p # path)"
    using closed_order_acyclic [OF co(1), of "p # path"] \<open>p \<in> set fin'\<close> by auto
qed

subsection \<open>The plan\<close>

definition transition_allowed ::
    "bootstrap_plan option \<Rightarrow> bootstrap_plan \<Rightarrow> bool" where
  "transition_allowed active plan \<longleftrightarrow> (\<forall>a. active = Some a \<longrightarrow> sb_id (bp_binding a) = sb_id (bp_binding plan) \<longrightarrow>
     (case bp_transition plan of
        None \<Rightarrow> pd_plugin (bp_provider a) = pd_plugin (bp_provider plan) \<and>
          sb_format (bp_binding a) = sb_format (bp_binding plan)
      | Some CompatibleFormat \<Rightarrow> sb_format (bp_binding a) = sb_format (bp_binding plan)
      | Some (Migration s) \<Rightarrow> \<not> is_blank s
      | Some (ExportImport s) \<Rightarrow> \<not> is_blank s))"

lemma validate_transition_allowed:
  assumes "validate_transition active (bp_provider plan) (bp_binding plan) (bp_transition plan) = Inr u"
    "validate_transition_operation (bp_transition plan) = Inr w"
  shows "transition_allowed active plan"
  unfolding transition_allowed_def
proof (intro allI impI)
  fix a assume a: "active = Some a" "sb_id (bp_binding a) = sb_id (bp_binding plan)"
  show "case bp_transition plan of
        None \<Rightarrow> pd_plugin (bp_provider a) = pd_plugin (bp_provider plan) \<and>
          sb_format (bp_binding a) = sb_format (bp_binding plan)
      | Some CompatibleFormat \<Rightarrow> sb_format (bp_binding a) = sb_format (bp_binding plan)
      | Some (Migration s) \<Rightarrow> \<not> is_blank s
      | Some (ExportImport s) \<Rightarrow> \<not> is_blank s"
  proof (cases "bp_transition plan")
    case None
    with assms(1) a show ?thesis by (simp add: validate_transition_def split: if_splits)
  next
    case (Some t)
    with assms a show ?thesis
      by (cases t) (simp_all add: validate_transition_def validate_transition_operation_def Let_def split: if_splits)
  qed
qed

lemma check_plan_ok:
  assumes "check_plan provider binding schemas active transition = Inr plan"
  shows "bp_provider plan = provider \<and> bootstrap_features schemas \<subseteq> pd_features provider \<and>
     sb_format (bp_binding plan) \<in> pd_formats provider \<and> transition_allowed active plan"
proof -
  from assms have "bootstrap_features schemas - pd_features provider = {}" "sb_format binding \<in> pd_formats provider"
    by (simp_all add: check_plan_def Let_def split: if_splits)
  moreover from this assms have "validate_transition active provider binding transition = Inr ()"
    "validate_transition_operation transition = Inr ()" "plan = \<lparr>bp_provider = provider, bp_binding = binding,
       bp_features = bootstrap_features schemas, bp_transition = transition\<rparr>"
    by (auto simp: check_plan_def Let_def rbind_eq_Inr)
  ultimately show ?thesis using validate_transition_allowed [of active plan] by auto
qed

text \<open>choosing the provider of a store always returns. A chosen provider can be started without the store:
  of everything it waits for, directly or not, nothing depends on the target store, each plugin is available and
  none waits for itself. It supports every feature the schemas ask for and the format of the store, and a change of
  provider or format of a store in use has a transition that fits. A reported cycle is genuine.\<close>

lemma bootstrap_needs_no_open_store:
  "case resolve_persistence_bootstrap selected descriptors pre binding schemas active transition of
     None \<Rightarrow> False
   | Some (Inl e) \<Rightarrow> (\<forall>path. e = BootstrapCycle path \<longrightarrow>
       (\<exists>ps. bt_index pd_plugin [] descriptors = Inr ps \<and> is_cycle (awaited ps) path))
   | Some (Inr plan) \<Rightarrow> (\<exists>ps. bt_index pd_plugin [] descriptors = Inr ps \<and>
       bt_get ps selected = Some (bp_provider plan) \<and>
       (\<forall>p. (selected, p) \<in> (waits ps)\<^sup>* \<longrightarrow> settled ps pre p \<and> (\<nexists>path. is_cycle (awaited ps) (p # path)))) \<and>
       bootstrap_features schemas \<subseteq> pd_features (bp_provider plan) \<and>
       sb_format (bp_binding plan) \<in> pd_formats (bp_provider plan) \<and> transition_allowed active plan"
proof (cases "bt_index pd_plugin [] descriptors")
  case (Inl e)
  then show ?thesis by (simp add: resolve_persistence_bootstrap_def)
next
  case (Inr ps)
  show ?thesis
  proof (cases "bt_get ps selected")
    case None
    with Inr show ?thesis by (simp add: resolve_persistence_bootstrap_def)
  next
    case (Some provider)
    then have sel: "pd_plugin provider = selected" using bt_index_empty(4) [OF Inr] by blast
    obtain v where v: "validate_bootstrap_dependencies selected ps pre = Some v" using bootstrap_returns by blast
    show ?thesis
    proof (cases v)
      case (Inl e)
      have "is_cycle (awaited ps) path" if "e = BootstrapCycle path" for path
      proof -
        have "visit_matches ps pre {} (dfs (Suc (length ps)) (awaited ps) [] [] selected) v"
          using visit_is_dfs(1) [OF v [unfolded validate_bootstrap_dependencies_def], of "[]"] by simp
        with Inl that have "dfs (Suc (length ps)) (awaited ps) [] [] selected = Some (Inl path)"
          by (auto simp: visit_matches_def is_bootstrap_cycle_def)
        from dfs_sound(1) [OF this] show ?thesis by (simp add: closed_order_def)
      qed
      with Inl v Inr Some sel show ?thesis by (simp add: resolve_persistence_bootstrap_def)
    next
      case ok: (Inr c)
      have res: "resolve_persistence_bootstrap selected descriptors pre binding schemas active transition =
          Some (check_plan provider binding schemas active transition)"
        using ok v Inr Some sel by (simp add: resolve_persistence_bootstrap_def)
      show ?thesis
      proof (cases "check_plan provider binding schemas active transition")
        case (Inl e)
        then have "\<not> is_bootstrap_cycle e"
          by (auto simp: check_plan_def Let_def rbind_eq_Inl validate_transition_def validate_transition_operation_def
              is_bootstrap_cycle_def split: if_splits option.splits)
        with res Inl show ?thesis by (auto simp: is_bootstrap_cycle_def)
      next
        case plan: (Inr plan)
        with check_plan_ok [OF plan] res Inr Some bootstrap_valid [OF v [unfolded ok]] show ?thesis by auto
      qed
    qed
  qed
qed

definition sample_provider :: "plugin_id \<Rightarrow> bootstrap_dependency list \<Rightarrow> provider_descriptor" where
  "sample_provider p ds = \<lparr>pd_plugin = p, pd_features = {Transactions}, pd_formats = {''sqlite''}, pd_dependencies = ds\<rparr>"

lemma bootstrap_needs_no_open_store_witness:
  "\<exists>plan. resolve_persistence_bootstrap ''p'' [sample_provider ''p'' [DependsOn ''q'', DependsOn ''x''], sample_provider ''q'' []]
     {''x''} \<lparr>sb_id = ''main'', sb_format = ''sqlite''\<rparr> [] None None = Some (Inr plan) \<and>
     sb_format (bp_binding plan) \<in> pd_formats (bp_provider plan)"
proof -
  let ?r = "resolve_persistence_bootstrap ''p'' [sample_provider ''p'' [DependsOn ''q'', DependsOn ''x''], sample_provider ''q'' []]
     {''x''} \<lparr>sb_id = ''main'', sb_format = ''sqlite''\<rparr> [] None None"
  have "bt_index pd_plugin [] [sample_provider ''p'' [DependsOn ''q'', DependsOn ''x''], sample_provider ''q'' []] =
      Inr [(''p'', sample_provider ''p'' [DependsOn ''q'', DependsOn ''x'']), (''q'', sample_provider ''q'' [])]"
    by (simp add: sample_provider_def bt_has_def)
  moreover have "validate_bootstrap_dependencies ''p''
      [(''p'', sample_provider ''p'' [DependsOn ''q'', DependsOn ''x'']), (''q'', sample_provider ''q'' [])] {''x''} =
      Some (Inr {''p'', ''q''})"
    by (simp add: validate_bootstrap_dependencies_def sample_provider_def bt_has_def)
  moreover have "pd_plugin (sample_provider ''p'' [DependsOn ''q'', DependsOn ''x'']) = ''p''"
    by (simp add: sample_provider_def)
  moreover have "is_ok (check_plan (sample_provider ''p'' [DependsOn ''q'', DependsOn ''x''])
      \<lparr>sb_id = ''main'', sb_format = ''sqlite''\<rparr> [] None None)"
    by (simp add: check_plan_def sample_provider_def bootstrap_features_def validate_transition_def
        validate_transition_operation_def)
  ultimately obtain plan where r: "?r = Some (Inr plan)"
    by (auto simp: resolve_persistence_bootstrap_def is_ok_iff)
  with bootstrap_needs_no_open_store [where selected = "''p''" and descriptors = "[sample_provider ''p'' [DependsOn ''q'', DependsOn ''x''], sample_provider ''q'' []]"
      and pre = "{''x''}" and binding = "\<lparr>sb_id = ''main'', sb_format = ''sqlite''\<rparr>" and schemas = "[]" and active = None
      and transition = None]
  show ?thesis by simp
qed

subsection \<open>Prepared schemas\<close>

definition registers_namespace :: "schema_registration \<Rightarrow> resource_namespace" where
  "registers_namespace r = ds_namespace (sg_schema r)"

definition only_touches :: "resource_namespace set \<Rightarrow> database \<Rightarrow> database \<Rightarrow> bool" where
  "only_touches N d d' \<longleftrightarrow> row_kept d d' \<and> (\<forall>ns. ns \<notin> N \<longrightarrow>
     db_schemas d' ns = db_schemas d ns \<and> (\<forall>k. db_records d' (ns, k) = db_records d (ns, k)))"

lemma only_touches_refl: "tables d' = tables d \<Longrightarrow> only_touches N d d'"
  by (auto simp: only_touches_def tables_eq row_kept_def)

lemma only_touches_trans:
  assumes "only_touches N a b" "only_touches M b c"
  shows "only_touches (N \<union> M) a c"
  using assms row_kept_trans [of a b c] by (simp add: only_touches_def)

lemma register_touches:
  assumes "register_schema fault owner schema d = (res, d')"
  shows "only_touches {ds_namespace schema} d d'"
    "res = Inr () \<Longrightarrow> db_schemas d' (ds_namespace schema) = Some (owner, ds_version schema)"
  using register_schema_cases [OF assms] by (auto simp: only_touches_def tables_eq row_kept_def)

lemma migrate_touches:
  assumes "migrate_schema fault owner schema migs d = (res, d')"
  shows "only_touches {ds_namespace schema} d d'"
proof (cases "tables d' = tables d")
  case False
  with migrate_schema_cases [OF assms] obtain v plan where m: "db_schemas d (ds_namespace schema) = Some (owner, v)"
    "v < ds_version schema" "batch_effect (migration_batch schema plan) (db_records d) = Some (db_records d')"
    "db_schemas d' = (db_schemas d)(ds_namespace schema \<mapsto> (owner, ds_version schema))"
    by auto
  have "fst ` set (migration_batch schema plan) \<subseteq> {ds_namespace schema}" by (auto simp: migration_batch_def)
  with batch_effect_other [OF m(3)] have "db_records d' (ns, k) = db_records d (ns, k)" if "ns \<noteq> ds_namespace schema" for ns k
    using that by blast
  with m(1,2,4) show ?thesis by (auto simp: only_touches_def row_kept_def)
qed (rule only_touches_refl)

lemma materialize_outcomes:
  assumes "register_schema fault (sg_owner r) (sg_schema r) d = (r1, d1)"
  shows "materialize_schema fault r d = (r1, d1) \<or>
    materialize_schema fault r d = sql_bind (migrate_schema fault (sg_owner r) (sg_schema r) (sg_migrations r)) (\<lambda>_.
      register_schema fault (sg_owner r) (sg_schema r)) d1"
proof (cases r1)
  case (Inl e)
  then show ?thesis by (cases e) (simp_all add: materialize_schema_def assms)
qed (simp add: materialize_schema_def assms)

lemma materialize_touches:
  assumes "materialize_schema fault r d = (res, d')"
  shows "only_touches {ds_namespace (sg_schema r)} d d'"
    "res = Inr () \<Longrightarrow> db_schemas d' (ds_namespace (sg_schema r)) = Some (sg_owner r, ds_version (sg_schema r))"
proof -
  let ?ns = "ds_namespace (sg_schema r)"
  obtain r1 d1 where s1: "register_schema fault (sg_owner r) (sg_schema r) d = (r1, d1)" by fastforce
  note one = register_touches [OF s1]
  show "only_touches {?ns} d d'"
    "res = Inr () \<Longrightarrow> db_schemas d' ?ns = Some (sg_owner r, ds_version (sg_schema r))"
  proof -
    consider (same) "res = r1" "d' = d1"
      | (migrated) "sql_bind (migrate_schema fault (sg_owner r) (sg_schema r) (sg_migrations r)) (\<lambda>_.
            register_schema fault (sg_owner r) (sg_schema r)) d1 = (res, d')"
      using materialize_outcomes [OF s1] assms by (elim disjE) auto
    then have "only_touches {?ns} d d' \<and> (res = Inr () \<longrightarrow> db_schemas d' ?ns = Some (sg_owner r, ds_version (sg_schema r)))"
    proof cases
      case same
      with one show ?thesis by simp
    next
      case migrated
      obtain r2 d2 where s2: "migrate_schema fault (sg_owner r) (sg_schema r) (sg_migrations r) d1 = (r2, d2)" by fastforce
      from only_touches_trans [OF one(1) migrate_touches [OF s2]] have two: "only_touches {?ns} d d2" by simp
      show ?thesis
      proof (cases r2)
        case (Inl e)
        with migrated s2 two show ?thesis by (auto simp: sql_bind_def)
      next
        case (Inr u)
        with migrated s2 have s3: "register_schema fault (sg_owner r) (sg_schema r) d2 = (res, d')" by (simp add: sql_bind_def)
        from only_touches_trans [OF two register_touches(1) [OF s3]] register_touches(2) [OF s3] show ?thesis by simp
      qed
    qed
    then show "only_touches {?ns} d d'"
      "res = Inr () \<Longrightarrow> db_schemas d' ?ns = Some (sg_owner r, ds_version (sg_schema r))" by blast+
  qed
qed

definition schema_namespaces :: "schema_registration list \<Rightarrow> resource_namespace set" where
  "schema_namespaces rs = (\<lambda>r. ds_namespace (sg_schema r)) ` set rs"

lemma materialize_schemas_touch:
  "materialize_schemas fault rs d = (res, d') \<Longrightarrow> only_touches (schema_namespaces rs) d d' \<and>
     (res = Inr () \<longrightarrow> distinct (map (\<lambda>r. ds_namespace (sg_schema r)) rs) \<longrightarrow>
       (\<forall>r\<in>set rs. db_schemas d' (ds_namespace (sg_schema r)) = Some (sg_owner r, ds_version (sg_schema r))))"
proof (induction rs arbitrary: d)
  case Nil
  then show ?case by (auto simp: only_touches_refl)
next
  case (Cons r rs)
  obtain r1 d1 where s1: "materialize_schema fault r d = (r1, d1)" by fastforce
  note one = materialize_touches [OF s1]
  show ?case
  proof (cases r1)
    case (Inl e)
    with Cons.prems s1 only_touches_trans [OF one(1) only_touches_refl [of d1 d1 "schema_namespaces rs"]] show ?thesis
      by (auto simp: schema_namespaces_def)
  next
    case (Inr u)
    with Cons.prems s1 have "materialize_schemas fault rs d1 = (res, d')" by simp
    from Cons.IH [OF this] have ih: "only_touches (schema_namespaces rs) d1 d'"
      "res = Inr () \<longrightarrow> distinct (map (\<lambda>r. ds_namespace (sg_schema r)) rs) \<longrightarrow>
       (\<forall>r\<in>set rs. db_schemas d' (ds_namespace (sg_schema r)) = Some (sg_owner r, ds_version (sg_schema r)))" by blast+
    from only_touches_trans [OF one(1) ih(1)] have "only_touches (schema_namespaces (r # rs)) d d'"
      by (simp add: schema_namespaces_def)
    moreover have "db_schemas d' (ds_namespace (sg_schema r)) = Some (sg_owner r, ds_version (sg_schema r))"
      if "ds_namespace (sg_schema r) \<notin> schema_namespaces rs"
      using ih(1) one(2) Inr that by (simp add: only_touches_def)
    ultimately show ?thesis using ih(2) by (auto simp: schema_namespaces_def)
  qed
qed

lemma check_declarations_ok:
  "check_declarations c seen rs = Inr u \<Longrightarrow> distinct (map (\<lambda>r. ds_namespace (sg_schema r)) rs) \<and>
     schema_namespaces rs \<inter> seen = {} \<and> (\<forall>r\<in>set rs. resource_owner c (ds_namespace (sg_schema r)) = Some (sg_owner r))"
  by (induction c seen rs rule: check_declarations.induct)
    (auto simp: Let_def schema_namespaces_def split: if_splits option.splits)

text \<open>C22: preparing the schemas of a composition, with the engine failing anywhere, touches no other namespace,
  keeps every owner and lowers no version, and changes nothing at all when a declaration or a feature is refused.
  When it succeeds every declared namespace belongs to the plugin that declares it, in the configuration and in
  the store, at exactly the declared version.\<close>

theorem prepared_schemas_are_as_declared:
  "case prepare_durable_schemas engine fault c rs d of
     (Inl _, d') \<Rightarrow> only_touches (schema_namespaces rs) d d' \<and>
       (\<not> is_ok (check_declarations c {} rs) \<or> \<not> is_ok (try_each negotiate_features rs) \<longrightarrow> d' = d)
   | (Inr _, d') \<Rightarrow> only_touches (schema_namespaces rs) d d' \<and> distinct (map (\<lambda>r. ds_namespace (sg_schema r)) rs) \<and>
       (\<forall>r\<in>set rs. resource_owner c (ds_namespace (sg_schema r)) = Some (sg_owner r) \<and>
          db_schemas d' (ds_namespace (sg_schema r)) = Some (sg_owner r, ds_version (sg_schema r)))"
proof (cases "check_declarations c {} rs")
  case (Inl e)
  then show ?thesis by (simp add: prepare_durable_schemas_def only_touches_refl)
next
  case decl: (Inr u)
  note ok = check_declarations_ok [OF decl]
  show ?thesis
  proof (cases "try_each negotiate_features rs")
    case (Inl e)
    with decl show ?thesis
      by (simp add: prepare_durable_schemas_def prepare_schema_set_def only_touches_refl split: prod.splits)
  next
    case feat: (Inr w)
    obtain res d' where m: "materialize_schemas fault rs d = (res, d')" by fastforce
    with decl feat ok materialize_schemas_touch [OF m] show ?thesis
      by (cases res) (auto simp: prepare_durable_schemas_def prepare_schema_set_def)
  qed
qed

definition sample_registration :: schema_registration where
  "sample_registration = \<lparr>sg_owner = ''p'', sg_schema = \<lparr>ds_namespace = ''n'', ds_version = 2, ds_features = [Transactions]\<rparr>,
     sg_migrations = []\<rparr>"

theorem prepared_schemas_are_as_declared_witness:
  "\<exists>d'. prepare_durable_schemas ''engine'' no_fault (sample_config\<lparr>kc_namespaces := [(''n'', ''p'')]\<rparr>) [sample_registration]
     db_empty = (Inr (), d') \<and> db_schemas d' ''n'' = Some (''p'', 2)"
proof -
  let ?c = "sample_config\<lparr>kc_namespaces := [(''n'', ''p'')]\<rparr>"
  obtain res d' where r: "prepare_durable_schemas ''engine'' no_fault ?c [sample_registration] db_empty = (res, d')" by fastforce
  have "check_declarations ?c {} [sample_registration] = Inr ()"
    by (simp add: resource_owner_def sample_registration_def)
  moreover have "is_ok (fst (prepare_schema_set no_fault [sample_registration] db_empty))"
    by (simp add: prepare_schema_set_def negotiate_features_def sample_registration_def supported_features_def
        materialize_schema_def register_schema_def require_features_def sql_bind_def sql_return_def
        stored_owner_and_version_def statement_no_fault db_empty_def)
  ultimately have "res = Inr ()" using r by (auto simp: prepare_durable_schemas_def is_ok_iff split: prod.splits)
  with prepared_schemas_are_as_declared [where engine = "''engine''" and fault = no_fault and c = ?c and rs = "[sample_registration]" and d = db_empty] r show ?thesis
    by (simp add: sample_registration_def)
qed

end
