(* ===== verification/Harness.thy ===== *)
theory Harness
  imports Registry Metadata Store_Preparation "HOL-Library.Multiset"
begin

text \<open>
  Resolution of a harness (\<open>phenix-core/src/resolver.rs\<close>): manifests, resources, durable schemas, configuration,
  layer policies and provider policy are checked against each other and become one generation, whose identity is
  a digest of everything that matters to its meaning. The digest (SHA-256 of the serialised inputs) is a parameter,
  as is the counter that policy identities are drawn from.
\<close>

datatype harness_error =
  HaComponentGraph component_graph_error
| HaKernel kernel_error
| HaMetadata string metadata_error
| HaConfigurationMerge merge_error
| DuplicateConfigurationFrontend frontend_id
| UnknownConfigurationFrontend frontend_id
| HaConfigurationFrontend frontend_id frontend_error
| DuplicateResource string
| DuplicateDurableSchema resource_namespace
| UndeclaredDurableSchema plugin_id resource_namespace
| DurableSchemaOwnerMismatch plugin_id resource_namespace plugin_id
| MissingResourceDependency string string
| ResourceConflict string string
| ResourceInterfaceUnavailable string interface_id
| ResourceAuthorityDenied string capability_id
| HaDuplicateLayerPolicy service_id plugin_id
| HaRequiredLayerUnavailable service_id plugin_id

type_synonym layer_policies = "(service_id, layer_policy list) btree"
type_synonym configuration_payload = "(config_namespace \<times> nat \<times> phx_value \<times> authority) list"

record semantic_generation =
  ge_plugins :: "plugin_manifest list"
  ge_components :: "component_manifest list"
  ge_schemas :: "schema_registration list"
  ge_resources :: "resource_metadata list"
  ge_configuration :: configuration_payload
  ge_layers :: layer_policies
  ge_policy :: provider_policy
  ge_ceiling :: authority

type_synonym digest = "semantic_generation \<Rightarrow> graph_generation_id"

record harness =
  ha_generation :: graph_generation_id
  ha_plugins :: "plugin_manifest list"
  ha_components :: "component_manifest list"
  ha_schemas :: "schema_registration list"
  ha_resources :: "resource_metadata list"
  ha_configuration :: "resolved_contribution list"
  ha_kernel :: kernel_config
  ha_graph :: component_graph
  ha_layers :: layer_policies
  ha_policy :: provider_policy

record resolution_inputs =
  in_schemas :: "schema_registration list"
  in_resources :: "resource_metadata list"
  in_contributions :: "config_contribution list"
  in_layers :: layer_policies
  in_policy :: provider_policy

subsection \<open>Resources\<close>

definition add_resource ::
    "(string, resource_metadata) btree \<Rightarrow> resource_metadata \<Rightarrow> harness_error + (string, resource_metadata) btree" where
  "add_resource selected r =
     rbind (map_err (HaMetadata (rm_identity r)) (validate_resource r)) (\<lambda>_.
       if bt_has selected (rm_identity r) then Inl (DuplicateResource (rm_identity r))
       else Inr (bt_insert (rm_identity r) r selected))"

definition exported_interfaces :: "component_manifest list \<Rightarrow> interface_id set" where
  "exported_interfaces components = (\<Union>c\<in>set components. ce_interface ` set (cm_exports c))"

definition refuse_first :: "('a \<Rightarrow> bool) \<Rightarrow> ('a \<Rightarrow> 'e) \<Rightarrow> 'a::linorder set \<Rightarrow> 'e + unit" where
  "refuse_first bad err S = (case find bad (sorted_list_of_set S) of Some x \<Rightarrow> Inl (err x) | None \<Rightarrow> Inr ())"

definition check_resource ::
    "(string, resource_metadata) btree \<Rightarrow> interface_id set \<Rightarrow> authority \<Rightarrow> resource_metadata \<Rightarrow> harness_error + unit" where
  "check_resource selected exported ceiling r =
     rbind (refuse_first (\<lambda>d. \<not> bt_has selected d) (MissingResourceDependency (rm_identity r)) (rm_dependencies r)) (\<lambda>_.
     rbind (refuse_first (bt_has selected) (ResourceConflict (rm_identity r)) (rm_conflicts r)) (\<lambda>_.
     rbind (refuse_first (\<lambda>i. i \<notin> exported) (ResourceInterfaceUnavailable (rm_identity r)) (rm_interfaces r)) (\<lambda>_.
       refuse_first (\<lambda>c. \<not> permits ceiling c) (ResourceAuthorityDenied (rm_identity r)) (rm_capabilities r))))"

definition resolve_resources ::
    "resource_metadata list \<Rightarrow> component_manifest list \<Rightarrow> authority \<Rightarrow> harness_error + resource_metadata list" where
  "resolve_resources resources components ceiling =
     rbind (try_fold add_resource [] resources) (\<lambda>selected.
     rbind (try_each (check_resource selected (exported_interfaces components) ceiling) (bt_vals selected)) (\<lambda>_.
       Inr (bt_vals selected)))"

subsection \<open>Layer policies\<close>

definition layer_available :: "plugin_manifest list \<Rightarrow> authority \<Rightarrow> service_id \<Rightarrow> plugin_id \<Rightarrow> bool" where
  "layer_available plugins ceiling service p \<longleftrightarrow> list_ex (\<lambda>m. pm_id m = p \<and> list_ex (\<lambda>k.
     sc_service k = service \<and> sc_role k = Layer \<and> permits_all ceiling (sc_required k)) (pm_services m)) plugins"

fun validate_layers ::
    "plugin_manifest list \<Rightarrow> authority \<Rightarrow> service_id \<Rightarrow> plugin_id set \<Rightarrow> layer_policy list \<Rightarrow> harness_error + unit" where
  "validate_layers plugins ceiling service seen [] = Inr ()"
| "validate_layers plugins ceiling service seen (l # ls) =
     (if lp_plugin l \<in> seen then Inl (HaDuplicateLayerPolicy service (lp_plugin l))
      else if \<not> (lp_enabled l \<and> lp_required l) \<or> layer_available plugins ceiling service (lp_plugin l) then
        validate_layers plugins ceiling service (insert (lp_plugin l) seen) ls
      else Inl (HaRequiredLayerUnavailable service (lp_plugin l)))"

definition validate_layer_policies ::
    "plugin_manifest list \<Rightarrow> layer_policies \<Rightarrow> authority \<Rightarrow> harness_error + unit" where
  "validate_layer_policies plugins layers ceiling =
     try_each (\<lambda>(service, ls). validate_layers plugins ceiling service {} ls) layers"

definition layer_le :: "layer_policy \<Rightarrow> layer_policy \<Rightarrow> bool" where
  "layer_le l r \<longleftrightarrow> lp_priority l > lp_priority r \<or> lp_priority l = lp_priority r \<and> lp_plugin l \<le> lp_plugin r"

definition sort_layers :: "layer_policies \<Rightarrow> layer_policies" where
  "sort_layers layers = map (\<lambda>(service, ls). (service, sort_by layer_le ls)) layers"

fun with_layers :: "nat \<Rightarrow> layer_policies \<Rightarrow> kernel_config \<Rightarrow> kernel_error + kernel_config" where
  "with_layers identity [] c = Inr c"
| "with_layers identity ((service, ls) # rest) c =
     rbind (with_layer_policy identity service ls c) (with_layers (wrap_succ64 identity) rest)"

subsection \<open>Durable schemas\<close>

definition order_migrations :: "schema_registration \<Rightarrow> schema_registration" where
  "order_migrations r = r\<lparr>sg_migrations := sort_key (\<lambda>m. (mig_from m, mig_to m)) (sg_migrations r)\<rparr>"

definition add_schema ::
    "kernel_config \<Rightarrow> (resource_namespace, schema_registration) btree \<Rightarrow> schema_registration
     \<Rightarrow> harness_error + (resource_namespace, schema_registration) btree" where
  "add_schema c resolved r =
     (let ns = ds_namespace (sg_schema r)
      in case resource_owner c ns of
           None \<Rightarrow> Inl (UndeclaredDurableSchema (sg_owner r) ns)
         | Some owner \<Rightarrow>
             if owner \<noteq> sg_owner r then Inl (DurableSchemaOwnerMismatch (sg_owner r) ns owner)
             else if bt_has resolved ns then Inl (DuplicateDurableSchema ns)
             else Inr (bt_insert ns (order_migrations r) resolved))"

definition resolve_durable_schemas ::
    "schema_registration list \<Rightarrow> kernel_config \<Rightarrow> harness_error + schema_registration list" where
  "resolve_durable_schemas schemas c = rbind (try_fold (add_schema c) [] schemas) (\<lambda>m. Inr (bt_vals m))"

subsection \<open>The harness\<close>

text \<open>What both resolutions below share, from the sorted manifests on. The outer \<open>None\<close> would be a panic of the
  registry or the graph.\<close>

definition assemble ::
    "digest \<Rightarrow> nat \<Rightarrow> plugin_manifest list \<Rightarrow> component_manifest list \<Rightarrow> schema_registration list
     \<Rightarrow> resource_metadata list \<Rightarrow> resolved_contribution list \<Rightarrow> layer_policies \<Rightarrow> provider_policy \<Rightarrow> authority
     \<Rightarrow> (harness_error + harness) option" where
  "assemble digest identity plugins components schemas resources conf layers policy ceiling =
     (case config_new identity plugins of
        None \<Rightarrow> None
      | Some (Inl e) \<Rightarrow> Some (Inl (HaKernel e))
      | Some (Inr c) \<Rightarrow>
          (case rbind (map_err HaKernel (with_layers (wrap_succ64 identity) layers c)) (\<lambda>kc.
                rbind (resolve_durable_schemas schemas kc) (\<lambda>resolved. Inr (kc, resolved))) of
             Inl e \<Rightarrow> Some (Inl e)
           | Inr (kc, resolved) \<Rightarrow>
               (case compile_graph plugins components ceiling (Some policy) of
                  None \<Rightarrow> None
                | Some (Inl e) \<Rightarrow> Some (Inl (HaComponentGraph e))
                | Some (Inr graph) \<Rightarrow> Some (Inr
                    \<lparr>ha_generation = digest \<lparr>ge_plugins = plugins, ge_components = components, ge_schemas = resolved,
                       ge_resources = resources, ge_configuration = semantic_payload conf, ge_layers = layers,
                       ge_policy = policy, ge_ceiling = ceiling\<rparr>,
                     ha_plugins = plugins, ha_components = components, ha_schemas = resolved, ha_resources = resources,
                     ha_configuration = conf, ha_kernel = kc, ha_graph = graph, ha_layers = layers,
                     ha_policy = policy\<rparr>))))"

definition resolve_with_inputs ::
    "digest \<Rightarrow> nat \<Rightarrow> plugin_manifest list \<Rightarrow> component_manifest list \<Rightarrow> resolution_inputs \<Rightarrow> authority
     \<Rightarrow> (harness_error + harness) option" where
  "resolve_with_inputs digest identity plugin_manifests component_manifests inputs ceiling =
     (let plugins = sort_key pm_id plugin_manifests;
          components = sort_key cm_id component_manifests
      in case rbind (resolve_resources (in_resources inputs) components ceiling) (\<lambda>resources.
              rbind (validate_layer_policies plugins (in_layers inputs) ceiling) (\<lambda>_.
              rbind (map_err HaConfigurationMerge (try_resolve (in_contributions inputs) ceiling)) (\<lambda>conf.
                Inr (resources, conf)))) of
           Inl e \<Rightarrow> Some (Inl e)
         | Inr (resources, conf) \<Rightarrow>
             assemble digest identity plugins components (in_schemas inputs) resources conf
               (sort_layers (in_layers inputs)) (in_policy inputs) ceiling)"

definition inputs_new ::
    "schema_registration list \<Rightarrow> resource_metadata list \<Rightarrow> config_contribution list \<Rightarrow> layer_policies
     \<Rightarrow> provider_policy \<Rightarrow> resolution_inputs" where
  "inputs_new schemas resources contributions layers policy =
     \<lparr>in_schemas = schemas, in_resources = resources, in_contributions = contributions, in_layers = layers,
       in_policy = policy\<rparr>"

definition harness_resolve ::
    "digest \<Rightarrow> nat \<Rightarrow> plugin_manifest list \<Rightarrow> component_manifest list \<Rightarrow> config_contribution list \<Rightarrow> authority
     \<Rightarrow> (harness_error + harness) option" where
  "harness_resolve digest identity pms cms contributions ceiling =
     resolve_with_inputs digest identity pms cms (inputs_new [] [] contributions [] []) ceiling"

definition resolve_with_resources ::
    "digest \<Rightarrow> nat \<Rightarrow> plugin_manifest list \<Rightarrow> component_manifest list \<Rightarrow> resource_metadata list
     \<Rightarrow> config_contribution list \<Rightarrow> authority \<Rightarrow> (harness_error + harness) option" where
  "resolve_with_resources digest identity pms cms resources contributions ceiling =
     resolve_with_inputs digest identity pms cms (inputs_new [] resources contributions [] []) ceiling"

definition resolve_with_resources_and_layers ::
    "digest \<Rightarrow> nat \<Rightarrow> plugin_manifest list \<Rightarrow> component_manifest list \<Rightarrow> resource_metadata list
     \<Rightarrow> config_contribution list \<Rightarrow> layer_policies \<Rightarrow> authority \<Rightarrow> (harness_error + harness) option" where
  "resolve_with_resources_and_layers digest identity pms cms resources contributions layers ceiling =
     resolve_with_inputs digest identity pms cms (inputs_new [] resources contributions layers []) ceiling"

definition resolve_with_durable_schemas ::
    "digest \<Rightarrow> nat \<Rightarrow> plugin_manifest list \<Rightarrow> component_manifest list \<Rightarrow> schema_registration list
     \<Rightarrow> config_contribution list \<Rightarrow> authority \<Rightarrow> (harness_error + harness) option" where
  "resolve_with_durable_schemas digest identity pms cms schemas contributions ceiling =
     resolve_with_inputs digest identity pms cms (inputs_new schemas [] contributions [] []) ceiling"

definition resolve_with_provider_policy ::
    "digest \<Rightarrow> nat \<Rightarrow> plugin_manifest list \<Rightarrow> component_manifest list \<Rightarrow> config_contribution list
     \<Rightarrow> provider_policy \<Rightarrow> authority \<Rightarrow> (harness_error + harness) option" where
  "resolve_with_provider_policy digest identity pms cms contributions policy ceiling =
     resolve_with_inputs digest identity pms cms (inputs_new [] [] contributions [] policy) ceiling"

definition resolve_with_layer_policies ::
    "digest \<Rightarrow> nat \<Rightarrow> plugin_manifest list \<Rightarrow> component_manifest list \<Rightarrow> config_contribution list
     \<Rightarrow> layer_policies \<Rightarrow> authority \<Rightarrow> (harness_error + harness) option" where
  "resolve_with_layer_policies digest identity pms cms contributions layers ceiling =
     resolve_with_inputs digest identity pms cms (inputs_new [] [] contributions layers []) ceiling"

definition resolve_with_durable_schemas_and_layers ::
    "digest \<Rightarrow> nat \<Rightarrow> plugin_manifest list \<Rightarrow> component_manifest list \<Rightarrow> schema_registration list
     \<Rightarrow> config_contribution list \<Rightarrow> layer_policies \<Rightarrow> authority \<Rightarrow> (harness_error + harness) option" where
  "resolve_with_durable_schemas_and_layers digest identity pms cms schemas contributions layers ceiling =
     resolve_with_inputs digest identity pms cms (inputs_new schemas [] contributions layers []) ceiling"

definition lower_from ::
    "(frontend_id, frontend_metadata) btree \<Rightarrow> authority \<Rightarrow> frontend_id \<times> frontend_contribution
     \<Rightarrow> harness_error + config_contribution" where
  "lower_from frontends ceiling offer =
     rbind (ok_or (UnknownConfigurationFrontend (fst offer)) (bt_get frontends (fst offer))) (\<lambda>m.
       map_err (HaConfigurationFrontend (fst offer)) (lower_contribution (snd offer) m ceiling))"

definition resolve_frontends ::
    "digest \<Rightarrow> nat \<Rightarrow> plugin_manifest list \<Rightarrow> component_manifest list \<Rightarrow> frontend_metadata list
     \<Rightarrow> (frontend_id \<times> frontend_contribution) list \<Rightarrow> authority \<Rightarrow> (harness_error + harness) option" where
  "resolve_frontends digest identity pms cms metadata offers ceiling =
     (case rbind (map_err DuplicateConfigurationFrontend (bt_index fm_id [] metadata)) (\<lambda>frontends.
           try_map (lower_from frontends ceiling) offers) of
        Inl e \<Rightarrow> Some (Inl e)
      | Inr lowered \<Rightarrow> harness_resolve digest identity pms cms lowered ceiling)"

text \<open>The desired plugin set of a management request: everything but the manifests is that of the harness.\<close>

definition with_plugin_set ::
    "digest \<Rightarrow> nat \<Rightarrow> harness \<Rightarrow> plugin_manifest list \<Rightarrow> component_manifest list \<Rightarrow> authority
     \<Rightarrow> (harness_error + harness) option" where
  "with_plugin_set digest identity h plugins components ceiling =
     assemble digest identity (sort_key pm_id plugins) (sort_key cm_id components) (ha_schemas h) (ha_resources h)
       (ha_configuration h) (ha_layers h) (ha_policy h) ceiling"

definition incorporate_metadata :: "(graph_generation_id \<Rightarrow> 'm \<Rightarrow> graph_generation_id) \<Rightarrow> 'm \<Rightarrow> harness \<Rightarrow> harness" where
  "incorporate_metadata digest metadata h = h\<lparr>ha_generation := digest (ha_generation h) metadata\<rparr>"

subsection \<open>What a resolved harness guarantees\<close>

lemma refuse_first_ok: "finite S \<Longrightarrow> refuse_first bad err S = Inr u \<longleftrightarrow> (\<forall>x\<in>S. \<not> bad x)"
  by (auto simp: refuse_first_def find_None_iff split: option.splits) (metis find_None_iff option.distinct(1) set_sorted_list_of_set)

definition finite_resource :: "resource_metadata \<Rightarrow> bool" where
  "finite_resource r \<longleftrightarrow> finite (rm_dependencies r) \<and> finite (rm_conflicts r) \<and> finite (rm_interfaces r) \<and>
     finite (rm_capabilities r)"

definition resource_ok :: "string set \<Rightarrow> interface_id set \<Rightarrow> authority \<Rightarrow> resource_metadata \<Rightarrow> bool" where
  "resource_ok selected exported ceiling r \<longleftrightarrow> is_ok (validate_resource r) \<and> rm_dependencies r \<subseteq> selected \<and>
     rm_conflicts r \<inter> selected = {} \<and> rm_interfaces r \<subseteq> exported \<and> rm_capabilities r \<subseteq> ceiling"

lemma add_resource_ok:
  "add_resource m r = Inr m' \<longleftrightarrow> is_ok (validate_resource r) \<and> \<not> bt_has m (rm_identity r) \<and>
     m' = bt_insert (rm_identity r) r m"
  by (auto simp: add_resource_def rbind_eq_Inr is_ok_iff)

lemma add_resources_ok:
  "try_fold add_resource m rs = Inr m' \<longleftrightarrow> (\<forall>r\<in>set rs. is_ok (validate_resource r)) \<and> bt_index rm_identity m rs = Inr m'"
  by (induction rs arbitrary: m) (auto simp: rbind_eq_Inr add_resource_ok)

lemma resolve_resources_ok:
  assumes "\<forall>r\<in>set rs. finite_resource r"
  shows "resolve_resources rs cs ceiling = Inr out \<longleftrightarrow> (\<exists>m. bt_index rm_identity [] rs = Inr m \<and> out = bt_vals m \<and>
     (\<forall>r\<in>set rs. resource_ok (rm_identity ` set rs) (exported_interfaces cs) ceiling r))"
proof -
  have one: "check_resource m (exported_interfaces cs) ceiling r = Inr () \<longleftrightarrow> rm_dependencies r \<subseteq> rm_identity ` set rs \<and>
      rm_conflicts r \<inter> rm_identity ` set rs = {} \<and> rm_interfaces r \<subseteq> exported_interfaces cs \<and> rm_capabilities r \<subseteq> ceiling"
    if "bt_index rm_identity [] rs = Inr m" "r \<in> set rs" for m r
  proof -
    have has: "bt_has m i \<longleftrightarrow> i \<in> rm_identity ` set rs" for i
      using bt_index_empty(4) [OF that(1)] by (force simp: bt_has_def)
    from assms that(2) have "finite_resource r" by blast
    then show ?thesis
      by (auto simp: check_resource_def rbind_eq_Inr refuse_first_ok finite_resource_def has permits_def)
  qed
  have "resolve_resources rs cs ceiling = Inr out \<longleftrightarrow> (\<exists>m. bt_index rm_identity [] rs = Inr m \<and> out = bt_vals m \<and>
      (\<forall>r\<in>set rs. validate_resource r = Inr ()) \<and>
      (\<forall>r\<in>set (bt_vals m). check_resource m (exported_interfaces cs) ceiling r = Inr ()))"
    by (auto simp: resolve_resources_def rbind_eq_Inr add_resources_ok try_each_ok is_ok_iff)
  also have "\<dots> \<longleftrightarrow> (\<exists>m. bt_index rm_identity [] rs = Inr m \<and> out = bt_vals m \<and>
      (\<forall>r\<in>set rs. validate_resource r = Inr () \<and> check_resource m (exported_interfaces cs) ceiling r = Inr ()))"
    using bt_index_empty(3) [of rm_identity rs] by (metis (no_types, lifting))
  also have "\<dots> \<longleftrightarrow> (\<exists>m. bt_index rm_identity [] rs = Inr m \<and> out = bt_vals m \<and>
     (\<forall>r\<in>set rs. resource_ok (rm_identity ` set rs) (exported_interfaces cs) ceiling r))"
    by (intro ex_cong1 conj_cong ball_cong refl) (auto simp: one resource_ok_def is_ok_iff)
  finally show ?thesis .
qed

definition required_layers_ok :: "plugin_manifest list \<Rightarrow> authority \<Rightarrow> layer_policies \<Rightarrow> bool" where
  "required_layers_ok plugins ceiling layers \<longleftrightarrow> (\<forall>(service, ls)\<in>set layers. distinct (map lp_plugin ls) \<and>
     (\<forall>l\<in>set ls. lp_enabled l \<longrightarrow> lp_required l \<longrightarrow> layer_available plugins ceiling service (lp_plugin l)))"

lemma validate_layers_ok:
  "validate_layers plugins ceiling service seen ls = Inr u \<longleftrightarrow> distinct (map lp_plugin ls) \<and>
     lp_plugin ` set ls \<inter> seen = {} \<and>
     (\<forall>l\<in>set ls. lp_enabled l \<longrightarrow> lp_required l \<longrightarrow> layer_available plugins ceiling service (lp_plugin l))"
  by (induction plugins ceiling service seen ls rule: validate_layers.induct) auto

lemma validate_layer_policies_ok:
  "validate_layer_policies plugins layers ceiling = Inr u \<longleftrightarrow> required_layers_ok plugins ceiling layers"
  by (auto simp: validate_layer_policies_def try_each_ok validate_layers_ok required_layers_ok_def split: prod.splits)

lemma with_layer_policy_fields:
  "with_layer_policy identity service ls c = Inr c' \<Longrightarrow> kc_manifests c' = kc_manifests c \<and>
     kc_activation c' = kc_activation c \<and> kc_namespaces c' = kc_namespaces c \<and> kc_bindings c' = kc_bindings c \<and>
     kc_providers c' = kc_providers c \<and> kc_layers c' = bt_insert service ls (kc_layers c)"
  by (auto simp: with_layer_policy_def rbind_eq_Inr)

lemma with_layers_fields:
  "with_layers identity layers c = Inr c' \<Longrightarrow> kc_manifests c' = kc_manifests c \<and>
     kc_activation c' = kc_activation c \<and> kc_namespaces c' = kc_namespaces c \<and> kc_bindings c' = kc_bindings c \<and>
     kc_layers c' = foldl (\<lambda>m (service, ls). bt_insert service ls m) (kc_layers c) layers"
proof (induction layers arbitrary: c identity)
  case (Cons sl layers)
  obtain s ls where sl: "sl = (s, ls)" by force
  with Cons.prems obtain c1 where "with_layer_policy identity s ls c = Inr c1"
    "with_layers (wrap_succ64 identity) layers c1 = Inr c'" by (auto simp: rbind_eq_Inr)
  with Cons.IH [OF this(2)] with_layer_policy_fields [OF this(1)] sl show ?case by simp
qed simp

lemma bt_insert_last: "bt_ok (m @ [(k, v)]) \<Longrightarrow> bt_insert k v m = m @ [(k, v)]"
  by (induction m) (auto simp: bt_ok_def sorted_wrt_append)

lemma foldl_insert_all:
  "bt_ok (m @ layers) \<Longrightarrow> foldl (\<lambda>m (service, ls). bt_insert service ls m) m layers = m @ layers"
proof (induction layers arbitrary: m)
  case (Cons sl layers)
  obtain s ls where sl: "sl = (s, ls)" by force
  from Cons.prems sl have "bt_ok (m @ [(s, ls)])" by (auto simp: bt_ok_def sorted_wrt_append)
  from bt_insert_last [OF this] Cons.IH [of "m @ [(s, ls)]"] Cons.prems sl show ?case by simp
qed simp

lemma sort_layers_ok: "bt_ok (sort_layers layers) \<longleftrightarrow> bt_ok layers"
  by (simp add: bt_ok_def sort_layers_def comp_def case_prod_beta)

definition schemas_ok :: "kernel_config \<Rightarrow> schema_registration list \<Rightarrow> bool" where
  "schemas_ok c rs \<longleftrightarrow> sorted_wrt (<) (map (\<lambda>r. ds_namespace (sg_schema r)) rs) \<and>
     (\<forall>r\<in>set rs. resource_owner c (ds_namespace (sg_schema r)) = Some (sg_owner r))"

lemma add_schema_ok:
  "add_schema c m r = Inr m' \<longleftrightarrow> resource_owner c (ds_namespace (sg_schema r)) = Some (sg_owner r) \<and>
     \<not> bt_has m (ds_namespace (sg_schema r)) \<and> m' = bt_insert (ds_namespace (sg_schema r)) (order_migrations r) m"
  by (auto simp: add_schema_def Let_def split: option.splits)

lemma order_migrations_fields [simp]:
  "sg_owner (order_migrations r) = sg_owner r" "sg_schema (order_migrations r) = sg_schema r"
  by (simp_all add: order_migrations_def)

lemma add_schemas_ok:
  "try_fold (add_schema c) m rs = Inr m' \<longleftrightarrow>
     (\<forall>r\<in>set rs. resource_owner c (ds_namespace (sg_schema r)) = Some (sg_owner r)) \<and>
     bt_index (\<lambda>r. ds_namespace (sg_schema r)) m (map order_migrations rs) = Inr m'"
  by (induction rs arbitrary: m) (auto simp: rbind_eq_Inr add_schema_ok)

lemma resolve_durable_schemas_ok:
  "resolve_durable_schemas rs c = Inr out \<longleftrightarrow>
     (\<forall>r\<in>set rs. resource_owner c (ds_namespace (sg_schema r)) = Some (sg_owner r)) \<and>
     (\<exists>m. bt_index (\<lambda>r. ds_namespace (sg_schema r)) [] (map order_migrations rs) = Inr m \<and> out = bt_vals m)"
  by (auto simp: resolve_durable_schemas_def rbind_eq_Inr add_schemas_ok)

lemma resolved_schemas_ok: "resolve_durable_schemas rs c = Inr out \<Longrightarrow> schemas_ok c out"
proof -
  assume "resolve_durable_schemas rs c = Inr out"
  then obtain m where m: "bt_index (\<lambda>r. ds_namespace (sg_schema r)) [] (map order_migrations rs) = Inr m" "out = bt_vals m"
    "\<forall>r\<in>set rs. resource_owner c (ds_namespace (sg_schema r)) = Some (sg_owner r)"
    by (auto simp: resolve_durable_schemas_ok)
  note ix = bt_index_empty [OF m(1)]
  have "map (\<lambda>r. ds_namespace (sg_schema r)) out = map fst m" using ix(5) m(2) by (simp add: bt_keys_def)
  moreover have "sorted_wrt (<) (map fst m)" using ix(1) by (simp add: bt_ok_def)
  moreover have "\<forall>r\<in>set out. resource_owner c (ds_namespace (sg_schema r)) = Some (sg_owner r)"
    using ix(3) m(2,3) by auto
  ultimately show ?thesis by (simp add: schemas_ok_def)
qed

text \<open>The result of a resolution belongs together, under the authority it was resolved with.\<close>

definition generation_content :: "authority \<Rightarrow> harness \<Rightarrow> semantic_generation" where
  "generation_content ceiling h = \<lparr>ge_plugins = ha_plugins h, ge_components = ha_components h, ge_schemas = ha_schemas h,
     ge_resources = ha_resources h, ge_configuration = semantic_payload (ha_configuration h), ge_layers = ha_layers h,
     ge_policy = ha_policy h, ge_ceiling = ceiling\<rparr>"

definition assembled :: "digest \<Rightarrow> authority \<Rightarrow> harness \<Rightarrow> bool" where
  "assembled digest ceiling h \<longleftrightarrow> ha_generation h = digest (generation_content ceiling h) \<and>
     config_ok (ha_plugins h) (ha_kernel h) \<and> kc_layers (ha_kernel h) = ha_layers h \<and>
     compile_graph (ha_plugins h) (ha_components h) ceiling (Some (ha_policy h)) = Some (Inr (ha_graph h)) \<and>
     schemas_ok (ha_kernel h) (ha_schemas h)"

definition coherent :: "digest \<Rightarrow> authority \<Rightarrow> harness \<Rightarrow> bool" where
  "coherent digest ceiling h \<longleftrightarrow> assembled digest ceiling h \<and> required_layers_ok (ha_plugins h) ceiling (ha_layers h) \<and>
     distinct (map rm_identity (ha_resources h)) \<and> (\<forall>r\<in>set (ha_resources h).
       resource_ok (rm_identity ` set (ha_resources h)) (exported_interfaces (ha_components h)) ceiling r)"

lemma assemble_cases:
  assumes "bt_ok layers"
  shows "(\<exists>e. assemble digest i ps cs rs res conf layers policy ceiling = Some (Inl e)) \<or>
    (\<exists>h. assemble digest i ps cs rs res conf layers policy ceiling = Some (Inr h) \<and> assembled digest ceiling h \<and>
       ha_plugins h = ps \<and> ha_components h = cs \<and> ha_resources h = res \<and> ha_configuration h = conf \<and>
       ha_layers h = layers \<and> ha_policy h = policy)"
  using config_new_cases [of i ps]
proof (elim disjE exE conjE)
  fix e assume "config_new i ps = Some (Inl e)"
  then show ?thesis by (simp add: assemble_def)
next
  fix c assume c: "config_new i ps = Some (Inr c)" "config_ok ps c"
  have map_sum_Inr: "map_sum f g z = Inr y \<Longrightarrow> \<exists>x. z = Inr x \<and> y = g x" for f g z y by (cases z) auto
  from c(1) have nolayers: "kc_layers c = []" by (auto simp: config_new_def split: sum.splits dest!: map_sum_Inr)
  show ?thesis
  proof (cases "rbind (map_err HaKernel (with_layers (wrap_succ64 i) layers c)) (\<lambda>kc.
      rbind (resolve_durable_schemas rs kc) (\<lambda>resolved. Inr (kc, resolved)))")
    case (Inl e)
    with c show ?thesis by (simp add: assemble_def)
  next
    case (Inr t)
    then obtain kc resolved where t: "t = (kc, resolved)" "with_layers (wrap_succ64 i) layers c = Inr kc"
      "resolve_durable_schemas rs kc = Inr resolved" by (auto simp: rbind_eq_Inr)
    note f = with_layers_fields [OF t(2)]
    have "kc_layers kc = layers" using f nolayers foldl_insert_all [of "[]" layers] assms by simp
    moreover have "config_ok ps kc" using c(2) f by (simp add: config_ok_def resource_owner_def)
    ultimately show ?thesis
      using compile_graph_cases [of ps cs ceiling "Some policy"] c(1) Inr t resolved_schemas_ok [OF t(3)]
      by (auto simp: assemble_def assembled_def generation_content_def)
  qed
qed

lemma required_layers_sorted:
  "required_layers_ok plugins ceiling (sort_layers layers) \<longleftrightarrow> required_layers_ok plugins ceiling layers"
proof -
  have "distinct (map lp_plugin (sort_by layer_le ls)) \<longleftrightarrow> distinct (map lp_plugin ls)" for ls
    by (simp add: distinct_map)
  then show ?thesis by (fastforce simp: required_layers_ok_def sort_layers_def)
qed

lemma resolved_coherent:
  assumes "bt_ok (in_layers inputs)" "\<forall>r\<in>set (in_resources inputs). finite_resource r"
  shows "case resolve_with_inputs digest i pms cms inputs ceiling of
    None \<Rightarrow> False | Some (Inl e) \<Rightarrow> True | Some (Inr h) \<Rightarrow> coherent digest ceiling h"
proof -
  let ?ps = "sort_key pm_id pms" and ?cs = "sort_key cm_id cms"
  show ?thesis
  proof (cases "rbind (resolve_resources (in_resources inputs) ?cs ceiling) (\<lambda>resources.
      rbind (validate_layer_policies ?ps (in_layers inputs) ceiling) (\<lambda>_.
      rbind (map_err HaConfigurationMerge (try_resolve (in_contributions inputs) ceiling)) (\<lambda>conf.
        Inr (resources, conf))))")
    case (Inl e)
    then show ?thesis by (simp add: resolve_with_inputs_def)
  next
    case (Inr t)
    then obtain resources conf where t: "t = (resources, conf)"
      "resolve_resources (in_resources inputs) ?cs ceiling = Inr resources"
      "validate_layer_policies ?ps (in_layers inputs) ceiling = Inr ()" by (auto simp: rbind_eq_Inr)
    then have run: "resolve_with_inputs digest i pms cms inputs ceiling =
        assemble digest i ?ps ?cs (in_schemas inputs) resources conf (sort_layers (in_layers inputs)) (in_policy inputs) ceiling"
      using Inr by (simp add: resolve_with_inputs_def)
    from t(2) assms(2) obtain m where m: "bt_index rm_identity [] (in_resources inputs) = Inr m" "resources = bt_vals m"
      "\<forall>r\<in>set (in_resources inputs).
         resource_ok (rm_identity ` set (in_resources inputs)) (exported_interfaces ?cs) ceiling r"
      by (auto simp: resolve_resources_ok)
    note ix = bt_index_empty [OF m(1)]
    have res: "distinct (map rm_identity resources)" "set resources = set (in_resources inputs)"
      using ix(1,3,5) m(2) distinct_bt_keys by metis+
    have lay: "bt_ok (sort_layers (in_layers inputs))" using assms(1) by (simp add: sort_layers_ok)
    from t(3) have "required_layers_ok ?ps ceiling (sort_layers (in_layers inputs))"
      by (simp add: validate_layer_policies_ok required_layers_sorted)
    with run assemble_cases [OF lay, of digest i ?ps ?cs "in_schemas inputs" resources conf "in_policy inputs" ceiling] res m(3)
    show ?thesis by (auto simp: coherent_def)
  qed
qed

text \<open>C23: resolving a harness always returns. A resolved harness is coherent: its kernel configuration is valid for
  its plugins, with exactly the layer policies given; its graph is compiled from its plugins and components; each
  declared schema belongs to the plugin that owns the namespace; no resource misses a dependency, conflicts with
  another, needs an interface nobody exports or a right beyond the ceiling; every required layer has a plugin that may
  run it; and its generation is the digest of just this content.\<close>

theorem resolved_harness_is_coherent:
  assumes "bt_ok (in_layers inputs)" "\<forall>r\<in>set (in_resources inputs). finite_resource r"
  shows "case resolve_with_inputs digest i pms cms inputs ceiling of
    None \<Rightarrow> False | Some (Inl e) \<Rightarrow> True | Some (Inr h) \<Rightarrow> coherent digest ceiling h"
  using resolved_coherent [OF assms] .

subsection \<open>The order of discovery does not matter\<close>




















subsection \<open>An instance\<close>

definition sample_resource :: "string \<Rightarrow> string set \<Rightarrow> resource_metadata" where
  "sample_resource i deps = \<lparr>rm_identity = i, rm_version = 1, rm_content = ''x'', rm_dependencies = deps, rm_conflicts = {},
     rm_triggers = {}, rm_scope = ''s'', rm_priority = 0, rm_tools = {}, rm_interfaces = {}, rm_capabilities = {''net''},
     rm_compatibility = \<lparr>co_minimum = 1, co_maximum = None\<rparr>, rm_invalidation = {}, rm_reload = Retain\<rparr>"

definition sample_layer :: layer_policy where
  "sample_layer = \<lparr>lp_plugin = ''l'', lp_priority = 0, lp_required = True, lp_enabled = True\<rparr>"

definition layer_plugin :: plugin_manifest where
  "layer_plugin = (resource_only_manifest ''l'')\<lparr>pm_execution := Embedded, pm_services := [\<lparr>sc_service = ''svc@1'',
     sc_role = Layer, sc_priority = 0, sc_required = {}\<rparr>]\<rparr>"

definition sample_inputs :: resolution_inputs where
  "sample_inputs = inputs_new [] [sample_resource ''r'' {''q''}, sample_resource ''q'' {}] [] [(''svc@1'', [sample_layer])] []"

lemma sample_plugins_config:
  "\<exists>c. config_new 1 [resource_only_manifest ''a'', layer_plugin] = Some (Inr c)"
  by (simp add: config_new_def prepare_config_def validate_namespaces_def validate_contributions_def bt_has_def
      resolve_runtime_providers_def resolve_runtime_bindings_def add_runtime_provider_def add_runtime_binding_def
      resource_only_manifest_def layer_plugin_def dependency_order_def check_known_def plugin_succ_def
      runtime_provider_runtime_def strip_prefix_opt_def provider_prefix_def)

lemma empty_graph: "compile_graph [resource_only_manifest ''a'', layer_plugin] [] ceiling policy = Some (Inr graph_empty)"
  by (simp add: compile_graph_def resource_only_manifest_def layer_plugin_def bt_has_def resolve_all_def
      validate_required_import_dag_def validate_subscriptions_def index_subscriptions_def validate_dependencies_def
      event_keys_def graph_empty_def)

text \<open>The same with two layers, one of them not required and so not present.\<close>

definition spare_layer :: layer_policy where
  "spare_layer = \<lparr>lp_plugin = ''k'', lp_priority = 0, lp_required = False, lp_enabled = True\<rparr>"

definition layered_inputs :: resolution_inputs where
  "layered_inputs = sample_inputs\<lparr>in_layers := [(''svc@1'', [sample_layer, spare_layer])]\<rparr>"

lemma layers_resolve:
  assumes "ls = [sample_layer] \<or> ls = [sample_layer, spare_layer]"
  shows "\<exists>h. resolve_with_inputs digest 1 [layer_plugin, resource_only_manifest ''a''] []
    (sample_inputs\<lparr>in_layers := [(''svc@1'', ls)]\<rparr>) {''net''} = Some (Inr h)"
proof -
  let ?inputs = "sample_inputs\<lparr>in_layers := [(''svc@1'', ls)]\<rparr>"
  have "resolve_resources (in_resources ?inputs) [] {''net''} = Inr [sample_resource ''q'' {}, sample_resource ''r'' {''q''}]"
    by (simp add: sample_inputs_def inputs_new_def resolve_resources_def add_resource_def validate_resource_def
        validate_compatibility_def kernel_compatibility_version_def sample_resource_def bt_has_def check_resource_def
        refuse_first_def permits_def)
  moreover have "sort_key pm_id [layer_plugin, resource_only_manifest ''a''] = [resource_only_manifest ''a'', layer_plugin]"
    by (simp add: layer_plugin_def resource_only_manifest_def)
  moreover have "validate_layer_policies [resource_only_manifest ''a'', layer_plugin] (in_layers ?inputs) {''net''} = Inr ()"
    using assms by (auto simp: validate_layer_policies_def sample_layer_def spare_layer_def layer_available_def
        layer_plugin_def resource_only_manifest_def permits_all_def)
  moreover obtain c where "config_new 1 [resource_only_manifest ''a'', layer_plugin] = Some (Inr c)"
    using sample_plugins_config by blast
  moreover obtain kc where "with_layers (wrap_succ64 1) (sort_layers [(''svc@1'', ls)]) c = Inr kc"
    using assms by (auto simp: sort_layers_def with_layer_policy_def sample_layer_def spare_layer_def layer_le_def)
  ultimately show ?thesis
    by (simp add: resolve_with_inputs_def assemble_def empty_graph try_resolve_def sample_inputs_def inputs_new_def
        resolve_durable_schemas_def Let_def)
qed

lemma sample_resolves:
  "\<exists>h. resolve_with_inputs digest 1 [layer_plugin, resource_only_manifest ''a''] [] sample_inputs {''net''} = Some (Inr h)"
  "\<exists>h. resolve_with_inputs digest 1 [layer_plugin, resource_only_manifest ''a''] [] layered_inputs {''net''} = Some (Inr h)"
proof -
  have "sample_inputs\<lparr>in_layers := [(''svc@1'', [sample_layer])]\<rparr> = sample_inputs" by (simp add: sample_inputs_def inputs_new_def)
  with layers_resolve [of "[sample_layer]" digest]
  show "\<exists>h. resolve_with_inputs digest 1 [layer_plugin, resource_only_manifest ''a''] [] sample_inputs {''net''} = Some (Inr h)" by simp
  from layers_resolve [of "[sample_layer, spare_layer]" digest]
  show "\<exists>h. resolve_with_inputs digest 1 [layer_plugin, resource_only_manifest ''a''] [] layered_inputs {''net''} = Some (Inr h)"
    by (simp add: layered_inputs_def)
qed

theorem resolved_harness_is_coherent_witness:
  "\<exists>h. resolve_with_inputs (\<lambda>_. ''g'') 1 [layer_plugin, resource_only_manifest ''a''] [] sample_inputs {''net''} = Some (Inr h) \<and>
     coherent (\<lambda>_. ''g'') {''net''} h"
proof -
  obtain h where h: "resolve_with_inputs (\<lambda>_. ''g'') 1 [layer_plugin, resource_only_manifest ''a''] [] sample_inputs {''net''} = Some (Inr h)"
    using sample_resolves(1) by blast
  have "bt_ok (in_layers sample_inputs)" "\<forall>r\<in>set (in_resources sample_inputs). finite_resource r"
    by (simp_all add: sample_inputs_def inputs_new_def sample_resource_def finite_resource_def)
  from resolved_harness_is_coherent [OF this, where digest = "\<lambda>_. ''g''" and i = 1 and
      pms = "[layer_plugin, resource_only_manifest ''a'']" and cms = "[]" and ceiling = "{''net''}"] h
  show ?thesis by simp
qed


text \<open>
  A management request does not repeat the check of required layers (nor that of resources): dropping the plugin
  of a required layer from a coherent harness gives a harness, although resolving the same plugin set with the same
  layer policies is refused.
\<close>

lemma management_skips_required_layers:
  "\<exists>h h'. coherent (\<lambda>_. ''g'') {''net''} h \<and>
     with_plugin_set (\<lambda>_. ''g'') 3 h [resource_only_manifest ''a''] [] {''net''} = Some (Inr h') \<and>
     \<not> required_layers_ok (ha_plugins h') {''net''} (ha_layers h')"
proof -
  obtain h where h: "resolve_with_inputs (\<lambda>_. ''g'') 1 [layer_plugin, resource_only_manifest ''a''] [] sample_inputs {''net''} = Some (Inr h)"
    using sample_resolves(1) by blast
  have "bt_ok (in_layers sample_inputs)" "\<forall>r\<in>set (in_resources sample_inputs). finite_resource r"
    by (simp_all add: sample_inputs_def inputs_new_def sample_resource_def finite_resource_def)
  from resolved_coherent [OF this, where digest = "\<lambda>_. ''g''" and i = 1 and
      pms = "[layer_plugin, resource_only_manifest ''a'']" and cms = "[]" and ceiling = "{''net''}"] h
  have c: "coherent (\<lambda>_. ''g'') {''net''} h" by simp
  have l: "ha_layers h = [(''svc@1'', [sample_layer])]" "ha_schemas h = []"
    using h by (auto simp: resolve_with_inputs_def Let_def assemble_def sample_inputs_def inputs_new_def sort_layers_def
        resolve_durable_schemas_def rbind_eq_Inr split: sum.splits option.splits)
  obtain k where k: "config_new 3 [resource_only_manifest ''a''] = Some (Inr k)"
    by (simp add: config_new_def prepare_config_def validate_namespaces_def validate_contributions_def bt_has_def
        resolve_runtime_providers_def resolve_runtime_bindings_def add_runtime_binding_def
        resource_only_manifest_def dependency_order_def check_known_def plugin_succ_def)
  have g: "compile_graph [resource_only_manifest ''a''] [] {''net''} policy = Some (Inr graph_empty)" for policy
    by (simp add: compile_graph_def resource_only_manifest_def bt_has_def resolve_all_def
      validate_required_import_dag_def validate_subscriptions_def index_subscriptions_def validate_dependencies_def
      event_keys_def graph_empty_def)
  from k g l obtain h' where "with_plugin_set (\<lambda>_. ''g'') 3 h [resource_only_manifest ''a''] [] {''net''} = Some (Inr h')"
    "ha_plugins h' = [resource_only_manifest ''a'']" "ha_layers h' = [(''svc@1'', [sample_layer])]"
    by (simp add: with_plugin_set_def assemble_def with_layer_policy_def resolve_durable_schemas_def sample_layer_def)
  moreover have "\<not> required_layers_ok [resource_only_manifest ''a''] {''net''} [(''svc@1'', [sample_layer])]"
    by (simp add: required_layers_ok_def sample_layer_def layer_available_def resource_only_manifest_def)
  ultimately show ?thesis using c by metis
qed

end
