(* ===== verification/Reconciliation.thy ===== *)
theory Reconciliation
  imports Harness
begin

text \<open>
  From one generation to the next (\<open>phenix-core/src/reconciliation.rs\<close>): the difference between two resolved
  harnesses, the plan that a change of generation follows, with the components that must be restarted because
  something they require was reconfigured, and the reconciler that holds the active harness.

  The recursion that collects dependents is bounded by fuel; more fuel than components is enough.
\<close>

subsection \<open>The difference\<close>

datatype component_change_kind = ComponentAdded | ComponentRemoved | ComponentReconfigured

record component_change =
  cch_component :: component_id
  cch_kind :: component_change_kind

record binding_change =
  bch_importer :: component_id
  bch_interface :: interface_id
  bch_previous :: "component_id option"
  bch_next :: "component_id option"
  bch_authority :: bool

record interposition_change =
  ich_service :: service_id
  ich_previous :: "layer_policy list"
  ich_next :: "layer_policy list"

datatype resource_change_kind =
  ResourceAdded | ResourceRemoved | ResourceContentChanged | ResourceReconfigured | ResourceUpgraded

record resource_change =
  rch_resource :: string
  rch_kind :: resource_change_kind
  rch_targets :: "string set"

record graph_diff =
  gd_components :: "component_change list"
  gd_bindings :: "binding_change list"
  gd_interposition :: "interposition_change list"
  gd_resources :: "resource_change list"

text \<open>\<open>collect\<close> into a \<open>BTreeMap\<close>: of equal keys the last wins. The keys of two maps, in order.\<close>

definition collect_map :: "('a \<Rightarrow> 'k::linorder) \<Rightarrow> ('a \<Rightarrow> 'v) \<Rightarrow> 'a list \<Rightarrow> ('k, 'v) btree" where
  "collect_map key val xs = foldl (\<lambda>m x. bt_insert (key x) (val x) m) [] xs"

definition both_keys :: "('k::linorder, 'a) btree \<Rightarrow> ('k, 'b) btree \<Rightarrow> 'k list" where
  "both_keys m n = sorted_list_of_set (set (bt_keys m) \<union> set (bt_keys n))"

definition component_changes :: "harness \<Rightarrow> harness \<Rightarrow> component_change list" where
  "component_changes previous subsequent =
     (let p = collect_map cm_id (\<lambda>c. c) (ha_components previous);
          n = collect_map cm_id (\<lambda>c. c) (ha_components subsequent)
      in filter_map (\<lambda>c. case (bt_get p c, bt_get n c) of
             (None, Some _) \<Rightarrow> Some \<lparr>cch_component = c, cch_kind = ComponentAdded\<rparr>
           | (Some _, None) \<Rightarrow> Some \<lparr>cch_component = c, cch_kind = ComponentRemoved\<rparr>
           | (Some a, Some b) \<Rightarrow>
               if a \<noteq> b then Some \<lparr>cch_component = c, cch_kind = ComponentReconfigured\<rparr> else None
           | (None, None) \<Rightarrow> None) (both_keys p n))"

type_synonym binding_state = "component_id option \<times> authority option"

definition binding_states :: "harness \<Rightarrow> (component_id \<times> interface_id, binding_state) btree" where
  "binding_states h = collect_map fst snd (concat (map (\<lambda>rc. map (\<lambda>i.
     ((rc_id rc, ri_interface i), (map_option ih_exporter (ri_binding i), map_option ih_authority (ri_binding i))))
       (rc_imports rc)) (bt_vals (cg_components (ha_graph h)))))"

definition binding_changes :: "harness \<Rightarrow> harness \<Rightarrow> binding_change list" where
  "binding_changes previous subsequent =
     (let p = binding_states previous; n = binding_states subsequent
      in filter_map (\<lambda>k.
           if bt_get p k = bt_get n k then None
           else Some \<lparr>bch_importer = fst k, bch_interface = snd k,
             bch_previous = Option.bind (bt_get p k) fst, bch_next = Option.bind (bt_get n k) fst,
             bch_authority = (Option.bind (bt_get p k) snd \<noteq> Option.bind (bt_get n k) snd)\<rparr>) (both_keys p n))"

definition layers_of :: "layer_policies \<Rightarrow> service_id \<Rightarrow> layer_policy list" where
  "layers_of m s = (case bt_get m s of Some ls \<Rightarrow> ls | None \<Rightarrow> [])"

definition interposition_changes :: "harness \<Rightarrow> harness \<Rightarrow> interposition_change list" where
  "interposition_changes previous subsequent =
     filter_map (\<lambda>s. let p = layers_of (ha_layers previous) s; n = layers_of (ha_layers subsequent) s
       in if p \<noteq> n then Some \<lparr>ich_service = s, ich_previous = p, ich_next = n\<rparr> else None)
       (both_keys (ha_layers previous) (ha_layers subsequent))"

definition change_kind_of :: "resource_metadata \<Rightarrow> resource_metadata \<Rightarrow> resource_change_kind" where
  "change_kind_of a b =
     (if rm_content a \<noteq> rm_content b then ResourceContentChanged
      else if rm_version a \<noteq> rm_version b then ResourceUpgraded else ResourceReconfigured)"

definition resource_changes :: "harness \<Rightarrow> harness \<Rightarrow> resource_change list" where
  "resource_changes previous subsequent =
     (let p = collect_map rm_identity (\<lambda>r. r) (ha_resources previous);
          n = collect_map rm_identity (\<lambda>r. r) (ha_resources subsequent)
      in filter_map (\<lambda>i. case (bt_get p i, bt_get n i) of
             (None, Some r) \<Rightarrow> Some \<lparr>rch_resource = i, rch_kind = ResourceAdded, rch_targets = rm_invalidation r\<rparr>
           | (Some r, None) \<Rightarrow> Some \<lparr>rch_resource = i, rch_kind = ResourceRemoved, rch_targets = rm_invalidation r\<rparr>
           | (Some a, Some b) \<Rightarrow>
               if a \<noteq> b then Some \<lparr>rch_resource = i, rch_kind = change_kind_of a b,
                 rch_targets = rm_invalidation a \<union> rm_invalidation b\<rparr> else None
           | (None, None) \<Rightarrow> None) (both_keys p n))"

definition diff_between :: "harness \<Rightarrow> harness \<Rightarrow> graph_diff" where
  "diff_between previous subsequent =
     \<lparr>gd_components = component_changes previous subsequent, gd_bindings = binding_changes previous subsequent,
       gd_interposition = interposition_changes previous subsequent,
       gd_resources = resource_changes previous subsequent\<rparr>"

definition diff_is_empty :: "graph_diff \<Rightarrow> bool" where
  "diff_is_empty d \<longleftrightarrow> gd_components d = [] \<and> gd_bindings d = [] \<and> gd_interposition d = [] \<and> gd_resources d = []"

subsection \<open>The plan\<close>

datatype reconciliation_action =
  ActivateComponent component_id
| StopComponent component_id
| RestartComponent component_id
| RebindImport component_id interface_id "component_id option" "component_id option" bool
| ReconfigureInterposition service_id "layer_policy list" "layer_policy list"
| InvalidateResourceDerivedState string "string set"

definition requires_from :: "component_id \<Rightarrow> resolved_component \<Rightarrow> bool" where
  "requires_from provider rc \<longleftrightarrow> list_ex (\<lambda>i. ri_required i \<and>
     (case ri_binding i of Some b \<Rightarrow> ih_exporter b = provider | None \<Rightarrow> False)) (rc_imports rc)"

definition direct_dependents :: "component_graph \<Rightarrow> component_id \<Rightarrow> component_id list" where
  "direct_dependents g provider = map rc_id (filter (requires_from provider) (bt_vals (cg_components g)))"

function (sequential) collect_dependents ::
    "nat \<Rightarrow> component_graph \<Rightarrow> component_id \<Rightarrow> component_id set \<Rightarrow> component_id set option"
  and collect_each ::
    "nat \<Rightarrow> component_graph \<Rightarrow> component_id list \<Rightarrow> component_id set \<Rightarrow> component_id set option" where
  "collect_dependents 0 g provider affected = None"
| "collect_dependents (Suc n) g provider affected = collect_each n g (direct_dependents g provider) affected"
| "collect_each n g [] affected = Some affected"
| "collect_each n g (d # ds) affected =
     (if d \<in> affected then collect_each n g ds affected
      else case collect_dependents n g d (insert d affected) of
             None \<Rightarrow> None
           | Some affected' \<Rightarrow> collect_each n g ds affected')"
  by pat_completeness auto
termination
  by (relation "inv_image (less_than <*lex*> less_than)
      (\<lambda>x. case x of Inl (n, _, _, _) \<Rightarrow> (n, 0) | Inr (n, _, ds, _) \<Rightarrow> (n, Suc (length ds)))") auto

definition all_dependents :: "component_graph \<Rightarrow> component_id \<Rightarrow> component_id set \<Rightarrow> component_id set option" where
  "all_dependents g = collect_dependents (Suc (length (cg_components g))) g"

fun restart_set ::
    "harness \<Rightarrow> harness \<Rightarrow> component_change list \<Rightarrow> component_id set \<Rightarrow> component_id set option" where
  "restart_set previous subsequent [] restart = Some restart"
| "restart_set previous subsequent (c # cs) restart =
     (if cch_kind c = ComponentReconfigured then
        (case all_dependents (ha_graph previous) (cch_component c) (insert (cch_component c) restart) of
           None \<Rightarrow> None
         | Some r1 \<Rightarrow>
             (case all_dependents (ha_graph subsequent) (cch_component c) r1 of
                None \<Rightarrow> None
              | Some r2 \<Rightarrow> restart_set previous subsequent cs r2))
      else restart_set previous subsequent cs restart)"

definition lifecycle_actions :: "component_change list \<Rightarrow> reconciliation_action list" where
  "lifecycle_actions cs = filter_map (\<lambda>c. case cch_kind c of
     ComponentAdded \<Rightarrow> Some (ActivateComponent (cch_component c))
   | ComponentRemoved \<Rightarrow> Some (StopComponent (cch_component c))
   | ComponentReconfigured \<Rightarrow> None) cs"

definition transition_plan :: "harness \<Rightarrow> harness \<Rightarrow> graph_diff \<Rightarrow> reconciliation_action list option" where
  "transition_plan previous subsequent d =
     map_option (\<lambda>restart.
       lifecycle_actions (gd_components d) @
       map RestartComponent (sorted_list_of_set restart) @
       map (\<lambda>c. RebindImport (bch_importer c) (bch_interface c) (bch_previous c) (bch_next c) (bch_authority c))
         (gd_bindings d) @
       map (\<lambda>c. ReconfigureInterposition (ich_service c) (ich_previous c) (ich_next c)) (gd_interposition d) @
       map (\<lambda>c. InvalidateResourceDerivedState (rch_resource c) (rch_targets c))
         (filter (\<lambda>c. rch_targets c \<noteq> {}) (gd_resources d)))
     (restart_set previous subsequent (gd_components d) {})"

subsection \<open>The reconciler\<close>

record preview =
  pv_active :: graph_generation_id
  pv_candidate :: graph_generation_id
  pv_diff :: graph_diff
  pv_plan :: "reconciliation_action list"

record reconciliation_result =
  rr_previous :: graph_generation_id
  rr_active :: graph_generation_id
  rr_diff :: graph_diff
  rr_plan :: "reconciliation_action list"

definition preview_candidate :: "harness \<Rightarrow> harness \<Rightarrow> preview option" where
  "preview_candidate active candidate =
     (let d = diff_between active candidate
      in map_option (\<lambda>plan. \<lparr>pv_active = ha_generation active, pv_candidate = ha_generation candidate, pv_diff = d,
           pv_plan = plan\<rparr>) (transition_plan active candidate d))"

definition result_of_preview :: "preview \<Rightarrow> reconciliation_result" where
  "result_of_preview p = \<lparr>rr_previous = pv_active p, rr_active = pv_candidate p, rr_diff = pv_diff p, rr_plan = pv_plan p\<rparr>"

text \<open>The reconciler is its active harness; activating a candidate replaces it.\<close>

definition activate_candidate :: "harness \<Rightarrow> harness \<Rightarrow> (reconciliation_result \<times> harness) option" where
  "activate_candidate active candidate =
     map_option (\<lambda>p. (result_of_preview p, candidate)) (preview_candidate active candidate)"

definition reconcile ::
    "digest \<Rightarrow> nat \<Rightarrow> harness \<Rightarrow> plugin_manifest list \<Rightarrow> component_manifest list \<Rightarrow> config_contribution list \<Rightarrow> authority
     \<Rightarrow> ((harness_error + reconciliation_result) \<times> harness) option" where
  "reconcile digest identity active pms cms contributions ceiling =
     (case harness_resolve digest identity pms cms contributions ceiling of
        None \<Rightarrow> None
      | Some (Inl e) \<Rightarrow> Some (Inl e, active)
      | Some (Inr candidate) \<Rightarrow> map_option (\<lambda>(r, active'). (Inr r, active')) (activate_candidate active candidate))"

definition reconcile_with_resources ::
    "digest \<Rightarrow> nat \<Rightarrow> harness \<Rightarrow> plugin_manifest list \<Rightarrow> component_manifest list \<Rightarrow> resource_metadata list
     \<Rightarrow> config_contribution list \<Rightarrow> authority \<Rightarrow> ((harness_error + reconciliation_result) \<times> harness) option" where
  "reconcile_with_resources digest identity active pms cms resources contributions ceiling =
     (case resolve_with_resources digest identity pms cms resources contributions ceiling of
        None \<Rightarrow> None
      | Some (Inl e) \<Rightarrow> Some (Inl e, active)
      | Some (Inr candidate) \<Rightarrow> map_option (\<lambda>(r, active'). (Inr r, active')) (activate_candidate active candidate))"

definition reconcile_frontends ::
    "digest \<Rightarrow> nat \<Rightarrow> harness \<Rightarrow> plugin_manifest list \<Rightarrow> component_manifest list \<Rightarrow> frontend_metadata list
     \<Rightarrow> (frontend_id \<times> frontend_contribution) list \<Rightarrow> authority
     \<Rightarrow> ((harness_error + reconciliation_result) \<times> harness) option" where
  "reconcile_frontends digest identity active pms cms metadata offers ceiling =
     (case resolve_frontends digest identity pms cms metadata offers ceiling of
        None \<Rightarrow> None
      | Some (Inl e) \<Rightarrow> Some (Inl e, active)
      | Some (Inr candidate) \<Rightarrow> map_option (\<lambda>(r, active'). (Inr r, active')) (activate_candidate active candidate))"

subsection \<open>Collecting dependents\<close>

text \<open>Every component that requires one of a set, directly or through others.\<close>

definition depends :: "component_graph \<Rightarrow> (component_id \<times> component_id) set" where
  "depends g = {(p, d). d \<in> set (direct_dependents g p)}"

lemma depends_image: "depends g `` {p} = set (direct_dependents g p)"
  by (auto simp: depends_def)

lemma collect_sound:
  "collect_dependents n g p A = Some A' \<Longrightarrow> A \<subseteq> A' \<and> depends g `` {p} \<subseteq> A' \<and>
     (\<forall>x\<in>A' - A. depends g `` {x} \<subseteq> A' \<and> (p, x) \<in> (depends g)\<^sup>*)"
  "collect_each n g ds A = Some A' \<Longrightarrow> A \<subseteq> A' \<and> set ds \<subseteq> A' \<and>
     (\<forall>x\<in>A' - A. depends g `` {x} \<subseteq> A' \<and> (\<exists>d\<in>set ds. (d, x) \<in> (depends g)\<^sup>*))"
proof (induction n g p A and n g ds A arbitrary: A' and A' rule: collect_dependents_collect_each.induct)
  case (2 n g p A)
  then have h: "A \<subseteq> A'" "set (direct_dependents g p) \<subseteq> A'"
    "\<forall>x\<in>A' - A. depends g `` {x} \<subseteq> A' \<and> (\<exists>d\<in>set (direct_dependents g p). (d, x) \<in> (depends g)\<^sup>*)"
    by auto
  have "(p, x) \<in> (depends g)\<^sup>*" if "d \<in> set (direct_dependents g p)" "(d, x) \<in> (depends g)\<^sup>*" for d x
    using that by (auto simp: depends_def intro: converse_rtrancl_into_rtrancl)
  with h show ?case unfolding depends_image by blast
next
  case (4 n g d ds A)
  show ?case
  proof (cases "d \<in> A")
    case True
    with 4 show ?thesis by auto
  next
    case False
    with 4(4) obtain A1 where A1: "collect_dependents n g d (insert d A) = Some A1" "collect_each n g ds A1 = Some A'"
      by (auto split: option.splits)
    note h1 = 4(2) [OF False A1(1)] and h2 = 4(3) [OF False A1]
    have "depends g `` {x} \<subseteq> A' \<and> (\<exists>d'\<in>set (d # ds). (d', x) \<in> (depends g)\<^sup>*)" if x: "x \<in> A' - A" for x
    proof (cases "x \<in> A1")
      case True
      show ?thesis
      proof (cases "x = d")
        case True
        with h1 h2 show ?thesis by auto
      next
        case False
        with True x h1 have "depends g `` {x} \<subseteq> A1" "(d, x) \<in> (depends g)\<^sup>*" by blast+
        with h2 show ?thesis by auto
      qed
    next
      case False
      with x h2 show ?thesis by auto
    qed
    with h1 h2 show ?thesis by auto
  qed
qed auto

definition component_ids :: "component_graph \<Rightarrow> component_id set" where
  "component_ids g = rc_id ` set (bt_vals (cg_components g))"

lemma finite_component_ids: "finite (component_ids g)" "card (component_ids g) \<le> length (cg_components g)"
proof -
  show "finite (component_ids g)" by (simp add: component_ids_def)
  have "card (component_ids g) \<le> card (set (bt_vals (cg_components g)))"
    unfolding component_ids_def by (rule card_image_le) simp
  also have "\<dots> \<le> length (cg_components g)" using card_length [of "bt_vals (cg_components g)"] by (simp add: bt_vals_def)
  finally show "card (component_ids g) \<le> length (cg_components g)" .
qed

lemma direct_in_graph: "set (direct_dependents g p) \<subseteq> component_ids g"
  by (auto simp: direct_dependents_def component_ids_def)

lemma collect_returns:
  "card (component_ids g - A) < n \<Longrightarrow> collect_dependents n g p A \<noteq> None"
  "card (component_ids g - A) \<le> n \<Longrightarrow> set ds \<subseteq> component_ids g \<Longrightarrow> collect_each n g ds A \<noteq> None"
proof (induction n g p A and n g ds A rule: collect_dependents_collect_each.induct)
  case (2 n g p A)
  with direct_in_graph [of g p] show ?case by simp
next
  case (4 n g d ds A)
  show ?case
  proof (cases "d \<in> A")
    case False
    with 4(5) have "component_ids g - insert d A \<subset> component_ids g - A" by auto
    then have "card (component_ids g - insert d A) < card (component_ids g - A)"
      using finite_component_ids(1) by (intro psubset_card_mono) auto
    with 4(2,4) False obtain A1 where A1: "collect_dependents n g d (insert d A) = Some A1" by fastforce
    from collect_sound(1) [OF A1] have "component_ids g - A1 \<subseteq> component_ids g - A" by auto
    then have "card (component_ids g - A1) \<le> card (component_ids g - A)"
      using finite_component_ids(1) by (intro card_mono) auto
    with 4(3) [OF False A1] 4(4,5) False A1 show ?thesis by simp
  qed (use 4 in simp)
qed auto

lemma all_dependents_returns: "all_dependents g p A \<noteq> None"
proof -
  have "card (component_ids g - A) \<le> card (component_ids g)" using finite_component_ids(1) by (intro card_mono) auto
  with finite_component_ids(2) [of g] have "card (component_ids g - A) < Suc (length (cg_components g))" by simp
  then show ?thesis unfolding all_dependents_def by (rule collect_returns(1))
qed

lemma all_dependents_sound:
  "all_dependents g p A = Some A' \<Longrightarrow> A \<subseteq> A' \<and> depends g `` {p} \<subseteq> A' \<and>
     (\<forall>x\<in>A' - A. depends g `` {x} \<subseteq> A' \<and> (p, x) \<in> (depends g)\<^sup>*)"
  unfolding all_dependents_def by (rule collect_sound(1))

definition reconfigured :: "component_change list \<Rightarrow> component_id set" where
  "reconfigured cs = {cch_component c | c. c \<in> set cs \<and> cch_kind c = ComponentReconfigured}"

lemma reconfigured_simps [simp]:
  "reconfigured [] = {}"
  "reconfigured (c # cs) = (if cch_kind c = ComponentReconfigured then insert (cch_component c) (reconfigured cs) else reconfigured cs)"
  by (auto simp: reconfigured_def)

lemma restart_set_returns: "restart_set previous subsequent cs R \<noteq> None"
proof (induction cs arbitrary: R)
  case (Cons c cs)
  obtain r1 where r1: "all_dependents (ha_graph previous) (cch_component c) (insert (cch_component c) R) = Some r1"
    using all_dependents_returns by blast
  obtain r2 where "all_dependents (ha_graph subsequent) (cch_component c) r1 = Some r2"
    using all_dependents_returns by blast
  with r1 Cons show ?case by simp
qed simp

lemma restart_set_bounds:
  "restart_set previous subsequent cs R = Some R' \<Longrightarrow> R \<union> reconfigured cs \<subseteq> R' \<and>
     (depends (ha_graph previous) \<union> depends (ha_graph subsequent)) `` reconfigured cs \<subseteq> R' \<and>
     (\<forall>x\<in>R' - R. \<exists>c\<in>reconfigured cs. (c, x) \<in> (depends (ha_graph previous) \<union> depends (ha_graph subsequent))\<^sup>*)"
proof (induction cs arbitrary: R)
  case (Cons c cs)
  let ?p = "depends (ha_graph previous)" and ?n = "depends (ha_graph subsequent)" and ?c = "cch_component c"
  have mono: "?p\<^sup>* \<subseteq> (?p \<union> ?n)\<^sup>*" "?n\<^sup>* \<subseteq> (?p \<union> ?n)\<^sup>*" by (simp_all add: rtrancl_mono)
  show ?case
  proof (cases "cch_kind c = ComponentReconfigured")
    case True
    with Cons.prems obtain r1 r2 where r: "all_dependents (ha_graph previous) ?c (insert ?c R) = Some r1"
      "all_dependents (ha_graph subsequent) ?c r1 = Some r2" "restart_set previous subsequent cs r2 = Some R'"
      by (auto split: option.splits)
    note h1 = all_dependents_sound [OF r(1)] and h2 = all_dependents_sound [OF r(2)] and h3 = Cons.IH [OF r(3)]
    have "\<exists>d\<in>reconfigured (c # cs). (d, x) \<in> (?p \<union> ?n)\<^sup>*" if x: "x \<in> R' - R" for x
    proof -
      consider "x = ?c" | "x \<in> r1 - insert ?c R" | "x \<in> r2 - r1" | "x \<in> R' - r2" using x by blast
      then show ?thesis
      proof cases
        case 4
        with h3 True show ?thesis by auto
      qed (use h1 h2 mono True in auto)
    qed
    moreover have "?p `` {?c} \<union> ?n `` {?c} \<subseteq> R'" using h1 h2 h3 by blast
    moreover have "R \<union> reconfigured (c # cs) \<subseteq> R'" using h1 h2 h3 True by auto
    ultimately show ?thesis using h3 True by auto
  next
    case False
    with Cons show ?thesis by auto
  qed
qed simp

lemma restart_set_closed:
  assumes "depends (ha_graph previous) = depends (ha_graph subsequent)"
  shows "restart_set previous subsequent cs R = Some R' \<Longrightarrow> depends (ha_graph subsequent) `` R \<subseteq> R \<Longrightarrow>
     depends (ha_graph subsequent) `` R' \<subseteq> R'"
proof (induction cs arbitrary: R)
  case (Cons c cs)
  let ?c = "cch_component c"
  show ?case
  proof (cases "cch_kind c = ComponentReconfigured")
    case True
    with Cons.prems obtain r1 r2 where r: "all_dependents (ha_graph previous) ?c (insert ?c R) = Some r1"
      "all_dependents (ha_graph subsequent) ?c r1 = Some r2" "restart_set previous subsequent cs r2 = Some R'"
      by (auto split: option.splits)
    note h1 = all_dependents_sound [OF r(1)] and h2 = all_dependents_sound [OF r(2)]
    have "depends (ha_graph subsequent) `` r1 \<subseteq> r1" using h1 Cons.prems(2) assms by blast
    then have "depends (ha_graph subsequent) `` r2 \<subseteq> r2" using h2 by blast
    with Cons.IH [OF r(3)] show ?thesis .
  next
    case False
    with Cons show ?thesis by simp
  qed
qed simp

definition restarted :: "reconciliation_action list \<Rightarrow> component_id set" where
  "restarted plan = {c. RestartComponent c \<in> set plan}"

lemma reachable_in_graph:
  "(p, x) \<in> (depends g \<union> depends k)\<^sup>* \<Longrightarrow> x = p \<or> x \<in> component_ids g \<union> component_ids k"
  by (induction rule: rtrancl_induct) (use direct_in_graph in \<open>auto simp: depends_def\<close>)

lemma finite_restart:
  assumes "restart_set previous subsequent cs {} = Some R"
  shows "finite R"
proof -
  have "reconfigured cs \<subseteq> cch_component ` set cs" by (auto simp: reconfigured_def)
  then have "finite (reconfigured cs)" by (rule finite_subset) simp
  moreover have "R \<subseteq> reconfigured cs \<union> component_ids (ha_graph previous) \<union> component_ids (ha_graph subsequent)"
    using restart_set_bounds [OF assms] reachable_in_graph by blast
  ultimately show ?thesis using finite_component_ids(1) by (meson finite_UnI finite_subset)
qed

lemma lifecycle_no_restart: "RestartComponent c \<notin> set (lifecycle_actions cs)"
proof (induction cs)
  case (Cons x cs)
  then show ?case by (cases "cch_kind x") (simp_all add: lifecycle_actions_def)
qed (simp add: lifecycle_actions_def)

lemma restarted_plan:
  assumes "restart_set previous subsequent (gd_components d) {} = Some R" "transition_plan previous subsequent d = Some plan"
  shows "restarted plan = R"
  using assms finite_restart [OF assms(1)]
  by (auto simp: transition_plan_def restarted_def lifecycle_no_restart)

text \<open>C25: planning a change of generation always returns. The plan restarts every reconfigured component and every
  component that directly requires one of them before or after the change, and nothing but these and components that
  require them through others. When the change leaves the required imports as they were, it restarts exactly the
  reconfigured components and everything that requires them, directly or through others.\<close>

theorem restarts_cover_dependents:
  "\<exists>plan. transition_plan previous subsequent d = Some plan \<and>
     (let C = reconfigured (gd_components d); p = depends (ha_graph previous); n = depends (ha_graph subsequent)
      in C \<union> (p \<union> n) `` C \<subseteq> restarted plan \<and> restarted plan \<subseteq> (p \<union> n)\<^sup>* `` C \<and>
         (p = n \<longrightarrow> restarted plan = n\<^sup>* `` C))"
proof -
  let ?C = "reconfigured (gd_components d)"
  let ?p = "depends (ha_graph previous)" and ?n = "depends (ha_graph subsequent)"
  obtain R where R: "restart_set previous subsequent (gd_components d) {} = Some R"
    using restart_set_returns by blast
  then obtain plan where plan: "transition_plan previous subsequent d = Some plan" by (simp add: transition_plan_def)
  note b = restart_set_bounds [OF R] and r = restarted_plan [OF R plan]
  have up: "R \<subseteq> (?p \<union> ?n)\<^sup>* `` ?C" using b by blast
  have "R = ?n\<^sup>* `` ?C" if eq: "?p = ?n"
  proof
    show "R \<subseteq> ?n\<^sup>* `` ?C" using up eq by simp
    have "?n `` R \<subseteq> R" using restart_set_closed [OF eq R] by simp
    then have "?n\<^sup>* `` R \<subseteq> R" by (rule Image_closed_trancl [THEN equalityD1])
    with b show "?n\<^sup>* `` ?C \<subseteq> R" by blast
  qed
  with plan b up r show ?thesis by (auto simp: Let_def)
qed

subsection \<open>Nothing changed\<close>

lemma filter_map_Nil: "filter_map f xs = [] \<longleftrightarrow> (\<forall>x\<in>set xs. f x = None)"
  by (induction xs) (auto split: option.splits)

lemma set_both_keys: "k \<in> set (both_keys m n) \<longleftrightarrow> bt_get m k \<noteq> None \<or> bt_get n k \<noteq> None"
  by (simp add: both_keys_def) (simp add: set_bt_keys)

lemma bt_ok_collect: "bt_ok (collect_map key val xs)"
proof -
  have "bt_ok m \<Longrightarrow> bt_ok (foldl (\<lambda>m x. bt_insert (key x) (val x) m) m xs)" for m
    by (induction xs arbitrary: m) (auto intro: bt_ok_insert)
  then show ?thesis by (simp add: collect_map_def)
qed

lemma same_map:
  assumes "bt_ok m" "bt_ok n"
  shows "(\<forall>k\<in>set (both_keys m n). bt_get m k = bt_get n k) \<longleftrightarrow> m = n"
proof
  assume a: "\<forall>k\<in>set (both_keys m n). bt_get m k = bt_get n k"
  have "bt_get m k = bt_get n k" for k
  proof (cases "k \<in> set (both_keys m n)")
    case False
    then show ?thesis unfolding set_both_keys by simp
  qed (use a in blast)
  with assms show "m = n" by (intro bt_ext)
qed simp

lemma collect_sorted:
  assumes "sorted_wrt (<) (map key xs)"
  shows "collect_map key (\<lambda>x. x) xs = map (\<lambda>x. (key x, x)) xs"
proof -
  have "bt_ok (m @ map (\<lambda>x. (key x, x)) xs) \<Longrightarrow>
      foldl (\<lambda>m x. bt_insert (key x) x m) m xs = m @ map (\<lambda>x. (key x, x)) xs" for m
  proof (induction xs arbitrary: m)
    case (Cons x xs)
    from Cons.prems have "bt_ok (m @ [(key x, x)])" by (auto simp: bt_ok_def sorted_wrt_append)
    from bt_insert_last [OF this] Cons.IH [of "m @ [(key x, x)]"] Cons.prems show ?case by simp
  qed simp
  from this [of "[]"] assms show ?thesis by (simp add: collect_map_def bt_ok_def comp_def)
qed

lemma collect_inj:
  assumes "sorted_wrt (<) (map key xs)" "sorted_wrt (<) (map key ys)"
  shows "collect_map key (\<lambda>x. x) xs = collect_map key (\<lambda>x. x) ys \<longleftrightarrow> xs = ys"
proof
  assume "collect_map key (\<lambda>x. x) xs = collect_map key (\<lambda>x. x) ys"
  then have "map snd (map (\<lambda>x. (key x, x)) xs) = map snd (map (\<lambda>x. (key x, x)) ys)"
    by (simp only: collect_sorted [OF assms(1)] collect_sorted [OF assms(2)])
  then show "xs = ys" by (simp add: comp_def)
qed simp

definition ordered_harness :: "harness \<Rightarrow> bool" where
  "ordered_harness h \<longleftrightarrow> sorted_wrt (<) (map cm_id (ha_components h)) \<and> sorted_wrt (<) (map rm_identity (ha_resources h))"

lemma no_component_changes:
  assumes "ordered_harness a" "ordered_harness b"
  shows "component_changes a b = [] \<longleftrightarrow> ha_components a = ha_components b"
proof -
  let ?p = "collect_map cm_id (\<lambda>c. c) (ha_components a)" and ?n = "collect_map cm_id (\<lambda>c. c) (ha_components b)"
  have "component_changes a b = [] \<longleftrightarrow> (\<forall>k\<in>set (both_keys ?p ?n). bt_get ?p k = bt_get ?n k)"
    unfolding component_changes_def Let_def filter_map_Nil
    by (intro ball_cong refl) (auto split: option.splits)
  also have "\<dots> \<longleftrightarrow> ?p = ?n" by (rule same_map) (rule bt_ok_collect)+
  also have "\<dots> \<longleftrightarrow> ha_components a = ha_components b"
    using assms by (intro collect_inj) (simp_all add: ordered_harness_def)
  finally show ?thesis .
qed

lemma no_resource_changes:
  assumes "ordered_harness a" "ordered_harness b"
  shows "resource_changes a b = [] \<longleftrightarrow> ha_resources a = ha_resources b"
proof -
  let ?p = "collect_map rm_identity (\<lambda>c. c) (ha_resources a)" and ?n = "collect_map rm_identity (\<lambda>c. c) (ha_resources b)"
  have "resource_changes a b = [] \<longleftrightarrow> (\<forall>k\<in>set (both_keys ?p ?n). bt_get ?p k = bt_get ?n k)"
    unfolding resource_changes_def Let_def filter_map_Nil
    by (intro ball_cong refl) (auto split: option.splits)
  also have "\<dots> \<longleftrightarrow> ?p = ?n" by (rule same_map) (rule bt_ok_collect)+
  also have "\<dots> \<longleftrightarrow> ha_resources a = ha_resources b"
    using assms by (intro collect_inj) (simp_all add: ordered_harness_def)
  finally show ?thesis .
qed

lemma no_binding_changes: "binding_changes a b = [] \<longleftrightarrow> binding_states a = binding_states b"
proof -
  have "binding_changes a b = [] \<longleftrightarrow> (\<forall>k\<in>set (both_keys (binding_states a) (binding_states b)).
      bt_get (binding_states a) k = bt_get (binding_states b) k)"
    by (auto simp: binding_changes_def Let_def filter_map_Nil split: if_splits)
  also have "\<dots> \<longleftrightarrow> binding_states a = binding_states b"
    by (rule same_map) (simp_all add: binding_states_def bt_ok_collect)
  finally show ?thesis .
qed

lemma no_interposition_changes:
  "interposition_changes a b = [] \<longleftrightarrow> (\<forall>s. layers_of (ha_layers a) s = layers_of (ha_layers b) s)"
proof -
  have "layers_of (ha_layers a) s = layers_of (ha_layers b) s" if "s \<notin> set (both_keys (ha_layers a) (ha_layers b))" for s
    using that unfolding set_both_keys by (simp add: layers_of_def)
  then show ?thesis by (auto simp: interposition_changes_def Let_def filter_map_Nil split: if_splits)
qed

text \<open>the difference of two generations is empty exactly when they have the same components, the same resources,
  the same layers around every service, and every import bound to the same provider with the same authority.\<close>

lemma empty_diff_means_no_change:
  assumes "ordered_harness a" "ordered_harness b"
  shows "diff_is_empty (diff_between a b) \<longleftrightarrow> ha_components a = ha_components b \<and> ha_resources a = ha_resources b \<and>
    (\<forall>s. layers_of (ha_layers a) s = layers_of (ha_layers b) s) \<and> binding_states a = binding_states b"
  using no_component_changes [OF assms] no_resource_changes [OF assms] no_binding_changes [of a b]
    no_interposition_changes [of a b]
  by (auto simp: diff_is_empty_def diff_between_def)

subsection \<open>Instances\<close>

definition required_import :: "component_id \<Rightarrow> component_id \<Rightarrow> resolved_import" where
  "required_import importer provider = \<lparr>ri_interface = ''i@1'', ri_required = True,
     ri_binding = Some \<lparr>ih_importer = importer, ih_interface = ''i@1'', ih_exporter = provider, ih_plugin = ''p'',
       ih_execution = Embedded, ih_authority = {}\<rparr>, ri_fallbacks = [], ri_reason = Some StableIdentity\<rparr>"

definition node_of :: "component_id \<Rightarrow> component_id list \<Rightarrow> component_id \<times> resolved_component" where
  "node_of c providers = (c, \<lparr>rc_id = c, rc_plugin = ''p'', rc_execution = Embedded,
     rc_imports = map (required_import c) providers, rc_maximum = {}\<rparr>)"

definition sample_harness :: "(component_id \<times> component_id list) list \<Rightarrow> harness" where
  "sample_harness nodes = \<lparr>ha_generation = ''g'', ha_plugins = [], ha_components = [], ha_schemas = [], ha_resources = [],
     ha_configuration = [], ha_kernel = sample_config, ha_graph = \<lparr>cg_components = map (\<lambda>(c, ps). node_of c ps) nodes,
     cg_listeners = []\<rparr>, ha_layers = [], ha_policy = []\<rparr>"

definition only_reconfigured :: "component_id \<Rightarrow> graph_diff" where
  "only_reconfigured c = \<lparr>gd_components = [\<lparr>cch_component = c, cch_kind = ComponentReconfigured\<rparr>], gd_bindings = [],
     gd_interposition = [], gd_resources = []\<rparr>"

lemmas sample_harness_defs = sample_harness_def node_of_def required_import_def only_reconfigured_def
  direct_dependents_def requires_from_def

theorem restarts_cover_dependents_witness:
  "\<exists>plan. transition_plan (sample_harness [(''d'', [''x'']), (''e'', [''d'']), (''x'', [])])
     (sample_harness [(''d'', [''x'']), (''e'', [''d'']), (''x'', [])]) (only_reconfigured ''x'') = Some plan \<and>
     ''e'' \<in> restarted plan"
proof -
  let ?h = "sample_harness [(''d'', [''x'']), (''e'', [''d'']), (''x'', [])]"
  obtain plan where plan: "transition_plan ?h ?h (only_reconfigured ''x'') = Some plan"
    "restarted plan = (depends (ha_graph ?h))\<^sup>* `` reconfigured (gd_components (only_reconfigured ''x''))"
    using restarts_cover_dependents [of ?h ?h "only_reconfigured ''x''"] by (auto simp: Let_def)
  have "(''x'', ''d'') \<in> depends (ha_graph ?h)" "(''d'', ''e'') \<in> depends (ha_graph ?h)"
    by (simp_all add: depends_def sample_harness_defs bt_vals_def)
  then have "(''x'', ''e'') \<in> (depends (ha_graph ?h))\<^sup>*" by (meson r_into_rtrancl rtrancl_trans)
  with plan show ?thesis by (auto simp: only_reconfigured_def)
qed

text \<open>
  When the required imports change, a dependent can be missed. Here \<open>x\<close> is reconfigured and \<open>d\<close> requires it before and
  after; \<open>e\<close> requires \<open>d\<close> only after the change. The collection in the graph before puts \<open>d\<close> among the affected, and the
  collection in the graph after then does not go on from \<open>d\<close>: the plan restarts \<open>d\<close> but not \<open>e\<close>.
\<close>

lemma dependents_are_missed:
  "\<exists>plan. transition_plan (sample_harness [(''d'', [''x'']), (''e'', []), (''x'', [])])
     (sample_harness [(''d'', [''x'']), (''e'', [''d'']), (''x'', [])]) (only_reconfigured ''x'') = Some plan \<and>
     restarted plan = {''d'', ''x''}"
proof -
  let ?a = "sample_harness [(''d'', [''x'']), (''e'', []), (''x'', [])]"
  let ?b = "sample_harness [(''d'', [''x'']), (''e'', [''d'']), (''x'', [])]"
  have "restart_set ?a ?b (gd_components (only_reconfigured ''x'')) {} = Some {''d'', ''x''}"
    by (simp add: all_dependents_def sample_harness_defs bt_vals_def)
  moreover from this obtain plan where "transition_plan ?a ?b (only_reconfigured ''x'') = Some plan"
    by (simp add: transition_plan_def)
  ultimately show ?thesis using restarted_plan by blast
qed

lemma empty_diff_means_no_change_witness:
  "\<not> diff_is_empty (diff_between (sample_harness [(''d'', [''x'']), (''x'', [])]) (sample_harness [(''d'', []), (''x'', [])]))"
proof -
  let ?a = "sample_harness [(''d'', [''x'']), (''x'', [])]" and ?b = "sample_harness [(''d'', []), (''x'', [])]"
  have o: "ordered_harness ?a" "ordered_harness ?b" by (simp_all add: ordered_harness_def sample_harness_def)
  have "binding_states ?a \<noteq> binding_states ?b"
    by (simp add: binding_states_def sample_harness_defs collect_map_def bt_vals_def)
  with empty_diff_means_no_change [OF o] show ?thesis by simp
qed

end
