(* ===== verification/Kernel_Lifecycle.thy ===== *)
theory Kernel_Lifecycle
  imports Reconciliation Tasks Dispatch
begin

text \<open>
  The life cycle of the plugins of a kernel (\<open>phenix-core/src/runtime/kernel.rs\<close>,
  \<open>runtime/reconciliation.rs\<close> and the staging of listeners in \<open>runtime.rs\<close>): activation of all plugins, replacement of
  the running generation by a resolved candidate, and stopping one plugin.

  The code of the plugins is a parameter (\<open>hooks\<close>): each hook sees the scoped host it is given and may change,
  arbitrarily, what it can reach, the tasks and the rest of the shared state \<open>'w\<close> (the plugins' own state, stored data,
  provenance). A host offers no way to change subscriptions or the fields of the kernel, so these are the kernel's
  own; of the bus only subscriptions and revision matter here. A plugin instance is an opaque handle \<open>'i\<close>.
  An \<open>expect\<close> that fails is the error \<open>LcPanic\<close>. The log is not part of the program: it records which hooks ran.
\<close>

datatype lifecycle_error =
  LcKernel kernel_error
| EmbeddedFactoryMissing plugin_id
| RuntimeProviderContractUnavailable runtime_id plugin_id
| RuntimePrepare plugin_id runtime_id string
| PluginStart plugin_id string
| PluginStop plugin_id string
| ListenerBinding plugin_id component_id string string
| ResolvedGenerationMissing
| PartiallyActiveRuntime
| LcEvent event_error
| LcPanic

datatype kernel_event = PluginActivated plugin_id | PluginStopped plugin_id

type_synonym states = "(plugin_id, plugin_state) btree"
type_synonym 'i instances = "(plugin_id, 'i) btree"

text \<open>The scoped host: what a hook is told about the kernel, and the cell of its cancellation token.\<close>

record 'i host_view =
  hv_generation :: "graph_generation_id option"
  hv_graph :: component_graph
  hv_config :: kernel_config
  hv_states :: states
  hv_instances :: "'i instances"
  hv_plugin :: plugin_id
  hv_authority :: authority
  hv_cell :: nat

datatype 'i log_entry =
  LogPrepare plugin_id plugin_id 'i
| LogStart plugin_id 'i bool "'i host_view"
| LogStop plugin_id 'i
| LogBind plugin_id 'i

record ('w, 'i) world =
  wo_tasks :: task_runtime
  wo_rest :: 'w
  wo_log :: "'i log_entry list"

type_synonym ('w, 'o) effect = "task_runtime \<times> 'w \<Rightarrow> 'o \<times> task_runtime \<times> 'w"

record ('w, 'i, 'h) hooks =
  hk_build :: "plugin_id \<Rightarrow> ('w, 'i) effect"
  hk_provides :: "'i \<Rightarrow> ('w, bool) effect"
  hk_prepare :: "'i host_view \<Rightarrow> plugin_manifest \<Rightarrow> 'i \<Rightarrow> ('w, 'i verdict) effect"
  hk_start :: "'i host_view \<Rightarrow> 'i \<Rightarrow> ('w, unit verdict) effect"
  hk_stop :: "'i host_view \<Rightarrow> 'i \<Rightarrow> ('w, unit verdict) effect"
  hk_bind_plugin :: "resolved_listener \<Rightarrow> graph_generation_id \<Rightarrow> 'i \<Rightarrow> ('w, 'h verdict option) effect"
  hk_bind :: "resolved_listener \<Rightarrow> graph_generation_id \<Rightarrow> 'i \<Rightarrow> ('w, 'h verdict) effect"

text \<open>A listener with a scoped host keeps what the kernel was when it was bound.\<close>

datatype ('i, 'h) handler = Scoped (scoped_view: "'i host_view") 'h | Plain 'h

record ('i, 'h) kernel =
  kn_generation :: "graph_generation_id option"
  kn_graph :: component_graph
  kn_resources :: "resource_metadata list"
  kn_config :: kernel_config
  kn_states :: states
  kn_factories :: "plugin_id set"
  kn_prepared :: "'i instances"
  kn_instances :: "'i instances"
  kn_bus :: "('i, 'h) handler event_bus"
  kn_published :: "kernel_event list"
  kn_active :: bool

definition run_effect :: "('w, 'o) effect \<Rightarrow> ('w, 'i) world \<Rightarrow> 'o \<times> ('w, 'i) world" where
  "run_effect f w = (let (r, ts, x) = f (wo_tasks w, wo_rest w) in (r, w\<lparr>wo_tasks := ts, wo_rest := x\<rparr>))"

definition on_tasks :: "(task_runtime \<Rightarrow> task_runtime) \<Rightarrow> ('w, 'i) world \<Rightarrow> ('w, 'i) world" where
  "on_tasks f w = w\<lparr>wo_tasks := f (wo_tasks w)\<rparr>"

definition record_log :: "'i log_entry \<Rightarrow> ('w, 'i) world \<Rightarrow> ('w, 'i) world" where
  "record_log e w = w\<lparr>wo_log := wo_log w @ [e]\<rparr>"

text \<open>A live call that ends with its scope.\<close>

definition in_call ::
    "plugin_id \<Rightarrow> graph_generation_id option \<Rightarrow> (nat \<Rightarrow> ('w, 'i) world \<Rightarrow> 'o \<times> ('w, 'i) world) \<Rightarrow> ('w, 'i) world
     \<Rightarrow> 'o \<times> ('w, 'i) world" where
  "in_call p generation f w =
     (let (scope, ts) = begin_call p generation (wo_tasks w);
          (r, w') = f (lc_cell scope) (w\<lparr>wo_tasks := ts\<rparr>)
      in (r, on_tasks (finish_call p (lc_id scope)) w'))"

definition call_cancelled :: "nat \<Rightarrow> ('w, 'i) world \<Rightarrow> bool" where
  "call_cancelled cell w = tr_call_flags (wo_tasks w) ! cell"

subsection \<open>The view of a generation\<close>

record view =
  vw_generation :: "graph_generation_id option"
  vw_graph :: component_graph
  vw_config :: kernel_config

definition host_for ::
    "view \<Rightarrow> states \<Rightarrow> 'i instances \<Rightarrow> plugin_manifest \<Rightarrow> nat \<Rightarrow> 'i host_view" where
  "host_for v states instances m cell = \<lparr>hv_generation = vw_generation v, hv_graph = vw_graph v, hv_config = vw_config v,
     hv_states = states, hv_instances = instances, hv_plugin = pm_id m, hv_authority = pm_maximum m, hv_cell = cell\<rparr>"

definition manifest_of :: "kernel_config \<Rightarrow> plugin_id \<Rightarrow> plugin_manifest option" where
  "manifest_of c p = bt_get (kc_manifests c) p"

subsection \<open>Stopping\<close>

text \<open>\<open>StopView::stop\<close>: the result of the hook is ignored.\<close>

definition view_stop ::
    "('w, 'i, 'h) hooks \<Rightarrow> view \<Rightarrow> states \<Rightarrow> 'i instances \<Rightarrow> plugin_id \<Rightarrow> 'i \<Rightarrow> ('w, 'i) world \<Rightarrow> ('w, 'i) world" where
  "view_stop hk v states instances p i w =
     (case manifest_of (vw_config v) p of
        None \<Rightarrow> w
      | Some m \<Rightarrow>
          (let w = on_tasks (\<lambda>ts. snd (cancel_calls p (vw_generation v) ts)) w;
               w = on_tasks (\<lambda>ts. snd (cancel_plugin_generation p (vw_generation v) ts)) w
           in snd (in_call p (vw_generation v) (\<lambda>cell w.
                run_effect (hk_stop hk (host_for v states instances m cell) i) (record_log (LogStop p i) w)) w)))"

definition cleanup_staged ::
    "('w, 'i, 'h) hooks \<Rightarrow> view \<Rightarrow> states \<Rightarrow> 'i instances \<Rightarrow> plugin_id list \<Rightarrow> ('w, 'i) world \<Rightarrow> ('w, 'i) world" where
  "cleanup_staged hk v states instances staged w =
     foldl (\<lambda>w p. case bt_get instances p of Some i \<Rightarrow> view_stop hk v states instances p i w | None \<Rightarrow> w) w (rev staged)"

subsection \<open>Staging one plugin\<close>

definition take_embedded_instance ::
    "('w, 'i, 'h) hooks \<Rightarrow> plugin_id \<Rightarrow> ('i, 'h) kernel \<Rightarrow> ('w, 'i) world
     \<Rightarrow> (lifecycle_error + 'i) \<times> ('i, 'h) kernel \<times> ('w, 'i) world" where
  "take_embedded_instance hk p k w =
     (case bt_get (kn_prepared k) p of
        Some i \<Rightarrow> (Inr i, k\<lparr>kn_prepared := bt_remove p (kn_prepared k)\<rparr>, w)
      | None \<Rightarrow>
          if p \<in> kn_factories k then (let (i, w') = run_effect (hk_build hk p) w in (Inr i, k, w'))
          else (Inl (EmbeddedFactoryMissing p), k, w))"

definition prepare_guest ::
    "('w, 'i, 'h) hooks \<Rightarrow> view \<Rightarrow> states \<Rightarrow> 'i instances \<Rightarrow> plugin_manifest \<Rightarrow> runtime_id \<Rightarrow> ('w, 'i) world
     \<Rightarrow> (lifecycle_error + 'i) \<times> ('w, 'i) world" where
  "prepare_guest hk v states instances m runtime w =
     (case bt_get (kc_bindings (vw_config v)) (pm_id m) of
        None \<Rightarrow> (Inl (LcKernel (RuntimeProviderUnavailable runtime)), w)
      | Some b \<Rightarrow>
          (case manifest_of (vw_config v) (rb_provider b) of
             None \<Rightarrow> (Inl LcPanic, w)
           | Some pm \<Rightarrow>
               (case bt_get instances (rb_provider b) of
                  None \<Rightarrow> (Inl (LcKernel (PluginNotActive (rb_provider b))), w)
                | Some provider \<Rightarrow>
                    in_call (rb_provider b) (vw_generation v) (\<lambda>cell w.
                      let (provides, w) = run_effect (hk_provides hk provider) w
                      in if \<not> provides then (Inl (RuntimeProviderContractUnavailable runtime (rb_provider b)), w)
                      else (let (r, w) = run_effect (hk_prepare hk (host_for v states instances pm cell) m provider)
                              (record_log (LogPrepare (pm_id m) (rb_provider b) provider) w)
                            in (case r of
                                  Panicked \<Rightarrow> Inl (RuntimePrepare (pm_id m) runtime ''runtime provider panicked'')
                                | Returned prepared \<Rightarrow>
                                    if call_cancelled cell w then
                                      Inl (RuntimePrepare (pm_id m) runtime ''runtime provider preparation cancelled'')
                                    else map_err (RuntimePrepare (pm_id m) runtime) prepared, w))) w)))"

definition make_instance ::
    "('w, 'i, 'h) hooks \<Rightarrow> view \<Rightarrow> states \<Rightarrow> 'i instances \<Rightarrow> plugin_manifest \<Rightarrow> ('i, 'h) kernel \<Rightarrow> ('w, 'i) world
     \<Rightarrow> (lifecycle_error + 'i option) \<times> ('i, 'h) kernel \<times> ('w, 'i) world" where
  "make_instance hk v states instances m k w =
     (case pm_execution m of
        ResourceOnly \<Rightarrow> (Inr None, k, w)
      | Embedded \<Rightarrow> (let (r, k', w') = take_embedded_instance hk (pm_id m) k w in (map_sum (\<lambda>e. e) Some r, k', w'))
      | Runtime runtime artifact \<Rightarrow>
          (let (r, w') = prepare_guest hk v states instances m runtime w in (map_sum (\<lambda>e. e) Some r, k, w')))"

text \<open>The hook \<open>start\<close> and what counts as its failure.\<close>

definition start_instance ::
    "('w, 'i, 'h) hooks \<Rightarrow> 'i host_view \<Rightarrow> plugin_id \<Rightarrow> 'i \<Rightarrow> ('w, 'i) world \<Rightarrow> string option \<times> ('w, 'i) world" where
  "start_instance hk host p i w =
     (let (r, w') = run_effect (hk_start hk host i) w;
          failure = (case r of
            Returned (Inr _) \<Rightarrow> if call_cancelled (hv_cell host) w' then Some ''plugin start cancelled'' else None
          | Returned (Inl message) \<Rightarrow> Some message
          | Panicked \<Rightarrow> Some ''plugin start panicked'')
      in (failure, record_log (LogStart p i (failure = None) host) w'))"

record 'i staging =
  st_states :: states
  st_instances :: "'i instances"
  st_staged :: "plugin_id list"

text \<open>One round of the activation loop. A failure to start cancels the plugin's tasks and stops what was staged, while
  the call is still alive.\<close>

definition stage_plugin ::
    "('w, 'i, 'h) hooks \<Rightarrow> view \<Rightarrow> 'i staging \<Rightarrow> plugin_id \<Rightarrow> ('i, 'h) kernel \<Rightarrow> ('w, 'i) world
     \<Rightarrow> (lifecycle_error + 'i staging) \<times> ('i, 'h) kernel \<times> ('w, 'i) world" where
  "stage_plugin hk v s p k w =
     (if bt_get (st_states s) p = Some Active then (Inr s, k, w)
      else case manifest_of (vw_config v) p of
        None \<Rightarrow> (Inl LcPanic, k, w)
      | Some m \<Rightarrow>
          (let (made, k, w) = make_instance hk v (st_states s) (st_instances s) m k w
           in case made of
                Inl LcPanic \<Rightarrow> (Inl LcPanic, k, w)
              | Inl e \<Rightarrow> (Inl e, k, cleanup_staged hk v (st_states s) (st_instances s) (st_staged s) w)
              | Inr None \<Rightarrow> (Inr (s\<lparr>st_states := bt_insert p Active (st_states s), st_staged := st_staged s @ [p]\<rparr>), k, w)
              | Inr (Some i) \<Rightarrow>
                  (let (failure, w) = in_call p (vw_generation v) (\<lambda>cell w.
                         let (failure, w) =
                           start_instance hk (host_for v (st_states s) (st_instances s) m cell) p i w
                         in if failure = None then (failure, w)
                            else (failure, cleanup_staged hk v (st_states s) (st_instances s) (st_staged s)
                              (on_tasks (\<lambda>ts. snd (cancel_plugin_generation p (vw_generation v) ts)) w))) w
                   in case failure of
                        Some message \<Rightarrow> (Inl (PluginStart p message), k, w)
                      | None \<Rightarrow> (Inr \<lparr>st_states = bt_insert p Active (st_states s),
                          st_instances = bt_insert p i (st_instances s), st_staged = st_staged s @ [p]\<rparr>, k, w))))"

fun stage_plugins ::
    "('w, 'i, 'h) hooks \<Rightarrow> view \<Rightarrow> plugin_id list \<Rightarrow> 'i staging \<Rightarrow> ('i, 'h) kernel \<Rightarrow> ('w, 'i) world
     \<Rightarrow> (lifecycle_error + 'i staging) \<times> ('i, 'h) kernel \<times> ('w, 'i) world" where
  "stage_plugins hk v [] s k w = (Inr s, k, w)"
| "stage_plugins hk v (p # ps) s k w =
     (case stage_plugin hk v s p k w of
        (Inl e, k', w') \<Rightarrow> (Inl e, k', w')
      | (Inr s', k', w') \<Rightarrow> stage_plugins hk v ps s' k' w')"

subsection \<open>Staging the listeners\<close>

definition bind_listener ::
    "('w, 'i, 'h) hooks \<Rightarrow> view \<Rightarrow> graph_generation_id \<Rightarrow> 'i staging \<Rightarrow> resolved_listener \<Rightarrow> 'i \<Rightarrow> ('w, 'i) world
     \<Rightarrow> ('i, 'h) handler verdict \<times> ('w, 'i) world" where
  "bind_listener hk v generation s l i w =
     (let (bound, w) = run_effect (hk_bind_plugin hk l generation i) (record_log (LogBind (rl_plugin l) i) w);
          snapshot = \<lparr>hv_generation = Some generation, hv_graph = vw_graph v, hv_config = vw_config v,
            hv_states = st_states s, hv_instances = st_instances s, hv_plugin = rl_plugin l, hv_authority = {},
            hv_cell = 0\<rparr>
      in case bound of
           Some Panicked \<Rightarrow> (Panicked, w)
         | Some (Returned r) \<Rightarrow> (Returned (map_sum (\<lambda>e. e) (Scoped snapshot) r), w)
         | None \<Rightarrow>
             (let (r, w) = run_effect (hk_bind hk l generation i) w
              in (case r of Panicked \<Rightarrow> Panicked | Returned r \<Rightarrow> Returned (map_sum (\<lambda>e. e) Plain r), w)))"

fun stage_each_listener ::
    "('w, 'i, 'h) hooks \<Rightarrow> view \<Rightarrow> graph_generation_id \<Rightarrow> 'i staging \<Rightarrow> resolved_listener list
     \<Rightarrow> ('i, 'h) handler event_subscription list \<Rightarrow> ('w, 'i) world
     \<Rightarrow> (lifecycle_error + ('i, 'h) handler event_subscription list) \<times> ('w, 'i) world" where
  "stage_each_listener hk v generation s [] subs w = (Inr subs, w)"
| "stage_each_listener hk v generation s (l # ls) subs w =
     (case bt_get (st_instances s) (rl_plugin l) of
        None \<Rightarrow> (Inl (LcKernel (PluginNotActive (rl_plugin l))), w)
      | Some i \<Rightarrow>
          (case bind_listener hk v generation s l i w of
             (Panicked, w) \<Rightarrow> (Inl (ListenerBinding (rl_plugin l) (rl_component l) (cl_method (rl_declaration l))
               ''plugin listener binding panicked''), w)
           | (Returned (Inl message), w) \<Rightarrow>
               (Inl (ListenerBinding (rl_plugin l) (rl_component l) (cl_method (rl_declaration l)) message), w)
           | (Returned (Inr h), w) \<Rightarrow>
               stage_each_listener hk v generation s ls
                 (subs @ [\<lparr>es_spec = listener_spec (kc_policy (vw_config v)) l, es_handler = h\<rparr>]) w))"

definition stage_listener_subscriptions ::
    "('w, 'i, 'h) hooks \<Rightarrow> view \<Rightarrow> graph_generation_id \<Rightarrow> 'i staging \<Rightarrow> ('w, 'i) world
     \<Rightarrow> (lifecycle_error + ('i, 'h) handler event_subscription list) \<times> ('w, 'i) world" where
  "stage_listener_subscriptions hk v generation s w =
     (case stage_each_listener hk v generation s (cg_listeners (vw_graph v)) [] w of
        (Inl e, w') \<Rightarrow> (Inl e, w')
      | (Inr subs, w') \<Rightarrow>
          (rbind (map_err LcEvent (validate_subscriptions subs)) (\<lambda>_. Inr subs), w'))"

subsection \<open>Activating all plugins\<close>

definition kernel_view :: "('i, 'h) kernel \<Rightarrow> view" where
  "kernel_view k = \<lparr>vw_generation = kn_generation k, vw_graph = kn_graph k, vw_config = kn_config k\<rparr>"

definition registered_states :: "kernel_config \<Rightarrow> states" where
  "registered_states c = map (\<lambda>(p, m). (pm_id m, Registered)) (kc_manifests c)"

definition all_active :: "states \<Rightarrow> bool" where
  "all_active states \<longleftrightarrow> list_all (\<lambda>s. s = Active) (bt_vals states)"

definition start_staging :: "('i, 'h) kernel \<Rightarrow> 'i staging" where
  "start_staging k =
     (if kn_active k then \<lparr>st_states = kn_states k, st_instances = kn_instances k, st_staged = []\<rparr>
      else \<lparr>st_states = registered_states (kn_config k), st_instances = [], st_staged = []\<rparr>)"

definition publish_all :: "kernel_event list \<Rightarrow> ('i, 'h) kernel \<Rightarrow> ('i, 'h) kernel" where
  "publish_all es k = k\<lparr>kn_published := kn_published k @ es\<rparr>"

definition commit_activation ::
    "'i staging \<Rightarrow> ('i, 'h) handler event_subscription list \<Rightarrow> ('i, 'h) kernel
     \<Rightarrow> (lifecycle_error + unit) \<times> ('i, 'h) kernel" where
  "commit_activation s subs k =
     (case replace_subscriptions subs (kn_bus k) of
        Inl e \<Rightarrow> (Inl (LcEvent e), k)
      | Inr bus \<Rightarrow> (Inr (), publish_all (map PluginActivated (st_staged s))
          (k\<lparr>kn_bus := bus, kn_states := st_states s, kn_instances := st_instances s, kn_active := True\<rparr>)))"

definition activate_all ::
    "('w, 'i, 'h) hooks \<Rightarrow> ('i, 'h) kernel \<Rightarrow> ('w, 'i) world
     \<Rightarrow> (lifecycle_error + unit) \<times> ('i, 'h) kernel \<times> ('w, 'i) world" where
  "activate_all hk k w =
     (if kn_active k \<and> all_active (kn_states k) then (Inr (), k, w)
      else case stage_plugins hk (kernel_view k) (kc_activation (kn_config k)) (start_staging k) k w of
        (Inl e, k, w) \<Rightarrow> (Inl e, k, w)
      | (Inr s, k, w) \<Rightarrow>
          (let (subs, w) = (case kn_generation k of
                 Some generation \<Rightarrow> stage_listener_subscriptions hk (kernel_view k) generation s w
               | None \<Rightarrow> (if cg_listeners (kn_graph k) = [] then Inr [] else Inl ResolvedGenerationMissing, w))
           in case subs of
                Inl e \<Rightarrow> (Inl e, k,
                  cleanup_staged hk (kernel_view k) (st_states s) (st_instances s) (st_staged s) w)
              | Inr subs \<Rightarrow> (let (r, k) = commit_activation s subs k in (r, k, w))))"

subsection \<open>Replacing the generation\<close>

definition harness_view :: "harness \<Rightarrow> view" where
  "harness_view h = \<lparr>vw_generation = Some (ha_generation h), vw_graph = ha_graph h, vw_config = ha_kernel h\<rparr>"

definition close_pass ::
    "(plugin_id, runtime_binding) btree \<Rightarrow> runtime_binding list \<Rightarrow> plugin_id set \<Rightarrow> plugin_id set" where
  "close_pass active bs restart = foldl (\<lambda>R b.
     let R1 = (if bt_get active (rb_guest b) \<noteq> Some b then insert (rb_guest b) R else R)
     in if rb_provider b \<in> R1 then insert (rb_guest b) R1 else R1) restart bs"

lemma close_pass_bounds: "R \<subseteq> close_pass active bs R \<and> close_pass active bs R \<subseteq> R \<union> rb_guest ` set bs"
proof (induction bs arbitrary: R)
  case (Cons b bs)
  let ?R1 = "if bt_get active (rb_guest b) \<noteq> Some b then insert (rb_guest b) R else R"
  let ?R2 = "if rb_provider b \<in> ?R1 then insert (rb_guest b) ?R1 else ?R1"
  have "close_pass active (b # bs) R = close_pass active bs ?R2" by (simp add: close_pass_def Let_def)
  moreover have "R \<subseteq> ?R2" "?R2 \<subseteq> insert (rb_guest b) R" by auto
  ultimately show ?case using Cons.IH [of ?R2] by auto
qed (simp add: close_pass_def)

function close_loop ::
    "(plugin_id, runtime_binding) btree \<Rightarrow> runtime_binding list \<Rightarrow> plugin_id set \<Rightarrow> plugin_id set" where
  "close_loop active bs restart =
     (let next_set = close_pass active bs restart
      in if card next_set = card restart then next_set else close_loop active bs next_set)"
  by pat_completeness auto
termination
proof (relation "measure (\<lambda>(active, bs, restart). card (rb_guest ` set bs - restart))", goal_cases)
  case (2 active bs restart x)
  let ?N = "close_pass active bs restart"
  from 2 close_pass_bounds [of restart active bs] have "?N \<noteq> restart" "restart \<subseteq> ?N" "?N \<subseteq> restart \<union> rb_guest ` set bs"
    by auto
  then have "rb_guest ` set bs - ?N \<subset> rb_guest ` set bs - restart" by auto
  with 2 show ?case by (auto intro: psubset_card_mono)
qed simp

declare close_loop.simps [simp del]

definition changed_plugins :: "kernel_config \<Rightarrow> kernel_config \<Rightarrow> plugin_id set" where
  "changed_plugins active candidate = set (filter_map (\<lambda>(p, m). if manifest_of active p \<noteq> Some m then Some p else None)
     (kc_manifests candidate))"

definition runtime_restart_closure :: "kernel_config \<Rightarrow> kernel_config \<Rightarrow> plugin_id set \<Rightarrow> plugin_id set" where
  "runtime_restart_closure active candidate requested =
     close_loop (kc_bindings active) (bt_vals (kc_bindings candidate)) (requested \<union> changed_plugins active candidate)"

definition retained :: "('i, 'h) kernel \<Rightarrow> plugin_id set \<Rightarrow> plugin_id \<Rightarrow> plugin_manifest \<Rightarrow> bool" where
  "retained k restart p m \<longleftrightarrow> kn_active k \<and> p \<notin> restart \<and> manifest_of (kn_config k) p = Some m"

definition retained_staging :: "('i, 'h) kernel \<Rightarrow> kernel_config \<Rightarrow> plugin_id set \<Rightarrow> 'i staging" where
  "retained_staging k candidate restart =
     \<lparr>st_states = map (\<lambda>(p, m). (p, if retained k restart p m then Active else Registered)) (kc_manifests candidate),
       st_instances = filter_map (\<lambda>(p, m). if retained k restart p m
         then map_option (Pair p) (bt_get (kn_instances k) p) else None) (kc_manifests candidate),
       st_staged = []\<rparr>"

definition retired_instances :: "('i, 'h) kernel \<Rightarrow> kernel_config \<Rightarrow> plugin_id set \<Rightarrow> (plugin_id \<times> 'i) list" where
  "retired_instances k candidate restart = filter_map (\<lambda>(p, m).
     if manifest_of candidate p \<noteq> Some m \<or> p \<in> restart then map_option (Pair p) (bt_get (kn_instances k) p)
     else None) (kc_manifests (kn_config k))"

definition stop_retired ::
    "('w, 'i, 'h) hooks \<Rightarrow> ('i, 'h) kernel \<Rightarrow> (plugin_id \<times> 'i) list \<Rightarrow> ('w, 'i) world \<Rightarrow> ('w, 'i) world" where
  "stop_retired hk old retired w =
     foldl (\<lambda>w (p, i). view_stop hk (kernel_view old) (kn_states old) (kn_instances old) p i w) w retired"

definition commit_generation ::
    "('w, 'i, 'h) hooks \<Rightarrow> harness \<Rightarrow> plugin_id set \<Rightarrow> 'i staging \<Rightarrow> ('i, 'h) handler event_subscription list
     \<Rightarrow> ('i, 'h) kernel \<Rightarrow> ('w, 'i) world \<Rightarrow> (lifecycle_error + unit) \<times> ('i, 'h) kernel \<times> ('w, 'i) world" where
  "commit_generation hk candidate restart s subs k w =
     (let retired = retired_instances k (ha_kernel candidate) restart
      in case replace_subscriptions subs (kn_bus k) of
           Inl e \<Rightarrow> (Inl (LcEvent e), k, w)
         | Inr bus \<Rightarrow> (Inr (),
             publish_all (map (\<lambda>(p, i). PluginStopped p) retired @ map PluginActivated (st_staged s))
               (k\<lparr>kn_bus := bus, kn_config := ha_kernel candidate, kn_states := st_states s,
                  kn_instances := st_instances s, kn_generation := Some (ha_generation candidate),
                  kn_graph := ha_graph candidate, kn_resources := ha_resources candidate\<rparr>),
             stop_retired hk k retired w))"

definition reconcile_generation ::
    "('w, 'i, 'h) hooks \<Rightarrow> harness \<Rightarrow> plugin_id set \<Rightarrow> ('i, 'h) kernel \<Rightarrow> ('w, 'i) world
     \<Rightarrow> (lifecycle_error + unit) \<times> ('i, 'h) kernel \<times> ('w, 'i) world" where
  "reconcile_generation hk candidate requested k w =
     (if kn_active k \<and> \<not> all_active (kn_states k) \<or> \<not> kn_active k \<and> list_ex (\<lambda>s. s = Active) (bt_vals (kn_states k))
      then (Inl PartiallyActiveRuntime, k, w)
      else
        (let v = harness_view candidate;
             restart = runtime_restart_closure (kn_config k) (ha_kernel candidate) requested;
             initial = retained_staging k (ha_kernel candidate) restart;
             (staged, k, w) = (if kn_active k
               then stage_plugins hk v (kc_activation (ha_kernel candidate)) initial k w else (Inr initial, k, w))
         in case staged of
              Inl e \<Rightarrow> (Inl e, k, w)
            | Inr s \<Rightarrow>
                (case stage_listener_subscriptions hk v (ha_generation candidate) s w of
                   (Inl e, w) \<Rightarrow> (Inl e, k, cleanup_staged hk v (st_states s) (st_instances s) (st_staged s) w)
                 | (Inr subs, w) \<Rightarrow> commit_generation hk candidate restart s subs k w)))"

subsection \<open>Stopping one plugin\<close>

definition stop_failure :: "plugin_id \<Rightarrow> unit verdict \<Rightarrow> bool \<Rightarrow> lifecycle_error option" where
  "stop_failure p r cancelled = (case r of
     Returned (Inr _) \<Rightarrow> if cancelled then Some (PluginStop p ''plugin stop cancelled'') else None
   | Returned (Inl message) \<Rightarrow> Some (PluginStop p message)
   | Panicked \<Rightarrow> Some (PluginStop p ''plugin stop panicked''))"

definition kernel_stop ::
    "('w, 'i, 'h) hooks \<Rightarrow> plugin_id \<Rightarrow> ('i, 'h) kernel \<Rightarrow> ('w, 'i) world
     \<Rightarrow> (lifecycle_error + unit) \<times> ('i, 'h) kernel \<times> ('w, 'i) world" where
  "kernel_stop hk p k w =
     (case manifest_of (kn_config k) p of
        None \<Rightarrow> (Inl (LcKernel (UnknownPlugin p)), k, w)
      | Some m \<Rightarrow>
          (let w = on_tasks (\<lambda>ts. snd (cancel_calls p (kn_generation k) ts)) w;
               w = on_tasks (\<lambda>ts. snd (cancel_plugin_generation p (kn_generation k) ts)) w;
               (failure, w) = (case bt_get (kn_instances k) p of
                   None \<Rightarrow> (None, w)
                 | Some i \<Rightarrow> in_call p (kn_generation k) (\<lambda>cell w.
                     let (r, w) = run_effect (hk_stop hk
                           (host_for (kernel_view k) (kn_states k) (kn_instances k) m cell) i) (record_log (LogStop p i) w)
                     in (stop_failure p r (call_cancelled cell w), w)) w)
           in case failure of
                Some e \<Rightarrow> (Inl e, k, w)
              | None \<Rightarrow>
                  let k = k\<lparr>kn_instances := bt_remove p (kn_instances k)\<rparr>
                  in if bt_has (kn_states k) p then
                       (Inr (), publish_all [PluginStopped p] (k\<lparr>kn_states := bt_insert p Stopped (kn_states k)\<rparr>), w)
                     else (Inl LcPanic, k, w)))"

subsection \<open>Building a kernel\<close>

definition default_delivery_capacity :: nat where "default_delivery_capacity = 64"

definition kernel_new :: "kernel_config \<Rightarrow> ('i, 'h) kernel" where
  "kernel_new c = \<lparr>kn_generation = None, kn_graph = graph_empty, kn_resources = [], kn_config = c,
     kn_states = registered_states c, kn_factories = {}, kn_prepared = [], kn_instances = [],
     kn_bus = bus_with_capacity default_delivery_capacity, kn_published = [], kn_active = False\<rparr>"

definition install_resolved_graph ::
    "graph_generation_id \<Rightarrow> component_graph \<Rightarrow> resource_metadata list \<Rightarrow> ('i, 'h) kernel \<Rightarrow> ('i, 'h) kernel" where
  "install_resolved_graph generation graph resources k =
     k\<lparr>kn_generation := Some generation, kn_graph := graph, kn_resources := resources\<rparr>"

text \<open>Factories and instances that a later activation takes. What a factory builds is the hook \<open>hk_build\<close>.\<close>

definition preload_embedded_factory :: "plugin_id \<Rightarrow> ('i, 'h) kernel \<Rightarrow> ('i, 'h) kernel" where
  "preload_embedded_factory p k = k\<lparr>kn_factories := insert p (kn_factories k)\<rparr>"

definition preload_embedded_instance :: "plugin_id \<Rightarrow> 'i \<Rightarrow> ('i, 'h) kernel \<Rightarrow> ('i, 'h) kernel" where
  "preload_embedded_instance p i k = k\<lparr>kn_prepared := bt_insert p i (kn_prepared k)\<rparr>"

definition register_embedded_factory :: "plugin_id \<Rightarrow> ('i, 'h) kernel \<Rightarrow> (kernel_error + unit) \<times> ('i, 'h) kernel" where
  "register_embedded_factory p k =
     (case manifest_of (kn_config k) p of
        None \<Rightarrow> (Inl (UnknownPlugin p), k)
      | Some m \<Rightarrow> if pm_execution m = Embedded then (Inr (), preload_embedded_factory p k)
          else (Inl (WrongExecutionKind p), k))"

definition state_of :: "('i, 'h) kernel \<Rightarrow> plugin_id \<Rightarrow> plugin_state option" where
  "state_of k p = bt_get (kn_states k) p"

end
