(* ===== verification/Kernel_Lifecycle_Safety.thy ===== *)
theory Kernel_Lifecycle_Safety
  imports Kernel_Lifecycle
begin

text \<open>
  Safety of the life cycle in \<open>Kernel_Lifecycle\<close>: what the log of the hooks says about every attempt to activate the
  plugins or to replace the running generation, whatever the hooks do.
\<close>

subsection \<open>The log\<close>

definition stops_of :: "'i log_entry list \<Rightarrow> (plugin_id \<times> 'i) list" where
  "stops_of log = filter_map (\<lambda>e. case e of LogStop p i \<Rightarrow> Some (p, i) | _ \<Rightarrow> None) log"

definition starts_of :: "'i log_entry list \<Rightarrow> (plugin_id \<times> 'i) list" where
  "starts_of log = filter_map (\<lambda>e. case e of LogStart p i ok host \<Rightarrow> if ok then Some (p, i) else None | _ \<Rightarrow> None) log"

lemma filter_map_append [simp]: "filter_map f (xs @ ys) = filter_map f xs @ filter_map f ys"
  by (induction xs) (auto split: option.splits)

lemma log_projections [simp]:
  "stops_of [] = []" "starts_of [] = []"
  "stops_of (xs @ ys) = stops_of xs @ stops_of ys" "starts_of (xs @ ys) = starts_of xs @ starts_of ys"
  "stops_of [LogStop p i] = [(p, i)]" "stops_of [LogStart p i ok h] = []" "stops_of [LogPrepare p q i] = []"
  "stops_of [LogBind p i] = []" "starts_of [LogStop p i] = []" "starts_of [LogPrepare p q i] = []"
  "starts_of [LogBind p i] = []" "starts_of [LogStart p i ok h] = (if ok then [(p, i)] else [])"
  by (simp_all add: stops_of_def starts_of_def)

text \<open>An operation extends the log by entries with a property, whatever it returns.\<close>

definition logs :: "('i log_entry list \<Rightarrow> bool) \<Rightarrow> ('w, 'i) world \<Rightarrow> ('w, 'i) world \<Rightarrow> bool" where
  "logs P w w' \<longleftrightarrow> (\<exists>xs. wo_log w' = wo_log w @ xs \<and> P xs)"

lemma logs_trans: "logs P w w1 \<Longrightarrow> logs Q w1 w2 \<Longrightarrow> (\<And>xs ys. P xs \<Longrightarrow> Q ys \<Longrightarrow> R (xs @ ys)) \<Longrightarrow> logs R w w2"
  by (fastforce simp: logs_def)

lemma log_frame [simp]:
  "wo_log (snd (run_effect f w)) = wo_log w" "wo_log (on_tasks g w) = wo_log w"
  "wo_log (record_log e w) = wo_log w @ [e]" "wo_log (w\<lparr>wo_tasks := ts\<rparr>) = wo_log w"
  by (simp_all add: run_effect_def on_tasks_def record_log_def split: prod.splits)

lemma in_call_split:
  "in_call p g f w = (r, w') \<Longrightarrow> \<exists>cell w1 w2. wo_log w1 = wo_log w \<and> f cell w1 = (r, w2) \<and> wo_log w' = wo_log w2"
  by (auto simp: in_call_def Let_def split: prod.splits) (metis log_frame(4))

lemma run_effect_log: "run_effect f w = (r, w') \<Longrightarrow> wo_log w' = wo_log w"
  by (metis log_frame(1) snd_conv)

subsection \<open>Stopping\<close>

lemma view_stop_log:
  "manifest_of (vw_config v) p = Some m \<Longrightarrow> wo_log (view_stop hk v states instances p i w) = wo_log w @ [LogStop p i]"
proof -
  assume m: "manifest_of (vw_config v) p = Some m"
  let ?w = "on_tasks (\<lambda>ts. snd (cancel_plugin_generation p (vw_generation v) ts))
    (on_tasks (\<lambda>ts. snd (cancel_calls p (vw_generation v) ts)) w)"
  obtain r w' where c: "in_call p (vw_generation v) (\<lambda>cell w.
      run_effect (hk_stop hk (host_for v states instances m cell) i) (record_log (LogStop p i) w)) ?w = (r, w')"
    by fastforce
  from in_call_split [OF c] have "wo_log w' = wo_log w @ [LogStop p i]"
    by (auto dest: run_effect_log)
  with m c show ?thesis by (simp add: view_stop_def Let_def)
qed

definition pair_of :: "'i instances \<Rightarrow> plugin_id \<Rightarrow> (plugin_id \<times> 'i) option" where
  "pair_of instances p = map_option (Pair p) (bt_get instances p)"

definition stop_entries :: "(plugin_id \<times> 'i) list \<Rightarrow> 'i log_entry list" where
  "stop_entries ps = map (\<lambda>(p, i). LogStop p i) ps"

lemma stop_entries_projections [simp]: "stops_of (stop_entries ps) = ps" "starts_of (stop_entries ps) = []"
  by (induction ps) (auto simp: stop_entries_def stops_of_def starts_of_def)

lemma cleanup_log:
  assumes "\<forall>p\<in>set staged. manifest_of (vw_config v) p \<noteq> None"
  shows "wo_log (cleanup_staged hk v states instances staged w) =
    wo_log w @ stop_entries (filter_map (pair_of instances) (rev staged))"
proof -
  have "\<forall>p\<in>set ps. manifest_of (vw_config v) p \<noteq> None \<Longrightarrow>
      wo_log (foldl (\<lambda>w p. case bt_get instances p of Some i \<Rightarrow> view_stop hk v states instances p i w | None \<Rightarrow> w) w ps) =
      wo_log w @ stop_entries (filter_map (pair_of instances) ps)" for ps
  proof (induction ps arbitrary: w)
    case (Cons p ps)
    then show ?case
      by (auto simp: pair_of_def stop_entries_def view_stop_log split: option.splits)
  qed (simp add: stop_entries_def)
  from this [of "rev staged"] assms show ?thesis by (simp add: cleanup_staged_def)
qed

lemma filter_map_rev: "filter_map f (rev xs) = rev (filter_map f xs)"
  by (induction xs) (auto split: option.splits)

lemma stop_retired_log:
  assumes "\<forall>(p, i)\<in>set retired. manifest_of (kn_config old) p \<noteq> None"
  shows "wo_log (stop_retired hk old retired w) = wo_log w @ stop_entries retired"
  using assms unfolding stop_retired_def
  by (induction retired arbitrary: w) (auto simp: stop_entries_def view_stop_log kernel_view_def)

subsection \<open>Making an instance\<close>

definition quiet :: "'i log_entry list \<Rightarrow> bool" where
  "quiet xs \<longleftrightarrow> (\<forall>e\<in>set xs. (\<exists>p q i. e = LogPrepare p q i) \<or> (\<exists>p i. e = LogBind p i))"

lemma quiet_simps [simp]:
  "quiet []" "quiet (xs @ ys) \<longleftrightarrow> quiet xs \<and> quiet ys" "quiet [LogPrepare p q i]" "quiet [LogBind p i]"
  by (auto simp: quiet_def)

lemma quiet_projections: "quiet xs \<Longrightarrow> stops_of xs = [] \<and> starts_of xs = []"
  by (induction xs) (auto simp: quiet_def stops_of_def starts_of_def)

lemma quiet_none: "quiet xs \<Longrightarrow> LogStart p i ok host \<notin> set xs"
  by (auto simp: quiet_def)

text \<open>All an attempt may change of the kernel before it commits: the instances prepared in advance.\<close>

definition same_kernel :: "('i, 'h) kernel \<Rightarrow> ('i, 'h) kernel \<Rightarrow> bool" where
  "same_kernel k k' \<longleftrightarrow> k' = k\<lparr>kn_prepared := kn_prepared k'\<rparr>"

lemma same_kernel_refl [simp]: "same_kernel k k" by (simp add: same_kernel_def)

lemma same_kernel_trans: "same_kernel k k1 \<Longrightarrow> same_kernel k1 k2 \<Longrightarrow> same_kernel k k2"
  unfolding same_kernel_def by (metis (no_types, lifting) kernel.update_convs(7) kernel.surjective)

lemma take_embedded_facts:
  "take_embedded_instance hk p k w = (r, k', w') \<Longrightarrow> same_kernel k k' \<and> wo_log w' = wo_log w"
  by (auto simp: take_embedded_instance_def same_kernel_def run_effect_log split: option.splits if_splits prod.splits)

lemma in_call_logs:
  assumes "in_call p g f w = (r, w')" "\<And>cell w1 r w2. f cell w1 = (r, w2) \<Longrightarrow> logs P w1 w2"
  shows "logs P w w'"
  using in_call_split [OF assms(1)] assms(2) by (fastforce simp: logs_def)

lemma prepare_guest_log:
  assumes "prepare_guest hk v states instances m runtime w = (r, w')"
  shows "logs quiet w w'"
  using assms unfolding prepare_guest_def
  by (auto simp: logs_def Let_def elim!: in_call_logs [unfolded logs_def] dest!: run_effect_log
      split: option.splits prod.splits if_splits)

lemma make_instance_facts:
  assumes "make_instance hk v states instances m k w = (r, k', w')"
  shows "same_kernel k k' \<and> logs quiet w w'"
  using assms prepare_guest_log
  by (fastforce simp: make_instance_def Let_def logs_def split: plugin_execution.splits prod.splits
      dest: take_embedded_facts)

subsection \<open>Staging\<close>

definition active_in :: "states \<Rightarrow> plugin_id \<Rightarrow> bool" where
  "active_in states p \<longleftrightarrow> bt_get states p = Some Active"

lemma active_in_insert [simp]: "active_in (bt_insert p Active states) q \<longleftrightarrow> q = p \<or> active_in states q"
  by (simp add: active_in_def bt_get_insert)

text \<open>An instance belongs to an active plugin; what was staged is active, configured and staged once.\<close>

definition staging_ok :: "view \<Rightarrow> 'i staging \<Rightarrow> bool" where
  "staging_ok v s \<longleftrightarrow> (\<forall>p. bt_get (st_instances s) p \<noteq> None \<longrightarrow> active_in (st_states s) p) \<and>
     (\<forall>p\<in>set (st_staged s). active_in (st_states s) p \<and> manifest_of (vw_config v) p \<noteq> None) \<and> distinct (st_staged s)"

definition staged_pairs :: "'i staging \<Rightarrow> (plugin_id \<times> 'i) list" where
  "staged_pairs s = filter_map (pair_of (st_instances s)) (st_staged s)"

text \<open>A plugin is started only when what it depends on is active already.\<close>

definition needs :: "view \<Rightarrow> plugin_id \<Rightarrow> plugin_id list" where
  "needs v = plugin_succ (kc_manifests (vw_config v)) (kc_bindings (vw_config v))"

definition hosts_ready :: "view \<Rightarrow> 'i log_entry list \<Rightarrow> bool" where
  "hosts_ready v xs \<longleftrightarrow> (\<forall>p i ok host. LogStart p i ok host \<in> set xs \<longrightarrow>
     hv_config host = vw_config v \<and> (\<forall>d\<in>set (needs v p). active_in (hv_states host) d))"

lemma hosts_ready_simps [simp]:
  "hosts_ready v []" "hosts_ready v (xs @ ys) \<longleftrightarrow> hosts_ready v xs \<and> hosts_ready v ys"
  "hosts_ready v (stop_entries ps)" "quiet xs \<Longrightarrow> hosts_ready v xs"
  "hosts_ready v [LogStart p i ok host] \<longleftrightarrow>
     hv_config host = vw_config v \<and> (\<forall>d\<in>set (needs v p). active_in (hv_states host) d)"
  by (auto simp: hosts_ready_def stop_entries_def dest: quiet_none)

definition starts_ready :: "'i log_entry list \<Rightarrow> bool" where
  "starts_ready log \<longleftrightarrow> (\<forall>p i ok host. LogStart p i ok host \<in> set log \<longrightarrow>
     (\<forall>d\<in>set (plugin_succ (kc_manifests (hv_config host)) (kc_bindings (hv_config host)) p). active_in (hv_states host) d))"

lemma starts_ready_append [simp]: "starts_ready (xs @ ys) \<longleftrightarrow> starts_ready xs \<and> starts_ready ys"
  by (auto simp: starts_ready_def)

lemma hosts_starts_ready: "hosts_ready v xs \<Longrightarrow> starts_ready xs"
  by (auto simp: starts_ready_def hosts_ready_def needs_def)

text \<open>What an attempt leaves in the log: on success the starts are the plugins staged and nothing was stopped; on
  failure everything it started was stopped again, last first.\<close>

definition grew :: "view \<Rightarrow> 'i staging \<Rightarrow> 'i staging \<Rightarrow> 'i log_entry list \<Rightarrow> bool" where
  "grew v s s' xs \<longleftrightarrow> hosts_ready v xs \<and> stops_of xs = [] \<and> staged_pairs s' = staged_pairs s @ starts_of xs"

definition undone :: "view \<Rightarrow> 'i staging \<Rightarrow> 'i log_entry list \<Rightarrow> bool" where
  "undone v s xs \<longleftrightarrow> hosts_ready v xs \<and> stops_of xs = rev (staged_pairs s @ starts_of xs)"

lemma filter_map_pairs_insert:
  "p \<notin> set ps \<Longrightarrow> filter_map (pair_of (bt_insert p i m)) ps = filter_map (pair_of m) ps"
  by (induction ps) (auto simp: pair_of_def bt_get_insert split: option.splits)

lemma cleanup_undone:
  assumes "staging_ok v s" "wo_log w1 = wo_log w @ xs" "hosts_ready v xs" "stops_of xs = []" "starts_of xs = []"
  shows "logs (undone v s) w (cleanup_staged hk v (st_states s) (st_instances s) (st_staged s) w1)"
proof -
  have "wo_log (cleanup_staged hk v (st_states s) (st_instances s) (st_staged s) w1) =
      wo_log w @ xs @ stop_entries (rev (staged_pairs s))"
    using assms(1,2) by (subst cleanup_log) (auto simp: staging_ok_def staged_pairs_def filter_map_rev)
  with assms(3-) show ?thesis by (auto simp: logs_def undone_def)
qed

lemma start_instance_log:
  assumes "start_instance hk host p i w = (failure, w')"
  shows "wo_log w' = wo_log w @ [LogStart p i (failure = None) host]"
  using assms by (auto simp: start_instance_def Let_def dest: run_effect_log split: prod.splits)

text \<open>The start itself, inside its call.\<close>

lemma stage_start_facts:
  assumes "in_call p g (\<lambda>cell w. let (failure, w) = start_instance hk (host_for v (st_states s) (st_instances s) m cell) p i w
       in if failure = None then (failure, w)
          else (failure, cleanup_staged hk v (st_states s) (st_instances s) (st_staged s) (on_tasks f w))) w = (failure, w')"
    "staging_ok v s" "\<forall>d\<in>set (needs v p). active_in (st_states s) d"
  shows "if failure = None then \<exists>host. wo_log w' = wo_log w @ [LogStart p i True host] \<and>
      hv_config host = vw_config v \<and> (\<forall>d\<in>set (needs v p). active_in (hv_states host) d) else logs (undone v s) w w'"
proof -
  let ?start = "\<lambda>cell. start_instance hk (host_for v (st_states s) (st_instances s) m cell) p i"
  let ?fin = "\<lambda>(failure, w). if failure = None then (failure, w)
    else (failure, cleanup_staged hk v (st_states s) (st_instances s) (st_staged s) (on_tasks f w))"
  from in_call_split [OF assms(1)] obtain cell w1 w3
    where c: "wo_log w1 = wo_log w" "?fin (?start cell w1) = (failure, w3)" "wo_log w' = wo_log w3"
    by (auto simp: Let_def)
  obtain failure' w2 where r: "?start cell w1 = (failure', w2)" by fastforce
  from c(2) r have "failure' = failure" by (auto split: if_splits)
  with c r have w: "wo_log w1 = wo_log w" "wo_log w' = wo_log w3" "?start cell w1 = (failure, w2)"
    "w3 = (if failure = None then w2
       else cleanup_staged hk v (st_states s) (st_instances s) (st_staged s) (on_tasks f w2))"
    by (auto split: if_splits)
  note l = start_instance_log [OF w(3)]
  show ?thesis
  proof (cases failure)
    case None
    with w l assms(3) show ?thesis by (auto simp: host_for_def)
  next
    case (Some msg)
    with w(1) l have "wo_log (on_tasks f w2) =
        wo_log w @ [LogStart p i False (host_for v (st_states s) (st_instances s) m cell)]" by simp
    from cleanup_undone [OF assms(2) this, of hk] assms(3) Some w show ?thesis
      by (simp add: logs_def host_for_def)
  qed
qed

text \<open>What a round does to the staging area: the plugin becomes active, nothing else changes.\<close>

definition staged_one :: "plugin_id \<Rightarrow> 'i staging \<Rightarrow> 'i staging \<Rightarrow> bool" where
  "staged_one p s s' \<longleftrightarrow>
     (if active_in (st_states s) p then s' = s
      else st_states s' = bt_insert p Active (st_states s) \<and> st_staged s' = st_staged s @ [p] \<and>
        (\<forall>q. q \<noteq> p \<longrightarrow> bt_get (st_instances s') q = bt_get (st_instances s) q))"

text \<open>A configuration in which the provider of every guest is configured: making an instance never panics.\<close>

definition view_ok :: "view \<Rightarrow> bool" where
  "view_ok v \<longleftrightarrow> (\<forall>p m r a b. manifest_of (vw_config v) p = Some m \<and> pm_execution m = Runtime r a \<and>
     bt_get (kc_bindings (vw_config v)) (pm_id m) = Some b \<longrightarrow> manifest_of (vw_config v) (rb_provider b) \<noteq> None)"

lemma in_call_result:
  assumes "in_call p g f w = (r, w')" "\<And>cell w1 r w2. f cell w1 = (r, w2) \<Longrightarrow> Q r"
  shows "Q r"
  using in_call_split [OF assms(1)] assms(2) by blast

lemma prepare_guest_no_panic:
  assumes "prepare_guest hk v states instances m runtime w = (r, w')"
    "\<And>b. bt_get (kc_bindings (vw_config v)) (pm_id m) = Some b \<Longrightarrow> manifest_of (vw_config v) (rb_provider b) \<noteq> None"
  shows "r \<noteq> Inl LcPanic"
  using assms unfolding prepare_guest_def
  by (auto simp: Let_def map_err_eq_Inl elim!: in_call_result [where Q = "\<lambda>r. r \<noteq> Inl LcPanic"]
      split: option.splits prod.splits if_splits verdict.splits)

lemma make_instance_no_panic:
  assumes "make_instance hk v states instances m k w = (r, k', w')" "view_ok v" "manifest_of (vw_config v) p = Some m"
  shows "r \<noteq> Inl LcPanic"
proof (cases "pm_execution m")
  case (Runtime rt art)
  obtain g w1 where g: "prepare_guest hk v states instances m rt w = (g, w1)" by fastforce
  have "g \<noteq> Inl LcPanic"
    by (rule prepare_guest_no_panic [OF g]) (use assms(2,3) Runtime in \<open>auto simp: view_ok_def\<close>)
  with assms(1) Runtime g show ?thesis by (cases g) (auto simp: make_instance_def)
qed (use assms(1) in \<open>auto simp: make_instance_def take_embedded_instance_def Let_def split: option.splits if_splits prod.splits\<close>)

lemma stage_plugin_facts:
  assumes run: "stage_plugin hk v s p k w = (r, k', w')" and ok: "staging_ok v s"
    and ready: "\<not> active_in (st_states s) p \<Longrightarrow> \<forall>d\<in>set (needs v p). active_in (st_states s) d"
    and view: "view_ok v" "manifest_of (vw_config v) p = Some m"
  shows "same_kernel k k' \<and> (case r of Inl e \<Rightarrow> e \<noteq> LcPanic \<and> logs (undone v s) w w'
     | Inr s' \<Rightarrow> staging_ok v s' \<and> staged_one p s s' \<and> logs (grew v s s') w w')"
proof (cases "active_in (st_states s) p")
  case True
  with run ok show ?thesis
    by (auto simp: stage_plugin_def active_in_def staged_one_def logs_def grew_def)
next
  case False
  obtain made k1 w1 where made: "make_instance hk v (st_states s) (st_instances s) m k w = (made, k1, w1)"
    by (metis prod_cases3)
  from make_instance_facts [OF made] obtain xs where
    xs: "same_kernel k k1" "wo_log w1 = wo_log w @ xs" "quiet xs" by (auto simp: logs_def)
  from make_instance_no_panic [OF made view] have calm: "made \<noteq> Inl LcPanic" .
  have old: "bt_get (st_instances s) p = None" "p \<notin> set (st_staged s)" using ok False by (auto simp: staging_ok_def)
  consider (failed) e where "made = Inl e" | (resource) "made = Inr None" | (made) i where "made = Inr (Some i)"
    by (metis option.exhaust sum.exhaust)
  then show ?thesis
  proof cases
    case failed
    with run False view(2) made calm have "r = Inl e" "e \<noteq> LcPanic" "k' = k1"
      "w' = cleanup_staged hk v (st_states s) (st_instances s) (st_staged s) w1"
      by (auto simp: stage_plugin_def active_in_def split: lifecycle_error.splits)
    with cleanup_undone [OF ok xs(2)] xs(1,3) quiet_projections [OF xs(3)] show ?thesis by simp
  next
    case resource
    with run False view(2) made have "r = Inr (s\<lparr>st_states := bt_insert p Active (st_states s), st_staged := st_staged s @ [p]\<rparr>)"
      "k' = k1" "w' = w1" by (auto simp: stage_plugin_def active_in_def)
    with xs old False ok view(2) quiet_projections [OF xs(3)] show ?thesis
      by (auto simp: staged_one_def logs_def grew_def staging_ok_def staged_pairs_def pair_of_def)
  next
    case made
    let ?f = "\<lambda>ts. snd (cancel_plugin_generation p (vw_generation v) ts)"
    let ?call = "\<lambda>cell w. let (failure, w) = start_instance hk (host_for v (st_states s) (st_instances s) m cell) p i w
       in if failure = None then (failure, w)
          else (failure, cleanup_staged hk v (st_states s) (st_instances s) (st_staged s) (on_tasks ?f w))"
    obtain failure w2 where call: "in_call p (vw_generation v) ?call w1 = (failure, w2)" by fastforce
    note facts = stage_start_facts [OF call ok ready [OF False]]
    have out: "k' = k1" "w' = w2" "r = (case failure of Some msg \<Rightarrow> Inl (PluginStart p msg)
        | None \<Rightarrow> Inr \<lparr>st_states = bt_insert p Active (st_states s), st_instances = bt_insert p i (st_instances s),
            st_staged = st_staged s @ [p]\<rparr>)"
      using run False view(2) \<open>made = Inr (Some i)\<close> call \<open>make_instance hk v _ _ m k w = _\<close>
      by (auto simp: stage_plugin_def active_in_def split: option.splits)
    show ?thesis
    proof (cases failure)
      case None
      with facts out xs old False ok view(2) quiet_projections [OF xs(3)] show ?thesis
        by (auto simp: staged_one_def logs_def grew_def staging_ok_def staged_pairs_def pair_of_def bt_get_insert
            filter_map_pairs_insert)
    next
      case (Some msg)
      with facts out xs quiet_projections [OF xs(3)] show ?thesis by (auto simp: logs_def undone_def)
    qed
  qed
qed

text \<open>An order in which every plugin comes after what it needs, unless that is active already.\<close>

fun ready_order :: "(plugin_id \<Rightarrow> plugin_id list) \<Rightarrow> plugin_id set \<Rightarrow> plugin_id list \<Rightarrow> bool" where
  "ready_order succ A [] = True"
| "ready_order succ A (p # ps) = ((p \<in> A \<or> set (succ p) \<subseteq> A) \<and> ready_order succ (insert p A) ps)"

lemma closed_ready_order: "closed_order succ (pre @ ps) \<Longrightarrow> set pre \<subseteq> A \<Longrightarrow> ready_order succ A ps"
proof (induction ps arbitrary: pre A)
  case (Cons p ps)
  from Cons.prems(1) have "set (succ p) \<subseteq> set pre"
    by (fastforce simp: closed_order_def nth_append dest: spec [of _ "length pre"])
  moreover from Cons.prems have "ready_order succ (insert p A) ps"
    by (intro Cons.IH [of "pre @ [p]"]) auto
  ultimately show ?case using Cons.prems(2) by auto
qed simp

definition staged_all :: "plugin_id list \<Rightarrow> 'i staging \<Rightarrow> 'i staging \<Rightarrow> bool" where
  "staged_all ps s s' \<longleftrightarrow>
     (\<forall>q. bt_get (st_states s') q = (if q \<in> set ps then Some Active else bt_get (st_states s) q)) \<and>
     st_staged s' = st_staged s @ filter (\<lambda>p. \<not> active_in (st_states s) p) ps \<and>
     (\<forall>q. active_in (st_states s) q \<or> q \<notin> set ps \<longrightarrow> bt_get (st_instances s') q = bt_get (st_instances s) q)"

lemma staged_one_all:
  assumes "staged_one p s s1" "staged_all ps s1 s'" "p \<notin> set ps"
  shows "staged_all (p # ps) s s'"
proof (cases "active_in (st_states s) p")
  case True
  with assms show ?thesis by (auto simp: staged_one_def staged_all_def active_in_def)
next
  case False
  with assms(1) have one: "st_states s1 = bt_insert p Active (st_states s)" "st_staged s1 = st_staged s @ [p]"
    "\<forall>q. q \<noteq> p \<longrightarrow> bt_get (st_instances s1) q = bt_get (st_instances s) q" by (auto simp: staged_one_def)
  have "filter (\<lambda>q. \<not> active_in (st_states s1) q) ps = filter (\<lambda>q. \<not> active_in (st_states s) q) ps"
    using assms(3) one(1) by (intro filter_cong) auto
  with assms(2,3) one False show ?thesis by (auto simp: staged_all_def bt_get_insert)
qed

lemma grew_undone: "grew v s s1 xs \<Longrightarrow> undone v s1 ys \<Longrightarrow> undone v s (xs @ ys)"
  by (auto simp: grew_def undone_def)

lemma grew_trans: "grew v s s1 xs \<Longrightarrow> grew v s1 s2 ys \<Longrightarrow> grew v s s2 (xs @ ys)"
  by (auto simp: grew_def)

lemma stage_plugins_facts:
  assumes "stage_plugins hk v ps s k w = (r, k', w')" "staging_ok v s" "view_ok v"
    "\<forall>p\<in>set ps. manifest_of (vw_config v) p \<noteq> None" "distinct ps"
    "ready_order (needs v) {q. active_in (st_states s) q} ps"
  shows "same_kernel k k' \<and> (case r of Inl e \<Rightarrow> e \<noteq> LcPanic \<and> logs (undone v s) w w'
     | Inr s' \<Rightarrow> staging_ok v s' \<and> staged_all ps s s' \<and> logs (grew v s s') w w')"
  using assms
proof (induction ps arbitrary: s k w)
  case Nil
  then show ?case by (auto simp: staged_all_def logs_def grew_def)
next
  case (Cons p ps)
  obtain r1 k1 w1 where one: "stage_plugin hk v s p k w = (r1, k1, w1)" by (metis prod_cases3)
  from Cons.prems(4) obtain m where m: "manifest_of (vw_config v) p = Some m" by auto
  from Cons.prems(6) have "\<not> active_in (st_states s) p \<Longrightarrow> \<forall>d\<in>set (needs v p). active_in (st_states s) d" by auto
  note f = stage_plugin_facts [OF one Cons.prems(2) this Cons.prems(3) m]
  show ?case
  proof (cases r1)
    case (Inl e)
    with one Cons.prems(1) have "r = Inl e" "k' = k1" "w' = w1" by auto
    with f Inl show ?thesis by simp
  next
    case (Inr s1)
    with f have s1: "same_kernel k k1" "staging_ok v s1" "staged_one p s s1" "logs (grew v s s1) w w1" by auto
    from s1(3) have "{q. active_in (st_states s1) q} = insert p {q. active_in (st_states s) q}"
      by (auto simp: staged_one_def split: if_splits)
    with Cons.prems have "ready_order (needs v) {q. active_in (st_states s1) q} ps" by simp
    moreover from one Inr Cons.prems(1) have "stage_plugins hk v ps s1 k1 w1 = (r, k', w')" by simp
    ultimately have tl: "same_kernel k1 k' \<and> (case r of Inl e \<Rightarrow> e \<noteq> LcPanic \<and> logs (undone v s1) w1 w'
        | Inr s' \<Rightarrow> staging_ok v s' \<and> staged_all ps s1 s' \<and> logs (grew v s1 s') w1 w')"
      using Cons.prems s1(2) by (intro Cons.IH) auto
    with s1 Cons.prems(5) show ?thesis
      by (auto intro: same_kernel_trans staged_one_all logs_trans grew_undone grew_trans split: sum.splits)
  qed
qed

subsection \<open>Staging the listeners\<close>

lemma bind_listener_log: "bind_listener hk v g s l i w = (r, w') \<Longrightarrow> logs quiet w w'"
  by (auto simp: bind_listener_def Let_def logs_def dest!: run_effect_log
      split: prod.splits option.splits verdict.splits)

lemma stage_each_listener_log: "stage_each_listener hk v g s ls subs w = (r, w') \<Longrightarrow> logs quiet w w' \<and> r \<noteq> Inl LcPanic"
proof (induction ls arbitrary: subs w)
  case (Cons l ls)
  show ?case
  proof (cases "bt_get (st_instances s) (rl_plugin l)")
    case (Some i)
    obtain b w1 where b: "bind_listener hk v g s l i w = (b, w1)" by fastforce
    note one = bind_listener_log [OF b]
    have "logs quiet w w'" if "logs quiet w1 w'" by (rule logs_trans [OF one that]) simp
    with Cons Some b one show ?thesis by (auto split: verdict.splits sum.splits)
  qed (use Cons.prems in \<open>auto simp: logs_def\<close>)
qed (auto simp: logs_def)

lemma stage_listeners_log:
  assumes "stage_listener_subscriptions hk v g s w = (r, w')"
  shows "logs quiet w w' \<and> r \<noteq> Inl LcPanic \<and> (\<forall>subs. r = Inr subs \<longrightarrow> is_ok (validate_subscriptions subs))"
proof -
  obtain e w1 where e: "stage_each_listener hk v g s (cg_listeners (vw_graph v)) [] w = (e, w1)" by fastforce
  from stage_each_listener_log [OF e] assms e show ?thesis
    by (cases e) (auto simp: stage_listener_subscriptions_def rbind_eq_Inl map_err_eq_Inl rbind_eq_Inr is_ok_iff)
qed

lemma validated_replace: "is_ok (validate_subscriptions subs) \<Longrightarrow> \<exists>bus'. replace_subscriptions subs bus = Inr bus'"
  by (auto simp: validate_subscriptions_def replace_subscriptions_def is_ok_iff rbind_eq_Inr)

subsection \<open>Views of valid configurations\<close>

lemma config_view_ok:
  assumes "config_ok ms (vw_config v)"
  shows "view_ok v" "\<forall>p\<in>set (kc_activation (vw_config v)). manifest_of (vw_config v) p \<noteq> None"
    "distinct (kc_activation (vw_config v))" "ready_order (needs v) A (kc_activation (vw_config v))"
    "set (kc_activation (vw_config v)) = set (bt_keys (kc_manifests (vw_config v)))"
proof -
  let ?c = "vw_config v"
  have act: "activation_ok (kc_manifests ?c) (kc_bindings ?c) (kc_activation ?c)"
    and idx: "indexed_manifests (kc_manifests ?c)" "set (bt_vals (kc_manifests ?c)) = set ms"
    using assms by (auto simp: config_ok_def)
  show "set (kc_activation ?c) = set (bt_keys (kc_manifests ?c))" "distinct (kc_activation ?c)"
    using act by (auto simp: activation_ok_def)
  then show "\<forall>p\<in>set (kc_activation ?c). manifest_of ?c p \<noteq> None" by (auto simp: manifest_of_def bt_keys_get)
  from act have "closed_order (needs v) ([] @ kc_activation ?c)" by (simp add: activation_ok_def needs_def)
  then show "ready_order (needs v) A (kc_activation ?c)" by (rule closed_ready_order) simp
  show "view_ok v"
    unfolding view_ok_def
  proof (intro allI impI, elim conjE)
    fix p m r a b
    assume h: "manifest_of ?c p = Some m" "pm_execution m = Runtime r a" "bt_get (kc_bindings ?c) (pm_id m) = Some b"
    then have "m \<in> set ms" using idx by (auto simp: manifest_of_def bt_vals_def dest!: bt_get_in) force
    with assms h show "manifest_of ?c (rb_provider b) \<noteq> None" by (fastforce simp: config_ok_def manifest_of_def)
  qed
qed

lemma bt_get_map_pairs: "bt_get (map (\<lambda>(p, m). (p, f p m)) kvs) q = map_option (f q) (bt_get kvs q)"
  by (induction kvs) auto

lemma bt_get_filter_map_pairs:
  "bt_ok kvs \<Longrightarrow> bt_get (filter_map (\<lambda>(p, m). map_option (Pair p) (f p m)) kvs) q = Option.bind (bt_get kvs q) (f q)"
proof (induction kvs)
  case (Cons kv kvs)
  obtain p m where kv: "kv = (p, m)" by fastforce
  have "bt_get kvs p = None" using Cons.prems kv by (auto simp: bt_get_None)
  with Cons kv show ?case by (auto split: option.splits)
qed simp

subsection \<open>The kernel between operations\<close>

definition kernel_ok :: "('i, 'h) kernel \<Rightarrow> bool" where
  "kernel_ok k \<longleftrightarrow> (\<exists>ms. config_ok ms (kn_config k)) \<and>
     (\<forall>p. bt_get (kn_states k) p \<noteq> None \<longleftrightarrow> manifest_of (kn_config k) p \<noteq> None) \<and>
     (\<forall>p. bt_get (kn_instances k) p \<noteq> None \<longrightarrow> active_in (kn_states k) p) \<and>
     (\<not> kn_active k \<longrightarrow> (\<forall>p. \<not> active_in (kn_states k) p)) \<and> subs_valid (eb_subscriptions (kn_bus k))"

lemma kernel_ok_prepared [simp]: "kernel_ok (k\<lparr>kn_prepared := ps\<rparr>) = kernel_ok k"
  by (simp add: kernel_ok_def)

lemma same_kernel_fields:
  assumes "same_kernel k k'"
  shows "kn_config k' = kn_config k" "kn_states k' = kn_states k" "kn_instances k' = kn_instances k"
    "kn_active k' = kn_active k" "kn_bus k' = kn_bus k" "kn_graph k' = kn_graph k"
    "kn_generation k' = kn_generation k" "kn_published k' = kn_published k" "kernel_ok k' = kernel_ok k"
proof -
  from assms have k: "k' = k\<lparr>kn_prepared := kn_prepared k'\<rparr>" by (simp add: same_kernel_def)
  show "kn_config k' = kn_config k" "kn_states k' = kn_states k" "kn_instances k' = kn_instances k"
    "kn_active k' = kn_active k" "kn_bus k' = kn_bus k" "kn_graph k' = kn_graph k"
    "kn_generation k' = kn_generation k" "kn_published k' = kn_published k" "kernel_ok k' = kernel_ok k"
    by (subst k, simp)+
qed

lemma retained_staging_facts:
  assumes "config_ok ms (ha_kernel h)"
  shows "staging_ok v (retained_staging k (ha_kernel h) R)" "st_staged (retained_staging k (ha_kernel h) R) = []"
    "bt_get (st_states (retained_staging k (ha_kernel h) R)) p =
       map_option (\<lambda>m. if retained k R p m then Active else Registered) (manifest_of (ha_kernel h) p)"
    "bt_get (st_instances (retained_staging k (ha_kernel h) R)) p =
       Option.bind (manifest_of (ha_kernel h) p) (\<lambda>m. if retained k R p m then bt_get (kn_instances k) p else None)"
proof -
  have ok: "bt_ok (kc_manifests (ha_kernel h))" using assms by (simp add: config_ok_def indexed_manifests_def)
  have "(\<lambda>(p, m). if retained k R p m then map_option (Pair p) (bt_get (kn_instances k) p) else None) =
      (\<lambda>(p, m). map_option (Pair p) (if retained k R p m then bt_get (kn_instances k) p else None))"
    by auto
  then show inst: "bt_get (st_instances (retained_staging k (ha_kernel h) R)) p =
      Option.bind (manifest_of (ha_kernel h) p) (\<lambda>m. if retained k R p m then bt_get (kn_instances k) p else None)" for p
    using bt_get_filter_map_pairs [OF ok, of "\<lambda>p m. if retained k R p m then bt_get (kn_instances k) p else None"]
    by (simp add: retained_staging_def manifest_of_def)
  show state: "bt_get (st_states (retained_staging k (ha_kernel h) R)) p =
      map_option (\<lambda>m. if retained k R p m then Active else Registered) (manifest_of (ha_kernel h) p)" for p
    by (simp add: retained_staging_def manifest_of_def bt_get_map_pairs)
  show "st_staged (retained_staging k (ha_kernel h) R) = []" by (simp add: retained_staging_def)
  with inst state show "staging_ok v (retained_staging k (ha_kernel h) R)"
    by (auto simp: staging_ok_def active_in_def bind_eq_Some_conv split: if_splits)
qed

lemma start_staging_facts:
  assumes "kernel_ok k"
  shows "staging_ok v (start_staging k)" "st_staged (start_staging k) = []"
  using assms by (auto simp: start_staging_def staging_ok_def kernel_ok_def)

text \<open>An attempt that fails: only the prepared instances may differ, and what it started it stopped, last first.\<close>

definition nothing_left :: "('i, 'h) kernel \<Rightarrow> ('w, 'i) world \<Rightarrow> ('i, 'h) kernel \<Rightarrow> ('w, 'i) world \<Rightarrow> bool" where
  "nothing_left k w k' w' \<longleftrightarrow> same_kernel k k' \<and> logs (\<lambda>xs. starts_ready xs \<and> stops_of xs = rev (starts_of xs)) w w'"

lemma undone_nothing_left:
  "same_kernel k k' \<Longrightarrow> logs (undone v s) w w' \<Longrightarrow> st_staged s = [] \<Longrightarrow> nothing_left k w k' w'"
  by (auto simp: nothing_left_def logs_def undone_def staged_pairs_def intro: hosts_starts_ready)

text \<open>Staged, then failed while the listeners were staged.\<close>

lemma listeners_failed:
  assumes "same_kernel k k'" "logs (grew v s s') w w1" "staging_ok v s'" "st_staged s = []" "logs quiet w1 w2"
  shows "nothing_left k w k' (cleanup_staged hk v (st_states s') (st_instances s') (st_staged s') w2)"
proof -
  from assms(5) obtain xs where xs: "wo_log w2 = wo_log w1 @ xs" "quiet xs" by (auto simp: logs_def)
  from cleanup_undone [OF assms(3) xs(1)] xs(2) quiet_projections [OF xs(2)]
  have "logs (undone v s') w1 (cleanup_staged hk v (st_states s') (st_instances s') (st_staged s') w2)" by simp
  then have "logs (undone v s) w (cleanup_staged hk v (st_states s') (st_instances s') (st_staged s') w2)"
    by (rule logs_trans [OF assms(2)]) (rule grew_undone)
  from undone_nothing_left [OF assms(1) this assms(4)] show ?thesis .
qed

subsection \<open>Replacing the generation\<close>

abbreviation restarts :: "harness \<Rightarrow> plugin_id set \<Rightarrow> ('i, 'h) kernel \<Rightarrow> plugin_id set" where
  "restarts h requested k \<equiv> runtime_restart_closure (kn_config k) (ha_kernel h) requested"

text \<open>The staging area a candidate ends up with.\<close>

definition staged_for :: "harness \<Rightarrow> plugin_id set \<Rightarrow> ('i, 'h) kernel \<Rightarrow> 'i staging \<Rightarrow> bool" where
  "staged_for h requested k s \<longleftrightarrow>
     (let initial = retained_staging k (ha_kernel h) (restarts h requested k)
      in staging_ok (harness_view h) s \<and>
         (if kn_active k then staged_all (kc_activation (ha_kernel h)) initial s else s = initial))"

lemma reconcile_staged:
  assumes ok: "config_ok ms (ha_kernel h)"
    and run: "(if kn_active k then stage_plugins hk (harness_view h) (kc_activation (ha_kernel h)) initial k w
       else (Inr initial, k, w)) = (staged, k1, w1)"
    and initial: "initial = retained_staging k (ha_kernel h) (restarts h requested k)"
  shows "same_kernel k k1 \<and> (case staged of Inl e \<Rightarrow> e \<noteq> LcPanic \<and> nothing_left k w k1 w1
     | Inr s \<Rightarrow> staged_for h requested k s \<and> logs (grew (harness_view h) initial s) w w1)"
proof -
  note init = retained_staging_facts(1) [OF ok, of "harness_view h" k "restarts h requested k", folded initial]
    retained_staging_facts(2) [OF ok, of k "restarts h requested k", folded initial]
  show ?thesis
  proof (cases "kn_active k")
    case False
    with run init(1) initial show ?thesis by (auto simp: staged_for_def Let_def logs_def grew_def)
  next
    case True
    have c: "config_ok ms (vw_config (harness_view h))" using ok by (simp add: harness_view_def)
    from run True have "stage_plugins hk (harness_view h) (kc_activation (ha_kernel h)) initial k w = (staged, k1, w1)"
      by simp
    from stage_plugins_facts [OF this init(1) config_view_ok(1) [OF c]] config_view_ok(2-4) [OF c]
    have "same_kernel k k1 \<and> (case staged of Inl e \<Rightarrow> e \<noteq> LcPanic \<and> logs (undone (harness_view h) initial) w w1
      | Inr s' \<Rightarrow> staging_ok (harness_view h) s' \<and> staged_all (kc_activation (ha_kernel h)) initial s' \<and>
          logs (grew (harness_view h) initial s') w w1)" by (simp add: harness_view_def)
    with True init(2) initial undone_nothing_left [of k k1 "harness_view h" initial w w1] show ?thesis
      by (auto simp: staged_for_def Let_def split: sum.splits)
  qed
qed

text \<open>The committed generation, and what the log gained.\<close>

definition committed :: "harness \<Rightarrow> plugin_id set \<Rightarrow> ('i, 'h) kernel \<Rightarrow> 'i staging \<Rightarrow> ('i, 'h) kernel \<Rightarrow> bool" where
  "committed h requested k s k' \<longleftrightarrow>
     (\<exists>subs bus prepared. is_ok (validate_subscriptions subs) \<and> replace_subscriptions subs (kn_bus k) = Inr bus \<and>
        k' = k\<lparr>kn_prepared := prepared, kn_bus := bus, kn_config := ha_kernel h, kn_states := st_states s,
          kn_instances := st_instances s, kn_generation := Some (ha_generation h), kn_graph := ha_graph h,
          kn_resources := ha_resources h, kn_published := kn_published k @
            map (\<lambda>(p, i). PluginStopped p) (retired_instances k (ha_kernel h) (restarts h requested k)) @
            map PluginActivated (st_staged s)\<rparr>)"

lemma retired_configured:
  assumes "kernel_ok k"
  shows "\<forall>(p, i)\<in>set (retired_instances k c R). manifest_of (kn_config k) p \<noteq> None"
proof -
  have "bt_ok (kc_manifests (kn_config k))" using assms by (auto simp: kernel_ok_def config_ok_def indexed_manifests_def)
  then show ?thesis
    by (auto simp: retired_instances_def set_filter_map manifest_of_def bt_get_None image_iff split: if_splits) force+
qed

lemma commit_generation_facts:
  assumes "commit_generation hk h (restarts h requested k) s subs k1 w1 = (r, k', w')"
    "same_kernel k k1" "kernel_ok k" "is_ok (validate_subscriptions subs)"
  shows "r = Inr () \<and> committed h requested k s k' \<and>
    wo_log w' = wo_log w1 @ stop_entries (retired_instances k (ha_kernel h) (restarts h requested k))"
proof -
  note same = same_kernel_fields [OF assms(2)]
  from assms(2) obtain prepared where k1: "k1 = k\<lparr>kn_prepared := prepared\<rparr>" by (auto simp: same_kernel_def)
  have ret: "retired_instances k1 c R = retired_instances k c R" for c R
    unfolding retired_instances_def same by (rule filter_map_cong) (auto simp: same)
  from validated_replace [OF assms(4)] obtain bus where bus: "replace_subscriptions subs (kn_bus k) = Inr bus" by blast
  from retired_configured [OF assms(3)]
  have "\<forall>(p, i)\<in>set (retired_instances k (ha_kernel h) (restarts h requested k)). manifest_of (kn_config k1) p \<noteq> None"
    by (simp add: same)
  from stop_retired_log [OF this] assms(1,4) bus show ?thesis
    by (auto simp: commit_generation_def Let_def same ret committed_def publish_all_def k1 ret [unfolded k1])
qed

lemma reconcile_facts:
  assumes run: "reconcile_generation hk h requested k w = (r, k', w')" and ok: "config_ok ms (ha_kernel h)" "kernel_ok k"
  shows "case r of Inl e \<Rightarrow> e \<noteq> LcPanic \<and> nothing_left k w k' w'
    | Inr _ \<Rightarrow> \<exists>s starts. staged_for h requested k s \<and> committed h requested k s k' \<and>
        hosts_ready (harness_view h) starts \<and> stops_of starts = [] \<and> starts_of starts = staged_pairs s \<and>
        wo_log w' = wo_log w @ starts @ stop_entries (retired_instances k (ha_kernel h) (restarts h requested k))"
proof (cases "kn_active k \<and> \<not> all_active (kn_states k) \<or> \<not> kn_active k \<and> list_ex (\<lambda>s. s = Active) (bt_vals (kn_states k))")
  case True
  with run show ?thesis by (auto simp: reconcile_generation_def nothing_left_def logs_def starts_ready_def)
next
  case False
  let ?v = "harness_view h" and ?i = "retained_staging k (ha_kernel h) (restarts h requested k)"
  obtain staged k1 w1 where st: "(if kn_active k then stage_plugins hk ?v (kc_activation (ha_kernel h)) ?i k w
      else (Inr ?i, k, w)) = (staged, k1, w1)" by (metis prod_cases3)
  note f = reconcile_staged [OF ok(1) st refl]
  show ?thesis
  proof (cases staged)
    case (Inl e)
    with run False st have "r = Inl e" "k' = k1" "w' = w1" by (auto simp: reconcile_generation_def Let_def)
    with f Inl show ?thesis by simp
  next
    case (Inr s)
    with f have s: "same_kernel k k1" "staged_for h requested k s" "logs (grew ?v ?i s) w w1" by auto
    then have sok: "staging_ok ?v s" by (auto simp: staged_for_def Let_def)
    obtain ls w2 where ls: "stage_listener_subscriptions hk ?v (ha_generation h) s w1 = (ls, w2)" by fastforce
    note empty = retained_staging_facts(2) [OF ok(1), of k "restarts h requested k"]
    show ?thesis
    proof (cases ls)
      case (Inl e)
      with run False st Inr ls have "r = Inl e" "k' = k1"
        "w' = cleanup_staged hk ?v (st_states s) (st_instances s) (st_staged s) w2"
        by (auto simp: reconcile_generation_def Let_def)
      with listeners_failed [OF s(1,3) sok empty, where hk = hk] stage_listeners_log [OF ls] Inl show ?thesis by simp
    next
      case (Inr subs)
      with run False st \<open>staged = Inr s\<close> ls
      have c: "commit_generation hk h (restarts h requested k) s subs k1 w2 = (r, k', w')"
        by (auto simp: reconcile_generation_def Let_def)
      from stage_listeners_log [OF ls] Inr obtain ys where
        ys: "is_ok (validate_subscriptions subs)" "quiet ys" "wo_log w2 = wo_log w1 @ ys" by (auto simp: logs_def)
      from s(3) obtain xs where xs: "wo_log w1 = wo_log w @ xs" "grew ?v ?i s xs" by (auto simp: logs_def)
      from commit_generation_facts [OF c s(1) ok(2) ys(1)] xs ys quiet_projections [OF ys(2)] s(2) empty show ?thesis
        by (auto simp: grew_def staged_pairs_def intro!: exI [of _ s] exI [of _ "xs @ ys"])
    qed
  qed
qed

lemma no_subscriptions_valid: "is_ok (validate_subscriptions [])"
  by (simp add: validate_subscriptions_def index_subscriptions_def validate_dependencies_def event_keys_def is_ok_iff)

lemma activate_listeners:
  assumes "(case g of Some generation \<Rightarrow> stage_listener_subscriptions hk v generation s w
      | None \<Rightarrow> (if listeners = [] then Inr [] else Inl ResolvedGenerationMissing, w)) = (ls, w')"
  shows "logs quiet w w' \<and> ls \<noteq> Inl LcPanic \<and> (\<forall>subs. ls = Inr subs \<longrightarrow> is_ok (validate_subscriptions subs))"
proof (cases g)
  case None
  with assms no_subscriptions_valid show ?thesis by (auto simp: logs_def split: if_splits)
next
  case (Some generation)
  with assms stage_listeners_log show ?thesis by fastforce
qed

definition activated :: "('i, 'h) kernel \<Rightarrow> 'i staging \<Rightarrow> ('i, 'h) kernel \<Rightarrow> bool" where
  "activated k s k' \<longleftrightarrow> (\<exists>subs bus prepared. replace_subscriptions subs (kn_bus k) = Inr bus \<and>
     k' = k\<lparr>kn_prepared := prepared, kn_bus := bus, kn_states := st_states s, kn_instances := st_instances s,
       kn_active := True, kn_published := kn_published k @ map PluginActivated (st_staged s)\<rparr>)"

lemma activate_facts:
  assumes run: "activate_all hk k w = (r, k', w')" and ok: "kernel_ok k"
  shows "case r of Inl e \<Rightarrow> e \<noteq> LcPanic \<and> nothing_left k w k' w'
    | Inr _ \<Rightarrow> (kn_active k \<and> all_active (kn_states k) \<and> k' = k \<and> w' = w) \<or>
       (\<exists>s. staging_ok (kernel_view k) s \<and> staged_all (kc_activation (kn_config k)) (start_staging k) s \<and> activated k s k' \<and>
          logs (\<lambda>xs. hosts_ready (kernel_view k) xs \<and> stops_of xs = [] \<and> starts_of xs = staged_pairs s) w w')"
proof (cases "kn_active k \<and> all_active (kn_states k)")
  case True
  with run show ?thesis by (auto simp: activate_all_def)
next
  case False
  let ?v = "kernel_view k" and ?i = "start_staging k"
  obtain ms where "config_ok ms (vw_config ?v)" using ok by (auto simp: kernel_ok_def kernel_view_def)
  note view = config_view_ok [OF this]
  note init = start_staging_facts [OF ok]
  obtain staged k1 w1 where st: "stage_plugins hk ?v (kc_activation (kn_config k)) ?i k w = (staged, k1, w1)"
    by (metis prod_cases3)
  from stage_plugins_facts [OF st init(1) view(1)] view(2-4)
  have f: "same_kernel k k1 \<and> (case staged of Inl e \<Rightarrow> e \<noteq> LcPanic \<and> logs (undone ?v ?i) w w1
    | Inr s' \<Rightarrow> staging_ok ?v s' \<and> staged_all (kc_activation (kn_config k)) ?i s' \<and> logs (grew ?v ?i s') w w1)"
    by (simp add: kernel_view_def)
  show ?thesis
  proof (cases staged)
    case (Inl e)
    with run False st have "r = Inl e" "k' = k1" "w' = w1" by (auto simp: activate_all_def)
    with f Inl undone_nothing_left [OF _ _ init(2)] show ?thesis by auto
  next
    case (Inr s)
    with f have s: "same_kernel k k1" "staging_ok ?v s" "staged_all (kc_activation (kn_config k)) ?i s"
      "logs (grew ?v ?i s) w w1" by auto
    note same = same_kernel_fields [OF s(1)]
    have view_same: "kernel_view k1 = ?v" by (simp add: kernel_view_def same)
    obtain ls w2 where ls: "(case kn_generation k1 of Some g \<Rightarrow> stage_listener_subscriptions hk (kernel_view k1) g s w1
        | None \<Rightarrow> (if cg_listeners (kn_graph k1) = [] then Inr [] else Inl ResolvedGenerationMissing, w1)) = (ls, w2)"
      by fastforce
    note lf = activate_listeners [OF ls]
    show ?thesis
    proof (cases ls)
      case (Inl e)
      with run False st Inr ls have "r = Inl e" "k' = k1"
        "w' = cleanup_staged hk ?v (st_states s) (st_instances s) (st_staged s) w2"
        by (simp_all add: activate_all_def view_same)
      with listeners_failed [OF s(1,4,2) init(2), where hk = hk] lf Inl show ?thesis by simp
    next
      case (Inr subs)
      with run False st \<open>staged = Inr s\<close> ls
      have c: "commit_activation s subs k1 = (r, k')" "w' = w2" by (simp_all add: activate_all_def split: prod.splits)
      from validated_replace lf Inr obtain bus where bus: "replace_subscriptions subs (kn_bus k) = Inr bus" by blast
      from s(1) obtain prepared where k1: "k1 = k\<lparr>kn_prepared := prepared\<rparr>" by (auto simp: same_kernel_def)
      have "logs (\<lambda>xs. hosts_ready ?v xs \<and> stops_of xs = [] \<and> starts_of xs = staged_pairs s) w w'"
        using s(4) lf init(2) unfolding c(2)
        by (rule_tac logs_trans [where P = "grew ?v ?i s" and Q = quiet])
          (auto simp: grew_def staged_pairs_def dest: quiet_projections)
      moreover from c(1) bus have "r = Inr ()" "activated k s k'"
        by (auto simp: commit_activation_def publish_all_def k1 activated_def)
      ultimately show ?thesis using s(2,3) by auto
    qed
  qed
qed

subsection \<open>Instances prepared in advance\<close>

text \<open>Every start that was tried, whether it succeeded or not.\<close>

definition attempted :: "'i log_entry list \<Rightarrow> (plugin_id \<times> 'i) list" where
  "attempted log = filter_map (\<lambda>e. case e of LogStart p i ok host \<Rightarrow> Some (p, i) | _ \<Rightarrow> None) log"

definition embedded_in :: "kernel_config \<Rightarrow> plugin_id \<Rightarrow> bool" where
  "embedded_in c p \<longleftrightarrow> (\<exists>m. manifest_of c p = Some m \<and> pm_execution m = Embedded)"

text \<open>Used up are just the prepared instances of embedded plugins that were tried, and it is these instances that were tried.\<close>

definition uses_prepared ::
    "kernel_config \<Rightarrow> 'i instances \<Rightarrow> 'i instances \<Rightarrow> 'i log_entry list \<Rightarrow> bool" where
  "uses_prepared c before after xs \<longleftrightarrow>
     after = filter (\<lambda>(p, i). \<not> (embedded_in c p \<and> p \<in> fst ` set (attempted xs))) before \<and>
     (\<forall>(p, i)\<in>set (attempted xs). embedded_in c p \<longrightarrow> bt_get before p = None \<or> bt_get before p = Some i)"

lemma attempted_simps [simp]:
  "attempted [] = []" "attempted (xs @ ys) = attempted xs @ attempted ys" "attempted (LogStart p i ok host # xs) = (p, i) # attempted xs"
  "attempted (LogStop p i # xs) = attempted xs"
  by (simp_all add: attempted_def)

lemma quiet_attempted: "quiet xs \<Longrightarrow> attempted xs = []"
  by (induction xs) (auto simp: quiet_def attempted_def)

lemma uses_none: "attempted xs = [] \<Longrightarrow> uses_prepared c m m xs"
  by (simp add: uses_prepared_def)

lemma uses_cong: "attempted xs = attempted ys \<Longrightarrow> uses_prepared c m m' xs = uses_prepared c m m' ys"
  by (simp add: uses_prepared_def)

lemma bt_get_filter_keys: "bt_get (filter (\<lambda>(q, v). Q q) m) p = (if Q p then bt_get m p else None)"
  by (induction m) auto

lemma bt_remove_filter: "bt_remove p m = filter (\<lambda>(q, v). q \<noteq> p) m"
  by (induction m) auto

lemma uses_trans:
  assumes "uses_prepared c m m1 xs" "uses_prepared c m1 m2 ys" "fst ` set (attempted xs) \<inter> fst ` set (attempted ys) = {}"
  shows "uses_prepared c m m2 (xs @ ys)"
proof -
  have same: "bt_get m1 p = bt_get m p" if "p \<in> fst ` set (attempted ys)" for p
  proof -
    have "p \<notin> fst ` set (attempted xs)" using that assms(3) by blast
    with assms(1) show ?thesis
      using bt_get_filter_keys [of "\<lambda>p. \<not> (embedded_in c p \<and> p \<in> fst ` set (attempted xs))" m p] by (simp add: uses_prepared_def)
  qed
  with assms(2) have ys: "m2 = filter (\<lambda>(p, i). \<not> (embedded_in c p \<and> p \<in> fst ` set (attempted ys))) m1"
    "\<forall>(p, i)\<in>set (attempted ys). embedded_in c p \<longrightarrow> bt_get m1 p = None \<or> bt_get m1 p = Some i"
    by (simp_all add: uses_prepared_def)
  from assms(1) have xs: "m1 = filter (\<lambda>(p, i). \<not> (embedded_in c p \<and> p \<in> fst ` set (attempted xs))) m"
    "\<forall>(p, i)\<in>set (attempted xs). embedded_in c p \<longrightarrow> bt_get m p = None \<or> bt_get m p = Some i"
    by (simp_all add: uses_prepared_def)
  have "m2 = filter (\<lambda>(p, i). \<not> (embedded_in c p \<and> p \<in> fst ` set (attempted (xs @ ys)))) m"
    unfolding ys(1) xs(1) by (simp add: image_Un) (rule filter_cong; auto)
  moreover have "\<forall>(p, i)\<in>set (attempted ys). embedded_in c p \<longrightarrow> bt_get m p = None \<or> bt_get m p = Some i"
    using ys(2) same by (metis (mono_tags, lifting) case_prodI2 case_prodD fst_conv image_eqI)
  ultimately show ?thesis using xs(2) by (simp add: uses_prepared_def ball_Un)
qed

lemma view_stop_calm: "logs (\<lambda>xs. attempted xs = []) w (view_stop hk v states instances p i w)"
proof (cases "manifest_of (vw_config v) p")
  case None
  then show ?thesis by (simp add: view_stop_def logs_def)
next
  case (Some m)
  from view_stop_log [OF this, of hk states instances i w] show ?thesis by (simp add: logs_def)
qed

lemma cleanup_calm: "logs (\<lambda>xs. attempted xs = []) w (cleanup_staged hk v states instances staged w)"
proof -
  have "logs (\<lambda>xs. attempted xs = []) w
      (foldl (\<lambda>w p. case bt_get instances p of Some i \<Rightarrow> view_stop hk v states instances p i w | None \<Rightarrow> w) w ps)" for ps
  proof (induction ps arbitrary: w)
    case (Cons p ps)
    show ?case
    proof (cases "bt_get instances p")
      case (Some i)
      have "logs (\<lambda>xs. attempted xs = []) w (foldl (\<lambda>w p. case bt_get instances p of
          Some i \<Rightarrow> view_stop hk v states instances p i w | None \<Rightarrow> w) (view_stop hk v states instances p i w) ps)"
        by (rule logs_trans [OF view_stop_calm Cons]) simp
      with Some show ?thesis by simp
    qed (use Cons in simp)
  qed (simp add: logs_def)
  then show ?thesis by (simp add: cleanup_staged_def)
qed

text \<open>Making an instance uses up the one prepared for an embedded plugin.\<close>

lemma make_instance_prepared:
  assumes "make_instance hk v states instances m k w = (r, k', w')" "manifest_of (vw_config v) p = Some m" "pm_id m = p"
  shows "(\<forall>i. r = Inr (Some i) \<longrightarrow> uses_prepared (vw_config v) (kn_prepared k) (kn_prepared k') [LogStart p i ok host]) \<and>
    ((\<nexists>i. r = Inr (Some i)) \<longrightarrow> kn_prepared k' = kn_prepared k)"
proof (cases "pm_execution m")
  case Embedded
  obtain q k1 w1 where q: "take_embedded_instance hk p k w = (q, k1, w1)" by (metis prod_cases3)
  with assms Embedded have out: "r = map_sum (\<lambda>e. e) Some q" "k' = k1" by (simp_all add: make_instance_def)
  have emb: "embedded_in (vw_config v) p" using assms(2) Embedded by (simp add: embedded_in_def)
  show ?thesis
  proof (cases "bt_get (kn_prepared k) p")
    case None
    then have "\<forall>(q, i)\<in>set (kn_prepared k). q \<noteq> p" by (force simp: bt_get_None)
    then have "filter (\<lambda>(q, i). \<not> (embedded_in (vw_config v) q \<and> q = p)) (kn_prepared k) = kn_prepared k"
      by (intro filter_True) auto
    with None q out show ?thesis
      by (auto simp: take_embedded_instance_def uses_prepared_def split: if_splits prod.splits)
  next
    case (Some i)
    have "filter (\<lambda>(q, i). \<not> (embedded_in (vw_config v) q \<and> q = p)) (kn_prepared k) = bt_remove p (kn_prepared k)"
      using emb by (auto simp: bt_remove_filter intro!: filter_cong)
    with Some q out show ?thesis by (auto simp: take_embedded_instance_def uses_prepared_def)
  qed
next
  case (Runtime rt art)
  then have "\<not> embedded_in (vw_config v) p" using assms(2) by (simp add: embedded_in_def)
  then have "filter (\<lambda>(q, i). \<not> (embedded_in (vw_config v) q \<and> q = p)) (kn_prepared k) = kn_prepared k"
    by (intro filter_True) auto
  with Runtime assms(1) \<open>\<not> embedded_in (vw_config v) p\<close> show ?thesis
    by (auto simp: make_instance_def uses_prepared_def split: prod.splits)
qed (use assms(1) in \<open>auto simp: make_instance_def\<close>)

text \<open>One round of the activation loop tries the start of its own plugin at most.\<close>

lemma stage_plugin_prepared:
  assumes run: "stage_plugin hk v s p k w = (r, k', w')" and m: "manifest_of (vw_config v) p = Some m" "pm_id m = p"
  shows "logs (\<lambda>xs. uses_prepared (vw_config v) (kn_prepared k) (kn_prepared k') xs \<and> fst ` set (attempted xs) \<subseteq> {p}) w w'"
proof (cases "active_in (st_states s) p")
  case True
  with run show ?thesis by (auto simp: stage_plugin_def active_in_def logs_def intro: uses_none)
next
  case False
  obtain made k1 w1 where made: "make_instance hk v (st_states s) (st_instances s) m k w = (made, k1, w1)"
    by (metis prod_cases3)
  from make_instance_facts [OF made] obtain xs where xs: "wo_log w1 = wo_log w @ xs" "attempted xs = []"
    by (auto simp: logs_def dest: quiet_attempted)
  note prepared = make_instance_prepared [OF made m]
  show ?thesis
  proof (cases "\<exists>i. made = Inr (Some i)")
    case False
    from cleanup_calm [of w1 hk v "st_states s" "st_instances s" "st_staged s"] obtain ys where
      "wo_log (cleanup_staged hk v (st_states s) (st_instances s) (st_staged s) w1) = wo_log w1 @ ys" "attempted ys = []"
      by (auto simp: logs_def)
    with run m(1) made xs prepared False \<open>\<not> active_in (st_states s) p\<close> show ?thesis
      by (auto simp: stage_plugin_def active_in_def logs_def intro: uses_none split: sum.splits option.splits lifecycle_error.splits)
  next
    case True
    then obtain i where i: "made = Inr (Some i)" by blast
    let ?f = "\<lambda>ts. snd (cancel_plugin_generation p (vw_generation v) ts)"
    let ?call = "\<lambda>cell w. let (failure, w) = start_instance hk (host_for v (st_states s) (st_instances s) m cell) p i w
       in if failure = None then (failure, w)
          else (failure, cleanup_staged hk v (st_states s) (st_instances s) (st_staged s) (on_tasks ?f w))"
    obtain failure w2 where call: "in_call p (vw_generation v) ?call w1 = (failure, w2)" by fastforce
    have tried: "logs (\<lambda>xs. attempted xs = [(p, i)]) u u'" if inner: "?call cell u = (fl, u')" for cell u fl u'
    proof -
      obtain fl1 u1 where start: "start_instance hk (host_for v (st_states s) (st_instances s) m cell) p i u = (fl1, u1)" by fastforce
      note l = start_instance_log [OF start]
      from cleanup_calm [of "on_tasks ?f u1" hk v "st_states s" "st_instances s" "st_staged s"] obtain ys where
        "wo_log (cleanup_staged hk v (st_states s) (st_instances s) (st_staged s) (on_tasks ?f u1)) = wo_log u1 @ ys" "attempted ys = []"
        by (auto simp: logs_def)
      with l inner start show ?thesis by (auto simp: logs_def split: if_splits)
    qed
    have "logs (\<lambda>xs. attempted xs = [(p, i)]) w1 w2" by (rule in_call_logs [OF call]) (rule tried)
    then obtain ys where ys: "wo_log w2 = wo_log w1 @ ys" "attempted ys = [(p, i)]"
      by (auto simp: logs_def)
    have "k' = k1" "w' = w2"
      using run False m(1) i call made by (auto simp: stage_plugin_def active_in_def split: option.splits)
    moreover have "uses_prepared (vw_config v) (kn_prepared k) (kn_prepared k1) (xs @ ys)"
      using prepared i uses_cong [of "xs @ ys" "[LogStart p i ok host]" for ok host] xs(2) ys(2) by force
    ultimately show ?thesis using xs ys by (auto simp: logs_def)
  qed
qed

lemma stage_plugins_prepared:
  assumes "stage_plugins hk v ps s k w = (r, k', w')" "distinct ps"
    "\<forall>p\<in>set ps. \<exists>m. manifest_of (vw_config v) p = Some m \<and> pm_id m = p"
  shows "logs (\<lambda>xs. uses_prepared (vw_config v) (kn_prepared k) (kn_prepared k') xs \<and> fst ` set (attempted xs) \<subseteq> set ps) w w'"
  using assms
proof (induction ps arbitrary: s k w)
  case Nil
  then show ?case by (auto simp: logs_def intro: uses_none)
next
  case (Cons p ps)
  obtain r1 k1 w1 where one: "stage_plugin hk v s p k w = (r1, k1, w1)" by (metis prod_cases3)
  from Cons.prems(3) obtain m where "manifest_of (vw_config v) p = Some m" "pm_id m = p" by auto
  from stage_plugin_prepared [OF one this] obtain xs where xs: "wo_log w1 = wo_log w @ xs"
    "uses_prepared (vw_config v) (kn_prepared k) (kn_prepared k1) xs" "fst ` set (attempted xs) \<subseteq> {p}" by (auto simp: logs_def)
  show ?case
  proof (cases r1)
    case (Inl e)
    with one Cons.prems(1) xs show ?thesis by (auto simp: logs_def)
  next
    case (Inr s1)
    with one Cons.prems(1) have "stage_plugins hk v ps s1 k1 w1 = (r, k', w')" by simp
    from Cons.IH [OF this] Cons.prems(2,3) obtain ys where ys: "wo_log w' = wo_log w1 @ ys"
      "uses_prepared (vw_config v) (kn_prepared k1) (kn_prepared k') ys" "fst ` set (attempted ys) \<subseteq> set ps" by (auto simp: logs_def)
    have "fst ` set (attempted xs) \<inter> fst ` set (attempted ys) = {}" using xs(3) ys(3) Cons.prems(2) by auto
    from uses_trans [OF xs(2) ys(2) this] xs(1,3) ys(1,3) show ?thesis by (auto simp: logs_def)
  qed
qed

lemma config_staged:
  assumes "config_ok ms c"
  shows "distinct (kc_activation c)" "\<forall>p\<in>set (kc_activation c). \<exists>m. manifest_of c p = Some m \<and> pm_id m = p"
proof -
  have act: "distinct (kc_activation c)" "set (kc_activation c) = set (bt_keys (kc_manifests c))"
    and idx: "indexed_manifests (kc_manifests c)" using assms by (auto simp: config_ok_def activation_ok_def)
  then show "distinct (kc_activation c)" "\<forall>p\<in>set (kc_activation c). \<exists>m. manifest_of c p = Some m \<and> pm_id m = p"
    by (auto simp: manifest_of_def bt_keys_get indexed_manifests_def)
qed

text \<open>After the staging, nothing is taken.\<close>

lemma calm_after:
  assumes "logs (\<lambda>xs. uses_prepared c m m' xs \<and> Q xs) w w1" "logs (\<lambda>xs. attempted xs = []) w1 w2"
  shows "logs (uses_prepared c m m') w w2"
  by (rule logs_trans [OF assms]) (simp add: uses_prepared_def)

lemma calm_refl: "logs (\<lambda>xs. attempted xs = []) w w"
  by (simp add: logs_def)

lemma activate_prepared:
  assumes "activate_all hk k w = (r, k', w')" "config_ok ms (kn_config k)"
  shows "logs (uses_prepared (kn_config k) (kn_prepared k) (kn_prepared k')) w w'"
proof (cases "kn_active k \<and> all_active (kn_states k)")
  case True
  with assms(1) show ?thesis by (auto simp: activate_all_def logs_def intro: uses_none)
next
  case False
  obtain staged k1 w1 where st: "stage_plugins hk (kernel_view k) (kc_activation (kn_config k)) (start_staging k) k w = (staged, k1, w1)"
    by (metis prod_cases3)
  from stage_plugins_prepared [OF st] config_staged [OF assms(2)]
  have one: "logs (\<lambda>xs. uses_prepared (kn_config k) (kn_prepared k) (kn_prepared k1) xs \<and>
      fst ` set (attempted xs) \<subseteq> set (kc_activation (kn_config k))) w w1" by (simp add: kernel_view_def)
  show ?thesis
  proof (cases staged)
    case (Inl e)
    with assms(1) False st calm_after [OF one calm_refl] show ?thesis by (simp add: activate_all_def)
  next
    case (Inr s)
    obtain ls w2 where ls: "(case kn_generation k1 of Some g \<Rightarrow> stage_listener_subscriptions hk (kernel_view k1) g s w1
        | None \<Rightarrow> (if cg_listeners (kn_graph k1) = [] then Inr [] else Inl ResolvedGenerationMissing, w1)) = (ls, w2)"
      by fastforce
    from activate_listeners [OF ls] have quiet2: "logs (\<lambda>xs. attempted xs = []) w1 w2" by (auto simp: logs_def dest: quiet_attempted)
    have "kn_prepared k' = kn_prepared k1 \<and> (w' = w2 \<or> w' = cleanup_staged hk (kernel_view k1) (st_states s) (st_instances s) (st_staged s) w2)"
      using assms(1) False st Inr ls
      by (auto simp: activate_all_def commit_activation_def publish_all_def split: sum.splits prod.splits)
    moreover have "logs (\<lambda>xs. attempted xs = []) w1 (cleanup_staged hk (kernel_view k1) (st_states s) (st_instances s) (st_staged s) w2)"
      by (rule logs_trans [OF quiet2 cleanup_calm]) simp
    ultimately show ?thesis using calm_after [OF one quiet2] calm_after [OF one] by auto
  qed
qed

lemma reconcile_prepared:
  assumes "reconcile_generation hk h requested k w = (Inl e, k', w')" "config_ok ms (ha_kernel h)"
  shows "logs (uses_prepared (ha_kernel h) (kn_prepared k) (kn_prepared k')) w w'"
proof (cases "kn_active k \<and> \<not> all_active (kn_states k) \<or> \<not> kn_active k \<and> list_ex (\<lambda>s. s = Active) (bt_vals (kn_states k))")
  case True
  with assms(1) show ?thesis by (auto simp: reconcile_generation_def logs_def intro: uses_none)
next
  case False
  let ?v = "harness_view h" and ?i = "retained_staging k (ha_kernel h) (restarts h requested k)"
  obtain staged k1 w1 where st: "(if kn_active k then stage_plugins hk ?v (kc_activation (ha_kernel h)) ?i k w
      else (Inr ?i, k, w)) = (staged, k1, w1)" by (metis prod_cases3)
  have one: "logs (\<lambda>xs. uses_prepared (ha_kernel h) (kn_prepared k) (kn_prepared k1) xs \<and> True) w w1"
  proof (cases "kn_active k")
    case True
    with stage_plugins_prepared [of hk ?v "kc_activation (ha_kernel h)" ?i k w staged k1 w1] st config_staged [OF assms(2)]
    show ?thesis by (auto simp: harness_view_def logs_def)
  qed (use st in \<open>auto simp: logs_def intro: uses_none\<close>)
  show ?thesis
  proof (cases staged)
    case (Inl e')
    with assms(1) False st calm_after [OF one calm_refl] show ?thesis by (simp add: reconcile_generation_def Let_def)
  next
    case (Inr s)
    obtain ls w2 where ls: "stage_listener_subscriptions hk ?v (ha_generation h) s w1 = (ls, w2)" by fastforce
    from stage_listeners_log [OF ls] have quiet2: "logs (\<lambda>xs. attempted xs = []) w1 w2" by (auto simp: logs_def dest: quiet_attempted)
    have "kn_prepared k' = kn_prepared k1 \<and> (w' = w2 \<or> w' = cleanup_staged hk ?v (st_states s) (st_instances s) (st_staged s) w2)"
      using assms(1) False st Inr ls
      by (auto simp: reconcile_generation_def commit_generation_def Let_def split: sum.splits prod.splits)
    moreover have "logs (\<lambda>xs. attempted xs = []) w1 (cleanup_staged hk ?v (st_states s) (st_instances s) (st_staged s) w2)"
      by (rule logs_trans [OF quiet2 cleanup_calm]) simp
    ultimately show ?thesis using calm_after [OF one quiet2] calm_after [OF one] by auto
  qed
qed

subsection \<open>Attempts that fail\<close>

text \<open>C26: an attempt to activate all plugins or to replace the generation that fails, for whatever reason and at
  whatever plugin, leaves the kernel as it was, configuration, graph, states, instances, factories, subscriptions and published
  events included, but for the instances prepared in advance: of these just the ones of the embedded plugins it tried to
  start are gone, and it is these that it tried. Every plugin it started has been stopped
  again, last first, and no plugin that ran before was stopped. The failure is never a panic.\<close>

theorem failed_attempts_leave_nothing_running:
  assumes "kernel_ok k" "config_ok ms (ha_kernel h)" "attempt = (Inl e, k', w')"
    "attempt = activate_all hk k w \<and> c = kn_config k \<or> attempt = reconcile_generation hk h requested k w \<and> c = ha_kernel h"
  shows "k' = k\<lparr>kn_prepared := kn_prepared k'\<rparr> \<and> e \<noteq> LcPanic \<and>
    (\<exists>xs. wo_log w' = wo_log w @ xs \<and> stops_of xs = rev (starts_of xs) \<and>
      uses_prepared c (kn_prepared k) (kn_prepared k') xs)"
proof -
  from assms(1) obtain ms' where "config_ok ms' (kn_config k)" by (auto simp: kernel_ok_def)
  with assms activate_prepared [of hk k w "Inl e" k' w' ms'] reconcile_prepared [of hk h requested k w e k' w' ms]
  have "logs (uses_prepared c (kn_prepared k) (kn_prepared k')) w w'" by metis
  moreover from assms activate_facts [of hk k w "Inl e" k' w'] reconcile_facts [of hk h requested k w "Inl e" k' w' ms]
  have "e \<noteq> LcPanic \<and> nothing_left k w k' w'" by auto
  ultimately show ?thesis by (auto simp: nothing_left_def same_kernel_def logs_def)
qed

subsection \<open>A replacement that succeeds\<close>

definition renewed :: "harness \<Rightarrow> plugin_id set \<Rightarrow> ('i, 'h) kernel \<Rightarrow> plugin_id list" where
  "renewed h requested k = (if kn_active k then filter (\<lambda>p. \<forall>m. manifest_of (ha_kernel h) p = Some m \<longrightarrow>
     \<not> retained k (restarts h requested k) p m) (kc_activation (ha_kernel h)) else [])"

lemma staged_for_facts:
  assumes staged: "staged_for h requested k s" and ok: "config_ok ms (ha_kernel h)"
  shows "active_in (st_states s) p \<longleftrightarrow> kn_active k \<and> manifest_of (ha_kernel h) p \<noteq> None"
    "bt_get (st_states s) p \<noteq> None \<longleftrightarrow> manifest_of (ha_kernel h) p \<noteq> None"
    "st_staged s = renewed h requested k"
    "manifest_of (ha_kernel h) p = Some m \<Longrightarrow> retained k (restarts h requested k) p m \<Longrightarrow>
      bt_get (st_instances s) p = bt_get (kn_instances k) p"
    "bt_get (st_instances s) p \<noteq> None \<Longrightarrow> p \<in> set (st_staged s) \<or>
      bt_get (st_instances s) p = bt_get (kn_instances k) p"
proof -
  note init = retained_staging_facts [OF ok, where k = k and R = "restarts h requested k"]
  have "config_ok ms (vw_config (harness_view h))" using ok by (simp add: harness_view_def)
  from config_view_ok(5) [OF this]
  have keys: "p \<in> set (kc_activation (ha_kernel h)) \<longleftrightarrow> manifest_of (ha_kernel h) p \<noteq> None" for p
    by (simp add: harness_view_def manifest_of_def bt_keys_get)
  have st: "bt_get (st_states s) p = (if kn_active k \<and> manifest_of (ha_kernel h) p \<noteq> None then Some Active
      else map_option (\<lambda>m. Registered) (manifest_of (ha_kernel h) p))" for p
    using staged by (cases "manifest_of (ha_kernel h) p")
      (auto simp: staged_for_def Let_def staged_all_def init(3) keys retained_def split: if_splits)
  then show "active_in (st_states s) p \<longleftrightarrow> kn_active k \<and> manifest_of (ha_kernel h) p \<noteq> None"
    "bt_get (st_states s) p \<noteq> None \<longleftrightarrow> manifest_of (ha_kernel h) p \<noteq> None"
    by (auto simp: active_in_def)
  show staged_eq: "st_staged s = renewed h requested k"
    using staged init(2)
    by (auto simp: staged_for_def Let_def staged_all_def renewed_def active_in_def init(3) keys
        intro!: filter_cong split: if_splits)
  have inst: "bt_get (st_instances s) p = bt_get (kn_instances k) p"
    if "manifest_of (ha_kernel h) p = Some m" "retained k (restarts h requested k) p m" for p m
    using staged init(3,4) [of p] that
    by (auto simp: staged_for_def Let_def staged_all_def active_in_def split: if_splits)
  then show "manifest_of (ha_kernel h) p = Some m \<Longrightarrow> retained k (restarts h requested k) p m \<Longrightarrow>
      bt_get (st_instances s) p = bt_get (kn_instances k) p" .
  assume some: "bt_get (st_instances s) p \<noteq> None"
  show "p \<in> set (st_staged s) \<or> bt_get (st_instances s) p = bt_get (kn_instances k) p"
  proof (cases "\<exists>m. manifest_of (ha_kernel h) p = Some m \<and> retained k (restarts h requested k) p m")
    case False
    with init(4) [of p] have "bt_get (st_instances (retained_staging k (ha_kernel h) (restarts h requested k))) p = None"
      by (cases "manifest_of (ha_kernel h) p") auto
    with some staged False show ?thesis
      by (auto simp: staged_eq renewed_def staged_for_def Let_def staged_all_def split: if_splits)
  qed (use inst in auto)
qed

text \<open>C27: after a replacement that succeeds the kernel runs exactly the candidate: its configuration, graph, generation
  and resources, with every configured plugin active when the kernel was. A plugin whose manifest is unchanged and that
  nothing forced to restart keeps its instance and gets neither a start nor a stop. The others were started, in
  activation order and each with all it needs active; then the instances they replace were stopped, once each, and
  nothing else was. The published events say the same.\<close>

theorem replacement_is_exact:
  assumes "reconcile_generation hk h requested k w = (Inr u, k', w')" "config_ok ms (ha_kernel h)" "kernel_ok k"
  shows "kn_config k' = ha_kernel h \<and> kn_graph k' = ha_graph h \<and> kn_generation k' = Some (ha_generation h) \<and>
    kn_resources k' = ha_resources h \<and> kn_active k' = kn_active k \<and>
    (\<forall>p. active_in (kn_states k') p \<longleftrightarrow> kn_active k \<and> manifest_of (ha_kernel h) p \<noteq> None) \<and>
    (\<forall>p m. manifest_of (ha_kernel h) p = Some m \<and> retained k (restarts h requested k) p m \<longrightarrow>
       bt_get (kn_instances k') p = bt_get (kn_instances k) p) \<and>
    kn_published k' = kn_published k @ map (\<lambda>(p, i). PluginStopped p) (retired_instances k (ha_kernel h) (restarts h requested k)) @
      map PluginActivated (renewed h requested k) \<and>
    (\<exists>starts. wo_log w' = wo_log w @ starts @ stop_entries (retired_instances k (ha_kernel h) (restarts h requested k)) \<and>
       stops_of starts = [] \<and> starts_of starts = filter_map (pair_of (kn_instances k')) (renewed h requested k) \<and>
       hosts_ready (harness_view h) starts)"
proof -
  from reconcile_facts [OF assms] obtain s starts where s: "staged_for h requested k s" "committed h requested k s k'"
    "hosts_ready (harness_view h) starts" "stops_of starts = []" "starts_of starts = staged_pairs s"
    "wo_log w' = wo_log w @ starts @ stop_entries (retired_instances k (ha_kernel h) (restarts h requested k))"
    by auto
  note f = staged_for_facts [OF s(1) assms(2)]
  from s(2) have k': "kn_config k' = ha_kernel h" "kn_graph k' = ha_graph h" "kn_generation k' = Some (ha_generation h)"
    "kn_resources k' = ha_resources h" "kn_active k' = kn_active k" "kn_states k' = st_states s"
    "kn_instances k' = st_instances s" "kn_published k' = kn_published k @ map (\<lambda>(p, i). PluginStopped p)
      (retired_instances k (ha_kernel h) (restarts h requested k)) @ map PluginActivated (st_staged s)"
    by (auto simp: committed_def)
  show ?thesis
    unfolding k' using f s(3-6) by (intro conjI exI [of _ starts]) (auto simp: staged_pairs_def)
qed

lemma filter_map_none: "\<forall>x\<in>set xs. f x = None \<Longrightarrow> filter_map f xs = []"
  by (induction xs) auto

text \<open>A kernel whose plugins were never activated stages no instances, but its listeners are bound all the same: any
  candidate with a listener is refused.\<close>

lemma idle_kernel_refuses_listeners:
  assumes "kernel_ok k" "\<not> kn_active k" "cg_listeners (ha_graph h) = l # ls" "bt_ok (kn_states k)"
    "bt_ok (kc_manifests (ha_kernel h))"
  shows "reconcile_generation hk h requested k w = (Inl (LcKernel (PluginNotActive (rl_plugin l))), k, w)"
proof -
  have no: "\<not> list_ex (\<lambda>s. s = Active) (bt_vals (kn_states k))"
    using assms(1,2,4) by (auto simp: kernel_ok_def active_in_def list_ex_iff set_bt_vals)
  have "st_instances (retained_staging k (ha_kernel h) R) = []" for R
    using assms(2) by (auto simp: retained_staging_def retained_def intro: filter_map_none)
  moreover have "st_staged (retained_staging k (ha_kernel h) R) = []" for R by (simp add: retained_staging_def)
  ultimately show ?thesis
    using assms(2,3) no by (simp add: reconcile_generation_def Let_def
        stage_listener_subscriptions_def harness_view_def cleanup_staged_def)
qed

subsection \<open>Which plugins restart\<close>

definition binding_edges :: "kernel_config \<Rightarrow> (plugin_id \<times> plugin_id) set" where
  "binding_edges c = (\<lambda>b. (rb_provider b, rb_guest b)) ` set (bt_vals (kc_bindings c))"

definition rebound_guests :: "kernel_config \<Rightarrow> kernel_config \<Rightarrow> plugin_id set" where
  "rebound_guests active candidate =
     rb_guest ` {b \<in> set (bt_vals (kc_bindings candidate)). bt_get (kc_bindings active) (rb_guest b) \<noteq> Some b}"

lemma close_pass_sound:
  assumes "\<And>b. b \<in> set bs \<Longrightarrow> bt_get active (rb_guest b) \<noteq> Some b \<Longrightarrow> rb_guest b \<in> T"
    "\<And>b. b \<in> set bs \<Longrightarrow> rb_provider b \<in> T \<Longrightarrow> rb_guest b \<in> T" "R \<subseteq> T"
  shows "close_pass active bs R \<subseteq> T"
  using assms
proof (induction bs arbitrary: R)
  case (Cons c bs)
  let ?R1 = "if bt_get active (rb_guest c) \<noteq> Some c then insert (rb_guest c) R else R"
  let ?R2 = "if rb_provider c \<in> ?R1 then insert (rb_guest c) ?R1 else ?R1"
  have "?R1 \<subseteq> T" using Cons.prems by auto
  then have "?R2 \<subseteq> T" using Cons.prems(2) by auto
  then have "close_pass active bs ?R2 \<subseteq> T" by (rule Cons.IH [rotated 2]) (use Cons.prems in auto)
  then show ?case by (simp add: close_pass_def Let_def)
qed (simp add: close_pass_def)

lemma close_pass_fixed:
  assumes "close_pass active bs R = R" "b \<in> set bs"
  shows "(bt_get active (rb_guest b) \<noteq> Some b \<longrightarrow> rb_guest b \<in> R) \<and> (rb_provider b \<in> R \<longrightarrow> rb_guest b \<in> R)"
  using assms
proof (induction bs arbitrary: R)
  case (Cons c bs)
  let ?R1 = "if bt_get active (rb_guest c) \<noteq> Some c then insert (rb_guest c) R else R"
  let ?R2 = "if rb_provider c \<in> ?R1 then insert (rb_guest c) ?R1 else ?R1"
  have step: "close_pass active (c # bs) R = close_pass active bs ?R2" by (simp add: close_pass_def Let_def)
  with close_pass_bounds [of ?R2 active bs] Cons.prems(1) have "?R2 \<subseteq> R" by simp
  moreover have "R \<subseteq> ?R2" by auto
  ultimately have same: "?R2 = R" by (rule equalityI)
  with step Cons.prems(1) have "close_pass active bs R = R" by simp
  with Cons.IH Cons.prems(2) same show ?case by (auto split: if_splits)
qed simp

lemma close_loop_least:
  assumes "finite R"
  shows "close_pass active bs (close_loop active bs R) = close_loop active bs R \<and> R \<subseteq> close_loop active bs R \<and>
    (\<forall>T. R \<subseteq> T \<and> (\<forall>b\<in>set bs. bt_get active (rb_guest b) \<noteq> Some b \<longrightarrow> rb_guest b \<in> T) \<and>
      (\<forall>b\<in>set bs. rb_provider b \<in> T \<longrightarrow> rb_guest b \<in> T) \<longrightarrow> close_loop active bs R \<subseteq> T)"
  using assms
proof (induction active bs R rule: close_loop.induct)
  case (1 active bs R)
  let ?N = "close_pass active bs R"
  have fin: "finite ?N" using 1(2) close_pass_bounds [of R active bs] by (auto intro: finite_subset)
  have sub: "R \<subseteq> ?N" using close_pass_bounds [of R active bs] by simp
  have sound: "?N \<subseteq> T" if "R \<subseteq> T" "\<forall>b\<in>set bs. bt_get active (rb_guest b) \<noteq> Some b \<longrightarrow> rb_guest b \<in> T"
    "\<forall>b\<in>set bs. rb_provider b \<in> T \<longrightarrow> rb_guest b \<in> T" for T
    by (rule close_pass_sound) (use that in auto)
  show ?case
  proof (cases "card ?N = card R")
    case True
    from card_subset_eq [OF fin sub True [symmetric]] have "?N = R" by simp
    then have "close_loop active bs R = R" by (subst close_loop.simps) simp
    with \<open>?N = R\<close> sound show ?thesis by (metis order_refl)
  next
    case False
    then have loop: "close_loop active bs R = close_loop active bs ?N" by (subst close_loop.simps) simp
    note IH = 1(1) [OF refl False fin]
    show ?thesis
    proof (unfold loop, intro conjI allI impI)
      fix T assume T: "R \<subseteq> T \<and> (\<forall>b\<in>set bs. bt_get active (rb_guest b) \<noteq> Some b \<longrightarrow> rb_guest b \<in> T) \<and>
        (\<forall>b\<in>set bs. rb_provider b \<in> T \<longrightarrow> rb_guest b \<in> T)"
      then have "?N \<subseteq> T" using sound by blast
      with IH T show "close_loop active bs ?N \<subseteq> T" by simp
    qed (use IH sub in auto)
  qed
qed

text \<open>the plugins a replacement restarts are exactly those asked for, those whose manifest is new or changed, the
  guests bound to another runtime provider or artifact than before, and the guests of restarted providers, directly or
  through other guests.\<close>

lemma restart_closure_is_exact:
  assumes "finite requested" "config_ok ms candidate"
  shows "runtime_restart_closure active candidate requested = (binding_edges candidate)\<^sup>* ``
    (requested \<union> {p. \<exists>m. manifest_of candidate p = Some m \<and> manifest_of active p \<noteq> Some m} \<union> rebound_guests active candidate)"
    (is "?closure = ?E\<^sup>* `` ?start")
proof -
  let ?bs = "bt_vals (kc_bindings candidate)" and ?seed = "requested \<union> changed_plugins active candidate"
  have "bt_ok (kc_manifests candidate)" using assms(2) by (simp add: config_ok_def indexed_manifests_def)
  then have changed: "changed_plugins active candidate = {p. \<exists>m. manifest_of candidate p = Some m \<and> manifest_of active p \<noteq> Some m}"
    by (force simp: changed_plugins_def set_filter_map manifest_of_def bt_get_iff split: if_splits)
  have "finite ?seed" using assms(1) by (simp add: changed_plugins_def)
  note least = close_loop_least [OF this, of "kc_bindings active" ?bs, folded runtime_restart_closure_def]
  from least have stable: "close_pass (kc_bindings active) ?bs ?closure = ?closure" by blast
  show ?thesis
  proof
    have start: "?start \<subseteq> ?E\<^sup>* `` ?start" by blast
    have step: "\<forall>b\<in>set ?bs. rb_provider b \<in> ?E\<^sup>* `` ?start \<longrightarrow> rb_guest b \<in> ?E\<^sup>* `` ?start"
      by (auto simp: binding_edges_def intro: rtrancl_into_rtrancl)
    have "?seed \<subseteq> ?E\<^sup>* `` ?start" unfolding changed using start by blast
    moreover have "\<forall>b\<in>set ?bs. bt_get (kc_bindings active) (rb_guest b) \<noteq> Some b \<longrightarrow> rb_guest b \<in> ?E\<^sup>* `` ?start"
      using start by (auto simp: rebound_guests_def)
    ultimately show "?closure \<subseteq> ?E\<^sup>* `` ?start" using least step by blast
    have "?start \<subseteq> ?closure"
      using least changed close_pass_fixed [OF stable] by (auto simp: rebound_guests_def)
    moreover have "y \<in> ?closure" if "(x, y) \<in> ?E\<^sup>*" "x \<in> ?closure" for x y
      using that by (induction rule: rtrancl_induct) (use close_pass_fixed [OF stable] in \<open>auto simp: binding_edges_def\<close>)
    ultimately show "?E\<^sup>* `` ?start \<subseteq> ?closure" by blast
  qed
qed

subsection \<open>Stopping one plugin\<close>

lemma kernel_stop_facts:
  assumes "kernel_stop hk p k w = (r, k', w')" "kernel_ok k"
  shows "r \<noteq> Inl LcPanic \<and> logs (\<lambda>xs. \<forall>e\<in>set xs. \<exists>i. e = LogStop p i) w w' \<and>
    (case r of Inl e \<Rightarrow> k' = k
     | Inr _ \<Rightarrow> manifest_of (kn_config k) p \<noteq> None \<and> k' = k\<lparr>kn_instances := bt_remove p (kn_instances k),
         kn_states := bt_insert p Stopped (kn_states k), kn_published := kn_published k @ [PluginStopped p]\<rparr>)"
proof (cases "manifest_of (kn_config k) p")
  case None
  with assms(1) show ?thesis by (auto simp: kernel_stop_def logs_def)
next
  case (Some m)
  let ?w = "on_tasks (\<lambda>ts. snd (cancel_plugin_generation p (kn_generation k) ts))
    (on_tasks (\<lambda>ts. snd (cancel_calls p (kn_generation k) ts)) w)"
  let ?stop = "\<lambda>i cell w. let (r, w) = run_effect (hk_stop hk (host_for (kernel_view k) (kn_states k) (kn_instances k) m cell) i)
      (record_log (LogStop p i) w) in (stop_failure p r (call_cancelled cell w), w)"
  have has: "bt_has (kn_states k) p" using assms(2) Some by (auto simp: kernel_ok_def bt_has_def)
  obtain failure w1 where f: "(case bt_get (kn_instances k) p of None \<Rightarrow> (None, ?w)
      | Some i \<Rightarrow> in_call p (kn_generation k) (?stop i) ?w) = (failure, w1)" by fastforce
  have "logs (\<lambda>xs. \<forall>e\<in>set xs. \<exists>i. e = LogStop p i) ?w w1 \<and> failure \<noteq> Some LcPanic"
  proof (cases "bt_get (kn_instances k) p")
    case (Some i)
    with f have c: "in_call p (kn_generation k) (?stop i) ?w = (failure, w1)" by simp
    from in_call_split [OF c] obtain cell wa wb where "?stop i cell wa = (failure, wb)" "wo_log wa = wo_log ?w" "wo_log w1 = wo_log wb"
      by blast
    then show ?thesis
      by (auto simp: logs_def Let_def stop_failure_def dest!: run_effect_log split: prod.splits verdict.splits sum.splits if_splits)
  qed (use f in \<open>auto simp: logs_def\<close>)
  with assms(1) Some f has show ?thesis
    by (auto simp: kernel_stop_def Let_def publish_all_def logs_def split: option.splits)
qed

subsection \<open>Histories\<close>

inductive kernel_step ::
    "('w, 'i, 'h) hooks \<Rightarrow> ('i, 'h) kernel \<times> ('w, 'i) world \<Rightarrow> ('i, 'h) kernel \<times> ('w, 'i) world \<Rightarrow> bool" for hk where
  step_activate: "activate_all hk k w = (r, k', w') \<Longrightarrow> kernel_step hk (k, w) (k', w')"
| step_reconcile: "config_ok ms (ha_kernel h) \<Longrightarrow> reconcile_generation hk h requested k w = (r, k', w') \<Longrightarrow>
    kernel_step hk (k, w) (k', w')"
| step_stop: "kernel_stop hk p k w = (r, k', w') \<Longrightarrow> kernel_step hk (k, w) (k', w')"
| step_install: "kernel_step hk (k, w) (install_resolved_graph generation graph resources k, w)"
| step_factory: "kernel_step hk (k, w) (preload_embedded_factory p k, w)"
| step_instance: "kernel_step hk (k, w) (preload_embedded_instance p i k, w)"
| step_other: "kernel_step hk (k, w) (k, w\<lparr>wo_tasks := ts, wo_rest := x\<rparr>)"

inductive kernel_reach :: "('w, 'i, 'h) hooks \<Rightarrow> ('i, 'h) kernel \<times> ('w, 'i) world \<Rightarrow> bool" for hk where
  kernel_start: "config_ok ms c \<Longrightarrow> wo_log w = [] \<Longrightarrow> kernel_reach hk (kernel_new c, w)"
| kernel_next: "kernel_reach hk s \<Longrightarrow> kernel_step hk s s' \<Longrightarrow> kernel_reach hk s'"

definition running_started :: "('i, 'h) kernel \<Rightarrow> 'i log_entry list \<Rightarrow> bool" where
  "running_started k log \<longleftrightarrow> (\<forall>p i. bt_get (kn_instances k) p = Some i \<longrightarrow> (p, i) \<in> set (starts_of log))"

definition history_ok :: "('i, 'h) kernel \<times> ('w, 'i) world \<Rightarrow> bool" where
  "history_ok s \<longleftrightarrow> kernel_ok (fst s) \<and> running_started (fst s) (wo_log (snd s)) \<and> starts_ready (wo_log (snd s))"

lemma running_extends:
  "running_started k xs \<Longrightarrow> kn_instances k' = kn_instances k \<Longrightarrow> running_started k' (xs @ ys)"
  by (auto simp: running_started_def)

lemma registered_get:
  "config_ok ms c \<Longrightarrow> bt_get (registered_states c) p = map_option (\<lambda>m. Registered) (manifest_of c p)"
proof -
  assume "config_ok ms c"
  then have "\<forall>(p, m)\<in>set (kc_manifests c). pm_id m = p"
    using bt_get_iff by (fastforce simp: config_ok_def indexed_manifests_def)
  moreover have "\<forall>(p, m)\<in>set kvs. pm_id m = p \<Longrightarrow>
      bt_get (map (\<lambda>(p, m). (pm_id m, Registered)) kvs) p = map_option (\<lambda>m. Registered) (bt_get kvs p)" for kvs
    by (induction kvs) auto
  ultimately show ?thesis by (simp add: registered_states_def manifest_of_def)
qed

lemma new_ok: "config_ok ms c \<Longrightarrow> wo_log w = [] \<Longrightarrow> history_ok (kernel_new c, w)"
  by (auto simp: history_ok_def kernel_ok_def kernel_new_def running_started_def starts_ready_def active_in_def
      bus_with_capacity_def subs_valid_def validate_dependencies_def event_keys_def registered_get)

lemma failed_ok: "history_ok (k, w) \<Longrightarrow> nothing_left k w k' w' \<Longrightarrow> history_ok (k', w')"
  by (auto simp: history_ok_def nothing_left_def logs_def same_kernel_fields running_started_def)

lemma staged_all_instances:
  "staged_all ps s s' \<Longrightarrow> st_staged s = [] \<Longrightarrow> bt_get (st_instances s') p = Some i \<Longrightarrow>
    (p, i) \<in> set (staged_pairs s') \<or> bt_get (st_instances s) p = Some i"
  by (force simp: staged_all_def staged_pairs_def set_filter_map pair_of_def)

lemma activate_ok:
  assumes "activate_all hk k w = (r, k', w')" "history_ok (k, w)"
  shows "history_ok (k', w')"
proof -
  have ok: "kernel_ok k" "running_started k (wo_log w)" "starts_ready (wo_log w)" using assms(2) by (auto simp: history_ok_def)
  from ok(1) obtain ms where c: "config_ok ms (kn_config k)" by (auto simp: kernel_ok_def)
  note f = activate_facts [OF assms(1) ok(1)]
  show ?thesis
  proof (cases "(\<exists>e. r = Inl e) \<or> k' = k \<and> w' = w")
    case True
    with f assms(2) failed_ok [OF assms(2), of k' w'] show ?thesis by auto
  next
    case False
    with f obtain s xs where s: "staging_ok (kernel_view k) s" "activated k s k'"
      "staged_all (kc_activation (kn_config k)) (start_staging k) s" "wo_log w' = wo_log w @ xs"
      "hosts_ready (kernel_view k) xs" "starts_of xs = staged_pairs s"
      by (cases r) (auto simp: logs_def)
    from s(2) have k': "kn_config k' = kn_config k" "kn_states k' = st_states s" "kn_instances k' = st_instances s"
      "kn_active k'" "subs_valid (eb_subscriptions (kn_bus k'))" by (auto simp: activated_def intro: replace_valid)
    from c have "config_ok ms (vw_config (kernel_view k))" by (simp add: kernel_view_def)
    from config_view_ok(5) [OF this]
    have keys: "q \<in> set (kc_activation (kn_config k)) \<longleftrightarrow> manifest_of (kn_config k) q \<noteq> None" for q
      by (simp add: kernel_view_def manifest_of_def bt_keys_get)
    have "bt_get (st_states (start_staging k)) p \<noteq> None \<longleftrightarrow> manifest_of (kn_config k) p \<noteq> None" for p
      using ok(1) by (auto simp: start_staging_def kernel_ok_def registered_get [OF c])
    then have "bt_get (st_states s) p \<noteq> None \<longleftrightarrow> manifest_of (kn_config k) p \<noteq> None" for p
      using s(3) keys by (auto simp: staged_all_def)
    then have "kernel_ok k'" using c s(1) k' by (auto simp: kernel_ok_def staging_ok_def)
    moreover have "running_started k' (wo_log w')"
      using ok(2) staged_all_instances [OF s(3)] s(4,6) k'(3) start_staging_facts(2) [OF ok(1)]
      by (auto simp: running_started_def start_staging_def split: if_splits)
    ultimately show ?thesis using s(4,5) ok(3) by (auto simp: history_ok_def intro: hosts_starts_ready)
  qed
qed

lemma reconcile_ok:
  assumes "reconcile_generation hk h requested k w = (r, k', w')" "config_ok ms (ha_kernel h)" "history_ok (k, w)"
  shows "history_ok (k', w')"
proof -
  have ok: "kernel_ok k" "running_started k (wo_log w)" "starts_ready (wo_log w)" using assms(3) by (auto simp: history_ok_def)
  note f = reconcile_facts [OF assms(1,2) ok(1)]
  show ?thesis
  proof (cases r)
    case (Inl e)
    with f failed_ok [OF assms(3), of k' w'] show ?thesis by simp
  next
    case (Inr u)
    with f obtain s starts where s: "staged_for h requested k s" "committed h requested k s k'"
      "hosts_ready (harness_view h) starts" "starts_of starts = staged_pairs s"
      "wo_log w' = wo_log w @ starts @ stop_entries (retired_instances k (ha_kernel h) (restarts h requested k))" by auto
    note sf = staged_for_facts [OF s(1) assms(2)]
    from s(2) have k': "kn_config k' = ha_kernel h" "kn_states k' = st_states s" "kn_instances k' = st_instances s"
      "kn_active k' = kn_active k" "subs_valid (eb_subscriptions (kn_bus k'))"
      by (auto simp: committed_def intro: replace_valid)
    have "bt_get (st_instances s) p \<noteq> None \<Longrightarrow> active_in (st_states s) p" for p
      using s(1) by (auto simp: staged_for_def Let_def staging_ok_def)
    then have "kernel_ok k'" using assms(2) sf(1,2) k' by (auto simp: kernel_ok_def)
    moreover have "(p, i) \<in> set (staged_pairs s) \<or> bt_get (kn_instances k) p = Some i"
      if "bt_get (st_instances s) p = Some i" for p i
      using sf(5) [of p] that by (force simp: staged_pairs_def set_filter_map pair_of_def)
    then have "running_started k' (wo_log w')" using ok(2) s(4,5) k'(3) by (auto simp: running_started_def)
    moreover have "starts_ready (wo_log w')"
      using ok(3) s(5) hosts_starts_ready [OF s(3)] hosts_starts_ready [OF hosts_ready_simps(3)] by auto
    ultimately show ?thesis by (simp add: history_ok_def)
  qed
qed

lemma stop_ok:
  assumes "kernel_stop hk p k w = (r, k', w')" "history_ok (k, w)"
  shows "history_ok (k', w')"
proof -
  have ok: "kernel_ok k" "running_started k (wo_log w)" "starts_ready (wo_log w)" using assms(2) by (auto simp: history_ok_def)
  note f = kernel_stop_facts [OF assms(1) ok(1)]
  from f obtain xs where xs: "wo_log w' = wo_log w @ xs" "\<forall>e\<in>set xs. \<exists>i. e = LogStop p i" by (auto simp: logs_def)
  then have "starts_ready (wo_log w')" using ok(3) by (auto simp: starts_ready_def)
  moreover from f ok(1) have "kernel_ok k'"
    by (auto simp: kernel_ok_def bt_get_insert bt_get_remove active_in_def split: sum.splits)
  moreover from f ok(2) xs(1) have "running_started k' (wo_log w')"
    by (auto simp: running_started_def bt_get_remove split: sum.splits if_splits)
  ultimately show ?thesis by (simp add: history_ok_def)
qed

lemma step_ok:
  assumes "kernel_step hk s s'" "history_ok s"
  shows "history_ok s'"
  using assms(1)
proof cases
  case (step_activate k w r k' w')
  with assms(2) activate_ok show ?thesis by blast
next
  case (step_reconcile ms h requested k w r k' w')
  with assms(2) reconcile_ok show ?thesis by blast
next
  case (step_stop p k w r k' w')
  with assms(2) stop_ok show ?thesis by blast
qed (use assms(2) in \<open>auto simp: history_ok_def install_resolved_graph_def preload_embedded_factory_def
    preload_embedded_instance_def kernel_ok_def running_started_def\<close>)

text \<open>in every history of a kernel, whatever the plugins do, activations, replacements, stops and installed
  graphs in any order and whether or not they fail: the states speak of exactly the configured plugins, every running
  instance belongs to an active plugin and was started successfully, a kernel that was never activated runs nothing,
  the installed subscriptions are valid, and every start happened when all that the plugin needs was active.\<close>

lemma kernel_history_is_safe:
  assumes "kernel_reach hk (k, w)"
  shows "kernel_ok k \<and> running_started k (wo_log w) \<and> starts_ready (wo_log w)"
proof -
  have "history_ok s" if "kernel_reach hk s" for s
    using that
  proof (induction rule: kernel_reach.induct)
    case (kernel_next s s')
    from step_ok [OF kernel_next.hyps(2) kernel_next.IH] show ?case .
  qed (auto intro: new_ok)
  from this [OF assms] show ?thesis by (simp add: history_ok_def)
qed

subsection \<open>Two plugins\<close>

definition pair_manifests :: "nat \<Rightarrow> plugin_manifest list" where
  "pair_manifests version = [(sample_manifest ''a'' [] [])\<lparr>pm_version := version\<rparr>, sample_manifest ''b'' [''a''] []]"

definition pair_config :: "nat \<Rightarrow> kernel_config" where
  "pair_config version = (case config_new 1 (pair_manifests version) of Some (Inr c) \<Rightarrow> c | _ \<Rightarrow> sample_config)"

text \<open>The plugins named in \<open>failing\<close> refuse to start; an instance is the name of its plugin.\<close>

definition pair_hooks :: "plugin_id list \<Rightarrow> (unit, plugin_id, unit) hooks" where
  "pair_hooks failing = \<lparr>hk_build = (\<lambda>p (ts, x). (p, ts, x)), hk_provides = (\<lambda>i (ts, x). (False, ts, x)),
     hk_prepare = (\<lambda>host m i (ts, x). (Panicked, ts, x)),
     hk_start = (\<lambda>host i (ts, x). (if i \<in> set failing then Panicked else Returned (Inr ()), ts, x)),
     hk_stop = (\<lambda>host i (ts, x). (Returned (Inr ()), ts, x)),
     hk_bind_plugin = (\<lambda>l g i (ts, x). (None, ts, x)), hk_bind = (\<lambda>l g i (ts, x). (Panicked, ts, x))\<rparr>"

definition pair_kernel :: "(plugin_id, unit) kernel" where
  "pair_kernel = preload_embedded_factory ''a'' (preload_embedded_factory ''b'' (kernel_new (pair_config 1)))"

definition pair_world :: "(unit, plugin_id) world" where
  "pair_world = \<lparr>wo_tasks = task_runtime_default, wo_rest = (), wo_log = []\<rparr>"

definition pair_harness :: "nat \<Rightarrow> harness" where
  "pair_harness version = (sample_harness [])\<lparr>ha_kernel := pair_config version\<rparr>"

lemma pair_config_eq:
  "config_new 1 (pair_manifests v) = Some (Inr (pair_config v))"
  "kc_manifests (pair_config v) = [(''a'', (sample_manifest ''a'' [] [])\<lparr>pm_version := v\<rparr>), (''b'', sample_manifest ''b'' [''a''] [])]"
  "kc_bindings (pair_config v) = []" "kc_activation (pair_config v) = [''a'', ''b'']"
  by code_simp+

lemmas pair_defs = pair_kernel_def pair_world_def pair_hooks_def pair_harness_def kernel_new_def preload_embedded_factory_def
  registered_states_def start_staging_def kernel_view_def harness_view_def graph_empty_def sample_manifest_def all_active_def
lemmas lifecycle_defs = activate_all_def stage_plugin_def make_instance_def take_embedded_instance_def
  start_instance_def in_call_def run_effect_def on_tasks_def record_log_def call_cancelled_def manifest_of_def
  begin_call_def host_for_def commit_activation_def publish_all_def finish_call_def

lemmas replacement_defs = reconcile_generation_def retained_staging_def retained_def runtime_restart_closure_def changed_plugins_def
  close_pass_def commit_generation_def retired_instances_def stop_retired_def view_stop_def stage_listener_subscriptions_def

definition pair_running :: "(plugin_id, unit) kernel \<times> (unit, plugin_id) world" where
  "pair_running = snd (activate_all (pair_hooks []) pair_kernel pair_world)"

lemma replace_by_none: "replace_subscriptions [] bus = Inr (set_subscriptions [] bus)"
  by (simp add: replace_subscriptions_def index_subscriptions_def validate_dependencies_def event_keys_def)

lemma pair_runs: "activate_all (pair_hooks []) pair_kernel pair_world = (Inr (), pair_running)"
  by (simp add: pair_running_def lifecycle_defs pair_defs pair_config_eq task_runtime_default_def replace_by_none)

lemma pair_ok: "kernel_ok pair_kernel" "config_ok (pair_manifests v) (pair_config v)" "wo_log pair_world = []"
proof -
  show c: "config_ok (pair_manifests v) (pair_config v)" for v
    using config_new_cases [of 1 "pair_manifests v"] pair_config_eq(1) [of v] by auto
  have "history_ok (kernel_new (pair_config 1) :: (plugin_id, unit) kernel, pair_world)"
    by (rule new_ok [OF c]) (simp add: pair_world_def)
  then show "kernel_ok pair_kernel"
    by (simp add: history_ok_def pair_kernel_def preload_embedded_factory_def kernel_ok_def)
qed (simp add: pair_world_def)

text \<open>The second plugin refuses to start; the instance prepared for the first, which was started and stopped again, is used up.\<close>

definition prepared_kernel :: "(plugin_id, unit) kernel" where
  "prepared_kernel = preload_embedded_instance ''a'' ''a0'' (preload_embedded_instance ''z'' ''z0'' pair_kernel)"

theorem failed_attempts_leave_nothing_running_witness:
  "\<exists>e k' w' xs. activate_all (pair_hooks [''b'']) prepared_kernel pair_world = (Inl e, k', w') \<and>
     k' = prepared_kernel\<lparr>kn_prepared := kn_prepared k'\<rparr> \<and> wo_log w' = xs \<and> stops_of xs = rev (starts_of xs) \<and>
     uses_prepared (pair_config 1) (kn_prepared prepared_kernel) (kn_prepared k') xs \<and> kn_prepared k' = [(''z'', ''z0'')]"
proof -
  have "\<exists>e k' w'. activate_all (pair_hooks [''b'']) prepared_kernel pair_world = (Inl e, k', w') \<and> kn_prepared k' = [(''z'', ''z0'')]"
    by (simp add: lifecycle_defs pair_defs pair_config_eq task_runtime_default_def prepared_kernel_def preload_embedded_instance_def)
  then obtain e k' w' where run: "activate_all (pair_hooks [''b'']) prepared_kernel pair_world = (Inl e, k', w')"
    "kn_prepared k' = [(''z'', ''z0'')]" by blast
  have h: "config_ok (pair_manifests 2) (ha_kernel (pair_harness 2))" using pair_ok(2) by (simp add: pair_harness_def)
  have k: "kernel_ok prepared_kernel" using pair_ok(1) by (simp add: prepared_kernel_def preload_embedded_instance_def)
  have "kn_config prepared_kernel = pair_config 1"
    by (simp add: prepared_kernel_def preload_embedded_instance_def pair_kernel_def preload_embedded_factory_def kernel_new_def)
  with failed_attempts_leave_nothing_running [OF k h run(1) disjI1 [OF conjI [OF refl refl]]] run pair_ok(3)
  show ?thesis by auto
qed

lemma pair_replaced:
  "\<exists>k' w'. reconcile_generation (pair_hooks []) (pair_harness 2) {} (fst pair_running) (snd pair_running) = (Inr (), k', w')"
  by (simp add: pair_running_def lifecycle_defs replacement_defs pair_defs pair_config_eq task_runtime_default_def
    replace_by_none close_loop.simps validate_subscriptions_def index_subscriptions_def validate_dependencies_def
    event_keys_def sample_harness_def bt_vals_def cancel_calls_def cancel_plugin_generation_def)

lemma pair_history: "kernel_reach (pair_hooks []) pair_running"
proof -
  have "kernel_reach (pair_hooks []) (kernel_new (pair_config 1), pair_world)" by (rule kernel_start [OF pair_ok(2,3)])
  from kernel_next [OF kernel_next [OF this step_factory] step_factory]
  have "kernel_reach (pair_hooks []) (pair_kernel, pair_world)" by (simp add: pair_kernel_def)
  from kernel_next [OF this step_activate] pair_runs show ?thesis by (metis surjective_pairing)
qed

lemma kernel_history_is_safe_witness:
  "kernel_ok (fst pair_running) \<and> running_started (fst pair_running) (wo_log (snd pair_running))"
  using kernel_history_is_safe [of "pair_hooks []" "fst pair_running" "snd pair_running"] pair_history by simp

theorem replacement_is_exact_witness:
  "\<exists>k' w'. reconcile_generation (pair_hooks []) (pair_harness 2) {} (fst pair_running) (snd pair_running) = (Inr (), k', w') \<and>
     kn_config k' = pair_config 2 \<and> kn_active k' = kn_active (fst pair_running)"
proof -
  have h: "config_ok (pair_manifests 2) (ha_kernel (pair_harness 2))" using pair_ok(2) by (simp add: pair_harness_def)
  have k: "kernel_ok (fst pair_running)"
    using activate_ok [of "pair_hooks []" pair_kernel pair_world "Inr ()" "fst pair_running" "snd pair_running"] pair_runs pair_ok
    by (auto simp: history_ok_def running_started_def starts_ready_def pair_kernel_def preload_embedded_factory_def kernel_new_def)
  from pair_replaced obtain k' w' where
    run: "reconcile_generation (pair_hooks []) (pair_harness 2) {} (fst pair_running) (snd pair_running) = (Inr (), k', w')"
    by blast
  from replacement_is_exact [OF run h k] run show ?thesis by (auto simp: pair_harness_def)
qed

lemma restart_closure_is_exact_witness:
  "runtime_restart_closure (pair_config 1) (pair_config 2) {''b''} = (binding_edges (pair_config 2))\<^sup>* ``
    ({''b''} \<union> {p. \<exists>m. manifest_of (pair_config 2) p = Some m \<and> manifest_of (pair_config 1) p \<noteq> Some m} \<union>
      rebound_guests (pair_config 1) (pair_config 2))"
  by (rule restart_closure_is_exact [OF _ pair_ok(2)]) simp

end
