(* ===== verification/Metadata_Resolution.thy ===== *)
theory Metadata_Resolution
  imports Harness
begin

text \<open>
  Resolution of a composition from its metadata (\<open>phenix-core/src/metadata_input.rs\<close>, \<open>frontend_metadata.rs\<close> and the
  snapshot of \<open>metadata_inspection.rs\<close>): packages, components and resources are validated and tied to each other, every
  packaged thing exists and has one owner, and the result is resolved like any other harness. The digest that makes the
  metadata part of the generation is a parameter.
\<close>

datatype metadata_resolution_error =
  MrPackage plugin_id metadata_error
| MrComponent component_id metadata_error
| MrResource string metadata_error
| DuplicatePackage plugin_id
| MrDuplicateComponent component_id
| MrDuplicateResource string
| UnknownComponentOwner component_id plugin_id
| ComponentNotPackaged component_id plugin_id
| MissingPackagedComponent component_id plugin_id
| ResourceNotPackaged string
| MissingPackagedResource string plugin_id
| ResourceOwnedByMultiplePackages string plugin_id plugin_id
| AmbiguousPackagedResourceKind string plugin_id
| MrResolver harness_error

record composition_input =
  cp_packages :: "package_metadata list"
  cp_components :: "component_metadata list"
  cp_resources :: "resource_metadata list"
  cp_configuration :: "config_contribution list"

type_synonym packages = "(plugin_id, package_metadata) btree"
type_synonym owners = "(string, plugin_id) btree"

abbreviation package_id :: "package_metadata \<Rightarrow> plugin_id" where "package_id p \<equiv> pm_id (pk_manifest p)"
abbreviation component_id_of :: "component_metadata \<Rightarrow> component_id" where "component_id_of c \<equiv> cm_id (cx_manifest c)"

subsection \<open>Packages and components\<close>

definition add_package :: "packages \<Rightarrow> package_metadata \<Rightarrow> metadata_resolution_error + packages" where
  "add_package m p = rbind (map_err (MrPackage (package_id p)) (validate_package p)) (\<lambda>_.
     if bt_has m (package_id p) then Inl (DuplicatePackage (package_id p)) else Inr (bt_insert (package_id p) p m))"

definition add_component_metadata ::
    "packages \<Rightarrow> (component_id, component_metadata) btree \<Rightarrow> component_metadata
     \<Rightarrow> metadata_resolution_error + (component_id, component_metadata) btree" where
  "add_component_metadata packages m c =
     rbind (map_err (MrComponent (component_id_of c)) (validate_component c)) (\<lambda>_.
     rbind (ok_or (UnknownComponentOwner (component_id_of c) (cm_owner (cx_manifest c)))
              (bt_get packages (cm_owner (cx_manifest c)))) (\<lambda>owner.
       if component_id_of c \<notin> pk_components owner then
         Inl (ComponentNotPackaged (component_id_of c) (cm_owner (cx_manifest c)))
       else if bt_has m (component_id_of c) then Inl (MrDuplicateComponent (component_id_of c))
       else Inr (bt_insert (component_id_of c) c m)))"

definition check_packaged ::
    "(component_id, component_metadata) btree \<Rightarrow> package_metadata \<Rightarrow> metadata_resolution_error + unit" where
  "check_packaged components p =
     refuse_first (\<lambda>c. \<not> bt_has components c) (\<lambda>c. MissingPackagedComponent c (package_id p)) (pk_components p)"

subsection \<open>Owners of resources\<close>

definition register_owner :: "plugin_id \<Rightarrow> owners \<Rightarrow> string \<Rightarrow> metadata_resolution_error + owners" where
  "register_owner p m r =
     (case bt_get m r of
        Some first \<Rightarrow> Inl (ResourceOwnedByMultiplePackages r first p)
      | None \<Rightarrow> Inr (bt_insert r p m))"

definition register_package :: "owners \<Rightarrow> package_metadata \<Rightarrow> metadata_resolution_error + owners" where
  "register_package m p =
     rbind (refuse_first (\<lambda>s. s \<in> pk_resources p) (\<lambda>s. AmbiguousPackagedResourceKind s (package_id p)) (pk_skills p)) (\<lambda>_.
     rbind (try_fold (register_owner (package_id p)) m (sorted_list_of_set (pk_resources p))) (\<lambda>m.
       try_fold (register_owner (package_id p)) m (sorted_list_of_set (pk_skills p))))"

definition add_owned_resource ::
    "(string, resource_metadata) btree \<Rightarrow> resource_metadata \<Rightarrow> metadata_resolution_error + (string, resource_metadata) btree" where
  "add_owned_resource m r =
     rbind (map_err (MrResource (rm_identity r)) (validate_resource r)) (\<lambda>_.
       if bt_has m (rm_identity r) then Inl (MrDuplicateResource (rm_identity r)) else Inr (bt_insert (rm_identity r) r m))"

definition check_owned :: "owners \<Rightarrow> (string, resource_metadata) btree \<Rightarrow> metadata_resolution_error + unit" where
  "check_owned owners resources =
     rbind (try_each (\<lambda>r. if bt_has owners r then Inr () else Inl (ResourceNotPackaged r)) (bt_keys resources)) (\<lambda>_.
       try_each (\<lambda>(r, p). if bt_has resources r then Inr () else Inl (MissingPackagedResource r p)) owners)"

subsection \<open>The whole composition\<close>

record indexed_composition =
  ix_packages :: packages
  ix_components :: "(component_id, component_metadata) btree"
  ix_resources :: "(string, resource_metadata) btree"

definition index_composition :: "composition_input \<Rightarrow> metadata_resolution_error + indexed_composition" where
  "index_composition i =
     rbind (try_fold add_package [] (cp_packages i)) (\<lambda>packages.
     rbind (try_fold (add_component_metadata packages) [] (cp_components i)) (\<lambda>components.
     rbind (try_each (check_packaged components) (bt_vals packages)) (\<lambda>_.
     rbind (try_fold register_package [] (bt_vals packages)) (\<lambda>owners.
     rbind (try_fold add_owned_resource [] (cp_resources i)) (\<lambda>resources.
     rbind (check_owned owners resources) (\<lambda>_.
       Inr \<lparr>ix_packages = packages, ix_components = components, ix_resources = resources\<rparr>))))))"

type_synonym metadata_digest =
  "graph_generation_id \<Rightarrow> package_metadata list \<times> component_metadata list \<Rightarrow> graph_generation_id"

definition resolve_metadata_with_layers ::
    "digest \<Rightarrow> metadata_digest \<Rightarrow> nat \<Rightarrow> composition_input \<Rightarrow> layer_policies \<Rightarrow> authority
     \<Rightarrow> (metadata_resolution_error + harness) option" where
  "resolve_metadata_with_layers digest mdigest identity i layers ceiling =
     (case index_composition i of
        Inl e \<Rightarrow> Some (Inl e)
      | Inr x \<Rightarrow>
          map_option (\<lambda>r. rbind (map_err MrResolver r) (\<lambda>h.
              Inr (incorporate_metadata mdigest (bt_vals (ix_packages x), bt_vals (ix_components x)) h)))
            (resolve_with_resources_and_layers digest identity (map pk_manifest (bt_vals (ix_packages x)))
              (map cx_manifest (bt_vals (ix_components x))) (bt_vals (ix_resources x)) (cp_configuration i) layers ceiling))"

definition resolve_metadata ::
    "digest \<Rightarrow> metadata_digest \<Rightarrow> nat \<Rightarrow> composition_input \<Rightarrow> authority \<Rightarrow> (metadata_resolution_error + harness) option" where
  "resolve_metadata digest mdigest identity i ceiling = resolve_metadata_with_layers digest mdigest identity i [] ceiling"

subsection \<open>Frontends declared by packages\<close>

datatype frontend_resolution_error =
  FrontendDuplicateOwner frontend_id plugin_id plugin_id
| DuplicateMetadata frontend_id
| Undeclared frontend_id
| MissingMetadata frontend_id plugin_id
| InvalidMetadataVersion frontend_id
| MissingAcceptedSourceKinds frontend_id
| EmptyAcceptedSourceKind frontend_id
| MissingExposedNamespaces frontend_id
| FrontendRejected frontend_id frontend_error
| FrMetadata metadata_resolution_error

definition validate_frontend_metadata :: "frontend_metadata \<Rightarrow> frontend_resolution_error + unit" where
  "validate_frontend_metadata m =
     (if fm_version m = 0 then Inl (InvalidMetadataVersion (fm_id m))
      else if fm_kinds m = {} then Inl (MissingAcceptedSourceKinds (fm_id m))
      else if [] \<in> fm_kinds m then Inl (EmptyAcceptedSourceKind (fm_id m))
      else if fm_namespaces m = {} then Inl (MissingExposedNamespaces (fm_id m))
      else Inr ())"

definition own_frontend :: "plugin_id \<Rightarrow> owners \<Rightarrow> frontend_id \<Rightarrow> frontend_resolution_error + owners" where
  "own_frontend p m f =
     (case bt_get m f of Some first \<Rightarrow> Inl (FrontendDuplicateOwner f first p) | None \<Rightarrow> Inr (bt_insert f p m))"

definition frontend_owners :: "package_metadata list \<Rightarrow> frontend_resolution_error + owners" where
  "frontend_owners packages = try_fold (\<lambda>m p. try_fold (own_frontend (package_id p)) m
     (sorted_list_of_set (pk_frontends p))) [] packages"

definition add_frontend ::
    "owners \<Rightarrow> (frontend_id, frontend_metadata) btree \<Rightarrow> frontend_metadata
     \<Rightarrow> frontend_resolution_error + (frontend_id, frontend_metadata) btree" where
  "add_frontend owners m f =
     (if \<not> bt_has owners (fm_id f) then Inl (Undeclared (fm_id f))
      else rbind (validate_frontend_metadata f) (\<lambda>_.
        if bt_has m (fm_id f) then Inl (DuplicateMetadata (fm_id f)) else Inr (bt_insert (fm_id f) f m)))"

definition lower_declared ::
    "(frontend_id, frontend_metadata) btree \<Rightarrow> authority \<Rightarrow> frontend_id \<times> frontend_contribution
     \<Rightarrow> frontend_resolution_error + config_contribution" where
  "lower_declared frontends ceiling offer =
     rbind (ok_or (Undeclared (fst offer)) (bt_get frontends (fst offer))) (\<lambda>m.
       map_err (FrontendRejected (fst offer)) (lower_contribution (snd offer) m ceiling))"

definition index_frontends ::
    "composition_input \<Rightarrow> frontend_metadata list \<Rightarrow> frontend_resolution_error + (frontend_id, frontend_metadata) btree" where
  "index_frontends i metadata =
     rbind (frontend_owners (cp_packages i)) (\<lambda>owners.
     rbind (try_fold (add_frontend owners) [] metadata) (\<lambda>frontends.
     rbind (try_each (\<lambda>(f, p). if bt_has frontends f then Inr () else Inl (MissingMetadata f p)) owners) (\<lambda>_.
       Inr frontends)))"

definition resolve_declared_frontends ::
    "digest \<Rightarrow> metadata_digest \<Rightarrow> (graph_generation_id \<Rightarrow> frontend_metadata list \<Rightarrow> graph_generation_id) \<Rightarrow> nat
     \<Rightarrow> composition_input \<Rightarrow> frontend_metadata list \<Rightarrow> (frontend_id \<times> frontend_contribution) list \<Rightarrow> authority
     \<Rightarrow> (frontend_resolution_error + harness) option" where
  "resolve_declared_frontends digest mdigest fdigest identity i metadata offers ceiling =
     (case rbind (index_frontends i metadata) (\<lambda>frontends.
           rbind (try_map (lower_declared frontends ceiling) offers) (\<lambda>lowered. Inr (frontends, lowered))) of
        Inl e \<Rightarrow> Some (Inl e)
      | Inr (frontends, lowered) \<Rightarrow>
          map_option (\<lambda>r. rbind (map_err FrMetadata r) (\<lambda>h. Inr (incorporate_metadata fdigest (bt_vals frontends) h)))
            (resolve_metadata digest mdigest identity (i\<lparr>cp_configuration := cp_configuration i @ lowered\<rparr>) ceiling))"

subsection \<open>The snapshot kept beside a generation\<close>

record composition_metadata =
  sm_generation :: graph_generation_id
  sm_packages :: "package_metadata list"
  sm_components :: "component_metadata list"
  sm_frontends :: "frontend_metadata list"
  sm_resources :: "resource_metadata list"

definition snapshot_of :: "harness \<Rightarrow> composition_input \<Rightarrow> frontend_metadata list \<Rightarrow> composition_metadata" where
  "snapshot_of h i frontends = \<lparr>sm_generation = ha_generation h, sm_packages = sort_key package_id (cp_packages i),
     sm_components = sort_key component_id_of (cp_components i), sm_frontends = sort_key fm_id frontends,
     sm_resources = sort_key rm_identity (cp_resources i)\<rparr>"

definition resolve_inspectable ::
    "digest \<Rightarrow> metadata_digest \<Rightarrow> nat \<Rightarrow> composition_input \<Rightarrow> authority
     \<Rightarrow> (metadata_resolution_error + harness \<times> composition_metadata) option" where
  "resolve_inspectable digest mdigest identity i ceiling =
     map_option (\<lambda>r. rbind r (\<lambda>h. Inr (h, snapshot_of h i []))) (resolve_metadata digest mdigest identity i ceiling)"

definition resolve_frontends_inspectable ::
    "digest \<Rightarrow> metadata_digest \<Rightarrow> (graph_generation_id \<Rightarrow> frontend_metadata list \<Rightarrow> graph_generation_id) \<Rightarrow> nat
     \<Rightarrow> composition_input \<Rightarrow> frontend_metadata list \<Rightarrow> (frontend_id \<times> frontend_contribution) list \<Rightarrow> authority
     \<Rightarrow> (frontend_resolution_error + harness \<times> composition_metadata) option" where
  "resolve_frontends_inspectable digest mdigest fdigest identity i frontends offers ceiling =
     map_option (\<lambda>r. rbind r (\<lambda>h. Inr (h, snapshot_of h i frontends)))
       (resolve_declared_frontends digest mdigest fdigest identity i (sort_key fm_id frontends) offers ceiling)"

definition component_runtime_metadata :: "composition_metadata \<Rightarrow> component_id \<Rightarrow> component_metadata option" where
  "component_runtime_metadata s c = find (\<lambda>m. component_id_of m = c) (sm_components s)"

definition component_package :: "composition_metadata \<Rightarrow> component_id \<Rightarrow> package_metadata option" where
  "component_package s c = Option.bind (component_runtime_metadata s c) (\<lambda>m.
     find (\<lambda>p. package_id p = cm_owner (cx_manifest m)) (sm_packages s))"

definition component_hosts :: "composition_metadata \<Rightarrow> component_id \<Rightarrow> host_kind set option" where
  "component_hosts s c = map_option pk_hosts (component_package s c)"

definition component_state_class :: "composition_metadata \<Rightarrow> component_id \<Rightarrow> state_class option" where
  "component_state_class s c = map_option cx_state (component_runtime_metadata s c)"

definition component_reload_policy :: "composition_metadata \<Rightarrow> component_id \<Rightarrow> reload_policy option" where
  "component_reload_policy s c = map_option cx_reload (component_runtime_metadata s c)"

subsection \<open>What the index says\<close>

lemma add_packages_ok:
  "try_fold add_package m ps = Inr m' \<longleftrightarrow> (\<forall>p\<in>set ps. validate_package p = Inr ()) \<and> bt_index package_id m ps = Inr m'"
  by (induction ps arbitrary: m) (auto simp: add_package_def rbind_eq_Inr)

lemma index_components_ok:
  "try_fold (add_component_metadata packages) m cs = Inr m' \<longleftrightarrow> (\<forall>c\<in>set cs. validate_component c = Inr () \<and>
     (\<exists>p. bt_get packages (cm_owner (cx_manifest c)) = Some p \<and> component_id_of c \<in> pk_components p)) \<and>
     bt_index component_id_of m cs = Inr m'"
  by (induction cs arbitrary: m) (auto simp: add_component_metadata_def rbind_eq_Inr split: if_splits)

lemma add_owned_resources_ok:
  "try_fold add_owned_resource m rs = Inr m' \<longleftrightarrow> (\<forall>r\<in>set rs. validate_resource r = Inr ()) \<and> bt_index rm_identity m rs = Inr m'"
  by (induction rs arbitrary: m) (auto simp: add_owned_resource_def rbind_eq_Inr)

definition things :: "package_metadata \<Rightarrow> string set" where
  "things p = pk_resources p \<union> pk_skills p"

definition finite_package :: "package_metadata \<Rightarrow> bool" where
  "finite_package p \<longleftrightarrow> finite (pk_components p) \<and> finite (pk_resources p) \<and> finite (pk_skills p)"

lemma register_owners_ok:
  "is_ok (try_fold (register_owner p) m rs) \<longleftrightarrow> distinct rs \<and> (\<forall>r\<in>set rs. \<not> bt_has m r)"
  "try_fold (register_owner p) m rs = Inr m' \<Longrightarrow> bt_has m' r \<longleftrightarrow> bt_has m r \<or> r \<in> set rs"
proof (induction rs arbitrary: m)
  case (Cons x rs)
  {
    case 1
    then show ?case using Cons.IH(1) [of "bt_insert x p m"]
      by (auto simp: register_owner_def bt_has_def bt_get_insert split: option.splits)
  next
    case 2
    then show ?case using Cons.IH(2) [of "bt_insert x p m"]
      by (auto simp: register_owner_def bt_has_def bt_get_insert rbind_eq_Inr split: option.splits if_splits)
  }
qed auto

lemma register_package_ok:
  assumes "finite_package p"
  shows "is_ok (register_package m p) \<longleftrightarrow> pk_skills p \<inter> pk_resources p = {} \<and> (\<forall>r\<in>things p. \<not> bt_has m r)"
    "register_package m p = Inr m' \<Longrightarrow> bt_has m' r \<longleftrightarrow> bt_has m r \<or> r \<in> things p"
proof -
  have fin: "finite (pk_resources p)" "finite (pk_skills p)" using assms by (auto simp: finite_package_def)
  let ?rs = "sorted_list_of_set (pk_resources p)" and ?ss = "sorted_list_of_set (pk_skills p)"
  have rs: "is_ok (try_fold (register_owner i) m ?rs) \<longleftrightarrow> (\<forall>r\<in>pk_resources p. \<not> bt_has m r)" for i m
    using register_owners_ok(1) [of i m ?rs] fin by simp
  have ss: "is_ok (try_fold (register_owner i) m ?ss) \<longleftrightarrow> (\<forall>r\<in>pk_skills p. \<not> bt_has m r)" for i m
    using register_owners_ok(1) [of i m ?ss] fin by simp
  have has: "try_fold (register_owner i) m ?rs = Inr m1 \<Longrightarrow> bt_has m1 r \<longleftrightarrow> bt_has m r \<or> r \<in> pk_resources p"
    "try_fold (register_owner i) m ?ss = Inr m1 \<Longrightarrow> bt_has m1 r \<longleftrightarrow> bt_has m r \<or> r \<in> pk_skills p" for i m m1 r
    using register_owners_ok(2) [of i m ?rs m1 r] register_owners_ok(2) [of i m ?ss m1 r] fin by auto
  show "register_package m p = Inr m' \<Longrightarrow> bt_has m' r \<longleftrightarrow> bt_has m r \<or> r \<in> things p"
  proof -
    assume "register_package m p = Inr m'"
    then obtain m1 where "try_fold (register_owner (package_id p)) m ?rs = Inr m1"
      "try_fold (register_owner (package_id p)) m1 ?ss = Inr m'" by (auto simp: register_package_def rbind_eq_Inr)
    from has(1) [OF this(1)] has(2) [OF this(2)] show ?thesis by (simp add: things_def)
  qed
  show "is_ok (register_package m p) \<longleftrightarrow> pk_skills p \<inter> pk_resources p = {} \<and> (\<forall>r\<in>things p. \<not> bt_has m r)"
  proof (cases "pk_skills p \<inter> pk_resources p = {} \<and> (\<forall>r\<in>pk_resources p. \<not> bt_has m r)")
    case True
    with rs [of "package_id p" m] obtain m1 where m1: "try_fold (register_owner (package_id p)) m ?rs = Inr m1"
      by (auto simp: is_ok_iff)
    have clear: "refuse_first (\<lambda>s. s \<in> pk_resources p) (\<lambda>s. AmbiguousPackagedResourceKind s (package_id p)) (pk_skills p) = Inr ()"
      using fin True by (subst refuse_first_ok) auto
    have "register_package m p = try_fold (register_owner (package_id p)) m1 ?ss"
      by (simp only: register_package_def clear m1 rbind_simps)
    then have "is_ok (register_package m p) \<longleftrightarrow> (\<forall>r\<in>pk_skills p. \<not> bt_has m1 r)"
      using ss [of "package_id p" m1] by (simp only:)
    with True has(1) [OF m1] show ?thesis by (auto simp: things_def)
  next
    case False
    have "\<not> is_ok (register_package m p)"
    proof
      assume "is_ok (register_package m p)"
      then obtain u m1 where "refuse_first (\<lambda>s. s \<in> pk_resources p) (\<lambda>s. AmbiguousPackagedResourceKind s (package_id p)) (pk_skills p) = Inr u"
        "try_fold (register_owner (package_id p)) m ?rs = Inr m1"
        by (auto simp: register_package_def is_ok_iff rbind_eq_Inr)
      with False fin rs [of "package_id p" m] show False by (auto simp: refuse_first_ok is_ok_iff)
    qed
    with False show ?thesis by (auto simp: things_def)
  qed
qed

fun apart :: "package_metadata list \<Rightarrow> bool" where
  "apart [] = True"
| "apart (p # ps) = (things p \<inter> \<Union> (things ` set ps) = {} \<and> apart ps)"

lemma apart_iff: "distinct ps \<Longrightarrow> apart ps \<longleftrightarrow> (\<forall>p\<in>set ps. \<forall>q\<in>set ps. p \<noteq> q \<longrightarrow> things p \<inter> things q = {})"
proof (induction ps)
  case (Cons p ps)
  then have "apart (p # ps) \<longleftrightarrow> (\<forall>q\<in>set ps. things p \<inter> things q = {}) \<and>
      (\<forall>p\<in>set ps. \<forall>q\<in>set ps. p \<noteq> q \<longrightarrow> things p \<inter> things q = {})" by auto
  moreover have "p \<notin> set ps" using Cons.prems by simp
  ultimately show ?case by (metis Int_commute list.set_intros set_ConsD)
qed simp

lemma register_packages_ok:
  assumes "\<forall>p\<in>set ps. finite_package p"
  shows "is_ok (try_fold register_package m ps) \<longleftrightarrow>
      (\<forall>p\<in>set ps. pk_skills p \<inter> pk_resources p = {}) \<and> (\<forall>p\<in>set ps. \<forall>r\<in>things p. \<not> bt_has m r) \<and> apart ps"
    "try_fold register_package m ps = Inr m' \<Longrightarrow> bt_has m' r \<longleftrightarrow> bt_has m r \<or> r \<in> \<Union> (things ` set ps)"
  using assms
proof (induction ps arbitrary: m)
  case (Cons p ps)
  {
    case 1
    note one = register_package_ok [of p m] 1
    show ?case
    proof (cases "register_package m p")
      case (Inl e)
      with one show ?thesis by auto
    next
      case (Inr m1)
      with one Cons.IH(1) [of m1] show ?thesis by auto
    qed
  next
    case 2
    then obtain m1 where m1: "register_package m p = Inr m1" "try_fold register_package m1 ps = Inr m'"
      by (auto simp: rbind_eq_Inr)
    with 2 Cons.IH(2) [OF m1(2)] register_package_ok(2) [OF _ m1(1)] show ?case by auto
  }
qed auto

text \<open>What a composition must satisfy, without the order in which it is checked.\<close>

definition packaging_ok :: "composition_input \<Rightarrow> bool" where
  "packaging_ok i \<longleftrightarrow>
     (\<forall>p\<in>set (cp_packages i). validate_package p = Inr ()) \<and> distinct (map package_id (cp_packages i)) \<and>
     (\<forall>c\<in>set (cp_components i). validate_component c = Inr () \<and> (\<exists>p\<in>set (cp_packages i).
        package_id p = cm_owner (cx_manifest c) \<and> component_id_of c \<in> pk_components p)) \<and>
     distinct (map component_id_of (cp_components i)) \<and>
     (\<forall>p\<in>set (cp_packages i). pk_components p \<subseteq> component_id_of ` set (cp_components i)) \<and>
     (\<forall>p\<in>set (cp_packages i). pk_skills p \<inter> pk_resources p = {}) \<and>
     (\<forall>p\<in>set (cp_packages i). \<forall>q\<in>set (cp_packages i). p \<noteq> q \<longrightarrow> things p \<inter> things q = {}) \<and>
     (\<forall>r\<in>set (cp_resources i). validate_resource r = Inr ()) \<and> distinct (map rm_identity (cp_resources i)) \<and>
     rm_identity ` set (cp_resources i) = \<Union> (things ` set (cp_packages i))"

lemma check_owned_ok:
  "bt_ok owners \<Longrightarrow> is_ok (check_owned owners resources) \<longleftrightarrow> (\<forall>r. bt_has owners r \<longleftrightarrow> bt_has resources r)"
proof -
  assume ok: "bt_ok owners"
  have "(\<forall>(r, p)\<in>set owners. bt_has resources r) \<longleftrightarrow> (\<forall>r. bt_has owners r \<longrightarrow> bt_has resources r)"
    using bt_get_iff [OF ok] by (fastforce simp: bt_has_def)
  then show ?thesis
    by (auto simp: check_owned_def is_ok_rbind try_each_ok bt_has_iff try_each_is_ok split: prod.splits if_splits)
qed

lemma register_bt_ok: "try_fold register_package m ps = Inr m' \<Longrightarrow> bt_ok m \<Longrightarrow> bt_ok m'"
proof (induction ps arbitrary: m)
  case (Cons p ps)
  have owner: "try_fold (register_owner i) n rs = Inr n' \<Longrightarrow> bt_ok n \<Longrightarrow> bt_ok n'" for i n rs n'
    by (induction rs arbitrary: n) (auto simp: register_owner_def rbind_eq_Inr bt_ok_insert split: option.splits)
  from Cons.prems obtain m1 where "register_package m p = Inr m1" "try_fold register_package m1 ps = Inr m'"
    by (auto simp: rbind_eq_Inr)
  with Cons.IH [OF this(2)] Cons.prems(2) show ?case by (auto simp: register_package_def rbind_eq_Inr dest: owner)
qed simp

text \<open>The checks after the indexing.\<close>

definition cross_checks ::
    "packages \<Rightarrow> (component_id, component_metadata) btree \<Rightarrow> (string, resource_metadata) btree \<Rightarrow> metadata_resolution_error + unit" where
  "cross_checks ps cs rs = rbind (try_each (check_packaged cs) (bt_vals ps)) (\<lambda>_.
     rbind (try_fold register_package [] (bt_vals ps)) (\<lambda>owners. check_owned owners rs))"

lemma both_false: "\<not> A \<Longrightarrow> \<not> (B \<and> C) \<Longrightarrow> A \<longleftrightarrow> X \<and> B \<and> C \<and> Y"
  and both_true: "(A \<longleftrightarrow> X \<and> Y) \<Longrightarrow> B \<and> C \<Longrightarrow> A \<longleftrightarrow> X \<and> B \<and> C \<and> Y"
  by blast+

lemma cross_checks_ok:
  assumes "\<forall>p\<in>set (cp_packages i). finite_package p" and ps: "bt_index package_id [] (cp_packages i) = Inr ps"
    and cs: "bt_index component_id_of [] (cp_components i) = Inr cs"
    and rs: "bt_index rm_identity [] (cp_resources i) = Inr rs"
  shows "is_ok (cross_checks ps cs rs) \<longleftrightarrow>
      (\<forall>p\<in>set (cp_packages i). pk_components p \<subseteq> component_id_of ` set (cp_components i)) \<and>
      (\<forall>p\<in>set (cp_packages i). pk_skills p \<inter> pk_resources p = {}) \<and>
      (\<forall>p\<in>set (cp_packages i). \<forall>q\<in>set (cp_packages i). p \<noteq> q \<longrightarrow> things p \<inter> things q = {}) \<and>
      rm_identity ` set (cp_resources i) = \<Union> (things ` set (cp_packages i))"
proof -
  note vals = bt_index_empty(3) [OF ps]
  have "distinct (map package_id (bt_vals ps))"
    using bt_index_empty(5) [OF ps] distinct_bt_keys [OF bt_index_empty(1) [OF ps]] by simp
  then have dist: "distinct (bt_vals ps)" by (simp add: distinct_map)
  have fin: "\<forall>p\<in>set (bt_vals ps). finite_package p" using assms vals by simp
  have comps: "bt_has cs c \<longleftrightarrow> c \<in> component_id_of ` set (cp_components i)" for c
    using bt_index_empty(4) [OF cs] by (fastforce simp: bt_has_def)
  have res: "bt_has rs r \<longleftrightarrow> r \<in> rm_identity ` set (cp_resources i)" for r
    using bt_index_empty(4) [OF rs] by (fastforce simp: bt_has_def)
  have one: "check_packaged cs p = Inr () \<longleftrightarrow> pk_components p \<subseteq> component_id_of ` set (cp_components i)"
    if "p \<in> set (cp_packages i)" for p
    using assms(1) that by (auto simp: check_packaged_def refuse_first_ok finite_package_def comps)
  have "is_ok (try_each (check_packaged cs) (bt_vals ps)) \<longleftrightarrow> (\<forall>p\<in>set (bt_vals ps). check_packaged cs p = Inr ())"
    by (simp add: is_ok_iff try_each_ok)
  then have packaged: "is_ok (try_each (check_packaged cs) (bt_vals ps)) \<longleftrightarrow>
      (\<forall>p\<in>set (cp_packages i). pk_components p \<subseteq> component_id_of ` set (cp_components i))"
    using one vals by simp
  note reg = register_packages_ok(1) [OF fin, of "[]"]
  have owned: "is_ok (check_owned owners rs) \<longleftrightarrow> rm_identity ` set (cp_resources i) = \<Union> (things ` set (cp_packages i))"
    if "try_fold register_package [] (bt_vals ps) = Inr owners" for owners
    using check_owned_ok [OF register_bt_ok [OF that]] register_packages_ok(2) [OF fin that] res vals
    by (auto simp: bt_has_def)
  have disjoint: "is_ok (try_fold register_package [] (bt_vals ps)) \<longleftrightarrow>
      (\<forall>p\<in>set (cp_packages i). pk_skills p \<inter> pk_resources p = {}) \<and>
      (\<forall>p\<in>set (cp_packages i). \<forall>q\<in>set (cp_packages i). p \<noteq> q \<longrightarrow> things p \<inter> things q = {})"
    unfolding reg apart_iff [OF dist] vals by (simp add: bt_has_def)
  show ?thesis
  proof (cases "try_fold register_package [] (bt_vals ps)")
    case (Inl e)
    then have "\<not> is_ok (cross_checks ps cs rs)" by (auto simp: cross_checks_def is_ok_rbind)
    moreover from Inl disjoint have "\<not> ((\<forall>p\<in>set (cp_packages i). pk_skills p \<inter> pk_resources p = {}) \<and>
      (\<forall>p\<in>set (cp_packages i). \<forall>q\<in>set (cp_packages i). p \<noteq> q \<longrightarrow> things p \<inter> things q = {}))" by simp
    ultimately show ?thesis by (rule both_false)
  next
    case (Inr owners)
    then have "is_ok (cross_checks ps cs rs) \<longleftrightarrow> is_ok (try_each (check_packaged cs) (bt_vals ps)) \<and> is_ok (check_owned owners rs)"
      by (auto simp: cross_checks_def is_ok_iff rbind_eq_Inr)
    moreover from Inr disjoint have "(\<forall>p\<in>set (cp_packages i). pk_skills p \<inter> pk_resources p = {}) \<and>
      (\<forall>p\<in>set (cp_packages i). \<forall>q\<in>set (cp_packages i). p \<noteq> q \<longrightarrow> things p \<inter> things q = {})" by simp
    ultimately show ?thesis unfolding packaged owned [OF Inr] by (rule both_true)
  qed
qed

lemma index_composition_ok:
  assumes "\<forall>p\<in>set (cp_packages i). finite_package p"
  shows "index_composition i = Inr x \<longleftrightarrow> packaging_ok i \<and> bt_index package_id [] (cp_packages i) = Inr (ix_packages x) \<and>
    bt_index component_id_of [] (cp_components i) = Inr (ix_components x) \<and>
    bt_index rm_identity [] (cp_resources i) = Inr (ix_resources x)"
proof -
  have "index_composition i = Inr x \<longleftrightarrow> try_fold add_package [] (cp_packages i) = Inr (ix_packages x) \<and>
      try_fold (add_component_metadata (ix_packages x)) [] (cp_components i) = Inr (ix_components x) \<and>
      try_fold add_owned_resource [] (cp_resources i) = Inr (ix_resources x) \<and>
      is_ok (cross_checks (ix_packages x) (ix_components x) (ix_resources x))"
    by (cases x) (auto simp: index_composition_def cross_checks_def rbind_eq_Inr is_ok_rbind is_ok_iff)
  also have "\<dots> \<longleftrightarrow> packaging_ok i \<and> bt_index package_id [] (cp_packages i) = Inr (ix_packages x) \<and>
    bt_index component_id_of [] (cp_components i) = Inr (ix_components x) \<and>
    bt_index rm_identity [] (cp_resources i) = Inr (ix_resources x)" (is "_ \<longleftrightarrow> packaging_ok i \<and> ?ix")
  proof (cases ?ix)
    case True
    then have ix: "bt_index package_id [] (cp_packages i) = Inr (ix_packages x)"
      "bt_index component_id_of [] (cp_components i) = Inr (ix_components x)"
      "bt_index rm_identity [] (cp_resources i) = Inr (ix_resources x)" by auto
    have owner: "(\<exists>p. bt_get (ix_packages x) q = Some p \<and> P p) \<longleftrightarrow> (\<exists>p\<in>set (cp_packages i). package_id p = q \<and> P p)" for q P
      using bt_index_empty(4) [OF ix(1)] by auto
    have "packaging_ok i \<longleftrightarrow> (\<forall>p\<in>set (cp_packages i). validate_package p = Inr ()) \<and>
        (\<forall>c\<in>set (cp_components i). validate_component c = Inr () \<and> (\<exists>p\<in>set (cp_packages i).
          package_id p = cm_owner (cx_manifest c) \<and> component_id_of c \<in> pk_components p)) \<and>
        (\<forall>r\<in>set (cp_resources i). validate_resource r = Inr ()) \<and>
        is_ok (cross_checks (ix_packages x) (ix_components x) (ix_resources x))"
      unfolding packaging_ok_def cross_checks_ok [OF assms ix]
      using bt_index_empty(2) [OF ix(1)] bt_index_empty(2) [OF ix(2)] bt_index_empty(2) [OF ix(3)] by argo
    with ix show ?thesis unfolding add_packages_ok index_components_ok add_owned_resources_ok owner by argo
  qed (auto simp: add_packages_ok index_components_ok add_owned_resources_ok)
  finally show ?thesis .
qed

lemma index_sorted: "bt_index key [] xs = Inr m \<Longrightarrow> bt_vals m = sort_key key xs"
proof -
  assume m: "bt_index key [] xs = Inr m"
  note ix = bt_index_empty [OF m]
  have "distinct (map key (bt_vals m))" using ix(5) distinct_bt_keys [OF ix(1)] by simp
  then have "mset (bt_vals m) = mset xs"
    using ix(2,3) set_eq_iff_mset_eq_distinct [of "bt_vals m" xs] by (auto simp: distinct_map)
  moreover have "sorted (map key (bt_vals m))"
    using ix(1) ix(5) [symmetric] by (simp add: bt_ok_def bt_keys_def strict_sorted_imp_sorted)
  ultimately show ?thesis using \<open>distinct (map key (bt_vals m))\<close>
    by (intro sort_key_inj_key_eq [symmetric]) (auto simp: distinct_map ix(3))
qed

subsection \<open>Properties\<close>

lemma resolved_inputs:
  assumes "resolve_with_inputs digest n pms cms inputs ceiling = Some (Inr h)" "bt_ok (in_layers inputs)"
    "\<forall>r\<in>set (in_resources inputs). finite_resource r"
  shows "set (ha_plugins h) = set pms \<and> set (ha_components h) = set cms \<and> set (ha_resources h) = set (in_resources inputs)"
proof -
  let ?ps = "sort_key pm_id pms" and ?cs = "sort_key cm_id cms"
  from assms(1) obtain resources conf where t: "resolve_resources (in_resources inputs) ?cs ceiling = Inr resources"
    "assemble digest n ?ps ?cs (in_schemas inputs) resources conf (sort_layers (in_layers inputs)) (in_policy inputs) ceiling =
       Some (Inr h)"
    by (auto simp: resolve_with_inputs_def Let_def rbind_eq_Inr split: sum.splits)
  from t(1) assms(3) have "set resources = set (in_resources inputs)"
    using bt_index_empty(3) by (fastforce simp: resolve_resources_ok)
  with assemble_cases [of "sort_layers (in_layers inputs)" digest n ?ps ?cs "in_schemas inputs" resources conf
      "in_policy inputs" ceiling] t(2) assms(2) show ?thesis
    by (auto simp: sort_layers_ok)
qed

text \<open>The errors before the resolver are the metadata's own.\<close>

definition own_error :: "metadata_resolution_error + 'a \<Rightarrow> bool" where
  "own_error r \<longleftrightarrow> (\<forall>e. r \<noteq> Inl (MrResolver e))"

lemma own_error_intros:
  "own_error (Inr x)" "own_error r \<Longrightarrow> (\<And>x. own_error (f x)) \<Longrightarrow> own_error (rbind r f)"
  by (auto simp: own_error_def rbind_eq_Inl)

lemma own_error_loops:
  "(\<And>s x. own_error (f s x)) \<Longrightarrow> own_error (try_fold f s xs)" "(\<And>x. own_error (g x)) \<Longrightarrow> own_error (try_each g xs)"
proof -
  show "own_error (try_fold f s xs)" if "\<And>s x. own_error (f s x)"
    using that by (induction xs arbitrary: s) (auto intro: own_error_intros)
  show "own_error (try_each g xs)" if "\<And>x. own_error (g x)"
    using that try_each_err [of g xs] by (auto simp: own_error_def)
qed

lemma index_errors: "own_error (index_composition i)"
proof -
  have "own_error (add_package m p)" for m p
    by (auto simp: own_error_def add_package_def rbind_eq_Inl map_err_eq_Inl)
  moreover have "own_error (add_component_metadata ps m c)" for ps m c
    by (auto simp: own_error_def add_component_metadata_def rbind_eq_Inl map_err_eq_Inl ok_or_eq_Inl)
  moreover have "own_error (add_owned_resource m r)" for m r
    by (auto simp: own_error_def add_owned_resource_def rbind_eq_Inl map_err_eq_Inl)
  moreover have "own_error (check_packaged cs p)" for cs p
    by (auto simp: own_error_def check_packaged_def refuse_first_def split: option.splits)
  moreover have "own_error (register_owner p m r)" for p m r
    by (auto simp: own_error_def register_owner_def split: option.splits)
  then have "own_error (register_package m p)" for m p
    unfolding register_package_def
    by (intro own_error_intros own_error_loops) (auto simp: own_error_def refuse_first_def split: option.splits)
  moreover have "own_error (check_owned owners rs)" for owners rs
    unfolding check_owned_def by (intro own_error_intros own_error_loops) (auto simp: own_error_def split: if_splits)
  ultimately show ?thesis
    unfolding index_composition_def by (intro own_error_intros own_error_loops)
qed

text \<open>C28: resolving a composition from its metadata always returns. It gets past the metadata exactly when every
  package, component and resource is valid and named once, every component belongs to a package that declares it, every
  declared component exists, and every resource is declared by exactly one package, as a skill or as a plain resource,
  and every declared one exists. A resolved harness then has exactly the packaged plugins, components and resources,
  and its generation is the digest of that content together with all the metadata.\<close>

theorem composition_is_packaged:
  assumes "bt_ok layers" "\<forall>p\<in>set (cp_packages i). finite_package p" "\<forall>r\<in>set (cp_resources i). finite_resource r"
  shows "(\<exists>e. resolve_metadata_with_layers digest mdigest n i layers ceiling = Some (Inl e) \<and>
      ((\<exists>e'. e = MrResolver e') \<longleftrightarrow> packaging_ok i)) \<or>
    (\<exists>h. resolve_metadata_with_layers digest mdigest n i layers ceiling = Some (Inr h) \<and> packaging_ok i \<and>
      set (ha_plugins h) = pk_manifest ` set (cp_packages i) \<and> set (ha_components h) = cx_manifest ` set (cp_components i) \<and>
      set (ha_resources h) = set (cp_resources i) \<and> ha_generation h = mdigest (digest (generation_content ceiling h))
        (sort_key package_id (cp_packages i), sort_key component_id_of (cp_components i)))"
proof (cases "index_composition i")
  case (Inl e)
  have "\<not> packaging_ok i"
  proof
    assume ok: "packaging_ok i"
    then obtain ps cs rs where "bt_index package_id [] (cp_packages i) = Inr ps"
      "bt_index component_id_of [] (cp_components i) = Inr cs" "bt_index rm_identity [] (cp_resources i) = Inr rs"
      using bt_index_success [of package_id "[]" "cp_packages i"] bt_index_success [of component_id_of "[]" "cp_components i"]
        bt_index_success [of rm_identity "[]" "cp_resources i"]
      by (auto simp: packaging_ok_def is_ok_iff bt_has_def)
    with index_composition_ok [OF assms(2), of "\<lparr>ix_packages = ps, ix_components = cs, ix_resources = rs\<rparr>"] ok Inl
    show False by simp
  qed
  moreover have "e \<noteq> MrResolver e'" for e' using index_errors [of i] Inl by (simp add: own_error_def)
  ultimately show ?thesis using Inl by (simp add: resolve_metadata_with_layers_def)
next
  case (Inr x)
  with index_composition_ok [OF assms(2)] have ix: "packaging_ok i" "bt_index package_id [] (cp_packages i) = Inr (ix_packages x)"
    "bt_index component_id_of [] (cp_components i) = Inr (ix_components x)"
    "bt_index rm_identity [] (cp_resources i) = Inr (ix_resources x)" by auto
  note sets = bt_index_empty(3) [OF ix(2)] bt_index_empty(3) [OF ix(3)] bt_index_empty(3) [OF ix(4)]
  let ?in = "inputs_new [] (bt_vals (ix_resources x)) (cp_configuration i) layers []"
  let ?run = "resolve_with_inputs digest n (map pk_manifest (bt_vals (ix_packages x))) (map cx_manifest (bt_vals (ix_components x)))
    ?in ceiling"
  have res: "\<forall>r\<in>set (in_resources ?in). finite_resource r" and lay: "bt_ok (in_layers ?in)"
    using assms(1,3) sets(3) by (simp_all add: inputs_new_def)
  note cases = resolved_coherent [OF lay res, where digest = digest and i = n and ceiling = ceiling
      and pms = "map pk_manifest (bt_vals (ix_packages x))" and cms = "map cx_manifest (bt_vals (ix_components x))"]
  have run: "resolve_metadata_with_layers digest mdigest n i layers ceiling = map_option (\<lambda>r. rbind (map_err MrResolver r) (\<lambda>h.
      Inr (incorporate_metadata mdigest (bt_vals (ix_packages x), bt_vals (ix_components x)) h))) ?run"
    using Inr by (simp add: resolve_metadata_with_layers_def resolve_with_resources_and_layers_def)
  show ?thesis
  proof (cases "\<exists>h. ?run = Some (Inr h)")
    case True
    then obtain h where h: "?run = Some (Inr h)" by blast
    from cases h have "ha_generation h = digest (generation_content ceiling h)" by (simp add: coherent_def assembled_def)
    with run h resolved_inputs [OF h lay res] sets ix show ?thesis
      by (simp add: incorporate_metadata_def index_sorted generation_content_def inputs_new_def)
  next
    case False
    with cases obtain e where "?run = Some (Inl e)" by (cases ?run) (auto split: sum.splits)
    with run ix(1) show ?thesis by simp
  qed
qed

definition sample_package :: "plugin_manifest \<Rightarrow> string set \<Rightarrow> package_metadata" where
  "sample_package m rs = \<lparr>pk_manifest = m, pk_components = {}, pk_resources = rs, pk_skills = {},
     pk_compatibility = \<lparr>co_minimum = 1, co_maximum = None\<rparr>, pk_namespaces = {}, pk_migrations = [], pk_frontends = {},
     pk_hosts = {}, pk_reload = Retain\<rparr>"

definition sample_composition :: composition_input where
  "sample_composition = \<lparr>cp_packages = [sample_package layer_plugin {}, sample_package (resource_only_manifest ''a'') {''q'', ''r''}],
     cp_components = [], cp_resources = [sample_resource ''r'' {''q''}, sample_resource ''q'' {}], cp_configuration = []\<rparr>"

lemma sample_packaged: "packaging_ok sample_composition"
  by (simp add: packaging_ok_def sample_composition_def sample_package_def layer_plugin_def resource_only_manifest_def
      validate_package_def validate_compatibility_def kernel_compatibility_version_def validate_resource_def sample_resource_def
      things_def insert_commute)

lemma sample_composition_resolves:
  "\<exists>h. resolve_metadata_with_layers digest mdigest 1 sample_composition [(''svc@1'', [sample_layer])] {''net''} = Some (Inr h)"
proof -
  let ?q = "sample_resource ''q'' {}" and ?r = "sample_resource ''r'' {''q''}"
  let ?a = "sample_package (resource_only_manifest ''a'') {''q'', ''r''}" and ?l = "sample_package layer_plugin {}"
  have "index_composition sample_composition = Inr \<lparr>ix_packages = [(''a'', ?a), (''l'', ?l)], ix_components = [],
      ix_resources = [(''q'', ?q), (''r'', ?r)]\<rparr>"
    using sample_packaged
    by (subst index_composition_ok) (simp_all add: sample_composition_def finite_package_def sample_package_def
        layer_plugin_def resource_only_manifest_def sample_resource_def bt_has_def)
  moreover have "resolve_resources [?q, ?r] [] {''net''} = Inr [?q, ?r]"
    by (simp add: resolve_resources_def add_resource_def validate_resource_def
        validate_compatibility_def kernel_compatibility_version_def sample_resource_def bt_has_def check_resource_def
        refuse_first_def permits_def)
  moreover have "sort_key pm_id [resource_only_manifest ''a'', layer_plugin] = [resource_only_manifest ''a'', layer_plugin]"
    by (simp add: layer_plugin_def resource_only_manifest_def)
  moreover have "validate_layer_policies [resource_only_manifest ''a'', layer_plugin] [(''svc@1'', [sample_layer])] {''net''} = Inr ()"
    by (simp add: validate_layer_policies_def sample_layer_def layer_available_def
        layer_plugin_def resource_only_manifest_def permits_all_def)
  moreover obtain c where "config_new 1 [resource_only_manifest ''a'', layer_plugin] = Some (Inr c)"
    using sample_plugins_config by blast
  ultimately show ?thesis
    by (simp add: resolve_metadata_with_layers_def resolve_with_resources_and_layers_def resolve_with_inputs_def
        assemble_def empty_graph try_resolve_def inputs_new_def bt_vals_def sample_package_def sample_composition_def
        sort_layers_def with_layer_policy_def resolve_durable_schemas_def sample_layer_def Let_def)
qed

theorem composition_is_packaged_witness:
  "\<exists>h. resolve_metadata_with_layers (\<lambda>_. ''g'') (\<lambda>g _. g @ ''m'') 1 sample_composition [(''svc@1'', [sample_layer])] {''net''} =
      Some (Inr h) \<and> set (ha_plugins h) = {layer_plugin, resource_only_manifest ''a''} \<and> ha_generation h = ''gm''"
proof -
  obtain h where h: "resolve_metadata_with_layers (\<lambda>_. ''g'') (\<lambda>g _. g @ ''m'') 1 sample_composition
      [(''svc@1'', [sample_layer])] {''net''} = Some (Inr h)"
    using sample_composition_resolves by blast
  have "bt_ok [(''svc@1'', [sample_layer])]" "\<forall>p\<in>set (cp_packages sample_composition). finite_package p"
    "\<forall>r\<in>set (cp_resources sample_composition). finite_resource r"
    by (simp_all add: sample_composition_def sample_package_def finite_package_def sample_resource_def finite_resource_def)
  from composition_is_packaged [OF this, where digest = "\<lambda>_. ''g''" and mdigest = "\<lambda>g _. g @ ''m''" and n = 1 and
      ceiling = "{''net''}"] h
  show ?thesis by (simp add: sample_composition_def sample_package_def)
qed

end
