(* ===== verification/Metadata_Reconciliation.thy ===== *)
theory Metadata_Reconciliation
  imports Reconciliation Metadata_Resolution
begin

text \<open>
  How a change of metadata takes part in a change of generation (\<open>phenix-core/src/metadata_reconciliation.rs\<close>): the
  difference of two snapshots, and the preview in which the reload policies of what changed either restart components
  that survive, or refuse the candidate because it would have to be drained or migrated first.
\<close>

subsection \<open>The difference of two snapshots\<close>

datatype metadata_change_kind = MetadataAdded | MetadataRemoved | MetadataReconfigured | MetadataUpgraded

record package_change =
  pch_plugin :: plugin_id
  pch_kind :: metadata_change_kind

record component_metadata_change =
  mch_component :: component_id
  mch_kind :: metadata_change_kind

record frontend_change =
  fch_frontend :: frontend_id
  fch_kind :: metadata_change_kind

record resource_metadata_change =
  rmc_resource :: string
  rmc_kind :: metadata_change_kind

record metadata_diff =
  md_packages :: "package_change list"
  md_components :: "component_metadata_change list"
  md_frontends :: "frontend_change list"
  md_resources :: "resource_metadata_change list"

definition metadata_changes ::
    "('a \<Rightarrow> 'k::linorder) \<Rightarrow> ('a \<Rightarrow> 'a \<Rightarrow> metadata_change_kind) \<Rightarrow> ('k \<Rightarrow> metadata_change_kind \<Rightarrow> 'c) \<Rightarrow> 'a list \<Rightarrow> 'a list
     \<Rightarrow> 'c list" where
  "metadata_changes key classify build previous subsequent =
     (let p = collect_map key (\<lambda>x. x) previous; n = collect_map key (\<lambda>x. x) subsequent
      in filter_map (\<lambda>k. case (bt_get p k, bt_get n k) of
             (None, Some _) \<Rightarrow> Some (build k MetadataAdded)
           | (Some _, None) \<Rightarrow> Some (build k MetadataRemoved)
           | (Some a, Some b) \<Rightarrow> if a \<noteq> b then Some (build k (classify a b)) else None
           | (None, None) \<Rightarrow> None) (both_keys p n))"

definition by_version :: "('a \<Rightarrow> nat) \<Rightarrow> 'a \<Rightarrow> 'a \<Rightarrow> metadata_change_kind" where
  "by_version version a b = (if version a \<noteq> version b then MetadataUpgraded else MetadataReconfigured)"

definition metadata_diff_between :: "composition_metadata \<Rightarrow> composition_metadata \<Rightarrow> metadata_diff" where
  "metadata_diff_between previous subsequent =
     \<lparr>md_packages = metadata_changes package_id (by_version (\<lambda>p. pm_version (pk_manifest p)))
        (\<lambda>p k. \<lparr>pch_plugin = p, pch_kind = k\<rparr>) (sm_packages previous) (sm_packages subsequent),
      md_components = metadata_changes component_id_of (by_version cx_version)
        (\<lambda>c k. \<lparr>mch_component = c, mch_kind = k\<rparr>) (sm_components previous) (sm_components subsequent),
      md_frontends = metadata_changes fm_id (by_version fm_version)
        (\<lambda>f k. \<lparr>fch_frontend = f, fch_kind = k\<rparr>) (sm_frontends previous) (sm_frontends subsequent),
      md_resources = metadata_changes rm_identity (by_version rm_version)
        (\<lambda>r k. \<lparr>rmc_resource = r, rmc_kind = k\<rparr>) (sm_resources previous) (sm_resources subsequent)\<rparr>"

definition metadata_diff_is_empty :: "metadata_diff \<Rightarrow> bool" where
  "metadata_diff_is_empty d \<longleftrightarrow> md_packages d = [] \<and> md_components d = [] \<and> md_frontends d = [] \<and> md_resources d = []"

subsection \<open>Reload policies\<close>

datatype metadata_reconciliation_error =
  MdActiveGenerationMismatch graph_generation_id graph_generation_id
| MdCandidateGenerationMismatch graph_generation_id graph_generation_id
| DrainRequired component_id
| MigrationRequiredFor component_id
| ResourceDrainRequired string
| ResourceMigrationRequired string

fun reload_loop :: "component_id \<Rightarrow> bool \<Rightarrow> reload_policy list \<Rightarrow> metadata_reconciliation_error + bool" where
  "reload_loop c requires [] = Inr requires"
| "reload_loop c requires (p # ps) =
     (case p of
        Retain \<Rightarrow> reload_loop c requires ps
      | Restart \<Rightarrow> reload_loop c True ps
      | DrainAndRestart \<Rightarrow> Inl (DrainRequired c)
      | MigrationRequired \<Rightarrow> Inl (MigrationRequiredFor c))"

definition apply_reload_policies ::
    "component_id \<Rightarrow> reload_policy list \<Rightarrow> component_id set \<Rightarrow> metadata_reconciliation_error + component_id set" where
  "apply_reload_policies c policies restart =
     rbind (reload_loop c False policies) (\<lambda>requires. Inr (if requires then insert c restart else restart))"

definition component_policies :: "composition_metadata \<Rightarrow> composition_metadata \<Rightarrow> component_id \<Rightarrow> reload_policy list" where
  "component_policies previous subsequent c =
     map cx_reload (filter (\<lambda>m. component_id_of m = c) (sm_components previous @ sm_components subsequent))"

definition package_policies :: "composition_metadata \<Rightarrow> composition_metadata \<Rightarrow> plugin_id \<Rightarrow> reload_policy list" where
  "package_policies previous subsequent p =
     map pk_reload (filter (\<lambda>m. package_id m = p) (sm_packages previous @ sm_packages subsequent))"

definition apply_component_reload_policy ::
    "composition_metadata \<Rightarrow> composition_metadata \<Rightarrow> component_id \<Rightarrow> component_id set
     \<Rightarrow> metadata_reconciliation_error + component_id set" where
  "apply_component_reload_policy previous subsequent c restart =
     apply_reload_policies c (component_policies previous subsequent c) restart"

definition apply_package_reload_policy ::
    "composition_metadata \<Rightarrow> composition_metadata \<Rightarrow> plugin_id \<Rightarrow> component_id \<Rightarrow> component_id set
     \<Rightarrow> metadata_reconciliation_error + component_id set" where
  "apply_package_reload_policy previous subsequent p c restart =
     apply_reload_policies c (package_policies previous subsequent p) restart"

definition apply_resource_reload_policy ::
    "composition_metadata \<Rightarrow> composition_metadata \<Rightarrow> string \<Rightarrow> metadata_reconciliation_error + unit" where
  "apply_resource_reload_policy previous subsequent r =
     try_each (\<lambda>p. case p of
         Retain \<Rightarrow> Inr () | Restart \<Rightarrow> Inr ()
       | DrainAndRestart \<Rightarrow> Inl (ResourceDrainRequired r)
       | MigrationRequired \<Rightarrow> Inl (ResourceMigrationRequired r))
       (map rm_reload (filter (\<lambda>m. rm_identity m = r) (sm_resources previous @ sm_resources subsequent)))"

subsection \<open>What a change concerns\<close>

definition component_survives :: "harness \<Rightarrow> harness \<Rightarrow> component_id \<Rightarrow> bool" where
  "component_survives previous subsequent c \<longleftrightarrow>
     list_ex (\<lambda>m. cm_id m = c) (ha_components previous) \<and> list_ex (\<lambda>m. cm_id m = c) (ha_components subsequent)"

definition resource_survives :: "composition_metadata \<Rightarrow> composition_metadata \<Rightarrow> string \<Rightarrow> bool" where
  "resource_survives previous subsequent r \<longleftrightarrow>
     list_ex (\<lambda>m. rm_identity m = r) (sm_resources previous) \<and> list_ex (\<lambda>m. rm_identity m = r) (sm_resources subsequent)"

definition components_owned_by :: "composition_metadata \<Rightarrow> composition_metadata \<Rightarrow> plugin_id \<Rightarrow> component_id list" where
  "components_owned_by previous subsequent p = sorted_list_of_set (set (map component_id_of
     (filter (\<lambda>m. cm_owner (cx_manifest m) = p) (sm_components previous @ sm_components subsequent))))"

definition packages_declaring :: "composition_metadata \<Rightarrow> composition_metadata \<Rightarrow> frontend_id \<Rightarrow> plugin_id list" where
  "packages_declaring previous subsequent f = sorted_list_of_set (set (map package_id
     (filter (\<lambda>m. f \<in> pk_frontends m) (sm_packages previous @ sm_packages subsequent))))"

definition invalidation_targets :: "composition_metadata \<Rightarrow> composition_metadata \<Rightarrow> string \<Rightarrow> string set" where
  "invalidation_targets previous subsequent r =
     \<Union>(rm_invalidation ` set (filter (\<lambda>m. rm_identity m = r) (sm_resources previous @ sm_resources subsequent)))"

subsection \<open>The preview\<close>

record metadata_preview =
  mp_graph :: preview
  mp_metadata :: metadata_diff

definition is_replacement :: "metadata_change_kind \<Rightarrow> bool" where
  "is_replacement k \<longleftrightarrow> k = MetadataReconfigured \<or> k = MetadataUpgraded"

definition restart_changed_component ::
    "harness \<Rightarrow> composition_metadata \<Rightarrow> harness \<Rightarrow> composition_metadata \<Rightarrow> component_id set \<Rightarrow> component_metadata_change
     \<Rightarrow> metadata_reconciliation_error + component_id set" where
  "restart_changed_component active am candidate nm restart ch =
     (if is_replacement (mch_kind ch) \<and> component_survives active candidate (mch_component ch)
      then apply_component_reload_policy am nm (mch_component ch) restart else Inr restart)"

definition restart_package ::
    "harness \<Rightarrow> composition_metadata \<Rightarrow> harness \<Rightarrow> composition_metadata \<Rightarrow> component_id set \<Rightarrow> plugin_id
     \<Rightarrow> metadata_reconciliation_error + component_id set" where
  "restart_package active am candidate nm restart p =
     try_fold (\<lambda>R c. if component_survives active candidate c then apply_package_reload_policy am nm p c R else Inr R)
       restart (components_owned_by am nm p)"

definition restart_frontend ::
    "harness \<Rightarrow> composition_metadata \<Rightarrow> harness \<Rightarrow> composition_metadata \<Rightarrow> component_id set \<Rightarrow> frontend_change
     \<Rightarrow> metadata_reconciliation_error + component_id set" where
  "restart_frontend active am candidate nm restart ch =
     try_fold (restart_package active am candidate nm) restart (packages_declaring am nm (fch_frontend ch))"

definition mentions_resource :: "string \<Rightarrow> reconciliation_action \<Rightarrow> bool" where
  "mentions_resource r a = (case a of InvalidateResourceDerivedState q _ \<Rightarrow> q = r | _ \<Rightarrow> False)"

definition plan_resource ::
    "composition_metadata \<Rightarrow> composition_metadata \<Rightarrow> reconciliation_action list \<Rightarrow> resource_metadata_change
     \<Rightarrow> metadata_reconciliation_error + reconciliation_action list" where
  "plan_resource am nm plan ch =
     rbind (if is_replacement (rmc_kind ch) \<and> resource_survives am nm (rmc_resource ch)
        then apply_resource_reload_policy am nm (rmc_resource ch) else Inr ()) (\<lambda>_.
       let targets = invalidation_targets am nm (rmc_resource ch)
       in if targets = {} \<or> list_ex (mentions_resource (rmc_resource ch)) plan then Inr plan
          else Inr (plan @ [InvalidateResourceDerivedState (rmc_resource ch) targets]))"

definition restarted_components :: "reconciliation_action list \<Rightarrow> component_id set" where
  "restarted_components plan = set (filter_map (\<lambda>a. case a of RestartComponent c \<Rightarrow> Some c | _ \<Rightarrow> None) plan)"

definition preview_with_metadata ::
    "harness \<Rightarrow> composition_metadata \<Rightarrow> harness \<Rightarrow> composition_metadata
     \<Rightarrow> (metadata_reconciliation_error + metadata_preview) option" where
  "preview_with_metadata active am candidate nm =
     (if sm_generation am \<noteq> ha_generation active
      then Some (Inl (MdActiveGenerationMismatch (ha_generation active) (sm_generation am)))
      else if sm_generation nm \<noteq> ha_generation candidate
      then Some (Inl (MdCandidateGenerationMismatch (ha_generation candidate) (sm_generation nm)))
      else map_option (\<lambda>g.
        let d = metadata_diff_between am nm
        in rbind (try_fold (restart_changed_component active am candidate nm) {} (md_components d)) (\<lambda>R.
           rbind (try_fold (restart_package active am candidate nm) R (map pch_plugin (md_packages d))) (\<lambda>R.
           rbind (try_fold (restart_frontend active am candidate nm) R (md_frontends d)) (\<lambda>R.
           rbind (try_fold (plan_resource am nm) (pv_plan g) (md_resources d)) (\<lambda>plan.
             let already = restarted_components plan
             in Inr \<lparr>mp_graph = g\<lparr>pv_plan := plan @ map RestartComponent
                  (filter (\<lambda>c. c \<notin> already) (sorted_list_of_set R))\<rparr>, mp_metadata = d\<rparr>)))))
        (preview_candidate active candidate))"

subsection \<open>What the differences are\<close>

definition replaced :: "('a \<Rightarrow> 'k) \<Rightarrow> 'a list \<Rightarrow> 'a list \<Rightarrow> 'k \<Rightarrow> bool" where
  "replaced key xs ys k \<longleftrightarrow> (\<exists>a\<in>set xs. \<exists>b\<in>set ys. key a = k \<and> key b = k \<and> a \<noteq> b)"

definition differs :: "('a \<Rightarrow> 'k) \<Rightarrow> 'a list \<Rightarrow> 'a list \<Rightarrow> 'k \<Rightarrow> bool" where
  "differs key xs ys k \<longleftrightarrow> {x \<in> set xs. key x = k} \<noteq> {y \<in> set ys. key y = k}"

lemma collect_get:
  "distinct (map key xs) \<Longrightarrow> bt_get (collect_map key (\<lambda>x. x) xs) k = Some x \<longleftrightarrow> x \<in> set xs \<and> key x = k"
proof -
  have "bt_get (foldl (\<lambda>m x. bt_insert (key x) x m) m ys) k = Some x \<longleftrightarrow>
      (x \<in> set ys \<and> key x = k) \<or> (k \<notin> key ` set ys \<and> bt_get m k = Some x)" if "distinct (map key ys)" for m ys
    using that
  proof (induction ys arbitrary: m)
    case (Cons y ys)
    then show ?case by (auto simp: bt_get_insert)
  qed simp
  then show "distinct (map key xs) \<Longrightarrow> ?thesis" by (simp add: collect_map_def)
qed

lemma collect_none:
  "distinct (map key xs) \<Longrightarrow> bt_get (collect_map key (\<lambda>x. x) xs) k = None \<longleftrightarrow> k \<notin> key ` set xs"
  using collect_get [of key xs k] by (metis (no_types, lifting) image_iff not_None_eq)

lemma same_key: "distinct (map key xs) \<Longrightarrow> a \<in> set xs \<Longrightarrow> b \<in> set xs \<Longrightarrow> key a = key b \<Longrightarrow> a = b"
  by (simp add: distinct_map inj_on_def)

text \<open>A change is recorded for exactly the keys that differ, once each; it is a replacement where both have the key.\<close>

definition keyed_change :: "('a \<Rightarrow> 'k::linorder) \<Rightarrow> ('a \<Rightarrow> 'a \<Rightarrow> metadata_change_kind) \<Rightarrow> 'a list \<Rightarrow> 'a list \<Rightarrow> 'k
     \<Rightarrow> metadata_change_kind option" where
  "keyed_change key classify xs ys k = (case (bt_get (collect_map key (\<lambda>x. x) xs) k, bt_get (collect_map key (\<lambda>x. x) ys) k) of
       (None, Some _) \<Rightarrow> Some MetadataAdded
     | (Some _, None) \<Rightarrow> Some MetadataRemoved
     | (Some a, Some b) \<Rightarrow> if a \<noteq> b then Some (classify a b) else None
     | (None, None) \<Rightarrow> None)"

lemma set_metadata_changes:
  "set (metadata_changes key classify build xs ys) = {build k c | k c. keyed_change key classify xs ys k = Some c}"
proof -
  have eq: "metadata_changes key classify build xs ys = filter_map (\<lambda>k. map_option (build k) (keyed_change key classify xs ys k))
      (both_keys (collect_map key (\<lambda>x. x) xs) (collect_map key (\<lambda>x. x) ys))"
    unfolding metadata_changes_def Let_def keyed_change_def
    by (rule arg_cong [where f = "\<lambda>f. filter_map f zs" for zs]) (auto split: option.splits)
  have "k \<in> set (both_keys (collect_map key (\<lambda>x. x) xs) (collect_map key (\<lambda>x. x) ys))"
    if "keyed_change key classify xs ys k = Some c" for k c
    using that by (auto simp: set_both_keys keyed_change_def split: option.splits)
  then show ?thesis unfolding eq by (fastforce simp: set_eq_iff set_filter_map)
qed

lemma keyed_change_iff:
  assumes "distinct (map key xs)" "distinct (map key ys)"
  shows "keyed_change key classify xs ys k \<noteq> None \<longleftrightarrow> differs key xs ys k"
    "(\<And>a b. is_replacement (classify a b)) \<Longrightarrow>
      (\<exists>c. keyed_change key classify xs ys k = Some c \<and> is_replacement c) \<longleftrightarrow> replaced key xs ys k"
proof -
  let ?p = "bt_get (collect_map key (\<lambda>x. x) xs) k" and ?n = "bt_get (collect_map key (\<lambda>x. x) ys) k"
  have p: "{x \<in> set xs. key x = k} = set_option ?p"
    using collect_get [OF assms(1)] collect_none [OF assms(1)] by (cases ?p) auto
  have n: "{x \<in> set ys. key x = k} = set_option ?n"
    using collect_get [OF assms(2)] collect_none [OF assms(2)] by (cases ?n) auto
  show "keyed_change key classify xs ys k \<noteq> None \<longleftrightarrow> differs key xs ys k"
    unfolding differs_def p n by (auto simp: keyed_change_def split: option.splits)
  have "replaced key xs ys k \<longleftrightarrow> (\<exists>a\<in>{x \<in> set xs. key x = k}. \<exists>b\<in>{x \<in> set ys. key x = k}. a \<noteq> b)"
    by (auto simp: replaced_def)
  then show "(\<exists>c. keyed_change key classify xs ys k = Some c \<and> is_replacement c) \<longleftrightarrow> replaced key xs ys k"
    if "\<And>a b. is_replacement (classify a b)"
    unfolding p n using that by (auto simp: keyed_change_def is_replacement_def split: option.splits)
qed

lemma by_version_replaces: "is_replacement (by_version v a b)"
  by (simp add: by_version_def is_replacement_def)

lemma changed_keys:
  assumes "distinct (map key xs)" "distinct (map key ys)" "\<And>k c. name (build k c) = k"
  shows "k \<in> name ` set (metadata_changes key classify build xs ys) \<longleftrightarrow> differs key xs ys k"
  unfolding keyed_change_iff(1) [OF assms(1,2), of classify, symmetric] set_metadata_changes using assms(3) by (force simp: image_iff)

lemma replaced_keys:
  assumes "distinct (map key xs)" "distinct (map key ys)" "\<And>k c. name (build k c) = k" "\<And>k c. kind (build k c) = c"
    "\<And>a b. is_replacement (classify a b)"
  shows "(\<exists>ch\<in>set (metadata_changes key classify build xs ys). is_replacement (kind ch) \<and> name ch = k) \<longleftrightarrow>
    replaced key xs ys k"
proof -
  from keyed_change_iff(2) [OF assms(1,2), of classify k] assms(5)
  have "replaced key xs ys k \<longleftrightarrow> (\<exists>c. keyed_change key classify xs ys k = Some c \<and> is_replacement c)" by simp
  then show ?thesis unfolding set_metadata_changes using assms(3,4) by fastforce
qed

definition snapshot_ok :: "composition_metadata \<Rightarrow> bool" where
  "snapshot_ok s \<longleftrightarrow> distinct (map package_id (sm_packages s)) \<and> distinct (map component_id_of (sm_components s)) \<and>
     distinct (map fm_id (sm_frontends s)) \<and> distinct (map rm_identity (sm_resources s))"

lemma packaged_snapshot_ok:
  assumes "packaging_ok i" "distinct (map fm_id fs)"
  shows "snapshot_ok (snapshot_of h i fs)"
  using assms by (simp add: snapshot_ok_def snapshot_of_def packaging_ok_def distinct_map set_sort)

lemma changed_metadata:
  assumes "snapshot_ok am" "snapshot_ok nm"
  shows "(\<exists>ch\<in>set (md_components (metadata_diff_between am nm)). is_replacement (mch_kind ch) \<and> mch_component ch = c) \<longleftrightarrow>
      replaced component_id_of (sm_components am) (sm_components nm) c"
    "p \<in> pch_plugin ` set (md_packages (metadata_diff_between am nm)) \<longleftrightarrow>
      differs package_id (sm_packages am) (sm_packages nm) p"
    "f \<in> fch_frontend ` set (md_frontends (metadata_diff_between am nm)) \<longleftrightarrow>
      differs fm_id (sm_frontends am) (sm_frontends nm) f"
    "r \<in> rmc_resource ` set (md_resources (metadata_diff_between am nm)) \<longleftrightarrow>
      differs rm_identity (sm_resources am) (sm_resources nm) r"
    "(\<exists>ch\<in>set (md_resources (metadata_diff_between am nm)). is_replacement (rmc_kind ch) \<and> rmc_resource ch = r) \<longleftrightarrow>
      replaced rm_identity (sm_resources am) (sm_resources nm) r"
  using assms
  by (simp_all add: metadata_diff_between_def snapshot_ok_def by_version_replaces changed_keys replaced_keys)

subsection \<open>Folding restarts\<close>

text \<open>A step that either refuses or adds a fixed set.\<close>

definition collects :: "('s set \<Rightarrow> 'a \<Rightarrow> 'e + 's set) \<Rightarrow> ('a \<Rightarrow> bool) \<Rightarrow> ('a \<Rightarrow> 's set) \<Rightarrow> bool" where
  "collects f allowed wants \<longleftrightarrow> (\<forall>R x R'. f R x = Inr R' \<longleftrightarrow> allowed x \<and> R' = R \<union> wants x)"

lemma collects_fold:
  assumes "collects f allowed wants"
  shows "try_fold f R xs = Inr R' \<longleftrightarrow> (\<forall>x\<in>set xs. allowed x) \<and> R' = R \<union> \<Union>(wants ` set xs)"
  using assms by (induction xs arbitrary: R) (auto simp: collects_def rbind_eq_Inr)

definition blocks :: "reload_policy \<Rightarrow> bool" where
  "blocks p \<longleftrightarrow> p = DrainAndRestart \<or> p = MigrationRequired"

lemma reload_loop_ok:
  "reload_loop c requires ps = Inr b \<longleftrightarrow> (\<forall>p\<in>set ps. \<not> blocks p) \<and> (b \<longleftrightarrow> requires \<or> Restart \<in> set ps)"
  by (induction ps arbitrary: requires) (auto simp: blocks_def split: reload_policy.splits)

lemma apply_reload_ok:
  "apply_reload_policies c ps R = Inr R' \<longleftrightarrow>
     (\<forall>p\<in>set ps. \<not> blocks p) \<and> R' = R \<union> (if Restart \<in> set ps then {c} else {})"
  by (auto simp: apply_reload_policies_def rbind_eq_Inr reload_loop_ok)

abbreviation either :: "('s \<Rightarrow> 'a list) \<Rightarrow> 's \<Rightarrow> 's \<Rightarrow> 'a set" where
  "either f am nm \<equiv> set (f am) \<union> set (f nm)"

text \<open>The policies that a change of component, and one of a package or of one of its frontends, applies to a component.\<close>

definition component_demands ::
    "harness \<Rightarrow> composition_metadata \<Rightarrow> harness \<Rightarrow> composition_metadata \<Rightarrow> (component_id \<times> reload_policy) set" where
  "component_demands active am candidate nm = {(c, p). component_survives active candidate c \<and>
     replaced component_id_of (sm_components am) (sm_components nm) c \<and>
     (\<exists>m\<in>either sm_components am nm. component_id_of m = c \<and> cx_reload m = p)}"

definition affected_package :: "composition_metadata \<Rightarrow> composition_metadata \<Rightarrow> plugin_id \<Rightarrow> bool" where
  "affected_package am nm q \<longleftrightarrow> differs package_id (sm_packages am) (sm_packages nm) q \<or>
     (\<exists>m\<in>either sm_packages am nm. package_id m = q \<and>
        (\<exists>f\<in>pk_frontends m. differs fm_id (sm_frontends am) (sm_frontends nm) f))"

definition package_demands ::
    "harness \<Rightarrow> composition_metadata \<Rightarrow> harness \<Rightarrow> composition_metadata \<Rightarrow> plugin_id \<Rightarrow> (component_id \<times> reload_policy) set" where
  "package_demands active am candidate nm q = {(c, p). component_survives active candidate c \<and>
     (\<exists>m\<in>either sm_components am nm. component_id_of m = c \<and> cm_owner (cx_manifest m) = q) \<and>
     (\<exists>m\<in>either sm_packages am nm. package_id m = q \<and> pk_reload m = p)}"

definition demands ::
    "harness \<Rightarrow> composition_metadata \<Rightarrow> harness \<Rightarrow> composition_metadata \<Rightarrow> (component_id \<times> reload_policy) set" where
  "demands active am candidate nm = component_demands active am candidate nm \<union>
     (\<Union>q\<in>{q. affected_package am nm q}. package_demands active am candidate nm q)"

definition resource_demands :: "composition_metadata \<Rightarrow> composition_metadata \<Rightarrow> (string \<times> reload_policy) set" where
  "resource_demands am nm = {(r, p). replaced rm_identity (sm_resources am) (sm_resources nm) r \<and>
     (\<exists>m\<in>either sm_resources am nm. rm_identity m = r \<and> rm_reload m = p)}"

abbreviation unblocked :: "('x \<times> reload_policy) set \<Rightarrow> bool" where
  "unblocked D \<equiv> \<forall>(x, p)\<in>D. \<not> blocks p"

abbreviation restarting :: "('x \<times> reload_policy) set \<Rightarrow> 'x set" where
  "restarting D \<equiv> {x. (x, Restart) \<in> D}"

lemma component_step:
  "collects (restart_changed_component active am candidate nm)
     (\<lambda>ch. is_replacement (mch_kind ch) \<and> component_survives active candidate (mch_component ch) \<longrightarrow>
        (\<forall>p\<in>set (component_policies am nm (mch_component ch)). \<not> blocks p))
     (\<lambda>ch. if is_replacement (mch_kind ch) \<and> component_survives active candidate (mch_component ch) \<and>
        Restart \<in> set (component_policies am nm (mch_component ch)) then {mch_component ch} else {})"
  by (auto simp: collects_def restart_changed_component_def apply_component_reload_policy_def apply_reload_ok)

lemma owned_components:
  "c \<in> set (components_owned_by am nm q) \<longleftrightarrow>
     (\<exists>m\<in>either sm_components am nm. component_id_of m = c \<and> cm_owner (cx_manifest m) = q)"
  by (auto simp: components_owned_by_def)

lemma package_step:
  "collects (restart_package active am candidate nm)
     (\<lambda>q. unblocked (package_demands active am candidate nm q)) (\<lambda>q. restarting (package_demands active am candidate nm q))"
proof -
  have inner: "collects (\<lambda>R c. if component_survives active candidate c then apply_package_reload_policy am nm q c R else Inr R)
      (\<lambda>c. component_survives active candidate c \<longrightarrow> (\<forall>p\<in>set (package_policies am nm q). \<not> blocks p))
      (\<lambda>c. if component_survives active candidate c \<and> Restart \<in> set (package_policies am nm q) then {c} else {})" for q
    by (auto simp: collects_def apply_package_reload_policy_def apply_reload_ok)
  have p: "p \<in> set (package_policies am nm q) \<longleftrightarrow> (\<exists>m\<in>either sm_packages am nm. package_id m = q \<and> pk_reload m = p)" for p q
    by (auto simp: package_policies_def)
  have pairs: "package_demands active am candidate nm q =
      {c \<in> set (components_owned_by am nm q). component_survives active candidate c} \<times> set (package_policies am nm q)" for q
    by (auto simp: set_eq_iff package_demands_def owned_components p)
  show ?thesis
    unfolding collects_def restart_package_def collects_fold [OF inner] pairs by auto
qed

lemma frontend_step:
  "collects (restart_frontend active am candidate nm)
     (\<lambda>ch. \<forall>q\<in>set (packages_declaring am nm (fch_frontend ch)). unblocked (package_demands active am candidate nm q))
     (\<lambda>ch. \<Union>q\<in>set (packages_declaring am nm (fch_frontend ch)). restarting (package_demands active am candidate nm q))"
  unfolding collects_def restart_frontend_def collects_fold [OF package_step] by simp

lemma declaring_packages:
  "q \<in> set (packages_declaring am nm f) \<longleftrightarrow> (\<exists>m\<in>either sm_packages am nm. package_id m = q \<and> f \<in> pk_frontends m)"
  by (auto simp: packages_declaring_def)

definition restarts_demanded ::
    "harness \<Rightarrow> composition_metadata \<Rightarrow> harness \<Rightarrow> composition_metadata \<Rightarrow> metadata_reconciliation_error + component_id set" where
  "restarts_demanded active am candidate nm = (let d = metadata_diff_between am nm
     in rbind (try_fold (restart_changed_component active am candidate nm) {} (md_components d)) (\<lambda>R.
        rbind (try_fold (restart_package active am candidate nm) R (map pch_plugin (md_packages d))) (\<lambda>R.
          try_fold (restart_frontend active am candidate nm) R (md_frontends d))))"

lemma restarts_demanded_ok:
  assumes "snapshot_ok am" "snapshot_ok nm"
  shows "restarts_demanded active am candidate nm = Inr R \<longleftrightarrow>
    unblocked (demands active am candidate nm) \<and> R = restarting (demands active am candidate nm)"
proof -
  let ?d = "metadata_diff_between am nm"
  note ch = changed_metadata [OF assms]
  have pol: "p \<in> set (component_policies am nm c) \<longleftrightarrow>
      (\<exists>m\<in>either sm_components am nm. component_id_of m = c \<and> cx_reload m = p)" for p c
    by (auto simp: component_policies_def)
  have comps: "(\<exists>x\<in>set (md_components ?d). is_replacement (mch_kind x) \<and>
      component_survives active candidate (mch_component x) \<and> mch_component x = c \<and> p \<in> set (component_policies am nm (mch_component x)))
      \<longleftrightarrow> (c, p) \<in> component_demands active am candidate nm" for c p
    unfolding component_demands_def by (simp add: ch(1) [symmetric] pol [symmetric]) blast
  have packs: "(\<exists>x\<in>set (md_packages ?d). pch_plugin x = q) \<or> (\<exists>x\<in>set (md_frontends ?d). q \<in> set (packages_declaring am nm (fch_frontend x)))
      \<longleftrightarrow> affected_package am nm q" for q
    unfolding affected_package_def ch(2,3) [symmetric] declaring_packages by (auto simp: image_iff)
  let ?want = "\<lambda>x. if is_replacement (mch_kind x) \<and> component_survives active candidate (mch_component x) \<and>
    Restart \<in> set (component_policies am nm (mch_component x)) then {mch_component x} else {}"
  have one: "\<Union>(?want ` set (md_components ?d)) = restarting (component_demands active am candidate nm)"
    unfolding comps [symmetric] by (auto split: if_splits)
  have two: "\<Union>((\<lambda>q. restarting (package_demands active am candidate nm q)) ` set (map pch_plugin (md_packages ?d))) \<union>
      \<Union>((\<lambda>x. \<Union>q\<in>set (packages_declaring am nm (fch_frontend x)). restarting (package_demands active am candidate nm q)) `
        set (md_frontends ?d)) = (\<Union>q\<in>{q. affected_package am nm q}. restarting (package_demands active am candidate nm q))"
    unfolding packs [symmetric] by auto
  have three: "(\<forall>q\<in>set (map pch_plugin (md_packages ?d)). unblocked (package_demands active am candidate nm q)) \<and>
      (\<forall>x\<in>set (md_frontends ?d). \<forall>q\<in>set (packages_declaring am nm (fch_frontend x)).
        unblocked (package_demands active am candidate nm q)) \<longleftrightarrow>
      (\<forall>q. affected_package am nm q \<longrightarrow> unblocked (package_demands active am candidate nm q))"
    unfolding packs [symmetric] by (simp only: set_map ball_simps image_iff) blast
  have four: "(\<forall>x\<in>set (md_components ?d). is_replacement (mch_kind x) \<and> component_survives active candidate (mch_component x) \<longrightarrow>
      (\<forall>p\<in>set (component_policies am nm (mch_component x)). \<not> blocks p)) \<longleftrightarrow>
      unblocked (component_demands active am candidate nm)"
    using comps by (simp add: split_paired_Ball_Sigma Ball_def) blast
  have "restarts_demanded active am candidate nm = Inr R \<longleftrightarrow>
      unblocked (component_demands active am candidate nm) \<and>
      (\<forall>q. affected_package am nm q \<longrightarrow> unblocked (package_demands active am candidate nm q)) \<and>
      R = restarting (component_demands active am candidate nm) \<union>
        (\<Union>q\<in>{q. affected_package am nm q}. restarting (package_demands active am candidate nm q))"
    unfolding restarts_demanded_def Let_def rbind_eq_Inr collects_fold [OF component_step] collects_fold [OF package_step]
      collects_fold [OF frontend_step] three [symmetric] four [symmetric] one [symmetric] two [symmetric]
    by (simp add: Un_assoc)
  moreover have "restarting (demands active am candidate nm) = restarting (component_demands active am candidate nm) \<union>
        (\<Union>q\<in>{q. affected_package am nm q}. restarting (package_demands active am candidate nm q))"
    by (auto simp: demands_def)
  moreover have "unblocked (demands active am candidate nm) \<longleftrightarrow> unblocked (component_demands active am candidate nm) \<and>
      (\<forall>q. affected_package am nm q \<longrightarrow> unblocked (package_demands active am candidate nm q))"
    by (auto simp: demands_def)
  ultimately show ?thesis by simp
qed

subsection \<open>Derived state of resources\<close>

definition add_invalidation ::
    "composition_metadata \<Rightarrow> composition_metadata \<Rightarrow> reconciliation_action list \<Rightarrow> string \<Rightarrow> reconciliation_action list" where
  "add_invalidation am nm plan r =
     (if invalidation_targets am nm r = {} \<or> list_ex (mentions_resource r) plan then plan
      else plan @ [InvalidateResourceDerivedState r (invalidation_targets am nm r)])"

lemma mentions_iff: "list_ex (mentions_resource r) plan \<longleftrightarrow> (\<exists>ts. InvalidateResourceDerivedState r ts \<in> set plan)"
proof -
  have "mentions_resource r a \<longleftrightarrow> (\<exists>ts. a = InvalidateResourceDerivedState r ts)" for a
    by (cases a) (auto simp: mentions_resource_def)
  then show ?thesis by (auto simp: list_ex_iff)
qed

lemma resource_policy_ok:
  "apply_resource_reload_policy am nm r = Inr u \<longleftrightarrow>
     (\<forall>m\<in>either sm_resources am nm. rm_identity m = r \<longrightarrow> \<not> blocks (rm_reload m))"
  by (auto simp: apply_resource_reload_policy_def try_each_ok blocks_def split: reload_policy.splits)

lemma plan_resource_ok:
  "plan_resource am nm plan ch = Inr plan' \<longleftrightarrow>
     (is_replacement (rmc_kind ch) \<and> resource_survives am nm (rmc_resource ch) \<longrightarrow>
        (\<forall>m\<in>either sm_resources am nm. rm_identity m = rmc_resource ch \<longrightarrow> \<not> blocks (rm_reload m))) \<and>
     plan' = add_invalidation am nm plan (rmc_resource ch)"
  by (auto simp: plan_resource_def rbind_eq_Inr add_invalidation_def Let_def resource_policy_ok)

lemma plan_resources_ok:
  "try_fold (plan_resource am nm) plan chs = Inr plan' \<longleftrightarrow>
     (\<forall>ch\<in>set chs. is_replacement (rmc_kind ch) \<and> resource_survives am nm (rmc_resource ch) \<longrightarrow>
        (\<forall>m\<in>either sm_resources am nm. rm_identity m = rmc_resource ch \<longrightarrow> \<not> blocks (rm_reload m))) \<and>
     plan' = foldl (add_invalidation am nm) plan (map rmc_resource chs)"
  by (induction chs arbitrary: plan) (auto simp: rbind_eq_Inr plan_resource_ok)

lemma invalidations_extend:
  "\<exists>extra. foldl (add_invalidation am nm) plan rs = plan @ extra \<and> (\<forall>c. RestartComponent c \<notin> set extra)"
proof (induction rs arbitrary: plan)
  case (Cons r rs)
  obtain extra where "foldl (add_invalidation am nm) (add_invalidation am nm plan r) rs = add_invalidation am nm plan r @ extra"
    "\<forall>c. RestartComponent c \<notin> set extra" using Cons by blast
  moreover have "\<exists>first. add_invalidation am nm plan r = plan @ first \<and> (\<forall>c. RestartComponent c \<notin> set first)"
    by (simp add: add_invalidation_def)
  then obtain first where "add_invalidation am nm plan r = plan @ first" "\<forall>c. RestartComponent c \<notin> set first" by blast
  ultimately show ?case by (intro exI [of _ "first @ extra"]) simp
qed simp

lemma invalidations_cover:
  "r \<in> set rs \<Longrightarrow> invalidation_targets am nm r \<noteq> {} \<Longrightarrow>
     \<exists>ts. InvalidateResourceDerivedState r ts \<in> set (foldl (add_invalidation am nm) plan rs)"
proof (induction rs arbitrary: plan)
  case (Cons q rs)
  obtain extra where ext: "foldl (add_invalidation am nm) (add_invalidation am nm plan q) rs = add_invalidation am nm plan q @ extra"
    using invalidations_extend by blast
  have own: "\<exists>ts. InvalidateResourceDerivedState r ts \<in> set (add_invalidation am nm plan r)"
    using Cons.prems(2) by (auto simp: add_invalidation_def mentions_iff)
  show ?case
  proof (cases "r = q")
    case True
    with own ext show ?thesis by auto
  next
    case False
    with Cons.prems have "r \<in> set rs" by simp
    from Cons.IH [OF this Cons.prems(2)] show ?thesis by simp
  qed
qed simp

lemma resource_changes_demand:
  assumes "snapshot_ok am" "snapshot_ok nm"
  shows "(\<forall>ch\<in>set (md_resources (metadata_diff_between am nm)).
      is_replacement (rmc_kind ch) \<and> resource_survives am nm (rmc_resource ch) \<longrightarrow>
        (\<forall>m\<in>either sm_resources am nm. rm_identity m = rmc_resource ch \<longrightarrow> \<not> blocks (rm_reload m)))
    \<longleftrightarrow> unblocked (resource_demands am nm)"
proof -
  have "replaced rm_identity (sm_resources am) (sm_resources nm) r \<Longrightarrow> resource_survives am nm r" for r
    by (auto simp: replaced_def resource_survives_def list_ex_iff)
  then have "(r, p) \<in> resource_demands am nm \<longleftrightarrow> (\<exists>ch\<in>set (md_resources (metadata_diff_between am nm)).
      is_replacement (rmc_kind ch) \<and> rmc_resource ch = r) \<and> resource_survives am nm r \<and>
      (\<exists>m\<in>either sm_resources am nm. rm_identity m = r \<and> rm_reload m = p)" for r p
    using changed_metadata(5) [OF assms] by (auto simp: resource_demands_def)
  then show ?thesis by (simp add: Ball_def) blast
qed

subsection \<open>The preview as a whole\<close>

lemma preview_returns: "\<exists>g. preview_candidate active candidate = Some g"
  using restart_set_returns [of active candidate "component_changes active candidate" "{}"]
  by (auto simp: preview_candidate_def transition_plan_def diff_between_def Let_def)

lemma restarted_components_iff: "restarted_components plan = restarted plan"
proof -
  have "(case a of RestartComponent c \<Rightarrow> Some c | _ \<Rightarrow> None) = Some c \<longleftrightarrow> a = RestartComponent c" for a c
    by (cases a) auto
  then show ?thesis by (auto simp: restarted_components_def restarted_def set_filter_map)
qed

lemma finite_demanded:
  "restarts_demanded active am candidate nm = Inr R \<Longrightarrow> finite R"
proof -
  have step: "finite R \<Longrightarrow> apply_reload_policies c ps R = Inr R' \<Longrightarrow> finite R'" for c ps R R'
    by (auto simp: apply_reload_ok)
  have comp: "finite R \<Longrightarrow> restart_changed_component active am candidate nm R ch = Inr R' \<Longrightarrow> finite R'" for R ch R'
    using step by (auto simp: restart_changed_component_def apply_component_reload_policy_def split: if_splits)
  have pack: "finite R \<Longrightarrow> restart_package active am candidate nm R q = Inr R' \<Longrightarrow> finite R'" for R q R'
    unfolding restart_package_def
    by (erule try_fold_invariant) (auto simp: apply_package_reload_policy_def dest: step split: if_splits)
  have front: "finite R \<Longrightarrow> restart_frontend active am candidate nm R ch = Inr R' \<Longrightarrow> finite R'" for R ch R'
    unfolding restart_frontend_def by (erule try_fold_invariant) (auto dest: pack)
  show "restarts_demanded active am candidate nm = Inr R \<Longrightarrow> finite R"
    unfolding restarts_demanded_def Let_def rbind_eq_Inr
    using try_fold_invariant [where P = finite] comp pack front by (metis (no_types, lifting) finite.emptyI)
qed

text \<open>C29: a preview with metadata always returns. It accepts a candidate exactly when both snapshots belong to the
  generations they are given for and nothing that changed asks to be drained or migrated: not a component that survives
  and whose metadata was replaced, not the package of a surviving component when that package, or a frontend it
  declares, was added, removed or replaced, and not a replaced resource. The plan then is the plan of the graphs with
  additions: it restarts what that plan restarts and exactly the surviving components so asked to restart, and
  invalidates what is derived from every resource that differs.\<close>

theorem reload_policies_are_enforced:
  assumes "snapshot_ok am" "snapshot_ok nm"
  shows "\<exists>g r. preview_candidate active candidate = Some g \<and> preview_with_metadata active am candidate nm = Some r \<and>
    (is_ok r \<longleftrightarrow> sm_generation am = ha_generation active \<and> sm_generation nm = ha_generation candidate \<and>
       unblocked (demands active am candidate nm) \<and> unblocked (resource_demands am nm)) \<and>
    (\<forall>p. r = Inr p \<longrightarrow> (\<exists>extra. pv_plan (mp_graph p) = pv_plan g @ extra) \<and>
       restarted (pv_plan (mp_graph p)) = restarted (pv_plan g) \<union> restarting (demands active am candidate nm) \<and>
       (\<forall>x. differs rm_identity (sm_resources am) (sm_resources nm) x \<and> invalidation_targets am nm x \<noteq> {} \<longrightarrow>
          (\<exists>ts. InvalidateResourceDerivedState x ts \<in> set (pv_plan (mp_graph p)))))"
proof -
  obtain g where g: "preview_candidate active candidate = Some g" using preview_returns by blast
  let ?d = "metadata_diff_between am nm" and ?D = "demands active am candidate nm"
  let ?gens = "sm_generation am = ha_generation active \<and> sm_generation nm = ha_generation candidate"
  let ?plan = "foldl (add_invalidation am nm) (pv_plan g) (map rmc_resource (md_resources ?d))"
  obtain extra where extra: "?plan = pv_plan g @ extra" "\<forall>c. RestartComponent c \<notin> set extra" using invalidations_extend by blast
  show ?thesis
  proof (cases ?gens)
    case False
    with g show ?thesis by (auto simp: preview_with_metadata_def)
  next
    case True
    let ?r = "rbind (restarts_demanded active am candidate nm) (\<lambda>R. rbind (try_fold (plan_resource am nm) (pv_plan g) (md_resources ?d)) (\<lambda>plan.
      Inr \<lparr>mp_graph = g\<lparr>pv_plan := plan @ map RestartComponent
        (filter (\<lambda>c. c \<notin> restarted_components plan) (sorted_list_of_set R))\<rparr>, mp_metadata = ?d\<rparr>))"
    have run: "preview_with_metadata active am candidate nm = Some ?r"
      using True g by (simp add: preview_with_metadata_def restarts_demanded_def Let_def rbind_assoc)
    have ok: "?r = Inr p \<longleftrightarrow> unblocked ?D \<and> unblocked (resource_demands am nm) \<and>
        p = \<lparr>mp_graph = g\<lparr>pv_plan := ?plan @ map RestartComponent
          (filter (\<lambda>c. c \<notin> restarted ?plan) (sorted_list_of_set (restarting ?D)))\<rparr>, mp_metadata = ?d\<rparr>" for p
      unfolding rbind_eq_Inr restarts_demanded_ok [OF assms] plan_resources_ok resource_changes_demand [OF assms]
        restarted_components_iff by auto
    have fin: "finite (restarting ?D)" if "unblocked ?D"
      using finite_demanded restarts_demanded_ok [OF assms] that by blast
    let ?new = "?plan @ map RestartComponent (filter (\<lambda>c. c \<notin> restarted ?plan) (sorted_list_of_set (restarting ?D)))"
    have "restarted ?new = restarted (pv_plan g) \<union> restarting ?D" if "unblocked ?D"
      using fin [OF that] extra by (auto simp: restarted_def)
    moreover have "\<exists>ts. InvalidateResourceDerivedState x ts \<in> set ?new"
      if "differs rm_identity (sm_resources am) (sm_resources nm) x" "invalidation_targets am nm x \<noteq> {}" for x
      using invalidations_cover [of x "map rmc_resource (md_resources ?d)" am nm "pv_plan g"] that
        changed_metadata(4) [OF assms, of x] by auto
    moreover have "\<exists>more. ?new = pv_plan g @ more" unfolding extra(1) by simp
    ultimately have new: "unblocked ?D \<Longrightarrow> (\<exists>more. ?new = pv_plan g @ more) \<and>
        restarted ?new = restarted (pv_plan g) \<union> restarting ?D \<and>
        (\<forall>x. differs rm_identity (sm_resources am) (sm_resources nm) x \<and> invalidation_targets am nm x \<noteq> {} \<longrightarrow>
          (\<exists>ts. InvalidateResourceDerivedState x ts \<in> set ?new))"
      by blast
    have "is_ok ?r \<longleftrightarrow> unblocked ?D \<and> unblocked (resource_demands am nm)" using ok by (simp only: is_ok_iff) blast
    with g run True new ok show ?thesis
      by (intro exI [of _ g] exI [of _ ?r]) (simp only: simp_thms, simp)
  qed
qed

definition one_component :: "string \<Rightarrow> harness" where
  "one_component g = (sample_harness [(''c'', [])])\<lparr>ha_generation := g, ha_components := [\<lparr>cm_id = ''c'', cm_owner = ''p'',
     cm_imports = [], cm_exports = [], cm_listeners = [], cm_maximum = {}\<rparr>]\<rparr>"

definition one_snapshot :: "string \<Rightarrow> nat \<Rightarrow> composition_metadata" where
  "one_snapshot g v = \<lparr>sm_generation = g, sm_packages = [], sm_components = [\<lparr>cx_manifest = hd (ha_components (one_component g)),
     cx_version = v, cx_contracts = {}, cx_requested = {}, cx_state = Stateless, cx_reload = Restart, cx_interposition = {},
     cx_events = {}, cx_controllers = {}\<rparr>], sm_frontends = [], sm_resources = [(sample_resource ''q'' {})\<lparr>rm_version := v\<rparr>]\<rparr>"

theorem reload_policies_are_enforced_witness:
  "\<exists>p. preview_with_metadata (one_component ''g'') (one_snapshot ''g'' 1) (one_component ''h'') (one_snapshot ''h'' 2) = Some (Inr p) \<and>
     ''c'' \<in> restarted (pv_plan (mp_graph p))"
proof -
  have ok: "snapshot_ok (one_snapshot g v)" for g v by (simp add: snapshot_ok_def one_snapshot_def)
  let ?D = "demands (one_component ''g'') (one_snapshot ''g'' 1) (one_component ''h'') (one_snapshot ''h'' 2)"
  have "?D = {(''c'', Restart)}"
    by (auto simp: demands_def component_demands_def package_demands_def affected_package_def one_snapshot_def one_component_def
        component_survives_def replaced_def differs_def)
  moreover have "unblocked (resource_demands (one_snapshot ''g'' 1) (one_snapshot ''h'' 2))"
    by (auto simp: resource_demands_def one_snapshot_def sample_resource_def blocks_def)
  moreover have "sm_generation (one_snapshot g v) = ha_generation (one_component g)" for g v
    by (simp add: one_snapshot_def one_component_def)
  ultimately show ?thesis
    using reload_policies_are_enforced [OF ok ok, of "one_component ''g''" "one_component ''h''" "''g''" 1 "''h''" 2]
    by (auto simp: blocks_def is_ok_iff)
qed

end
