(* ===== verification/Live_Reconciliation.thy ===== *)
theory Live_Reconciliation
  imports Kernel_Lifecycle_Safety Store_Preparation Metadata_Reconciliation
begin

text \<open>
  A resolved harness on a live kernel (\<open>phenix-core/src/activation.rs\<close> and \<open>live_reconciliation.rs\<close>): stable activation,
  which installs a generation once, and the activation of a candidate by the reconciler, which checks that kernel and
  reconciler stand for the same generation, previews the transition, and replaces the generation of the kernel before
  its own.
\<close>

subsection \<open>Stable activation\<close>

datatype activation_error =
  KernelConfigurationMismatch "plugin_id list" "plugin_id list"
| KernelPluginManifestMismatch plugin_id plugin_manifest plugin_manifest
| KernelLayerPolicyMismatch service_id "layer_policy list" "layer_policy list"
| DifferentGenerationAlreadyActive graph_generation_id graph_generation_id
| DurableSchemaPreparation kernel_error

definition check_layer_policy :: "kernel_config \<Rightarrow> harness \<Rightarrow> service_id \<Rightarrow> activation_error + unit" where
  "check_layer_policy c h s =
     (if layer_policies c s \<noteq> layers_of (ha_layers h) s
      then Inl (KernelLayerPolicyMismatch s (layer_policies c s) (layers_of (ha_layers h) s)) else Inr ())"

definition validate_harness_configuration :: "kernel_config \<Rightarrow> harness \<Rightarrow> activation_error + unit" where
  "validate_harness_configuration c h =
     (let manifests = bt_vals (kc_manifests c)
      in if map pm_id manifests \<noteq> map pm_id (ha_plugins h)
         then Inl (KernelConfigurationMismatch (map pm_id manifests) (map pm_id (ha_plugins h)))
         else rbind (try_each (\<lambda>(a, b). if a \<noteq> b then Inl (KernelPluginManifestMismatch (pm_id a) a b) else Inr ())
             (zip manifests (ha_plugins h))) (\<lambda>_.
           try_each (check_layer_policy c h) (sorted_list_of_set
             (sc_service ` set (concat (map pm_services manifests)) \<union> set (bt_keys (ha_layers h))))))"

definition check_active_generation :: "('i, 'h) kernel \<Rightarrow> harness \<Rightarrow> activation_error + unit" where
  "check_active_generation k h =
     (case kn_generation k of
        Some active \<Rightarrow>
          if active \<noteq> ha_generation h then Inl (DifferentGenerationAlreadyActive active (ha_generation h)) else Inr ()
      | None \<Rightarrow> Inr ())"

definition activate_resolved_harness ::
    "string \<Rightarrow> fault \<Rightarrow> harness \<Rightarrow> ('i, 'h) kernel \<Rightarrow> database \<Rightarrow> (activation_error + unit) \<times> ('i, 'h) kernel \<times> database" where
  "activate_resolved_harness engine fault h k d =
     (case rbind (validate_harness_configuration (kn_config k) h) (\<lambda>_. check_active_generation k h) of
        Inl e \<Rightarrow> (Inl e, k, d)
      | Inr _ \<Rightarrow>
          (case prepare_durable_schemas engine fault (kn_config k) (ha_schemas h) d of
             (Inl e, d) \<Rightarrow> (Inl (DurableSchemaPreparation e), k, d)
           | (Inr _, d) \<Rightarrow> (Inr (), install_resolved_graph (ha_generation h) (ha_graph h) (ha_resources h) k, d)))"

record active_graph =
  ag_generation :: graph_generation_id
  ag_graph :: component_graph
  ag_resources :: "resource_metadata list"

definition active_graph_of :: "harness \<Rightarrow> active_graph" where
  "active_graph_of h = \<lparr>ag_generation = ha_generation h, ag_graph = ha_graph h, ag_resources = ha_resources h\<rparr>"

definition active_listeners :: "active_graph \<Rightarrow> (graph_generation_id \<times> resolved_listener) list" where
  "active_listeners a = map (Pair (ag_generation a)) (cg_listeners (ag_graph a))"

definition active_resolved_graph :: "('i, 'h) kernel \<Rightarrow> active_graph option" where
  "active_resolved_graph k = map_option (\<lambda>g. \<lparr>ag_generation = g, ag_graph = kn_graph k, ag_resources = kn_resources k\<rparr>)
     (kn_generation k)"

subsection \<open>Candidates on a live kernel\<close>

text \<open>The two branches of the translation of errors that are declared unreachable panic.\<close>

datatype live_error =
  NoActiveGeneration
| LiveGenerationMismatch graph_generation_id graph_generation_id
| LiveConfigurationMismatch "plugin_id list" "plugin_id list"
| LivePluginManifestMismatch plugin_id plugin_manifest plugin_manifest
| LiveLayerPolicyMismatch service_id "layer_policy list" "layer_policy list"
| MetadataPolicy metadata_reconciliation_error
| LiveRuntime lifecycle_error
| LivePanic

fun map_activation_error :: "activation_error \<Rightarrow> live_error" where
  "map_activation_error (KernelConfigurationMismatch a b) = LiveConfigurationMismatch a b"
| "map_activation_error (KernelPluginManifestMismatch p a b) = LivePluginManifestMismatch p a b"
| "map_activation_error (KernelLayerPolicyMismatch s a b) = LiveLayerPolicyMismatch s a b"
| "map_activation_error (DifferentGenerationAlreadyActive a b) = LivePanic"
| "map_activation_error (DurableSchemaPreparation e) = LivePanic"

definition validate_live_reconciliation :: "harness \<Rightarrow> ('i, 'h) kernel \<Rightarrow> live_error + unit" where
  "validate_live_reconciliation active k =
     (case kn_generation k of
        None \<Rightarrow> Inl NoActiveGeneration
      | Some g \<Rightarrow>
          if g \<noteq> ha_generation active then Inl (LiveGenerationMismatch g (ha_generation active))
          else map_err map_activation_error (validate_harness_configuration (kn_config k) active))"

definition owner_in :: "harness \<Rightarrow> harness \<Rightarrow> component_id \<Rightarrow> plugin_id option" where
  "owner_in active candidate c =
     map_option cm_owner (find (\<lambda>m. cm_id m = c) (ha_components candidate @ ha_components active))"

definition restart_plugins_for_plan :: "harness \<Rightarrow> harness \<Rightarrow> reconciliation_action list \<Rightarrow> plugin_id set" where
  "restart_plugins_for_plan active candidate plan = set (filter_map (\<lambda>a. case a of
       ActivateComponent c \<Rightarrow> owner_in active candidate c
     | StopComponent c \<Rightarrow> owner_in active candidate c
     | RestartComponent c \<Rightarrow> owner_in active candidate c
     | _ \<Rightarrow> None) plan)"

type_synonym ('w, 'i, 'h) live = "harness \<times> ('i, 'h) kernel \<times> ('w, 'i) world"

text \<open>The end of both operations: the kernel first, then the reconciler.\<close>

definition replace_live_generation ::
    "('w, 'i, 'h) hooks \<Rightarrow> harness \<Rightarrow> harness \<Rightarrow> reconciliation_action list \<Rightarrow> ('i, 'h) kernel \<Rightarrow> ('w, 'i) world
     \<Rightarrow> ((live_error + reconciliation_result) \<times> ('w, 'i, 'h) live) option" where
  "replace_live_generation hk active candidate plan k w =
     (case reconcile_generation hk candidate (restart_plugins_for_plan active candidate plan) k w of
        (Inl e, k', w') \<Rightarrow> Some (Inl (LiveRuntime e), active, k', w')
      | (Inr _, k', w') \<Rightarrow>
          map_option (\<lambda>(result, active'). (Inr result, active', k', w')) (activate_candidate active candidate))"

definition activate_candidate_on_kernel ::
    "('w, 'i, 'h) hooks \<Rightarrow> harness \<Rightarrow> ('i, 'h) kernel \<Rightarrow> ('w, 'i) world
     \<Rightarrow> harness \<Rightarrow> ((live_error + reconciliation_result) \<times> ('w, 'i, 'h) live) option" where
  "activate_candidate_on_kernel hk candidate k w active =
     (case validate_live_reconciliation active k of
        Inl e \<Rightarrow> Some (Inl e, active, k, w)
      | Inr _ \<Rightarrow> Option.bind (preview_candidate active candidate) (\<lambda>g.
          replace_live_generation hk active candidate (pv_plan g) k w))"

definition activate_candidate_with_metadata ::
    "('w, 'i, 'h) hooks \<Rightarrow> composition_metadata \<Rightarrow> harness \<Rightarrow> composition_metadata \<Rightarrow> ('i, 'h) kernel \<Rightarrow> ('w, 'i) world
     \<Rightarrow> harness \<Rightarrow> ((live_error + reconciliation_result) \<times> ('w, 'i, 'h) live) option" where
  "activate_candidate_with_metadata hk am candidate nm k w active =
     (case validate_live_reconciliation active k of
        Inl e \<Rightarrow> Some (Inl e, active, k, w)
      | Inr _ \<Rightarrow> Option.bind (preview_with_metadata active am candidate nm) (\<lambda>r. case r of
            Inl e \<Rightarrow> Some (Inl (MetadataPolicy e), active, k, w)
          | Inr p \<Rightarrow> map_option (\<lambda>(r, s). (map_sum (\<lambda>e. e) (\<lambda>result. result\<lparr>rr_plan := pv_plan (mp_graph p)\<rparr>) r, s))
              (replace_live_generation hk active candidate (pv_plan (mp_graph p)) k w)))"

subsection \<open>Resolved harnesses\<close>

definition installable :: "harness \<Rightarrow> bool" where
  "installable h \<longleftrightarrow> config_ok (ha_plugins h) (ha_kernel h) \<and> bt_vals (kc_manifests (ha_kernel h)) = ha_plugins h \<and>
     kc_layers (ha_kernel h) = ha_layers h \<and> bt_ok (ha_layers h)"

text \<open>A harness that some resolution returned, with or without metadata, or the change of such a one to another plugin set.\<close>

inductive resolved :: "harness \<Rightarrow> bool" where
  resolved_new: "bt_ok (in_layers inputs) \<Longrightarrow> \<forall>r\<in>set (in_resources inputs). finite_resource r \<Longrightarrow>
    resolve_with_inputs digest n pms cms inputs ceiling = Some (Inr h) \<Longrightarrow> resolved h"
| resolved_metadata: "resolved h \<Longrightarrow> resolved (h\<lparr>ha_generation := g\<rparr>)"
| resolved_plugin_set: "resolved h \<Longrightarrow> with_plugin_set digest n h plugins components ceiling = Some (Inr h') \<Longrightarrow> resolved h'"

lemma config_new_manifests: "config_new i ms = Some (Inr c) \<Longrightarrow> bt_index pm_id [] ms = Inr (kc_manifests c)"
  by (auto simp: config_new_def prepare_config_def rbind_eq_Inr map_err_eq_Inr map_sum_def split: sum.splits option.splits)

lemma assembled_manifests:
  assumes "assemble digest i ps cs rs res conf layers policy ceiling = Some (Inr h)" "bt_ok layers"
  shows "bt_vals (kc_manifests (ha_kernel h)) = sort_key pm_id ps"
proof -
  from assms(1) obtain c where c: "config_new i ps = Some (Inr c)" "kc_manifests (ha_kernel h) = kc_manifests c"
    by (auto simp: assemble_def rbind_eq_Inr map_err_eq_Inr split: option.splits sum.splits dest!: with_layers_fields)
  from index_sorted [OF config_new_manifests [OF c(1)]] c(2) show ?thesis by simp
qed

lemma assembled_installable:
  assumes "assemble digest i (sort_key pm_id ps) cs rs res conf layers policy ceiling = Some (Inr h)" "bt_ok layers"
  shows "installable h"
proof -
  from assemble_cases [OF assms(2), of digest i "sort_key pm_id ps" cs rs res conf policy ceiling] assms(1)
  have "assembled digest ceiling h" "ha_plugins h = sort_key pm_id ps" "ha_layers h = layers" by auto
  with assembled_manifests [OF assms] assms(2) show ?thesis
    by (simp add: installable_def assembled_def sort_key_id_if_sorted)
qed

lemma resolved_installable: "resolved h \<Longrightarrow> installable h"
proof (induction rule: resolved.induct)
  case (resolved_new inputs digest n pms cms ceiling h)
  then obtain resources conf where "assemble digest n (sort_key pm_id pms) (sort_key cm_id cms) (in_schemas inputs) resources
      conf (sort_layers (in_layers inputs)) (in_policy inputs) ceiling = Some (Inr h)"
    by (auto simp: resolve_with_inputs_def Let_def rbind_eq_Inr split: sum.splits)
  with resolved_new(1) show ?case using assembled_installable by (simp add: sort_layers_ok)
next
  case (resolved_metadata h g)
  then show ?case by (simp add: installable_def)
next
  case (resolved_plugin_set h digest n plugins components ceiling h')
  then have "bt_ok (ha_layers h)" by (simp add: installable_def)
  with resolved_plugin_set(2) show ?case using assembled_installable by (simp add: with_plugin_set_def)
qed

subsection \<open>One attempt\<close>

lemma validate_errors:
  "validate_harness_configuration c h = Inl e \<Longrightarrow> map_activation_error e \<noteq> LivePanic"
  by (auto simp: validate_harness_configuration_def Let_def rbind_eq_Inl check_layer_policy_def
      split: if_splits prod.splits dest!: try_each_err)

lemma validate_own:
  assumes "installable h"
  shows "validate_harness_configuration (ha_kernel h) h = Inr ()"
proof -
  have "\<forall>(a, b)\<in>set (zip xs xs). a = b" for xs :: "plugin_manifest list" by (auto simp: zip_same_conv_map)
  then show ?thesis using assms
    by (fastforce simp: validate_harness_configuration_def Let_def installable_def check_layer_policy_def layer_policies_def
        layers_of_def rbind_eq_Inr try_each_ok split: prod.splits)
qed

definition stands_for :: "('i, 'h) kernel \<Rightarrow> harness \<Rightarrow> bool" where
  "stands_for k h \<longleftrightarrow> active_resolved_graph k = Some (active_graph_of h) \<and>
     validate_harness_configuration (kn_config k) h = Inr ()"

lemma stands_for_valid: "stands_for k h \<Longrightarrow> validate_live_reconciliation h k = Inr ()"
  by (auto simp: stands_for_def validate_live_reconciliation_def active_resolved_graph_def active_graph_of_def)

lemma stands_for_frame:
  assumes "kn_generation k' = kn_generation k" "kn_graph k' = kn_graph k" "kn_resources k' = kn_resources k"
    "kn_config k' = kn_config k"
  shows "stands_for k' h = stands_for k h"
  using assms by (simp add: stands_for_def active_resolved_graph_def)

lemma stands_for_same: "same_kernel k k' \<Longrightarrow> stands_for k' h = stands_for k h"
proof -
  have "stands_for (k\<lparr>kn_prepared := ps\<rparr>) h = stands_for k h" for ps by (rule stands_for_frame) simp_all
  then show "same_kernel k k' \<Longrightarrow> ?thesis" unfolding same_kernel_def by metis
qed

text \<open>The plugins whose components a plan restarts are started anew.\<close>

definition renews :: "harness \<Rightarrow> harness \<Rightarrow> ('i, 'h) kernel \<Rightarrow> ('i, 'h) kernel \<Rightarrow> reconciliation_action list \<Rightarrow> bool" where
  "renews active candidate k k' plan \<longleftrightarrow> (kn_active k \<longrightarrow> (\<forall>c\<in>restarted plan. \<forall>p.
     owner_in active candidate c = Some p \<and> manifest_of (ha_kernel candidate) p \<noteq> None \<longrightarrow>
       PluginActivated p \<in> set (drop (length (kn_published k)) (kn_published k'))))"

lemma restart_plugins_finite: "finite (restart_plugins_for_plan active candidate plan)"
  by (simp add: restart_plugins_for_plan_def)

lemma restart_plugins_cover:
  "c \<in> restarted plan \<Longrightarrow> owner_in active candidate c = Some p \<Longrightarrow> p \<in> restart_plugins_for_plan active candidate plan"
  by (force simp: restart_plugins_for_plan_def restarted_def set_filter_map)

lemma closure_extends: "finite requested \<Longrightarrow> requested \<subseteq> runtime_restart_closure a c requested"
  using close_loop_least [of "requested \<union> changed_plugins a c" "kc_bindings a" "bt_vals (kc_bindings c)"]
  by (auto simp: runtime_restart_closure_def changed_plugins_def)

definition attempt_ok ::
    "harness \<Rightarrow> ('i, 'h) kernel \<Rightarrow> ('w, 'i) world \<Rightarrow> harness
     \<Rightarrow> (live_error + reconciliation_result) \<times> ('w, 'i, 'h) live \<Rightarrow> bool" where
  "attempt_ok active k w candidate t = (case t of (r, active', k', w') \<Rightarrow> (case r of
       Inl e \<Rightarrow> active' = active \<and> e \<noteq> LivePanic \<and> e \<noteq> LiveRuntime LcPanic \<and> nothing_left k w k' w' \<and>
         ((\<forall>e'. e \<noteq> LiveRuntime e') \<longrightarrow> k' = k \<and> w' = w)
     | Inr result \<Rightarrow> active' = candidate \<and> stands_for k' candidate \<and> kn_config k' = ha_kernel candidate \<and>
         rr_previous result = ha_generation active \<and> rr_active result = ha_generation candidate \<and>
         renews active candidate k k' (rr_plan result)))"

lemma replace_live_facts:
  assumes "kernel_ok k" "installable candidate"
  shows "\<exists>t. replace_live_generation hk active candidate plan k w = Some t \<and>
    attempt_ok active k w candidate (case t of (r, s) \<Rightarrow> (map_sum (\<lambda>e. e) (\<lambda>res. res\<lparr>rr_plan := plan\<rparr>) r, s))"
proof -
  let ?R = "restart_plugins_for_plan active candidate plan"
  have cfg: "config_ok (ha_plugins candidate) (ha_kernel candidate)" using assms(2) by (simp add: installable_def)
  obtain r k' w' where run: "reconcile_generation hk candidate ?R k w = (r, k', w')" by (metis prod_cases3)
  note f = reconcile_facts [OF run cfg assms(1)]
  show ?thesis
  proof (cases r)
    case (Inl e)
    with f run show ?thesis by (simp add: replace_live_generation_def attempt_ok_def)
  next
    case (Inr u)
    then obtain s where s: "staged_for candidate ?R k s" "committed candidate ?R k s k'" using f by auto
    obtain g where g: "preview_candidate active candidate = Some g" using preview_returns by blast
    have ids: "pv_active g = ha_generation active" "pv_candidate g = ha_generation candidate"
      using g by (auto simp: preview_candidate_def Let_def)
    have k': "stands_for k' candidate" "kn_config k' = ha_kernel candidate"
      using s(2) validate_own [OF assms(2)]
      by (auto simp: committed_def stands_for_def active_resolved_graph_def active_graph_of_def)
    have "renews active candidate k k' plan"
      unfolding renews_def
    proof (intro impI ballI allI, elim conjE)
      fix c p assume c: "kn_active k" "c \<in> restarted plan" "owner_in active candidate c = Some p"
        "manifest_of (ha_kernel candidate) p \<noteq> None"
      have "p \<in> restarts candidate ?R k"
        using closure_extends [OF restart_plugins_finite] restart_plugins_cover [OF c(2,3)] by blast
      then have "p \<in> set (renewed candidate ?R k)"
        using c(1,4) cfg by (auto simp: renewed_def retained_def config_ok_def activation_ok_def manifest_of_def bt_has_def
            simp flip: bt_has_iff)
      moreover have "st_staged s = renewed candidate ?R k" by (rule staged_for_facts(3) [OF s(1) cfg])
      ultimately show "PluginActivated p \<in> set (drop (length (kn_published k)) (kn_published k'))"
        using s(2) by (auto simp: committed_def)
    qed
    with run Inr g ids k' show ?thesis
      by (simp add: replace_live_generation_def attempt_ok_def activate_candidate_def result_of_preview_def)
  qed
qed

lemma preview_with_metadata_returns: "\<exists>r. preview_with_metadata active am candidate nm = Some r"
proof -
  obtain g where "preview_candidate active candidate = Some g" using preview_returns by blast
  then show ?thesis by (simp add: preview_with_metadata_def)
qed

lemma attempt_facts:
  assumes "kernel_ok k" "installable candidate"
    "attempt = activate_candidate_on_kernel hk candidate k w active \<or>
     attempt = activate_candidate_with_metadata hk am candidate nm k w active"
  shows "\<exists>t. attempt = Some t \<and> attempt_ok active k w candidate t"
proof (cases "validate_live_reconciliation active k")
  case (Inl e)
  have "e \<noteq> LivePanic \<and> e \<noteq> LiveRuntime LcPanic"
    using Inl validate_errors [of "kn_config k" active]
    by (auto simp: validate_live_reconciliation_def map_err_eq_Inl split: option.splits if_splits)
      (metis map_activation_error.elims live_error.distinct)
  with Inl assms(3) show ?thesis
    by (auto simp: activate_candidate_on_kernel_def activate_candidate_with_metadata_def attempt_ok_def nothing_left_def
        logs_def starts_ready_def)
next
  case (Inr u)
  note f = replace_live_facts [OF assms(1,2), of hk active _ w]
  obtain g where g: "preview_candidate active candidate = Some g" using preview_returns by blast
  from assms(3) show ?thesis
  proof
    assume a: "attempt = activate_candidate_on_kernel hk candidate k w active"
    obtain t where t: "replace_live_generation hk active candidate (pv_plan g) k w = Some t" "attempt_ok active k w candidate
        (case t of (r, s) \<Rightarrow> (map_sum (\<lambda>e. e) (\<lambda>res. res\<lparr>rr_plan := pv_plan g\<rparr>) r, s))" using f by blast
    have "map_sum (\<lambda>e. e) (\<lambda>res. res\<lparr>rr_plan := pv_plan g\<rparr>) (fst t) = fst t"
      using t(1) g by (auto simp: replace_live_generation_def activate_candidate_def result_of_preview_def split: prod.splits sum.splits)
    with t a Inr g show ?thesis by (cases t) (simp add: activate_candidate_on_kernel_def)
  next
    assume a: "attempt = activate_candidate_with_metadata hk am candidate nm k w active"
    obtain r where r: "preview_with_metadata active am candidate nm = Some r"
      using preview_with_metadata_returns by blast
    show ?thesis
    proof (cases r)
      case (Inl e)
      with a r Inr show ?thesis
        by (simp add: activate_candidate_with_metadata_def attempt_ok_def nothing_left_def logs_def starts_ready_def)
    next
      case (Inr p)
      obtain t where "replace_live_generation hk active candidate (pv_plan (mp_graph p)) k w = Some t"
        "attempt_ok active k w candidate (case t of (r, s) \<Rightarrow>
           (map_sum (\<lambda>e. e) (\<lambda>res. res\<lparr>rr_plan := pv_plan (mp_graph p)\<rparr>) r, s))" using f by blast
      with a r Inr \<open>validate_live_reconciliation active k = Inr u\<close> show ?thesis
        by (simp add: activate_candidate_with_metadata_def)
    qed
  qed
qed

text \<open>C30: activating a resolved candidate on a live kernel, with its metadata or without, always returns and never
  panics. When it fails the reconciler keeps its harness, the kernel keeps everything but the instances prepared in
  advance, whatever the attempt started was stopped again, last first, and a refusal before the kernel is asked touches
  nothing at all. When it succeeds reconciler and kernel both stand for the candidate, and every plugin with a
  component that the reported plan restarts was started anew.\<close>

theorem live_attempt_is_all_or_nothing:
  assumes "kernel_ok k" "resolved candidate"
    "attempt = activate_candidate_on_kernel hk candidate k w active \<or>
     attempt = activate_candidate_with_metadata hk am candidate nm k w active"
  shows "\<exists>r active' k' w'. attempt = Some (r, active', k', w') \<and> (case r of
      Inl e \<Rightarrow> active' = active \<and> e \<noteq> LivePanic \<and> e \<noteq> LiveRuntime LcPanic \<and> k' = k\<lparr>kn_prepared := kn_prepared k'\<rparr> \<and>
        (\<exists>xs. wo_log w' = wo_log w @ xs \<and> stops_of xs = rev (starts_of xs)) \<and>
        ((\<forall>e'. e \<noteq> LiveRuntime e') \<longrightarrow> k' = k \<and> w' = w)
    | Inr result \<Rightarrow> active' = candidate \<and> active_resolved_graph k' = Some (active_graph_of candidate) \<and>
        kn_config k' = ha_kernel candidate \<and> validate_live_reconciliation candidate k' = Inr () \<and>
        rr_previous result = ha_generation active \<and> rr_active result = ha_generation candidate \<and>
        renews active candidate k k' (rr_plan result))"
proof -
  from attempt_facts [OF assms(1) resolved_installable [OF assms(2)] assms(3)] obtain t
    where t: "attempt = Some t" "attempt_ok active k w candidate t" by blast
  obtain r active' k' w' where "t = (r, active', k', w')" by (metis prod_cases4)
  with t show ?thesis
    by (cases r) (auto simp: attempt_ok_def nothing_left_def same_kernel_def logs_def stands_for_valid stands_for_def)
qed

subsection \<open>Histories\<close>

text \<open>What a live harness goes through: candidates, stable activations, and everything the kernel does by itself. A
  digest tells contents apart: a stable activation of the generation that is active brings the same content.\<close>

inductive live_step ::
    "('w, 'i, 'h) hooks \<Rightarrow> ('w, 'i, 'h) live \<times> database \<Rightarrow> ('w, 'i, 'h) live \<times> database \<Rightarrow> bool" for hk where
  live_candidate: "resolved candidate \<Longrightarrow> activate_candidate_on_kernel hk candidate k w active = Some (r, s) \<Longrightarrow>
    live_step hk ((active, k, w), d) (s, d)"
| live_metadata: "resolved candidate \<Longrightarrow> activate_candidate_with_metadata hk am candidate nm k w active = Some (r, s) \<Longrightarrow>
    live_step hk ((active, k, w), d) (s, d)"
| live_stable: "(ha_generation h = ha_generation active \<Longrightarrow> active_graph_of h = active_graph_of active) \<Longrightarrow>
    activate_resolved_harness engine fault h k d = (res, k', d') \<Longrightarrow>
    live_step hk ((active, k, w), d) ((active, k', w), d')"
| live_activate: "activate_all hk k w = (res, k', w') \<Longrightarrow> live_step hk ((active, k, w), d) ((active, k', w'), d)"
| live_stop: "kernel_stop hk p k w = (res, k', w') \<Longrightarrow> live_step hk ((active, k, w), d) ((active, k', w'), d)"
| live_factory: "live_step hk ((active, k, w), d) ((active, preload_embedded_factory p k, w), d)"
| live_instance: "live_step hk ((active, k, w), d) ((active, preload_embedded_instance p i k, w), d)"
| live_other: "live_step hk ((active, k, w), d) ((active, k, w\<lparr>wo_tasks := ts, wo_rest := x\<rparr>), d')"

inductive live_reach :: "('w, 'i, 'h) hooks \<Rightarrow> ('w, 'i, 'h) live \<times> database \<Rightarrow> bool" for hk where
  live_start: "config_ok ms c \<Longrightarrow> wo_log w = [] \<Longrightarrow>
    activate_resolved_harness engine fault h (kernel_new c) d = (Inr (), k, d') \<Longrightarrow> live_reach hk ((h, k, w), d')"
| live_next: "live_reach hk s \<Longrightarrow> live_step hk s s' \<Longrightarrow> live_reach hk s'"

definition live_ok :: "('w, 'i, 'h) live \<times> database \<Rightarrow> bool" where
  "live_ok s = (case s of ((active, k, w), d) \<Rightarrow> history_ok (k, w) \<and> stands_for k active)"

lemma stable_activation_cases:
  assumes "activate_resolved_harness engine fault h k d = (r, k', d')"
  shows "case r of Inl e \<Rightarrow> k' = k | Inr _ \<Rightarrow> k' = install_resolved_graph (ha_generation h) (ha_graph h) (ha_resources h) k \<and>
    validate_harness_configuration (kn_config k) h = Inr () \<and> (\<forall>g. kn_generation k = Some g \<longrightarrow> g = ha_generation h)"
proof (cases "rbind (validate_harness_configuration (kn_config k) h) (\<lambda>_. check_active_generation k h)")
  case (Inl e)
  with assms have "r = Inl e" "k' = k" by (simp_all add: activate_resolved_harness_def)
  then show ?thesis by simp
next
  case (Inr u)
  then have v: "validate_harness_configuration (kn_config k) h = Inr ()" "check_active_generation k h = Inr ()"
    by (simp_all add: rbind_eq_Inr)
  from v(2) have "\<forall>g. kn_generation k = Some g \<longrightarrow> g = ha_generation h"
    by (simp add: check_active_generation_def split: option.splits if_splits)
  moreover obtain q d1 where "prepare_durable_schemas engine fault (kn_config k) (ha_schemas h) d = (q, d1)" by fastforce
  ultimately show ?thesis
    using assms [symmetric] v(1) Inr by (cases q) (simp_all add: activate_resolved_harness_def)
qed

lemma attempt_history:
  assumes "activate_candidate_on_kernel hk candidate k w active = Some (r, a', k', w') \<or>
     activate_candidate_with_metadata hk am candidate nm k w active = Some (r, a', k', w')"
    "installable candidate" "history_ok (k, w)"
  shows "history_ok (k', w')"
proof -
  have cfg: "config_ok (ha_plugins candidate) (ha_kernel candidate)" using assms(2) by (simp add: installable_def)
  have run: "replace_live_generation hk active candidate plan k w = Some (q, a', k', w') \<Longrightarrow> history_ok (k', w')" for plan q
    by (auto simp: replace_live_generation_def split: prod.splits sum.splits intro: reconcile_ok [OF _ cfg assms(3)])
  show ?thesis
  proof (cases "validate_live_reconciliation active k")
    case (Inl e)
    with assms(1,3) show ?thesis by (auto simp: activate_candidate_on_kernel_def activate_candidate_with_metadata_def)
  next
    case (Inr u)
    from assms(1) show ?thesis
    proof
      assume "activate_candidate_on_kernel hk candidate k w active = Some (r, a', k', w')"
      with Inr run show ?thesis by (auto simp: activate_candidate_on_kernel_def bind_eq_Some_conv)
    next
      assume a: "activate_candidate_with_metadata hk am candidate nm k w active = Some (r, a', k', w')"
      obtain q where "preview_with_metadata active am candidate nm = Some q" using preview_with_metadata_returns by blast
      with a Inr assms(3) show ?thesis
        by (cases q) (auto simp: activate_candidate_with_metadata_def dest: run)
    qed
  qed
qed

lemma attempt_live_ok:
  assumes "activate_candidate_on_kernel hk candidate k w active = Some (r, s) \<or>
     activate_candidate_with_metadata hk am candidate nm k w active = Some (r, s)"
    "resolved candidate" "live_ok ((active, k, w), d)"
  shows "live_ok (s, d)"
proof -
  obtain a' k' w' where s: "s = (a', k', w')" by (metis prod_cases3)
  have ok: "history_ok (k, w)" "stands_for k active" using assms(3) by (simp_all add: live_ok_def)
  have "history_ok (k', w')"
    using attempt_history assms(1) resolved_installable [OF assms(2)] ok(1) unfolding s by blast
  moreover have k: "kernel_ok k" using ok(1) by (simp add: history_ok_def)
  have "attempt_ok active k w candidate (r, s)"
    using assms(1)
  proof
    assume "activate_candidate_on_kernel hk candidate k w active = Some (r, s)"
    with attempt_facts [OF k resolved_installable [OF assms(2)] disjI1 [OF refl], of hk w active] show ?thesis by simp
  next
    assume "activate_candidate_with_metadata hk am candidate nm k w active = Some (r, s)"
    with attempt_facts [OF k resolved_installable [OF assms(2)] disjI2 [OF refl], of hk am nm w active] show ?thesis by simp
  qed
  then have "stands_for k' a'"
    using ok(2) stands_for_same [of k k'] unfolding s attempt_ok_def nothing_left_def by (auto split: sum.splits)
  ultimately show ?thesis by (simp add: live_ok_def s)
qed

text \<open>in every history that begins with a stable activation of a resolved harness and goes on with candidates,
  with metadata or without, further stable activations, activation and stopping of plugins, whether they fail or not,
  the kernel stands for the active harness of the reconciler: same generation, graph and resources, and the manifests
  and layer policies of its configuration. So no candidate is ever refused because the two disagree, and a stable
  activation of any other generation is always refused.\<close>

lemma live_history_stays_in_step:
  assumes "live_reach hk ((active, k, w), d)"
  shows "active_resolved_graph k = Some (active_graph_of active) \<and>
    validate_harness_configuration (kn_config k) active = Inr () \<and> validate_live_reconciliation active k = Inr () \<and>
    (ha_generation h \<noteq> ha_generation active \<longrightarrow>
       (\<exists>e. activate_resolved_harness engine fault h k d = (Inl e, k, d)))"
proof -
  have step: "live_ok s'" if "live_step hk s s'" "live_ok s" for s s'
    using that(1)
  proof cases
    case live_candidate
    with that(2) attempt_live_ok show ?thesis by blast
  next
    case live_metadata
    with that(2) attempt_live_ok show ?thesis by blast
  next
    case (live_stable h active engine fault k d res k' d' w)
    with that(2) stable_activation_cases [OF live_stable(4)] show ?thesis
      by (auto simp: live_ok_def history_ok_def stands_for_def active_resolved_graph_def active_graph_of_def
          install_resolved_graph_def kernel_ok_def running_started_def split: sum.splits)
  next
    case (live_activate k w res k' w' active d)
    with that(2) have h: "history_ok (k, w)" "stands_for k active" "kernel_ok k" by (simp_all add: live_ok_def history_ok_def)
    from activate_facts [OF live_activate(3) h(3)] have "stands_for k' active"
      using h(2) stands_for_same [of k k'] stands_for_frame [of k' k]
      by (auto simp: nothing_left_def activated_def split: sum.splits)
    with activate_ok [OF live_activate(3) h(1)] live_activate show ?thesis by (simp add: live_ok_def)
  next
    case (live_stop p k w res k' w' active d)
    with that(2) have h: "history_ok (k, w)" "stands_for k active" "kernel_ok k" by (simp_all add: live_ok_def history_ok_def)
    from kernel_stop_facts [OF live_stop(3) h(3)] have "stands_for k' active"
      using h(2) stands_for_frame [of k' k] by (auto split: sum.splits)
    with stop_ok [OF live_stop(3) h(1)] live_stop show ?thesis by (simp add: live_ok_def)
  qed (use that(2) in \<open>auto simp: live_ok_def history_ok_def stands_for_def active_resolved_graph_def kernel_ok_def
      preload_embedded_factory_def preload_embedded_instance_def running_started_def\<close>)
  have "live_ok s" if "live_reach hk s" for s
    using that
  proof (induction rule: live_reach.induct)
    case (live_start ms c w engine fault h d k d')
    from stable_activation_cases [OF live_start(3)] new_ok [OF live_start(1,2)] show ?case
      by (auto simp: live_ok_def history_ok_def stands_for_def active_resolved_graph_def active_graph_of_def
          install_resolved_graph_def kernel_ok_def running_started_def)
  next
    case (live_next s s')
    with step show ?case by blast
  qed
  from this [OF assms] have ok: "stands_for k active" by (simp add: live_ok_def)
  then have "kn_generation k = Some (ha_generation active)"
    by (auto simp: stands_for_def active_resolved_graph_def active_graph_of_def)
  then have "rbind (validate_harness_configuration (kn_config k) h) (\<lambda>_. check_active_generation k h) \<noteq> Inr ()"
    if "ha_generation h \<noteq> ha_generation active"
    using that by (auto simp: rbind_eq_Inr check_active_generation_def)
  with ok stands_for_valid [OF ok] show ?thesis
    by (auto simp: stands_for_def activate_resolved_harness_def split: sum.splits)
qed

subsection \<open>A resolved harness on a kernel\<close>

abbreviation sample_resolution :: "(harness_error + harness) option" where
  "sample_resolution \<equiv> resolve_with_inputs (\<lambda>_. ''g'') 1 [layer_plugin, resource_only_manifest ''a''] [] sample_inputs {''net''}"

definition live_sample :: harness where "live_sample = (case sample_resolution of Some (Inr h) \<Rightarrow> h | _ \<Rightarrow> sample_harness [])"

lemma live_sample_facts: "resolved live_sample" "ha_schemas live_sample = []" "ha_graph live_sample = graph_empty"
proof -
  from sample_resolves [of "\<lambda>_. ''g''"] obtain h where h: "sample_resolution = Some (Inr h)" by blast
  then have eq: "live_sample = h" by (simp add: live_sample_def)
  have "resolved h"
    by (rule resolved_new [OF _ _ h]) (simp_all add: sample_inputs_def inputs_new_def sample_resource_def finite_resource_def)
  then show "resolved live_sample" by (simp add: eq)
  have "pm_id layer_plugin = ''l''" "pm_id (resource_only_manifest ''a'') = ''a''" "in_schemas sample_inputs = []"
    by (simp_all add: sample_inputs_def inputs_new_def layer_plugin_def resource_only_manifest_def)
  then show "ha_schemas live_sample = []" "ha_graph live_sample = graph_empty" using h
    by (auto simp: eq resolve_with_inputs_def assemble_def Let_def resolve_durable_schemas_def rbind_eq_Inr empty_graph
        split: sum.splits option.splits)
qed

definition live_kernel :: "(plugin_id, unit) kernel" where
  "live_kernel = install_resolved_graph (ha_generation live_sample) (ha_graph live_sample) (ha_resources live_sample)
     (kernel_new (ha_kernel live_sample))"

abbreviation following :: harness where "following \<equiv> live_sample\<lparr>ha_generation := ''h''\<rparr>"

lemma live_start_facts:
  "live_reach hk ((live_sample, live_kernel, pair_world), d)" "kernel_ok live_kernel"
  "validate_live_reconciliation live_sample live_kernel = Inr ()" "resolved following"
proof -
  have inst: "installable live_sample" by (rule resolved_installable [OF live_sample_facts(1)])
  then have cfg: "config_ok (ha_plugins live_sample) (ha_kernel live_sample)" by (simp add: installable_def)
  have act: "activate_resolved_harness engine fault live_sample (kernel_new (ha_kernel live_sample)) d = (Inr (), live_kernel, d)"
    for engine fault and d :: database
    using validate_own [OF inst] live_sample_facts(2)
    by (simp add: activate_resolved_harness_def check_active_generation_def live_kernel_def kernel_new_def
        prepare_durable_schemas_def prepare_schema_set_def)
  show "live_reach hk ((live_sample, live_kernel, pair_world), d)"
    by (rule live_start [OF cfg _ act]) (simp add: pair_world_def)
  have "history_ok (kernel_new (ha_kernel live_sample) :: (plugin_id, unit) kernel, pair_world)"
    by (rule new_ok [OF cfg]) (simp add: pair_world_def)
  then have "kernel_ok (kernel_new (ha_kernel live_sample) :: (plugin_id, unit) kernel)" by (simp add: history_ok_def)
  then show "kernel_ok live_kernel" by (simp add: live_kernel_def install_resolved_graph_def kernel_ok_def)
  show "validate_live_reconciliation live_sample live_kernel = Inr ()"
    using validate_own [OF inst]
    by (simp add: validate_live_reconciliation_def live_kernel_def install_resolved_graph_def kernel_new_def)
  show "resolved following" by (rule resolved_metadata [OF live_sample_facts(1)])
qed

lemma live_replaces:
  "\<exists>k' w'. reconcile_generation hk following R live_kernel w = (Inr (), k', w')"
proof -
  have "\<not> list_ex (\<lambda>s. s = Active) (bt_vals (registered_states c))" for c
    by (auto simp: registered_states_def bt_vals_def list_ex_iff)
  moreover have "stage_listener_subscriptions hk (harness_view following) g s w = (Inr [], w)" for g s
    by (simp add: stage_listener_subscriptions_def harness_view_def live_sample_facts graph_empty_def
        validate_subscriptions_def index_subscriptions_def validate_dependencies_def event_keys_def)
  ultimately show ?thesis
    by (simp add: reconcile_generation_def Let_def live_kernel_def install_resolved_graph_def kernel_new_def
        commit_generation_def replace_by_none)
qed

theorem live_attempt_is_all_or_nothing_witness:
  "\<exists>r k' w'. activate_candidate_on_kernel (pair_hooks []) following live_kernel pair_world live_sample =
     Some (Inr r, following, k', w') \<and> active_resolved_graph k' = Some (active_graph_of following)"
proof -
  obtain r a k' w' where t: "activate_candidate_on_kernel (pair_hooks []) following live_kernel pair_world live_sample = Some (r, a, k', w')"
    "case r of Inl e \<Rightarrow> e \<noteq> LivePanic | Inr result \<Rightarrow> a = following \<and> active_resolved_graph k' = Some (active_graph_of following)"
    using live_attempt_is_all_or_nothing [OF live_start_facts(2,4) disjI1 [OF refl], of "pair_hooks []" pair_world live_sample]
    by (fastforce split: sum.splits)
  obtain g where g: "preview_candidate live_sample following = Some g" using preview_returns by blast
  obtain k1 w1 where "reconcile_generation (pair_hooks []) following
      (restart_plugins_for_plan live_sample following (pv_plan g)) live_kernel pair_world = (Inr (), k1, w1)"
    using live_replaces by blast
  with t g live_start_facts(3) show ?thesis
    by (auto simp: activate_candidate_on_kernel_def replace_live_generation_def activate_candidate_def)
qed

lemma live_history_stays_in_step_witness:
  "active_resolved_graph live_kernel = Some (active_graph_of live_sample) \<and>
     validate_live_reconciliation live_sample live_kernel = Inr ()"
proof -
  fix fault :: fault
  show ?thesis
    using live_history_stays_in_step [OF live_start_facts(1) [of "pair_hooks []" db_empty], of live_sample "''engine''" fault] by blast
qed

end
