(* ===== verification/Plugin_Build.thy ===== *)
theory Plugin_Build
  imports Reconciliation
begin

text \<open>
  What a plugin is built from and what a build may return (\<open>phenix-core/src/plugin_build.rs\<close>,
  \<open>plugin_build_execution.rs\<close> and \<open>artifact.rs\<close>): validated names and relative paths, build plans, bounded evidence, and
  the revision of an artifact. Strings are their UTF-8 bytes. The SHA-256 of a content, in hexadecimal, is a parameter.
\<close>

subsection \<open>Validated strings\<close>

datatype plan_error =
  EmptyValue string
| ContainsNul string
| InvalidEnvironmentName
| InvalidRelativePath string
| EmptySteps

definition contains_byte :: "nat \<Rightarrow> string \<Rightarrow> bool" where
  "contains_byte n s \<longleftrightarrow> list_ex (\<lambda>c. byte_of c = n) s"

definition validate_no_nul :: "string \<Rightarrow> string \<Rightarrow> plan_error + unit" where
  "validate_no_nul field s = (if contains_byte 0 s then Inl (ContainsNul field) else Inr ())"

definition validate_nonempty :: "string \<Rightarrow> string \<Rightarrow> plan_error + unit" where
  "validate_nonempty field s = (if is_blank s then Inl (EmptyValue field) else validate_no_nul field s)"

definition validate_executable :: "string \<Rightarrow> plan_error + unit" where
  "validate_executable s = validate_nonempty ''build executable'' s"

definition validate_argument :: "string \<Rightarrow> plan_error + unit" where
  "validate_argument s = validate_no_nul ''build argument'' s"

definition validate_source_identity :: "string \<Rightarrow> plan_error + unit" where
  "validate_source_identity s = validate_nonempty ''build source identity'' s"

definition validate_source_revision :: "string \<Rightarrow> plan_error + unit" where
  "validate_source_revision s = validate_nonempty ''build source revision'' s"

definition is_ascii_alphabetic :: "char \<Rightarrow> bool" where
  "is_ascii_alphabetic c \<longleftrightarrow> 65 \<le> byte_of c \<and> byte_of c \<le> 90 \<or> 97 \<le> byte_of c \<and> byte_of c \<le> 122"

fun validate_environment_name :: "string \<Rightarrow> plan_error + unit" where
  "validate_environment_name [] = Inl InvalidEnvironmentName"
| "validate_environment_name (c # cs) =
     (if \<not> (is_ascii_alphabetic c \<or> c = CHR ''_'') \<or> \<not> list_all (\<lambda>c. is_ascii_alphanumeric c \<or> c = CHR ''_'') cs
      then Inl InvalidEnvironmentName else Inr ())"

text \<open>The constructor the macro generates for every validated string.\<close>

definition validated :: "(string \<Rightarrow> plan_error + unit) \<Rightarrow> string \<Rightarrow> plan_error + string" where
  "validated validator s = rbind (validator s) (\<lambda>_. Inr s)"

subsection \<open>Relative paths\<close>

fun split_slash :: "string \<Rightarrow> string list" where
  "split_slash [] = [[]]"
| "split_slash (c # cs) =
     (if c = CHR ''/'' then [] # split_slash cs
      else (case split_slash cs of p # ps \<Rightarrow> (c # p) # ps | [] \<Rightarrow> [[c]]))"

definition validate_relative_path :: "bool \<Rightarrow> string \<Rightarrow> string \<Rightarrow> plan_error + unit" where
  "validate_relative_path allow_root field s =
     (if s = [] \<or> contains_byte 0 s \<or> contains_byte 92 s \<or> (1 < length s \<and> s ! 1 = CHR '':'')
      then Inl (InvalidRelativePath field)
      else if allow_root \<and> s = ''.'' then Inr ()
      else if list_ex (\<lambda>p. p = [] \<or> p = ''.'' \<or> p = ''..'') (split_slash s) then Inl (InvalidRelativePath field)
      else Inr ())"

definition working_directory_root :: string where "working_directory_root = ''.''"

definition parse_working_directory :: "string \<Rightarrow> plan_error + string" where
  "parse_working_directory s = rbind (validate_relative_path True ''build working directory'' s) (\<lambda>_. Inr s)"

definition parse_artifact_output :: "string \<Rightarrow> plan_error + string" where
  "parse_artifact_output s = rbind (validate_relative_path False ''build artifact output'' s) (\<lambda>_. Inr s)"

subsection \<open>Plans\<close>

type_synonym build_environment = "(string, string) btree"

definition build_environment_new :: "(string \<times> string) list \<Rightarrow> plan_error + build_environment" where
  "build_environment_new values =
     (let m = collect_map fst snd values
      in if list_ex (contains_byte 0) (bt_vals m) then Inl (ContainsNul ''build environment value'') else Inr m)"

record build_source =
  bs_identity :: string
  bs_revision :: string

record build_step =
  bt_executable :: string
  bt_argv :: "string list"
  bt_directory :: string
  bt_environment :: build_environment

record build_plan =
  pl_source :: build_source
  pl_steps :: "build_step list"
  pl_output :: string
  pl_configuration :: "(string, phx_value) btree"
  pl_requested :: authority

definition build_plan_new ::
    "build_source \<Rightarrow> build_step list \<Rightarrow> string \<Rightarrow> (string, phx_value) btree \<Rightarrow> authority \<Rightarrow> plan_error + build_plan" where
  "build_plan_new source steps output_path conf requested =
     (if steps = [] then Inl EmptySteps
      else Inr \<lparr>pl_source = source, pl_steps = steps, pl_output = output_path, pl_configuration = conf,
        pl_requested = requested\<rparr>)"

datatype artifact_input = ReadyArtifact plugin_artifact | BuildArtifact build_plan

subsection \<open>Revisions\<close>

definition revision_prefix :: string where "revision_prefix = ''sha256:''"

definition revision_hex_length :: nat where "revision_hex_length = 64"

definition revision_digit :: "char \<Rightarrow> bool" where
  "revision_digit c \<longleftrightarrow> is_ascii_digit c \<or> 97 \<le> byte_of c \<and> byte_of c \<le> 102"

definition parse_revision :: "string \<Rightarrow> unit + string" where
  "parse_revision s =
     (case strip_prefix_opt revision_prefix s of
        None \<Rightarrow> Inl ()
      | Some d \<Rightarrow> if length d \<noteq> revision_hex_length \<or> \<not> list_all revision_digit d then Inl () else Inr s)"

definition revision_of_content :: "(string \<Rightarrow> string) \<Rightarrow> string \<Rightarrow> string" where
  "revision_of_content sha content = revision_prefix @ sha content"

subsection \<open>Evidence\<close>

definition max_evidence_entries :: nat where "max_evidence_entries = 64"

definition max_evidence_entry_bytes :: nat where "max_evidence_entry_bytes = 4096"

text \<open>The byte indices at which a character starts.\<close>

definition is_continuation :: "char \<Rightarrow> bool" where
  "is_continuation c \<longleftrightarrow> 0x80 \<le> byte_of c \<and> byte_of c \<le> 0xBF"

definition char_indices :: "string \<Rightarrow> nat list" where
  "char_indices s = filter (\<lambda>i. \<not> is_continuation (s ! i)) [0..<length s]"

definition bound_entry :: "string \<Rightarrow> string" where
  "bound_entry s =
     (if length s > max_evidence_entry_bytes
      then (let starts = takeWhile (\<lambda>i. i \<le> max_evidence_entry_bytes) (char_indices s);
                boundary = (if starts = [] then 0 else last starts)
            in take boundary s)
      else s)"

definition bound_entries :: "string list \<Rightarrow> string list" where
  "bound_entries entries = map bound_entry (take max_evidence_entries entries)"

record build_evidence =
  ev_provenance :: "string list"
  ev_diagnostics :: "string list"

definition evidence_bounded :: "string list \<Rightarrow> string list \<Rightarrow> build_evidence" where
  "evidence_bounded provenance diagnostics =
     \<lparr>ev_provenance = bound_entries provenance, ev_diagnostics = bound_entries diagnostics\<rparr>"

record build_output =
  bo_locator :: string
  bo_content :: string

record build_execution =
  be_output :: "build_output option"
  be_evidence :: build_evidence

record build_failure =
  bf_message :: string
  bf_evidence :: build_evidence

subsection \<open>Paths stay below their root\<close>

text \<open>Resolving a path from a directory; \<open>None\<close> is a step above the root.\<close>

fun walk_path :: "string list \<Rightarrow> string list \<Rightarrow> string list option" where
  "walk_path here [] = Some here"
| "walk_path here (p # ps) =
     (if p = ''..'' then (case here of [] \<Rightarrow> None | _ # up \<Rightarrow> walk_path up ps)
      else if p = ''.'' \<or> p = [] then walk_path here ps
      else walk_path (p # here) ps)"

lemma walk_normal: "list_all (\<lambda>p. p \<noteq> [] \<and> p \<noteq> ''.'' \<and> p \<noteq> ''..'') ps \<Longrightarrow> walk_path here ps = Some (rev ps @ here)"
  by (induction ps arbitrary: here) auto

fun join_slash :: "string list \<Rightarrow> string" where
  "join_slash [] = []"
| "join_slash [p] = p"
| "join_slash (p # ps) = p @ CHR ''/'' # join_slash ps"

lemma split_slash_not_empty: "split_slash s \<noteq> []"
  by (induction s) (auto split: list.splits)

lemma join_split: "join_slash (split_slash s) = s"
proof (induction s)
  case (Cons c cs)
  obtain p ps where "split_slash cs = p # ps" using split_slash_not_empty by (meson neq_Nil_conv)
  with Cons show ?case by (cases ps) auto
qed simp

lemma artifact_output_ok:
  "parse_artifact_output s = Inr r \<Longrightarrow> r = s \<and> walk_path [] (split_slash s) = Some (rev (split_slash s))"
  by (auto simp: parse_artifact_output_def rbind_eq_Inr validate_relative_path_def list_all_iff list_ex_iff
      split: if_splits intro: walk_normal [where here = "[]", simplified])

subsection \<open>Revisions parse\<close>

lemma parse_revision_iff:
  "parse_revision s = Inr r \<longleftrightarrow> r = s \<and> (\<exists>d. s = revision_prefix @ d \<and> length d = revision_hex_length \<and> list_all revision_digit d)"
proof -
  have some: "strip_prefix_opt revision_prefix s = Some d \<longleftrightarrow> s = revision_prefix @ d" for d
    by (auto simp: strip_prefix_opt_def) (metis append_take_drop_id)
  show ?thesis
  proof (cases "strip_prefix_opt revision_prefix s")
    case None
    with some show ?thesis by (auto simp: parse_revision_def)
  next
    case (Some d)
    then have "s = revision_prefix @ d" using some by simp
    with Some show ?thesis by (auto simp: parse_revision_def)
  qed
qed

lemma content_revision_parses:
  "length (sha c) = revision_hex_length \<Longrightarrow> list_all revision_digit (sha c) \<Longrightarrow>
     parse_revision (revision_of_content sha c) = Inr (revision_of_content sha c)"
  by (auto simp: parse_revision_iff revision_of_content_def)

subsection \<open>Evidence is bounded\<close>

text \<open>The shape of UTF-8: a leading byte and as many continuation bytes as it announces.\<close>

definition trailing :: "char \<Rightarrow> nat option" where
  "trailing c = (let b = byte_of c in
     if b < 0x80 then Some 0 else if 0xC2 \<le> b \<and> b \<le> 0xDF then Some 1
     else if 0xE0 \<le> b \<and> b \<le> 0xEF then Some 2 else if 0xF0 \<le> b \<and> b \<le> 0xF4 then Some 3 else None)"

function (sequential) utf8_shaped :: "string \<Rightarrow> bool" where
  "utf8_shaped [] \<longleftrightarrow> True"
| "utf8_shaped (a # s) \<longleftrightarrow> (case trailing a of None \<Rightarrow> False
     | Some n \<Rightarrow> n \<le> length s \<and> list_all is_continuation (take n s) \<and> utf8_shaped (drop n s))"
  by pat_completeness auto
termination by (relation "measure length") auto

lemma trailing_start: "trailing c = Some n \<Longrightarrow> n < 4 \<and> \<not> is_continuation c"
  by (auto simp: trailing_def is_continuation_def Let_def split: if_splits)

lemma shaped_start_near:
  "utf8_shaped s \<Longrightarrow> i < length s \<Longrightarrow> \<exists>j\<le>i. i < j + 4 \<and> \<not> is_continuation (s ! j)"
proof (induction s arbitrary: i rule: utf8_shaped.induct)
  case (2 a s)
  from 2(2) obtain n where n: "trailing a = Some n" "n \<le> length s" "utf8_shaped (drop n s)" by (auto split: option.splits)
  note t = trailing_start [OF n(1)]
  show ?case
  proof (cases "i \<le> n")
    case True
    with t show ?thesis by (intro exI [of _ 0]) simp
  next
    case False
    then have "i - Suc n < length (drop n s)" using 2(3) by simp
    from 2(1) [OF n(1,3) this] obtain j where j: "j \<le> i - Suc n" "i - Suc n < j + 4" "\<not> is_continuation (drop n s ! j)" by blast
    with False n(2) 2(3) show ?thesis by (intro exI [of _ "j + Suc n"]) (auto simp: add.commute)
  qed
qed simp

lemma shaped_take:
  "utf8_shaped s \<Longrightarrow> i < length s \<Longrightarrow> \<not> is_continuation (s ! i) \<Longrightarrow> utf8_shaped (take i s)"
proof (induction s arbitrary: i rule: utf8_shaped.induct)
  case (2 a s)
  from 2(2) obtain n where n: "trailing a = Some n" "n \<le> length s" "list_all is_continuation (take n s)"
    "utf8_shaped (drop n s)" by (auto split: option.splits)
  show ?case
  proof (cases i)
    case (Suc k)
    have le: "n \<le> k"
    proof (rule ccontr)
      assume "\<not> n \<le> k"
      then have "is_continuation (s ! k)" using n(2,3) by (auto simp: list_all_length)
      with 2(4) Suc show False by simp
    qed
    have "k - n < length (drop n s)" "\<not> is_continuation (drop n s ! (k - n))" using 2(3,4) Suc le by simp_all
    from 2(1) [OF n(1,4) this] have "utf8_shaped (drop n (take k s))" by (simp add: drop_take)
    moreover have "n \<le> length (take k s)" using le 2(3) Suc by simp
    moreover have "list_all is_continuation (take n (take k s))" using le n(3) by (simp add: min_def)
    ultimately show ?thesis using n(1) Suc by simp
  qed simp
qed simp

lemma takeWhile_starts: "takeWhile (\<lambda>i. i \<le> m) (filter P [0..<n]) = filter P [0..<min n (Suc m)]"
proof -
  let ?k = "min n (Suc m)"
  have "[0..<n] = [0..<?k] @ [?k..<n]" using upt_add_eq_append [of 0 ?k "n - ?k"] by simp
  then have "filter P [0..<n] = filter P [0..<?k] @ filter P [?k..<n]" by (metis filter_append)
  moreover have "takeWhile (\<lambda>i. i \<le> m) (filter P [?k..<n]) = []"
    using hd_in_set [of "filter P [?k..<n]"] by (auto simp: takeWhile_eq_Nil_iff)
  moreover have "\<forall>i\<in>set (filter P [0..<?k]). i \<le> m" by auto
  ultimately show ?thesis by (simp add: takeWhile_append)
qed

lemma last_start:
  assumes "filter P [0..<k] \<noteq> []"
  shows "P (last (filter P [0..<k]))" "last (filter P [0..<k]) < k" "j < k \<Longrightarrow> P j \<Longrightarrow> j \<le> last (filter P [0..<k])"
proof -
  let ?f = "filter P [0..<k]"
  have "last ?f \<in> set ?f" using assms by (rule last_in_set)
  then show "P (last ?f)" "last ?f < k" by auto
  have "sorted ?f" by (intro sorted_filter [where f = "\<lambda>x. x", simplified]) simp
  moreover have "x \<le> last ys" if "sorted ys" "x \<in> set ys" for x and ys :: "nat list"
    using that by (induction ys) auto
  ultimately show "j < k \<Longrightarrow> P j \<Longrightarrow> j \<le> last ?f" by simp
qed

text \<open>C33: build evidence is bounded whatever a build reports: at most 64 entries a list, the first ones, each a prefix of
  what was reported and at most 4096 bytes long. An entry of UTF-8 stays UTF-8, because it is cut where a character
  starts, and is kept whole or cut as late as possible, within 3 bytes of the bound.\<close>

theorem evidence_is_bounded:
  shows "length (bound_entries entries) \<le> 64 \<and> (\<forall>i < length (bound_entries entries). \<exists>n.
    bound_entries entries ! i = take n (entries ! i) \<and> length (bound_entries entries ! i) \<le> 4096 \<and>
    (utf8_shaped (entries ! i) \<longrightarrow> utf8_shaped (bound_entries entries ! i) \<and>
       (length (entries ! i) \<le> 4096 \<longrightarrow> bound_entries entries ! i = entries ! i) \<and>
       (length (entries ! i) > 4096 \<longrightarrow> length (bound_entries entries ! i) \<ge> 4093)))"
proof -
  have one: "\<exists>n. bound_entry s = take n s \<and> length (bound_entry s) \<le> 4096 \<and> (utf8_shaped s \<longrightarrow> utf8_shaped (bound_entry s) \<and>
      (length s \<le> 4096 \<longrightarrow> bound_entry s = s) \<and> (length s > 4096 \<longrightarrow> length (bound_entry s) \<ge> 4093))" for s
  proof (cases "length s > 4096")
    case False
    then show ?thesis by (intro exI [of _ "length s"]) (simp add: bound_entry_def max_evidence_entry_bytes_def)
  next
    case True
    let ?P = "\<lambda>i. \<not> is_continuation (s ! i)" and ?starts = "filter (\<lambda>i. \<not> is_continuation (s ! i)) [0..<4097]"
    let ?b = "if ?starts = [] then 0 else last ?starts"
    have "min (length s) (Suc 4096) = 4097" using True by simp
    then have eq: "bound_entry s = take ?b s"
      using True by (simp only: bound_entry_def max_evidence_entry_bytes_def char_indices_def takeWhile_starts Let_def if_True)
    have b: "?b \<le> 4096" using last_start(2) [of ?P 4097] by auto
    moreover have "utf8_shaped (take ?b s) \<and> 4093 \<le> ?b" if shaped: "utf8_shaped s"
    proof -
      obtain j where j: "j \<le> 4096" "4096 < j + 4" "?P j" using shaped_start_near [OF shaped, of 4096] True by auto
      then have "j \<in> set ?starts" by simp
      then have ne: "?starts \<noteq> []" by (metis empty_iff empty_set)
      have "j \<le> ?b" using last_start(3) [OF ne, of j] j ne by simp
      moreover have "\<not> is_continuation (s ! ?b)" using last_start(1) [OF ne] ne by simp
      then have "utf8_shaped (take ?b s)" using shaped_take [OF shaped, of ?b] b True by linarith
      ultimately show ?thesis using j(2) by linarith
    qed
    ultimately show ?thesis using True eq by (intro exI [of _ ?b]) auto
  qed
  show ?thesis
    using one by (auto simp: bound_entries_def max_evidence_entries_def)
qed

lemma ascii_shaped: "utf8_shaped (replicate n CHR ''a'')"
  by (induction n) (simp_all add: trailing_def byte_of_def)

theorem evidence_is_bounded_witness:
  "length (bound_entries [replicate 5000 CHR ''a''] ! 0) \<le> 4096 \<and>
     4093 \<le> length (bound_entries [replicate 5000 CHR ''a''] ! 0)"
  using evidence_is_bounded [of "[replicate 5000 CHR ''a'']"] ascii_shaped [of 5000]
  by (auto simp: bound_entries_def max_evidence_entries_def)

end
