(* ===== verification/Management.thy ===== *)
theory Management
  imports Live_Reconciliation Plugin_Build
begin

text \<open>
  Management of the plugin set (\<open>phenix-core/src/management.rs\<close>): one operation loads, unloads or replaces plugins. It
  checks the caller, turns build plans into artifacts, derives the wanted set, resolves it against the active harness
  and activates the candidate on the live kernel. The store of artifacts and the executor of builds are third parties:
  operations over a state of their own.
\<close>

subsection \<open>Requests, policy and services\<close>

datatype requested_execution = RequestEmbedded | RequestRuntime runtime_id artifact_input | RequestResourceOnly

record requested_manifest =
  rq_id :: plugin_id
  rq_version :: nat
  rq_execution :: requested_execution
  rq_dependencies :: "plugin_id list"
  rq_services :: "service_contribution list"
  rq_namespaces :: "resource_namespace list"
  rq_maximum :: authority

record load_request =
  lr_manifest :: requested_manifest
  lr_components :: "component_manifest list"
  lr_expected :: "string option"

record unload_request =
  ur_plugin :: plugin_id
  ur_expected :: "string option"

record set_request =
  sr_plugins :: "plugin_manifest list"
  sr_components :: "component_manifest list"

datatype management_request = Load load_request | Unload unload_request | ReconcileSet set_request

record management_policy =
  mg_required :: authority
  mg_build :: authority

record 's build_services =
  bv_preflight :: "'s \<Rightarrow> (string + unit) \<times> 's"
  bv_verify :: "plugin_artifact \<Rightarrow> 's \<Rightarrow> (string + unit) \<times> 's"
  bv_store :: "plugin_artifact \<Rightarrow> string \<Rightarrow> 's \<Rightarrow> (string + unit) \<times> 's"
  bv_execute :: "build_plan \<Rightarrow> authority \<Rightarrow> 's \<Rightarrow> (build_failure + build_execution) \<times> 's"

record build_report =
  br_artifact :: plugin_artifact
  br_source :: build_source
  br_authority :: authority
  br_evidence :: build_evidence

record management_result =
  mr_reconciliation :: reconciliation_result
  mr_build :: "build_report option"

datatype management_error =
  MgAuthorization authority
| MgUnknownPlugin plugin_id
| StaleExpectedRevision plugin_id string "string option"
| BuildFailed build_failure
| MissingBuildOutput build_evidence
| InvalidArtifact string "build_report option"
| RuntimeUnavailable runtime_id "build_report option"
| MgCandidate harness_error "build_report option"
| MgReconciliation live_error "build_report option"

text \<open>What the host supplies beside the request: the caller's authority, the policy, and the digest of contents.\<close>

record 's management_context =
  mx_caller :: authority
  mx_policy :: management_policy
  mx_services :: "'s build_services"
  mx_sha :: "string \<Rightarrow> string"

subsection \<open>From a plan to an artifact\<close>

definition build_artifact ::
    "'s management_context \<Rightarrow> build_plan \<Rightarrow> 's \<Rightarrow> (management_error + plugin_artifact \<times> build_report option) \<times> 's" where
  "build_artifact mx plan s =
     (let effective = attenuate (attenuate (mg_build (mx_policy mx)) (mx_caller mx)) (pl_requested plan)
      in case bv_execute (mx_services mx) plan effective s of
           (Inl failure, s) \<Rightarrow> (Inl (BuildFailed failure), s)
         | (Inr execution, s) \<Rightarrow>
             (case be_output execution of
                None \<Rightarrow> (Inl (MissingBuildOutput (be_evidence execution)), s)
              | Some out \<Rightarrow>
                  if bo_locator out \<noteq> pl_output plan then (Inl (MissingBuildOutput (be_evidence execution)), s)
                  else
                    (let artifact = \<lparr>art_locator = bo_locator out, art_revision = revision_of_content (mx_sha mx) (bo_content out),
                           art_configuration = pl_configuration plan\<rparr>;
                         report = \<lparr>br_artifact = artifact, br_source = pl_source plan, br_authority = effective,
                           br_evidence = be_evidence execution\<rparr>
                     in case bv_store (mx_services mx) artifact (bo_content out) s of
                          (Inl message, s) \<Rightarrow> (Inl (InvalidArtifact message (Some report)), s)
                        | (Inr _, s) \<Rightarrow> (Inr (artifact, Some report), s))))"

definition materialize_artifact ::
    "'s management_context \<Rightarrow> artifact_input \<Rightarrow> 's \<Rightarrow> (management_error + plugin_artifact \<times> build_report option) \<times> 's" where
  "materialize_artifact mx input s =
     (case input of
        ReadyArtifact artifact \<Rightarrow>
          (case bv_verify (mx_services mx) artifact s of
             (Inl message, s) \<Rightarrow> (Inl (InvalidArtifact message None), s)
           | (Inr _, s) \<Rightarrow> (Inr (artifact, None), s))
      | BuildArtifact plan \<Rightarrow> build_artifact mx plan s)"

definition concrete_manifest :: "requested_manifest \<Rightarrow> plugin_execution \<Rightarrow> plugin_manifest" where
  "concrete_manifest m execution = \<lparr>pm_id = rq_id m, pm_version = rq_version m, pm_execution = execution,
     pm_dependencies = rq_dependencies m, pm_services = rq_services m, pm_namespaces = rq_namespaces m,
     pm_maximum = rq_maximum m\<rparr>"

definition materialize_manifest ::
    "'s management_context \<Rightarrow> requested_manifest \<Rightarrow> 's \<Rightarrow> (management_error + plugin_manifest \<times> build_report option) \<times> 's" where
  "materialize_manifest mx m s =
     (case rq_execution m of
        RequestEmbedded \<Rightarrow> (Inr (concrete_manifest m Embedded, None), s)
      | RequestResourceOnly \<Rightarrow> (Inr (concrete_manifest m ResourceOnly, None), s)
      | RequestRuntime runtime input \<Rightarrow>
          (case materialize_artifact mx input s of
             (Inl e, s) \<Rightarrow> (Inl e, s)
           | (Inr (artifact, build), s) \<Rightarrow> (Inr (concrete_manifest m (Runtime runtime artifact), build), s)))"

subsection \<open>The wanted set\<close>

definition active_revision :: "plugin_manifest option \<Rightarrow> string option" where
  "active_revision existing = Option.bind existing (\<lambda>m. case pm_execution m of
     Runtime _ artifact \<Rightarrow> Some (art_revision artifact) | Embedded \<Rightarrow> None | ResourceOnly \<Rightarrow> None)"

definition check_expected_revision :: "plugin_id \<Rightarrow> plugin_manifest option \<Rightarrow> string \<Rightarrow> management_error + unit" where
  "check_expected_revision p existing expected =
     (if active_revision existing = Some expected then Inr ()
      else Inl (StaleExpectedRevision p expected (active_revision existing)))"

definition plugin_named :: "harness \<Rightarrow> plugin_id \<Rightarrow> plugin_manifest option" where
  "plugin_named h p = find (\<lambda>m. pm_id m = p) (ha_plugins h)"

definition check_load_expected_revision :: "harness \<Rightarrow> load_request \<Rightarrow> management_error + unit" where
  "check_load_expected_revision active r =
     (case lr_expected r of
        None \<Rightarrow> Inr ()
      | Some expected \<Rightarrow>
          check_expected_revision (rq_id (lr_manifest r)) (plugin_named active (rq_id (lr_manifest r))) expected)"

text \<open>The first manifest of the same name is replaced in place, otherwise the new one comes last.\<close>

fun replace_or_push :: "plugin_manifest \<Rightarrow> plugin_manifest list \<Rightarrow> plugin_manifest list" where
  "replace_or_push m [] = [m]"
| "replace_or_push m (x # xs) = (if pm_id x = pm_id m then m # xs else x # replace_or_push m xs)"

type_synonym wanted = "plugin_manifest list \<times> component_manifest list"

definition apply_load :: "harness \<Rightarrow> plugin_manifest \<Rightarrow> component_manifest list \<Rightarrow> wanted" where
  "apply_load active m components =
     (replace_or_push m (ha_plugins active), filter (\<lambda>c. cm_owner c \<noteq> pm_id m) (ha_components active) @ components)"

definition apply_unload :: "harness \<Rightarrow> unload_request \<Rightarrow> management_error + wanted" where
  "apply_unload active r =
     rbind (ok_or (MgUnknownPlugin (ur_plugin r)) (plugin_named active (ur_plugin r))) (\<lambda>existing.
     rbind (case ur_expected r of
         None \<Rightarrow> Inr () | Some expected \<Rightarrow> check_expected_revision (ur_plugin r) (Some existing) expected) (\<lambda>_.
       Inr (filter (\<lambda>m. pm_id m \<noteq> ur_plugin r) (ha_plugins active),
         filter (\<lambda>c. cm_owner c \<noteq> ur_plugin r) (ha_components active))))"

definition apply_reconcile :: "set_request \<Rightarrow> wanted" where
  "apply_reconcile r = (sr_plugins r, sr_components r)"

text \<open>The dispatch on the request.\<close>

definition wanted_set ::
    "'s management_context \<Rightarrow> harness \<Rightarrow> management_request \<Rightarrow> 's \<Rightarrow> (management_error + wanted \<times> build_report option) \<times> 's" where
  "wanted_set mx active request s =
     (case request of
        Load r \<Rightarrow>
          (case check_load_expected_revision active r of
             Inl e \<Rightarrow> (Inl e, s)
           | Inr _ \<Rightarrow>
               (case materialize_manifest mx (lr_manifest r) s of
                  (Inl e, s) \<Rightarrow> (Inl e, s)
                | (Inr (m, build), s) \<Rightarrow> (Inr (apply_load active m (lr_components r), build), s)))
      | Unload r \<Rightarrow> (rbind (apply_unload active r) (\<lambda>w. Inr (w, None)), s)
      | ReconcileSet r \<Rightarrow> (Inr (apply_reconcile r, None), s))"

subsection \<open>The operation\<close>

fun map_candidate_error :: "harness_error \<Rightarrow> build_report option \<Rightarrow> management_error" where
  "map_candidate_error (HaKernel (RuntimeProviderUnavailable runtime)) build = RuntimeUnavailable runtime build"
| "map_candidate_error e build = MgCandidate e build"

definition manage_preflight ::
    "'s management_context \<Rightarrow> harness \<Rightarrow> ('i, 'h) kernel \<Rightarrow> 's \<Rightarrow> (management_error + unit) \<times> 's" where
  "manage_preflight mx active k s =
     (case validate_live_reconciliation active k of
        Inl e \<Rightarrow> (Inl (MgReconciliation e None), s)
      | Inr _ \<Rightarrow>
          if \<not> permits_all (mx_caller mx) (mg_required (mx_policy mx))
          then (Inl (MgAuthorization (mg_required (mx_policy mx))), s)
          else (case bv_preflight (mx_services mx) s of
              (Inl message, s) \<Rightarrow> (Inl (InvalidArtifact message None), s)
            | (Inr _, s) \<Rightarrow> (Inr (), s)))"

definition manage ::
    "('w, 'i, 'h) hooks \<Rightarrow> digest \<Rightarrow> nat \<Rightarrow> 's management_context \<Rightarrow> management_request \<Rightarrow> authority \<Rightarrow> ('w, 'i, 'h) live \<Rightarrow> 's
     \<Rightarrow> ((management_error + management_result) \<times> ('w, 'i, 'h) live \<times> 's) option" where
  "manage hk digest identity mx request ceiling live s =
     (case live of (active, k, w) \<Rightarrow>
       (case manage_preflight mx active k s of
          (Inl e, s) \<Rightarrow> Some (Inl e, live, s)
        | (Inr _, s) \<Rightarrow>
            (case wanted_set mx active request s of
               (Inl e, s) \<Rightarrow> Some (Inl e, live, s)
             | (Inr ((plugins, components), build), s) \<Rightarrow>
                 Option.bind (with_plugin_set digest identity active plugins components ceiling) (\<lambda>r. case r of
                     Inl e \<Rightarrow> Some (Inl (map_candidate_error e build), live, s)
                   | Inr candidate \<Rightarrow> map_option (\<lambda>(r, live'). (case r of
                         Inl e \<Rightarrow> Inl (MgReconciliation e build)
                       | Inr reconciliation \<Rightarrow> Inr \<lparr>mr_reconciliation = reconciliation, mr_build = build\<rparr>, live', s))
                     (activate_candidate_on_kernel hk candidate k w active)))))"

subsection \<open>The wanted set is the request's\<close>

lemma replace_or_push_set:
  "distinct (map pm_id xs) \<Longrightarrow> set (replace_or_push m xs) = insert m {x \<in> set xs. pm_id x \<noteq> pm_id m}"
  by (induction xs) (auto simp: image_iff)

lemma preflight_cases:
  assumes "manage_preflight mx active k s = (r, s')"
  shows "case r of Inl e \<Rightarrow> (\<forall>l b. e \<noteq> MgReconciliation (LiveRuntime l) b) \<and> (\<not> permits_all (mx_caller mx) (mg_required (mx_policy mx)) \<longrightarrow> s' = s)
    | Inr _ \<Rightarrow> validate_live_reconciliation active k = Inr () \<and> permits_all (mx_caller mx) (mg_required (mx_policy mx))"
proof -
  have "map_activation_error e \<noteq> LiveRuntime l" for e l by (cases e) auto
  then have "validate_live_reconciliation active k \<noteq> Inl (LiveRuntime l)" for l
    by (auto simp: validate_live_reconciliation_def map_err_eq_Inl split: option.splits dest: sym)
  with assms show ?thesis
    by (auto simp: manage_preflight_def split: sum.splits if_splits prod.splits)
qed

lemma not_runtime:
  "build_artifact mx plan s = (Inl e, s') \<Longrightarrow> e \<noteq> MgReconciliation l b"
  "materialize_artifact mx input s = (Inl e, s') \<Longrightarrow> e \<noteq> MgReconciliation l b"
  "materialize_manifest mx m s = (Inl e, s') \<Longrightarrow> e \<noteq> MgReconciliation l b"
  "wanted_set mx active request s = (Inl e, s') \<Longrightarrow> e \<noteq> MgReconciliation l b"
  "map_candidate_error he rep = e \<Longrightarrow> e \<noteq> MgReconciliation l b"
proof -
  show a: "build_artifact mx plan s = (Inl e, s') \<Longrightarrow> e \<noteq> MgReconciliation l b" for plan s e s'
    by (auto simp: build_artifact_def Let_def split: sum.splits prod.splits option.splits if_splits)
  show c: "materialize_artifact mx input s = (Inl e, s') \<Longrightarrow> e \<noteq> MgReconciliation l b" for input s e s'
    by (auto simp: materialize_artifact_def dest: a split: artifact_input.splits sum.splits prod.splits)
  show d: "materialize_manifest mx m s = (Inl e, s') \<Longrightarrow> e \<noteq> MgReconciliation l b" for m s e s'
    by (auto simp: materialize_manifest_def dest: c split: requested_execution.splits sum.splits prod.splits)
  show "wanted_set mx active request s = (Inl e, s') \<Longrightarrow> e \<noteq> MgReconciliation l b"
    by (auto simp: wanted_set_def check_load_expected_revision_def check_expected_revision_def apply_unload_def rbind_eq_Inl
        ok_or_eq_Inl dest: d split: management_request.splits sum.splits prod.splits option.splits if_splits)
  show "map_candidate_error he rep = e \<Longrightarrow> e \<noteq> MgReconciliation l b"
    by (cases "(he, rep)" rule: map_candidate_error.cases) auto
qed

lemma set_returns:
  assumes "resolved active"
  shows "\<exists>r. with_plugin_set digest n active plugins components ceiling = Some r \<and> (\<forall>h. r = Inr h \<longrightarrow> resolved h \<and>
    ha_plugins h = sort_key pm_id plugins \<and> ha_components h = sort_key cm_id components)"
proof -
  have ok: "bt_ok (ha_layers active)" using resolved_installable [OF assms] by (simp add: installable_def)
  show ?thesis
    using assemble_cases [OF ok, of digest n "sort_key pm_id plugins" "sort_key cm_id components" "ha_schemas active"
        "ha_resources active" "ha_configuration active" "ha_policy active" ceiling]
      resolved_plugin_set [OF assms, of digest n plugins components ceiling]
    by (auto simp: with_plugin_set_def)
qed

text \<open>Every way through the operation.\<close>

lemma manage_cases:
  assumes "resolved active" "kernel_ok k"
  obtains (refused) e s' where "manage hk digest n mx request ceiling (active, k, w) s = Some (Inl e, (active, k, w), s')"
      "\<forall>l b. e \<noteq> MgReconciliation (LiveRuntime l) b" "\<not> permits_all (mx_caller mx) (mg_required (mx_policy mx)) \<longrightarrow> s' = s"
    | (attempted) s1 s' plugins components build candidate t r where
      "permits_all (mx_caller mx) (mg_required (mx_policy mx))" "validate_live_reconciliation active k = Inr ()"
      "manage_preflight mx active k s = (Inr (), s1)" "wanted_set mx active request s1 = (Inr ((plugins, components), build), s')"
      "resolved candidate" "ha_plugins candidate = sort_key pm_id plugins" "ha_components candidate = sort_key cm_id components"
      "attempt_ok active k w candidate t"
      "manage hk digest n mx request ceiling (active, k, w) s = Some (r, snd t, s')"
      "r = (case fst t of Inl e \<Rightarrow> Inl (MgReconciliation e build)
         | Inr reconciliation \<Rightarrow> Inr \<lparr>mr_reconciliation = reconciliation, mr_build = build\<rparr>)"
proof (cases "manage_preflight mx active k s")
  case (Pair p s1)
  note f = preflight_cases [OF Pair]
  show ?thesis
  proof (cases p)
    case (Inl e)
    with f Pair show ?thesis by (intro refused [of e s1]) (simp_all add: manage_def)
  next
    case (Inr u)
    obtain q s2 where q: "wanted_set mx active request s1 = (q, s2)" by fastforce
    show ?thesis
    proof (cases q)
      case (Inl e)
      from q Inl have "wanted_set mx active request s1 = (Inl e, s2)" by simp
      from not_runtime(4) [OF this] have "\<forall>l b. e \<noteq> MgReconciliation l b" by simp
      moreover have "manage hk digest n mx request ceiling (active, k, w) s = Some (Inl e, (active, k, w), s2)"
        using Inl Pair \<open>p = Inr u\<close> q by (simp add: manage_def)
      ultimately show ?thesis using f \<open>p = Inr u\<close> by (intro refused [of e s2]) simp_all
    next
      case (Inr a)
      obtain plugins components build where a: "a = ((plugins, components), build)" by (metis surj_pair)
      obtain c where c: "with_plugin_set digest n active plugins components ceiling = Some c" "\<forall>h. c = Inr h \<longrightarrow> resolved h \<and>
          ha_plugins h = sort_key pm_id plugins \<and> ha_components h = sort_key cm_id components"
        using set_returns [OF assms(1)] by blast
      show ?thesis
      proof (cases c)
        case (Inl e)
        with f Pair \<open>p = Inr u\<close> q Inr a c(1) not_runtime(5) [OF refl] show ?thesis
          by (intro refused [of "map_candidate_error e build" s2]) (auto simp: manage_def)
      next
        case (Inr h)
        with c(2) have h: "resolved h" by simp
        obtain t where t: "activate_candidate_on_kernel hk h k w active = Some t" "attempt_ok active k w h t"
          using attempt_facts [OF assms(2) resolved_installable [OF h] disjI1 [OF refl], of hk w active] by blast
        with f Pair \<open>p = Inr u\<close> q \<open>q = Inr a\<close> a c Inr h show ?thesis
          by (intro attempted [of s1 plugins components build s2 h t]) (auto simp: manage_def split: prod.splits)
      qed
    qed
  qed
qed

text \<open>The wanted set, request by request.\<close>

definition manifest_for :: "requested_manifest \<Rightarrow> plugin_manifest \<Rightarrow> bool" where
  "manifest_for rq m \<longleftrightarrow> m = concrete_manifest rq (pm_execution m) \<and> (case rq_execution rq of
       RequestEmbedded \<Rightarrow> pm_execution m = Embedded
     | RequestResourceOnly \<Rightarrow> pm_execution m = ResourceOnly
     | RequestRuntime runtime input \<Rightarrow> \<exists>a. pm_execution m = Runtime runtime a \<and> (case input of
           ReadyArtifact a' \<Rightarrow> a = a'
         | BuildArtifact plan \<Rightarrow> art_locator a = pl_output plan \<and> art_configuration a = pl_configuration plan))"

definition report_ok :: "'s management_context \<Rightarrow> management_request \<Rightarrow> build_report option \<Rightarrow> bool" where
  "report_ok mx request build \<longleftrightarrow> (\<forall>report. build = Some report \<longrightarrow> (\<exists>r runtime plan.
     request = Load r \<and> rq_execution (lr_manifest r) = RequestRuntime runtime (BuildArtifact plan) \<and>
     br_source report = pl_source plan \<and> art_locator (br_artifact report) = pl_output plan \<and>
     br_authority report = mg_build (mx_policy mx) \<inter> mx_caller mx \<inter> pl_requested plan \<and>
     (\<exists>content. art_revision (br_artifact report) = revision_of_content (mx_sha mx) content)))"

lemma materialized_manifest:
  assumes "materialize_manifest mx rq s = (Inr (m, build), s')"
  shows "manifest_for rq m" "rq = lr_manifest r \<Longrightarrow> report_ok mx (Load r) build"
  using assms
  by (auto simp: materialize_manifest_def materialize_artifact_def build_artifact_def Let_def manifest_for_def report_ok_def
      concrete_manifest_def attenuate_def
      split: requested_execution.splits artifact_input.splits sum.splits prod.splits option.splits if_splits)

definition set_for :: "harness \<Rightarrow> management_request \<Rightarrow> plugin_manifest set \<Rightarrow> component_manifest set \<Rightarrow> bool" where
  "set_for active request plugins components \<longleftrightarrow> (case request of
       Load r \<Rightarrow> let p = rq_id (lr_manifest r) in
         (\<exists>m. manifest_for (lr_manifest r) m \<and> plugins = insert m {x \<in> set (ha_plugins active). pm_id x \<noteq> p}) \<and>
         components = {c \<in> set (ha_components active). cm_owner c \<noteq> p} \<union> set (lr_components r) \<and>
         (\<forall>revision. lr_expected r = Some revision \<longrightarrow> active_revision (plugin_named active p) = Some revision)
     | Unload r \<Rightarrow>
         plugin_named active (ur_plugin r) \<noteq> None \<and> plugins = {x \<in> set (ha_plugins active). pm_id x \<noteq> ur_plugin r} \<and>
         components = {c \<in> set (ha_components active). cm_owner c \<noteq> ur_plugin r} \<and>
         (\<forall>revision. ur_expected r = Some revision \<longrightarrow> active_revision (plugin_named active (ur_plugin r)) = Some revision)
     | ReconcileSet r \<Rightarrow> plugins = set (sr_plugins r) \<and> components = set (sr_components r))"

lemma installable_distinct: "installable h \<Longrightarrow> distinct (map pm_id (ha_plugins h))"
proof -
  assume h: "installable h"
  then have i: "indexed_manifests (kc_manifests (ha_kernel h))" "ha_plugins h = bt_vals (kc_manifests (ha_kernel h))"
    by (auto simp: installable_def config_ok_def)
  then have "map pm_id (bt_vals (kc_manifests (ha_kernel h))) = bt_keys (kc_manifests (ha_kernel h))"
    using bt_get_iff by (fastforce simp: indexed_manifests_def bt_vals_def bt_keys_def)
  with i show ?thesis by (simp add: indexed_manifests_def distinct_bt_keys)
qed

lemma wanted_set_ok:
  assumes "wanted_set mx active request s = (Inr ((plugins, components), build), s')" "installable active"
  shows "set_for active request (set plugins) (set components) \<and> report_ok mx request build"
proof (cases request)
  case (Load r)
  with assms(1) obtain m where m: "materialize_manifest mx (lr_manifest r) s = (Inr (m, build), s')"
    "(plugins, components) = apply_load active m (lr_components r)" "check_load_expected_revision active r = Inr ()"
    by (auto simp: wanted_set_def split: sum.splits prod.splits)
  note mf = materialized_manifest [OF m(1)]
  from mf(1) have "pm_id m = rq_id (lr_manifest r)" by (metis concrete_manifest_def manifest_for_def plugin_manifest.select_convs(1))
  with mf m(2,3) Load replace_or_push_set [OF installable_distinct [OF assms(2)], of m] show ?thesis
    by (auto simp: set_for_def Let_def apply_load_def check_load_expected_revision_def check_expected_revision_def
        split: option.splits if_splits)
next
  case (Unload r)
  with assms(1) show ?thesis
    by (auto simp: wanted_set_def set_for_def report_ok_def apply_unload_def rbind_eq_Inr ok_or_eq_Inr check_expected_revision_def
        split: option.splits if_splits)
next
  case (ReconcileSet r)
  with assms(1) show ?thesis by (auto simp: wanted_set_def set_for_def report_ok_def apply_reconcile_def)
qed

subsection \<open>Properties\<close>

text \<open>C31: one management request on a live harness always returns. It succeeds only for a caller that holds all the
  required authority, and then reconciler and kernel stand for a resolved harness whose plugins and components are
  exactly what the request asks of the active ones: a load replaces the plugin of that name together with its
  components, an unload removes them, a set replaces everything, and an expected revision was the active one. Anything
  built was built for the loaded plan, with no authority beyond policy, caller and request, and carries the revision of
  its content. When it fails the reconciler keeps its harness and nothing stays running; only the replacement of the
  generation itself may have touched the kernel, and a caller without the authority reaches no store and no build.\<close>

theorem management_does_what_it_is_asked:
  assumes "resolved active" "kernel_ok k"
  shows "\<exists>r active' k' w' s'. manage hk digest n mx request ceiling (active, k, w) s = Some (r, (active', k', w'), s') \<and>
    (permits_all (mx_caller mx) (mg_required (mx_policy mx)) \<or> (\<exists>e. r = Inl e) \<and> s' = s) \<and>
    (case r of
      Inl e \<Rightarrow> active' = active \<and> nothing_left k w k' w' \<and> ((\<forall>l b. e \<noteq> MgReconciliation (LiveRuntime l) b) \<longrightarrow> k' = k \<and> w' = w)
    | Inr result \<Rightarrow> resolved active' \<and> stands_for k' active' \<and> kn_config k' = ha_kernel active' \<and>
        set_for active request (set (ha_plugins active')) (set (ha_components active')) \<and>
        report_ok mx request (mr_build result))"
  using assms
proof (cases rule: manage_cases [where hk = hk and digest = digest and n = n and mx = mx and request = request
      and ceiling = ceiling and w = w and s = s])
  case (refused e s')
  then show ?thesis
    by (intro exI [of _ "Inl e"] exI [of _ active] exI [of _ k] exI [of _ w] exI [of _ s'])
      (auto simp: nothing_left_def logs_def starts_ready_def)
next
  case (attempted s1 s' plugins components build candidate t r)
  obtain q active' k' w' where t: "t = (q, active', k', w')" by (metis prod_cases4)
  note set = wanted_set_ok [OF attempted(4) resolved_installable [OF assms(1)]]
  have "case r of Inl e \<Rightarrow> active' = active \<and> nothing_left k w k' w' \<and>
        ((\<forall>l b. e \<noteq> MgReconciliation (LiveRuntime l) b) \<longrightarrow> k' = k \<and> w' = w)
      | Inr result \<Rightarrow> resolved active' \<and> stands_for k' active' \<and> kn_config k' = ha_kernel active' \<and>
        set_for active request (set (ha_plugins active')) (set (ha_components active')) \<and> report_ok mx request (mr_build result)"
  proof (cases q)
    case (Inl e)
    with attempted(8,10) t show ?thesis by (auto simp: attempt_ok_def)
  next
    case (Inr res)
    with attempted(5-8,10) t set show ?thesis by (simp add: attempt_ok_def)
  qed
  with attempted(1,9) t show ?thesis
    by (intro exI [of _ r] exI [of _ active'] exI [of _ k'] exI [of _ w'] exI [of _ s']) simp
qed

text \<open>C32: what third-party services can observe of a management request is bounded. Replacing them by others changes
  nothing as long as the two agree on checking the store, on verifying ready artifacts, on building with no more
  authority than policy, caller and plan all grant, and on storing artifacts under the revision of the very content:
  so no build is ever run with more authority and nothing is ever stored under another revision.\<close>

theorem builds_are_confined:
  fixes hk :: "('w, 'i, 'h) hooks"
  assumes "bv_preflight sv = bv_preflight sv'" "bv_verify sv = bv_verify sv'"
    "\<And>plan a s. a \<subseteq> mg_build policy \<inter> caller \<inter> pl_requested plan \<Longrightarrow> bv_execute sv plan a s = bv_execute sv' plan a s"
    "\<And>artifact content s. art_revision artifact = revision_of_content sha content \<Longrightarrow>
       bv_store sv artifact content s = bv_store sv' artifact content s"
  shows "manage hk digest n \<lparr>mx_caller = caller, mx_policy = policy, mx_services = sv, mx_sha = sha\<rparr> request ceiling live s =
    manage hk digest n \<lparr>mx_caller = caller, mx_policy = policy, mx_services = sv', mx_sha = sha\<rparr> request ceiling live s"
proof -
  let ?a = "\<lparr>mx_caller = caller, mx_policy = policy, mx_services = sv, mx_sha = sha\<rparr>"
  let ?b = "\<lparr>mx_caller = caller, mx_policy = policy, mx_services = sv', mx_sha = sha\<rparr>"
  have build: "build_artifact ?a plan s = build_artifact ?b plan s" for plan s
    using assms(3) [of "attenuate (attenuate (mg_build policy) caller) (pl_requested plan)" plan s] assms(4)
    by (simp add: build_artifact_def Let_def attenuate_def split: sum.splits prod.splits option.splits)
  have "materialize_artifact ?a input s = materialize_artifact ?b input s" for input s
    using assms(2) build by (simp add: materialize_artifact_def split: artifact_input.splits)
  then have "materialize_manifest ?a m s = materialize_manifest ?b m s" for m s
    by (simp add: materialize_manifest_def split: requested_execution.splits)
  then have w: "wanted_set ?a = wanted_set ?b"
    by (intro ext) (simp add: wanted_set_def split: management_request.splits sum.splits)
  have p: "(manage_preflight ?a :: harness \<Rightarrow> ('i, 'h) kernel \<Rightarrow> _) = manage_preflight ?b"
    using assms(1) by (intro ext) (simp add: manage_preflight_def split: sum.splits)
  show ?thesis unfolding manage_def w p by (rule refl)
qed

subsection \<open>Samples\<close>

definition sample_services :: "nat build_services" where
  "sample_services = \<lparr>bv_preflight = \<lambda>s. (Inr (), s + 1), bv_verify = \<lambda>a s. (Inr (), s + 1), bv_store = \<lambda>a c s. (Inr (), s + 1),
     bv_execute = \<lambda>plan a s. (Inl \<lparr>bf_message = ''no compiler'', bf_evidence = evidence_bounded [] []\<rparr>, s + 1)\<rparr>"

definition sample_policy :: management_policy where
  "sample_policy = \<lparr>mg_required = {''manage''}, mg_build = {''net''}\<rparr>"

definition sample_context :: "authority \<Rightarrow> nat build_services \<Rightarrow> nat management_context" where
  "sample_context caller sv = \<lparr>mx_caller = caller, mx_policy = sample_policy, mx_services = sv, mx_sha = \<lambda>c. ''00''\<rparr>"

theorem management_does_what_it_is_asked_witness:
  "\<exists>e k' w'. manage (pair_hooks []) (\<lambda>_. ''g'') 3 (sample_context {''net''} sample_services) (Unload \<lparr>ur_plugin = ''a'', ur_expected = None\<rparr>) {}
     (live_sample, live_kernel, pair_world) 0 = Some (Inl e, (live_sample, k', w'), 0)"
proof -
  have "\<not> permits_all (mx_caller (sample_context {''net''} sample_services)) (mg_required (mx_policy (sample_context {''net''} sample_services)))"
    by (simp add: sample_context_def sample_policy_def permits_all_def permits_def)
  with management_does_what_it_is_asked [OF live_sample_facts(1) live_start_facts(2), of "pair_hooks []" "\<lambda>_. ''g''" 3
      "sample_context {''net''} sample_services" "Unload \<lparr>ur_plugin = ''a'', ur_expected = None\<rparr>" "{}" pair_world 0]
  show ?thesis by auto
qed

theorem builds_are_confined_witness:
  "manage (pair_hooks []) (\<lambda>_. ''g'') 3 (sample_context {''manage'', ''net''} sample_services)
     (Unload \<lparr>ur_plugin = ''a'', ur_expected = None\<rparr>) {} (live_sample, live_kernel, pair_world) 0 =
   manage (pair_hooks []) (\<lambda>_. ''g'') 3 (sample_context {''manage'', ''net''} (sample_services\<lparr>bv_execute := \<lambda>plan a s.
       if ''manage'' \<in> a then (Inr \<lparr>be_output = None, be_evidence = evidence_bounded [] []\<rparr>, s) else bv_execute sample_services plan a s\<rparr>))
     (Unload \<lparr>ur_plugin = ''a'', ur_expected = None\<rparr>) {} (live_sample, live_kernel, pair_world) 0"
  unfolding sample_context_def
  by (rule builds_are_confined) (auto simp: sample_services_def sample_policy_def)

end
