(* ===== verification/Plugin_Store.thy ===== *)
theory Plugin_Store
  imports Durable_Host
begin

text \<open>
  What the first-party plugins share: a plugin keeps its state in the rows of its namespace, reads and writes them through
  its host, and stores values as JSON. The JSON library is a parameter, a codec per stored type. The programs of a
  plugin are state-passing functions over a state that includes the host's (\<open>Durable_Host\<close>); an error is what the code renders
  into a message, or the error of the host it renders.
\<close>

subsection \<open>Programs\<close>

datatype plugin_failure = FromHost kernel_error | Message string

type_synonym ('s, 'a) program = "'s \<Rightarrow> (plugin_failure + 'a) \<times> 's"

definition pbind :: "('s, 'a) program \<Rightarrow> ('a \<Rightarrow> ('s, 'b) program) \<Rightarrow> ('s, 'b) program" where
  "pbind f g s = (case f s of (Inl e, s') \<Rightarrow> (Inl e, s') | (Inr x, s') \<Rightarrow> g x s')"

definition preturn :: "'a \<Rightarrow> ('s, 'a) program" where
  "preturn x s = (Inr x, s)"

definition prefuse :: "string \<Rightarrow> ('s, 'a) program" where
  "prefuse m s = (Inl (Message m), s)"

definition plift :: "string + 'a \<Rightarrow> ('s, 'a) program" where
  "plift r s = (map_err Message r, s)"

definition prequire :: "bool \<Rightarrow> string \<Rightarrow> ('s, unit) program" where
  "prequire b m = (if b then preturn () else prefuse m)"

fun pmap :: "('a \<Rightarrow> ('s, 'b) program) \<Rightarrow> 'a list \<Rightarrow> ('s, 'b list) program" where
  "pmap f [] = preturn []"
| "pmap f (x # xs) = pbind (f x) (\<lambda>y. pbind (pmap f xs) (\<lambda>ys. preturn (y # ys)))"

text \<open>\<open>serde_json::to_vec\<close> and \<open>serde_json::from_slice\<close> at a type.\<close>

record 'a codec =
  cd_to :: "'a \<Rightarrow> string + blob"
  cd_from :: "blob \<Rightarrow> string + 'a"

text \<open>What is written, of the values the codec is faithful for, can be read back.\<close>

definition codec_writes :: "('a \<Rightarrow> bool) \<Rightarrow> 'a codec \<Rightarrow> bool" where
  "codec_writes P c \<longleftrightarrow> (\<forall>x b. P x \<longrightarrow> cd_to c x = Inr b \<longrightarrow> cd_from c b = Inr x)"

text \<open>Moreover what is read satisfies the checks of the type's own deserialisation.\<close>

definition codec_ok :: "('a \<Rightarrow> bool) \<Rightarrow> 'a codec \<Rightarrow> bool" where
  "codec_ok P c \<longleftrightarrow> codec_writes P c \<and> (\<forall>b x. cd_from c b = Inr x \<longrightarrow> P x)"

definition encode_row :: "'a codec \<Rightarrow> 'a \<Rightarrow> ('s, blob) program" where
  "encode_row c x = plift (cd_to c x)"

text \<open>\<open>value.map(from_slice).transpose()\<close>, and the same with an empty list for an absent row.\<close>

definition decode_option :: "'a codec \<Rightarrow> blob option \<Rightarrow> string + 'a option" where
  "decode_option c row = (case row of None \<Rightarrow> Inr None | Some b \<Rightarrow> rbind (cd_from c b) (\<lambda>x. Inr (Some x)))"

definition decode_list :: "'a list codec \<Rightarrow> blob option \<Rightarrow> string + 'a list" where
  "decode_list c row = (case row of None \<Rightarrow> Inr [] | Some b \<Rightarrow> cd_from c b)"

text \<open>\<open>push; sort; dedup\<close> on a vector of identifiers.\<close>

definition push_sorted :: "string list \<Rightarrow> string \<Rightarrow> string list" where
  "push_sorted xs x = remdups_adj (sort (xs @ [x]))"

lemma decode_simps [simp]:
  "decode_option c None = Inr None" "decode_list c' None = Inr []" "decode_list c' (Some b) = cd_from c' b"
  "decode_option c (Some b) = rbind (cd_from c b) (\<lambda>x. Inr (Some x))"
  by (simp_all add: decode_option_def decode_list_def)

lemma decode_option_eq: "decode_option c r = Inr x \<longleftrightarrow>
    (r = None \<and> x = None) \<or> (\<exists>b y. r = Some b \<and> cd_from c b = Inr y \<and> x = Some y)"
  by (cases r) (auto simp: rbind_eq_Inr)

lemma set_push_sorted [simp]: "set (push_sorted xs x) = insert x (set xs)"
  by (simp add: push_sorted_def)

lemma distinct_remdups_adj_sorted: "sorted xs \<Longrightarrow> distinct (remdups_adj xs)"
  by (induction xs rule: remdups_adj.induct) (auto simp: antisym)

lemma sorted_push_sorted: "sorted (push_sorted xs x)" "distinct (push_sorted xs x)"
  using distinct_remdups_adj_sorted [of "sort (xs @ [x])"] by (simp_all add: push_sorted_def)

lemma codec_writesD: "codec_writes P c \<Longrightarrow> P x \<Longrightarrow> cd_to c x = Inr b \<Longrightarrow> cd_from c b = Inr x"
  unfolding codec_writes_def by blast

lemma codec_ok_writes: "codec_ok P c \<Longrightarrow> codec_writes P c"
  by (simp add: codec_ok_def)

lemma codec_write: "codec_ok P c \<Longrightarrow> P x \<Longrightarrow> cd_to c x = Inr b \<Longrightarrow> cd_from c b = Inr x"
  by (rule codec_writesD [OF codec_ok_writes])

lemma codec_read: "codec_ok P c \<Longrightarrow> cd_from c b = Inr x \<Longrightarrow> P x"
  unfolding codec_ok_def by blast

lemma codec_read_list: "codec_ok (list_all p) c \<Longrightarrow> decode_list c r = Inr xs \<Longrightarrow> list_all p xs"
  using codec_read [of "list_all p" c _ xs] by (cases r) simp_all

subsection \<open>What a program reads and writes\<close>

text \<open>
  A program reads when the rows stay as they are, whatever it answers; it updates when an error leaves the rows as they are
  and a result relates them to the new ones.
\<close>

definition reads :: "('s \<Rightarrow> 'r) \<Rightarrow> ('s, 'a) program \<Rightarrow> ('r \<Rightarrow> 'a \<Rightarrow> bool) \<Rightarrow> bool" where
  "reads rows f P \<longleftrightarrow> (\<forall>s r s'. f s = (r, s') \<longrightarrow> rows s' = rows s \<and> (\<forall>x. r = Inr x \<longrightarrow> P (rows s) x))"

definition updates :: "('s \<Rightarrow> 'r) \<Rightarrow> ('s, 'a) program \<Rightarrow> ('r \<Rightarrow> 'a \<Rightarrow> 'r \<Rightarrow> bool) \<Rightarrow> bool" where
  "updates rows f P \<longleftrightarrow> (\<forall>s r s'. f s = (r, s') \<longrightarrow>
      (\<forall>e. r = Inl e \<longrightarrow> rows s' = rows s) \<and> (\<forall>x. r = Inr x \<longrightarrow> P (rows s) x (rows s')))"

lemma pbind_cases:
  "pbind f g s = (r, s2) \<longleftrightarrow>
     (\<exists>e. f s = (Inl e, s2) \<and> r = Inl e) \<or> (\<exists>x s1. f s = (Inr x, s1) \<and> g x s1 = (r, s2))"
  by (auto simp: pbind_def split: prod.splits sum.splits)

named_theorems program_rules "what the pieces of a program read and update"

lemma reads_return [program_rules]: "reads rows (preturn x) (\<lambda>R y. y = x)"
  by (auto simp: reads_def preturn_def)

lemma reads_refuse [program_rules]: "reads rows (prefuse m) (\<lambda>R y. False)"
  by (simp add: reads_def prefuse_def)

lemma reads_lift [program_rules]: "reads rows (plift r) (\<lambda>R y. r = Inr y)"
  by (simp add: reads_def plift_def)

lemma reads_require [program_rules]: "reads rows (prequire b m) (\<lambda>R y. b)"
  by (simp add: reads_def prequire_def preturn_def prefuse_def)

lemma reads_encode [program_rules]: "reads rows (encode_row c x) (\<lambda>R y. cd_to c x = Inr y)"
  by (simp add: encode_row_def reads_lift)

lemma reads_mono: "reads rows f P \<Longrightarrow> (\<And>R x. P R x \<Longrightarrow> Q R x) \<Longrightarrow> reads rows f Q"
  unfolding reads_def by blast

lemma reads_bind [program_rules]:
  assumes "reads rows f P" "\<And>x. reads rows (g x) (Q x)"
  shows "reads rows (pbind f g) (\<lambda>R y. \<exists>x. P R x \<and> Q x R y)"
  unfolding reads_def pbind_cases
proof (intro allI impI, elim disjE exE conjE)
  fix s r s2 x s1
  assume "f s = (Inr x, s1)" "g x s1 = (r, s2)"
  with assms show "rows s2 = rows s \<and> (\<forall>y. r = Inr y \<longrightarrow> (\<exists>x. P (rows s) x \<and> Q x (rows s) y))"
    unfolding reads_def by metis
qed (use assms in \<open>auto simp: reads_def\<close>)

lemma reads_option [program_rules]:
  assumes "reads rows f P" "\<And>y. reads rows (g y) (Q y)"
  shows "reads rows (case x of None \<Rightarrow> f | Some y \<Rightarrow> g y) (\<lambda>R z. case x of None \<Rightarrow> P R z | Some y \<Rightarrow> Q y R z)"
  using assms by (cases x) simp_all

lemma reads_if [program_rules]:
  assumes "reads rows f P" "reads rows g Q"
  shows "reads rows (if b then f else g) (\<lambda>R z. if b then P R z else Q R z)"
  using assms by (cases b) simp_all

lemma updates_mono: "updates rows f P \<Longrightarrow> (\<And>R x R'. P R x R' \<Longrightarrow> Q R x R') \<Longrightarrow> updates rows f Q"
  unfolding updates_def by blast

lemma reads_updates: "reads rows f P \<Longrightarrow> updates rows f (\<lambda>R x R'. R' = R \<and> P R x)"
  unfolding reads_def updates_def by blast

lemma updates_after_reads:
  assumes "reads rows f P" "\<And>x. updates rows (g x) (Q x)"
  shows "updates rows (pbind f g) (\<lambda>R y R'. \<exists>x. P R x \<and> Q x R y R')"
  unfolding updates_def pbind_cases
proof (intro allI impI, elim disjE exE conjE)
  fix s r s2 x s1
  assume a: "f s = (Inr x, s1)" "g x s1 = (r, s2)"
  with assms(1) have "rows s1 = rows s" "P (rows s) x" unfolding reads_def by blast+
  with a(2) assms(2) [of x] show "(\<forall>e. r = Inl e \<longrightarrow> rows s2 = rows s) \<and>
      (\<forall>y. r = Inr y \<longrightarrow> (\<exists>x. P (rows s) x \<and> Q x (rows s) y (rows s2)))"
    unfolding updates_def by metis
qed (use assms in \<open>auto simp: reads_def\<close>)

text \<open>A write that ends a program: what follows cannot fail.\<close>

lemma updates_then_return:
  assumes "updates rows f P"
  shows "updates rows (pbind f (\<lambda>x. preturn (g x))) (\<lambda>R y R'. \<exists>x. y = g x \<and> P R x R')"
  using assms unfolding updates_def pbind_cases preturn_def by (fastforce intro: exI)

lemma updates_refuse: "updates rows (prefuse m) (\<lambda>R x R'. False)"
  by (simp add: updates_def prefuse_def)

lemma updates_option:
  assumes "updates rows f P" "\<And>y. updates rows (g y) (Q y)"
  shows "updates rows (case x of None \<Rightarrow> f | Some y \<Rightarrow> g y)
    (\<lambda>R z R'. case x of None \<Rightarrow> P R z R' | Some y \<Rightarrow> Q y R z R')"
  using assms by (cases x) simp_all

lemmas update_rules = updates_option updates_refuse updates_after_reads

lemma reads_map:
  assumes "\<And>x. reads rows (f x) (P x)"
  shows "reads rows (pmap f xs) (\<lambda>R ys. list_all2 (\<lambda>x y. P x R y) xs ys)"
proof (induction xs)
  case (Cons x xs)
  have "reads rows (pmap f (x # xs)) (\<lambda>R zs. \<exists>y. P x R y \<and> (\<exists>ys. list_all2 (\<lambda>x y. P x R y) xs ys \<and> zs = y # ys))"
    by (simp, rule reads_bind [OF assms], rule reads_bind [OF Cons reads_return])
  then show ?case by (rule reads_mono) auto
qed (simp add: reads_return)

subsection \<open>A store of rows\<close>

text \<open>
  What a plugin relies on when it reads and writes rows: reading answers the row, writing applies the operations in order,
  every assertion holding, or fails and leaves everything as it was.
\<close>

type_synonym records = "resource_namespace \<times> string \<rightharpoonup> blob"

definition get_option :: "'a codec \<Rightarrow> ('s, blob option) program \<Rightarrow> ('s, 'a option) program" where
  "get_option c f = pbind f (\<lambda>row. plift (decode_option c row))"

definition get_list :: "'a list codec \<Rightarrow> ('s, blob option) program \<Rightarrow> ('s, 'a list) program" where
  "get_list c f = pbind f (\<lambda>row. plift (decode_list c row))"

locale row_store =
  fixes rows :: "'s \<Rightarrow> records"
    and get :: "resource_namespace \<Rightarrow> string \<Rightarrow> ('s, blob option) program"
    and put :: "resource_namespace \<Rightarrow> transaction_op list \<Rightarrow> ('s, unit) program"
  assumes get_reads: "reads rows (get ns k) (\<lambda>R v. v = R (ns, k))"
    and put_updates: "updates rows (put ns ops) (\<lambda>R u R'. ops_effect ns ops R = Some R')"
begin

lemma get_option_reads: "reads rows (get_option c (get ns k)) (\<lambda>R v. decode_option c (R (ns, k)) = Inr v)"
  unfolding get_option_def by (rule reads_mono, rule reads_bind [OF get_reads reads_lift]) simp

lemma get_list_reads: "reads rows (get_list c (get ns k)) (\<lambda>R v. decode_list c (R (ns, k)) = Inr v)"
  unfolding get_list_def by (rule reads_mono, rule reads_bind [OF get_reads reads_lift]) simp

text \<open>A program that reads, decides what to write, writes, and answers.\<close>

lemma read_then_put:
  assumes "reads rows f P"
  shows "updates rows (pbind f (\<lambda>x. pbind (put (ns x) (ops x)) (\<lambda>_. preturn (g x))))
    (\<lambda>R y R'. \<exists>x. P R x \<and> y = g x \<and> ops_effect (ns x) (ops x) R = Some R')"
  by (rule updates_mono, rule updates_after_reads [OF assms],
      rule updates_then_return [OF put_updates, where g = "\<lambda>_. g x" for x]) auto

end

subsection \<open>The host as a store of rows\<close>

definition from_host :: "'a host_op \<Rightarrow> (host_state, 'a) program" where
  "from_host f hs = (let (r, hs') = f hs in (map_err FromHost r, hs'))"

definition host_rows :: "host_state \<Rightarrow> records" where
  "host_rows hs = db_records (hs_db hs)"

definition read_raw :: "plugin_host \<Rightarrow> resource_namespace \<Rightarrow> string \<Rightarrow> (host_state, blob option) program" where
  "read_raw h ns k = from_host (read_durable h ns k)"

definition write_rows :: "plugin_host \<Rightarrow> resource_namespace \<Rightarrow> transaction_op list \<Rightarrow> (host_state, unit) program" where
  "write_rows h ns ops = from_host (transact_durable h ns ops)"

lemma from_host_cases: "from_host f hs = (r, hs') \<longleftrightarrow> (\<exists>q. f hs = (q, hs') \<and> r = map_err FromHost q)"
  by (auto simp: from_host_def split: prod.splits)

lemma read_durable_rows:
  assumes "read_durable h ns k hs = (r, hs')"
  shows "hs_scope hs' = hs_scope hs \<and> db_schemas (hs_db hs') = db_schemas (hs_db hs) \<and> host_rows hs' = host_rows hs \<and>
    (\<forall>v. r = Inr v \<longrightarrow> v = host_rows hs (ns, k))"
proof (cases "require_persistence_operation h persistence_read ns")
  case (Inl e)
  with assms show ?thesis by (auto simp: read_durable_def hcheck_then)
next
  case (Inr u)
  with assms obtain q db where q: "db_read (ph_fault h) (ph_plugin h) ns k (hs_db hs) = (q, db)"
    "hs' = hs\<lparr>hs_db := db\<rparr>" "r = map_err (\<lambda>e. PersistenceFailed (ph_plugin h) (show_persistence_error (ph_engine h) e)) q"
    by (auto simp: read_durable_def hcheck_then on_persistence_cases)
  with read_tables [where fault = "ph_fault h" and caller = "ph_plugin h" and ns = ns and key = k and d = "hs_db hs"] show ?thesis
    by (auto simp: host_rows_def tables_eq split: sum.splits)
qed

lemma transact_durable_rows:
  assumes "transact_durable h ns ops hs = (r, hs')"
  shows "db_schemas (hs_db hs') = db_schemas (hs_db hs) \<and> (\<forall>e. r = Inl e \<longrightarrow> host_rows hs' = host_rows hs) \<and>
    (\<forall>u. r = Inr u \<longrightarrow> ops_effect ns ops (host_rows hs) = Some (host_rows hs'))"
proof -
  have c: "(\<exists>e. q = Inl e \<and> tables d' = tables d) \<or> (q = Inr () \<and> db_schemas d' = db_schemas d \<and>
      ops_effect ns ops (db_records d) = Some (db_records d'))"
    if "transact (ph_fault h) (ph_plugin h) ns ops d = (q, d')" for q d d'
    using transact_many_cases [OF that [unfolded transact_def]] by (auto simp: batch_of_def bind_eq_Some_conv)
  show ?thesis
  proof (cases "require_persistence_operation h persistence_write ns")
    case (Inl e)
    with assms show ?thesis by (auto simp: transact_durable_def Let_def host_rows_def)
  next
    case (Inr u)
    show ?thesis
    proof (cases "ph_cancelled h")
      case True
      with assms Inr show ?thesis by (auto simp: transact_durable_def Let_def require_not_cancelled_def host_rows_def)
    next
      case False
      obtain q d' where q: "transact (ph_fault h) (ph_plugin h) ns ops (hs_db hs) = (q, d')" by fastforce
      with assms Inr False have "hs_db hs' = d'"
        "r = map_err (\<lambda>e. PersistenceFailed (ph_plugin h) (show_persistence_error (ph_engine h) e)) q"
        by (auto simp: transact_durable_def Let_def require_not_cancelled_def on_persistence_def trace_result_def split: sum.splits)
      with c [OF q] show ?thesis by (auto simp: host_rows_def tables_eq)
    qed
  qed
qed

interpretation host_store: row_store host_rows "read_raw h" "write_rows h" for h
proof
  show "reads host_rows (read_raw h ns k) (\<lambda>R v. v = R (ns, k))" for ns k
    by (auto simp: reads_def read_raw_def from_host_cases dest!: read_durable_rows)
  show "updates host_rows (write_rows h ns ops) (\<lambda>R u R'. ops_effect ns ops R = Some R')" for ns ops
    by (auto simp: updates_def write_rows_def from_host_cases map_err_eq_Inl dest!: transact_durable_rows)
qed

subsection \<open>Codecs for concrete instances\<close>

text \<open>A codec that knows the values of a table.\<close>

definition table_codec :: "('a \<times> blob) list \<Rightarrow> 'a codec" where
  "table_codec t = \<lparr>cd_to = (\<lambda>x. ok_or ''not in the table'' (map_of t x)),
     cd_from = (\<lambda>b. ok_or ''not in the table'' (map_of (map (\<lambda>p. (snd p, fst p)) t) b))\<rparr>"

lemma table_codec_ok:
  assumes "distinct (map snd t)" "list_all P (map fst t)"
  shows "codec_ok P (table_codec t)"
proof -
  have "map_of (map (\<lambda>p. (snd p, fst p)) t) b = Some x" if "map_of t x = Some b" for x b
    using map_of_SomeD [OF that] assms(1) by (intro map_of_is_SomeI) (auto simp: comp_def intro!: rev_image_eqI)
  moreover have "P x" if "map_of (map (\<lambda>p. (snd p, fst p)) t) b = Some x" for x b
    using map_of_SomeD [OF that] assms(2) by (auto simp: list_all_iff)
  ultimately show ?thesis by (auto simp: codec_ok_def codec_writes_def table_codec_def)
qed

end
