(* ===== verification/Sessions.thy ===== *)
theory Sessions
  imports Plugin_Store Values "HOL-Library.Sublist"
begin

text \<open>
  The session plugin (\<open>phenix-plugin-sessions/src/implementation.rs\<close>, data in \<open>phenix-sdk/src/contracts/sessions.rs\<close>): flat
  sessions with their inputs, their portable history and journals by stream, in the rows of one namespace. Every
  command reads, decides and writes in one transaction that asserts what it has read. The specification is a state machine over sessions;
  the rows implement it. What is shown of them is for stores whose histories and journals hold values that JSON reproduces: no
  floats, and no deeper than the JSON reader goes.
\<close>

subsection \<open>Data\<close>

type_synonym session_id = string

datatype session_lifecycle = SessionOpen | SessionClosed

record session_record =
  sr_id :: session_id
  sr_directory :: "string option"
  sr_title :: "string option"
  sr_lifecycle :: session_lifecycle

definition session_is_open :: "session_record \<Rightarrow> bool" where
  "session_is_open s \<longleftrightarrow> sr_lifecycle s = SessionOpen"

definition session_new :: "session_id \<Rightarrow> session_record" where
  "session_new i = \<lparr>sr_id = i, sr_directory = None, sr_title = None, sr_lifecycle = SessionOpen\<rparr>"

datatype session_input_kind = InputUser | InputRoot

record session_input =
  si_sequence :: nat
  si_kind :: session_input_kind
  si_content :: "8 word list"

datatype history_role = HistoryUser | HistoryAssistant | HistoryTool

datatype history_part = HistoryText string | HistoryMedia string string

record history_call =
  hc_call :: string
  hc_callable :: string
  hc_arguments :: phx_value

datatype history_outcome = HistorySuccess phx_value | HistoryFailure string string

record history_result =
  hr_call :: string
  hr_callable :: string
  hr_result :: history_outcome

datatype finish_reason = FinishComplete | FinishToolCalls | FinishLength | FinishContentFilter | FinishCancelled
  | FinishProviderError

record history_draft =
  hd_role :: history_role
  hd_content :: "history_part list"
  hd_calls :: "history_call list"
  hd_results :: "history_result list"
  hd_finish :: "finish_reason option"
  hd_usage :: "(nat option \<times> nat option) option"
  hd_context :: string
  hd_instruction :: string

record history_entry = history_draft +
  he_sequence :: nat

record journal_draft =
  jd_stream :: contract_id
  jd_payload :: phx_value

record journal_entry =
  je_sequence :: nat
  je_stream :: contract_id
  je_payload :: phx_value

datatype session_transition = TransitionRename string | TransitionClose

datatype session_command =
  SessionCreate session_record
| SessionGet session_id
| SessionList
| SessionRename session_id string
| SessionClose session_id
| SessionTransition session_id session_transition journal_draft
| SessionAppendJournal session_id journal_draft
| SessionJournal session_id contract_id "nat option"
| SessionContinue session_id session_input_kind "8 word list"
| SessionInputs session_id
| SessionResolveInput string
| SessionAppendHistory session_id history_draft
| SessionHistory session_id
| SessionResolveHistory string

datatype session_response =
  SessionCreated session_record
| SessionFound "session_record option"
| SessionsFound "session_record list"
| SessionUpdated session_record
| SessionTransitioned session_record journal_entry
| SessionJournalAppended journal_entry
| SessionJournalRead nat "journal_entry list"
| SessionContinued session_record session_input
| SessionInputsRead "session_input list"
| SessionInputFound "session_input option"
| SessionHistoryAppended history_entry
| SessionHistoryRead "history_entry list"
| SessionHistoryFound "history_entry option"

record session_codecs =
  sk_ids :: "session_id list codec"
  sk_session :: "session_record codec"
  sk_inputs :: "session_input list codec"
  sk_history :: "history_entry list codec"
  sk_journal :: "journal_entry list codec"

subsection \<open>Keys and reads\<close>

definition session_namespace :: resource_namespace where "session_namespace = ''phenix.sessions.state''"
definition all_sessions_key :: string where "all_sessions_key = ''sessions/@all''"

definition session_key :: "session_id \<Rightarrow> string" where "session_key i = ''session/'' @ i"
definition inputs_key :: "session_id \<Rightarrow> string" where "inputs_key i = ''inputs/'' @ i"
definition history_key :: "session_id \<Rightarrow> string" where "history_key i = ''history/'' @ i"

definition journal_key :: "session_id \<Rightarrow> contract_id \<Rightarrow> string" where
  "journal_key i stream = ''journal/'' @ i @ ''/'' @ stream"

definition session_input_resource :: "session_id \<Rightarrow> nat \<Rightarrow> string" where
  "session_input_resource i n = ''input/'' @ i @ ''/'' @ show_nat n"

definition session_history_resource :: "session_id \<Rightarrow> nat \<Rightarrow> string" where
  "session_history_resource i n = ''history/'' @ i @ ''/'' @ show_nat n"

definition session_row :: "plugin_host \<Rightarrow> string \<Rightarrow> (host_state, blob option) program" where
  "session_row h k = read_raw h session_namespace k"

definition session_write :: "plugin_host \<Rightarrow> transaction_op list \<Rightarrow> (host_state, unit) program" where
  "session_write h ops = write_rows h session_namespace ops"

definition read_session :: "session_codecs \<Rightarrow> plugin_host \<Rightarrow> session_id \<Rightarrow> (host_state, session_record option) program" where
  "read_session C h i = get_option (sk_session C) (session_row h (session_key i))"

definition read_inputs :: "session_codecs \<Rightarrow> plugin_host \<Rightarrow> session_id \<Rightarrow> (host_state, session_input list) program" where
  "read_inputs C h i = get_list (sk_inputs C) (session_row h (inputs_key i))"

definition read_history :: "session_codecs \<Rightarrow> plugin_host \<Rightarrow> session_id \<Rightarrow> (host_state, history_entry list) program" where
  "read_history C h i = get_list (sk_history C) (session_row h (history_key i))"

definition read_sessions :: "session_codecs \<Rightarrow> plugin_host \<Rightarrow> (host_state, session_record list) program" where
  "read_sessions C h =
     pbind (get_list (sk_ids C) (session_row h all_sessions_key)) (\<lambda>ids.
       pmap (\<lambda>i. pbind (read_session C h i) (\<lambda>s. case s of
           None \<Rightarrow> prefuse (''missing durable session: '' @ i) | Some s \<Rightarrow> preturn s)) ids)"

definition known_session :: "session_codecs \<Rightarrow> plugin_host \<Rightarrow> session_id \<Rightarrow> (host_state, session_record) program" where
  "known_session C h i = pbind (read_session C h i) (\<lambda>s. case s of
     None \<Rightarrow> prefuse (''unknown session: '' @ i) | Some s \<Rightarrow> preturn s)"

definition require_open :: "session_record \<Rightarrow> (host_state, unit) program" where
  "require_open s = prequire (session_is_open s) (''session is closed: '' @ sr_id s)"

definition require_open_session :: "session_codecs \<Rightarrow> plugin_host \<Rightarrow> session_id \<Rightarrow> (host_state, session_record) program" where
  "require_open_session C h i = pbind (known_session C h i) (\<lambda>s. pbind (require_open s) (\<lambda>_. preturn s))"

subsection \<open>Creating, renaming, closing\<close>

definition prepare_create ::
    "session_codecs \<Rightarrow> plugin_host \<Rightarrow> session_record \<Rightarrow> (host_state, session_record \<times> transaction_op list) program" where
  "prepare_create C h s =
     pbind (prequire (session_is_open s) ''new sessions must start open'') (\<lambda>_.
     pbind (read_session C h (sr_id s)) (\<lambda>old.
     pbind (prequire (old = None) (''session already exists: '' @ sr_id s)) (\<lambda>_.
     pbind (session_row h all_sessions_key) (\<lambda>old_ids.
     pbind (plift (decode_list (sk_ids C) old_ids)) (\<lambda>ids.
     pbind (encode_row (sk_session C) s) (\<lambda>v.
     pbind (encode_row (sk_ids C) (push_sorted ids (sr_id s))) (\<lambda>w.
       preturn (s, [OpAssert (session_key (sr_id s)) None, OpAssert all_sessions_key old_ids,
         OpPut (session_key (sr_id s)) v, OpPut all_sessions_key w]))))))))"

definition create_session :: "session_codecs \<Rightarrow> plugin_host \<Rightarrow> session_record \<Rightarrow> (host_state, session_response) program" where
  "create_session C h s =
     pbind (prepare_create C h s) (\<lambda>p. pbind (session_write h (snd p)) (\<lambda>_. preturn (SessionCreated (fst p))))"

definition update_session ::
    "session_codecs \<Rightarrow> plugin_host \<Rightarrow> session_id \<Rightarrow> (session_record \<Rightarrow> (host_state, session_record) program)
     \<Rightarrow> (host_state, session_response) program" where
  "update_session C h i mutate =
     pbind (session_row h (session_key i)) (\<lambda>old. case old of
         None \<Rightarrow> prefuse (''unknown session: '' @ i)
       | Some old \<Rightarrow>
           pbind (plift (cd_from (sk_session C) old)) (\<lambda>s.
           pbind (mutate s) (\<lambda>s'.
           pbind (encode_row (sk_session C) s') (\<lambda>v.
           pbind (session_write h [OpAssert (session_key i) (Some old), OpPut (session_key i) v]) (\<lambda>_.
             preturn (SessionUpdated s'))))))"

definition rename_session :: "session_codecs \<Rightarrow> plugin_host \<Rightarrow> session_id \<Rightarrow> string \<Rightarrow> (host_state, session_response) program" where
  "rename_session C h i title =
     update_session C h i (\<lambda>s. pbind (require_open s) (\<lambda>_. preturn (s\<lparr>sr_title := Some title\<rparr>)))"

definition close_session :: "session_codecs \<Rightarrow> plugin_host \<Rightarrow> session_id \<Rightarrow> (host_state, session_response) program" where
  "close_session C h i =
     update_session C h i (\<lambda>s. pbind (require_open s) (\<lambda>_. preturn (s\<lparr>sr_lifecycle := SessionClosed\<rparr>)))"

subsection \<open>Journals\<close>

definition entry_of_draft :: "journal_entry list \<Rightarrow> journal_draft \<Rightarrow> journal_entry" where
  "entry_of_draft es d = \<lparr>je_sequence = (if es = [] then 1 else je_sequence (last es) + 1), je_stream = jd_stream d,
     je_payload = jd_payload d\<rparr>"

definition prepare_journal_append ::
    "session_codecs \<Rightarrow> plugin_host \<Rightarrow> session_id \<Rightarrow> journal_draft
     \<Rightarrow> (host_state, journal_entry \<times> transaction_op list) program" where
  "prepare_journal_append C h i d =
     (let k = journal_key i (jd_stream d)
      in pbind (session_row h k) (\<lambda>old.
         pbind (plift (decode_list (sk_journal C) old)) (\<lambda>es.
         pbind (prequire (\<not> list_ex (\<lambda>e. je_stream e \<noteq> jd_stream d) es)
           (''session journal stream mismatch for '' @ i @ '': '' @ jd_stream d)) (\<lambda>_.
         pbind (prequire (es = [] \<or> je_sequence (last es) < u64_max) ''session journal sequence overflow'') (\<lambda>_.
           let e = entry_of_draft es d
           in pbind (encode_row (sk_journal C) (es @ [e])) (\<lambda>v. preturn (e, [OpAssert k old, OpPut k v])))))))"

definition apply_transition :: "session_transition \<Rightarrow> session_record \<Rightarrow> session_record" where
  "apply_transition t s = (case t of
     TransitionRename title \<Rightarrow> s\<lparr>sr_title := Some title\<rparr> | TransitionClose \<Rightarrow> s\<lparr>sr_lifecycle := SessionClosed\<rparr>)"

definition transition_session ::
    "session_codecs \<Rightarrow> plugin_host \<Rightarrow> session_id \<Rightarrow> session_transition \<Rightarrow> journal_draft
     \<Rightarrow> (host_state, session_response) program" where
  "transition_session C h i t d =
     pbind (session_row h (session_key i)) (\<lambda>old. case old of
         None \<Rightarrow> prefuse (''unknown session: '' @ i)
       | Some old \<Rightarrow>
           pbind (plift (cd_from (sk_session C) old)) (\<lambda>s.
           pbind (require_open s) (\<lambda>_.
           pbind (encode_row (sk_session C) (apply_transition t s)) (\<lambda>v.
           pbind (prepare_journal_append C h i d) (\<lambda>p.
           pbind (session_write h ([OpAssert (session_key i) (Some old), OpPut (session_key i) v] @ snd p)) (\<lambda>_.
             preturn (SessionTransitioned (apply_transition t s) (fst p))))))))"

definition append_journal ::
    "session_codecs \<Rightarrow> plugin_host \<Rightarrow> session_id \<Rightarrow> journal_draft \<Rightarrow> (host_state, session_response) program" where
  "append_journal C h i d =
     pbind (known_session C h i) (\<lambda>_. pbind (prepare_journal_append C h i d) (\<lambda>p.
       pbind (session_write h (snd p)) (\<lambda>_. preturn (SessionJournalAppended (fst p)))))"

definition through_sequence :: "journal_entry list \<Rightarrow> nat" where
  "through_sequence es = (if es = [] then 0 else je_sequence (last es))"

definition entries_after :: "nat option \<Rightarrow> journal_entry list \<Rightarrow> journal_entry list" where
  "entries_after after es = (case after of None \<Rightarrow> es | Some n \<Rightarrow> filter (\<lambda>e. n < je_sequence e) es)"

definition read_journal_response ::
    "session_codecs \<Rightarrow> plugin_host \<Rightarrow> session_id \<Rightarrow> contract_id \<Rightarrow> nat option \<Rightarrow> (host_state, session_response) program" where
  "read_journal_response C h i stream after =
     pbind (known_session C h i) (\<lambda>_.
     pbind (get_list (sk_journal C) (session_row h (journal_key i stream))) (\<lambda>es.
     pbind (prequire (\<not> list_ex (\<lambda>e. je_stream e \<noteq> stream) es)
       (''session journal stream mismatch for '' @ i @ '': '' @ stream)) (\<lambda>_.
       preturn (SessionJournalRead (through_sequence es) (entries_after after es)))))"

subsection \<open>Inputs and history\<close>

definition continue_session ::
    "session_codecs \<Rightarrow> plugin_host \<Rightarrow> session_id \<Rightarrow> session_input_kind \<Rightarrow> 8 word list
     \<Rightarrow> (host_state, session_response) program" where
  "continue_session C h i kind content =
     pbind (require_open_session C h i) (\<lambda>s.
     pbind (session_row h (inputs_key i)) (\<lambda>old.
     pbind (plift (decode_list (sk_inputs C) old)) (\<lambda>xs.
       let x = \<lparr>si_sequence = length xs + 1, si_kind = kind, si_content = content\<rparr>
       in pbind (encode_row (sk_inputs C) (xs @ [x])) (\<lambda>v.
          pbind (session_write h [OpAssert (inputs_key i) old, OpPut (inputs_key i) v]) (\<lambda>_.
            preturn (SessionContinued s x))))))"

definition history_of_draft :: "nat \<Rightarrow> history_draft \<Rightarrow> history_entry" where
  "history_of_draft n d = \<lparr>hd_role = hd_role d, hd_content = hd_content d, hd_calls = hd_calls d, hd_results = hd_results d,
     hd_finish = hd_finish d, hd_usage = hd_usage d, hd_context = hd_context d, hd_instruction = hd_instruction d,
     he_sequence = n\<rparr>"

definition append_history ::
    "session_codecs \<Rightarrow> plugin_host \<Rightarrow> session_id \<Rightarrow> history_draft \<Rightarrow> (host_state, session_response) program" where
  "append_history C h i d =
     pbind (require_open_session C h i) (\<lambda>_.
     pbind (session_row h (history_key i)) (\<lambda>old.
     pbind (plift (decode_list (sk_history C) old)) (\<lambda>xs.
       let x = history_of_draft (length xs + 1) d
       in pbind (encode_row (sk_history C) (xs @ [x])) (\<lambda>v.
          pbind (session_write h [OpAssert (history_key i) old, OpPut (history_key i) v]) (\<lambda>_.
            preturn (SessionHistoryAppended x))))))"

text \<open>\<open>input/<session>/<sequence>\<close> and \<open>history/<session>/<sequence>\<close>.\<close>

definition parse_resource :: "string \<Rightarrow> string \<Rightarrow> string \<Rightarrow> string + session_id \<times> nat" where
  "parse_resource pre invalid resource =
     rbind (ok_or (invalid @ resource) (strip_prefix pre resource)) (\<lambda>v.
     rbind (ok_or (invalid @ resource) (rsplit_once CHR ''/'' v)) (\<lambda>(i, n).
     rbind (parse_identifier i) (\<lambda>i.
     rbind (ok_or (invalid @ resource) (parse_u64 n)) (\<lambda>n. Inr (i, n)))))"

definition resolve_input_resource ::
    "session_codecs \<Rightarrow> plugin_host \<Rightarrow> string \<Rightarrow> (host_state, session_input option) program" where
  "resolve_input_resource C h resource =
     pbind (plift (parse_resource ''input/'' ''invalid session input resource: '' resource)) (\<lambda>(i, n).
     pbind (read_session C h i) (\<lambda>s. case s of
         None \<Rightarrow> preturn None
       | Some _ \<Rightarrow> pbind (read_inputs C h i) (\<lambda>xs. preturn (find (\<lambda>x. si_sequence x = n) xs))))"

definition resolve_history_resource ::
    "session_codecs \<Rightarrow> plugin_host \<Rightarrow> string \<Rightarrow> (host_state, history_entry option) program" where
  "resolve_history_resource C h resource =
     pbind (plift (parse_resource ''history/'' ''invalid session history resource: '' resource)) (\<lambda>(i, n).
     pbind (read_session C h i) (\<lambda>s. case s of
         None \<Rightarrow> preturn None
       | Some _ \<Rightarrow> pbind (read_history C h i) (\<lambda>xs. preturn (find (\<lambda>x. he_sequence x = n) xs))))"

subsection \<open>Commands\<close>

definition handle_session :: "session_codecs \<Rightarrow> plugin_host \<Rightarrow> session_command \<Rightarrow> (host_state, session_response) program" where
  "handle_session C h cmd = (case cmd of
     SessionCreate s \<Rightarrow> create_session C h s
   | SessionGet i \<Rightarrow> pbind (read_session C h i) (\<lambda>s. preturn (SessionFound s))
   | SessionList \<Rightarrow> pbind (read_sessions C h) (\<lambda>ss. preturn (SessionsFound ss))
   | SessionRename i title \<Rightarrow> rename_session C h i title
   | SessionClose i \<Rightarrow> close_session C h i
   | SessionTransition i t d \<Rightarrow> transition_session C h i t d
   | SessionAppendJournal i d \<Rightarrow> append_journal C h i d
   | SessionJournal i stream after \<Rightarrow> read_journal_response C h i stream after
   | SessionContinue i kind content \<Rightarrow> continue_session C h i kind content
   | SessionInputs i \<Rightarrow> pbind (known_session C h i) (\<lambda>_. pbind (read_inputs C h i) (\<lambda>xs. preturn (SessionInputsRead xs)))
   | SessionResolveInput r \<Rightarrow> pbind (resolve_input_resource C h r) (\<lambda>x. preturn (SessionInputFound x))
   | SessionAppendHistory i d \<Rightarrow> append_history C h i d
   | SessionHistory i \<Rightarrow> pbind (known_session C h i) (\<lambda>_. pbind (read_history C h i) (\<lambda>xs. preturn (SessionHistoryRead xs)))
   | SessionResolveHistory r \<Rightarrow> pbind (resolve_history_resource C h r) (\<lambda>x. preturn (SessionHistoryFound x)))"

text \<open>The mutation service: the creation is prepared for another plugin to commit.\<close>

definition handle_mutation ::
    "session_codecs \<Rightarrow> plugin_host \<Rightarrow> (string + nat list) list \<Rightarrow> session_record \<Rightarrow> host_state
     \<Rightarrow> ((plugin_failure + session_record \<times> handle) \<times> host_state) option" where
  "handle_mutation C h draws s hs =
     (case prepare_create C h s hs of
        (Inl e, hs1) \<Rightarrow> Some (Inl e, hs1)
      | (Inr (s', ops), hs1) \<Rightarrow> map_option (\<lambda>(r, hs2). (rbind (map_err FromHost r) (\<lambda>k. Inr (s', k)), hs2))
          (prepare_durable_transaction h draws session_namespace ops hs1))"

subsection \<open>The specification\<close>

text \<open>Sessions as a state machine, without rows, keys, encodings or storage failures.\<close>

record session_store =
  st_record :: "session_id \<rightharpoonup> session_record"
  st_inputs :: "session_id \<Rightarrow> session_input list"
  st_history :: "session_id \<Rightarrow> history_entry list"
  st_journal :: "session_id \<Rightarrow> contract_id \<Rightarrow> journal_entry list"

definition open_record :: "session_store \<Rightarrow> session_id \<Rightarrow> session_record option" where
  "open_record A i = (case st_record A i of None \<Rightarrow> None | Some s \<Rightarrow> if session_is_open s then Some s else None)"

definition put_record :: "session_id \<Rightarrow> session_record \<Rightarrow> session_store \<Rightarrow> session_store" where
  "put_record i s A = A\<lparr>st_record := (st_record A)(i \<mapsto> s)\<rparr>"

definition spec_update :: "session_id \<Rightarrow> (session_record \<Rightarrow> session_record) \<Rightarrow> session_store \<Rightarrow> (session_response \<times> session_store) option" where
  "spec_update i f A = map_option (\<lambda>s. (SessionUpdated (f s), put_record i (f s) A)) (open_record A i)"

definition journal_next :: "session_id \<Rightarrow> journal_draft \<Rightarrow> session_store \<Rightarrow> journal_entry" where
  "journal_next i d A = \<lparr>je_sequence = length (st_journal A i (jd_stream d)) + 1, je_stream = jd_stream d, je_payload = jd_payload d\<rparr>"

definition journal_put :: "session_id \<Rightarrow> journal_entry \<Rightarrow> session_store \<Rightarrow> session_store" where
  "journal_put i e A = A\<lparr>st_journal := (st_journal A)(i := (st_journal A i)(je_stream e := st_journal A i (je_stream e) @ [e]))\<rparr>"

definition spec_resolve :: "string \<Rightarrow> session_store \<Rightarrow> (session_id \<Rightarrow> 'a list) \<Rightarrow> ('a \<Rightarrow> nat) \<Rightarrow> string \<Rightarrow> 'a option option" where
  "spec_resolve pre A f seq resource = (case parse_resource pre [] resource of
     Inl _ \<Rightarrow> None
   | Inr (i, n) \<Rightarrow> Some (if st_record A i = None then None else find (\<lambda>x. seq x = n) (f i)))"

definition session_step :: "session_command \<Rightarrow> session_store \<Rightarrow> (session_response \<times> session_store) option" where
  "session_step cmd A = (case cmd of
     SessionCreate s \<Rightarrow> if session_is_open s \<and> st_record A (sr_id s) = None
       then Some (SessionCreated s, put_record (sr_id s) s A) else None
   | SessionGet i \<Rightarrow> Some (SessionFound (st_record A i), A)
   | SessionList \<Rightarrow> Some (SessionsFound (map (\<lambda>i. the (st_record A i)) (sorted_list_of_set (dom (st_record A)))), A)
   | SessionRename i title \<Rightarrow> spec_update i (\<lambda>s. s\<lparr>sr_title := Some title\<rparr>) A
   | SessionClose i \<Rightarrow> spec_update i (\<lambda>s. s\<lparr>sr_lifecycle := SessionClosed\<rparr>) A
   | SessionTransition i t d \<Rightarrow> map_option (\<lambda>s. let e = journal_next i d A; s' = apply_transition t s
       in (SessionTransitioned s' e, journal_put i e (put_record i s' A))) (open_record A i)
   | SessionAppendJournal i d \<Rightarrow> if st_record A i = None then None else
       (let e = journal_next i d A in Some (SessionJournalAppended e, journal_put i e A))
   | SessionJournal i stream after \<Rightarrow> if st_record A i = None then None else
       Some (SessionJournalRead (length (st_journal A i stream)) (drop (case after of None \<Rightarrow> 0 | Some n \<Rightarrow> n) (st_journal A i stream)), A)
   | SessionContinue i kind content \<Rightarrow> map_option (\<lambda>s.
       let x = \<lparr>si_sequence = length (st_inputs A i) + 1, si_kind = kind, si_content = content\<rparr>
       in (SessionContinued s x, A\<lparr>st_inputs := (st_inputs A)(i := st_inputs A i @ [x])\<rparr>)) (open_record A i)
   | SessionInputs i \<Rightarrow> if st_record A i = None then None else Some (SessionInputsRead (st_inputs A i), A)
   | SessionResolveInput r \<Rightarrow> map_option (\<lambda>x. (SessionInputFound x, A)) (spec_resolve ''input/'' A (st_inputs A) si_sequence r)
   | SessionAppendHistory i d \<Rightarrow> map_option (\<lambda>s. let x = history_of_draft (length (st_history A i) + 1) d
       in (SessionHistoryAppended x, A\<lparr>st_history := (st_history A)(i := st_history A i @ [x])\<rparr>)) (open_record A i)
   | SessionHistory i \<Rightarrow> if st_record A i = None then None else Some (SessionHistoryRead (st_history A i), A)
   | SessionResolveHistory r \<Rightarrow> map_option (\<lambda>x. (SessionHistoryFound x, A)) (spec_resolve ''history/'' A (st_history A) he_sequence r))"

subsection \<open>What the pieces read and update\<close>

lemma session_row_reads [program_rules]:
  "reads host_rows (session_row h k) (\<lambda>R v. v = R (session_namespace, k))"
  unfolding session_row_def by (rule host_store.get_reads)

lemma read_session_reads [program_rules]:
  "reads host_rows (read_session C h i) (\<lambda>R v. decode_option (sk_session C) (R (session_namespace, session_key i)) = Inr v)"
  unfolding read_session_def session_row_def by (rule host_store.get_option_reads)

lemma read_lists_reads [program_rules]:
  "reads host_rows (get_list c (session_row h k)) (\<lambda>R v. decode_list c (R (session_namespace, k)) = Inr v)"
  unfolding session_row_def by (rule host_store.get_list_reads)

lemma known_session_reads [program_rules]:
  "reads host_rows (known_session C h i)
     (\<lambda>R s. decode_option (sk_session C) (R (session_namespace, session_key i)) = Inr (Some s))"
  unfolding known_session_def
  by (rule reads_mono, (rule program_rules)+) (auto split: option.splits)

lemma require_open_session_reads [program_rules]:
  "reads host_rows (require_open_session C h i)
     (\<lambda>R s. decode_option (sk_session C) (R (session_namespace, session_key i)) = Inr (Some s) \<and> session_is_open s)"
  unfolding require_open_session_def require_open_def
  by (rule reads_mono, (rule program_rules)+) auto

lemma session_write_updates:
  "updates host_rows (session_write h ops) (\<lambda>R u R'. ops_effect session_namespace ops R = Some R')"
  unfolding session_write_def by (rule host_store.put_updates)

lemma session_write_return:
  "updates host_rows (pbind (session_write h ops) (\<lambda>_. preturn y))
     (\<lambda>R z R'. z = y \<and> ops_effect session_namespace ops R = Some R')"
  by (rule updates_mono, rule updates_then_return [OF session_write_updates]) auto

lemma prepare_create_reads:
  "reads host_rows (prepare_create C h s) (\<lambda>R p. \<exists>ids v w. session_is_open s \<and>
     decode_option (sk_session C) (R (session_namespace, session_key (sr_id s))) = Inr None \<and>
     decode_list (sk_ids C) (R (session_namespace, all_sessions_key)) = Inr ids \<and>
     cd_to (sk_session C) s = Inr v \<and> cd_to (sk_ids C) (push_sorted ids (sr_id s)) = Inr w \<and>
     p = (s, [OpAssert (session_key (sr_id s)) None, OpAssert all_sessions_key (R (session_namespace, all_sessions_key)),
       OpPut (session_key (sr_id s)) v, OpPut all_sessions_key w]))"
  unfolding prepare_create_def
  by (rule reads_mono, (rule program_rules)+) auto

lemma create_session_updates:
  "updates host_rows (create_session C h s) (\<lambda>R y R'. \<exists>ids v w. y = SessionCreated s \<and> session_is_open s \<and>
     decode_option (sk_session C) (R (session_namespace, session_key (sr_id s))) = Inr None \<and>
     decode_list (sk_ids C) (R (session_namespace, all_sessions_key)) = Inr ids \<and>
     cd_to (sk_session C) s = Inr v \<and> cd_to (sk_ids C) (push_sorted ids (sr_id s)) = Inr w \<and>
     R (session_namespace, session_key (sr_id s)) = None \<and>
     R' = R((session_namespace, session_key (sr_id s)) \<mapsto> v, (session_namespace, all_sessions_key) \<mapsto> w))"
  unfolding create_session_def session_write_def
  by (rule updates_mono, rule host_store.read_then_put [OF prepare_create_reads]) (auto split: if_splits)

lemma prepare_journal_append_reads [program_rules]:
  "reads host_rows (prepare_journal_append C h i d) (\<lambda>R p. \<exists>es e v.
     decode_list (sk_journal C) (R (session_namespace, journal_key i (jd_stream d))) = Inr es \<and>
     (\<forall>e\<in>set es. je_stream e = jd_stream d) \<and>
     e = entry_of_draft es d \<and>
     cd_to (sk_journal C) (es @ [e]) = Inr v \<and>
     p = (e, [OpAssert (journal_key i (jd_stream d)) (R (session_namespace, journal_key i (jd_stream d))),
       OpPut (journal_key i (jd_stream d)) v]))"
  unfolding prepare_journal_append_def Let_def
  by (rule reads_mono, (rule program_rules)+) (auto simp: list_ex_iff)

lemma update_session_updates:
  assumes "\<And>s. reads host_rows (mutate s) (\<lambda>R s'. P s s')"
  shows "updates host_rows (update_session C h i mutate) (\<lambda>R y R'. \<exists>old s s' v. y = SessionUpdated s' \<and>
     R (session_namespace, session_key i) = Some old \<and> cd_from (sk_session C) old = Inr s \<and> P s s' \<and>
     cd_to (sk_session C) s' = Inr v \<and> R' = R((session_namespace, session_key i) \<mapsto> v))"
  unfolding update_session_def
  by (rule updates_mono, (rule session_write_return update_rules program_rules assms)+)
    (auto split: option.splits if_splits)

lemma transition_session_updates:
  "updates host_rows (transition_session C h i t d) (\<lambda>R y R'. \<exists>old s es e v w. y = SessionTransitioned (apply_transition t s) e \<and>
     R (session_namespace, session_key i) = Some old \<and> cd_from (sk_session C) old = Inr s \<and> session_is_open s \<and>
     cd_to (sk_session C) (apply_transition t s) = Inr v \<and>
     decode_list (sk_journal C) (R (session_namespace, journal_key i (jd_stream d))) = Inr es \<and>
     (\<forall>e\<in>set es. je_stream e = jd_stream d) \<and>
     e = entry_of_draft es d \<and>
     cd_to (sk_journal C) (es @ [e]) = Inr w \<and>
     R' = R((session_namespace, session_key i) \<mapsto> v, (session_namespace, journal_key i (jd_stream d)) \<mapsto> w))"
  unfolding transition_session_def require_open_def
  by (rule updates_mono, (rule session_write_return update_rules program_rules)+)
    (auto split: option.splits if_splits)

lemma append_journal_updates:
  "updates host_rows (append_journal C h i d) (\<lambda>R y R'. \<exists>s es e w. y = SessionJournalAppended e \<and>
     decode_option (sk_session C) (R (session_namespace, session_key i)) = Inr (Some s) \<and>
     decode_list (sk_journal C) (R (session_namespace, journal_key i (jd_stream d))) = Inr es \<and>
     (\<forall>e\<in>set es. je_stream e = jd_stream d) \<and>
     e = entry_of_draft es d \<and>
     cd_to (sk_journal C) (es @ [e]) = Inr w \<and> R' = R((session_namespace, journal_key i (jd_stream d)) \<mapsto> w))"
  unfolding append_journal_def
  by (rule updates_mono, (rule session_write_return update_rules program_rules)+)
    (auto split: option.splits if_splits)

lemma continue_session_updates:
  "updates host_rows (continue_session C h i kind content) (\<lambda>R y R'. \<exists>s xs x w. y = SessionContinued s x \<and>
     decode_option (sk_session C) (R (session_namespace, session_key i)) = Inr (Some s) \<and> session_is_open s \<and>
     decode_list (sk_inputs C) (R (session_namespace, inputs_key i)) = Inr xs \<and>
     x = \<lparr>si_sequence = length xs + 1, si_kind = kind, si_content = content\<rparr> \<and>
     cd_to (sk_inputs C) (xs @ [x]) = Inr w \<and> R' = R((session_namespace, inputs_key i) \<mapsto> w))"
  unfolding continue_session_def Let_def
  by (rule updates_mono, (rule session_write_return update_rules program_rules)+)
    (auto split: option.splits if_splits)

lemma append_history_updates:
  "updates host_rows (append_history C h i d) (\<lambda>R y R'. \<exists>s xs x w. y = SessionHistoryAppended x \<and>
     decode_option (sk_session C) (R (session_namespace, session_key i)) = Inr (Some s) \<and> session_is_open s \<and>
     decode_list (sk_history C) (R (session_namespace, history_key i)) = Inr xs \<and>
     x = history_of_draft (length xs + 1) d \<and>
     cd_to (sk_history C) (xs @ [x]) = Inr w \<and> R' = R((session_namespace, history_key i) \<mapsto> w))"
  unfolding append_history_def Let_def
  by (rule updates_mono, (rule session_write_return update_rules program_rules)+)
    (auto split: option.splits if_splits)

subsection \<open>The rows as sessions\<close>

definition identifier_ok :: "string \<Rightarrow> bool" where "identifier_ok s \<longleftrightarrow> parse_identifier s = Inr s"

text \<open>
  Values that JSON reproduces: \<open>serde_json\<close> reads floats only approximately (and writes those that are not finite as \<open>null\<close>), and it
  reads no more than 128 levels of JSON, of which a value takes at most two per level.
\<close>

primrec plain_value :: "nat \<Rightarrow> phx_value \<Rightarrow> bool" where
  "plain_value 0 v = False"
| "plain_value (Suc n) v = (case v of
     VF64 _ \<Rightarrow> False
   | VOption w \<Rightarrow> (case w of None \<Rightarrow> True | Some w \<Rightarrow> plain_value n w)
   | VList vs \<Rightarrow> list_all (plain_value n) vs
   | VMap ps \<Rightarrow> list_all (\<lambda>p. plain_value n (snd p)) ps
   | VTable ps \<Rightarrow> list_all (\<lambda>p. plain_value n (snd p)) ps
   | VVariant _ w \<Rightarrow> plain_value n w
   | _ \<Rightarrow> True)"

definition storable :: "phx_value \<Rightarrow> bool" where "storable v \<longleftrightarrow> plain_value 32 v"

definition outcome_storable :: "history_outcome \<Rightarrow> bool" where
  "outcome_storable r = (case r of HistorySuccess v \<Rightarrow> storable v | HistoryFailure _ _ \<Rightarrow> True)"

definition history_ok :: "history_entry \<Rightarrow> bool" where
  "history_ok e \<longleftrightarrow> (\<forall>c\<in>set (hd_calls e). identifier_ok (hc_callable c) \<and> storable (hc_arguments c)) \<and>
     (\<forall>r\<in>set (hd_results e). identifier_ok (hr_callable r) \<and> outcome_storable (hr_result r))"

definition stream_ok :: "contract_id \<Rightarrow> bool" where "stream_ok s \<longleftrightarrow> parse_interface_id s = Inr s"

definition journal_ok :: "journal_entry \<Rightarrow> bool" where
  "journal_ok e \<longleftrightarrow> stream_ok (je_stream e) \<and> storable (je_payload e)"

text \<open>
  The laws of the JSON codecs: identifiers, sessions and inputs are reproduced, and identifiers are validated when they are read;
  entries of histories and journals are reproduced when their values are storable.
\<close>

definition session_codecs_ok :: "session_codecs \<Rightarrow> bool" where
  "session_codecs_ok C \<longleftrightarrow> codec_ok (list_all identifier_ok) (sk_ids C) \<and> codec_ok (\<lambda>s. identifier_ok (sr_id s)) (sk_session C) \<and>
     codec_ok (\<lambda>_. True) (sk_inputs C) \<and> codec_writes (list_all history_ok) (sk_history C) \<and>
     codec_writes (list_all journal_ok) (sk_journal C)"

definition draft_ok :: "journal_draft \<Rightarrow> bool" where
  "draft_ok d \<longleftrightarrow> stream_ok (jd_stream d) \<and> storable (jd_payload d)"

text \<open>A command is decoded from its wire form, which validates the identifiers in it; the values in it are storable.\<close>

definition command_ok :: "session_command \<Rightarrow> bool" where
  "command_ok cmd = (case cmd of
     SessionCreate s \<Rightarrow> identifier_ok (sr_id s)
   | SessionTransition i t d \<Rightarrow> draft_ok d
   | SessionAppendJournal i d \<Rightarrow> draft_ok d
   | SessionAppendHistory i d \<Rightarrow> history_ok (history_of_draft 0 d)
   | _ \<Rightarrow> True)"

text \<open>The sequence numbers of a list are 1, 2, 3, ...\<close>

definition numbered :: "('a \<Rightarrow> nat) \<Rightarrow> 'a list \<Rightarrow> bool" where
  "numbered f xs \<longleftrightarrow> map f xs = [1..<Suc (length xs)]"

definition value_or :: "'a \<Rightarrow> string + 'a \<Rightarrow> 'a" where
  "value_or d r = (case r of Inl _ \<Rightarrow> d | Inr x \<Rightarrow> x)"

definition journal_view :: "session_codecs \<Rightarrow> records \<Rightarrow> session_id \<Rightarrow> contract_id \<Rightarrow> journal_entry list" where
  "journal_view C R i stream =
     (let es = value_or [] (decode_list (sk_journal C) (R (session_namespace, journal_key i stream)))
      in if \<forall>e\<in>set es. je_stream e = stream then es else [])"

definition session_view :: "session_codecs \<Rightarrow> records \<Rightarrow> session_store" where
  "session_view C R = \<lparr>
     st_record = (\<lambda>i. value_or None (decode_option (sk_session C) (R (session_namespace, session_key i)))),
     st_inputs = (\<lambda>i. value_or [] (decode_list (sk_inputs C) (R (session_namespace, inputs_key i)))),
     st_history = (\<lambda>i. value_or [] (decode_list (sk_history C) (R (session_namespace, history_key i)))),
     st_journal = journal_view C R\<rparr>"

text \<open>
  What every command keeps: each row can be read, the index lists the sessions in order, a record is stored under its own identifier, every list is
  numbered, a journal row holds one stream (two names of journals may share a row), and the values in histories and journals are storable.
\<close>

definition index_ok :: "session_codecs \<Rightarrow> records \<Rightarrow> bool" where
  "index_ok C R \<longleftrightarrow> (\<exists>ids. decode_list (sk_ids C) (R (session_namespace, all_sessions_key)) = Inr ids \<and>
     sorted ids \<and> distinct ids \<and> (\<forall>i. i \<in> set ids \<longleftrightarrow> R (session_namespace, session_key i) \<noteq> None))"

definition records_ok :: "session_codecs \<Rightarrow> records \<Rightarrow> bool" where
  "records_ok C R \<longleftrightarrow> (\<forall>i b. R (session_namespace, session_key i) = Some b \<longrightarrow>
     (\<exists>s. cd_from (sk_session C) b = Inr s \<and> sr_id s = i))"

definition lists_ok :: "session_codecs \<Rightarrow> records \<Rightarrow> bool" where
  "lists_ok C R \<longleftrightarrow>
     (\<forall>i. \<exists>xs. decode_list (sk_inputs C) (R (session_namespace, inputs_key i)) = Inr xs \<and> numbered si_sequence xs) \<and>
     (\<forall>i. \<exists>xs. decode_list (sk_history C) (R (session_namespace, history_key i)) = Inr xs \<and> numbered he_sequence xs \<and>
        list_all history_ok xs)"

definition journals_ok :: "session_codecs \<Rightarrow> records \<Rightarrow> bool" where
  "journals_ok C R \<longleftrightarrow> (\<forall>i st. \<exists>es. decode_list (sk_journal C) (R (session_namespace, journal_key i st)) = Inr es \<and>
     numbered je_sequence es \<and> (\<exists>st'. \<forall>e\<in>set es. je_stream e = st') \<and> list_all journal_ok es)"

definition session_rows_ok :: "session_codecs \<Rightarrow> records \<Rightarrow> bool" where
  "session_rows_ok C R \<longleftrightarrow> index_ok C R \<and> records_ok C R \<and> lists_ok C R \<and> journals_ok C R"

lemma session_keys [simp]:
  "session_key i = session_key j \<longleftrightarrow> i = j" "inputs_key i = inputs_key j \<longleftrightarrow> i = j" "history_key i = history_key j \<longleftrightarrow> i = j"
  "session_key i \<noteq> inputs_key j" "session_key i \<noteq> history_key j" "session_key i \<noteq> journal_key j st" "session_key i \<noteq> all_sessions_key"
  "inputs_key i \<noteq> session_key j" "inputs_key i \<noteq> history_key j" "inputs_key i \<noteq> journal_key j st" "inputs_key i \<noteq> all_sessions_key"
  "history_key i \<noteq> session_key j" "history_key i \<noteq> inputs_key j" "history_key i \<noteq> journal_key j st" "history_key i \<noteq> all_sessions_key"
  "journal_key j st \<noteq> session_key i" "journal_key j st \<noteq> inputs_key i" "journal_key j st \<noteq> history_key i"
  "journal_key j st \<noteq> all_sessions_key" "all_sessions_key \<noteq> session_key i" "all_sessions_key \<noteq> inputs_key i"
  "all_sessions_key \<noteq> history_key i" "all_sessions_key \<noteq> journal_key j st"
  by (simp_all add: session_key_def inputs_key_def history_key_def journal_key_def all_sessions_key_def)

lemma journal_key_stream: "journal_key i st = journal_key j st \<longleftrightarrow> i = j"
  by (simp add: journal_key_def)

lemma numbered_append: "numbered f xs \<Longrightarrow> f x = Suc (length xs) \<Longrightarrow> numbered f (xs @ [x])"
  by (simp add: numbered_def)

lemma numbered_last:
  assumes "numbered f xs" "xs \<noteq> []"
  shows "f (last xs) = length xs"
  using assms by (cases xs rule: rev_cases) (simp_all add: numbered_def)

lemma numbered_filter: "numbered f xs \<Longrightarrow> filter (\<lambda>x. n < f x) xs = drop n xs"
proof (induction xs rule: rev_induct)
  case (snoc x xs)
  then have n: "numbered f xs" "f x = Suc (length xs)"
    by (simp_all add: numbered_def)
  with snoc.IH show ?case by auto
qed simp

lemma value_or_simps [simp]: "value_or d (Inr x) = x" "value_or d (Inl e) = d"
  by (simp_all add: value_or_def)

text \<open>What a write does to what the rows stand for.\<close>

lemma put_record_rows:
  assumes "session_rows_ok C R" "R (session_namespace, session_key i) \<noteq> None"
    "cd_from (sk_session C) v = Inr s" "sr_id s = i"
  shows "session_rows_ok C (R((session_namespace, session_key i) \<mapsto> v)) \<and>
    session_view C (R((session_namespace, session_key i) \<mapsto> v)) = put_record i s (session_view C R)"
  using assms
  by (auto simp: session_rows_ok_def index_ok_def records_ok_def lists_ok_def journals_ok_def session_view_def
      put_record_def journal_view_def fun_eq_iff)

lemma create_rows:
  assumes "session_rows_ok C R" "cd_from (sk_session C) v = Inr s" "sr_id s = i"
    "decode_list (sk_ids C) (R (session_namespace, all_sessions_key)) = Inr ids" "cd_from (sk_ids C) w = Inr (push_sorted ids i)"
  shows "session_rows_ok C (R((session_namespace, session_key i) \<mapsto> v, (session_namespace, all_sessions_key) \<mapsto> w)) \<and>
    session_view C (R((session_namespace, session_key i) \<mapsto> v, (session_namespace, all_sessions_key) \<mapsto> w)) =
      put_record i s (session_view C R)"
  using assms sorted_push_sorted [of ids i]
  by (auto simp: session_rows_ok_def index_ok_def records_ok_def lists_ok_def journals_ok_def session_view_def
      put_record_def journal_view_def fun_eq_iff)

lemma inputs_rows:
  assumes "session_rows_ok C R" "cd_from (sk_inputs C) v = Inr xs" "numbered si_sequence xs"
  shows "session_rows_ok C (R((session_namespace, inputs_key i) \<mapsto> v)) \<and>
    session_view C (R((session_namespace, inputs_key i) \<mapsto> v)) =
      (session_view C R)\<lparr>st_inputs := (st_inputs (session_view C R))(i := xs)\<rparr>"
  using assms
  by (auto simp: session_rows_ok_def index_ok_def records_ok_def lists_ok_def journals_ok_def session_view_def
      journal_view_def fun_eq_iff)

lemma history_rows:
  assumes "session_rows_ok C R" "cd_from (sk_history C) v = Inr xs" "numbered he_sequence xs" "list_all history_ok xs"
  shows "session_rows_ok C (R((session_namespace, history_key i) \<mapsto> v)) \<and>
    session_view C (R((session_namespace, history_key i) \<mapsto> v)) =
      (session_view C R)\<lparr>st_history := (st_history (session_view C R))(i := xs)\<rparr>"
  using assms
  by (auto simp: session_rows_ok_def index_ok_def records_ok_def lists_ok_def journals_ok_def session_view_def
      journal_view_def fun_eq_iff)

text \<open>Two journals that share a row have different streams, so the one that is written is the only one it shows.\<close>

lemma shared_journal: "journal_key j st' = journal_key i st \<Longrightarrow> j = i \<and> st' = st \<or> st' \<noteq> st"
  by (auto simp: journal_key_stream)

lemma journal_rows:
  assumes "session_rows_ok C R" "cd_from (sk_journal C) v = Inr (es @ [e])" "numbered je_sequence (es @ [e])"
    "decode_list (sk_journal C) (R (session_namespace, journal_key i (je_stream e))) = Inr es"
    "\<forall>x\<in>set es. je_stream x = je_stream e" "list_all journal_ok (es @ [e])"
  shows "session_rows_ok C (R((session_namespace, journal_key i (je_stream e)) \<mapsto> v)) \<and>
    session_view C (R((session_namespace, journal_key i (je_stream e)) \<mapsto> v)) = journal_put i e (session_view C R)"
proof
  let ?R = "R((session_namespace, journal_key i (je_stream e)) \<mapsto> v)"
  show "session_rows_ok C ?R"
    using assms by (auto simp: session_rows_ok_def index_ok_def records_ok_def lists_ok_def journals_ok_def)
  have "journal_view C ?R j st = (if j = i \<and> st = je_stream e then es @ [e] else journal_view C R j st)" for j st
  proof (cases "journal_key j st = journal_key i (je_stream e)")
    case True
    with shared_journal [OF True] assms(2,4,5) show ?thesis
      by (cases "st = je_stream e") (auto simp: journal_view_def)
  qed (auto simp: journal_view_def)
  moreover have "journal_view C R i (je_stream e) = es" using assms(4,5) by (simp add: journal_view_def)
  ultimately show "session_view C ?R = journal_put i e (session_view C R)"
    by (auto simp: session_view_def journal_put_def fun_eq_iff)
qed

lemma session_codecs_okD:
  assumes "session_codecs_ok C"
  shows "codec_ok (list_all identifier_ok) (sk_ids C)" "codec_ok (\<lambda>s. identifier_ok (sr_id s)) (sk_session C)"
    "codec_ok (\<lambda>_. True) (sk_inputs C)" "codec_writes (list_all history_ok) (sk_history C)"
    "codec_writes (list_all journal_ok) (sk_journal C)"
  using assms by (simp_all add: session_codecs_ok_def)

lemma records_okD: "session_rows_ok C R \<Longrightarrow> R (session_namespace, session_key i) = Some b \<Longrightarrow>
    cd_from (sk_session C) b = Inr s \<Longrightarrow> sr_id s = i"
  unfolding session_rows_ok_def records_ok_def by fastforce

lemma create_session_refines:
  assumes "session_codecs_ok C" "identifier_ok (sr_id s)"
  shows "updates host_rows (create_session C h s) (\<lambda>R y R'. session_rows_ok C R \<longrightarrow> session_rows_ok C R' \<and>
    session_step (SessionCreate s) (session_view C R) = Some (y, session_view C R'))"
proof (rule updates_mono [OF create_session_updates], elim exE conjE, intro impI)
  fix R y R' ids v w
  assume y: "y = SessionCreated s" "session_is_open s" and none: "R (session_namespace, session_key (sr_id s)) = None"
    and ids: "decode_list (sk_ids C) (R (session_namespace, all_sessions_key)) = Inr ids"
    and vw: "cd_to (sk_session C) s = Inr v" "cd_to (sk_ids C) (push_sorted ids (sr_id s)) = Inr w"
    and R': "R' = R((session_namespace, session_key (sr_id s)) \<mapsto> v, (session_namespace, all_sessions_key) \<mapsto> w)"
    and ok: "session_rows_ok C R"
  note C = session_codecs_okD [OF assms(1)]
  from codec_read_list [OF C(1) ids] assms(2) have "list_all identifier_ok (push_sorted ids (sr_id s))" by (auto simp: list_all_iff)
  with codec_write [OF C(1) _ vw(2)] codec_write [OF C(2) assms(2) vw(1)]
  have dec: "cd_from (sk_session C) v = Inr s" "cd_from (sk_ids C) w = Inr (push_sorted ids (sr_id s))" by auto
  from create_rows [OF ok dec(1) refl ids dec(2)] R' y none
  show "session_rows_ok C R' \<and> session_step (SessionCreate s) (session_view C R) = Some (y, session_view C R')"
    by (simp add: session_step_def session_view_def)
qed

lemma update_session_refines:
  assumes "session_codecs_ok C" "\<And>s. sr_id (f s) = sr_id s"
    "\<And>A. session_step cmd A = spec_update i f A"
  shows "updates host_rows (update_session C h i (\<lambda>s. pbind (require_open s) (\<lambda>_. preturn (f s))))
    (\<lambda>R y R'. session_rows_ok C R \<longrightarrow> session_rows_ok C R' \<and>
      session_step cmd (session_view C R) = Some (y, session_view C R'))"
proof -
  have "reads host_rows (pbind (require_open s) (\<lambda>_. preturn (f s))) (\<lambda>R s'. session_is_open s \<and> s' = f s)" for s
    unfolding require_open_def by (rule reads_mono, (rule program_rules)+) auto
  note u = update_session_updates [OF this]
  show ?thesis
  proof (rule updates_mono [OF u], elim exE conjE, intro impI)
    fix R y R' old s s' v
    assume y: "y = SessionUpdated s'" "session_is_open s" "s' = f s"
      and old: "R (session_namespace, session_key i) = Some old" "cd_from (sk_session C) old = Inr s"
      and v: "cd_to (sk_session C) s' = Inr v" and R': "R' = R((session_namespace, session_key i) \<mapsto> v)"
      and ok: "session_rows_ok C R"
    from ok old have i: "sr_id s = i" by (rule records_okD)
    note C = session_codecs_okD(2) [OF assms(1)]
    from codec_read [OF C old(2)] y(3) assms(2) have "identifier_ok (sr_id s')" by simp
    from codec_write [OF C this v] have "cd_from (sk_session C) v = Inr s'" .
    from put_record_rows [OF ok _ this] i y old assms(2) R'
    show "session_rows_ok C R' \<and> session_step cmd (session_view C R) = Some (y, session_view C R')"
      by (simp add: assms(3) spec_update_def open_record_def session_view_def)
  qed
qed

text \<open>One entry at the end of a journal, with the next number.\<close>

lemma journal_append_rows:
  assumes "session_codecs_ok C" "draft_ok d" "session_rows_ok C R"
    "decode_list (sk_journal C) (R (session_namespace, journal_key i (jd_stream d))) = Inr es"
    "\<forall>e\<in>set es. je_stream e = jd_stream d" "cd_to (sk_journal C) (es @ [entry_of_draft es d]) = Inr w"
  defines "R' \<equiv> R((session_namespace, journal_key i (jd_stream d)) \<mapsto> w)"
  shows "session_rows_ok C R'" "session_view C R' = journal_put i (entry_of_draft es d) (session_view C R)"
    "entry_of_draft es d = journal_next i d (session_view C R)"
proof -
  let ?e = "entry_of_draft es d"
  note C = session_codecs_okD [OF assms(1)]
  from assms(3) have "\<exists>es. decode_list (sk_journal C) (R (session_namespace, journal_key i (jd_stream d))) = Inr es \<and>
      numbered je_sequence es \<and> list_all journal_ok es" unfolding session_rows_ok_def journals_ok_def by blast
  with assms(4) have n: "numbered je_sequence es" "list_all journal_ok es" by auto
  have e: "je_stream ?e = jd_stream d" "je_sequence ?e = Suc (length es)"
    using numbered_last [OF n(1)] by (simp_all add: entry_of_draft_def)
  have all: "list_all journal_ok (es @ [?e])" using assms(2) n(2) by (simp add: draft_ok_def journal_ok_def entry_of_draft_def)
  from codec_writesD [OF C(5) this assms(6)] have "cd_from (sk_journal C) w = Inr (es @ [?e])" .
  from journal_rows [OF assms(3) this numbered_append [where f = je_sequence, OF n(1) e(2)] _ _ all] assms(4,5) e(1)
  show "session_rows_ok C R'" "session_view C R' = journal_put i (entry_of_draft es d) (session_view C R)"
    by (simp_all add: R'_def)
  show "entry_of_draft es d = journal_next i d (session_view C R)"
    using assms(4,5) e by (simp add: journal_next_def session_view_def journal_view_def entry_of_draft_def)
qed

lemma transition_session_refines:
  assumes "session_codecs_ok C" "draft_ok d"
  shows "updates host_rows (transition_session C h i t d) (\<lambda>R y R'. session_rows_ok C R \<longrightarrow> session_rows_ok C R' \<and>
    session_step (SessionTransition i t d) (session_view C R) = Some (y, session_view C R'))"
proof (rule updates_mono [OF transition_session_updates], elim exE conjE, intro impI)
  fix R y R' old s es e v w
  assume y: "y = SessionTransitioned (apply_transition t s) e" "session_is_open s"
    and old: "R (session_namespace, session_key i) = Some old" "cd_from (sk_session C) old = Inr s"
    and v: "cd_to (sk_session C) (apply_transition t s) = Inr v"
    and es: "decode_list (sk_journal C) (R (session_namespace, journal_key i (jd_stream d))) = Inr es"
      "\<forall>e\<in>set es. je_stream e = jd_stream d" "e = entry_of_draft es d" "cd_to (sk_journal C) (es @ [e]) = Inr w"
    and R': "R' = R((session_namespace, session_key i) \<mapsto> v, (session_namespace, journal_key i (jd_stream d)) \<mapsto> w)"
    and ok: "session_rows_ok C R"
  let ?R = "R((session_namespace, session_key i) \<mapsto> v)"
  note C = session_codecs_okD [OF assms(1)]
  have i: "sr_id (apply_transition t s) = i" using records_okD [OF ok old]
    by (simp add: apply_transition_def split: session_transition.splits)
  from codec_read [OF C(2) old(2)] records_okD [OF ok old] i
  have s': "cd_from (sk_session C) v = Inr (apply_transition t s)" by (intro codec_write [OF C(2) _ v]) simp
  from put_record_rows [OF ok _ s' i] old
  have p: "session_rows_ok C ?R" "session_view C ?R = put_record i (apply_transition t s) (session_view C R)" by auto
  have "decode_list (sk_journal C) (?R (session_namespace, journal_key i (jd_stream d))) = Inr es" using es(1) by simp
  note j = journal_append_rows [OF assms p(1) this es(2) es(4) [unfolded es(3)]]
  have "session_rows_ok C R'" using j(1) by (simp only: R')
  moreover have "session_view C R' = journal_put i (entry_of_draft es d) (put_record i (apply_transition t s) (session_view C R))"
    by (simp only: R' j(2) p(2))
  moreover have "entry_of_draft es d = journal_next i d (put_record i (apply_transition t s) (session_view C R))"
    using j(3) by (simp only: p(2))
  then have "entry_of_draft es d = journal_next i d (session_view C R)" by (simp add: journal_next_def put_record_def)
  moreover from old y(2) have "open_record (session_view C R) i = Some s" by (simp add: open_record_def session_view_def)
  ultimately show "session_rows_ok C R' \<and> session_step (SessionTransition i t d) (session_view C R) = Some (y, session_view C R')"
    using y(1) es(3) by (simp add: session_step_def Let_def)
qed

lemma append_journal_refines:
  assumes "session_codecs_ok C" "draft_ok d"
  shows "updates host_rows (append_journal C h i d) (\<lambda>R y R'. session_rows_ok C R \<longrightarrow> session_rows_ok C R' \<and>
    session_step (SessionAppendJournal i d) (session_view C R) = Some (y, session_view C R'))"
proof (rule updates_mono [OF append_journal_updates], elim exE conjE, intro impI)
  fix R y R' s es e w
  assume y: "y = SessionJournalAppended e" "decode_option (sk_session C) (R (session_namespace, session_key i)) = Inr (Some s)"
    and es: "decode_list (sk_journal C) (R (session_namespace, journal_key i (jd_stream d))) = Inr es"
      "\<forall>e\<in>set es. je_stream e = jd_stream d" "e = entry_of_draft es d" "cd_to (sk_journal C) (es @ [e]) = Inr w"
    and R': "R' = R((session_namespace, journal_key i (jd_stream d)) \<mapsto> w)" and ok: "session_rows_ok C R"
  from y(2) have "st_record (session_view C R) i \<noteq> None" by (simp add: session_view_def)
  with journal_append_rows [OF assms ok es(1,2) es(4) [unfolded es(3)]] es(3) y(1) R'
  show "session_rows_ok C R' \<and> session_step (SessionAppendJournal i d) (session_view C R) = Some (y, session_view C R')"
    by (simp add: session_step_def Let_def)
qed

lemma lists_okD:
  assumes "session_rows_ok C R"
  shows "decode_list (sk_inputs C) (R (session_namespace, inputs_key i)) = Inr xs \<Longrightarrow> numbered si_sequence xs"
    "decode_list (sk_history C) (R (session_namespace, history_key i)) = Inr hs \<Longrightarrow> numbered he_sequence hs"
    "decode_list (sk_history C) (R (session_namespace, history_key i)) = Inr hs \<Longrightarrow> list_all history_ok hs"
  using assms unfolding session_rows_ok_def lists_ok_def by (metis sum.inject(2))+

lemma continue_session_refines:
  assumes "session_codecs_ok C"
  shows "updates host_rows (continue_session C h i kind content) (\<lambda>R y R'. session_rows_ok C R \<longrightarrow> session_rows_ok C R' \<and>
    session_step (SessionContinue i kind content) (session_view C R) = Some (y, session_view C R'))"
proof (rule updates_mono [OF continue_session_updates], elim exE conjE, intro impI)
  fix R y R' s xs x w
  assume y: "y = SessionContinued s x" "decode_option (sk_session C) (R (session_namespace, session_key i)) = Inr (Some s)"
      "session_is_open s"
    and xs: "decode_list (sk_inputs C) (R (session_namespace, inputs_key i)) = Inr xs"
      "x = \<lparr>si_sequence = length xs + 1, si_kind = kind, si_content = content\<rparr>" "cd_to (sk_inputs C) (xs @ [x]) = Inr w"
    and R': "R' = R((session_namespace, inputs_key i) \<mapsto> w)" and ok: "session_rows_ok C R"
  note C = session_codecs_okD [OF assms(1)]
  have n: "numbered si_sequence (xs @ [x])" using lists_okD(1) [OF ok xs(1)] xs(2) by (simp add: numbered_append)
  have d: "cd_from (sk_inputs C) w = Inr (xs @ [x])" using codec_write [OF C(3) _ xs(3)] by simp
  have "open_record (session_view C R) i = Some s" "st_inputs (session_view C R) i = xs"
    using y(2,3) xs(1) by (simp_all add: open_record_def session_view_def)
  with inputs_rows [OF ok d n] y(1) xs(2) R'
  show "session_rows_ok C R' \<and> session_step (SessionContinue i kind content) (session_view C R) = Some (y, session_view C R')"
    by (simp add: session_step_def Let_def)
qed

lemma append_history_refines:
  assumes "session_codecs_ok C" "history_ok (history_of_draft 0 d)"
  shows "updates host_rows (append_history C h i d) (\<lambda>R y R'. session_rows_ok C R \<longrightarrow> session_rows_ok C R' \<and>
    session_step (SessionAppendHistory i d) (session_view C R) = Some (y, session_view C R'))"
proof (rule updates_mono [OF append_history_updates], elim exE conjE, intro impI)
  fix R y R' s xs x w
  assume y: "y = SessionHistoryAppended x" "decode_option (sk_session C) (R (session_namespace, session_key i)) = Inr (Some s)"
      "session_is_open s"
    and xs: "decode_list (sk_history C) (R (session_namespace, history_key i)) = Inr xs"
      "x = history_of_draft (length xs + 1) d" "cd_to (sk_history C) (xs @ [x]) = Inr w"
    and R': "R' = R((session_namespace, history_key i) \<mapsto> w)" and ok: "session_rows_ok C R"
  note C = session_codecs_okD [OF assms(1)]
  have n: "numbered he_sequence (xs @ [x])" using lists_okD(2) [OF ok xs(1)] xs(2)
    by (simp add: numbered_append history_of_draft_def)
  have "history_ok x" using assms(2) xs(2) by (simp add: history_ok_def history_of_draft_def)
  with lists_okD(3) [OF ok xs(1)] have all: "list_all history_ok (xs @ [x])" by simp
  from codec_writesD [OF C(4) this xs(3)] have d: "cd_from (sk_history C) w = Inr (xs @ [x])" .
  have "open_record (session_view C R) i = Some s" "st_history (session_view C R) i = xs"
    using y(2,3) xs(1) by (simp_all add: open_record_def session_view_def)
  with history_rows [OF ok d n all] y(1) xs(2) R'
  show "session_rows_ok C R' \<and> session_step (SessionAppendHistory i d) (session_view C R) = Some (y, session_view C R')"
    by (simp add: session_step_def Let_def)
qed

text \<open>Commands that only read.\<close>

lemma reading_refines:
  assumes "reads host_rows f P" "\<And>R y. session_rows_ok C R \<Longrightarrow> P R y \<Longrightarrow> session_step cmd (session_view C R) = Some (y, session_view C R)"
  shows "updates host_rows f (\<lambda>R y R'. session_rows_ok C R \<longrightarrow> session_rows_ok C R' \<and>
    session_step cmd (session_view C R) = Some (y, session_view C R'))"
  by (rule updates_mono [OF reads_updates [OF assms(1)]]) (simp add: assms(2))

lemma read_sessions_reads [program_rules]:
  "reads host_rows (read_sessions C h) (\<lambda>R ss. \<exists>ids. decode_list (sk_ids C) (R (session_namespace, all_sessions_key)) = Inr ids \<and>
     list_all2 (\<lambda>i s. decode_option (sk_session C) (R (session_namespace, session_key i)) = Inr (Some s)) ids ss)"
proof -
  have one: "reads host_rows (pbind (read_session C h i) (\<lambda>s. case s of
           None \<Rightarrow> prefuse (''missing durable session: '' @ i) | Some s \<Rightarrow> preturn s))
     (\<lambda>R s. decode_option (sk_session C) (R (session_namespace, session_key i)) = Inr (Some s))" for i
    by (rule reads_mono, (rule program_rules)+) (auto split: option.splits)
  show ?thesis
    unfolding read_sessions_def by (rule reads_mono, rule reads_bind [OF read_lists_reads reads_map [OF one]]) auto
qed

lemma list_session_refines:
  "updates host_rows (pbind (read_sessions C h) (\<lambda>ss. preturn (SessionsFound ss))) (\<lambda>R y R'. session_rows_ok C R \<longrightarrow>
     session_rows_ok C R' \<and> session_step SessionList (session_view C R) = Some (y, session_view C R'))"
proof (rule reading_refines [OF reads_bind [OF read_sessions_reads reads_return]], elim exE conjE)
  fix R y ss ids
  assume ok: "session_rows_ok C R" and ids: "decode_list (sk_ids C) (R (session_namespace, all_sessions_key)) = Inr ids"
    and ss: "list_all2 (\<lambda>i s. decode_option (sk_session C) (R (session_namespace, session_key i)) = Inr (Some s)) ids ss"
    and y: "y = SessionsFound ss"
  from ok ids have i: "sorted ids" "distinct ids" "\<And>i. i \<in> set ids \<longleftrightarrow> R (session_namespace, session_key i) \<noteq> None"
    unfolding session_rows_ok_def index_ok_def by auto
  have rec: "st_record (session_view C R) j = Some (ss ! k)" if "k < length ids" "j = ids ! k" for j k
    using list_all2_nthD [OF ss that(1)] that(2) by (simp add: session_view_def)
  have "dom (st_record (session_view C R)) = set ids"
  proof
    show "dom (st_record (session_view C R)) \<subseteq> set ids"
    proof
      fix j assume "j \<in> dom (st_record (session_view C R))"
      then show "j \<in> set ids"
        using i(3) [of j] by (cases "R (session_namespace, session_key j)") (auto simp: session_view_def)
    qed
    show "set ids \<subseteq> dom (st_record (session_view C R))" using rec by (auto simp: in_set_conv_nth)
  qed
  then have "sorted_list_of_set (dom (st_record (session_view C R))) = ids"
    using i(1,2) by (simp add: sorted_list_of_set.idem_if_sorted_distinct)
  moreover have "map (\<lambda>i. the (st_record (session_view C R) i)) ids = ss"
    using ss rec by (auto simp: list_eq_iff_nth_eq list_all2_lengthD)
  ultimately show "session_step SessionList (session_view C R) = Some (y, session_view C R)"
    using y by (simp add: session_step_def)
qed

lemma parse_resource_error:
  "parse_resource p m r = Inr x \<longleftrightarrow> parse_resource p [] r = Inr x"
  by (auto simp: parse_resource_def rbind_eq_Inr split: prod.splits)

lemma resolve_input_refines:
  "updates host_rows (pbind (resolve_input_resource C h r) (\<lambda>x. preturn (SessionInputFound x))) (\<lambda>R y R'. session_rows_ok C R \<longrightarrow>
     session_rows_ok C R' \<and> session_step (SessionResolveInput r) (session_view C R) = Some (y, session_view C R'))"
proof -
  have "reads host_rows (resolve_input_resource C h r) (\<lambda>R x. \<exists>i n s. parse_resource ''input/'' [] r = Inr (i, n) \<and>
      decode_option (sk_session C) (R (session_namespace, session_key i)) = Inr s \<and>
      (case s of None \<Rightarrow> x = None | Some _ \<Rightarrow> \<exists>xs. decode_list (sk_inputs C) (R (session_namespace, inputs_key i)) = Inr xs \<and>
         x = find (\<lambda>x. si_sequence x = n) xs))"
    unfolding resolve_input_resource_def read_inputs_def case_prod_beta
    by (rule reads_mono, (rule program_rules)+) (auto simp: parse_resource_error [of "''input/''" "''invalid session input resource: ''"] split: option.splits)
  from reads_bind [OF this reads_return] show ?thesis
    by (rule reading_refines) (auto simp: session_step_def spec_resolve_def session_view_def split: option.splits)
qed

lemma resolve_history_refines:
  "updates host_rows (pbind (resolve_history_resource C h r) (\<lambda>x. preturn (SessionHistoryFound x))) (\<lambda>R y R'. session_rows_ok C R \<longrightarrow>
     session_rows_ok C R' \<and> session_step (SessionResolveHistory r) (session_view C R) = Some (y, session_view C R'))"
proof -
  have "reads host_rows (resolve_history_resource C h r) (\<lambda>R x. \<exists>i n s. parse_resource ''history/'' [] r = Inr (i, n) \<and>
      decode_option (sk_session C) (R (session_namespace, session_key i)) = Inr s \<and>
      (case s of None \<Rightarrow> x = None | Some _ \<Rightarrow> \<exists>xs. decode_list (sk_history C) (R (session_namespace, history_key i)) = Inr xs \<and>
         x = find (\<lambda>x. he_sequence x = n) xs))"
    unfolding resolve_history_resource_def read_history_def case_prod_beta
    by (rule reads_mono, (rule program_rules)+) (auto simp: parse_resource_error [of "''history/''" "''invalid session history resource: ''"] split: option.splits)
  from reads_bind [OF this reads_return] show ?thesis
    by (rule reading_refines) (auto simp: session_step_def spec_resolve_def session_view_def split: option.splits)
qed

lemma read_journal_refines:
  "updates host_rows (read_journal_response C h i stream after) (\<lambda>R y R'. session_rows_ok C R \<longrightarrow>
     session_rows_ok C R' \<and> session_step (SessionJournal i stream after) (session_view C R) = Some (y, session_view C R'))"
proof -
  have "reads host_rows (read_journal_response C h i stream after) (\<lambda>R y. \<exists>s es.
      decode_option (sk_session C) (R (session_namespace, session_key i)) = Inr (Some s) \<and>
      decode_list (sk_journal C) (R (session_namespace, journal_key i stream)) = Inr es \<and> (\<forall>e\<in>set es. je_stream e = stream) \<and>
      y = SessionJournalRead (through_sequence es) (entries_after after es))"
    unfolding read_journal_response_def
    by (rule reads_mono, (rule program_rules)+) (auto simp: list_ex_iff)
  then show ?thesis
  proof (rule reading_refines, elim exE conjE)
    fix R y s es
    assume ok: "session_rows_ok C R" and s: "decode_option (sk_session C) (R (session_namespace, session_key i)) = Inr (Some s)"
      and es: "decode_list (sk_journal C) (R (session_namespace, journal_key i stream)) = Inr es" "\<forall>e\<in>set es. je_stream e = stream"
      and y: "y = SessionJournalRead (through_sequence es) (entries_after after es)"
    from ok have "\<exists>es. decode_list (sk_journal C) (R (session_namespace, journal_key i stream)) = Inr es \<and> numbered je_sequence es"
      unfolding session_rows_ok_def journals_ok_def by blast
    with es(1) have n: "numbered je_sequence es" by auto
    from es s have "st_journal (session_view C R) i stream = es" "st_record (session_view C R) i = Some s"
      by (simp_all add: session_view_def journal_view_def)
    with y numbered_last [OF n] numbered_filter [OF n]
    show "session_step (SessionJournal i stream after) (session_view C R) = Some (y, session_view C R)"
      by (auto simp: session_step_def through_sequence_def entries_after_def split: option.splits)
  qed
qed

lemma get_session_refines:
  "updates host_rows (pbind (read_session C h i) (\<lambda>s. preturn (SessionFound s)))
    (\<lambda>R y R'. session_rows_ok C R \<longrightarrow> session_rows_ok C R' \<and> session_step (SessionGet i) (session_view C R) = Some (y, session_view C R'))"
  unfolding read_inputs_def read_history_def
  by (rule reading_refines, (rule program_rules)+) (auto simp: session_step_def session_view_def)

lemma inputs_session_refines:
  "updates host_rows (pbind (known_session C h i) (\<lambda>_. pbind (read_inputs C h i) (\<lambda>xs. preturn (SessionInputsRead xs))))
    (\<lambda>R y R'. session_rows_ok C R \<longrightarrow> session_rows_ok C R' \<and> session_step (SessionInputs i) (session_view C R) = Some (y, session_view C R'))"
  unfolding read_inputs_def read_history_def
  by (rule reading_refines, (rule program_rules)+) (auto simp: session_step_def session_view_def)

lemma history_session_refines:
  "updates host_rows (pbind (known_session C h i) (\<lambda>_. pbind (read_history C h i) (\<lambda>xs. preturn (SessionHistoryRead xs))))
    (\<lambda>R y R'. session_rows_ok C R \<longrightarrow> session_rows_ok C R' \<and> session_step (SessionHistory i) (session_view C R) = Some (y, session_view C R'))"
  unfolding read_inputs_def read_history_def
  by (rule reading_refines, (rule program_rules)+) (auto simp: session_step_def session_view_def)

lemma handle_session_refines:
  assumes "session_codecs_ok C" "command_ok cmd"
  shows "updates host_rows (handle_session C h cmd) (\<lambda>R y R'. session_rows_ok C R \<longrightarrow> session_rows_ok C R' \<and>
    session_step cmd (session_view C R) = Some (y, session_view C R'))"
proof (cases cmd)
  case (SessionRename i title)
  show ?thesis unfolding handle_session_def SessionRename session_command.case rename_session_def
    by (rule update_session_refines [OF assms(1), of "\<lambda>s. s\<lparr>sr_title := Some title\<rparr>"]) (simp_all add: session_step_def)
next
  case (SessionClose i)
  show ?thesis unfolding handle_session_def SessionClose session_command.case close_session_def
    by (rule update_session_refines [OF assms(1), of "\<lambda>s. s\<lparr>sr_lifecycle := SessionClosed\<rparr>"]) (simp_all add: session_step_def)
qed (use assms in \<open>simp_all only: handle_session_def session_command.case command_ok_def create_session_refines list_session_refines
    transition_session_refines append_journal_refines read_journal_refines continue_session_refines append_history_refines
    resolve_input_refines resolve_history_refines get_session_refines
    inputs_session_refines history_session_refines\<close>)

lemma reading_elsewhere:
  "reads host_rows f P \<Longrightarrow> updates host_rows f (\<lambda>R y R'. \<forall>ns k. ns \<noteq> session_namespace \<longrightarrow> R' (ns, k) = R (ns, k))"
  by (rule updates_mono [OF reads_updates]) simp_all

text \<open>A command writes in the plugin's own namespace only.\<close>

lemma handle_session_elsewhere:
  "updates host_rows (handle_session C h cmd) (\<lambda>R y R'. \<forall>ns k. ns \<noteq> session_namespace \<longrightarrow> R' (ns, k) = R (ns, k))"
proof (cases cmd)
  case (SessionRename i title)
  have "reads host_rows (pbind (require_open s) (\<lambda>_. preturn (s\<lparr>sr_title := Some title\<rparr>))) (\<lambda>R s'. True)" for s
    unfolding require_open_def by (rule reads_mono, (rule program_rules)+) simp
  from update_session_updates [OF this] show ?thesis
    unfolding handle_session_def SessionRename session_command.case rename_session_def by (rule updates_mono) auto
next
  case (SessionClose i)
  have "reads host_rows (pbind (require_open s) (\<lambda>_. preturn (s\<lparr>sr_lifecycle := SessionClosed\<rparr>))) (\<lambda>R s'. True)" for s
    unfolding require_open_def by (rule reads_mono, (rule program_rules)+) simp
  from update_session_updates [OF this] show ?thesis
    unfolding handle_session_def SessionClose session_command.case close_session_def by (rule updates_mono) auto
next
  case (SessionCreate s)
  show ?thesis unfolding handle_session_def SessionCreate session_command.case
    by (rule updates_mono [OF create_session_updates]) auto
next
  case (SessionTransition i t d)
  show ?thesis unfolding handle_session_def SessionTransition session_command.case
    by (rule updates_mono [OF transition_session_updates]) auto
next
  case (SessionAppendJournal i d)
  show ?thesis unfolding handle_session_def SessionAppendJournal session_command.case
    by (rule updates_mono [OF append_journal_updates]) auto
next
  case (SessionContinue i kind content)
  show ?thesis unfolding handle_session_def SessionContinue session_command.case
    by (rule updates_mono [OF continue_session_updates]) auto
next
  case (SessionAppendHistory i d)
  show ?thesis unfolding handle_session_def SessionAppendHistory session_command.case
    by (rule updates_mono [OF append_history_updates]) auto
qed (simp_all only: handle_session_def session_command.case read_journal_response_def resolve_input_resource_def
    resolve_history_resource_def read_inputs_def read_history_def case_prod_unfold,
    (rule reading_elsewhere, (rule program_rules)+)+)

subsection \<open>What time does to sessions\<close>

text \<open>
  Sessions never disappear, their lists only get longer, and a closed session is frozen: its record, its inputs and its history stay.
\<close>

definition session_grows :: "session_store \<Rightarrow> session_store \<Rightarrow> session_id \<Rightarrow> bool" where
  "session_grows A A' i \<longleftrightarrow>
     (\<forall>s. st_record A i = Some s \<longrightarrow> (\<exists>s'. st_record A' i = Some s' \<and> sr_directory s' = sr_directory s \<and>
        (session_is_open s \<or> s' = s \<and> st_inputs A' i = st_inputs A i \<and> st_history A' i = st_history A i))) \<and>
     prefix (st_inputs A i) (st_inputs A' i) \<and> prefix (st_history A i) (st_history A' i) \<and>
     (\<forall>stream. prefix (st_journal A i stream) (st_journal A' i stream))"

lemma session_grows_refl [simp]: "session_grows A A i"
  by (simp add: session_grows_def)

lemma session_grows_trans: "session_grows A B i \<Longrightarrow> session_grows B D i \<Longrightarrow> session_grows A D i"
  unfolding session_grows_def by (elim conjE, intro conjI) (metis, blast intro: prefix_order.trans, blast intro: prefix_order.trans,
      blast intro: prefix_order.trans)

lemma put_record_grows:
  "st_record A i = Some s \<Longrightarrow> session_is_open s \<Longrightarrow> sr_directory s' = sr_directory s \<Longrightarrow> session_grows A (put_record i s' A) j"
  "st_record A i = None \<Longrightarrow> session_grows A (put_record i s' A) j"
  by (auto simp: session_grows_def put_record_def)

lemma journal_put_grows: "session_grows A (journal_put i e A) j"
  by (auto simp: session_grows_def journal_put_def)

lemma open_record_eq: "open_record A i = Some s \<longleftrightarrow> st_record A i = Some s \<and> session_is_open s"
  by (auto simp: open_record_def split: option.splits)

lemma session_step_grows:
  assumes "session_step cmd A = Some (y, A')"
  shows "session_grows A A' j"
proof (cases cmd)
  case (SessionTransition i t d)
  with assms obtain s where s: "st_record A i = Some s" "session_is_open s"
    "A' = journal_put i (journal_next i d A) (put_record i (apply_transition t s) A)"
    by (auto simp: session_step_def Let_def open_record_eq)
  have "sr_directory (apply_transition t s) = sr_directory s" by (simp add: apply_transition_def split: session_transition.splits)
  from session_grows_trans [OF put_record_grows(1) [OF s(1,2) this] journal_put_grows] s(3) show ?thesis by simp
qed (use assms in \<open>auto simp: session_step_def spec_update_def Let_def open_record_eq put_record_def journal_put_def
    session_grows_def split: if_splits\<close>)

text \<open>The rows of other namespaces do not matter.\<close>

lemma session_view_cong:
  assumes "\<And>k. R' (session_namespace, k) = R (session_namespace, k)"
  shows "session_view C R' = session_view C R" "session_rows_ok C R' = session_rows_ok C R"
  by (simp_all add: session_view_def journal_view_def session_rows_ok_def index_ok_def records_ok_def lists_ok_def
      journals_ok_def assms fun_eq_iff)

text \<open>A creation that was prepared at some time and is committed later: what it asserts makes it a creation then.\<close>

lemma committed_creation:
  assumes "session_codecs_ok C" "identifier_ok (sr_id s)" "prepare_create C h s hs0 = (Inr (s', ops), hs1)"
    "session_rows_ok C R" "ops_effect session_namespace ops R = Some R'"
  shows "s' = s" "session_is_open s" "session_rows_ok C R'" "st_record (session_view C R) (sr_id s) = None"
    "session_view C R' = put_record (sr_id s) s (session_view C R)"
proof -
  from assms(3) prepare_create_reads [of C h s] obtain ids v w where p: "session_is_open s" "s' = s"
    "decode_list (sk_ids C) (host_rows hs0 (session_namespace, all_sessions_key)) = Inr ids"
    "cd_to (sk_session C) s = Inr v" "cd_to (sk_ids C) (push_sorted ids (sr_id s)) = Inr w"
    "ops = [OpAssert (session_key (sr_id s)) None, OpAssert all_sessions_key (host_rows hs0 (session_namespace, all_sessions_key)),
       OpPut (session_key (sr_id s)) v, OpPut all_sessions_key w]"
    unfolding reads_def by blast
  from assms(5) p(6) have R: "R (session_namespace, session_key (sr_id s)) = None"
    "R (session_namespace, all_sessions_key) = host_rows hs0 (session_namespace, all_sessions_key)"
    "R' = R((session_namespace, session_key (sr_id s)) \<mapsto> v, (session_namespace, all_sessions_key) \<mapsto> w)"
    by (auto split: if_splits)
  note C = session_codecs_okD [OF assms(1)]
  from codec_read_list [OF C(1) p(3)] assms(2) have "list_all identifier_ok (push_sorted ids (sr_id s))" by (auto simp: list_all_iff)
  from codec_write [OF C(1) this p(5)] have w: "cd_from (sk_ids C) w = Inr (push_sorted ids (sr_id s))" .
  have "decode_list (sk_ids C) (R (session_namespace, all_sessions_key)) = Inr ids" using p(3) R(2) by simp
  from create_rows [OF assms(4) codec_write [OF C(2) assms(2) p(4)] refl this w]
  show "session_rows_ok C R'" "session_view C R' = put_record (sr_id s) s (session_view C R)" by (simp_all only: R(3))
  show "s' = s" "session_is_open s" "st_record (session_view C R) (sr_id s) = None" using p(1,2) R(1) by (simp_all add: session_view_def)
qed

text \<open>
  Anything that may happen to the sessions: a command, under any host and with the storage failing anywhere; the commit of a creation
  that was prepared before; and whatever happens in other namespaces.
\<close>

inductive session_history :: "session_codecs \<Rightarrow> host_state \<Rightarrow> host_state \<Rightarrow> bool" for C hs where
  start: "session_history C hs hs"
| command: "session_history C hs hs1 \<Longrightarrow> command_ok cmd \<Longrightarrow> session_history C hs (snd (handle_session C h cmd hs1))"
| created: "session_history C hs hs1 \<Longrightarrow> identifier_ok (sr_id s) \<Longrightarrow> prepare_create C h s hs0 = (Inr (s', ops), hs0') \<Longrightarrow>
    ops_effect session_namespace ops (host_rows hs1) = Some R \<Longrightarrow> (\<And>k. host_rows hs2 (session_namespace, k) = R (session_namespace, k)) \<Longrightarrow>
    session_history C hs hs2"
| elsewhere: "session_history C hs hs1 \<Longrightarrow>
    (\<And>k. host_rows hs2 (session_namespace, k) = host_rows hs1 (session_namespace, k)) \<Longrightarrow> session_history C hs hs2"

lemma handle_session_outcome:
  assumes "session_codecs_ok C" "command_ok cmd" "session_rows_ok C (host_rows hs)" "handle_session C h cmd hs = (r, hs')"
  shows "session_rows_ok C (host_rows hs')" "\<And>e. r = Inl e \<Longrightarrow> host_rows hs' = host_rows hs"
    "\<And>y. r = Inr y \<Longrightarrow> session_step cmd (session_view C (host_rows hs)) = Some (y, session_view C (host_rows hs'))"
proof -
  from handle_session_refines [OF assms(1,2), of h] assms(3,4)
  have "(\<forall>e. r = Inl e \<longrightarrow> host_rows hs' = host_rows hs) \<and> (\<forall>y. r = Inr y \<longrightarrow> session_rows_ok C (host_rows hs') \<and>
      session_step cmd (session_view C (host_rows hs)) = Some (y, session_view C (host_rows hs')))"
    unfolding updates_def by blast
  with assms(3) show "session_rows_ok C (host_rows hs')" "\<And>e. r = Inl e \<Longrightarrow> host_rows hs' = host_rows hs"
    "\<And>y. r = Inr y \<Longrightarrow> session_step cmd (session_view C (host_rows hs)) = Some (y, session_view C (host_rows hs'))"
    by (cases r; auto)+
qed

lemma session_history_grows:
  assumes "session_history C hs hs'" "session_codecs_ok C" "session_rows_ok C (host_rows hs)"
  shows "session_rows_ok C (host_rows hs') \<and> session_grows (session_view C (host_rows hs)) (session_view C (host_rows hs')) i"
  using assms(1)
proof (induction rule: session_history.induct)
  case start
  then show ?case using assms(3) by simp
next
  case (command hs1 cmd h)
  obtain r hs2 where r: "handle_session C h cmd hs1 = (r, hs2)" by fastforce
  note o = handle_session_outcome [OF assms(2) command(2) _ r]
  have "session_grows (session_view C (host_rows hs1)) (session_view C (host_rows hs2)) i"
    using o(2,3) command(3) by (cases r) (auto intro: session_step_grows)
  with o(1) command(3) r show ?case by (auto intro: session_grows_trans)
next
  case (created hs1 s h hs0 s' ops hs0' R hs2)
  from created(6) have ok: "session_rows_ok C (host_rows hs1)" by simp
  note c = committed_creation [OF assms(2) created(2,3) ok created(4)]
  note same = session_view_cong [where R = R and R' = "host_rows hs2" and C = C, OF created(5)]
  have "session_grows (session_view C (host_rows hs1)) (session_view C R) i"
    using put_record_grows(2) [OF c(4)] c(5) by simp
  with created(6) c(3) same show ?case by (auto intro: session_grows_trans)
next
  case (elsewhere hs1 hs2)
  note same = session_view_cong [where R = "host_rows hs1" and R' = "host_rows hs2" and C = C, OF elsewhere(2)]
  with elsewhere(3) show ?case by simp
qed

subsection \<open>Resources\<close>

lemma show_nat_digits: "\<forall>c\<in>set (show_nat n). is_ascii_digit c"
proof (induction n rule: less_induct)
  case (less n)
  have one: "is_ascii_digit (char_of (48 + k))" if "k < 10" for k :: nat
    using that by (simp add: is_ascii_digit_def byte_of_def)
  show ?case
  proof (cases "n < 10")
    case True
    with one show ?thesis by (simp add: show_nat.simps [of n])
  next
    case False
    have "show_nat n = show_nat (n div 10) @ [char_of (48 + n mod 10)]" using False by (simp add: show_nat.simps [of n])
    moreover have "n div 10 < n" using False by simp
    ultimately show ?thesis using less one [of "n mod 10"] by auto
  qed
qed

lemma dec_value_append: "dec_value acc (a @ b) = dec_value (dec_value acc a) b"
  by (simp add: dec_value_def)

lemma dec_value_show_nat: "dec_value 0 (show_nat n) = n \<and> show_nat n \<noteq> []"
proof (induction n rule: less_induct)
  case (less n)
  have one: "byte_of (char_of (48 + k)) - 48 = k" if "k < 10" for k
    using that by (simp add: byte_of_def)
  show ?case
  proof (cases "n < 10")
    case True
    with one show ?thesis by (simp add: show_nat.simps [of n])
  next
    case False
    have "show_nat n = show_nat (n div 10) @ [char_of (48 + n mod 10)]" using False by (simp add: show_nat.simps [of n])
    moreover have "n div 10 < n" using False by simp
    ultimately show ?thesis using less one [of "n mod 10"] by (simp add: dec_value_append)
  qed
qed

lemma parse_u64_show_nat: "n \<le> u64_max \<Longrightarrow> parse_u64 (show_nat n) = Some n"
proof -
  assume n: "n \<le> u64_max"
  have "CHR ''+'' \<notin> set (show_nat n)"
    using show_nat_digits [of n] by (auto simp: is_ascii_digit_def byte_of_def)
  from parse_u64_no_sign [OF this, of n] n dec_value_show_nat [of n] show_nat_digits [of n] show ?thesis by simp
qed

lemma parse_input_resource:
  assumes "identifier_ok i" "n \<le> u64_max"
  shows "parse_resource ''input/'' m (session_input_resource i n) = Inr (i, n)"
proof -
  have "CHR ''/'' \<notin> set (show_nat n)" using show_nat_digits [of n] by (auto simp: is_ascii_digit_def byte_of_def)
  then have "rsplit_once CHR ''/'' (i @ ''/'' @ show_nat n) = Some (i, show_nat n)" by (simp add: rsplit_once_Some)
  moreover have "strip_prefix ''input/'' (session_input_resource i n) = Some (i @ ''/'' @ show_nat n)"
    by (simp add: strip_prefix_def session_input_resource_def)
  ultimately show ?thesis
    using assms by (simp add: parse_resource_def identifier_ok_def parse_u64_show_nat)
qed

lemma find_after: "\<forall>y\<in>set xs. \<not> P y \<Longrightarrow> find P (xs @ ys) = find P ys"
  by (induction xs) auto

lemma find_numbered:
  assumes "numbered f ys" "prefix (xs @ [x]) ys" "numbered f (xs @ [x])"
  shows "find (\<lambda>y. f y = f x) ys = Some x"
proof -
  from assms(2) obtain zs where ys: "ys = xs @ x # zs" by (auto simp: prefix_def)
  have "distinct (map f ys)" using assms(1) by (simp add: numbered_def)
  with ys have "f x \<notin> f ` set xs" by auto
  then have "\<forall>y\<in>set xs. f y \<noteq> f x" by (metis image_eqI)
  then show ?thesis by (simp add: ys find_after)
qed

subsection \<open>Properties\<close>

text \<open>C34: every command to the session plugin, with the storage failing anywhere, does to the sessions what the state machine
  does: a reply is the reply of the state machine and the rows stand for its next state, an error leaves every row as it was;
  and the rows stay readable, indexed and numbered. The values in commands, histories and journals are storable ones: without floats.\<close>

theorem sessions_refine:
  assumes "session_codecs_ok C" "command_ok cmd" "session_rows_ok C (host_rows hs)" "handle_session C h cmd hs = (r, hs')"
  shows "session_rows_ok C (host_rows hs') \<and> (case r of
      Inl _ \<Rightarrow> host_rows hs' = host_rows hs
    | Inr y \<Rightarrow> session_step cmd (session_view C (host_rows hs)) = Some (y, session_view C (host_rows hs')))"
  using handle_session_outcome [OF assms] by (cases r) auto

text \<open>C35: whatever happens to the sessions over time, commands that succeed or fail, prepared creations that are committed, other
  namespaces that change, no session disappears or changes its directory, inputs, history and journals only get longer, and
  the record, the inputs and the history of a closed session never change. The values in commands, histories and journals are
  storable ones: without floats.\<close>

theorem sessions_only_grow:
  assumes "session_history C hs hs'" "session_codecs_ok C" "session_rows_ok C (host_rows hs)"
  shows "session_rows_ok C (host_rows hs') \<and> (\<forall>i. session_grows (session_view C (host_rows hs)) (session_view C (host_rows hs')) i)"
  using session_history_grows [OF assms] by blast

text \<open>C36: the resource of an input names it forever: whatever happens after the input was accepted, resolving its resource answers
  that input, or fails without changing anything. Whatever happens: with storable values, without floats, in histories and journals.\<close>

theorem input_resources_round_trip:
  assumes "session_codecs_ok C" "session_rows_ok C (host_rows hs)" "identifier_ok i"
    "handle_session C h (SessionContinue i kind content) hs = (Inr (SessionContinued s x), hs1)" "si_sequence x \<le> u64_max"
    "session_history C hs1 hs2"
    "handle_session C h' (SessionResolveInput (session_input_resource i (si_sequence x))) hs2 = (r, hs3)"
  shows "host_rows hs3 = host_rows hs2 \<and> (case r of Inl _ \<Rightarrow> True | Inr y \<Rightarrow> y = SessionInputFound (Some x))"
proof -
  let ?A = "session_view C (host_rows hs)" and ?B = "session_view C (host_rows hs1)" and ?D = "session_view C (host_rows hs2)"
  have "command_ok (SessionContinue i kind content)" by (simp add: command_ok_def)
  note o = handle_session_outcome [OF assms(1) this assms(2,4)]
  from o(3) [OF refl] have b: "open_record ?A i = Some s" "?B = ?A\<lparr>st_inputs := (st_inputs ?A)(i := st_inputs ?A i @ [x])\<rparr>"
    by (auto simp: session_step_def Let_def)
  from session_history_grows [OF assms(6,1) o(1)] have d: "session_rows_ok C (host_rows hs2)" "session_grows ?B ?D i" by auto
  have in_b: "st_inputs ?B i = st_inputs ?A i @ [x]" "st_record ?B i = Some s" using b by (simp_all add: open_record_eq)
  have num: "numbered si_sequence (st_inputs (session_view C R) i)" if "session_rows_ok C R" for R
    using that by (auto simp: session_rows_ok_def lists_ok_def session_view_def dest: spec [of _ i])
  have "find (\<lambda>y. si_sequence y = si_sequence x) (st_inputs ?D i) = Some x"
    using find_numbered [OF num [OF d(1)], of "st_inputs ?A i" x] num [OF o(1)] in_b(1) d(2) by (simp add: session_grows_def)
  moreover have "st_record ?D i \<noteq> None" using d(2) in_b(2) by (auto simp: session_grows_def)
  ultimately have step: "session_step (SessionResolveInput (session_input_resource i (si_sequence x))) ?D = Some (SessionInputFound (Some x), ?D)"
    using parse_input_resource [OF assms(3,5), of "[]"] by (simp add: session_step_def spec_resolve_def)
  have "command_ok (SessionResolveInput (session_input_resource i (si_sequence x)))" by (simp add: command_ok_def)
  note f = handle_session_outcome [OF assms(1) this d(1) assms(7)]
  have "reads host_rows (handle_session C h' (SessionResolveInput q)) (\<lambda>R y. True)" for q
    unfolding handle_session_def session_command.case resolve_input_resource_def read_inputs_def case_prod_beta
    by (rule reads_mono, (rule program_rules)+) simp
  then have "host_rows hs3 = host_rows hs2" using assms(7) unfolding reads_def by blast
  then show ?thesis using f(3) step by (cases r) auto
qed

subsection \<open>An instance\<close>

text \<open>One session \<open>s\<close>, then one input to it.\<close>

definition demo_input :: session_input where
  "demo_input = \<lparr>si_sequence = 1, si_kind = InputUser, si_content = [104, 105]\<rparr>"

definition demo_codecs :: session_codecs where
  "demo_codecs = \<lparr>sk_ids = table_codec [([''s''], [1])], sk_session = table_codec [(session_new ''s'', [2])],
     sk_inputs = table_codec [([demo_input], [3])], sk_history = table_codec [], sk_journal = table_codec []\<rparr>"

definition session_config :: kernel_config where
  "session_config = \<lparr>kc_manifests = [], kc_activation = [], kc_namespaces = [(session_namespace, ''phenix.sessions'')],
     kc_layers = [], kc_providers = [], kc_bindings = [], kc_policy = 1\<rparr>"

definition session_host :: plugin_host where
  "session_host = \<lparr>ph_generation = None, ph_graph = graph_empty, ph_config = session_config,
     ph_states = [(''phenix.sessions'', Active)], ph_instances = {''phenix.sessions''}, ph_plugin = ''phenix.sessions'',
     ph_authority = {persistence_read, persistence_write}, ph_cancelled = False, ph_thread = 1, ph_fault = no_fault, ph_engine = []\<rparr>"

definition session_state :: "(resource_namespace \<times> string \<rightharpoonup> blob) \<Rightarrow> host_state" where
  "session_state R = \<lparr>hs_scope = scope_new None, hs_db = \<lparr>db_schemas = [session_namespace \<mapsto> (''phenix.sessions'', 1)],
     db_records = R, db_clock = 0\<rparr>, hs_trace = []\<rparr>"

definition demo_rows :: records where
  "demo_rows = [(session_namespace, session_key ''s'') \<mapsto> [2], (session_namespace, all_sessions_key) \<mapsto> [1]]"

lemma demo_codecs_ok: "session_codecs_ok demo_codecs"
  unfolding session_codecs_ok_def demo_codecs_def session_codecs.simps
  by (intro conjI table_codec_ok codec_ok_writes) (simp_all add: session_new_def identifier_ok_def parse_identifier_ok identifier_byte_def
      is_ascii_alphanumeric_def byte_of_def)

lemma demo_rows_ok: "session_rows_ok demo_codecs demo_rows"
  unfolding session_rows_ok_def
proof (intro conjI)
  show "index_ok demo_codecs demo_rows"
    by (auto simp: index_ok_def demo_rows_def demo_codecs_def table_codec_def session_key_def all_sessions_key_def)
  show "records_ok demo_codecs demo_rows"
    by (auto simp: records_ok_def demo_rows_def demo_codecs_def table_codec_def session_new_def)
qed (auto simp: lists_ok_def journals_ok_def demo_rows_def numbered_def)

lemma demo_continue:
  "fst (handle_session demo_codecs session_host (SessionContinue ''s'' InputUser [104, 105]) (session_state demo_rows)) =
     Inr (SessionContinued (session_new ''s'') demo_input)"
  by code_simp

definition demo_next :: host_state where
  "demo_next = snd (handle_session demo_codecs session_host (SessionContinue ''s'' InputUser [104, 105]) (session_state demo_rows))"

lemma demo_step:
  "handle_session demo_codecs session_host (SessionContinue ''s'' InputUser [104, 105]) (session_state demo_rows) =
     (Inr (SessionContinued (session_new ''s'') demo_input), demo_next)"
  using demo_continue by (simp add: demo_next_def prod_eq_iff)

lemma demo_start_ok: "session_rows_ok demo_codecs (host_rows (session_state demo_rows))"
  using demo_rows_ok by (simp add: host_rows_def session_state_def)

lemma demo_command_ok: "command_ok (SessionContinue ''s'' InputUser [104, 105])"
  by (simp add: command_ok_def)

text \<open>Reading under this host, with nothing failing.\<close>

lemma session_row_run:
  assumes "db_schemas (hs_db hs) session_namespace = Some (''phenix.sessions'', v)"
  shows "\<exists>hs'. session_row session_host k hs = (Inr (host_rows hs (session_namespace, k)), hs') \<and> host_rows hs' = host_rows hs \<and>
    db_schemas (hs_db hs') = db_schemas (hs_db hs)"
  using assms
  by (simp add: session_row_def read_raw_def from_host_def read_durable_def hcheck_then require_persistence_operation_def
      require_capability_def on_persistence_def db_read_def sql_bind_def require_owner_def statement_def sql_return_def host_rows_def)
    (simp add: session_host_def session_config_def permits_def resource_owner_def)

lemma demo_next_rows:
  "host_rows demo_next = demo_rows((session_namespace, inputs_key ''s'') \<mapsto> [3])"
  "db_schemas (hs_db demo_next) session_namespace = Some (''phenix.sessions'', 1)"
proof -
  have "handle_session demo_codecs session_host (SessionContinue ''s'' InputUser [104, 105]) =
      continue_session demo_codecs session_host ''s'' InputUser [104, 105]" by (simp add: handle_session_def fun_eq_iff)
  with demo_step continue_session_updates [of demo_codecs session_host "''s''" InputUser "[104, 105]"]
  obtain s xs x w where w: "SessionContinued (session_new ''s'') demo_input = SessionContinued s x"
    "decode_list (sk_inputs demo_codecs) (host_rows (session_state demo_rows) (session_namespace, inputs_key ''s'')) = Inr xs"
    "cd_to (sk_inputs demo_codecs) (xs @ [x]) = Inr w"
    "host_rows demo_next = (host_rows (session_state demo_rows))((session_namespace, inputs_key ''s'') \<mapsto> w)"
    unfolding updates_def by metis
  have "host_rows (session_state demo_rows) = demo_rows" by (simp add: host_rows_def session_state_def)
  moreover have "demo_rows (session_namespace, inputs_key ''s'') = None" by (simp add: demo_rows_def)
  ultimately have "xs = []" using w(2) by simp
  with w(1,3) have "w = [3]" by (simp add: demo_codecs_def table_codec_def)
  with w(4) show "host_rows demo_next = demo_rows((session_namespace, inputs_key ''s'') \<mapsto> [3])"
    by (simp add: host_rows_def session_state_def)
  have "db_schemas (hs_db (snd (handle_session demo_codecs session_host (SessionContinue ''s'' InputUser [104, 105])
      (session_state demo_rows)))) session_namespace = Some (''phenix.sessions'', 1)" by code_simp
  then show "db_schemas (hs_db demo_next) session_namespace = Some (''phenix.sessions'', 1)" by (simp add: demo_next_def)
qed

theorem sessions_refine_witness:
  "session_rows_ok demo_codecs (host_rows demo_next) \<and>
   session_step (SessionContinue ''s'' InputUser [104, 105]) (session_view demo_codecs (host_rows (session_state demo_rows))) =
     Some (SessionContinued (session_new ''s'') demo_input, session_view demo_codecs (host_rows demo_next))"
  using sessions_refine [OF demo_codecs_ok demo_command_ok demo_start_ok demo_step] by simp

theorem sessions_only_grow_witness:
  "session_grows (session_view demo_codecs (host_rows (session_state demo_rows))) (session_view demo_codecs (host_rows demo_next)) ''s''"
proof -
  from session_history.command [OF session_history.start demo_command_ok, of demo_codecs "session_state demo_rows" session_host]
  have "session_history demo_codecs (session_state demo_rows) demo_next" by (simp add: demo_step)
  from sessions_only_grow [OF this demo_codecs_ok demo_start_ok] show ?thesis by blast
qed

lemma demo_resolves:
  "is_ok (fst (handle_session demo_codecs session_host (SessionResolveInput (session_input_resource ''s'' 1)) demo_next))"
proof -
  obtain hs1 where r1: "session_row session_host (session_key ''s'') demo_next = (Inr (Some [2]), hs1)"
    "host_rows hs1 = host_rows demo_next" "db_schemas (hs_db hs1) session_namespace = Some (''phenix.sessions'', 1)"
    using session_row_run [OF demo_next_rows(2), of "session_key ''s''"] demo_next_rows by (auto simp: demo_rows_def)
  obtain hs2 where r2: "session_row session_host (inputs_key ''s'') hs1 = (Inr (Some [3]), hs2)"
    using session_row_run [OF r1(3), of "inputs_key ''s''"] r1(2) demo_next_rows(1) by auto
  have i: "identifier_ok ''s''"
    by (simp add: identifier_ok_def parse_identifier_ok identifier_byte_def is_ascii_alphanumeric_def byte_of_def)
  have "parse_resource ''input/'' m (session_input_resource ''s'' 1) = Inr (''s'', 1)" for m
    by (rule parse_input_resource [OF i]) (simp add: u64_max_def)
  then show ?thesis
    by (simp add: handle_session_def resolve_input_resource_def pbind_def plift_def read_session_def read_inputs_def get_option_def
        get_list_def r1(1) r2 decode_option_def decode_list_def preturn_def demo_codecs_def table_codec_def)
qed

theorem input_resources_round_trip_witness:
  "fst (handle_session demo_codecs session_host (SessionResolveInput (session_input_resource ''s'' 1)) demo_next) =
     Inr (SessionInputFound (Some demo_input))"
proof -
  obtain r hs3 where r: "handle_session demo_codecs session_host (SessionResolveInput (session_input_resource ''s'' 1)) demo_next = (r, hs3)"
    by fastforce
  have i: "identifier_ok ''s''"
    by (simp add: identifier_ok_def parse_identifier_ok identifier_byte_def is_ascii_alphanumeric_def byte_of_def)
  have n: "1 = si_sequence demo_input" "si_sequence demo_input \<le> u64_max" by (simp_all add: demo_input_def u64_max_def)
  from input_resources_round_trip [OF demo_codecs_ok demo_start_ok i demo_step n(2) session_history.start r [unfolded n(1)]]
  have "case r of Inl _ \<Rightarrow> True | Inr y \<Rightarrow> y = SessionInputFound (Some demo_input)" by (rule conjunct2)
  moreover have "is_ok (fst (handle_session demo_codecs session_host (SessionResolveInput (session_input_resource ''s'' 1)) demo_next))"
    by (rule demo_resolves)
  ultimately show ?thesis using r by (cases r) simp_all
qed

end
