(* ===== verification/Session_Tree.thy ===== *)
theory Session_Tree
  imports Sessions
begin

text \<open>
  The session-tree plugin (\<open>phenix-plugin-session-tree/src/implementation.rs\<close>): lineage between sessions, in the rows of its own namespace.
  It asks the session plugin through its imports; a child is created together with its lineage, in one commit over both namespaces of
  a creation that the session plugin has prepared.

  A call of the session plugin runs its handler under the host of that call, inside a coordinator frame of the caller;
  that the dispatch refuses the call, or loses its result, is part of the call's description. \<open>late\<close> says whether the own call was cancelled
  by the time of the commit.
\<close>

subsection \<open>Data\<close>

record lineage =
  ln_session :: session_id
  ln_parent :: "session_id option"

datatype tree_command =
  CreateChild session_id session_id
| LinkSession session_id "session_id option"
| ParentOf session_id
| ChildrenOf "session_id option"

datatype tree_response =
  ChildCreated session_record lineage
| LineageSet lineage
| ParentFound "session_id option"
| ChildrenFound "session_id list"

record tree_codecs =
  tk_sessions :: session_codecs
  tk_ids :: "session_id list codec"
  tk_lineage :: "lineage codec"

record session_link =
  sl_host :: plugin_host
  sl_before :: "plugin_failure option"
  sl_after :: "plugin_failure option"

text \<open>What one invocation of the plugin fixes: its host, its calls of the session plugin, and what the entropy source returns.\<close>

record tree_call =
  tl_host :: plugin_host
  tl_late :: bool
  tl_links :: "nat \<Rightarrow> session_link"
  tl_draws :: "(string + nat list) list"
  tl_session_draws :: "(string + nat list) list"

definition tree_namespace :: resource_namespace where "tree_namespace = ''phenix.session-tree.state''"

definition lineage_key :: "session_id \<Rightarrow> string" where "lineage_key i = ''lineage/'' @ i"

definition children_key :: "session_id option \<Rightarrow> string" where
  "children_key p = (case p of Some i \<Rightarrow> ''children/'' @ i | None \<Rightarrow> ''children/@root'')"

subsection \<open>Programs that may not return\<close>

type_synonym ('s, 'a) run = "'s \<Rightarrow> ((plugin_failure + 'a) \<times> 's) option"

definition total :: "('s, 'a) program \<Rightarrow> ('s, 'a) run" where
  "total f s = Some (f s)"

definition rthen :: "('s, 'a) run \<Rightarrow> ('a \<Rightarrow> ('s, 'b) run) \<Rightarrow> ('s, 'b) run" where
  "rthen f g s = Option.bind (f s) (\<lambda>(r, s'). case r of Inl e \<Rightarrow> Some (Inl e, s') | Inr x \<Rightarrow> g x s')"

definition from_host_run :: "(host_state \<Rightarrow> ((kernel_error + 'a) \<times> host_state) option) \<Rightarrow> (host_state, 'a) run" where
  "from_host_run f hs = map_option (\<lambda>(r, hs'). (map_err FromHost r, hs')) (f hs)"

subsection \<open>Calls of the session plugin\<close>

text \<open>The frame that was pushed is there to be popped (lemma \<open>frame_balanced\<close>).\<close>

definition in_frame :: "plugin_host \<Rightarrow> (host_state, 'a) run \<Rightarrow> (host_state, 'a) run" where
  "in_frame h f hs =
     map_option (\<lambda>(r, hs'). (r, hs'\<lparr>hs_scope := (case pop_coordinator (ph_thread h) (hs_scope hs') of
         Some sc \<Rightarrow> sc | None \<Rightarrow> hs_scope hs')\<rparr>))
       (f (hs\<lparr>hs_scope := push_coordinator (ph_thread h) (ph_plugin h) (hs_scope hs)\<rparr>))"

definition linked :: "session_link \<Rightarrow> (plugin_host \<Rightarrow> (host_state, 'a) run) \<Rightarrow> (host_state, 'a) run" where
  "linked l f hs = (case sl_before l of
     Some e \<Rightarrow> Some (Inl e, hs)
   | None \<Rightarrow> map_option (\<lambda>(r, hs'). (case sl_after l of Some e \<Rightarrow> Inl e | None \<Rightarrow> r, hs')) (f (sl_host l) hs))"

definition session_call :: "tree_codecs \<Rightarrow> plugin_host \<Rightarrow> session_link \<Rightarrow> session_command \<Rightarrow> (host_state, session_response) run" where
  "session_call T h l cmd = in_frame h (linked l (\<lambda>sh. total (handle_session (tk_sessions T) sh cmd)))"

definition mutation_call :: "tree_codecs \<Rightarrow> tree_call \<Rightarrow> session_link \<Rightarrow> session_record \<Rightarrow> (host_state, session_record \<times> handle) run" where
  "mutation_call T c l s = in_frame (tl_host c) (linked l (\<lambda>sh. handle_mutation (tk_sessions T) sh (tl_session_draws c) s))"

definition require_session :: "tree_codecs \<Rightarrow> plugin_host \<Rightarrow> session_link \<Rightarrow> session_id \<Rightarrow> (host_state, session_record) run" where
  "require_session T h l i =
     rthen (session_call T h l (SessionGet i)) (\<lambda>y. case y of
         SessionFound (Some s) \<Rightarrow> total (preturn s)
       | SessionFound None \<Rightarrow> total (prefuse (''unknown session: '' @ i))
       | _ \<Rightarrow> total (prefuse ''unexpected session response while linking lineage''))"

subsection \<open>Own rows\<close>

definition tree_row :: "plugin_host \<Rightarrow> string \<Rightarrow> (host_state, blob option) program" where
  "tree_row h k = read_raw h tree_namespace k"

definition read_lineage :: "tree_codecs \<Rightarrow> plugin_host \<Rightarrow> session_id \<Rightarrow> (host_state, lineage option) program" where
  "read_lineage T h i = get_option (tk_lineage T) (tree_row h (lineage_key i))"

definition read_children :: "tree_codecs \<Rightarrow> plugin_host \<Rightarrow> session_id option \<Rightarrow> (host_state, session_id list) program" where
  "read_children T h p = get_list (tk_ids T) (tree_row h (children_key p))"

text \<open>The walk from a session towards the root, looking for the child; with a cycle in the rows it would not end.\<close>

partial_function (option) would_cycle ::
    "tree_codecs \<Rightarrow> plugin_host \<Rightarrow> session_id \<Rightarrow> session_id option \<Rightarrow> host_state \<Rightarrow> ((plugin_failure + bool) \<times> host_state) option" where
  "would_cycle T h child cursor hs =
     (if cursor = None then Some (Inr False, hs)
      else if the cursor = child then Some (Inr True, hs)
      else (let q = read_lineage T h (the cursor) hs
            in case fst q of Inl e \<Rightarrow> Some (Inl e, snd q)
               | Inr l \<Rightarrow> would_cycle T h child (Option.bind l ln_parent) (snd q)))"

text \<open>The lineage of a session and the new list of children, with what they replace.\<close>

definition lineage_operations ::
    "tree_codecs \<Rightarrow> plugin_host \<Rightarrow> session_id \<Rightarrow> session_id option \<Rightarrow> (host_state, lineage \<times> transaction_op list) program" where
  "lineage_operations T h i p =
     (let l = \<lparr>ln_session = i, ln_parent = p\<rparr>
      in pbind (tree_row h (children_key p)) (\<lambda>old.
         pbind (plift (decode_list (tk_ids T) old)) (\<lambda>ids.
         pbind (encode_row (tk_lineage T) l) (\<lambda>v.
         pbind (encode_row (tk_ids T) (push_sorted ids i)) (\<lambda>w.
           preturn (l, [OpAssert (lineage_key i) None, OpAssert (children_key p) old,
             OpPut (lineage_key i) v, OpPut (children_key p) w]))))))"

subsection \<open>Commands\<close>

definition link_session :: "tree_codecs \<Rightarrow> tree_call \<Rightarrow> session_id \<Rightarrow> session_id option \<Rightarrow> (host_state, tree_response) run" where
  "link_session T c i p =
     (let h = tl_host c
      in rthen (require_session T h (tl_links c 0) i) (\<lambda>_.
         rthen (case p of
             None \<Rightarrow> total (preturn ())
           | Some parent \<Rightarrow>
               rthen (total (prequire (parent \<noteq> i) ''session cannot be its own parent'')) (\<lambda>_.
               rthen (require_session T h (tl_links c 1) parent) (\<lambda>_.
               rthen (would_cycle T h i (Some parent)) (\<lambda>cycle.
                 total (prequire (\<not> cycle) ''session lineage would contain a cycle''))))) (\<lambda>_.
         rthen (total (read_lineage T h i)) (\<lambda>l.
         rthen (total (prequire (l = None) (''session lineage already exists: '' @ i))) (\<lambda>_.
         rthen (total (lineage_operations T h i p)) (\<lambda>(l, ops).
         rthen (total (write_rows (h\<lparr>ph_cancelled := tl_late c\<rparr>) tree_namespace ops)) (\<lambda>_.
           total (preturn (LineageSet l)))))))))"

text \<open>The second half of a creation: the own mutation, and one commit of both.\<close>

definition create_commit :: "tree_codecs \<Rightarrow> tree_call \<Rightarrow> session_id \<Rightarrow> session_id \<Rightarrow> session_record \<Rightarrow> handle \<Rightarrow> (host_state, tree_response) run" where
  "create_commit T c i parent session session_mutation =
     rthen (total (lineage_operations T (tl_host c) i (Some parent))) (\<lambda>(l, ops).
         rthen (from_host_run (prepare_durable_transaction (tl_host c) (tl_draws c) tree_namespace ops)) (\<lambda>tree_mutation.
         rthen (total (from_host (transact_prepared ((tl_host c)\<lparr>ph_cancelled := tl_late c\<rparr>) [session_mutation, tree_mutation]))) (\<lambda>_.
           total (preturn (ChildCreated session l)))))"

definition child_checks :: "tree_codecs \<Rightarrow> tree_call \<Rightarrow> session_id \<Rightarrow> session_id \<Rightarrow> (host_state, unit) run" where
  "child_checks T c i parent =
     rthen (total (prequire (i \<noteq> parent) ''session cannot be its own parent'')) (\<lambda>_.
     rthen (require_session T (tl_host c) (tl_links c 0) parent) (\<lambda>_.
     rthen (total (read_lineage T (tl_host c) i)) (\<lambda>l.
       total (prequire (l = None) (''session lineage already exists: '' @ i)))))"

definition create_child :: "tree_codecs \<Rightarrow> tree_call \<Rightarrow> session_id \<Rightarrow> session_id \<Rightarrow> (host_state, tree_response) run" where
  "create_child T c i parent =
     rthen (child_checks T c i parent) (\<lambda>_.
     rthen (mutation_call T c (tl_links c 1) (session_new i)) (\<lambda>(session, session_mutation).
       create_commit T c i parent session session_mutation))"

definition handle_tree :: "tree_codecs \<Rightarrow> tree_call \<Rightarrow> tree_command \<Rightarrow> (host_state, tree_response) run" where
  "handle_tree T c cmd = (case cmd of
     CreateChild i parent \<Rightarrow> create_child T c i parent
   | LinkSession i p \<Rightarrow> link_session T c i p
   | ParentOf i \<Rightarrow> total (pbind (read_lineage T (tl_host c) i) (\<lambda>l. preturn (ParentFound (Option.bind l ln_parent))))
   | ChildrenOf p \<Rightarrow> total (pbind (read_children T (tl_host c) p) (\<lambda>ids. preturn (ChildrenFound ids))))"

subsection \<open>What runs read and update\<close>

definition run_reads :: "('s \<Rightarrow> 'r) \<Rightarrow> ('s, 'a) run \<Rightarrow> ('r \<Rightarrow> 'a \<Rightarrow> bool) \<Rightarrow> bool" where
  "run_reads rows f P \<longleftrightarrow> (\<forall>s r s'. f s = Some (r, s') \<longrightarrow> rows s' = rows s \<and> (\<forall>x. r = Inr x \<longrightarrow> P (rows s) x))"

definition run_updates :: "('s \<Rightarrow> 'r) \<Rightarrow> ('s, 'a) run \<Rightarrow> ('r \<Rightarrow> 'a \<Rightarrow> 'r \<Rightarrow> bool) \<Rightarrow> bool" where
  "run_updates rows f P \<longleftrightarrow> (\<forall>s r s'. f s = Some (r, s') \<longrightarrow>
      (\<forall>e. r = Inl e \<longrightarrow> rows s' = rows s) \<and> (\<forall>x. r = Inr x \<longrightarrow> P (rows s) x (rows s')))"

named_theorems run_rules "what the pieces of a run read and update"

lemma total_eq [simp]: "total f s = Some q \<longleftrightarrow> f s = q"
  by (simp add: total_def)

lemma rthen_cases:
  "rthen f g s = Some (r, s2) \<longleftrightarrow>
     (\<exists>e. f s = Some (Inl e, s2) \<and> r = Inl e) \<or> (\<exists>x s1. f s = Some (Inr x, s1) \<and> g x s1 = Some (r, s2))"
proof (cases "f s")
  case (Some q)
  obtain r1 s1 where "q = (r1, s1)" by fastforce
  with Some show ?thesis by (cases r1) (auto simp: rthen_def)
qed (simp add: rthen_def)

lemma total_reads [run_rules]: "reads rows f P \<Longrightarrow> run_reads rows (total f) P"
  by (simp add: reads_def run_reads_def)

lemma total_updates: "updates rows f P \<Longrightarrow> run_updates rows (total f) P"
  by (simp add: updates_def run_updates_def)

lemma run_reads_mono: "run_reads rows f P \<Longrightarrow> (\<And>R x. P R x \<Longrightarrow> Q R x) \<Longrightarrow> run_reads rows f Q"
  unfolding run_reads_def by blast

lemma run_updates_mono: "run_updates rows f P \<Longrightarrow> (\<And>R x R'. P R x R' \<Longrightarrow> Q R x R') \<Longrightarrow> run_updates rows f Q"
  unfolding run_updates_def by blast

lemma run_reads_then [run_rules]:
  assumes "run_reads rows f P" "\<And>x. run_reads rows (g x) (Q x)"
  shows "run_reads rows (rthen f g) (\<lambda>R y. \<exists>x. P R x \<and> Q x R y)"
  unfolding run_reads_def rthen_cases
proof (intro allI impI, elim disjE exE conjE)
  fix s r s2 x s1
  assume "f s = Some (Inr x, s1)" "g x s1 = Some (r, s2)"
  with assms show "rows s2 = rows s \<and> (\<forall>y. r = Inr y \<longrightarrow> (\<exists>x. P (rows s) x \<and> Q x (rows s) y))"
    unfolding run_reads_def by metis
qed (use assms in \<open>auto simp: run_reads_def\<close>)

lemma run_updates_then:
  assumes "run_reads rows f P" "\<And>x. run_updates rows (g x) (Q x)"
  shows "run_updates rows (rthen f g) (\<lambda>R y R'. \<exists>x. P R x \<and> Q x R y R')"
  unfolding run_updates_def rthen_cases
proof (intro allI impI, elim disjE exE conjE)
  fix s r s2 x s1
  assume a: "f s = Some (Inr x, s1)" "g x s1 = Some (r, s2)"
  with assms(1) have "rows s1 = rows s" "P (rows s) x" unfolding run_reads_def by blast+
  with a(2) assms(2) [of x] show "(\<forall>e. r = Inl e \<longrightarrow> rows s2 = rows s) \<and>
      (\<forall>y. r = Inr y \<longrightarrow> (\<exists>x. P (rows s) x \<and> Q x (rows s) y (rows s2)))"
    unfolding run_updates_def by metis
qed (use assms in \<open>auto simp: run_reads_def\<close>)

lemma run_updates_then_return:
  assumes "run_updates rows f P"
  shows "run_updates rows (rthen f (\<lambda>x. total (preturn (g x)))) (\<lambda>R y R'. \<exists>x. y = g x \<and> P R x R')"
  using assms unfolding run_updates_def rthen_cases by (fastforce simp: preturn_def intro: exI)

lemma run_reads_option [run_rules]:
  assumes "run_reads rows f P" "\<And>y. run_reads rows (g y) (Q y)"
  shows "run_reads rows (case x of None \<Rightarrow> f | Some y \<Rightarrow> g y) (\<lambda>R z. case x of None \<Rightarrow> P R z | Some y \<Rightarrow> Q y R z)"
  using assms by (cases x) simp_all

lemma run_reads_frame [run_rules]: "run_reads host_rows f P \<Longrightarrow> run_reads host_rows (in_frame h f) P"
  unfolding run_reads_def in_frame_def by (fastforce simp: host_rows_def)

lemma run_reads_linked [run_rules]: "(\<And>sh. run_reads host_rows (f sh) P) \<Longrightarrow> run_reads host_rows (linked l f) P"
  unfolding run_reads_def linked_def by (fastforce split: option.splits)

lemma session_get_reads [run_rules]:
  "run_reads host_rows (session_call T h l (SessionGet i)) (\<lambda>R y. \<exists>s. y = SessionFound s \<and>
     decode_option (sk_session (tk_sessions T)) (R (session_namespace, session_key i)) = Inr s)"
  unfolding session_call_def handle_session_def session_command.case
  by (rule run_rules)+ (rule reads_mono, (rule program_rules)+, auto)

lemma require_session_reads [run_rules]:
  "run_reads host_rows (require_session T h l i)
     (\<lambda>R s. decode_option (sk_session (tk_sessions T)) (R (session_namespace, session_key i)) = Inr (Some s))"
proof -
  have "run_reads host_rows (case y of
         SessionFound (Some s) \<Rightarrow> total (preturn s)
       | SessionFound None \<Rightarrow> total (prefuse (''unknown session: '' @ i))
       | _ \<Rightarrow> total (prefuse ''unexpected session response while linking lineage'')) (\<lambda>R s. y = SessionFound (Some s))" for y
    by (auto split: session_response.splits option.splits simp: run_reads_def preturn_def prefuse_def)
  then show ?thesis
    unfolding require_session_def by (rule run_reads_mono [OF run_reads_then [OF session_get_reads]]) auto
qed

lemma tree_row_reads [program_rules]:
  "reads host_rows (tree_row h k) (\<lambda>R v. v = R (tree_namespace, k))"
  unfolding tree_row_def by (rule host_store.get_reads)

lemma read_lineage_reads [program_rules]:
  "reads host_rows (read_lineage T h i) (\<lambda>R v. decode_option (tk_lineage T) (R (tree_namespace, lineage_key i)) = Inr v)"
  unfolding read_lineage_def tree_row_def by (rule host_store.get_option_reads)

lemma read_children_reads [program_rules]:
  "reads host_rows (read_children T h p) (\<lambda>R v. decode_list (tk_ids T) (R (tree_namespace, children_key p)) = Inr v)"
  unfolding read_children_def tree_row_def by (rule host_store.get_list_reads)

lemma lineage_operations_reads [program_rules]:
  "reads host_rows (lineage_operations T h i p) (\<lambda>R x. \<exists>ids v w.
     decode_list (tk_ids T) (R (tree_namespace, children_key p)) = Inr ids \<and>
     cd_to (tk_lineage T) \<lparr>ln_session = i, ln_parent = p\<rparr> = Inr v \<and> cd_to (tk_ids T) (push_sorted ids i) = Inr w \<and>
     x = (\<lparr>ln_session = i, ln_parent = p\<rparr>, [OpAssert (lineage_key i) None,
       OpAssert (children_key p) (R (tree_namespace, children_key p)), OpPut (lineage_key i) v, OpPut (children_key p) w]))"
  unfolding lineage_operations_def Let_def by (rule reads_mono, (rule program_rules)+) auto

subsection \<open>Lineage as a relation\<close>

definition tree_lineage :: "tree_codecs \<Rightarrow> records \<Rightarrow> session_id \<Rightarrow> lineage option" where
  "tree_lineage T R i = value_or None (decode_option (tk_lineage T) (R (tree_namespace, lineage_key i)))"

definition parent_rel :: "tree_codecs \<Rightarrow> records \<Rightarrow> (session_id \<times> session_id) set" where
  "parent_rel T R = {(i, p). \<exists>l. tree_lineage T R i = Some l \<and> ln_parent l = Some p}"

definition reaches :: "tree_codecs \<Rightarrow> records \<Rightarrow> session_id option \<Rightarrow> session_id \<Rightarrow> bool" where
  "reaches T R cursor child \<longleftrightarrow> (\<exists>c. cursor = Some c \<and> (c, child) \<in> (parent_rel T R)\<^sup>*)"

lemma reaches_step:
  "i \<noteq> child \<Longrightarrow> reaches T R (Some i) child \<longleftrightarrow> reaches T R (Option.bind (tree_lineage T R i) ln_parent) child"
  unfolding reaches_def parent_rel_def
  by (auto simp: bind_eq_Some_conv elim: converse_rtranclE intro: converse_rtrancl_into_rtrancl)

lemma read_lineage_outcome:
  assumes "read_lineage T h i hs = (r, hs1)"
  shows "host_rows hs1 = host_rows hs" "\<And>l. r = Inr l \<Longrightarrow> l = tree_lineage T (host_rows hs) i"
  using assms read_lineage_reads [of T h i] unfolding reads_def tree_lineage_def by (fastforce, fastforce)

lemma would_cycle_sound:
  assumes "would_cycle T h child cursor hs = Some q"
  shows "host_rows (snd q) = host_rows hs \<and> (\<forall>b. fst q = Inr b \<longrightarrow> b = reaches T (host_rows hs) cursor child)"
proof (rule would_cycle.raw_induct [where P = "\<lambda>T h child cursor hs q. host_rows (snd q) = host_rows hs \<and>
    (\<forall>b. fst q = Inr b \<longrightarrow> b = reaches T (host_rows hs) cursor child)", OF _ assms])
  fix w T h child cursor hs q
  assume ih: "\<And>T h child cursor hs y. w T h child cursor hs = Some y \<Longrightarrow> host_rows (snd y) = host_rows hs \<and>
      (\<forall>b. fst y = Inr b \<longrightarrow> b = reaches T (host_rows hs) cursor child)"
    and step: "(if cursor = None then Some (Inr False, hs)
      else if the cursor = child then Some (Inr True, hs)
      else (let q = read_lineage T h (the cursor) hs
            in case fst q of Inl e \<Rightarrow> Some (Inl e, snd q)
               | Inr l \<Rightarrow> w T h child (Option.bind l ln_parent) (snd q))) = Some q"
  show "host_rows (snd q) = host_rows hs \<and> (\<forall>b. fst q = Inr b \<longrightarrow> b = reaches T (host_rows hs) cursor child)"
  proof (cases cursor)
    case None
    with step show ?thesis by (auto simp: reaches_def)
  next
    case (Some i)
    show ?thesis
    proof (cases "i = child")
      case True
      with step Some show ?thesis by (auto simp: reaches_def)
    next
      case False
      obtain r hs1 where r: "read_lineage T h i hs = (r, hs1)" by fastforce
      note l = read_lineage_outcome [OF r]
      show ?thesis
      proof (cases r)
        case (Inl e)
        with step Some False r l(1) show ?thesis by auto
      next
        case (Inr x)
        with step Some False r have "w T h child (Option.bind x ln_parent) hs1 = Some q" by simp
        from ih [OF this] l(1) l(2) [OF Inr] reaches_step [OF False, of T "host_rows hs"] Some show ?thesis by simp
      qed
    qed
  qed
qed

lemma would_cycle_reads [run_rules]:
  "run_reads host_rows (would_cycle T h child cursor) (\<lambda>R b. b = reaches T R cursor child)"
  unfolding run_reads_def using would_cycle_sound [of T h child cursor] by fastforce

text \<open>A forest of finitely many sessions: every walk ends.\<close>

lemma would_cycle_returns:
  assumes "finite (parent_rel T R)" "acyclic (parent_rel T R)" "host_rows hs = R"
  shows "\<exists>q. would_cycle T h child cursor hs = Some q"
proof -
  have some: "\<exists>q. would_cycle T h child (Some i) hs = Some q" if "host_rows hs = R" for i hs
    using finite_acyclic_wf_converse [OF assms(1,2)] that
  proof (induction i arbitrary: hs rule: wf_induct_rule)
    case (less i)
    obtain r hs1 where r: "read_lineage T h i hs = (r, hs1)" by fastforce
    note l = read_lineage_outcome [OF r]
    show ?case
    proof (cases "i = child")
      case True
      then show ?thesis by (subst would_cycle.simps) simp
    next
      case False
      show ?thesis
      proof (cases r)
        case (Inl e)
        with False r show ?thesis by (subst would_cycle.simps) simp
      next
        case (Inr x)
        have "\<exists>q. would_cycle T h child (Option.bind x ln_parent) hs1 = Some q"
        proof (cases "Option.bind x ln_parent")
          case None
          then show ?thesis by (subst would_cycle.simps) simp
        next
          case (Some p)
          with l(2) [OF Inr] less.prems have "(p, i) \<in> (parent_rel T R)\<inverse>" by (auto simp: parent_rel_def bind_eq_Some_conv)
          from less.IH [OF this] l(1) less.prems Some show ?thesis by simp
        qed
        with False r Inr show ?thesis by (subst would_cycle.simps) simp
      qed
    qed
  qed
  show ?thesis
  proof (cases cursor)
    case None
    then show ?thesis by (subst would_cycle.simps) simp
  qed (use some assms(3) in auto)
qed

subsection \<open>What every command keeps\<close>

definition session_exists :: "records \<Rightarrow> session_id \<Rightarrow> bool" where
  "session_exists R i \<longleftrightarrow> R (session_namespace, session_key i) \<noteq> None"

definition tree_codecs_ok :: "tree_codecs \<Rightarrow> bool" where
  "tree_codecs_ok T \<longleftrightarrow> session_codecs_ok (tk_sessions T) \<and> codec_ok (list_all identifier_ok) (tk_ids T) \<and>
     codec_ok (\<lambda>l. identifier_ok (ln_session l) \<and> (\<forall>p. ln_parent l = Some p \<longrightarrow> identifier_ok p)) (tk_lineage T)"

definition tree_command_ok :: "tree_command \<Rightarrow> bool" where
  "tree_command_ok cmd = (case cmd of
     CreateChild i p \<Rightarrow> identifier_ok i \<and> identifier_ok p
   | LinkSession i p \<Rightarrow> identifier_ok i \<and> (\<forall>q. p = Some q \<longrightarrow> identifier_ok q)
   | _ \<Rightarrow> True)"

text \<open>
  Rows can be read; a lineage is stored under its session, and its session and its parent exist; a row of children lists, in order, the
  sessions whose parent has that row; and following parents never leads back.
\<close>

definition lineages_ok :: "tree_codecs \<Rightarrow> records \<Rightarrow> bool" where
  "lineages_ok T R \<longleftrightarrow> (\<forall>i b. R (tree_namespace, lineage_key i) = Some b \<longrightarrow> (\<exists>l. cd_from (tk_lineage T) b = Inr l \<and>
     ln_session l = i \<and> session_exists R i \<and> (\<forall>p. ln_parent l = Some p \<longrightarrow> session_exists R p)))"

definition children_ok :: "tree_codecs \<Rightarrow> records \<Rightarrow> bool" where
  "children_ok T R \<longleftrightarrow> (\<forall>p. \<exists>ids. decode_list (tk_ids T) (R (tree_namespace, children_key p)) = Inr ids \<and> sorted ids \<and> distinct ids \<and>
     (\<forall>i. i \<in> set ids \<longleftrightarrow> (\<exists>l. tree_lineage T R i = Some l \<and> children_key (ln_parent l) = children_key p)))"

definition tree_rows_ok :: "tree_codecs \<Rightarrow> records \<Rightarrow> bool" where
  "tree_rows_ok T R \<longleftrightarrow> lineages_ok T R \<and> children_ok T R \<and> acyclic (parent_rel T R)"

definition forest_ok :: "tree_codecs \<Rightarrow> records \<Rightarrow> bool" where
  "forest_ok T R \<longleftrightarrow> session_rows_ok (tk_sessions T) R \<and> tree_rows_ok T R"

lemma tree_keys [simp]:
  "lineage_key i = lineage_key j \<longleftrightarrow> i = j" "lineage_key i \<noteq> children_key p" "children_key p \<noteq> lineage_key i"
  "tree_namespace \<noteq> session_namespace" "session_namespace \<noteq> tree_namespace"
  by (auto simp: lineage_key_def children_key_def tree_namespace_def session_namespace_def split: option.splits)

lemma tree_lineage_cong: "(\<And>k. R' (tree_namespace, k) = R (tree_namespace, k)) \<Longrightarrow> tree_lineage T R' = tree_lineage T R"
  by (simp add: tree_lineage_def fun_eq_iff)

text \<open>As long as no session disappears, changes elsewhere keep the tree.\<close>

lemma tree_rows_elsewhere:
  assumes "tree_rows_ok T R" "\<And>k. R' (tree_namespace, k) = R (tree_namespace, k)" "\<And>i. session_exists R i \<Longrightarrow> session_exists R' i"
  shows "tree_rows_ok T R'"
proof -
  have lin: "tree_lineage T R' = tree_lineage T R" by (rule tree_lineage_cong) (rule assms(2))
  then have "parent_rel T R' = parent_rel T R" by (simp add: parent_rel_def)
  moreover have "lineages_ok T R'" using assms(1,3) by (simp add: tree_rows_ok_def lineages_ok_def assms(2)) blast
  ultimately show ?thesis using assms(1) by (simp add: tree_rows_ok_def children_ok_def assms(2) lin)
qed

lemma parent_rel_exists:
  assumes "tree_rows_ok T R" "(i, p) \<in> parent_rel T R"
  shows "session_exists R i" "session_exists R p"
proof -
  from assms(2) obtain l where l: "tree_lineage T R i = Some l" "ln_parent l = Some p" by (auto simp: parent_rel_def)
  from l(1) obtain b where b: "R (tree_namespace, lineage_key i) = Some b" "cd_from (tk_lineage T) b = Inr l"
    by (cases "R (tree_namespace, lineage_key i)") (auto simp: tree_lineage_def value_or_def rbind_def split: sum.splits)
  with assms(1) l(2) show "session_exists R i" "session_exists R p" by (fastforce simp: tree_rows_ok_def lineages_ok_def)+
qed

lemma parent_rel_finite:
  assumes "session_rows_ok C R" "tree_rows_ok T R"
  shows "finite (parent_rel T R)"
proof (rule finite_subset)
  from assms(1) obtain ids where "\<And>i. i \<in> set ids \<longleftrightarrow> R (session_namespace, session_key i) \<noteq> None"
    by (auto simp: session_rows_ok_def index_ok_def)
  then have "{i. session_exists R i} = set ids" by (auto simp: session_exists_def)
  then show "finite ({i. session_exists R i} \<times> {i. session_exists R i})" by simp
  show "parent_rel T R \<subseteq> {i. session_exists R i} \<times> {i. session_exists R i}"
    using parent_rel_exists [OF assms(2)] by auto
qed

text \<open>One more lineage.\<close>

lemma lineage_rows:
  fixes R :: records
  assumes "tree_rows_ok T R" "R (tree_namespace, lineage_key i) = None"
    "decode_list (tk_ids T) (R (tree_namespace, children_key p)) = Inr ids"
    "cd_from (tk_lineage T) v = Inr \<lparr>ln_session = i, ln_parent = p\<rparr>" "cd_from (tk_ids T) w = Inr (push_sorted ids i)"
    "session_exists R i" "\<And>q. p = Some q \<Longrightarrow> session_exists R q" "\<not> reaches T R p i"
  defines "R' \<equiv> R((tree_namespace, lineage_key i) \<mapsto> v, (tree_namespace, children_key p) \<mapsto> w)"
  shows "tree_rows_ok T R'" "tree_lineage T R' = (tree_lineage T R)(i \<mapsto> \<lparr>ln_session = i, ln_parent = p\<rparr>)"
proof -
  let ?l = "\<lparr>ln_session = i, ln_parent = p\<rparr>"
  show lin: "tree_lineage T R' = (tree_lineage T R)(i \<mapsto> ?l)"
    using assms(4) by (auto simp: tree_lineage_def R'_def)
  have none: "tree_lineage T R i = None" using assms(2) by (simp add: tree_lineage_def)
  have ex: "session_exists R' = session_exists R" by (simp add: session_exists_def R'_def fun_eq_iff)
  have "parent_rel T R' = (case p of None \<Rightarrow> {} | Some q \<Rightarrow> {(i, q)}) \<union> parent_rel T R"
    using none by (auto simp: parent_rel_def lin split: option.splits if_splits)
  moreover have "acyclic (parent_rel T R)" using assms(1) by (simp add: tree_rows_ok_def)
  moreover have "\<And>q. p = Some q \<Longrightarrow> (q, i) \<notin> (parent_rel T R)\<^sup>*" using assms(8) by (auto simp: reaches_def)
  ultimately have "acyclic (parent_rel T R')" by (cases p) (auto simp: acyclic_insert)
  moreover have "lineages_ok T R'"
    using assms(1,4,6,7) by (auto simp: tree_rows_ok_def lineages_ok_def R'_def ex [unfolded R'_def])
  moreover have "children_ok T R'"
  proof -
    have "\<exists>ids. decode_list (tk_ids T) (R' (tree_namespace, children_key q)) = Inr ids \<and> sorted ids \<and> distinct ids \<and>
     (\<forall>j. j \<in> set ids \<longleftrightarrow> (\<exists>l. tree_lineage T R' j = Some l \<and> children_key (ln_parent l) = children_key q))" for q
    proof -
      from assms(1) obtain cs where cs: "decode_list (tk_ids T) (R (tree_namespace, children_key q)) = Inr cs" "sorted cs" "distinct cs"
        "\<And>j. j \<in> set cs \<longleftrightarrow> (\<exists>l. tree_lineage T R j = Some l \<and> children_key (ln_parent l) = children_key q)"
        unfolding tree_rows_ok_def children_ok_def by blast
      show ?thesis
      proof (cases "children_key q = children_key p")
        case True
        with cs(1) assms(3) have "cs = ids" by simp
        with True assms(5) cs(4) sorted_push_sorted [of ids i] none show ?thesis by (auto simp: R'_def lin [unfolded R'_def])
      next
        case False
        with cs none show ?thesis by (auto simp: R'_def lin [unfolded R'_def])
      qed
    qed
    then show ?thesis by (simp add: children_ok_def)
  qed
  ultimately show "tree_rows_ok T R'" by (simp add: tree_rows_ok_def)
qed

subsection \<open>Outcomes of the commands\<close>

lemma tree_codecs_okD:
  assumes "tree_codecs_ok T"
  shows "session_codecs_ok (tk_sessions T)" "codec_ok (list_all identifier_ok) (tk_ids T)"
    "codec_ok (\<lambda>l. identifier_ok (ln_session l) \<and> (\<forall>p. ln_parent l = Some p \<longrightarrow> identifier_ok p)) (tk_lineage T)"
  using assms by (simp_all add: tree_codecs_ok_def)

text \<open>The operations that add a lineage, applied where what they assert holds.\<close>

definition adds_lineage :: "tree_codecs \<Rightarrow> session_id \<Rightarrow> session_id option \<Rightarrow> records \<Rightarrow> transaction_op list \<Rightarrow> bool" where
  "adds_lineage T i p R0 ops \<longleftrightarrow> (\<exists>ids v w. decode_list (tk_ids T) (R0 (tree_namespace, children_key p)) = Inr ids \<and>
     cd_to (tk_lineage T) \<lparr>ln_session = i, ln_parent = p\<rparr> = Inr v \<and> cd_to (tk_ids T) (push_sorted ids i) = Inr w \<and>
     ops = [OpAssert (lineage_key i) None, OpAssert (children_key p) (R0 (tree_namespace, children_key p)),
       OpPut (lineage_key i) v, OpPut (children_key p) w])"

lemma adds_lineage_effect:
  assumes "tree_codecs_ok T" "identifier_ok i" "\<And>q. p = Some q \<Longrightarrow> identifier_ok q" "adds_lineage T i p R0 ops"
    "ops_effect tree_namespace ops R = Some R'"
    "tree_rows_ok T R" "session_exists R i" "\<And>q. p = Some q \<Longrightarrow> session_exists R q" "\<not> reaches T R p i"
  shows "tree_rows_ok T R'" "tree_lineage T R' = (tree_lineage T R)(i \<mapsto> \<lparr>ln_session = i, ln_parent = p\<rparr>)"
    "tree_lineage T R i = None" "\<And>ns k. ns \<noteq> tree_namespace \<Longrightarrow> R' (ns, k) = R (ns, k)"
proof -
  from assms(4) obtain ids v w where a: "decode_list (tk_ids T) (R0 (tree_namespace, children_key p)) = Inr ids"
    "cd_to (tk_lineage T) \<lparr>ln_session = i, ln_parent = p\<rparr> = Inr v" "cd_to (tk_ids T) (push_sorted ids i) = Inr w"
    "ops = [OpAssert (lineage_key i) None, OpAssert (children_key p) (R0 (tree_namespace, children_key p)),
       OpPut (lineage_key i) v, OpPut (children_key p) w]" by (auto simp: adds_lineage_def)
  from assms(5) a(4) have R: "R (tree_namespace, lineage_key i) = None"
    "R (tree_namespace, children_key p) = R0 (tree_namespace, children_key p)"
    "R' = R((tree_namespace, lineage_key i) \<mapsto> v, (tree_namespace, children_key p) \<mapsto> w)" by (auto split: if_splits)
  note C = tree_codecs_okD [OF assms(1)]
  have v: "cd_from (tk_lineage T) v = Inr \<lparr>ln_session = i, ln_parent = p\<rparr>"
    using codec_write [OF C(3) _ a(2)] assms(2,3) by simp
  from codec_read_list [OF C(2) a(1)] assms(2) have "list_all identifier_ok (push_sorted ids i)" by (auto simp: list_all_iff)
  from codec_write [OF C(2) this a(3)] have w: "cd_from (tk_ids T) w = Inr (push_sorted ids i)" .
  have ids: "decode_list (tk_ids T) (R (tree_namespace, children_key p)) = Inr ids" using a(1) R(2) by simp
  from lineage_rows [OF assms(6) R(1) ids v w assms(7,8,9)]
  show "tree_rows_ok T R'" "tree_lineage T R' = (tree_lineage T R)(i \<mapsto> \<lparr>ln_session = i, ln_parent = p\<rparr>)"
    by (simp_all only: R(3))
  show "tree_lineage T R i = None" using R(1) by (simp add: tree_lineage_def)
  show "\<And>ns k. ns \<noteq> tree_namespace \<Longrightarrow> R' (ns, k) = R (ns, k)" by (simp add: R(3))
qed

lemma decode_session_exists:
  "decode_option c (R (session_namespace, session_key i)) = Inr (Some s) \<Longrightarrow> session_exists R i"
  by (cases "R (session_namespace, session_key i)") (auto simp: session_exists_def)

lemma link_session_updates:
  "run_updates host_rows (link_session T c i p) (\<lambda>R y R'. \<exists>ops. y = LineageSet \<lparr>ln_session = i, ln_parent = p\<rparr> \<and>
     session_exists R i \<and> (\<forall>q. p = Some q \<longrightarrow> session_exists R q) \<and> \<not> reaches T R p i \<and> adds_lineage T i p R ops \<and>
     ops_effect tree_namespace ops R = Some R')"
proof -
  let ?h = "tl_host c"
  have parent: "run_reads host_rows (case p of
             None \<Rightarrow> total (preturn ())
           | Some parent \<Rightarrow>
               rthen (total (prequire (parent \<noteq> i) ''session cannot be its own parent'')) (\<lambda>_.
               rthen (require_session T ?h (tl_links c 1) parent) (\<lambda>_.
               rthen (would_cycle T ?h i (Some parent)) (\<lambda>cycle.
                 total (prequire (\<not> cycle) ''session lineage would contain a cycle'')))))
      (\<lambda>R _. (\<forall>q. p = Some q \<longrightarrow> session_exists R q) \<and> \<not> reaches T R p i)"
    by (rule run_reads_mono, (rule run_rules program_rules)+)
      (auto split: option.splits simp: reaches_def dest: decode_session_exists)
  have store: "run_updates host_rows (rthen (total (write_rows h tree_namespace ops)) (\<lambda>_. total (preturn (LineageSet l))))
      (\<lambda>R y R'. y = LineageSet l \<and> ops_effect tree_namespace ops R = Some R')" for h ops l
    by (rule run_updates_mono, rule run_updates_then_return [OF total_updates [OF host_store.put_updates], of _ _ _ "\<lambda>_. LineageSet l"]) auto
  have ops: "run_reads host_rows (total (lineage_operations T ?h i p)) (\<lambda>R x. fst x = \<lparr>ln_session = i, ln_parent = p\<rparr> \<and> adds_lineage T i p R (snd x))"
    by (rule run_reads_mono [OF total_reads [OF lineage_operations_reads]]) (auto simp: adds_lineage_def)
  show ?thesis
    unfolding link_session_def Let_def case_prod_beta
    by (rule run_updates_mono, (rule run_updates_then parent ops store | rule run_rules program_rules)+)
      (auto dest: decode_session_exists)
qed

text \<open>Of the scope, a frame changes the coordinators only, and puts them back.\<close>

lemma frame_balanced:
  assumes "ms_coordinators (hs_scope hs') = ms_coordinators (push_coordinator t p (hs_scope hs))"
  shows "\<exists>sc. pop_coordinator t (hs_scope hs') = Some sc \<and> ms_coordinators sc = ms_coordinators (hs_scope hs)"
  using assms by (simp add: push_coordinator_def pop_coordinator_def)

lemma in_frame_fields:
  assumes "in_frame h f hs = Some (r, hs')"
  shows "\<exists>hs1 hs2. host_rows hs1 = host_rows hs \<and> f hs1 = Some (r, hs2) \<and> host_rows hs' = host_rows hs2 \<and>
    ms_prepared (hs_scope hs') = ms_prepared (hs_scope hs2)"
proof -
  let ?hs = "hs\<lparr>hs_scope := push_coordinator (ph_thread h) (ph_plugin h) (hs_scope hs)\<rparr>"
  from assms obtain hs2 where f: "f ?hs = Some (r, hs2)"
    "hs' = hs2\<lparr>hs_scope := (case pop_coordinator (ph_thread h) (hs_scope hs2) of Some sc \<Rightarrow> sc | None \<Rightarrow> hs_scope hs2)\<rparr>"
    by (auto simp: in_frame_def)
  have "ms_prepared (hs_scope hs') = ms_prepared (hs_scope hs2)"
    by (auto simp: f(2) pop_coordinator_def split: option.splits)
  moreover have "host_rows ?hs = host_rows hs" "host_rows hs' = host_rows hs2" by (simp_all add: host_rows_def f(2))
  ultimately show ?thesis using f(1) by blast
qed

lemma handle_mutation_outcome:
  assumes "handle_mutation C sh draws s hs = Some (r, hs')"
  shows "host_rows hs' = host_rows hs \<and> (\<forall>s' k. r = Inr (s', k) \<longrightarrow> (\<exists>ops hs1 m. prepare_create C sh s hs = (Inr (s', ops), hs1) \<and>
     bt_get (ms_prepared (hs_scope hs')) k = Some m \<and>
     pm_transaction m = \<lparr>nt_owner = ph_plugin sh, nt_namespace = session_namespace, nt_operations = ops\<rparr>))"
proof -
  obtain q hs1 where q: "prepare_create C sh s hs = (q, hs1)" by fastforce
  with prepare_create_reads [of C sh s] have rows: "host_rows hs1 = host_rows hs" unfolding reads_def by blast
  show ?thesis
  proof (cases q)
    case (Inl e)
    with assms q rows show ?thesis by (simp add: handle_mutation_def) blast
  next
    case (Inr x)
    obtain s' ops where x: "x = (s', ops)" by fastforce
    with assms q Inr obtain p where p: "prepare_durable_transaction sh draws session_namespace ops hs1 = Some (p, hs')"
      "r = rbind (map_err FromHost p) (\<lambda>k. Inr (s', k))" by (auto simp: handle_mutation_def)
    from prepare_durable_cases [OF p(1)] have "host_rows hs' = host_rows hs"
      "\<And>k. p = Inr k \<Longrightarrow> bt_get (ms_prepared (hs_scope hs')) k = Some (mutation_of sh session_namespace ops hs1)"
      using rows by (auto simp: host_rows_def map_simps)
    with p(2) q Inr x show ?thesis by (cases p) (auto simp: mutation_of_def)
  qed
qed

lemma mutation_call_outcome:
  assumes "mutation_call T c l s hs = Some (r, hs')"
  shows "host_rows hs' = host_rows hs \<and> (\<forall>s' k. r = Inr (s', k) \<longrightarrow> (\<exists>hs0 ops hs1 m.
     prepare_create (tk_sessions T) (sl_host l) s hs0 = (Inr (s', ops), hs1) \<and>
     bt_get (ms_prepared (hs_scope hs')) k = Some m \<and>
     pm_transaction m = \<lparr>nt_owner = ph_plugin (sl_host l), nt_namespace = session_namespace, nt_operations = ops\<rparr>))"
proof -
  from in_frame_fields [OF assms [unfolded mutation_call_def]] obtain hs1 hs2 where
    f: "host_rows hs1 = host_rows hs" "linked l (\<lambda>sh. handle_mutation (tk_sessions T) sh (tl_session_draws c) s) hs1 = Some (r, hs2)"
      "host_rows hs' = host_rows hs2" "ms_prepared (hs_scope hs') = ms_prepared (hs_scope hs2)" by blast
  show ?thesis
  proof (cases "sl_before l")
    case None
    with f(2) obtain q where q: "handle_mutation (tk_sessions T) (sl_host l) (tl_session_draws c) s hs1 = Some (q, hs2)"
      "r = (case sl_after l of Some e \<Rightarrow> Inl e | None \<Rightarrow> q)" by (auto simp: linked_def)
    show ?thesis using handle_mutation_outcome [OF q(1)] q(2) f by (auto split: option.splits)
  qed (use f in \<open>auto simp: linked_def\<close>)
qed

lemma tree_row_scope: "reads hs_scope (tree_row h k) (\<lambda>_ _. True)"
  unfolding tree_row_def read_raw_def reads_def from_host_cases by (auto dest: read_durable_rows)

lemma lineage_operations_outcome:
  assumes "lineage_operations T h i p hs = (r, hs')"
  shows "host_rows hs' = host_rows hs" "hs_scope hs' = hs_scope hs"
    "\<And>x. r = Inr x \<Longrightarrow> fst x = \<lparr>ln_session = i, ln_parent = p\<rparr> \<and> adds_lineage T i p (host_rows hs) (snd x)"
proof -
  show "host_rows hs' = host_rows hs" using assms lineage_operations_reads [of T h i p] unfolding reads_def by blast
  show "r = Inr x \<Longrightarrow> fst x = \<lparr>ln_session = i, ln_parent = p\<rparr> \<and> adds_lineage T i p (host_rows hs) (snd x)" for x
    using assms lineage_operations_reads [of T h i p] unfolding reads_def adds_lineage_def by fastforce
  have "reads hs_scope (lineage_operations T h i p) (\<lambda>_ _. True)"
    unfolding lineage_operations_def Let_def by (rule reads_mono, (rule tree_row_scope program_rules)+) simp
  with assms show "hs_scope hs' = hs_scope hs" unfolding reads_def by blast
qed

lemma transact_prepared_failed:
  assumes "transact_prepared h handles hs = (Inl e, hs')"
  shows "host_rows hs' = host_rows hs"
proof -
  let ?hs = "trace_data_mutation ''prepared-multi'' ''prepared_commit'' (length handles) ''started'' None hs"
  note f = transact_prepared_fields [OF refl, of h handles hs]
  from f(1) assms have "\<not> is_ok (fst (commit_prepared h handles ?hs))" by (metis fst_conv is_ok_simps(1))
  from commit_prepared_failed [OF this] f(3) assms show ?thesis by (simp add: host_rows_def tables_eq)
qed

text \<open>Two prepared mutations committed together: their operations in order, all or none.\<close>

lemma commit_of_two:
  assumes "transact_prepared h [k1, k2] hs = (Inr u, hs')"
    "bt_get (ms_prepared (hs_scope hs)) k1 = Some m1" "bt_get (ms_prepared (hs_scope hs)) k2 = Some m2"
    "pm_transaction m1 = \<lparr>nt_owner = o1, nt_namespace = n1, nt_operations = ops1\<rparr>"
    "pm_transaction m2 = \<lparr>nt_owner = o2, nt_namespace = n2, nt_operations = ops2\<rparr>"
  shows "\<exists>R. ops_effect n1 ops1 (host_rows hs) = Some R \<and> ops_effect n2 ops2 R = Some (host_rows hs')"
proof -
  have "transact_prepared h [k1, k2] hs = (Inr (), hs')" using assms(1) by simp
  from prepared_commit_facts [OF this]
  have "batch_effect (batch_of (map pm_transaction (named_mutations [k1, k2] hs))) (db_records (hs_db hs)) = Some (db_records (hs_db hs'))"
    by blast
  then show ?thesis using assms(2-5) by (auto simp: named_mutations_def batch_of_def host_rows_def bind_eq_Some_conv)
qed

lemma rthen_step:
  assumes "rthen f g s = Some (r, s')" "run_reads rows f P"
  obtains e where "r = Inl e" "rows s' = rows s"
  | x s1 where "rows s1 = rows s" "P (rows s) x" "g x s1 = Some (r, s')"
  using assms unfolding rthen_cases run_reads_def by metis

lemma create_commit_outcome:
  assumes "create_commit T c i parent s k hs = Some (r, hs')" "bt_get (ms_prepared (hs_scope hs)) k = Some m"
    "pm_transaction m = \<lparr>nt_owner = owner, nt_namespace = session_namespace, nt_operations = ops\<rparr>"
  shows "(\<forall>e. r = Inl e \<longrightarrow> host_rows hs' = host_rows hs) \<and> (\<forall>y. r = Inr y \<longrightarrow>
    y = ChildCreated s \<lparr>ln_session = i, ln_parent = Some parent\<rparr> \<and> (\<exists>R tops. ops_effect session_namespace ops (host_rows hs) = Some R \<and>
      adds_lineage T i (Some parent) (host_rows hs) tops \<and> ops_effect tree_namespace tops R = Some (host_rows hs')))"
proof -
  obtain q hs1 where q: "lineage_operations T (tl_host c) i (Some parent) hs = (q, hs1)" by fastforce
  note l = lineage_operations_outcome [OF q]
  show ?thesis
  proof (cases q)
    case (Inl e)
    with assms(1) q l(1) show ?thesis by (auto simp: create_commit_def rthen_cases)
  next
    case (Inr x)
    obtain lin tops where x: "x = (lin, tops)" by fastforce
    with l(3) [OF Inr] have lin: "lin = \<lparr>ln_session = i, ln_parent = Some parent\<rparr>" "adds_lineage T i (Some parent) (host_rows hs) tops" by simp_all
    from assms(1) q Inr x obtain p hs2 where p: "prepare_durable_transaction (tl_host c) (tl_draws c) tree_namespace tops hs1 = Some (p, hs2)"
      "(\<exists>e. p = Inl e \<and> r = Inl (FromHost e) \<and> hs' = hs2) \<or> (\<exists>k2. p = Inr k2 \<and>
         rthen (total (from_host (transact_prepared ((tl_host c)\<lparr>ph_cancelled := tl_late c\<rparr>) [k, k2]))) (\<lambda>_.
           total (preturn (ChildCreated s lin))) hs2 = Some (r, hs'))"
      by (auto simp: create_commit_def rthen_cases from_host_run_def map_err_eq_Inl)
    from prepare_durable_cases(1) [OF p(1)] l(1) have rows: "host_rows hs2 = host_rows hs" by (simp add: host_rows_def)
    from p(2) show ?thesis
    proof (elim disjE exE conjE)
      fix k2 assume k2: "p = Inr k2" and run: "rthen (total (from_host (transact_prepared ((tl_host c)\<lparr>ph_cancelled := tl_late c\<rparr>) [k, k2])))
          (\<lambda>_. total (preturn (ChildCreated s lin))) hs2 = Some (r, hs')"
      from prepare_durable_cases(2) [OF p(1)] k2 l(2) assms(2) have
        g1: "bt_get (ms_prepared (hs_scope hs2)) k = Some m" and
        g2: "bt_get (ms_prepared (hs_scope hs2)) k2 = Some (mutation_of (tl_host c) tree_namespace tops hs1)"
        by (auto simp: map_simps bt_has_def)
      obtain t hs3 where t: "transact_prepared ((tl_host c)\<lparr>ph_cancelled := tl_late c\<rparr>) [k, k2] hs2 = (t, hs3)" by fastforce
      show ?thesis
      proof (cases t)
        case (Inl e)
        with t run transact_prepared_failed [of _ "[k, k2]" hs2 e hs3] rows show ?thesis
          by (auto simp: rthen_cases from_host_cases)
      next
        case (Inr u)
        with t run have r: "r = Inr (ChildCreated s lin)" "hs' = hs3" by (auto simp: rthen_cases from_host_cases preturn_def)
        from commit_of_two [OF t [unfolded Inr] g1 g2 assms(3)] rows r lin show ?thesis by (auto simp: mutation_of_def)
      qed
    qed (use rows in auto)
  qed
qed

text \<open>A new session is no parent yet.\<close>

lemma new_session_unreached:
  assumes "tree_rows_ok T R" "\<not> session_exists R i" "p \<noteq> i"
  shows "(p, i) \<notin> (parent_rel T R)\<^sup>*"
proof
  assume "(p, i) \<in> (parent_rel T R)\<^sup>*"
  then show False using assms(3) parent_rel_exists(2) [OF assms(1)] assms(2) by (cases rule: rtranclE) auto
qed

definition child_created :: "tree_codecs \<Rightarrow> session_id \<Rightarrow> session_id \<Rightarrow> records \<Rightarrow> records \<Rightarrow> bool" where
  "child_created T i parent R R' \<longleftrightarrow> session_exists R parent \<and> \<not> session_exists R i \<and> tree_lineage T R i = None \<and>
     session_view (tk_sessions T) R' = put_record i (session_new i) (session_view (tk_sessions T) R) \<and>
     tree_lineage T R' = (tree_lineage T R)(i \<mapsto> \<lparr>ln_session = i, ln_parent = Some parent\<rparr>)"

lemma session_exists_view:
  assumes "session_rows_ok C R"
  shows "session_exists R i \<longleftrightarrow> st_record (session_view C R) i \<noteq> None"
proof (cases "R (session_namespace, session_key i)")
  case (Some b)
  with assms obtain s where "cd_from (sk_session C) b = Inr s" unfolding session_rows_ok_def records_ok_def by blast
  with Some show ?thesis by (simp add: session_exists_def session_view_def)
qed (simp add: session_exists_def session_view_def)

lemma both_created:
  assumes "tree_codecs_ok T" "forest_ok T R" "identifier_ok i" "identifier_ok parent" "i \<noteq> parent" "session_exists R parent"
    "prepare_create (tk_sessions T) sh (session_new i) hs0 = (Inr (s', ops), hs1)"
    "ops_effect session_namespace ops R = Some R1" "adds_lineage T i (Some parent) R tops" "ops_effect tree_namespace tops R1 = Some R2"
  shows "s' = session_new i" "forest_ok T R2" "child_created T i parent R R2"
proof -
  let ?C = "tk_sessions T"
  from assms(2) have ok: "session_rows_ok ?C R" "tree_rows_ok T R" by (simp_all add: forest_ok_def)
  have id: "sr_id (session_new i) = i" by (simp add: session_new_def)
  have "identifier_ok (sr_id (session_new i))" using assms(3) id by simp
  note c = committed_creation [OF tree_codecs_okD(1) [OF assms(1)] this assms(7) ok(1) assms(8)]
  from c(1) show "s' = session_new i" .
  have new: "\<not> session_exists R i" using c(4) id session_exists_view [OF ok(1)] by simp
  have same: "R1 (tree_namespace, k) = R (tree_namespace, k)" for k using ops_effect_other [OF assms(8)] by simp
  have view: "st_record (session_view ?C R1) = (st_record (session_view ?C R))(i \<mapsto> session_new i)"
    using c(5) id by (simp add: put_record_def)
  have keep: "session_exists R1 j" if "session_exists R j" for j
    using that view session_exists_view [OF ok(1)] session_exists_view [OF c(3)] by auto
  have i1: "session_exists R1 i" using view session_exists_view [OF c(3)] by simp
  have lin: "tree_lineage T R1 = tree_lineage T R" by (rule tree_lineage_cong) (rule same)
  have tree1: "tree_rows_ok T R1" by (rule tree_rows_elsewhere [OF ok(2) same keep])
  have rel: "parent_rel T R1 = parent_rel T R" by (simp add: parent_rel_def lin)
  have unreached: "\<not> reaches T R1 (Some parent) i"
    using new_session_unreached [OF ok(2) new] assms(5) by (auto simp: reaches_def rel)
  note a = adds_lineage_effect [OF assms(1,3) _ assms(9,10) tree1 i1 _ unreached]
  have tree: "tree_rows_ok T R2" "tree_lineage T R2 = (tree_lineage T R1)(i \<mapsto> \<lparr>ln_session = i, ln_parent = Some parent\<rparr>)"
    "tree_lineage T R1 i = None" "\<And>ns k. ns \<noteq> tree_namespace \<Longrightarrow> R2 (ns, k) = R1 (ns, k)"
    using a assms(4,6) keep by auto
  have sess: "session_view ?C R2 = session_view ?C R1" "session_rows_ok ?C R2 = session_rows_ok ?C R1"
    by (rule session_view_cong; rule tree(4); simp)+
  show "forest_ok T R2" using tree(1) sess(2) c(3) by (simp add: forest_ok_def)
  show "child_created T i parent R R2"
    using assms(6) new tree(2,3) lin sess(1) c(5) id by (simp add: child_created_def)
qed

lemma create_child_outcome:
  assumes "tree_codecs_ok T" "identifier_ok i" "identifier_ok parent" "forest_ok T (host_rows hs)" "create_child T c i parent hs = Some (r, hs')"
  shows "(\<forall>e. r = Inl e \<longrightarrow> host_rows hs' = host_rows hs) \<and> (\<forall>y. r = Inr y \<longrightarrow> forest_ok T (host_rows hs') \<and>
    y = ChildCreated (session_new i) \<lparr>ln_session = i, ln_parent = Some parent\<rparr> \<and>
    child_created T i parent (host_rows hs) (host_rows hs'))"
proof -
  have checks: "run_reads host_rows (child_checks T c i parent) (\<lambda>R _. i \<noteq> parent \<and> session_exists R parent)"
    unfolding child_checks_def
    by (rule run_reads_mono, (rule run_rules program_rules)+) (auto dest: decode_session_exists)
  from assms(5) [unfolded create_child_def] show ?thesis
  proof (rule rthen_step [OF _ checks])
    fix u hs1
    assume r1: "host_rows hs1 = host_rows hs" and p: "i \<noteq> parent \<and> session_exists (host_rows hs) parent"
      and rest: "rthen (mutation_call T c (tl_links c 1) (session_new i))
        (\<lambda>(session, session_mutation). create_commit T c i parent session session_mutation) hs1 = Some (r, hs')"
    obtain q hs2 where q: "mutation_call T c (tl_links c 1) (session_new i) hs1 = Some (q, hs2)"
      using rest by (auto simp: rthen_cases)
    from mutation_call_outcome [OF q] r1 have r2: "host_rows hs2 = host_rows hs" by simp
    show ?thesis
    proof (cases q)
      case (Inl e)
      with rest q r2 show ?thesis by (auto simp: rthen_cases)
    next
      case (Inr x)
      obtain s' k where x: "x = (s', k)" by fastforce
      with mutation_call_outcome [OF q] Inr obtain hs0 ops hs0' m where
        prep: "prepare_create (tk_sessions T) (sl_host (tl_links c 1)) (session_new i) hs0 = (Inr (s', ops), hs0')" and
        m: "bt_get (ms_prepared (hs_scope hs2)) k = Some m"
          "pm_transaction m = \<lparr>nt_owner = ph_plugin (sl_host (tl_links c 1)), nt_namespace = session_namespace, nt_operations = ops\<rparr>"
        by blast
      from rest q Inr x have "create_commit T c i parent s' k hs2 = Some (r, hs')" by (auto simp: rthen_cases)
      note o = create_commit_outcome [OF this m]
      show ?thesis
      proof (intro conjI allI impI)
        show "host_rows hs' = host_rows hs" if "r = Inl e" for e using o that r2 by simp
        fix y assume "r = Inr y"
        with o r2 obtain R tops where y: "y = ChildCreated s' \<lparr>ln_session = i, ln_parent = Some parent\<rparr>"
          "ops_effect session_namespace ops (host_rows hs) = Some R" "adds_lineage T i (Some parent) (host_rows hs) tops"
          "ops_effect tree_namespace tops R = Some (host_rows hs')" by auto
        from both_created [OF assms(1,4,2,3) conjunct1 [OF p] conjunct2 [OF p] prep y(2-4)] y(1)
        show "forest_ok T (host_rows hs')" "y = ChildCreated (session_new i) \<lparr>ln_session = i, ln_parent = Some parent\<rparr>"
          "child_created T i parent (host_rows hs) (host_rows hs')" by simp_all
      qed
    qed
  qed auto
qed

lemma link_session_outcome:
  assumes "tree_codecs_ok T" "identifier_ok i" "\<And>q. p = Some q \<Longrightarrow> identifier_ok q" "forest_ok T (host_rows hs)"
    "link_session T c i p hs = Some (r, hs')"
  shows "(\<forall>e. r = Inl e \<longrightarrow> host_rows hs' = host_rows hs) \<and> (\<forall>y. r = Inr y \<longrightarrow> forest_ok T (host_rows hs') \<and>
    y = LineageSet \<lparr>ln_session = i, ln_parent = p\<rparr> \<and> tree_lineage T (host_rows hs) i = None \<and>
    session_view (tk_sessions T) (host_rows hs') = session_view (tk_sessions T) (host_rows hs) \<and>
    tree_lineage T (host_rows hs') = (tree_lineage T (host_rows hs))(i \<mapsto> \<lparr>ln_session = i, ln_parent = p\<rparr>))"
proof (intro conjI allI impI)
  note u = link_session_updates [of T c i p, unfolded run_updates_def, rule_format, OF assms(5)]
  show "host_rows hs' = host_rows hs" if "r = Inl e" for e using conjunct1 [OF u] that by blast
  fix y assume "r = Inr y"
  with conjunct2 [OF u] obtain ops where y: "y = LineageSet \<lparr>ln_session = i, ln_parent = p\<rparr>" "session_exists (host_rows hs) i"
    "\<forall>q. p = Some q \<longrightarrow> session_exists (host_rows hs) q" "\<not> reaches T (host_rows hs) p i" "adds_lineage T i p (host_rows hs) ops"
    "ops_effect tree_namespace ops (host_rows hs) = Some (host_rows hs')" by blast
  from assms(4) have ok: "tree_rows_ok T (host_rows hs)" "session_rows_ok (tk_sessions T) (host_rows hs)" by (simp_all add: forest_ok_def)
  have ids: "\<And>q. p = Some q \<Longrightarrow> identifier_ok q" "\<And>q. p = Some q \<Longrightarrow> session_exists (host_rows hs) q" using assms(3) y(3) by auto
  note a = adds_lineage_effect [OF assms(1,2) ids(1) y(5,6) ok(1) y(2) ids(2) y(4)]
  have s: "session_view (tk_sessions T) (host_rows hs') = session_view (tk_sessions T) (host_rows hs)"
    "session_rows_ok (tk_sessions T) (host_rows hs') = session_rows_ok (tk_sessions T) (host_rows hs)"
    by (rule session_view_cong; rule a(4); simp)+
  show "forest_ok T (host_rows hs')" using a(1) s(2) ok(2) by (simp add: forest_ok_def)
  show "session_view (tk_sessions T) (host_rows hs') = session_view (tk_sessions T) (host_rows hs)" by (rule s)
  show "tree_lineage T (host_rows hs) i = None" by (rule a(3))
  show "tree_lineage T (host_rows hs') = (tree_lineage T (host_rows hs))(i \<mapsto> \<lparr>ln_session = i, ln_parent = p\<rparr>)" by (rule a(2))
qed (use link_session_updates [of T c i p, unfolded run_updates_def, rule_format, OF assms(5)] in blast)

text \<open>The children that a row lists.\<close>

definition listed_children :: "tree_codecs \<Rightarrow> records \<Rightarrow> session_id option \<Rightarrow> session_id set" where
  "listed_children T R p = {i. \<exists>l. tree_lineage T R i = Some l \<and> children_key (ln_parent l) = children_key p}"

lemma read_children_outcome:
  assumes "tree_rows_ok T (host_rows hs)" "read_children T h p hs = (r, hs')"
  shows "host_rows hs' = host_rows hs" "\<And>ids. r = Inr ids \<Longrightarrow> ids = sorted_list_of_set (listed_children T (host_rows hs) p)"
proof -
  show "host_rows hs' = host_rows hs" using assms(2) read_children_reads [of T h p] unfolding reads_def by blast
  fix ids assume "r = Inr ids"
  with assms(2) read_children_reads [of T h p]
  have ids: "decode_list (tk_ids T) (host_rows hs (tree_namespace, children_key p)) = Inr ids" unfolding reads_def by blast
  from assms(1) obtain cs where cs: "decode_list (tk_ids T) (host_rows hs (tree_namespace, children_key p)) = Inr cs" "sorted cs" "distinct cs"
    "\<And>j. j \<in> set cs \<longleftrightarrow> (\<exists>l. tree_lineage T (host_rows hs) j = Some l \<and> children_key (ln_parent l) = children_key p)"
    unfolding tree_rows_ok_def children_ok_def by blast
  from ids cs(1) have "ids = cs" by simp
  moreover have "set cs = listed_children T (host_rows hs) p" by (auto simp: listed_children_def cs(4))
  ultimately show "ids = sorted_list_of_set (listed_children T (host_rows hs) p)"
    using cs(2,3) sorted_list_of_set.idem_if_sorted_distinct by metis
qed

text \<open>What a command did, by its reply.\<close>

definition tree_done :: "tree_codecs \<Rightarrow> tree_command \<Rightarrow> records \<Rightarrow> tree_response \<Rightarrow> records \<Rightarrow> bool" where
  "tree_done T cmd R y R' \<longleftrightarrow> (case cmd of
     CreateChild i p \<Rightarrow> y = ChildCreated (session_new i) \<lparr>ln_session = i, ln_parent = Some p\<rparr> \<and> child_created T i p R R'
   | LinkSession i p \<Rightarrow> y = LineageSet \<lparr>ln_session = i, ln_parent = p\<rparr> \<and> tree_lineage T R i = None \<and>
       session_view (tk_sessions T) R' = session_view (tk_sessions T) R \<and>
       tree_lineage T R' = (tree_lineage T R)(i \<mapsto> \<lparr>ln_session = i, ln_parent = p\<rparr>)
   | ParentOf i \<Rightarrow> y = ParentFound (Option.bind (tree_lineage T R i) ln_parent) \<and> R' = R
   | ChildrenOf p \<Rightarrow> y = ChildrenFound (sorted_list_of_set (listed_children T R p)) \<and> R' = R)"

lemma handle_tree_outcome:
  assumes "tree_codecs_ok T" "tree_command_ok cmd" "forest_ok T (host_rows hs)" "handle_tree T c cmd hs = Some (r, hs')"
  shows "(\<forall>e. r = Inl e \<longrightarrow> host_rows hs' = host_rows hs) \<and>
    (\<forall>y. r = Inr y \<longrightarrow> forest_ok T (host_rows hs') \<and> tree_done T cmd (host_rows hs) y (host_rows hs'))"
proof (cases cmd)
  case (CreateChild i p)
  with create_child_outcome [OF assms(1) _ _ assms(3), of i p c r hs'] assms(2,4) show ?thesis
    by (simp add: handle_tree_def tree_command_ok_def tree_done_def)
next
  case (LinkSession i p)
  with link_session_outcome [OF assms(1) _ _ assms(3), of i p c r hs'] assms(2,4) show ?thesis
    by (simp add: handle_tree_def tree_command_ok_def tree_done_def)
next
  case (ParentOf i)
  obtain q hs1 where "read_lineage T (tl_host c) i hs = (q, hs1)" by fastforce
  with read_lineage_outcome [OF this] ParentOf assms(3,4) show ?thesis
    by (cases q) (auto simp: handle_tree_def pbind_def preturn_def tree_done_def)
next
  case (ChildrenOf p)
  obtain q hs1 where q: "read_children T (tl_host c) p hs = (q, hs1)" by fastforce
  from assms(3) have "tree_rows_ok T (host_rows hs)" by (simp add: forest_ok_def)
  from read_children_outcome [OF this q] ChildrenOf assms(3,4) q show ?thesis
    by (cases q) (auto simp: handle_tree_def pbind_def preturn_def tree_done_def)
qed

subsection \<open>Histories\<close>

text \<open>Anything that may happen to sessions and their tree, each command under any host, with storage and calls failing anywhere.\<close>

inductive tree_history :: "tree_codecs \<Rightarrow> host_state \<Rightarrow> host_state \<Rightarrow> bool" for T hs where
  start: "tree_history T hs hs"
| tree: "tree_history T hs hs1 \<Longrightarrow> tree_command_ok cmd \<Longrightarrow> handle_tree T c cmd hs1 = Some (r, hs2) \<Longrightarrow> tree_history T hs hs2"
| session: "tree_history T hs hs1 \<Longrightarrow> command_ok scmd \<Longrightarrow> tree_history T hs (snd (handle_session (tk_sessions T) h scmd hs1))"
| elsewhere: "tree_history T hs hs1 \<Longrightarrow> (\<And>ns k. ns \<in> {session_namespace, tree_namespace} \<Longrightarrow> host_rows hs2 (ns, k) = host_rows hs1 (ns, k)) \<Longrightarrow>
    tree_history T hs hs2"

definition lineage_kept :: "tree_codecs \<Rightarrow> records \<Rightarrow> records \<Rightarrow> bool" where
  "lineage_kept T R R' \<longleftrightarrow> (\<forall>i l. tree_lineage T R i = Some l \<longrightarrow> tree_lineage T R' i = Some l) \<and>
     (\<forall>i. session_grows (session_view (tk_sessions T) R) (session_view (tk_sessions T) R') i)"

lemma lineage_kept_trans: "lineage_kept T R R1 \<Longrightarrow> lineage_kept T R1 R2 \<Longrightarrow> lineage_kept T R R2"
  unfolding lineage_kept_def by (blast intro: session_grows_trans)

lemma lineage_kept_refl [simp]: "lineage_kept T R R"
  by (simp add: lineage_kept_def)

lemma tree_done_keeps:
  assumes "session_rows_ok (tk_sessions T) R" "tree_done T cmd R y R'"
  shows "lineage_kept T R R'"
  using assms session_exists_view [OF assms(1)]
  by (cases cmd) (auto simp: tree_done_def child_created_def lineage_kept_def put_record_grows)

lemma session_command_keeps_tree:
  assumes "tree_codecs_ok T" "forest_ok T (host_rows hs)" "command_ok cmd" "handle_session (tk_sessions T) h cmd hs = (r, hs')"
  shows "forest_ok T (host_rows hs')" "lineage_kept T (host_rows hs) (host_rows hs')"
proof -
  from assms(2) have ok: "session_rows_ok (tk_sessions T) (host_rows hs)" "tree_rows_ok T (host_rows hs)" by (simp_all add: forest_ok_def)
  note o = handle_session_outcome [OF tree_codecs_okD(1) [OF assms(1)] assms(3) ok(1) assms(4)]
  have grows: "session_grows (session_view (tk_sessions T) (host_rows hs)) (session_view (tk_sessions T) (host_rows hs')) i" for i
    using o(2,3) by (cases r) (auto intro: session_step_grows)
  have same: "host_rows hs' (tree_namespace, k) = host_rows hs (tree_namespace, k)" for k
  proof (cases r)
    case (Inr y)
    with handle_session_elsewhere [of "tk_sessions T" h cmd] assms(4) show ?thesis unfolding updates_def by fastforce
  qed (simp add: o(2))
  have lin: "tree_lineage T (host_rows hs') = tree_lineage T (host_rows hs)" by (rule tree_lineage_cong) (rule same)
  have "session_exists (host_rows hs') j" if "session_exists (host_rows hs) j" for j
    using that grows [of j] session_exists_view [OF ok(1)] session_exists_view [OF o(1)] by (auto simp: session_grows_def)
  from tree_rows_elsewhere [OF ok(2) same this] o(1) show "forest_ok T (host_rows hs')" by (simp add: forest_ok_def)
  show "lineage_kept T (host_rows hs) (host_rows hs')" using grows by (simp add: lineage_kept_def lin)
qed

lemma tree_history_facts:
  assumes "tree_history T hs hs'" "tree_codecs_ok T" "forest_ok T (host_rows hs)"
  shows "forest_ok T (host_rows hs') \<and> lineage_kept T (host_rows hs) (host_rows hs')"
  using assms(1)
proof (induction rule: tree_history.induct)
  case start
  then show ?case using assms(3) by simp
next
  case (tree hs1 cmd c r hs2)
  then have ok: "forest_ok T (host_rows hs1)" by simp
  note o = handle_tree_outcome [OF assms(2) tree(2) ok tree(3)]
  have "forest_ok T (host_rows hs2) \<and> lineage_kept T (host_rows hs1) (host_rows hs2)"
    using o ok tree_done_keeps [of T "host_rows hs1"] by (cases r) (auto simp: forest_ok_def)
  with tree(4) show ?case by (blast intro: lineage_kept_trans)
next
  case (session hs1 scmd h)
  obtain r hs2 where r: "handle_session (tk_sessions T) h scmd hs1 = (r, hs2)" by fastforce
  with session_command_keeps_tree [OF assms(2) _ session(2) r] session(3) show ?case by (auto intro: lineage_kept_trans)
next
  case (elsewhere hs1 hs2)
  have s: "session_view (tk_sessions T) (host_rows hs2) = session_view (tk_sessions T) (host_rows hs1)"
    "session_rows_ok (tk_sessions T) (host_rows hs2) = session_rows_ok (tk_sessions T) (host_rows hs1)"
    by (rule session_view_cong; rule elsewhere(2); simp)+
  have lin: "tree_lineage T (host_rows hs2) = tree_lineage T (host_rows hs1)" by (rule tree_lineage_cong) (simp add: elsewhere(2))
  have "tree_rows_ok T (host_rows hs1)" using elsewhere(3) by (simp add: forest_ok_def)
  then have "tree_rows_ok T (host_rows hs2)"
    by (rule tree_rows_elsewhere) (simp_all add: elsewhere(2) session_exists_def)
  with elsewhere(3) s lin show ?case by (simp add: forest_ok_def lineage_kept_def)
qed

text \<open>
  The row of the root sessions is also the row of the children of a session named \<open>@root\<close>, which is a valid name: each of the two lists shows
  the members of both.
\<close>

lemma root_row_is_shared:
  "identifier_ok ''@root'' \<and> children_key None = children_key (Some ''@root'') \<and>
   listed_children T R None = listed_children T R (Some ''@root'')"
  by (simp add: children_key_def listed_children_def identifier_ok_def parse_identifier_ok identifier_byte_def
      is_ascii_alphanumeric_def byte_of_def)

lemma other_rows_are_exact:
  assumes "p \<noteq> None" "p \<noteq> Some ''@root''"
  shows "listed_children T R p = {i. \<exists>l. tree_lineage T R i = Some l \<and> ln_parent l = p}"
proof -
  have "children_key q = children_key p \<longleftrightarrow> q = p" for q
    using assms by (auto simp: children_key_def split: option.splits)
  then show ?thesis by (simp add: listed_children_def)
qed

text \<open>What each row lists, in order and once: the children of its parent; the shared row, the children of \<open>@root\<close> and the roots.\<close>

definition row_lists :: "tree_codecs \<Rightarrow> records \<Rightarrow> session_id option \<Rightarrow> (session_id option \<Rightarrow> bool) \<Rightarrow> bool" where
  "row_lists T R p belongs \<longleftrightarrow> (\<exists>ids. decode_list (tk_ids T) (R (tree_namespace, children_key p)) = Inr ids \<and> sorted ids \<and> distinct ids \<and>
     (\<forall>i. i \<in> set ids \<longleftrightarrow> (\<exists>l. tree_lineage T R i = Some l \<and> belongs (ln_parent l))))"

lemma rows_list_children:
  assumes "forest_ok T R"
  shows "\<And>p. p \<noteq> ''@root'' \<Longrightarrow> row_lists T R (Some p) (\<lambda>q. q = Some p)"
    "\<And>p. p \<in> {None, Some ''@root''} \<Longrightarrow> row_lists T R p (\<lambda>q. q = None \<or> q = Some ''@root'')"
proof -
  have row: "row_lists T R p (\<lambda>q. children_key q = children_key p)" for p
    using assms unfolding forest_ok_def tree_rows_ok_def children_ok_def row_lists_def by blast
  have "children_key q = children_key (Some p) \<longleftrightarrow> q = Some p" if "p \<noteq> ''@root''" for p q
    using that by (auto simp: children_key_def split: option.splits)
  then show "p \<noteq> ''@root'' \<Longrightarrow> row_lists T R (Some p) (\<lambda>q. q = Some p)" for p using row [of "Some p"] by simp
  have "children_key q = children_key p \<longleftrightarrow> q = None \<or> q = Some ''@root''" if "p \<in> {None, Some ''@root''}" for p q
    using that by (auto simp: children_key_def split: option.splits)
  then show "p \<in> {None, Some ''@root''} \<Longrightarrow> row_lists T R p (\<lambda>q. q = None \<or> q = Some ''@root'')" for p
    using row [of p] by simp
qed

subsection \<open>Properties\<close>

text \<open>C37: whatever happens to sessions and their tree, following parents never leads back to where it started, every session with a lineage
  and every parent exists, a lineage is never changed once it is set, and sessions only grow. The row of a parent lists, in order,
  exactly its children, except for a parent named \<open>@root\<close>: its row is the row of the roots, which lists both. The values in commands,
  histories and journals are storable ones: without floats.\<close>

theorem sessions_stay_a_forest:
  assumes "tree_history T hs hs'" "tree_codecs_ok T" "forest_ok T (host_rows hs)"
  shows "acyclic (parent_rel T (host_rows hs')) \<and> forest_ok T (host_rows hs') \<and> lineage_kept T (host_rows hs) (host_rows hs') \<and>
    (\<forall>p. if p = None \<or> p = Some ''@root'' then row_lists T (host_rows hs') p (\<lambda>q. q = None \<or> q = Some ''@root'')
       else row_lists T (host_rows hs') p (\<lambda>q. q = p))"
  using tree_history_facts [OF assms] rows_list_children [of T "host_rows hs'"] by (auto simp: forest_ok_def tree_rows_ok_def)

text \<open>C38: a command of the session tree is all or nothing across both plugins: after an error no row of either namespace has changed, even if
  it failed in the last commit; after a reply the new session, its lineage and the list of children are all there, and nothing else. The values in histories and
  journals are storable ones: without floats.\<close>

theorem tree_commands_are_atomic:
  assumes "tree_codecs_ok T" "tree_command_ok cmd" "forest_ok T (host_rows hs)" "handle_tree T c cmd hs = Some (r, hs')"
  shows "case r of Inl e \<Rightarrow> host_rows hs' = host_rows hs
    | Inr y \<Rightarrow> tree_done T cmd (host_rows hs) y (host_rows hs') \<and> forest_ok T (host_rows hs')"
  using handle_tree_outcome [OF assms] by (cases r) auto

lemma total_returns: "\<exists>q. total f s = Some q"
  by (simp add: total_def)

lemma frame_returns: "(\<And>s. \<exists>q. f s = Some q) \<Longrightarrow> \<exists>q. in_frame h f s = Some q"
  by (simp add: in_frame_def)

lemma require_session_returns: "\<exists>q. require_session T h l i hs = Some q"
proof -
  have "\<exists>q. session_call T h l (SessionGet i) hs = Some q"
    unfolding session_call_def by (rule frame_returns) (auto simp: linked_def total_def split: option.splits)
  then show ?thesis by (auto simp: require_session_def rthen_def total_def split: sum.splits session_response.splits option.splits)
qed

lemma rthen_returns:
  assumes "\<exists>q. f s = Some q" "run_reads rows f P" "\<And>x s1. rows s1 = rows s \<Longrightarrow> \<exists>q. g x s1 = Some q"
  shows "\<exists>q. rthen f g s = Some q"
proof -
  from assms(1) obtain r s1 where f: "f s = Some (r, s1)" by auto
  show ?thesis
  proof (cases r)
    case (Inr x)
    from f assms(2) have "rows s1 = rows s" unfolding run_reads_def by blast
    from assms(3) [OF this, of x] f Inr show ?thesis by (simp add: rthen_def)
  qed (simp add: rthen_def f)
qed

lemma rthen_any: "\<exists>q. f s = Some q \<Longrightarrow> (\<And>x s1. \<exists>q. g x s1 = Some q) \<Longrightarrow> \<exists>q. rthen f g s = Some q"
  by (auto simp: rthen_def split: sum.split prod.split)

text \<open>linking always answers: the walk from the parent to its root ends, whatever fails on the way, because the sessions are a forest.\<close>

lemma linking_always_returns:
  assumes "forest_ok T (host_rows hs)"
  shows "\<exists>q. handle_tree T c (LinkSession i p) hs = Some q"
proof -
  let ?h = "tl_host c" and ?R = "host_rows hs"
  from assms have rel: "finite (parent_rel T ?R)" "acyclic (parent_rel T ?R)"
    using parent_rel_finite by (auto simp: forest_ok_def tree_rows_ok_def)
  have parent: "\<exists>q. (case p of
             None \<Rightarrow> total (preturn ())
           | Some parent \<Rightarrow>
               rthen (total (prequire (parent \<noteq> i) ''session cannot be its own parent'')) (\<lambda>_.
               rthen (require_session T ?h (tl_links c 1) parent) (\<lambda>_.
               rthen (would_cycle T ?h i (Some parent)) (\<lambda>cycle.
                 total (prequire (\<not> cycle) ''session lineage would contain a cycle''))))) hs1 = Some q" if "host_rows hs1 = ?R" for hs1
  proof (cases p)
    case (Some parent)
    show ?thesis unfolding Some option.case
      by (rule rthen_returns [OF total_returns total_reads [OF reads_require [where rows = host_rows]]],
          rule rthen_returns [OF require_session_returns require_session_reads],
          rule rthen_returns [OF would_cycle_returns [OF rel] would_cycle_reads]) (simp_all add: that total_returns)
  qed (simp add: total_returns)
  show ?thesis
    unfolding handle_tree_def tree_command.case link_session_def Let_def case_prod_unfold
    by (rule rthen_returns [OF require_session_returns require_session_reads], rule rthen_any [OF parent], assumption)
      (rule total_returns | rule rthen_any [OF total_returns])+
qed

subsection \<open>An instance\<close>

text \<open>A session \<open>s\<close> with a lineage but no parent, and the creation of its child \<open>t\<close>.\<close>

definition tree_plugin :: plugin_id where "tree_plugin = ''phenix.session-tree''"

definition tree_config :: kernel_config where
  "tree_config = session_config\<lparr>kc_namespaces := [(tree_namespace, tree_plugin), (session_namespace, ''phenix.sessions'')]\<rparr>"

definition tree_import :: import_handle where
  "tree_import = \<lparr>ih_importer = tree_plugin, ih_interface = ''phenix.sessions.mutation@1'', ih_exporter = ''phenix.sessions'',
     ih_plugin = ''phenix.sessions'', ih_execution = Embedded, ih_authority = {persistence_write}\<rparr>"

definition tree_graph :: component_graph where
  "tree_graph = \<lparr>cg_components = [(tree_plugin, \<lparr>rc_id = tree_plugin, rc_plugin = tree_plugin, rc_execution = Embedded,
     rc_imports = [\<lparr>ri_interface = ''phenix.sessions.mutation@1'', ri_required = True, ri_binding = Some tree_import,
       ri_fallbacks = [], ri_reason = None\<rparr>], rc_maximum = {persistence_write}\<rparr>)], cg_listeners = []\<rparr>"

definition tree_session_host :: plugin_host where
  "tree_session_host = session_host\<lparr>ph_config := tree_config, ph_graph := tree_graph,
     ph_states := [(tree_plugin, Active), (''phenix.sessions'', Active)], ph_instances := {tree_plugin, ''phenix.sessions''}\<rparr>"

definition tree_host :: plugin_host where
  "tree_host = tree_session_host\<lparr>ph_plugin := tree_plugin\<rparr>"

definition demo_call :: tree_call where
  "demo_call = \<lparr>tl_host = tree_host, tl_late = False,
     tl_links = (\<lambda>_. \<lparr>sl_host = tree_session_host, sl_before = None, sl_after = None\<rparr>),
     tl_draws = [Inr (replicate 32 0), Inr (replicate 32 1)], tl_session_draws = [Inr (replicate 32 0)]\<rparr>"

definition demo_tree_codecs :: tree_codecs where
  "demo_tree_codecs = \<lparr>tk_sessions = demo_codecs\<lparr>sk_ids := table_codec [([''s''], [1]), ([''s'', ''t''], [5])],
       sk_session := table_codec [(session_new ''s'', [2]), (session_new ''t'', [6])]\<rparr>,
     tk_ids = table_codec [([''s''], [1]), ([''t''], [7])],
     tk_lineage = table_codec [(\<lparr>ln_session = ''s'', ln_parent = None\<rparr>, [4]), (\<lparr>ln_session = ''t'', ln_parent = Some ''s''\<rparr>, [8])]\<rparr>"

definition demo_tree_rows :: records where
  "demo_tree_rows = demo_rows((tree_namespace, lineage_key ''s'') \<mapsto> [4], (tree_namespace, children_key None) \<mapsto> [1])"

definition demo_tree_state :: host_state where
  "demo_tree_state = \<lparr>hs_scope = scope_new None, hs_db = \<lparr>db_schemas = [session_namespace \<mapsto> (''phenix.sessions'', 1),
     tree_namespace \<mapsto> (tree_plugin, 1)], db_records = demo_tree_rows, db_clock = 0\<rparr>, hs_trace = []\<rparr>"

lemma demo_child:
  "map_option fst (handle_tree demo_tree_codecs demo_call (CreateChild ''t'' ''s'') demo_tree_state) =
     Some (Inr (ChildCreated (session_new ''t'') \<lparr>ln_session = ''t'', ln_parent = Some ''s''\<rparr>))"
  by code_simp

lemma demo_identifiers: "identifier_ok ''s''" "identifier_ok ''t''"
  by (simp_all add: identifier_ok_def parse_identifier_ok identifier_byte_def is_ascii_alphanumeric_def byte_of_def)

lemma demo_tree_codecs_ok: "tree_codecs_ok demo_tree_codecs"
  unfolding tree_codecs_ok_def session_codecs_ok_def demo_tree_codecs_def demo_codecs_def tree_codecs.simps session_codecs.simps
  by (intro conjI table_codec_ok codec_ok_writes) (simp_all add: session_new_def demo_identifiers)

lemma demo_tree_lineage:
  "tree_lineage demo_tree_codecs demo_tree_rows i = (if i = ''s'' then Some \<lparr>ln_session = ''s'', ln_parent = None\<rparr> else None)"
  by (simp add: tree_lineage_def demo_tree_rows_def demo_rows_def demo_tree_codecs_def table_codec_def)

lemma demo_forest_ok: "forest_ok demo_tree_codecs (host_rows demo_tree_state)"
proof -
  have rows: "host_rows demo_tree_state = demo_tree_rows" by (simp add: host_rows_def demo_tree_state_def)
  have rel: "parent_rel demo_tree_codecs demo_tree_rows = {}" by (auto simp: parent_rel_def demo_tree_lineage split: if_splits)
  have row: "decode_list (tk_ids demo_tree_codecs) (demo_tree_rows (tree_namespace, children_key p)) =
      (if children_key p = children_key None then Inr [''s''] else Inr [])" for p
    by (simp add: demo_tree_rows_def demo_rows_def demo_tree_codecs_def table_codec_def)
  have "children_ok demo_tree_codecs demo_tree_rows"
    by (auto simp: children_ok_def demo_tree_lineage row split: if_splits)
  moreover have "lineages_ok demo_tree_codecs demo_tree_rows"
    by (auto simp: lineages_ok_def demo_tree_rows_def demo_rows_def demo_tree_codecs_def table_codec_def session_exists_def split: if_splits)
  moreover have "session_rows_ok (tk_sessions demo_tree_codecs) demo_tree_rows"
    unfolding session_rows_ok_def
  proof (intro conjI)
    show "index_ok (tk_sessions demo_tree_codecs) demo_tree_rows"
      by (auto simp: index_ok_def demo_tree_rows_def demo_rows_def demo_tree_codecs_def table_codec_def session_key_def all_sessions_key_def)
    show "records_ok (tk_sessions demo_tree_codecs) demo_tree_rows"
      by (auto simp: records_ok_def demo_tree_rows_def demo_rows_def demo_tree_codecs_def table_codec_def session_new_def)
  qed (auto simp: lists_ok_def journals_ok_def demo_tree_rows_def demo_rows_def numbered_def)
  ultimately show ?thesis by (simp add: forest_ok_def tree_rows_ok_def rows rel acyclic_def)
qed

lemma demo_tree_command_ok: "tree_command_ok (CreateChild ''t'' ''s'')"
  by (simp add: tree_command_ok_def demo_identifiers)

theorem sessions_stay_a_forest_witness:
  "\<exists>hs'. tree_history demo_tree_codecs demo_tree_state hs' \<and> acyclic (parent_rel demo_tree_codecs (host_rows hs')) \<and>
     lineage_kept demo_tree_codecs (host_rows demo_tree_state) (host_rows hs')"
proof -
  from demo_child obtain r hs' where "handle_tree demo_tree_codecs demo_call (CreateChild ''t'' ''s'') demo_tree_state = Some (r, hs')" by auto
  from tree_history.tree [OF tree_history.start demo_tree_command_ok this]
  have "tree_history demo_tree_codecs demo_tree_state hs'" .
  with sessions_stay_a_forest [OF this demo_tree_codecs_ok demo_forest_ok] show ?thesis by blast
qed

theorem tree_commands_are_atomic_witness:
  "\<exists>hs'. tree_done demo_tree_codecs (CreateChild ''t'' ''s'') (host_rows demo_tree_state)
     (ChildCreated (session_new ''t'') \<lparr>ln_session = ''t'', ln_parent = Some ''s''\<rparr>) (host_rows hs')"
proof -
  from demo_child obtain hs' where "handle_tree demo_tree_codecs demo_call (CreateChild ''t'' ''s'') demo_tree_state =
      Some (Inr (ChildCreated (session_new ''t'') \<lparr>ln_session = ''t'', ln_parent = Some ''s''\<rparr>), hs')" by auto
  from tree_commands_are_atomic [OF demo_tree_codecs_ok demo_tree_command_ok demo_forest_ok this] show ?thesis by auto
qed

lemma linking_always_returns_witness:
  "\<exists>q. handle_tree demo_tree_codecs demo_call (LinkSession ''s'' (Some ''s'')) demo_tree_state = Some q"
  by (rule linking_always_returns [OF demo_forest_ok])

end
