(* ===== verification/Jobs.thy ===== *)
theory Jobs
  imports Plugin_Store Configuration
begin

text \<open>
  The jobs plugin (\<open>phenix-plugin-jobs/src/implementation.rs\<close>, with the data of \<open>phenix-sdk/src/contracts/jobs.rs\<close>): terminals and jobs as durable
  resources of an execution, with the authority they were given. A resource runs until it exits or is revoked; when its execution
  ends or loses authority, all resources of that execution are visited, each one changed in a commit of its own.

  A command runs under one host; \<open>jc_late\<close> says which of its commits find the call cancelled.
\<close>

subsection \<open>Data\<close>

datatype job_kind = TerminalKind | JobKind

datatype job_state = JobRunning | JobExited "32 word option" | JobRevoked string

record job_record =
  job_id :: string
  job_kind_of :: job_kind
  job_owner :: string
  job_promoted :: bool
  job_authority :: "string set"
  job_state_of :: job_state
  job_outputs :: "string list"

datatype job_command =
  JobCreate string job_kind string "string set"
| JobPromote string
| JobComplete string "32 word option" "string list"
| JobExecutionTerminated string
| JobNarrowAuthority string "string set"
| JobGet string
| JobList

datatype job_response =
  JobResource "job_record option"
| JobResources "job_record list"
| JobAffected "job_record list"

record job_codecs =
  jk_index :: "string list codec"
  jk_record :: "job_record codec"

record job_call =
  jc_host :: plugin_host
  jc_late :: "nat \<Rightarrow> bool"

definition commit_host :: "job_call \<Rightarrow> nat \<Rightarrow> plugin_host" where
  "commit_host c n = (jc_host c)\<lparr>ph_cancelled := jc_late c n\<rparr>"

subsection \<open>Rows\<close>

definition job_namespace :: resource_namespace where "job_namespace = ''phenix.jobs.state''"
definition job_index_key :: string where "job_index_key = ''index/resources''"
definition job_key :: "string \<Rightarrow> string" where "job_key i = ''resource/'' @ i"

definition valid_job_id :: "string \<Rightarrow> bool" where
  "valid_job_id s \<longleftrightarrow> \<not> (is_blank s \<or> CHR ''/'' \<in> set s)"

definition validate_job_id :: "string \<Rightarrow> string \<Rightarrow> (host_state, unit) program" where
  "validate_job_id label s =
     prequire (valid_job_id s) (label @ '' must be non-empty and must not contain '' @ [CHR 0x27, CHR ''/'', CHR 0x27])"

definition job_row :: "plugin_host \<Rightarrow> string \<Rightarrow> (host_state, blob option) program" where
  "job_row h k = read_raw h job_namespace k"

definition read_job :: "job_codecs \<Rightarrow> plugin_host \<Rightarrow> string \<Rightarrow> (host_state, job_record option) program" where
  "read_job J h i = get_option (jk_record J) (job_row h (job_key i))"

definition load_jobs :: "job_codecs \<Rightarrow> plugin_host \<Rightarrow> (host_state, job_record list) program" where
  "load_jobs J h =
     pbind (get_list (jk_index J) (job_row h job_index_key)) (\<lambda>ids.
       pmap (\<lambda>i. pbind (read_job J h i) (\<lambda>r. case r of
           None \<Rightarrow> prefuse (''missing runtime resource: '' @ i) | Some r \<Rightarrow> preturn r)) ids)"

definition insert_job :: "job_codecs \<Rightarrow> job_call \<Rightarrow> job_record \<Rightarrow> (host_state, unit) program" where
  "insert_job J c r =
     (let h = jc_host c; key = job_key (job_id r)
      in pbind (job_row h job_index_key) (\<lambda>old.
         pbind (plift (decode_list (jk_index J) old)) (\<lambda>ids.
         pbind (if job_id r \<in> set ids then preturn True
                else pbind (job_row h key) (\<lambda>row. preturn (row \<noteq> None))) (\<lambda>exists.
         pbind (prequire (\<not> exists) (''runtime resource already exists: '' @ job_id r)) (\<lambda>_.
         pbind (encode_row (jk_record J) r) (\<lambda>v.
         pbind (encode_row (jk_index J) (sort (ids @ [job_id r]))) (\<lambda>w.
           write_rows (commit_host c 0) job_namespace
             [OpAssert key None, OpAssert job_index_key old, OpPut key v, OpPut job_index_key w])))))))"

definition replace_job :: "job_codecs \<Rightarrow> job_call \<Rightarrow> nat \<Rightarrow> job_record \<Rightarrow> (host_state, unit) program" where
  "replace_job J c n r =
     (let key = job_key (job_id r)
      in pbind (job_row (jc_host c) key) (\<lambda>old. case old of
           None \<Rightarrow> prefuse (''unknown runtime resource: '' @ job_id r)
         | Some old \<Rightarrow> pbind (encode_row (jk_record J) r) (\<lambda>v.
             write_rows (commit_host c n) job_namespace [OpAssert key (Some old), OpPut key v])))"

definition update_job ::
    "job_codecs \<Rightarrow> job_call \<Rightarrow> string \<Rightarrow> (job_record \<Rightarrow> string + job_record) \<Rightarrow> (host_state, job_record) program" where
  "update_job J c i mutation =
     pbind (validate_job_id ''runtime resource id'' i) (\<lambda>_.
     pbind (read_job J (jc_host c) i) (\<lambda>r. case r of
         None \<Rightarrow> prefuse (''unknown runtime resource: '' @ i)
       | Some r \<Rightarrow> pbind (plift (mutation r)) (\<lambda>r'. pbind (replace_job J c 0 r') (\<lambda>_. preturn r'))))"

text \<open>The loop over all resources: those of the execution that the mutation applies to are replaced one by one.\<close>

definition job_hit :: "string \<Rightarrow> (job_record \<Rightarrow> job_record option) \<Rightarrow> job_record \<Rightarrow> job_record option" where
  "job_hit ex mutation r = (if job_owner r \<noteq> ex then None else mutation r)"

fun replace_hits ::
    "job_codecs \<Rightarrow> job_call \<Rightarrow> nat \<Rightarrow> string \<Rightarrow> (job_record \<Rightarrow> job_record option) \<Rightarrow> job_record list
     \<Rightarrow> (host_state, job_record list) program" where
  "replace_hits J c n ex mutation [] = preturn []"
| "replace_hits J c n ex mutation (r # rs) = (case job_hit ex mutation r of
     None \<Rightarrow> replace_hits J c n ex mutation rs
   | Some r' \<Rightarrow> pbind (replace_job J c n r') (\<lambda>_.
       pbind (replace_hits J c (Suc n) ex mutation rs) (\<lambda>hits. preturn (r' # hits))))"

definition mutate_matching ::
    "job_codecs \<Rightarrow> job_call \<Rightarrow> string \<Rightarrow> (job_record \<Rightarrow> job_record option) \<Rightarrow> (host_state, job_record list) program" where
  "mutate_matching J c ex mutation =
     pbind (validate_job_id ''execution id'' ex) (\<lambda>_.
     pbind (load_jobs J (jc_host c)) (\<lambda>rs.
     pbind (replace_hits J c 0 ex mutation rs) (\<lambda>hits. preturn (sort_key job_id hits))))"

subsection \<open>Commands\<close>

definition new_job :: "string \<Rightarrow> job_kind \<Rightarrow> string \<Rightarrow> string set \<Rightarrow> job_record" where
  "new_job i kind owner auth = \<lparr>job_id = i, job_kind_of = kind, job_owner = owner, job_promoted = False,
     job_authority = auth, job_state_of = JobRunning, job_outputs = []\<rparr>"

definition create_job ::
    "job_codecs \<Rightarrow> job_call \<Rightarrow> string \<Rightarrow> job_kind \<Rightarrow> string \<Rightarrow> string set \<Rightarrow> (host_state, job_record) program" where
  "create_job J c i kind owner auth =
     pbind (validate_job_id ''runtime resource id'' i) (\<lambda>_.
     pbind (validate_job_id ''owner execution id'' owner) (\<lambda>_.
     pbind (insert_job J c (new_job i kind owner auth)) (\<lambda>_. preturn (new_job i kind owner auth))))"

definition promote_job :: "job_record \<Rightarrow> string + job_record" where
  "promote_job r =
     (if job_kind_of r \<noteq> JobKind then Inl ''only jobs may be promoted to workspace lifetime''
      else if job_state_of r \<noteq> JobRunning then Inl ''only running jobs may be promoted''
      else Inr (r\<lparr>job_promoted := True\<rparr>))"

definition complete_job :: "32 word option \<Rightarrow> string list \<Rightarrow> job_record \<Rightarrow> string + job_record" where
  "complete_job code outputs r =
     (if job_state_of r \<noteq> JobRunning then Inl ''only a running resource may complete''
      else Inr (r\<lparr>job_outputs := remdups_adj (sort outputs), job_state_of := JobExited code\<rparr>))"

definition revoke_terminated :: "job_record \<Rightarrow> job_record option" where
  "revoke_terminated r =
     (if \<not> job_promoted r \<and> job_state_of r = JobRunning
      then Some (r\<lparr>job_state_of := JobRevoked ''owner execution terminated''\<rparr>) else None)"

definition revoke_narrowed :: "string set \<Rightarrow> job_record \<Rightarrow> job_record option" where
  "revoke_narrowed auth r =
     (if job_state_of r \<noteq> JobRunning then None
      else if job_authority r \<subseteq> auth then None
      else Some (r\<lparr>job_authority := job_authority r \<inter> auth,
        job_state_of := JobRevoked ''execution authority narrowed below resource capability''\<rparr>))"

definition handle_job :: "job_codecs \<Rightarrow> job_call \<Rightarrow> job_command \<Rightarrow> (host_state, job_response) program" where
  "handle_job J c cmd = (case cmd of
     JobCreate i kind owner auth \<Rightarrow> pbind (create_job J c i kind owner auth) (\<lambda>r. preturn (JobResource (Some r)))
   | JobPromote i \<Rightarrow> pbind (update_job J c i promote_job) (\<lambda>r. preturn (JobResource (Some r)))
   | JobComplete i code outputs \<Rightarrow> pbind (update_job J c i (complete_job code outputs)) (\<lambda>r. preturn (JobResource (Some r)))
   | JobExecutionTerminated ex \<Rightarrow> pbind (mutate_matching J c ex revoke_terminated) (\<lambda>rs. preturn (JobAffected rs))
   | JobNarrowAuthority ex auth \<Rightarrow> pbind (mutate_matching J c ex (revoke_narrowed auth)) (\<lambda>rs. preturn (JobAffected rs))
   | JobGet i \<Rightarrow> pbind (validate_job_id ''runtime resource id'' i) (\<lambda>_.
       pbind (read_job J (jc_host c) i) (\<lambda>r. preturn (JobResource r)))
   | JobList \<Rightarrow> pbind (load_jobs J (jc_host c)) (\<lambda>rs. preturn (JobResources rs)))"

subsection \<open>The specification\<close>

text \<open>Resources as a map, without rows, index, encodings or storage failures.\<close>

type_synonym jobs = "string \<rightharpoonup> job_record"

definition jobs_in_order :: "jobs \<Rightarrow> job_record list" where
  "jobs_in_order A = map (\<lambda>i. the (A i)) (sorted_list_of_set (dom A))"

text \<open>What the end of an execution revokes, what the loss of authority revokes, and what becomes of the revoked.\<close>

definition ends_with :: "string \<Rightarrow> job_record \<Rightarrow> bool" where
  "ends_with ex r \<longleftrightarrow> job_owner r = ex \<and> job_state_of r = JobRunning \<and> \<not> job_promoted r"

definition ended :: "job_record \<Rightarrow> job_record" where
  "ended r = r\<lparr>job_state_of := JobRevoked ''owner execution terminated''\<rparr>"

definition exceeds :: "string \<Rightarrow> string set \<Rightarrow> job_record \<Rightarrow> bool" where
  "exceeds ex auth r \<longleftrightarrow> job_owner r = ex \<and> job_state_of r = JobRunning \<and> (\<exists>a\<in>job_authority r. a \<notin> auth)"

definition cut_back :: "string set \<Rightarrow> job_record \<Rightarrow> job_record" where
  "cut_back auth r = r\<lparr>job_authority := {a \<in> job_authority r. a \<in> auth},
     job_state_of := JobRevoked ''execution authority narrowed below resource capability''\<rparr>"

text \<open>The revoked among the resources that have been visited are changed.\<close>

definition revoke_among :: "string set \<Rightarrow> (job_record \<Rightarrow> bool) \<Rightarrow> (job_record \<Rightarrow> job_record) \<Rightarrow> jobs \<Rightarrow> jobs" where
  "revoke_among V gone change A = (\<lambda>i. case A i of
     None \<Rightarrow> None | Some r \<Rightarrow> Some (if i \<in> V \<and> gone r then change r else r))"

definition spec_revoke ::
    "string \<Rightarrow> (job_record \<Rightarrow> bool) \<Rightarrow> (job_record \<Rightarrow> job_record) \<Rightarrow> jobs \<Rightarrow> (job_response \<times> jobs) option" where
  "spec_revoke ex gone change A = (if valid_job_id ex
     then Some (JobAffected (map change (filter gone (jobs_in_order A))), revoke_among UNIV gone change A) else None)"

text \<open>One resource changes when it exists and meets the condition.\<close>

definition spec_change ::
    "string \<Rightarrow> (job_record \<Rightarrow> bool) \<Rightarrow> (job_record \<Rightarrow> job_record) \<Rightarrow> jobs \<Rightarrow> (job_response \<times> jobs) option" where
  "spec_change i guard change A = (case A i of
     None \<Rightarrow> None
   | Some r \<Rightarrow> if valid_job_id i \<and> guard r then Some (JobResource (Some (change r)), A(i \<mapsto> change r)) else None)"

definition job_step :: "job_command \<Rightarrow> jobs \<Rightarrow> (job_response \<times> jobs) option" where
  "job_step cmd A = (case cmd of
     JobCreate i kind owner auth \<Rightarrow>
       if valid_job_id i \<and> valid_job_id owner \<and> A i = None
       then (let r = \<lparr>job_id = i, job_kind_of = kind, job_owner = owner, job_promoted = False, job_authority = auth,
               job_state_of = JobRunning, job_outputs = []\<rparr>
             in Some (JobResource (Some r), A(i \<mapsto> r))) else None
   | JobPromote i \<Rightarrow> spec_change i (\<lambda>r. job_kind_of r = JobKind \<and> job_state_of r = JobRunning) (\<lambda>r. r\<lparr>job_promoted := True\<rparr>) A
   | JobComplete i code outputs \<Rightarrow> spec_change i (\<lambda>r. job_state_of r = JobRunning)
       (\<lambda>r. r\<lparr>job_outputs := sorted_list_of_set (set outputs), job_state_of := JobExited code\<rparr>) A
   | JobExecutionTerminated ex \<Rightarrow> spec_revoke ex (ends_with ex) ended A
   | JobNarrowAuthority ex auth \<Rightarrow> spec_revoke ex (exceeds ex auth) (cut_back auth) A
   | JobGet i \<Rightarrow> if valid_job_id i then Some (JobResource (A i), A) else None
   | JobList \<Rightarrow> Some (JobResources (jobs_in_order A), A))"

text \<open>What an error may leave behind: nothing, or for a sweep the changes of the resources visited before it.\<close>

definition job_partial :: "job_command \<Rightarrow> jobs \<Rightarrow> jobs \<Rightarrow> bool" where
  "job_partial cmd A A' = (case cmd of
     JobExecutionTerminated ex \<Rightarrow> \<exists>n. A' = revoke_among (set (take n (sorted_list_of_set (dom A)))) (ends_with ex) ended A
   | JobNarrowAuthority ex auth \<Rightarrow>
       \<exists>n. A' = revoke_among (set (take n (sorted_list_of_set (dom A)))) (exceeds ex auth) (cut_back auth) A
   | _ \<Rightarrow> A' = A)"

subsection \<open>The functions of the code against the specification\<close>

text \<open>What the functions of the code do to resources, and that it is what the specification asks.\<close>

definition hit_jobs :: "string set \<Rightarrow> string \<Rightarrow> (job_record \<Rightarrow> job_record option) \<Rightarrow> jobs \<Rightarrow> jobs" where
  "hit_jobs V ex f A = (\<lambda>i. if i \<in> V then map_option (\<lambda>r. case job_hit ex f r of None \<Rightarrow> r | Some r' \<Rightarrow> r') (A i) else A i)"

definition job_update :: "string \<Rightarrow> (job_record \<Rightarrow> string + job_record) \<Rightarrow> jobs \<Rightarrow> (job_response \<times> jobs) option" where
  "job_update i f A = (if \<not> valid_job_id i then None else case A i of
     None \<Rightarrow> None
   | Some r \<Rightarrow> (case f r of Inl _ \<Rightarrow> None | Inr r' \<Rightarrow> Some (JobResource (Some r'), A(i \<mapsto> r'))))"

definition job_sweep :: "string \<Rightarrow> (job_record \<Rightarrow> job_record option) \<Rightarrow> jobs \<Rightarrow> (job_response \<times> jobs) option" where
  "job_sweep ex f A = (if \<not> valid_job_id ex then None
     else Some (JobAffected (List.map_filter (job_hit ex f) (jobs_in_order A)), hit_jobs UNIV ex f A))"

lemma sorted_outputs: "remdups_adj (sort xs) = sorted_list_of_set (set (xs :: string list))"
  by (rule sorted_distinct_set_unique) (simp_all add: distinct_remdups_adj_sorted)

lemma hits_are_gone:
  "job_hit ex revoke_terminated r = (if ends_with ex r then Some (ended r) else None)"
  "job_hit ex (revoke_narrowed auth) r = (if exceeds ex auth r then Some (cut_back auth r) else None)"
  by (auto simp: job_hit_def revoke_terminated_def revoke_narrowed_def ends_with_def ended_def exceeds_def cut_back_def Int_def)

lemma hit_jobs_revoke:
  assumes "\<And>r. job_hit ex f r = (if gone r then Some (change r) else None)"
  shows "hit_jobs V ex f A = revoke_among V gone change A" "job_sweep ex f A = spec_revoke ex gone change A"
proof -
  show hits: "hit_jobs V ex f A = revoke_among V gone change A" for V
    by (auto simp: hit_jobs_def revoke_among_def assms fun_eq_iff split: option.split)
  have "List.map_filter (job_hit ex f) rs = map change (filter gone rs)" for rs
    by (induction rs) (simp_all add: List.map_filter_simps assms)
  with hits show "job_sweep ex f A = spec_revoke ex gone change A" by (simp add: job_sweep_def spec_revoke_def)
qed

lemmas sweeps_revoke = hit_jobs_revoke [OF hits_are_gone(1)] hit_jobs_revoke [OF hits_are_gone(2)]

lemma updates_change:
  "job_update i promote_job A = spec_change i (\<lambda>r. job_kind_of r = JobKind \<and> job_state_of r = JobRunning) (\<lambda>r. r\<lparr>job_promoted := True\<rparr>) A"
  "job_update i (complete_job code outputs) A = spec_change i (\<lambda>r. job_state_of r = JobRunning)
     (\<lambda>r. r\<lparr>job_outputs := sorted_list_of_set (set outputs), job_state_of := JobExited code\<rparr>) A"
  by (auto simp: job_update_def spec_change_def promote_job_def complete_job_def sorted_outputs split: option.split)

lemma job_step_code: "job_step cmd A = (case cmd of
     JobCreate i kind owner auth \<Rightarrow>
       if valid_job_id i \<and> valid_job_id owner \<and> A i = None
       then Some (JobResource (Some (new_job i kind owner auth)), A(i \<mapsto> new_job i kind owner auth)) else None
   | JobPromote i \<Rightarrow> job_update i promote_job A
   | JobComplete i code outputs \<Rightarrow> job_update i (complete_job code outputs) A
   | JobExecutionTerminated ex \<Rightarrow> job_sweep ex revoke_terminated A
   | JobNarrowAuthority ex auth \<Rightarrow> job_sweep ex (revoke_narrowed auth) A
   | JobGet i \<Rightarrow> if valid_job_id i then Some (JobResource (A i), A) else None
   | JobList \<Rightarrow> Some (JobResources (jobs_in_order A), A))"
  unfolding job_step_def Let_def updates_change sweeps_revoke new_job_def [symmetric] ..

lemma job_partial_code: "job_partial cmd A A' = (case cmd of
     JobExecutionTerminated ex \<Rightarrow> \<exists>n. A' = hit_jobs (set (take n (sorted_list_of_set (dom A)))) ex revoke_terminated A
   | JobNarrowAuthority ex auth \<Rightarrow> \<exists>n. A' = hit_jobs (set (take n (sorted_list_of_set (dom A)))) ex (revoke_narrowed auth) A
   | _ \<Rightarrow> A' = A)"
  unfolding job_partial_def sweeps_revoke ..

subsection \<open>What the pieces read and update\<close>

lemma job_row_reads [program_rules]: "reads host_rows (job_row h k) (\<lambda>R v. v = R (job_namespace, k))"
  unfolding job_row_def by (rule host_store.get_reads)

lemma read_job_reads [program_rules]:
  "reads host_rows (read_job J h i) (\<lambda>R v. decode_option (jk_record J) (R (job_namespace, job_key i)) = Inr v)"
  unfolding read_job_def job_row_def by (rule host_store.get_option_reads)

lemma job_list_reads [program_rules]:
  "reads host_rows (get_list c (job_row h k)) (\<lambda>R v. decode_list c (R (job_namespace, k)) = Inr v)"
  unfolding job_row_def by (rule host_store.get_list_reads)

lemma validate_job_id_reads [program_rules]: "reads host_rows (validate_job_id label s) (\<lambda>R u. valid_job_id s)"
  unfolding validate_job_id_def by (rule reads_require)

lemma load_jobs_reads [program_rules]:
  "reads host_rows (load_jobs J h) (\<lambda>R rs. \<exists>ids. decode_list (jk_index J) (R (job_namespace, job_index_key)) = Inr ids \<and>
     list_all2 (\<lambda>i r. decode_option (jk_record J) (R (job_namespace, job_key i)) = Inr (Some r)) ids rs)"
proof -
  have one: "reads host_rows (pbind (read_job J h i) (\<lambda>r. case r of
      None \<Rightarrow> prefuse (''missing runtime resource: '' @ i) | Some r \<Rightarrow> preturn r))
    (\<lambda>R r. decode_option (jk_record J) (R (job_namespace, job_key i)) = Inr (Some r))" for i
    by (rule reads_mono, (rule program_rules)+) (auto split: option.splits)
  show ?thesis unfolding load_jobs_def
    by (rule reads_mono, rule reads_bind [OF job_list_reads], rule reads_map [OF one]) blast
qed

lemma job_write_updates: "updates host_rows (write_rows h job_namespace ops) (\<lambda>R u R'. ops_effect job_namespace ops R = Some R')"
  by (rule host_store.put_updates)

lemma insert_job_updates:
  "updates host_rows (insert_job J c r) (\<lambda>R u R'. \<exists>ids v w.
     decode_list (jk_index J) (R (job_namespace, job_index_key)) = Inr ids \<and> R (job_namespace, job_key (job_id r)) = None \<and>
     cd_to (jk_record J) r = Inr v \<and> cd_to (jk_index J) (sort (ids @ [job_id r])) = Inr w \<and>
     job_id r \<notin> set ids \<and>
     R' = R((job_namespace, job_key (job_id r)) \<mapsto> v, (job_namespace, job_index_key) \<mapsto> w))"
  unfolding insert_job_def Let_def
  by (rule updates_mono, (rule job_write_updates update_rules program_rules)+) (auto split: if_splits)

lemma replace_job_updates:
  "updates host_rows (replace_job J c n r) (\<lambda>R u R'. \<exists>v. R (job_namespace, job_key (job_id r)) \<noteq> None \<and>
     cd_to (jk_record J) r = Inr v \<and> R' = R((job_namespace, job_key (job_id r)) \<mapsto> v))"
  unfolding replace_job_def Let_def
  by (rule updates_mono, (rule job_write_updates update_rules program_rules)+) (auto split: option.splits if_splits)

lemma update_job_updates:
  "updates host_rows (update_job J c i f) (\<lambda>R r' R'. \<exists>r v. valid_job_id i \<and>
     decode_option (jk_record J) (R (job_namespace, job_key i)) = Inr (Some r) \<and> f r = Inr r' \<and>
     R (job_namespace, job_key (job_id r')) \<noteq> None \<and> cd_to (jk_record J) r' = Inr v \<and>
     R' = R((job_namespace, job_key (job_id r')) \<mapsto> v))"
proof -
  have *: "updates host_rows (pbind (replace_job J c 0 r') (\<lambda>_. preturn r')) (\<lambda>R y R'. y = r' \<and>
      (\<exists>v. R (job_namespace, job_key (job_id r')) \<noteq> None \<and> cd_to (jk_record J) r' = Inr v \<and>
        R' = R((job_namespace, job_key (job_id r')) \<mapsto> v)))" for r'
    by (rule updates_mono, rule updates_then_return [OF replace_job_updates]) auto
  show ?thesis unfolding update_job_def
    by (rule updates_mono, (rule * update_rules program_rules)+) (auto split: option.splits)
qed

subsection \<open>The rows as resources\<close>

definition job_view :: "job_codecs \<Rightarrow> records \<Rightarrow> jobs" where
  "job_view J R i = (case decode_option (jk_record J) (R (job_namespace, job_key i)) of Inl _ \<Rightarrow> None | Inr r \<Rightarrow> r)"

text \<open>The laws of the JSON codecs.\<close>

definition job_codecs_ok :: "job_codecs \<Rightarrow> bool" where
  "job_codecs_ok J \<longleftrightarrow> codec_ok (\<lambda>_. True) (jk_index J) \<and> codec_ok (\<lambda>_. True) (jk_record J)"

text \<open>Only jobs are promoted, and only what has exited has outputs, in order and without repetition.\<close>

definition job_wf :: "job_record \<Rightarrow> bool" where
  "job_wf r \<longleftrightarrow> valid_job_id (job_id r) \<and> valid_job_id (job_owner r) \<and> (job_promoted r \<longrightarrow> job_kind_of r = JobKind) \<and>
     sorted (job_outputs r) \<and> distinct (job_outputs r) \<and> (job_outputs r \<noteq> [] \<longrightarrow> (\<exists>code. job_state_of r = JobExited code))"

text \<open>Every row can be read, holds a well-formed resource under its own identifier, and the index lists the resources in order.\<close>

definition job_rows_ok :: "job_codecs \<Rightarrow> records \<Rightarrow> bool" where
  "job_rows_ok J R \<longleftrightarrow>
     (\<forall>i b. R (job_namespace, job_key i) = Some b \<longrightarrow> (\<exists>r. cd_from (jk_record J) b = Inr r \<and> job_id r = i \<and> job_wf r)) \<and>
     (\<exists>ids. decode_list (jk_index J) (R (job_namespace, job_index_key)) = Inr ids \<and> sorted ids \<and> distinct ids \<and>
       set ids = {i. R (job_namespace, job_key i) \<noteq> None})"

lemma job_keys [simp]: "job_key i = job_key j \<longleftrightarrow> i = j" "job_key i \<noteq> job_index_key" "job_index_key \<noteq> job_key i"
  by (simp_all add: job_key_def job_index_key_def)

lemma job_codec_write:
  assumes "job_codecs_ok J"
  shows "cd_to (jk_record J) r = Inr v \<Longrightarrow> cd_from (jk_record J) v = Inr r"
    "cd_to (jk_index J) ids = Inr w \<Longrightarrow> cd_from (jk_index J) w = Inr ids"
  using assms by (auto simp: job_codecs_ok_def codec_ok_def codec_writes_def)

lemma job_view_Some:
  assumes "job_rows_ok J R"
  shows "decode_option (jk_record J) (R (job_namespace, job_key i)) = Inr (job_view J R i)"
    "job_view J R i = Some r \<Longrightarrow> job_id r = i \<and> job_wf r"
    "job_view J R i = None \<longleftrightarrow> R (job_namespace, job_key i) = None"
proof -
  from assms have "R (job_namespace, job_key i) = Some b \<Longrightarrow> \<exists>r. cd_from (jk_record J) b = Inr r \<and> job_id r = i \<and> job_wf r" for b
    unfolding job_rows_ok_def by blast
  then show "decode_option (jk_record J) (R (job_namespace, job_key i)) = Inr (job_view J R i)"
    "job_view J R i = Some r \<Longrightarrow> job_id r = i \<and> job_wf r"
    "job_view J R i = None \<longleftrightarrow> R (job_namespace, job_key i) = None"
    by (cases "R (job_namespace, job_key i)"; fastforce simp: job_view_def decode_option_def)+
qed

lemma job_index:
  assumes "job_rows_ok J R"
  shows "decode_list (jk_index J) (R (job_namespace, job_index_key)) = Inr (sorted_list_of_set (dom (job_view J R)))"
    "finite (dom (job_view J R))"
proof -
  from assms obtain ids where ids: "decode_list (jk_index J) (R (job_namespace, job_index_key)) = Inr ids" "sorted ids" "distinct ids"
    "set ids = {i. R (job_namespace, job_key i) \<noteq> None}" unfolding job_rows_ok_def by blast
  have dom: "set ids = dom (job_view J R)" using ids(4) job_view_Some(3) [OF assms] by (auto simp: dom_def)
  then show "finite (dom (job_view J R))" by (metis List.finite_set)
  from dom ids(1) sorted_list_of_set.idem_if_sorted_distinct [OF ids(2,3)]
  show "decode_list (jk_index J) (R (job_namespace, job_index_key)) = Inr (sorted_list_of_set (dom (job_view J R)))" by simp
qed

text \<open>What a write does to what the rows stand for.\<close>

lemma put_job_rows:
  assumes "job_rows_ok J R" "R (job_namespace, job_key (job_id r)) \<noteq> None" "cd_from (jk_record J) v = Inr r" "job_wf r"
  shows "job_rows_ok J (R((job_namespace, job_key (job_id r)) \<mapsto> v))"
    "job_view J (R((job_namespace, job_key (job_id r)) \<mapsto> v)) = (job_view J R)(job_id r \<mapsto> r)"
proof -
  have "{i. (R((job_namespace, job_key (job_id r)) \<mapsto> v)) (job_namespace, job_key i) \<noteq> None} = {i. R (job_namespace, job_key i) \<noteq> None}"
    using assms(2) by auto
  with assms show "job_rows_ok J (R((job_namespace, job_key (job_id r)) \<mapsto> v))" by (auto simp: job_rows_ok_def)
qed (use assms(3) in \<open>auto simp: job_view_def fun_eq_iff\<close>)

lemma create_job_rows:
  assumes "job_rows_ok J R" "decode_list (jk_index J) (R (job_namespace, job_index_key)) = Inr ids" "job_id r \<notin> set ids"
    "cd_from (jk_record J) v = Inr r" "cd_from (jk_index J) w = Inr (sort (ids @ [job_id r]))" "job_wf r"
  shows "job_rows_ok J (R((job_namespace, job_key (job_id r)) \<mapsto> v, (job_namespace, job_index_key) \<mapsto> w))"
    "job_view J (R((job_namespace, job_key (job_id r)) \<mapsto> v, (job_namespace, job_index_key) \<mapsto> w)) = (job_view J R)(job_id r \<mapsto> r)"
  using assms by (auto simp: job_rows_ok_def job_view_def fun_eq_iff)

lemma load_jobs_in_order:
  assumes "job_rows_ok J R" "decode_list (jk_index J) (R (job_namespace, job_index_key)) = Inr ids"
    "list_all2 (\<lambda>i r. decode_option (jk_record J) (R (job_namespace, job_key i)) = Inr (Some r)) ids rs"
  shows "rs = jobs_in_order (job_view J R)" "map job_id rs = sorted_list_of_set (dom (job_view J R))"
    "\<forall>r\<in>set rs. job_view J R (job_id r) = Some r"
proof -
  have ids: "ids = sorted_list_of_set (dom (job_view J R))" using job_index(1) [OF assms(1)] assms(2) by simp
  have some: "list_all2 (\<lambda>i r. job_view J R i = Some r) ids rs"
    using assms(3) by (rule list_all2_mono) (simp add: job_view_Some(1) [OF assms(1)])
  then have "rs = map (\<lambda>i. the (job_view J R i)) ids" "map job_id rs = ids"
    by (induction rule: list_all2_induct) (auto dest: job_view_Some(2) [OF assms(1)])
  with ids show "rs = jobs_in_order (job_view J R)" "map job_id rs = sorted_list_of_set (dom (job_view J R))"
    by (simp_all add: jobs_in_order_def)
  from some show "\<forall>r\<in>set rs. job_view J R (job_id r) = Some r"
    by (induction rule: list_all2_induct) (auto dest: job_view_Some(2) [OF assms(1)])
qed

subsection \<open>One resource\<close>

text \<open>What can become of a resource: it keeps its identity, its authority shrinks, and what has ended never changes again.\<close>

definition job_becomes :: "job_record \<Rightarrow> job_record \<Rightarrow> bool" where
  "job_becomes r r' \<longleftrightarrow> job_id r' = job_id r \<and> job_kind_of r' = job_kind_of r \<and> job_owner r' = job_owner r \<and>
     job_authority r' \<subseteq> job_authority r \<and> (job_promoted r \<longrightarrow> job_promoted r') \<and> (job_state_of r \<noteq> JobRunning \<longrightarrow> r' = r) \<and>
     (job_state_of r' = JobRunning \<longrightarrow> job_authority r' = job_authority r)"

lemma job_becomes_refl [simp]: "job_becomes r r"
  by (simp add: job_becomes_def)

lemma job_becomes_trans: "job_becomes r r' \<Longrightarrow> job_becomes r' r'' \<Longrightarrow> job_becomes r r''"
  by (auto simp: job_becomes_def)

lemma mutations_become:
  "promote_job r = Inr r' \<Longrightarrow> job_wf r \<Longrightarrow> job_becomes r r' \<and> job_wf r'"
  "complete_job code outputs r = Inr r' \<Longrightarrow> job_wf r \<Longrightarrow> job_becomes r r' \<and> job_wf r'"
  "revoke_terminated r = Some r' \<Longrightarrow> job_wf r \<Longrightarrow> job_becomes r r' \<and> job_wf r'"
  "revoke_narrowed auth r = Some r' \<Longrightarrow> job_wf r \<Longrightarrow> job_becomes r r' \<and> job_wf r'"
  by (auto simp: promote_job_def complete_job_def revoke_terminated_def revoke_narrowed_def job_becomes_def job_wf_def
      sorted_remdups_adj distinct_remdups_adj_sorted split: if_splits)

subsection \<open>The sweep\<close>

definition keeps_job :: "(job_record \<Rightarrow> job_record option) \<Rightarrow> bool" where
  "keeps_job f \<longleftrightarrow> (\<forall>r r'. f r = Some r' \<longrightarrow> job_wf r \<longrightarrow> job_becomes r r' \<and> job_wf r')"

lemma revocations_keep: "keeps_job revoke_terminated" "keeps_job (revoke_narrowed auth)"
  using mutations_become(3,4) unfolding keeps_job_def by blast+

lemma job_hit_kept: "keeps_job f \<Longrightarrow> job_hit ex f r = Some r' \<Longrightarrow> job_wf r \<Longrightarrow> job_becomes r r' \<and> job_wf r'"
  by (auto simp: keeps_job_def job_hit_def split: if_splits)

lemma hit_jobs_empty [simp]: "hit_jobs {} ex f A = A"
  by (simp add: hit_jobs_def)

lemma hit_jobs_none: "A i = Some r \<Longrightarrow> job_hit ex f r = None \<Longrightarrow> hit_jobs (insert i V) ex f A = hit_jobs V ex f A"
  by (auto simp: hit_jobs_def fun_eq_iff)

lemma hit_jobs_some:
  "A i = Some r \<Longrightarrow> job_hit ex f r = Some r' \<Longrightarrow> i \<notin> V \<Longrightarrow> hit_jobs V ex f (A(i \<mapsto> r')) = hit_jobs (insert i V) ex f A"
  by (auto simp: hit_jobs_def fun_eq_iff)

lemma replace_job_outcome:
  assumes "job_codecs_ok J" "job_rows_ok J (host_rows hs)" "replace_job J c n r hs = (q, hs')" "job_wf r"
  shows "job_rows_ok J (host_rows hs')" "\<And>e. q = Inl e \<Longrightarrow> host_rows hs' = host_rows hs"
    "q = Inr u \<Longrightarrow> job_view J (host_rows hs') = (job_view J (host_rows hs))(job_id r \<mapsto> r)"
proof -
  from replace_job_updates [of J c n r] assms(3) have
    o: "\<forall>e. q = Inl e \<longrightarrow> host_rows hs' = host_rows hs"
      "\<forall>u. q = Inr u \<longrightarrow> (\<exists>v. host_rows hs (job_namespace, job_key (job_id r)) \<noteq> None \<and> cd_to (jk_record J) r = Inr v \<and>
        host_rows hs' = (host_rows hs)((job_namespace, job_key (job_id r)) \<mapsto> v))"
    unfolding updates_def by blast+
  then show "\<And>e. q = Inl e \<Longrightarrow> host_rows hs' = host_rows hs" by blast
  from o put_job_rows [OF assms(2) _ job_codec_write(1) [OF assms(1)] assms(4)] assms(2)
  show "job_rows_ok J (host_rows hs')" "q = Inr u \<Longrightarrow> job_view J (host_rows hs') = (job_view J (host_rows hs))(job_id r \<mapsto> r)"
    by (cases q; fastforce)+
qed

lemma replace_hits_outcome:
  assumes "job_codecs_ok J" "keeps_job f" "job_rows_ok J (host_rows hs)" "\<forall>r\<in>set rs. job_view J (host_rows hs) (job_id r) = Some r"
    "distinct (map job_id rs)" "replace_hits J c n ex f rs hs = (q, hs')"
  shows "job_rows_ok J (host_rows hs') \<and>
    (\<exists>m. job_view J (host_rows hs') = hit_jobs (set (take m (map job_id rs))) ex f (job_view J (host_rows hs)) \<and>
      (\<forall>hits. q = Inr hits \<longrightarrow> hits = List.map_filter (job_hit ex f) rs \<and> length rs \<le> m))"
  using assms(3-)
proof (induction rs arbitrary: n hs q)
  case Nil
  then show ?case by (auto simp: preturn_def List.map_filter_def)
next
  case (Cons r rs)
  let ?A = "job_view J (host_rows hs)"
  from Cons.prems(2) have A: "?A (job_id r) = Some r" by simp
  note wf = job_view_Some(2) [OF Cons.prems(1) A, THEN conjunct2]
  show ?case
  proof (cases "job_hit ex f r")
    case None
    with Cons.prems(4) have run: "replace_hits J c n ex f rs hs = (q, hs')" by simp
    from Cons.IH [OF Cons.prems(1) _ _ run] Cons.prems(2,3) obtain m where
      m: "job_rows_ok J (host_rows hs')" "job_view J (host_rows hs') = hit_jobs (set (take m (map job_id rs))) ex f ?A"
        "\<forall>hits. q = Inr hits \<longrightarrow> hits = List.map_filter (job_hit ex f) rs \<and> length rs \<le> m" by auto
    with None hit_jobs_none [where A = ?A, OF A None] show ?thesis
      by (intro conjI exI [of _ "Suc m"]) (auto simp: List.map_filter_simps)
  next
    case (Some r')
    note kept = job_hit_kept [OF assms(2) Some wf]
    from Cons.prems(4) Some have "pbind (replace_job J c n r') (\<lambda>_. pbind (replace_hits J c (Suc n) ex f rs)
        (\<lambda>hits. preturn (r' # hits))) hs = (q, hs')" by simp
    then consider (failed) e where "replace_job J c n r' hs = (Inl e, hs')" "q = Inl e"
      | (ok) hs1 q1 where "replace_job J c n r' hs = (Inr (), hs1)" "replace_hits J c (Suc n) ex f rs hs1 = (q1, hs')"
        "q = (case q1 of Inl e \<Rightarrow> Inl e | Inr hits \<Rightarrow> Inr (r' # hits))"
      by (auto simp: pbind_cases preturn_def)
    then show ?thesis
    proof cases
      case failed
      with replace_job_outcome(1,2) [OF assms(1) Cons.prems(1) failed(1)] kept have
        "job_rows_ok J (host_rows hs')" "host_rows hs' = host_rows hs" by auto
      with failed(2) show ?thesis by (intro conjI exI [of _ 0]) simp_all
    next
      case ok
      from replace_job_outcome [OF assms(1) Cons.prems(1) ok(1)] kept
      have o: "job_rows_ok J (host_rows hs1)" "job_view J (host_rows hs1) = ?A(job_id r \<mapsto> r')" by (auto simp: job_becomes_def)
      have "\<forall>x\<in>set rs. job_view J (host_rows hs1) (job_id x) = Some x"
      proof
        fix x assume "x \<in> set rs"
        with Cons.prems(2,3) have "?A (job_id x) = Some x" "job_id x \<noteq> job_id r" by (simp, metis distinct.simps(2) image_eqI list.map(2) set_map)
        then show "job_view J (host_rows hs1) (job_id x) = Some x" unfolding o(2) by simp
      qed
      from Cons.IH [OF o(1) this _ ok(2)] Cons.prems(3) obtain m where
        m: "job_rows_ok J (host_rows hs')"
          "job_view J (host_rows hs') = hit_jobs (set (take m (map job_id rs))) ex f (?A(job_id r \<mapsto> r'))"
          "\<forall>hits. q1 = Inr hits \<longrightarrow> hits = List.map_filter (job_hit ex f) rs \<and> length rs \<le> m"
        unfolding o(2) by (auto simp only: list.map distinct.simps)
      have "job_id r \<notin> set (take m (map job_id rs))" using Cons.prems(3) by (auto dest: in_set_takeD)
      from hit_jobs_some [where A = ?A, OF A Some this] m ok(3) Some show ?thesis
        by (intro conjI exI [of _ "Suc m"]) (auto simp: List.map_filter_simps split: sum.splits)
    qed
  qed
qed

text \<open>The hits come in the order of the index, so sorting them again changes nothing.\<close>

lemma sorted_hits:
  assumes "keeps_job f" "sorted (map job_id rs)" "\<forall>r\<in>set rs. job_wf r"
  shows "sort_key job_id (List.map_filter (job_hit ex f) rs) = List.map_filter (job_hit ex f) rs"
proof -
  have "sorted (map job_id (List.map_filter (job_hit ex f) rs)) \<and>
      (\<forall>r\<in>set (List.map_filter (job_hit ex f) rs). job_id r \<in> job_id ` set rs)"
    using assms(2,3)
  proof (induction rs)
    case (Cons r rs)
    then show ?case using job_hit_kept [OF assms(1), of ex r]
      by (cases "job_hit ex f r") (auto simp: List.map_filter_simps job_becomes_def)
  qed (simp add: List.map_filter_simps)
  then show ?thesis by (simp add: sort_key_id_if_sorted)
qed

text \<open>A sweep that gets as far as its loop runs it over the resources in order.\<close>

lemma jobs_in_order_facts:
  assumes "job_rows_ok J R"
  shows "map job_id (jobs_in_order (job_view J R)) = sorted_list_of_set (dom (job_view J R))"
    "\<forall>r\<in>set (jobs_in_order (job_view J R)). job_view J R (job_id r) = Some r \<and> job_wf r"
  using job_index(2) [OF assms] job_view_Some(2) [OF assms] by (auto simp: jobs_in_order_def intro!: map_idI)

lemma mutate_matching_cases:
  assumes "job_rows_ok J (host_rows hs)" "mutate_matching J c ex f hs = (q, hs')"
  obtains (refused) e where "q = Inl e" "host_rows hs' = host_rows hs"
  | (swept) hs1 q1 where "host_rows hs1 = host_rows hs" "valid_job_id ex"
      "replace_hits J c 0 ex f (jobs_in_order (job_view J (host_rows hs))) hs1 = (q1, hs')"
      "q = (case q1 of Inl e \<Rightarrow> Inl e | Inr hits \<Rightarrow> Inr (sort_key job_id hits))"
proof -
  let ?start = "pbind (validate_job_id ''execution id'' ex) (\<lambda>_. load_jobs J (jc_host c))"
  have "reads host_rows ?start (\<lambda>R rs. job_rows_ok J R \<longrightarrow> valid_job_id ex \<and> rs = jobs_in_order (job_view J R))"
    by (rule reads_mono, (rule program_rules)+) (auto dest: load_jobs_in_order(1))
  note read = this [unfolded reads_def, rule_format]
  have "pbind ?start (\<lambda>rs. pbind (replace_hits J c 0 ex f rs) (\<lambda>hits. preturn (sort_key job_id hits))) hs = (q, hs')"
    using assms(2) unfolding mutate_matching_def by (auto simp: pbind_def split: prod.splits sum.splits)
  then consider e where "?start hs = (Inl e, hs')" "q = Inl e"
    | rs hs1 where "?start hs = (Inr rs, hs1)" "pbind (replace_hits J c 0 ex f rs) (\<lambda>hits. preturn (sort_key job_id hits)) hs1 = (q, hs')"
    unfolding pbind_cases [where g = "\<lambda>rs. pbind (replace_hits J c 0 ex f rs) (\<lambda>hits. preturn (sort_key job_id hits))"] by blast
  then show thesis
  proof cases
    case (1 e)
    with read [OF 1(1)] refused show thesis by blast
  next
    case (2 rs hs1)
    obtain q1 where "replace_hits J c 0 ex f rs hs1 = (q1, hs')"
      "q = (case q1 of Inl e \<Rightarrow> Inl e | Inr hits \<Rightarrow> Inr (sort_key job_id hits))"
      using 2(2) unfolding pbind_cases preturn_def by fastforce
    with read [OF 2(1)] assms(1) swept show thesis by blast
  qed
qed

lemma mutate_matching_outcome:
  assumes "job_codecs_ok J" "keeps_job f" "job_rows_ok J (host_rows hs)" "mutate_matching J c ex f hs = (q, hs')"
  defines "A \<equiv> job_view J (host_rows hs)"
  shows "job_rows_ok J (host_rows hs')"
    "\<exists>n. job_view J (host_rows hs') = hit_jobs (set (take n (sorted_list_of_set (dom A)))) ex f A"
    "q = Inr hits \<Longrightarrow> job_sweep ex f A = Some (JobAffected hits, job_view J (host_rows hs'))"
proof -
  let ?ids = "sorted_list_of_set (dom A)"
  have dom: "set ?ids = dom A" using job_index(2) [OF assms(3)] by (simp add: A_def)
  note js = jobs_in_order_facts [OF assms(3), folded A_def]
  have len: "length (jobs_in_order A) = length ?ids" using js(1) by (metis length_map)
  from assms(3,4) have "job_rows_ok J (host_rows hs') \<and> (\<exists>n. job_view J (host_rows hs') = hit_jobs (set (take n ?ids)) ex f A \<and>
      (\<forall>hits. q = Inr hits \<longrightarrow> valid_job_id ex \<and> hits = List.map_filter (job_hit ex f) (jobs_in_order A) \<and> length ?ids \<le> n))"
  proof (cases rule: mutate_matching_cases)
    case (refused e)
    with assms(3) show ?thesis by (intro conjI exI [of _ 0]) (simp_all add: A_def)
  next
    case (swept hs1 q1)
    note run = swept(3) [folded A_def]
    have "distinct (map job_id (jobs_in_order A))" "sorted (map job_id (jobs_in_order A))" using js(1) by simp_all
    from replace_hits_outcome [OF assms(1,2) _ _ this(1) run] sorted_hits [OF assms(2) this(2), of ex] js swept(1,2,4) assms(3) len
    show ?thesis by (cases q1) (auto simp: A_def simp del: length_sorted_list_of_set)
  qed
  then obtain n where n: "job_rows_ok J (host_rows hs')" "job_view J (host_rows hs') = hit_jobs (set (take n ?ids)) ex f A"
    "\<forall>hits. q = Inr hits \<longrightarrow> valid_job_id ex \<and> hits = List.map_filter (job_hit ex f) (jobs_in_order A) \<and> length ?ids \<le> n" by blast
  from n(1,2) show "job_rows_ok J (host_rows hs')"
    "\<exists>n. job_view J (host_rows hs') = hit_jobs (set (take n (sorted_list_of_set (dom A)))) ex f A" by blast+
  have "hit_jobs (dom A) ex f A = hit_jobs UNIV ex f A" by (force simp: hit_jobs_def fun_eq_iff dom_def)
  with n(2,3) dom show "q = Inr hits \<Longrightarrow> job_sweep ex f A = Some (JobAffected hits, job_view J (host_rows hs'))"
    by (simp add: job_sweep_def)
qed

subsection \<open>Commands on the rows\<close>

lemma update_job_outcome:
  assumes "job_codecs_ok J" "\<And>r r'. f r = Inr r' \<Longrightarrow> job_wf r \<Longrightarrow> job_becomes r r' \<and> job_wf r'"
  shows "updates host_rows (update_job J c i f) (\<lambda>R r' R'. job_rows_ok J R \<longrightarrow> job_rows_ok J R' \<and>
    job_update i f (job_view J R) = Some (JobResource (Some r'), job_view J R'))"
proof (rule updates_mono [OF update_job_updates], elim exE conjE, intro impI)
  fix R r' R' r v
  assume a: "valid_job_id i" "decode_option (jk_record J) (R (job_namespace, job_key i)) = Inr (Some r)" "f r = Inr r'"
    "R (job_namespace, job_key (job_id r')) \<noteq> None" "cd_to (jk_record J) r' = Inr v"
    "R' = R((job_namespace, job_key (job_id r')) \<mapsto> v)" and ok: "job_rows_ok J R"
  have r: "job_view J R i = Some r" using job_view_Some(1) [OF ok, of i] a(2) by simp
  from job_view_Some(2) [OF ok r] assms(2) [OF a(3)] have r': "job_id r' = i" "job_wf r'" by (auto simp: job_becomes_def)
  from put_job_rows [OF ok a(4) job_codec_write(1) [OF assms(1) a(5)] r'(2)] a r r'(1)
  show "job_rows_ok J R' \<and> job_update i f (job_view J R) = Some (JobResource (Some r'), job_view J R')"
    by (simp add: job_update_def)
qed

lemma create_job_outcome:
  assumes "job_codecs_ok J"
  shows "updates host_rows (create_job J c i kind owner auth) (\<lambda>R r R'. job_rows_ok J R \<longrightarrow> job_rows_ok J R' \<and>
    job_step (JobCreate i kind owner auth) (job_view J R) = Some (JobResource (Some r), job_view J R'))"
proof -
  let ?r = "new_job i kind owner auth"
  have *: "updates host_rows (pbind (insert_job J c ?r) (\<lambda>_. preturn ?r)) (\<lambda>R y R'. y = ?r \<and> (\<exists>ids v w.
     decode_list (jk_index J) (R (job_namespace, job_index_key)) = Inr ids \<and> R (job_namespace, job_key i) = None \<and>
     cd_to (jk_record J) ?r = Inr v \<and> cd_to (jk_index J) (sort (ids @ [i])) = Inr w \<and> i \<notin> set ids \<and>
     R' = R((job_namespace, job_key i) \<mapsto> v, (job_namespace, job_index_key) \<mapsto> w)))"
    by (rule updates_mono, rule updates_then_return [OF insert_job_updates]) (auto simp: new_job_def)
  show ?thesis unfolding create_job_def
  proof (rule updates_mono, (rule * update_rules program_rules)+, elim exE conjE, intro impI)
    fix R r R' ids v w
    assume a: "valid_job_id i" "valid_job_id owner" "r = ?r" and none: "R (job_namespace, job_key i) = None" "i \<notin> set ids"
      and ids: "decode_list (jk_index J) (R (job_namespace, job_index_key)) = Inr ids"
      and vw: "cd_to (jk_record J) ?r = Inr v" "cd_to (jk_index J) (sort (ids @ [i])) = Inr w"
      and R': "R' = R((job_namespace, job_key i) \<mapsto> v, (job_namespace, job_index_key) \<mapsto> w)" and ok: "job_rows_ok J R"
    have r: "job_id ?r = i" "job_wf ?r" using a(1,2) by (simp_all add: new_job_def job_wf_def)
    from create_job_rows [OF ok ids _ job_codec_write(1) [OF assms vw(1)] _ r(2)] job_codec_write(2) [OF assms vw(2)] none(2) r(1)
    have "job_rows_ok J R'" "job_view J R' = (job_view J R)(i \<mapsto> ?r)" by (simp_all add: R')
    with a none(1) job_view_Some(3) [OF ok, of i]
    show "job_rows_ok J R' \<and> job_step (JobCreate i kind owner auth) (job_view J R) = Some (JobResource (Some r), job_view J R')"
      by (simp add: job_step_code)
  qed
qed

text \<open>A command outside the sweeps does its step, or nothing.\<close>

definition job_refines :: "job_codecs \<Rightarrow> job_command \<Rightarrow> (host_state, job_response) program \<Rightarrow> bool" where
  "job_refines J cmd f \<longleftrightarrow> (\<forall>hs r hs'. job_rows_ok J (host_rows hs) \<longrightarrow> f hs = (r, hs') \<longrightarrow> job_rows_ok J (host_rows hs') \<and>
     (case r of Inl _ \<Rightarrow> job_partial cmd (job_view J (host_rows hs)) (job_view J (host_rows hs'))
      | Inr y \<Rightarrow> job_step cmd (job_view J (host_rows hs)) = Some (y, job_view J (host_rows hs'))))"

lemma job_refines_program:
  assumes "updates host_rows f (\<lambda>R y R'. job_rows_ok J R \<longrightarrow> job_rows_ok J R' \<and>
      job_step cmd (job_view J R) = Some (y, job_view J R'))" "\<And>A. job_partial cmd A A"
  shows "job_refines J cmd f"
  unfolding job_refines_def
proof (intro allI impI)
  fix hs r hs' assume ok: "job_rows_ok J (host_rows hs)" and run: "f hs = (r, hs')"
  from assms(1) [unfolded updates_def, rule_format, OF run] ok assms(2)
  show "job_rows_ok J (host_rows hs') \<and>
     (case r of Inl _ \<Rightarrow> job_partial cmd (job_view J (host_rows hs)) (job_view J (host_rows hs'))
      | Inr y \<Rightarrow> job_step cmd (job_view J (host_rows hs)) = Some (y, job_view J (host_rows hs')))"
    by (cases r) simp_all
qed

lemma job_refines_updates:
  assumes "updates host_rows f (\<lambda>R x R'. job_rows_ok J R \<longrightarrow> job_rows_ok J R' \<and>
      job_step cmd (job_view J R) = Some (g x, job_view J R'))" "\<And>A. job_partial cmd A A"
  shows "job_refines J cmd (pbind f (\<lambda>x. preturn (g x)))"
  by (rule job_refines_program [OF updates_mono [OF updates_then_return [OF assms(1)]] assms(2)]) auto

lemma job_refines_reads:
  assumes "reads host_rows f (\<lambda>R y. job_rows_ok J R \<longrightarrow> job_step cmd (job_view J R) = Some (y, job_view J R))"
    "\<And>A. job_partial cmd A A"
  shows "job_refines J cmd f"
  by (rule job_refines_program [OF updates_mono [OF reads_updates [OF assms(1)]] assms(2)]) simp

lemma job_refines_sweep:
  assumes "job_codecs_ok J" "keeps_job f" "\<And>A. job_step cmd A = job_sweep ex f A"
    "\<And>A n. job_partial cmd A (hit_jobs (set (take n (sorted_list_of_set (dom A)))) ex f A)"
  shows "job_refines J cmd (pbind (mutate_matching J c ex f) (\<lambda>rs. preturn (JobAffected rs)))"
  unfolding job_refines_def
proof (intro allI impI)
  fix hs r hs' assume ok: "job_rows_ok J (host_rows hs)"
    and run: "pbind (mutate_matching J c ex f) (\<lambda>rs. preturn (JobAffected rs)) hs = (r, hs')"
  then obtain q where q: "mutate_matching J c ex f hs = (q, hs')" "r = (case q of Inl e \<Rightarrow> Inl e | Inr hits \<Rightarrow> Inr (JobAffected hits))"
    unfolding pbind_cases preturn_def by fastforce
  from mutate_matching_outcome(1,2) [OF assms(1,2) ok q(1)] mutate_matching_outcome(3) [OF assms(1,2) ok q(1)] q(2) assms(3,4)
  show "job_rows_ok J (host_rows hs') \<and>
     (case r of Inl _ \<Rightarrow> job_partial cmd (job_view J (host_rows hs)) (job_view J (host_rows hs'))
      | Inr y \<Rightarrow> job_step cmd (job_view J (host_rows hs)) = Some (y, job_view J (host_rows hs')))"
    by (cases q) auto
qed

lemma handle_job_refines:
  assumes "job_codecs_ok J"
  shows "job_refines J cmd (handle_job J c cmd)"
proof (cases cmd)
  case (JobCreate i kind owner auth)
  show ?thesis unfolding JobCreate handle_job_def job_command.case
    by (rule job_refines_updates [OF create_job_outcome [OF assms]]) (simp add: job_partial_code)
next
  case (JobPromote i)
  show ?thesis unfolding JobPromote handle_job_def job_command.case
    by (rule job_refines_updates, unfold job_step_code job_command.case, rule update_job_outcome [OF assms mutations_become(1)])
      (simp_all add: job_partial_code)
next
  case (JobComplete i code outputs)
  show ?thesis unfolding JobComplete handle_job_def job_command.case
    by (rule job_refines_updates, unfold job_step_code job_command.case, rule update_job_outcome [OF assms mutations_become(2)])
      (simp_all add: job_partial_code)
next
  case (JobExecutionTerminated ex)
  show ?thesis unfolding JobExecutionTerminated handle_job_def job_command.case
    by (rule job_refines_sweep [OF assms revocations_keep(1)]) (auto simp: job_step_code job_partial_code)
next
  case (JobNarrowAuthority ex auth)
  show ?thesis unfolding JobNarrowAuthority handle_job_def job_command.case
    by (rule job_refines_sweep [OF assms revocations_keep(2)]) (auto simp: job_step_code job_partial_code)
next
  case (JobGet i)
  have "reads host_rows (pbind (validate_job_id ''runtime resource id'' i) (\<lambda>_. pbind (read_job J (jc_host c) i) (\<lambda>r. preturn (JobResource r))))
      (\<lambda>R y. job_rows_ok J R \<longrightarrow> job_step cmd (job_view J R) = Some (y, job_view J R))"
    unfolding JobGet by (rule reads_mono, (rule program_rules)+) (auto simp: job_step_code job_view_Some(1))
  then show ?thesis unfolding JobGet handle_job_def job_command.case
    by (rule job_refines_reads) (simp add: job_partial_code)
next
  case JobList
  have "reads host_rows (pbind (load_jobs J (jc_host c)) (\<lambda>rs. preturn (JobResources rs)))
      (\<lambda>R y. job_rows_ok J R \<longrightarrow> job_step cmd (job_view J R) = Some (y, job_view J R))"
    unfolding JobList by (rule reads_mono, (rule program_rules)+) (auto simp: job_step_code dest: load_jobs_in_order(1))
  then show ?thesis unfolding JobList handle_job_def job_command.case
    by (rule job_refines_reads) (simp add: job_partial_code)
qed

subsection \<open>What time does to resources\<close>

text \<open>Anything that may happen: commands, under any host and with the storage failing anywhere, and whatever happens in other namespaces.\<close>

inductive job_history :: "job_codecs \<Rightarrow> host_state \<Rightarrow> host_state \<Rightarrow> bool" for J hs where
  start: "job_history J hs hs"
| command: "job_history J hs hs1 \<Longrightarrow> job_history J hs (snd (handle_job J c cmd hs1))"
| elsewhere: "job_history J hs hs1 \<Longrightarrow> (\<And>k. host_rows hs2 (job_namespace, k) = host_rows hs1 (job_namespace, k)) \<Longrightarrow> job_history J hs hs2"

definition jobs_become :: "jobs \<Rightarrow> jobs \<Rightarrow> bool" where
  "jobs_become A A' \<longleftrightarrow> (\<forall>i r. A i = Some r \<longrightarrow> (\<exists>r'. A' i = Some r' \<and> job_becomes r r'))"

lemma jobs_become_refl [simp]: "jobs_become A A"
  by (simp add: jobs_become_def)

lemma jobs_become_trans: "jobs_become A B \<Longrightarrow> jobs_become B D \<Longrightarrow> jobs_become A D"
  unfolding jobs_become_def by (metis job_becomes_trans)

text \<open>Resources that are well formed, each under its own identifier.\<close>

definition jobs_wf :: "jobs \<Rightarrow> bool" where
  "jobs_wf A \<longleftrightarrow> (\<forall>i r. A i = Some r \<longrightarrow> job_id r = i \<and> job_wf r)"

lemma hit_jobs_become: "keeps_job f \<Longrightarrow> jobs_wf A \<Longrightarrow> jobs_become A (hit_jobs V ex f A)"
  by (auto simp: jobs_become_def jobs_wf_def hit_jobs_def dest: job_hit_kept split: option.splits)

lemma job_update_becomes:
  assumes "job_update i f A = Some (y, A')" "jobs_wf A" "\<And>r r'. f r = Inr r' \<Longrightarrow> job_wf r \<Longrightarrow> job_becomes r r' \<and> job_wf r'"
  shows "jobs_become A A'"
  using assms by (auto simp: job_update_def jobs_become_def jobs_wf_def split: if_splits option.splits sum.splits)

lemma job_step_becomes:
  assumes "job_step cmd A = Some (y, A')" "jobs_wf A"
  shows "jobs_become A A'"
proof (cases cmd)
  case (JobCreate i kind owner auth)
  with assms show ?thesis by (auto simp: job_step_code jobs_become_def split: if_splits)
next
  case (JobPromote i)
  with assms(1) show ?thesis by (auto simp: job_step_code intro: job_update_becomes [OF _ assms(2) mutations_become(1)])
next
  case (JobComplete i code outputs)
  with assms(1) show ?thesis by (auto simp: job_step_code intro: job_update_becomes [OF _ assms(2) mutations_become(2)])
qed (use assms revocations_keep in \<open>auto simp: job_step_code job_sweep_def hit_jobs_become split: if_splits\<close>)

lemma job_partial_becomes: "job_partial cmd A A' \<Longrightarrow> jobs_wf A \<Longrightarrow> jobs_become A A'"
  using revocations_keep by (cases cmd) (auto simp: job_partial_code hit_jobs_become)

lemma job_view_wf: "job_rows_ok J R \<Longrightarrow> jobs_wf (job_view J R)"
  using job_view_Some(2) by (auto simp: jobs_wf_def)

lemma handle_job_outcome:
  assumes "job_codecs_ok J" "job_rows_ok J (host_rows hs)" "handle_job J c cmd hs = (r, hs')"
  shows "job_rows_ok J (host_rows hs')" "\<And>e. r = Inl e \<Longrightarrow> job_partial cmd (job_view J (host_rows hs)) (job_view J (host_rows hs'))"
    "\<And>y. r = Inr y \<Longrightarrow> job_step cmd (job_view J (host_rows hs)) = Some (y, job_view J (host_rows hs'))"
  using handle_job_refines [OF assms(1), of cmd c, unfolded job_refines_def, rule_format, OF assms(2,3)] by auto

lemma job_view_cong:
  assumes "\<And>k. R' (job_namespace, k) = R (job_namespace, k)"
  shows "job_view J R' = job_view J R" "job_rows_ok J R' = job_rows_ok J R"
  by (simp_all add: job_view_def job_rows_ok_def assms fun_eq_iff)

lemma job_history_becomes:
  assumes "job_history J hs hs'" "job_codecs_ok J" "job_rows_ok J (host_rows hs)"
  shows "job_rows_ok J (host_rows hs') \<and> jobs_become (job_view J (host_rows hs)) (job_view J (host_rows hs'))"
  using assms(1)
proof (induction rule: job_history.induct)
  case start
  then show ?case using assms(3) by simp
next
  case (command hs1 c cmd)
  obtain r hs2 where r: "handle_job J c cmd hs1 = (r, hs2)" by fastforce
  note o = handle_job_outcome [OF assms(2) command.IH [THEN conjunct1] r]
  note wf = job_view_wf [OF command.IH [THEN conjunct1]]
  have "jobs_become (job_view J (host_rows hs1)) (job_view J (host_rows hs2))"
    using o(2,3) wf by (cases r) (auto intro: job_step_becomes job_partial_becomes)
  with command.IH o(1) r show ?case by (auto intro: jobs_become_trans)
next
  case (elsewhere hs1 hs2)
  note same = job_view_cong [where R = "host_rows hs1" and R' = "host_rows hs2", OF elsewhere(2)]
  with elsewhere(3) show ?case by simp
qed

lemma job_sweep_at:
  "job_sweep ex f A = Some (y, A') \<Longrightarrow> A i = Some r \<Longrightarrow> A' i = Some (case job_hit ex f r of None \<Rightarrow> r | Some r' \<Rightarrow> r')"
  by (auto simp: job_sweep_def hit_jobs_def split: if_splits)

text \<open>What still runs right after a sweep.\<close>

lemma running_after_sweep:
  assumes "A i = Some r" "A' i = Some r'" "job_state_of r' = JobRunning"
  shows "job_step (JobNarrowAuthority (job_owner r) auth) A = Some (y, A') \<Longrightarrow> job_authority r' \<subseteq> auth"
    "job_step (JobExecutionTerminated (job_owner r)) A = Some (y, A') \<Longrightarrow> job_promoted r"
  using assms
  by (auto simp: job_step_code job_hit_def revoke_narrowed_def revoke_terminated_def dest!: job_sweep_at split: if_splits)

subsection \<open>Properties\<close>

text \<open>C39: every command to the jobs plugin, with the storage failing at any of its commits, does what the state machine of resources
  does, which states the conditions itself: only a running job is promoted and only a running resource completes; the end of an
  execution revokes exactly its running resources that were not promoted, a loss of authority exactly its running resources that had
  more than is left. A reply is the reply of the state machine and the rows stand for its next state; an error changes nothing, except
  that a sweep has already changed what it is to change among the resources it has visited; and the rows stay readable and indexed.\<close>

theorem jobs_refine:
  assumes "job_codecs_ok J" "job_rows_ok J (host_rows hs)" "handle_job J c cmd hs = (r, hs')"
  shows "job_rows_ok J (host_rows hs') \<and> (case r of
      Inl _ \<Rightarrow> job_partial cmd (job_view J (host_rows hs)) (job_view J (host_rows hs'))
    | Inr y \<Rightarrow> job_step cmd (job_view J (host_rows hs)) = Some (y, job_view J (host_rows hs')))"
  using handle_job_outcome [OF assms] by (cases r) auto

text \<open>C40: a revocation that was answered is final: whatever happens afterwards, a resource of the execution that existed then runs
  with authority outside what the execution was narrowed to never again, and after the end of the execution only what had been promoted
  before still runs.\<close>

theorem revocation_is_final:
  assumes "job_codecs_ok J" "job_rows_ok J (host_rows hs)" "handle_job J c cmd hs = (Inr y, hs1)" "job_history J hs1 hs2"
    "job_view J (host_rows hs) i = Some r"
  shows "\<exists>r'. job_view J (host_rows hs2) i = Some r' \<and> job_becomes r r' \<and>
    (case cmd of
       JobNarrowAuthority ex auth \<Rightarrow> job_owner r = ex \<longrightarrow> job_state_of r' = JobRunning \<longrightarrow> job_authority r' \<subseteq> auth
     | JobExecutionTerminated ex \<Rightarrow> job_owner r = ex \<longrightarrow> job_state_of r' = JobRunning \<longrightarrow> job_promoted r
     | _ \<Rightarrow> True)"
proof -
  note o = handle_job_outcome [OF assms(1-3)]
  note step = o(3) [OF refl]
  from job_step_becomes [OF step job_view_wf [OF assms(2)]] assms(5) obtain r1 where
    r1: "job_view J (host_rows hs1) i = Some r1" "job_becomes r r1" unfolding jobs_become_def by blast
  from job_history_becomes [OF assms(4,1) o(1)] r1(1) obtain r2 where
    r2: "job_view J (host_rows hs2) i = Some r2" "job_becomes r1 r2" unfolding jobs_become_def by blast
  have running: "job_state_of r2 = JobRunning \<Longrightarrow> job_state_of r1 = JobRunning \<and> job_authority r2 = job_authority r1"
    using r2(2) unfolding job_becomes_def by metis
  from running_after_sweep [where A = "job_view J (host_rows hs)" and A' = "job_view J (host_rows hs1)", OF assms(5) r1(1)] step have
    "cmd = JobNarrowAuthority ex auth \<Longrightarrow> job_owner r = ex \<Longrightarrow> job_state_of r1 = JobRunning \<Longrightarrow> job_authority r1 \<subseteq> auth"
    "cmd = JobExecutionTerminated ex \<Longrightarrow> job_owner r = ex \<Longrightarrow> job_state_of r1 = JobRunning \<Longrightarrow> job_promoted r" for ex auth
    by auto
  with running r2 job_becomes_trans [OF r1(2) r2(2)] show ?thesis by (intro exI [of _ r2]) (auto split: job_command.split)
qed

subsection \<open>An instance\<close>

text \<open>One job of the execution \<open>e\<close>, which loses its authority.\<close>

definition demo_job :: job_record where
  "demo_job = new_job ''j'' JobKind ''e'' {''a''}"

definition demo_narrowed :: job_record where
  "demo_narrowed = demo_job\<lparr>job_authority := {}, job_state_of := JobRevoked ''execution authority narrowed below resource capability''\<rparr>"

definition demo_job_codecs :: job_codecs where
  "demo_job_codecs = \<lparr>jk_index = table_codec [([''j''], [1])], jk_record = table_codec [(demo_job, [2]), (demo_narrowed, [3])]\<rparr>"

definition job_config :: kernel_config where
  "job_config = \<lparr>kc_manifests = [], kc_activation = [], kc_namespaces = [(job_namespace, ''phenix.jobs'')],
     kc_layers = [], kc_providers = [], kc_bindings = [], kc_policy = 1\<rparr>"

definition demo_job_call :: job_call where
  "demo_job_call = \<lparr>jc_host = \<lparr>ph_generation = None, ph_graph = graph_empty, ph_config = job_config,
     ph_states = [(''phenix.jobs'', Active)], ph_instances = {''phenix.jobs''}, ph_plugin = ''phenix.jobs'',
     ph_authority = {persistence_read, persistence_write}, ph_cancelled = False, ph_thread = 1, ph_fault = no_fault, ph_engine = []\<rparr>,
     jc_late = (\<lambda>_. False)\<rparr>"

definition demo_job_state :: host_state where
  "demo_job_state = \<lparr>hs_scope = scope_new None, hs_db = \<lparr>db_schemas = [job_namespace \<mapsto> (''phenix.jobs'', 1)],
     db_records = [(job_namespace, job_key ''j'') \<mapsto> [2], (job_namespace, job_index_key) \<mapsto> [1]], db_clock = 0\<rparr>, hs_trace = []\<rparr>"

lemma demo_job_codecs_ok: "job_codecs_ok demo_job_codecs"
  unfolding job_codecs_ok_def demo_job_codecs_def job_codecs.simps by (intro conjI table_codec_ok) (simp_all add: list_all_iff)

lemma demo_job_view: "job_view demo_job_codecs (host_rows demo_job_state) i = (if i = ''j'' then Some demo_job else None)"
  by (simp add: job_view_def host_rows_def demo_job_state_def demo_job_codecs_def table_codec_def)

lemma demo_job_rows_ok: "job_rows_ok demo_job_codecs (host_rows demo_job_state)"
proof -
  have "job_wf demo_job" by (simp add: job_wf_def demo_job_def new_job_def valid_job_id_def byte_of_def)
  then show ?thesis
    by (auto simp: job_rows_ok_def host_rows_def demo_job_state_def demo_job_codecs_def table_codec_def demo_job_def new_job_def)
qed

lemma demo_narrow:
  "fst (handle_job demo_job_codecs demo_job_call (JobNarrowAuthority ''e'' {}) demo_job_state) = Inr (JobAffected [demo_narrowed])"
  by code_simp

theorem jobs_refine_witness:
  "\<exists>hs'. job_step (JobNarrowAuthority ''e'' {}) (job_view demo_job_codecs (host_rows demo_job_state)) =
     Some (JobAffected [demo_narrowed], job_view demo_job_codecs (host_rows hs'))"
proof -
  from demo_narrow obtain hs' where "handle_job demo_job_codecs demo_job_call (JobNarrowAuthority ''e'' {}) demo_job_state =
      (Inr (JobAffected [demo_narrowed]), hs')" by (metis prod.collapse)
  from jobs_refine [OF demo_job_codecs_ok demo_job_rows_ok this] show ?thesis by auto
qed

theorem revocation_is_final_witness:
  "\<exists>hs' r'. job_history demo_job_codecs demo_job_state hs' \<and> job_view demo_job_codecs (host_rows hs') ''j'' = Some r' \<and>
     (job_state_of r' = JobRunning \<longrightarrow> job_authority r' \<subseteq> {})"
proof -
  from demo_narrow obtain hs' where run: "handle_job demo_job_codecs demo_job_call (JobNarrowAuthority ''e'' {}) demo_job_state =
      (Inr (JobAffected [demo_narrowed]), hs')" by (metis prod.collapse)
  have "job_view demo_job_codecs (host_rows demo_job_state) ''j'' = Some demo_job" by (simp add: demo_job_view)
  from revocation_is_final [OF demo_job_codecs_ok demo_job_rows_ok run job_history.start this] obtain r' where
    "job_view demo_job_codecs (host_rows hs') ''j'' = Some r'" "job_state_of r' = JobRunning \<longrightarrow> job_authority r' \<subseteq> {}"
    by (auto simp: demo_job_def new_job_def)
  moreover have "job_history demo_job_codecs demo_job_state hs'"
    using job_history.command [OF job_history.start, of demo_job_codecs demo_job_state demo_job_call "JobNarrowAuthority ''e'' {}"] run by simp
  ultimately show ?thesis by blast
qed

end
