(* ===== verification/Spec2Isabelle.thy ===== *)
theory Spec2Isabelle
  imports Capability Prepared_Mutation Registry Component_Graph Durable_Host Observable_Changes Dispatch_Provenance Tasks_Safety Kernel_Lifecycle_Safety Management Session_Tree Jobs
begin

text \<open>
  A verification development for the core of the Phenix conductor (\<open>src/rust/crates/phenix-core\<close>), the host that
  composes plugins into one program: it resolves their manifests into a plugin configuration and a component graph, narrows
  the authority of every call, dispatches services through layers, keeps durable data and observable values, delivers
  events, cancels tasks, and replaces the running generation while it is live.

  \<^bold>\<open>How the parts interact.\<close> Manifests are validated into a kernel configuration (\<open>Registry\<close>) and a component graph
  (\<open>Component_Graph\<close>); with resources, schemas and configuration they form a harness (\<open>Harness\<close>), either directly or from
  packaged metadata (\<open>Metadata_Resolution\<close>). A kernel runs the plugins of a harness (\<open>Kernel_Lifecycle\<close>): a call goes
  through a chain of layers to a terminal (\<open>Dispatch\<close>), and what a plugin does to data goes through its host
  (\<open>Durable_Host\<close>), which enforces ownership and authority in front of the store (\<open>Persistence\<close>) and the scope of prepared
  mutations (\<open>Prepared_Mutation\<close>). A change of the plugin set is derived by management (\<open>Management\<close>), resolved to a new
  harness, compared with the old one (\<open>Reconciliation\<close>, \<open>Metadata_Reconciliation\<close>) and activated on the live kernel
  (\<open>Live_Reconciliation\<close>), all or nothing. Three of the first-party plugins, sessions, their tree and jobs, are modelled on
  top of the host (\<open>Sessions\<close>, \<open>Session_Tree\<close>, \<open>Jobs\<close>). This theory holds what spans the component graph and the durable host.
\<close>

text \<open>
  \<^bold>\<open>Theories and the code they model\<close> (paths below \<open>phenix-core/src\<close>).

  \<^item> \<open>Prelude\<close>: results and the question-mark operator, stable sorting, decimal rendering; no code of its own. \<open>Btree_Map\<close>:
    \<open>std::collections::BTreeMap\<close> as an association list with ascending keys. \<open>Dfs\<close>: the search that the registry, the
    graph and the store bootstrap run with their own bookkeeping.
  \<^item> \<open>Identity\<close>, \<open>Authority\<close>: \<open>identity.rs\<close>, \<open>authority.rs\<close>. \<open>Values\<close>, \<open>Schema\<close>: the values, types, strict check,
    compatibility and joins of \<open>contract.rs\<close> and the interface schemas of \<open>typed_component.rs\<close>.
  \<^item> \<open>Manifest\<close>, \<open>Registry\<close>, \<open>Component_Graph\<close>: \<open>manifest.rs\<close>, \<open>registry.rs\<close>, \<open>component.rs\<close>, \<open>provider_resolution.rs\<close>.
  \<^item> \<open>Configuration\<close>, \<open>Metadata\<close>, \<open>Harness\<close>, \<open>Metadata_Resolution\<close>: \<open>configuration.rs\<close>, \<open>composition_metadata.rs\<close>,
    \<open>resolver.rs\<close>, \<open>metadata_input.rs\<close>, \<open>frontend_metadata.rs\<close>, \<open>metadata_inspection.rs\<close>.
  \<^item> \<open>Persistence\<close>, \<open>Prepared_Mutation\<close>, \<open>Durable_Host\<close>, \<open>Store_Preparation\<close>: \<open>persistence.rs\<close>, \<open>prepared_mutation.rs\<close>,
    the durable operations of \<open>runtime/host.rs\<close> and \<open>runtime/owned_transactions.rs\<close>, \<open>persistence_bootstrap.rs\<close>,
    \<open>persistence_provider.rs\<close>, \<open>runtime/persistence_bootstrap.rs\<close>. State: the two tables, the scope, the trace.
  \<^item> \<open>Capability\<close>: \<open>capability.rs\<close>. \<open>Events\<close>: \<open>events.rs\<close>, with every interleaving of deliveries as a step relation.
    \<open>Tasks\<close>, \<open>Tasks_Safety\<close>: \<open>tasks.rs\<close>, with every interleaving of cancellations.
  \<^item> \<open>Observable_Value\<close>, \<open>Observable_Index\<close>, \<open>Observable_Store\<close>, \<open>Observable_Transaction\<close>, \<open>Observable_Commit\<close>,
    \<open>Observable_Safety\<close>, \<open>Observable_Changes\<close>: the files of \<open>observable/\<close>.
  \<^item> \<open>Dispatch\<close>, \<open>Dispatch_Safety\<close>, \<open>Dispatch_Provenance\<close>: \<open>runtime/dispatch.rs\<close> and the invoking operations of
    \<open>runtime/host.rs\<close>, \<open>runtime/kernel.rs\<close> and \<open>runtime.rs\<close>.
  \<^item> \<open>Kernel_Lifecycle\<close>, \<open>Kernel_Lifecycle_Safety\<close>: activation, replacement and stopping in \<open>runtime/kernel.rs\<close>,
    \<open>runtime/reconciliation.rs\<close>, \<open>runtime/listener.rs\<close> and \<open>runtime.rs\<close>.
  \<^item> \<open>Reconciliation\<close>, \<open>Metadata_Reconciliation\<close>, \<open>Live_Reconciliation\<close>: \<open>reconciliation.rs\<close>, \<open>metadata_reconciliation.rs\<close>,
    \<open>activation.rs\<close>, \<open>live_reconciliation.rs\<close>. \<open>Plugin_Build\<close>, \<open>Management\<close>: \<open>plugin_build.rs\<close>, \<open>plugin_build_execution.rs\<close>,
    \<open>artifact.rs\<close>, \<open>management.rs\<close>.
  \<^item> \<open>Plugin_Store\<close>: what plugins share to keep their state in rows; \<open>Sessions\<close>: \<open>phenix-plugin-sessions/src/implementation.rs\<close> with
    the data of \<open>phenix-sdk/src/contracts/sessions.rs\<close>, and an abstract state machine of sessions that it refines; \<open>Session_Tree\<close>:
    \<open>phenix-plugin-session-tree/src/implementation.rs\<close>, whose commits span the rows of both plugins;
    \<open>Jobs\<close>: \<open>phenix-plugin-jobs/src/implementation.rs\<close>.
\<close>

text \<open>
  \<^bold>\<open>Conventions.\<close> A struct is a record whose field names carry a short prefix, an enum a datatype with the code's
  variants, \<open>Result\<close> the sum type (\<open>Inl\<close> is the error), a map an ordered association list or a function to options, a
  mutating method a function that returns the new state. Strings are their UTF-8 bytes. Counters of a fixed width are words, or
  naturals with the bound written out. A panic that the code can reach is an error value of its own. Errors are kept as
  values where the code renders them into messages.

  \<^bold>\<open>Groups of lemmas.\<close> Every component has lemmas that read its operations outcome by outcome (\<open>..._cases\<close>, \<open>..._ok\<close>,
  \<open>..._eq\<close>), preservation lemmas per operation for its invariant, and properties that are a few steps over them. The
  properties state that resolution is total, deterministic and valid; that authority only shrinks, along calls, along bindings
  and across prepared commits; that transactions of the store and of the observable store happen completely or not at all,
  whatever fails; that deliveries and cancellations are exactly what happened under every interleaving, and provenance what was run, with its outcomes; that
  restarts, replacements and management either do what was asked or leave the running system as it was.

  \<^bold>\<open>Interfaces as locales.\<close> \<open>attenuation\<close> (the lattice of authorities) is interpreted in \<open>Authority\<close>; \<open>ordered_map\<close> (the
  laws of lookup, insertion and removal) in \<open>Btree_Map\<close>; \<open>ranking\<close> (choosing by a total preorder and a stable sort) on the
  service bindings in \<open>Registry\<close>, on the eligible providers in \<open>Component_Graph\<close> and on layer policies in \<open>Harness\<close>; \<open>row_store\<close> (reading and writing rows
  under a host) on the host's operations in \<open>Plugin_Store\<close>.

  \<^bold>\<open>Fuel.\<close> The depth-first searches take one unit of fuel per node and start with one more than there are nodes; totality of
  the registry, of the graph and of the bootstrap check is proved, so running out never occurs. The closure of restarts is
  computed the same way. A call of a service may nest through layers, services and imports; \<open>fuel_needed\<close> bounds the nesting by the causal
  guards (every service and every component at most once in a chain of causes) and \<open>dispatch_bound\<close> by the configuration, and a call
  is proved to return with that fuel whatever the plugins do. A draw of a handle may repeat as long as the random source
  repeats itself; its model ends when the given draws end. The walk of \<open>would_cycle\<close> to the root has no bound in the code and
  none in the model, which may not return; that it does is a property of the forest.

  \<^bold>\<open>Parameters.\<close> What is not the program's own is an argument of the definitions: which SQL statement fails (any), random bytes,
  digests and SHA-256, the counter of policy identities, the programs of plugins and their life-cycle hooks (arbitrary functions of
  what they can reach), handlers as tokens, cancellation as observed by the call, the message of the SQL engine, codecs between
  values and bytes, the store of artifacts and the executor of builds, the JSON of the plugins' rows (what is written can be read back; of the entries of
  histories and journals only those whose values hold no floats and nest at most 32 deep, because \<open>serde_json\<close> reads floats
  approximately and stops at 128 levels of JSON, so what is shown of sessions and of their tree is for stores and commands with such
  values). A call between the two session plugins may be refused before, or lost after, the other has run.
\<close>

text \<open>
  \<^bold>\<open>What modelling showed.\<close> Six places where the code does not do what it means to: a kernel whose plugins were never activated
  refuses every candidate with a listener; re-resolution for another plugin set skips the check of required layers; the
  restart closure misses dependents in the next graph; and two ways in which the change list of an observable transaction
  with several edits of one list disagrees with the committed value; and the children of a session named \<open>@root\<close> share
  a row with the sessions that have no parent. Each is shown on a concrete state in its theory.

  \<^bold>\<open>Not modelled.\<close> Of \<open>phenix-core\<close>: typed conversions and the SDK client (\<open>sdk.rs\<close>, \<open>plugin_context.rs\<close>, most of
  \<open>typed_component.rs\<close>), which are generic wrappers around operations that are modelled; logging and inspection, which
  report and decide nothing; opening a database file; locks and threads other than through the interleavings above. Outside the
  core: the other first-party plugins, the SDK and its macros, the adapters, clients, bindings and the product assembly, which use the
  core through the interfaces modelled here and mostly translate between wire formats or drive processes and networks.
\<close>

subsection \<open>Durable writes across plugins\<close>

text \<open>C1: when a host whose graph was compiled commits a mutation prepared by another plugin, write
  authority was granted all along the way: by the harness, by a component of the committing plugin and the maximum of that plugin, by
  a component of the preparing plugin and the maximum of that plugin.\<close>

theorem cross_plugin_commit_is_granted:
  assumes "compile_graph pms cms harness policy = Some (Inr (ph_graph h))"
    "transact_prepared h handles hs = (Inr (), hs')"
    "p \<in> set (named_mutations handles hs)" "nt_owner (pm_transaction p) \<noteq> ph_plugin h"
  shows "permits harness persistence_write \<and>
    (\<exists>committer\<in>set pms. pm_id committer = ph_plugin h \<and> permits (pm_maximum committer) persistence_write) \<and>
    (\<exists>importer\<in>set cms. cm_owner importer = ph_plugin h \<and> permits (cm_maximum importer) persistence_write) \<and>
    (\<exists>exporter\<in>set cms. cm_owner exporter = nt_owner (pm_transaction p) \<and>
       permits (cm_maximum exporter) persistence_write) \<and>
    (\<exists>owner\<in>set pms. pm_id owner = nt_owner (pm_transaction p) \<and> permits (pm_maximum owner) persistence_write)"
proof -
  from prepared_commit_facts [OF assms(2)] assms(3,4) have "authorized_import h (nt_owner (pm_transaction p))"
    by (auto simp: participant_ok_def)
  then obtain rc ri x where x: "rc \<in> set (bt_vals (cg_components (ph_graph h)))" "rc_plugin rc = ph_plugin h"
    "ri \<in> set (rc_imports rc)" "x \<in> set ((case ri_binding ri of Some b \<Rightarrow> [b] | None \<Rightarrow> []) @ ri_fallbacks ri)"
    "ih_plugin x = nt_owner (pm_transaction p)" "persistence_write \<in> ih_authority x"
    by (fastforce simp: authorized_import_def list_ex_iff held_imports_def permits_def)
  from assms(1) obtain ps cs where inp: "graph_inputs pms cms ps cs"
    "resolve_all harness ps cs policy = Inr (cg_components (ph_graph h), cg_listeners (ph_graph h))"
    by (rule compile_graph_ok)
  from resolve_all_ok(1) [OF inp(2)] graph_inputs_facts(3) [OF inp(1)] x(1) obtain c
    where "bt_get (cg_components (ph_graph h)) c = Some rc" by (auto simp: set_bt_vals)
  note b = resolved_handle_bounds [OF assms(1) this x(3,4)] resolved_component_bounds [OF assms(1) this]
  from b(1) x(6) have w: "persistence_write \<in> rc_maximum rc" by blast
  with b(2) x(2) have "\<exists>committer\<in>set pms. pm_id committer = ph_plugin h \<and> permits (pm_maximum committer) persistence_write"
    by (auto simp: permits_def)
  with b(1) x(2,5,6) show ?thesis by (auto simp: permits_def) (metis subsetD)+
qed

subsection \<open>An instance of a commit across plugins\<close>

definition team_plugin :: "plugin_id \<Rightarrow> plugin_manifest" where
  "team_plugin i = \<lparr>pm_id = i, pm_version = 1, pm_execution = Embedded, pm_dependencies = [],
     pm_services = [], pm_namespaces = [], pm_maximum = {persistence_write}\<rparr>"

definition team_import :: component_import where
  "team_import = \<lparr>ci_interface = ''i@1'', ci_schema = interface_schema_default, ci_required = True,
     ci_authority = {persistence_write}\<rparr>"

definition team_importer :: component_manifest where
  "team_importer = \<lparr>cm_id = ''ca'', cm_owner = ''a'', cm_imports = [team_import], cm_exports = [],
     cm_listeners = [], cm_maximum = {persistence_write}\<rparr>"

definition team_exporter :: component_manifest where
  "team_exporter = \<lparr>cm_id = ''cb'', cm_owner = ''b'', cm_imports = [], cm_exports = [\<lparr>ce_interface = ''i@1'',
       ce_schema = interface_schema_default, ce_priority = 0, ce_required = {persistence_write}\<rparr>],
     cm_listeners = [], cm_maximum = {persistence_write}\<rparr>"

definition team_resolved :: resolved_import where
  "team_resolved = \<lparr>ri_interface = ''i@1'', ri_required = True,
     ri_binding = Some \<lparr>ih_importer = ''ca'', ih_interface = ''i@1'', ih_exporter = ''cb'', ih_plugin = ''b'',
       ih_execution = Embedded, ih_authority = {persistence_write}\<rparr>,
     ri_fallbacks = [], ri_reason = Some StableIdentity\<rparr>"

definition team_graph :: component_graph where
  "team_graph = \<lparr>cg_components = [
     (''ca'', \<lparr>rc_id = ''ca'', rc_plugin = ''a'', rc_execution = Embedded,
        rc_imports = [team_resolved], rc_maximum = {persistence_write}\<rparr>),
     (''cb'', \<lparr>rc_id = ''cb'', rc_plugin = ''b'', rc_execution = Embedded, rc_imports = [],
        rc_maximum = {persistence_write}\<rparr>)],
     cg_listeners = []\<rparr>"

lemmas team_defs = team_plugin_def team_import_def team_importer_def team_exporter_def team_resolved_def
  team_graph_def

lemma team_inputs:
  "graph_inputs [team_plugin ''a'', team_plugin ''b''] [team_importer, team_exporter]
     [(''a'', team_plugin ''a''), (''b'', team_plugin ''b'')] [(''ca'', team_importer), (''cb'', team_exporter)]"
  by (simp add: graph_inputs_def team_defs bt_has_def add_component_def validate_component_manifest_def)

lemma team_resolve:
  "resolve_import {persistence_write} [(''a'', team_plugin ''a''), (''b'', team_plugin ''b'')]
     [(''ca'', team_importer), (''cb'', team_exporter)] None team_importer team_import = Inr team_resolved"
  by (simp add: resolve_import_def exporters_for_def consider_candidate_def team_defs component_authority_def
      binding_authority_def attenuate_def owner_of_def permits_all_def permits_def handle_of_def
      selection_reason_of_def Let_def)

lemma team_compiled:
  "compile_graph [team_plugin ''a'', team_plugin ''b''] [team_importer, team_exporter] {persistence_write} None =
     Some (Inr team_graph)"
proof -
  have "resolve_all {persistence_write} [(''a'', team_plugin ''a''), (''b'', team_plugin ''b'')]
      [(''ca'', team_importer), (''cb'', team_exporter)] None = Inr (cg_components team_graph, [])"
    using team_resolve
    by (simp add: resolve_all_def resolve_component_def team_defs component_listeners_def owner_of_def
        component_authority_def attenuate_def)
  moreover have "validate_required_import_dag (cg_components team_graph) = Some (Inr ())"
    by (simp add: validate_required_import_dag_def team_defs required_targets_def)
  ultimately show ?thesis
    using team_inputs
    by (simp add: compile_graph_def graph_inputs_def) (simp add: team_graph_def validate_no_subscriptions)
qed

definition team_host :: plugin_host where
  "team_host = demo_host\<lparr>ph_graph := team_graph, ph_states := [(''a'', Active), (''b'', Active)],
     ph_instances := {''a'', ''b''}\<rparr>"

definition team_mutation :: prepared_mutation where
  "team_mutation = \<lparr>pm_transaction = \<lparr>nt_owner = ''b'', nt_namespace = ''b/y'', nt_operations = [OpDelete ''k'']\<rparr>,
     pm_authority = {persistence_write}, pm_coordinator = ''a''\<rparr>"

definition team_state :: host_state where
  "team_state = demo_state\<lparr>hs_scope := \<lparr>ms_generation = None,
     ms_prepared = [(''h'', demo_mutation), (''i'', team_mutation)], ms_coordinators = []\<rparr>\<rparr>"

lemma team_transact_ok:
  "is_ok (fst (transact_many no_fault [pm_transaction demo_mutation, pm_transaction team_mutation] sample_db))"
  by (simp add: transact_many_def demo_mutation_def team_mutation_def sample_db_def sql_bind_def require_owner_def
      statement_def sql_return_def in_transaction_def apply_operations_def apply_operation_def)

lemma team_participants: "check_participants team_host [demo_mutation, team_mutation] = Inr ()"
  by (simp add: check_participants_ok participant_ok_def team_host_def demo_host_defs team_mutation_def permits_def
      resource_owner_def plugin_active_def authorized_import_def held_imports_def team_graph_def team_resolved_def)

lemma team_commit: "\<exists>hs'. transact_prepared team_host [''h'', ''i''] team_state = (Inr (), hs')"
proof -
  let ?hs = "trace_data_mutation ''prepared-multi'' ''prepared_commit'' (length [''h'', ''i'']) ''started'' None team_state"
  have n: "named_mutations [''h'', ''i''] ?hs = [demo_mutation, team_mutation]" "all_prepared [''h'', ''i''] ?hs"
    by (simp_all add: named_mutations_def all_prepared_def team_state_def bt_has_def)
  have g: "permits (ph_authority team_host) persistence_write" "\<not> ph_cancelled team_host"
    "ms_generation (hs_scope ?hs) = ph_generation team_host" "ph_fault team_host = no_fault"
    by (simp_all add: team_host_def team_state_def demo_host_def permits_def)
  from n g have "commit_prepared team_host [''h'', ''i''] ?hs = on_persistence team_host
      (transact_many no_fault [pm_transaction demo_mutation, pm_transaction team_mutation]) (taken [''h'', ''i''] ?hs)"
    by (simp add: commit_prepared_eq team_participants)
  moreover have "hs_db team_state = sample_db" by (simp add: team_state_def demo_state_def)
  ultimately have "is_ok (fst (transact_prepared team_host [''h'', ''i''] team_state))"
    unfolding transact_prepared_fields [OF refl] using team_transact_ok by (simp add: on_persistence_fields)
  then show ?thesis by (cases "transact_prepared team_host [''h'', ''i''] team_state") (auto simp: is_ok_iff)
qed

theorem cross_plugin_commit_is_granted_witness:
  "(\<exists>owner\<in>set [team_plugin ''a'', team_plugin ''b'']. pm_id owner = ''b'' \<and> permits (pm_maximum owner) persistence_write) \<and>
   (\<exists>committer\<in>set [team_plugin ''a'', team_plugin ''b'']. pm_id committer = ph_plugin team_host \<and>
      permits (pm_maximum committer) persistence_write)"
proof -
  obtain hs' where c: "transact_prepared team_host [''h'', ''i''] team_state = (Inr (), hs')" using team_commit by blast
  have "compile_graph [team_plugin ''a'', team_plugin ''b''] [team_importer, team_exporter] {persistence_write} None =
      Some (Inr (ph_graph team_host))"
    by (simp add: team_compiled team_host_def)
  moreover have "team_mutation \<in> set (named_mutations [''h'', ''i''] team_state)"
    by (simp add: named_mutations_def team_state_def)
  moreover have "nt_owner (pm_transaction team_mutation) \<noteq> ph_plugin team_host" "nt_owner (pm_transaction team_mutation) = ''b''"
    by (simp_all add: team_mutation_def team_host_def demo_host_def)
  ultimately show ?thesis using cross_plugin_commit_is_granted [OF _ c] by metis
qed

end
